(* ===== verification/Prelude.thy ===== *)
theory Prelude
  imports Main "HOL-Library.Word"
begin

unbundle bit_operations_syntax

text \<open>
  Shared vocabulary of the development.

  \<^item> Machine integers of the C sources as words of their width.
  \<^item> The library's error codes (\<open>lib/includes/zngtcp2/zngtcp2.h\<close>) as a datatype.
  \<^item> \<open>'a res\<close>, the outcome of a C function that may fail: \<open>Ok\<close> a normal return,
    \<open>Err\<close> a negative library error code, \<open>Fault\<close> undefined behaviour of the C program:
    a read, a write or a pointer step outside a buffer, a failed \<open>assert\<close> or a reached
    \<open>ngtcp2_unreachable()\<close>.
  \<^item> Read pointers into a constant buffer: the pointer is the list of the bytes from the pointer
    to the end of the buffer, so advancing past one-beyond-the-end is a \<open>Fault\<close>.
  \<^item> Write pointers: the buffer is a list of bytes of fixed length and the pointer an offset.
\<close>

type_synonym u8 = "8 word"
type_synonym u16 = "16 word"
type_synonym u32 = "32 word"
type_synonym u64 = "64 word"
type_synonym i64 = "64 word" \<comment> \<open>\<open>int64_t\<close>: the bit pattern, read with \<open>sint\<close>\<close>

named_theorems rd_simps \<open>symbolic execution of reads\<close>
named_theorems wr_simps \<open>symbolic execution of writes\<close>

datatype lib_error =
    NGTCP2_ERR_INVALID_ARGUMENT | NGTCP2_ERR_NOBUF | NGTCP2_ERR_PROTO | NGTCP2_ERR_INVALID_STATE
  | NGTCP2_ERR_ACK_FRAME | NGTCP2_ERR_STREAM_ID_BLOCKED | NGTCP2_ERR_STREAM_IN_USE
  | NGTCP2_ERR_STREAM_DATA_BLOCKED | NGTCP2_ERR_FLOW_CONTROL | NGTCP2_ERR_CONNECTION_ID_LIMIT
  | NGTCP2_ERR_STREAM_LIMIT | NGTCP2_ERR_FINAL_SIZE | NGTCP2_ERR_CRYPTO
  | NGTCP2_ERR_PKT_NUM_EXHAUSTED | NGTCP2_ERR_REQUIRED_TRANSPORT_PARAM
  | NGTCP2_ERR_MALFORMED_TRANSPORT_PARAM | NGTCP2_ERR_FRAME_ENCODING | NGTCP2_ERR_DECRYPT
  | NGTCP2_ERR_STREAM_SHUT_WR | NGTCP2_ERR_STREAM_NOT_FOUND | NGTCP2_ERR_STREAM_STATE
  | NGTCP2_ERR_RECV_VERSION_NEGOTIATION | NGTCP2_ERR_CLOSING | NGTCP2_ERR_DRAINING
  | NGTCP2_ERR_TRANSPORT_PARAM | NGTCP2_ERR_DISCARD_PKT | NGTCP2_ERR_CONN_ID_BLOCKED
  | NGTCP2_ERR_INTERNAL | NGTCP2_ERR_CRYPTO_BUFFER_EXCEEDED | NGTCP2_ERR_WRITE_MORE
  | NGTCP2_ERR_RETRY | NGTCP2_ERR_DROP_CONN | NGTCP2_ERR_AEAD_LIMIT_REACHED
  | NGTCP2_ERR_NO_VIABLE_PATH | NGTCP2_ERR_VERSION_NEGOTIATION | NGTCP2_ERR_HANDSHAKE_TIMEOUT
  | NGTCP2_ERR_VERSION_NEGOTIATION_FAILURE | NGTCP2_ERR_IDLE_CLOSE | NGTCP2_ERR_FATAL
  | NGTCP2_ERR_NOMEM | NGTCP2_ERR_CALLBACK_FAILURE | NGTCP2_ERR_BUF_CONTRACT

datatype 'a res = Ok 'a | Err lib_error | Fault

fun bindR :: "'a res \<Rightarrow> ('a \<Rightarrow> 'b res) \<Rightarrow> 'b res" where
  "bindR (Ok x) f = f x"
| "bindR (Err e) f = Err e"
| "bindR Fault f = Fault"

definition assertR :: "bool \<Rightarrow> 'a res \<Rightarrow> 'a res" where
  "assertR b k = (if b then k else Fault)"

lemma assertR_simps [simp]: "assertR True k = k" "assertR False k = Fault"
  by (simp_all add: assertR_def)

lemma bindR_assoc: "bindR (bindR m f) g = bindR m (\<lambda>x. bindR (f x) g)"
  by (cases m) simp_all

lemma bindR_if [simp]: "bindR (if b then m else n) f = (if b then bindR m f else bindR n f)"
  by simp

lemma bindR_cong:
  "m = n \<Longrightarrow> (\<And>x. n = Ok x \<Longrightarrow> f x = g x) \<Longrightarrow> bindR m f = bindR n g"
  by (cases n) simp_all

lemma bindR_eq_Ok: "bindR m f = Ok y \<longleftrightarrow> (\<exists>x. m = Ok x \<and> f x = Ok y)"
  by (cases m) simp_all

lemma bindR_eq_Err: "bindR m f = Err e \<longleftrightarrow> m = Err e \<or> (\<exists>x. m = Ok x \<and> f x = Err e)"
  by (cases m) simp_all

lemma bindR_not_Fault: "m \<noteq> Fault \<Longrightarrow> (\<And>x. m = Ok x \<Longrightarrow> f x \<noteq> Fault) \<Longrightarrow> bindR m f \<noteq> Fault"
  by (cases m) simp_all

section \<open>Reading from a constant buffer\<close>

definition peek :: "u8 list \<Rightarrow> u8 res" where
  "peek p = (case p of [] \<Rightarrow> Fault | b # _ \<Rightarrow> Ok b)"

definition ptr_add :: "u8 list \<Rightarrow> nat \<Rightarrow> u8 list res" where
  "ptr_add p n = (if n \<le> length p then Ok (drop n p) else Fault)"

definition ptr_diff :: "u8 list \<Rightarrow> u8 list \<Rightarrow> nat" where
  "ptr_diff p base = length base - length p"

definition rd_bytes :: "u8 list \<Rightarrow> nat \<Rightarrow> (u8 list \<times> u8 list) res" where
  "rd_bytes p n = (if n \<le> length p then Ok (take n p, drop n p) else Fault)"

lemma peek_simps [simp]: "peek [] = Fault" "peek (b # p) = Ok b"
  by (simp_all add: peek_def)

lemma peek_Ok [rd_simps]: "0 < length p \<Longrightarrow> peek p = Ok (hd p)"
  by (cases p) simp_all

lemma ptr_add_Ok [rd_simps]: "n \<le> length p \<Longrightarrow> ptr_add p n = Ok (drop n p)"
  by (simp add: ptr_add_def)

lemma rd_bytes_Ok [rd_simps]: "n \<le> length p \<Longrightarrow> rd_bytes p n = Ok (take n p, drop n p)"
  by (simp add: rd_bytes_def)

lemma ptr_add_append [simp]: "n = length bs \<Longrightarrow> ptr_add (bs @ r) n = Ok r"
  by (simp add: ptr_add_def)

lemma rd_bytes_append [simp]: "n = length bs \<Longrightarrow> rd_bytes (bs @ r) n = Ok (bs, r)"
  by (simp add: rd_bytes_def)

lemma ptr_diff_append [simp]: "ptr_diff r (bs @ r) = length bs"
  by (simp add: ptr_diff_def)

section \<open>Writing to a buffer\<close>

text \<open>
  \<open>wr_bytes out p bs\<close> stores \<open>bs\<close> at offset \<open>p\<close> of the buffer \<open>out\<close> and returns the
  buffer and the position one beyond the last byte written; \<open>wr_or\<close> is \<open>*p |= m\<close>.
\<close>

definition wr_bytes :: "u8 list \<Rightarrow> nat \<Rightarrow> u8 list \<Rightarrow> (u8 list \<times> nat) res" where
  "wr_bytes out p bs =
     (if p + length bs \<le> length out
      then Ok (take p out @ bs @ drop (p + length bs) out, p + length bs) else Fault)"

definition wr_or :: "u8 list \<Rightarrow> nat \<Rightarrow> u8 \<Rightarrow> u8 list res" where
  "wr_or out p m = (if p < length out then Ok (out[p := out ! p OR m]) else Fault)"

text \<open>The buffer \<open>out\<close> whose first bytes are \<open>bs\<close>: what a sequence of writes leaves.\<close>

definition filled :: "u8 list \<Rightarrow> u8 list \<Rightarrow> u8 list" where
  "filled out bs = bs @ drop (length bs) out"

lemma filled_Nil [simp]: "filled out [] = out"
  by (simp add: filled_def)

lemma length_filled [simp]: "length bs \<le> length out \<Longrightarrow> length (filled out bs) = length out"
  by (simp add: filled_def)

lemma take_filled [simp]: "n = length bs \<Longrightarrow> take n (filled out bs) = bs"
  by (simp add: filled_def)

lemma drop_filled: "length bs \<le> n \<Longrightarrow> drop n (filled out bs) = drop n out"
  by (simp add: filled_def)

lemma wr_bytes_filled [wr_simps]:
  "p = length bs \<Longrightarrow> p + length cs \<le> length out \<Longrightarrow>
     wr_bytes (filled out bs) p cs = Ok (filled out (bs @ cs), p + length cs)"
  by (simp add: wr_bytes_def filled_def add.commute)

lemma wr_bytes_start [wr_simps]:
  "length cs \<le> length out \<Longrightarrow> wr_bytes out 0 cs = Ok (filled out cs, length cs)"
  by (simp add: wr_bytes_def filled_def)

lemma wr_or_filled [wr_simps]:
  "p = length bs \<Longrightarrow> p + length (b # cs) \<le> length out \<Longrightarrow>
     wr_or (filled out (bs @ b # cs)) p m = Ok (filled out (bs @ (b OR m) # cs))"
  by (simp add: wr_or_def filled_def nth_append list_update_append)

section \<open>Big-endian integers\<close>

primrec be_bytes :: "nat \<Rightarrow> 'a::len word \<Rightarrow> u8 list" where
  "be_bytes 0 w = []"
| "be_bytes (Suc k) w = ucast (drop_bit (8 * k) w) # be_bytes k w"

primrec be_value :: "u8 list \<Rightarrow> 'a::len word" where
  "be_value [] = 0"
| "be_value (b # bs) = push_bit (8 * length bs) (ucast b) OR be_value bs"

lemma length_be_bytes [simp]: "length (be_bytes k w) = k"
  by (induction k) simp_all

lemma take_bit_step:
  fixes w :: "'a::len word"
  shows "push_bit (8 * k) (ucast (ucast (drop_bit (8 * k) w) :: u8)) OR take_bit (8 * k) w
       = take_bit (8 * Suc k) w"
  by (rule bit_eqI) (auto simp: bit_simps)

lemma be_value_be_bytes: "be_value (be_bytes k w) = take_bit (8 * k) w"
  by (induction k) (simp_all add: take_bit_step del: mult_Suc_right)

lemma be_bytes_be_value_ucast:
  fixes w :: "'a::len word"
  assumes "LENGTH('a) \<le> LENGTH('b::len)"
  shows "(be_value (be_bytes k w) :: 'b word) = ucast (take_bit (8 * k) w)"
proof (induction k)
  case 0
  show ?case by simp
next
  case (Suc k)
  have "push_bit (8 * k) (ucast (ucast (drop_bit (8 * k) w) :: u8)) OR ucast (take_bit (8 * k) w)
        = (ucast (take_bit (8 * Suc k) w) :: 'b word)"
    using assms by (intro bit_eqI) (auto simp: bit_simps)
  with Suc show ?case by simp
qed

lemma be_value_or_head:
  "be_value ((b OR m) # bs) = be_value (b # bs) OR push_bit (8 * length bs) (ucast m)"
  by (rule bit_eqI) (auto simp: bit_simps)

section \<open>Words\<close>

lemma take_bit_word_small: "unat w < 2 ^ n \<Longrightarrow> take_bit n w = w"
  by (simp add: word_unat_eq_iff unsigned_take_bit_eq take_bit_nat_eq_self)

lemma unat_take_bit_less: "unat (take_bit n w) < 2 ^ n"
  by (simp add: unsigned_take_bit_eq)

lemma unat_bound8: "unat (w::u8) < 256"
proof -
  have "unat w < 2 ^ LENGTH(8)" by (rule unsigned_less)
  then show ?thesis by simp
qed

lemma unat_bound64: "unat (w::u64) < 18446744073709551616"
proof -
  have "unat w < 2 ^ LENGTH(64)" by (rule unsigned_less)
  then show ?thesis by simp
qed

lemma unat_add_no_overflow:
  fixes a b :: u64
  shows "unat a + unat b < 2 ^ 64 \<Longrightarrow> unat (a + b) = unat a + unat b"
  by (simp add: unat_word_ariths)

lemma unat_of_nat_u64: "n < 2 ^ 64 \<Longrightarrow> unat (of_nat n :: u64) = n"
  by (simp add: unsigned_of_nat take_bit_nat_eq_self)

lemma unat_ucast_u8_u64 [simp]: "unat (ucast (b::u8) :: u64) = unat b"
  using unat_bound8 [of b] by (simp add: unsigned_ucast_eq take_bit_nat_eq_self)

end
