(* ===== verification/Conv.thy ===== *)
theory Conv
  imports Prelude
begin

text \<open>
  \<open>lib/ngtcp2_conv.c\<close>: integers in network byte order, QUIC variable-length integers and
  truncated packet numbers. A getter takes a read pointer and returns the value and the advanced
  pointer; a putter takes the output buffer and an offset and returns the buffer and the advanced
  offset. \<open>varint_bytes\<close> is the reference encoding (RFC 9000, section 16) that the putter is
  shown to produce and the getter to invert.
\<close>

section \<open>Getters\<close>

definition ngtcp2_get_uint64be :: "u8 list \<Rightarrow> (u64 \<times> u8 list) res" where
  "ngtcp2_get_uint64be p = bindR (rd_bytes p 8) (\<lambda>(bs, p). Ok (be_value bs, p))"

definition ngtcp2_get_uint32be :: "u8 list \<Rightarrow> (u32 \<times> u8 list) res" where
  "ngtcp2_get_uint32be p = bindR (rd_bytes p 4) (\<lambda>(bs, p). Ok (be_value bs, p))"

definition ngtcp2_get_uint24be :: "u8 list \<Rightarrow> (u32 \<times> u8 list) res" where
  "ngtcp2_get_uint24be p = bindR (rd_bytes p 3) (\<lambda>(bs, p). Ok (be_value (0 # bs), p))"

definition ngtcp2_get_uint16be :: "u8 list \<Rightarrow> (u16 \<times> u8 list) res" where
  "ngtcp2_get_uint16be p = bindR (rd_bytes p 2) (\<lambda>(bs, p). Ok (be_value bs, p))"

definition ngtcp2_get_uvarint :: "u8 list \<Rightarrow> (u64 \<times> u8 list) res" where
  "ngtcp2_get_uvarint p =
     bindR (peek p) (\<lambda>b.
       let c = drop_bit 6 b in
       if c = 0 then bindR (ptr_add p 1) (\<lambda>p'. Ok (ucast b, p'))
       else if c = 1 then
         bindR (rd_bytes p 2) (\<lambda>(bs, p'). let n16 = be_value bs :: u16 in
           Ok (ucast (n16 AND 0x3FFF), p'))
       else if c = 2 then
         bindR (rd_bytes p 4) (\<lambda>(bs, p'). let n32 = be_value bs :: u32 in
           Ok (ucast (n32 AND 0x3FFFFFFF), p'))
       else if c = 3 then
         bindR (rd_bytes p 8) (\<lambda>(bs, p'). let n64 = be_value bs :: u64 in
           Ok (n64 AND 0x3FFFFFFFFFFFFFFF, p'))
       else Fault)"

text \<open>\<open>ngtcp2_get_varint\<close> reads the same bits into an \<open>int64_t\<close>.\<close>

definition ngtcp2_get_varint :: "u8 list \<Rightarrow> (i64 \<times> u8 list) res" where
  "ngtcp2_get_varint p = bindR (ngtcp2_get_uvarint p) (\<lambda>(n, p). Ok (n, p))"

definition ngtcp2_get_pkt_num :: "u8 list \<Rightarrow> nat \<Rightarrow> i64 res" where
  "ngtcp2_get_pkt_num p pkt_numlen =
     (if pkt_numlen = 1 then bindR (peek p) (\<lambda>b. Ok (ucast b))
      else if pkt_numlen = 2 then bindR (ngtcp2_get_uint16be p) (\<lambda>(s, _). Ok (ucast s))
      else if pkt_numlen = 3 then bindR (ngtcp2_get_uint24be p) (\<lambda>(l, _). Ok (ucast l))
      else if pkt_numlen = 4 then bindR (ngtcp2_get_uint32be p) (\<lambda>(l, _). Ok (ucast l))
      else Fault)"

definition ngtcp2_get_uvarintlen :: "u8 list \<Rightarrow> nat res" where
  "ngtcp2_get_uvarintlen p = bindR (peek p) (\<lambda>b. Ok (2 ^ unat (drop_bit 6 b)))"

section \<open>Putters\<close>

definition ngtcp2_put_uint64be :: "u8 list \<Rightarrow> nat \<Rightarrow> u64 \<Rightarrow> (u8 list \<times> nat) res" where
  "ngtcp2_put_uint64be out p n = wr_bytes out p (be_bytes 8 n)"

definition ngtcp2_put_uint32be :: "u8 list \<Rightarrow> nat \<Rightarrow> u32 \<Rightarrow> (u8 list \<times> nat) res" where
  "ngtcp2_put_uint32be out p n = wr_bytes out p (be_bytes 4 n)"

definition ngtcp2_put_uint24be :: "u8 list \<Rightarrow> nat \<Rightarrow> u32 \<Rightarrow> (u8 list \<times> nat) res" where
  "ngtcp2_put_uint24be out p n = wr_bytes out p (tl (be_bytes 4 n))"

definition ngtcp2_put_uint16be :: "u8 list \<Rightarrow> nat \<Rightarrow> u16 \<Rightarrow> (u8 list \<times> nat) res" where
  "ngtcp2_put_uint16be out p n = wr_bytes out p (be_bytes 2 n)"

definition ngtcp2_put_uvarint :: "u8 list \<Rightarrow> nat \<Rightarrow> u64 \<Rightarrow> (u8 list \<times> nat) res" where
  "ngtcp2_put_uvarint out p n =
     (if n < 64 then wr_bytes out p [ucast n]
      else if n < 16384 then
        bindR (ngtcp2_put_uint16be out p (ucast n)) (\<lambda>(out, rv).
        bindR (wr_or out p 0x40) (\<lambda>out. Ok (out, rv)))
      else if n < 1073741824 then
        bindR (ngtcp2_put_uint32be out p (ucast n)) (\<lambda>(out, rv).
        bindR (wr_or out p 0x80) (\<lambda>out. Ok (out, rv)))
      else assertR (n < 4611686018427387904)
        (bindR (ngtcp2_put_uint64be out p n) (\<lambda>(out, rv).
         bindR (wr_or out p 0xC0) (\<lambda>out. Ok (out, rv)))))"

definition ngtcp2_put_uvarint30 :: "u8 list \<Rightarrow> nat \<Rightarrow> u32 \<Rightarrow> (u8 list \<times> nat) res" where
  "ngtcp2_put_uvarint30 out p n =
     assertR (n < 1073741824)
       (bindR (ngtcp2_put_uint32be out p n) (\<lambda>(out, rv).
        bindR (wr_or out p 0x80) (\<lambda>out. Ok (out, rv))))"

definition ngtcp2_put_pkt_num :: "u8 list \<Rightarrow> nat \<Rightarrow> i64 \<Rightarrow> nat \<Rightarrow> (u8 list \<times> nat) res" where
  "ngtcp2_put_pkt_num out p pkt_num len =
     (if len = 1 then wr_bytes out p [ucast pkt_num]
      else if len = 2 then ngtcp2_put_uint16be out p (ucast pkt_num)
      else if len = 3 then ngtcp2_put_uint24be out p (ucast pkt_num)
      else if len = 4 then ngtcp2_put_uint32be out p (ucast pkt_num)
      else Fault)"

definition ngtcp2_put_uvarintlen :: "u64 \<Rightarrow> nat res" where
  "ngtcp2_put_uvarintlen n =
     (if n < 64 then Ok 1
      else if n < 16384 then Ok 2
      else if n < 1073741824 then Ok 4
      else assertR (n < 4611686018427387904) (Ok 8))"

definition ngtcp2_ord_stream_id :: "i64 \<Rightarrow> u64" where
  "ngtcp2_ord_stream_id stream_id = signed_drop_bit 2 stream_id + 1"

section \<open>The reference encoding\<close>

definition varint_max :: u64 where
  "varint_max = 4611686018427387903"

definition varint_len :: "u64 \<Rightarrow> nat" where
  "varint_len n = (if n < 64 then 1 else if n < 16384 then 2 else if n < 1073741824 then 4 else 8)"

definition varint_bytes :: "u64 \<Rightarrow> u8 list" where
  "varint_bytes n =
     (if n < 64 then be_bytes 1 n
      else if n < 16384 then be_bytes 2 (n OR 0x4000)
      else if n < 1073741824 then be_bytes 4 (n OR 0x80000000)
      else be_bytes 8 (n OR 0xC000000000000000))"

definition varint30_bytes :: "u32 \<Rightarrow> u8 list" where
  "varint30_bytes n = be_bytes 4 (n OR 0x80000000)"

definition pkt_num_bytes :: "i64 \<Rightarrow> nat \<Rightarrow> u8 list" where
  "pkt_num_bytes pkt_num len = be_bytes len pkt_num"

section \<open>Lemmas\<close>

lemma length_varint_bytes [simp]: "length (varint_bytes n) = varint_len n"
  by (simp add: varint_bytes_def varint_len_def)

lemma varint_len_pos [simp]: "0 < varint_len n" "Suc 0 \<le> varint_len n" "varint_len n \<noteq> 0"
  by (simp_all add: varint_len_def)

lemma varint_len_le8: "varint_len n \<le> 8"
  by (simp add: varint_len_def)

lemma put_uvarintlen_Ok [simp]:
  "n \<le> varint_max \<Longrightarrow> ngtcp2_put_uvarintlen n = Ok (varint_len n)"
  by (auto simp: ngtcp2_put_uvarintlen_def varint_len_def varint_max_def assertR_def
      word_less_nat_alt word_le_nat_alt)

lemma be_bytes_ucast:
  fixes w :: "'a::len word"
  shows "8 * k \<le> LENGTH('b::len) \<Longrightarrow> be_bytes k (ucast w :: 'b word) = be_bytes k w"
proof (induction k)
  case (Suc k)
  have "ucast (drop_bit (8 * k) (ucast w :: 'b word)) = (ucast (drop_bit (8 * k) w) :: u8)"
    using Suc.prems by (intro bit_eqI) (auto simp: bit_simps)
  with Suc show ?case by simp
qed simp

lemma be_bytes_or: "be_bytes k (a OR b) = map2 (OR) (be_bytes k a) (be_bytes k b)"
proof (induction k)
  case (Suc k)
  have "ucast (drop_bit (8 * k) (a OR b))
      = (ucast (drop_bit (8 * k) a) OR ucast (drop_bit (8 * k) b) :: u8)"
    by (rule bit_eqI) (auto simp: bit_simps)
  with Suc show ?case by simp
qed simp

lemma be_bytes_split:
  "be_bytes 1 w = [ucast w]"
  "be_bytes 2 w = ucast (drop_bit 8 w) # be_bytes 1 w"
  "be_bytes 4 w = ucast (drop_bit 24 w) # be_bytes 3 w"
  "be_bytes 8 w = ucast (drop_bit 56 w) # be_bytes 7 w"
  by (simp_all add: numeral_eq_Suc)

lemma map2_or_zeros: "map2 (OR) xs (replicate (length xs) (0::u8)) = xs"
  by (induction xs) simp_all

lemma be_bytes_tags:
  "be_bytes 2 (0x4000 :: u64) = 0x40 # replicate 1 0"
  "be_bytes 4 (0x80000000 :: u64) = 0x80 # replicate 3 0"
  "be_bytes 4 (0x80000000 :: u32) = 0x80 # replicate 3 0"
  "be_bytes 8 (0xC000000000000000 :: u64) = 0xC0 # replicate 7 0"
  by code_simp+

lemma be_bytes_tagged:
  "be_bytes 2 (n OR 0x4000 :: u64) = (ucast (drop_bit 8 n) OR 0x40) # be_bytes 1 n"
  "be_bytes 4 (n OR 0x80000000 :: u64) = (ucast (drop_bit 24 n) OR 0x80) # be_bytes 3 n"
  "be_bytes 4 (m OR 0x80000000 :: u32) = (ucast (drop_bit 24 m) OR 0x80) # be_bytes 3 m"
  "be_bytes 8 (n OR 0xC000000000000000 :: u64) = (ucast (drop_bit 56 n) OR 0xC0) # be_bytes 7 n"
  unfolding be_bytes_or be_bytes_tags
  using map2_or_zeros [of "be_bytes 1 n"] map2_or_zeros [of "be_bytes 3 n"]
    map2_or_zeros [of "be_bytes 3 m"] map2_or_zeros [of "be_bytes 7 n"]
  by (simp_all only: be_bytes_split(2-4) length_be_bytes list.simps zip_Cons_Cons prod.case)

subsection \<open>Symbolic execution of the putters\<close>

lemma put_then_tag:
  assumes "p = length bs" and "p + Suc (length cs) \<le> length out"
  shows "bindR (wr_bytes (filled out bs) p (b # cs)) (\<lambda>(out, rv).
           bindR (wr_or out p m) (\<lambda>out. Ok (out, rv)))
       = Ok (filled out (bs @ (b OR m) # cs), p + Suc (length cs))"
  using assms by (simp add: wr_bytes_filled wr_or_filled)

lemma put_uvarint_filled [wr_simps]:
  assumes "n \<le> varint_max" and "p = length bs" and "p + varint_len n \<le> length out"
  shows "ngtcp2_put_uvarint (filled out bs) p n = Ok (filled out (bs @ varint_bytes n), p + varint_len n)"
proof -
  note defs = ngtcp2_put_uvarint_def varint_bytes_def ngtcp2_put_uint16be_def
    ngtcp2_put_uint32be_def ngtcp2_put_uint64be_def be_bytes_tagged
  consider "n < 64" | "\<not> n < 64" "n < 16384" | "\<not> n < 64" "\<not> n < 16384" "n < 1073741824"
    | "\<not> n < 64" "\<not> n < 16384" "\<not> n < 1073741824"
    by blast
  then show ?thesis
  proof cases
    case 1
    with assms show ?thesis
      by (simp add: defs be_bytes_split varint_len_def wr_bytes_filled)
  next
    case 2
    have "be_bytes 2 (ucast n :: u16) = ucast (drop_bit 8 n) # be_bytes 1 n"
      by (subst be_bytes_ucast) (simp_all only: be_bytes_split(2), simp)
    with 2 put_then_tag [of p bs "be_bytes 1 n" out "ucast (drop_bit 8 n)" "0x40"] assms
    show ?thesis by (simp add: defs varint_len_def del: be_bytes.simps One_nat_def)
  next
    case 3
    have "be_bytes 4 (ucast n :: u32) = ucast (drop_bit 24 n) # be_bytes 3 n"
      by (subst be_bytes_ucast) (simp_all only: be_bytes_split(3), simp)
    with 3 put_then_tag [of p bs "be_bytes 3 n" out "ucast (drop_bit 24 n)" "0x80"] assms
    show ?thesis by (simp add: defs varint_len_def)
  next
    case 4
    have "n < 4611686018427387904"
      using assms(1) by (simp add: varint_max_def word_less_nat_alt word_le_nat_alt)
    with 4 put_then_tag [of p bs "be_bytes 7 n" out "ucast (drop_bit 56 n)" "0xC0"] assms
    show ?thesis by (simp add: defs varint_len_def be_bytes_split(4) [of n])
  qed
qed

lemma put_uvarint30_filled [wr_simps]:
  assumes "n < 1073741824" and "p = length bs" and "p + 4 \<le> length out"
  shows "ngtcp2_put_uvarint30 (filled out bs) p n = Ok (filled out (bs @ varint30_bytes n), p + 4)"
  unfolding ngtcp2_put_uvarint30_def ngtcp2_put_uint32be_def varint30_bytes_def be_bytes_tagged
    be_bytes_split(3) [of n]
  using put_then_tag [of p bs "be_bytes 3 n" out "ucast (drop_bit 24 n)" "0x80"] assms by simp

lemma length_varint30_bytes [simp]: "length (varint30_bytes n) = 4"
  by (simp add: varint30_bytes_def)

lemma length_pkt_num_bytes [simp]: "length (pkt_num_bytes n k) = k"
  by (simp add: pkt_num_bytes_def)

lemma put_pkt_num_filled [wr_simps]:
  assumes "1 \<le> k" "k \<le> 4" and "p = length bs" and "p + k \<le> length out"
  shows "ngtcp2_put_pkt_num (filled out bs) p n k = Ok (filled out (bs @ pkt_num_bytes n k), p + k)"
proof -
  have 1: "be_bytes 1 n = [ucast n]" and 3: "tl (be_bytes 4 (ucast n :: u32)) = be_bytes 3 n"
    by (simp_all add: be_bytes_split be_bytes_ucast)
  have "k = 1 \<or> k = 2 \<or> k = 3 \<or> k = 4" using assms by linarith
  then show ?thesis
    using assms 1 3 by (auto simp: ngtcp2_put_pkt_num_def pkt_num_bytes_def ngtcp2_put_uint16be_def
        ngtcp2_put_uint24be_def ngtcp2_put_uint32be_def be_bytes_ucast wr_bytes_filled)
qed

lemma put_uint32be_filled [wr_simps]:
  "p = length bs \<Longrightarrow> p + 4 \<le> length out \<Longrightarrow>
     ngtcp2_put_uint32be (filled out bs) p n = Ok (filled out (bs @ be_bytes 4 n), p + 4)"
  by (simp add: ngtcp2_put_uint32be_def wr_bytes_filled)

subsection \<open>Symbolic execution of the getters\<close>

lemma drop_bit_6_cases: "drop_bit 6 (b::u8) = 0 \<or> drop_bit 6 b = 1 \<or> drop_bit 6 b = 2 \<or> drop_bit 6 b = 3"
proof -
  have "unat (drop_bit 6 b) < 4"
    using unat_bound8 [of b] unfolding unat_drop_bit_eq by (simp add: drop_bit_eq_div)
  then have "unat (drop_bit 6 b) \<in> {0, 1, 2, 3}" by auto
  then show ?thesis by (simp add: word_unat_eq_iff)
qed

text \<open>The length announced by the two most significant bits of the first byte.\<close>

definition uvlen :: "u8 list \<Rightarrow> nat" where
  "uvlen p = 2 ^ unat (drop_bit 6 (hd p))"

lemma uvlen_cases: "uvlen p = 1 \<or> uvlen p = 2 \<or> uvlen p = 4 \<or> uvlen p = 8"
  using drop_bit_6_cases [of "hd p"] by (auto simp: uvlen_def)

lemma uvlen_pos [simp]: "Suc 0 \<le> uvlen p" "0 < uvlen p"
  by (simp_all add: uvlen_def)

lemma get_uvarintlen_Ok [rd_simps]: "0 < length p \<Longrightarrow> ngtcp2_get_uvarintlen p = Ok (uvlen p)"
  by (simp add: ngtcp2_get_uvarintlen_def peek_Ok uvlen_def)

text \<open>The value of the variable-length integer that starts at \<open>p\<close>.\<close>

definition uvval :: "u8 list \<Rightarrow> u64" where
  "uvval p = (let n = uvlen p in take_bit (8 * n - 2) (be_value (take n p)))"

lemma be_value_ucast:
  assumes "8 * length bs \<le> LENGTH('a::len)" and "8 * length bs \<le> LENGTH('b::len)"
  shows "ucast (be_value bs :: 'a word) = (be_value bs :: 'b word)"
  using assms
proof (induction bs)
  case (Cons b bs)
  have "ucast (push_bit (8 * length bs) (ucast b) OR x :: 'a word)
        = (push_bit (8 * length bs) (ucast b) OR ucast x :: 'b word)" for x
    using Cons.prems by (intro bit_eqI) (auto simp: bit_simps dest: bit_imp_le_length)
  with Cons show ?case by simp
qed simp

lemma get_uvarint_Ok [rd_simps]:
  assumes "0 < length p" and "uvlen p \<le> length p"
  shows "ngtcp2_get_uvarint p = Ok (uvval p, drop (uvlen p) p)"
proof -
  note ucasts = be_value_ucast [where 'a = 16 and 'b = 64] be_value_ucast [where 'a = 32 and 'b = 64]
  consider "drop_bit 6 (hd p) = 0" | "drop_bit 6 (hd p) = 1" | "drop_bit 6 (hd p) = 2"
    | "drop_bit 6 (hd p) = 3"
    using drop_bit_6_cases by blast
  then show ?thesis
  proof cases
    case 1
    moreover obtain b q where "p = b # q" using assms by (cases p) auto
    moreover have "take_bit 6 (ucast b :: u64) = ucast b" if "drop_bit 6 b = 0" for b :: u8
    proof -
      have "unat (drop_bit 6 b) = 0" using that by simp
      then have "unat b < 64" unfolding unat_drop_bit_eq by (simp add: drop_bit_eq_div)
      then show ?thesis
        by (simp add: take_bit_word_small)
    qed
    ultimately show ?thesis
      by (simp add: ngtcp2_get_uvarint_def uvlen_def uvval_def Let_def ptr_add_Ok)
  next
    case 2
    with assms show ?thesis
      by (simp add: ngtcp2_get_uvarint_def peek_Ok uvlen_def uvval_def Let_def rd_bytes_Ok
          unsigned_and_eq ucasts)
         (simp add: take_bit_eq_mask mask_eq_exp_minus_1)
  next
    case 3
    with assms show ?thesis
      by (simp add: ngtcp2_get_uvarint_def peek_Ok uvlen_def uvval_def Let_def rd_bytes_Ok
          unsigned_and_eq ucasts)
         (simp add: take_bit_eq_mask mask_eq_exp_minus_1)
  next
    case 4
    with assms show ?thesis
      by (simp add: ngtcp2_get_uvarint_def peek_Ok uvlen_def uvval_def Let_def rd_bytes_Ok)
         (simp add: take_bit_eq_mask mask_eq_exp_minus_1)
  qed
qed

subsection \<open>The getter inverts the putter\<close>

lemma uvval_le_max [simp]: "uvval p \<le> varint_max"
proof -
  have "uvval p = take_bit 62 (uvval p)"
    using uvlen_cases [of p] by (auto simp: uvval_def Let_def)
  then show ?thesis
    using unat_take_bit_less [of 62 "uvval p"] by (simp add: varint_max_def word_le_nat_alt)
qed

lemma drop_bit_tag:
  assumes "unat m < 2 ^ (6 + k)"
  shows "drop_bit 6 (ucast (drop_bit k (m::u64)) OR t :: u8) = drop_bit 6 t"
proof -
  have "\<not> bit m (6 + k + i)" for i
  proof -
    from assms have "take_bit (6 + k) m = m" by (rule take_bit_word_small)
    then show ?thesis by (metis bit_take_bit_iff le_add1 not_le)
  qed
  then show ?thesis
    by (intro bit_eqI) (auto simp: bit_simps add.commute add.left_commute)
qed

lemma uvlen_varint_bytes [simp]: 
  assumes "n \<le> varint_max"
  shows "uvlen (varint_bytes n @ r) = varint_len n"
proof -
  have *: "n < 4611686018427387904"
    using assms by (simp add: varint_max_def word_less_nat_alt word_le_nat_alt)
  consider "n < 64" | "\<not> n < 64" "n < 16384" | "\<not> n < 64" "\<not> n < 16384" "n < 1073741824"
    | "\<not> n < 64" "\<not> n < 16384" "\<not> n < 1073741824"
    by blast
  then show ?thesis
  proof cases
    case 1
    then show ?thesis using drop_bit_tag [of n 0 0]
      by (simp add: word_less_nat_alt uvlen_def varint_bytes_def varint_len_def be_bytes_split)
  next
    case 2
    then show ?thesis using drop_bit_tag [of n 8 "0x40"]
      by (simp add: word_less_nat_alt uvlen_def varint_bytes_def varint_len_def be_bytes_tagged)
  next
    case 3
    then show ?thesis using drop_bit_tag [of n 24 "0x80"]
      by (simp add: word_less_nat_alt uvlen_def varint_bytes_def varint_len_def be_bytes_tagged)
  next
    case 4
    then show ?thesis using drop_bit_tag [of n 56 "0xC0"] *
      by (simp add: word_less_nat_alt uvlen_def varint_bytes_def varint_len_def be_bytes_tagged)
  qed
qed

lemma varint_tags:
  "take_bit 6 (0 :: u64) = 0" "take_bit 14 (0x4000 :: u64) = 0"
  "take_bit 30 (0x80000000 :: u64) = 0" "take_bit 62 (0xC000000000000000 :: u64) = 0"
  by code_simp+

lemma take_bit_tagged:
  assumes "take_bit k t = 0" and "unat n < 2 ^ k" and "k \<le> j"
  shows "take_bit k (take_bit j (n OR t)) = n"
proof -
  have "take_bit k (take_bit j (n OR t)) = take_bit k n OR take_bit k t"
    using assms(3) by (simp only: take_bit_take_bit min_absorb1 take_bit_or)
  then show ?thesis using assms by (simp add: take_bit_word_small)
qed

lemma uvval_varint_bytes [simp]:
  assumes "n \<le> varint_max"
  shows "uvval (varint_bytes n @ r) = n"
proof -
  have *: "unat n < 4611686018427387904"
    using assms by (simp add: varint_max_def word_less_nat_alt word_le_nat_alt)
  have "uvval (varint_bytes n @ r) = take_bit (8 * varint_len n - 2) (be_value (varint_bytes n))"
    using assms by (simp add: uvval_def Let_def)
  also have "\<dots> = n"
    using * take_bit_tagged [OF varint_tags(1), of n 8] take_bit_tagged [OF varint_tags(2), of n 16]
      take_bit_tagged [OF varint_tags(3), of n 32] take_bit_tagged [OF varint_tags(4), of n 64]
    by (simp add: varint_len_def varint_bytes_def be_value_be_bytes word_less_nat_alt
        del: be_bytes.simps One_nat_def take_bit_or take_bit_take_bit)
  finally show ?thesis .
qed

lemma varint_bytes_nonempty [simp]: "varint_bytes n \<noteq> []"
  by (metis length_varint_bytes list.size(3) varint_len_pos(3))

lemma get_uvarintlen_varint [simp]:
  "n \<le> varint_max \<Longrightarrow> ngtcp2_get_uvarintlen (varint_bytes n @ r) = Ok (varint_len n)"
  by (simp add: get_uvarintlen_Ok)

lemma get_uvarint_varint [simp]:
  "n \<le> varint_max \<Longrightarrow> ngtcp2_get_uvarint (varint_bytes n @ r) = Ok (n, r)"
  by (simp add: get_uvarint_Ok)

lemma get_varint_Ok [rd_simps]:
  "0 < length p \<Longrightarrow> uvlen p \<le> length p \<Longrightarrow> ngtcp2_get_varint p = Ok (uvval p, drop (uvlen p) p)"
  by (simp add: ngtcp2_get_varint_def get_uvarint_Ok)

lemma get_varint_varint [simp]:
  "n \<le> varint_max \<Longrightarrow> ngtcp2_get_varint (varint_bytes n @ r) = Ok (n, r)"
  by (simp add: ngtcp2_get_varint_def)

section \<open>Round trip\<close>

text \<open>
  A variable-length integer that \<open>ngtcp2_put_uvarint\<close> writes is read back by
  \<open>ngtcp2_get_uvarint\<close>, and both step over exactly \<open>ngtcp2_put_uvarintlen\<close> bytes.
\<close>

theorem uvarint_put_get:
  assumes "n \<le> varint_max" "varint_len n \<le> length out"
  shows "ngtcp2_put_uvarintlen n = Ok (varint_len n) \<and>
    bindR (ngtcp2_put_uvarint out 0 n) (\<lambda>(out', p). bindR (ngtcp2_get_uvarint out') (\<lambda>(m, rest). Ok (m, p, rest))) =
      Ok (n, varint_len n, drop (varint_len n) out)"
  using assms put_uvarint_filled [where p = 0 and bs = "[]" and n = n and out = out] by (simp add: filled_def)

theorem uvarint_put_get_witness:
  "bindR (ngtcp2_put_uvarint [0, 0, 7] 0 300) (\<lambda>(out', p). bindR (ngtcp2_get_uvarint out') (\<lambda>(m, rest). Ok (m, p, rest))) =
     Ok (300, 2, [7])"
  using uvarint_put_get [of 300 "[0, 0, 7]"] by (simp add: varint_max_def varint_len_def)

end
