(* ===== verification/Frame.thy ===== *)
theory Frame
  imports Conv
begin

text \<open>
  The frame structures of \<open>lib/ngtcp2_pkt.h\<close>: one record per structure, and the union
  \<open>ngtcp2_frame\<close> as a datatype with one constructor per member. A \<open>ngtcp2_vec\<close> (base
  pointer and length) is the list of the bytes it references, so \<open>datacnt\<close>,
  \<open>reasonlen\<close>, \<open>tokenlen\<close> and \<open>rangecnt\<close> are lengths of lists. Left out are
  \<open>txbuf_stats\<close> (a pointer to statistics counters) and the fields \<open>dgram_id\<close>,
  \<open>txbuf_present\<close> and \<open>txbuf\<close> of \<open>ngtcp2_datagram\<close>, which neither the decoder
  nor the encoder of that frame touches.
\<close>

section \<open>Frame types\<close>

abbreviation (input) "NGTCP2_FRAME_PADDING \<equiv> 0x00"
abbreviation (input) "NGTCP2_FRAME_PING \<equiv> 0x01"
abbreviation (input) "NGTCP2_FRAME_ACK \<equiv> 0x02"
abbreviation (input) "NGTCP2_FRAME_ACK_ECN \<equiv> 0x03"
abbreviation (input) "NGTCP2_FRAME_RESET_STREAM \<equiv> 0x04"
abbreviation (input) "NGTCP2_FRAME_STOP_SENDING \<equiv> 0x05"
abbreviation (input) "NGTCP2_FRAME_CRYPTO \<equiv> 0x06"
abbreviation (input) "NGTCP2_FRAME_NEW_TOKEN \<equiv> 0x07"
abbreviation (input) "NGTCP2_FRAME_STREAM \<equiv> 0x08"
abbreviation (input) "NGTCP2_FRAME_MAX_DATA \<equiv> 0x10"
abbreviation (input) "NGTCP2_FRAME_MAX_STREAM_DATA \<equiv> 0x11"
abbreviation (input) "NGTCP2_FRAME_MAX_STREAMS_BIDI \<equiv> 0x12"
abbreviation (input) "NGTCP2_FRAME_MAX_STREAMS_UNI \<equiv> 0x13"
abbreviation (input) "NGTCP2_FRAME_DATA_BLOCKED \<equiv> 0x14"
abbreviation (input) "NGTCP2_FRAME_STREAM_DATA_BLOCKED \<equiv> 0x15"
abbreviation (input) "NGTCP2_FRAME_STREAMS_BLOCKED_BIDI \<equiv> 0x16"
abbreviation (input) "NGTCP2_FRAME_STREAMS_BLOCKED_UNI \<equiv> 0x17"
abbreviation (input) "NGTCP2_FRAME_NEW_CONNECTION_ID \<equiv> 0x18"
abbreviation (input) "NGTCP2_FRAME_RETIRE_CONNECTION_ID \<equiv> 0x19"
abbreviation (input) "NGTCP2_FRAME_PATH_CHALLENGE \<equiv> 0x1A"
abbreviation (input) "NGTCP2_FRAME_PATH_RESPONSE \<equiv> 0x1B"
abbreviation (input) "NGTCP2_FRAME_CONNECTION_CLOSE \<equiv> 0x1C"
abbreviation (input) "NGTCP2_FRAME_CONNECTION_CLOSE_APP \<equiv> 0x1D"
abbreviation (input) "NGTCP2_FRAME_HANDSHAKE_DONE \<equiv> 0x1E"
abbreviation (input) "NGTCP2_FRAME_DATAGRAM \<equiv> 0x30"
abbreviation (input) "NGTCP2_FRAME_DATAGRAM_LEN \<equiv> 0x31"

abbreviation (input) "NGTCP2_STREAM_FIN_BIT \<equiv> 0x01 :: u8"
abbreviation (input) "NGTCP2_STREAM_LEN_BIT \<equiv> 0x02 :: u8"
abbreviation (input) "NGTCP2_STREAM_OFF_BIT \<equiv> 0x04 :: u8"

definition NGTCP2_MAX_ACK_RANGES :: nat where "NGTCP2_MAX_ACK_RANGES = 32"
definition NGTCP2_MIN_CIDLEN :: nat where "NGTCP2_MIN_CIDLEN = 1"
definition NGTCP2_MAX_CIDLEN :: nat where "NGTCP2_MAX_CIDLEN = 20"

section \<open>Frame structures\<close>

record ngtcp2_stream =
  st_type :: u64
  st_flags :: u8
  st_fin :: bool
  st_stream_id :: i64
  st_offset :: u64
  st_data :: "u8 list list"
  st_txbuf_present :: bool
  st_txbuf :: "u8 list"

record ngtcp2_ack_range =
  ar_gap :: u64
  ar_len :: u64

record ngtcp2_ack =
  ack_type :: u64
  ack_largest_ack :: i64
  ack_delay :: u64
  ack_delay_unscaled :: u64
  ack_ect0 :: u64
  ack_ect1 :: u64
  ack_ce :: u64
  ack_first_ack_range :: u64
  ack_ranges :: "ngtcp2_ack_range list"

record ngtcp2_padding =
  pad_type :: u64
  pad_len :: nat

record ngtcp2_reset_stream =
  rs_type :: u64
  rs_stream_id :: i64
  rs_app_error_code :: u64
  rs_final_size :: u64

record ngtcp2_connection_close =
  cc_type :: u64
  cc_error_code :: u64
  cc_frame_type :: u64
  cc_reason :: "u8 list"

record ngtcp2_max_data =
  md_type :: u64
  md_max_data :: u64

record ngtcp2_max_stream_data =
  msd_type :: u64
  msd_stream_id :: i64
  msd_max_stream_data :: u64

record ngtcp2_max_streams =
  ms_type :: u64
  ms_max_streams :: u64

record ngtcp2_ping =
  ping_type :: u64

record ngtcp2_data_blocked =
  db_type :: u64
  db_offset :: u64

record ngtcp2_stream_data_blocked =
  sdb_type :: u64
  sdb_stream_id :: i64
  sdb_offset :: u64

record ngtcp2_streams_blocked =
  sb_type :: u64
  sb_max_streams :: u64

text \<open>A connection ID is its significant bytes (\<open>datalen\<close> of them).\<close>

type_synonym ngtcp2_cid = "u8 list"

record ngtcp2_new_connection_id =
  nci_type :: u64
  nci_seq :: u64
  nci_retire_prior_to :: u64
  nci_cid :: ngtcp2_cid
  nci_token :: "u8 list"

record ngtcp2_stop_sending =
  ss_type :: u64
  ss_stream_id :: i64
  ss_app_error_code :: u64

record ngtcp2_path_challenge =
  pc_type :: u64
  pc_data :: "u8 list"

record ngtcp2_path_response =
  pr_type :: u64
  pr_data :: "u8 list"

record ngtcp2_new_token =
  nt_type :: u64
  nt_token :: "u8 list"

record ngtcp2_retire_connection_id =
  rci_type :: u64
  rci_seq :: u64

record ngtcp2_handshake_done =
  hsd_type :: u64

record ngtcp2_datagram =
  dg_type :: u64
  dg_data :: "u8 list list"

datatype ngtcp2_frame =
    Fr_stream ngtcp2_stream
  | Fr_ack ngtcp2_ack
  | Fr_padding ngtcp2_padding
  | Fr_reset_stream ngtcp2_reset_stream
  | Fr_connection_close ngtcp2_connection_close
  | Fr_max_data ngtcp2_max_data
  | Fr_max_stream_data ngtcp2_max_stream_data
  | Fr_max_streams ngtcp2_max_streams
  | Fr_ping ngtcp2_ping
  | Fr_data_blocked ngtcp2_data_blocked
  | Fr_stream_data_blocked ngtcp2_stream_data_blocked
  | Fr_streams_blocked ngtcp2_streams_blocked
  | Fr_new_connection_id ngtcp2_new_connection_id
  | Fr_stop_sending ngtcp2_stop_sending
  | Fr_path_challenge ngtcp2_path_challenge
  | Fr_path_response ngtcp2_path_response
  | Fr_new_token ngtcp2_new_token
  | Fr_retire_connection_id ngtcp2_retire_connection_id
  | Fr_handshake_done ngtcp2_handshake_done
  | Fr_datagram ngtcp2_datagram

end
