(* ===== verification/Frame_Decode.thy ===== *)
theory Frame_Decode
  imports Frame
begin

text \<open>
  The frame decoders of \<open>lib/ngtcp2_pkt.c\<close>, one definition per C function, in the order of
  the source. A decoder first walks over the payload to check the lengths and then reads the fields
  in a second pass; both passes are modelled, with every bounds check, read and assertion. The
  lemmas show that no decoder reads outside the payload or fails an assertion, and that the length
  it returns is between one and the length of the payload. A field that the C code leaves
  unassigned (the ECN counts of an ACK frame without them) is 0 in the model.
\<close>

section \<open>Decoders\<close>

text \<open>
  The idiom of every decoder: read the length of the variable-length integer at \<open>p\<close>, add it to
  the number of bytes required so far (one of them already counted), fail if the payload is
  shorter.
\<close>

definition need_uvarint :: "nat \<Rightarrow> nat \<Rightarrow> u8 list \<Rightarrow> (nat \<times> nat) res" where
  "need_uvarint payloadlen len p =
     bindR (ngtcp2_get_uvarintlen p) (\<lambda>n.
       let len = len + (n - 1) in
       if payloadlen < len then Err NGTCP2_ERR_FRAME_ENCODING else Ok (n, len))"

definition skip_uvarint :: "nat \<Rightarrow> nat \<Rightarrow> u8 list \<Rightarrow> (nat \<times> u8 list) res" where
  "skip_uvarint payloadlen len p =
     bindR (need_uvarint payloadlen len p) (\<lambda>(n, len).
     bindR (ptr_add p n) (\<lambda>p. Ok (len, p)))"

definition ngtcp2_pkt_decode_stream_frame :: "u8 list \<Rightarrow> (ngtcp2_stream \<times> nat) res" where
  "ngtcp2_pkt_decode_stream_frame payload =
     (let payloadlen = length payload; len = 2 in
      if payloadlen < len then Err NGTCP2_ERR_FRAME_ENCODING else
      bindR (peek payload) (\<lambda>type.
      bindR (ptr_add payload 1) (\<lambda>p.
      bindR (skip_uvarint payloadlen len p) (\<lambda>(len, p).
      bindR (if type AND NGTCP2_STREAM_OFF_BIT \<noteq> 0 then
               (let len = len + 1 in
                if payloadlen < len then Err NGTCP2_ERR_FRAME_ENCODING else
                skip_uvarint payloadlen len p)
             else Ok (len, p)) (\<lambda>(len, p).
      bindR (if type AND NGTCP2_STREAM_LEN_BIT \<noteq> 0 then
               (let len = len + 1 in
                if payloadlen < len then Err NGTCP2_ERR_FRAME_ENCODING else
                bindR (need_uvarint payloadlen len p) (\<lambda>(ndatalen, len).
                bindR (ngtcp2_get_uvarint p) (\<lambda>(vi, _).
                if payloadlen - len < unat vi then Err NGTCP2_ERR_FRAME_ENCODING else
                Ok (len + unat vi, unat vi, ndatalen))))
             else Ok (payloadlen, 0, 0)) (\<lambda>(len, datalen, ndatalen).
      bindR (ptr_add payload 1) (\<lambda>p.
      bindR (ngtcp2_get_varint p) (\<lambda>(stream_id, p).
      bindR (if type AND NGTCP2_STREAM_OFF_BIT \<noteq> 0 then ngtcp2_get_uvarint p
             else Ok (0, p)) (\<lambda>(offset, p).
      bindR (if type AND NGTCP2_STREAM_LEN_BIT \<noteq> 0 then
               bindR (ptr_add p ndatalen) (\<lambda>p. Ok (datalen, p))
             else Ok (payloadlen - ptr_diff p payload, p)) (\<lambda>(datalen, p).
      bindR (if datalen \<noteq> 0 then bindR (rd_bytes p datalen) (\<lambda>(bs, p). Ok ([bs], p))
             else Ok ([], p)) (\<lambda>(data, p).
      assertR (ptr_diff p payload = len)
        (Ok (\<lparr>st_type = NGTCP2_FRAME_STREAM, st_flags = type AND NOT NGTCP2_FRAME_STREAM,
              st_fin = (type AND NGTCP2_STREAM_FIN_BIT \<noteq> 0), st_stream_id = stream_id,
              st_offset = offset, st_data = data, st_txbuf_present = False, st_txbuf = []\<rparr>,
             len)))))))))))))"

text \<open>
  The loops of the ACK decoder: \<open>k\<close> integers in a row (two per range, three ECN counts), and
  \<open>rangecnt\<close> ranges.
\<close>

fun skip_uvarints :: "nat \<Rightarrow> nat \<Rightarrow> nat \<Rightarrow> u8 list \<Rightarrow> (nat \<times> u8 list) res" where
  "skip_uvarints payloadlen 0 len p = Ok (len, p)"
| "skip_uvarints payloadlen (Suc j) len p =
     bindR (skip_uvarint payloadlen len p) (\<lambda>(len, p). skip_uvarints payloadlen j len p)"

fun skip_ack_ranges :: "nat \<Rightarrow> nat \<Rightarrow> nat \<Rightarrow> u8 list \<Rightarrow> (nat \<times> u8 list) res" where
  "skip_ack_ranges payloadlen 0 len p = Ok (len, p)"
| "skip_ack_ranges payloadlen (Suc i) len p =
     bindR (skip_uvarints payloadlen 2 len p) (\<lambda>(len, p). skip_ack_ranges payloadlen i len p)"

fun read_ack_ranges :: "nat \<Rightarrow> u8 list \<Rightarrow> (ngtcp2_ack_range list \<times> u8 list) res" where
  "read_ack_ranges 0 p = Ok ([], p)"
| "read_ack_ranges (Suc i) p =
     bindR (ngtcp2_get_uvarint p) (\<lambda>(gap, p).
     bindR (ngtcp2_get_uvarint p) (\<lambda>(len, p).
     bindR (read_ack_ranges i p) (\<lambda>(rs, p).
     Ok (\<lparr>ar_gap = gap, ar_len = len\<rparr> # rs, p))))"

fun pass_ack_ranges :: "nat \<Rightarrow> u8 list \<Rightarrow> u8 list res" where
  "pass_ack_ranges 0 p = Ok p"
| "pass_ack_ranges (Suc i) p =
     bindR (ngtcp2_get_uvarintlen p) (\<lambda>n. bindR (ptr_add p n) (\<lambda>p.
     bindR (ngtcp2_get_uvarintlen p) (\<lambda>n. bindR (ptr_add p n) (\<lambda>p.
     pass_ack_ranges i p))))"

text \<open>
  The first pass of the ACK decoder computes \<open>nrangecnt\<close>, \<open>rangecnt\<close> and \<open>len\<close>;
  \<open>ack_ranges_check\<close> is its part after the range count has been read.
\<close>

definition ack_ranges_check :: "nat \<Rightarrow> u8 \<Rightarrow> nat \<Rightarrow> nat \<Rightarrow> u8 list \<Rightarrow> nat res" where
  "ack_ranges_check payloadlen type rangecnt len p =
     bindR (skip_uvarint payloadlen len p) (\<lambda>(len, p).
     bindR (skip_ack_ranges payloadlen rangecnt len p) (\<lambda>(len, p).
     bindR (if type = NGTCP2_FRAME_ACK_ECN then
              (let len = len + 3 in
               if payloadlen < len then Err NGTCP2_ERR_FRAME_ENCODING else
               skip_uvarints payloadlen 3 len p)
            else Ok (len, p)) (\<lambda>(len, p).
     Ok len)))"

definition ack_frame_check :: "u8 list \<Rightarrow> (nat \<times> nat \<times> nat) res" where
  "ack_frame_check payload =
     (let payloadlen = length payload; len = 5 in
      if payloadlen < len then Err NGTCP2_ERR_FRAME_ENCODING else
      bindR (peek payload) (\<lambda>type.
      bindR (ptr_add payload 1) (\<lambda>p.
      bindR (skip_uvarint payloadlen len p) (\<lambda>(len, p).
      bindR (skip_uvarint payloadlen len p) (\<lambda>(len, p).
      bindR (need_uvarint payloadlen len p) (\<lambda>(nrangecnt, len).
      bindR (ngtcp2_get_uvarint p) (\<lambda>(vi, p).
      if 0xFFFFFFFFFFFFFFFF div 2 < vi \<or> payloadlen - len < unat (vi * 2)
      then Err NGTCP2_ERR_FRAME_ENCODING else
      let rangecnt = unat vi; len = len + rangecnt * 2 in
      bindR (ack_ranges_check payloadlen type rangecnt len p) (\<lambda>len.
      Ok (nrangecnt, rangecnt, len)))))))))"

definition ngtcp2_pkt_decode_ack_frame :: "u8 list \<Rightarrow> (ngtcp2_ack \<times> nat) res" where
  "ngtcp2_pkt_decode_ack_frame payload =
     bindR (ack_frame_check payload) (\<lambda>(nrangecnt, rangecnt, len).
     let max_rangecnt = min NGTCP2_MAX_ACK_RANGES rangecnt in
     bindR (peek payload) (\<lambda>type.
     bindR (ptr_add payload 1) (\<lambda>p.
     bindR (ngtcp2_get_varint p) (\<lambda>(largest_ack, p).
     bindR (ngtcp2_get_uvarint p) (\<lambda>(delay, p).
     bindR (ptr_add p nrangecnt) (\<lambda>p.
     bindR (ngtcp2_get_uvarint p) (\<lambda>(first_ack_range, p).
     bindR (read_ack_ranges max_rangecnt p) (\<lambda>(ranges, p).
     bindR (pass_ack_ranges (rangecnt - max_rangecnt) p) (\<lambda>p.
     bindR (if type = NGTCP2_FRAME_ACK_ECN then
              bindR (ngtcp2_get_uvarint p) (\<lambda>(ect0, p).
              bindR (ngtcp2_get_uvarint p) (\<lambda>(ect1, p).
              bindR (ngtcp2_get_uvarint p) (\<lambda>(ce, p). Ok ((ect0, ect1, ce), p))))
            else Ok ((0, 0, 0), p)) (\<lambda>((ect0, ect1, ce), p).
     assertR (ptr_diff p payload = len)
       (Ok (\<lparr>ack_type = ucast type, ack_largest_ack = largest_ack, ack_delay = delay,
             ack_delay_unscaled = 0, ack_ect0 = ect0, ack_ect1 = ect1, ack_ce = ce,
             ack_first_ack_range = first_ack_range, ack_ranges = ranges\<rparr>, len))))))))))))"

definition ngtcp2_pkt_decode_padding_frame :: "u8 list \<Rightarrow> (ngtcp2_padding \<times> nat) res" where
  "ngtcp2_pkt_decode_padding_frame payload =
     assertR (length payload > 0)
       (let n = 1 + length (takeWhile (\<lambda>b. b = NGTCP2_FRAME_PADDING) (drop 1 payload)) in
        Ok (\<lparr>pad_type = NGTCP2_FRAME_PADDING, pad_len = n\<rparr>, n))"

definition ngtcp2_pkt_decode_reset_stream_frame :: "u8 list \<Rightarrow> (ngtcp2_reset_stream \<times> nat) res" where
  "ngtcp2_pkt_decode_reset_stream_frame payload =
     (let payloadlen = length payload; len = 4 in
      if payloadlen < len then Err NGTCP2_ERR_FRAME_ENCODING else
      bindR (ptr_add payload 1) (\<lambda>p.
      bindR (skip_uvarint payloadlen len p) (\<lambda>(len, p).
      bindR (skip_uvarint payloadlen len p) (\<lambda>(len, p).
      bindR (need_uvarint payloadlen len p) (\<lambda>(n, len).
      bindR (ptr_add payload 1) (\<lambda>p.
      bindR (ngtcp2_get_varint p) (\<lambda>(stream_id, p).
      bindR (ngtcp2_get_uvarint p) (\<lambda>(app_error_code, p).
      bindR (ngtcp2_get_uvarint p) (\<lambda>(final_size, p).
      assertR (ptr_diff p payload = len)
        (Ok (\<lparr>rs_type = NGTCP2_FRAME_RESET_STREAM, rs_stream_id = stream_id,
              rs_app_error_code = app_error_code, rs_final_size = final_size\<rparr>, len)))))))))))"

definition ngtcp2_pkt_decode_connection_close_frame ::
    "u8 list \<Rightarrow> (ngtcp2_connection_close \<times> nat) res" where
  "ngtcp2_pkt_decode_connection_close_frame payload =
     (let payloadlen = length payload; len = 3 in
      if payloadlen < len then Err NGTCP2_ERR_FRAME_ENCODING else
      bindR (peek payload) (\<lambda>type.
      bindR (ptr_add payload 1) (\<lambda>p.
      bindR (skip_uvarint payloadlen len p) (\<lambda>(len, p).
      bindR (if type = NGTCP2_FRAME_CONNECTION_CLOSE then skip_uvarint payloadlen (len + 1) p
             else Ok (len, p)) (\<lambda>(len, p).
      bindR (need_uvarint payloadlen len p) (\<lambda>(nreasonlen, len).
      bindR (ngtcp2_get_uvarint p) (\<lambda>(vi, _).
      if payloadlen - len < unat vi then Err NGTCP2_ERR_FRAME_ENCODING else
      let reasonlen = unat vi; len = len + reasonlen in
      bindR (ptr_add payload 1) (\<lambda>p.
      bindR (ngtcp2_get_uvarint p) (\<lambda>(error_code, p).
      bindR (if type = NGTCP2_FRAME_CONNECTION_CLOSE then ngtcp2_get_uvarint p
             else Ok (0, p)) (\<lambda>(frame_type, p).
      bindR (ptr_add p nreasonlen) (\<lambda>p.
      bindR (if reasonlen = 0 then Ok ([], p) else rd_bytes p reasonlen) (\<lambda>(reason, p).
      assertR (ptr_diff p payload = len)
        (Ok (\<lparr>cc_type = ucast type, cc_error_code = error_code, cc_frame_type = frame_type,
              cc_reason = reason\<rparr>, len))))))))))))))"

definition ngtcp2_pkt_decode_max_data_frame :: "u8 list \<Rightarrow> (ngtcp2_max_data \<times> nat) res" where
  "ngtcp2_pkt_decode_max_data_frame payload =
     (let payloadlen = length payload; len = 2 in
      if payloadlen < len then Err NGTCP2_ERR_FRAME_ENCODING else
      bindR (ptr_add payload 1) (\<lambda>p.
      bindR (need_uvarint payloadlen len p) (\<lambda>(n, len).
      bindR (ngtcp2_get_uvarint p) (\<lambda>(max_data, p).
      assertR (ptr_diff p payload = len)
        (Ok (\<lparr>md_type = NGTCP2_FRAME_MAX_DATA, md_max_data = max_data\<rparr>, len))))))"

definition ngtcp2_pkt_decode_max_stream_data_frame ::
    "u8 list \<Rightarrow> (ngtcp2_max_stream_data \<times> nat) res" where
  "ngtcp2_pkt_decode_max_stream_data_frame payload =
     (let payloadlen = length payload; len = 3 in
      if payloadlen < len then Err NGTCP2_ERR_FRAME_ENCODING else
      bindR (ptr_add payload 1) (\<lambda>p.
      bindR (skip_uvarint payloadlen len p) (\<lambda>(len, p).
      bindR (need_uvarint payloadlen len p) (\<lambda>(n, len).
      bindR (ptr_add payload 1) (\<lambda>p.
      bindR (ngtcp2_get_varint p) (\<lambda>(stream_id, p).
      bindR (ngtcp2_get_uvarint p) (\<lambda>(max_stream_data, p).
      assertR (ptr_diff p payload = len)
        (Ok (\<lparr>msd_type = NGTCP2_FRAME_MAX_STREAM_DATA, msd_stream_id = stream_id,
              msd_max_stream_data = max_stream_data\<rparr>, len)))))))))"

definition ngtcp2_pkt_decode_max_streams_frame :: "u8 list \<Rightarrow> (ngtcp2_max_streams \<times> nat) res" where
  "ngtcp2_pkt_decode_max_streams_frame payload =
     (let payloadlen = length payload; len = 2 in
      if payloadlen < len then Err NGTCP2_ERR_FRAME_ENCODING else
      bindR (ptr_add payload 1) (\<lambda>p.
      bindR (need_uvarint payloadlen len p) (\<lambda>(n, len).
      bindR (peek payload) (\<lambda>type.
      bindR (ngtcp2_get_uvarint p) (\<lambda>(max_streams, p).
      assertR (ptr_diff p payload = len)
        (Ok (\<lparr>ms_type = ucast type, ms_max_streams = max_streams\<rparr>, len)))))))"

definition ngtcp2_pkt_decode_ping_frame :: "u8 list \<Rightarrow> (ngtcp2_ping \<times> nat) res" where
  "ngtcp2_pkt_decode_ping_frame payload =
     assertR (length payload > 0) (Ok (\<lparr>ping_type = NGTCP2_FRAME_PING\<rparr>, 1))"

definition ngtcp2_pkt_decode_data_blocked_frame :: "u8 list \<Rightarrow> (ngtcp2_data_blocked \<times> nat) res" where
  "ngtcp2_pkt_decode_data_blocked_frame payload =
     (let payloadlen = length payload; len = 2 in
      if payloadlen < len then Err NGTCP2_ERR_FRAME_ENCODING else
      bindR (ptr_add payload 1) (\<lambda>p.
      bindR (need_uvarint payloadlen len p) (\<lambda>(n, len).
      bindR (ngtcp2_get_uvarint p) (\<lambda>(offset, p).
      assertR (ptr_diff p payload = len)
        (Ok (\<lparr>db_type = NGTCP2_FRAME_DATA_BLOCKED, db_offset = offset\<rparr>, len))))))"

definition ngtcp2_pkt_decode_stream_data_blocked_frame ::
    "u8 list \<Rightarrow> (ngtcp2_stream_data_blocked \<times> nat) res" where
  "ngtcp2_pkt_decode_stream_data_blocked_frame payload =
     (let payloadlen = length payload; len = 3 in
      if payloadlen < len then Err NGTCP2_ERR_FRAME_ENCODING else
      bindR (ptr_add payload 1) (\<lambda>p.
      bindR (skip_uvarint payloadlen len p) (\<lambda>(len, p).
      bindR (need_uvarint payloadlen len p) (\<lambda>(n, len).
      bindR (ptr_add payload 1) (\<lambda>p.
      bindR (ngtcp2_get_varint p) (\<lambda>(stream_id, p).
      bindR (ngtcp2_get_uvarint p) (\<lambda>(offset, p).
      assertR (ptr_diff p payload = len)
        (Ok (\<lparr>sdb_type = NGTCP2_FRAME_STREAM_DATA_BLOCKED, sdb_stream_id = stream_id,
              sdb_offset = offset\<rparr>, len)))))))))"

definition ngtcp2_pkt_decode_streams_blocked_frame ::
    "u8 list \<Rightarrow> (ngtcp2_streams_blocked \<times> nat) res" where
  "ngtcp2_pkt_decode_streams_blocked_frame payload =
     (let payloadlen = length payload; len = 2 in
      if payloadlen < len then Err NGTCP2_ERR_FRAME_ENCODING else
      bindR (ptr_add payload 1) (\<lambda>p.
      bindR (need_uvarint payloadlen len p) (\<lambda>(n, len).
      bindR (peek payload) (\<lambda>type.
      bindR (ngtcp2_get_uvarint p) (\<lambda>(max_streams, p).
      assertR (ptr_diff p payload = len)
        (Ok (\<lparr>sb_type = ucast type, sb_max_streams = max_streams\<rparr>, len)))))))"

definition ngtcp2_pkt_decode_new_connection_id_frame ::
    "u8 list \<Rightarrow> (ngtcp2_new_connection_id \<times> nat) res" where
  "ngtcp2_pkt_decode_new_connection_id_frame payload =
     (let payloadlen = length payload; len = 20 in
      if payloadlen < len then Err NGTCP2_ERR_FRAME_ENCODING else
      bindR (ptr_add payload 1) (\<lambda>p.
      bindR (skip_uvarint payloadlen len p) (\<lambda>(len, p).
      bindR (skip_uvarint payloadlen len p) (\<lambda>(len, p).
      bindR (peek p) (\<lambda>b.
      let cil = unat b in
      if cil < NGTCP2_MIN_CIDLEN \<or> NGTCP2_MAX_CIDLEN < cil then Err NGTCP2_ERR_FRAME_ENCODING else
      let len = len + cil in
      if payloadlen < len then Err NGTCP2_ERR_FRAME_ENCODING else
      bindR (ptr_add payload 1) (\<lambda>p.
      bindR (ngtcp2_get_uvarint p) (\<lambda>(seq, p).
      bindR (ngtcp2_get_uvarint p) (\<lambda>(retire_prior_to, p).
      bindR (ptr_add p 1) (\<lambda>p.
      bindR (rd_bytes p cil) (\<lambda>(cid, p).
      bindR (rd_bytes p 16) (\<lambda>(token, p).
      assertR (ptr_diff p payload = len)
        (Ok (\<lparr>nci_type = NGTCP2_FRAME_NEW_CONNECTION_ID, nci_seq = seq,
              nci_retire_prior_to = retire_prior_to, nci_cid = cid, nci_token = token\<rparr>,
             len)))))))))))))"

definition ngtcp2_pkt_decode_stop_sending_frame :: "u8 list \<Rightarrow> (ngtcp2_stop_sending \<times> nat) res" where
  "ngtcp2_pkt_decode_stop_sending_frame payload =
     (let payloadlen = length payload; len = 3 in
      if payloadlen < len then Err NGTCP2_ERR_FRAME_ENCODING else
      bindR (ptr_add payload 1) (\<lambda>p.
      bindR (skip_uvarint payloadlen len p) (\<lambda>(len, p).
      bindR (need_uvarint payloadlen len p) (\<lambda>(n, len).
      bindR (ptr_add payload 1) (\<lambda>p.
      bindR (ngtcp2_get_varint p) (\<lambda>(stream_id, p).
      bindR (ngtcp2_get_uvarint p) (\<lambda>(app_error_code, p).
      assertR (ptr_diff p payload = len)
        (Ok (\<lparr>ss_type = NGTCP2_FRAME_STOP_SENDING, ss_stream_id = stream_id,
              ss_app_error_code = app_error_code\<rparr>, len)))))))))"

definition ngtcp2_pkt_decode_path_challenge_frame ::
    "u8 list \<Rightarrow> (ngtcp2_path_challenge \<times> nat) res" where
  "ngtcp2_pkt_decode_path_challenge_frame payload =
     (let payloadlen = length payload; len = 9 in
      if payloadlen < len then Err NGTCP2_ERR_FRAME_ENCODING else
      bindR (ptr_add payload 1) (\<lambda>p.
      bindR (rd_bytes p 8) (\<lambda>(data, p).
      assertR (ptr_diff p payload = len)
        (Ok (\<lparr>pc_type = NGTCP2_FRAME_PATH_CHALLENGE, pc_data = data\<rparr>, len)))))"

definition ngtcp2_pkt_decode_path_response_frame ::
    "u8 list \<Rightarrow> (ngtcp2_path_response \<times> nat) res" where
  "ngtcp2_pkt_decode_path_response_frame payload =
     (let payloadlen = length payload; len = 9 in
      if payloadlen < len then Err NGTCP2_ERR_FRAME_ENCODING else
      bindR (ptr_add payload 1) (\<lambda>p.
      bindR (rd_bytes p 8) (\<lambda>(data, p).
      assertR (ptr_diff p payload = len)
        (Ok (\<lparr>pr_type = NGTCP2_FRAME_PATH_RESPONSE, pr_data = data\<rparr>, len)))))"

definition ngtcp2_pkt_decode_crypto_frame :: "u8 list \<Rightarrow> (ngtcp2_stream \<times> nat) res" where
  "ngtcp2_pkt_decode_crypto_frame payload =
     (let payloadlen = length payload; len = 3 in
      if payloadlen < len then Err NGTCP2_ERR_FRAME_ENCODING else
      bindR (ptr_add payload 1) (\<lambda>p.
      bindR (skip_uvarint payloadlen len p) (\<lambda>(len, p).
      bindR (need_uvarint payloadlen len p) (\<lambda>(ndatalen, len).
      bindR (ngtcp2_get_uvarint p) (\<lambda>(vi, _).
      if payloadlen - len < unat vi then Err NGTCP2_ERR_FRAME_ENCODING else
      let datalen = unat vi; len = len + datalen in
      bindR (ptr_add payload 1) (\<lambda>p.
      bindR (ngtcp2_get_uvarint p) (\<lambda>(offset, p).
      bindR (ptr_add p ndatalen) (\<lambda>p.
      bindR (if datalen \<noteq> 0 then bindR (rd_bytes p datalen) (\<lambda>(bs, p). Ok ([bs], p))
             else Ok ([], p)) (\<lambda>(data, p).
      assertR (ptr_diff p payload = len)
        (Ok (\<lparr>st_type = NGTCP2_FRAME_CRYPTO, st_flags = 0, st_fin = False, st_stream_id = 0,
              st_offset = offset, st_data = data, st_txbuf_present = False, st_txbuf = []\<rparr>,
             len)))))))))))"

definition ngtcp2_pkt_decode_new_token_frame :: "u8 list \<Rightarrow> (ngtcp2_new_token \<times> nat) res" where
  "ngtcp2_pkt_decode_new_token_frame payload =
     (let payloadlen = length payload; len = 2 in
      if payloadlen < len then Err NGTCP2_ERR_FRAME_ENCODING else
      bindR (ptr_add payload 1) (\<lambda>p.
      bindR (need_uvarint payloadlen len p) (\<lambda>(n, len).
      bindR (ngtcp2_get_uvarint p) (\<lambda>(vi, p).
      if payloadlen - len < unat vi then Err NGTCP2_ERR_FRAME_ENCODING else
      let datalen = unat vi; len = len + datalen in
      bindR (rd_bytes p datalen) (\<lambda>(token, p).
      assertR (ptr_diff p payload = len)
        (Ok (\<lparr>nt_type = NGTCP2_FRAME_NEW_TOKEN, nt_token = token\<rparr>, len)))))))"

definition ngtcp2_pkt_decode_retire_connection_id_frame ::
    "u8 list \<Rightarrow> (ngtcp2_retire_connection_id \<times> nat) res" where
  "ngtcp2_pkt_decode_retire_connection_id_frame payload =
     (let payloadlen = length payload; len = 2 in
      if payloadlen < len then Err NGTCP2_ERR_FRAME_ENCODING else
      bindR (ptr_add payload 1) (\<lambda>p.
      bindR (need_uvarint payloadlen len p) (\<lambda>(n, len).
      bindR (ngtcp2_get_uvarint p) (\<lambda>(seq, p).
      assertR (ptr_diff p payload = len)
        (Ok (\<lparr>rci_type = NGTCP2_FRAME_RETIRE_CONNECTION_ID, rci_seq = seq\<rparr>, len))))))"

definition ngtcp2_pkt_decode_handshake_done_frame ::
    "u8 list \<Rightarrow> (ngtcp2_handshake_done \<times> nat) res" where
  "ngtcp2_pkt_decode_handshake_done_frame payload =
     assertR (length payload > 0) (Ok (\<lparr>hsd_type = NGTCP2_FRAME_HANDSHAKE_DONE\<rparr>, 1))"

definition ngtcp2_pkt_decode_datagram_frame :: "u8 list \<Rightarrow> (ngtcp2_datagram \<times> nat) res" where
  "ngtcp2_pkt_decode_datagram_frame payload =
     assertR (length payload > 0)
     (let payloadlen = length payload; len = 1 in
      bindR (peek payload) (\<lambda>type.
      bindR (ptr_add payload 1) (\<lambda>p.
      bindR (if type = NGTCP2_FRAME_DATAGRAM then Ok (payloadlen - 1, payloadlen, p)
             else if type = NGTCP2_FRAME_DATAGRAM_LEN then
               (let len = len + 1 in
                if payloadlen < len then Err NGTCP2_ERR_FRAME_ENCODING else
                bindR (need_uvarint payloadlen len p) (\<lambda>(n, len).
                bindR (ngtcp2_get_uvarint p) (\<lambda>(vi, p).
                if payloadlen - len < unat vi then Err NGTCP2_ERR_FRAME_ENCODING else
                Ok (unat vi, len + unat vi, p))))
             else Fault) (\<lambda>(datalen, len, p).
      bindR (if datalen \<noteq> 0 then bindR (rd_bytes p datalen) (\<lambda>(bs, p). Ok ([bs], p))
             else Ok ([], p)) (\<lambda>(data, p).
      assertR (ptr_diff p payload = len)
        (Ok (\<lparr>dg_type = ucast type, dg_data = data\<rparr>, len)))))))"

text \<open>The member of the union that a decoder fills.\<close>

definition as_frame :: "('a \<Rightarrow> ngtcp2_frame) \<Rightarrow> ('a \<times> nat) res \<Rightarrow> (ngtcp2_frame \<times> nat) res" where
  "as_frame c r = bindR r (\<lambda>(x, n). Ok (c x, n))"

definition ngtcp2_frame_decoder_decode :: "u8 list \<Rightarrow> (ngtcp2_frame \<times> nat) res" where
  "ngtcp2_frame_decoder_decode payload =
     (if length payload = 0 then Err NGTCP2_ERR_FRAME_ENCODING else
      bindR (peek payload) (\<lambda>type.
      if type = NGTCP2_FRAME_PADDING then
        as_frame Fr_padding (ngtcp2_pkt_decode_padding_frame payload)
      else if type = NGTCP2_FRAME_RESET_STREAM then
        as_frame Fr_reset_stream (ngtcp2_pkt_decode_reset_stream_frame payload)
      else if type = NGTCP2_FRAME_CONNECTION_CLOSE \<or> type = NGTCP2_FRAME_CONNECTION_CLOSE_APP then
        as_frame Fr_connection_close (ngtcp2_pkt_decode_connection_close_frame payload)
      else if type = NGTCP2_FRAME_MAX_DATA then
        as_frame Fr_max_data (ngtcp2_pkt_decode_max_data_frame payload)
      else if type = NGTCP2_FRAME_MAX_STREAM_DATA then
        as_frame Fr_max_stream_data (ngtcp2_pkt_decode_max_stream_data_frame payload)
      else if type = NGTCP2_FRAME_MAX_STREAMS_BIDI \<or> type = NGTCP2_FRAME_MAX_STREAMS_UNI then
        as_frame Fr_max_streams (ngtcp2_pkt_decode_max_streams_frame payload)
      else if type = NGTCP2_FRAME_PING then
        as_frame Fr_ping (ngtcp2_pkt_decode_ping_frame payload)
      else if type = NGTCP2_FRAME_DATA_BLOCKED then
        as_frame Fr_data_blocked (ngtcp2_pkt_decode_data_blocked_frame payload)
      else if type = NGTCP2_FRAME_STREAM_DATA_BLOCKED then
        as_frame Fr_stream_data_blocked (ngtcp2_pkt_decode_stream_data_blocked_frame payload)
      else if type = NGTCP2_FRAME_STREAMS_BLOCKED_BIDI \<or> type = NGTCP2_FRAME_STREAMS_BLOCKED_UNI then
        as_frame Fr_streams_blocked (ngtcp2_pkt_decode_streams_blocked_frame payload)
      else if type = NGTCP2_FRAME_NEW_CONNECTION_ID then
        as_frame Fr_new_connection_id (ngtcp2_pkt_decode_new_connection_id_frame payload)
      else if type = NGTCP2_FRAME_STOP_SENDING then
        as_frame Fr_stop_sending (ngtcp2_pkt_decode_stop_sending_frame payload)
      else if type = NGTCP2_FRAME_ACK \<or> type = NGTCP2_FRAME_ACK_ECN then
        as_frame Fr_ack (ngtcp2_pkt_decode_ack_frame payload)
      else if type = NGTCP2_FRAME_PATH_CHALLENGE then
        as_frame Fr_path_challenge (ngtcp2_pkt_decode_path_challenge_frame payload)
      else if type = NGTCP2_FRAME_PATH_RESPONSE then
        as_frame Fr_path_response (ngtcp2_pkt_decode_path_response_frame payload)
      else if type = NGTCP2_FRAME_CRYPTO then
        as_frame Fr_stream (ngtcp2_pkt_decode_crypto_frame payload)
      else if type = NGTCP2_FRAME_NEW_TOKEN then
        as_frame Fr_new_token (ngtcp2_pkt_decode_new_token_frame payload)
      else if type = NGTCP2_FRAME_RETIRE_CONNECTION_ID then
        as_frame Fr_retire_connection_id (ngtcp2_pkt_decode_retire_connection_id_frame payload)
      else if type = NGTCP2_FRAME_HANDSHAKE_DONE then
        as_frame Fr_handshake_done (ngtcp2_pkt_decode_handshake_done_frame payload)
      else if type = NGTCP2_FRAME_DATAGRAM \<or> type = NGTCP2_FRAME_DATAGRAM_LEN then
        as_frame Fr_datagram (ngtcp2_pkt_decode_datagram_frame payload)
      else if type AND NOT (NGTCP2_FRAME_STREAM - 1) = NGTCP2_FRAME_STREAM then
        as_frame Fr_stream (ngtcp2_pkt_decode_stream_frame payload)
      else Err NGTCP2_ERR_FRAME_ENCODING))"

section \<open>No decoder leaves the payload\<close>


definition okR :: "('a \<Rightarrow> bool) \<Rightarrow> 'a res \<Rightarrow> bool" where
  "okR P r = (case r of Ok x \<Rightarrow> P x | Err e \<Rightarrow> True | Fault \<Rightarrow> False)"

lemma okR_simps [simp]: "okR P (Ok x) = P x" "okR P (Err e)" "\<not> okR P Fault"
  by (simp_all add: okR_def)

declare length_greater_0_conv [simp del]

lemma need_uvarint_eq [rd_simps]:
  "0 < length p \<Longrightarrow> need_uvarint L len p =
     (if L < len + (uvlen p - 1) then Err NGTCP2_ERR_FRAME_ENCODING else Ok (uvlen p, len + (uvlen p - 1)))"
  by (simp add: need_uvarint_def get_uvarintlen_Ok Let_def)

lemma skip_uvarint_eq [rd_simps]:
  "0 < length p \<Longrightarrow> L + 1 \<le> len + length p \<Longrightarrow> skip_uvarint L len p =
     (if L < len + (uvlen p - 1) then Err NGTCP2_ERR_FRAME_ENCODING
      else Ok (len + (uvlen p - 1), drop (uvlen p) p))"
  by (auto simp add: skip_uvarint_def need_uvarint_eq ptr_add_Ok Let_def)

definition decoded_within :: "u8 list \<Rightarrow> ('a \<times> nat) res \<Rightarrow> bool" where
  "decoded_within payload r = okR (\<lambda>(x, n). 1 \<le> n \<and> n \<le> length payload) r"


primrec after_uv :: "nat \<Rightarrow> u8 list \<Rightarrow> u8 list" where
  "after_uv 0 p = p"
| "after_uv (Suc k) p = after_uv k (drop (uvlen p) p)"

primrec fits :: "nat \<Rightarrow> u8 list \<Rightarrow> bool" where
  "fits 0 p = True"
| "fits (Suc k) p = (0 < length p \<and> uvlen p \<le> length p \<and> fits k (drop (uvlen p) p))"

lemma after_uv_add: "after_uv (j + k) p = after_uv k (after_uv j p)"
  by (induction j arbitrary: p) simp_all

lemma fits_add: "fits (j + k) p \<longleftrightarrow> fits j p \<and> fits k (after_uv j p)"
  by (induction j arbitrary: p) auto

lemma fits_length: "fits k p \<Longrightarrow> length (after_uv k p) + k \<le> length p"
proof (induction k arbitrary: p)
  case (Suc k)
  then have "length (after_uv k (drop (uvlen p) p)) + k \<le> length p - uvlen p" by fastforce
  moreover have "uvlen p \<le> length p" using Suc.prems by simp
  ultimately show ?case unfolding after_uv.simps using uvlen_pos(1) [of p] by linarith
qed simp


lemma okR_bindI: "okR Q m \<Longrightarrow> (\<And>x. Q x \<Longrightarrow> okR P (f x)) \<Longrightarrow> okR P (bindR m f)"
  by (cases m) simp_all

lemma okR_bind2:
  "okR (\<lambda>(a, b). Q a b) m \<Longrightarrow> (\<And>a b. Q a b \<Longrightarrow> okR P (f a b)) \<Longrightarrow> okR P (bindR m (\<lambda>(a, b). f a b))"
  by (cases m) auto

lemma okR_mono: "okR P m \<Longrightarrow> (\<And>x. P x \<Longrightarrow> Q x) \<Longrightarrow> okR Q m"
  by (cases m) simp_all

text \<open>
  One step of a length check: \<open>r\<close> of the bytes counted in \<open>len\<close> are reserved for integers not
  walked over yet.
\<close>

lemma need_uvarint_step:
  assumes "length p + len = L + r" "0 < r" "len \<le> L"
  shows "okR (\<lambda>(n, len'). n = uvlen p \<and> fits 1 p \<and> len' \<le> L \<and> length (after_uv 1 p) + len' = L + (r - 1))
           (need_uvarint L len p)"
proof -
  have p: "0 < length p" using assms by linarith
  show ?thesis
  proof (cases "L < len + (uvlen p - 1)")
    case True
    with p show ?thesis by (simp add: need_uvarint_eq)
  next
    case False
    then have "uvlen p \<le> length p" using assms uvlen_pos(1) [of p] by linarith
    moreover obtain u where "uvlen p = Suc u" using uvlen_pos(2) [of p] gr0_implies_Suc by blast
    ultimately show ?thesis using False p assms by (simp add: need_uvarint_eq)
  qed
qed

lemma skip_uvarint_step:
  assumes "length p + len = L + r" "0 < r" "len \<le> L"
  shows "okR (\<lambda>(len', p'). p' = after_uv 1 p \<and> fits 1 p \<and> len' \<le> L \<and> length p' + len' = L + (r - 1))
           (skip_uvarint L len p)"
  unfolding skip_uvarint_def
  by (rule okR_bindI [OF need_uvarint_step [OF assms]]) (auto simp: ptr_add_Ok)

lemma skip_uvarints_step:
  assumes "length p + len = L + r" "k \<le> r" "len \<le> L"
  shows "okR (\<lambda>(len', p'). p' = after_uv k p \<and> fits k p \<and> len' \<le> L \<and> length p' + len' = L + (r - k))
           (skip_uvarints L k len p)"
  using assms
proof (induction k arbitrary: len p r)
  case (Suc k)
  have "0 < r" using Suc.prems by simp
  show ?case unfolding skip_uvarints.simps
  proof (rule okR_bind2 [OF skip_uvarint_step [OF Suc.prems(1) \<open>0 < r\<close> Suc.prems(3)]], clarify)
    fix len1
    assume 1: "fits 1 p" "len1 \<le> L" "length (after_uv 1 p) + len1 = L + (r - 1)"
    from 1(3) have "okR (\<lambda>(len', p'). p' = after_uv k (after_uv 1 p) \<and> fits k (after_uv 1 p) \<and>
        len' \<le> L \<and> length p' + len' = L + (r - 1 - k)) (skip_uvarints L k len1 (after_uv 1 p))"
      by (rule Suc.IH) (use 1 Suc.prems in auto)
    with 1(1) show "okR (\<lambda>(len', p'). p' = after_uv (Suc k) p \<and> fits (Suc k) p \<and>
        len' \<le> L \<and> length p' + len' = L + (r - Suc k)) (skip_uvarints L k len1 (after_uv 1 p))"
      by (simp add: okR_def split: res.splits)
  qed
qed simp

lemma skip_ack_ranges_step:
  assumes "length p + len = L + 2 * i" "len \<le> L"
  shows "okR (\<lambda>(len', p'). p' = after_uv (2 * i) p \<and> fits (2 * i) p \<and> len' \<le> L \<and> length p' + len' = L)
           (skip_ack_ranges L i len p)"
  using assms
proof (induction i arbitrary: len p)
  case (Suc i)
  have "(2::nat) \<le> 2 * Suc i" by simp
  show ?case unfolding skip_ack_ranges.simps
  proof (rule okR_bind2 [OF skip_uvarints_step [OF Suc.prems(1) \<open>2 \<le> 2 * Suc i\<close> Suc.prems(2)]], clarify)
    fix len1
    assume 1: "fits 2 p" "len1 \<le> L" "length (after_uv 2 p) + len1 = L + (2 * Suc i - 2)"
    then have "okR (\<lambda>(len', p'). p' = after_uv (2 * i) (after_uv 2 p) \<and> fits (2 * i) (after_uv 2 p) \<and>
        len' \<le> L \<and> length p' + len' = L) (skip_ack_ranges L i len1 (after_uv 2 p))"
      by (intro Suc.IH) simp_all
    with 1(1) show "okR (\<lambda>(len', p'). p' = after_uv (2 * Suc i) p \<and> fits (2 * Suc i) p \<and>
        len' \<le> L \<and> length p' + len' = L) (skip_ack_ranges L i len1 (after_uv 2 p))"
      using after_uv_add [of 2 "2 * i" p] fits_add [of 2 "2 * i" p]
      by (simp add: okR_def split: res.splits)
  qed
qed simp

primrec ranges_at :: "nat \<Rightarrow> u8 list \<Rightarrow> ngtcp2_ack_range list" where
  "ranges_at 0 p = []"
| "ranges_at (Suc i) p =
     \<lparr>ar_gap = uvval p, ar_len = uvval (drop (uvlen p) p)\<rparr> # ranges_at i (after_uv 2 p)"

lemma read_ack_ranges_eq [rd_simps]:
  "fits (2 * i) p \<Longrightarrow> read_ack_ranges i p = Ok (ranges_at i p, after_uv (2 * i) p)"
  by (induction i arbitrary: p) (auto simp: rd_simps numeral_2_eq_2)

lemma pass_ack_ranges_eq [rd_simps]:
  "fits (2 * i) p \<Longrightarrow> pass_ack_ranges i p = Ok (after_uv (2 * i) p)"
  by (induction i arbitrary: p) (auto simp: rd_simps numeral_2_eq_2)

lemma fits_min: "fits (2 * i) p \<Longrightarrow> fits (2 * min k i) p"
  using fits_add [of "2 * min k i" "2 * (i - min k i)" p] by (simp flip: add_mult_distrib2)

lemma fits_rest: "fits (2 * i) p \<Longrightarrow> fits (2 * (i - min k i)) (after_uv (2 * min k i) p)"
  using fits_add [of "2 * min k i" "2 * (i - min k i)" p] by (simp flip: add_mult_distrib2)

lemma after_uv_rest: "after_uv (2 * (i - min k i)) (after_uv (2 * min k i) p) = after_uv (2 * i) p"
  using after_uv_add [of "2 * min k i" "2 * (i - min k i)" p] by (simp flip: add_mult_distrib2)

lemma stream_within: "decoded_within payload (ngtcp2_pkt_decode_stream_frame payload)"
  by (cases "hd payload AND 4 = 0"; cases "hd payload AND 2 = 0";
      simp add: decoded_within_def ngtcp2_pkt_decode_stream_frame_def Let_def rd_simps ptr_diff_def)
     linarith+


text \<open>What the first pass of the ACK decoder establishes: the number of integers that fit.\<close>

definition ack_uvs :: "u8 \<Rightarrow> nat \<Rightarrow> nat" where
  "ack_uvs type rangecnt = 4 + 2 * rangecnt + (if type = 3 then 3 else 0)"

lemma unat_double: 
  assumes "\<not> 9223372036854775807 < (v::u64)" shows "unat (v * 2) = unat v * 2"
proof -
  have "unat v \<le> 9223372036854775807" using assms by (simp add: word_less_nat_alt)
  then show ?thesis by (simp add: unat_word_ariths)
qed


lemma ecn_step:
  assumes "length p + len = L" "len \<le> L"
  shows "okR (\<lambda>(len', p'). let k = (if b then 3 else 0) in
      p' = after_uv k p \<and> fits k p \<and> len' \<le> L \<and> length p' + len' = L)
    (if b then (let len = len + 3 in
       if L < len then Err NGTCP2_ERR_FRAME_ENCODING else skip_uvarints L 3 len p)
     else Ok (len, p))"
  using skip_uvarints_step [of p "len + 3" L 3 3] assms by (auto simp: Let_def)

lemma ack_ranges_check_step:
  assumes p: "length p + len = L + 1 + 2 * rangecnt" and len: "len \<le> L"
  shows "okR (\<lambda>len'. let k = 1 + 2 * rangecnt + (if type = 3 then 3 else 0) in
      fits k p \<and> len' \<le> L \<and> length (after_uv k p) + len' = L)
    (ack_ranges_check L type rangecnt len p)"
  unfolding ack_ranges_check_def
proof (rule okR_bind2 [OF skip_uvarint_step [where r = "1 + 2 * rangecnt"]], goal_cases)
  case (4 len1 p1)
  then have "length p1 + len1 = L + (1 + 2 * rangecnt - 1)" by blast
  then have p1: "length p1 + len1 = L + 2 * rangecnt" by simp
  show ?case
  proof (rule okR_bind2 [OF skip_ack_ranges_step [OF p1]], goal_cases)
    case (2 len2 p2)
    then have p2: "length p2 + len2 = L" "len2 \<le> L" by auto
    note facts = "2" "4"
    show ?case
    proof (rule okR_bind2 [OF ecn_step [OF p2]], unfold Let_def, goal_cases)
      case (1 len3 p3)
      let ?e = "if type = 3 then 3 else 0"
      have "1 + 2 * rangecnt + ?e = 1 + (2 * rangecnt + ?e)" by simp
      with 1 facts show ?case
        by (simp only: okR_simps fits_add after_uv_add) (metis)
    qed
  qed (use 4 in simp)
qed (use assms in auto)

lemma ack_frame_check_step:
  "okR (\<lambda>(nrangecnt, rangecnt, len). fits (ack_uvs b rangecnt) q \<and>
      nrangecnt = uvlen (after_uv 2 q) \<and> rangecnt = unat (uvval (after_uv 2 q)) \<and>
      len \<le> Suc (length q) \<and> length (after_uv (ack_uvs b rangecnt) q) + len = Suc (length q))
    (ack_frame_check (b # q))"
  (is "okR ?P _")
proof (cases "length q < 4")
  case True
  then show ?thesis by (simp add: ack_frame_check_def)
next
  case False
  let ?L = "Suc (length q)"
  have tail: "okR ?P (if 9223372036854775807 < v \<or> ?L - len3 < unat (v * 2) then Err NGTCP2_ERR_FRAME_ENCODING
      else bindR (ack_ranges_check ?L b (unat v) (len3 + unat v * 2) p3)
        (\<lambda>len. Ok (nrc, unat v, len)))"
    if p3: "p3 = after_uv 3 q" "fits 3 q" and l3: "len3 \<le> ?L" "length p3 + len3 = ?L + 1"
      and v: "v = uvval (after_uv 2 q)" "nrc = uvlen (after_uv 2 q)" for v len3 p3 nrc
  proof (cases "9223372036854775807 < v \<or> ?L - len3 < unat (v * 2)")
    case False
    then have "len3 + unat v * 2 \<le> ?L" using unat_double [of v] l3(1) by auto
    moreover have "length p3 + (len3 + unat v * 2) = ?L + 1 + 2 * unat v" using l3 by simp
    ultimately have "okR (\<lambda>len'. let k = 1 + 2 * unat v + (if b = 3 then 3 else 0) in
      fits k p3 \<and> len' \<le> ?L \<and> length (after_uv k p3) + len' = ?L)
      (ack_ranges_check ?L b (unat v) (len3 + unat v * 2) p3)"
      by (intro ack_ranges_check_step)
    then show ?thesis unfolding if_not_P [OF False]
    proof (rule okR_bindI)
      fix len
      assume "let k = 1 + 2 * unat v + (if b = 3 then 3 else 0) in
          fits k p3 \<and> len \<le> ?L \<and> length (after_uv k p3) + len = ?L"
      moreover have "ack_uvs b (unat v) = 3 + (1 + 2 * unat v + (if b = 3 then 3 else 0))"
        by (simp add: ack_uvs_def)
      ultimately show "okR ?P (Ok (nrc, unat v, len))"
        using p3 v fits_add [of 3 "1 + 2 * unat v + (if b = 3 then 3 else 0)" q]
          after_uv_add [of 3 "1 + 2 * unat v + (if b = 3 then 3 else 0)" q]
        by (simp add: Let_def del: fits.simps after_uv.simps)
    qed
  qed simp
  have "okR ?P (bindR (skip_uvarint ?L 5 q) (\<lambda>(len, p).
      bindR (skip_uvarint ?L len p) (\<lambda>(len, p).
      bindR (need_uvarint ?L len p) (\<lambda>(nrangecnt, len).
      bindR (ngtcp2_get_uvarint p) (\<lambda>(vi, p).
      if 9223372036854775807 < vi \<or> ?L - len < unat (vi * 2) then Err NGTCP2_ERR_FRAME_ENCODING else
      bindR (ack_ranges_check ?L b (unat vi) (len + unat vi * 2) p) (\<lambda>len.
      Ok (nrangecnt, unat vi, len)))))))"
  proof (rule okR_bind2 [OF skip_uvarint_step [where r = 4]], goal_cases)
    case (4 len1 p1)
    show ?case
    proof (rule okR_bind2 [OF skip_uvarint_step [where r = 3]], goal_cases)
      case 2: (4 len2 p2)
      show ?case
      proof (rule okR_bind2 [OF need_uvarint_step [where r = 2]], goal_cases)
        case 3: (4 nrc len3)
        have p2: "p2 = after_uv 2 q" using 4 2 by (simp add: numeral_2_eq_2)
        have "ngtcp2_get_uvarint p2 = Ok (uvval p2, after_uv 1 p2)"
          using 3 by (simp add: get_uvarint_Ok)
        moreover have "after_uv 1 p2 = after_uv 3 q" "fits 3 q"
          using 4 2 3 p2 by (simp_all add: numeral_3_eq_3 numeral_2_eq_2)
        ultimately show ?case using 3 p2 tail by simp
      qed (use 2 in auto)
    qed (use 4 in auto)
  qed (use False in auto)
  with False show ?thesis
    by (simp add: ack_frame_check_def Let_def ptr_add_Ok cong: if_cong)
qed

lemma ack_within: "decoded_within payload (ngtcp2_pkt_decode_ack_frame payload)"
proof (cases payload)
  case (Cons b q)
  show ?thesis unfolding decoded_within_def ngtcp2_pkt_decode_ack_frame_def Cons
  proof (rule okR_bindI [OF ack_frame_check_step], clarify, goal_cases)
    case (1 x rc len)
    let ?rc = "unat (uvval (after_uv 2 q))"
    let ?m = "min NGTCP2_MAX_ACK_RANGES ?rc" and ?q4 = "after_uv 4 q" and ?e = "if b = 3 then 3 else 0"
    let ?s = "after_uv (2 * ?rc) ?q4"
    have "ack_uvs b ?rc = 4 + (2 * ?rc + ?e)" by (simp add: ack_uvs_def)
    then have f: "fits 4 q" "fits (2 * ?rc) ?q4" "fits ?e ?s"
      and a: "after_uv (ack_uvs b ?rc) q = after_uv ?e ?s"
      using 1 by (simp_all only: fits_add after_uv_add)
    then have m: "read_ack_ranges ?m ?q4 = Ok (ranges_at ?m ?q4, after_uv (2 * ?m) ?q4)"
      "pass_ack_ranges (?rc - ?m) (after_uv (2 * ?m) ?q4) = Ok ?s"
      by (simp_all add: read_ack_ranges_eq pass_ack_ranges_eq fits_min fits_rest after_uv_rest)
    have r: "ngtcp2_get_varint q = Ok (uvval q, after_uv 1 q)"
      "ngtcp2_get_uvarint (after_uv 1 q) = Ok (uvval (after_uv 1 q), after_uv 2 q)"
      "ptr_add (after_uv 2 q) (uvlen (after_uv 2 q)) = Ok (after_uv 3 q)"
      "ngtcp2_get_uvarint (after_uv 3 q) = Ok (uvval (after_uv 3 q), ?q4)"
      using f(1) by (simp_all add: eval_nat_numeral rd_simps)
    have e: "ngtcp2_get_uvarint s = Ok (uvval s, after_uv 1 s) \<and>
      ngtcp2_get_uvarint (after_uv 1 s) = Ok (uvval (after_uv 1 s), after_uv 2 s) \<and>
      ngtcp2_get_uvarint (after_uv 2 s) = Ok (uvval (after_uv 2 s), after_uv 3 s)"
      if "fits 3 s" for s
      using that by (simp add: eval_nat_numeral rd_simps)
    have q: "ptr_add (b # q) 1 = Ok q" by (simp add: ptr_add_def)
    have len: "1 \<le> len" using fits_length [of "ack_uvs b ?rc" q] 1 by linarith
    have d: "Suc (length q) - length (after_uv ?e ?s) = len" using 1 a by simp
    show ?case
      using 1(2) f(3) m r e [of ?s] q len d
      by (cases "b = 3")
        (simp_all add: Let_def ptr_diff_def del: after_uv.simps(2) fits.simps(2) One_nat_def)
  qed
qed (simp add: decoded_within_def ngtcp2_pkt_decode_ack_frame_def ack_frame_check_def)

lemma max_data_within: "decoded_within payload (ngtcp2_pkt_decode_max_data_frame payload)"
  by (simp add: decoded_within_def ngtcp2_pkt_decode_max_data_frame_def Let_def rd_simps ptr_diff_def)

lemma max_stream_data_within: "decoded_within payload (ngtcp2_pkt_decode_max_stream_data_frame payload)"
  by (simp add: decoded_within_def ngtcp2_pkt_decode_max_stream_data_frame_def Let_def rd_simps ptr_diff_def)

lemma max_streams_within: "decoded_within payload (ngtcp2_pkt_decode_max_streams_frame payload)"
  by (simp add: decoded_within_def ngtcp2_pkt_decode_max_streams_frame_def Let_def rd_simps ptr_diff_def)

lemma ping_within: "0 < length payload \<Longrightarrow> decoded_within payload (ngtcp2_pkt_decode_ping_frame payload)"
  by (simp add: decoded_within_def ngtcp2_pkt_decode_ping_frame_def)

lemma data_blocked_within: "decoded_within payload (ngtcp2_pkt_decode_data_blocked_frame payload)"
  by (simp add: decoded_within_def ngtcp2_pkt_decode_data_blocked_frame_def Let_def rd_simps ptr_diff_def)

lemma stream_data_blocked_within: "decoded_within payload (ngtcp2_pkt_decode_stream_data_blocked_frame payload)"
  by (simp add: decoded_within_def ngtcp2_pkt_decode_stream_data_blocked_frame_def Let_def rd_simps ptr_diff_def)

lemma streams_blocked_within: "decoded_within payload (ngtcp2_pkt_decode_streams_blocked_frame payload)"
  by (simp add: decoded_within_def ngtcp2_pkt_decode_streams_blocked_frame_def Let_def rd_simps ptr_diff_def)

lemma new_connection_id_within: "decoded_within payload (ngtcp2_pkt_decode_new_connection_id_frame payload)"
  by (simp add: decoded_within_def ngtcp2_pkt_decode_new_connection_id_frame_def Let_def rd_simps ptr_diff_def)

lemma stop_sending_within: "decoded_within payload (ngtcp2_pkt_decode_stop_sending_frame payload)"
  by (simp add: decoded_within_def ngtcp2_pkt_decode_stop_sending_frame_def Let_def rd_simps ptr_diff_def)

lemma path_challenge_within: "decoded_within payload (ngtcp2_pkt_decode_path_challenge_frame payload)"
  by (simp add: decoded_within_def ngtcp2_pkt_decode_path_challenge_frame_def Let_def rd_simps ptr_diff_def)

lemma path_response_within: "decoded_within payload (ngtcp2_pkt_decode_path_response_frame payload)"
  by (simp add: decoded_within_def ngtcp2_pkt_decode_path_response_frame_def Let_def rd_simps ptr_diff_def)

lemma new_token_within: "decoded_within payload (ngtcp2_pkt_decode_new_token_frame payload)"
  by (simp add: decoded_within_def ngtcp2_pkt_decode_new_token_frame_def Let_def rd_simps ptr_diff_def) linarith

lemma retire_connection_id_within: "decoded_within payload (ngtcp2_pkt_decode_retire_connection_id_frame payload)"
  by (simp add: decoded_within_def ngtcp2_pkt_decode_retire_connection_id_frame_def Let_def rd_simps ptr_diff_def)

lemma handshake_done_within: "0 < length payload \<Longrightarrow> decoded_within payload (ngtcp2_pkt_decode_handshake_done_frame payload)"
  by (simp add: decoded_within_def ngtcp2_pkt_decode_handshake_done_frame_def)

lemma reset_stream_within: "decoded_within payload (ngtcp2_pkt_decode_reset_stream_frame payload)"
  by (simp add: decoded_within_def ngtcp2_pkt_decode_reset_stream_frame_def Let_def rd_simps ptr_diff_def)

lemma connection_close_within: "decoded_within payload (ngtcp2_pkt_decode_connection_close_frame payload)"
  by (cases "hd payload = 28"; simp add: decoded_within_def ngtcp2_pkt_decode_connection_close_frame_def Let_def rd_simps ptr_diff_def) linarith+

lemma crypto_within: "decoded_within payload (ngtcp2_pkt_decode_crypto_frame payload)"
  by (simp add: decoded_within_def ngtcp2_pkt_decode_crypto_frame_def Let_def rd_simps ptr_diff_def) linarith

lemma datagram_within:
  assumes "hd payload = 48 \<or> hd payload = 49" and "0 < length payload"
  shows "decoded_within payload (ngtcp2_pkt_decode_datagram_frame payload)"
  using assms
  by (cases "hd payload = 48"; simp add: decoded_within_def ngtcp2_pkt_decode_datagram_frame_def Let_def rd_simps ptr_diff_def) linarith+

lemma padding_within: "0 < length payload \<Longrightarrow> decoded_within payload (ngtcp2_pkt_decode_padding_frame payload)"
  using length_takeWhile_le [of "\<lambda>b. b = 0" "drop 1 payload"]
  by (auto simp: decoded_within_def ngtcp2_pkt_decode_padding_frame_def Let_def)


lemma Err_within [simp]: "decoded_within payload (Err e)"
  by (simp add: decoded_within_def)

lemma as_frame_within [simp]: "decoded_within payload (as_frame c r) = decoded_within payload r"
  by (cases r) (auto simp: decoded_within_def as_frame_def)

lemmas frames_within = padding_within reset_stream_within connection_close_within max_data_within
  max_stream_data_within max_streams_within ping_within data_blocked_within
  stream_data_blocked_within streams_blocked_within new_connection_id_within stop_sending_within
  ack_within path_challenge_within path_response_within crypto_within new_token_within
  retire_connection_id_within handshake_done_within stream_within

lemma decoder_within: "decoded_within payload (ngtcp2_frame_decoder_decode payload)"
proof (cases "0 < length payload")
  case True
  moreover from True have "payload \<noteq> []" by auto
  ultimately show ?thesis
    by (simp add: ngtcp2_frame_decoder_decode_def peek_Ok frames_within datagram_within)
next
  case False
  then show ?thesis by (simp add: ngtcp2_frame_decoder_decode_def decoded_within_def)
qed

declare length_greater_0_conv [simp]

section \<open>Safety\<close>

text \<open>
  C2: On every payload \<open>ngtcp2_frame_decoder_decode\<close> returns a frame or an error, reads no byte
  outside the payload, and consumes at most its length.
\<close>

theorem frame_decoder_safe: "decoded_within payload (ngtcp2_frame_decoder_decode payload)"
  by (rule decoder_within)

end
