(* ===== verification/Frame_Encode.thy ===== *)
theory Frame_Encode
  imports Frame_Decode
begin

text \<open>
  The frame encoders of \<open>lib/ngtcp2_pkt.c\<close>. An encoder takes the output buffer (its length is
  \<open>outlen\<close>) and a frame and returns the buffer and the number of bytes written. Each first adds
  up the length of the fields, fails with \<open>NGTCP2_ERR_NOBUF\<close> if the buffer is shorter, and then
  writes field after field. \<open>frame_bytes\<close> is the wire format (RFC 9000, section 19; RFC 9221,
  section 4) the encoders are measured against: \<open>encode_frame_spec\<close> states that an encoder writes
  exactly these bytes at the start of the buffer and leaves the rest of it alone, and
  \<open>frame_roundtrip\<close> that the decoders read them back.

  The pointers of a vector and of \<open>txbuf\<close> are never \<open>NULL\<close> in the model.
\<close>

section \<open>Encoders\<close>

text \<open>Sums of \<open>ngtcp2_put_uvarintlen\<close> and runs of \<open>p = ngtcp2_put_uvarint(p, n)\<close>.\<close>

fun sum_uvarintlen :: "u64 list \<Rightarrow> nat res" where
  "sum_uvarintlen [] = Ok 0"
| "sum_uvarintlen (n # ns) =
     bindR (ngtcp2_put_uvarintlen n) (\<lambda>a. bindR (sum_uvarintlen ns) (\<lambda>b. Ok (a + b)))"

fun put_uvarints :: "u8 list \<Rightarrow> nat \<Rightarrow> u64 list \<Rightarrow> (u8 list \<times> nat) res" where
  "put_uvarints out p [] = Ok (out, p)"
| "put_uvarints out p (n # ns) =
     bindR (ngtcp2_put_uvarint out p n) (\<lambda>(out, p). put_uvarints out p ns)"

text \<open>\<open>ngtcp2_vec_len\<close> of \<open>lib/ngtcp2_vec.c\<close>: the sum wraps like \<open>size_t\<close>.\<close>

definition ngtcp2_vec_len :: "u8 list list \<Rightarrow> u64" where
  "ngtcp2_vec_len vec = foldl (\<lambda>res v. res + of_nat (length v)) 0 vec"

fun cpy_vecs :: "u8 list \<Rightarrow> nat \<Rightarrow> u8 list list \<Rightarrow> (u8 list \<times> nat) res" where
  "cpy_vecs out p [] = Ok (out, p)"
| "cpy_vecs out p (v # vs) = bindR (wr_bytes out p v) (\<lambda>(out, p). cpy_vecs out p vs)"

definition ngtcp2_pkt_encode_stream_frame ::
    "u8 list \<Rightarrow> ngtcp2_stream \<Rightarrow> (ngtcp2_stream \<times> u8 list \<times> nat) res" where
  "ngtcp2_pkt_encode_stream_frame out fr =
     (let flags = NGTCP2_STREAM_LEN_BIT;
          flags = (if st_fin fr then flags OR NGTCP2_STREAM_FIN_BIT else flags);
          flags = (if st_offset fr \<noteq> 0 then flags OR NGTCP2_STREAM_OFF_BIT else flags) in
      bindR (if st_offset fr \<noteq> 0 then sum_uvarintlen [st_offset fr] else Ok 0) (\<lambda>l1.
      bindR (ngtcp2_put_uvarintlen (st_stream_id fr)) (\<lambda>l2.
      let datalen = (if st_txbuf_present fr then of_nat (length (st_txbuf fr))
                     else ngtcp2_vec_len (st_data fr)) in
      bindR (ngtcp2_put_uvarintlen datalen) (\<lambda>l3.
      let len = 1 + l1 + l2 + l3 + unat datalen in
      if length out < len then Err NGTCP2_ERR_NOBUF else
      bindR (wr_bytes out 0 [flags OR NGTCP2_FRAME_STREAM]) (\<lambda>(out, p).
      let fr = fr\<lparr>st_flags := flags\<rparr> in
      bindR (ngtcp2_put_uvarint out p (st_stream_id fr)) (\<lambda>(out, p).
      bindR (if st_offset fr \<noteq> 0 then ngtcp2_put_uvarint out p (st_offset fr)
             else Ok (out, p)) (\<lambda>(out, p).
      bindR (ngtcp2_put_uvarint out p datalen) (\<lambda>(out, p).
      bindR (if st_txbuf_present fr then wr_bytes out p (st_txbuf fr)
             else assertR (\<forall>v \<in> set (st_data fr). length v \<noteq> 0)
                    (cpy_vecs out p (st_data fr))) (\<lambda>(out, p).
      assertR (p = len) (Ok (fr, out, len)))))))))))"

fun ack_range_fields :: "ngtcp2_ack_range list \<Rightarrow> u64 list" where
  "ack_range_fields [] = []"
| "ack_range_fields (r # rs) = ar_gap r # ar_len r # ack_range_fields rs"

definition ngtcp2_pkt_encode_ack_frame :: "u8 list \<Rightarrow> ngtcp2_ack \<Rightarrow> (u8 list \<times> nat) res" where
  "ngtcp2_pkt_encode_ack_frame out fr =
     (let rangecnt = of_nat (length (ack_ranges fr)) in
      bindR (sum_uvarintlen [ack_largest_ack fr, ack_delay fr, rangecnt, ack_first_ack_range fr]) (\<lambda>l1.
      bindR (sum_uvarintlen (ack_range_fields (ack_ranges fr))) (\<lambda>l2.
      bindR (if ack_type fr = NGTCP2_FRAME_ACK_ECN
             then sum_uvarintlen [ack_ect0 fr, ack_ect1 fr, ack_ce fr] else Ok 0) (\<lambda>l3.
      let len = 1 + l1 + l2 + l3 in
      if length out < len then Err NGTCP2_ERR_NOBUF else
      bindR (wr_bytes out 0 [ucast (ack_type fr)]) (\<lambda>(out, p).
      bindR (put_uvarints out p
               [ack_largest_ack fr, ack_delay fr, rangecnt, ack_first_ack_range fr]) (\<lambda>(out, p).
      bindR (put_uvarints out p (ack_range_fields (ack_ranges fr))) (\<lambda>(out, p).
      bindR (if ack_type fr = NGTCP2_FRAME_ACK_ECN
             then put_uvarints out p [ack_ect0 fr, ack_ect1 fr, ack_ce fr]
             else Ok (out, p)) (\<lambda>(out, p).
      assertR (p = len) (Ok (out, len))))))))))"

definition ngtcp2_pkt_encode_padding_frame ::
    "u8 list \<Rightarrow> ngtcp2_padding \<Rightarrow> (u8 list \<times> nat) res" where
  "ngtcp2_pkt_encode_padding_frame out fr =
     (if length out < pad_len fr then Err NGTCP2_ERR_NOBUF else
      bindR (wr_bytes out 0 (replicate (pad_len fr) 0)) (\<lambda>(out, _). Ok (out, pad_len fr)))"

text \<open>
  The frames made of a type byte and variable-length integers share one shape: sum the lengths,
  check the room, write the type byte and the integers, check the length.
\<close>

definition encode_type_and_uvarints ::
    "u8 list \<Rightarrow> u8 \<Rightarrow> u64 list \<Rightarrow> (u8 list \<times> nat) res" where
  "encode_type_and_uvarints out type ns =
     bindR (sum_uvarintlen ns) (\<lambda>l.
     let len = 1 + l in
     if length out < len then Err NGTCP2_ERR_NOBUF else
     bindR (wr_bytes out 0 [type]) (\<lambda>(out, p).
     bindR (put_uvarints out p ns) (\<lambda>(out, p).
     assertR (p = len) (Ok (out, len)))))"

definition ngtcp2_pkt_encode_reset_stream_frame ::
    "u8 list \<Rightarrow> ngtcp2_reset_stream \<Rightarrow> (u8 list \<times> nat) res" where
  "ngtcp2_pkt_encode_reset_stream_frame out fr =
     encode_type_and_uvarints out NGTCP2_FRAME_RESET_STREAM
       [rs_stream_id fr, rs_app_error_code fr, rs_final_size fr]"

definition ngtcp2_pkt_encode_connection_close_frame ::
    "u8 list \<Rightarrow> ngtcp2_connection_close \<Rightarrow> (u8 list \<times> nat) res" where
  "ngtcp2_pkt_encode_connection_close_frame out fr =
     (let reasonlen = length (cc_reason fr) in
      bindR (ngtcp2_put_uvarintlen (cc_error_code fr)) (\<lambda>l1.
      bindR (if cc_type fr = NGTCP2_FRAME_CONNECTION_CLOSE
             then ngtcp2_put_uvarintlen (cc_frame_type fr) else Ok 0) (\<lambda>l2.
      bindR (ngtcp2_put_uvarintlen (of_nat reasonlen)) (\<lambda>l3.
      let len = 1 + l1 + l2 + l3 + reasonlen in
      if length out < len then Err NGTCP2_ERR_NOBUF else
      bindR (wr_bytes out 0 [ucast (cc_type fr)]) (\<lambda>(out, p).
      bindR (ngtcp2_put_uvarint out p (cc_error_code fr)) (\<lambda>(out, p).
      bindR (if cc_type fr = NGTCP2_FRAME_CONNECTION_CLOSE
             then ngtcp2_put_uvarint out p (cc_frame_type fr) else Ok (out, p)) (\<lambda>(out, p).
      bindR (ngtcp2_put_uvarint out p (of_nat reasonlen)) (\<lambda>(out, p).
      bindR (if reasonlen \<noteq> 0 then wr_bytes out p (cc_reason fr) else Ok (out, p)) (\<lambda>(out, p).
      assertR (p = len) (Ok (out, len)))))))))))"

definition ngtcp2_pkt_encode_max_data_frame ::
    "u8 list \<Rightarrow> ngtcp2_max_data \<Rightarrow> (u8 list \<times> nat) res" where
  "ngtcp2_pkt_encode_max_data_frame out fr =
     encode_type_and_uvarints out NGTCP2_FRAME_MAX_DATA [md_max_data fr]"

definition ngtcp2_pkt_encode_max_stream_data_frame ::
    "u8 list \<Rightarrow> ngtcp2_max_stream_data \<Rightarrow> (u8 list \<times> nat) res" where
  "ngtcp2_pkt_encode_max_stream_data_frame out fr =
     encode_type_and_uvarints out NGTCP2_FRAME_MAX_STREAM_DATA
       [msd_stream_id fr, msd_max_stream_data fr]"

definition ngtcp2_pkt_encode_max_streams_frame ::
    "u8 list \<Rightarrow> ngtcp2_max_streams \<Rightarrow> (u8 list \<times> nat) res" where
  "ngtcp2_pkt_encode_max_streams_frame out fr =
     encode_type_and_uvarints out (ucast (ms_type fr)) [ms_max_streams fr]"

definition ngtcp2_pkt_encode_ping_frame ::
    "u8 list \<Rightarrow> ngtcp2_ping \<Rightarrow> (u8 list \<times> nat) res" where
  "ngtcp2_pkt_encode_ping_frame out fr =
     (if length out < 1 then Err NGTCP2_ERR_NOBUF else
      bindR (wr_bytes out 0 [NGTCP2_FRAME_PING]) (\<lambda>(out, _). Ok (out, 1)))"

definition ngtcp2_pkt_encode_data_blocked_frame ::
    "u8 list \<Rightarrow> ngtcp2_data_blocked \<Rightarrow> (u8 list \<times> nat) res" where
  "ngtcp2_pkt_encode_data_blocked_frame out fr =
     encode_type_and_uvarints out NGTCP2_FRAME_DATA_BLOCKED [db_offset fr]"

definition ngtcp2_pkt_encode_stream_data_blocked_frame ::
    "u8 list \<Rightarrow> ngtcp2_stream_data_blocked \<Rightarrow> (u8 list \<times> nat) res" where
  "ngtcp2_pkt_encode_stream_data_blocked_frame out fr =
     encode_type_and_uvarints out NGTCP2_FRAME_STREAM_DATA_BLOCKED
       [sdb_stream_id fr, sdb_offset fr]"

definition ngtcp2_pkt_encode_streams_blocked_frame ::
    "u8 list \<Rightarrow> ngtcp2_streams_blocked \<Rightarrow> (u8 list \<times> nat) res" where
  "ngtcp2_pkt_encode_streams_blocked_frame out fr =
     encode_type_and_uvarints out (ucast (sb_type fr)) [sb_max_streams fr]"

text \<open>\<open>fr->token.data\<close> is an array of 16 bytes: reading it is a fault for any other length.\<close>

definition ngtcp2_pkt_encode_new_connection_id_frame ::
    "u8 list \<Rightarrow> ngtcp2_new_connection_id \<Rightarrow> (u8 list \<times> nat) res" where
  "ngtcp2_pkt_encode_new_connection_id_frame out fr =
     bindR (sum_uvarintlen [nci_seq fr, nci_retire_prior_to fr]) (\<lambda>l.
     let len = 1 + l + 1 + length (nci_cid fr) + 16 in
     if length out < len then Err NGTCP2_ERR_NOBUF else
     bindR (wr_bytes out 0 [NGTCP2_FRAME_NEW_CONNECTION_ID]) (\<lambda>(out, p).
     bindR (put_uvarints out p [nci_seq fr, nci_retire_prior_to fr]) (\<lambda>(out, p).
     bindR (wr_bytes out p [of_nat (length (nci_cid fr))]) (\<lambda>(out, p).
     bindR (wr_bytes out p (nci_cid fr)) (\<lambda>(out, p).
     bindR (assertR (length (nci_token fr) = 16) (wr_bytes out p (nci_token fr))) (\<lambda>(out, p).
     assertR (p = len) (Ok (out, len))))))))"

definition ngtcp2_pkt_encode_stop_sending_frame ::
    "u8 list \<Rightarrow> ngtcp2_stop_sending \<Rightarrow> (u8 list \<times> nat) res" where
  "ngtcp2_pkt_encode_stop_sending_frame out fr =
     encode_type_and_uvarints out NGTCP2_FRAME_STOP_SENDING [ss_stream_id fr, ss_app_error_code fr]"

text \<open>The eight bytes of a path challenge or response.\<close>

definition encode_path_data :: "u8 list \<Rightarrow> u8 \<Rightarrow> u8 list \<Rightarrow> (u8 list \<times> nat) res" where
  "encode_path_data out type data =
     (let len = 1 + 8 in
      if length out < len then Err NGTCP2_ERR_NOBUF else
      bindR (wr_bytes out 0 [type]) (\<lambda>(out, p).
      bindR (assertR (length data = 8) (wr_bytes out p data)) (\<lambda>(out, p).
      assertR (p = len) (Ok (out, len)))))"

definition ngtcp2_pkt_encode_path_challenge_frame ::
    "u8 list \<Rightarrow> ngtcp2_path_challenge \<Rightarrow> (u8 list \<times> nat) res" where
  "ngtcp2_pkt_encode_path_challenge_frame out fr =
     encode_path_data out NGTCP2_FRAME_PATH_CHALLENGE (pc_data fr)"

definition ngtcp2_pkt_encode_path_response_frame ::
    "u8 list \<Rightarrow> ngtcp2_path_response \<Rightarrow> (u8 list \<times> nat) res" where
  "ngtcp2_pkt_encode_path_response_frame out fr =
     encode_path_data out NGTCP2_FRAME_PATH_RESPONSE (pr_data fr)"

definition ngtcp2_pkt_encode_crypto_frame ::
    "u8 list \<Rightarrow> ngtcp2_stream \<Rightarrow> (u8 list \<times> nat) res" where
  "ngtcp2_pkt_encode_crypto_frame out fr =
     bindR (ngtcp2_put_uvarintlen (st_offset fr)) (\<lambda>l1.
     let datalen = ngtcp2_vec_len (st_data fr) in
     bindR (ngtcp2_put_uvarintlen datalen) (\<lambda>l2.
     let len = 1 + l1 + l2 + unat datalen in
     if length out < len then Err NGTCP2_ERR_NOBUF else
     bindR (wr_bytes out 0 [NGTCP2_FRAME_CRYPTO]) (\<lambda>(out, p).
     bindR (ngtcp2_put_uvarint out p (st_offset fr)) (\<lambda>(out, p).
     bindR (ngtcp2_put_uvarint out p datalen) (\<lambda>(out, p).
     bindR (cpy_vecs out p (st_data fr)) (\<lambda>(out, p).
     assertR (p = len) (Ok (out, len))))))))"

definition ngtcp2_pkt_encode_new_token_frame ::
    "u8 list \<Rightarrow> ngtcp2_new_token \<Rightarrow> (u8 list \<times> nat) res" where
  "ngtcp2_pkt_encode_new_token_frame out fr =
     (let tokenlen = length (nt_token fr) in
      bindR (ngtcp2_put_uvarintlen (of_nat tokenlen)) (\<lambda>l1.
      let len = 1 + l1 + tokenlen in
      assertR (tokenlen \<noteq> 0)
     (if length out < len then Err NGTCP2_ERR_NOBUF else
      bindR (wr_bytes out 0 [NGTCP2_FRAME_NEW_TOKEN]) (\<lambda>(out, p).
      bindR (ngtcp2_put_uvarint out p (of_nat tokenlen)) (\<lambda>(out, p).
      bindR (wr_bytes out p (nt_token fr)) (\<lambda>(out, p).
      assertR (p = len) (Ok (out, len))))))))"

definition ngtcp2_pkt_encode_retire_connection_id_frame ::
    "u8 list \<Rightarrow> ngtcp2_retire_connection_id \<Rightarrow> (u8 list \<times> nat) res" where
  "ngtcp2_pkt_encode_retire_connection_id_frame out fr =
     encode_type_and_uvarints out NGTCP2_FRAME_RETIRE_CONNECTION_ID [rci_seq fr]"

definition ngtcp2_pkt_encode_handshake_done_frame ::
    "u8 list \<Rightarrow> ngtcp2_handshake_done \<Rightarrow> (u8 list \<times> nat) res" where
  "ngtcp2_pkt_encode_handshake_done_frame out fr =
     (if length out < 1 then Err NGTCP2_ERR_NOBUF else
      bindR (wr_bytes out 0 [NGTCP2_FRAME_HANDSHAKE_DONE]) (\<lambda>(out, _). Ok (out, 1)))"

text \<open>Here the length is an \<open>uint64_t\<close>, and empty vectors are skipped.\<close>

definition ngtcp2_pkt_encode_datagram_frame ::
    "u8 list \<Rightarrow> ngtcp2_datagram \<Rightarrow> (u8 list \<times> nat) res" where
  "ngtcp2_pkt_encode_datagram_frame out fr =
     (let datalen = ngtcp2_vec_len (dg_data fr) in
      bindR (if dg_type fr = NGTCP2_FRAME_DATAGRAM then Ok 0
             else ngtcp2_put_uvarintlen datalen) (\<lambda>l.
      let len = 1 + of_nat l + datalen :: u64 in
      assertR (dg_type fr = NGTCP2_FRAME_DATAGRAM \<or> dg_type fr = NGTCP2_FRAME_DATAGRAM_LEN)
     (if length out < unat len then Err NGTCP2_ERR_NOBUF else
      bindR (wr_bytes out 0 [ucast (dg_type fr)]) (\<lambda>(out, p).
      bindR (if dg_type fr = NGTCP2_FRAME_DATAGRAM_LEN then ngtcp2_put_uvarint out p datalen
             else Ok (out, p)) (\<lambda>(out, p).
      bindR (cpy_vecs out p (filter (\<lambda>v. length v \<noteq> 0) (dg_data fr))) (\<lambda>(out, p).
      assertR (p = unat len) (Ok (out, unat len))))))))"

text \<open>
  \<open>fr->hd.type\<close> selects the encoder; taking a member of the union that is not the one stored
  there is a fault.
\<close>

fun fr_hd_type :: "ngtcp2_frame \<Rightarrow> u64" where
  "fr_hd_type (Fr_stream x) = st_type x"
| "fr_hd_type (Fr_ack x) = ack_type x"
| "fr_hd_type (Fr_padding x) = pad_type x"
| "fr_hd_type (Fr_reset_stream x) = rs_type x"
| "fr_hd_type (Fr_connection_close x) = cc_type x"
| "fr_hd_type (Fr_max_data x) = md_type x"
| "fr_hd_type (Fr_max_stream_data x) = msd_type x"
| "fr_hd_type (Fr_max_streams x) = ms_type x"
| "fr_hd_type (Fr_ping x) = ping_type x"
| "fr_hd_type (Fr_data_blocked x) = db_type x"
| "fr_hd_type (Fr_stream_data_blocked x) = sdb_type x"
| "fr_hd_type (Fr_streams_blocked x) = sb_type x"
| "fr_hd_type (Fr_new_connection_id x) = nci_type x"
| "fr_hd_type (Fr_stop_sending x) = ss_type x"
| "fr_hd_type (Fr_path_challenge x) = pc_type x"
| "fr_hd_type (Fr_path_response x) = pr_type x"
| "fr_hd_type (Fr_new_token x) = nt_type x"
| "fr_hd_type (Fr_retire_connection_id x) = rci_type x"
| "fr_hd_type (Fr_handshake_done x) = hsd_type x"
| "fr_hd_type (Fr_datagram x) = dg_type x"

definition keep_frame :: "ngtcp2_frame \<Rightarrow> (u8 list \<times> nat) res \<Rightarrow> (ngtcp2_frame \<times> u8 list \<times> nat) res" where
  "keep_frame fr r = bindR r (\<lambda>(out, n). Ok (fr, out, n))"

definition ngtcp2_pkt_encode_frame ::
    "u8 list \<Rightarrow> ngtcp2_frame \<Rightarrow> (ngtcp2_frame \<times> u8 list \<times> nat) res" where
  "ngtcp2_pkt_encode_frame out fr =
     (let type = fr_hd_type fr in
      if type = NGTCP2_FRAME_STREAM then
        (case fr of Fr_stream x \<Rightarrow>
           bindR (ngtcp2_pkt_encode_stream_frame out x) (\<lambda>(x, out, n). Ok (Fr_stream x, out, n))
         | _ \<Rightarrow> Fault)
      else if type = NGTCP2_FRAME_ACK \<or> type = NGTCP2_FRAME_ACK_ECN then
        (case fr of Fr_ack x \<Rightarrow> keep_frame fr (ngtcp2_pkt_encode_ack_frame out x) | _ \<Rightarrow> Fault)
      else if type = NGTCP2_FRAME_PADDING then
        (case fr of Fr_padding x \<Rightarrow> keep_frame fr (ngtcp2_pkt_encode_padding_frame out x) | _ \<Rightarrow> Fault)
      else if type = NGTCP2_FRAME_RESET_STREAM then
        (case fr of Fr_reset_stream x \<Rightarrow>
           keep_frame fr (ngtcp2_pkt_encode_reset_stream_frame out x) | _ \<Rightarrow> Fault)
      else if type = NGTCP2_FRAME_CONNECTION_CLOSE \<or> type = NGTCP2_FRAME_CONNECTION_CLOSE_APP then
        (case fr of Fr_connection_close x \<Rightarrow>
           keep_frame fr (ngtcp2_pkt_encode_connection_close_frame out x) | _ \<Rightarrow> Fault)
      else if type = NGTCP2_FRAME_MAX_DATA then
        (case fr of Fr_max_data x \<Rightarrow> keep_frame fr (ngtcp2_pkt_encode_max_data_frame out x) | _ \<Rightarrow> Fault)
      else if type = NGTCP2_FRAME_MAX_STREAM_DATA then
        (case fr of Fr_max_stream_data x \<Rightarrow>
           keep_frame fr (ngtcp2_pkt_encode_max_stream_data_frame out x) | _ \<Rightarrow> Fault)
      else if type = NGTCP2_FRAME_MAX_STREAMS_BIDI \<or> type = NGTCP2_FRAME_MAX_STREAMS_UNI then
        (case fr of Fr_max_streams x \<Rightarrow>
           keep_frame fr (ngtcp2_pkt_encode_max_streams_frame out x) | _ \<Rightarrow> Fault)
      else if type = NGTCP2_FRAME_PING then
        (case fr of Fr_ping x \<Rightarrow> keep_frame fr (ngtcp2_pkt_encode_ping_frame out x) | _ \<Rightarrow> Fault)
      else if type = NGTCP2_FRAME_DATA_BLOCKED then
        (case fr of Fr_data_blocked x \<Rightarrow>
           keep_frame fr (ngtcp2_pkt_encode_data_blocked_frame out x) | _ \<Rightarrow> Fault)
      else if type = NGTCP2_FRAME_STREAM_DATA_BLOCKED then
        (case fr of Fr_stream_data_blocked x \<Rightarrow>
           keep_frame fr (ngtcp2_pkt_encode_stream_data_blocked_frame out x) | _ \<Rightarrow> Fault)
      else if type = NGTCP2_FRAME_STREAMS_BLOCKED_BIDI \<or> type = NGTCP2_FRAME_STREAMS_BLOCKED_UNI then
        (case fr of Fr_streams_blocked x \<Rightarrow>
           keep_frame fr (ngtcp2_pkt_encode_streams_blocked_frame out x) | _ \<Rightarrow> Fault)
      else if type = NGTCP2_FRAME_NEW_CONNECTION_ID then
        (case fr of Fr_new_connection_id x \<Rightarrow>
           keep_frame fr (ngtcp2_pkt_encode_new_connection_id_frame out x) | _ \<Rightarrow> Fault)
      else if type = NGTCP2_FRAME_STOP_SENDING then
        (case fr of Fr_stop_sending x \<Rightarrow>
           keep_frame fr (ngtcp2_pkt_encode_stop_sending_frame out x) | _ \<Rightarrow> Fault)
      else if type = NGTCP2_FRAME_PATH_CHALLENGE then
        (case fr of Fr_path_challenge x \<Rightarrow>
           keep_frame fr (ngtcp2_pkt_encode_path_challenge_frame out x) | _ \<Rightarrow> Fault)
      else if type = NGTCP2_FRAME_PATH_RESPONSE then
        (case fr of Fr_path_response x \<Rightarrow>
           keep_frame fr (ngtcp2_pkt_encode_path_response_frame out x) | _ \<Rightarrow> Fault)
      else if type = NGTCP2_FRAME_CRYPTO then
        (case fr of Fr_stream x \<Rightarrow> keep_frame fr (ngtcp2_pkt_encode_crypto_frame out x) | _ \<Rightarrow> Fault)
      else if type = NGTCP2_FRAME_NEW_TOKEN then
        (case fr of Fr_new_token x \<Rightarrow> keep_frame fr (ngtcp2_pkt_encode_new_token_frame out x) | _ \<Rightarrow> Fault)
      else if type = NGTCP2_FRAME_RETIRE_CONNECTION_ID then
        (case fr of Fr_retire_connection_id x \<Rightarrow>
           keep_frame fr (ngtcp2_pkt_encode_retire_connection_id_frame out x) | _ \<Rightarrow> Fault)
      else if type = NGTCP2_FRAME_HANDSHAKE_DONE then
        (case fr of Fr_handshake_done x \<Rightarrow>
           keep_frame fr (ngtcp2_pkt_encode_handshake_done_frame out x) | _ \<Rightarrow> Fault)
      else if type = NGTCP2_FRAME_DATAGRAM \<or> type = NGTCP2_FRAME_DATAGRAM_LEN then
        (case fr of Fr_datagram x \<Rightarrow> keep_frame fr (ngtcp2_pkt_encode_datagram_frame out x) | _ \<Rightarrow> Fault)
      else Err NGTCP2_ERR_INVALID_ARGUMENT)"

section \<open>The wire format\<close>

definition uvs :: "u64 list \<Rightarrow> u8 list" where
  "uvs ns = concat (map varint_bytes ns)"

definition stream_type_byte :: "ngtcp2_stream \<Rightarrow> u8" where
  "stream_type_byte fr = 0x08 OR 0x02 OR (if st_fin fr then 1 else 0) OR (if st_offset fr \<noteq> 0 then 4 else 0)"

definition stream_payload :: "ngtcp2_stream \<Rightarrow> u8 list" where
  "stream_payload fr = (if st_txbuf_present fr then st_txbuf fr else concat (st_data fr))"

definition with_length :: "u8 list \<Rightarrow> u8 list" where
  "with_length bs = varint_bytes (of_nat (length bs)) @ bs"

fun frame_bytes :: "ngtcp2_frame \<Rightarrow> u8 list" where
  "frame_bytes (Fr_stream fr) =
     (if st_type fr = 6 then 6 # uvs [st_offset fr] @ with_length (concat (st_data fr))
      else stream_type_byte fr # uvs [st_stream_id fr] @
             (if st_offset fr \<noteq> 0 then uvs [st_offset fr] else []) @ with_length (stream_payload fr))"
| "frame_bytes (Fr_ack fr) = ucast (ack_type fr) #
     uvs [ack_largest_ack fr, ack_delay fr, of_nat (length (ack_ranges fr)), ack_first_ack_range fr] @
     uvs (ack_range_fields (ack_ranges fr)) @
     (if ack_type fr = 3 then uvs [ack_ect0 fr, ack_ect1 fr, ack_ce fr] else [])"
| "frame_bytes (Fr_padding fr) = replicate (pad_len fr) 0"
| "frame_bytes (Fr_reset_stream fr) = 4 # uvs [rs_stream_id fr, rs_app_error_code fr, rs_final_size fr]"
| "frame_bytes (Fr_connection_close fr) = ucast (cc_type fr) # uvs [cc_error_code fr] @
     (if cc_type fr = 0x1C then uvs [cc_frame_type fr] else []) @ with_length (cc_reason fr)"
| "frame_bytes (Fr_max_data fr) = 0x10 # uvs [md_max_data fr]"
| "frame_bytes (Fr_max_stream_data fr) = 0x11 # uvs [msd_stream_id fr, msd_max_stream_data fr]"
| "frame_bytes (Fr_max_streams fr) = ucast (ms_type fr) # uvs [ms_max_streams fr]"
| "frame_bytes (Fr_ping fr) = [1]"
| "frame_bytes (Fr_data_blocked fr) = 0x14 # uvs [db_offset fr]"
| "frame_bytes (Fr_stream_data_blocked fr) = 0x15 # uvs [sdb_stream_id fr, sdb_offset fr]"
| "frame_bytes (Fr_streams_blocked fr) = ucast (sb_type fr) # uvs [sb_max_streams fr]"
| "frame_bytes (Fr_new_connection_id fr) = 0x18 # uvs [nci_seq fr, nci_retire_prior_to fr] @
     of_nat (length (nci_cid fr)) # nci_cid fr @ nci_token fr"
| "frame_bytes (Fr_stop_sending fr) = 5 # uvs [ss_stream_id fr, ss_app_error_code fr]"
| "frame_bytes (Fr_path_challenge fr) = 0x1A # pc_data fr"
| "frame_bytes (Fr_path_response fr) = 0x1B # pr_data fr"
| "frame_bytes (Fr_new_token fr) = 7 # with_length (nt_token fr)"
| "frame_bytes (Fr_retire_connection_id fr) = 0x19 # uvs [rci_seq fr]"
| "frame_bytes (Fr_handshake_done fr) = [0x1E]"
| "frame_bytes (Fr_datagram fr) = ucast (dg_type fr) #
     (if dg_type fr = 0x31 then with_length (concat (dg_data fr)) else concat (dg_data fr))"

text \<open>
  The frames that the encoders accept: a type that belongs to the structure, integers of 62 bits,
  fixed-size arrays of their size, no empty vector in a STREAM frame, a token that is not empty.
\<close>

definition uvs_ok :: "u64 list \<Rightarrow> bool" where
  "uvs_ok ns = list_all (\<lambda>n. n \<le> varint_max) ns"

definition len_ok :: "u8 list \<Rightarrow> bool" where
  "len_ok bs = (length bs < 2 ^ 62)"

fun frame_ok :: "ngtcp2_frame \<Rightarrow> bool" where
  "frame_ok (Fr_stream fr) =
     (if st_type fr = 6 then uvs_ok [st_offset fr] \<and> len_ok (concat (st_data fr))
      else st_type fr = 8 \<and> uvs_ok [st_stream_id fr, st_offset fr] \<and> len_ok (stream_payload fr) \<and>
           (st_txbuf_present fr \<or> list_all (\<lambda>v. length v \<noteq> 0) (st_data fr)))"
| "frame_ok (Fr_ack fr) = ((ack_type fr = 2 \<or> ack_type fr = 3) \<and>
     uvs_ok [ack_largest_ack fr, ack_delay fr, ack_first_ack_range fr] \<and>
     length (ack_ranges fr) < 2 ^ 62 \<and> uvs_ok (ack_range_fields (ack_ranges fr)) \<and>
     (ack_type fr = 3 \<longrightarrow> uvs_ok [ack_ect0 fr, ack_ect1 fr, ack_ce fr]))"
| "frame_ok (Fr_padding fr) = (pad_type fr = 0)"
| "frame_ok (Fr_reset_stream fr) =
     (rs_type fr = 4 \<and> uvs_ok [rs_stream_id fr, rs_app_error_code fr, rs_final_size fr])"
| "frame_ok (Fr_connection_close fr) = ((cc_type fr = 0x1C \<and> cc_frame_type fr \<le> varint_max \<or> cc_type fr = 0x1D) \<and>
     uvs_ok [cc_error_code fr] \<and> len_ok (cc_reason fr))"
| "frame_ok (Fr_max_data fr) = (md_type fr = 0x10 \<and> uvs_ok [md_max_data fr])"
| "frame_ok (Fr_max_stream_data fr) =
     (msd_type fr = 0x11 \<and> uvs_ok [msd_stream_id fr, msd_max_stream_data fr])"
| "frame_ok (Fr_max_streams fr) = ((ms_type fr = 0x12 \<or> ms_type fr = 0x13) \<and> uvs_ok [ms_max_streams fr])"
| "frame_ok (Fr_ping fr) = (ping_type fr = 1)"
| "frame_ok (Fr_data_blocked fr) = (db_type fr = 0x14 \<and> uvs_ok [db_offset fr])"
| "frame_ok (Fr_stream_data_blocked fr) = (sdb_type fr = 0x15 \<and> uvs_ok [sdb_stream_id fr, sdb_offset fr])"
| "frame_ok (Fr_streams_blocked fr) = ((sb_type fr = 0x16 \<or> sb_type fr = 0x17) \<and> uvs_ok [sb_max_streams fr])"
| "frame_ok (Fr_new_connection_id fr) = (nci_type fr = 0x18 \<and> uvs_ok [nci_seq fr, nci_retire_prior_to fr] \<and>
     length (nci_token fr) = 16)"
| "frame_ok (Fr_stop_sending fr) = (ss_type fr = 5 \<and> uvs_ok [ss_stream_id fr, ss_app_error_code fr])"
| "frame_ok (Fr_path_challenge fr) = (pc_type fr = 0x1A \<and> length (pc_data fr) = 8)"
| "frame_ok (Fr_path_response fr) = (pr_type fr = 0x1B \<and> length (pr_data fr) = 8)"
| "frame_ok (Fr_new_token fr) = (nt_type fr = 7 \<and> nt_token fr \<noteq> [] \<and> len_ok (nt_token fr))"
| "frame_ok (Fr_retire_connection_id fr) = (rci_type fr = 0x19 \<and> uvs_ok [rci_seq fr])"
| "frame_ok (Fr_handshake_done fr) = (hsd_type fr = 0x1E)"
| "frame_ok (Fr_datagram fr) = ((dg_type fr = 0x30 \<or> dg_type fr = 0x31) \<and> len_ok (concat (dg_data fr)))"

text \<open>The encoder of STREAM frames stores the flag bits it used in the frame.\<close>

fun frame_encoded :: "ngtcp2_frame \<Rightarrow> ngtcp2_frame" where
  "frame_encoded (Fr_stream fr) =
     Fr_stream (if st_type fr = 6 then fr else fr\<lparr>st_flags := stream_type_byte fr AND NOT 8\<rparr>)"
| "frame_encoded fr = fr"

definition encodes :: "u8 list \<Rightarrow> u8 list \<Rightarrow> (u8 list \<times> nat) res \<Rightarrow> bool" where
  "encodes out bs r =
     (r = (if length out < length bs then Err NGTCP2_ERR_NOBUF else Ok (filled out bs, length bs)))"

section \<open>Lemmas\<close>

lemma uvs_simps [simp]: "uvs [] = []" "uvs (n # ns) = varint_bytes n @ uvs ns"
  by (simp_all add: uvs_def)

lemma uvs_ok_simps [simp]: "uvs_ok []" "uvs_ok (n # ns) \<longleftrightarrow> n \<le> varint_max \<and> uvs_ok ns"
  by (simp_all add: uvs_ok_def)

lemma sum_uvarintlen_Ok [simp]: "uvs_ok ns \<Longrightarrow> sum_uvarintlen ns = Ok (length (uvs ns))"
  by (induction ns) simp_all

lemma put_uvarints_filled [wr_simps]:
  "uvs_ok ns \<Longrightarrow> p = length bs \<Longrightarrow> p + length (uvs ns) \<le> length out \<Longrightarrow>
     put_uvarints (filled out bs) p ns = Ok (filled out (bs @ uvs ns), p + length (uvs ns))"
proof (induction ns arbitrary: p bs)
  case (Cons n ns)
  then show ?case
    using Cons.IH [of "p + varint_len n" "bs @ varint_bytes n"] by (simp add: put_uvarint_filled add.assoc)
qed simp

lemma cpy_vecs_filled [wr_simps]:
  "p = length bs \<Longrightarrow> p + length (concat vs) \<le> length out \<Longrightarrow>
     cpy_vecs (filled out bs) p vs = Ok (filled out (bs @ concat vs), p + length (concat vs))"
proof (induction vs arbitrary: p bs)
  case (Cons v vs)
  then show ?case
    using Cons.IH [of "p + length v" "bs @ v"] by (simp add: wr_bytes_filled add.assoc del: length_concat)
qed simp

lemma vec_len_eq: "ngtcp2_vec_len vs = of_nat (length (concat vs))"
proof -
  have "foldl (\<lambda>res v. res + of_nat (length v)) a vs = a + of_nat (length (concat vs))" for a :: u64
    by (induction vs arbitrary: a) (simp_all add: add.assoc)
  then show ?thesis by (simp add: ngtcp2_vec_len_def)
qed

lemma len_ok_unat [simp]: "len_ok bs \<Longrightarrow> unat (of_nat (length bs) :: u64) = length bs"
  unfolding len_ok_def by (rule unat_of_nat_u64) simp

lemma len_ok_varint [simp]: "len_ok bs \<Longrightarrow> of_nat (length bs) \<le> varint_max"
  using len_ok_unat [of bs] by (simp add: len_ok_def varint_max_def word_le_nat_alt)

lemma encode_type_and_uvarints_encodes:
  "uvs_ok ns \<Longrightarrow> encodes out (t # uvs ns) (encode_type_and_uvarints out t ns)"
  by (simp add: encodes_def encode_type_and_uvarints_def Let_def wr_simps)

lemma encode_path_data_encodes:
  "length bs = 8 \<Longrightarrow> encodes out (t # bs) (encode_path_data out t bs)"
  by (simp add: encodes_def encode_path_data_def Let_def wr_simps)

lemma concat_nonempty [simp]: "concat (filter (\<lambda>v. v \<noteq> []) vs) = concat vs"
  by (induction vs) simp_all

lemma encode_ack_encodes:
  "frame_ok (Fr_ack fr) \<Longrightarrow> encodes out (frame_bytes (Fr_ack fr)) (ngtcp2_pkt_encode_ack_frame out fr)"
  using len_ok_varint [of "replicate (length (ack_ranges fr)) 0"]
  by (auto simp: encodes_def ngtcp2_pkt_encode_ack_frame_def Let_def wr_simps len_ok_def)

lemma encode_padding_encodes:
  "frame_ok (Fr_padding fr) \<Longrightarrow>
   encodes out (frame_bytes (Fr_padding fr)) (ngtcp2_pkt_encode_padding_frame out fr)"
  by (simp add: encodes_def ngtcp2_pkt_encode_padding_frame_def wr_simps)

lemma encode_connection_close_encodes:
  "frame_ok (Fr_connection_close fr) \<Longrightarrow>
   encodes out (frame_bytes (Fr_connection_close fr)) (ngtcp2_pkt_encode_connection_close_frame out fr)"
  by (auto simp: encodes_def ngtcp2_pkt_encode_connection_close_frame_def Let_def with_length_def wr_simps)

lemma encode_new_connection_id_encodes:
  "frame_ok (Fr_new_connection_id fr) \<Longrightarrow>
   encodes out (frame_bytes (Fr_new_connection_id fr)) (ngtcp2_pkt_encode_new_connection_id_frame out fr)"
  by (simp add: encodes_def ngtcp2_pkt_encode_new_connection_id_frame_def Let_def wr_simps)

lemma encode_crypto_encodes:
  "st_type fr = 6 \<Longrightarrow> frame_ok (Fr_stream fr) \<Longrightarrow>
   encodes out (frame_bytes (Fr_stream fr)) (ngtcp2_pkt_encode_crypto_frame out fr)"
  by (simp add: encodes_def ngtcp2_pkt_encode_crypto_frame_def Let_def with_length_def vec_len_eq wr_simps
      del: length_concat)

lemma encode_new_token_encodes:
  "frame_ok (Fr_new_token fr) \<Longrightarrow>
   encodes out (frame_bytes (Fr_new_token fr)) (ngtcp2_pkt_encode_new_token_frame out fr)"
  by (simp add: encodes_def ngtcp2_pkt_encode_new_token_frame_def Let_def with_length_def wr_simps
      length_greater_0_conv)

lemma encode_datagram_encodes:
  assumes "frame_ok (Fr_datagram fr)"
  shows "encodes out (frame_bytes (Fr_datagram fr)) (ngtcp2_pkt_encode_datagram_frame out fr)"
proof -
  let ?n = "length (concat (dg_data fr))" and ?l = "varint_len (of_nat (length (concat (dg_data fr))))"
  have l: "len_ok (concat (dg_data fr))" using assms by simp
  have "?n < 2 ^ 62" using l by (simp only: len_ok_def)
  then have "1 + ?l + ?n < 2 ^ 64" using varint_len_le8 [of "of_nat ?n"] by simp
  then have "unat (of_nat (1 + ?l + ?n) :: u64) = 1 + ?l + ?n"
    and "unat (of_nat (1 + ?n) :: u64) = 1 + ?n"
    by (simp_all only: unat_of_nat_u64)
  with assms l show ?thesis
    by (auto simp: encodes_def ngtcp2_pkt_encode_datagram_frame_def Let_def with_length_def vec_len_eq
        wr_simps add.assoc simp del: length_concat)
qed

lemma encode_stream_frame_spec:
  assumes "st_type fr = 8" "frame_ok (Fr_stream fr)"
  shows "ngtcp2_pkt_encode_stream_frame out fr =
    (if length out < length (frame_bytes (Fr_stream fr)) then Err NGTCP2_ERR_NOBUF
     else Ok (fr\<lparr>st_flags := stream_type_byte fr AND NOT 8\<rparr>, filled out (frame_bytes (Fr_stream fr)),
              length (frame_bytes (Fr_stream fr))))"
  using assms
  by (cases "st_txbuf_present fr"; cases "st_fin fr"; cases "st_offset fr = 0")
   (simp_all add: ngtcp2_pkt_encode_stream_frame_def Let_def with_length_def vec_len_eq
      stream_type_byte_def stream_payload_def list_all_iff wr_simps del: length_concat)

lemma encode_uvarint_frames:
  "frame_ok (Fr_reset_stream x1) \<Longrightarrow>
     encodes out (frame_bytes (Fr_reset_stream x1)) (ngtcp2_pkt_encode_reset_stream_frame out x1)"
  "frame_ok (Fr_max_data x2) \<Longrightarrow>
     encodes out (frame_bytes (Fr_max_data x2)) (ngtcp2_pkt_encode_max_data_frame out x2)"
  "frame_ok (Fr_max_stream_data x3) \<Longrightarrow>
     encodes out (frame_bytes (Fr_max_stream_data x3)) (ngtcp2_pkt_encode_max_stream_data_frame out x3)"
  "frame_ok (Fr_max_streams x4) \<Longrightarrow>
     encodes out (frame_bytes (Fr_max_streams x4)) (ngtcp2_pkt_encode_max_streams_frame out x4)"
  "frame_ok (Fr_data_blocked x5) \<Longrightarrow>
     encodes out (frame_bytes (Fr_data_blocked x5)) (ngtcp2_pkt_encode_data_blocked_frame out x5)"
  "frame_ok (Fr_stream_data_blocked x6) \<Longrightarrow>
     encodes out (frame_bytes (Fr_stream_data_blocked x6)) (ngtcp2_pkt_encode_stream_data_blocked_frame out x6)"
  "frame_ok (Fr_streams_blocked x7) \<Longrightarrow>
     encodes out (frame_bytes (Fr_streams_blocked x7)) (ngtcp2_pkt_encode_streams_blocked_frame out x7)"
  "frame_ok (Fr_stop_sending x8) \<Longrightarrow>
     encodes out (frame_bytes (Fr_stop_sending x8)) (ngtcp2_pkt_encode_stop_sending_frame out x8)"
  "frame_ok (Fr_retire_connection_id x9) \<Longrightarrow>
     encodes out (frame_bytes (Fr_retire_connection_id x9)) (ngtcp2_pkt_encode_retire_connection_id_frame out x9)"
  unfolding ngtcp2_pkt_encode_reset_stream_frame_def
    ngtcp2_pkt_encode_max_data_frame_def
    ngtcp2_pkt_encode_max_stream_data_frame_def
    ngtcp2_pkt_encode_max_streams_frame_def
    ngtcp2_pkt_encode_data_blocked_frame_def
    ngtcp2_pkt_encode_stream_data_blocked_frame_def
    ngtcp2_pkt_encode_streams_blocked_frame_def
    ngtcp2_pkt_encode_stop_sending_frame_def
    ngtcp2_pkt_encode_retire_connection_id_frame_def
  by (auto intro: encode_type_and_uvarints_encodes simp del: uvs_simps)

lemma encode_fixed_frames:
  "frame_ok (Fr_path_challenge x1) \<Longrightarrow>
     encodes out (frame_bytes (Fr_path_challenge x1)) (ngtcp2_pkt_encode_path_challenge_frame out x1)"
  "frame_ok (Fr_path_response x2) \<Longrightarrow>
     encodes out (frame_bytes (Fr_path_response x2)) (ngtcp2_pkt_encode_path_response_frame out x2)"
  "frame_ok (Fr_ping x3) \<Longrightarrow>
     encodes out (frame_bytes (Fr_ping x3)) (ngtcp2_pkt_encode_ping_frame out x3)"
  "frame_ok (Fr_handshake_done x4) \<Longrightarrow>
     encodes out (frame_bytes (Fr_handshake_done x4)) (ngtcp2_pkt_encode_handshake_done_frame out x4)"
  unfolding ngtcp2_pkt_encode_path_challenge_frame_def
    ngtcp2_pkt_encode_path_response_frame_def
    ngtcp2_pkt_encode_ping_frame_def
    ngtcp2_pkt_encode_handshake_done_frame_def
    encode_path_data_def Let_def
  by (cases out; auto simp: encodes_def wr_simps)+

lemmas frame_encodes = encode_ack_encodes encode_padding_encodes encode_connection_close_encodes
  encode_new_connection_id_encodes encode_new_token_encodes
  encode_datagram_encodes encode_uvarint_frames encode_fixed_frames

lemma keep_frame_encodes:
  "encodes out (frame_bytes fr) r \<Longrightarrow> keep_frame fr r =
     (if length out < length (frame_bytes fr) then Err NGTCP2_ERR_NOBUF
      else Ok (fr, filled out (frame_bytes fr), length (frame_bytes fr)))"
  by (simp add: encodes_def keep_frame_def)

text \<open>The whole dispatch: exactly the wire format, or \<open>NGTCP2_ERR_NOBUF\<close> if it does not fit.\<close>

lemma encode_frame_spec:
  assumes "frame_ok fr"
  shows "ngtcp2_pkt_encode_frame out fr =
    (if length out < length (frame_bytes fr) then Err NGTCP2_ERR_NOBUF
     else Ok (frame_encoded fr, filled out (frame_bytes fr), length (frame_bytes fr)))"
proof (cases fr)
  case (Fr_stream x)
  show ?thesis
  proof (cases "st_type x = 6")
    case True
    with assms Fr_stream show ?thesis
      using keep_frame_encodes [OF encode_crypto_encodes [of x out]]
      by (simp add: ngtcp2_pkt_encode_frame_def del: frame_bytes.simps)
  next
    case False
    with assms Fr_stream show ?thesis
      using encode_stream_frame_spec [of x out] by (simp add: ngtcp2_pkt_encode_frame_def)
  qed
qed ((insert assms, simp only:, frule frame_encodes [where out = out, THEN keep_frame_encodes];
      auto simp: ngtcp2_pkt_encode_frame_def simp del: frame_bytes.simps))+

section \<open>Exactness\<close>

text \<open>
  C24: For a frame whose integers have at most 62 bits, \<open>ngtcp2_pkt_encode_frame\<close> either reports
  \<open>NGTCP2_ERR_NOBUF\<close>, exactly when the buffer is shorter than the wire format of the frame, or it
  writes exactly the wire format of RFC 9000 at the start of the buffer, leaves the rest of the
  buffer alone and returns the number of bytes written; no access is out of bounds.
\<close>

theorem frame_encoder_exact:
  assumes "frame_ok fr"
  shows "ngtcp2_pkt_encode_frame out fr =
    (if length out < length (frame_bytes fr) then Err NGTCP2_ERR_NOBUF
     else Ok (frame_encoded fr, filled out (frame_bytes fr), length (frame_bytes fr)))"
  using assms by (rule encode_frame_spec)

theorem frame_encoder_exact_witness:
  "ngtcp2_pkt_encode_frame (replicate 4 0)
     (Fr_max_stream_data \<lparr>msd_type = 0x11, msd_stream_id = 4, msd_max_stream_data = 300\<rparr>) =
   (if length (replicate 4 0 :: u8 list) <
         length (frame_bytes (Fr_max_stream_data \<lparr>msd_type = 0x11, msd_stream_id = 4, msd_max_stream_data = 300\<rparr>))
    then Err NGTCP2_ERR_NOBUF
    else Ok (Fr_max_stream_data \<lparr>msd_type = 0x11, msd_stream_id = 4, msd_max_stream_data = 300\<rparr>,
           filled (replicate 4 0) (frame_bytes (Fr_max_stream_data \<lparr>msd_type = 0x11, msd_stream_id = 4, msd_max_stream_data = 300\<rparr>)),
           length (frame_bytes (Fr_max_stream_data \<lparr>msd_type = 0x11, msd_stream_id = 4, msd_max_stream_data = 300\<rparr>))))"
  using frame_encoder_exact [of "Fr_max_stream_data \<lparr>msd_type = 0x11, msd_stream_id = 4, msd_max_stream_data = 300\<rparr>" "replicate 4 0"]
  by (simp add: uvs_ok_def varint_max_def)

end
