(* ===== verification/Frame_Roundtrip.thy ===== *)
theory Frame_Roundtrip
  imports Frame_Encode
begin

text \<open>
  The decoders of \<open>Frame_Decode\<close> read back what the encoders of \<open>Frame_Encode\<close> write.

  \<open>frame_sendable\<close>: the frames that come back. An ACK frame has at most
  \<open>NGTCP2_MAX_ACK_RANGES\<close> ranges, a connection ID has one to twenty bytes, a PADDING frame is not
  empty and not followed by another zero byte, a DATAGRAM frame without a length is the last of
  the packet. \<open>frame_received\<close> is the frame that comes back: the data in one vector, and the fields
  that are not sent at their defaults.
\<close>

definition one_vec :: "u8 list \<Rightarrow> u8 list list" where
  "one_vec bs = (if bs = [] then [] else [bs])"

fun frame_sendable :: "ngtcp2_frame \<Rightarrow> u8 list \<Rightarrow> bool" where
  "frame_sendable (Fr_ack fr) rest = (length (ack_ranges fr) \<le> NGTCP2_MAX_ACK_RANGES)"
| "frame_sendable (Fr_padding fr) rest = (0 < pad_len fr \<and> (rest \<noteq> [] \<longrightarrow> hd rest \<noteq> 0))"
| "frame_sendable (Fr_new_connection_id fr) rest =
     (NGTCP2_MIN_CIDLEN \<le> length (nci_cid fr) \<and> length (nci_cid fr) \<le> NGTCP2_MAX_CIDLEN)"
| "frame_sendable (Fr_datagram fr) rest = (dg_type fr = 0x30 \<longrightarrow> rest = [])"
| "frame_sendable fr rest = True"

fun frame_received :: "ngtcp2_frame \<Rightarrow> ngtcp2_frame" where
  "frame_received (Fr_stream fr) = Fr_stream
     (if st_type fr = 6 then
        \<lparr>st_type = 6, st_flags = 0, st_fin = False, st_stream_id = 0, st_offset = st_offset fr,
         st_data = one_vec (concat (st_data fr)), st_txbuf_present = False, st_txbuf = []\<rparr>
      else
        \<lparr>st_type = 8, st_flags = stream_type_byte fr AND NOT 8, st_fin = st_fin fr,
         st_stream_id = st_stream_id fr, st_offset = st_offset fr,
         st_data = one_vec (stream_payload fr), st_txbuf_present = False, st_txbuf = []\<rparr>)"
| "frame_received (Fr_ack fr) = Fr_ack
     (if ack_type fr = 3 then fr\<lparr>ack_delay_unscaled := 0\<rparr>
      else fr\<lparr>ack_delay_unscaled := 0, ack_ect0 := 0, ack_ect1 := 0, ack_ce := 0\<rparr>)"
| "frame_received (Fr_connection_close fr) = Fr_connection_close
     (if cc_type fr = 0x1C then fr else fr\<lparr>cc_frame_type := 0\<rparr>)"
| "frame_received (Fr_datagram fr) = Fr_datagram (fr\<lparr>dg_data := one_vec (concat (dg_data fr))\<rparr>)"
| "frame_received fr = fr"

text \<open>The bytes of an integer after its first one: with them the arithmetic below cancels.\<close>

definition varint_ext :: "u64 \<Rightarrow> nat" where
  "varint_ext n = varint_len n - 1"

lemma varint_len_Suc: "varint_len n = Suc (varint_ext n)"
  using varint_len_pos(1) [of n] by (simp add: varint_ext_def del: varint_len_pos)

lemma need_uvarint_varint [simp]:
  "n \<le> varint_max \<Longrightarrow> need_uvarint L len (varint_bytes n @ r) =
     (if L < len + varint_ext n then Err NGTCP2_ERR_FRAME_ENCODING
      else Ok (varint_len n, len + varint_ext n))"
  by (simp add: need_uvarint_def Let_def varint_ext_def)

lemma skip_uvarint_varint [simp]:
  "n \<le> varint_max \<Longrightarrow> skip_uvarint L len (varint_bytes n @ r) =
     (if L < len + varint_ext n then Err NGTCP2_ERR_FRAME_ENCODING
      else Ok (len + varint_ext n, r))"
  by (simp add: skip_uvarint_def)

lemma bindR_unit [simp]: "bindR m Ok = m"
  by (cases m) simp_all

lemma ptr_add_Cons [simp]: "ptr_add (b # p) (Suc 0) = Ok p"
  by (simp add: ptr_add_def)

lemmas decode_defs = ngtcp2_pkt_decode_stream_frame_def ngtcp2_pkt_decode_padding_frame_def
  ngtcp2_pkt_decode_reset_stream_frame_def ngtcp2_pkt_decode_connection_close_frame_def
  ngtcp2_pkt_decode_max_data_frame_def ngtcp2_pkt_decode_max_stream_data_frame_def
  ngtcp2_pkt_decode_max_streams_frame_def ngtcp2_pkt_decode_ping_frame_def
  ngtcp2_pkt_decode_data_blocked_frame_def ngtcp2_pkt_decode_stream_data_blocked_frame_def
  ngtcp2_pkt_decode_streams_blocked_frame_def ngtcp2_pkt_decode_new_connection_id_frame_def
  ngtcp2_pkt_decode_stop_sending_frame_def ngtcp2_pkt_decode_path_challenge_frame_def
  ngtcp2_pkt_decode_path_response_frame_def ngtcp2_pkt_decode_crypto_frame_def
  ngtcp2_pkt_decode_new_token_frame_def ngtcp2_pkt_decode_retire_connection_id_frame_def
  ngtcp2_pkt_decode_handshake_done_frame_def ngtcp2_pkt_decode_datagram_frame_def

definition reads_back :: "ngtcp2_frame \<Rightarrow> u8 list \<Rightarrow> bool" where
  "reads_back fr rest =
     (ngtcp2_frame_decoder_decode (frame_bytes fr @ rest) = Ok (frame_received fr, length (frame_bytes fr)))"

lemmas reads_back_simps = reads_back_def ngtcp2_frame_decoder_decode_def decode_defs as_frame_def
  Let_def with_length_def one_vec_def ptr_diff_def varint_len_Suc

lemma reads_back_uvarints:
  "frame_ok (Fr_reset_stream x1) \<Longrightarrow> reads_back (Fr_reset_stream x1) rest"
  "frame_ok (Fr_max_data x2) \<Longrightarrow> reads_back (Fr_max_data x2) rest"
  "frame_ok (Fr_max_stream_data x3) \<Longrightarrow> reads_back (Fr_max_stream_data x3) rest"
  "frame_ok (Fr_data_blocked x5) \<Longrightarrow> reads_back (Fr_data_blocked x5) rest"
  "frame_ok (Fr_stream_data_blocked x6) \<Longrightarrow> reads_back (Fr_stream_data_blocked x6) rest"
  "frame_ok (Fr_stop_sending x8) \<Longrightarrow> reads_back (Fr_stop_sending x8) rest"
  "frame_ok (Fr_retire_connection_id x9) \<Longrightarrow> reads_back (Fr_retire_connection_id x9) rest"
  by (simp_all add: reads_back_simps)

lemma reads_back_max_streams: "frame_ok (Fr_max_streams x) \<Longrightarrow> reads_back (Fr_max_streams x) rest"
  by (cases "ms_type x = 0x12") (simp_all add: reads_back_simps)

lemma reads_back_streams_blocked:
  "frame_ok (Fr_streams_blocked x) \<Longrightarrow> reads_back (Fr_streams_blocked x) rest"
  by (cases "sb_type x = 0x16") (simp_all add: reads_back_simps)

lemma reads_back_fixed:
  "frame_ok (Fr_ping x1) \<Longrightarrow> reads_back (Fr_ping x1) rest"
  "frame_ok (Fr_handshake_done x2) \<Longrightarrow> reads_back (Fr_handshake_done x2) rest"
  "frame_ok (Fr_path_challenge x3) \<Longrightarrow> reads_back (Fr_path_challenge x3) rest"
  "frame_ok (Fr_path_response x4) \<Longrightarrow> reads_back (Fr_path_response x4) rest"
  by (simp_all add: reads_back_simps)

lemma reads_back_new_token: "frame_ok (Fr_new_token x) \<Longrightarrow> reads_back (Fr_new_token x) rest"
  by (simp add: reads_back_simps)

lemma reads_back_connection_close:
  "frame_ok (Fr_connection_close x) \<Longrightarrow> reads_back (Fr_connection_close x) rest"
  by (cases "cc_type x = 0x1C") (simp_all add: reads_back_simps)

lemma reads_back_new_connection_id:
  assumes "frame_ok (Fr_new_connection_id x)" "frame_sendable (Fr_new_connection_id x) rest"
  shows "reads_back (Fr_new_connection_id x) rest"
proof -
  have "unat (of_nat (length (nci_cid x)) :: u8) = length (nci_cid x)"
    using assms(2) by (simp add: NGTCP2_MAX_CIDLEN_def unsigned_of_nat take_bit_nat_eq_self)
  with assms show ?thesis by (simp add: reads_back_simps)
qed

lemma reads_back_crypto:
  assumes "frame_ok (Fr_stream x)" "st_type x = 6"
  shows "reads_back (Fr_stream x) rest"
proof -
  obtain bs where bs: "bs = concat (st_data x)" by simp
  show ?thesis using assms by (simp add: reads_back_simps flip: bs)
qed

lemma reads_back_datagram:
  assumes "frame_ok (Fr_datagram x)" "frame_sendable (Fr_datagram x) rest"
  shows "reads_back (Fr_datagram x) rest"
proof -
  obtain bs where bs: "bs = concat (dg_data x)" by simp
  show ?thesis
    using assms by (cases "dg_type x = 0x30") (simp_all add: reads_back_simps rd_bytes_Ok flip: bs)
qed

lemma reads_back_stream:
  assumes "frame_ok (Fr_stream x)" "st_type x = 8"
  shows "reads_back (Fr_stream x) rest"
proof -
  obtain bs where bs: "bs = stream_payload x" by simp
  show ?thesis
    using assms by (cases "st_offset x = 0"; cases "st_fin x")
      (simp_all add: reads_back_simps stream_type_byte_def flip: bs)
qed

lemma reads_back_padding:
  assumes "frame_ok (Fr_padding x)" "frame_sendable (Fr_padding x) rest"
  shows "reads_back (Fr_padding x) rest"
proof -
  obtain n where n: "pad_len x = Suc n" using assms(2) by (cases "pad_len x") auto
  have "takeWhile (\<lambda>b. b = 0) (replicate n 0 @ rest) = replicate n 0"
    using assms(2) by (induction n) (cases rest, simp_all)
  with n assms show ?thesis by (simp add: reads_back_simps)
qed

subsection \<open>ACK frames\<close>

lemma uvs_append: "uvs (ms @ ns) = uvs ms @ uvs ns"
  by (simp add: uvs_def)

definition uvs_ext :: "u64 list \<Rightarrow> nat" where
  "uvs_ext ns = sum_list (map varint_ext ns)"

lemma length_uvs: "length (uvs ns) = length ns + uvs_ext ns"
  by (induction ns) (simp_all add: uvs_ext_def varint_len_Suc)

lemma length_ack_range_fields [simp]: "length (ack_range_fields rs) = 2 * length rs"
  by (induction rs) simp_all

lemma skip_ack_ranges_uvs [simp]:
  "uvs_ok (ack_range_fields rs) \<Longrightarrow> len + uvs_ext (ack_range_fields rs) \<le> L \<Longrightarrow>
     skip_ack_ranges L (length rs) len (uvs (ack_range_fields rs) @ r) =
       Ok (len + uvs_ext (ack_range_fields rs), r)"
  by (induction rs arbitrary: len) (simp_all add: uvs_ext_def numeral_2_eq_2)

lemma read_ack_ranges_uvs [simp]:
  "uvs_ok (ack_range_fields rs) \<Longrightarrow>
     read_ack_ranges (length rs) (uvs (ack_range_fields rs) @ r) = Ok (rs, r)"
  by (induction rs) simp_all

lemma skip_uvarints_3:
  "skip_uvarints L 3 len p =
     bindR (skip_uvarint L len p) (\<lambda>(len, p). bindR (skip_uvarint L len p) (\<lambda>(len, p). skip_uvarint L len p))"
  by (simp add: numeral_3_eq_3 bindR_unit split_def bindR_assoc)

lemma reads_back_ack:
  assumes ok: "frame_ok (Fr_ack x)" and few: "frame_sendable (Fr_ack x) rest"
  shows "reads_back (Fr_ack x) rest"
proof -
  let ?n = "length (ack_ranges x)" and ?fs = "uvs (ack_range_fields (ack_ranges x))"
  have "?n < 2 ^ 62" using ok by simp
  then have n: "unat (of_nat ?n :: u64) = ?n" "of_nat ?n \<le> varint_max"
    using len_ok_unat [of "replicate ?n 0"] len_ok_varint [of "replicate ?n 0"]
    by (simp_all add: len_ok_def)
  have "?n \<le> 32" using few by (simp add: NGTCP2_MAX_ACK_RANGES_def)
  then have small: "\<not> 9223372036854775807 < (of_nat ?n :: u64)"
    using n(1) by (simp add: word_less_nat_alt)
  moreover from unat_double [OF small] n(1) have "unat (of_nat ?n * 2 :: u64) = 2 * ?n" by simp
  moreover have "min NGTCP2_MAX_ACK_RANGES ?n = ?n" using few by simp
  ultimately show ?thesis
    using ok n
    by (cases "ack_type x = 3")
      (simp_all add: reads_back_def ngtcp2_frame_decoder_decode_def ngtcp2_pkt_decode_ack_frame_def
        ack_frame_check_def ack_ranges_check_def as_frame_def Let_def ptr_diff_def length_uvs
        varint_len_Suc skip_uvarints_3)
qed

lemmas reads_back_all = reads_back_uvarints reads_back_max_streams reads_back_streams_blocked
  reads_back_fixed reads_back_new_token reads_back_connection_close reads_back_new_connection_id
  reads_back_datagram reads_back_padding reads_back_ack

lemma frame_roundtrip:
  assumes "frame_ok fr" and "frame_sendable fr rest"
  shows "ngtcp2_frame_decoder_decode (frame_bytes fr @ rest) =
           Ok (frame_received fr, length (frame_bytes fr))"
proof -
  have "reads_back fr rest"
  proof (cases fr)
    case (Fr_stream x)
    with assms show ?thesis
      by (cases "st_type x = 6") (auto intro: reads_back_crypto reads_back_stream)
  qed (use assms reads_back_all in metis)+
  then show ?thesis by (simp add: reads_back_def)
qed

section \<open>Encoder and decoder\<close>

text \<open>
  C1: What \<open>ngtcp2_pkt_encode_frame\<close> writes for a well-formed frame, \<open>ngtcp2_frame_decoder_decode\<close> reads back, also with other bytes behind it: the
  same frame, its data in one vector and the fields that are not sent at their defaults, and it consumes exactly the bytes that were
  written. \<open>frame_sendable\<close> has what the encoder does not check and the decoder needs: an ACK frame has at most 32 ranges besides the first one (more are
  not returned), a connection ID in NEW_CONNECTION_ID has 1 to 20 bytes (others are rejected), a PADDING frame is not empty and no zero byte follows it (it would
  be counted), and a DATAGRAM frame without a length is the last frame of the packet.
\<close>

theorem frame_encode_decode:
  assumes "frame_ok fr" "frame_sendable fr rest" "ngtcp2_pkt_encode_frame out fr = Ok (fr', out', n)"
  shows "ngtcp2_frame_decoder_decode (take n out' @ rest) = Ok (frame_received fr, n)"
proof -
  have "n = length (frame_bytes fr)" "out' = filled out (frame_bytes fr)"
    using assms(3) encode_frame_spec [OF assms(1), of out] by (auto split: if_splits)
  then show ?thesis using frame_roundtrip [OF assms(1,2)] by simp
qed

theorem frame_encode_decode_witness:
  "ngtcp2_frame_decoder_decode (take 5 [4, 4, 0x41, 0x2C, 9] @ [1]) =
     Ok (Fr_reset_stream \<lparr>rs_type = 4, rs_stream_id = 4, rs_app_error_code = 300, rs_final_size = 9\<rparr>, 5)"
proof -
  let ?fr = "Fr_reset_stream \<lparr>rs_type = 4, rs_stream_id = 4, rs_app_error_code = 300, rs_final_size = 9\<rparr>"
  have ok: "frame_ok ?fr" "frame_sendable ?fr [1]" by (simp_all add: uvs_ok_def varint_max_def)
  have "frame_bytes ?fr = [4, 4, 0x41, 0x2C, 9]"
    by code_simp
  then have "ngtcp2_pkt_encode_frame (replicate 5 0) ?fr = Ok (?fr, [4, 4, 0x41, 0x2C, 9], 5)"
    using encode_frame_spec [OF ok(1), of "replicate 5 0"] by (simp add: filled_def del: frame_bytes.simps)
  from frame_encode_decode [OF ok this] show ?thesis by (simp only: frame_received.simps)
qed

end
