(* ===== verification/Pkt_Header.thy ===== *)
theory Pkt_Header
  imports Frame_Roundtrip
begin

text \<open>
  Packet headers (\<open>lib/ngtcp2_pkt.c\<close>): the versions and the version dependent packet types,
  \<open>ngtcp2_pkt_decode_version_cid\<close>, and the decoders and encoders of long and short headers. The
  lemmas show that the decoders stay within the packet, whatever its bytes are, and that they read
  back the headers that the encoders write, up to the packet number, which is protected and not
  part of what they decode.
\<close>

section \<open>Constants and structures\<close>

abbreviation (input) "NGTCP2_HEADER_FORM_BIT \<equiv> 0x80 :: u8"
abbreviation (input) "NGTCP2_FIXED_BIT_MASK \<equiv> 0x40 :: u8"
abbreviation (input) "NGTCP2_LONG_TYPE_MASK \<equiv> 0x30 :: u8"
abbreviation (input) "NGTCP2_LONG_RESERVED_BIT_MASK \<equiv> 0x0C :: u8"
abbreviation (input) "NGTCP2_SHORT_RESERVED_BIT_MASK \<equiv> 0x18 :: u8"
abbreviation (input) "NGTCP2_SHORT_KEY_PHASE_BIT \<equiv> 0x04 :: u8"

abbreviation (input) "NGTCP2_PROTO_VER_V1 \<equiv> 0x00000001 :: u32"
abbreviation (input) "NGTCP2_PROTO_VER_V2 \<equiv> 0x6B3343CF :: u32"
abbreviation (input) "NGTCP2_RESERVED_VERSION_MASK \<equiv> 0x0A0A0A0A :: u32"

abbreviation (input) "NGTCP2_PKT_VERSION_NEGOTIATION \<equiv> 0x80 :: u8"
abbreviation (input) "NGTCP2_PKT_INITIAL \<equiv> 0x10 :: u8"
abbreviation (input) "NGTCP2_PKT_0RTT \<equiv> 0x11 :: u8"
abbreviation (input) "NGTCP2_PKT_HANDSHAKE \<equiv> 0x12 :: u8"
abbreviation (input) "NGTCP2_PKT_RETRY \<equiv> 0x13 :: u8"
abbreviation (input) "NGTCP2_PKT_1RTT \<equiv> 0x40 :: u8"

abbreviation (input) "NGTCP2_PKT_FLAG_NONE \<equiv> 0x00 :: u8"
abbreviation (input) "NGTCP2_PKT_FLAG_LONG_FORM \<equiv> 0x01 :: u8"
abbreviation (input) "NGTCP2_PKT_FLAG_FIXED_BIT_CLEAR \<equiv> 0x02 :: u8"
abbreviation (input) "NGTCP2_PKT_FLAG_KEY_PHASE \<equiv> 0x04 :: u8"

definition NGTCP2_MAX_UDP_PAYLOAD_SIZE :: nat where "NGTCP2_MAX_UDP_PAYLOAD_SIZE = 1200"
definition NGTCP2_MIN_LONG_HEADERLEN :: nat where "NGTCP2_MIN_LONG_HEADERLEN = 9"
definition NGTCP2_PKT_LENGTHLEN :: nat where "NGTCP2_PKT_LENGTHLEN = 4"

record ngtcp2_pkt_hd =
  hd_dcid :: ngtcp2_cid
  hd_scid :: ngtcp2_cid
  hd_pkt_num :: i64
  hd_token :: "u8 list"
  hd_pkt_numlen :: nat
  hd_len :: u64
  hd_version :: u32
  hd_type :: u8
  hd_flags :: u8

record ngtcp2_version_cid =
  vc_version :: u32
  vc_dcid :: "u8 list"
  vc_scid :: "u8 list"

section \<open>Versions and packet types\<close>

definition ngtcp2_is_supported_version :: "u32 \<Rightarrow> bool" where
  "ngtcp2_is_supported_version version =
     (if version = NGTCP2_PROTO_VER_V1 \<or> version = NGTCP2_PROTO_VER_V2 then True else False)"

definition ngtcp2_is_reserved_version :: "u32 \<Rightarrow> bool" where
  "ngtcp2_is_reserved_version version =
     (version AND NGTCP2_RESERVED_VERSION_MASK = NGTCP2_RESERVED_VERSION_MASK)"

definition ngtcp2_pkt_get_type_long :: "u32 \<Rightarrow> u8 \<Rightarrow> u8" where
  "ngtcp2_pkt_get_type_long version c =
     (let pkt_type = drop_bit 4 (c AND NGTCP2_LONG_TYPE_MASK) in
      if version = NGTCP2_PROTO_VER_V2 then
        (if pkt_type = 1 then NGTCP2_PKT_INITIAL
         else if pkt_type = 2 then NGTCP2_PKT_0RTT
         else if pkt_type = 3 then NGTCP2_PKT_HANDSHAKE
         else if pkt_type = 0 then NGTCP2_PKT_RETRY
         else 0)
      else if \<not> ngtcp2_is_supported_version version then 0
      else
        (if pkt_type = 0 then NGTCP2_PKT_INITIAL
         else if pkt_type = 1 then NGTCP2_PKT_0RTT
         else if pkt_type = 2 then NGTCP2_PKT_HANDSHAKE
         else if pkt_type = 3 then NGTCP2_PKT_RETRY
         else 0))"

definition ngtcp2_pkt_versioned_type :: "u32 \<Rightarrow> u8 \<Rightarrow> u8 res" where
  "ngtcp2_pkt_versioned_type version pkt_type =
     (if version = NGTCP2_PROTO_VER_V2 then
        (if pkt_type = NGTCP2_PKT_INITIAL then Ok 1
         else if pkt_type = NGTCP2_PKT_0RTT then Ok 2
         else if pkt_type = NGTCP2_PKT_HANDSHAKE then Ok 3
         else if pkt_type = NGTCP2_PKT_RETRY then Ok 0
         else Fault)
      else
        (if pkt_type = NGTCP2_PKT_INITIAL then Ok 0
         else if pkt_type = NGTCP2_PKT_0RTT then Ok 1
         else if pkt_type = NGTCP2_PKT_HANDSHAKE then Ok 2
         else if pkt_type = NGTCP2_PKT_RETRY then Ok 3
         else Fault))"

definition ngtcp2_pkt_verify_reserved_bits :: "u8 \<Rightarrow> unit res" where
  "ngtcp2_pkt_verify_reserved_bits c =
     (if c AND NGTCP2_HEADER_FORM_BIT \<noteq> 0 then
        (if c AND NGTCP2_LONG_RESERVED_BIT_MASK = 0 then Ok () else Err NGTCP2_ERR_PROTO)
      else (if c AND NGTCP2_SHORT_RESERVED_BIT_MASK = 0 then Ok () else Err NGTCP2_ERR_PROTO))"

section \<open>Decoders\<close>

text \<open>
  \<open>ngtcp2_pkt_decode_version_cid\<close> fills its result and returns 0 (\<open>None\<close>) or
  \<open>NGTCP2_ERR_VERSION_NEGOTIATION\<close> (\<open>Some\<close>); its other errors leave the result alone.
\<close>

definition ngtcp2_pkt_decode_version_cid ::
    "u8 list \<Rightarrow> nat \<Rightarrow> (ngtcp2_version_cid \<times> lib_error option) res" where
  "ngtcp2_pkt_decode_version_cid data short_dcidlen =
     (let datalen = length data in
      assertR (datalen \<noteq> 0)
     (bindR (peek data) (\<lambda>c.
      if c AND NGTCP2_HEADER_FORM_BIT \<noteq> 0 then
        (let len = 7 in
         if datalen < len then Err NGTCP2_ERR_INVALID_ARGUMENT else
         bindR (ptr_add data 5) (\<lambda>p.
         bindR (peek p) (\<lambda>b.
         let dcidlen = unat b; len = len + dcidlen in
         if datalen < len then Err NGTCP2_ERR_INVALID_ARGUMENT else
         bindR (ptr_add data (5 + 1 + dcidlen)) (\<lambda>p.
         bindR (peek p) (\<lambda>b.
         let scidlen = unat b; len = len + scidlen in
         if datalen < len then Err NGTCP2_ERR_INVALID_ARGUMENT else
         bindR (ptr_add data 1) (\<lambda>p.
         bindR (ngtcp2_get_uint32be p) (\<lambda>(version, _).
         let supported_version = ngtcp2_is_supported_version version in
         if supported_version \<and> (NGTCP2_MAX_CIDLEN < dcidlen \<or> NGTCP2_MAX_CIDLEN < scidlen)
         then Err NGTCP2_ERR_INVALID_ARGUMENT else
         if version \<noteq> 0 \<and> \<not> supported_version \<and> datalen < NGTCP2_MAX_UDP_PAYLOAD_SIZE
         then Err NGTCP2_ERR_INVALID_ARGUMENT else
         bindR (ptr_add data 6) (\<lambda>p.
         bindR (rd_bytes p dcidlen) (\<lambda>(dcid, _).
         bindR (ptr_add data (6 + dcidlen + 1)) (\<lambda>p.
         bindR (rd_bytes p scidlen) (\<lambda>(scid, _).
         let dest = \<lparr>vc_version = version, vc_dcid = dcid, vc_scid = scid\<rparr> in
         if version = 0 then Ok (dest, None) else
         if \<not> supported_version then Ok (dest, Some NGTCP2_ERR_VERSION_NEGOTIATION) else
         Ok (dest, None))))))))))))
      else
        assertR (short_dcidlen \<le> NGTCP2_MAX_CIDLEN)
        (let len = 1 + short_dcidlen in
         if datalen < len then Err NGTCP2_ERR_INVALID_ARGUMENT else
         bindR (ptr_add data 1) (\<lambda>p.
         bindR (rd_bytes p short_dcidlen) (\<lambda>(dcid, _).
         Ok (\<lparr>vc_version = 0, vc_dcid = dcid, vc_scid = []\<rparr>, None)))))))"

definition ngtcp2_cid_init :: "u8 list \<Rightarrow> nat \<Rightarrow> ngtcp2_cid res" where
  "ngtcp2_cid_init data datalen =
     assertR (datalen \<le> NGTCP2_MAX_CIDLEN) (bindR (rd_bytes data datalen) (\<lambda>(cid, _). Ok cid))"

definition ngtcp2_pkt_hd_init ::
    "u8 \<Rightarrow> u8 \<Rightarrow> ngtcp2_cid option \<Rightarrow> ngtcp2_cid option \<Rightarrow> i64 \<Rightarrow> nat \<Rightarrow> u32 \<Rightarrow> ngtcp2_pkt_hd" where
  "ngtcp2_pkt_hd_init flags type dcid scid pkt_num pkt_numlen version =
     \<lparr>hd_dcid = (case dcid of Some c \<Rightarrow> c | None \<Rightarrow> []),
      hd_scid = (case scid of Some c \<Rightarrow> c | None \<Rightarrow> []),
      hd_pkt_num = pkt_num, hd_token = [], hd_pkt_numlen = pkt_numlen, hd_len = 0,
      hd_version = version, hd_type = type, hd_flags = flags\<rparr>"

text \<open>
  \<open>ngtcp2_pkt_decode_hd_long\<close>: first the type, the flags and the least length, then the token
  of an Initial packet, then the length field.
\<close>

definition hd_long_type :: "u8 \<Rightarrow> u32 \<Rightarrow> (u8 \<times> u8 \<times> nat) res" where
  "hd_long_type c version =
     (if version = 0 then Ok (NGTCP2_PKT_VERSION_NEGOTIATION, NGTCP2_PKT_FLAG_NONE, 7)
      else
        let flags = (if c AND NGTCP2_FIXED_BIT_MASK = 0
                     then NGTCP2_PKT_FLAG_LONG_FORM OR NGTCP2_PKT_FLAG_FIXED_BIT_CLEAR
                     else NGTCP2_PKT_FLAG_LONG_FORM);
            type = ngtcp2_pkt_get_type_long version c in
        if type = 0 then Err NGTCP2_ERR_INVALID_ARGUMENT
        else if type = NGTCP2_PKT_INITIAL then
          Ok (type, flags, 1 + NGTCP2_MIN_LONG_HEADERLEN - 1)
        else if type = NGTCP2_PKT_RETRY then Ok (type, flags, 7)
        else if type = NGTCP2_PKT_HANDSHAKE \<or> type = NGTCP2_PKT_0RTT then
          Ok (type, flags, NGTCP2_MIN_LONG_HEADERLEN - 1)
        else Fault)"

definition hd_long_token ::
    "nat \<Rightarrow> u8 \<Rightarrow> nat \<Rightarrow> u8 list \<Rightarrow> (nat \<times> u8 list \<times> nat \<times> u8 list) res" where
  "hd_long_token pktlen type len p =
     (if type = NGTCP2_PKT_INITIAL then
        bindR (ngtcp2_get_uvarintlen p) (\<lambda>ntokenlen.
        let len = len + (ntokenlen - 1) in
        if pktlen < len then Err NGTCP2_ERR_INVALID_ARGUMENT else
        bindR (ngtcp2_get_uvarint p) (\<lambda>(vi, p).
        if pktlen - len < unat vi then Err NGTCP2_ERR_INVALID_ARGUMENT else
        let tokenlen = unat vi; len = len + tokenlen in
        bindR (rd_bytes p tokenlen) (\<lambda>(token, p).
        Ok (ntokenlen, token, len, p))))
      else Ok (0, [], len, p))"

definition hd_long_length ::
    "nat \<Rightarrow> u8 \<Rightarrow> u8 \<Rightarrow> nat \<Rightarrow> u8 list \<Rightarrow> (nat \<times> u64 \<times> nat) res" where
  "hd_long_length pktlen type flags len p =
     (if type = NGTCP2_PKT_RETRY then Ok (0, 0, len)
      else if flags AND NGTCP2_PKT_FLAG_LONG_FORM = 0 then
        assertR (type = NGTCP2_PKT_VERSION_NEGOTIATION) (Ok (0, 0, len))
      else
        bindR (ngtcp2_get_uvarintlen p) (\<lambda>nlonglen.
        let len = len + (nlonglen - 1) in
        if pktlen < len then Err NGTCP2_ERR_INVALID_ARGUMENT else
        bindR (ngtcp2_get_uvarint p) (\<lambda>(vi, _).
        Ok (nlonglen, vi, len))))"

definition ngtcp2_pkt_decode_hd_long :: "u8 list \<Rightarrow> (ngtcp2_pkt_hd \<times> nat) res" where
  "ngtcp2_pkt_decode_hd_long pkt =
     (let pktlen = length pkt in
      if pktlen < 5 then Err NGTCP2_ERR_INVALID_ARGUMENT else
      bindR (peek pkt) (\<lambda>c.
      if c AND NGTCP2_HEADER_FORM_BIT = 0 then Err NGTCP2_ERR_INVALID_ARGUMENT else
      bindR (ptr_add pkt 1) (\<lambda>p.
      bindR (ngtcp2_get_uint32be p) (\<lambda>(version, _).
      bindR (hd_long_type c version) (\<lambda>(type, flags, len).
      if pktlen < len then Err NGTCP2_ERR_INVALID_ARGUMENT else
      bindR (ptr_add pkt 5) (\<lambda>p.
      bindR (peek p) (\<lambda>b.
      let dcil = unat b in
      if NGTCP2_MAX_CIDLEN < dcil then Err NGTCP2_ERR_INVALID_ARGUMENT else
      let len = len + dcil in
      if pktlen < len then Err NGTCP2_ERR_INVALID_ARGUMENT else
      bindR (ptr_add p (1 + dcil)) (\<lambda>p.
      bindR (peek p) (\<lambda>b.
      let scil = unat b in
      if NGTCP2_MAX_CIDLEN < scil then Err NGTCP2_ERR_INVALID_ARGUMENT else
      let len = len + scil in
      if pktlen < len then Err NGTCP2_ERR_INVALID_ARGUMENT else
      bindR (ptr_add p (1 + scil)) (\<lambda>p.
      bindR (hd_long_token pktlen type len p) (\<lambda>(ntokenlen, token, len, p).
      bindR (hd_long_length pktlen type flags len p) (\<lambda>(nlonglen, longlen, len).
      bindR (ptr_add pkt 6) (\<lambda>p.
      bindR (ngtcp2_cid_init p dcil) (\<lambda>dcid.
      bindR (ptr_add p (dcil + 1)) (\<lambda>p.
      bindR (ngtcp2_cid_init p scil) (\<lambda>scid.
      bindR (ptr_add p scil) (\<lambda>p.
      bindR (ptr_add p (ntokenlen + length token)) (\<lambda>p.
      bindR (ptr_add p nlonglen) (\<lambda>p.
      assertR (ptr_diff p pkt = len)
        (Ok (\<lparr>hd_dcid = dcid, hd_scid = scid, hd_pkt_num = 0, hd_token = token,
              hd_pkt_numlen = 0, hd_len = longlen, hd_version = version, hd_type = type,
              hd_flags = flags\<rparr>, len)))))))))))))))))))))"

definition ngtcp2_pkt_decode_hd_short :: "u8 list \<Rightarrow> nat \<Rightarrow> (ngtcp2_pkt_hd \<times> nat) res" where
  "ngtcp2_pkt_decode_hd_short pkt dcidlen =
     (let pktlen = length pkt; len = 1 + dcidlen in
      assertR (dcidlen \<le> NGTCP2_MAX_CIDLEN)
     (if pktlen < len then Err NGTCP2_ERR_INVALID_ARGUMENT else
      bindR (peek pkt) (\<lambda>c.
      if c AND NGTCP2_HEADER_FORM_BIT \<noteq> 0 then Err NGTCP2_ERR_INVALID_ARGUMENT else
      let flags = (if c AND NGTCP2_FIXED_BIT_MASK = 0
                   then NGTCP2_PKT_FLAG_NONE OR NGTCP2_PKT_FLAG_FIXED_BIT_CLEAR
                   else NGTCP2_PKT_FLAG_NONE) in
      bindR (ptr_add pkt 1) (\<lambda>p.
      bindR (ngtcp2_cid_init p dcidlen) (\<lambda>dcid.
      bindR (ptr_add p dcidlen) (\<lambda>p.
      assertR (ptr_diff p pkt = len)
        (Ok (\<lparr>hd_dcid = dcid, hd_scid = [], hd_pkt_num = 0, hd_token = [], hd_pkt_numlen = 0,
              hd_len = 0, hd_version = 0, hd_type = NGTCP2_PKT_1RTT, hd_flags = flags\<rparr>,
             len))))))))"

section \<open>Encoders\<close>

definition ngtcp2_pkt_encode_hd_long :: "u8 list \<Rightarrow> ngtcp2_pkt_hd \<Rightarrow> (u8 list \<times> nat) res" where
  "ngtcp2_pkt_encode_hd_long out h =
     (let dcil = length (hd_dcid h); scil = length (hd_scid h); tokenlen = length (hd_token h);
          len = NGTCP2_MIN_LONG_HEADERLEN + dcil + scil - 2;
          len = (if hd_type h \<noteq> NGTCP2_PKT_RETRY
                 then len + (NGTCP2_PKT_LENGTHLEN + hd_pkt_numlen h) else len) in
      bindR (if hd_type h = NGTCP2_PKT_INITIAL
             then bindR (ngtcp2_put_uvarintlen (of_nat tokenlen)) (\<lambda>n. Ok (len + (n + tokenlen)))
             else Ok len) (\<lambda>len.
      if length out < len then Err NGTCP2_ERR_NOBUF else
      bindR (ngtcp2_pkt_versioned_type (hd_version h) (hd_type h)) (\<lambda>t.
      bindR (wr_bytes out 0
               [ucast (0x80 OR push_bit 4 (ucast t) OR (of_nat (hd_pkt_numlen h) - 1) :: u32)]) (\<lambda>(out, p).
      bindR (if hd_flags h AND NGTCP2_PKT_FLAG_FIXED_BIT_CLEAR = 0
             then wr_or out 0 NGTCP2_FIXED_BIT_MASK else Ok out) (\<lambda>out.
      bindR (ngtcp2_put_uint32be out p (hd_version h)) (\<lambda>(out, p).
      bindR (wr_bytes out p [of_nat dcil]) (\<lambda>(out, p).
      bindR (if dcil \<noteq> 0 then wr_bytes out p (hd_dcid h) else Ok (out, p)) (\<lambda>(out, p).
      bindR (wr_bytes out p [of_nat scil]) (\<lambda>(out, p).
      bindR (if scil \<noteq> 0 then wr_bytes out p (hd_scid h) else Ok (out, p)) (\<lambda>(out, p).
      bindR (if hd_type h = NGTCP2_PKT_INITIAL then
               bindR (ngtcp2_put_uvarint out p (of_nat tokenlen)) (\<lambda>(out, p).
               if tokenlen \<noteq> 0 then wr_bytes out p (hd_token h) else Ok (out, p))
             else Ok (out, p)) (\<lambda>(out, p).
      bindR (if hd_type h \<noteq> NGTCP2_PKT_RETRY then
               bindR (ngtcp2_put_uvarint30 out p (ucast (hd_len h))) (\<lambda>(out, p).
               ngtcp2_put_pkt_num out p (hd_pkt_num h) (hd_pkt_numlen h))
             else Ok (out, p)) (\<lambda>(out, p).
      assertR (p = len) (Ok (out, len))))))))))))))"

definition ngtcp2_pkt_encode_hd_short :: "u8 list \<Rightarrow> ngtcp2_pkt_hd \<Rightarrow> (u8 list \<times> nat) res" where
  "ngtcp2_pkt_encode_hd_short out h =
     (let dcil = length (hd_dcid h); len = 1 + dcil + hd_pkt_numlen h in
      if length out < len then Err NGTCP2_ERR_NOBUF else
      bindR (wr_bytes out 0 [of_nat (hd_pkt_numlen h) - 1]) (\<lambda>(out, p).
      bindR (if hd_flags h AND NGTCP2_PKT_FLAG_FIXED_BIT_CLEAR = 0
             then wr_or out 0 NGTCP2_FIXED_BIT_MASK else Ok out) (\<lambda>out.
      bindR (if hd_flags h AND NGTCP2_PKT_FLAG_KEY_PHASE \<noteq> 0
             then wr_or out 0 NGTCP2_SHORT_KEY_PHASE_BIT else Ok out) (\<lambda>out.
      bindR (if dcil \<noteq> 0 then wr_bytes out p (hd_dcid h) else Ok (out, p)) (\<lambda>(out, p).
      bindR (ngtcp2_put_pkt_num out p (hd_pkt_num h) (hd_pkt_numlen h)) (\<lambda>(out, p).
      assertR (p = len) (Ok (out, len))))))))"

section \<open>The decoders stay within the packet\<close>

lemma cid_init_Ok [rd_simps]:
  "n \<le> NGTCP2_MAX_CIDLEN \<Longrightarrow> n \<le> length p \<Longrightarrow> ngtcp2_cid_init p n = Ok (take n p)"
  by (simp add: ngtcp2_cid_init_def rd_bytes_Ok)

lemma get_uint32be_Ok [rd_simps]:
  "4 \<le> length p \<Longrightarrow> ngtcp2_get_uint32be p = Ok (be_value (take 4 p), drop 4 p)"
  by (simp add: ngtcp2_get_uint32be_def rd_bytes_Ok)

lemma if_mem: "a \<in> S \<Longrightarrow> b \<in> S \<Longrightarrow> (if p then a else b) \<in> S"
  by simp

lemma get_type_long_cases: "ngtcp2_pkt_get_type_long version c \<in> {0, 0x10, 0x11, 0x12, 0x13}"
  unfolding ngtcp2_pkt_get_type_long_def Let_def by (intro if_mem) simp_all

lemma hd_long_type_step:
  "okR (\<lambda>(type, flags, len). 7 \<le> len \<and>
      (if type = 0x10 then flags AND 1 \<noteq> 0 \<and> len = 9
       else if type = 0x13 then len = 7
       else if flags AND 1 = 0 then type = 0x80 \<and> len = 7
       else len = 8)) (hd_long_type c version)"
  using get_type_long_cases [of version c]
  by (elim insertE) (simp_all add: hd_long_type_def Let_def NGTCP2_MIN_LONG_HEADERLEN_def)

lemma hd_long_token_step:
  assumes "length p + len = L + (if type = 0x10 then r + 1 else r)" and "len \<le> L"
  shows "okR (\<lambda>(ntokenlen, token, len', p'). p' = drop (ntokenlen + length token) p \<and>
     ntokenlen + length token \<le> length p \<and>
     (type \<noteq> 0x10 \<longrightarrow> ntokenlen = 0 \<and> token = []) \<and> length p' + len' = L + r \<and> len' \<le> L)
    (hd_long_token L type len p)"
proof (cases "type = 0x10")
  case True
  then have p: "0 < length p" using assms by (cases p) auto
  obtain u where u: "uvlen p = Suc u" using uvlen_pos(2) [of p] gr0_implies_Suc by blast
  show ?thesis
  proof (cases "L < len + u")
    case False
    then have "Suc u \<le> length p" using assms True by simp
    with True p u False assms show ?thesis
      by (simp add: hd_long_token_def get_uvarintlen_Ok get_uvarint_Ok rd_bytes_Ok Let_def drop_drop add.commute) arith
  qed (use p u True in \<open>simp add: hd_long_token_def get_uvarintlen_Ok Let_def\<close>)
qed (use assms in \<open>simp add: hd_long_token_def\<close>)

lemma hd_long_length_step:
  assumes "length p + len = L + (if type = 0x13 \<or> flags AND 1 = 0 then 0 else 1)" and "len \<le> L"
    and "type \<noteq> 0x13 \<Longrightarrow> flags AND 1 = 0 \<Longrightarrow> type = 0x80"
  shows "okR (\<lambda>(nlonglen, longlen, len'). nlonglen \<le> length p \<and> length p - nlonglen + len' = L \<and> len' \<le> L \<and> longlen \<le> varint_max)
    (hd_long_length L type flags len p)"
proof (cases "type = 0x13 \<or> flags AND 1 = 0")
  case False
  then have p: "0 < length p" using assms by auto
  obtain u where u: "uvlen p = Suc u" using uvlen_pos(2) [of p] gr0_implies_Suc by blast
  show ?thesis
  proof (cases "L < len + u")
    case True
    with p u False show ?thesis by (simp add: hd_long_length_def get_uvarintlen_Ok Let_def)
  next
    case le: False
    then have "Suc u \<le> length p" using assms False by simp
    with False p u le assms show ?thesis
      by (simp add: hd_long_length_def get_uvarintlen_Ok get_uvarint_Ok Let_def)
  qed
qed (use assms in \<open>auto simp: hd_long_length_def varint_max_def\<close>)

lemma hd_short_within:
  "dcidlen \<le> NGTCP2_MAX_CIDLEN \<Longrightarrow> decoded_within pkt (ngtcp2_pkt_decode_hd_short pkt dcidlen)"
  by (cases pkt) (auto simp: decoded_within_def ngtcp2_pkt_decode_hd_short_def Let_def rd_simps ptr_diff_def)

text \<open>The end of the decoder, when both connection ID lengths \<open>d\<close> and \<open>e\<close> are known.\<close>

lemma hd_long_tail:
  assumes type: "if type = 0x10 then flags AND 1 \<noteq> 0 \<and> len0 = 9 else if type = 0x13 then len0 = 7
       else if flags AND 1 = 0 then type = 0x80 \<and> len0 = 7 else len0 = (8::nat)"
    and cids: "d \<le> NGTCP2_MAX_CIDLEN" "e \<le> NGTCP2_MAX_CIDLEN" and len: "len0 + d + e \<le> length pkt"
  shows "okR (\<lambda>(x, n). 1 \<le> n \<and> n \<le> length pkt)
    (bindR (hd_long_token (length pkt) type (len0 + d + e) (drop (7 + d + e) pkt))
      (\<lambda>(ntokenlen, token, len, p).
     bindR (hd_long_length (length pkt) type flags len p) (\<lambda>(nlonglen, longlen, len).
     bindR (ptr_add pkt 6) (\<lambda>p.
     bindR (ngtcp2_cid_init p d) (\<lambda>dcid.
     bindR (ptr_add p (d + 1)) (\<lambda>p.
     bindR (ngtcp2_cid_init p e) (\<lambda>scid.
     bindR (ptr_add p e) (\<lambda>p.
     bindR (ptr_add p (ntokenlen + length token)) (\<lambda>p.
     bindR (ptr_add p nlonglen) (\<lambda>p.
     assertR (ptr_diff p pkt = len) (Ok (f dcid scid token longlen, len))))))))))))"
proof -
  let ?p = "drop (7 + d + e) pkt" and ?r = "if type = 0x13 \<or> flags AND 1 = 0 then 0 else 1 :: nat"
  have len0: "7 \<le> len0" using type by (simp split: if_splits)
  have "length ?p + (len0 + d + e) = length pkt + (if type = 0x10 then ?r + 1 else ?r)"
    using type len by (auto split: if_splits)
  note token = hd_long_token_step [OF this len]
  show ?thesis
  proof (rule okR_bindI [OF token], clarify, goal_cases)
    case (1 ntokenlen token len1)
    show ?case
    proof (rule okR_bindI [OF hd_long_length_step [OF 1(3, 4)]], goal_cases)
      case 1
      then show ?case using type by (auto split: if_splits)
    next
      case (2 x)
      obtain nl ll c where x: "x = (nl, ll, c)" by (cases x)
      let ?n = "ntokenlen + length token"
      have "?n + (7 + d + e) \<le> length pkt" "nl + (?n + (7 + d + e)) \<le> length pkt"
        and "c = nl + (?n + (7 + d + e))" "c \<le> length pkt"
        using 1 2 x len len0 by (auto simp: drop_drop)
      with x cids show ?case
        by (simp add: rd_simps ptr_diff_def)
    qed
  qed
qed

lemma hd_long_within: "decoded_within pkt (ngtcp2_pkt_decode_hd_long pkt)"
proof (cases "length pkt < 5 \<or> hd pkt AND 0x80 = 0")
  case True
  then show ?thesis
    by (cases pkt) (auto simp: decoded_within_def ngtcp2_pkt_decode_hd_long_def Let_def)
next
  case False
  let ?d = "unat (hd (drop 5 pkt))"
  let ?e = "unat (hd (drop (6 + ?d) pkt))"
  from False have F: "(length pkt < 5) = False" "(hd pkt AND 0x80 = 0) = False" by auto
  have pk: "peek pkt = Ok (hd pkt)" "ptr_add pkt 1 = Ok (drop 1 pkt)"
    "ngtcp2_get_uint32be (drop 1 pkt) = Ok (be_value (take 4 (drop 1 pkt)), drop 5 pkt)"
    using False by (cases pkt; simp add: peek_Ok ptr_add_Ok get_uint32be_Ok)+
  show ?thesis
    unfolding decoded_within_def ngtcp2_pkt_decode_hd_long_def Let_def pk bindR.simps prod.case
    F if_False
  proof (rule okR_bindI [OF hd_long_type_step], clarify, goal_cases)
    case (1 type flags len0)
    have p1: "ptr_add pkt 5 = Ok (drop 5 pkt)" "peek (drop 5 pkt) = Ok (hd (drop 5 pkt))"
      if "len0 \<le> length pkt"
      using that 1 by (simp_all add: ptr_add_Ok peek_Ok)
    have p2: "ptr_add (drop 5 pkt) (1 + ?d) = Ok (drop (6 + ?d) pkt)"
      "peek (drop (6 + ?d) pkt) = Ok (hd (drop (6 + ?d) pkt))" if "len0 + ?d \<le> length pkt"
      using that 1 by (simp_all add: ptr_add_Ok peek_Ok drop_drop add.commute)
    have p3: "ptr_add (drop (6 + ?d) pkt) (1 + ?e) = Ok (drop (7 + ?d + ?e) pkt)"
      if "len0 + ?d + ?e \<le> length pkt"
      using that 1 by (simp add: ptr_add_Ok drop_drop ac_simps)
    show ?case
      by (simp add: p1 p2 p3 not_less del: One_nat_def cong: if_cong)
        (intro impI hd_long_tail [OF 1(2)])
  qed
qed

lemma version_cid_safe:
  assumes "data \<noteq> []" and "short_dcidlen \<le> NGTCP2_MAX_CIDLEN"
  shows "okR (\<lambda>(vc, e). length (vc_dcid vc) + length (vc_scid vc) < length data \<and>
      (ngtcp2_is_supported_version (vc_version vc) \<longrightarrow>
         length (vc_dcid vc) \<le> NGTCP2_MAX_CIDLEN \<and> length (vc_scid vc) \<le> NGTCP2_MAX_CIDLEN) \<and>
      (e = (if hd data AND 0x80 \<noteq> 0 \<and> vc_version vc \<noteq> 0 \<and>
              \<not> ngtcp2_is_supported_version (vc_version vc)
            then Some NGTCP2_ERR_VERSION_NEGOTIATION else None)))
    (ngtcp2_pkt_decode_version_cid data short_dcidlen)"
proof (cases "hd data AND 0x80 = 0")
  case True
  with assms show ?thesis
    by (auto simp: ngtcp2_pkt_decode_version_cid_def peek_Ok Let_def rd_simps ngtcp2_is_supported_version_def)
next
  case False
  with assms show ?thesis
    by (simp add: ngtcp2_pkt_decode_version_cid_def peek_Ok Let_def rd_simps) linarith
qed

section \<open>Encoders\<close>

definition versioned_type :: "ngtcp2_pkt_hd \<Rightarrow> u8" where
  "versioned_type h = (case ngtcp2_pkt_versioned_type (hd_version h) (hd_type h) of Ok t \<Rightarrow> t | _ \<Rightarrow> 0)"

definition fixed_bit :: "ngtcp2_pkt_hd \<Rightarrow> u8" where
  "fixed_bit h = (if hd_flags h AND 2 = 0 then 0x40 else 0)"

definition long_hd_bytes :: "ngtcp2_pkt_hd \<Rightarrow> u8 list" where
  "long_hd_bytes h =
     ((0x80 OR push_bit 4 (versioned_type h) OR (of_nat (hd_pkt_numlen h) - 1)) OR fixed_bit h) #
     be_bytes 4 (hd_version h) @ of_nat (length (hd_dcid h)) # hd_dcid h @
     of_nat (length (hd_scid h)) # hd_scid h @
     (if hd_type h = 0x10 then with_length (hd_token h) else []) @
     (if hd_type h \<noteq> 0x13
      then varint30_bytes (ucast (hd_len h)) @ pkt_num_bytes (hd_pkt_num h) (hd_pkt_numlen h) else [])"

definition short_hd_bytes :: "ngtcp2_pkt_hd \<Rightarrow> u8 list" where
  "short_hd_bytes h =
     (((of_nat (hd_pkt_numlen h) - 1) OR fixed_bit h) OR (if hd_flags h AND 4 \<noteq> 0 then 4 else 0)) #
     hd_dcid h @ pkt_num_bytes (hd_pkt_num h) (hd_pkt_numlen h)"

definition long_hd_ok :: "ngtcp2_pkt_hd \<Rightarrow> bool" where
  "long_hd_ok h = (hd_type h \<in> {0x10, 0x11, 0x12, 0x13} \<and> 1 \<le> hd_pkt_numlen h \<and> hd_pkt_numlen h \<le> 4 \<and>
     length (hd_dcid h) \<le> NGTCP2_MAX_CIDLEN \<and> length (hd_scid h) \<le> NGTCP2_MAX_CIDLEN \<and>
     len_ok (hd_token h) \<and> hd_len h < 2 ^ 30)"

lemma versioned_type_Ok:
  "long_hd_ok h \<Longrightarrow> ngtcp2_pkt_versioned_type (hd_version h) (hd_type h) = Ok (versioned_type h) \<and>
     versioned_type h \<in> {0, 1, 2, 3}"
  by (auto simp: long_hd_ok_def versioned_type_def ngtcp2_pkt_versioned_type_def)

text \<open>The first byte of a long header: four types, four lengths of the packet number.\<close>

definition long_first :: "u8 \<Rightarrow> nat \<Rightarrow> u8 \<Rightarrow> u8" where
  "long_first t n fb = (0x80 OR push_bit 4 t OR (of_nat n - 1)) OR fb"

lemma long_hd_ok_numlen: "long_hd_ok h \<Longrightarrow> hd_pkt_numlen h \<in> {1, 2, 3, 4}"
  by (auto simp: long_hd_ok_def)

lemma long_first_bits:
  assumes "t \<in> {0, 1, 2, 3}" and "n \<in> {1, 2, 3, 4}" and "fb = 0 \<or> fb = 0x40"
  shows "long_first t n fb AND 0x80 \<noteq> 0" "long_first t n fb AND 0x40 = fb"
    "drop_bit 4 (long_first t n fb AND 0x30) = t" "long_first t n fb AND 3 = of_nat n - 1"
    "ucast (0x80 OR push_bit 4 (ucast t) OR (of_nat n - 1) :: u32) OR fb = long_first t n fb"
  using assms by (elim insertE disjE; simp add: long_first_def)+

lemma encode_hd_long_spec:
  assumes "long_hd_ok h"
  shows "encodes out (long_hd_bytes h) (ngtcp2_pkt_encode_hd_long out h)"
proof -
  note n = long_hd_ok_numlen [OF assms] and t = versioned_type_Ok [OF assms]
  have fb: "ucast (0x80 OR push_bit 4 (ucast (versioned_type h)) OR (of_nat (hd_pkt_numlen h) - 1) :: u32) =
      0x80 OR push_bit 4 (versioned_type h) OR (of_nat (hd_pkt_numlen h) - 1 :: u8)"
    using long_first_bits(5) [of "versioned_type h" "hd_pkt_numlen h" 0] n t by (simp add: long_first_def)
  have len: "(ucast (hd_len h) :: u32) < 1073741824"
    using assms by (simp add: long_hd_ok_def word_less_nat_alt unsigned_ucast_eq take_bit_nat_eq_self)
  have "1 \<le> hd_pkt_numlen h" "hd_pkt_numlen h \<le> 4" "len_ok (hd_token h)"
    using assms by (simp_all add: long_hd_ok_def)
  note ok = this
  have w: "wr_or (filled out [b]) 0 m = Ok (filled out [b OR m])" if "out \<noteq> []" for b m
    using that wr_or_filled [of 0 "[]" b "[]" out m] by (cases out) auto
  obtain b0 where b0: "b0 = 0x80 OR push_bit 4 (versioned_type h) OR (of_nat (hd_pkt_numlen h) - 1 :: u8)"
    by simp
  show ?thesis
    using ok len t fb w
    by (cases out; cases "hd_type h = 0x13"; cases "hd_type h = 0x10"; cases "hd_flags h AND 2 = 0")
      (simp_all add: encodes_def ngtcp2_pkt_encode_hd_long_def long_hd_bytes_def Let_def
        NGTCP2_MIN_LONG_HEADERLEN_def NGTCP2_PKT_LENGTHLEN_def with_length_def fixed_bit_def wr_simps
        flip: b0)
qed

lemma encode_hd_short_spec:
  assumes "1 \<le> hd_pkt_numlen h" "hd_pkt_numlen h \<le> 4"
  shows "encodes out (short_hd_bytes h) (ngtcp2_pkt_encode_hd_short out h)"
proof -
  have w: "wr_or (filled out [b]) 0 m = Ok (filled out [b OR m])" if "out \<noteq> []" for b m
    using that wr_or_filled [of 0 "[]" b "[]" out m] by (cases out) auto
  obtain b0 where b0: "b0 = (of_nat (hd_pkt_numlen h) - 1 :: u8)" by simp
  show ?thesis
    using assms w
    by (cases out; cases "hd_flags h AND 4 = 0"; cases "hd_flags h AND 2 = 0")
      (simp_all add: encodes_def ngtcp2_pkt_encode_hd_short_def short_hd_bytes_def Let_def fixed_bit_def wr_simps
        flip: b0)
qed

section \<open>The decoders read back what the encoders write\<close>

lemma get_type_versioned:
  assumes "ngtcp2_is_supported_version version" and "type \<in> {0x10, 0x11, 0x12, 0x13}"
    and "ngtcp2_pkt_versioned_type version type = Ok t" and "drop_bit 4 (c AND 0x30) = t"
  shows "ngtcp2_pkt_get_type_long version c = type"
  using assms
  by (auto simp: ngtcp2_pkt_get_type_long_def ngtcp2_pkt_versioned_type_def ngtcp2_is_supported_version_def
      split: if_splits)

lemma get_uint32be_append [simp]: "ngtcp2_get_uint32be (be_bytes 4 v @ r) = Ok (v, r)"
  by (simp add: ngtcp2_get_uint32be_def be_value_be_bytes take_bit_word_eq_self)

definition hd_received :: "ngtcp2_pkt_hd \<Rightarrow> ngtcp2_pkt_hd" where
  "hd_received h = h\<lparr>hd_pkt_num := 0, hd_pkt_numlen := 0, hd_flags := 1 OR (hd_flags h AND 2),
     hd_token := (if hd_type h = 0x10 then hd_token h else []),
     hd_len := (if hd_type h = 0x13 then 0 else hd_len h)\<rparr>"

definition hd_unprotected_len :: "ngtcp2_pkt_hd \<Rightarrow> nat" where
  "hd_unprotected_len h = length (long_hd_bytes h) - (if hd_type h = 0x13 then 0 else hd_pkt_numlen h)"

lemma varint30_as_u64: "varint30_bytes n = be_bytes 4 (ucast n OR 0x80000000 :: u64)"
proof -
  have "ucast n OR 0x80000000 = (ucast (n OR 0x80000000) :: u64)"
    by (simp add: unsigned_or_eq)
  then show ?thesis by (simp add: varint30_bytes_def be_bytes_ucast)
qed

lemma varint30_read:
  assumes "n < 1073741824"
  shows "uvlen (varint30_bytes n @ r) = 4" "uvval (varint30_bytes n @ r) = ucast n"
proof -
  have n: "unat (ucast n :: u64) < 1073741824"
    using assms by (simp add: word_less_nat_alt unsigned_ucast_eq take_bit_nat_eq_self)
  then show *: "uvlen (varint30_bytes n @ r) = 4"
    using drop_bit_tag [of "ucast n" 24 "0x80"]
    by (simp add: uvlen_def varint30_as_u64 be_bytes_tagged)
  have "uvval (varint30_bytes n @ r) = take_bit 30 (be_value (varint30_bytes n))"
    by (simp add: uvval_def Let_def *)
  with n take_bit_tagged [OF varint_tags(3), of "ucast n" 32]
  show "uvval (varint30_bytes n @ r) = ucast n"
    by (simp add: varint30_as_u64 be_value_be_bytes del: be_bytes.simps take_bit_or take_bit_take_bit)
qed

lemma and_2_cases: "f AND 2 = 0 \<or> f AND 2 = (2::u8)"
proof (cases "bit f 1")
  case True
  have "f AND push_bit 1 1 = push_bit 1 (1::u8)"
    using True by (intro bit_eqI) (auto simp: bit_simps)
  then show ?thesis by simp
next
  case False
  have "f AND push_bit 1 1 = (0::u8)"
    using False by (intro bit_eqI) (auto simp: bit_simps)
  then show ?thesis by simp
qed

lemma ptr_add_hd:
  "ptr_add (c # be_bytes 4 v @ r) 5 = Ok r" "ptr_add (c # be_bytes 4 v @ x # r) 6 = Ok r"
  "ptr_add (x # p) (Suc n) = ptr_add p n" "ptr_add (bs @ x # r) (Suc (length bs)) = Ok r"
  "ptr_add p 0 = Ok p" "ptr_add (varint_bytes m @ cs @ r) (Suc (varint_ext m + length cs)) = Ok r"
  by (simp_all add: ptr_add_def varint_len_Suc)

lemma hd_long_roundtrip:
  assumes ok: "long_hd_ok h" and sup: "ngtcp2_is_supported_version (hd_version h)"
  shows "ngtcp2_pkt_decode_hd_long (long_hd_bytes h @ rest) = Ok (hd_received h, hd_unprotected_len h)"
proof -
  let ?len = "ucast (hd_len h) :: u32"
  let ?c = "long_first (versioned_type h) (hd_pkt_numlen h) (fixed_bit h)"
  have small: "unat (hd_len h) < 1073741824" using ok by (simp add: long_hd_ok_def word_less_nat_alt)
  then have len: "?len < 1073741824" "ucast ?len = hd_len h"
    by (simp_all add: word_less_nat_alt unsigned_ucast_eq take_bit_nat_eq_self take_bit_word_small)
  have c: "?c AND 0x80 \<noteq> 0" "?c AND 0x40 = fixed_bit h" "drop_bit 4 (?c AND 0x30) = versioned_type h"
    using long_first_bits [of "versioned_type h" "hd_pkt_numlen h" "fixed_bit h"]
      versioned_type_Ok [OF ok] long_hd_ok_numlen [OF ok] by (simp_all add: fixed_bit_def)
  have type: "hd_type h \<in> {0x10, 0x11, 0x12, 0x13}" using ok by (simp add: long_hd_ok_def)
  have "ngtcp2_pkt_get_type_long (hd_version h) ?c = hd_type h"
    using get_type_versioned [OF sup type _ c(3)] versioned_type_Ok [OF ok] by simp
  moreover have "hd_version h \<noteq> 0" using sup by (auto simp: ngtcp2_is_supported_version_def)
  ultimately have t: "hd_long_type ?c (hd_version h) =
      Ok (hd_type h, 1 OR (hd_flags h AND 2), if hd_type h = 0x10 then 9 else if hd_type h = 0x13 then 7 else 8)"
    using type c(2) 
and_2_cases [of "hd_flags h"]
    by (auto simp: hd_long_type_def Let_def fixed_bit_def NGTCP2_MIN_LONG_HEADERLEN_def)
  have d: "unat (of_nat (length (hd_dcid h)) :: u8) = length (hd_dcid h)"
    and e: "unat (of_nat (length (hd_scid h)) :: u8) = length (hd_scid h)"
    and cids: "length (hd_dcid h) \<le> NGTCP2_MAX_CIDLEN" "length (hd_scid h) \<le> NGTCP2_MAX_CIDLEN"
    using ok by (simp_all add: long_hd_ok_def NGTCP2_MAX_CIDLEN_def unsigned_of_nat take_bit_nat_eq_self)
  have tok: "len_ok (hd_token h)" using ok by (simp add: long_hd_ok_def)
  have fl: "(1 OR (hd_flags h AND 2)) AND 1 \<noteq> 0" using and_2_cases [of "hd_flags h"] by auto
  have g: "ngtcp2_get_uvarintlen (varint30_bytes ?len @ r) = Ok 4"
    "ngtcp2_get_uvarint (varint30_bytes ?len @ r) = Ok (hd_len h, r)" for r
    using varint30_read [OF len(1), of r] len(2)
    by (simp_all add: get_uvarintlen_Ok get_uvarint_Ok)
  show ?thesis
    using c(1) t d e cids tok fl type g
    by (cases "hd_type h = 0x13"; cases "hd_type h = 0x10")
      (simp_all add: long_hd_bytes_def ngtcp2_pkt_decode_hd_long_def Let_def hd_long_token_def
        hd_long_length_def ngtcp2_cid_init_def hd_received_def hd_unprotected_len_def with_length_def
        ptr_diff_def varint_len_Suc ptr_add_hd flip: long_first_def)
qed

text \<open>A short header comes back when the receiver knows the length of the connection ID.\<close>

definition short_first :: "nat \<Rightarrow> u8 \<Rightarrow> u8 \<Rightarrow> u8" where
  "short_first n fb kp = ((of_nat n - 1) OR fb) OR kp"

lemma short_first_bits:
  assumes "n \<in> {1, 2, 3, 4}" and "fb = 0 \<or> fb = 0x40" and "kp = 0 \<or> kp = 4"
  shows "short_first n fb kp AND 0x80 = 0" "short_first n fb kp AND 0x40 = fb"
    "short_first n fb kp AND 3 = of_nat n - 1" "short_first n fb kp AND 4 = kp"
  using assms by (elim insertE disjE; simp add: short_first_def)+

lemma hd_short_roundtrip:
  assumes "1 \<le> hd_pkt_numlen h" "hd_pkt_numlen h \<le> 4" "length (hd_dcid h) \<le> NGTCP2_MAX_CIDLEN"
  shows "ngtcp2_pkt_decode_hd_short (short_hd_bytes h @ rest) (length (hd_dcid h)) =
    Ok (\<lparr>hd_dcid = hd_dcid h, hd_scid = [], hd_pkt_num = 0, hd_token = [], hd_pkt_numlen = 0,
         hd_len = 0, hd_version = 0, hd_type = 0x40, hd_flags = hd_flags h AND 2\<rparr>,
        1 + length (hd_dcid h))"
proof -
  let ?kp = "if hd_flags h AND 4 \<noteq> 0 then 4 else 0 :: u8"
  let ?c = "short_first (hd_pkt_numlen h) (fixed_bit h) ?kp"
  have n: "hd_pkt_numlen h \<in> {1, 2, 3, 4}" using assms by auto
  have "fixed_bit h = 0 \<or> fixed_bit h = 0x40" "?kp = 0 \<or> ?kp = 4" by (simp_all add: fixed_bit_def)
  then have bits: "?c AND 0x80 = 0" "?c AND 0x40 = fixed_bit h" by (simp_all only: short_first_bits n)
  obtain c where c: "c = ?c" by simp
  have "short_hd_bytes h = c # hd_dcid h @ pkt_num_bytes (hd_pkt_num h) (hd_pkt_numlen h)"
    by (simp only: c short_hd_bytes_def short_first_def)
  with assms and_2_cases [of "hd_flags h"] bits [folded c] show ?thesis
    by (cases "hd_flags h AND 2 = 0")
      (simp_all add: ngtcp2_pkt_decode_hd_short_def Let_def ngtcp2_cid_init_def ptr_diff_def fixed_bit_def)
qed

section \<open>Header properties\<close>

text \<open>
  C25: \<open>ngtcp2_pkt_decode_hd_long\<close> is safe on every input: it never reads outside the packet and never
  fails an assertion, and when it succeeds the length of the header it reports is at least one and
  at most the length of the packet.
\<close>

theorem long_header_decoder_safe: "decoded_within pkt (ngtcp2_pkt_decode_hd_long pkt)"
  by (rule hd_long_within)

text \<open>The same of \<open>ngtcp2_pkt_decode_hd_short\<close>, for connection IDs of at most 20 bytes.\<close>

theorem short_header_decoder_safe:
  assumes "dcidlen \<le> NGTCP2_MAX_CIDLEN"
  shows "decoded_within pkt (ngtcp2_pkt_decode_hd_short pkt dcidlen)"
  using assms by (rule hd_short_within)

theorem short_header_decoder_safe_witness: "decoded_within [0x43, 1] (ngtcp2_pkt_decode_hd_short [0x43, 1] 1)"
  by (rule short_header_decoder_safe) (simp add: NGTCP2_MAX_CIDLEN_def)

text \<open>
  \<open>ngtcp2_pkt_decode_version_cid\<close> is safe on every non-empty datagram: no read outside of it, the two
  connection IDs lie inside the datagram and, for a supported version, have at most 20 bytes; the
  error \<open>NGTCP2_ERR_VERSION_NEGOTIATION\<close> is reported exactly for long headers of an unsupported version
  other than zero.
\<close>

theorem version_cid_decoder_safe:
  assumes "data \<noteq> []" and "short_dcidlen \<le> NGTCP2_MAX_CIDLEN"
  shows "okR (\<lambda>(vc, e). length (vc_dcid vc) + length (vc_scid vc) < length data \<and>
      (ngtcp2_is_supported_version (vc_version vc) \<longrightarrow>
         length (vc_dcid vc) \<le> NGTCP2_MAX_CIDLEN \<and> length (vc_scid vc) \<le> NGTCP2_MAX_CIDLEN) \<and>
      (e = (if hd data AND 0x80 \<noteq> 0 \<and> vc_version vc \<noteq> 0 \<and>
              \<not> ngtcp2_is_supported_version (vc_version vc)
            then Some NGTCP2_ERR_VERSION_NEGOTIATION else None)))
    (ngtcp2_pkt_decode_version_cid data short_dcidlen)"
  using assms by (rule version_cid_safe)

theorem version_cid_decoder_safe_witness:
  "okR (\<lambda>(vc, e). length (vc_dcid vc) + length (vc_scid vc) < length [0x40 :: u8, 7, 8] \<and>
      (ngtcp2_is_supported_version (vc_version vc) \<longrightarrow>
         length (vc_dcid vc) \<le> NGTCP2_MAX_CIDLEN \<and> length (vc_scid vc) \<le> NGTCP2_MAX_CIDLEN) \<and>
      (e = (if hd [0x40 :: u8, 7, 8] AND 0x80 \<noteq> 0 \<and> vc_version vc \<noteq> 0 \<and>
              \<not> ngtcp2_is_supported_version (vc_version vc)
            then Some NGTCP2_ERR_VERSION_NEGOTIATION else None)))
    (ngtcp2_pkt_decode_version_cid [0x40, 7, 8] 2)"
  by (rule version_cid_decoder_safe) (simp_all add: NGTCP2_MAX_CIDLEN_def)

text \<open>
  C7: What \<open>ngtcp2_pkt_encode_hd_long\<close> writes for a supported version,
  \<open>ngtcp2_pkt_decode_hd_long\<close> reads back: every field but the packet number, which is protected on the wire, and the header
  length up to the packet number.
\<close>

theorem long_header_roundtrip:
  assumes "long_hd_ok h" "ngtcp2_is_supported_version (hd_version h)" "ngtcp2_pkt_encode_hd_long out h = Ok (out', n)"
  shows "ngtcp2_pkt_decode_hd_long (take n out' @ rest) = Ok (hd_received h, hd_unprotected_len h)"
proof -
  have "out' = filled out (long_hd_bytes h)" "n = length (long_hd_bytes h)"
    using encode_hd_long_spec [OF assms(1), of out] assms(3) by (auto simp: encodes_def split: if_splits)
  then show ?thesis using hd_long_roundtrip [OF assms(1,2)] by simp
qed

theorem long_header_roundtrip_witness:
  "\<exists>h out' n. ngtcp2_pkt_encode_hd_long (replicate 32 0) h = Ok (out', n) \<and> hd_token h = [9, 9] \<and>
     ngtcp2_pkt_decode_hd_long (take n out' @ [1, 2]) = Ok (hd_received h, hd_unprotected_len h)"
proof -
  let ?h = "\<lparr>hd_dcid = [1, 2, 3], hd_scid = [4], hd_pkt_num = 5, hd_token = [9, 9], hd_pkt_numlen = 2, hd_len = 100,
     hd_version = 1, hd_type = 0x10, hd_flags = 1\<rparr>"
  have ok: "long_hd_ok ?h" "ngtcp2_is_supported_version (hd_version ?h)"
    by (simp_all add: long_hd_ok_def len_ok_def NGTCP2_MAX_CIDLEN_def ngtcp2_is_supported_version_def)
  have "length (long_hd_bytes ?h) \<le> 32" by (simp add: long_hd_bytes_def with_length_def varint_len_def)
  then obtain out' n where "ngtcp2_pkt_encode_hd_long (replicate 32 0) ?h = Ok (out', n)"
    using encode_hd_long_spec [OF ok(1), of "replicate 32 0"] by (simp add: encodes_def)
  with long_header_roundtrip [OF ok this, of "[1, 2]"] show ?thesis
    by (intro exI [of _ ?h] exI [of _ out'] exI [of _ n]) simp
qed

text \<open>
  What \<open>ngtcp2_pkt_encode_hd_short\<close> writes, \<open>ngtcp2_pkt_decode_hd_short\<close> reads back: the connection
  ID and the fixed-bit flag; the key phase and the packet number are protected on the wire.
\<close>

theorem short_header_roundtrip:
  assumes "1 \<le> hd_pkt_numlen h" "hd_pkt_numlen h \<le> 4" "length (hd_dcid h) \<le> NGTCP2_MAX_CIDLEN"
    and "ngtcp2_pkt_encode_hd_short out h = Ok (out', n)"
  shows "ngtcp2_pkt_decode_hd_short (take n out' @ rest) (length (hd_dcid h)) =
    Ok (\<lparr>hd_dcid = hd_dcid h, hd_scid = [], hd_pkt_num = 0, hd_token = [], hd_pkt_numlen = 0,
         hd_len = 0, hd_version = 0, hd_type = 0x40, hd_flags = hd_flags h AND 2\<rparr>, 1 + length (hd_dcid h))"
proof -
  have "out' = filled out (short_hd_bytes h)" "n = length (short_hd_bytes h)"
    using encode_hd_short_spec [OF assms(1,2), of out] assms(4) by (auto simp: encodes_def split: if_splits)
  then show ?thesis using hd_short_roundtrip [OF assms(1-3)] by simp
qed

theorem short_header_roundtrip_witness:
  "\<exists>h out' n. ngtcp2_pkt_encode_hd_short (replicate 8 0) h = Ok (out', n) \<and> hd_dcid h = [1, 2, 3] \<and>
     ngtcp2_pkt_decode_hd_short (take n out' @ [7]) 3 =
       Ok (\<lparr>hd_dcid = [1, 2, 3], hd_scid = [], hd_pkt_num = 0, hd_token = [], hd_pkt_numlen = 0,
         hd_len = 0, hd_version = 0, hd_type = 0x40, hd_flags = hd_flags h AND 2\<rparr>, 4)"
proof -
  let ?h = "\<lparr>hd_dcid = [1, 2, 3], hd_scid = [], hd_pkt_num = 5, hd_token = [], hd_pkt_numlen = 2, hd_len = 0,
     hd_version = 1, hd_type = 0x40, hd_flags = 4\<rparr>"
  have ok: "1 \<le> hd_pkt_numlen ?h" "hd_pkt_numlen ?h \<le> 4" "length (hd_dcid ?h) \<le> NGTCP2_MAX_CIDLEN"
    by (simp_all add: NGTCP2_MAX_CIDLEN_def)
  have "length (short_hd_bytes ?h) \<le> 8" by (simp add: short_hd_bytes_def)
  then obtain out' n where "ngtcp2_pkt_encode_hd_short (replicate 8 0) ?h = Ok (out', n)"
    using encode_hd_short_spec [OF ok(1,2), of "replicate 8 0"] by (simp add: encodes_def)
  with short_header_roundtrip [OF ok this, of "[7]"] show ?thesis
    by (intro exI [of _ ?h] exI [of _ out'] exI [of _ n]) (simp add: numeral_3_eq_3)
qed

text \<open>
  The header encoders write exactly the bytes of RFC 9000 and 9369, or report \<open>NGTCP2_ERR_NOBUF\<close>,
  exactly when the buffer is too short.
\<close>

theorem long_header_encoder_exact:
  assumes "long_hd_ok h"
  shows "ngtcp2_pkt_encode_hd_long out h =
    (if length out < length (long_hd_bytes h) then Err NGTCP2_ERR_NOBUF
     else Ok (filled out (long_hd_bytes h), length (long_hd_bytes h)))"
  using encode_hd_long_spec [OF assms, of out] by (simp add: encodes_def)

theorem long_header_encoder_exact_witness:
  "\<exists>h. hd_token h = [9, 9] \<and> ngtcp2_pkt_encode_hd_long [] h = Err NGTCP2_ERR_NOBUF"
proof -
  let ?h = "\<lparr>hd_dcid = [1, 2, 3], hd_scid = [4], hd_pkt_num = 5, hd_token = [9, 9], hd_pkt_numlen = 2, hd_len = 100,
     hd_version = 1, hd_type = 0x10, hd_flags = 1\<rparr>"
  have "long_hd_ok ?h" by (simp add: long_hd_ok_def len_ok_def NGTCP2_MAX_CIDLEN_def)
  from long_header_encoder_exact [OF this, of "[]"] show ?thesis
    by (intro exI [of _ ?h]) (simp add: long_hd_bytes_def)
qed

end
