(* ===== verification/Pkt_Num.thy ===== *)
theory Pkt_Num
  imports Pkt_Header
begin

text \<open>
  Packet number arithmetic and frame sizes (\<open>lib/ngtcp2_pkt.c\<close>): the expansion of truncated
  packet numbers, the validation of ACK frames against the packet numbers in use, and the number
  of bytes of data that fit into a STREAM or CRYPTO frame.
\<close>

section \<open>Packet number expansion\<close>

definition ngtcp2_pkt_adjust_pkt_num :: "i64 \<Rightarrow> i64 \<Rightarrow> nat \<Rightarrow> i64 res" where
  "ngtcp2_pkt_adjust_pkt_num max_pkt_num pkt_num pkt_numlen =
     (let expected = max_pkt_num + 1 :: u64;
          win = push_bit (pkt_numlen * 8) 1 :: u64;
          hwin = win div 2;
          mask = win - 1;
          cand = (expected AND NOT mask) OR pkt_num in
      if cand + hwin \<le> expected then
        assertR (cand \<le> 4611686018427387903 - win) (Ok (cand + win))
      else if expected + hwin < cand \<and> win \<le> cand then Ok (cand - win)
      else Ok cand)"

section \<open>ACK validation\<close>

text \<open>\<open>int64_t\<close> arithmetic: a result out of range is undefined behaviour.\<close>

definition ck64 :: "int \<Rightarrow> int res" where
  "ck64 x = (if - (2 ^ 63) \<le> x \<and> x < 2 ^ 63 then Ok x else Fault)"

fun validate_ack_ranges :: "int \<Rightarrow> int \<Rightarrow> ngtcp2_ack_range list \<Rightarrow> unit res" where
  "validate_ack_ranges min_pkt_num largest_ack [] = Ok ()"
| "validate_ack_ranges min_pkt_num largest_ack (r # rs) =
     bindR (ck64 (sint (ar_gap r) + 2)) (\<lambda>gap2.
     if largest_ack < gap2 then Err NGTCP2_ERR_ACK_FRAME else
     bindR (ck64 (largest_ack - gap2)) (\<lambda>largest_ack.
     if largest_ack < sint (ar_len r) then Err NGTCP2_ERR_ACK_FRAME else
     bindR (ck64 (largest_ack - sint (ar_len r))) (\<lambda>largest_ack.
     if largest_ack < min_pkt_num then Err NGTCP2_ERR_PROTO else
     validate_ack_ranges min_pkt_num largest_ack rs)))"

definition ngtcp2_pkt_validate_ack :: "ngtcp2_ack \<Rightarrow> i64 \<Rightarrow> unit res" where
  "ngtcp2_pkt_validate_ack fr min_pkt_num =
     (if sint (ack_largest_ack fr) < sint (ack_first_ack_range fr) then Err NGTCP2_ERR_ACK_FRAME else
      bindR (ck64 (sint (ack_largest_ack fr) - sint (ack_first_ack_range fr))) (\<lambda>largest_ack.
      if largest_ack < sint min_pkt_num then Err NGTCP2_ERR_PROTO else
      validate_ack_ranges (sint min_pkt_num) largest_ack (ack_ranges fr)))"

section \<open>Room for data\<close>

text \<open>
  \<open>size_t\<close> is 64 bits wide; \<open>None\<close> is the return value \<open>(size_t)-1\<close>. The sizes \<open>left\<close> and
  \<open>len\<close> are natural numbers below \<open>2 ^ 64\<close>.
\<close>

definition max_datalen :: "nat \<Rightarrow> nat \<Rightarrow> nat" where
  "max_datalen len left =
     (if left > 8 + 1073741823 \<and> len > 1073741823 then
        min (min len 4611686018427387903) (left - 8)
      else if left > 4 + 16383 \<and> len > 16383 then min (min len 1073741823) (left - 4)
      else if left > 2 + 63 \<and> len > 63 then min (min len 16383) (left - 2)
      else min (min len 63) (left - 1))"

definition ngtcp2_pkt_stream_max_datalen :: "i64 \<Rightarrow> u64 \<Rightarrow> nat \<Rightarrow> nat \<Rightarrow> nat option res" where
  "ngtcp2_pkt_stream_max_datalen stream_id offset len left =
     bindR (ngtcp2_put_uvarintlen stream_id) (\<lambda>l1.
     bindR (if offset \<noteq> 0 then ngtcp2_put_uvarintlen offset else Ok 0) (\<lambda>l2.
     let n = 1 + l1 + l2 in
     if left \<le> n then Ok None else Ok (Some (max_datalen len (left - n)))))"

definition ngtcp2_pkt_crypto_max_datalen :: "u64 \<Rightarrow> nat \<Rightarrow> nat \<Rightarrow> nat option res" where
  "ngtcp2_pkt_crypto_max_datalen offset len left =
     bindR (ngtcp2_put_uvarintlen offset) (\<lambda>l1.
     let n = 1 + l1 in
     if left \<le> n + 1 then Ok None else Ok (Some (max_datalen len (left - n))))"

definition ngtcp2_pkt_datagram_framelen :: "nat \<Rightarrow> nat res" where
  "ngtcp2_pkt_datagram_framelen len =
     bindR (ngtcp2_put_uvarintlen (of_nat len)) (\<lambda>n. Ok (1 + n + len))"

section \<open>Lemmas\<close>

subsection \<open>The window\<close>

text \<open>RFC 9000, appendix A.3, on natural numbers.\<close>

definition rfc_decode_pkt_num :: "nat \<Rightarrow> nat \<Rightarrow> nat \<Rightarrow> nat" where
  "rfc_decode_pkt_num expected win truncated =
     (let cand = expected - expected mod win + truncated in
      if cand + win div 2 \<le> expected \<and> cand + win < 2 ^ 62 then cand + win
      else if expected + win div 2 < cand \<and> win \<le> cand then cand - win
      else cand)"

lemma rfc_decode_unique:
  assumes "win = 2 * h" "0 < h" "pn < 2 ^ 62" "expected < pn + h" "pn \<le> expected + h"
  shows "rfc_decode_pkt_num expected win (pn mod win) = pn"
proof -
  obtain q r where e: "expected = q * win + r" "r < win"
    using assms(1,2) by (metis div_mod_decomp mod_less_divisor mult_pos_pos zero_less_numeral)
  obtain q' s where p: "pn = q' * win + s" "s < win"
    using assms(1,2) by (metis div_mod_decomp mod_less_divisor mult_pos_pos zero_less_numeral)
  have "q' = q \<or> q' = q + 1 \<or> q = q' + 1"
  proof (rule ccontr)
    assume "\<not> ?thesis"
    then have "q' + 2 \<le> q \<or> q + 2 \<le> q'" by linarith
    then have "(q' + 2) * win \<le> q * win \<or> (q + 2) * win \<le> q' * win" using mult_le_mono1 by blast
    then show False using e p assms by (auto simp: algebra_simps)
  qed
  then have "pn = q * win + s \<or> pn = q * win + win + s \<or> q * win + s = pn + win"
    using p(1) by (auto simp: algebra_simps)
  moreover obtain Q where Q: "q * win = Q" by simp
  moreover have "expected - expected mod win = Q" "pn mod win = s" using e p Q [symmetric] by simp_all
  moreover have "win div 2 = h" "r < 2 * h" "s < 2 * h" using assms(1) e p by simp_all
  ultimately show ?thesis
    using e(1) assms(3-5) unfolding rfc_decode_pkt_num_def Let_def Q assms(1)
    by (elim disjE) (simp_all del: mod_mult_self1 mod_mult_self2)
qed

lemma cand_eq:
  fixes e p :: u64
  assumes "k < 64" and p: "unat p < 2 ^ k"
  shows "(e AND NOT (push_bit k 1 - 1)) OR p = of_nat (unat e - unat e mod 2 ^ k + unat p)"
proof -
  have m: "push_bit k 1 - 1 = (mask k :: u64)" by (simp add: mask_eq_exp_minus_1)
  have "\<not> bit p n" if "k \<le> n" for n
    using take_bit_word_small [OF p] that by (metis bit_take_bit_iff not_le)
  then have "(e AND NOT (push_bit k 1 - 1)) OR p = (e AND NOT (mask k)) + p"
    unfolding m by (intro disjunctive_add [symmetric]) (auto simp: bit_simps not_le)
  also have "e AND NOT (mask k) = e - take_bit k e"
  proof -
    have "e = (e AND NOT (mask k)) OR take_bit k e" by (rule bit_eqI) (auto simp: bit_simps)
    also have "\<dots> = (e AND NOT (mask k)) + take_bit k e"
      by (intro disjunctive_add [symmetric]) (auto simp: bit_simps)
    finally show ?thesis by (simp add: eq_diff_eq)
  qed
  also have "e - take_bit k e = of_nat (unat e - unat e mod 2 ^ k)"
  proof -
    have "take_bit k e \<le> e" by (simp add: word_le_nat_alt unsigned_take_bit_eq)
    then have "unat (e - take_bit k e) = unat e - unat e mod 2 ^ k"
      by (simp add: unat_sub unsigned_take_bit_eq) (simp add: take_bit_eq_mod)
    then show ?thesis by (metis of_nat_unat ucast_id)
  qed
  finally show ?thesis by (simp only: of_nat_add of_nat_unat ucast_id)
qed

lemma unat_win: "k < 64 \<Longrightarrow> unat (push_bit k 1 :: u64) = 2 ^ k"
  using unat_of_nat_u64 [of "2 ^ k"] power_strict_increasing [of k 64 "2::nat"]
  by (simp add: push_bit_eq_mult)

text \<open>
  The code computes the function of the RFC, except that it asserts where the RFC falls back to
  the candidate: when the next packet number of the window would be \<open>2 ^ 62\<close> or more.
\<close>

lemma adjust_pkt_num_eq:
  fixes max_pkt_num pkt_num :: i64
  assumes "pkt_numlen \<in> {1, 2, 3, 4}" and E: "E = unat (max_pkt_num + 1)" "E \<le> 2 ^ 62"
    and W: "W = 2 ^ (8 * pkt_numlen)" and p: "unat pkt_num < W"
  shows "ngtcp2_pkt_adjust_pkt_num max_pkt_num pkt_num pkt_numlen =
    (let c = E - E mod W + unat pkt_num in
     if c + W div 2 \<le> E \<and> 2 ^ 62 \<le> c + W then Fault
     else Ok (of_nat (rfc_decode_pkt_num E W (unat pkt_num))))"
proof -
  let ?k = "pkt_numlen * 8" and ?c = "E - E mod W + unat pkt_num"
  have k: "?k < 64" using assms(1) by auto
  have W32: "W \<le> 2 ^ 32" "0 < W"
    using assms(1) W power_increasing [of "8 * pkt_numlen" 32 "2::nat"] by auto
  have w: "unat (push_bit ?k 1 :: u64) = W" using unat_win [OF k] W by (simp add: mult.commute)
  then have wW: "push_bit ?k 1 = (of_nat W :: u64)" by (metis of_nat_unat ucast_id)
  from w have h: "unat (push_bit ?k 1 div 2 :: u64) = W div 2" by (simp add: unat_div)
  have "?c < 2 ^ 62 + 2 ^ 32" using E(2) p W32 by simp
  then have c: "unat (of_nat ?c :: u64) = ?c" by (intro unat_of_nat_u64) simp
  have cand: "((max_pkt_num + 1) AND NOT (push_bit ?k 1 - 1)) OR pkt_num = of_nat ?c"
    using cand_eq [OF k, of pkt_num "max_pkt_num + 1"] p W E(1) by (simp add: mult.commute)
  have ch: "unat (of_nat ?c + push_bit ?k 1 div 2 :: u64) = ?c + W div 2"
    and eh: "unat (max_pkt_num + 1 + push_bit ?k 1 div 2) = E + W div 2"
    using c h E W32 \<open>?c < 2 ^ 62 + 2 ^ 32\<close> by (simp_all add: unat_add_no_overflow)
  have mw: "unat (4611686018427387903 - push_bit ?k 1 :: u64) = 4611686018427387903 - W"
    using w W32 by (subst unat_sub) (simp_all add: word_le_nat_alt)
  show ?thesis
    unfolding ngtcp2_pkt_adjust_pkt_num_def Let_def cand rfc_decode_pkt_num_def assertR_def
      word_le_nat_alt word_less_nat_alt ch eh c w mw E(1) [symmetric]
    using E W32 unfolding wW by (auto simp: of_nat_diff)
qed

lemma adjust_pkt_num_recovers:
  fixes max_pkt_num pn :: i64
  assumes n: "pkt_numlen \<in> {1, 2, 3, 4}" and "unat pn < 2 ^ 62" and E: "unat (max_pkt_num + 1) \<le> 2 ^ 62"
    and near: "unat (max_pkt_num + 1) < unat pn + 2 ^ (8 * pkt_numlen - 1)"
      "unat pn \<le> unat (max_pkt_num + 1) + 2 ^ (8 * pkt_numlen - 1)"
  shows "ngtcp2_pkt_adjust_pkt_num max_pkt_num (take_bit (8 * pkt_numlen) pn) pkt_numlen = Ok pn"
proof -
  let ?E = "unat (max_pkt_num + 1)" and ?W = "2 ^ (8 * pkt_numlen) :: nat"
  let ?t = "take_bit (8 * pkt_numlen) pn"
  have W: "?W = 2 * 2 ^ (8 * pkt_numlen - 1)" using n by auto
  have t: "unat ?t = unat pn mod ?W" by (simp add: unsigned_take_bit_eq) (simp add: take_bit_eq_mod)
  have r: "rfc_decode_pkt_num ?E ?W (unat ?t) = unat pn"
    unfolding t by (rule rfc_decode_unique [OF W]) (use assms in simp_all)
  have "\<not> (let c = ?E - ?E mod ?W + unat ?t in c + ?W div 2 \<le> ?E \<and> 2 ^ 62 \<le> c + ?W)"
  proof (rule ccontr)
    assume *: "\<not> ?thesis"
    then have "rfc_decode_pkt_num ?E ?W (unat ?t) = ?E - ?E mod ?W + unat ?t"
      by (auto simp: rfc_decode_pkt_num_def Let_def)
    with r near(1) W * show False by (auto simp: Let_def)
  qed
  moreover have "unat ?t < ?W" unfolding t by simp
  ultimately show ?thesis
    using adjust_pkt_num_eq [OF n refl E refl] r by (auto simp: Let_def)
qed

subsection \<open>ACK ranges\<close>

text \<open>
  The intervals of packet numbers (largest, smallest) that an ACK frame acknowledges, in the order
  of the frame (RFC 9000, section 19.3.1).
\<close>

fun ack_intervals :: "int \<Rightarrow> ngtcp2_ack_range list \<Rightarrow> (int \<times> int) list" where
  "ack_intervals smallest [] = []"
| "ack_intervals smallest (r # rs) =
     (let hi = smallest - (sint (ar_gap r) + 2); lo = hi - sint (ar_len r) in
      (hi, lo) # ack_intervals lo rs)"

definition acked_intervals :: "ngtcp2_ack \<Rightarrow> (int \<times> int) list" where
  "acked_intervals fr =
     (let hi = sint (ack_largest_ack fr); lo = hi - sint (ack_first_ack_range fr) in
      (hi, lo) # ack_intervals lo (ack_ranges fr))"

text \<open>The fields of a decoded frame are integers of 62 bits.\<close>

definition ack_decoded :: "ngtcp2_ack \<Rightarrow> bool" where
  "ack_decoded fr = uvs_ok (ack_largest_ack fr # ack_first_ack_range fr # ack_range_fields (ack_ranges fr))"

lemma sint_varint: "w \<le> varint_max \<Longrightarrow> 0 \<le> sint w \<and> sint w < 2 ^ 62"
proof -
  assume "w \<le> varint_max"
  then have "uint w \<le> uint varint_max" by (simp only: word_le_def)
  then have "uint w < 2 ^ 62" by (simp add: varint_max_def)
  then have "sint w = uint w"
    using order_trans [OF _ uint_ge_0, of "- (2 ^ 63)" w] signed_take_bit_int_eq_self [of 63 "uint w"]
    by (simp add: sint_uint)
  then show ?thesis using \<open>uint w < 2 ^ 62\<close> by simp
qed

lemma ck64_Ok: "0 \<le> x \<Longrightarrow> x < 2 ^ 63 \<Longrightarrow> ck64 x = Ok x"
  by (simp add: ck64_def)

lemma intervals_descend:
  "uvs_ok (ack_range_fields rs) \<Longrightarrow> (hi, l) \<in> set (ack_intervals lo rs) \<Longrightarrow> l \<le> hi \<and> hi + 2 \<le> lo"
proof (induction rs arbitrary: lo)
  case (Cons r rs)
  then have "0 \<le> sint (ar_gap r)" "0 \<le> sint (ar_len r)" using sint_varint by auto
  with Cons show ?case by (fastforce simp: Let_def)
qed simp

lemma validate_ack_ranges_iff:
  assumes "uvs_ok (ack_range_fields rs)" "0 \<le> lo" "lo < 2 ^ 62"
  shows "validate_ack_ranges m lo rs \<noteq> Fault \<and>
    (validate_ack_ranges m lo rs = Ok () \<longleftrightarrow> (\<forall>(hi, l) \<in> set (ack_intervals lo rs). 0 \<le> l \<and> m \<le> l))"
  using assms
proof (induction rs arbitrary: lo)
  case (Cons r rs)
  let ?g = "sint (ar_gap r)" and ?n = "sint (ar_len r)"
  have b: "0 \<le> ?g" "?g < 2 ^ 62" "0 \<le> ?n" "?n < 2 ^ 62"
    using Cons.prems sint_varint by auto
  have ck: "ck64 (?g + 2) = Ok (?g + 2)" using b by (intro ck64_Ok) simp_all
  consider "lo < ?g + 2" | "\<not> lo < ?g + 2" "lo - (?g + 2) < ?n"
    | "\<not> lo < ?g + 2" "\<not> lo - (?g + 2) < ?n" by blast
  then show ?case
  proof cases
    case 3
    have "ck64 (lo - (?g + 2)) = Ok (lo - (?g + 2))"
      "ck64 (lo - (?g + 2) - ?n) = Ok (lo - (?g + 2) - ?n)"
      using 3 b Cons.prems(3) by (intro ck64_Ok; simp)+
    with ck 3 b Cons show ?thesis by (auto simp: Let_def)
  next
    case 2
    have "ck64 (lo - (?g + 2)) = Ok (lo - (?g + 2))" using 2 b Cons.prems(3) by (intro ck64_Ok; simp)
    with 2 ck b show ?thesis by (auto simp: Let_def)
  qed (use ck b in \<open>auto simp: Let_def\<close>)
qed simp

lemma validate_ack_iff:
  assumes "ack_decoded fr"
  shows "ngtcp2_pkt_validate_ack fr m \<noteq> Fault \<and>
    (ngtcp2_pkt_validate_ack fr m = Ok () \<longleftrightarrow>
      (\<forall>(hi, l) \<in> set (acked_intervals fr). 0 \<le> l \<and> sint m \<le> l))"
proof -
  let ?h = "sint (ack_largest_ack fr)" and ?n = "sint (ack_first_ack_range fr)"
  have b: "0 \<le> ?h" "?h < 2 ^ 62" "0 \<le> ?n" "uvs_ok (ack_range_fields (ack_ranges fr))"
    using assms sint_varint by (auto simp: ack_decoded_def)
  show ?thesis
  proof (cases "?h < ?n")
    case False
    then have "ck64 (?h - ?n) = Ok (?h - ?n)" using b by (intro ck64_Ok) simp_all
    with False b validate_ack_ranges_iff [OF b(4), of "?h - ?n" "sint m"] show ?thesis
      by (auto simp: ngtcp2_pkt_validate_ack_def acked_intervals_def Let_def)
  qed (use b in \<open>auto simp: ngtcp2_pkt_validate_ack_def acked_intervals_def Let_def\<close>)
qed

subsection \<open>Frame sizes\<close>

text \<open>The largest number of bytes that fit, with their length, in \<open>left\<close> bytes.\<close>

definition vlen :: "nat \<Rightarrow> nat" where
  "vlen d = (if d < 64 then 1 else if d < 16384 then 2 else if d < 1073741824 then 4 else 8)"

lemma vlen_le: "vlen d \<le> 8" "d \<le> 1073741823 \<Longrightarrow> vlen d \<le> 4" "d \<le> 16383 \<Longrightarrow> vlen d \<le> 2"
    "d \<le> 63 \<Longrightarrow> vlen d \<le> 1"
  by (simp_all add: vlen_def)

lemma vlen_ge: "1 \<le> vlen d" "63 < d \<Longrightarrow> 2 \<le> vlen d" "16383 < d \<Longrightarrow> 4 \<le> vlen d" "1073741823 < d \<Longrightarrow> 8 \<le> vlen d"
  by (simp_all add: vlen_def)

lemma max_datalen_cases:
  obtains "max_datalen len left = min (min len 4611686018427387903) (left - 8)"
    "left > 1073741831" "len > 1073741823"
  | "max_datalen len left = min (min len 1073741823) (left - 4)"
    "left > 16387" "len > 16383" "left \<le> 1073741831 \<or> len \<le> 1073741823"
  | "max_datalen len left = min (min len 16383) (left - 2)"
    "left > 65" "len > 63" "left \<le> 16387 \<or> len \<le> 16383"
  | "max_datalen len left = min (min len 63) (left - 1)" "left \<le> 65 \<or> len \<le> 63"
proof -
  consider "left > 1073741831 \<and> len > 1073741823"
    | "left > 16387 \<and> len > 16383" "\<not> (left > 1073741831 \<and> len > 1073741823)"
    | "left > 65 \<and> len > 63" "\<not> (left > 16387 \<and> len > 16383)" "\<not> (left > 1073741831 \<and> len > 1073741823)"
    | "\<not> (left > 65 \<and> len > 63)" "\<not> (left > 16387 \<and> len > 16383)" "\<not> (left > 1073741831 \<and> len > 1073741823)"
    by blast
  then show thesis
  proof cases
    case 1 with that(1) show ?thesis by (simp add: max_datalen_def)
  next
    case 2 with that(2) show ?thesis by (simp add: max_datalen_def) linarith
  next
    case 3 with that(3) show ?thesis by (simp add: max_datalen_def) linarith
  next
    case 4 with that(4) show ?thesis by (simp add: max_datalen_def) linarith
  qed
qed

lemma datalen_fits_min: "vlen m \<le> k \<Longrightarrow> k \<le> left \<Longrightarrow> m = min (min len c) (left - k) \<Longrightarrow> m \<le> len \<and> vlen m + m \<le> left"
  by linarith

lemma max_datalen_fits:
  assumes "0 < left"
  shows "max_datalen len left \<le> len \<and> vlen (max_datalen len left) + max_datalen len left \<le> left"
  by (rule max_datalen_cases [of len left]; rule datalen_fits_min; assumption?; (rule vlen_le)?; use assms in linarith)

lemma max_datalen_max:
  assumes "d \<le> len" "d < 2 ^ 62" "vlen d + d \<le> left"
  shows "d \<le> max_datalen len left"
proof -
  have d: "d \<le> 4611686018427387903" using assms(2) by simp
  consider "d \<le> 63" | "63 < d" "d \<le> 16383" | "16383 < d" "d \<le> 1073741823" | "1073741823 < d" by linarith
  then show ?thesis
    using assms(1,3) d vlen_ge [of d]
    by cases (rule max_datalen_cases [of len left]; simp; linarith)+
qed

lemma vlen_varint: "d < 2 ^ 62 \<Longrightarrow> varint_len (of_nat d) = vlen d"
  using unat_of_nat_u64 [of d] by (simp add: varint_len_def vlen_def word_less_nat_alt)

definition stream_framelen :: "i64 \<Rightarrow> u64 \<Rightarrow> nat \<Rightarrow> nat" where
  "stream_framelen stream_id offset d =
     1 + varint_len stream_id + (if offset \<noteq> 0 then varint_len offset else 0) + varint_len (of_nat d) + d"

definition crypto_framelen :: "u64 \<Rightarrow> nat \<Rightarrow> nat" where
  "crypto_framelen offset d = 1 + varint_len offset + varint_len (of_nat d) + d"

lemma framelen_frame_bytes:
  "st_type fr = 8 \<Longrightarrow> length (frame_bytes (Fr_stream fr)) =
     stream_framelen (st_stream_id fr) (st_offset fr) (length (stream_payload fr))"
  "st_type fr = 6 \<Longrightarrow> length (frame_bytes (Fr_stream fr)) =
     crypto_framelen (st_offset fr) (length (concat (st_data fr)))"
  "dg_type dg = 0x31 \<Longrightarrow> length (frame_bytes (Fr_datagram dg)) =
     1 + varint_len (of_nat (length (concat (dg_data dg)))) + length (concat (dg_data dg))"
  by (simp_all add: stream_framelen_def crypto_framelen_def with_length_def del: length_concat)

lemma max_datalen_bound: "max_datalen len left < 2 ^ 62"
  by (rule max_datalen_cases [of len left]) simp_all

lemma max_datalen_best:
  assumes F: "\<And>d. d < 2 ^ 62 \<Longrightarrow> F d = N + (vlen d + d)" and N: "N < left"
  shows "max_datalen len (left - N) \<le> len \<and> F (max_datalen len (left - N)) \<le> left \<and>
    (\<forall>d \<le> len. d < 2 ^ 62 \<and> F d \<le> left \<longrightarrow> d \<le> max_datalen len (left - N))"
proof (intro conjI allI impI)
  show "max_datalen len (left - N) \<le> len" "F (max_datalen len (left - N)) \<le> left"
    using max_datalen_fits [of "left - N" len] F [OF max_datalen_bound, of len "left - N"] N
    by (simp, linarith)
  show "d \<le> max_datalen len (left - N)" if "d \<le> len" "d < 2 ^ 62 \<and> F d \<le> left" for d
    using that F [of d] by (intro max_datalen_max) (simp_all, linarith)
qed

lemma stream_max_datalen_eq:
  assumes "stream_id \<le> varint_max" "offset \<le> varint_max"
    and N: "N = 1 + varint_len stream_id + (if offset \<noteq> 0 then varint_len offset else 0)"
  shows "ngtcp2_pkt_stream_max_datalen stream_id offset len left =
      Ok (if left \<le> N then None else Some (max_datalen len (left - N)))"
    and "d < 2 ^ 62 \<Longrightarrow> stream_framelen stream_id offset d = N + (vlen d + d)"
  using assms vlen_varint [of d]
  by (simp_all add: ngtcp2_pkt_stream_max_datalen_def stream_framelen_def Let_def)

lemma crypto_max_datalen_eq:
  assumes "offset \<le> varint_max" and N: "N = 1 + varint_len offset"
  shows "ngtcp2_pkt_crypto_max_datalen offset len left =
      Ok (if left \<le> N + 1 then None else Some (max_datalen len (left - N)))"
    and "d < 2 ^ 62 \<Longrightarrow> crypto_framelen offset d = N + (vlen d + d)"
  using assms vlen_varint [of d]
  by (simp_all add: ngtcp2_pkt_crypto_max_datalen_def crypto_framelen_def Let_def)

text \<open>
  The room computed for a STREAM frame: \<open>None\<close> if not even an empty frame fits, otherwise the
  largest amount of data of which the whole frame fits.
\<close>

lemma stream_max_datalen_best:
  assumes "stream_id \<le> varint_max" "offset \<le> varint_max"
  shows "\<exists>r. ngtcp2_pkt_stream_max_datalen stream_id offset len left = Ok r \<and>
    (case r of None \<Rightarrow> left < stream_framelen stream_id offset 0
     | Some n \<Rightarrow> n \<le> len \<and> stream_framelen stream_id offset n \<le> left \<and>
         (\<forall>d \<le> len. d < 2 ^ 62 \<and> stream_framelen stream_id offset d \<le> left \<longrightarrow> d \<le> n))"
proof -
  obtain N where N: "N = 1 + varint_len stream_id + (if offset \<noteq> 0 then varint_len offset else 0)" by simp
  note eq = stream_max_datalen_eq [OF assms N]
  show ?thesis
  proof (cases "left \<le> N")
    case True
    with eq(1) eq(2) [of 0] show ?thesis by (simp add: vlen_def)
  next
    case False
    with eq(1) max_datalen_best [OF eq(2), of left len] show ?thesis by simp
  qed
qed

lemma crypto_max_datalen_best:
  assumes "offset \<le> varint_max"
  shows "\<exists>r. ngtcp2_pkt_crypto_max_datalen offset len left = Ok r \<and>
    (case r of None \<Rightarrow> left < crypto_framelen offset 1
     | Some n \<Rightarrow> n \<le> len \<and> crypto_framelen offset n \<le> left \<and> (0 < len \<longrightarrow> 0 < n) \<and>
         (\<forall>d \<le> len. d < 2 ^ 62 \<and> crypto_framelen offset d \<le> left \<longrightarrow> d \<le> n))"
proof -
  obtain N where N: "N = 1 + varint_len offset" by simp
  note eq = crypto_max_datalen_eq [OF assms N]
  show ?thesis
  proof (cases "left \<le> N + 1")
    case True
    with eq(1) eq(2) [of 1] show ?thesis by (simp add: vlen_def)
  next
    case False
    then have "0 < max_datalen len (left - N)" if "0 < len"
      using max_datalen_max [of 1 len "left - N"] that by (simp add: vlen_def) linarith
    with False eq(1) max_datalen_best [OF eq(2), of left len] show ?thesis by simp
  qed
qed

section \<open>Packet number, ACK and frame size properties\<close>

text \<open>
  C6: \<open>ngtcp2_pkt_adjust_pkt_num\<close> recovers the packet number from its last bytes whenever it lies in
  the window of RFC 9000 around the next expected number: less than half a window below it and at
  most half a window above.
\<close>

theorem pkt_num_recovered:
  fixes max_pkt_num pn :: i64
  assumes "pkt_numlen \<in> {1, 2, 3, 4}" and "unat pn < 2 ^ 62" and "unat (max_pkt_num + 1) \<le> 2 ^ 62"
    and "unat (max_pkt_num + 1) < unat pn + 2 ^ (8 * pkt_numlen - 1)"
      "unat pn \<le> unat (max_pkt_num + 1) + 2 ^ (8 * pkt_numlen - 1)"
  shows "ngtcp2_pkt_adjust_pkt_num max_pkt_num (take_bit (8 * pkt_numlen) pn) pkt_numlen = Ok pn"
  using assms by (rule adjust_pkt_num_recovers)

theorem pkt_num_recovered_witness:
  "ngtcp2_pkt_adjust_pkt_num 0xa82f30ea (take_bit (8 * 2) 0xa82f9b32) 2 = Ok 0xa82f9b32"
  by (rule pkt_num_recovered) simp_all

text \<open>
  On every truncated number \<open>ngtcp2_pkt_adjust_pkt_num\<close> computes the function of RFC 9000,
  appendix A.3, except where the RFC keeps the candidate because one window more would reach
  \<open>2 ^ 62\<close>: there the assertion of the code fails.
\<close>

theorem pkt_num_rfc:
  fixes max_pkt_num pkt_num :: i64
  assumes "pkt_numlen \<in> {1, 2, 3, 4}" and "E = unat (max_pkt_num + 1)" "E \<le> 2 ^ 62"
    and "W = 2 ^ (8 * pkt_numlen)" and "unat pkt_num < W"
  shows "ngtcp2_pkt_adjust_pkt_num max_pkt_num pkt_num pkt_numlen =
    (let c = E - E mod W + unat pkt_num in
     if c + W div 2 \<le> E \<and> 2 ^ 62 \<le> c + W then Fault
     else Ok (of_nat (rfc_decode_pkt_num E W (unat pkt_num))))"
  using assms by (rule adjust_pkt_num_eq)

theorem pkt_num_rfc_witness:
  "ngtcp2_pkt_adjust_pkt_num 4611686018427387902 0 1 = Fault \<and> rfc_decode_pkt_num 4611686018427387903 256 0 = 4611686018427387648"
  using pkt_num_rfc [of 1 4611686018427387903 4611686018427387902 256 0]
  by (simp add: rfc_decode_pkt_num_def)

text \<open>
  C26: \<open>ngtcp2_pkt_validate_ack\<close> accepts a decoded ACK frame exactly if all the intervals of packet numbers it acknowledges are non-negative and
  not below \<open>min_pkt_num\<close>, and its signed 64-bit arithmetic never overflows. That the largest one has been sent is not checked here but by \<open>conn_recv_ack\<close>.
\<close>

theorem ack_validation:
  assumes "ack_decoded fr"
  shows "ngtcp2_pkt_validate_ack fr m \<noteq> Fault \<and>
    (ngtcp2_pkt_validate_ack fr m = Ok () \<longleftrightarrow>
      (\<forall>(hi, l) \<in> set (acked_intervals fr). 0 \<le> l \<and> sint m \<le> l))"
  using assms by (rule validate_ack_iff)

theorem ack_validation_witness:
  "\<exists>fr. ack_ranges fr = [\<lparr>ar_gap = 1, ar_len = 2\<rparr>] \<and> ngtcp2_pkt_validate_ack fr 0 = Ok ()"
proof -
  let ?fr = "\<lparr>ack_type = 2, ack_largest_ack = 10, ack_delay = 0, ack_delay_unscaled = 0, ack_ect0 = 0, ack_ect1 = 0,
    ack_ce = 0, ack_first_ack_range = 3, ack_ranges = [\<lparr>ar_gap = 1, ar_len = 2\<rparr>]\<rparr>"
  have "ack_decoded ?fr" by (simp add: ack_decoded_def uvs_ok_def varint_max_def)
  from ack_validation [OF this, of 0] show ?thesis
    by (intro exI [of _ ?fr]) (simp add: acked_intervals_def)
qed

text \<open>
  \<open>ngtcp2_pkt_stream_max_datalen\<close> returns the largest number of bytes, up to \<open>len\<close>, for which a
  STREAM frame fits in \<open>left\<close> bytes, and \<open>(size_t)-1\<close> only if not even an empty one fits.
\<close>

theorem stream_datalen_maximal:
  assumes "stream_id \<le> varint_max" "offset \<le> varint_max"
  shows "\<exists>r. ngtcp2_pkt_stream_max_datalen stream_id offset len left = Ok r \<and>
    (case r of None \<Rightarrow> left < stream_framelen stream_id offset 0
     | Some n \<Rightarrow> n \<le> len \<and> stream_framelen stream_id offset n \<le> left \<and>
         (\<forall>d \<le> len. d < 2 ^ 62 \<and> stream_framelen stream_id offset d \<le> left \<longrightarrow> d \<le> n))"
  using assms by (rule stream_max_datalen_best)

theorem stream_datalen_maximal_witness:
  "\<exists>r. ngtcp2_pkt_stream_max_datalen 4 300 1000 70 = Ok r \<and>
    (case r of None \<Rightarrow> 70 < stream_framelen 4 300 0
     | Some n \<Rightarrow> n \<le> 1000 \<and> stream_framelen 4 300 n \<le> 70 \<and>
         (\<forall>d \<le> 1000. d < 2 ^ 62 \<and> stream_framelen 4 300 d \<le> 70 \<longrightarrow> d \<le> n))"
  by (rule stream_datalen_maximal) (simp_all add: varint_max_def)

text \<open>\<open>ngtcp2_pkt_crypto_max_datalen\<close> does the same for CRYPTO frames, which are never empty.\<close>

theorem crypto_datalen_maximal:
  assumes "offset \<le> varint_max"
  shows "\<exists>r. ngtcp2_pkt_crypto_max_datalen offset len left = Ok r \<and>
    (case r of None \<Rightarrow> left < crypto_framelen offset 1
     | Some n \<Rightarrow> n \<le> len \<and> crypto_framelen offset n \<le> left \<and> (0 < len \<longrightarrow> 0 < n) \<and>
         (\<forall>d \<le> len. d < 2 ^ 62 \<and> crypto_framelen offset d \<le> left \<longrightarrow> d \<le> n))"
  using assms by (rule crypto_max_datalen_best)

theorem crypto_datalen_maximal_witness:
  "\<exists>r. ngtcp2_pkt_crypto_max_datalen 300 1000 70 = Ok r \<and>
    (case r of None \<Rightarrow> 70 < crypto_framelen 300 1
     | Some n \<Rightarrow> n \<le> 1000 \<and> crypto_framelen 300 n \<le> 70 \<and> (0 < (1000 :: nat) \<longrightarrow> 0 < n) \<and>
         (\<forall>d \<le> 1000. d < 2 ^ 62 \<and> crypto_framelen 300 d \<le> 70 \<longrightarrow> d \<le> n))"
  by (rule crypto_datalen_maximal) (simp add: varint_max_def)

end
