(* ===== verification/Range.thy ===== *)
theory Range
  imports Prelude
begin

text \<open>
  \<open>lib/ngtcp2_range.c\<close>: half-open ranges of 64-bit offsets, and the comparison functions on ranges
  and integers of \<open>lib/ngtcp2_ksl.h\<close>. \<open>range_set\<close> is the set of offsets a range stands for.
\<close>

record ngtcp2_range =
  rg_begin :: u64
  rg_end :: u64

definition ngtcp2_range_init :: "u64 \<Rightarrow> u64 \<Rightarrow> ngtcp2_range" where
  "ngtcp2_range_init b e = \<lparr>rg_begin = b, rg_end = e\<rparr>"

definition ngtcp2_range_intersect :: "ngtcp2_range \<Rightarrow> ngtcp2_range \<Rightarrow> ngtcp2_range" where
  "ngtcp2_range_intersect a b =
     (let bg = max (rg_begin a) (rg_begin b); en = min (rg_end a) (rg_end b) in
      if bg < en then ngtcp2_range_init bg en else \<lparr>rg_begin = 0, rg_end = 0\<rparr>)"

definition ngtcp2_range_len :: "ngtcp2_range \<Rightarrow> u64" where
  "ngtcp2_range_len r = rg_end r - rg_begin r"

definition ngtcp2_range_eq :: "ngtcp2_range \<Rightarrow> ngtcp2_range \<Rightarrow> bool" where
  "ngtcp2_range_eq a b = (rg_begin a = rg_begin b \<and> rg_end a = rg_end b)"

definition ngtcp2_range_cut :: "ngtcp2_range \<Rightarrow> ngtcp2_range \<Rightarrow> ngtcp2_range \<times> ngtcp2_range" where
  "ngtcp2_range_cut a b =
     (\<lparr>rg_begin = rg_begin a, rg_end = rg_begin b\<rparr>, \<lparr>rg_begin = rg_end b, rg_end = rg_end a\<rparr>)"

definition ngtcp2_range_not_after :: "ngtcp2_range \<Rightarrow> ngtcp2_range \<Rightarrow> bool" where
  "ngtcp2_range_not_after a b = (rg_end a \<le> rg_end b)"

section \<open>Comparison functions\<close>

definition ngtcp2_ksl_range_compar :: "ngtcp2_range \<Rightarrow> ngtcp2_range \<Rightarrow> bool" where
  "ngtcp2_ksl_range_compar a b = (rg_begin a < rg_begin b)"

definition ngtcp2_ksl_range_exclusive_compar :: "ngtcp2_range \<Rightarrow> ngtcp2_range \<Rightarrow> bool" where
  "ngtcp2_ksl_range_exclusive_compar a b =
     (rg_begin a < rg_begin b \<and> \<not> max (rg_begin a) (rg_begin b) < min (rg_end a) (rg_end b))"

definition ngtcp2_ksl_uint64_less :: "u64 \<Rightarrow> u64 \<Rightarrow> bool" where
  "ngtcp2_ksl_uint64_less a b = (a < b)"

definition ngtcp2_ksl_int64_greater :: "i64 \<Rightarrow> i64 \<Rightarrow> bool" where
  "ngtcp2_ksl_int64_greater a b = (sint b < sint a)"

section \<open>Lemmas\<close>

definition range_set :: "ngtcp2_range \<Rightarrow> u64 set" where
  "range_set r = {x. rg_begin r \<le> x \<and> x < rg_end r}"

lemma intersect_set: "range_set (ngtcp2_range_intersect a b) = range_set a \<inter> range_set b"
  by (auto simp: ngtcp2_range_intersect_def ngtcp2_range_init_def range_set_def Let_def max_def min_def
      split: if_splits)

lemma range_empty_iff: "range_set r = {} \<longleftrightarrow> rg_end r \<le> rg_begin r"
  by (auto simp: range_set_def)

lemma intersect_len_0: "ngtcp2_range_len (ngtcp2_range_intersect a b) = 0 \<longleftrightarrow> range_set a \<inter> range_set b = {}"
proof -
  have "ngtcp2_range_len (ngtcp2_range_intersect a b) = 0 \<longleftrightarrow> range_set (ngtcp2_range_intersect a b) = {}"
    unfolding range_empty_iff ngtcp2_range_intersect_def ngtcp2_range_init_def ngtcp2_range_len_def Let_def
    by (cases "max (rg_begin a) (rg_begin b) < min (rg_end a) (rg_end b)")
      (auto simp del: max_less_iff_conj min_less_iff_conj)
  then show ?thesis by (simp only: intersect_set)
qed

lemma cut_sets:
  assumes "ngtcp2_range_cut a b = (l, r)" "range_set b \<subseteq> range_set a" "range_set b \<noteq> {}"
  shows "range_set l \<union> range_set r = range_set a - range_set b" "range_set l \<inter> range_set r = {}"
proof -
  have b: "rg_begin b < rg_end b" using assms(3) by (simp add: range_empty_iff not_le)
  then have "rg_begin b \<in> range_set a" using assms(2) by (auto simp: range_set_def)
  then have "rg_begin a \<le> rg_begin b" "rg_begin b < rg_end a" by (simp_all add: range_set_def)
  moreover have "rg_end b \<le> rg_end a"
  proof (rule ccontr)
    assume "\<not> ?thesis"
    then have "rg_end a \<in> range_set b" using \<open>rg_begin b < rg_end a\<close> by (auto simp: range_set_def not_le)
    with assms(2) show False by (auto simp: range_set_def)
  qed
  moreover note b
  ultimately show "range_set l \<union> range_set r = range_set a - range_set b" "range_set l \<inter> range_set r = {}"
    using assms(1) by (auto simp: ngtcp2_range_cut_def range_set_def)
qed

end
