(* ===== verification/Ksl.thy ===== *)
theory Ksl
  imports Range
begin

text \<open>
  \<open>lib/ngtcp2_ksl.c\<close>, the ordered map every other data structure of the library is built on. The
  source calls it a deterministic paged skip list; it is a B+ tree whose blocks hold up to 32
  nodes, whose leaf blocks are chained, and which is rebalanced on the way down.

  \<^item> A block is a leaf with keys and data, or an inner block with one key per child. The \<open>next\<close> and
    \<open>prev\<close> pointers are kept between leaves in the order of the tree, so an iterator is a pair
    (number of the leaf block, index in the block), and \<open>front\<close> and \<open>back\<close> are the first and the
    last leaf.
  \<^item> The key of a child is an upper bound of the keys below it. It may be loose: a removal from a
    leaf leaves the keys of the blocks above alone.
  \<^item> Every loop descends one level per iteration and is a recursive function on the height of the
    tree. The comparison function is the first argument of each operation.
  \<^item> The allocator is a list of answers, \<open>False\<close> for out of memory; when the list is used up every
    allocation succeeds.
  \<^item> Assertions, and accesses outside the arrays of a block, are faults.
\<close>

section \<open>Structures\<close>

datatype ('k, 'v) blk = Leaf "('k \<times> 'v) list" | Node "('k \<times> ('k, 'v) blk) list"

abbreviation (input) "NGTCP2_KSL_MAX_NBLK \<equiv> 32 :: nat"
abbreviation (input) "NGTCP2_KSL_MIN_NBLK \<equiv> 16 :: nat"

type_synonym ksl_it = "nat \<times> nat"
type_synonym alloc = "bool list"

text \<open>
  \<open>ksl_stale\<close> is set when \<open>ksl_split_root\<close> fails half-way: the chain of leaves and \<open>back\<close> then
  point to a released block, and every operation that follows the chain is undefined.
\<close>

record ('k, 'v) ngtcp2_ksl =
  ksl_root :: "('k, 'v) blk option"
  ksl_n :: nat
  ksl_stale :: bool

fun blk_n :: "('k, 'v) blk \<Rightarrow> nat" where
  "blk_n (Leaf es) = length es"
| "blk_n (Node cs) = length cs"

fun blk_keys :: "('k, 'v) blk \<Rightarrow> 'k list" where
  "blk_keys (Leaf es) = map fst es"
| "blk_keys (Node cs) = map fst cs"

fun blk_leaf :: "('k, 'v) blk \<Rightarrow> bool" where
  "blk_leaf (Leaf es) = True"
| "blk_leaf (Node cs) = False"

fun blk_height :: "('k, 'v) blk \<Rightarrow> nat" where
  "blk_height (Leaf es) = 0"
| "blk_height (Node cs) = Suc (foldr (\<lambda>c. max (blk_height (snd c))) cs 0)"

text \<open>The chain of leaf blocks.\<close>

fun leaves :: "('k, 'v) blk \<Rightarrow> ('k \<times> 'v) list list" where
  "leaves (Leaf es) = [es]"
| "leaves (Node cs) = concat (map (\<lambda>c. leaves (snd c)) cs)"

definition blk_last_key :: "('k, 'v) blk \<Rightarrow> 'k res" where
  "blk_last_key b = (if blk_n b = 0 then Fault else Ok (last (blk_keys b)))"

definition ksl_search :: "('k \<Rightarrow> 'k \<Rightarrow> bool) \<Rightarrow> ('k, 'v) blk \<Rightarrow> 'k \<Rightarrow> nat" where
  "ksl_search compar b key = length (takeWhile (\<lambda>k. compar k key) (blk_keys b))"

definition ksl_alloc :: "alloc \<Rightarrow> bool \<times> alloc" where
  "ksl_alloc al = (case al of [] \<Rightarrow> (True, []) | ok # al \<Rightarrow> (ok, al))"

definition ngtcp2_ksl_init :: "('k, 'v) ngtcp2_ksl" where
  "ngtcp2_ksl_init = \<lparr>ksl_root = None, ksl_n = 0, ksl_stale = False\<rparr>"

section \<open>Insertion\<close>

definition ksl_split_blk :: "('k, 'v) blk \<Rightarrow> (('k, 'v) blk \<times> ('k, 'v) blk) res" where
  "ksl_split_blk b =
     (let rn = blk_n b div 2; ln = blk_n b - rn in
      assertR (ln \<ge> NGTCP2_KSL_MIN_NBLK) (assertR (rn \<ge> NGTCP2_KSL_MIN_NBLK)
        (Ok (case b of Leaf es \<Rightarrow> (Leaf (take ln es), Leaf (drop ln es))
             | Node cs \<Rightarrow> (Node (take ln cs), Node (drop ln cs))))))"

text \<open>
  \<open>ksl_split_node\<close> on the children \<open>cs\<close> of a block, after the allocation of the right block: child
  \<open>i\<close> is split in two.
\<close>

definition ksl_split_node ::
    "('k \<times> ('k, 'v) blk) list \<Rightarrow> nat \<Rightarrow> ('k \<times> ('k, 'v) blk) list res" where
  "ksl_split_node cs i =
     (if i < length cs then
        bindR (ksl_split_blk (snd (cs ! i))) (\<lambda>(l, r).
        bindR (blk_last_key l) (\<lambda>k.
        Ok (take i cs @ (k, l) # (fst (cs ! i), r) # drop (Suc i) cs)))
      else Fault)"

definition ksl_insert_node :: "('k \<times> 'v) list \<Rightarrow> nat \<Rightarrow> 'k \<Rightarrow> 'v \<Rightarrow> ('k \<times> 'v) list res" where
  "ksl_insert_node es i key data =
     assertR (length es < NGTCP2_KSL_MAX_NBLK) (Ok (take i es @ (key, data) # drop i es))"

datatype ins_result = Ins_at ksl_it | Ins_exists | Ins_nomem

definition it_shift :: "('k \<times> ('k, 'v) blk) list \<Rightarrow> ksl_it \<Rightarrow> ksl_it" where
  "it_shift cs it = (length (concat (map (\<lambda>c. leaves (snd c)) cs)) + fst it, snd it)"

definition ins_shift :: "('k \<times> ('k, 'v) blk) list \<Rightarrow> ins_result \<Rightarrow> ins_result" where
  "ins_shift cs r = (case r of Ins_at it \<Rightarrow> Ins_at (it_shift cs it) | _ \<Rightarrow> r)"

definition put_child ::
    "('k \<times> ('k, 'v) blk) list \<Rightarrow> nat \<Rightarrow> 'k \<Rightarrow> ('k, 'v) blk \<Rightarrow> ('k \<times> ('k, 'v) blk) list" where
  "put_child cs i k b = take i cs @ (k, b) # drop (Suc i) cs"

declare bindR_cong [fundef_cong]

lemma height_child: "c \<in> set cs \<Longrightarrow> blk_height (snd c) < blk_height (Node cs)"
  by (induction cs) (auto simp: less_Suc_eq_le le_max_iff_disj)

lemma height_Node_le:
  assumes "\<And>c. c \<in> set cs \<Longrightarrow> blk_height (snd c) < h" and "0 < h"
  shows "blk_height (Node cs) \<le> h"
proof -
  have "foldr (\<lambda>c. max (blk_height (snd c))) cs 0 < h"
    using assms by (induction cs) simp_all
  then show ?thesis by simp
qed

lemmas height_simps = blk_height.simps(2)
declare height_simps [simp del]

lemma height_Node_pos [simp]: "0 < blk_height (Node cs)"
  by (simp add: height_simps)

lemma height_sub: "set cs \<subseteq> set ds \<Longrightarrow> blk_height (Node cs) \<le> blk_height (Node ds)"
  by (rule height_Node_le) (auto intro: height_child)

lemma split_blk_height:
  assumes "ksl_split_blk b = Ok (l, r)"
  shows "blk_height l \<le> blk_height b" "blk_height r \<le> blk_height b"
  using assms
  by (cases b; simp add: ksl_split_blk_def Let_def assertR_def split: if_splits;
      auto intro!: height_sub dest: in_set_takeD in_set_dropD)+

lemma split_node_height:
  assumes "ksl_split_node cs i = Ok ds" "c \<in> set ds"
  shows "blk_height (snd c) < blk_height (Node cs)"
proof -
  obtain l r k where i: "i < length cs" and s: "ksl_split_blk (snd (cs ! i)) = Ok (l, r)"
    and ds: "ds = take i cs @ (k, l) # (fst (cs ! i), r) # drop (Suc i) cs"
    using assms(1) by (auto simp: ksl_split_node_def bindR_eq_Ok split: if_splits)
  have "blk_height (snd (cs ! i)) < blk_height (Node cs)" using i by (intro height_child) simp
  then have "blk_height l < blk_height (Node cs)" "blk_height r < blk_height (Node cs)"
    using split_blk_height [OF s] by simp_all
  then show ?thesis
    using assms(2) ds by (auto intro: height_child dest: in_set_takeD in_set_dropD)
qed

lemma search_le [simp]: "ksl_search compar b key \<le> blk_n b"
  by (cases b) (auto simp: ksl_search_def intro: order_trans [OF length_takeWhile_le])

lemma search_less: "ksl_search compar b key \<noteq> blk_n b \<Longrightarrow> ksl_search compar b key < blk_n b"
  using search_le [of compar b key] by linarith

text \<open>The loop for a key larger than every key below \<open>b\<close>: along the last children.\<close>

function ksl_insert_last ::
    "alloc \<Rightarrow> ('k, 'v) blk \<Rightarrow> 'k \<Rightarrow> 'v \<Rightarrow> (('k, 'v) blk \<times> ins_result \<times> alloc) res" where
  "ksl_insert_last al (Leaf es) key data =
     bindR (ksl_insert_node es (length es) key data) (\<lambda>es'.
     Ok (Leaf es', Ins_at (0, length es), al))"
| "ksl_insert_last al (Node cs) key data =
     (if cs = [] then Fault
      else if blk_n (snd (last cs)) = NGTCP2_KSL_MAX_NBLK then
        (let (ok, al) = ksl_alloc al in
         if \<not> ok then Ok (Node cs, Ins_nomem, al) else
         bindR (ksl_split_node cs (length cs - 1)) (\<lambda>ds.
         if ds = [] then Fault else
         bindR (ksl_insert_last al (snd (last ds)) key data) (\<lambda>(b, r, al).
         Ok (Node (butlast ds @ [(key, b)]), ins_shift (butlast ds) r, al))))
      else
        bindR (ksl_insert_last al (snd (last cs)) key data) (\<lambda>(b, r, al).
        Ok (Node (butlast cs @ [(key, b)]), ins_shift (butlast cs) r, al)))"
  by pat_completeness auto
termination
  by (relation "measure (\<lambda>(al, b, key, data). blk_height b)")
    (auto intro: height_child split_node_height)

text \<open>The main loop of \<open>ngtcp2_ksl_insert\<close>.\<close>

function ksl_insert_loop ::
    "('k \<Rightarrow> 'k \<Rightarrow> bool) \<Rightarrow> alloc \<Rightarrow> ('k, 'v) blk \<Rightarrow> 'k \<Rightarrow> 'v \<Rightarrow>
       (('k, 'v) blk \<times> ins_result \<times> alloc) res" where
  "ksl_insert_loop compar al (Leaf es) key data =
     (let i = ksl_search compar (Leaf es) key in
      if i < length es \<and> \<not> compar key (fst (es ! i)) then Ok (Leaf es, Ins_exists, al) else
      bindR (ksl_insert_node es i key data) (\<lambda>es'. Ok (Leaf es', Ins_at (0, i), al)))"
| "ksl_insert_loop compar al (Node cs) key data =
     (let i = ksl_search compar (Node cs) key in
      if i = length cs then ksl_insert_last al (Node cs) key data
      else if blk_n (snd (cs ! i)) = NGTCP2_KSL_MAX_NBLK then
        (let (ok, al) = ksl_alloc al in
         if \<not> ok then Ok (Node cs, Ins_nomem, al) else
         bindR (ksl_split_node cs i) (\<lambda>ds.
         let j = (if compar (fst (ds ! i)) key then i + 1 else i) in
         if j \<ge> length ds then Fault else
         bindR (ksl_insert_loop compar al (snd (ds ! j)) key data) (\<lambda>(b, r, al).
         Ok (Node (put_child ds j (fst (ds ! j)) b), ins_shift (take j ds) r, al))))
      else
        bindR (ksl_insert_loop compar al (snd (cs ! i)) key data) (\<lambda>(b, r, al).
        Ok (Node (put_child cs i (fst (cs ! i)) b), ins_shift (take i cs) r, al)))"
  by pat_completeness auto
termination
  by (relation "measure (\<lambda>(compar, al, b, key, data). blk_height b)")
    (auto simp: not_le intro: split_node_height [OF _ nth_mem] height_child [OF nth_mem]
      search_less [of _ "Node _", simplified])

text \<open>
  \<open>ngtcp2_ksl_insert\<close>: the new list, the error if there is one, the iterator stored in \<open>it\<close> if any,
  and the rest of the allocator's answers.
\<close>

fun ksl_front_back :: "('k, 'v) ngtcp2_ksl \<Rightarrow> ('k \<times> 'v) list list" where
  "ksl_front_back ksl = (case ksl_root ksl of None \<Rightarrow> [] | Some b \<Rightarrow> leaves b)"

definition ngtcp2_ksl_end :: "('k, 'v) ngtcp2_ksl \<Rightarrow> ksl_it res" where
  "ngtcp2_ksl_end ksl =
     (if ksl_stale ksl then Fault else
      case ksl_root ksl of None \<Rightarrow> Ok (0, 0)
      | Some b \<Rightarrow> Ok (length (leaves b) - 1, length (last (leaves b))))"

definition ksl_insert_root ::
    "('k \<Rightarrow> 'k \<Rightarrow> bool) \<Rightarrow> alloc \<Rightarrow> ('k, 'v) ngtcp2_ksl \<Rightarrow> ('k, 'v) blk \<Rightarrow> 'k \<Rightarrow> 'v \<Rightarrow>
       (('k, 'v) ngtcp2_ksl \<times> lib_error option \<times> ksl_it option \<times> alloc) res" where
  "ksl_insert_root compar al ksl root key data =
     bindR (ksl_insert_loop compar al root key data) (\<lambda>(b, r, al).
     let ksl = ksl\<lparr>ksl_root := Some b\<rparr> in
     case r of
       Ins_at it \<Rightarrow> Ok (ksl\<lparr>ksl_n := ksl_n ksl + 1\<rparr>, None, Some it, al)
     | Ins_exists \<Rightarrow> bindR (ngtcp2_ksl_end ksl) (\<lambda>it.
         Ok (ksl, Some NGTCP2_ERR_INVALID_ARGUMENT, Some it, al))
     | Ins_nomem \<Rightarrow> Ok (ksl, Some NGTCP2_ERR_NOMEM, None, al))"

definition ngtcp2_ksl_insert ::
    "('k \<Rightarrow> 'k \<Rightarrow> bool) \<Rightarrow> alloc \<Rightarrow> ('k, 'v) ngtcp2_ksl \<Rightarrow> 'k \<Rightarrow> 'v \<Rightarrow>
       (('k, 'v) ngtcp2_ksl \<times> lib_error option \<times> ksl_it option \<times> alloc) res" where
  "ngtcp2_ksl_insert compar al ksl key data =
     (if ksl_stale ksl then Fault else
      case ksl_root ksl of
        None \<Rightarrow>
          (let (ok, al) = ksl_alloc al in
           if \<not> ok then Ok (ksl, Some NGTCP2_ERR_NOMEM, None, al)
           else ksl_insert_root compar al ksl (Leaf []) key data)
      | Some root \<Rightarrow>
          if blk_n root = NGTCP2_KSL_MAX_NBLK then
            (let (ok, al) = ksl_alloc al in
             if \<not> ok then Ok (ksl, Some NGTCP2_ERR_NOMEM, None, al) else
             bindR (ksl_split_blk root) (\<lambda>(l, r).
             let (ok, al) = ksl_alloc al in
             if \<not> ok then
               Ok (ksl\<lparr>ksl_root := Some l, ksl_stale := True\<rparr>, Some NGTCP2_ERR_NOMEM, None, al) else
             bindR (blk_last_key l) (\<lambda>kl. bindR (blk_last_key r) (\<lambda>kr.
             ksl_insert_root compar al ksl (Node [(kl, l), (kr, r)]) key data))))
          else ksl_insert_root compar al ksl root key data)"

section \<open>Removal\<close>

definition ksl_remove_node :: "'a list \<Rightarrow> nat \<Rightarrow> 'a list" where
  "ksl_remove_node xs i = take i xs @ drop (Suc i) xs"

fun blk_append :: "('k, 'v) blk \<Rightarrow> ('k, 'v) blk \<Rightarrow> ('k, 'v) blk res" where
  "blk_append (Leaf a) (Leaf b) = Ok (Leaf (a @ b))"
| "blk_append (Node a) (Node b) = Ok (Node (a @ b))"
| "blk_append _ _ = Fault"

fun blk_take :: "nat \<Rightarrow> ('k, 'v) blk \<Rightarrow> ('k, 'v) blk" where
  "blk_take n (Leaf es) = Leaf (take n es)"
| "blk_take n (Node cs) = Node (take n cs)"

fun blk_drop :: "nat \<Rightarrow> ('k, 'v) blk \<Rightarrow> ('k, 'v) blk" where
  "blk_drop n (Leaf es) = Leaf (drop n es)"
| "blk_drop n (Node cs) = Node (drop n cs)"

text \<open>
  \<open>ksl_merge_node\<close>: the merged block and the children of the block afterwards, unless the block is
  the root and has two children, when the merged block becomes the root.
\<close>

definition ksl_merge_node ::
    "('k \<times> ('k, 'v) blk) list \<Rightarrow> nat \<Rightarrow> (('k, 'v) blk \<times> ('k \<times> ('k, 'v) blk) list) res" where
  "ksl_merge_node cs i =
     assertR (i + 1 < length cs)
    (let l = snd (cs ! i); r = snd (cs ! (i + 1)) in
     assertR (blk_n l + blk_n r \<le> NGTCP2_KSL_MAX_NBLK)
    (bindR (blk_append l r) (\<lambda>b.
     bindR (blk_last_key b) (\<lambda>k.
     Ok (b, put_child (ksl_remove_node cs (i + 1)) i k b)))))"

definition ksl_shift_left ::
    "('k \<times> ('k, 'v) blk) list \<Rightarrow> nat \<Rightarrow> ('k \<times> ('k, 'v) blk) list res" where
  "ksl_shift_left cs i =
     assertR (i > 0 \<and> i < length cs)
    (let l = snd (cs ! (i - 1)); r = snd (cs ! i); n = (blk_n l + blk_n r + 1) div 2 - blk_n l in
     assertR (blk_n l < NGTCP2_KSL_MAX_NBLK) (assertR (blk_n r > NGTCP2_KSL_MIN_NBLK)
    (assertR (n > 0) (assertR (blk_n l \<le> NGTCP2_KSL_MAX_NBLK - n)
    (assertR (blk_n r \<ge> NGTCP2_KSL_MIN_NBLK + n)
    (bindR (blk_append l (blk_take n r)) (\<lambda>l.
     bindR (blk_last_key l) (\<lambda>k.
     Ok (put_child (put_child cs (i - 1) k l) i (fst (cs ! i)) (blk_drop n r))))))))))"

definition ksl_shift_right ::
    "('k \<times> ('k, 'v) blk) list \<Rightarrow> nat \<Rightarrow> ('k \<times> ('k, 'v) blk) list res" where
  "ksl_shift_right cs i =
     assertR (i + 1 < length cs)
    (let l = snd (cs ! i); r = snd (cs ! (i + 1)); n = (blk_n l + blk_n r + 1) div 2 - blk_n r in
     assertR (blk_n l > NGTCP2_KSL_MIN_NBLK) (assertR (blk_n r < NGTCP2_KSL_MAX_NBLK)
    (assertR (n > 0) (assertR (blk_n l \<ge> NGTCP2_KSL_MIN_NBLK + n)
    (assertR (blk_n r \<le> NGTCP2_KSL_MAX_NBLK - n)
    (let ln = blk_n l - n in
     bindR (blk_append (blk_drop ln l) r) (\<lambda>r.
     bindR (blk_last_key (blk_take ln l)) (\<lambda>k.
     Ok (put_child (put_child cs i k (blk_take ln l)) (i + 1) (fst (cs ! (i + 1))) r)))))))))"

lemma append_height:
  assumes "blk_append l r = Ok b" "blk_height l < h" "blk_height r < h"
  shows "blk_height b < h"
proof (cases l; cases r)
  fix cs ds assume c: "l = Node cs" "r = Node ds"
  then have b: "b = Node (cs @ ds)" using assms(1) by simp
  have "blk_height c < blk_height l \<or> blk_height c < blk_height r" if "(k, c) \<in> set cs \<union> set ds" for k c
    using that height_child [of "(k, c)" cs] height_child [of "(k, c)" ds] c by auto
  then have "blk_height b \<le> max (blk_height l) (blk_height r)"
    unfolding b using c by (intro height_Node_le) (fastforce simp: less_max_iff_disj)+
  with assms show ?thesis by simp
qed (use assms in auto)

lemma take_drop_height: "blk_height (blk_take n b) \<le> blk_height b" "blk_height (blk_drop n b) \<le> blk_height b"
  by (cases b; auto intro!: height_sub dest: in_set_takeD in_set_dropD)+

lemma in_put_child: "c \<in> set (put_child cs i k b) \<Longrightarrow> c \<in> set cs \<or> c = (k, b)"
  by (auto simp: put_child_def dest: in_set_takeD in_set_dropD)

lemma merge_node_height:
  assumes "ksl_merge_node cs i = Ok (b, ds)"
  shows "blk_height b < blk_height (Node cs)" "c \<in> set ds \<Longrightarrow> blk_height (snd c) < blk_height (Node cs)"
proof -
  obtain k where i: "i + 1 < length cs" and b: "blk_append (snd (cs ! i)) (snd (cs ! (i + 1))) = Ok b"
    and ds: "ds = put_child (ksl_remove_node cs (i + 1)) i k b"
    using assms by (auto simp: ksl_merge_node_def Let_def assertR_def bindR_eq_Ok split: if_splits)
  show "blk_height b < blk_height (Node cs)"
    using i by (intro append_height [OF b] height_child) simp_all
  moreover have "c \<in> set cs \<or> c = (k, b)" if "c \<in> set ds"
    using that ds by (auto simp: ksl_remove_node_def dest!: in_put_child dest: in_set_takeD in_set_dropD)
  ultimately show "blk_height (snd c) < blk_height (Node cs)" if "c \<in> set ds"
    using that by (auto intro: height_child)
qed

lemma shift_left_height:
  assumes "ksl_shift_left cs i = Ok ds" "c \<in> set ds"
  shows "blk_height (snd c) < blk_height (Node cs)"
proof -
  obtain n k l where i: "i > 0" "i < length cs"
    and l: "blk_append (snd (cs ! (i - 1))) (blk_take n (snd (cs ! i))) = Ok l"
    and ds: "ds = put_child (put_child cs (i - 1) k l) i (fst (cs ! i)) (blk_drop n (snd (cs ! i)))"
    using assms(1) by (auto simp: ksl_shift_left_def Let_def assertR_def bindR_eq_Ok split: if_splits)
  have h: "blk_height (snd (cs ! i)) < blk_height (Node cs)"
    "blk_height (snd (cs ! (i - 1))) < blk_height (Node cs)"
    using i by (intro height_child; simp)+
  then have "blk_height l < blk_height (Node cs)" "blk_height (blk_drop n (snd (cs ! i))) < blk_height (Node cs)"
    using append_height [OF l] take_drop_height le_less_trans by blast+
  with assms(2) ds show ?thesis by (auto intro: height_child dest!: in_put_child)
qed

lemma shift_right_height:
  assumes "ksl_shift_right cs i = Ok ds" "c \<in> set ds"
  shows "blk_height (snd c) < blk_height (Node cs)"
proof -
  obtain n k r where i: "i + 1 < length cs"
    and r: "blk_append (blk_drop n (snd (cs ! i))) (snd (cs ! (i + 1))) = Ok r"
    and ds: "ds = put_child (put_child cs i k (blk_take n (snd (cs ! i)))) (i + 1) (fst (cs ! (i + 1))) r"
    using assms(1) by (auto simp: ksl_shift_right_def Let_def assertR_def bindR_eq_Ok split: if_splits)
  have h: "blk_height (snd (cs ! i)) < blk_height (Node cs)"
    "blk_height (snd (cs ! (i + 1))) < blk_height (Node cs)"
    using i by (intro height_child; simp)+
  then have "blk_height r < blk_height (Node cs)" "blk_height (blk_take n (snd (cs ! i))) < blk_height (Node cs)"
    using append_height [OF r] take_drop_height le_less_trans by blast+
  with assms(2) ds show ?thesis by (auto intro: height_child dest!: in_put_child)
qed

text \<open>
  One iteration of the loop of \<open>ngtcp2_ksl_remove\<close> at an inner block: the key is not there, or the
  loop goes on with child \<open>j\<close> of the block, whose children are now \<open>ds\<close>, or with a new root.
\<close>

datatype ('k, 'v) rem_step =
  Rem_stop | Rem_enter "('k \<times> ('k, 'v) blk) list" nat | Rem_newroot "('k, 'v) blk"

definition ksl_remove_step ::
    "('k \<Rightarrow> 'k \<Rightarrow> bool) \<Rightarrow> bool \<Rightarrow> ('k \<times> ('k, 'v) blk) list \<Rightarrow> 'k \<Rightarrow> ('k, 'v) rem_step res" where
  "ksl_remove_step compar is_root cs key =
     (let i = ksl_search compar (Node cs) key; n = (\<lambda>j. blk_n (snd (cs ! j))) in
      if i = length cs then Ok Rem_stop
      else if n i > NGTCP2_KSL_MIN_NBLK then Ok (Rem_enter cs i)
      else assertR (n i = NGTCP2_KSL_MIN_NBLK)
       (if i + 1 < length cs \<and> n (i + 1) > NGTCP2_KSL_MIN_NBLK then
          bindR (ksl_shift_left cs (i + 1)) (\<lambda>ds. Ok (Rem_enter ds i))
        else if i > 0 \<and> n (i - 1) > NGTCP2_KSL_MIN_NBLK then
          bindR (ksl_shift_right cs (i - 1)) (\<lambda>ds. Ok (Rem_enter ds i))
        else
          let j = (if i + 1 < length cs then i else i - 1) in
          assertR (i + 1 < length cs \<or> i > 0)
         (bindR (ksl_merge_node cs j) (\<lambda>(b, ds).
          Ok (if is_root \<and> length cs = 2 then Rem_newroot b else Rem_enter ds j)))))"

lemma remove_step_height:
  "ksl_remove_step compar is_root cs key = Ok (Rem_enter ds j) \<Longrightarrow> c \<in> set ds \<Longrightarrow>
     blk_height (snd c) < blk_height (Node cs)"
  "ksl_remove_step compar is_root cs key = Ok (Rem_newroot b) \<Longrightarrow> blk_height b < blk_height (Node cs)"
  by (auto simp: ksl_remove_step_def Let_def assertR_def bindR_eq_Ok split: if_splits
      intro: height_child shift_left_height shift_right_height merge_node_height)

text \<open>
  The loop: the block afterwards, and the leaf and the index of the removed node, or \<open>None\<close> if the
  key is not there.
\<close>

function ksl_remove_loop ::
    "('k \<Rightarrow> 'k \<Rightarrow> bool) \<Rightarrow> bool \<Rightarrow> ('k, 'v) blk \<Rightarrow> 'k \<Rightarrow> (('k, 'v) blk \<times> ksl_it option) res" where
  "ksl_remove_loop compar is_root (Leaf es) key =
     (let i = ksl_search compar (Leaf es) key in
      if i = length es then Ok (Leaf es, None)
      else if compar key (fst (es ! i)) then Ok (Leaf es, None)
      else Ok (Leaf (ksl_remove_node es i), Some (0, i)))"
| "ksl_remove_loop compar is_root (Node cs) key =
     bindR (ksl_remove_step compar is_root cs key) (\<lambda>s. case s of
       Rem_stop \<Rightarrow> Ok (Node cs, None)
     | Rem_enter ds j \<Rightarrow>
         (if j < length ds then
            bindR (ksl_remove_loop compar False (snd (ds ! j)) key) (\<lambda>(b, r).
            Ok (Node (put_child ds j (fst (ds ! j)) b), map_option (it_shift (take j ds)) r))
          else Fault)
     | Rem_newroot b \<Rightarrow> ksl_remove_loop compar True b key)"
  by pat_completeness auto
termination
  by (relation "measure (\<lambda>(compar, is_root, b, key). blk_height b)")
    (auto intro: remove_step_height(1) [OF _ nth_mem] remove_step_height(2))

text \<open>
  The iterator to the node after the removed one: \<open>it_fix\<close> moves an iterator at the end of a leaf
  block to the next block, if there is one.
\<close>

definition it_fix :: "('k \<times> 'v) list list \<Rightarrow> ksl_it \<Rightarrow> ksl_it" where
  "it_fix ls it =
     (if snd it = length (ls ! fst it) \<and> fst it + 1 < length ls then (fst it + 1, 0) else it)"

definition ngtcp2_ksl_remove ::
    "('k \<Rightarrow> 'k \<Rightarrow> bool) \<Rightarrow> ('k, 'v) ngtcp2_ksl \<Rightarrow> 'k \<Rightarrow>
       (('k, 'v) ngtcp2_ksl \<times> lib_error option \<times> ksl_it option) res" where
  "ngtcp2_ksl_remove compar ksl key =
     (if ksl_stale ksl then Fault else
      case ksl_root ksl of
        None \<Rightarrow> Ok (ksl, Some NGTCP2_ERR_INVALID_ARGUMENT, None)
      | Some root \<Rightarrow>
          bindR (case root of
                   Node [(kl, l), (kr, r)] \<Rightarrow>
                     if blk_n l = NGTCP2_KSL_MIN_NBLK \<and> blk_n r = NGTCP2_KSL_MIN_NBLK
                     then bindR (ksl_merge_node [(kl, l), (kr, r)] 0) (\<lambda>(b, _). Ok b)
                     else Ok root
                 | _ \<Rightarrow> Ok root) (\<lambda>root.
          bindR (ksl_remove_loop compar True root key) (\<lambda>(b, r).
          let ksl = ksl\<lparr>ksl_root := Some b\<rparr> in
          case r of
            None \<Rightarrow> bindR (ngtcp2_ksl_end ksl) (\<lambda>it.
              Ok (ksl, Some NGTCP2_ERR_INVALID_ARGUMENT, Some it))
          | Some it \<Rightarrow> Ok (ksl\<lparr>ksl_n := ksl_n ksl - 1\<rparr>, None, Some (it_fix (leaves b) it)))))"

text \<open>
  \<open>ngtcp2_ksl_remove_hint\<close> removes the node at the iterator straight from its leaf, if the leaf is
  the root or has more nodes than the minimum.
\<close>

fun leaf_update :: "('k, 'v) blk \<Rightarrow> nat \<Rightarrow> ('k \<times> 'v) list \<Rightarrow> ('k, 'v) blk"
  and leaf_update_list :: "('k \<times> ('k, 'v) blk) list \<Rightarrow> nat \<Rightarrow> ('k \<times> 'v) list \<Rightarrow> ('k \<times> ('k, 'v) blk) list" where
  "leaf_update (Leaf es) l es' = (if l = 0 then Leaf es' else Leaf es)"
| "leaf_update (Node cs) l es' = Node (leaf_update_list cs l es')"
| "leaf_update_list [] l es' = []"
| "leaf_update_list (c # cs) l es' =
     (if l < length (leaves (snd c)) then (fst c, leaf_update (snd c) l es') # cs
      else c # leaf_update_list cs (l - length (leaves (snd c))) es')"

definition ngtcp2_ksl_remove_hint ::
    "('k \<Rightarrow> 'k \<Rightarrow> bool) \<Rightarrow> ('k, 'v) ngtcp2_ksl \<Rightarrow> ksl_it \<Rightarrow> 'k \<Rightarrow>
       (('k, 'v) ngtcp2_ksl \<times> lib_error option \<times> ksl_it option) res" where
  "ngtcp2_ksl_remove_hint compar ksl hint key =
     (if ksl_stale ksl then Fault else
      case ksl_root ksl of
        None \<Rightarrow> Fault
      | Some root \<Rightarrow>
          if fst hint < length (leaves root) \<and> snd hint < length (leaves root ! fst hint) then
            (let es = leaves root ! fst hint in
             if \<not> blk_leaf root \<and> length es = NGTCP2_KSL_MIN_NBLK then ngtcp2_ksl_remove compar ksl key
             else
               let b = leaf_update root (fst hint) (ksl_remove_node es (snd hint)) in
               Ok (ksl\<lparr>ksl_root := Some b, ksl_n := ksl_n ksl - 1\<rparr>, None,
                   Some (it_fix (leaves b) hint)))
          else Fault)"

section \<open>Search, update and iterators\<close>

definition ngtcp2_ksl_len :: "('k, 'v) ngtcp2_ksl \<Rightarrow> nat" where
  "ngtcp2_ksl_len ksl = ksl_n ksl"

definition ngtcp2_ksl_clear :: "('k, 'v) ngtcp2_ksl \<Rightarrow> ('k, 'v) ngtcp2_ksl" where
  "ngtcp2_ksl_clear ksl =
     (case ksl_root ksl of None \<Rightarrow> ksl
      | Some _ \<Rightarrow> ksl\<lparr>ksl_root := None, ksl_n := 0, ksl_stale := False\<rparr>)"

function ksl_lower_bound_loop :: "('k \<Rightarrow> 'k \<Rightarrow> bool) \<Rightarrow> ('k, 'v) blk \<Rightarrow> 'k \<Rightarrow> ksl_it res" where
  "ksl_lower_bound_loop compar (Leaf es) key = Ok (0, ksl_search compar (Leaf es) key)"
| "ksl_lower_bound_loop compar (Node cs) key =
     (let i = ksl_search compar (Node cs) key in
      if i = length cs then
        (if leaves (Node cs) = [] then Fault
         else Ok (length (leaves (Node cs)) - 1, length (last (leaves (Node cs)))))
      else
        bindR (ksl_lower_bound_loop compar (snd (cs ! i)) key) (\<lambda>it. Ok (it_shift (take i cs) it)))"
  by pat_completeness auto
termination
  by (relation "measure (\<lambda>(compar, b, key). blk_height b)")
    (auto intro: height_child [OF nth_mem] search_less [of _ "Node _", simplified])

text \<open>\<open>ngtcp2_ksl_lower_bound_search\<close> with the search function of \<open>compar\<close>.\<close>

definition ngtcp2_ksl_lower_bound_search ::
    "('k \<Rightarrow> 'k \<Rightarrow> bool) \<Rightarrow> ('k, 'v) ngtcp2_ksl \<Rightarrow> 'k \<Rightarrow> ksl_it res" where
  "ngtcp2_ksl_lower_bound_search compar ksl key =
     (if ksl_stale ksl then Fault else
      case ksl_root ksl of
        None \<Rightarrow> Ok (0, 0)
      | Some b \<Rightarrow> bindR (ksl_lower_bound_loop compar b key) (\<lambda>it. Ok (it_fix (leaves b) it)))"

definition ngtcp2_ksl_lower_bound ::
    "('k \<Rightarrow> 'k \<Rightarrow> bool) \<Rightarrow> ('k, 'v) ngtcp2_ksl \<Rightarrow> 'k \<Rightarrow> ksl_it res" where
  "ngtcp2_ksl_lower_bound compar ksl key = ngtcp2_ksl_lower_bound_search compar ksl key"

definition key_equal :: "('k \<Rightarrow> 'k \<Rightarrow> bool) \<Rightarrow> 'k \<Rightarrow> 'k \<Rightarrow> bool" where
  "key_equal compar lhs rhs = (\<not> compar lhs rhs \<and> \<not> compar rhs lhs)"

function ksl_update_key_loop ::
    "('k \<Rightarrow> 'k \<Rightarrow> bool) \<Rightarrow> ('k, 'v) blk \<Rightarrow> 'k \<Rightarrow> 'k \<Rightarrow> ('k, 'v) blk res" where
  "ksl_update_key_loop compar (Leaf es) old_key new_key =
     (let i = ksl_search compar (Leaf es) old_key in
      assertR (i < length es)
     (assertR (key_equal compar (fst (es ! i)) old_key)
       (Ok (Leaf (es[i := (new_key, snd (es ! i))])))))"
| "ksl_update_key_loop compar (Node cs) old_key new_key =
     (let i = ksl_search compar (Node cs) old_key in
      if i < length cs then
        let k = fst (cs ! i);
            k = (if key_equal compar k old_key \<or> compar k new_key then new_key else k) in
        bindR (ksl_update_key_loop compar (snd (cs ! i)) old_key new_key) (\<lambda>b.
        Ok (Node (put_child cs i k b)))
      else Fault)"
  by pat_completeness auto
termination
  by (relation "measure (\<lambda>(compar, b, old_key, new_key). blk_height b)")
    (auto intro: height_child [OF nth_mem])

definition ngtcp2_ksl_update_key ::
    "('k \<Rightarrow> 'k \<Rightarrow> bool) \<Rightarrow> ('k, 'v) ngtcp2_ksl \<Rightarrow> 'k \<Rightarrow> 'k \<Rightarrow> ('k, 'v) ngtcp2_ksl res" where
  "ngtcp2_ksl_update_key compar ksl old_key new_key =
     (case ksl_root ksl of
        None \<Rightarrow> Fault
      | Some b \<Rightarrow> bindR (ksl_update_key_loop compar b old_key new_key) (\<lambda>b.
          Ok (ksl\<lparr>ksl_root := Some b\<rparr>)))"

definition ngtcp2_ksl_begin :: "('k, 'v) ngtcp2_ksl \<Rightarrow> ksl_it" where
  "ngtcp2_ksl_begin ksl = (0, 0)"

text \<open>
  Iterators are read in the chain of leaves of their list; \<open>null_blk\<close>, for a list without a root,
  is an empty chain.
\<close>

definition it_blk_n :: "('k, 'v) ngtcp2_ksl \<Rightarrow> ksl_it \<Rightarrow> nat" where
  "it_blk_n ksl it =
     (if fst it < length (ksl_front_back ksl) then length (ksl_front_back ksl ! fst it) else 0)"

definition it_has_next :: "('k, 'v) ngtcp2_ksl \<Rightarrow> ksl_it \<Rightarrow> bool" where
  "it_has_next ksl it = (fst it + 1 < length (ksl_front_back ksl))"

definition ngtcp2_ksl_it_end :: "('k, 'v) ngtcp2_ksl \<Rightarrow> ksl_it \<Rightarrow> bool" where
  "ngtcp2_ksl_it_end ksl it = (it_blk_n ksl it = snd it \<and> \<not> it_has_next ksl it)"

definition ngtcp2_ksl_it_begin :: "ksl_it \<Rightarrow> bool" where
  "ngtcp2_ksl_it_begin it = (snd it = 0 \<and> fst it = 0)"

definition ngtcp2_ksl_it_next :: "('k, 'v) ngtcp2_ksl \<Rightarrow> ksl_it \<Rightarrow> ksl_it" where
  "ngtcp2_ksl_it_next ksl it =
     (if snd it + 1 = it_blk_n ksl it \<and> it_has_next ksl it then (fst it + 1, 0)
      else (fst it, snd it + 1))"

definition ngtcp2_ksl_it_prev :: "('k, 'v) ngtcp2_ksl \<Rightarrow> ksl_it \<Rightarrow> ksl_it res" where
  "ngtcp2_ksl_it_prev ksl it =
     assertR (\<not> ngtcp2_ksl_it_begin it)
       (if snd it = 0 then Ok (fst it - 1, it_blk_n ksl (fst it - 1, 0) - 1)
        else Ok (fst it, snd it - 1))"

definition it_entry :: "('k, 'v) ngtcp2_ksl \<Rightarrow> ksl_it \<Rightarrow> ('k \<times> 'v) res" where
  "it_entry ksl it =
     (if snd it < it_blk_n ksl it then Ok (ksl_front_back ksl ! fst it ! snd it) else Fault)"

definition ngtcp2_ksl_it_get :: "('k, 'v) ngtcp2_ksl \<Rightarrow> ksl_it \<Rightarrow> 'v res" where
  "ngtcp2_ksl_it_get ksl it = bindR (it_entry ksl it) (\<lambda>e. Ok (snd e))"

definition ngtcp2_ksl_it_key :: "('k, 'v) ngtcp2_ksl \<Rightarrow> ksl_it \<Rightarrow> 'k res" where
  "ngtcp2_ksl_it_key ksl it = bindR (it_entry ksl it) (\<lambda>e. Ok (fst e))"

end
