(* ===== verification/Ksl_Insert.thy ===== *)
theory Ksl_Insert
  imports Ksl
begin

text \<open>
  The ordered map of \<open>Ksl\<close> refines a sorted list. \<open>elems\<close> is the list of the nodes in the order of
  the chain of leaves, \<open>ksl_ok\<close> the invariant of the tree. The keys are ordered by a strict partial
  order (the locale \<open>ksl_order\<close>). The comparison function of the map need not be that order: it has
  to agree with it on the keys of the tree and the key of the call (\<open>agrees\<close>). So the results apply
  to sets of disjoint ranges too, where the comparison function looks only at the start of a range.
\<close>

section \<open>Abstraction and invariant\<close>

definition elems :: "('k, 'v) blk \<Rightarrow> ('k \<times> 'v) list" where
  "elems b = concat (leaves b)"

text \<open>All keys of a block: the keys of the nodes and the bounds of the children.\<close>

fun kset :: "('k, 'v) blk \<Rightarrow> 'k set" where
  "kset (Leaf es) = fst ` set es"
| "kset (Node cs) = fst ` set cs \<union> (\<Union>c \<in> set cs. kset (snd c))"

fun blk_ok :: "('k \<Rightarrow> 'k \<Rightarrow> bool) \<Rightarrow> nat \<Rightarrow> ('k, 'v) blk \<Rightarrow> bool" where
  "blk_ok lt 0 (Leaf es) = (sorted_wrt lt (map fst es) \<and> length es \<le> 32)"
| "blk_ok lt (Suc h) (Node cs) =
     (length cs \<le> 32 \<and> cs \<noteq> [] \<and>
      sorted_wrt (\<lambda>c d. \<forall>x \<in> kset (snd d). lt (fst c) x) cs \<and>
      list_all (\<lambda>c. blk_ok lt h (snd c) \<and> 16 \<le> blk_n (snd c) \<and> (\<forall>x \<in> kset (snd c). x = fst c \<or> lt x (fst c))) cs)"
| "blk_ok lt h b = False"

text \<open>The children of a block, as a condition on lists.\<close>

definition child_ok :: "('k \<Rightarrow> 'k \<Rightarrow> bool) \<Rightarrow> nat \<Rightarrow> 'k \<times> ('k, 'v) blk \<Rightarrow> bool" where
  "child_ok lt h c = (blk_ok lt h (snd c) \<and> 16 \<le> blk_n (snd c) \<and> (\<forall>x \<in> kset (snd c). x = fst c \<or> lt x (fst c)))"

definition children_ok :: "('k \<Rightarrow> 'k \<Rightarrow> bool) \<Rightarrow> nat \<Rightarrow> ('k \<times> ('k, 'v) blk) list \<Rightarrow> bool" where
  "children_ok lt h cs =
     (sorted_wrt (\<lambda>c d. \<forall>x \<in> kset (snd d). lt (fst c) x) cs \<and> list_all (child_ok lt h) cs)"

definition elems_list :: "('k \<times> ('k, 'v) blk) list \<Rightarrow> ('k \<times> 'v) list" where
  "elems_list cs = concat (map (\<lambda>c. elems (snd c)) cs)"

definition leaves_list :: "('k \<times> ('k, 'v) blk) list \<Rightarrow> ('k \<times> 'v) list list" where
  "leaves_list cs = concat (map (\<lambda>c. leaves (snd c)) cs)"

text \<open>The iterator \<open>it\<close> of the chain \<open>ls\<close> is at the node with the index \<open>p\<close>.\<close>

definition it_at :: "('k \<times> 'v) list list \<Rightarrow> ksl_it \<Rightarrow> nat \<Rightarrow> bool" where
  "it_at ls it p = (fst it < length ls \<and> snd it < length (ls ! fst it) \<and>
     length (concat (take (fst it) ls)) + snd it = p)"

lemma blk_ok_Node [simp]:
  "blk_ok lt (Suc h) (Node cs) \<longleftrightarrow> length cs \<le> 32 \<and> cs \<noteq> [] \<and> children_ok lt h cs"
  by (simp add: children_ok_def child_ok_def list_all_def)

declare blk_ok.simps(2) [simp del]

lemma blk_ok_0: "blk_ok lt 0 b \<Longrightarrow> \<exists>es. b = Leaf es"
  by (cases b) simp_all

lemma blk_ok_Suc: "blk_ok lt (Suc h) b \<Longrightarrow> \<exists>cs. b = Node cs"
  by (cases b) simp_all

lemma elems_simps [simp]: "elems (Leaf es) = es" "elems (Node cs) = elems_list cs"
  by (simp_all add: elems_def elems_list_def) (induction cs; simp add: elems_def)

lemma elems_list_simps [simp]:
  "elems_list [] = []" "elems_list (c # cs) = elems (snd c) @ elems_list cs"
  "elems_list (cs @ ds) = elems_list cs @ elems_list ds"
  by (simp_all add: elems_list_def)

lemma leaves_Node: "leaves (Node cs) = leaves_list cs"
  by (simp add: leaves_list_def)

lemma leaves_list_simps [simp]:
  "leaves_list [] = []" "leaves_list (c # cs) = leaves (snd c) @ leaves_list cs"
  "leaves_list (cs @ ds) = leaves_list cs @ leaves_list ds"
  by (simp_all add: leaves_list_def)

lemma concat_leaves [simp]: "concat (leaves b) = elems b" "concat (leaves_list cs) = elems_list cs"
  by (simp_all add: elems_def) (induction cs; simp add: elems_def)

lemma elems_kset: "e \<in> set (elems b) \<Longrightarrow> fst e \<in> kset b"
proof (induction b)
  case (Node cs)
  then obtain c where "c \<in> set cs" "e \<in> set (elems (snd c))" by (auto simp: elems_list_def)
  with Node.IH [of c "snd c"] show ?case by (auto simp: snds.simps)
qed simp

lemma elems_list_kset: "e \<in> set (elems_list cs) \<Longrightarrow> \<exists>c \<in> set cs. fst e \<in> kset (snd c)"
  by (auto simp: elems_list_def intro: elems_kset)

definition agrees :: "('k \<Rightarrow> 'k \<Rightarrow> bool) \<Rightarrow> ('k \<Rightarrow> 'k \<Rightarrow> bool) \<Rightarrow> 'k \<Rightarrow> 'k \<Rightarrow> bool" where
  "agrees lt cmp k key = (cmp k key = lt k key \<and> cmp key k = lt key k \<and> (k = key \<or> lt k key \<or> lt key k))"

lemma children_ok_Nil [simp]: "children_ok lt h []"
  by (simp add: children_ok_def)

lemma children_ok_append [simp]:
  "children_ok lt h (cs @ ds) \<longleftrightarrow> children_ok lt h cs \<and> children_ok lt h ds \<and>
     (\<forall>c \<in> set cs. \<forall>d \<in> set ds. \<forall>x \<in> kset (snd d). lt (fst c) x)"
  by (auto simp: children_ok_def sorted_wrt_append)

lemma children_ok_Cons [simp]:
  "children_ok lt h (c # cs) \<longleftrightarrow> child_ok lt h c \<and> children_ok lt h cs \<and>
     (\<forall>d \<in> set cs. \<forall>x \<in> kset (snd d). lt (fst c) x)"
  by (auto simp: children_ok_def)

lemma children_ok_child: "children_ok lt h cs \<Longrightarrow> c \<in> set cs \<Longrightarrow> child_ok lt h c"
  by (auto simp: children_ok_def list_all_iff)

lemma child_le: "children_ok lt h cs \<Longrightarrow> c \<in> set cs \<Longrightarrow> x \<in> kset (snd c) \<Longrightarrow> x = fst c \<or> lt x (fst c)"
  using children_ok_child [of lt h cs c] by (auto simp: child_ok_def)

lemma kset_nonempty: "blk_ok lt h b \<Longrightarrow> 0 < blk_n b \<Longrightarrow> kset b \<noteq> {}"
proof (induction h arbitrary: b)
  case 0
  then obtain es where "b = Leaf es" using blk_ok_0 by blast
  with 0 show ?case by auto
next
  case (Suc h)
  then obtain c cs where b: "b = Node (c # cs)" using blk_ok_Suc by (metis blk_n.simps(2) length_greater_0_conv neq_Nil_conv)
  with Suc have "kset (snd c) \<noteq> {}" by (auto simp: child_ok_def)
  with b show ?case by auto
qed

lemma child_nonempty: "child_ok lt h c \<Longrightarrow> kset (snd c) \<noteq> {}"
  by (rule kset_nonempty) (auto simp: child_ok_def)

lemma it_at_append:
  "it_at ls it p \<Longrightarrow> it_at (ls0 @ ls @ ls1) (length ls0 + fst it, snd it) (length (concat ls0) + p)"
  by (auto simp: it_at_def nth_append)

lemma it_at_shift:
  "it_at (leaves b) it p \<Longrightarrow>
     it_at (leaves (Node (xs @ (k, b) # ys))) (it_shift xs it) (length (elems_list xs) + p)"
  using it_at_append [of "leaves b" it p "leaves_list xs" "leaves_list ys"]
  by (simp add: leaves_Node it_shift_def leaves_list_def [symmetric] del: leaves.simps)

lemma it_at_entry: "it_at ls it p \<Longrightarrow> ls ! fst it ! snd it = concat ls ! p \<and> p < length (concat ls)"
proof -
  assume *: "it_at ls it p"
  then have "ls = take (fst it) ls @ ls ! fst it # drop (Suc (fst it)) ls"
    by (simp add: it_at_def id_take_nth_drop)
  then have "concat ls = concat (take (fst it) ls) @ ls ! fst it @ concat (drop (Suc (fst it)) ls)"
    by (metis concat.simps(2) concat_append)
  with * show ?thesis by (auto simp: it_at_def nth_append)
qed

text \<open>
  What an insertion does to the list of nodes: nothing if it runs out of memory or if there is a
  node with an equivalent key, otherwise it puts the new node between the smaller and the larger
  ones, and the iterator is there.
\<close>

definition ins_spec ::
    "('k \<Rightarrow> 'k \<Rightarrow> bool) \<Rightarrow> ('k \<times> 'v) list \<Rightarrow> 'k \<Rightarrow> 'v \<Rightarrow> ('k \<times> 'v) list \<Rightarrow> ins_result \<Rightarrow>
       ('k \<times> 'v) list list \<Rightarrow> bool" where
  "ins_spec lt es key data es' r ls =
     (case r of
        Ins_nomem \<Rightarrow> es' = es
      | Ins_exists \<Rightarrow> es' = es \<and> key \<in> fst ` set es
      | Ins_at it \<Rightarrow> \<exists>xs ys. es = xs @ ys \<and> es' = xs @ (key, data) # ys \<and>
          (\<forall>x \<in> fst ` set xs. lt x key) \<and> (\<forall>y \<in> fst ` set ys. lt key y) \<and> it_at ls it (length xs))"

lemma ins_spec_ctx:
  assumes "ins_spec lt (elems b) key data (elems b') r (leaves b')"
    and A: "\<forall>x \<in> fst ` set (elems_list xs). lt x key" and B: "\<forall>x \<in> fst ` set (elems_list ys). lt key x"
  shows "ins_spec lt (elems_list xs @ elems b @ elems_list ys) key data
    (elems (Node (xs @ (k, b') # ys))) (ins_shift xs r) (leaves (Node (xs @ (k, b') # ys)))"
proof (cases r)
  case (Ins_at it)
  then obtain us vs where e: "elems b = us @ vs" "elems b' = us @ (key, data) # vs"
    and o: "\<forall>x \<in> fst ` set us. lt x key" "\<forall>y \<in> fst ` set vs. lt key y" and it: "it_at (leaves b') it (length us)"
    using assms(1) by (auto simp: ins_spec_def)
  show ?thesis
    using A B o e it_at_shift [OF it, of xs k ys]
    by (simp add: ins_spec_def Ins_at ins_shift_def del: leaves.simps)
      (rule exI [of _ "elems_list xs @ us"], rule exI [of _ "vs @ elems_list ys"], auto)
qed (use assms(1) in \<open>auto simp: ins_spec_def ins_shift_def\<close>)

text \<open>
  What an insertion below the block \<open>b\<close> promises: it returns, keeps the invariant and adds at most
  one node to the block. It runs out of memory only if the allocator does.
\<close>

definition ins_ok ::
    "('k \<Rightarrow> 'k \<Rightarrow> bool) \<Rightarrow> alloc \<Rightarrow> nat \<Rightarrow> ('k, 'v) blk \<Rightarrow> 'k \<Rightarrow> 'v \<Rightarrow>
       (('k, 'v) blk \<times> ins_result \<times> alloc) res \<Rightarrow> bool" where
  "ins_ok lt al h b key data res =
     (\<exists>b' r al'. res = Ok (b', r, al') \<and> blk_ok lt h b' \<and> blk_n b \<le> blk_n b' \<and> blk_n b' \<le> blk_n b + 1 \<and>
        kset b' \<subseteq> insert key (kset b) \<and>
        ins_spec lt (elems b) key data (elems b') r (leaves b') \<and> (r = Ins_nomem \<longrightarrow> False \<in> set al) \<and>
        set al' \<subseteq> set al)"

lemma ins_shift_nomem [simp]: "ins_shift xs r = Ins_nomem \<longleftrightarrow> r = Ins_nomem"
  by (cases r) (simp_all add: ins_shift_def)

lemma alloc_sub: "ksl_alloc al = (ok, al') \<Longrightarrow> set al' \<subseteq> set al \<and> (\<not> ok \<longrightarrow> False \<in> set al)"
  by (cases al) (auto simp: ksl_alloc_def)

text \<open>The invariant of the whole map, and the sorted list it stands for.\<close>

definition ksl_elems :: "('k, 'v) ngtcp2_ksl \<Rightarrow> ('k \<times> 'v) list" where
  "ksl_elems ksl = (case ksl_root ksl of None \<Rightarrow> [] | Some b \<Rightarrow> elems b)"

fun root_ok :: "('k, 'v) blk \<Rightarrow> bool" where
  "root_ok (Leaf es) = True"
| "root_ok (Node cs) = (2 \<le> length cs)"

definition ksl_ok :: "('k \<Rightarrow> 'k \<Rightarrow> bool) \<Rightarrow> ('k, 'v) ngtcp2_ksl \<Rightarrow> bool" where
  "ksl_ok lt ksl = (\<not> ksl_stale ksl \<and> ksl_n ksl = length (ksl_elems ksl) \<and>
     (case ksl_root ksl of None \<Rightarrow> True | Some b \<Rightarrow> blk_ok lt (blk_height b) b \<and> root_ok b))"

lemma blk_ok_height: "blk_ok lt h b \<Longrightarrow> blk_height b = h"
proof (induction h arbitrary: b)
  case 0
  then show ?case using blk_ok_0 by fastforce
next
  case (Suc h)
  then obtain cs where b: "b = Node cs" using blk_ok_Suc by blast
  then have "cs \<noteq> []" "\<And>c. c \<in> set cs \<Longrightarrow> blk_height (snd c) = h"
    using Suc children_ok_child [of lt h cs] by (auto simp: child_ok_def)
  then have "foldr (\<lambda>c. max (blk_height (snd c))) cs 0 = h" by (induction cs) (auto simp: max_def, fastforce)
  then show ?case using b by (simp add: height_simps)
qed

lemma ksl_okI:
  assumes "\<not> ksl_stale ksl" "ksl_n ksl = length (ksl_elems ksl)"
    and "\<And>b. ksl_root ksl = Some b \<Longrightarrow> \<exists>h. blk_ok lt h b" "\<And>b. ksl_root ksl = Some b \<Longrightarrow> root_ok b"
  shows "ksl_ok lt ksl"
  using assms blk_ok_height unfolding ksl_ok_def by (fastforce split: option.split)

lemma ksl_init_ok: "ksl_ok lt ngtcp2_ksl_init \<and> ksl_elems ngtcp2_ksl_init = []"
  by (simp add: ksl_ok_def ngtcp2_ksl_init_def ksl_elems_def)

definition ksl_keys :: "('k, 'v) ngtcp2_ksl \<Rightarrow> 'k set" where
  "ksl_keys ksl = (case ksl_root ksl of None \<Rightarrow> {} | Some b \<Rightarrow> kset b)"

text \<open>
  The contract of \<open>ngtcp2_ksl_insert\<close>. If it fails for lack of memory the map is unchanged, unless
  the failure is the second allocation of \<open>ksl_split_root\<close>.
\<close>

definition ksl_insert_spec ::
    "('k \<Rightarrow> 'k \<Rightarrow> bool) \<Rightarrow> alloc \<Rightarrow> ('k, 'v) ngtcp2_ksl \<Rightarrow> 'k \<Rightarrow> 'v \<Rightarrow> ('k, 'v) ngtcp2_ksl \<Rightarrow>
       lib_error option \<Rightarrow> ksl_it option \<Rightarrow> bool" where
  "ksl_insert_spec lt al ksl key data ksl' rv it =
     ((\<exists>xs ys i. rv = None \<and> ksl_ok lt ksl' \<and> ksl_elems ksl = xs @ ys \<and>
         ksl_elems ksl' = xs @ (key, data) # ys \<and> ksl_keys ksl' \<subseteq> insert key (ksl_keys ksl) \<and>
         (\<forall>x \<in> fst ` set xs. lt x key) \<and> (\<forall>y \<in> fst ` set ys. lt key y) \<and>
         it = Some i \<and> it_at (ksl_front_back ksl') i (length xs)) \<or>
      rv = Some NGTCP2_ERR_INVALID_ARGUMENT \<and> ksl_ok lt ksl' \<and> ksl_elems ksl' = ksl_elems ksl \<and>
        ksl_keys ksl' \<subseteq> insert key (ksl_keys ksl) \<and>
        key \<in> fst ` set (ksl_elems ksl) \<or>
      rv = Some NGTCP2_ERR_NOMEM \<and> False \<in> set al \<and>
        (ksl_ok lt ksl' \<and> ksl_elems ksl' = ksl_elems ksl \<and> ksl_keys ksl' \<subseteq> insert key (ksl_keys ksl) \<or>
         ksl_stale ksl'))"

section \<open>Order\<close>

locale ksl_order =
  fixes lt :: "'k \<Rightarrow> 'k \<Rightarrow> bool"
  assumes lt_irrefl [simp]: "\<not> lt x x"
    and lt_trans: "lt x y \<Longrightarrow> lt y z \<Longrightarrow> lt x z"
begin

lemma lt_asym: "lt x y \<Longrightarrow> \<not> lt y x"
  using lt_irrefl lt_trans by blast

lemma le_less: "x = y \<or> lt x y \<Longrightarrow> lt y z \<Longrightarrow> lt x z"
  using lt_trans by blast

lemma less_le: "lt x y \<Longrightarrow> y = z \<or> lt y z \<Longrightarrow> lt x z"
  using lt_trans by blast

text \<open>The key of a child lies strictly between the keys of the children before and after it.\<close>

lemma child_below:
  assumes "children_ok lt h (us @ u # vs)" "x \<in> kset (Node us)"
  shows "lt x (fst u)"
proof -
  obtain c where c: "c \<in> set us" "x = fst c \<or> x \<in> kset (snd c)" using assms(2) by auto
  obtain z where z: "z \<in> kset (snd u)" using child_nonempty [of lt h u] assms(1) by auto
  have "x = fst c \<or> lt x (fst c)" "lt (fst c) z" "z = fst u \<or> lt z (fst u)"
    using assms(1) c z child_le [OF assms(1), of c x] child_le [OF assms(1), of u z] by auto
  then show ?thesis using le_less less_le by blast
qed

lemma child_above:
  assumes "children_ok lt h (us @ u # vs)" "x \<in> kset (Node vs)"
  shows "lt (fst u) x"
proof -
  obtain d where d: "d \<in> set vs" "x = fst d \<or> x \<in> kset (snd d)" using assms(2) by auto
  obtain z where z: "z \<in> kset (snd d)" using child_nonempty [of lt h d] assms(1) d by (auto dest: children_ok_child)
  have "lt (fst u) z" "z = fst d \<or> lt z (fst d)"
    using assms(1) d(1) z child_le [OF assms(1), of d z] by auto
  then show ?thesis using d assms(1) less_le by auto
qed

text \<open>The keys of a tree are in strictly increasing order.\<close>

lemma children_sorted:
  assumes "children_ok lt h cs" "\<And>c. c \<in> set cs \<Longrightarrow> sorted_wrt lt (map fst (elems (snd c)))"
  shows "sorted_wrt lt (map fst (elems_list cs))"
  using assms
proof (induction cs)
  case (Cons c cs)
  have "lt (fst e) (fst e')" if "e \<in> set (elems (snd c))" "e' \<in> set (elems_list cs)" for e e'
  proof (rule le_less)
    show "fst e = fst c \<or> lt (fst e) (fst c)"
      using Cons.prems(1) elems_kset [OF that(1)] by (auto simp: child_ok_def)
    show "lt (fst c) (fst e')" using Cons.prems(1) elems_list_kset [OF that(2)] by auto
  qed
  with Cons show ?case by (simp add: sorted_wrt_append)
qed simp

lemma elems_sorted: "blk_ok lt h b \<Longrightarrow> sorted_wrt lt (map fst (elems b))"
proof (induction h arbitrary: b)
  case 0
  then show ?case using blk_ok_0 by fastforce
next
  case (Suc h)
  then obtain cs where b: "b = Node cs" using blk_ok_Suc by blast
  with Suc have ok: "children_ok lt h cs" by simp
  show ?case unfolding b elems_simps
    by (rule children_sorted [OF ok]) (use Suc.IH children_ok_child [OF ok] in \<open>auto simp: child_ok_def\<close>)
qed

text \<open>The last key of a block bounds its keys.\<close>

lemma last_key_bound:
  assumes "blk_ok lt h b" "0 < blk_n b"
  obtains k where "blk_last_key b = Ok k" "k \<in> kset b" "\<forall>x \<in> kset b. x = k \<or> lt x k"
proof (cases h)
  case 0
  then obtain es where b: "b = Leaf es" using assms blk_ok_0 by blast
  with assms obtain us u where es: "es = us @ [u]" by (cases es rule: rev_cases) auto
  then have "sorted_wrt lt (map fst (us @ [u]))" using assms 0 b by simp
  then show thesis using b es by (intro that [of "fst u"]) (auto simp: blk_last_key_def sorted_wrt_append)
next
  case (Suc h')
  then obtain cs where b: "b = Node cs" using assms blk_ok_Suc by blast
  with assms obtain us u where cs: "cs = us @ [u]" by (cases cs rule: rev_cases) auto
  have ok: "children_ok lt h' (us @ [u])" using assms Suc b cs by simp
  have "\<forall>x \<in> kset b. x = fst u \<or> lt x (fst u)"
    using ok child_below [OF ok] b cs by (auto simp: child_ok_def)
  then show thesis using that [of "fst u"] b cs by (simp add: blk_last_key_def)
qed

text \<open>Cutting a block in two.\<close>

lemma kset_append: "kset (Node (xs @ ys)) = kset (Node xs) \<union> kset (Node ys)"
  by auto

lemma node_cut:
  assumes "children_ok lt h (xs @ ys)" "xs \<noteq> []" "x \<in> kset (Node xs)" "y \<in> kset (Node ys)"
  shows "lt (fst (last xs)) y" "lt x y"
proof -
  obtain us u where xs: "xs = us @ [u]" using assms(2) by (cases xs rule: rev_cases) auto
  then have ok: "children_ok lt h (us @ u # ys)" using assms(1) by simp
  from child_above [OF ok assms(4)] show 1: "lt (fst (last xs)) y" using xs by simp
  have "x = fst u \<or> lt x (fst u)" using assms(1,3) xs child_below [OF ok] by (auto simp: child_ok_def)
  with 1 xs show "lt x y" using le_less by simp
qed

text \<open>A full block splits into two halves with a key between them.\<close>

lemma split_blk_ok:
  assumes "blk_ok lt h b" "blk_n b = 32"
  obtains l r k where "ksl_split_blk b = Ok (l, r)" "blk_last_key l = Ok k" "elems b = elems l @ elems r"
    "blk_ok lt h l" "blk_ok lt h r" "blk_n l = 16" "blk_n r = 16" "kset b = kset l \<union> kset r" "k \<in> kset l"
    "\<forall>x \<in> kset l. x = k \<or> lt x k" "\<forall>x \<in> kset r. lt k x"
proof -
  obtain l r where lr: "ksl_split_blk b = Ok (l, r)" "elems b = elems l @ elems r" "blk_ok lt h l" "blk_ok lt h r"
    "blk_n l = 16" "blk_n r = 16" "kset b = kset l \<union> kset r" "\<And>x y. x \<in> kset l \<Longrightarrow> y \<in> kset r \<Longrightarrow> lt x y"
  proof (cases b)
    case (Leaf es)
    define xs ys where "xs = take 16 es" and "ys = drop 16 es"
    then have es: "es = xs @ ys" "length xs = 16" "length ys = 16" using assms Leaf by auto
    have h: "h = 0" using assms Leaf by (cases h) auto
    have s: "sorted_wrt lt (map fst (xs @ ys))" using assms h Leaf es by simp
    show thesis
      by (rule that [of "Leaf xs" "Leaf ys"])
        (use s h Leaf es in \<open>auto simp: ksl_split_blk_def Let_def sorted_wrt_append\<close>)
  next
    case (Node cs)
    define xs ys where "xs = take 16 cs" and "ys = drop 16 cs"
    then have cs: "cs = xs @ ys" "length xs = 16" "length ys = 16" using assms Node by auto
    obtain h' where h: "h = Suc h'" using assms Node by (cases h) auto
    have ok: "children_ok lt h' (xs @ ys)" using assms h Node cs by simp
    have "xs \<noteq> []" "ys \<noteq> []" using cs by auto
    show thesis
    proof (rule that [of "Node xs" "Node ys"])
      show "kset b = kset (Node xs) \<union> kset (Node ys)" unfolding Node cs(1) by (rule kset_append)
      show "blk_ok lt h (Node xs)" "blk_ok lt h (Node ys)"
        using ok \<open>xs \<noteq> []\<close> \<open>ys \<noteq> []\<close> h cs(2,3) by simp_all
    qed (use node_cut [OF ok \<open>xs \<noteq> []\<close>] Node cs in \<open>simp_all add: ksl_split_blk_def Let_def\<close>)
  qed
  obtain k where k: "blk_last_key l = Ok k" "k \<in> kset l" "\<forall>x \<in> kset l. x = k \<or> lt x k"
    using last_key_bound [OF lr(3)] lr(5) by auto
  show thesis by (rule that [OF lr(1) k(1) lr(2-7) k(2,3)]) (use lr(8) k(2) in auto)
qed

text \<open>Splitting child \<open>(k, b)\<close> of a list of children.\<close>

lemma split_child_ok:
  assumes ok: "children_ok lt h (xs @ (k, b) # ys)" and n: "blk_n b = 32"
  obtains l r kl where
    "ksl_split_node (xs @ (k, b) # ys) (length xs) = Ok (xs @ (kl, l) # (k, r) # ys)"
    "elems b = elems l @ elems r" "children_ok lt h (xs @ (kl, l) # (k, r) # ys)" "blk_n l = 16" "blk_n r = 16"
    "kset b = kset l \<union> kset r" "kl \<in> kset l"
proof -
  have b: "blk_ok lt h b" using ok by (simp add: child_ok_def)
  obtain l r kl where s: "ksl_split_blk b = Ok (l, r)" "blk_last_key l = Ok kl" "elems b = elems l @ elems r"
    and o: "blk_ok lt h l" "blk_ok lt h r" "blk_n l = 16" "blk_n r = 16" "kset b = kset l \<union> kset r" "kl \<in> kset l"
      "\<forall>x \<in> kset l. x = kl \<or> lt x kl" "\<forall>x \<in> kset r. lt kl x"
    by (rule split_blk_ok [OF b n])
  have "lt kl x" if "d \<in> set ys" "x \<in> kset (snd d)" for d x
    by (rule le_less [of kl k]) (use ok that o in \<open>auto simp: child_ok_def\<close>)
  then have "children_ok lt h (xs @ (kl, l) # (k, r) # ys)"
    using ok o by (auto simp: child_ok_def)
  moreover have "ksl_split_node (xs @ (k, b) # ys) (length xs) = Ok (xs @ (kl, l) # (k, r) # ys)"
    by (simp add: ksl_split_node_def s)
  ultimately show thesis using that s(3) o by blast
qed

text \<open>Replacing child \<open>(k, b)\<close>.\<close>

lemma replace_child_ok:
  assumes "children_ok lt h (xs @ (k, b) # ys)" and "child_ok lt h (k', b')"
    and "\<And>c x. c \<in> set xs \<Longrightarrow> x \<in> kset b' \<Longrightarrow> lt (fst c) x"
    and "\<And>d x. d \<in> set ys \<Longrightarrow> x \<in> kset (snd d) \<Longrightarrow> lt k' x"
  shows "children_ok lt h (xs @ (k', b') # ys)"
  using assms by auto

subsection \<open>Insertion\<close>

lemma last_child_ok:
  assumes ok: "children_ok lt h (xs @ [(k, b)])" and b': "blk_ok lt h b'" "blk_n b \<le> blk_n b'"
    and K: "kset b' \<subseteq> insert key (kset b)" and key: "\<And>x. x \<in> kset b \<Longrightarrow> lt x key"
  shows "children_ok lt h (xs @ [(key, b')])"
proof (rule replace_child_ok [OF ok])
  show "child_ok lt h (key, b')" using ok b' K key by (auto simp: child_ok_def)
  obtain z where z: "z \<in> kset b" using ok child_nonempty [of lt h "(k, b)"] by auto
  show "lt (fst c) x" if "c \<in> set xs" "x \<in> kset b'" for c x
  proof -
    have "lt (fst c) z" "lt z key" using ok that(1) z key by auto
    then have "lt (fst c) key" by (rule lt_trans)
    then show ?thesis using ok that K by auto
  qed
qed simp

lemma ins_okI:
  assumes "res = Ok (b', r, al')" "blk_ok lt h b'" "blk_n b \<le> blk_n b'" "blk_n b' \<le> blk_n b + 1"
    "kset b' \<subseteq> insert key (kset b)"
    "ins_spec lt (elems b) key data (elems b') r (leaves b')" "r = Ins_nomem \<longrightarrow> False \<in> set al"
    "set al' \<subseteq> set al"
  shows "ins_ok lt al h b key data res"
  using assms unfolding ins_ok_def by blast

lemma insert_last_ok:
  assumes "blk_ok lt h b" "blk_n b < 32" "\<And>x. x \<in> kset b \<Longrightarrow> lt x key"
  shows "ins_ok lt al h b key data (ksl_insert_last al b key data)"
  using assms
proof (induction h arbitrary: b al)
  case 0
  then obtain es where b: "b = Leaf es" using blk_ok_0 by blast
  have "ins_spec lt es key data (es @ [(key, data)]) (Ins_at (0, length es)) [es @ [(key, data)]]"
    unfolding ins_spec_def ins_result.case
    by (rule exI [of _ es], rule exI [of _ "[]"]) (use 0 b in \<open>auto simp: it_at_def\<close>)
  moreover have "sorted_wrt lt (map fst (es @ [(key, data)]))"
    using 0 b by (simp add: sorted_wrt_append)
  ultimately show ?case using 0 b by (simp add: ins_ok_def ksl_insert_node_def)
next
  case (Suc h)
  then obtain cs where b: "b = Node cs" using blk_ok_Suc by blast
  with Suc.prems obtain us k c where cs: "cs = us @ [(k, c)]" by (cases cs rule: rev_cases) auto
  have ok: "children_ok lt h (us @ [(k, c)])" and len: "length us < 31" using Suc.prems b cs by auto
  have key: "\<And>x. x \<in> kset c \<Longrightarrow> lt x key" "\<forall>x \<in> fst ` set (elems_list us). lt x key"
    using Suc.prems(3) b cs by (auto dest: elems_list_kset)
  show ?case
  proof (cases "blk_n c = 32")
    case False
    have "blk_ok lt h c" "blk_n c < 32" using ok False by (auto simp: child_ok_def elim: blk_ok.elims)
    from Suc.IH [OF this key(1)] obtain b' r al' where
      r: "ksl_insert_last al c key data = Ok (b', r, al')" "blk_ok lt h b'" "blk_n c \<le> blk_n b'"
      "kset b' \<subseteq> insert key (kset c)" "ins_spec lt (elems c) key data (elems b') r (leaves b')"
      and m: "r = Ins_nomem \<longrightarrow> False \<in> set al" "set al' \<subseteq> set al"
      unfolding ins_ok_def by blast
    have e: "ksl_insert_last al (Node cs) key data = Ok (Node (us @ [(key, b')]), ins_shift us r, al')"
      using False r(1) cs by simp
    have "children_ok lt h (us @ [(key, b')])" by (rule last_child_ok [OF ok r(2-4) key(1)])
    with ins_spec_ctx [OF r(5) key(2), of "[]" key] r(4) m cs len show ?thesis
      unfolding b by (intro ins_okI [OF e]) (auto simp del: leaves.simps)
  next
    case True
    obtain l rb kl where s: "ksl_split_node (us @ [(k, c)]) (length us) = Ok (us @ [(kl, l), (k, rb)])"
      "elems c = elems l @ elems rb" "children_ok lt h (us @ [(kl, l), (k, rb)])" "blk_n l = 16" "blk_n rb = 16"
      "kset c = kset l \<union> kset rb" "kl \<in> kset l"
      by (rule split_child_ok [OF ok True])
    then have s3: "children_ok lt h ((us @ [(kl, l)]) @ [(k, rb)])" by simp
    have key': "\<And>x. x \<in> kset rb \<Longrightarrow> lt x key" "\<forall>x \<in> fst ` set (elems_list (us @ [(kl, l)])). lt x key"
      using key(1) s(6) apply simp
      using key s(6) elems_kset [of _ l] by auto
    have B: "blk_ok lt h rb" "blk_n rb < 32" using s(3,5) by (auto simp: child_ok_def)
    obtain ok' al0 where al: "ksl_alloc al = (ok', al0)" by force
    show ?thesis
    proof (cases ok')
      case False
      then have e: "ksl_insert_last al (Node cs) key data = Ok (Node cs, Ins_nomem, al0)"
        using True al cs by simp
      show ?thesis unfolding b by (rule ins_okI [OF e])
        (use Suc.prems b alloc_sub [OF al] False in \<open>auto simp: ins_spec_def\<close>)
    next
      case ok': True
      from Suc.IH [OF B key'(1)] obtain b' r al' where
        r: "ksl_insert_last al0 rb key data = Ok (b', r, al')" "blk_ok lt h b'" "blk_n rb \<le> blk_n b'"
        "kset b' \<subseteq> insert key (kset rb)" "ins_spec lt (elems rb) key data (elems b') r (leaves b')"
        and m: "r = Ins_nomem \<longrightarrow> False \<in> set al0" "set al' \<subseteq> set al0"
        unfolding ins_ok_def by blast
      have e: "ksl_insert_last al (Node cs) key data =
          Ok (Node ((us @ [(kl, l)]) @ [(key, b')]), ins_shift (us @ [(kl, l)]) r, al')"
        using True ok' al s(1) r(1) cs by (simp add: butlast_append)
      have "children_ok lt h ((us @ [(kl, l)]) @ [(key, b')])"
        by (rule last_child_ok [OF s3 r(2-4) key'(1)])
      with ins_spec_ctx [OF r(5) key'(2), of "[]" key] show ?thesis
        unfolding b by (intro ins_okI [OF e])
          (use m r(4) alloc_sub [OF al] cs len s(2,6,7) in \<open>auto simp del: leaves.simps\<close>)
    qed
  qed
qed

lemma insert_child_ok:
  assumes ok: "children_ok lt h (xs @ (k, b) # ys)" and len: "length xs + length ys < 32"
    and lo: "\<forall>c \<in> set xs. lt (fst c) key" and hi: "key = k \<or> lt key k"
    and r: "blk_ok lt h b'" "blk_n b \<le> blk_n b'" and K: "kset b' \<subseteq> insert key (kset b)"
    and s: "ins_spec lt (elems b) key data (elems b') r (leaves b')"
  shows "blk_ok lt (Suc h) (Node (xs @ (k, b') # ys))"
    and "ins_spec lt (elems (Node (xs @ (k, b) # ys))) key data (elems (Node (xs @ (k, b') # ys)))
      (ins_shift xs r) (leaves (Node (xs @ (k, b') # ys)))"
proof -
  have "children_ok lt h (xs @ (k, b') # ys)"
  proof (rule replace_child_ok [OF ok])
    show "child_ok lt h (k, b')" using ok r(1,2) K hi by (auto simp: child_ok_def)
    show "lt (fst c) x" if "c \<in> set xs" "x \<in> kset b'" for c x
      using ok lo that K by auto
  qed (use ok in auto)
  then show "blk_ok lt (Suc h) (Node (xs @ (k, b') # ys))" using len by simp
  have A: "\<forall>x \<in> fst ` set (elems_list xs). lt x key"
  proof
    fix x assume "x \<in> fst ` set (elems_list xs)"
    then obtain c where c: "c \<in> set xs" "x \<in> kset (snd c)" using elems_list_kset by fastforce
    then have "x = fst c \<or> lt x (fst c)" using ok children_ok_child [of lt h xs c] by (auto simp: child_ok_def)
    then show "lt x key" by (rule le_less) (use lo c(1) in simp)
  qed
  have B: "\<forall>x \<in> fst ` set (elems_list ys). lt key x"
  proof
    fix x assume "x \<in> fst ` set (elems_list ys)"
    then have "lt k x" using ok elems_list_kset [of _ ys] by fastforce
    then show "lt key x" by (rule le_less [OF hi])
  qed
  show "ins_spec lt (elems (Node (xs @ (k, b) # ys))) key data (elems (Node (xs @ (k, b') # ys)))
      (ins_shift xs r) (leaves (Node (xs @ (k, b') # ys)))"
    using ins_spec_ctx [OF s A B, of k] by (simp del: leaves.simps)
qed

lemma search_split:
  assumes "ksl_search cmp (Node cs) key < length cs" "\<forall>x \<in> kset (Node cs). agrees lt cmp x key"
  obtains xs k b ys where "cs = xs @ (k, b) # ys" "ksl_search cmp (Node cs) key = length xs"
    "\<forall>c \<in> set xs. lt (fst c) key" "key = k \<or> lt key k"
proof -
  let ?P = "\<lambda>c. cmp (fst c) key"
  have i: "ksl_search cmp (Node cs) key = length (takeWhile ?P cs)"
    by (simp add: ksl_search_def takeWhile_map comp_def)
  with assms obtain c ys where d: "dropWhile ?P cs = c # ys"
    by (metis append_Nil2 neq_Nil_conv takeWhile_dropWhile_id less_irrefl)
  then have "\<not> ?P c" by (metis hd_dropWhile list.discI list.sel(1))
  moreover have cs: "cs = takeWhile ?P cs @ c # ys" using d takeWhile_dropWhile_id [of ?P cs] by simp
  moreover have "c \<in> set cs" by (subst cs) simp
  then have "agrees lt cmp (fst c) key" using assms(2) by auto
  moreover have "\<forall>c \<in> set (takeWhile ?P cs). lt (fst c) key"
    using assms(2) by (auto simp: agrees_def dest!: set_takeWhileD)
  ultimately show thesis using that [of "takeWhile ?P cs" "fst c" "snd c" ys] i by (auto simp: agrees_def)
qed

lemma search_all:
  assumes "ksl_search cmp (Node cs) key = length cs" "\<forall>x \<in> kset (Node cs). agrees lt cmp x key"
  shows "\<forall>c \<in> set cs. lt (fst c) key"
proof -
  let ?P = "\<lambda>c. cmp (fst c) key"
  have "length (takeWhile ?P cs) = length cs"
    using assms(1) by (simp add: ksl_search_def takeWhile_map comp_def)
  then have "takeWhile ?P cs = cs"
    using takeWhile_eq_take [of ?P cs] by simp
  then have "\<forall>c \<in> set cs. ?P c" using set_takeWhileD [of _ ?P cs] by fastforce
  then show ?thesis using assms(2) by (auto simp: agrees_def)
qed

lemma leaf_search:
  assumes "sorted_wrt lt (map fst es)" "\<forall>x \<in> fst ` set es. agrees lt cmp x key"
  obtains xs ys where "es = xs @ ys" "ksl_search cmp (Leaf es) key = length xs"
    "\<forall>x \<in> fst ` set xs. lt x key" "\<forall>y \<in> fst ` set ys. key = y \<or> lt key y"
proof -
  let ?P = "\<lambda>e. cmp (fst e) key"
  have ys: "\<forall>e \<in> set (dropWhile ?P es). key = fst e \<or> lt key (fst e)"
  proof (cases "dropWhile ?P es")
    case (Cons y zs)
    have es: "es = takeWhile ?P es @ y # zs" using Cons takeWhile_dropWhile_id [of ?P es] by simp
    have "\<not> ?P y" by (metis Cons hd_dropWhile list.discI list.sel(1))
    moreover have "y \<in> set es" by (subst es) simp
    ultimately have y: "key = fst y \<or> lt key (fst y)" using assms(2) by (auto simp: agrees_def)
    moreover have "sorted_wrt lt (map fst (takeWhile ?P es @ y # zs))" using assms(1) es by simp
    ultimately show ?thesis unfolding Cons using lt_trans by (auto simp: sorted_wrt_append)
  next
    case Nil
    show ?thesis unfolding Nil by simp
  qed
  show thesis
    by (rule that [of "takeWhile ?P es" "dropWhile ?P es"])
      (use ys assms(2) in \<open>auto simp: ksl_search_def takeWhile_map comp_def agrees_def dest: set_takeWhileD simp del: dropWhile_eq_Nil_conv\<close>)
qed

lemma leaf_insert_ok:
  assumes "sorted_wrt lt (map fst es)" "length es < 32" "\<forall>x \<in> fst ` set es. agrees lt cmp x key"
  shows "ins_ok lt al 0 (Leaf es) key data (ksl_insert_loop cmp al (Leaf es) key data)"
proof -
  obtain xs ys where es: "es = xs @ ys" and i: "ksl_search cmp (Leaf es) key = length xs"
    and xs: "\<forall>x \<in> fst ` set xs. lt x key" and ys: "\<forall>y \<in> fst ` set ys. key = y \<or> lt key y"
    by (rule leaf_search [OF assms(1,3)])
  show ?thesis
  proof (cases "ys \<noteq> [] \<and> key = fst (hd ys)")
    case True
    then have "\<not> cmp key (fst (es ! length xs))" "length xs < length es" "key \<in> fst ` set es"
      using es assms(3) by (cases ys; simp add: agrees_def)+
    then show ?thesis using assms by (simp add: ins_ok_def i ins_spec_def subset_insertI)
  next
    case False
    have c: "\<not> (length xs < length es \<and> \<not> cmp key (fst (es ! length xs)))"
      using False es ys assms(3) by (cases ys) (auto simp: agrees_def)
    have ys: "\<forall>y \<in> fst ` set ys. lt key y"
      using False ys assms(1) es lt_trans by (cases ys) (auto simp: sorted_wrt_append)
    have "sorted_wrt lt (map fst (xs @ (key, data) # ys))"
      using assms es xs ys by (auto simp: sorted_wrt_append)
    moreover have "ins_spec lt es key data (xs @ (key, data) # ys) (Ins_at (0, length xs)) [xs @ (key, data) # ys]"
      unfolding ins_spec_def ins_result.case
      by (rule exI [of _ xs], rule exI [of _ ys]) (use es xs ys in \<open>auto simp: it_at_def\<close>)
    moreover have "ksl_insert_loop cmp al (Leaf es) key data = Ok (Leaf (xs @ (key, data) # ys), Ins_at (0, length xs), al)"
      using assms(2) c i es by (auto simp: ksl_insert_node_def)
    moreover have "length xs + length ys < 32" using assms(2) es by simp
    ultimately show ?thesis unfolding es by (intro ins_okI) auto
  qed
qed

lemma insert_loop_ok:
  assumes "blk_ok lt h b" "blk_n b < 32" "\<forall>x \<in> kset b. agrees lt cmp x key"
  shows "ins_ok lt al h b key data (ksl_insert_loop cmp al b key data)"
  using assms
proof (induction h arbitrary: b al)
  case 0
  then show ?case using blk_ok_0 leaf_insert_ok by fastforce
next
  case (Suc h)
  then obtain cs where b: "b = Node cs" using blk_ok_Suc by blast
  have ok: "children_ok lt h cs" and len: "length cs < 32" using Suc.prems b by auto
  have ag: "\<forall>x \<in> kset (Node cs). agrees lt cmp x key" using Suc.prems b by simp
  let ?i = "ksl_search cmp (Node cs) key"
  show ?case
  proof (cases "?i = length cs")
    case True
    have "lt x key" if "x \<in> kset (Node cs)" for x
      using that search_all [OF True ag] children_ok_child [OF ok] le_less by (fastforce simp: child_ok_def)
    then have "ins_ok lt al (Suc h) (Node cs) key data (ksl_insert_last al (Node cs) key data)"
      using insert_last_ok [OF Suc.prems(1,2)] b by blast
    then show ?thesis using True b by (simp del: ksl_insert_last.simps)
  next
    case False
    then have "?i < length cs" using search_le [of cmp "Node cs" key] by simp
    then obtain xs k c ys where cs: "cs = xs @ (k, c) # ys" and i: "?i = length xs"
      and lo: "\<forall>c \<in> set xs. lt (fst c) key" and hi: "key = k \<or> lt key k"
      by (rule search_split [OF _ ag])
    have i': "ksl_search cmp (Node (xs @ (k, c) # ys)) key = length xs" using i cs by simp
    have agc: "\<forall>x \<in> kset c. agrees lt cmp x key" using ag cs by auto
    show ?thesis
    proof (cases "blk_n c = 32")
      case full: False
      have "blk_ok lt h c" "blk_n c < 32" using ok cs full by (auto simp: child_ok_def elim: blk_ok.elims)
      from Suc.IH [OF this agc] obtain b' r al' where
        r: "ksl_insert_loop cmp al c key data = Ok (b', r, al')" "blk_ok lt h b'" "blk_n c \<le> blk_n b'"
        "kset b' \<subseteq> insert key (kset c)" "ins_spec lt (elems c) key data (elems b') r (leaves b')"
        and m: "r = Ins_nomem \<longrightarrow> False \<in> set al" "set al' \<subseteq> set al"
        unfolding ins_ok_def by blast
      have e: "ksl_insert_loop cmp al (Node cs) key data = Ok (Node (xs @ (k, b') # ys), ins_shift xs r, al')"
        using full r(1) i' by (simp add: cs put_child_def)
      have "length xs + length ys < 32" using len cs by simp
      from insert_child_ok [OF ok [unfolded cs] this lo hi r(2-5)] show ?thesis
        unfolding b cs by (intro ins_okI [OF e [unfolded cs]])
          (use m r(4) in \<open>auto simp del: leaves.simps elems_simps blk_ok_Node\<close>)
    next
      case full: True
      obtain l rb kl where s: "ksl_split_node (xs @ (k, c) # ys) (length xs) = Ok (xs @ (kl, l) # (k, rb) # ys)"
        "elems c = elems l @ elems rb" "children_ok lt h (xs @ (kl, l) # (k, rb) # ys)" "blk_n l = 16" "blk_n rb = 16"
        "kset c = kset l \<union> kset rb" "kl \<in> kset l"
        by (rule split_child_ok [OF ok [unfolded cs] full])
      have B: "blk_ok lt h l" "blk_n l < 32" "blk_ok lt h rb" "blk_n rb < 32" using s by (auto simp: child_ok_def)
      obtain ok' al0 where al: "ksl_alloc al = (ok', al0)" by force
      have E: "elems (Node cs) = elems (Node (xs @ (kl, l) # (k, rb) # ys))" using s(2) cs by simp
      have akl: "agrees lt cmp kl key" using agc s(6,7) by auto
      consider "\<not> ok'" | "ok'" "cmp kl key" | "ok'" "\<not> cmp kl key" by blast
      then show ?thesis
      proof cases
        case 1
        then have e: "ksl_insert_loop cmp al (Node cs) key data = Ok (Node cs, Ins_nomem, al0)"
          using full al i' by (simp add: cs)
        show ?thesis unfolding b by (rule ins_okI [OF e]) (use Suc.prems b alloc_sub [OF al] 1 in \<open>auto simp: ins_spec_def\<close>)
      next
        case 2
        from Suc.IH [OF B(3,4)] agc s(6) obtain b' r al' where
          r: "ksl_insert_loop cmp al0 rb key data = Ok (b', r, al')" "blk_ok lt h b'" "blk_n rb \<le> blk_n b'"
          "kset b' \<subseteq> insert key (kset rb)" "ins_spec lt (elems rb) key data (elems b') r (leaves b')"
          and m: "r = Ins_nomem \<longrightarrow> False \<in> set al0" "set al' \<subseteq> set al0"
          unfolding ins_ok_def by blast
        have e: "ksl_insert_loop cmp al (Node cs) key data =
            Ok (Node ((xs @ [(kl, l)]) @ (k, b') # ys), ins_shift (xs @ [(kl, l)]) r, al')"
          using full r(1) i' al s(1) 2 by (simp add: cs put_child_def nth_append)
        have "children_ok lt h ((xs @ [(kl, l)]) @ (k, rb) # ys)" "length (xs @ [(kl, l)]) + length ys < 32"
          "\<forall>c \<in> set (xs @ [(kl, l)]). lt (fst c) key"
          using s(3) len cs lo 2 akl by (simp_all add: agrees_def)
        from insert_child_ok [OF this hi r(2-5)] show ?thesis
          unfolding b by (intro ins_okI [OF e])
            (use E cs m r(4) s(6,7) alloc_sub [OF al] in \<open>auto simp del: leaves.simps elems_simps blk_ok_Node\<close>)
      next
        case 3
        from Suc.IH [OF B(1,2)] agc s(6) obtain b' r al' where
          r: "ksl_insert_loop cmp al0 l key data = Ok (b', r, al')" "blk_ok lt h b'" "blk_n l \<le> blk_n b'"
          "kset b' \<subseteq> insert key (kset l)" "ins_spec lt (elems l) key data (elems b') r (leaves b')"
          and m: "r = Ins_nomem \<longrightarrow> False \<in> set al0" "set al' \<subseteq> set al0"
          unfolding ins_ok_def by blast
        have e: "ksl_insert_loop cmp al (Node cs) key data =
            Ok (Node (xs @ (kl, b') # (k, rb) # ys), ins_shift xs r, al')"
          using full r(1) i' al s(1) 3 by (simp add: cs put_child_def nth_append)
        have "length xs + length ((k, rb) # ys) < 32" "key = kl \<or> lt key kl"
          using len cs 3 akl by (auto simp: agrees_def)
        from insert_child_ok [OF s(3) this(1) lo this(2) r(2-5)] show ?thesis
          unfolding b by (intro ins_okI [OF e])
            (use E cs m r(4) s(6,7) alloc_sub [OF al] in \<open>auto simp del: leaves.simps elems_simps blk_ok_Node\<close>)
      qed
    qed
  qed
qed

lemma insert_root_ok:
  assumes ok: "\<not> ksl_stale ksl" "ksl_n ksl = length (elems root)" "ksl_elems ksl = elems root"
    and root: "blk_ok lt h root" "blk_n root < 32" "root_ok root" and K: "kset root = ksl_keys ksl"
    and ag: "\<forall>x \<in> ksl_keys ksl. agrees lt cmp x key"
  obtains ksl' rv it al' where "ksl_insert_root cmp al ksl root key data = Ok (ksl', rv, it, al')"
    "ksl_insert_spec lt al ksl key data ksl' rv it"
proof -
  obtain b r al' where r: "ksl_insert_loop cmp al root key data = Ok (b, r, al')" "blk_ok lt h b" "blk_n root \<le> blk_n b"
    "ins_spec lt (elems root) key data (elems b) r (leaves b)" "r = Ins_nomem \<longrightarrow> False \<in> set al"
    "kset b \<subseteq> insert key (kset root)"
    using insert_loop_ok [OF root(1,2)] ag K unfolding ins_ok_def by blast
  have K': "ksl_keys (ksl\<lparr>ksl_root := Some b\<rparr>) \<subseteq> insert key (ksl_keys ksl)" using r(6) K by (simp add: ksl_keys_def)
  have rt: "root_ok b" using root r(2,3) by (cases h; cases b; cases root) auto
  show thesis
  proof (cases r)
    case (Ins_at i)
    then obtain xs ys where e: "elems root = xs @ ys" "elems b = xs @ (key, data) # ys"
      "\<forall>x \<in> fst ` set xs. lt x key" "\<forall>y \<in> fst ` set ys. lt key y" "it_at (leaves b) i (length xs)"
      using r(4) by (auto simp: ins_spec_def)
    let ?ksl = "ksl\<lparr>ksl_root := Some b, ksl_n := ksl_n ksl + 1\<rparr>"
    have "ksl_ok lt ?ksl" by (rule ksl_okI) (use ok e r rt in \<open>auto simp: ksl_elems_def\<close>)
    moreover have "ksl_elems ?ksl = elems b" "ksl_front_back ?ksl = leaves b"
      "ksl_keys ?ksl \<subseteq> insert key (ksl_keys ksl)" using K' by (simp_all add: ksl_elems_def ksl_keys_def)
    ultimately have "ksl_insert_spec lt al ksl key data ?ksl None (Some i)"
      unfolding ksl_insert_spec_def ok(3) using e by (intro disjI1) (simp del: leaves.simps, blast)
    then show thesis by (rule that [rotated]) (simp add: ksl_insert_root_def r(1) Ins_at Let_def)
  next
    case Ins_exists
    let ?ksl = "ksl\<lparr>ksl_root := Some b\<rparr>"
    have "ksl_ok lt ?ksl" by (rule ksl_okI) (use ok Ins_exists r rt in \<open>auto simp: ksl_elems_def ins_spec_def\<close>)
    then have "ksl_insert_spec lt al ksl key data ?ksl (Some NGTCP2_ERR_INVALID_ARGUMENT) it" for it
      using r(4) ok K' unfolding Ins_exists by (simp add: ksl_insert_spec_def ins_spec_def ksl_elems_def)
    then show thesis by (rule that [rotated]) (simp add: ksl_insert_root_def r(1) Ins_exists Let_def ngtcp2_ksl_end_def ok)
  next
    case Ins_nomem
    let ?ksl = "ksl\<lparr>ksl_root := Some b\<rparr>"
    have "ksl_ok lt ?ksl" by (rule ksl_okI) (use ok Ins_nomem r rt in \<open>auto simp: ksl_elems_def ins_spec_def\<close>)
    then have "ksl_insert_spec lt al ksl key data ?ksl (Some NGTCP2_ERR_NOMEM) None"
      using r(4,5) ok K' unfolding Ins_nomem by (simp add: ksl_insert_spec_def ins_spec_def ksl_elems_def)
    then show thesis by (rule that [rotated]) (simp add: ksl_insert_root_def r(1) Ins_nomem Let_def)
  qed
qed

lemma insert_spec_alloc:
  "set al' \<subseteq> set al \<Longrightarrow> ksl_insert_spec lt al' ksl key data ksl' rv it \<Longrightarrow> ksl_insert_spec lt al ksl key data ksl' rv it"
  unfolding ksl_insert_spec_def by blast

lemma insert_spec_nomem: "ksl_ok lt ksl \<Longrightarrow> False \<in> set al \<Longrightarrow>
    ksl_insert_spec lt al ksl key data ksl (Some NGTCP2_ERR_NOMEM) None"
  by (auto simp: ksl_insert_spec_def)

lemma ksl_insert_ok:
  assumes ok: "ksl_ok lt ksl" and ag: "\<forall>x \<in> ksl_keys ksl. agrees lt cmp x key"
  shows "\<exists>ksl' rv it al'. ngtcp2_ksl_insert cmp al ksl key data = Ok (ksl', rv, it, al') \<and>
    ksl_insert_spec lt al ksl key data ksl' rv it"
proof -
  have ns: "\<not> ksl_stale ksl" using ok by (simp add: ksl_ok_def)
  obtain ok1 al1 where al: "ksl_alloc al = (ok1, al1)" by force
  obtain ok2 al2 where al2: "ksl_alloc al1 = (ok2, al2)" by force
  have A: "set al1 \<subseteq> set al" "set al2 \<subseteq> set al" using alloc_sub [OF al] alloc_sub [OF al2] by auto
  show ?thesis
  proof (cases "ksl_root ksl")
    case None
    have e: "ksl_elems ksl = []" "ksl_n ksl = 0" using ok None by (auto simp: ksl_ok_def ksl_elems_def)
    obtain ksl' rv it al' where "ksl_insert_root cmp al1 ksl (Leaf []) key data = Ok (ksl', rv, it, al')"
      "ksl_insert_spec lt al1 ksl key data ksl' rv it"
      by (rule insert_root_ok [of ksl "Leaf []" 0]) (use e ns ag None in \<open>auto simp: ksl_keys_def\<close>)
    then show ?thesis
      using None ns al insert_spec_alloc [OF A(1)] insert_spec_nomem [OF ok] alloc_sub [OF al]
      by (cases ok1) (auto simp: ngtcp2_ksl_insert_def)
  next
    case (Some root)
    have b: "blk_ok lt (blk_height root) root" "root_ok root" "ksl_n ksl = length (elems root)" "ksl_elems ksl = elems root"
      using ok Some by (auto simp: ksl_ok_def ksl_elems_def)
    show ?thesis
    proof (cases "blk_n root = 32")
      case False
      then have "blk_n root < 32" using b(1) by (auto elim: blk_ok.elims)
      then obtain ksl' rv it al' where "ksl_insert_root cmp al ksl root key data = Ok (ksl', rv, it, al')"
        "ksl_insert_spec lt al ksl key data ksl' rv it"
        by (rule insert_root_ok [OF ns b(3,4,1) _ b(2) _ ag]) (simp add: ksl_keys_def Some)
      then show ?thesis using Some ns False by (simp add: ngtcp2_ksl_insert_def)
    next
      case True
      obtain l r k where s: "ksl_split_blk root = Ok (l, r)" "blk_last_key l = Ok k" "elems root = elems l @ elems r"
        "blk_ok lt (blk_height root) l" "blk_ok lt (blk_height root) r" "blk_n l = 16" "blk_n r = 16"
        "kset root = kset l \<union> kset r" "k \<in> kset l" "\<forall>x \<in> kset l. x = k \<or> lt x k" "\<forall>x \<in> kset r. lt k x"
        by (rule split_blk_ok [OF b(1) True])
      obtain kr where kr: "blk_last_key r = Ok kr" "kr \<in> kset r" "\<forall>x \<in> kset r. x = kr \<or> lt x kr"
        using last_key_bound [OF s(5)] s(7) by auto
      let ?root = "Node [(k, l), (kr, r)]"
      have "blk_ok lt (Suc (blk_height root)) ?root" using s kr by (auto simp: child_ok_def)
      then obtain ksl' rv it al' where i: "ksl_insert_root cmp al2 ksl ?root key data = Ok (ksl', rv, it, al')"
        "ksl_insert_spec lt al2 ksl key data ksl' rv it"
        by (rule insert_root_ok [of ksl ?root, rotated 3])
          (use ns b s kr Some ag in \<open>auto simp: ksl_keys_def\<close>)
      show ?thesis
        using i Some ns True al al2 s(1,2) kr(1) insert_spec_alloc [OF A(2) i(2)] insert_spec_nomem [OF ok]
          alloc_sub [OF al] alloc_sub [OF al2]
        by (cases ok1; cases ok2) (auto simp: ngtcp2_ksl_insert_def ksl_insert_spec_def)
    qed
  qed
qed

end

end
