(* ===== verification/Ksl_Search.thy ===== *)
theory Ksl_Search
  imports Ksl_Insert
begin

text \<open>
  Iterators and searches of \<open>Ksl\<close>, in terms of the sorted list: an iterator stands for a position
  in the list, \<open>ngtcp2_ksl_it_next\<close> and \<open>ngtcp2_ksl_it_prev\<close> move it by one, and a lower bound is the
  number of the nodes the search passes.
\<close>

section \<open>Positions\<close>

text \<open>
  \<open>it_pos\<close>: the iterator is before node \<open>p\<close>, and may be at the end of a leaf block. \<open>it_std\<close>: it is
  at the end of a leaf block only if this is the last one.
\<close>

definition it_pos :: "('k \<times> 'v) list list \<Rightarrow> ksl_it \<Rightarrow> nat \<Rightarrow> bool" where
  "it_pos ls it p = (fst it < length ls \<and> snd it \<le> length (ls ! fst it) \<and>
     length (concat (take (fst it) ls)) + snd it = p)"

definition it_std :: "('k \<times> 'v) list list \<Rightarrow> ksl_it \<Rightarrow> nat \<Rightarrow> bool" where
  "it_std ls it p = (it_pos ls it p \<and> (snd it = length (ls ! fst it) \<longrightarrow> fst it + 1 = length ls))"

definition ksl_it_at :: "('k, 'v) ngtcp2_ksl \<Rightarrow> ksl_it \<Rightarrow> nat \<Rightarrow> bool" where
  "ksl_it_at ksl it p =
     (case ksl_root ksl of None \<Rightarrow> it = (0, 0) \<and> p = 0 | Some b \<Rightarrow> it_std (leaves b) it p)"

lemma it_pos_append:
  "it_pos ls it p \<Longrightarrow> it_pos (ls0 @ ls @ ls1) (length ls0 + fst it, snd it) (length (concat ls0) + p)"
  by (auto simp: it_pos_def nth_append)

lemma it_pos_shift:
  "it_pos (leaves b) it p \<Longrightarrow>
     it_pos (leaves (Node (xs @ (k, b) # ys))) (it_shift xs it) (length (elems_list xs) + p)"
  using it_pos_append [of "leaves b" it p "leaves_list xs" "leaves_list ys"]
  by (simp add: leaves_Node it_shift_def leaves_list_def [symmetric] del: leaves.simps)

lemma concat_take_Suc: "l < length ls \<Longrightarrow> length (concat (take (Suc l) ls)) = length (concat (take l ls)) + length (ls ! l)"
  by (simp add: take_Suc_conv_app_nth)

lemma concat_take_le: "length (concat (take l ls)) \<le> length (concat ls)"
  by (metis append_take_drop_id concat_append length_append le_add1)

lemma it_at_std: "it_at ls it p \<Longrightarrow> it_std ls it p"
  by (auto simp: it_at_def it_std_def it_pos_def)

lemma it_std_end: "it_std ls it p \<Longrightarrow> p \<le> length (concat ls)"
  using concat_take_Suc [of "fst it" ls] concat_take_le [of "Suc (fst it)" ls]
  by (auto simp: it_std_def it_pos_def)

lemma it_std_at:
  assumes "it_std ls it p" "p < length (concat ls)"
  shows "it_at ls it p"
proof -
  have "snd it \<noteq> length (ls ! fst it)"
  proof
    assume e: "snd it = length (ls ! fst it)"
    with assms have l: "Suc (fst it) = length ls" by (simp add: it_std_def)
    then have "length (concat ls) = length (concat (take (fst it) ls)) + length (ls ! fst it)"
      using concat_take_Suc [of "fst it" ls] by simp
    with assms e show False by (simp add: it_std_def it_pos_def)
  qed
  then show ?thesis using assms by (auto simp: it_std_def it_pos_def it_at_def)
qed

lemma it_fix_std:
  assumes "it_pos ls it p" "length ls \<le> 1 \<or> [] \<notin> set ls"
  shows "it_std ls (it_fix ls it) p"
proof (cases "snd it = length (ls ! fst it) \<and> fst it + 1 < length ls")
  case True
  then have "ls ! (fst it + 1) \<in> set ls" by simp
  moreover have "[] \<notin> set ls" using True assms(2) by linarith
  ultimately have "ls ! (fst it + 1) \<noteq> []" by metis
  then show ?thesis using True assms(1) concat_take_Suc [of "fst it" ls]
    by (auto simp: it_fix_def it_std_def it_pos_def)
qed (use assms(1) in \<open>auto simp: it_fix_def it_std_def it_pos_def\<close>)

text \<open>Only the root can be an empty leaf.\<close>

lemma leaves_nonempty: "blk_ok lt h b \<Longrightarrow> 0 < blk_n b \<Longrightarrow> [] \<notin> set (leaves b)"
proof (induction h arbitrary: b)
  case 0
  then show ?case using blk_ok_0 by fastforce
next
  case (Suc h)
  then obtain cs where b: "b = Node cs" using blk_ok_Suc by blast
  have "[] \<notin> set (leaves (snd c))" if "c \<in> set cs" for c
    using Suc.IH [of "snd c"] Suc.prems(1) b that children_ok_child [of lt h cs c] by (auto simp: child_ok_def)
  then show ?case using b by auto
qed

lemma leaves_not_Nil: "blk_ok lt h b \<Longrightarrow> leaves b \<noteq> []"
proof (induction h arbitrary: b)
  case 0
  then show ?case using blk_ok_0 by fastforce
next
  case (Suc h)
  then obtain c cs where b: "b = Node (c # cs)" using blk_ok_Suc
    by (metis blk_ok_Node list.exhaust)
  then show ?case using Suc.IH [of "snd c"] Suc.prems by (auto simp: child_ok_def)
qed

lemma leaves_chain: "blk_ok lt h b \<Longrightarrow> length (leaves b) \<le> 1 \<or> [] \<notin> set (leaves b)"
  using leaves_nonempty [of lt h b] by (cases h; cases b) auto

lemma it_pos_last:
  assumes "ls \<noteq> []"
  shows "it_pos ls (length ls - 1, length (last ls)) (length (concat ls))"
proof -
  obtain xs x where "ls = xs @ [x]" using assms by (cases ls rule: rev_cases) auto
  then show ?thesis by (simp add: it_pos_def)
qed

section \<open>Iterators\<close>

lemma ksl_root_ok: "ksl_ok lt ksl \<Longrightarrow> ksl_root ksl = Some b \<Longrightarrow> blk_ok lt (blk_height b) b"
  by (simp add: ksl_ok_def)

lemma ksl_len: "ksl_ok lt ksl \<Longrightarrow> ngtcp2_ksl_len ksl = length (ksl_elems ksl)"
  by (simp add: ksl_ok_def ngtcp2_ksl_len_def)

lemma ksl_it_at_le: "ksl_it_at ksl it p \<Longrightarrow> p \<le> length (ksl_elems ksl)"
  by (auto simp: ksl_it_at_def ksl_elems_def split: option.splits dest: it_std_end)

lemma ksl_begin_at:
  assumes "ksl_ok lt ksl" shows "ksl_it_at ksl (ngtcp2_ksl_begin ksl) 0"
proof (cases "ksl_root ksl")
  case (Some b)
  note ok = ksl_root_ok [OF assms Some]
  obtain l ls where l: "leaves b = l # ls" using leaves_not_Nil [OF ok] by (cases "leaves b") auto
  then show ?thesis using Some leaves_chain [OF ok]
    by (auto simp: ksl_it_at_def ngtcp2_ksl_begin_def it_std_def it_pos_def)
qed (simp add: ksl_it_at_def ngtcp2_ksl_begin_def)

lemma ksl_end_at:
  assumes "ksl_ok lt ksl"
  shows "\<exists>it. ngtcp2_ksl_end ksl = Ok it \<and> ksl_it_at ksl it (length (ksl_elems ksl))"
proof (cases "ksl_root ksl")
  case (Some b)
  have "leaves b \<noteq> []" using ksl_root_ok [OF assms Some] by (rule leaves_not_Nil)
  then show ?thesis using Some assms it_pos_last [of "leaves b"]
    by (simp add: ksl_it_at_def ngtcp2_ksl_end_def ksl_elems_def it_std_def ksl_ok_def last_conv_nth)
qed (use assms in \<open>simp add: ksl_it_at_def ngtcp2_ksl_end_def ksl_elems_def ksl_ok_def\<close>)

lemma ksl_it_end:
  assumes "ksl_it_at ksl it p"
  shows "ngtcp2_ksl_it_end ksl it \<longleftrightarrow> p = length (ksl_elems ksl)"
proof (cases "ksl_root ksl")
  case (Some b)
  then have s: "it_std (leaves b) it p" using assms by (simp add: ksl_it_at_def)
  have "p = length (concat (leaves b)) \<longleftrightarrow> snd it = length (leaves b ! fst it)"
  proof
    assume e: "snd it = length (leaves b ! fst it)"
    then have "Suc (fst it) = length (leaves b)" using s by (simp add: it_std_def)
    then show "p = length (concat (leaves b))"
      using s e concat_take_Suc [of "fst it" "leaves b"] by (simp add: it_std_def it_pos_def)
  next
    assume p: "p = length (concat (leaves b))"
    show "snd it = length (leaves b ! fst it)"
      using s p concat_take_Suc [of "fst it" "leaves b"] concat_take_le [of "Suc (fst it)" "leaves b"]
      by (auto simp: it_std_def it_pos_def)
  qed
  then show ?thesis using Some s
    by (auto simp: ngtcp2_ksl_it_end_def it_blk_n_def it_has_next_def ksl_elems_def it_std_def it_pos_def)
qed (use assms in \<open>simp add: ksl_it_at_def ngtcp2_ksl_it_end_def it_blk_n_def it_has_next_def ksl_elems_def\<close>)

lemma ksl_it_begin: 
  assumes "ksl_ok lt ksl" "ksl_it_at ksl it p"
  shows "ngtcp2_ksl_it_begin it \<longleftrightarrow> p = 0"
proof (cases "ksl_root ksl")
  case (Some b)
  note ok = ksl_root_ok [OF assms(1) Some]
  have s: "it_std (leaves b) it p" using Some assms by (simp add: ksl_it_at_def)
  have "fst it = 0" if "concat (take (fst it) (leaves b)) = []"
  proof (rule ccontr)
    assume "fst it \<noteq> 0"
    with s leaves_chain [OF ok] have "[] \<notin> set (leaves b)" "leaves b ! 0 \<in> set (take (fst it) (leaves b))"
      by (auto simp: it_std_def it_pos_def in_set_conv_nth intro!: exI [of _ 0])
    with that show False by (metis concat_eq_Nil_conv in_set_takeD)
  qed
  then show ?thesis using s by (auto simp: ngtcp2_ksl_it_begin_def it_std_def it_pos_def)
qed (use assms in \<open>simp add: ksl_it_at_def ngtcp2_ksl_it_begin_def\<close>)

lemma ksl_it_entry:
  assumes "ksl_it_at ksl it p" "p < length (ksl_elems ksl)"
  shows "it_entry ksl it = Ok (ksl_elems ksl ! p)"
proof (cases "ksl_root ksl")
  case (Some b)
  have at: "it_at (leaves b) it p" using assms Some by (simp add: ksl_it_at_def ksl_elems_def it_std_at)
  show ?thesis using at it_at_entry [OF at] Some
    by (simp add: it_entry_def it_blk_n_def ksl_elems_def it_at_def)
qed (use assms in \<open>simp add: ksl_elems_def\<close>)

lemma ksl_it_key:
  "ksl_it_at ksl it p \<Longrightarrow> p < length (ksl_elems ksl) \<Longrightarrow> ngtcp2_ksl_it_key ksl it = Ok (fst (ksl_elems ksl ! p))"
  by (simp add: ngtcp2_ksl_it_key_def ksl_it_entry)

lemma ksl_it_get:
  "ksl_it_at ksl it p \<Longrightarrow> p < length (ksl_elems ksl) \<Longrightarrow> ngtcp2_ksl_it_get ksl it = Ok (snd (ksl_elems ksl ! p))"
  by (simp add: ngtcp2_ksl_it_get_def ksl_it_entry)

lemma ksl_it_next:
  assumes "ksl_ok lt ksl" "ksl_it_at ksl it p" "p < length (ksl_elems ksl)"
  shows "ksl_it_at ksl (ngtcp2_ksl_it_next ksl it) (p + 1)"
proof (cases "ksl_root ksl")
  case (Some b)
  note ok = ksl_root_ok [OF assms(1) Some]
  have at: "it_at (leaves b) it p" using assms Some by (simp add: ksl_it_at_def ksl_elems_def it_std_at)
  then have "it_pos (leaves b) (fst it, snd it + 1) (p + 1)" by (auto simp: it_at_def it_pos_def)
  from it_fix_std [OF this leaves_chain [OF ok]]
  have "it_std (leaves b) (it_fix (leaves b) (fst it, snd it + 1)) (p + 1)" .
  then show ?thesis using at Some
    by (simp add: ksl_it_at_def ngtcp2_ksl_it_next_def it_fix_def it_blk_n_def it_has_next_def it_at_def cong: if_cong split: if_splits)
qed (use assms in \<open>simp add: ksl_elems_def\<close>)

lemma ksl_it_prev:
  assumes "ksl_ok lt ksl" "ksl_it_at ksl it (Suc p)"
  shows "\<exists>it'. ngtcp2_ksl_it_prev ksl it = Ok it' \<and> ksl_it_at ksl it' p"
proof (cases "ksl_root ksl")
  case (Some b)
  note ok = ksl_root_ok [OF assms(1) Some]
  have s: "it_std (leaves b) it (Suc p)" using Some assms by (simp add: ksl_it_at_def)
  have nb: "\<not> ngtcp2_ksl_it_begin it" using ksl_it_begin [OF assms] by simp
  show ?thesis
  proof (cases "snd it = 0")
    case True
    then have f: "0 < fst it" using nb by (simp add: ngtcp2_ksl_it_begin_def)
    then have "[] \<notin> set (leaves b)" using s leaves_chain [OF ok] by (auto simp: it_std_def it_pos_def)
    moreover have "leaves b ! (fst it - 1) \<in> set (leaves b)" using s f by (intro nth_mem) (auto simp: it_std_def it_pos_def)
    ultimately have "leaves b ! (fst it - 1) \<noteq> []" by metis
    then have "it_std (leaves b) (fst it - 1, length (leaves b ! (fst it - 1)) - 1) p"
      using s f True concat_take_Suc [of "fst it - 1" "leaves b"]
      by (cases "leaves b ! (fst it - 1)") (auto simp: it_std_def it_pos_def)
    then show ?thesis using Some s True nb by (simp add: ngtcp2_ksl_it_prev_def ksl_it_at_def it_blk_n_def it_std_def it_pos_def)
  next
    case False
    then have "it_std (leaves b) (fst it, snd it - 1) p" using s by (auto simp: it_std_def it_pos_def)
    then show ?thesis using Some False nb by (simp add: ngtcp2_ksl_it_prev_def ksl_it_at_def)
  qed
qed (use assms in \<open>simp add: ksl_it_at_def\<close>)

section \<open>Lower bound\<close>

text \<open>
  The search passes the nodes \<open>P\<close> holds of. \<open>P\<close> has to hold of every key below a key it holds of,
  in the order of the tree.
\<close>

definition passes :: "('k \<Rightarrow> 'k \<Rightarrow> bool) \<Rightarrow> 'k set \<Rightarrow> ('k \<Rightarrow> bool) \<Rightarrow> bool" where
  "passes lt K P = (\<forall>x \<in> K. \<forall>y \<in> K. lt x y \<longrightarrow> P y \<longrightarrow> P x)"

lemma passes_sub: "passes lt K P \<Longrightarrow> K' \<subseteq> K \<Longrightarrow> passes lt K' P"
  by (auto simp: passes_def)

lemma takeWhile_append_all: "\<forall>x \<in> set xs. P x \<Longrightarrow> length (takeWhile P (xs @ ys)) = length xs + length (takeWhile P ys)"
  by (simp add: takeWhile_append2)

lemma lower_bound_loop_ok:
  assumes "blk_ok lt h b" "passes lt (kset b) (\<lambda>k. cmp k key)"
  shows "\<exists>it. ksl_lower_bound_loop cmp b key = Ok it \<and>
    it_pos (leaves b) it (length (takeWhile (\<lambda>e. cmp (fst e) key) (elems b)))"
  using assms
proof (induction h arbitrary: b)
  case 0
  then obtain es where b: "b = Leaf es" using blk_ok_0 by blast
  have "length (takeWhile (\<lambda>e. cmp (fst e) key) es) \<le> length es" by (rule length_takeWhile_le)
  then show ?case by (simp add: b ksl_search_def takeWhile_map comp_def it_pos_def)
next
  case (Suc h)
  then obtain cs where b: "b = Node cs" using blk_ok_Suc by blast
  let ?P = "\<lambda>k. cmp k key"
  let ?Q = "\<lambda>e. cmp (fst e) key"
  have ok: "children_ok lt h cs" using Suc.prems b by simp
  have p: "passes lt (kset (Node cs)) ?P" using Suc.prems b by simp
  have i: "ksl_search cmp (Node cs) key = length (takeWhile (\<lambda>c. ?P (fst c)) cs)"
    by (simp add: ksl_search_def takeWhile_map comp_def)
  define us vs where "us = takeWhile (\<lambda>c. ?P (fst c)) cs" and "vs = dropWhile (\<lambda>c. ?P (fst c)) cs"
  have cs: "cs = us @ vs" unfolding us_def vs_def by simp
  have us: "?Q e" if "e \<in> set (elems_list us)" for e
  proof -
    from elems_list_kset [OF that] obtain c where c: "c \<in> set us" "fst e \<in> kset (snd c)" by blast
    then have "?P (fst c)" unfolding us_def by (auto dest: set_takeWhileD)
    moreover have "fst e = fst c \<or> lt (fst e) (fst c)" using child_le [OF ok] c cs by auto
    ultimately show ?thesis using p c cs by (fastforce simp: passes_def)
  qed
  show ?case
  proof (cases vs)
    case Nil
    have "leaves (Node cs) \<noteq> []" using Suc.prems(1) b leaves_not_Nil by metis
    moreover have "takeWhile ?Q (elems_list us) = elems_list us" using us cs Nil by simp
    ultimately show ?thesis
      using i cs Nil it_pos_last [of "leaves (Node cs)"] unfolding b us_def [symmetric]
      by (simp del: leaves.simps takeWhile_eq_all_conv)
  next
    case (Cons c ws)
    have nP: "\<not> ?P (fst c)" using Cons hd_dropWhile [of "\<lambda>c. ?P (fst c)" cs] unfolding vs_def by auto
    have ws: "\<not> ?Q e" if "e \<in> set (elems_list ws)" for e
    proof -
      from elems_list_kset [OF that] obtain d where d: "d \<in> set ws" "fst e \<in> kset (snd d)" by blast
      then have "lt (fst c) (fst e)" using ok cs Cons by auto
      moreover have "fst c \<in> kset (Node cs)" "fst e \<in> kset (Node cs)" using d cs Cons by auto
      ultimately show ?thesis using p nP unfolding passes_def by blast
    qed
    obtain it where it: "ksl_lower_bound_loop cmp (snd c) key = Ok it"
      "it_pos (leaves (snd c)) it (length (takeWhile ?Q (elems (snd c))))"
    proof -
      have "blk_ok lt h (snd c)" using ok cs Cons by (auto simp: child_ok_def)
      moreover have "passes lt (kset (snd c)) ?P" using p by (rule passes_sub) (use cs Cons in auto)
      ultimately show thesis using Suc.IH that by blast
    qed
    have "takeWhile ?Q (elems (snd c) @ elems_list ws) = takeWhile ?Q (elems (snd c))"
      using ws by (cases "elems_list ws") (auto simp: takeWhile_tail)
    then have "length (takeWhile ?Q (elems_list cs)) = length (elems_list us) + length (takeWhile ?Q (elems (snd c)))"
      using us cs Cons takeWhile_append_all [of "elems_list us" ?Q] by simp
    then show ?thesis
      using it_pos_shift [OF it(2), of us "fst c" ws] it(1) i cs Cons unfolding b us_def [symmetric]
      by (simp del: leaves.simps)
  qed
qed

lemma lower_bound_search_ok:
  assumes "ksl_ok lt ksl" "passes lt (ksl_keys ksl) (\<lambda>k. cmp k key)"
  shows "\<exists>it. ngtcp2_ksl_lower_bound_search cmp ksl key = Ok it \<and>
    ksl_it_at ksl it (length (takeWhile (\<lambda>e. cmp (fst e) key) (ksl_elems ksl)))"
proof (cases "ksl_root ksl")
  case (Some b)
  note ok = ksl_root_ok [OF assms(1) Some]
  have "passes lt (kset b) (\<lambda>k. cmp k key)" using assms(2) Some by (simp add: ksl_keys_def)
  from lower_bound_loop_ok [of lt _ b cmp key, OF ok this] obtain it where it: "ksl_lower_bound_loop cmp b key = Ok it"
    "it_pos (leaves b) it (length (takeWhile (\<lambda>e. cmp (fst e) key) (elems b)))" by blast
  from it_fix_std [OF it(2) leaves_chain [OF ok]] it(1) Some assms(1) show ?thesis
    by (simp add: ngtcp2_ksl_lower_bound_search_def ksl_it_at_def ksl_elems_def ksl_ok_def)
qed (use assms in \<open>simp add: ngtcp2_ksl_lower_bound_search_def ksl_it_at_def ksl_elems_def ksl_ok_def\<close>)

end
