(* ===== verification/Ksl_Remove.thy ===== *)
theory Ksl_Remove
  imports Ksl_Search
begin

text \<open>
  Removal and key updates of \<open>Ksl\<close>, in terms of the sorted list. A removal rebalances the tree on
  its way down, so that the block it enters has more than the minimum of nodes.
\<close>

section \<open>Contracts\<close>

definition rem_spec ::
    "('k \<times> 'v) list \<Rightarrow> 'k \<Rightarrow> ('k \<times> 'v) list \<Rightarrow> ksl_it option \<Rightarrow> ('k \<times> 'v) list list \<Rightarrow> bool" where
  "rem_spec es key es' r ls =
     (case r of
        None \<Rightarrow> es' = es \<and> key \<notin> fst ` set es
      | Some it \<Rightarrow> \<exists>xs d ys. es = xs @ (key, d) # ys \<and> es' = xs @ ys \<and> it_pos ls it (length xs))"

definition rem_ok ::
    "('k \<Rightarrow> 'k \<Rightarrow> bool) \<Rightarrow> nat \<Rightarrow> ('k, 'v) blk \<Rightarrow> 'k \<Rightarrow> (('k, 'v) blk \<times> ksl_it option) res \<Rightarrow> bool" where
  "rem_ok lt h b key res =
     (\<exists>b' r. res = Ok (b', r) \<and> blk_ok lt h b' \<and> blk_n b \<le> blk_n b' + 1 \<and> kset b' \<subseteq> kset b \<and>
        rem_spec (elems b) key (elems b') r (leaves b'))"

text \<open>The step goes on with a child that can lose a node, and the key is in no other child.\<close>

definition enter_ok ::
    "('k \<Rightarrow> 'k \<Rightarrow> bool) \<Rightarrow> nat \<Rightarrow> ('k \<times> ('k, 'v) blk) list \<Rightarrow> 'k \<Rightarrow> ('k \<times> ('k, 'v) blk) list \<Rightarrow> nat \<Rightarrow> bool" where
  "enter_ok lt h cs key ds j =
     (\<exists>us k c vs. ds = us @ (k, c) # vs \<and> length us = j \<and> children_ok lt h ds \<and> 16 < blk_n c \<and>
        elems_list ds = elems_list cs \<and> kset (Node ds) \<subseteq> kset (Node cs) \<and>
        key \<notin> fst ` set (elems_list us) \<and> key \<notin> fst ` set (elems_list vs) \<and>
        length ds \<le> length cs \<and> length cs \<le> length ds + 1)"

definition step_ok ::
    "('k \<Rightarrow> 'k \<Rightarrow> bool) \<Rightarrow> nat \<Rightarrow> bool \<Rightarrow> ('k \<times> ('k, 'v) blk) list \<Rightarrow> 'k \<Rightarrow> ('k, 'v) rem_step res \<Rightarrow> bool" where
  "step_ok lt h is_root cs key res =
     (\<exists>s. res = Ok s \<and>
        (case s of
           Rem_stop \<Rightarrow> key \<notin> fst ` set (elems_list cs)
         | Rem_enter ds j \<Rightarrow> enter_ok lt h cs key ds j \<and> (is_root \<longrightarrow> 2 \<le> length ds)
         | Rem_newroot b \<Rightarrow> is_root \<and> blk_ok lt h b \<and> 16 < blk_n b \<and> elems b = elems_list cs \<and>
             kset b \<subseteq> kset (Node cs)))"

lemma enter_okI:
  "children_ok lt h (us @ (k, c) # vs) \<Longrightarrow> 16 < blk_n c \<Longrightarrow> elems_list (us @ (k, c) # vs) = elems_list cs \<Longrightarrow>
   kset (Node (us @ (k, c) # vs)) \<subseteq> kset (Node cs) \<Longrightarrow>
   key \<notin> fst ` set (elems_list us) \<Longrightarrow> key \<notin> fst ` set (elems_list vs) \<Longrightarrow>
   length us + length vs < length cs \<Longrightarrow> length cs \<le> length us + length vs + 2 \<Longrightarrow>
   enter_ok lt h cs key (us @ (k, c) # vs) (length us)"
  unfolding enter_ok_def by (intro exI [of _ us] exI [of _ k] exI [of _ c] exI [of _ vs]) simp

lemma rem_spec_ctx:
  assumes "rem_spec (elems b) key (elems b') r (leaves b')"
    and "key \<notin> fst ` set (elems_list xs)" "key \<notin> fst ` set (elems_list ys)"
  shows "rem_spec (elems_list (xs @ (k, b) # ys)) key (elems (Node (xs @ (k, b') # ys)))
    (map_option (it_shift xs) r) (leaves (Node (xs @ (k, b') # ys)))"
proof (cases r)
  case (Some it)
  then obtain us d vs where e: "elems b = us @ (key, d) # vs" "elems b' = us @ vs" "it_pos (leaves b') it (length us)"
    using assms(1) by (auto simp: rem_spec_def)
  show ?thesis
    using e it_pos_shift [OF e(3), of xs k ys] Some
    by (simp add: rem_spec_def del: leaves.simps)
      (rule exI [of _ "elems_list xs @ us"], rule exI [of _ d], rule exI [of _ "vs @ elems_list ys"], simp)
qed (use assms in \<open>auto simp: rem_spec_def\<close>)

text \<open>A child may lose keys.\<close>

lemma shrink_child_ok:
  assumes "children_ok lt h (xs @ (k, b) # ys)" "blk_ok lt h b'" "16 \<le> blk_n b'" "kset b' \<subseteq> kset b"
  shows "children_ok lt h (xs @ (k, b') # ys)"
proof -
  have "lt (fst c) x" if "c \<in> set xs" "x \<in> kset b'" for c x using assms(1,4) that by auto
  moreover have "child_ok lt h (k, b')" using assms by (auto simp: child_ok_def)
  ultimately show ?thesis using assms(1) by simp
qed

section \<open>Rebalancing\<close>

context ksl_order
begin

lemma append_ok:
  assumes "blk_ok lt h l" "blk_ok lt h r" "\<And>x y. x \<in> kset l \<Longrightarrow> y \<in> kset r \<Longrightarrow> lt x y"
    and "blk_n l + blk_n r \<le> 32"
  obtains b where "blk_append l r = Ok b" "blk_ok lt h b" "elems b = elems l @ elems r"
    "kset b = kset l \<union> kset r" "blk_n b = blk_n l + blk_n r"
proof (cases h)
  case 0
  then obtain xs ys where "l = Leaf xs" "r = Leaf ys" using assms blk_ok_0 by blast
  with assms 0 show thesis by (intro that [of "Leaf (xs @ ys)"]) (auto simp: sorted_wrt_append)
next
  case (Suc h')
  then obtain xs ys where lr: "l = Node xs" "r = Node ys" using assms blk_ok_Suc by blast
  have "lt (fst c) x" if "c \<in> set xs" "d \<in> set ys" "x \<in> kset (snd d)" for c d x
    using assms(3) [of "fst c" x] lr that by auto
  with assms Suc lr show thesis by (intro that [of "Node (xs @ ys)"]) auto
qed

lemma cut_ok:
  assumes "blk_ok lt h b" "0 < n" "n < blk_n b"
  shows "blk_ok lt h (blk_take n b)" "blk_ok lt h (blk_drop n b)" "elems b = elems (blk_take n b) @ elems (blk_drop n b)"
    "kset b = kset (blk_take n b) \<union> kset (blk_drop n b)"
    "\<And>x y. x \<in> kset (blk_take n b) \<Longrightarrow> y \<in> kset (blk_drop n b) \<Longrightarrow> lt x y"
    "blk_n (blk_take n b) = n" "blk_n (blk_drop n b) = blk_n b - n"
proof -
  have "blk_ok lt h (blk_take n b) \<and> blk_ok lt h (blk_drop n b) \<and> elems b = elems (blk_take n b) @ elems (blk_drop n b) \<and>
    kset b = kset (blk_take n b) \<union> kset (blk_drop n b) \<and>
    (\<forall>x \<in> kset (blk_take n b). \<forall>y \<in> kset (blk_drop n b). lt x y)"
  proof (cases b)
    case (Leaf es)
    define xs ys where "xs = take n es" and "ys = drop n es"
    then have es: "es = xs @ ys" by simp
    have "h = 0" using assms Leaf by (cases h) auto
    then have s: "sorted_wrt lt (map fst (xs @ ys))" "length (xs @ ys) \<le> 32" using assms Leaf es by simp_all
    have e: "blk_take n b = Leaf xs" "blk_drop n b = Leaf ys" by (simp_all add: Leaf xs_def ys_def)
    show ?thesis unfolding e unfolding Leaf es using s \<open>h = 0\<close> by (auto simp: sorted_wrt_append)
  next
    case (Node cs)
    define xs ys where "xs = take n cs" and "ys = drop n cs"
    then have cs: "cs = xs @ ys" "xs \<noteq> []" "ys \<noteq> []" using assms Node by auto
    obtain h' where h: "h = Suc h'" using assms Node by (cases h) auto
    have s: "children_ok lt h' (xs @ ys)" "length (xs @ ys) \<le> 32" using assms Node h cs by simp_all
    have e: "blk_take n b = Node xs" "blk_drop n b = Node ys" by (simp_all add: Node xs_def ys_def)
    show ?thesis unfolding e unfolding Node cs(1) kset_append
      using s h cs(2,3) node_cut(2) [OF s(1) cs(2)] by (simp del: kset.simps)
  qed
  then show "blk_ok lt h (blk_take n b)" "blk_ok lt h (blk_drop n b)" "elems b = elems (blk_take n b) @ elems (blk_drop n b)"
    "kset b = kset (blk_take n b) \<union> kset (blk_drop n b)"
    "\<And>x y. x \<in> kset (blk_take n b) \<Longrightarrow> y \<in> kset (blk_drop n b) \<Longrightarrow> lt x y" by blast+
  show "blk_n (blk_take n b) = n" "blk_n (blk_drop n b) = blk_n b - n" using assms(3) by (cases b; simp)+
qed

text \<open>Two neighbours \<open>(k, l)\<close> and \<open>(k2, r)\<close>.\<close>

lemma pair_lt:
  assumes "children_ok lt h (xs @ (k, l) # (k2, r) # ys)" "x \<in> kset l" "y \<in> kset r"
  shows "lt x y"
  by (rule le_less [of x k]) (use assms in \<open>auto simp: child_ok_def\<close>)

lemma pair_keys:
  assumes ok: "children_ok lt h (xs @ (k, l) # (k2, r) # ys)" and x: "x \<in> kset l \<union> kset r"
  shows "x = k2 \<or> lt x k2" "c \<in> set xs \<Longrightarrow> lt (fst c) x" "d \<in> set ys \<Longrightarrow> y \<in> kset (snd d) \<Longrightarrow> lt x y"
proof -
  have k: "lt k k2" using child_below [of h "xs @ [(k, l)]" "(k2, r)" ys k] ok by simp
  have l: "\<And>x. x \<in> kset l \<Longrightarrow> x = k \<or> lt x k" and r: "\<And>x. x \<in> kset r \<Longrightarrow> x = k2 \<or> lt x k2"
    using ok by (auto simp: child_ok_def)
  from x k l r show 1: "x = k2 \<or> lt x k2" using le_less by blast
  show "lt (fst c) x" if "c \<in> set xs" using ok x that by auto
  show "lt x y" if "d \<in> set ys" "y \<in> kset (snd d)"
    by (rule le_less [OF 1]) (use ok that in auto)
qed

lemma rejoin_ok:
  assumes ok: "children_ok lt h (xs @ (k, l) # (k2, r) # ys)"
    and b: "blk_ok lt h l'" "blk_ok lt h r'" "16 \<le> blk_n l'" "16 \<le> blk_n r'" "kset l \<union> kset r = kset l' \<union> kset r'"
    and lr: "\<And>x y. x \<in> kset l' \<Longrightarrow> y \<in> kset r' \<Longrightarrow> lt x y"
  obtains kl where "blk_last_key l' = Ok kl" "kl \<in> kset l'" "children_ok lt h (xs @ (kl, l') # (k2, r') # ys)"
proof -
  obtain kl where kl: "blk_last_key l' = Ok kl" "kl \<in> kset l'" "\<forall>x \<in> kset l'. x = kl \<or> lt x kl"
    using last_key_bound [OF b(1)] b(3) by auto
  have K: "x = k2 \<or> lt x k2" "c \<in> set xs \<Longrightarrow> lt (fst c) x" "d \<in> set ys \<Longrightarrow> y \<in> kset (snd d) \<Longrightarrow> lt x y"
    if "x \<in> kset l' \<union> kset r'" for x c d y using pair_keys [OF ok] that b(5) by blast+
  have "children_ok lt h (xs @ (kl, l') # (k2, r') # ys)"
    using ok b kl K lr [OF kl(2)] by (auto simp: child_ok_def)
  with kl that show thesis by blast
qed

lemma merge_ok:
  assumes ok: "children_ok lt h (xs @ (k, l) # (k2, r) # ys)" and n: "blk_n l = 16" "blk_n r = 16"
  obtains b kb where "ksl_merge_node (xs @ (k, l) # (k2, r) # ys) (length xs) = Ok (b, xs @ (kb, b) # ys)"
    "blk_ok lt h b" "elems b = elems l @ elems r" "kset b = kset l \<union> kset r" "blk_n b = 32"
    "kb \<in> kset b" "children_ok lt h (xs @ (kb, b) # ys)"
proof -
  have lr: "blk_ok lt h l" "blk_ok lt h r" using ok by (simp_all add: child_ok_def)
  obtain b where b: "blk_append l r = Ok b" "blk_ok lt h b" "elems b = elems l @ elems r"
    "kset b = kset l \<union> kset r" "blk_n b = 32"
    by (rule append_ok [OF lr pair_lt [OF ok]]) (use n in auto)
  obtain kb where kb: "blk_last_key b = Ok kb" "kb \<in> kset b" "\<forall>x \<in> kset b. x = kb \<or> lt x kb"
    using last_key_bound [OF b(2)] b(5) by auto
  have "children_ok lt h (xs @ (kb, b) # ys)"
    using ok b kb pair_keys [OF ok] by (auto simp: child_ok_def)
  moreover have "ksl_merge_node (xs @ (k, l) # (k2, r) # ys) (length xs) = Ok (b, xs @ (kb, b) # ys)"
    using b(1) kb(1) n by (simp add: ksl_merge_node_def nth_append ksl_remove_node_def put_child_def)
  ultimately show thesis using that b kb by blast
qed

lemma shift_left_ok:
  assumes ok: "children_ok lt h (xs @ (k, l) # (k2, r) # ys)" and n: "blk_n l = 16" "16 < blk_n r"
  obtains kl l' r' where
    "ksl_shift_left (xs @ (k, l) # (k2, r) # ys) (length xs + 1) = Ok (xs @ (kl, l') # (k2, r') # ys)"
    "children_ok lt h (xs @ (kl, l') # (k2, r') # ys)" "elems l' @ elems r' = elems l @ elems r"
    "16 < blk_n l'" "kl \<in> kset l'" "kset l' \<union> kset r' = kset l \<union> kset r" "kset r' \<subseteq> kset r"
proof -
  have lr: "blk_ok lt h l" "blk_ok lt h r" using ok by (simp_all add: child_ok_def)
  have r32: "blk_n r \<le> 32" using lr(2) by (auto elim: blk_ok.elims)
  define n' where "n' = (blk_n l + blk_n r + 1) div 2 - blk_n l"
  then have e: "(17 + blk_n r) div 2 - 16 = n'" "Suc (blk_n l + blk_n r) div 2 - blk_n l = n'" using n by simp_all
  have n': "0 < n'" "n' < blk_n r" "16 + n' \<le> 32" "16 + n' \<le> blk_n r" using n r32 unfolding n'_def by auto
  note c = cut_ok [OF lr(2) n'(1,2)]
  obtain l' where l': "blk_append l (blk_take n' r) = Ok l'" "blk_ok lt h l'" "elems l' = elems l @ elems (blk_take n' r)"
    "kset l' = kset l \<union> kset (blk_take n' r)" "blk_n l' = blk_n l + n'"
    by (rule append_ok [OF lr(1) c(1)]) (use pair_lt [OF ok] c(4,6) n n' in auto)
  have "lt x y" if "x \<in> kset l'" "y \<in> kset (blk_drop n' r)" for x y
    using that l'(4) c(4,5) pair_lt [OF ok] by auto
  then obtain kl where kl: "blk_last_key l' = Ok kl" "kl \<in> kset l'"
    "children_ok lt h (xs @ (kl, l') # (k2, blk_drop n' r) # ys)"
    by (rule rejoin_ok [OF ok l'(2) c(2), rotated 3]) (use n n' l' c in auto)
  have "ksl_shift_left (xs @ (k, l) # (k2, r) # ys) (length xs + 1) = Ok (xs @ (kl, l') # (k2, blk_drop n' r) # ys)"
    unfolding ksl_shift_left_def
    using n n' by (simp add: nth_append Let_def e put_child_def l'(1) kl(1) assertR_def)
  then show thesis using that kl l' c n n' by (auto simp: Un_assoc)
qed

lemma shift_right_ok:
  assumes ok: "children_ok lt h (xs @ (k, l) # (k2, r) # ys)" and n: "16 < blk_n l" "blk_n r = 16"
  obtains kl l' r' where
    "ksl_shift_right (xs @ (k, l) # (k2, r) # ys) (length xs) = Ok (xs @ (kl, l') # (k2, r') # ys)"
    "children_ok lt h (xs @ (kl, l') # (k2, r') # ys)" "elems l' @ elems r' = elems l @ elems r"
    "16 < blk_n r'" "kl \<in> kset l'" "kset l' \<union> kset r' = kset l \<union> kset r" "kset l' \<subseteq> kset l"
proof -
  have lr: "blk_ok lt h l" "blk_ok lt h r" using ok by (simp_all add: child_ok_def)
  have l32: "blk_n l \<le> 32" using lr(1) by (auto elim: blk_ok.elims)
  define n' where "n' = (blk_n l + blk_n r + 1) div 2 - blk_n r"
  define ln where "ln = blk_n l - n'"
  have e: "Suc (blk_n l + blk_n r) div 2 - blk_n r = n'" "Suc (blk_n l + 16) div 2 - 16 = n'" "(17 + blk_n l) div 2 - 16 = n'" "blk_n l - n' = ln"
    using n unfolding n'_def ln_def by simp_all
  have n': "0 < n'" "0 < ln" "ln < blk_n l" "16 + n' \<le> blk_n l" "16 + n' \<le> 32" "16 \<le> ln" "blk_n l - ln = n'"
    using n l32 unfolding ln_def n'_def by auto
  note c = cut_ok [OF lr(1) n'(2,3)]
  obtain r' where r': "blk_append (blk_drop ln l) r = Ok r'" "blk_ok lt h r'" "elems r' = elems (blk_drop ln l) @ elems r"
    "kset r' = kset (blk_drop ln l) \<union> kset r" "blk_n r' = n' + blk_n r"
    by (rule append_ok [OF c(2) lr(2)]) (use pair_lt [OF ok] c(4,7) n n' in auto)
  have "lt x y" if "x \<in> kset (blk_take ln l)" "y \<in> kset r'" for x y
    using that r'(4) c(4,5) pair_lt [OF ok] by auto
  then obtain kl where kl: "blk_last_key (blk_take ln l) = Ok kl" "kl \<in> kset (blk_take ln l)"
    "children_ok lt h (xs @ (kl, blk_take ln l) # (k2, r') # ys)"
    by (rule rejoin_ok [OF ok c(1) r'(2), rotated 3]) (use n n' r' c in auto)
  have "ksl_shift_right (xs @ (k, l) # (k2, r) # ys) (length xs) = Ok (xs @ (kl, blk_take ln l) # (k2, r') # ys)"
    unfolding ksl_shift_right_def
    using n n'(1,4-6) by (simp add: nth_append Let_def e put_child_def r'(1) kl(1) assertR_def)
  then show thesis using that kl r' c n n' by (auto simp: Un_assoc)
qed

section \<open>Removal\<close>

lemma key_below:
  assumes "children_ok lt h (xs @ ys)" "\<forall>c \<in> set xs. lt (fst c) key"
  shows "key \<notin> fst ` set (elems_list xs)"
proof
  assume "key \<in> fst ` set (elems_list xs)"
  then obtain c where c: "c \<in> set xs" "key \<in> kset (snd c)" using elems_list_kset by fastforce
  then have "key = fst c \<or> lt key (fst c)" "lt (fst c) key" using child_le [OF assms(1)] assms(2) by auto
  then show False using le_less lt_irrefl by blast
qed

lemma key_above:
  assumes "children_ok lt h (xs @ (k, c) # ys)" "key = k \<or> lt key k"
  shows "key \<notin> fst ` set (elems_list ys)"
proof
  assume "key \<in> fst ` set (elems_list ys)"
  then obtain d where d: "d \<in> set ys" "key \<in> kset (snd d)" using elems_list_kset by fastforce
  then have "lt k key" using assms(1) by auto
  then show False using le_less [OF assms(2), of key] by auto
qed

text \<open>The five ways to go down to the child \<open>(k, c)\<close> between \<open>xs\<close> and \<open>ys\<close>.\<close>

lemma remove_cases:
  assumes n: "\<forall>d \<in> set xs \<union> set ys. 16 \<le> blk_n (snd d)" "16 \<le> blk_n c" "xs \<noteq> [] \<or> ys \<noteq> []"
  obtains (enter) "16 < blk_n c"
    | (left) k2 r zs where "blk_n c = 16" "ys = (k2, r) # zs" "16 < blk_n r"
    | (right) us k0 l where "blk_n c = 16" "\<not> (ys \<noteq> [] \<and> 16 < blk_n (snd (hd ys)))" "xs = us @ [(k0, l)]" "16 < blk_n l"
    | (mright) k2 r zs where "blk_n c = 16" "ys = (k2, r) # zs" "blk_n r = 16"
        "\<not> (xs \<noteq> [] \<and> 16 < blk_n (snd (last xs)))"
    | (mleft) us k0 l where "blk_n c = 16" "ys = []" "xs = us @ [(k0, l)]" "blk_n l = 16"
proof (cases "blk_n c = 16")
  case c: True
  have xs: "xs = butlast xs @ [(fst (last xs), snd (last xs))]" if "xs \<noteq> []" using that by simp
  have ys: "ys = (fst (hd ys), snd (hd ys)) # tl ys" if "ys \<noteq> []" using that by simp
  consider "ys \<noteq> []" "16 < blk_n (snd (hd ys))" | "\<not> (ys \<noteq> [] \<and> 16 < blk_n (snd (hd ys)))" "xs \<noteq> []" "16 < blk_n (snd (last xs))"
    | "ys \<noteq> []" "\<not> 16 < blk_n (snd (hd ys))" "\<not> (xs \<noteq> [] \<and> 16 < blk_n (snd (last xs)))"
    | "ys = []" "xs \<noteq> []" "\<not> 16 < blk_n (snd (last xs))"
    using n(3) by blast
  then show thesis
  proof cases
    case 1 then show thesis using left [OF c ys] by simp
  next
    case 2 then show thesis using right [OF c 2(1) xs] by simp
  next
    case 3
    then have "blk_n (snd (hd ys)) = 16" using n(1) by (metis UnCI hd_in_set le_neq_implies_less)
    then show thesis using mright [OF c ys] 3 by simp
  next
    case 4
    then have "blk_n (snd (last xs)) = 16" using n(1) by (metis UnCI last_in_set le_neq_implies_less)
    then show thesis using mleft [OF c 4(1) xs] 4 by simp
  qed
qed (use n(2) enter in simp)

lemma remove_step_ok:
  assumes ok: "children_ok lt h cs" and len: "2 \<le> length cs" and ag: "\<forall>x \<in> kset (Node cs). agrees lt cmp x key"
  shows "step_ok lt h is_root cs key (ksl_remove_step cmp is_root cs key)"
proof (cases "ksl_search cmp (Node cs) key = length cs")
  case True
  then show ?thesis using key_below [of h cs "[]"] ok search_all [OF True ag]
    by (simp add: step_ok_def ksl_remove_step_def)
next
  case False
  then have "ksl_search cmp (Node cs) key < length cs" using search_le [of cmp "Node cs" key] by simp
  then obtain xs k c ys where cs: "cs = xs @ (k, c) # ys" and i: "ksl_search cmp (Node cs) key = length xs"
    and lo: "\<forall>c \<in> set xs. lt (fst c) key" and hi: "key = k \<or> lt key k"
    by (rule search_split [OF _ ag])
  note ok' = ok [unfolded cs] and i' = i [unfolded cs]
  have kx: "key \<notin> fst ` set (elems_list xs)" by (rule key_below [OF ok' lo])
  have ky: "key \<notin> fst ` set (elems_list ys)" by (rule key_above [OF ok' hi])
  have ge: "\<forall>d \<in> set xs \<union> set ys. 16 \<le> blk_n (snd d)" "16 \<le> blk_n c" "xs \<noteq> [] \<or> ys \<noteq> []"
    using ok' len cs by (auto simp: children_ok_def child_ok_def list_all_iff)
  from ge show ?thesis
  proof (cases rule: remove_cases)
    case enter
    then have e: "ksl_remove_step cmp is_root cs key = Ok (Rem_enter (xs @ (k, c) # ys) (length xs))"
      using i' by (simp add: ksl_remove_step_def cs)
    have "enter_ok lt h cs key (xs @ (k, c) # ys) (length xs)"
      by (rule enter_okI) (use ok' enter kx ky cs in auto)
    with e len cs show ?thesis by (simp add: step_ok_def)
  next
    case (left k2 r zs)
    obtain kl l' r' where s: "ksl_shift_left (xs @ (k, c) # (k2, r) # zs) (length xs + 1) = Ok (xs @ (kl, l') # (k2, r') # zs)"
      "children_ok lt h (xs @ (kl, l') # (k2, r') # zs)" "elems l' @ elems r' = elems c @ elems r"
      "16 < blk_n l'" "kl \<in> kset l'" "kset l' \<union> kset r' = kset c \<union> kset r" "kset r' \<subseteq> kset r"
      by (rule shift_left_ok [OF ok' [unfolded left(2)] left(1,3)])
    have e: "ksl_remove_step cmp is_root cs key = Ok (Rem_enter (xs @ (kl, l') # (k2, r') # zs) (length xs))"
      using i' left s(1) by (simp add: ksl_remove_step_def cs nth_append)
    have "key \<noteq> fst d" if "d \<in> set (elems r')" for d
    proof -
      have "fst d \<in> kset r" using elems_kset [OF that] s(7) by auto
      then have "lt k (fst d)" using ok' left(2) by auto
      then show ?thesis using le_less [OF hi, of "fst d"] by auto
    qed
    then have "enter_ok lt h cs key (xs @ (kl, l') # (k2, r') # zs) (length xs)"
      by (intro enter_okI) (use s kx ky cs left(2) in auto)
    with e len cs left(2) show ?thesis by (simp add: step_ok_def)
  next
    case (right us k0 l)
    obtain kl l' r' where s: "ksl_shift_right (us @ (k0, l) # (k, c) # ys) (length us) = Ok (us @ (kl, l') # (k, r') # ys)"
      "children_ok lt h (us @ (kl, l') # (k, r') # ys)" "elems l' @ elems r' = elems l @ elems c"
      "16 < blk_n r'" "kl \<in> kset l'" "kset l' \<union> kset r' = kset l \<union> kset c" "kset l' \<subseteq> kset l"
      by (rule shift_right_ok [of h us k0 l k c ys]) (use ok' right in auto)
    have "\<not> (ys \<noteq> [] \<and> 16 < blk_n (snd (ys ! 0)))" using right(2) by (cases ys) auto
    then have e: "ksl_remove_step cmp is_root cs key = Ok (Rem_enter ((us @ [(kl, l')]) @ (k, r') # ys) (length (us @ [(kl, l')])))"
      using i' right(1,3,4) s(1) by (auto simp: ksl_remove_step_def cs nth_append)
    have "key \<noteq> fst d" if "d \<in> set (elems l')" for d
    proof -
      have "fst d \<in> kset l" using elems_kset [OF that] s(7) by auto
      then have "fst d = k0 \<or> lt (fst d) k0" using ok' right(3) by (auto simp: child_ok_def)
      then show ?thesis using lo right(3) le_less [of "fst d" k0 key] by auto
    qed
    then have "enter_ok lt h cs key ((us @ [(kl, l')]) @ (k, r') # ys) (length (us @ [(kl, l')]))"
      by (intro enter_okI) (use s kx ky cs right(3) in auto)
    with e len cs right(3) show ?thesis by (simp add: step_ok_def)
  next
    case (mright k2 r zs)
    obtain b kb where s: "ksl_merge_node (xs @ (k, c) # (k2, r) # zs) (length xs) = Ok (b, xs @ (kb, b) # zs)"
      "blk_ok lt h b" "elems b = elems c @ elems r" "kset b = kset c \<union> kset r" "blk_n b = 32"
      "kb \<in> kset b" "children_ok lt h (xs @ (kb, b) # zs)"
      by (rule merge_ok [OF ok' [unfolded mright(2)] mright(1,3)])
    have "\<not> (xs \<noteq> [] \<and> 16 < blk_n (snd (xs ! (length xs - 1))))"
      using mright(4) by (cases xs rule: rev_cases) auto
    then have e: "ksl_remove_step cmp is_root cs key =
        Ok (if is_root \<and> length cs = 2 then Rem_newroot b else Rem_enter (xs @ (kb, b) # zs) (length xs))"
      using i' mright(1-3) s(1) by (cases "xs = []") (simp_all add: ksl_remove_step_def cs nth_append Let_def)
    have en: "enter_ok lt h cs key (xs @ (kb, b) # zs) (length xs)"
      by (intro enter_okI) (use s kx ky cs mright(2) in auto)
    show ?thesis
    proof (cases "is_root \<and> length cs = 2")
      case True
      then have "xs = []" "zs = []" using cs mright(2) by auto
      with True e s cs mright(2) show ?thesis by (auto simp: step_ok_def)
    next
      case False
      then have "is_root \<longrightarrow> 2 \<le> length (xs @ (kb, b) # zs)" using len cs mright(2) by (cases xs; cases zs) auto
      with en e False show ?thesis unfolding step_ok_def by auto
    qed
  next
    case (mleft us k0 l)
    obtain b kb where s: "ksl_merge_node (us @ (k0, l) # (k, c) # []) (length us) = Ok (b, us @ (kb, b) # [])"
      "blk_ok lt h b" "elems b = elems l @ elems c" "kset b = kset l \<union> kset c" "blk_n b = 32"
      "kb \<in> kset b" "children_ok lt h (us @ (kb, b) # [])"
      by (rule merge_ok [of h us k0 l k c "[]"]) (use ok' mleft in auto)
    have e: "ksl_remove_step cmp is_root cs key =
        Ok (if is_root \<and> length cs = 2 then Rem_newroot b else Rem_enter (us @ (kb, b) # []) (length us))"
      using i' mleft s(1) by (simp add: ksl_remove_step_def cs nth_append)
    have en: "enter_ok lt h cs key (us @ (kb, b) # []) (length us)"
      by (intro enter_okI) (use s kx ky cs mleft(2,3) in auto)
    show ?thesis
    proof (cases "is_root \<and> length cs = 2")
      case True
      then have "us = []" using cs mleft(3) by auto
      with True e s cs mleft(2,3) show ?thesis by (auto simp: step_ok_def)
    next
      case False
      then have "is_root \<longrightarrow> 2 \<le> length (us @ (kb, b) # [])" using len cs mleft(2,3) by (cases us) auto
      with en e False show ?thesis unfolding step_ok_def by auto
    qed
  qed
qed

lemma leaf_remove:
  assumes "sorted_wrt lt (map fst es)" "\<forall>x \<in> fst ` set es. agrees lt cmp x key" "length es \<le> 32"
  shows "rem_ok lt 0 (Leaf es) key (ksl_remove_loop cmp is_root (Leaf es) key)"
proof -
  obtain xs ys where es: "es = xs @ ys" and i: "ksl_search cmp (Leaf es) key = length xs"
    and xs: "\<forall>x \<in> fst ` set xs. lt x key" and ys: "\<forall>y \<in> fst ` set ys. key = y \<or> lt key y"
    by (rule leaf_search [OF assms(1,2)])
  have kx: "key \<notin> fst ` set xs" using xs lt_irrefl by fastforce
  show ?thesis
  proof (cases "ys \<noteq> [] \<and> fst (hd ys) = key")
    case True
    then obtain d zs where ys: "ys = (key, d) # zs" by (cases ys) auto
    have "\<not> cmp key key" using assms(2) es ys by (auto simp: agrees_def)
    then have e: "ksl_remove_loop cmp is_root (Leaf es) key = Ok (Leaf (xs @ zs), Some (0, length xs))"
      using i es ys by (simp add: ksl_remove_node_def)
    have "rem_spec es key (xs @ zs) (Some (0, length xs)) [xs @ zs]"
      using es ys by (auto simp: rem_spec_def it_pos_def)
    then show ?thesis unfolding rem_ok_def e using assms(1,3) es ys by (auto simp: sorted_wrt_append)
  next
    case False
    have "key \<notin> fst ` set ys"
    proof (cases ys)
      case (Cons y zs)
      then have "lt key (fst y)" "\<forall>z \<in> set zs. lt (fst y) (fst z)" using False ys es assms(1) by (auto simp: sorted_wrt_append)
      then show ?thesis using Cons lt_asym lt_irrefl by fastforce
    qed simp
    moreover have "ksl_remove_loop cmp is_root (Leaf es) key = Ok (Leaf es, None)"
    proof (cases ys)
      case (Cons y zs)
      then have "lt key (fst y)" "agrees lt cmp (fst y) key" using False ys es assms(2) by auto
      then show ?thesis using i es Cons by (simp add: agrees_def)
    qed (use i es in simp)
    ultimately show ?thesis using assms(1,3) kx es by (simp add: rem_ok_def rem_spec_def image_Un)
  qed
qed

lemma remove_child:
  assumes "enter_ok lt h cs key ds j"
    and "\<And>c. c \<in> set ds \<Longrightarrow> blk_ok lt h (snd c) \<Longrightarrow> 16 < blk_n (snd c) \<Longrightarrow> rem_ok lt h (snd c) key (f (snd c))"
  obtains b r where "j < length ds" "f (snd (ds ! j)) = Ok (b, r)"
    "children_ok lt h (put_child ds j (fst (ds ! j)) b)" "length (put_child ds j (fst (ds ! j)) b) = length ds"
    "kset (Node (put_child ds j (fst (ds ! j)) b)) \<subseteq> kset (Node cs)"
    "rem_spec (elems_list cs) key (elems (Node (put_child ds j (fst (ds ! j)) b)))
       (map_option (it_shift (take j ds)) r) (leaves (Node (put_child ds j (fst (ds ! j)) b)))"
proof -
  obtain us k c vs where e: "ds = us @ (k, c) # vs" "length us = j" "children_ok lt h ds" "16 < blk_n c"
    "elems_list ds = elems_list cs" "kset (Node ds) \<subseteq> kset (Node cs)"
    "key \<notin> fst ` set (elems_list us)" "key \<notin> fst ` set (elems_list vs)"
    using assms(1) unfolding enter_ok_def by blast
  obtain b r where r: "f c = Ok (b, r)" "blk_ok lt h b" "blk_n c \<le> blk_n b + 1" "kset b \<subseteq> kset c"
    "rem_spec (elems c) key (elems b) r (leaves b)"
    using assms(2) [of "(k, c)"] e unfolding rem_ok_def by (auto simp: child_ok_def)
  have p: "put_child ds j (fst (ds ! j)) b = us @ (k, b) # vs" "take j ds = us" "snd (ds ! j) = c" "j < length ds"
    using e(1,2) by (auto simp: put_child_def)
  have "children_ok lt h (us @ (k, b) # vs)"
    by (rule shrink_child_ok [OF e(3) [unfolded e(1)] r(2)]) (use e(4) r(3,4) in auto)
  moreover have "kset (Node (us @ (k, b) # vs)) \<subseteq> kset (Node cs)" using r(4) e(1,6) by auto
  ultimately show thesis
    using that [of b r] rem_spec_ctx [OF r(5) e(7,8), of k] e(1,5) r(1) p(4) unfolding p by (simp del: leaves.simps kset.simps)
qed

lemma remove_loop_ok:
  assumes "blk_ok lt h b" "16 < blk_n b" "\<forall>x \<in> kset b. agrees lt cmp x key"
  shows "rem_ok lt h b key (ksl_remove_loop cmp False b key)"
  using assms
proof (induction h arbitrary: b)
  case 0
  then show ?case using blk_ok_0 leaf_remove by fastforce
next
  case (Suc h)
  then obtain cs where b: "b = Node cs" using blk_ok_Suc by blast
  have ok: "children_ok lt h cs" and len: "16 < length cs" "length cs \<le> 32" and ag: "\<forall>x \<in> kset (Node cs). agrees lt cmp x key"
    using Suc.prems b by auto
  have "step_ok lt h False cs key (ksl_remove_step cmp False cs key)"
    by (rule remove_step_ok [OF ok _ ag]) (use len in simp)
  then obtain s where s: "ksl_remove_step cmp False cs key = Ok s" and
    ss: "case s of Rem_stop \<Rightarrow> key \<notin> fst ` set (elems_list cs)
      | Rem_enter ds j \<Rightarrow> enter_ok lt h cs key ds j \<and> (False \<longrightarrow> 2 \<le> length ds)
      | Rem_newroot b \<Rightarrow> False \<and> blk_ok lt h b \<and> 16 < blk_n b \<and> elems b = elems_list cs \<and> kset b \<subseteq> kset (Node cs)"
    unfolding step_ok_def by blast
  show ?case
  proof (cases s)
    case Rem_stop
    then show ?thesis using s ss b Suc.prems by (simp add: rem_ok_def rem_spec_def)
  next
    case (Rem_enter ds j)
    then have en: "enter_ok lt h cs key ds j" using ss by simp
    have IH: "rem_ok lt h (snd c) key (ksl_remove_loop cmp False (snd c) key)"
      if "c \<in> set ds" "blk_ok lt h (snd c)" "16 < blk_n (snd c)" for c
      by (rule Suc.IH [OF that(2,3)]) (use en that(1) ag in \<open>force simp: enter_ok_def\<close>)
    have l: "length ds \<le> length cs" "length cs \<le> length ds + 1" using en unfolding enter_ok_def by blast+
    obtain b' r where r: "j < length ds" "ksl_remove_loop cmp False (snd (ds ! j)) key = Ok (b', r)"
      "children_ok lt h (put_child ds j (fst (ds ! j)) b')" "length (put_child ds j (fst (ds ! j)) b') = length ds"
      "kset (Node (put_child ds j (fst (ds ! j)) b')) \<subseteq> kset (Node cs)"
      "rem_spec (elems_list cs) key (elems (Node (put_child ds j (fst (ds ! j)) b')))
         (map_option (it_shift (take j ds)) r) (leaves (Node (put_child ds j (fst (ds ! j)) b')))"
      by (rule remove_child [OF en IH])
    define es where "es = put_child ds j (fst (ds ! j)) b'"
    have "es \<noteq> []" using r(1,4) unfolding es_def [symmetric] by auto
    have e: "ksl_remove_loop cmp False b key = Ok (Node es, map_option (it_shift (take j ds)) r)"
      using s Rem_enter r(1,2) b by (simp add: es_def)
    show ?thesis unfolding rem_ok_def e unfolding b
      using r(3-6) l len \<open>es \<noteq> []\<close> unfolding es_def [symmetric] by (simp del: leaves.simps kset.simps elems_simps(2) add: elems_simps(2) [of cs])
  qed (use ss in simp)
qed

end

end
