(* ===== verification/Ksl_Correct.thy ===== *)
theory Ksl_Correct
  imports Ksl_Remove
begin

text \<open>
  The operations of \<open>Ksl\<close> on the whole map: removal by key and at an iterator, and key updates, in
  terms of the sorted list.
\<close>

section \<open>Removal by key\<close>

definition ksl_remove_spec ::
    "('k \<Rightarrow> 'k \<Rightarrow> bool) \<Rightarrow> ('k, 'v) ngtcp2_ksl \<Rightarrow> 'k \<Rightarrow> ('k, 'v) ngtcp2_ksl \<Rightarrow> lib_error option \<Rightarrow>
       ksl_it option \<Rightarrow> bool" where
  "ksl_remove_spec lt ksl key ksl' rv it =
     (ksl_ok lt ksl' \<and> ksl_keys ksl' \<subseteq> ksl_keys ksl \<and>
      ((\<exists>xs d ys i. rv = None \<and> ksl_elems ksl = xs @ (key, d) # ys \<and> ksl_elems ksl' = xs @ ys \<and>
          it = Some i \<and> ksl_it_at ksl' i (length xs)) \<or>
       rv = Some NGTCP2_ERR_INVALID_ARGUMENT \<and> key \<notin> fst ` set (ksl_elems ksl) \<and>
         ksl_elems ksl' = ksl_elems ksl))"

context ksl_order
begin

lemma remove_root_ok:
  assumes "blk_ok lt h b" "root_ok b" "\<forall>x \<in> kset b. agrees lt cmp x key"
  shows "\<exists>h' b' r. ksl_remove_loop cmp True b key = Ok (b', r) \<and> blk_ok lt h' b' \<and> root_ok b' \<and>
    kset b' \<subseteq> kset b \<and> rem_spec (elems b) key (elems b') r (leaves b')"
  using assms
proof (induction h arbitrary: b)
  case 0
  then obtain es where b: "b = Leaf es" using blk_ok_0 by blast
  have "rem_ok lt 0 (Leaf es) key (ksl_remove_loop cmp True (Leaf es) key)" by (rule leaf_remove) (use 0 b in auto)
  then obtain b' r where r: "ksl_remove_loop cmp True (Leaf es) key = Ok (b', r)" "blk_ok lt 0 b'" "kset b' \<subseteq> kset (Leaf es)"
    "rem_spec (elems (Leaf es)) key (elems b') r (leaves b')" unfolding rem_ok_def by blast
  moreover have "root_ok b'" using r(2) blk_ok_0 by fastforce
  ultimately show ?case unfolding b by blast
next
  case (Suc h)
  then obtain cs where b: "b = Node cs" using blk_ok_Suc by blast
  have ok: "children_ok lt h cs" and len: "2 \<le> length cs" "length cs \<le> 32" and ag: "\<forall>x \<in> kset (Node cs). agrees lt cmp x key"
    using Suc.prems b by auto
  obtain s where s: "ksl_remove_step cmp True cs key = Ok s" and
    ss: "case s of Rem_stop \<Rightarrow> key \<notin> fst ` set (elems_list cs)
      | Rem_enter ds j \<Rightarrow> enter_ok lt h cs key ds j \<and> (True \<longrightarrow> 2 \<le> length ds)
      | Rem_newroot b \<Rightarrow> True \<and> blk_ok lt h b \<and> 16 < blk_n b \<and> elems b = elems_list cs \<and> kset b \<subseteq> kset (Node cs)"
    using remove_step_ok [OF ok len(1) ag, of True] unfolding step_ok_def by blast
  show ?case
  proof (cases s)
    case Rem_stop
    then have "ksl_remove_loop cmp True b key = Ok (b, None)" using s b by simp
    moreover have "rem_spec (elems b) key (elems b) None (leaves b)" using ss Rem_stop b by (simp add: rem_spec_def)
    ultimately show ?thesis using Suc.prems by blast
  next
    case (Rem_enter ds j)
    then have en: "enter_ok lt h cs key ds j" and l2: "2 \<le> length ds" using ss by simp_all
    have IH: "rem_ok lt h (snd c) key (ksl_remove_loop cmp False (snd c) key)"
      if "c \<in> set ds" "blk_ok lt h (snd c)" "16 < blk_n (snd c)" for c
      by (rule remove_loop_ok [OF that(2,3)]) (use en that(1) ag in \<open>force simp: enter_ok_def\<close>)
    have l: "length ds \<le> length cs" using en unfolding enter_ok_def by blast
    obtain b' r where r: "j < length ds" "ksl_remove_loop cmp False (snd (ds ! j)) key = Ok (b', r)"
      "children_ok lt h (put_child ds j (fst (ds ! j)) b')" "length (put_child ds j (fst (ds ! j)) b') = length ds"
      "kset (Node (put_child ds j (fst (ds ! j)) b')) \<subseteq> kset (Node cs)"
      "rem_spec (elems_list cs) key (elems (Node (put_child ds j (fst (ds ! j)) b')))
         (map_option (it_shift (take j ds)) r) (leaves (Node (put_child ds j (fst (ds ! j)) b')))"
      by (rule remove_child [OF en IH])
    define es where "es = put_child ds j (fst (ds ! j)) b'"
    have e: "ksl_remove_loop cmp True b key = Ok (Node es, map_option (it_shift (take j ds)) r)"
      using s Rem_enter r(1,2) b by (simp add: es_def)
    have "blk_ok lt (Suc h) (Node es)" "root_ok (Node es)" using r(3,4) l l2 len unfolding es_def [symmetric] by auto
    moreover have "kset (Node es) \<subseteq> kset b" "elems b = elems_list cs" using r(5) b unfolding es_def [symmetric] by simp_all
    ultimately show ?thesis using e r(6) unfolding es_def [symmetric] by metis
  next
    case (Rem_newroot c)
    then have c: "blk_ok lt h c" "16 < blk_n c" "elems c = elems_list cs" "kset c \<subseteq> kset (Node cs)" using ss by simp_all
    have "root_ok c" using c(2) by (cases c) auto
    moreover have "\<forall>x \<in> kset c. agrees lt cmp x key" using c(4) ag by blast
    moreover have "ksl_remove_loop cmp True b key = ksl_remove_loop cmp True c key" using s Rem_newroot b by simp
    moreover have "elems b = elems c" "kset c \<subseteq> kset b" using b c(3,4) by simp_all
    ultimately show ?thesis using Suc.IH [OF c(1)] by (metis subset_trans)
  qed
qed

lemma remove_pre_ok:
  assumes "blk_ok lt h root" "root_ok root"
  obtains b h' where
    "(case root of
        Node [(kl, l), (kr, r)] \<Rightarrow>
          if blk_n l = 16 \<and> blk_n r = 16
          then bindR (ksl_merge_node [(kl, l), (kr, r)] 0) (\<lambda>(b, _). Ok b) else Ok root
      | _ \<Rightarrow> Ok root) = Ok b"
    "blk_ok lt h' b" "root_ok b" "elems b = elems root" "kset b \<subseteq> kset root"
proof (cases "\<exists>k l k2 r. root = Node [(k, l), (k2, r)] \<and> blk_n l = 16 \<and> blk_n r = 16")
  case True
  then obtain k l k2 r where root: "root = Node [(k, l), (k2, r)]" "blk_n l = 16" "blk_n r = 16" by blast
  obtain h0 where h: "h = Suc h0" using assms root(1) by (cases h) auto
  have ok: "children_ok lt h0 ([] @ (k, l) # (k2, r) # [])" using assms root h by auto
  obtain b kb where b: "ksl_merge_node [(k, l), (k2, r)] 0 = Ok (b, [(kb, b)])"
    "blk_ok lt h0 b" "elems b = elems l @ elems r" "kset b = kset l \<union> kset r" "blk_n b = 32"
    by (rule merge_ok [OF ok root(2,3)]) simp
  have "root_ok b" using b(5) by (cases b) auto
  then show thesis by (intro that [of b h0]) (use b root in auto)
next
  case False
  then show thesis by (intro that [of root h]) (use assms in \<open>auto split: blk.splits list.splits\<close>)
qed

lemma ksl_remove_ok:
  assumes ok: "ksl_ok lt ksl" and ag: "\<forall>x \<in> ksl_keys ksl. agrees lt cmp x key"
  shows "\<exists>ksl' rv it. ngtcp2_ksl_remove cmp ksl key = Ok (ksl', rv, it) \<and> ksl_remove_spec lt ksl key ksl' rv it"
proof (cases "ksl_root ksl")
  case None
  then show ?thesis using ok by (auto simp: ngtcp2_ksl_remove_def ksl_ok_def ksl_remove_spec_def ksl_elems_def ksl_keys_def)
next
  case (Some root)
  have rt: "blk_ok lt (blk_height root) root" "root_ok root" and n: "ksl_n ksl = length (elems root)" and ns: "\<not> ksl_stale ksl"
    and e: "ksl_elems ksl = elems root" and K: "ksl_keys ksl = kset root"
    using ok Some by (auto simp: ksl_ok_def ksl_elems_def ksl_keys_def)
  obtain b0 h0 where b0: "(case root of
        Node [(kl, l), (kr, r)] \<Rightarrow>
          if blk_n l = 16 \<and> blk_n r = 16
          then bindR (ksl_merge_node [(kl, l), (kr, r)] 0) (\<lambda>(b, _). Ok b) else Ok root
      | _ \<Rightarrow> Ok root) = Ok b0" "blk_ok lt h0 b0" "root_ok b0" "elems b0 = elems root" "kset b0 \<subseteq> kset root"
    by (rule remove_pre_ok [OF rt])
  have "\<forall>x \<in> kset b0. agrees lt cmp x key" using ag K b0(5) by auto
  from remove_root_ok [OF b0(2,3) this] obtain h' b r where r: "ksl_remove_loop cmp True b0 key = Ok (b, r)"
    "blk_ok lt h' b" "root_ok b" "kset b \<subseteq> kset b0" "rem_spec (elems root) key (elems b) r (leaves b)"
    using b0(4) by auto
  show ?thesis
  proof (cases r)
    case None
    let ?ksl = "ksl\<lparr>ksl_root := Some b\<rparr>"
    have el: "elems b = elems root" "key \<notin> fst ` set (elems root)" using r(5) None by (auto simp: rem_spec_def)
    have "ksl_ok lt ?ksl" by (rule ksl_okI) (use n ns el r in \<open>auto simp: ksl_elems_def\<close>)
    then have "ksl_remove_spec lt ksl key ?ksl (Some NGTCP2_ERR_INVALID_ARGUMENT) it" for it
      unfolding ksl_remove_spec_def using el r(4) b0(5) K e by (auto simp: ksl_elems_def ksl_keys_def)
    then show ?thesis using Some ns b0(1) r(1) None by (auto simp: ngtcp2_ksl_remove_def ngtcp2_ksl_end_def Let_def)
  next
    case (Some i)
    let ?ksl = "ksl\<lparr>ksl_root := Some b, ksl_n := ksl_n ksl - 1\<rparr>"
    obtain xs d ys where el: "elems root = xs @ (key, d) # ys" "elems b = xs @ ys" "it_pos (leaves b) i (length xs)"
      using r(5) Some by (auto simp: rem_spec_def)
    have "ksl_ok lt ?ksl" by (rule ksl_okI) (use n ns el r in \<open>auto simp: ksl_elems_def\<close>)
    moreover have "ksl_it_at ?ksl (it_fix (leaves b) i) (length xs)"
      using it_fix_std [OF el(3) leaves_chain [OF r(2)]] by (simp add: ksl_it_at_def)
    ultimately have "ksl_remove_spec lt ksl key ?ksl None (Some (it_fix (leaves b) i))"
      unfolding ksl_remove_spec_def using el r(4) b0(5) K e by (auto simp: ksl_elems_def ksl_keys_def)
    then show ?thesis using \<open>ksl_root ksl = Some root\<close> ns b0(1) r(1) Some by (auto simp: ngtcp2_ksl_remove_def Let_def)
  qed
qed

end

section \<open>Removal at an iterator\<close>

lemma leaf_update_list_split:
  "l < length (leaves_list cs) \<Longrightarrow> \<exists>xs k c ys. cs = xs @ (k, c) # ys \<and> length (leaves_list xs) \<le> l \<and>
     l - length (leaves_list xs) < length (leaves c) \<and>
     leaf_update_list cs l es = xs @ (k, leaf_update c (l - length (leaves_list xs)) es) # ys"
proof (induction cs arbitrary: l)
  case (Cons d cs)
  obtain k c where d: "d = (k, c)" by force
  show ?case
  proof (cases "l < length (leaves c)")
    case True
    then show ?thesis using d by (intro exI [of _ "[]"]) simp
  next
    case False
    then have "l - length (leaves c) < length (leaves_list cs)" using Cons.prems d by auto
    then obtain xs k' c' ys where "cs = xs @ (k', c') # ys" "length (leaves_list xs) \<le> l - length (leaves c)"
      "l - length (leaves c) - length (leaves_list xs) < length (leaves c')"
      "leaf_update_list cs (l - length (leaves c)) es = xs @ (k', leaf_update c' (l - length (leaves c) - length (leaves_list xs)) es) # ys"
      using Cons.IH by blast
    then show ?thesis using d False by (intro exI [of _ "(k, c) # xs"] exI [of _ k'] exI [of _ c'] exI [of _ ys]) auto
  qed
qed simp

lemma leaf_update_n: "blk_n (leaf_update (Node cs) l es) = length cs"
proof -
  have "length (leaf_update_list cs l es) = length cs" by (induction cs arbitrary: l) simp_all
  then show ?thesis by simp
qed

lemma leaf_update_ok:
  assumes "blk_ok lt h b" "l < length (leaves b)" "sorted_wrt lt (map fst es)" "length es \<le> 32"
    and "fst ` set es \<subseteq> fst ` set (leaves b ! l)" "h = 0 \<or> 16 \<le> length es"
  shows "blk_ok lt h (leaf_update b l es)" "leaves (leaf_update b l es) = (leaves b)[l := es]"
    "kset (leaf_update b l es) \<subseteq> kset b"
proof -
  have "blk_ok lt h (leaf_update b l es) \<and> leaves (leaf_update b l es) = (leaves b)[l := es] \<and>
    kset (leaf_update b l es) \<subseteq> kset b"
    using assms(1,2,5,6)
  proof (induction h arbitrary: b l)
    case 0
    then show ?case using blk_ok_0 assms(3,4) by fastforce
  next
    case (Suc h)
    then obtain cs where b: "b = Node cs" using blk_ok_Suc by blast
    have ok: "children_ok lt h cs" "length cs \<le> 32" using Suc.prems b by simp_all
    have l: "l < length (leaves_list cs)" using Suc.prems(2) b by (simp add: leaves_Node del: leaves.simps)
    obtain xs k c ys where cs: "cs = xs @ (k, c) # ys" "length (leaves_list xs) \<le> l"
      "l - length (leaves_list xs) < length (leaves c)"
      "leaf_update_list cs l es = xs @ (k, leaf_update c (l - length (leaves_list xs)) es) # ys"
      using leaf_update_list_split [OF l] by blast
    define l' where "l' = l - length (leaves_list xs)"
    have ln: "leaves b ! l = leaves c ! l'" unfolding b leaves_Node cs(1) l'_def using cs(2,3) by (simp add: nth_append)
    have es: "16 \<le> length es" using Suc.prems(4) by simp
    have "blk_ok lt h c" using ok cs(1) by (simp add: child_ok_def)
    from Suc.IH [OF this, of l'] have IH: "blk_ok lt h (leaf_update c l' es)" "leaves (leaf_update c l' es) = (leaves c)[l' := es]"
      "kset (leaf_update c l' es) \<subseteq> kset c" using cs(3) es Suc.prems(3) ln unfolding l'_def by simp_all
    have "16 \<le> blk_n (leaf_update c l' es)"
    proof (cases c)
      case (Leaf fs)
      then show ?thesis using cs(3) es unfolding l'_def by simp
    next
      case (Node ds)
      then show ?thesis using ok cs(1) leaf_update_n [of ds l' es] by (simp add: child_ok_def)
    qed
    from shrink_child_ok [OF ok(1) [unfolded cs(1)] IH(1) this IH(3)]
    have "children_ok lt h (xs @ (k, leaf_update c l' es) # ys)" .
    moreover have "(leaves_list cs)[l := es] = leaves_list xs @ (leaves c)[l' := es] @ leaves_list ys"
      using cs(2,3) unfolding cs(1) l'_def by (simp add: list_update_append)
    moreover have "kset (Node (xs @ (k, leaf_update c l' es) # ys)) \<subseteq> kset (Node cs)" using IH(3) cs(1) by auto
    moreover have "length (xs @ (k, leaf_update c l' es) # ys) \<le> 32" using ok(2) cs(1) by simp
    ultimately show ?case
      unfolding b leaf_update.simps cs(4) leaves_Node l'_def [symmetric] using IH(2) by simp
  qed
  then show "blk_ok lt h (leaf_update b l es)" "leaves (leaf_update b l es) = (leaves b)[l := es]"
    "kset (leaf_update b l es) \<subseteq> kset b" by blast+
qed

lemma concat_update:
  assumes "l < length ls" "i < length (ls ! l)"
  shows "concat ls = concat (take l ls) @ take i (ls ! l) @ ls ! l ! i # drop (Suc i) (ls ! l) @ concat (drop (Suc l) ls)"
    "concat (ls[l := take i (ls ! l) @ drop (Suc i) (ls ! l)]) =
       concat (take l ls) @ take i (ls ! l) @ drop (Suc i) (ls ! l) @ concat (drop (Suc l) ls)"
proof -
  have "ls = take l ls @ (take i (ls ! l) @ ls ! l ! i # drop (Suc i) (ls ! l)) # drop (Suc l) ls"
    using assms id_take_nth_drop [of l ls] id_take_nth_drop [of i "ls ! l"] by simp
  then have "concat ls = concat (take l ls @ (take i (ls ! l) @ ls ! l ! i # drop (Suc i) (ls ! l)) # drop (Suc l) ls)"
    by (rule arg_cong)
  then show "concat ls = concat (take l ls) @ take i (ls ! l) @ ls ! l ! i # drop (Suc i) (ls ! l) @ concat (drop (Suc l) ls)"
    by simp
  show "concat (ls[l := take i (ls ! l) @ drop (Suc i) (ls ! l)]) =
       concat (take l ls) @ take i (ls ! l) @ drop (Suc i) (ls ! l) @ concat (drop (Suc l) ls)"
    using assms(1) by (simp add: upd_conv_take_nth_drop)
qed

lemma take_drop_remove: "es = us @ x # vs \<Longrightarrow> length us = p \<Longrightarrow> take p es @ drop (Suc p) es = us @ vs"
  by auto

lemma sorted_remove:
  assumes "sorted_wrt lt (map fst es)" "i < length es"
  shows "sorted_wrt lt (map fst (take i es @ drop (Suc i) es))"
proof -
  have "sorted_wrt lt (map fst (take i es @ es ! i # drop (Suc i) es))"
    using assms id_take_nth_drop [of i es] by simp
  then show ?thesis by (simp add: sorted_wrt_append)
qed

lemma leaf_sorted:
  assumes "sorted_wrt lt (map fst (concat ls))" "es \<in> set ls"
  shows "sorted_wrt lt (map fst es)"
  using assms by (induction ls) (auto simp: sorted_wrt_append)

lemma leaf_bounds:
  "blk_ok lt h b \<Longrightarrow> es \<in> set (leaves b) \<Longrightarrow> length es \<le> 32 \<and> (h = 0 \<or> 16 \<le> length es)"
proof (induction h arbitrary: b)
  case 0
  then show ?case using blk_ok_0 by fastforce
next
  case (Suc h)
  then obtain cs where b: "b = Node cs" using blk_ok_Suc by blast
  then obtain c where c: "c \<in> set cs" "es \<in> set (leaves (snd c))" using Suc.prems by auto
  have ok: "blk_ok lt h (snd c)" "16 \<le> blk_n (snd c)" using children_ok_child [of lt h cs c] Suc.prems b c by (auto simp: child_ok_def)
  have "16 \<le> length es" if "h = 0" using ok c(2) that blk_ok_0 [of lt "snd c"] by auto
  then show ?case using Suc.IH [OF ok(1) c(2)] by auto
qed

context ksl_order
begin

lemma ksl_remove_hint_ok:
  assumes ok: "ksl_ok lt ksl" and ag: "\<forall>x \<in> ksl_keys ksl. agrees lt cmp x key"
    and hint: "ksl_it_at ksl hint p" "p < length (ksl_elems ksl)" "fst (ksl_elems ksl ! p) = key"
  shows "\<exists>ksl' it. ngtcp2_ksl_remove_hint cmp ksl hint key = Ok (ksl', None, Some it) \<and> ksl_ok lt ksl' \<and>
    ksl_keys ksl' \<subseteq> ksl_keys ksl \<and> ksl_elems ksl' = take p (ksl_elems ksl) @ drop (Suc p) (ksl_elems ksl) \<and>
    ksl_it_at ksl' it p"
proof -
  obtain root where root: "ksl_root ksl = Some root" using hint(2) by (cases "ksl_root ksl") (auto simp: ksl_elems_def)
  have rt: "blk_ok lt (blk_height root) root" "root_ok root" and n: "ksl_n ksl = length (elems root)" and ns: "\<not> ksl_stale ksl"
    and e: "ksl_elems ksl = elems root" and K: "ksl_keys ksl = kset root"
    using ok root by (auto simp: ksl_ok_def ksl_elems_def ksl_keys_def)
  have srt: "sorted_wrt lt (map fst (elems root))" by (rule elems_sorted [OF rt(1)])
  have at: "it_at (leaves root) hint p" using hint root e by (simp add: ksl_it_at_def it_std_at)
  define es where "es = leaves root ! fst hint"
  have h: "fst hint < length (leaves root)" "snd hint < length es" "length (concat (take (fst hint) (leaves root))) + snd hint = p"
    using at unfolding es_def by (auto simp: it_at_def)
  show ?thesis
  proof (cases "\<not> blk_leaf root \<and> length es = 16")
    case True
    obtain ksl' rv it where r: "ngtcp2_ksl_remove cmp ksl key = Ok (ksl', rv, it)" "ksl_remove_spec lt ksl key ksl' rv it"
      using ksl_remove_ok [OF ok ag] by blast
    have "key \<in> fst ` set (ksl_elems ksl)" using hint(2,3) by (metis image_eqI nth_mem)
    then obtain xs d ys i where s: "rv = None" "ksl_elems ksl = xs @ (key, d) # ys" "ksl_elems ksl' = xs @ ys"
      "it = Some i" "ksl_it_at ksl' i (length xs)" "ksl_ok lt ksl'" "ksl_keys ksl' \<subseteq> ksl_keys ksl"
      using r(2) by (auto simp: ksl_remove_spec_def)
    have "length xs = p"
    proof (rule ccontr)
      assume ne: "length xs \<noteq> p"
      have s': "sorted_wrt lt (map fst (ksl_elems ksl))" using srt e by simp
      have f: "fst (ksl_elems ksl ! length xs) = key" "length xs < length (ksl_elems ksl)" using s(2) by auto
      from ne consider "length xs < p" | "p < length xs" by linarith
      then have "lt key key"
        using s' hint(2,3) f unfolding sorted_wrt_iff_nth_less by cases (metis length_map nth_map)+
      then show False by simp
    qed
    then show ?thesis using r(1) s True root ns h unfolding es_def by (simp add: ngtcp2_ksl_remove_hint_def)
  next
    case False
    define es' where "es' = take (snd hint) es @ drop (Suc (snd hint)) es"
    define b where "b = leaf_update root (fst hint) es'"
    have in_ls: "es \<in> set (leaves root)" using h(1) unfolding es_def by simp
    have "sorted_wrt lt (map fst es)" by (rule leaf_sorted [OF _ in_ls]) (use srt in simp)
    then have "sorted_wrt lt (map fst es')" unfolding es'_def using h(2) by (rule sorted_remove)
    moreover have "fst ` set es' \<subseteq> fst ` set es" unfolding es'_def by (auto dest: in_set_takeD in_set_dropD)
    moreover have len: "length es' + 1 = length es" using h(2) unfolding es'_def by simp
    moreover have "length es \<le> 32" "blk_height root = 0 \<or> 16 < length es"
      using leaf_bounds [OF rt(1) in_ls] False rt(1) by (cases root; auto)+
    ultimately have b: "blk_ok lt (blk_height root) b" "leaves b = (leaves root)[fst hint := es']" "kset b \<subseteq> kset root"
      using leaf_update_ok [OF rt(1) h(1), of es'] unfolding b_def es_def by auto
    have le: "length (leaves b) = length (leaves root)" using b(2) by simp
    have el: "elems b = take p (elems root) @ drop (Suc p) (elems root)"
    proof -
      have "snd hint < length (leaves root ! fst hint)" using h(2) unfolding es_def .
      note c = concat_update [OF h(1) this, folded es_def]
      have "elems b = concat (take (fst hint) (leaves root)) @ take (snd hint) es @ drop (Suc (snd hint)) es @
          concat (drop (Suc (fst hint)) (leaves root))"
        unfolding elems_def b(2) es'_def by (rule c(2))
      moreover have "elems root = (concat (take (fst hint) (leaves root)) @ take (snd hint) es) @ es ! snd hint #
          (drop (Suc (snd hint)) es @ concat (drop (Suc (fst hint)) (leaves root)))"
        unfolding elems_def append_assoc by (rule c(1))
      moreover have "length (concat (take (fst hint) (leaves root)) @ take (snd hint) es) = p" using h(2,3) by simp
      ultimately show ?thesis using take_drop_remove [of "elems root"] by (metis append_assoc)
    qed
    have rb: "root_ok b" using rt(2) leaf_update_n [of _ "fst hint" es'] unfolding b_def by (cases root) auto
    have pos: "it_pos (leaves b) hint p"
      using h len b(2) unfolding it_pos_def by simp
    let ?ksl = "ksl\<lparr>ksl_root := Some b, ksl_n := ksl_n ksl - 1\<rparr>"
    have "p < length (elems root)" using hint(2) e by simp
    then have "ksl_ok lt ?ksl"
      by (intro ksl_okI) (use n ns b rb el in \<open>auto simp: ksl_elems_def\<close>)
    moreover have "ksl_it_at ?ksl (it_fix (leaves b) hint) p"
      using it_fix_std [OF pos leaves_chain [OF b(1)]] by (simp add: ksl_it_at_def)
    moreover have "ngtcp2_ksl_remove_hint cmp ksl hint key = Ok (?ksl, None, Some (it_fix (leaves b) hint))"
      using root ns h False unfolding es_def b_def es'_def by (auto simp: ngtcp2_ksl_remove_hint_def Let_def ksl_remove_node_def)
    ultimately show ?thesis using el e b(3) K by (auto simp: ksl_elems_def ksl_keys_def)
  qed
qed

end

section \<open>Key updates\<close>

text \<open>
  The new key takes the place of the old one among the keys of the tree. \<open>ngtcp2_ksl_update_key\<close>
  updates a key on its path if it equals the old key or is smaller than the new one, so the new key
  must not be larger than a key that is larger than the old one.
\<close>

definition replaces :: "('k \<Rightarrow> 'k \<Rightarrow> bool) \<Rightarrow> ('k \<Rightarrow> 'k \<Rightarrow> bool) \<Rightarrow> 'k \<Rightarrow> 'k \<Rightarrow> 'k \<Rightarrow> bool" where
  "replaces lt cmp k old new = (k = old \<or> lt k old \<and> lt k new \<or> lt old k \<and> lt new k \<and> \<not> cmp k new)"

definition upd_ok ::
    "('k \<Rightarrow> 'k \<Rightarrow> bool) \<Rightarrow> nat \<Rightarrow> ('k, 'v) blk \<Rightarrow> 'k \<Rightarrow> 'k \<Rightarrow> ('k, 'v) blk res \<Rightarrow> bool" where
  "upd_ok lt h b old new res =
     (\<exists>b' xs d ys. res = Ok b' \<and> blk_ok lt h b' \<and> blk_n b' = blk_n b \<and> kset b' \<subseteq> insert new (kset b - {old}) \<and>
        elems b = xs @ (old, d) # ys \<and> elems b' = xs @ (new, d) # ys \<and>
        map length (leaves b') = map length (leaves b))"

context ksl_order
begin

lemma replaces_below: "replaces lt cmp x old new \<Longrightarrow> lt x old \<Longrightarrow> lt x new \<and> x \<noteq> old"
  using lt_asym by (auto simp: replaces_def)

lemma replaces_above: "replaces lt cmp x old new \<Longrightarrow> lt old x \<Longrightarrow> lt new x \<and> x \<noteq> old"
  using lt_asym by (auto simp: replaces_def)

lemma update_leaf:
  assumes s: "sorted_wrt lt (map fst es)" and ag: "\<forall>x \<in> fst ` set es. agrees lt cmp x old" and old: "old \<in> fst ` set es"
    and rep: "\<forall>x \<in> fst ` set es. replaces lt cmp x old new" and len: "length es \<le> 32"
  shows "upd_ok lt 0 (Leaf es) old new (ksl_update_key_loop cmp (Leaf es) old new)"
proof -
  obtain xs ys where es: "es = xs @ ys" and i: "ksl_search cmp (Leaf es) old = length xs"
    and xs: "\<forall>x \<in> fst ` set xs. lt x old" and ys: "\<forall>y \<in> fst ` set ys. old = y \<or> lt old y"
    by (rule leaf_search [OF s ag])
  have "old \<in> fst ` set ys" using old xs es by fastforce
  then obtain y zs where y: "ys = y # zs" by (cases ys) auto
  have "fst y = old"
  proof (rule ccontr)
    assume "fst y \<noteq> old"
    then have "lt old (fst y)" using ys y by auto
    moreover have "old \<in> fst ` set zs" using \<open>old \<in> fst ` set ys\<close> \<open>fst y \<noteq> old\<close> y by auto
    then have "lt (fst y) old" using s es y by (auto simp: sorted_wrt_append)
    ultimately show False using lt_asym by blast
  qed
  then obtain d where d: "y = (old, d)" by (cases y) auto
  have "\<not> cmp old old" using ag es y d by (auto simp: agrees_def)
  then have e: "ksl_update_key_loop cmp (Leaf es) old new = Ok (Leaf (xs @ (new, d) # zs))"
    using i es y d by (simp add: key_equal_def)
  have so: "\<forall>x \<in> set xs. lt (fst x) old" "\<forall>z \<in> set zs. lt old (fst z)" using s es y d by (auto simp: sorted_wrt_append)
  have "replaces lt cmp (fst x) old new" if "x \<in> set xs \<union> set zs" for x using rep that es y by auto
  with so have "\<forall>x \<in> set xs. lt (fst x) new" "\<forall>z \<in> set zs. lt new (fst z)"
    using replaces_below replaces_above by blast+
  then have "sorted_wrt lt (map fst (xs @ (new, d) # zs))" using s es y d by (auto simp: sorted_wrt_append)
  moreover have "old \<notin> fst ` set xs" "old \<notin> fst ` set zs" using so lt_irrefl by fastforce+
  ultimately show ?thesis unfolding upd_ok_def e using es y d len
    by (intro exI [of _ "Leaf (xs @ (new, d) # zs)"] exI [of _ xs] exI [of _ d] exI [of _ zs]) auto
qed

lemma update_loop_ok:
  assumes "blk_ok lt h b" "\<forall>x \<in> kset b. agrees lt cmp x old" "old \<in> fst ` set (elems b)"
    "\<forall>x \<in> kset b. replaces lt cmp x old new"
  shows "upd_ok lt h b old new (ksl_update_key_loop cmp b old new)"
  using assms
proof (induction h arbitrary: b)
  case 0
  then obtain es where "b = Leaf es" using blk_ok_0 by blast
  then show ?case using 0 update_leaf [of es cmp old new] by simp
next
  case (Suc h)
  then obtain cs where b: "b = Node cs" using blk_ok_Suc by blast
  have ok: "children_ok lt h cs" and len: "length cs \<le> 32" and ag: "\<forall>x \<in> kset (Node cs). agrees lt cmp x old"
    and rep: "\<forall>x \<in> kset (Node cs). replaces lt cmp x old new" and old: "old \<in> fst ` set (elems_list cs)"
    using Suc.prems b by auto
  have "ksl_search cmp (Node cs) old \<noteq> length cs"
  proof
    assume "ksl_search cmp (Node cs) old = length cs"
    from search_all [OF this ag] key_below [of h cs "[]"] ok old show False by simp
  qed
  then have "ksl_search cmp (Node cs) old < length cs" using search_le [of cmp "Node cs" old] by simp
  then obtain xs k c ys where cs: "cs = xs @ (k, c) # ys" and i: "ksl_search cmp (Node cs) old = length xs"
    and lo: "\<forall>c \<in> set xs. lt (fst c) old" and hi: "old = k \<or> lt old k"
    by (rule search_split [OF _ ag])
  note ok' = ok [unfolded cs] and i' = i [unfolded cs]
  have "old \<in> fst ` set (elems c)"
    using old cs key_below [OF ok' lo] key_above [OF ok' hi] by auto
  moreover have "blk_ok lt h c" using ok' by (simp add: child_ok_def)
  ultimately obtain c' us d vs where r: "ksl_update_key_loop cmp c old new = Ok c'" "blk_ok lt h c'" "blk_n c' = blk_n c"
    "kset c' \<subseteq> insert new (kset c - {old})" "elems c = us @ (old, d) # vs" "elems c' = us @ (new, d) # vs"
    "map length (leaves c') = map length (leaves c)"
    using Suc.IH [of c] ag rep cs unfolding upd_ok_def by auto
  define k' where "k' = (if key_equal cmp k old \<or> cmp k new then new else k)"
  have k: "agrees lt cmp k old" "replaces lt cmp k old new" using ag rep cs by auto
  have k': "k' = (if k = old then new else k)"
    using k hi lt_asym unfolding k'_def key_equal_def agrees_def replaces_def by auto
  have e: "ksl_update_key_loop cmp (Node cs) old new = Ok (Node (xs @ (k', c') # ys))"
    using r(1) i' by (simp add: cs put_child_def k'_def)
  have below: "lt x new" "x \<noteq> old" if "lt x old" "x \<in> kset (Node cs)" for x
    using rep that replaces_below by blast+
  have above: "lt new x" "x \<noteq> old" if "lt old x" "x \<in> kset (Node cs)" for x
    using rep that replaces_above by blast+
  have xk: "lt x old" if "x \<in> kset (Node xs)" for x
    using that lo child_le [OF ok'] le_less by fastforce
  have yk: "lt old x" if "x \<in> kset (Node ys)" for x
    using child_above [OF ok' that] le_less [OF hi] by simp
  have "children_ok lt h (xs @ (k', c') # ys)"
  proof (rule replace_child_ok [OF ok'])
    show "child_ok lt h (k', c')"
    proof -
      have "x = k' \<or> lt x k'" if "x \<in> kset c'" for x
      proof (cases "x = new")
        case True
        then show ?thesis using k' hi above [of k] cs by auto
      next
        case False
        then have x: "x \<in> kset c" "x \<noteq> old" using r(4) that by auto
        then have "x = k \<or> lt x k" using ok' by (auto simp: child_ok_def)
        then show ?thesis using k' x below [of x] cs by auto
      qed
      then show ?thesis using r(2,3) ok' by (simp add: child_ok_def)
    qed
    show "lt (fst u) x" if "u \<in> set xs" "x \<in> kset c'" for u x
    proof (cases "x = new")
      case True
      then show ?thesis using below [of "fst u"] lo that(1) cs by auto
    next
      case False
      then have "x \<in> kset c" using r(4) that by auto
      then show ?thesis using ok' that(1) by auto
    qed
    show "lt k' x" if "u \<in> set ys" "x \<in> kset (snd u)" for u x
    proof -
      have "lt k x" using ok' that by auto
      moreover have "lt new x" by (rule above) (use that yk cs in auto)
      ultimately show ?thesis using k' by simp
    qed
  qed
  moreover have "kset (Node (xs @ (k', c') # ys)) \<subseteq> insert new (kset (Node cs) - {old})"
  proof
    fix x assume "x \<in> kset (Node (xs @ (k', c') # ys))"
    then consider "x \<in> kset (Node xs)" | "x \<in> kset (Node ys)" | "x = k'" | "x \<in> kset c'" by auto
    then show "x \<in> insert new (kset (Node cs) - {old})"
    proof cases
      case 1
      then have "x \<in> kset (Node cs)" using cs by auto
      with below(2) [OF xk [OF 1]] show ?thesis by simp
    next
      case 2
      then have "x \<in> kset (Node cs)" using cs by auto
      with above(2) [OF yk [OF 2]] show ?thesis by simp
    next
      case 3 then show ?thesis using k' cs by auto
    next
      case 4 then show ?thesis using r(4) cs by auto
    qed
  qed
  moreover have "map length (leaves (Node (xs @ (k', c') # ys))) = map length (leaves (Node cs))"
    using r(7) cs by (simp add: leaves_Node del: leaves.simps)
  ultimately show ?case unfolding b upd_ok_def e using r(5,6) len cs
    by (intro exI [of _ "Node (xs @ (k', c') # ys)"] exI [of _ "elems_list xs @ us"] exI [of _ d]
        exI [of _ "vs @ elems_list ys"]) (simp del: leaves.simps kset.simps)
qed

lemma it_pos_lengths:
  assumes "map length ls' = map length ls" "it_pos ls it p"
  shows "it_pos ls' it p"
proof -
  have l: "length ls' = length ls" using assms(1) by (rule map_eq_imp_length_eq)
  have n: "length (ls' ! i) = length (ls ! i)" if "i < length ls" for i
    using assms(1) l that by (metis nth_map)
  have "length (concat (take i ls')) = length (concat (take i ls))" for i
    using assms(1) by (simp add: length_concat take_map [symmetric] del: take_map)
  with assms(2) l n show ?thesis by (simp add: it_pos_def)
qed

lemma ksl_update_key_ok:
  assumes ok: "ksl_ok lt ksl" and ag: "\<forall>x \<in> ksl_keys ksl. agrees lt cmp x old"
    and rep: "\<forall>x \<in> ksl_keys ksl. replaces lt cmp x old new" and old: "old \<in> fst ` set (ksl_elems ksl)"
  shows "\<exists>ksl' xs d ys. ngtcp2_ksl_update_key cmp ksl old new = Ok ksl' \<and> ksl_ok lt ksl' \<and>
    ksl_keys ksl' \<subseteq> insert new (ksl_keys ksl - {old}) \<and>
    ksl_elems ksl = xs @ (old, d) # ys \<and> ksl_elems ksl' = xs @ (new, d) # ys \<and>
    (\<forall>it p. ksl_it_at ksl it p \<longrightarrow> ksl_it_at ksl' it p)"
proof -
  obtain root where root: "ksl_root ksl = Some root" using old by (cases "ksl_root ksl") (auto simp: ksl_elems_def)
  have rt: "blk_ok lt (blk_height root) root" "root_ok root" and n: "ksl_n ksl = length (elems root)" and ns: "\<not> ksl_stale ksl"
    and e: "ksl_elems ksl = elems root" and K: "ksl_keys ksl = kset root"
    using ok root by (auto simp: ksl_ok_def ksl_elems_def ksl_keys_def)
  obtain b xs d ys where b: "ksl_update_key_loop cmp root old new = Ok b" "blk_ok lt (blk_height root) b"
    "blk_n b = blk_n root" "kset b \<subseteq> insert new (kset root - {old})" "elems root = xs @ (old, d) # ys"
    "elems b = xs @ (new, d) # ys" "map length (leaves b) = map length (leaves root)"
    using update_loop_ok [OF rt(1)] ag rep old e K unfolding upd_ok_def by metis
  let ?ksl = "ksl\<lparr>ksl_root := Some b\<rparr>"
  have rb: "root_ok b" using rt(2) b(2,3) rt(1) by (cases root; cases b; cases "blk_height root") auto
  have "ksl_ok lt ?ksl" by (rule ksl_okI) (use n ns b rb in \<open>auto simp: ksl_elems_def\<close>)
  moreover have "ksl_it_at ?ksl it p" if "ksl_it_at ksl it p" for it p
  proof -
    have s: "it_std (leaves root) it p" using that root by (simp add: ksl_it_at_def)
    then have "fst it < length (leaves root)" by (simp add: it_std_def it_pos_def)
    with b(7) have "length (leaves b ! fst it) = length (leaves root ! fst it)" "length (leaves b) = length (leaves root)"
      by (metis nth_map length_map)+
    with s it_pos_lengths [OF b(7), of it p] show ?thesis by (simp add: ksl_it_at_def it_std_def)
  qed
  moreover have "ngtcp2_ksl_update_key cmp ksl old new = Ok ?ksl" using root b(1) by (simp add: ngtcp2_ksl_update_key_def)
  ultimately show ?thesis using b(4-6) e K
    by (intro exI [of _ ?ksl] exI [of _ xs] exI [of _ d] exI [of _ ys]) (auto simp: ksl_elems_def ksl_keys_def)
qed

end

text \<open>An insertion consumes answers of the allocator from the front.\<close>

lemma insert_last_alloc: "ksl_insert_last al b key data = Ok (b', r, al') \<Longrightarrow> set al' \<subseteq> set al"
proof (induction al b key data arbitrary: b' r al' rule: ksl_insert_last.induct)
  case (2 al cs key data)
  obtain ok al0 where al: "ksl_alloc al = (ok, al0)" by force
  from 2 al alloc_sub [OF al] show ?case
    by (auto simp: bindR_eq_Ok split: if_splits) blast+
qed (auto simp: bindR_eq_Ok)

lemma insert_loop_alloc: "ksl_insert_loop cmp al b key data = Ok (b', r, al') \<Longrightarrow> set al' \<subseteq> set al"
proof (induction cmp al b key data arbitrary: b' r al' rule: ksl_insert_loop.induct)
  case (2 cmp al cs key data)
  let ?i = "ksl_search cmp (Node cs) key"
  obtain ok al0 where al: "ksl_alloc al = (ok, al0)" by force
  consider "?i = length cs" | "?i \<noteq> length cs" "blk_n (snd (cs ! ?i)) = 32" "\<not> ok"
    | "?i \<noteq> length cs" "blk_n (snd (cs ! ?i)) = 32" "ok" | "?i \<noteq> length cs" "blk_n (snd (cs ! ?i)) \<noteq> 32" by blast
  then show ?case
  proof cases
    case 1
    then show ?thesis using 2(3) by (auto simp del: ksl_insert_last.simps dest: insert_last_alloc)
  next
    case 2
    then show ?thesis using \<open>ksl_insert_loop cmp al (Node cs) key data = _\<close> al alloc_sub [OF al] by simp
  next
    case 3
    then obtain ds b0 r0 where ds: "ksl_split_node cs ?i = Ok ds"
      and r: "\<not> (if cmp (fst (ds ! ?i)) key then ?i + 1 else ?i) \<ge> length ds"
        "ksl_insert_loop cmp al0 (snd (ds ! (if cmp (fst (ds ! ?i)) key then ?i + 1 else ?i))) key data = Ok (b0, r0, al')"
      using \<open>ksl_insert_loop cmp al (Node cs) key data = _\<close> al by (auto simp: bindR_eq_Ok Let_def split: if_splits)
    from "2.IH"(1) [OF refl 3(1,2) al [symmetric] refl _ ds refl r] 3(3) alloc_sub [OF al] show ?thesis by auto
  next
    case 4
    then show ?thesis
      using \<open>ksl_insert_loop cmp al (Node cs) key data = _\<close> "2.IH"(2) [OF refl 4] by (auto simp: bindR_eq_Ok Let_def)
  qed
qed (auto simp: bindR_eq_Ok Let_def split: if_splits)

lemma insert_alloc: "ngtcp2_ksl_insert cmp al ksl key data = Ok (ksl', rv, it, al') \<Longrightarrow> set al' \<subseteq> set al"
proof -
  assume a: "ngtcp2_ksl_insert cmp al ksl key data = Ok (ksl', rv, it, al')"
  obtain ok1 al1 where al: "ksl_alloc al = (ok1, al1)" by force
  obtain ok2 al2 where al2: "ksl_alloc al1 = (ok2, al2)" by force
  have r: "set al' \<subseteq> set al0" if h: "ksl_insert_root cmp al0 ksl root key data = Ok (ksl', rv, it, al')" for al0 root
  proof -
    obtain b r al1 where l: "ksl_insert_loop cmp al0 root key data = Ok (b, r, al1)"
      using h by (auto simp: ksl_insert_root_def bindR_eq_Ok)
    then have "al1 = al'" using h by (cases r) (auto simp: ksl_insert_root_def bindR_eq_Ok Let_def)
    with l have "ksl_insert_loop cmp al0 root key data = Ok (b, r, al')" by simp
    then show ?thesis by (rule insert_loop_alloc)
  qed
  show ?thesis using a al al2 alloc_sub [OF al] alloc_sub [OF al2]
    by (auto simp: ngtcp2_ksl_insert_def bindR_eq_Ok split: if_splits option.splits dest: r)
qed

section \<open>The maps of the library\<close>

text \<open>
  The abstract map of a list, and the two orders of integers the library uses: received packet
  numbers and sent packets are kept in descending order of the packet number, the offsets of
  stream data in ascending order.
\<close>

definition ksl_map :: "('k, 'v) ngtcp2_ksl \<Rightarrow> 'k \<rightharpoonup> 'v" where
  "ksl_map ksl = map_of (ksl_elems ksl)"

interpretation i64: ksl_order ngtcp2_ksl_int64_greater
  by unfold_locales (auto simp: ngtcp2_ksl_int64_greater_def)

interpretation u64: ksl_order ngtcp2_ksl_uint64_less
  by unfold_locales (auto simp: ngtcp2_ksl_uint64_less_def)

lemma int64_agrees: "\<forall>x \<in> K. agrees ngtcp2_ksl_int64_greater ngtcp2_ksl_int64_greater x key"
  by (auto simp: agrees_def ngtcp2_ksl_int64_greater_def) (metis not_less_iff_gr_or_eq signed_word_eqI)

lemma uint64_agrees: "\<forall>x \<in> K. agrees ngtcp2_ksl_uint64_less ngtcp2_ksl_uint64_less x key"
  by (auto simp: agrees_def ngtcp2_ksl_uint64_less_def)

lemma dom_ksl_map: "key \<in> dom (ksl_map ksl) \<longleftrightarrow> key \<in> fst ` set (ksl_elems ksl)"
  by (simp add: ksl_map_def dom_map_of_conv_image_fst)

lemma map_of_remove_mid:
  "k \<notin> fst ` set xs \<Longrightarrow> k \<notin> fst ` set ys \<Longrightarrow> map_of (xs @ ys) = (map_of (xs @ (k, d) # ys))(k := None)"
  by (induction xs) (auto simp: fun_eq_iff map_of_eq_None_iff)

lemma map_of_insert_mid:
  "k \<notin> fst ` set xs \<Longrightarrow> map_of (xs @ (k, d) # ys) = (map_of (xs @ ys))(k \<mapsto> d)"
  by (induction xs) (auto simp: fun_eq_iff)

context ksl_order
begin

lemma insert_map:
  assumes ok: "ksl_ok lt ksl" and ag: "\<forall>x \<in> ksl_keys ksl. agrees lt cmp x key" and al: "False \<notin> set al"
  shows "\<exists>ksl' rv it al'. ngtcp2_ksl_insert cmp al ksl key data = Ok (ksl', rv, it, al') \<and> ksl_ok lt ksl' \<and>
    (if key \<in> dom (ksl_map ksl)
     then rv = Some NGTCP2_ERR_INVALID_ARGUMENT \<and> ksl_map ksl' = ksl_map ksl \<and> ngtcp2_ksl_len ksl' = ngtcp2_ksl_len ksl
     else rv = None \<and> ksl_map ksl' = (ksl_map ksl)(key \<mapsto> data) \<and> ngtcp2_ksl_len ksl' = ngtcp2_ksl_len ksl + 1 \<and>
       (\<exists>i. it = Some i \<and> ngtcp2_ksl_it_key ksl' i = Ok key \<and> ngtcp2_ksl_it_get ksl' i = Ok data))"
proof -
  obtain ksl' rv it al' where i: "ngtcp2_ksl_insert cmp al ksl key data = Ok (ksl', rv, it, al')"
    "ksl_insert_spec lt al ksl key data ksl' rv it" using ksl_insert_ok [OF ok ag] by metis
  from i(2) al consider (new) xs ys j where "rv = None" "ksl_ok lt ksl'" "ksl_elems ksl = xs @ ys"
      "ksl_elems ksl' = xs @ (key, data) # ys" "\<forall>x \<in> fst ` set xs. lt x key" "\<forall>y \<in> fst ` set ys. lt key y"
      "it = Some j" "it_at (ksl_front_back ksl') j (length xs)"
    | (old) "rv = Some NGTCP2_ERR_INVALID_ARGUMENT" "ksl_ok lt ksl'" "ksl_elems ksl' = ksl_elems ksl" "key \<in> fst ` set (ksl_elems ksl)"
    unfolding ksl_insert_spec_def by blast
  then show ?thesis
  proof cases
    case new
    have n: "key \<notin> fst ` set xs" "key \<notin> fst ` set ys" using new(5,6) lt_irrefl by blast+
    obtain b where b: "ksl_root ksl' = Some b" using new(4) by (cases "ksl_root ksl'") (auto simp: ksl_elems_def)
    have e: "it_entry ksl' j = Ok (key, data)"
      using it_at_entry [of "leaves b" j "length xs"] new(4,8) b
      by (auto simp: it_entry_def it_blk_n_def ksl_elems_def it_at_def)
    have "ngtcp2_ksl_len ksl' = ngtcp2_ksl_len ksl + 1" using ksl_len [OF ok] ksl_len [OF new(2)] new(3,4) by simp
    moreover have "key \<notin> dom (ksl_map ksl)" using n new(3) by (auto simp: dom_ksl_map)
    moreover have "ksl_map ksl' = (ksl_map ksl)(key \<mapsto> data)" unfolding ksl_map_def new by (rule map_of_insert_mid) (rule n)
    moreover have "ngtcp2_ksl_it_key ksl' j = Ok key" "ngtcp2_ksl_it_get ksl' j = Ok data"
      using e by (simp_all add: ngtcp2_ksl_it_key_def ngtcp2_ksl_it_get_def)
    ultimately show ?thesis using i(1) new(1,2,7) by (cases j) (simp cong: if_cong)
  next
    case old
    then show ?thesis using i(1) ksl_len [OF ok] ksl_len [OF old(2)] dom_ksl_map [of key ksl]
      by (auto simp: ksl_map_def)
  qed
qed

lemma remove_map:
  assumes ok: "ksl_ok lt ksl" and ag: "\<forall>x \<in> ksl_keys ksl. agrees lt cmp x key"
  shows "\<exists>ksl' it. ngtcp2_ksl_remove cmp ksl key =
      Ok (ksl', if key \<in> dom (ksl_map ksl) then None else Some NGTCP2_ERR_INVALID_ARGUMENT, it) \<and>
    ksl_ok lt ksl' \<and> ksl_map ksl' = (ksl_map ksl)(key := None) \<and>
    ngtcp2_ksl_len ksl' = (if key \<in> dom (ksl_map ksl) then ngtcp2_ksl_len ksl - 1 else ngtcp2_ksl_len ksl)"
proof -
  obtain ksl' rv it where r: "ngtcp2_ksl_remove cmp ksl key = Ok (ksl', rv, it)" "ksl_remove_spec lt ksl key ksl' rv it"
    using ksl_remove_ok [OF ok ag] by blast
  have ok': "ksl_ok lt ksl'" using r(2) by (simp add: ksl_remove_spec_def)
  have len: "ngtcp2_ksl_len ksl = length (ksl_elems ksl)" "ngtcp2_ksl_len ksl' = length (ksl_elems ksl')"
    using ksl_len [OF ok] ksl_len [OF ok'] by auto
  from r(2) consider (del) xs d ys where "rv = None" "ksl_elems ksl = xs @ (key, d) # ys" "ksl_elems ksl' = xs @ ys"
    | (no) "rv = Some NGTCP2_ERR_INVALID_ARGUMENT" "key \<notin> fst ` set (ksl_elems ksl)" "ksl_elems ksl' = ksl_elems ksl"
    unfolding ksl_remove_spec_def by blast
  then show ?thesis
  proof cases
    case del
    have "sorted_wrt lt (map fst (ksl_elems ksl))" using ok
      by (auto simp: ksl_elems_def ksl_ok_def split: option.splits intro: elems_sorted)
    then have "key \<notin> fst ` set xs" "key \<notin> fst ` set ys" using del(2) lt_irrefl by (auto simp: sorted_wrt_append)
    then have "ksl_map ksl' = (ksl_map ksl)(key := None)" unfolding ksl_map_def del by (rule map_of_remove_mid)
    moreover have "key \<in> dom (ksl_map ksl)" using del(2) by (simp add: dom_ksl_map)
    ultimately show ?thesis using r(1) del ok' len by auto
  next
    case no
    moreover have "key \<notin> dom (ksl_map ksl)" using no(2) dom_ksl_map [of key ksl] by simp
    ultimately show ?thesis using r(1) ok' len by (auto simp: ksl_map_def fun_upd_idem)
  qed
qed

end

lemma it_next_pow:
  assumes "ksl_ok lt ksl" "i \<le> length (ksl_elems ksl)"
  shows "ksl_it_at ksl ((ngtcp2_ksl_it_next ksl ^^ i) (ngtcp2_ksl_begin ksl)) i"
  using assms(2)
proof (induction i)
  case 0
  then show ?case using ksl_begin_at [OF assms(1)] by simp
next
  case (Suc i)
  then show ?case using ksl_it_next [OF assms(1), of _ i] by simp
qed

text \<open>
  C4: \<open>ngtcp2_ksl_insert\<close> on a well-formed list implements the insertion into the abstract map: a new
  key is added with its data and the returned iterator points to it, an existing key is rejected with
  \<open>NGTCP2_ERR_INVALID_ARGUMENT\<close> and the map is unchanged; the tree stays well-formed and no assertion
  fails. Here for the order of the packet number maps, when no allocation fails.
\<close>

theorem ksl_insert_refines:
  assumes "ksl_ok ngtcp2_ksl_int64_greater ksl" "False \<notin> set al"
  shows "\<exists>ksl' rv it al'. ngtcp2_ksl_insert ngtcp2_ksl_int64_greater al ksl key data = Ok (ksl', rv, it, al') \<and>
    ksl_ok ngtcp2_ksl_int64_greater ksl' \<and>
    (if key \<in> dom (ksl_map ksl)
     then rv = Some NGTCP2_ERR_INVALID_ARGUMENT \<and> ksl_map ksl' = ksl_map ksl \<and> ngtcp2_ksl_len ksl' = ngtcp2_ksl_len ksl
     else rv = None \<and> ksl_map ksl' = (ksl_map ksl)(key \<mapsto> data) \<and> ngtcp2_ksl_len ksl' = ngtcp2_ksl_len ksl + 1 \<and>
       (\<exists>i. it = Some i \<and> ngtcp2_ksl_it_key ksl' i = Ok key \<and> ngtcp2_ksl_it_get ksl' i = Ok data))"
  by (rule i64.insert_map [OF assms(1) int64_agrees assms(2)])

theorem ksl_insert_refines_witness:
  "\<exists>ksl' rv it al'. ngtcp2_ksl_insert ngtcp2_ksl_int64_greater [True] ngtcp2_ksl_init 5 () = Ok (ksl', rv, it, al') \<and>
    rv = None \<and> ksl_map ksl' = [5 \<mapsto> ()]"
proof -
  have i: "ksl_ok ngtcp2_ksl_int64_greater ngtcp2_ksl_init" "ksl_map ngtcp2_ksl_init = (Map.empty :: i64 \<rightharpoonup> unit)"
    using ksl_init_ok by (auto simp: ksl_map_def)
  show ?thesis using ksl_insert_refines [OF i(1), of "[True]" 5 "()"] unfolding i(2) by (simp split: if_splits) blast
qed

text \<open>
  C5: \<open>ngtcp2_ksl_remove\<close> on a well-formed list implements the removal from the abstract map, reports
  \<open>NGTCP2_ERR_INVALID_ARGUMENT\<close> exactly for a key that is not there, and keeps the tree well-formed through
  every merge and shift of blocks. Here for the order of the stream offset maps.
\<close>

theorem ksl_remove_refines:
  assumes "ksl_ok ngtcp2_ksl_uint64_less ksl"
  shows "\<exists>ksl' it. ngtcp2_ksl_remove ngtcp2_ksl_uint64_less ksl key =
      Ok (ksl', if key \<in> dom (ksl_map ksl) then None else Some NGTCP2_ERR_INVALID_ARGUMENT, it) \<and>
    ksl_ok ngtcp2_ksl_uint64_less ksl' \<and> ksl_map ksl' = (ksl_map ksl)(key := None) \<and>
    ngtcp2_ksl_len ksl' = (if key \<in> dom (ksl_map ksl) then ngtcp2_ksl_len ksl - 1 else ngtcp2_ksl_len ksl)"
  by (rule u64.remove_map [OF assms uint64_agrees])

theorem ksl_remove_refines_witness:
  "\<exists>ksl' it. ngtcp2_ksl_remove ngtcp2_ksl_uint64_less
       \<lparr>ksl_root = Some (Leaf [(3, ''a''), (8, ''b'')]), ksl_n = 2, ksl_stale = False\<rparr> 3 = Ok (ksl', None, it) \<and>
     ksl_map ksl' = [8 \<mapsto> ''b''] \<and> ngtcp2_ksl_len ksl' = 1"
proof -
  let ?k = "\<lparr>ksl_root = Some (Leaf [(3 :: u64, ''a''), (8, ''b'')]), ksl_n = 2, ksl_stale = False\<rparr>"
  have "ksl_ok ngtcp2_ksl_uint64_less ?k"
    by (simp add: ksl_ok_def ksl_elems_def ngtcp2_ksl_uint64_less_def)
  from ksl_remove_refines [OF this, of 3] show ?thesis
    by (auto simp: ksl_map_def ksl_elems_def ngtcp2_ksl_len_def fun_eq_iff split: if_splits)
qed

text \<open>
  C27: Whatever the allocator answers, \<open>ngtcp2_ksl_insert\<close> on a well-formed list fails no assertion and
  leaves no half-inserted entry: it either succeeds, rejects an existing key, or reports
  \<open>NGTCP2_ERR_NOMEM\<close> with the map unchanged; the one exception is a failure of the second allocation of
  \<open>ksl_split_root\<close>, which leaves the list unusable.
\<close>

theorem ksl_insert_nomem:
  assumes "ksl_ok ngtcp2_ksl_int64_greater ksl"
  shows "\<exists>ksl' rv it al'. ngtcp2_ksl_insert ngtcp2_ksl_int64_greater al ksl key data = Ok (ksl', rv, it, al') \<and>
    ksl_insert_spec ngtcp2_ksl_int64_greater al ksl key data ksl' rv it"
  by (rule i64.ksl_insert_ok [OF assms int64_agrees])

theorem ksl_insert_nomem_witness:
  "\<exists>ksl' rv it al'. ngtcp2_ksl_insert ngtcp2_ksl_int64_greater [False] ngtcp2_ksl_init 5 () = Ok (ksl', rv, it, al') \<and>
     ksl_insert_spec ngtcp2_ksl_int64_greater [False] ngtcp2_ksl_init 5 () ksl' rv it"
  using ksl_insert_nomem [of ngtcp2_ksl_init "[False]" 5 "()"] ksl_init_ok [of ngtcp2_ksl_int64_greater, where ?'b = unit] by blast




text \<open>
  \<open>ngtcp2_ksl_lower_bound\<close> returns an iterator to the first entry whose key is not before the given
  one, or the end iterator when there is none.
\<close>

theorem ksl_lower_bound_first:
  assumes "ksl_ok ngtcp2_ksl_uint64_less ksl"
  shows "\<exists>it. ngtcp2_ksl_lower_bound ngtcp2_ksl_uint64_less ksl key = Ok it \<and>
    (let later = dropWhile (\<lambda>e. fst e < key) (ksl_elems ksl) in
     if later = [] then ngtcp2_ksl_it_end ksl it
     else \<not> ngtcp2_ksl_it_end ksl it \<and> ngtcp2_ksl_it_key ksl it = Ok (fst (hd later)) \<and>
       ngtcp2_ksl_it_get ksl it = Ok (snd (hd later)))"
proof -
  let ?P = "\<lambda>e. ngtcp2_ksl_uint64_less (fst e) key"
  let ?n = "length (takeWhile ?P (ksl_elems ksl))"
  have "passes ngtcp2_ksl_uint64_less (ksl_keys ksl) (\<lambda>k. ngtcp2_ksl_uint64_less k key)"
    by (auto simp: passes_def ngtcp2_ksl_uint64_less_def)
  from lower_bound_search_ok [of _ ksl ngtcp2_ksl_uint64_less key, OF assms this] obtain it where it:
    "ngtcp2_ksl_lower_bound_search ngtcp2_ksl_uint64_less ksl key = Ok it" "ksl_it_at ksl it ?n" by blast
  have d: "dropWhile (\<lambda>e. fst e < key) (ksl_elems ksl) = drop ?n (ksl_elems ksl)"
    by (simp add: dropWhile_eq_drop ngtcp2_ksl_uint64_less_def)
  have l: "?n \<le> length (ksl_elems ksl)" by (rule length_takeWhile_le)
  have "ngtcp2_ksl_lower_bound ngtcp2_ksl_uint64_less ksl key = Ok it" using it(1) by (simp add: ngtcp2_ksl_lower_bound_def)
  then show ?thesis
    using ksl_it_end [OF it(2)] ksl_it_key [OF it(2)] ksl_it_get [OF it(2)] l unfolding d
    by (auto simp: Let_def hd_drop_conv_nth)
qed

theorem ksl_lower_bound_first_witness:
  "\<exists>it. ngtcp2_ksl_lower_bound ngtcp2_ksl_uint64_less
       \<lparr>ksl_root = Some (Leaf [(3, ''a''), (8, ''b'')]), ksl_n = 2, ksl_stale = False\<rparr> 5 = Ok it \<and>
     ngtcp2_ksl_it_get \<lparr>ksl_root = Some (Leaf [(3 :: u64, ''a''), (8, ''b'')]), ksl_n = 2, ksl_stale = False\<rparr> it = Ok ''b''"
proof -
  let ?k = "\<lparr>ksl_root = Some (Leaf [(3 :: u64, ''a''), (8, ''b'')]), ksl_n = 2, ksl_stale = False\<rparr>"
  have "ksl_ok ngtcp2_ksl_uint64_less ?k"
    by (simp add: ksl_ok_def ksl_elems_def ngtcp2_ksl_uint64_less_def)
  from ksl_lower_bound_first [OF this, of 5] show ?thesis by (auto simp: Let_def ksl_elems_def)
qed

text \<open>
  Walking a well-formed list with \<open>ngtcp2_ksl_begin\<close> and \<open>ngtcp2_ksl_it_next\<close> visits the
  entries one by one in the order of the keys, none twice, and reaches the end after
  \<open>ngtcp2_ksl_len\<close> steps.
\<close>

theorem ksl_traversal:
  assumes "ksl_ok ngtcp2_ksl_int64_greater ksl"
  shows "(\<forall>i < ngtcp2_ksl_len ksl.
      (let it = (ngtcp2_ksl_it_next ksl ^^ i) (ngtcp2_ksl_begin ksl) in
       \<not> ngtcp2_ksl_it_end ksl it \<and> ngtcp2_ksl_it_key ksl it = Ok (fst (ksl_elems ksl ! i)) \<and>
       ngtcp2_ksl_it_get ksl it = Ok (snd (ksl_elems ksl ! i)))) \<and>
    ngtcp2_ksl_it_end ksl ((ngtcp2_ksl_it_next ksl ^^ ngtcp2_ksl_len ksl) (ngtcp2_ksl_begin ksl)) \<and>
    sorted_wrt ngtcp2_ksl_int64_greater (map fst (ksl_elems ksl))"
proof -
  have s: "sorted_wrt ngtcp2_ksl_int64_greater (map fst (ksl_elems ksl))" using assms
    by (auto simp: ksl_elems_def ksl_ok_def split: option.splits intro: i64.elems_sorted)
  note at = it_next_pow [OF assms]
  note l = ksl_len [OF assms]
  have "\<forall>i < length (ksl_elems ksl).
      (let it = (ngtcp2_ksl_it_next ksl ^^ i) (ngtcp2_ksl_begin ksl) in
       \<not> ngtcp2_ksl_it_end ksl it \<and> ngtcp2_ksl_it_key ksl it = Ok (fst (ksl_elems ksl ! i)) \<and>
       ngtcp2_ksl_it_get ksl it = Ok (snd (ksl_elems ksl ! i)))"
    using ksl_it_end [OF at] ksl_it_key [OF at] ksl_it_get [OF at] by (simp add: Let_def)
  then show ?thesis using s l ksl_it_end [OF at, of "length (ksl_elems ksl)"] by simp
qed

theorem ksl_traversal_witness:
  "let ksl = \<lparr>ksl_root = Some (Leaf [(8 :: i64, ''a''), (3, ''b'')]), ksl_n = 2, ksl_stale = False\<rparr> in
   ngtcp2_ksl_it_end ksl ((ngtcp2_ksl_it_next ksl ^^ 2) (ngtcp2_ksl_begin ksl))"
proof -
  let ?k = "\<lparr>ksl_root = Some (Leaf [(8 :: i64, ''a''), (3, ''b'')]), ksl_n = 2, ksl_stale = False\<rparr>"
  have "ksl_ok ngtcp2_ksl_int64_greater ?k"
    by (simp add: ksl_ok_def ksl_elems_def ngtcp2_ksl_int64_greater_def)
  from ksl_traversal [OF this] show ?thesis by (simp add: ngtcp2_ksl_len_def Let_def)
qed

end
