(* ===== verification/Gaptr.thy ===== *)
theory Gaptr
  imports Ksl_Correct
begin

text \<open>
  \<open>lib/ngtcp2_gaptr.c\<close>, the gap tracker: the set of offsets not yet received or acknowledged, as an
  ordered map of disjoint ranges, and \<open>lib/ngtcp2_idtr.c\<close>, which tracks the stream IDs that have been
  opened with it. The map is created with the single gap \<open>[0, UINT64_MAX)\<close> when the first offset
  is pushed.

  \<open>gap_set\<close> is the set of offsets the tracker misses; \<open>gaptr_ok\<close> is its invariant: the ranges are not
  empty and disjoint, all bounds in the tree are disjoint from each other or equal, and the last
  gap ends at \<open>UINT64_MAX\<close>. The bound on pushed ranges is that they end before \<open>UINT64_MAX\<close>; offsets
  in QUIC end at \<open>2 ^ 62\<close>.
\<close>

section \<open>Gap tracker\<close>

record ngtcp2_gaptr =
  gt_gap :: "(ngtcp2_range, unit) ngtcp2_ksl"

abbreviation (input) UINT64_MAX :: u64 where "UINT64_MAX \<equiv> 0xFFFFFFFFFFFFFFFF"

definition ngtcp2_gaptr_init :: ngtcp2_gaptr where
  "ngtcp2_gaptr_init = \<lparr>gt_gap = ngtcp2_ksl_init\<rparr>"

definition gaptr_gap_init :: "alloc \<Rightarrow> ngtcp2_gaptr \<Rightarrow> (ngtcp2_gaptr \<times> lib_error option \<times> alloc) res" where
  "gaptr_gap_init al gaptr =
     bindR (ngtcp2_ksl_insert ngtcp2_ksl_range_compar al (gt_gap gaptr) \<lparr>rg_begin = 0, rg_end = UINT64_MAX\<rparr> ())
      (\<lambda>(ksl, rv, _, al). Ok (gaptr\<lparr>gt_gap := ksl\<rparr>, rv, al))"

text \<open>
  The loop of \<open>ngtcp2_gaptr_push\<close>. Every iteration moves the iterator over a gap or removes one, so
  the number of gaps plus two is enough fuel; running out of it would be a fault.
\<close>

fun gaptr_push_loop ::
    "nat \<Rightarrow> alloc \<Rightarrow> (ngtcp2_range, unit) ngtcp2_ksl \<Rightarrow> ngtcp2_range \<Rightarrow> ksl_it \<Rightarrow>
       ((ngtcp2_range, unit) ngtcp2_ksl \<times> lib_error option \<times> alloc) res" where
  "gaptr_push_loop 0 al ksl q it = Fault"
| "gaptr_push_loop (Suc fuel) al ksl q it =
     (if ngtcp2_ksl_it_end ksl it then Ok (ksl, None, al) else
      bindR (ngtcp2_ksl_it_key ksl it) (\<lambda>k.
      let m = ngtcp2_range_intersect q k in
      if ngtcp2_range_len m = 0 then Ok (ksl, None, al)
      else if ngtcp2_range_eq k m then
        bindR (ngtcp2_ksl_remove_hint ngtcp2_ksl_range_compar ksl it k) (\<lambda>(ksl, _, it').
        gaptr_push_loop fuel al ksl q (case it' of Some i \<Rightarrow> i | None \<Rightarrow> it))
      else
        let (l, r) = ngtcp2_range_cut k m in
        if ngtcp2_range_len l \<noteq> 0 then
          bindR (ngtcp2_ksl_update_key ngtcp2_ksl_range_compar ksl k l) (\<lambda>ksl.
          if ngtcp2_range_len r \<noteq> 0 then
            bindR (ngtcp2_ksl_insert ngtcp2_ksl_range_compar al ksl r ()) (\<lambda>(ksl, rv, it', al).
            if rv \<noteq> None then Ok (ksl, rv, al)
            else gaptr_push_loop fuel al ksl q
              (ngtcp2_ksl_it_next ksl (case it' of Some i \<Rightarrow> i | None \<Rightarrow> it)))
          else gaptr_push_loop fuel al ksl q (ngtcp2_ksl_it_next ksl it))
        else if ngtcp2_range_len r \<noteq> 0 then
          bindR (ngtcp2_ksl_update_key ngtcp2_ksl_range_compar ksl k r) (\<lambda>ksl.
          gaptr_push_loop fuel al ksl q (ngtcp2_ksl_it_next ksl it))
        else gaptr_push_loop fuel al ksl q (ngtcp2_ksl_it_next ksl it)))"

definition ngtcp2_gaptr_push ::
    "alloc \<Rightarrow> ngtcp2_gaptr \<Rightarrow> u64 \<Rightarrow> u64 \<Rightarrow> (ngtcp2_gaptr \<times> lib_error option \<times> alloc) res" where
  "ngtcp2_gaptr_push al gaptr offset datalen =
     (let q = \<lparr>rg_begin = offset, rg_end = offset + datalen\<rparr> in
      bindR (if ngtcp2_ksl_len (gt_gap gaptr) = 0 then gaptr_gap_init al gaptr
             else Ok (gaptr, None, al)) (\<lambda>(gaptr, rv, al).
      if rv \<noteq> None then Ok (gaptr, rv, al) else
      bindR (ngtcp2_ksl_lower_bound_search ngtcp2_ksl_range_exclusive_compar (gt_gap gaptr) q) (\<lambda>it.
      bindR (gaptr_push_loop (ngtcp2_ksl_len (gt_gap gaptr) + 2) al (gt_gap gaptr) q it) (\<lambda>(ksl, rv, al).
      Ok (gaptr\<lparr>gt_gap := ksl\<rparr>, rv, al)))))"

definition ngtcp2_gaptr_first_gap_offset :: "ngtcp2_gaptr \<Rightarrow> u64 res" where
  "ngtcp2_gaptr_first_gap_offset gaptr =
     (if ngtcp2_ksl_len (gt_gap gaptr) = 0 then Ok 0 else
      bindR (ngtcp2_ksl_it_key (gt_gap gaptr) (ngtcp2_ksl_begin (gt_gap gaptr))) (\<lambda>k. Ok (rg_begin k)))"

definition ngtcp2_gaptr_get_first_gap_after :: "ngtcp2_gaptr \<Rightarrow> u64 \<Rightarrow> ngtcp2_range res" where
  "ngtcp2_gaptr_get_first_gap_after gaptr offset =
     (if ngtcp2_ksl_len (gt_gap gaptr) = 0 then Ok \<lparr>rg_begin = 0, rg_end = UINT64_MAX\<rparr> else
      bindR (ngtcp2_ksl_lower_bound_search ngtcp2_ksl_range_exclusive_compar (gt_gap gaptr)
               \<lparr>rg_begin = offset, rg_end = offset + 1\<rparr>) (\<lambda>it.
      assertR (\<not> ngtcp2_ksl_it_end (gt_gap gaptr) it) (ngtcp2_ksl_it_key (gt_gap gaptr) it)))"

definition ngtcp2_gaptr_is_pushed :: "ngtcp2_gaptr \<Rightarrow> u64 \<Rightarrow> u64 \<Rightarrow> bool res" where
  "ngtcp2_gaptr_is_pushed gaptr offset datalen =
     (let q = \<lparr>rg_begin = offset, rg_end = offset + datalen\<rparr> in
      if ngtcp2_ksl_len (gt_gap gaptr) = 0 then Ok False else
      bindR (ngtcp2_ksl_lower_bound_search ngtcp2_ksl_range_exclusive_compar (gt_gap gaptr) q) (\<lambda>it.
      assertR (\<not> ngtcp2_ksl_it_end (gt_gap gaptr) it)
       (bindR (ngtcp2_ksl_it_key (gt_gap gaptr) it) (\<lambda>k.
        Ok (ngtcp2_range_len (ngtcp2_range_intersect q k) = 0)))))"

definition ngtcp2_gaptr_drop_first_gap :: "ngtcp2_gaptr \<Rightarrow> ngtcp2_gaptr res" where
  "ngtcp2_gaptr_drop_first_gap gaptr =
     (if ngtcp2_ksl_len (gt_gap gaptr) = 0 then Ok gaptr else
      let it = ngtcp2_ksl_begin (gt_gap gaptr) in
      assertR (\<not> ngtcp2_ksl_it_end (gt_gap gaptr) it)
       (bindR (ngtcp2_ksl_it_key (gt_gap gaptr) it) (\<lambda>r.
        bindR (ngtcp2_ksl_remove_hint ngtcp2_ksl_range_compar (gt_gap gaptr) it r) (\<lambda>(ksl, _, _).
        Ok (gaptr\<lparr>gt_gap := ksl\<rparr>)))))"

section \<open>Stream ID tracker\<close>

record ngtcp2_idtr =
  idtr_gap :: ngtcp2_gaptr

definition ngtcp2_idtr_init :: ngtcp2_idtr where
  "ngtcp2_idtr_init = \<lparr>idtr_gap = ngtcp2_gaptr_init\<rparr>"

definition id_from_stream_id :: "i64 \<Rightarrow> u64" where
  "id_from_stream_id stream_id = signed_drop_bit 2 stream_id"

definition ngtcp2_idtr_open :: "alloc \<Rightarrow> ngtcp2_idtr \<Rightarrow> i64 \<Rightarrow> (ngtcp2_idtr \<times> lib_error option \<times> alloc) res" where
  "ngtcp2_idtr_open al idtr stream_id =
     (let q = id_from_stream_id stream_id in
      bindR (ngtcp2_gaptr_is_pushed (idtr_gap idtr) q 1) (\<lambda>pushed.
      if pushed then Ok (idtr, Some NGTCP2_ERR_STREAM_IN_USE, al) else
      bindR (ngtcp2_gaptr_push al (idtr_gap idtr) q 1) (\<lambda>(gaptr, rv, al).
      Ok (idtr\<lparr>idtr_gap := gaptr\<rparr>, rv, al))))"

definition ngtcp2_idtr_is_open :: "ngtcp2_idtr \<Rightarrow> i64 \<Rightarrow> bool res" where
  "ngtcp2_idtr_is_open idtr stream_id = ngtcp2_gaptr_is_pushed (idtr_gap idtr) (id_from_stream_id stream_id) 1"

section \<open>Disjoint ranges\<close>

definition range_before :: "ngtcp2_range \<Rightarrow> ngtcp2_range \<Rightarrow> bool" where
  "range_before a b = (rg_begin a < rg_end a \<and> rg_end a \<le> rg_begin b \<and> rg_begin b < rg_end b)"

interpretation rng: ksl_order range_before
  by unfold_locales (auto simp: range_before_def)

definition separate :: "ngtcp2_range set \<Rightarrow> bool" where
  "separate K = (\<forall>x \<in> K. rg_begin x < rg_end x \<and> (\<forall>y \<in> K. x = y \<or> range_before x y \<or> range_before y x))"

lemma separate_sub: "separate K \<Longrightarrow> K' \<subseteq> K \<Longrightarrow> separate K'"
  by (auto simp: separate_def)

lemma before_agrees:
  "x = k \<or> range_before x k \<or> range_before k x \<Longrightarrow> agrees range_before ngtcp2_ksl_range_compar x k"
  by (auto simp: agrees_def ngtcp2_ksl_range_compar_def range_before_def)

lemma separate_agrees:
  "separate K \<Longrightarrow> k \<in> K \<Longrightarrow> \<forall>x \<in> K. agrees range_before ngtcp2_ksl_range_compar x k"
  using before_agrees unfolding separate_def by blast

definition inside :: "ngtcp2_range \<Rightarrow> ngtcp2_range \<Rightarrow> bool" where
  "inside n k = (rg_begin k \<le> rg_begin n \<and> rg_begin n < rg_end n \<and> rg_end n \<le> rg_end k)"

lemma inside_before:
  "inside n k \<Longrightarrow> range_before x k \<Longrightarrow> range_before x n" "inside n k \<Longrightarrow> range_before k x \<Longrightarrow> range_before n x"
  by (auto simp: inside_def range_before_def)

lemma separate_replaces:
  assumes "separate K" "k \<in> K" "inside n k"
  shows "\<forall>x \<in> K. replaces range_before ngtcp2_ksl_range_compar x k n"
proof
  fix x assume "x \<in> K"
  then consider "x = k" | "range_before x k" | "range_before k x" using assms(1,2) unfolding separate_def by blast
  then show "replaces range_before ngtcp2_ksl_range_compar x k n"
  proof cases
    case 3
    then have "range_before n x" by (rule inside_before(2) [OF assms(3)])
    moreover from this have "\<not> ngtcp2_ksl_range_compar x n"
      by (auto simp: range_before_def ngtcp2_ksl_range_compar_def)
    ultimately show ?thesis using 3 by (simp add: replaces_def)
  qed (use inside_before(1) [OF assms(3)] in \<open>auto simp: replaces_def\<close>)
qed

lemma separate_insert:
  assumes "separate K" "\<And>x. x \<in> K \<Longrightarrow> range_before x n \<or> range_before n x" "rg_begin n < rg_end n"
  shows "separate (insert n K)"
  using assms unfolding separate_def by blast

lemma separate_update:
  assumes "separate K" "k \<in> K" "inside n k"
  shows "separate (insert n (K - {k}))"
proof (rule separate_insert)
  show "separate (K - {k})" using assms(1) by (rule separate_sub) auto
  show "range_before x n \<or> range_before n x" if "x \<in> K - {k}" for x
    using assms that inside_before [OF assms(3)] unfolding separate_def by blast
qed (use assms(3) in \<open>simp add: inside_def\<close>)

lemma exclusive_passes:
  "passes range_before K (\<lambda>k. ngtcp2_ksl_range_exclusive_compar k q)"
  by (auto simp: passes_def ngtcp2_ksl_range_exclusive_compar_def range_before_def)

section \<open>Invariant and gap set\<close>

definition gaps :: "(ngtcp2_range, unit) ngtcp2_ksl \<Rightarrow> u64 set" where
  "gaps ksl = (\<Union>e \<in> set (ksl_elems ksl). range_set (fst e))"

definition gaps_ok :: "(ngtcp2_range, unit) ngtcp2_ksl \<Rightarrow> bool" where
  "gaps_ok ksl = (ksl_ok range_before ksl \<and> separate (ksl_keys ksl))"

definition gap_set :: "ngtcp2_gaptr \<Rightarrow> u64 set" where
  "gap_set gaptr = (if ksl_elems (gt_gap gaptr) = [] then {..< UINT64_MAX} else gaps (gt_gap gaptr))"

definition gaptr_ok :: "ngtcp2_gaptr \<Rightarrow> bool" where
  "gaptr_ok gaptr = (gaps_ok (gt_gap gaptr) \<and> UINT64_MAX - 1 \<in> gap_set gaptr)"

lemma elem_key: "e \<in> set (ksl_elems ksl) \<Longrightarrow> fst e \<in> ksl_keys ksl"
  by (cases "ksl_root ksl") (auto simp: ksl_elems_def ksl_keys_def dest: elems_kset)

lemma ksl_sorted: "ksl_ok range_before ksl \<Longrightarrow> sorted_wrt range_before (map fst (ksl_elems ksl))"
  by (auto simp: ksl_elems_def ksl_ok_def split: option.splits intro: rng.elems_sorted)

lemma elem_nonempty: "gaps_ok ksl \<Longrightarrow> e \<in> set (ksl_elems ksl) \<Longrightarrow> rg_begin (fst e) < rg_end (fst e)"
  using elem_key [of e ksl] by (auto simp: gaps_ok_def separate_def)

lemma gaps_update: "ksl_elems ksl = xs @ (k, d) # ys \<Longrightarrow> gaps ksl = (\<Union>e \<in> set (xs @ ys). range_set (fst e)) \<union> range_set k"
  by (auto simp: gaps_def)

lemma disjoint_iff_before:
  assumes "rg_begin a < rg_end a" "rg_begin b < rg_end b"
  shows "range_set a \<inter> range_set b = {} \<longleftrightarrow> rg_end a \<le> rg_begin b \<or> rg_end b \<le> rg_begin a"
proof
  assume e: "range_set a \<inter> range_set b = {}"
  show "rg_end a \<le> rg_begin b \<or> rg_end b \<le> rg_begin a"
  proof (rule ccontr)
    assume "\<not> ?thesis"
    then have "max (rg_begin a) (rg_begin b) \<in> range_set a \<inter> range_set b"
      using assms by (auto simp: range_set_def not_le)
    with e show False by simp
  qed
qed (auto simp: range_set_def)

lemma before_disjoint: "range_before a b \<Longrightarrow> range_set a \<inter> range_set b = {}"
  using disjoint_iff_before [of a b] by (auto simp: range_before_def)

subsection \<open>One iteration of the loop\<close>

lemma update_step:
  assumes ok: "gaps_ok ksl" and es: "ksl_elems ksl = xs @ (k, d) # ys" and n: "inside n k"
  obtains ksl' where "ngtcp2_ksl_update_key ngtcp2_ksl_range_compar ksl k n = Ok ksl'" "gaps_ok ksl'"
    "ksl_elems ksl' = xs @ (n, d) # ys" "\<And>it p. ksl_it_at ksl it p \<Longrightarrow> ksl_it_at ksl' it p"
    "ksl_keys ksl' \<subseteq> insert n (ksl_keys ksl - {k})"
proof -
  have K: "ksl_ok range_before ksl" "separate (ksl_keys ksl)" using ok by (simp_all add: gaps_ok_def)
  have k: "k \<in> ksl_keys ksl" using elem_key [of "(k, d)" ksl] es by simp
  obtain ksl' xs' d' ys' where u: "ngtcp2_ksl_update_key ngtcp2_ksl_range_compar ksl k n = Ok ksl'" "ksl_ok range_before ksl'"
    "ksl_keys ksl' \<subseteq> insert n (ksl_keys ksl - {k})" "ksl_elems ksl = xs' @ (k, d') # ys'"
    "ksl_elems ksl' = xs' @ (n, d') # ys'" "\<forall>it p. ksl_it_at ksl it p \<longrightarrow> ksl_it_at ksl' it p"
    using rng.ksl_update_key_ok [OF K(1) separate_agrees [OF K(2) k] separate_replaces [OF K(2) k n]] es by auto
  have s: "sorted_wrt range_before (map fst (xs @ (k, d) # ys))" using ksl_sorted [OF K(1)] es by simp
  have s': "sorted_wrt range_before (map fst (xs' @ (k, d') # ys'))" using ksl_sorted [OF K(1)] u(4) by simp
  have "k \<notin> fst ` set xs" "k \<notin> fst ` set ys" "k \<notin> fst ` set xs'" "k \<notin> fst ` set ys'"
    using s s' rng.lt_irrefl by (fastforce simp: sorted_wrt_append)+
  then have "(k, d) \<notin> set xs" "(k, d) \<notin> set xs'" "(k, d) \<notin> set ys" "(k, d) \<notin> set ys'" by force+
  moreover have "d = d'" by simp
  ultimately have e: "xs = xs'" "ys = ys'" using es u(4) append_Cons_eq_iff [of "(k, d)" xs ys xs' ys'] by auto
  have "separate (ksl_keys ksl')" by (rule separate_sub [OF separate_update [OF K(2) k n] u(3)])
  then show thesis using that u e by (auto simp: gaps_ok_def)
qed

lemma insert_step:
  assumes ok: "gaps_ok ksl" and es: "ksl_elems ksl = xs @ ys" and r: "rg_begin r < rg_end r"
    and K: "\<And>x. x \<in> ksl_keys ksl \<Longrightarrow> range_before x r \<or> range_before r x"
    and xs: "\<forall>x \<in> fst ` set xs. range_before x r" and ys: "\<forall>y \<in> fst ` set ys. range_before r y" and al: "False \<notin> set al"
  obtains ksl' i al' where "ngtcp2_ksl_insert ngtcp2_ksl_range_compar al ksl r () = Ok (ksl', None, Some i, al')"
    "gaps_ok ksl'" "ksl_elems ksl' = xs @ (r, ()) # ys" "ksl_it_at ksl' i (length xs)" "False \<notin> set al'"
proof -
  have ok': "ksl_ok range_before ksl" "separate (ksl_keys ksl)" using ok by (simp_all add: gaps_ok_def)
  have nin: "r \<notin> fst ` set (ksl_elems ksl)" using K elem_key rng.lt_irrefl by fastforce
  have "\<forall>x \<in> ksl_keys ksl. agrees range_before ngtcp2_ksl_range_compar x r" using K before_agrees by blast
  from rng.ksl_insert_ok [OF ok'(1) this, of al "()"] obtain ksl' rv it al' where
    i: "ngtcp2_ksl_insert ngtcp2_ksl_range_compar al ksl r () = Ok (ksl', rv, it, al')"
      "ksl_insert_spec range_before al ksl r () ksl' rv it" by blast
  obtain us vs j where s: "rv = None" "ksl_ok range_before ksl'" "ksl_elems ksl = us @ vs" "ksl_elems ksl' = us @ (r, ()) # vs"
    "ksl_keys ksl' \<subseteq> insert r (ksl_keys ksl)" "\<forall>x \<in> fst ` set us. range_before x r" "\<forall>y \<in> fst ` set vs. range_before r y"
    "it = Some j" "it_at (ksl_front_back ksl') j (length us)"
    using i(2) nin al unfolding ksl_insert_spec_def by blast
  have "us = xs"
  proof -
    let ?P = "\<lambda>e. range_before (fst e) r"
    have nv: "\<not> ?P e" if "e \<in> set vs \<union> set ys" for e using that s(7) ys rng.lt_asym by auto
    have "takeWhile ?P vs = []" "takeWhile ?P ys = []" using nv [of "hd vs"] nv [of "hd ys"] by (auto simp: takeWhile_eq_Nil_iff)
    then have "takeWhile ?P (us @ vs) = us" "takeWhile ?P (xs @ ys) = xs"
      using s(6) xs by (simp_all add: takeWhile_append2)
    then show ?thesis using es s(3) by simp
  qed
  moreover from this have "vs = ys" using es s(3) by simp
  moreover have "separate (ksl_keys ksl')" by (rule separate_sub [OF separate_insert [OF ok'(2) K r] s(5)])
  moreover have "ksl_it_at ksl' j (length us)"
    using it_at_std [OF s(9)] s(4) by (cases "ksl_root ksl'") (auto simp: ksl_it_at_def ksl_elems_def)
  moreover have "False \<notin> set al'" using insert_alloc [OF i(1)] al by blast
  ultimately show thesis using that i(1) s by (auto simp: gaps_ok_def)
qed

lemma remove_step:
  assumes ok: "gaps_ok ksl" and es: "ksl_elems ksl = xs @ (k, d) # ys" and it: "ksl_it_at ksl it (length xs)"
  obtains ksl' i where "ngtcp2_ksl_remove_hint ngtcp2_ksl_range_compar ksl it k = Ok (ksl', None, Some i)"
    "gaps_ok ksl'" "ksl_elems ksl' = xs @ ys" "ksl_it_at ksl' i (length xs)"
proof -
  have K: "ksl_ok range_before ksl" "separate (ksl_keys ksl)" using ok by (simp_all add: gaps_ok_def)
  have k: "k \<in> ksl_keys ksl" using elem_key [of "(k, d)" ksl] es by simp
  obtain ksl' i where r: "ngtcp2_ksl_remove_hint ngtcp2_ksl_range_compar ksl it k = Ok (ksl', None, Some i)"
    "ksl_ok range_before ksl'" "ksl_keys ksl' \<subseteq> ksl_keys ksl"
    "ksl_elems ksl' = take (length xs) (ksl_elems ksl) @ drop (Suc (length xs)) (ksl_elems ksl)" "ksl_it_at ksl' i (length xs)"
    using rng.ksl_remove_hint_ok [OF K(1) separate_agrees [OF K(2) k] it] es by auto
  have "separate (ksl_keys ksl')" by (rule separate_sub [OF K(2) r(3)])
  with r es that show thesis by (auto simp: gaps_ok_def)
qed

lemma len_cut:
  assumes "rg_begin a \<le> rg_end a"
  shows "ngtcp2_range_len a = 0 \<longleftrightarrow> range_set a = {}"
  using assms by (auto simp: ngtcp2_range_len_def range_set_def)

lemma intersect_cut:
  assumes k: "rg_begin k < rg_end k" and ne: "range_set q \<inter> range_set k \<noteq> {}"
    and m: "m = ngtcp2_range_intersect q k" and lr: "ngtcp2_range_cut k m = (l, r)"
  shows "rg_begin m < rg_end m" "range_set l \<union> range_set r = range_set k - range_set q"
    "ngtcp2_range_len l \<noteq> 0 \<Longrightarrow> inside l k \<and> rg_end l = rg_begin q"
    "ngtcp2_range_len r \<noteq> 0 \<Longrightarrow> inside r k \<and> rg_begin r = rg_end q"
    "ngtcp2_range_len l = 0 \<Longrightarrow> range_set l = {}" "ngtcp2_range_len r = 0 \<Longrightarrow> range_set r = {}"
    "rg_begin r = rg_end m" "rg_end l = rg_begin m"
    "ngtcp2_range_eq k m \<Longrightarrow> range_set k \<subseteq> range_set q"
proof -
  have b: "max (rg_begin q) (rg_begin k) < min (rg_end q) (rg_end k)"
    using ne by (auto simp: range_set_def)
  then have me: "rg_begin m = max (rg_begin q) (rg_begin k)" "rg_end m = min (rg_end q) (rg_end k)"
    unfolding m ngtcp2_range_intersect_def ngtcp2_range_init_def Let_def by (simp_all del: max_less_iff_conj min_less_iff_conj)
  have l: "l = \<lparr>rg_begin = rg_begin k, rg_end = rg_begin m\<rparr>" and r: "r = \<lparr>rg_begin = rg_end m, rg_end = rg_end k\<rparr>"
    using lr by (auto simp: ngtcp2_range_cut_def)
  show "rg_begin m < rg_end m" using b me by simp
  show "rg_begin r = rg_end m" "rg_end l = rg_begin m" using l r by simp_all
  have ms: "range_set m = range_set q \<inter> range_set k" unfolding m by (rule intersect_set)
  show "range_set l \<union> range_set r = range_set k - range_set q"
    using cut_sets(1) [OF lr] ms ne by auto
  show "range_set k \<subseteq> range_set q" if "ngtcp2_range_eq k m"
  proof -
    have "k = m" using that by (simp add: ngtcp2_range_eq_def)
    then show ?thesis using ms by auto
  qed
  show "inside l k \<and> rg_end l = rg_begin q" if "ngtcp2_range_len l \<noteq> 0"
    using that b k unfolding l me inside_def ngtcp2_range_len_def by (auto simp: max_def split: if_splits)
  show "inside r k \<and> rg_begin r = rg_end q" if "ngtcp2_range_len r \<noteq> 0"
    using that b k unfolding r me inside_def ngtcp2_range_len_def by (auto simp: min_def split: if_splits)
  show "ngtcp2_range_len l = 0 \<Longrightarrow> range_set l = {}" "ngtcp2_range_len r = 0 \<Longrightarrow> range_set r = {}"
    using b unfolding l r me by (subst (asm) len_cut; simp)+
qed

lemma gap_beyond:
  assumes "range_before k e" "range_set q \<inter> range_set k = {}" "rg_begin q < rg_end k" "rg_begin k < rg_end k"
  shows "range_set e \<inter> range_set q = {}"
proof (cases "rg_begin q < rg_end q")
  case True
  then have "rg_end q \<le> rg_begin k" using disjoint_iff_before [OF True assms(4)] assms(2,3) by auto
  then show ?thesis using assms(1) by (auto simp: range_set_def range_before_def)
qed (auto simp: range_set_def)

lemma push_loop_ok:
  assumes "gaps_ok ksl" "ksl_elems ksl = xs @ ys" "ksl_it_at ksl it (length xs)"
    and "\<forall>e \<in> set xs. range_set (fst e) \<inter> range_set q = {}" "\<forall>e \<in> set ys. rg_begin q < rg_end (fst e)"
    and "length ys < fuel" "False \<notin> set al"
  shows "\<exists>ksl' al'. gaptr_push_loop fuel al ksl q it = Ok (ksl', None, al') \<and> gaps_ok ksl' \<and>
    gaps ksl' = gaps ksl - range_set q"
  using assms
proof (induction fuel arbitrary: ksl xs ys it al)
  case (Suc fuel)
  note ok = Suc.prems(1) and es = Suc.prems(2) and it = Suc.prems(3)
  have kok: "ksl_ok range_before ksl" using ok by (simp add: gaps_ok_def)
  show ?case
  proof (cases ys)
    case Nil
    then have "ngtcp2_ksl_it_end ksl it" using ksl_it_end [OF it] es by simp
    moreover have "gaps ksl - range_set q = gaps ksl" using Suc.prems(4) es Nil unfolding gaps_def by auto
    ultimately show ?thesis using ok by simp
  next
    case (Cons y zs)
    obtain k d where y: "y = (k, d)" by (cases y)
    have es': "ksl_elems ksl = xs @ (k, d) # zs" using es Cons y by simp
    have ne: "\<not> ngtcp2_ksl_it_end ksl it" using ksl_it_end [OF it] es' by simp
    have key: "ngtcp2_ksl_it_key ksl it = Ok k" using ksl_it_key [OF it] es' by simp
    have k: "rg_begin k < rg_end k" using elem_nonempty [OF ok, of "(k, d)"] es' by simp
    have srt: "\<forall>x \<in> fst ` set xs. range_before x k" "\<forall>z \<in> fst ` set zs. range_before k z"
      using ksl_sorted [OF kok] es' by (auto simp: sorted_wrt_append)
    have qk: "rg_begin q < rg_end k" "\<forall>e \<in> set zs. rg_begin q < rg_end (fst e)" using Suc.prems(5) Cons y by auto
    have fz: "length zs < fuel" using Suc.prems(6) Cons by simp
    define m where "m = ngtcp2_range_intersect q k"
    show ?thesis
    proof (cases "range_set q \<inter> range_set k = {}")
      case True
      then have "ngtcp2_range_len m = 0" unfolding m_def by (simp add: intersect_len_0)
      then have e: "gaptr_push_loop (Suc fuel) al ksl q it = Ok (ksl, None, al)"
        using ne key by (simp add: m_def)
      have "range_set (fst e) \<inter> range_set q = {}" if "e \<in> set zs" for e
        by (rule gap_beyond [OF _ True qk(1) k]) (use srt that in auto)
      then have "gaps ksl - range_set q = gaps ksl"
        using Suc.prems(4) True es' unfolding gaps_def by auto
      with e ok show ?thesis by auto
    next
      case False
      then have ml: "ngtcp2_range_len m \<noteq> 0" unfolding m_def by (simp add: intersect_len_0)
      obtain l r where lr: "ngtcp2_range_cut k m = (l, r)" by force
      note c = intersect_cut [OF k False m_def lr]
      define X where "X = (\<Union>e \<in> set (xs @ zs). range_set (fst e))"
      have g: "gaps ksl = X \<union> range_set k" using gaps_update [OF es'] unfolding X_def .
      consider (remove) "ngtcp2_range_eq k m"
        | (both) "\<not> ngtcp2_range_eq k m" "ngtcp2_range_len l \<noteq> 0" "ngtcp2_range_len r \<noteq> 0"
        | (left) "\<not> ngtcp2_range_eq k m" "ngtcp2_range_len l \<noteq> 0" "ngtcp2_range_len r = 0"
        | (right) "\<not> ngtcp2_range_eq k m" "ngtcp2_range_len l = 0" "ngtcp2_range_len r \<noteq> 0"
        | (none) "\<not> ngtcp2_range_eq k m" "ngtcp2_range_len l = 0" "ngtcp2_range_len r = 0" by blast
      then show ?thesis
      proof cases
        case remove
        obtain ksl' i where s: "ngtcp2_ksl_remove_hint ngtcp2_ksl_range_compar ksl it k = Ok (ksl', None, Some i)"
          "gaps_ok ksl'" "ksl_elems ksl' = xs @ zs" "ksl_it_at ksl' i (length xs)"
          by (rule remove_step [OF ok es' it])
        have "gaptr_push_loop (Suc fuel) al ksl q it = gaptr_push_loop fuel al ksl' q i"
          using ne key ml remove s(1) by (simp add: m_def)
        moreover have "gaps ksl' - range_set q = gaps ksl - range_set q"
          using g c(9) [OF remove] s(3) unfolding X_def gaps_def by auto
        ultimately show ?thesis using Suc.IH [OF s(2-4) Suc.prems(4) qk(2) fz Suc.prems(7)] by simp
      next
        case both
        note l = c(3) [OF both(2)] and r = c(4) [OF both(3)]
        obtain ksl1 where u: "ngtcp2_ksl_update_key ngtcp2_ksl_range_compar ksl k l = Ok ksl1" "gaps_ok ksl1"
          "ksl_elems ksl1 = xs @ (l, d) # zs" "ksl_keys ksl1 \<subseteq> insert l (ksl_keys ksl - {k})"
          using update_step [OF ok es' conjunct1 [OF l]] by metis
        have lr': "range_before l r" using l r c(1,7,8) by (auto simp: range_before_def inside_def)
        have K: "range_before x r \<or> range_before r x" if "x \<in> ksl_keys ksl1" for x
        proof (cases "x = l")
          case x: False
          then have "x \<in> ksl_keys ksl" "x \<noteq> k" using u(4) that by auto
          moreover have "k \<in> ksl_keys ksl" using elem_key [of "(k, d)" ksl] es' by simp
          ultimately have "range_before x k \<or> range_before k x" using ok unfolding gaps_ok_def separate_def by blast
          then show ?thesis using inside_before [OF conjunct1 [OF r]] by blast
        qed (use lr' in simp)
        have es1: "ksl_elems ksl1 = (xs @ [(l, d)]) @ zs" using u(3) by simp
        have rne: "rg_begin r < rg_end r" using r by (auto simp: inside_def)
        have B: "\<forall>x \<in> fst ` set (xs @ [(l, d)]). range_before x r" "\<forall>z \<in> fst ` set zs. range_before r z"
          using srt inside_before [OF conjunct1 [OF r]] lr' by auto
        obtain ksl2 i al2 where s: "ngtcp2_ksl_insert ngtcp2_ksl_range_compar al ksl1 r () = Ok (ksl2, None, Some i, al2)"
          "gaps_ok ksl2" "ksl_elems ksl2 = (xs @ [(l, d)]) @ (r, ()) # zs" "ksl_it_at ksl2 i (length (xs @ [(l, d)]))"
          "False \<notin> set al2"
          by (rule insert_step [OF u(2) es1 rne K B Suc.prems(7)])
        define i2 where "i2 = ngtcp2_ksl_it_next ksl2 i"
        have i2: "ksl_it_at ksl2 i2 (length (xs @ [(l, d), (r, ())]))"
          using ksl_it_next [OF _ s(4), of range_before] s(2,3) unfolding i2_def by (simp add: gaps_ok_def)
        have "gaptr_push_loop (Suc fuel) al ksl q it = gaptr_push_loop fuel al2 ksl2 q i2"
          using ne key ml both u(1) s(1) lr by (simp add: m_def i2_def)
        moreover have "gaps ksl2 - range_set q = gaps ksl - range_set q"
          using g c(2) s(3) unfolding X_def gaps_def by auto
        moreover have "\<forall>e \<in> set (xs @ [(l, d), (r, ())]). range_set (fst e) \<inter> range_set q = {}"
          using Suc.prems(4) c(2) by auto
        ultimately show ?thesis using Suc.IH [OF s(2) _ i2 _ qk(2) fz s(5)] s(3) by simp
      next
        case left
        note l = c(3) [OF left(2)]
        obtain ksl1 where u: "ngtcp2_ksl_update_key ngtcp2_ksl_range_compar ksl k l = Ok ksl1" "gaps_ok ksl1"
          "ksl_elems ksl1 = xs @ (l, d) # zs" "ksl_it_at ksl1 it (length xs)"
          using update_step [OF ok es' conjunct1 [OF l]] it by metis
        define i2 where "i2 = ngtcp2_ksl_it_next ksl1 it"
        have i2: "ksl_it_at ksl1 i2 (length (xs @ [(l, d)]))"
          using ksl_it_next [OF _ u(4), of range_before] u(2,3) unfolding i2_def by (simp add: gaps_ok_def)
        have "gaptr_push_loop (Suc fuel) al ksl q it = gaptr_push_loop fuel al ksl1 q i2"
          using ne key ml left u(1) lr by (simp add: m_def i2_def)
        moreover have "gaps ksl1 - range_set q = gaps ksl - range_set q"
          using g c(2) c(6) [OF left(3)] u(3) unfolding X_def gaps_def by auto
        moreover have "\<forall>e \<in> set (xs @ [(l, d)]). range_set (fst e) \<inter> range_set q = {}"
          using Suc.prems(4) c(2) by auto
        ultimately show ?thesis using Suc.IH [OF u(2) _ i2 _ qk(2) fz Suc.prems(7)] u(3) by simp
      next
        case right
        note r = c(4) [OF right(3)]
        obtain ksl1 where u: "ngtcp2_ksl_update_key ngtcp2_ksl_range_compar ksl k r = Ok ksl1" "gaps_ok ksl1"
          "ksl_elems ksl1 = xs @ (r, d) # zs" "ksl_it_at ksl1 it (length xs)"
          using update_step [OF ok es' conjunct1 [OF r]] it by metis
        define i2 where "i2 = ngtcp2_ksl_it_next ksl1 it"
        have i2: "ksl_it_at ksl1 i2 (length (xs @ [(r, d)]))"
          using ksl_it_next [OF _ u(4), of range_before] u(2,3) unfolding i2_def by (simp add: gaps_ok_def)
        have "gaptr_push_loop (Suc fuel) al ksl q it = gaptr_push_loop fuel al ksl1 q i2"
          using ne key ml right u(1) lr by (simp add: m_def i2_def)
        moreover have "gaps ksl1 - range_set q = gaps ksl - range_set q"
          using g c(2) c(5) [OF right(2)] u(3) unfolding X_def gaps_def by auto
        moreover have "\<forall>e \<in> set (xs @ [(r, d)]). range_set (fst e) \<inter> range_set q = {}"
          using Suc.prems(4) c(2) by auto
        ultimately show ?thesis using Suc.IH [OF u(2) _ i2 _ qk(2) fz Suc.prems(7)] u(3) by simp
      next
        case none
        then have "range_set k - range_set q = {}" using c(2,5,6) by simp
        then have "k = m"
          using none lr c(1) k unfolding ngtcp2_range_cut_def ngtcp2_range_len_def by auto
        then show ?thesis using none(1) by (simp add: ngtcp2_range_eq_def)
      qed
    qed
  qed
qed simp

section \<open>Operations\<close>

lemma elems_nonempty: "blk_ok lt h b \<Longrightarrow> 0 < blk_n b \<Longrightarrow> elems b \<noteq> []"
  using leaves_nonempty [of lt h b] leaves_not_Nil [of lt h b] unfolding elems_def
  by (cases "leaves b") auto

lemma ksl_keys_empty:
  assumes "ksl_ok lt ksl" "ksl_elems ksl = []"
  shows "ksl_keys ksl = {}"
proof (cases "ksl_root ksl")
  case (Some b)
  then have "blk_n b = 0" using assms elems_nonempty [OF ksl_root_ok [OF assms(1) Some]] by (auto simp: ksl_elems_def)
  then show ?thesis using Some by (cases b) (auto simp: ksl_keys_def)
qed (simp add: ksl_keys_def)

lemma gaptr_init_ok: "gaptr_ok ngtcp2_gaptr_init \<and> gap_set ngtcp2_gaptr_init = {..< UINT64_MAX}"
  using ksl_init_ok [of range_before]
  by (auto simp: gaptr_ok_def gap_set_def ngtcp2_gaptr_init_def gaps_ok_def separate_def ksl_keys_empty)

lemma gap_init_ok:
  assumes ok: "gaps_ok (gt_gap gaptr)" and e: "ksl_elems (gt_gap gaptr) = []" and al: "False \<notin> set al"
  obtains gaptr' al' where "gaptr_gap_init al gaptr = Ok (gaptr', None, al')" "gaps_ok (gt_gap gaptr')" "False \<notin> set al'"
    "ksl_elems (gt_gap gaptr') = [(\<lparr>rg_begin = 0, rg_end = UINT64_MAX\<rparr>, ())]" "gaps (gt_gap gaptr') = gap_set gaptr"
proof -
  have K: "ksl_keys (gt_gap gaptr) = {}" using ok e ksl_keys_empty by (auto simp: gaps_ok_def)
  obtain ksl' i al' where s: "ngtcp2_ksl_insert ngtcp2_ksl_range_compar al (gt_gap gaptr) \<lparr>rg_begin = 0, rg_end = UINT64_MAX\<rparr> () =
      Ok (ksl', None, Some i, al')" "gaps_ok ksl'" "ksl_elems ksl' = [] @ (\<lparr>rg_begin = 0, rg_end = UINT64_MAX\<rparr>, ()) # []"
    "ksl_it_at ksl' i (length [])" "False \<notin> set al'"
    by (rule insert_step [of "gt_gap gaptr" "[]" "[]" "\<lparr>rg_begin = 0, rg_end = UINT64_MAX\<rparr>" al]) (use ok e K al in auto)
  have "gaps ksl' = gap_set gaptr" using s(3) e by (auto simp: gaps_def gap_set_def range_set_def)
  then show thesis by (intro that [of "gaptr\<lparr>gt_gap := ksl'\<rparr>" al']) (use s in \<open>auto simp: gaptr_gap_init_def\<close>)
qed

text \<open>Where the lower bound of \<open>q\<close> is: the gaps before it end before \<open>q\<close>, the others after its start.\<close>

lemma exclusive_search:
  assumes ok: "gaps_ok ksl"
  obtains it xs ys where "ngtcp2_ksl_lower_bound_search ngtcp2_ksl_range_exclusive_compar ksl q = Ok it"
    "ksl_elems ksl = xs @ ys" "ksl_it_at ksl it (length xs)"
    "\<forall>e \<in> set xs. range_set (fst e) \<inter> range_set q = {} \<and> rg_begin (fst e) < rg_begin q"
    "\<forall>e \<in> set ys. rg_begin q < rg_end (fst e)"
    "ys \<noteq> [] \<Longrightarrow> \<not> ngtcp2_ksl_range_exclusive_compar (fst (hd ys)) q"
proof -
  let ?P = "\<lambda>e. ngtcp2_ksl_range_exclusive_compar (fst e) q"
  define xs ys where "xs = takeWhile ?P (ksl_elems ksl)" and "ys = dropWhile ?P (ksl_elems ksl)"
  have kok: "ksl_ok range_before ksl" using ok by (simp add: gaps_ok_def)
  obtain it where it: "ngtcp2_ksl_lower_bound_search ngtcp2_ksl_range_exclusive_compar ksl q = Ok it"
    "ksl_it_at ksl it (length xs)"
    using lower_bound_search_ok [of range_before ksl ngtcp2_ksl_range_exclusive_compar q, OF kok exclusive_passes]
    unfolding xs_def by blast
  have es: "ksl_elems ksl = xs @ ys" unfolding xs_def ys_def by simp
  have xs: "range_set (fst e) \<inter> range_set q = {} \<and> rg_begin (fst e) < rg_begin q" if "e \<in> set xs" for e
    using that unfolding xs_def by (auto dest!: set_takeWhileD simp: ngtcp2_ksl_range_exclusive_compar_def range_set_def)
  have hd: "\<not> ?P (hd ys)" if "ys \<noteq> []" using that unfolding ys_def by (rule hd_dropWhile)
  have "rg_begin q < rg_end (fst e)" if "e \<in> set ys" for e
  proof (cases ys)
    case (Cons y zs)
    then have y: "rg_begin (fst y) < rg_end (fst y)" using elem_nonempty [OF ok, of y] es by simp
    have qy: "rg_begin q < rg_end (fst y)"
    proof (rule ccontr)
      assume "\<not> ?thesis"
      then have "rg_end (fst y) \<le> rg_begin q" by simp
      with y have "?P y" by (auto simp: ngtcp2_ksl_range_exclusive_compar_def)
      then show False using hd Cons by simp
    qed
    have "e = y \<or> range_before (fst y) (fst e)" using ksl_sorted [OF kok] es Cons that by (auto simp: sorted_wrt_append)
    then show ?thesis using qy by (auto simp: range_before_def)
  qed (use that in simp)
  then show thesis using that it es xs hd by blast
qed

lemma gaptr_push_ok:
  assumes ok: "gaptr_ok gaptr" and q: "offset \<le> offset + datalen" "offset + datalen < UINT64_MAX" and al: "False \<notin> set al"
  shows "\<exists>gaptr' al'. ngtcp2_gaptr_push al gaptr offset datalen = Ok (gaptr', None, al') \<and> gaptr_ok gaptr' \<and>
    gap_set gaptr' = gap_set gaptr - {offset ..< offset + datalen}"
proof -
  let ?q = "\<lparr>rg_begin = offset, rg_end = offset + datalen\<rparr>"
  have gok: "gaps_ok (gt_gap gaptr)" and mx: "UINT64_MAX - 1 \<in> gap_set gaptr" using ok by (simp_all add: gaptr_ok_def)
  have len: "ngtcp2_ksl_len (gt_gap gaptr) = length (ksl_elems (gt_gap gaptr))"
    using gok ksl_len by (auto simp: gaps_ok_def)
  obtain g1 al1 where g1: "(if ngtcp2_ksl_len (gt_gap gaptr) = 0 then gaptr_gap_init al gaptr else Ok (gaptr, None, al)) = Ok (g1, None, al1)"
    "gaps_ok (gt_gap g1)" "False \<notin> set al1" "gaps (gt_gap g1) = gap_set gaptr"
  proof (cases "ksl_elems (gt_gap gaptr) = []")
    case True
    then show thesis using gap_init_ok [OF gok True al] that len by (metis length_0_conv)
  next
    case False
    then show thesis using that [of gaptr al] gok al len by (simp add: gap_set_def)
  qed
  obtain it xs ys where s: "ngtcp2_ksl_lower_bound_search ngtcp2_ksl_range_exclusive_compar (gt_gap g1) ?q = Ok it"
    "ksl_elems (gt_gap g1) = xs @ ys" "ksl_it_at (gt_gap g1) it (length xs)"
    "\<forall>e \<in> set xs. range_set (fst e) \<inter> range_set ?q = {} \<and> rg_begin (fst e) < rg_begin ?q"
    "\<forall>e \<in> set ys. rg_begin ?q < rg_end (fst e)"
    using exclusive_search [OF g1(2), of ?q] by metis
  have len1: "ngtcp2_ksl_len (gt_gap g1) = length xs + length ys"
    using ksl_len [of range_before "gt_gap g1"] g1(2) s(2) by (simp add: gaps_ok_def)
  obtain ksl' al' where p: "gaptr_push_loop (ngtcp2_ksl_len (gt_gap g1) + 2) al1 (gt_gap g1) ?q it = Ok (ksl', None, al')"
    "gaps_ok ksl'" "gaps ksl' = gaps (gt_gap g1) - range_set ?q"
    using push_loop_ok [OF g1(2) s(2,3) _ s(5) _ g1(3), of "ngtcp2_ksl_len (gt_gap g1) + 2"] s(4) len1 by auto
  have rs: "range_set ?q = {offset ..< offset + datalen}" by (auto simp: range_set_def)
  have mx': "UINT64_MAX - 1 \<in> gaps ksl'"
  proof -
    have "\<not> UINT64_MAX - 1 < offset + datalen" using q(2) by (simp add: word_less_nat_alt)
    then show ?thesis using mx p(3) g1(4) rs by auto
  qed
  then have "ksl_elems ksl' \<noteq> []" by (auto simp: gaps_def)
  then have gs: "gap_set (g1\<lparr>gt_gap := ksl'\<rparr>) = gap_set gaptr - {offset ..< offset + datalen}"
    using p(3) g1(4) rs by (simp add: gap_set_def)
  have "gaptr_ok (g1\<lparr>gt_gap := ksl'\<rparr>)"
    using p(2) mx' \<open>ksl_elems ksl' \<noteq> []\<close> by (simp add: gaptr_ok_def gap_set_def)
  moreover have "ngtcp2_gaptr_push al gaptr offset datalen = Ok (g1\<lparr>gt_gap := ksl'\<rparr>, None, al')"
    using g1(1) s(1) p(1) by (simp add: ngtcp2_gaptr_push_def Let_def del: gaptr_push_loop.simps)
  ultimately show ?thesis using gs by blast
qed

lemma gaptr_len: "gaptr_ok gaptr \<Longrightarrow> ngtcp2_ksl_len (gt_gap gaptr) = length (ksl_elems (gt_gap gaptr))"
  using ksl_len by (auto simp: gaptr_ok_def gaps_ok_def)

lemma gap_at_max:
  assumes "gaptr_ok gaptr" "ksl_elems (gt_gap gaptr) \<noteq> []"
  obtains e where "e \<in> set (ksl_elems (gt_gap gaptr))" "rg_end (fst e) = UINT64_MAX"
proof -
  obtain e where e: "e \<in> set (ksl_elems (gt_gap gaptr))" "UINT64_MAX - 1 \<in> range_set (fst e)"
    using assms by (auto simp: gaptr_ok_def gap_set_def gaps_def)
  then have "UINT64_MAX - 1 < rg_end (fst e)" by (simp add: range_set_def)
  then have "rg_end (fst e) = UINT64_MAX" using unsigned_less [of "rg_end (fst e)", where ?'a = nat] by (simp add: word_less_nat_alt word_unat_eq_iff)
  with e that show thesis by blast
qed

text \<open>The gap at the lower bound of a non-empty range \<open>q\<close>.\<close>

lemma first_gap:
  assumes ok: "gaptr_ok gaptr" and ne: "ksl_elems (gt_gap gaptr) \<noteq> []" and q: "rg_begin q < rg_end q" "rg_begin q < UINT64_MAX"
  obtains it xs k d zs where
    "ngtcp2_ksl_lower_bound_search ngtcp2_ksl_range_exclusive_compar (gt_gap gaptr) q = Ok it"
    "\<not> ngtcp2_ksl_it_end (gt_gap gaptr) it" "ngtcp2_ksl_it_key (gt_gap gaptr) it = Ok k"
    "ksl_elems (gt_gap gaptr) = xs @ (k, d) # zs" "rg_begin q < rg_end k"
    "\<forall>e \<in> set xs. rg_end (fst e) \<le> rg_begin q" "\<forall>e \<in> set zs. range_before k (fst e)"
proof -
  have gok: "gaps_ok (gt_gap gaptr)" using ok by (simp add: gaptr_ok_def)
  obtain it xs ys where s: "ngtcp2_ksl_lower_bound_search ngtcp2_ksl_range_exclusive_compar (gt_gap gaptr) q = Ok it"
    "ksl_elems (gt_gap gaptr) = xs @ ys" "ksl_it_at (gt_gap gaptr) it (length xs)"
    "\<forall>e \<in> set xs. range_set (fst e) \<inter> range_set q = {} \<and> rg_begin (fst e) < rg_begin q"
    "\<forall>e \<in> set ys. rg_begin q < rg_end (fst e)"
    using exclusive_search [OF gok, of q] by metis
  have xs: "\<forall>e \<in> set xs. rg_end (fst e) \<le> rg_begin q"
  proof
    fix e assume e: "e \<in> set xs"
    then have "rg_begin (fst e) < rg_end (fst e)" using elem_nonempty [OF gok] s(2) by simp
    then show "rg_end (fst e) \<le> rg_begin q"
      using disjoint_iff_before [OF _ q(1), of "fst e"] s(4) e q(1) by force
  qed
  obtain e where e: "e \<in> set (ksl_elems (gt_gap gaptr))" "rg_end (fst e) = UINT64_MAX" by (rule gap_at_max [OF ok ne])
  then have "e \<notin> set xs" using xs q(2) by auto
  then obtain k d zs where ys: "ys = (k, d) # zs" using e(1) s(2) by (cases ys) auto
  have "\<forall>e \<in> set zs. range_before k (fst e)"
    using ksl_sorted [of "gt_gap gaptr"] gok s(2) ys by (auto simp: gaps_ok_def sorted_wrt_append)
  then show thesis
    using that [of it k xs d zs] s ys xs ksl_it_end [OF s(3)] ksl_it_key [OF s(3)] by simp
qed

lemma gaptr_is_pushed_ok:
  assumes ok: "gaptr_ok gaptr" and q: "offset < offset + datalen" "offset + datalen \<le> UINT64_MAX"
  shows "ngtcp2_gaptr_is_pushed gaptr offset datalen = Ok (gap_set gaptr \<inter> {offset ..< offset + datalen} = {})"
proof (cases "ksl_elems (gt_gap gaptr) = []")
  case True
  have "offset < UINT64_MAX" using q by simp
  then have "offset \<in> gap_set gaptr \<inter> {offset ..< offset + datalen}" using q True by (simp add: gap_set_def)
  then show ?thesis using gaptr_len [OF ok] True by (auto simp: ngtcp2_gaptr_is_pushed_def)
next
  case False
  let ?q = "\<lparr>rg_begin = offset, rg_end = offset + datalen\<rparr>"
  have q': "rg_begin ?q < rg_end ?q" "rg_begin ?q < UINT64_MAX" using q by simp_all
  obtain it xs k d zs where s: "ngtcp2_ksl_lower_bound_search ngtcp2_ksl_range_exclusive_compar (gt_gap gaptr) ?q = Ok it"
    "\<not> ngtcp2_ksl_it_end (gt_gap gaptr) it" "ngtcp2_ksl_it_key (gt_gap gaptr) it = Ok k"
    "ksl_elems (gt_gap gaptr) = xs @ (k, d) # zs" "rg_begin ?q < rg_end k"
    "\<forall>e \<in> set xs. rg_end (fst e) \<le> rg_begin ?q" "\<forall>e \<in> set zs. range_before k (fst e)"
    by (rule first_gap [OF ok False q'])
  have k: "rg_begin k < rg_end k" using elem_nonempty [of "gt_gap gaptr" "(k, d)"] ok s(4) by (simp add: gaptr_ok_def)
  have "range_set (fst e) \<inter> range_set ?q = {}" if "e \<in> set zs" "range_set ?q \<inter> range_set k = {}" for e
    by (rule gap_beyond [OF _ that(2) s(5) k]) (use s(7) that(1) in simp)
  moreover have "range_set (fst e) \<inter> range_set ?q = {}" if "e \<in> set xs" for e using s(6) that by (auto simp: range_set_def)
  moreover have "gap_set gaptr = (\<Union>e \<in> set (xs @ zs). range_set (fst e)) \<union> range_set k"
    using False gaps_update [OF s(4)] by (simp add: gap_set_def)
  ultimately have "range_set ?q \<inter> range_set k = {} \<longleftrightarrow> gap_set gaptr \<inter> range_set ?q = {}" by auto
  moreover have "range_set ?q = {offset ..< offset + datalen}" by (auto simp: range_set_def)
  ultimately show ?thesis using s(1-3) gaptr_len [OF ok] False
    by (simp add: ngtcp2_gaptr_is_pushed_def intersect_len_0)
qed

lemma gaptr_first_gap_after_ok:
  assumes ok: "gaptr_ok gaptr" and q: "offset < UINT64_MAX"
  shows "\<exists>k. ngtcp2_gaptr_get_first_gap_after gaptr offset = Ok k \<and> range_set k \<subseteq> gap_set gaptr \<and>
    offset < rg_end k \<and> (\<forall>x \<in> gap_set gaptr. offset \<le> x \<longrightarrow> rg_begin k \<le> x)"
proof (cases "ksl_elems (gt_gap gaptr) = []")
  case True
  then show ?thesis using gaptr_len [OF ok] q
    by (auto simp: ngtcp2_gaptr_get_first_gap_after_def gap_set_def range_set_def)
next
  case False
  let ?q = "\<lparr>rg_begin = offset, rg_end = offset + 1\<rparr>"
  have q': "rg_begin ?q < rg_end ?q" "rg_begin ?q < UINT64_MAX"
    using q by (simp_all add: word_less_nat_alt unat_word_ariths)
  obtain it xs k d zs where s: "ngtcp2_ksl_lower_bound_search ngtcp2_ksl_range_exclusive_compar (gt_gap gaptr) ?q = Ok it"
    "\<not> ngtcp2_ksl_it_end (gt_gap gaptr) it" "ngtcp2_ksl_it_key (gt_gap gaptr) it = Ok k"
    "ksl_elems (gt_gap gaptr) = xs @ (k, d) # zs" "rg_begin ?q < rg_end k"
    "\<forall>e \<in> set xs. rg_end (fst e) \<le> rg_begin ?q" "\<forall>e \<in> set zs. range_before k (fst e)"
    by (rule first_gap [OF ok False q'])
  have g: "gap_set gaptr = (\<Union>e \<in> set (xs @ zs). range_set (fst e)) \<union> range_set k"
    using False gaps_update [OF s(4)] by (simp add: gap_set_def)
  have "rg_begin k \<le> x" if "x \<in> gap_set gaptr" "offset \<le> x" for x
    using that s(6,7) unfolding g by (fastforce simp: range_set_def range_before_def)
  then show ?thesis using s g gaptr_len [OF ok] False by (simp add: ngtcp2_gaptr_get_first_gap_after_def)
qed

lemma gaptr_first_gap_offset_ok:
  assumes ok: "gaptr_ok gaptr"
  shows "\<exists>x. ngtcp2_gaptr_first_gap_offset gaptr = Ok x \<and> x \<in> gap_set gaptr \<and> (\<forall>y \<in> gap_set gaptr. x \<le> y)"
proof (cases "ksl_elems (gt_gap gaptr)")
  case Nil
  then show ?thesis using gaptr_len [OF ok] by (auto simp: ngtcp2_gaptr_first_gap_offset_def gap_set_def)
next
  case (Cons e es)
  obtain k d where e: "e = (k, d)" by (cases e)
  have gok: "gaps_ok (gt_gap gaptr)" using ok by (simp add: gaptr_ok_def)
  then have kok: "ksl_ok range_before (gt_gap gaptr)" by (simp add: gaps_ok_def)
  have key: "ngtcp2_ksl_it_key (gt_gap gaptr) (ngtcp2_ksl_begin (gt_gap gaptr)) = Ok k"
    using ksl_it_key [OF ksl_begin_at [OF kok]] Cons e by simp
  have k: "rg_begin k < rg_end k" using elem_nonempty [OF gok, of e] Cons e by simp
  have srt: "\<forall>e \<in> set es. range_before k (fst e)" using ksl_sorted [OF kok] Cons e by auto
  have g: "gap_set gaptr = range_set k \<union> (\<Union>e \<in> set es. range_set (fst e))" using Cons e by (auto simp: gap_set_def gaps_def)
  have "rg_begin k \<le> y" if "y \<in> gap_set gaptr" for y
    using that srt unfolding g by (fastforce simp: range_set_def range_before_def)
  moreover have "rg_begin k \<in> gap_set gaptr" using k unfolding g by (simp add: range_set_def)
  ultimately show ?thesis using key gaptr_len [OF ok] Cons by (simp add: ngtcp2_gaptr_first_gap_offset_def)
qed

lemma gaptr_drop_first_gap_ok:
  assumes ok: "gaptr_ok gaptr"
  shows "\<exists>gaptr'. ngtcp2_gaptr_drop_first_gap gaptr = Ok gaptr' \<and> gaptr_ok gaptr' \<and>
    gap_set gaptr' = (if ngtcp2_ksl_len (gt_gap gaptr) \<le> 1 then {..< UINT64_MAX}
      else gap_set gaptr - range_set (fst (hd (ksl_elems (gt_gap gaptr)))))"
proof (cases "ksl_elems (gt_gap gaptr)")
  case Nil
  then show ?thesis using gaptr_len [OF ok] ok by (auto simp: ngtcp2_gaptr_drop_first_gap_def gap_set_def)
next
  case (Cons e es)
  obtain k d where e: "e = (k, d)" by (cases e)
  have gok: "gaps_ok (gt_gap gaptr)" using ok by (simp add: gaptr_ok_def)
  then have kok: "ksl_ok range_before (gt_gap gaptr)" by (simp add: gaps_ok_def)
  define it where "it = ngtcp2_ksl_begin (gt_gap gaptr)"
  have it: "ksl_it_at (gt_gap gaptr) it (length ([] :: (ngtcp2_range \<times> unit) list))"
    using ksl_begin_at [OF kok] by (simp add: it_def)
  have e0: "\<not> ngtcp2_ksl_it_end (gt_gap gaptr) it" "ngtcp2_ksl_it_key (gt_gap gaptr) it = Ok k"
    using ksl_it_end [OF it] ksl_it_key [OF it] Cons e by simp_all
  obtain ksl' i where r: "ngtcp2_ksl_remove_hint ngtcp2_ksl_range_compar (gt_gap gaptr) it k = Ok (ksl', None, Some i)"
    "gaps_ok ksl'" "ksl_elems ksl' = [] @ es" "ksl_it_at ksl' i (length ([] :: (ngtcp2_range \<times> unit) list))"
    by (rule remove_step [OF gok _ it, of k d es]) (use Cons e in simp)
  have g: "gap_set gaptr = range_set k \<union> (\<Union>e \<in> set es. range_set (fst e))" using Cons e by (auto simp: gap_set_def gaps_def)
  have dis: "range_set (fst e) \<inter> range_set k = {}" if "e \<in> set es" for e
    using before_disjoint [of k "fst e"] ksl_sorted [OF kok] Cons \<open>_ = (k, d)\<close> that by auto
  let ?g = "gaptr\<lparr>gt_gap := ksl'\<rparr>"
  have gs: "gap_set ?g = (if es = [] then {..< UINT64_MAX} else gap_set gaptr - range_set k)"
    using r(3) g dis by (auto simp: gap_set_def gaps_def)
  have "UINT64_MAX - 1 \<in> gap_set ?g"
  proof (cases "es = []")
    case False
    have "UINT64_MAX - 1 \<notin> range_set k"
    proof
      assume "UINT64_MAX - 1 \<in> range_set k"
      moreover obtain e2 where e2: "e2 \<in> set es" using False by (cases es) auto
      then have "range_before k (fst e2)" using ksl_sorted [OF kok] Cons e by auto
      ultimately have "UINT64_MAX - 1 < rg_end k" "rg_end k < rg_end (fst e2)" by (auto simp: range_set_def range_before_def)
      then show False using unsigned_less [of "rg_end (fst e2)", where ?'a = nat] by (simp add: word_less_nat_alt)
    qed
    then show ?thesis using ok False gs by (simp add: gaptr_ok_def)
  qed (use gs in simp)
  then have "gaptr_ok ?g" using r(2) by (simp add: gaptr_ok_def)
  moreover have "ngtcp2_gaptr_drop_first_gap gaptr = Ok ?g"
    using e0 r(1) gaptr_len [OF ok] Cons by (simp add: ngtcp2_gaptr_drop_first_gap_def it_def Let_def)
  ultimately show ?thesis using gs gaptr_len [OF ok] Cons e by (cases es) auto
qed

section \<open>Stream IDs\<close>

definition idtr_ok :: "ngtcp2_idtr \<Rightarrow> bool" where
  "idtr_ok idtr = gaptr_ok (idtr_gap idtr)"

lemma id_bound:
  assumes "0 \<le> sint stream_id"
  shows "id_from_stream_id stream_id < id_from_stream_id stream_id + 1" "id_from_stream_id stream_id + 1 < UINT64_MAX"
proof -
  let ?q = "id_from_stream_id stream_id"
  have s: "sint ?q = sint stream_id div 4"
    by (simp add: id_from_stream_id_def sint_signed_drop_bit_eq drop_bit_eq_div)
  then have u: "0 \<le> sint ?q" "sint ?q < 2 ^ 61" using assms sint_lt [of stream_id] by simp_all
  have "uint ?q = sint ?q" unfolding uint_sint by (rule take_bit_int_eq_self) (use u in simp_all)
  with u show "id_from_stream_id stream_id < id_from_stream_id stream_id + 1" "id_from_stream_id stream_id + 1 < UINT64_MAX"
    by (simp_all add: word_less_def uint_word_ariths)
qed

lemma idtr_is_open_ok:
  assumes "idtr_ok idtr" "0 \<le> sint stream_id"
  shows "ngtcp2_idtr_is_open idtr stream_id = Ok (id_from_stream_id stream_id \<notin> gap_set (idtr_gap idtr))"
proof -
  let ?q = "id_from_stream_id stream_id"
  note b = id_bound [OF assms(2)]
  have "{?q ..< ?q + 1} = {?q}" using b(1) by (auto simp: word_less_nat_alt word_le_nat_alt unat_word_ariths word_unat_eq_iff split: if_splits)
  then show ?thesis
    using gaptr_is_pushed_ok [OF _ b(1) less_imp_le [OF b(2)], of "idtr_gap idtr"] assms(1)
    by (simp add: ngtcp2_idtr_is_open_def idtr_ok_def)
qed

lemma idtr_open_ok:
  assumes ok: "idtr_ok idtr" and s: "0 \<le> sint stream_id" and al: "False \<notin> set al"
  shows "if ngtcp2_idtr_is_open idtr stream_id = Ok True
    then ngtcp2_idtr_open al idtr stream_id = Ok (idtr, Some NGTCP2_ERR_STREAM_IN_USE, al)
    else \<exists>idtr' al'. ngtcp2_idtr_open al idtr stream_id = Ok (idtr', None, al') \<and> idtr_ok idtr' \<and>
      (\<forall>sid. 0 \<le> sint sid \<longrightarrow> ngtcp2_idtr_is_open idtr' sid =
         Ok (id_from_stream_id sid = id_from_stream_id stream_id \<or> ngtcp2_idtr_is_open idtr sid = Ok True))"
proof -
  let ?q = "id_from_stream_id stream_id"
  note b = id_bound [OF s]
  have q1: "{?q ..< ?q + 1} = {?q}" using b(1) by (auto simp: word_less_nat_alt word_le_nat_alt unat_word_ariths word_unat_eq_iff split: if_splits)
  have gok: "gaptr_ok (idtr_gap idtr)" using ok by (simp add: idtr_ok_def)
  have p: "ngtcp2_gaptr_is_pushed (idtr_gap idtr) ?q 1 = Ok (?q \<notin> gap_set (idtr_gap idtr))"
    using idtr_is_open_ok [OF ok s] by (simp add: ngtcp2_idtr_is_open_def)
  obtain g al' where g: "ngtcp2_gaptr_push al (idtr_gap idtr) ?q 1 = Ok (g, None, al')" "gaptr_ok g"
    "gap_set g = gap_set (idtr_gap idtr) - {?q}"
    using gaptr_push_ok [OF gok less_imp_le [OF b(1)] b(2) al] q1 by auto
  have ok': "idtr_ok (idtr\<lparr>idtr_gap := g\<rparr>)" using g(2) by (simp add: idtr_ok_def)
  show ?thesis
    using p g idtr_is_open_ok [OF ok] idtr_is_open_ok [OF ok'] s ok'
    by (auto simp: ngtcp2_idtr_open_def Let_def)
qed

section \<open>Contract of the trackers\<close>

text \<open>
  C3: \<open>ngtcp2_gaptr_push\<close> implements the removal of an interval from the set of missing offsets: after it
  the tracker misses exactly what it missed before less \<open>[offset, offset + datalen)\<close>, through every
  removal, cut and split of a gap, and its invariant holds.
\<close>

theorem gaptr_push_refines:
  assumes "gaptr_ok gaptr" "offset \<le> offset + datalen" "offset + datalen < UINT64_MAX" "False \<notin> set al"
  shows "\<exists>gaptr' al'. ngtcp2_gaptr_push al gaptr offset datalen = Ok (gaptr', None, al') \<and> gaptr_ok gaptr' \<and>
    gap_set gaptr' = gap_set gaptr - {offset ..< offset + datalen}"
  using assms by (rule gaptr_push_ok)

theorem gaptr_push_refines_witness:
  "\<exists>gaptr' al'. ngtcp2_gaptr_push [] ngtcp2_gaptr_init 100 20 = Ok (gaptr', None, al') \<and> gaptr_ok gaptr' \<and>
    gap_set gaptr' = {..< UINT64_MAX} - {100 ..< 120}"
  using gaptr_push_refines [of ngtcp2_gaptr_init 100 20 "[]"] gaptr_init_ok by simp

text \<open>
  \<open>ngtcp2_gaptr_is_pushed\<close> answers whether no offset of a non-empty interval is missing.
\<close>

theorem gaptr_is_pushed_exact:
  assumes "gaptr_ok gaptr" "offset < offset + datalen" "offset + datalen \<le> UINT64_MAX"
  shows "ngtcp2_gaptr_is_pushed gaptr offset datalen = Ok (gap_set gaptr \<inter> {offset ..< offset + datalen} = {})"
  using assms by (rule gaptr_is_pushed_ok)

theorem gaptr_is_pushed_exact_witness:
  "ngtcp2_gaptr_is_pushed ngtcp2_gaptr_init 7 3 = Ok ({..< UINT64_MAX} \<inter> {7 ..< 10} = ({} :: u64 set))"
  using gaptr_is_pushed_exact [of ngtcp2_gaptr_init 7 3] gaptr_init_ok by simp

text \<open>
  \<open>ngtcp2_gaptr_get_first_gap_after\<close> returns a gap that ends behind the offset and starts no
  later than any missing offset at or behind it, all of it missing.
\<close>

theorem gaptr_first_gap_after:
  assumes "gaptr_ok gaptr" "offset < UINT64_MAX"
  shows "\<exists>k. ngtcp2_gaptr_get_first_gap_after gaptr offset = Ok k \<and> range_set k \<subseteq> gap_set gaptr \<and>
    offset < rg_end k \<and> (\<forall>x \<in> gap_set gaptr. offset \<le> x \<longrightarrow> rg_begin k \<le> x)"
  using assms by (rule gaptr_first_gap_after_ok)

theorem gaptr_first_gap_after_witness:
  "\<exists>k. ngtcp2_gaptr_get_first_gap_after ngtcp2_gaptr_init 9 = Ok k \<and> 9 < rg_end k"
  using gaptr_first_gap_after [of ngtcp2_gaptr_init 9] gaptr_init_ok by auto

text \<open>
  \<open>ngtcp2_gaptr_first_gap_offset\<close> returns the least missing offset.
\<close>

theorem gaptr_first_gap_offset:
  assumes "gaptr_ok gaptr"
  shows "\<exists>x. ngtcp2_gaptr_first_gap_offset gaptr = Ok x \<and> x \<in> gap_set gaptr \<and> (\<forall>y \<in> gap_set gaptr. x \<le> y)"
  using assms by (rule gaptr_first_gap_offset_ok)

theorem gaptr_first_gap_offset_witness:
  "\<exists>x. ngtcp2_gaptr_first_gap_offset ngtcp2_gaptr_init = Ok x \<and> x < UINT64_MAX"
  using gaptr_first_gap_offset [of ngtcp2_gaptr_init] gaptr_init_ok by auto

text \<open>
  \<open>ngtcp2_gaptr_drop_first_gap\<close> removes the lowest gap and keeps the invariant; dropping the last
  gap starts the tracker over.
\<close>

theorem gaptr_drop_first_gap:
  assumes "gaptr_ok gaptr"
  shows "\<exists>gaptr'. ngtcp2_gaptr_drop_first_gap gaptr = Ok gaptr' \<and> gaptr_ok gaptr' \<and>
    gap_set gaptr' = (if ngtcp2_ksl_len (gt_gap gaptr) \<le> 1 then {..< UINT64_MAX}
      else gap_set gaptr - range_set (fst (hd (ksl_elems (gt_gap gaptr)))))"
  using assms by (rule gaptr_drop_first_gap_ok)

theorem gaptr_drop_first_gap_witness:
  "\<exists>gaptr'. ngtcp2_gaptr_drop_first_gap ngtcp2_gaptr_init = Ok gaptr' \<and> gap_set gaptr' = {..< UINT64_MAX}"
  using gaptr_drop_first_gap [of ngtcp2_gaptr_init] gaptr_init_ok
  by (auto simp: ngtcp2_gaptr_init_def ngtcp2_ksl_len_def ngtcp2_ksl_init_def)

text \<open>
  \<open>ngtcp2_idtr_open\<close> opens a stream exactly once: an open stream is rejected with
  \<open>NGTCP2_ERR_STREAM_IN_USE\<close> and nothing changes, any other is open afterwards, and the answer of
  \<open>ngtcp2_idtr_is_open\<close> for every other stream stays the same.
\<close>

theorem idtr_open_once:
  assumes "idtr_ok idtr" "0 \<le> sint stream_id" "False \<notin> set al"
  shows "if ngtcp2_idtr_is_open idtr stream_id = Ok True
    then ngtcp2_idtr_open al idtr stream_id = Ok (idtr, Some NGTCP2_ERR_STREAM_IN_USE, al)
    else \<exists>idtr' al'. ngtcp2_idtr_open al idtr stream_id = Ok (idtr', None, al') \<and> idtr_ok idtr' \<and>
      (\<forall>sid. 0 \<le> sint sid \<longrightarrow> ngtcp2_idtr_is_open idtr' sid =
         Ok (id_from_stream_id sid = id_from_stream_id stream_id \<or> ngtcp2_idtr_is_open idtr sid = Ok True))"
  using assms by (rule idtr_open_ok)

theorem idtr_open_once_witness:
  "\<exists>idtr' al'. ngtcp2_idtr_open [] ngtcp2_idtr_init 8 = Ok (idtr', None, al') \<and> idtr_ok idtr' \<and>
     ngtcp2_idtr_is_open idtr' 8 = Ok True"
proof -
  have "idtr_ok ngtcp2_idtr_init" using gaptr_init_ok by (simp add: idtr_ok_def ngtcp2_idtr_init_def)
  moreover have "ngtcp2_idtr_is_open ngtcp2_idtr_init 8 \<noteq> Ok True"
    by (simp add: ngtcp2_idtr_is_open_def ngtcp2_idtr_init_def ngtcp2_gaptr_is_pushed_def ngtcp2_gaptr_init_def
      ngtcp2_ksl_len_def ngtcp2_ksl_init_def)
  ultimately show ?thesis using idtr_open_once [of ngtcp2_idtr_init 8 "[]"] by auto
qed

end
