(* ===== verification/Ringbuf.thy ===== *)
theory Ringbuf
  imports Prelude
begin

text \<open>
  \<open>lib/ngtcp2_ringbuf.c\<close>, a ring buffer of a power of two elements. The buffer is a list of elements;
  the pointer an operation returns for the caller to store through is the index of the element, and
  \<open>rb_store\<close> is the caller's store. Sizes and offsets are \<open>size_t\<close>, so \<open>first - 1\<close> wraps before it is
  masked.

  \<open>rb_elems\<close> is the queue the buffer represents, from its first to its last element; every operation is
  shown to implement the operation of a bounded double-ended queue.
\<close>

section \<open>Operations\<close>

record 'a ngtcp2_ringbuf =
  rb_buf :: "'a list"
  rb_mask :: u64
  rb_first :: u64
  rb_len :: u64

definition ispow2 :: "u64 \<Rightarrow> bool" where
  "ispow2 n = (n \<noteq> 0 \<and> n AND (n - 1) = 0)"

definition ngtcp2_ringbuf_buf_init :: "u64 \<Rightarrow> 'a list \<Rightarrow> 'a ngtcp2_ringbuf res" where
  "ngtcp2_ringbuf_buf_init nmemb buf =
     assertR (ispow2 nmemb) (Ok \<lparr>rb_buf = buf, rb_mask = nmemb - 1, rb_first = 0, rb_len = 0\<rparr>)"

definition rb_slot :: "'a ngtcp2_ringbuf \<Rightarrow> u64 \<Rightarrow> nat res" where
  "rb_slot rb offset = (if unat offset < length (rb_buf rb) then Ok (unat offset) else Fault)"

definition rb_store :: "'a ngtcp2_ringbuf \<Rightarrow> nat \<Rightarrow> 'a \<Rightarrow> 'a ngtcp2_ringbuf" where
  "rb_store rb i x = rb\<lparr>rb_buf := (rb_buf rb)[i := x]\<rparr>"

definition ngtcp2_ringbuf_push_front :: "'a ngtcp2_ringbuf \<Rightarrow> ('a ngtcp2_ringbuf \<times> nat) res" where
  "ngtcp2_ringbuf_push_front rb =
     (let rb = rb\<lparr>rb_first := (rb_first rb - 1) AND rb_mask rb\<rparr>;
          rb = (if rb_len rb < rb_mask rb + 1 then rb\<lparr>rb_len := rb_len rb + 1\<rparr> else rb) in
      bindR (rb_slot rb (rb_first rb)) (\<lambda>i. Ok (rb, i)))"

definition ngtcp2_ringbuf_push_back :: "'a ngtcp2_ringbuf \<Rightarrow> ('a ngtcp2_ringbuf \<times> nat) res" where
  "ngtcp2_ringbuf_push_back rb =
     (let offset = (rb_first rb + rb_len rb) AND rb_mask rb;
          rb = (if rb_len rb = rb_mask rb + 1 then rb\<lparr>rb_first := (rb_first rb + 1) AND rb_mask rb\<rparr>
                else rb\<lparr>rb_len := rb_len rb + 1\<rparr>) in
      bindR (rb_slot rb offset) (\<lambda>i. Ok (rb, i)))"

definition ngtcp2_ringbuf_pop_front :: "'a ngtcp2_ringbuf \<Rightarrow> 'a ngtcp2_ringbuf" where
  "ngtcp2_ringbuf_pop_front rb =
     rb\<lparr>rb_first := (rb_first rb + 1) AND rb_mask rb, rb_len := rb_len rb - 1\<rparr>"

definition ngtcp2_ringbuf_pop_back :: "'a ngtcp2_ringbuf \<Rightarrow> 'a ngtcp2_ringbuf res" where
  "ngtcp2_ringbuf_pop_back rb = assertR (rb_len rb \<noteq> 0) (Ok (rb\<lparr>rb_len := rb_len rb - 1\<rparr>))"

definition ngtcp2_ringbuf_resize :: "'a ngtcp2_ringbuf \<Rightarrow> u64 \<Rightarrow> 'a ngtcp2_ringbuf res" where
  "ngtcp2_ringbuf_resize rb len = assertR (len \<le> rb_mask rb + 1) (Ok (rb\<lparr>rb_len := len\<rparr>))"

definition ngtcp2_ringbuf_get :: "'a ngtcp2_ringbuf \<Rightarrow> u64 \<Rightarrow> nat res" where
  "ngtcp2_ringbuf_get rb offset =
     assertR (offset < rb_len rb) (rb_slot rb ((rb_first rb + offset) AND rb_mask rb))"

definition ngtcp2_ringbuf_full :: "'a ngtcp2_ringbuf \<Rightarrow> bool" where
  "ngtcp2_ringbuf_full rb = (rb_len rb = rb_mask rb + 1)"

definition ngtcp2_ringbuf_len :: "'a ngtcp2_ringbuf \<Rightarrow> u64" where
  "ngtcp2_ringbuf_len rb = rb_len rb"

section \<open>Invariant and abstraction\<close>

definition rb_cap :: "'a ngtcp2_ringbuf \<Rightarrow> nat" where
  "rb_cap rb = unat (rb_mask rb) + 1"

definition rb_ok :: "'a ngtcp2_ringbuf \<Rightarrow> bool" where
  "rb_ok rb = ((\<exists>k < 64. rb_mask rb = mask k) \<and> rb_first rb \<le> rb_mask rb \<and>
     unat (rb_len rb) \<le> rb_cap rb \<and> length (rb_buf rb) = rb_cap rb)"

definition rb_elems :: "'a ngtcp2_ringbuf \<Rightarrow> 'a list" where
  "rb_elems rb = map (\<lambda>i. rb_buf rb ! ((unat (rb_first rb) + i) mod rb_cap rb)) [0 ..< unat (rb_len rb)]"

lemma and_div_2: "and m n div 2 = and (m div 2) (n div 2)" for m n :: nat
  using drop_bit_and [of 1 m n, unfolded drop_bit_eq_div] by simp

lemma pow2_nat: "n \<noteq> 0 \<Longrightarrow> and n (n - 1) = 0 \<Longrightarrow> \<exists>k. n = 2 ^ k" for n :: nat
proof (induction n rule: less_induct)
  case (less n)
  show ?case
  proof (cases "even n")
    case True
    then obtain m where m: "n = 2 * m" by blast
    with less.prems have "m \<noteq> 0" by simp
    have "and m (m - 1) = 0"
    proof -
      have "and n (n - 1) div 2 = and (n div 2) ((n - 1) div 2)" by (rule and_div_2)
      moreover have "(n - 1) div 2 = m - 1" using m \<open>m \<noteq> 0\<close> by arith
      ultimately show ?thesis using less.prems m by simp
    qed
    with less.IH [of m] m \<open>m \<noteq> 0\<close> obtain k where "m = 2 ^ k" by auto
    then have "n = 2 ^ Suc k" using m by simp
    then show ?thesis ..
  next
    case False
    then obtain m where m: "n = 2 * m + 1" by (rule oddE)
    have "and n (n - 1) div 2 = and (n div 2) ((n - 1) div 2)" by (rule and_div_2)
    then have "m = 0" using m less.prems by simp
    then have "n = 2 ^ 0" using m by simp
    then show ?thesis ..
  qed
qed

lemma ispow2_iff: "ispow2 n \<longleftrightarrow> (\<exists>k < 64. n = 2 ^ k)"
proof
  assume p: "ispow2 n"
  then have "unat n \<noteq> 0" by (simp add: ispow2_def unat_eq_0)
  moreover have "and (unat n) (unat n - 1) = 0"
  proof -
    have "unat (n AND (n - 1)) = 0" using p by (simp add: ispow2_def)
    moreover have "unat (n - 1) = unat n - 1" using p by (simp add: ispow2_def unat_minus_one)
    ultimately show ?thesis by (simp add: unsigned_and_eq)
  qed
  ultimately obtain k where k: "unat n = 2 ^ k" using pow2_nat by blast
  moreover have "k < 64"
  proof (rule ccontr)
    assume "\<not> k < 64"
    then have "(2 :: nat) ^ 64 \<le> 2 ^ k" by (intro power_increasing) auto
    then show False using k unsigned_less [of n, where ?'a = nat] by simp
  qed
  moreover have "n = 2 ^ k"
  proof -
    have "word_of_nat (unat n) = n" by simp
    then show ?thesis unfolding k by simp
  qed
  ultimately show "\<exists>k < 64. n = 2 ^ k" by blast
next
  assume "\<exists>k < 64. n = 2 ^ k"
  then obtain k where k: "k < 64" "n = 2 ^ k" by blast
  have "n - 1 = mask k" using k by (simp add: mask_eq_decr_exp)
  then have "n AND (n - 1) = take_bit k (2 ^ k)" using k by (simp add: take_bit_eq_mask)
  also have "\<dots> = 0" by (rule bit_eqI) (simp add: bit_take_bit_iff bit_exp_iff)
  finally show "ispow2 n" using k by (simp add: ispow2_def)
qed

section \<open>The queue\<close>

lemma mask_add_1: "k < 64 \<Longrightarrow> (mask k :: u64) + 1 = 2 ^ k"
  by (simp add: mask_eq_decr_exp)

lemma unat_pow2: "k < 64 \<Longrightarrow> unat (2 ^ k :: u64) = 2 ^ k"
  using unsigned_of_nat [of "2 ^ k", where ?'b = 64, where ?'a = nat] by simp

lemma unat_mask: "k < 64 \<Longrightarrow> unat (mask k :: u64) = 2 ^ k - 1"
proof -
  assume k: "k < 64"
  have "(2 :: u64) ^ k \<noteq> 0" using unat_pow2 [OF k] by (metis power_not_zero unat_0 zero_neq_numeral)
  then show ?thesis by (simp add: mask_eq_decr_exp unat_minus_one unat_pow2 [OF k])
qed

lemma rb_okE:
  assumes "rb_ok rb"
  obtains k where "k < 64" "rb_mask rb = mask k" "rb_cap rb = 2 ^ k" "unat (rb_first rb) < 2 ^ k"
    "unat (rb_len rb) \<le> 2 ^ k" "length (rb_buf rb) = 2 ^ k"
proof -
  obtain k where k: "k < 64" "rb_mask rb = mask k" using assms by (auto simp: rb_ok_def)
  have c: "rb_cap rb = 2 ^ k" using k unat_mask [OF k(1)] by (simp add: rb_cap_def)
  have "unat (rb_first rb) \<le> 2 ^ k - 1"
    using assms unat_mask [OF k(1)] k(2) by (simp add: rb_ok_def word_le_nat_alt)
  then have "unat (rb_first rb) < 2 ^ k" by (rule le_less_trans) simp
  then show thesis using that [of k] k c assms by (auto simp: rb_ok_def)
qed

lemma unat_and_mask: "unat (x AND mask k) = unat x mod 2 ^ k" for x :: u64
  unfolding take_bit_eq_mask [symmetric] unsigned_take_bit_eq by (simp add: take_bit_eq_mod)

lemma pow_dvd_64: "k < 64 \<Longrightarrow> (x mod 18446744073709551616) mod 2 ^ k = x mod 2 ^ k" for x :: nat
proof -
  assume "k < 64"
  then have "(2 :: nat) ^ k dvd 2 ^ 64" by (intro le_imp_power_dvd) simp
  then show ?thesis by (simp add: mod_mod_cancel)
qed

lemma len_full: "rb_ok rb \<Longrightarrow> rb_len rb = rb_mask rb + 1 \<longleftrightarrow> unat (rb_len rb) = rb_cap rb"
  by (erule rb_okE) (metis mask_add_1 unat_pow2 word_unat_eq_iff)

lemma full_iff: "rb_ok rb \<Longrightarrow> ngtcp2_ringbuf_full rb \<longleftrightarrow> length (rb_elems rb) = rb_cap rb"
  by (simp add: ngtcp2_ringbuf_full_def rb_elems_def len_full)

text \<open>The position of the element at index \<open>i\<close> of the queue.\<close>

lemma elem_pos: "rb_ok rb \<Longrightarrow> unat ((rb_first rb + x) AND rb_mask rb) = (unat (rb_first rb) + unat x) mod rb_cap rb"
  by (erule rb_okE) (simp add: unat_and_mask unat_word_ariths pow_dvd_64)

lemma get_elems:
  assumes "rb_ok rb" "offset < rb_len rb"
  shows "\<exists>i. ngtcp2_ringbuf_get rb offset = Ok i \<and> i < length (rb_buf rb) \<and> rb_buf rb ! i = rb_elems rb ! unat offset"
proof -
  have "rb_cap rb > 0" by (simp add: rb_cap_def)
  then have "(unat (rb_first rb) + unat offset) mod rb_cap rb < length (rb_buf rb)" using assms(1) by (simp add: rb_ok_def)
  then show ?thesis using assms
    by (auto simp: ngtcp2_ringbuf_get_def rb_slot_def elem_pos rb_elems_def word_less_nat_alt)
qed

definition ring :: "'a list \<Rightarrow> nat \<Rightarrow> nat \<Rightarrow> 'a list" where
  "ring buf f n = map (\<lambda>i. buf ! ((f + i) mod length buf)) [0 ..< n]"

lemma length_ring [simp]: "length (ring buf f n) = n"
  by (simp add: ring_def)

lemma rb_elems_ring: "rb_ok rb \<Longrightarrow> rb_elems rb = ring (rb_buf rb) (unat (rb_first rb)) (unat (rb_len rb))"
  by (simp add: rb_elems_def ring_def rb_ok_def)

lemma ring_nth [simp]: "i < n \<Longrightarrow> ring buf f n ! i = buf ! ((f + i) mod length buf)"
  by (simp add: ring_def del: upt_Suc)

lemma ring_inj: "i < c \<Longrightarrow> j < c \<Longrightarrow> (f + i) mod c = (f + j) mod c \<Longrightarrow> i = j" for i j c f :: nat
proof (induction i j rule: linorder_wlog)
  case (le i j)
  then have "c dvd f + j - (f + i)" by (metis mod_eq_dvd_iff_nat add_left_mono)
  then show ?case using le by (auto dest!: dvd_imp_le)
qed auto

lemma ring_back:
  assumes "n < length buf"
  shows "ring (buf[(f + n) mod length buf := v]) f (Suc n) = ring buf f n @ [v]"
proof (rule nth_equalityI)
  fix i assume i: "i < length (ring (buf[(f + n) mod length buf := v]) f (Suc n))"
  show "ring (buf[(f + n) mod length buf := v]) f (Suc n) ! i = (ring buf f n @ [v]) ! i"
  proof (cases "i = n")
    case True
    moreover from assms have "length buf > 0" by linarith
    ultimately show ?thesis using mod_less_divisor by (simp add: nth_append)
  next
    case False
    then have "(f + n) mod length buf \<noteq> (f + i) mod length buf" using ring_inj [of i "length buf" n f] assms i by auto
    then show ?thesis using False i by (simp add: nth_append)
  qed
qed simp

lemma ring_tl: "ring buf (f + 1) n = tl (ring buf f (Suc n))"
  by (rule nth_equalityI) (simp_all add: nth_tl)

lemma ring_mod: "ring buf (f mod length buf) n = ring buf f n"
  by (simp add: ring_def mod_add_left_eq)

lemma ring_butlast: "ring buf f n = butlast (ring buf f (Suc n))"
  by (simp add: ring_def)

lemma ring_front:
  assumes "n < length buf"
  shows "ring (buf[f mod length buf := v]) f (Suc n) = v # ring buf (f + 1) n"
proof (rule nth_equalityI)
  fix i assume i: "i < length (ring (buf[f mod length buf := v]) f (Suc n))"
  show "ring (buf[f mod length buf := v]) f (Suc n) ! i = (v # ring buf (f + 1) n) ! i"
  proof (cases i)
    case 0
    moreover from assms have "length buf > 0" by linarith
    ultimately show ?thesis using mod_less_divisor by (simp add: nth_append)
  next
    case (Suc j)
    then have "f mod length buf \<noteq> (f + i) mod length buf" using ring_inj [of i "length buf" 0 f] assms i by fastforce
    then show ?thesis using Suc i by simp
  qed
qed simp

lemma first_next: "rb_ok rb \<Longrightarrow> unat ((rb_first rb + 1) AND rb_mask rb) = (unat (rb_first rb) + 1) mod rb_cap rb"
  using elem_pos [of rb 1] by simp

lemma first_prev:
  assumes "rb_ok rb"
  shows "(unat ((rb_first rb - 1) AND rb_mask rb) + 1) mod rb_cap rb = unat (rb_first rb)"
proof -
  obtain k where k: "k < 64" "rb_mask rb = mask k" "rb_cap rb = 2 ^ k" "unat (rb_first rb) < 2 ^ k" by (rule rb_okE [OF assms])
  have "(unat ((rb_first rb - 1) AND rb_mask rb) + 1) mod rb_cap rb = (unat (rb_first rb - 1) + 1) mod 2 ^ k"
    using k by (simp add: unat_and_mask mod_simps)
  also have "\<dots> = unat (rb_first rb - 1 + 1) mod 2 ^ k"
    using pow_dvd_64 [OF k(1), of "unat (rb_first rb - 1) + 1"] unfolding unat_word_ariths(1) by simp
  finally show ?thesis using k by simp
qed

lemma and_mask_le: "rb_ok rb \<Longrightarrow> x AND rb_mask rb \<le> rb_mask rb"
proof (erule rb_okE)
  fix k assume k: "k < 64" "rb_mask rb = mask k"
  have "unat (x AND mask k) < 2 ^ k" by (simp add: unat_and_mask)
  then show ?thesis using k unat_mask [OF k(1)] by (simp add: word_le_nat_alt)
qed

lemma slot_Ok: "rb_ok rb \<Longrightarrow> x \<le> rb_mask rb \<Longrightarrow> unat x < length (rb_buf rb)"
  by (simp add: rb_ok_def rb_cap_def word_le_nat_alt less_Suc_eq_le)

lemma len_Suc:
  assumes h: "rb_ok rb" "rb_len rb \<noteq> rb_mask rb + 1"
  shows "unat (rb_len rb + 1) = Suc (unat (rb_len rb)) \<and> unat (rb_len rb) < rb_cap rb"
proof -
  obtain k where k: "k < 64" "rb_cap rb = 2 ^ k" "unat (rb_len rb) \<le> 2 ^ k" by (rule rb_okE [OF h(1)])
  have l: "unat (rb_len rb) < 2 ^ k" using len_full [OF h(1)] h(2) k by simp
  moreover have "(2 :: nat) ^ k < 2 ^ 64" using k(1) by (intro power_strict_increasing) simp_all
  ultimately show ?thesis using k(2) by (simp add: unat_word_ariths)
qed

lemma push_back_ok:
  assumes ok: "rb_ok rb"
  shows "\<exists>rb' i. ngtcp2_ringbuf_push_back rb = Ok (rb', i) \<and> rb_ok (rb_store rb' i v) \<and>
    rb_cap (rb_store rb' i v) = rb_cap rb \<and>
    rb_elems (rb_store rb' i v) = (if ngtcp2_ringbuf_full rb then tl (rb_elems rb) else rb_elems rb) @ [v]"
proof -
  let ?f = "unat (rb_first rb)" and ?n = "unat (rb_len rb)" and ?c = "rb_cap rb"
  have c: "length (rb_buf rb) = ?c" "?c > 0" using ok by (auto simp: rb_ok_def rb_cap_def)
  have i: "unat ((rb_first rb + rb_len rb) AND rb_mask rb) = (?f + ?n) mod ?c" by (rule elem_pos [OF ok])
  then have il: "(?f + ?n) mod ?c < ?c" using c by simp
  show ?thesis
  proof (cases "rb_len rb = rb_mask rb + 1")
    case True
    then have n: "?n = ?c" using len_full [OF ok] by simp
    let ?rb = "rb\<lparr>rb_first := (rb_first rb + 1) AND rb_mask rb\<rparr>"
    have ok': "rb_ok (rb_store ?rb ((?f + ?n) mod ?c) v)"
      using ok and_mask_le [OF ok] by (simp add: rb_ok_def rb_store_def rb_cap_def)
    have pos: "(?f + ?n) mod ?c = (?f + 1 + (?c - 1)) mod ?c" using c(2) n by simp
    have "rb_elems (rb_store ?rb ((?f + ?n) mod ?c) v) =
      ring ((rb_buf rb)[(?f + 1 + (?c - 1)) mod ?c := v]) (?f + 1) (Suc (?c - 1))"
      using rb_elems_ring [OF ok'] first_next [OF ok] c n ring_mod [of "(rb_buf rb)[(?f + ?n) mod ?c := v]" "?f + 1" ?c]
      by (simp add: rb_store_def pos [symmetric])
    also have "\<dots> = ring (rb_buf rb) (?f + 1) (?c - 1) @ [v]" using ring_back [of "?c - 1" "rb_buf rb" "?f + 1" v] c by simp
    also have "\<dots> = tl (rb_elems rb) @ [v]" using ring_tl [of "rb_buf rb" ?f "?c - 1"] c(2) n rb_elems_ring [OF ok] by simp
    finally show ?thesis using True ok' i il c
      by (simp add: ngtcp2_ringbuf_push_back_def rb_slot_def ngtcp2_ringbuf_full_def rb_store_def rb_cap_def)
  next
    case False
    note n = len_Suc [OF ok False]
    let ?rb = "rb\<lparr>rb_len := rb_len rb + 1\<rparr>"
    have ok': "rb_ok (rb_store ?rb ((?f + ?n) mod ?c) v)" using ok n by (simp add: rb_ok_def rb_store_def rb_cap_def)
    have "rb_elems (rb_store ?rb ((?f + ?n) mod ?c) v) = rb_elems rb @ [v]"
      using rb_elems_ring [OF ok'] rb_elems_ring [OF ok] ring_back [of ?n "rb_buf rb" ?f v] n c by (simp add: rb_store_def)
    then show ?thesis using False ok' i il c
      by (simp add: ngtcp2_ringbuf_push_back_def rb_slot_def ngtcp2_ringbuf_full_def rb_store_def rb_cap_def)
  qed
qed

lemma push_front_ok:
  assumes ok: "rb_ok rb"
  shows "\<exists>rb' i. ngtcp2_ringbuf_push_front rb = Ok (rb', i) \<and> rb_ok (rb_store rb' i v) \<and>
    rb_cap (rb_store rb' i v) = rb_cap rb \<and>
    rb_elems (rb_store rb' i v) = v # (if ngtcp2_ringbuf_full rb then butlast (rb_elems rb) else rb_elems rb)"
proof -
  define f where "f = (rb_first rb - 1) AND rb_mask rb"
  let ?n = "unat (rb_len rb)" and ?c = "rb_cap rb" and ?f = "unat f"
  have c: "length (rb_buf rb) = ?c" "?c > 0" using ok by (auto simp: rb_ok_def rb_cap_def)
  have f: "(?f + 1) mod ?c = unat (rb_first rb)" "f \<le> rb_mask rb" "?f < ?c"
    using first_prev [OF ok] and_mask_le [OF ok] slot_Ok [OF ok] c by (simp_all add: f_def)
  have r: "ring (rb_buf rb) (?f + 1) n = ring (rb_buf rb) (unat (rb_first rb)) n" for n
    using ring_mod [of "rb_buf rb" "?f + 1" n] f c by simp
  define n where "n = (if rb_len rb = rb_mask rb + 1 then ?c - 1 else ?n)"
  let ?rb = "rb\<lparr>rb_first := f, rb_len := (if rb_len rb = rb_mask rb + 1 then rb_len rb else rb_len rb + 1)\<rparr>"
  have n: "n < ?c" "unat (rb_len ?rb) = Suc n"
    using len_Suc [OF ok] len_full [OF ok] c by (auto simp: n_def)
  have lt: "rb_len rb < rb_mask rb + 1 \<longleftrightarrow> rb_len rb \<noteq> rb_mask rb + 1"
  proof (rule rb_okE [OF ok])
    fix k assume k: "k < 64" "rb_mask rb = mask k" "?n \<le> 2 ^ k"
    show ?thesis unfolding k(2) mask_add_1 [OF k(1)] using k(3) unat_pow2 [OF k(1)]
      by (auto simp: word_less_nat_alt word_unat_eq_iff)
  qed
  have ok': "rb_ok (rb_store ?rb ?f v)" using ok n f(2) by (simp add: rb_ok_def rb_store_def rb_cap_def)
  have "rb_elems (rb_store ?rb ?f v) = ring ((rb_buf rb)[?f mod length (rb_buf rb) := v]) ?f (Suc n)"
    using rb_elems_ring [OF ok'] n f(3) c by (simp add: rb_store_def)
  also have "\<dots> = v # ring (rb_buf rb) (unat (rb_first rb)) n" using ring_front [of n "rb_buf rb" ?f v] n c r by simp
  also have "ring (rb_buf rb) (unat (rb_first rb)) n = (if ngtcp2_ringbuf_full rb then butlast (rb_elems rb) else rb_elems rb)"
    using rb_elems_ring [OF ok] ring_butlast [of "rb_buf rb" "unat (rb_first rb)" n] len_full [OF ok] c
    by (auto simp: n_def ngtcp2_ringbuf_full_def)
  finally have e: "rb_elems (rb_store ?rb ?f v) = v # (if ngtcp2_ringbuf_full rb then butlast (rb_elems rb) else rb_elems rb)" .
  have "ngtcp2_ringbuf_push_front rb = Ok (?rb, ?f)"
    using f(3) c lt by (cases "rb_len rb = rb_mask rb + 1") (simp_all add: ngtcp2_ringbuf_push_front_def rb_slot_def f_def [symmetric])
  then show ?thesis using ok' e by (auto simp: rb_store_def rb_cap_def)
qed

lemma len_pred: "rb_ok rb \<Longrightarrow> rb_len rb \<noteq> 0 \<Longrightarrow> unat (rb_len rb - 1) = unat (rb_len rb) - 1 \<and> unat (rb_len rb) \<noteq> 0"
  by (simp add: unat_minus_one unat_eq_0)

lemma pop_front_ok:
  assumes ok: "rb_ok rb" and ne: "rb_elems rb \<noteq> []"
  shows "rb_ok (ngtcp2_ringbuf_pop_front rb) \<and> rb_elems (ngtcp2_ringbuf_pop_front rb) = tl (rb_elems rb)"
proof -
  have l: "rb_len rb \<noteq> 0" using ne by (auto simp: rb_elems_def)
  note n = len_pred [OF ok l]
  have ok': "rb_ok (ngtcp2_ringbuf_pop_front rb)"
    using ok n and_mask_le [OF ok] by (auto simp: rb_ok_def ngtcp2_ringbuf_pop_front_def rb_cap_def)
  have "rb_elems (ngtcp2_ringbuf_pop_front rb) = ring (rb_buf rb) (unat (rb_first rb) + 1) (unat (rb_len rb) - 1)"
    using rb_elems_ring [OF ok'] n first_next [OF ok] ring_mod [of "rb_buf rb" "unat (rb_first rb) + 1"] ok
    by (simp add: ngtcp2_ringbuf_pop_front_def rb_ok_def)
  then show ?thesis using ok' n rb_elems_ring [OF ok] ring_tl [of "rb_buf rb" "unat (rb_first rb)" "unat (rb_len rb) - 1"] by simp
qed

lemma pop_back_ok:
  assumes ok: "rb_ok rb" and ne: "rb_elems rb \<noteq> []"
  shows "\<exists>rb'. ngtcp2_ringbuf_pop_back rb = Ok rb' \<and> rb_ok rb' \<and> rb_elems rb' = butlast (rb_elems rb)"
proof -
  have l: "rb_len rb \<noteq> 0" using ne by (auto simp: rb_elems_def)
  note n = len_pred [OF ok l]
  let ?rb = "rb\<lparr>rb_len := rb_len rb - 1\<rparr>"
  have ok': "rb_ok ?rb" using ok n by (auto simp: rb_ok_def rb_cap_def)
  then show ?thesis
    using l rb_elems_ring [OF ok'] rb_elems_ring [OF ok] n ring_butlast [of "rb_buf rb" "unat (rb_first rb)" "unat (rb_len rb) - 1"]
    by (simp add: ngtcp2_ringbuf_pop_back_def)
qed

lemma buf_init_ok:
  assumes "ispow2 nmemb" "length buf = unat nmemb"
  shows "\<exists>rb. ngtcp2_ringbuf_buf_init nmemb buf = Ok rb \<and> rb_ok rb \<and> rb_elems rb = [] \<and> rb_cap rb = unat nmemb"
proof -
  obtain k where k: "k < 64" "nmemb = 2 ^ k" using assms(1) by (auto simp: ispow2_iff)
  have "nmemb - 1 = mask k" using k by (simp add: mask_eq_decr_exp)
  moreover have "unat nmemb = 2 ^ k" using k unat_pow2 by simp
  ultimately show ?thesis using assms k unat_mask [OF k(1)]
    by (auto simp: ngtcp2_ringbuf_buf_init_def rb_ok_def rb_elems_def rb_cap_def)
qed

section \<open>A bounded history\<close>

text \<open>
  A store that keeps the latest entries: one operation that puts an entry in front and forgets the
  oldest one when it is full. The clients of the ring buffer in the library rely on this only.
\<close>

locale history =
  fixes inv :: "'s \<Rightarrow> bool" and cap :: "'s \<Rightarrow> nat" and entries :: "'s \<Rightarrow> 'a list" and put :: "'s \<Rightarrow> 'a \<Rightarrow> 's res"
  assumes put_ok: "inv s \<Longrightarrow> \<exists>s'. put s x = Ok s' \<and> inv s' \<and> cap s' = cap s \<and> entries s' = take (cap s) (x # entries s)"
begin

primrec put_all :: "'s \<Rightarrow> 'a list \<Rightarrow> 's res" where
  "put_all s [] = Ok s"
| "put_all s (x # xs) = bindR (put s x) (\<lambda>s. put_all s xs)"

lemma put_all_ok:
  assumes "inv s" "length (entries s) \<le> cap s"
  shows "\<exists>s'. put_all s xs = Ok s' \<and> inv s' \<and> cap s' = cap s \<and> entries s' = take (cap s) (rev xs @ entries s)"
  using assms
proof (induction xs arbitrary: s)
  case (Cons x xs)
  obtain s1 where s1: "put s x = Ok s1" "inv s1" "cap s1 = cap s" "entries s1 = take (cap s) (x # entries s)"
    using put_ok [OF Cons.prems(1)] by blast
  have "length (entries s1) \<le> cap s1" using s1 by simp
  from Cons.IH [OF s1(2) this] obtain s' where s': "put_all s1 xs = Ok s'" "inv s'" "cap s' = cap s1"
    "entries s' = take (cap s1) (rev xs @ entries s1)" by blast
  have "take n (ys @ take n zs) = take n (ys @ zs)" for n and ys zs :: "'a list"
    by (simp add: min_def)
  then show ?case using s1 s' by simp
qed simp

end

text \<open>The caller's push: \<open>ngtcp2_ringbuf_push_front\<close> and a store through the returned pointer.\<close>

definition rb_put :: "'a ngtcp2_ringbuf \<Rightarrow> 'a \<Rightarrow> 'a ngtcp2_ringbuf res" where
  "rb_put rb v = bindR (ngtcp2_ringbuf_push_front rb) (\<lambda>(rb, i). Ok (rb_store rb i v))"

primrec rb_put_all :: "'a ngtcp2_ringbuf \<Rightarrow> 'a list \<Rightarrow> 'a ngtcp2_ringbuf res" where
  "rb_put_all rb [] = Ok rb"
| "rb_put_all rb (v # vs) = bindR (rb_put rb v) (\<lambda>rb. rb_put_all rb vs)"

lemma rb_elems_cap: "rb_ok rb \<Longrightarrow> length (rb_elems rb) \<le> rb_cap rb"
  by (simp add: rb_elems_def rb_ok_def)

interpretation rb: history rb_ok rb_cap rb_elems rb_put
proof
  fix rb :: "'a ngtcp2_ringbuf" and v
  assume ok: "rb_ok rb"
  obtain rb' i where p: "ngtcp2_ringbuf_push_front rb = Ok (rb', i)" "rb_ok (rb_store rb' i v)"
    "rb_cap (rb_store rb' i v) = rb_cap rb"
    "rb_elems (rb_store rb' i v) = v # (if ngtcp2_ringbuf_full rb then butlast (rb_elems rb) else rb_elems rb)"
    using push_front_ok [OF ok] by blast
  have "0 < rb_cap rb" by (simp add: rb_cap_def)
  then have "v # (if ngtcp2_ringbuf_full rb then butlast (rb_elems rb) else rb_elems rb) = take (rb_cap rb) (v # rb_elems rb)"
    using full_iff [OF ok] rb_elems_cap [OF ok] by (cases "rb_cap rb") (auto simp: butlast_conv_take)
  then show "\<exists>s'. rb_put rb v = Ok s' \<and> rb_ok s' \<and> rb_cap s' = rb_cap rb \<and> rb_elems s' = take (rb_cap rb) (v # rb_elems rb)"
    using p by (simp add: rb_put_def)
qed

lemma put_all_eq: "rb_put_all rb vs = rb.put_all rb vs"
  by (induction vs arbitrary: rb) simp_all

text \<open>
  A ring buffer of \<open>n\<close> elements, \<open>n\<close> a power of two, keeps the \<open>n\<close> latest elements that were pushed to its
  front, latest first, whatever the number of pushes, and no access leaves the buffer.
\<close>

theorem ringbuf_keeps_latest:
  assumes "ispow2 nmemb" "length buf = unat nmemb"
  shows "\<exists>rb. bindR (ngtcp2_ringbuf_buf_init nmemb buf) (\<lambda>rb. rb_put_all rb vs) = Ok rb \<and> rb_ok rb \<and>
    rb_elems rb = take (unat nmemb) (rev vs)"
proof -
  obtain rb where i: "ngtcp2_ringbuf_buf_init nmemb buf = Ok rb" "rb_ok rb" "rb_elems rb = []" "rb_cap rb = unat nmemb"
    using buf_init_ok [OF assms] by blast
  then show ?thesis using rb.put_all_ok [of rb vs] by (auto simp: put_all_eq)
qed

theorem ringbuf_keeps_latest_witness:
  "\<exists>rb. bindR (ngtcp2_ringbuf_buf_init 2 ''xx'') (\<lambda>rb. rb_put_all rb ''abc'') = Ok rb \<and> rb_ok rb \<and> rb_elems rb = ''cb''"
  using ringbuf_keeps_latest [of 2 "''xx''" "''abc''"] by (simp add: ispow2_def)

lemma ring_take: "n \<le> m \<Longrightarrow> ring buf f n = take n (ring buf f m)"
  by (rule nth_equalityI) simp_all

lemma ringbuf_resize_ok:
  assumes "rb_ok rb" "len \<le> rb_len rb"
  shows "\<exists>rb'. ngtcp2_ringbuf_resize rb len = Ok rb' \<and> rb_ok rb' \<and> rb_elems rb' = take (unat len) (rb_elems rb)"
proof -
  obtain k where k: "k < 64" "rb_mask rb = mask k" using assms(1) by (auto simp: rb_ok_def)
  have m: "unat (rb_mask rb + 1) = rb_cap rb" using k by (simp add: rb_cap_def mask_add_1 unat_pow2 unat_mask)
  have l: "unat len \<le> unat (rb_len rb)" "unat (rb_len rb) \<le> rb_cap rb" using assms by (auto simp: word_le_nat_alt rb_ok_def)
  then have "len \<le> rb_mask rb + 1" using m by (simp add: word_le_nat_alt)
  moreover have ok: "rb_ok (rb\<lparr>rb_len := len\<rparr>)" using assms(1) l by (simp add: rb_ok_def rb_cap_def)
  moreover have "rb_elems (rb\<lparr>rb_len := len\<rparr>) = take (unat len) (rb_elems rb)"
    unfolding rb_elems_ring [OF ok] rb_elems_ring [OF assms(1)] using ring_take [OF l(1)] by simp
  ultimately show ?thesis by (simp add: ngtcp2_ringbuf_resize_def)
qed

text \<open>
  C36: The operations of the ring buffer implement those of a bounded double-ended queue. A push to the back of a full buffer overwrites the first
  element, and a push to the front overwrites the last one; a pop removes an element at its end; \<open>ngtcp2_ringbuf_resize\<close> to a smaller
  number keeps the elements from the front; an element is read at its index, and an index that is out of range fails the assertion.
\<close>

theorem ringbuf_refines_queue:
  assumes "rb_ok rb"
  shows "(\<exists>rb' i. ngtcp2_ringbuf_push_back rb = Ok (rb', i) \<and> rb_ok (rb_store rb' i v) \<and>
      rb_elems (rb_store rb' i v) = (if ngtcp2_ringbuf_full rb then tl (rb_elems rb) else rb_elems rb) @ [v]) \<and>
    (\<exists>rb' i. ngtcp2_ringbuf_push_front rb = Ok (rb', i) \<and> rb_ok (rb_store rb' i v) \<and>
      rb_elems (rb_store rb' i v) = v # (if ngtcp2_ringbuf_full rb then butlast (rb_elems rb) else rb_elems rb)) \<and>
    (rb_elems rb \<noteq> [] \<longrightarrow> rb_ok (ngtcp2_ringbuf_pop_front rb) \<and> rb_elems (ngtcp2_ringbuf_pop_front rb) = tl (rb_elems rb)) \<and>
    (rb_elems rb \<noteq> [] \<longrightarrow> (\<exists>rb'. ngtcp2_ringbuf_pop_back rb = Ok rb' \<and> rb_ok rb' \<and> rb_elems rb' = butlast (rb_elems rb))) \<and>
    (\<forall>len \<le> rb_len rb. \<exists>rb'. ngtcp2_ringbuf_resize rb len = Ok rb' \<and> rb_ok rb' \<and> rb_elems rb' = take (unat len) (rb_elems rb)) \<and>
    unat (ngtcp2_ringbuf_len rb) = length (rb_elems rb) \<and>
    (\<forall>offset. if offset < rb_len rb then \<exists>i. ngtcp2_ringbuf_get rb offset = Ok i \<and> rb_buf rb ! i = rb_elems rb ! unat offset
       else ngtcp2_ringbuf_get rb offset = Fault)"
proof -
  have "if offset < rb_len rb then \<exists>i. ngtcp2_ringbuf_get rb offset = Ok i \<and> rb_buf rb ! i = rb_elems rb ! unat offset
      else ngtcp2_ringbuf_get rb offset = Fault" for offset
    using get_elems [OF assms, of offset] by (auto simp: ngtcp2_ringbuf_get_def assertR_def)
  moreover have "unat (ngtcp2_ringbuf_len rb) = length (rb_elems rb)" by (simp add: ngtcp2_ringbuf_len_def rb_elems_def)
  ultimately show ?thesis
    using push_back_ok [OF assms, of v] push_front_ok [OF assms, of v] pop_front_ok [OF assms] pop_back_ok [OF assms] ringbuf_resize_ok [OF assms]
    by blast
qed

theorem ringbuf_refines_queue_witness:
  "rb_elems (ngtcp2_ringbuf_pop_front \<lparr>rb_buf = ''dabc'', rb_mask = 3, rb_first = 1, rb_len = 4\<rparr>) = ''bcd'' \<and>
   (\<exists>rb' i. ngtcp2_ringbuf_push_front \<lparr>rb_buf = ''dabc'', rb_mask = 3, rb_first = 1, rb_len = 4\<rparr> = Ok (rb', i) \<and>
     rb_elems (rb_store rb' i (CHR ''x'')) = ''xabc'')"
proof -
  let ?rb = "\<lparr>rb_buf = ''dabc'', rb_mask = 3, rb_first = 1, rb_len = 4\<rparr>"
  have m: "(3 :: u64) = mask 2" by (simp add: mask_eq_exp_minus_1)
  have ok: "rb_ok ?rb" unfolding rb_ok_def by (simp add: rb_cap_def) (rule exI [of _ 2], simp add: m)
  have "rb_elems ?rb = ''abcd''" by (simp add: rb_elems_def rb_cap_def upt_rec)
  moreover have "ngtcp2_ringbuf_full ?rb" by (simp add: ngtcp2_ringbuf_full_def)
  ultimately show ?thesis using ringbuf_refines_queue [OF ok, of "CHR ''x''"] by auto
qed

end
