(* ===== verification/Pq.thy ===== *)
theory Pq
  imports Prelude "HOL-Library.Multiset"
begin

text \<open>
  \<open>lib/ngtcp2_pq.c\<close>, a priority queue in a binary heap. The entries are parts of the objects that are queued,
  and each holds its index in the array, so that an object can be removed without a search; an entry is
  named by an identity of type \<open>'e\<close>, and \<open>pq_index\<close> is the \<open>index\<close> field of every entry. The function
  \<open>less\<close> is chosen by the client and is an argument of the operations.

  \<open>pq_ok\<close> is the invariant: the heap order, and that each queued entry knows its index. It relies on
  \<open>less\<close> only on the entries in the queue, which \<open>weak_order\<close> states as a set.
\<close>

section \<open>Operations\<close>

record 'e ngtcp2_pq =
  pq_q :: "'e list"
  pq_capacity :: nat
  pq_index :: "'e \<Rightarrow> nat"

definition ngtcp2_pq_init :: "('e \<Rightarrow> nat) \<Rightarrow> 'e ngtcp2_pq" where
  "ngtcp2_pq_init index = \<lparr>pq_q = [], pq_capacity = 0, pq_index = index\<rparr>"

definition pq_swap :: "'e ngtcp2_pq \<Rightarrow> nat \<Rightarrow> nat \<Rightarrow> 'e ngtcp2_pq" where
  "pq_swap pq i j =
     (let a = pq_q pq ! i; b = pq_q pq ! j in
      pq\<lparr>pq_q := (pq_q pq)[i := b, j := a], pq_index := (pq_index pq)(b := i, a := j)\<rparr>)"

function bubble_up :: "('e \<Rightarrow> 'e \<Rightarrow> bool) \<Rightarrow> 'e ngtcp2_pq \<Rightarrow> nat \<Rightarrow> 'e ngtcp2_pq res" where
  "bubble_up pless pq index =
     (if index = 0 then Ok pq else
      let parent = (index - 1) div 2 in
      if \<not> index < length (pq_q pq) then Fault
      else if \<not> pless (pq_q pq ! index) (pq_q pq ! parent) then Ok pq
      else bubble_up pless (pq_swap pq parent index) parent)"
  by pat_completeness auto
termination
  by (relation "measure (\<lambda>(pless, pq, index). index)") auto

definition ngtcp2_pq_push ::
    "('e \<Rightarrow> 'e \<Rightarrow> bool) \<Rightarrow> bool \<Rightarrow> 'e ngtcp2_pq \<Rightarrow> 'e \<Rightarrow> ('e ngtcp2_pq \<times> lib_error option) res" where
  "ngtcp2_pq_push pless mem pq item =
     (if pq_capacity pq \<le> length (pq_q pq) \<and> \<not> mem then Ok (pq, Some NGTCP2_ERR_NOMEM) else
      let ncapacity = (if pq_capacity pq \<le> length (pq_q pq) then max 4 (pq_capacity pq * 2) else pq_capacity pq);
          n = length (pq_q pq) in
      assertR (n < ncapacity)
       (bindR (bubble_up pless (pq\<lparr>pq_capacity := ncapacity, pq_q := pq_q pq @ [item], pq_index := (pq_index pq)(item := n)\<rparr>) n)
         (\<lambda>pq. Ok (pq, None))))"

definition ngtcp2_pq_top :: "'e ngtcp2_pq \<Rightarrow> 'e res" where
  "ngtcp2_pq_top pq = assertR (pq_q pq \<noteq> []) (Ok (pq_q pq ! 0))"

text \<open>The inner loop of \<open>bubble_down\<close>, over the one or two children of \<open>index\<close>.\<close>

definition min_child :: "('e \<Rightarrow> 'e \<Rightarrow> bool) \<Rightarrow> 'e list \<Rightarrow> nat \<Rightarrow> nat" where
  "min_child pless q index =
     (let j = index * 2 + 1; minindex = index in
      if j \<ge> length q then minindex else
      let minindex = (if pless (q ! j) (q ! minindex) then j else minindex); j = j + 1 in
      if j \<ge> length q then minindex else
      if pless (q ! j) (q ! minindex) then j else minindex)"

lemma min_child_less: "min_child pless q i \<noteq> i \<Longrightarrow> i < min_child pless q i \<and> min_child pless q i < length q"
  by (auto simp: min_child_def Let_def split: if_splits)

function bubble_down :: "('e \<Rightarrow> 'e \<Rightarrow> bool) \<Rightarrow> 'e ngtcp2_pq \<Rightarrow> nat \<Rightarrow> 'e ngtcp2_pq" where
  "bubble_down pless pq index =
     (let minindex = min_child pless (pq_q pq) index in
      if minindex = index then pq
      else bubble_down pless (pq_swap pq index minindex) minindex)"
  by pat_completeness auto
termination
proof (relation "measure (\<lambda>(pless, pq, index). length (pq_q pq) - index)")
  fix pless :: "'e \<Rightarrow> 'e \<Rightarrow> bool" and pq :: "'e ngtcp2_pq" and index x
  assume "x = min_child pless (pq_q pq) index" "x \<noteq> index"
  then show "((pless, pq_swap pq index x, x), pless, pq, index) \<in> measure (\<lambda>(pless, pq, index). length (pq_q pq) - index)"
    using min_child_less [of pless "pq_q pq" index] by (auto simp: pq_swap_def Let_def)
qed simp

declare bubble_up.simps [simp del] bubble_down.simps [simp del]

definition ngtcp2_pq_pop :: "('e \<Rightarrow> 'e \<Rightarrow> bool) \<Rightarrow> 'e ngtcp2_pq \<Rightarrow> 'e ngtcp2_pq res" where
  "ngtcp2_pq_pop pless pq =
     assertR (pq_q pq \<noteq> [])
      (let x = last (pq_q pq) in
       Ok (bubble_down pless (pq\<lparr>pq_q := butlast ((pq_q pq)[0 := x]), pq_index := (pq_index pq)(x := 0)\<rparr>) 0))"

definition ngtcp2_pq_remove :: "('e \<Rightarrow> 'e \<Rightarrow> bool) \<Rightarrow> 'e ngtcp2_pq \<Rightarrow> 'e \<Rightarrow> 'e ngtcp2_pq res" where
  "ngtcp2_pq_remove pless pq item =
     (let i = pq_index pq item; n = length (pq_q pq) in
      if i \<ge> n then Fault else
      assertR (pq_q pq ! i = item)
       (if i = 0 then ngtcp2_pq_pop pless pq
        else if i = n - 1 then Ok (pq\<lparr>pq_q := butlast (pq_q pq)\<rparr>)
        else
          let x = pq_q pq ! (n - 1);
              pq = pq\<lparr>pq_q := butlast ((pq_q pq)[i := x]), pq_index := (pq_index pq)(x := i)\<rparr> in
          if pless item (pq_q pq ! i) then Ok (bubble_down pless pq i) else bubble_up pless pq i))"

definition ngtcp2_pq_empty :: "'e ngtcp2_pq \<Rightarrow> bool" where
  "ngtcp2_pq_empty pq = (length (pq_q pq) = 0)"

definition ngtcp2_pq_size :: "'e ngtcp2_pq \<Rightarrow> nat" where
  "ngtcp2_pq_size pq = length (pq_q pq)"

section \<open>Order and invariant\<close>

definition weak_order :: "('e \<Rightarrow> 'e \<Rightarrow> bool) \<Rightarrow> 'e set \<Rightarrow> bool" where
  "weak_order pless K =
     ((\<forall>x \<in> K. \<forall>y \<in> K. pless x y \<longrightarrow> \<not> pless y x) \<and>
      (\<forall>x \<in> K. \<forall>y \<in> K. \<forall>z \<in> K. pless x z \<longrightarrow> pless x y \<or> pless y z))"

lemma weak_orderD:
  assumes "weak_order pless K"
  shows "x \<in> K \<Longrightarrow> y \<in> K \<Longrightarrow> pless x y \<Longrightarrow> \<not> pless y x"
    "x \<in> K \<Longrightarrow> y \<in> K \<Longrightarrow> z \<in> K \<Longrightarrow> \<not> pless x y \<Longrightarrow> \<not> pless y z \<Longrightarrow> \<not> pless x z"
    "x \<in> K \<Longrightarrow> y \<in> K \<Longrightarrow> z \<in> K \<Longrightarrow> pless x y \<Longrightarrow> pless y z \<Longrightarrow> pless x z"
  using assms unfolding weak_order_def by blast+

lemma weak_order_sub: "weak_order pless K \<Longrightarrow> K' \<subseteq> K \<Longrightarrow> weak_order pless K'"
  unfolding weak_order_def by blast

definition par :: "nat \<Rightarrow> nat" where
  "par i = (i - 1) div 2"

definition heap_order :: "('e \<Rightarrow> 'e \<Rightarrow> bool) \<Rightarrow> 'e list \<Rightarrow> bool" where
  "heap_order pless q = (\<forall>c < length q. 0 < c \<longrightarrow> \<not> pless (q ! c) (q ! par c))"

definition indexed :: "'e ngtcp2_pq \<Rightarrow> bool" where
  "indexed pq = (\<forall>i < length (pq_q pq). pq_index pq (pq_q pq ! i) = i)"

definition pq_ok :: "('e \<Rightarrow> 'e \<Rightarrow> bool) \<Rightarrow> 'e ngtcp2_pq \<Rightarrow> bool" where
  "pq_ok pless pq = (heap_order pless (pq_q pq) \<and> indexed pq \<and> length (pq_q pq) \<le> pq_capacity pq)"

lemma indexed_distinct: "indexed pq \<Longrightarrow> distinct (pq_q pq)"
  unfolding indexed_def distinct_conv_nth by metis

lemma par_less: "0 < i \<Longrightarrow> par i < i"
  by (simp add: par_def)

lemma par_children: "0 < c \<and> par c = i \<longleftrightarrow> c = 2 * i + 1 \<or> c = 2 * i + 2"
  by (auto simp: par_def)

lemma swap_simps [simp]:
  "length (pq_q (pq_swap pq i j)) = length (pq_q pq)" "pq_capacity (pq_swap pq i j) = pq_capacity pq"
  by (simp_all add: pq_swap_def Let_def)

lemma swap_mset: "i < length (pq_q pq) \<Longrightarrow> j < length (pq_q pq) \<Longrightarrow> mset (pq_q (pq_swap pq i j)) = mset (pq_q pq)"
  by (simp add: pq_swap_def Let_def mset_swap)

lemma swap_nth:
  "i < length (pq_q pq) \<Longrightarrow> j < length (pq_q pq) \<Longrightarrow>
     pq_q (pq_swap pq i j) ! c = (if c = j then pq_q pq ! i else if c = i then pq_q pq ! j else pq_q pq ! c)"
  by (auto simp: pq_swap_def Let_def nth_list_update)

lemma swap_indexed:
  assumes "indexed pq" "i < length (pq_q pq)" "j < length (pq_q pq)"
  shows "indexed (pq_swap pq i j)"
  unfolding indexed_def swap_simps
proof (intro allI impI)
  fix c assume c: "c < length (pq_q pq)"
  have "pq_q pq ! i = pq_q pq ! j \<longleftrightarrow> i = j" "pq_q pq ! c = pq_q pq ! i \<longleftrightarrow> c = i" "pq_q pq ! c = pq_q pq ! j \<longleftrightarrow> c = j"
    using indexed_distinct [OF assms(1)] assms(2,3) c by (simp_all add: nth_eq_iff_index_eq)
  then show "pq_index (pq_swap pq i j) (pq_q (pq_swap pq i j) ! c) = c"
    using assms c unfolding swap_nth [OF assms(2,3)] by (auto simp: pq_swap_def Let_def indexed_def)
qed

section \<open>Heap order\<close>

definition up_hole :: "('e \<Rightarrow> 'e \<Rightarrow> bool) \<Rightarrow> 'e list \<Rightarrow> nat \<Rightarrow> bool" where
  "up_hole pless q i =
     ((\<forall>c < length q. 0 < c \<and> c \<noteq> i \<longrightarrow> \<not> pless (q ! c) (q ! par c)) \<and>
      (\<forall>c < length q. 0 < c \<and> par c = i \<and> 0 < i \<longrightarrow> \<not> pless (q ! c) (q ! par i)))"

definition down_hole :: "('e \<Rightarrow> 'e \<Rightarrow> bool) \<Rightarrow> 'e list \<Rightarrow> nat \<Rightarrow> bool" where
  "down_hole pless q i =
     ((\<forall>c < length q. 0 < c \<and> par c \<noteq> i \<longrightarrow> \<not> pless (q ! c) (q ! par c)) \<and>
      (\<forall>c < length q. 0 < c \<and> par c = i \<and> 0 < i \<longrightarrow> \<not> pless (q ! c) (q ! par i)))"

lemma up_step:
  assumes o: "weak_order pless (set (pq_q pq))" and h: "up_hole pless (pq_q pq) i"
    and i: "0 < i" "i < length (pq_q pq)" and l: "pless (pq_q pq ! i) (pq_q pq ! par i)"
  shows "up_hole pless (pq_q (pq_swap pq (par i) i)) (par i)"
proof -
  let ?q = "pq_q pq" and ?p = "par i"
  have p: "?p < i" "?p < length ?q" using par_less [OF i(1)] i by simp_all
  note nth = swap_nth [OF p(2) i(2)]
  note W = weak_orderD [OF o]
  have first: "\<not> pless (?q ! c) (?q ! par c)" if "c < length ?q" "0 < c" "c \<noteq> i" for c
    using h that unfolding up_hole_def by blast
  have second: "\<not> pless (?q ! c) (?q ! ?p)" if "c < length ?q" "0 < c" "par c = i" for c
    using h that i(1) unfolding up_hole_def by blast
  show ?thesis unfolding up_hole_def swap_simps
  proof (intro conjI allI impI; elim conjE)
    fix c assume c: "c < length ?q" "0 < c" "c \<noteq> ?p"
    have pc: "par c < c" "par c < length ?q" using par_less [OF c(2)] c by simp_all
    consider "c = i" | "c \<noteq> i" "par c = ?p" | "c \<noteq> i" "par c = i" | "c \<noteq> i" "par c \<noteq> ?p" "par c \<noteq> i" by blast
    then show "\<not> pless (pq_q (pq_swap pq ?p i) ! c) (pq_q (pq_swap pq ?p i) ! par c)"
    proof cases
      case 1
      then show ?thesis unfolding nth using p i W(1) [OF nth_mem nth_mem l] by simp
    next
      case 2
      have "\<not> pless (?q ! c) (?q ! i)"
      proof
        assume "pless (?q ! c) (?q ! i)"
        then have "pless (?q ! c) (?q ! ?p)" using W(3) [of "?q ! c" "?q ! i" "?q ! ?p"] l c i p by simp
        then show False using first [OF c(1,2) 2(1)] 2 by simp
      qed
      then show ?thesis unfolding nth using 2 c p by simp
    next
      case 3
      then show ?thesis unfolding nth using second [OF c(1,2)] c by simp
    next
      case 4
      then show ?thesis unfolding nth using first [OF c(1,2)] c by simp
    qed
  next
    fix c assume c: "c < length ?q" "0 < c" "par c = ?p" "0 < ?p"
    have pp: "par ?p < ?p" by (rule par_less [OF c(4)])
    have np: "\<not> pless (?q ! ?p) (?q ! par ?p)" using first [of ?p] p c by simp
    have c': "c \<noteq> ?p" using par_less [OF c(2)] c(3) by simp
    show "\<not> pless (pq_q (pq_swap pq ?p i) ! c) (pq_q (pq_swap pq ?p i) ! par ?p)"
    proof (cases "c = i")
      case True
      then show ?thesis unfolding nth using np pp p by simp
    next
      case False
      then have "\<not> pless (?q ! c) (?q ! ?p)" using first [OF c(1,2)] c by simp
      then have "\<not> pless (?q ! c) (?q ! par ?p)"
        using W(2) [of "?q ! c" "?q ! ?p" "?q ! par ?p"] np c p pp by simp
      then show ?thesis unfolding nth using False c' pp p by simp
    qed
  qed
qed

lemma bubble_up_ok:
  assumes "weak_order pless (set (pq_q pq))" "up_hole pless (pq_q pq) i" "i < length (pq_q pq)" "indexed pq"
  shows "\<exists>pq'. bubble_up pless pq i = Ok pq' \<and> heap_order pless (pq_q pq') \<and> indexed pq' \<and>
    mset (pq_q pq') = mset (pq_q pq) \<and> pq_capacity pq' = pq_capacity pq"
  using assms
proof (induction pless pq i rule: bubble_up.induct)
  case (1 pless pq i)
  show ?case
  proof (cases "0 < i \<and> pless (pq_q pq ! i) (pq_q pq ! par i)")
    case True
    then have p: "par i < length (pq_q pq)" using par_less [of i] "1.prems"(3) by simp
    have m: "mset (pq_q (pq_swap pq (par i) i)) = mset (pq_q pq)" by (rule swap_mset [OF p "1.prems"(3)])
    then have "set (pq_q (pq_swap pq (par i) i)) = set (pq_q pq)" by (rule mset_eq_setD)
    with "1.IH" [OF _ refl] True "1.prems" up_step [OF "1.prems"(1,2)] swap_indexed [OF "1.prems"(4) p "1.prems"(3)] p m
    have "\<exists>pq'. bubble_up pless (pq_swap pq (par i) i) (par i) = Ok pq' \<and> heap_order pless (pq_q pq') \<and> indexed pq' \<and>
      mset (pq_q pq') = mset (pq_q pq) \<and> pq_capacity pq' = pq_capacity pq" by (simp add: par_def)
    moreover have "bubble_up pless pq i = bubble_up pless (pq_swap pq (par i) i) (par i)"
      using True "1.prems"(3) by (subst bubble_up.simps) (simp add: par_def Let_def)
    ultimately show ?thesis by simp
  next
    case False
    then have "bubble_up pless pq i = Ok pq" using "1.prems"(3) by (subst bubble_up.simps) (auto simp: par_def Let_def)
    moreover have "heap_order pless (pq_q pq)" using "1.prems"(2) False unfolding heap_order_def up_hole_def by auto
    ultimately show ?thesis using "1.prems" by blast
  qed
qed


lemma min_child_min:
  assumes o: "weak_order pless (set q)" and i: "i < length q"
  defines "m \<equiv> min_child pless q i"
  shows "m = i \<Longrightarrow> c < length q \<Longrightarrow> 0 < c \<Longrightarrow> par c = i \<Longrightarrow> \<not> pless (q ! c) (q ! i)"
    and "m \<noteq> i \<Longrightarrow> 0 < m \<and> par m = i \<and> m < length q \<and> pless (q ! m) (q ! i)"
    and "m \<noteq> i \<Longrightarrow> c < length q \<Longrightarrow> 0 < c \<Longrightarrow> par c = i \<Longrightarrow> \<not> pless (q ! c) (q ! m)"
proof -
  note W = weak_orderD [OF o]
  have irr: "\<not> pless (q ! c) (q ! c)" if "c < length q" for c using W(1) [of "q ! c" "q ! c"] that by auto
  have ch: "c = 2 * i + 1 \<or> c = 2 * i + 2" if "0 < c" "par c = i" for c using par_children [of c i] that by simp
  show "\<not> pless (q ! c) (q ! i)" if "m = i" "c < length q" "0 < c" "par c = i" for c
    using ch [OF that(3,4)] that(1,2) by (auto simp: m_def min_child_def Let_def mult.commute split: if_splits)
  show "0 < m \<and> par m = i \<and> m < length q \<and> pless (q ! m) (q ! i)" if "m \<noteq> i"
  proof -
    have j: "m = 2 * i + 1 \<or> m = 2 * i + 2" "m < length q"
      using that by (auto simp: m_def min_child_def Let_def mult.commute split: if_splits)
    have "pless (q ! m) (q ! i)"
      using that W(3) [of "q ! (2 * i + 2)" "q ! (2 * i + 1)" "q ! i"] i
      by (auto simp: m_def min_child_def Let_def mult.commute split: if_splits)
    then show ?thesis using j par_children [of m i] by simp
  qed
  show "\<not> pless (q ! c) (q ! m)" if "m \<noteq> i" "c < length q" "0 < c" "par c = i" for c
    using ch [OF that(3,4)] that(1,2) irr [of c] W(1) [of "q ! (2 * i + 2)" "q ! (2 * i + 1)"] W(2) [of "q ! (2 * i + 1)" "q ! i" "q ! (2 * i + 2)"] i
      W(1) [of "q ! (2 * i + 2)" "q ! i"]
    by (auto simp: m_def min_child_def Let_def mult.commute split: if_splits dest: W)
qed

lemma down_step:
  assumes o: "weak_order pless (set (pq_q pq))" and h: "down_hole pless (pq_q pq) i" and i: "i < length (pq_q pq)"
    and m: "m = min_child pless (pq_q pq) i" "m \<noteq> i"
  shows "down_hole pless (pq_q (pq_swap pq i m)) m"
proof -
  let ?q = "pq_q pq"
  note W = weak_orderD [OF o]
  have m': "0 < m" "par m = i" "m < length ?q" "pless (?q ! m) (?q ! i)"
    using min_child_min(2) [OF o i] m by simp_all
  note nth = swap_nth [OF i m'(3)]
  have first: "\<not> pless (?q ! c) (?q ! par c)" if "c < length ?q" "0 < c" "par c \<noteq> i" for c
    using h that unfolding down_hole_def by blast
  have lt: "i < m" using par_less [OF m'(1)] m'(2) by simp
  show ?thesis unfolding down_hole_def swap_simps
  proof (intro conjI allI impI; elim conjE)
    fix c assume c: "c < length ?q" "0 < c" "par c \<noteq> m"
    have pc: "par c < c" by (rule par_less [OF c(2)])
    consider "c = m" | "c \<noteq> m" "par c = i" | "c = i" | "c \<noteq> m" "c \<noteq> i" "par c \<noteq> i" by blast
    then show "\<not> pless (pq_q (pq_swap pq i m) ! c) (pq_q (pq_swap pq i m) ! par c)"
    proof cases
      case 1
      then show ?thesis unfolding nth using m' lt W(1) [OF _ _ m'(4)] i by simp
    next
      case 2
      then show ?thesis unfolding nth using min_child_min(3) [OF o i, of c] m c pc lt by auto
    next
      case 3
      then have "\<not> pless (?q ! m) (?q ! par i)" using h m' c unfolding down_hole_def by auto
      then show ?thesis unfolding nth using 3 pc lt by simp
    next
      case 4
      then show ?thesis unfolding nth using first [OF c(1,2)] c(3) by simp
    qed
  next
    fix c assume c: "c < length ?q" "0 < c" "par c = m" "0 < m"
    have "\<not> pless (?q ! c) (?q ! m)" using first [OF c(1,2)] c(3) m(2) by simp
    then show "\<not> pless (pq_q (pq_swap pq i m) ! c) (pq_q (pq_swap pq i m) ! par m)"
      unfolding nth using m' lt par_less [OF c(2)] c(3) by simp
  qed
qed

lemma bubble_down_ok:
  assumes "weak_order pless (set (pq_q pq))" "down_hole pless (pq_q pq) i" "i < length (pq_q pq)" "indexed pq"
  shows "heap_order pless (pq_q (bubble_down pless pq i)) \<and> indexed (bubble_down pless pq i) \<and>
    mset (pq_q (bubble_down pless pq i)) = mset (pq_q pq) \<and> pq_capacity (bubble_down pless pq i) = pq_capacity pq"
  using assms
proof (induction pless pq i rule: bubble_down.induct)
  case (1 pless pq i)
  define m where "m = min_child pless (pq_q pq) i"
  show ?case
  proof (cases "m = i")
    case True
    then have "bubble_down pless pq i = pq" by (subst bubble_down.simps) (simp add: m_def)
    moreover have "heap_order pless (pq_q pq)" unfolding heap_order_def
      using "1.prems"(2) min_child_min(1) [OF "1.prems"(1,3)] True by (auto simp: down_hole_def m_def)
    ultimately show ?thesis using "1.prems" by simp
  next
    case False
    have ml: "m < length (pq_q pq)" using min_child_less False m_def by metis
    have ms: "mset (pq_q (pq_swap pq i m)) = mset (pq_q pq)" by (rule swap_mset [OF "1.prems"(3) ml])
    then have "set (pq_q (pq_swap pq i m)) = set (pq_q pq)" by (rule mset_eq_setD)
    with "1.IH" [OF m_def False] "1.prems" down_step [OF "1.prems"(1,2,3) m_def False] ml ms
      swap_indexed [OF "1.prems"(4,3) ml]
    have "heap_order pless (pq_q (bubble_down pless (pq_swap pq i m) m)) \<and> indexed (bubble_down pless (pq_swap pq i m) m) \<and>
      mset (pq_q (bubble_down pless (pq_swap pq i m) m)) = mset (pq_q pq) \<and>
      pq_capacity (bubble_down pless (pq_swap pq i m) m) = pq_capacity pq" by simp
    moreover have "bubble_down pless pq i = bubble_down pless (pq_swap pq i m) m"
      using False by (subst bubble_down.simps) (simp add: m_def Let_def)
    ultimately show ?thesis by simp
  qed
qed

section \<open>The queue operations\<close>

lemma push_ok:
  assumes ok: "pq_ok pless pq" and o: "weak_order pless (insert x (set (pq_q pq)))" and x: "x \<notin> set (pq_q pq)"
    and mem: "mem \<or> length (pq_q pq) < pq_capacity pq"
  shows "\<exists>pq'. ngtcp2_pq_push pless mem pq x = Ok (pq', None) \<and> pq_ok pless pq' \<and>
    mset (pq_q pq') = add_mset x (mset (pq_q pq))"
proof -
  let ?n = "length (pq_q pq)"
  define cap where "cap = (if pq_capacity pq \<le> ?n then max 4 (pq_capacity pq * 2) else pq_capacity pq)"
  let ?pq = "pq\<lparr>pq_capacity := cap, pq_q := pq_q pq @ [x], pq_index := (pq_index pq)(x := ?n)\<rparr>"
  have cap: "?n < cap" using ok by (auto simp: cap_def pq_ok_def)
  have "weak_order pless (set (pq_q ?pq))" using o by simp
  moreover have "up_hole pless (pq_q ?pq) ?n"
  proof -
    have "par c < ?n" if "c < Suc ?n" "0 < c" for c using par_less [OF that(2)] that(1) by simp
    moreover have "par c \<noteq> ?n" if "c < Suc ?n" "0 < c" for c using par_less [OF that(2)] that(1) by simp
    ultimately show ?thesis using ok by (auto simp: up_hole_def pq_ok_def heap_order_def nth_append)
  qed
  moreover have "indexed ?pq"
    using ok x by (auto simp: indexed_def pq_ok_def nth_append less_Suc_eq)
  ultimately obtain pq' where b: "bubble_up pless ?pq ?n = Ok pq'" "heap_order pless (pq_q pq')" "indexed pq'"
    "mset (pq_q pq') = mset (pq_q ?pq)" "pq_capacity pq' = cap"
    using bubble_up_ok [of pless ?pq ?n] by auto
  moreover have "length (pq_q pq') = Suc ?n" using mset_eq_length [OF b(4)] by simp
  ultimately show ?thesis using cap mem by (auto simp: ngtcp2_pq_push_def cap_def [symmetric] Let_def pq_ok_def)
qed

lemma hd_least:
  assumes h: "heap_order pless q" and o: "weak_order pless (set q)" and x: "x \<in> set q"
  shows "\<not> pless x (q ! 0)"
proof -
  have "\<not> pless (q ! i) (q ! 0)" if "i < length q" for i
    using that
  proof (induction i rule: less_induct)
    case (less i)
    show ?case
    proof (cases "i = 0")
      case True
      then show ?thesis using weak_orderD(1) [OF o] less.prems by (metis nth_mem)
    next
      case False
      then have p: "par i < i" using par_less by simp
      then have "\<not> pless (q ! par i) (q ! 0)" using less by simp
      moreover have "\<not> pless (q ! i) (q ! par i)" using h False less.prems by (simp add: heap_order_def)
      ultimately show ?thesis using weak_orderD(2) [OF o, of "q ! i" "q ! par i" "q ! 0"] less.prems p
        by (metis nth_mem order.strict_trans False gr_zeroI)
    qed
  qed
  then show ?thesis using x by (auto simp: in_set_conv_nth)
qed

lemma top_ok:
  assumes "pq_ok pless pq" "weak_order pless (set (pq_q pq))" "pq_q pq \<noteq> []"
  shows "\<exists>x. ngtcp2_pq_top pq = Ok x \<and> x \<in> set (pq_q pq) \<and> (\<forall>y \<in> set (pq_q pq). \<not> pless y x)"
  using assms hd_least [of pless "pq_q pq"] by (auto simp: ngtcp2_pq_top_def pq_ok_def)

text \<open>The entry at index \<open>i\<close> replaced by the last one.\<close>

lemma replaced:
  assumes ok: "pq_ok pless pq" and i: "i < length (pq_q pq) - 1"
  defines "x \<equiv> pq_q pq ! (length (pq_q pq) - 1)"
  defines "pq' \<equiv> pq\<lparr>pq_q := butlast ((pq_q pq)[i := x]), pq_index := (pq_index pq)(x := i)\<rparr>"
  shows "indexed pq'" "mset (pq_q pq') = mset (pq_q pq) - {#pq_q pq ! i#}" "length (pq_q pq') = length (pq_q pq) - 1"
    "pq_q pq' ! i = x" "c < length (pq_q pq) - 1 \<Longrightarrow> c \<noteq> i \<Longrightarrow> pq_q pq' ! c = pq_q pq ! c"
proof -
  let ?q = "pq_q pq" and ?n = "length (pq_q pq) - 1"
  have d: "distinct ?q" using ok indexed_distinct by (auto simp: pq_ok_def)
  show l: "length (pq_q pq') = ?n" by (simp add: pq'_def)
  have nth: "pq_q pq' ! c = (if c = i then x else ?q ! c)" if "c < ?n" for c
    using that i by (simp add: pq'_def nth_butlast nth_list_update)
  then show "pq_q pq' ! i = x" "c < ?n \<Longrightarrow> c \<noteq> i \<Longrightarrow> pq_q pq' ! c = ?q ! c" using i by simp_all
  show "indexed pq'" unfolding indexed_def l
  proof (intro allI impI)
    fix c assume c: "c < ?n"
    have "?q ! c \<noteq> x" using d c by (simp add: x_def nth_eq_iff_index_eq)
    then show "pq_index pq' (pq_q pq' ! c) = c" unfolding nth [OF c] using c ok by (auto simp: pq'_def pq_ok_def indexed_def)
  qed
  have ne: "?q[i := x] \<noteq> []" using i by auto
  moreover have "last (?q[i := x]) = x" unfolding last_conv_nth [OF ne] using i by (simp add: nth_list_update x_def)
  ultimately have "mset (?q[i := x]) = add_mset x (mset (pq_q pq'))"
    using append_butlast_last_id [of "?q[i := x]"] by (simp add: pq'_def) (metis mset.simps(2) mset_append union_mset_add_mset_right add.right_neutral mset.simps(1))
  moreover have "mset (?q[i := x]) = add_mset x (mset ?q - {#?q ! i#})" using i by (simp add: mset_update)
  ultimately show "mset (pq_q pq') = mset ?q - {#?q ! i#}" by simp
qed

lemma set_of_mset_diff: "mset q' = mset q - m \<Longrightarrow> set q' \<subseteq> set q"
  by (metis in_diffD set_mset_mset subsetI)

lemma replaced_down:
  assumes ok: "pq_ok pless pq" and o: "weak_order pless (set (pq_q pq))" and i: "i < length (pq_q pq) - 1"
    and l: "i = 0 \<or> pless (pq_q pq ! i) (pq_q pq ! (length (pq_q pq) - 1))"
  shows "down_hole pless (butlast ((pq_q pq)[i := pq_q pq ! (length (pq_q pq) - 1)])) i"
proof -
  let ?q = "pq_q pq" and ?n = "length (pq_q pq) - 1"
  define q' where "q' = butlast (?q[i := ?q ! ?n])"
  have nth: "q' ! c = (if c = i then ?q ! ?n else ?q ! c)" if "c < ?n" for c
    using that i by (simp add: q'_def nth_butlast nth_list_update)
  have len: "length q' = ?n" by (simp add: q'_def)
  have h: "\<not> pless (?q ! c) (?q ! par c)" if "c < ?n" "0 < c" for c using ok that by (simp add: pq_ok_def heap_order_def)
  note W = weak_orderD [OF o]
  show ?thesis unfolding q'_def [symmetric] down_hole_def len
  proof (intro conjI allI impI; elim conjE)
    fix c assume c: "c < ?n" "0 < c" "par c \<noteq> i"
    have p: "par c < ?n" using par_less [OF c(2)] c(1) by simp
    show "\<not> pless (q' ! c) (q' ! par c)"
    proof (cases "c = i")
      case True
      then have "\<not> pless (?q ! ?n) (?q ! par i)" using W(3) [of "?q ! i" "?q ! ?n" "?q ! par i"] l h [OF c(1,2)] c p by auto
      then show ?thesis using nth [OF c(1)] nth [OF p] True c by simp
    qed (use nth [OF c(1)] nth [OF p] h [OF c(1,2)] c in simp)
  next
    fix c assume c: "c < ?n" "0 < c" "par c = i" "0 < i"
    have p: "par i < ?n" "par i \<noteq> i" "c \<noteq> i" using par_less [OF c(2)] par_less [OF c(4)] c by simp_all
    have "\<not> pless (?q ! c) (?q ! par i)"
      using W(2) [of "?q ! c" "?q ! i" "?q ! par i"] h [OF c(1,2)] h [OF i c(4)] c p i by simp
    then show "\<not> pless (q' ! c) (q' ! par i)" using nth [OF c(1)] nth [OF p(1)] p by simp
  qed
qed

lemma replaced_up:
  assumes ok: "pq_ok pless pq" and o: "weak_order pless (set (pq_q pq))" and i: "i < length (pq_q pq) - 1"
    and l: "\<not> pless (pq_q pq ! i) (pq_q pq ! (length (pq_q pq) - 1))"
  shows "up_hole pless (butlast ((pq_q pq)[i := pq_q pq ! (length (pq_q pq) - 1)])) i"
proof -
  let ?q = "pq_q pq" and ?n = "length (pq_q pq) - 1"
  define q' where "q' = butlast (?q[i := ?q ! ?n])"
  have nth: "q' ! c = (if c = i then ?q ! ?n else ?q ! c)" if "c < ?n" for c
    using that i by (simp add: q'_def nth_butlast nth_list_update)
  have len: "length q' = ?n" by (simp add: q'_def)
  have h: "\<not> pless (?q ! c) (?q ! par c)" if "c < ?n" "0 < c" for c using ok that by (simp add: pq_ok_def heap_order_def)
  note W = weak_orderD [OF o]
  show ?thesis unfolding q'_def [symmetric] up_hole_def len
  proof (intro conjI allI impI; elim conjE)
    fix c assume c: "c < ?n" "0 < c" "c \<noteq> i"
    have p: "par c < ?n" using par_less [OF c(2)] c(1) by simp
    show "\<not> pless (q' ! c) (q' ! par c)"
    proof (cases "par c = i")
      case True
      then have "\<not> pless (?q ! c) (?q ! ?n)" using W(2) [of "?q ! c" "?q ! i" "?q ! ?n"] l h [OF c(1,2)] c i by auto
      then show ?thesis using nth [OF c(1)] nth [OF p] True c by simp
    qed (use nth [OF c(1)] nth [OF p] h [OF c(1,2)] c in simp)
  next
    fix c assume c: "c < ?n" "0 < c" "par c = i" "0 < i"
    have p: "par i < ?n" "par i \<noteq> i" "c \<noteq> i" using par_less [OF c(2)] par_less [OF c(4)] c by simp_all
    have "\<not> pless (?q ! c) (?q ! par i)"
      using W(2) [of "?q ! c" "?q ! i" "?q ! par i"] h [OF c(1,2)] h [OF i c(4)] c p i by simp
    then show "\<not> pless (q' ! c) (q' ! par i)" using nth [OF c(1)] nth [OF p(1)] p by simp
  qed
qed

lemma pop_ok:
  assumes ok: "pq_ok pless pq" and o: "weak_order pless (set (pq_q pq))" and ne: "pq_q pq \<noteq> []"
  shows "\<exists>pq'. ngtcp2_pq_pop pless pq = Ok pq' \<and> pq_ok pless pq' \<and> mset (pq_q pq') = mset (pq_q pq) - {#pq_q pq ! 0#} \<and>
    pq_capacity pq' = pq_capacity pq"
proof (cases "length (pq_q pq) = 1")
  case True
  then obtain x where x: "pq_q pq = [x]" by (auto simp: length_Suc_conv)
  have "min_child pless [] 0 = 0" by (simp add: min_child_def)
  then show ?thesis using x
    by (simp add: ngtcp2_pq_pop_def bubble_down.simps pq_ok_def heap_order_def indexed_def)
next
  case False
  then have i: "0 < length (pq_q pq) - 1" using ne by (cases "pq_q pq") auto
  let ?pq = "pq\<lparr>pq_q := butlast ((pq_q pq)[0 := pq_q pq ! (length (pq_q pq) - 1)]),
    pq_index := (pq_index pq)(pq_q pq ! (length (pq_q pq) - 1) := 0)\<rparr>"
  note r = replaced [OF ok i]
  have "weak_order pless (set (pq_q ?pq))" using weak_order_sub [OF o set_of_mset_diff [OF r(2)]] .
  from bubble_down_ok [OF this _ _ r(1), of 0] replaced_down [OF ok o i] r(3) i ok
  have "pq_ok pless (bubble_down pless ?pq 0)" "mset (pq_q (bubble_down pless ?pq 0)) = mset (pq_q ?pq)"
    "pq_capacity (bubble_down pless ?pq 0) = pq_capacity pq"
    by (auto simp: pq_ok_def dest: mset_eq_length)
  then show ?thesis using r(2) ne by (simp add: ngtcp2_pq_pop_def last_conv_nth Let_def)
qed

lemma butlast_ok: "pq_ok pless pq \<Longrightarrow> pq_ok pless (pq\<lparr>pq_q := butlast (pq_q pq)\<rparr>)"
proof -
  assume ok: "pq_ok pless pq"
  have "par c < length (pq_q pq) - 1" if "c < length (pq_q pq) - 1" "0 < c" for c
    using par_less [OF that(2)] that(1) by simp
  then show ?thesis using ok by (auto simp: pq_ok_def heap_order_def indexed_def nth_butlast)
qed

lemma remove_ok:
  assumes ok: "pq_ok pless pq" and o: "weak_order pless (set (pq_q pq))" and x: "x \<in> set (pq_q pq)"
  shows "\<exists>pq'. ngtcp2_pq_remove pless pq x = Ok pq' \<and> pq_ok pless pq' \<and> mset (pq_q pq') = mset (pq_q pq) - {#x#}"
proof -
  obtain i where i: "i < length (pq_q pq)" "pq_q pq ! i = x" using x by (auto simp: in_set_conv_nth)
  then have idx: "pq_index pq x = i" using ok by (auto simp: pq_ok_def indexed_def)
  have ne: "pq_q pq \<noteq> []" using i by auto
  consider "i = 0" | "0 < i" "i = length (pq_q pq) - 1" | "0 < i" "i < length (pq_q pq) - 1" using i(1) by linarith
  then show ?thesis
  proof cases
    case 1
    then show ?thesis using pop_ok [OF ok o ne] i idx by (auto simp: ngtcp2_pq_remove_def)
  next
    case 2
    have "last (pq_q pq) = x" using last_conv_nth [OF ne] i 2 by simp
    then have "mset (butlast (pq_q pq) @ [x]) = mset (pq_q pq)" using append_butlast_last_id [OF ne] by simp
    then have "mset (pq_q pq) = add_mset x (mset (butlast (pq_q pq)))" by simp
    then have "pq_ok pless (pq\<lparr>pq_q := butlast (pq_q pq)\<rparr>)" "mset (butlast (pq_q pq)) = mset (pq_q pq) - {#x#}"
      using ok butlast_ok [OF ok] by simp_all
    then show ?thesis using 2 i idx by (simp add: ngtcp2_pq_remove_def Let_def)
  next
    case 3
    let ?y = "pq_q pq ! (length (pq_q pq) - 1)"
    let ?pq = "pq\<lparr>pq_q := butlast ((pq_q pq)[i := ?y]), pq_index := (pq_index pq)(?y := i)\<rparr>"
    note r = replaced [OF ok 3(2)]
    have o': "weak_order pless (set (pq_q ?pq))" using weak_order_sub [OF o set_of_mset_diff [OF r(2)]] .
    have il: "i < length (pq_q ?pq)" using r(3) 3 by simp
    show ?thesis
    proof (cases "pless x ?y")
      case True
      with bubble_down_ok [OF o' _ il r(1)] replaced_down [OF ok o 3(2)] i r(3) ok
      have "pq_ok pless (bubble_down pless ?pq i)" "mset (pq_q (bubble_down pless ?pq i)) = mset (pq_q ?pq)"
        by (auto simp: pq_ok_def dest: mset_eq_length)
      then show ?thesis using True 3 i idx r by (simp add: ngtcp2_pq_remove_def Let_def)
    next
      case False
      with bubble_up_ok [OF o' _ il r(1)] replaced_up [OF ok o 3(2)] i
      obtain pq' where b: "bubble_up pless ?pq i = Ok pq'" "heap_order pless (pq_q pq')" "indexed pq'"
        "mset (pq_q pq') = mset (pq_q ?pq)" "pq_capacity pq' = pq_capacity pq" by auto
      moreover have "pq_ok pless pq'" using b mset_eq_length [OF b(4)] r(3) ok by (auto simp: pq_ok_def)
      ultimately show ?thesis using False 3 i idx r by (simp add: ngtcp2_pq_remove_def Let_def)
    qed
  qed
qed

text \<open>The index field of an entry that is not queued is left alone.\<close>

lemma swap_index: "e \<notin> set (pq_q pq) \<Longrightarrow> i < length (pq_q pq) \<Longrightarrow> j < length (pq_q pq) \<Longrightarrow> pq_index (pq_swap pq i j) e = pq_index pq e"
  by (auto simp: pq_swap_def Let_def)

lemma bubble_up_index:
  "bubble_up pless pq i = Ok pq' \<Longrightarrow> e \<notin> set (pq_q pq) \<Longrightarrow> pq_index pq' e = pq_index pq e"
proof (induction pless pq i rule: bubble_up.induct)
  case (1 pless pq i)
  show ?case
  proof (cases "0 < i \<and> i < length (pq_q pq) \<and> pless (pq_q pq ! i) (pq_q pq ! par i)")
    case True
    then have p: "par i < length (pq_q pq)" "i < length (pq_q pq)" using par_less [of i] by auto
    have "set (pq_q (pq_swap pq (par i) i)) = set (pq_q pq)" by (rule mset_eq_setD [OF swap_mset [OF p]])
    moreover have "bubble_up pless (pq_swap pq (par i) i) (par i) = Ok pq'"
      using "1.prems"(1) True by (subst (asm) bubble_up.simps) (simp add: par_def Let_def)
    ultimately show ?thesis using "1.IH" [OF _ refl] True "1.prems"(2) swap_index [OF _ p] by (simp add: par_def)
  next
    case False
    then show ?thesis using "1.prems"(1) by (subst (asm) bubble_up.simps) (auto simp: par_def Let_def split: if_splits)
  qed
qed

lemma bubble_down_index: "e \<notin> set (pq_q pq) \<Longrightarrow> pq_index (bubble_down pless pq i) e = pq_index pq e"
proof (induction pless pq i rule: bubble_down.induct)
  case (1 pless pq i)
  define m where "m = min_child pless (pq_q pq) i"
  show ?case
  proof (cases "m = i")
    case True
    then show ?thesis by (subst bubble_down.simps) (simp add: m_def)
  next
    case False
    then have l: "i < length (pq_q pq)" "m < length (pq_q pq)"
      using min_child_less [of pless "pq_q pq" i] by (auto simp: m_def)
    have "set (pq_q (pq_swap pq i m)) = set (pq_q pq)" by (rule mset_eq_setD [OF swap_mset [OF l]])
    then have "pq_index (bubble_down pless (pq_swap pq i m) m) e = pq_index pq e"
      using "1.IH" [OF m_def False] "1.prems" swap_index [OF _ l] by simp
    then show ?thesis using False by (subst bubble_down.simps) (simp add: m_def Let_def)
  qed
qed

lemma push_index:
  assumes "ngtcp2_pq_push pless mem pq x = Ok (pq', None)" "e \<notin> set (pq_q pq)" "e \<noteq> x"
  shows "pq_index pq' e = pq_index pq e"
  using assms bubble_up_index by (fastforce simp: ngtcp2_pq_push_def Let_def assertR_def bindR_eq_Ok split: if_splits)

lemma pop_index:
  assumes "ngtcp2_pq_pop pless pq = Ok pq'" "e \<notin> set (pq_q pq)"
  shows "pq_index pq' e = pq_index pq e"
proof -
  let ?x = "last (pq_q pq)"
  have ne: "pq_q pq \<noteq> []" using assms(1) by (auto simp: ngtcp2_pq_pop_def assertR_def split: if_splits)
  then have "e \<noteq> ?x" using assms(2) by auto
  moreover have "set (butlast ((pq_q pq)[0 := ?x])) \<subseteq> set (pq_q pq)"
    using set_update_subset_insert [of "pq_q pq" 0 ?x] ne by (auto dest: in_set_butlastD)
  then have "e \<notin> set (butlast ((pq_q pq)[0 := ?x]))" using assms(2) by blast
  ultimately show ?thesis using assms(1) ne by (auto simp: ngtcp2_pq_pop_def Let_def bubble_down_index)
qed

section \<open>Clients with a global order\<close>

text \<open>
  \<open>pq_drain\<close> pops until the queue is empty, as the connection does with the retired connection
  IDs whose time has come; each pop makes the queue shorter.
\<close>

fun pq_drain :: "('e \<Rightarrow> 'e \<Rightarrow> bool) \<Rightarrow> nat \<Rightarrow> 'e ngtcp2_pq \<Rightarrow> ('e list \<times> 'e ngtcp2_pq) res" where
  "pq_drain pless 0 pq = (if ngtcp2_pq_empty pq then Ok ([], pq) else Fault)"
| "pq_drain pless (Suc n) pq =
     (if ngtcp2_pq_empty pq then Ok ([], pq) else
      bindR (ngtcp2_pq_top pq) (\<lambda>x. bindR (ngtcp2_pq_pop pless pq) (\<lambda>pq.
      bindR (pq_drain pless n pq) (\<lambda>(xs, pq). Ok (x # xs, pq)))))"

locale pq_order =
  fixes pless :: "'e \<Rightarrow> 'e \<Rightarrow> bool"
  assumes weak: "weak_order pless UNIV"
begin

lemma weak_on: "weak_order pless K"
  using weak by (rule weak_order_sub) simp

lemma drain_sorted:
  assumes "pq_ok pless pq" "length (pq_q pq) \<le> n"
  shows "\<exists>xs pq'. pq_drain pless n pq = Ok (xs, pq') \<and> pq_q pq' = [] \<and> mset xs = mset (pq_q pq) \<and>
    sorted_wrt (\<lambda>x y. \<not> pless y x) xs"
  using assms
proof (induction n arbitrary: pq)
  case (Suc n)
  show ?case
  proof (cases "pq_q pq = []")
    case False
    obtain x where x: "ngtcp2_pq_top pq = Ok x" "\<forall>y \<in> set (pq_q pq). \<not> pless y x"
      using top_ok [OF Suc.prems(1) weak_on False] by blast
    have x0: "x = pq_q pq ! 0" "x \<in> set (pq_q pq)" using x(1) False by (auto simp: ngtcp2_pq_top_def)
    obtain pq1 where p: "ngtcp2_pq_pop pless pq = Ok pq1" "pq_ok pless pq1" "mset (pq_q pq1) = mset (pq_q pq) - {#x#}"
      using pop_ok [OF Suc.prems(1) weak_on False] x0 by auto
    have "length (pq_q pq1) \<le> n"
      using arg_cong [OF p(3), of size] x0(2) Suc.prems(2) by (simp add: size_Diff_singleton)
    from Suc.IH [OF p(2) this] obtain xs pq' where d: "pq_drain pless n pq1 = Ok (xs, pq')" "pq_q pq' = []"
      "mset xs = mset (pq_q pq1)" "sorted_wrt (\<lambda>x y. \<not> pless y x) xs" by blast
    have "set xs \<subseteq> set (pq_q pq)" using d(3) p(3) by (metis set_of_mset_diff)
    then have "sorted_wrt (\<lambda>x y. \<not> pless y x) (x # xs)" using d(4) x(2) by auto
    moreover have "mset (x # xs) = mset (pq_q pq)" using d(3) p(3) x0(2) by simp
    ultimately show ?thesis using False x(1) p(1) d(1,2) by (simp add: ngtcp2_pq_empty_def)
  qed (simp add: ngtcp2_pq_empty_def)
qed (simp add: ngtcp2_pq_empty_def)

end

text \<open>The queue of retired source connection IDs (\<open>retired_ts_less\<close> of \<open>lib/ngtcp2_conn.c\<close>).\<close>

definition retired_ts_less :: "('e \<Rightarrow> u64) \<Rightarrow> 'e \<Rightarrow> 'e \<Rightarrow> bool" where
  "retired_ts_less retired_ts a b = (retired_ts a < retired_ts b)"

interpretation retired: pq_order "retired_ts_less ts" for ts
  by unfold_locales (auto simp: weak_order_def retired_ts_less_def)

text \<open>
  C35: The priority queue refines a multiset with a least element: \<open>ngtcp2_pq_push\<close> adds an entry,
  \<open>ngtcp2_pq_top\<close> returns one before which no other comes, \<open>ngtcp2_pq_pop\<close> removes that one and
  \<open>ngtcp2_pq_remove\<close> any other by the index it holds; heap order and indices are kept, and no access is
  out of bounds.
\<close>

theorem pq_refines:
  assumes "pq_ok (retired_ts_less ts) pq"
  shows "(x \<notin> set (pq_q pq) \<longrightarrow> (\<exists>pq'. ngtcp2_pq_push (retired_ts_less ts) True pq x = Ok (pq', None) \<and>
      pq_ok (retired_ts_less ts) pq' \<and> mset (pq_q pq') = add_mset x (mset (pq_q pq)))) \<and>
    (x \<in> set (pq_q pq) \<longrightarrow> (\<exists>pq'. ngtcp2_pq_remove (retired_ts_less ts) pq x = Ok pq' \<and>
      pq_ok (retired_ts_less ts) pq' \<and> mset (pq_q pq') = mset (pq_q pq) - {#x#})) \<and>
    (\<not> ngtcp2_pq_empty pq \<longrightarrow> (\<exists>t pq'. ngtcp2_pq_top pq = Ok t \<and> (\<forall>y \<in> set (pq_q pq). ts t \<le> ts y) \<and>
      ngtcp2_pq_pop (retired_ts_less ts) pq = Ok pq' \<and> pq_ok (retired_ts_less ts) pq' \<and>
      mset (pq_q pq') = mset (pq_q pq) - {#t#}))"
proof -
  note w = retired.weak_on [of ts]
  have t: "pq_q pq \<noteq> [] \<Longrightarrow> ngtcp2_pq_top pq = Ok (pq_q pq ! 0)" by (simp add: ngtcp2_pq_top_def)
  show ?thesis
    using push_ok [OF assms w, of x True] remove_ok [OF assms w, of x] pop_ok [OF assms w] top_ok [OF assms w] t
    by (fastforce simp: ngtcp2_pq_empty_def retired_ts_less_def not_less)
qed

theorem pq_refines_witness:
  "\<exists>pq'. ngtcp2_pq_push (retired_ts_less id) True (ngtcp2_pq_init (\<lambda>_. 0)) (5 :: u64) = Ok (pq', None) \<and>
     mset (pq_q pq') = {#5#}"
  using pq_refines [of id "ngtcp2_pq_init (\<lambda>_. 0)" 5]
  by (auto simp: pq_ok_def ngtcp2_pq_init_def heap_order_def indexed_def)

text \<open>
  Popping a queue until it is empty ends after as many pops as there are entries, and returns every
  entry once, in the order of the retirement times.
\<close>

theorem pq_drain_in_order:
  assumes "pq_ok (retired_ts_less ts) pq"
  shows "\<exists>xs pq'. pq_drain (retired_ts_less ts) (ngtcp2_pq_size pq) pq = Ok (xs, pq') \<and> ngtcp2_pq_empty pq' \<and>
    mset xs = mset (pq_q pq) \<and> sorted (map ts xs)"
  using retired.drain_sorted [OF assms order_refl]
  by (auto simp: ngtcp2_pq_size_def ngtcp2_pq_empty_def retired_ts_less_def not_less sorted_map)

theorem pq_drain_in_order_witness:
  "\<exists>xs pq'. pq_drain (retired_ts_less id) 2 \<lparr>pq_q = [3, 7 :: u64], pq_capacity = 4, pq_index = (\<lambda>x. if x = 3 then 0 else 1)\<rparr> =
     Ok (xs, pq') \<and> mset xs = {#3, 7#} \<and> sorted xs"
proof -
  let ?pq = "\<lparr>pq_q = [3, 7 :: u64], pq_capacity = 4, pq_index = (\<lambda>x. if x = 3 then 0 else 1)\<rparr>"
  have "heap_order (retired_ts_less id) (pq_q ?pq)" by (simp add: heap_order_def retired_ts_less_def par_def less_Suc_eq)
  moreover have "indexed ?pq" by (simp add: indexed_def less_Suc_eq)
  ultimately have "pq_ok (retired_ts_less id) ?pq" by (simp add: pq_ok_def)
  from pq_drain_in_order [OF this] show ?thesis by (auto simp: ngtcp2_pq_size_def numeral_2_eq_2 simp del: pq_drain.simps)
qed

end
