(* ===== verification/Strmq.thy ===== *)
theory Strmq
  imports Pq
begin

text \<open>
  The queue of streams that have frames to send (\<open>tx.strmq\<close> of \<open>lib/ngtcp2_conn.c\<close>), a priority queue
  ordered by \<open>cycle_less\<close>. A stream that has written a frame and has more goes back to the queue with its
  cycle incremented; a stream that joins gets the cycle of the first one. \<open>cycle_less\<close> compares cycles
  with a subtraction that may wrap, and is an order only while the cycles in the queue are two
  consecutive numbers: this is the invariant \<open>two_cycles\<close>, kept by every operation.

  The fields of the streams are functions of the stream's identity.
\<close>

section \<open>Operations\<close>

record 'e strms =
  sq_pq :: "'e ngtcp2_pq"
  sq_cycle :: "'e \<Rightarrow> u64"
  sq_stream_id :: "'e \<Rightarrow> i64"
  sq_flags :: "'e \<Rightarrow> u32"
  sq_reset_code :: "'e \<Rightarrow> u64"
  sq_stop_code :: "'e \<Rightarrow> u64"

definition NGTCP2_PQ_BAD_INDEX :: nat where
  "NGTCP2_PQ_BAD_INDEX = 0xFFFFFFFFFFFFFFFF"

abbreviation (input) NGTCP2_STRM_FLAG_SEND_STOP_SENDING :: u32 where "NGTCP2_STRM_FLAG_SEND_STOP_SENDING \<equiv> 0x200"
abbreviation (input) NGTCP2_STRM_FLAG_SEND_RESET_STREAM :: u32 where "NGTCP2_STRM_FLAG_SEND_RESET_STREAM \<equiv> 0x400"

definition cycle_less :: "('e \<Rightarrow> u64) \<Rightarrow> ('e \<Rightarrow> i64) \<Rightarrow> 'e \<Rightarrow> 'e \<Rightarrow> bool" where
  "cycle_less cycle stream_id ls rs =
     (if cycle ls = cycle rs then sint (stream_id ls) < sint (stream_id rs) else cycle rs - cycle ls \<le> 1)"

abbreviation (input) sq_less :: "'e strms \<Rightarrow> 'e \<Rightarrow> 'e \<Rightarrow> bool" where
  "sq_less s \<equiv> cycle_less (sq_cycle s) (sq_stream_id s)"

definition ngtcp2_conn_tx_strmq_top :: "'e strms \<Rightarrow> 'e res" where
  "ngtcp2_conn_tx_strmq_top s = assertR (\<not> ngtcp2_pq_empty (sq_pq s)) (ngtcp2_pq_top (sq_pq s))"

definition ngtcp2_conn_tx_strmq_pop :: "'e strms \<Rightarrow> 'e strms res" where
  "ngtcp2_conn_tx_strmq_pop s =
     bindR (ngtcp2_conn_tx_strmq_top s) (\<lambda>strm.
     bindR (ngtcp2_pq_pop (sq_less s) (sq_pq s)) (\<lambda>pq.
     Ok (s\<lparr>sq_pq := pq\<lparr>pq_index := (pq_index pq)(strm := NGTCP2_PQ_BAD_INDEX)\<rparr>\<rparr>)))"

definition ngtcp2_conn_tx_strmq_push :: "bool \<Rightarrow> 'e strms \<Rightarrow> 'e \<Rightarrow> ('e strms \<times> lib_error option) res" where
  "ngtcp2_conn_tx_strmq_push mem s strm =
     bindR (ngtcp2_pq_push (sq_less s) mem (sq_pq s) strm) (\<lambda>(pq, rv). Ok (s\<lparr>sq_pq := pq\<rparr>, rv))"

definition ngtcp2_conn_tx_strmq_first_cycle :: "'e strms \<Rightarrow> u64 res" where
  "ngtcp2_conn_tx_strmq_first_cycle s =
     (if ngtcp2_pq_empty (sq_pq s) then Ok 0 else
      bindR (ngtcp2_pq_top (sq_pq s)) (\<lambda>strm. Ok (sq_cycle s strm)))"

definition ngtcp2_strm_is_tx_queued :: "'e strms \<Rightarrow> 'e \<Rightarrow> bool" where
  "ngtcp2_strm_is_tx_queued s strm = (pq_index (sq_pq s) strm \<noteq> NGTCP2_PQ_BAD_INDEX)"

text \<open>How a stream joins the queue, in \<open>conn_reset_stream\<close>, \<open>conn_stop_sending\<close> and the writers of packets.\<close>

definition strmq_join :: "bool \<Rightarrow> 'e strms \<Rightarrow> 'e \<Rightarrow> ('e strms \<times> lib_error option) res" where
  "strmq_join mem s strm =
     (if ngtcp2_strm_is_tx_queued s strm then Ok (s, None) else
      bindR (ngtcp2_conn_tx_strmq_first_cycle s) (\<lambda>c.
      ngtcp2_conn_tx_strmq_push mem (s\<lparr>sq_cycle := (sq_cycle s)(strm := c)\<rparr>) strm))"

definition conn_reset_stream :: "bool \<Rightarrow> 'e strms \<Rightarrow> 'e \<Rightarrow> u64 \<Rightarrow> ('e strms \<times> lib_error option) res" where
  "conn_reset_stream mem s strm app_error_code =
     strmq_join mem (s\<lparr>sq_flags := (sq_flags s)(strm := sq_flags s strm OR NGTCP2_STRM_FLAG_SEND_RESET_STREAM),
        sq_reset_code := (sq_reset_code s)(strm := app_error_code)\<rparr>) strm"

definition conn_stop_sending :: "bool \<Rightarrow> 'e strms \<Rightarrow> 'e \<Rightarrow> u64 \<Rightarrow> ('e strms \<times> lib_error option) res" where
  "conn_stop_sending mem s strm app_error_code =
     strmq_join mem (s\<lparr>sq_flags := (sq_flags s)(strm := sq_flags s strm OR NGTCP2_STRM_FLAG_SEND_STOP_SENDING),
        sq_stop_code := (sq_stop_code s)(strm := app_error_code)\<rparr>) strm"

text \<open>The first stream has written a frame and has more to write: it goes back with the next cycle.\<close>

definition strmq_rotate :: "bool \<Rightarrow> 'e strms \<Rightarrow> ('e \<times> 'e strms \<times> lib_error option) res" where
  "strmq_rotate mem s =
     bindR (ngtcp2_conn_tx_strmq_top s) (\<lambda>strm.
     bindR (ngtcp2_conn_tx_strmq_pop s) (\<lambda>s.
     bindR (ngtcp2_conn_tx_strmq_push mem (s\<lparr>sq_cycle := (sq_cycle s)(strm := sq_cycle s strm + 1)\<rparr>) strm) (\<lambda>(s, rv).
     Ok (strm, s, rv))))"

section \<open>Invariant\<close>

definition two_cycles :: "('e \<Rightarrow> u64) \<Rightarrow> 'e set \<Rightarrow> u64 \<Rightarrow> bool" where
  "two_cycles cycle K c = (\<forall>e \<in> K. cycle e = c \<or> cycle e = c + 1)"

definition strmq_ok :: "'e strms \<Rightarrow> bool" where
  "strmq_ok s =
     (pq_ok (sq_less s) (sq_pq s) \<and> (\<exists>c. two_cycles (sq_cycle s) (set (pq_q (sq_pq s))) c) \<and>
      (\<forall>e. ngtcp2_strm_is_tx_queued s e \<longleftrightarrow> e \<in> set (pq_q (sq_pq s))))"

lemma minus_1_gt [simp]: "\<not> (-1 :: u64) \<le> 1"
  by code_simp

lemma cycle_next [simp]: "c + 1 \<noteq> c" for c :: u64
  by simp

lemma two_cycles_order:
  assumes "two_cycles cycle K c"
  shows "weak_order (cycle_less cycle sid) K"
  unfolding weak_order_def
proof (intro conjI ballI impI)
  fix x y assume k: "x \<in> K" "y \<in> K" and l: "cycle_less cycle sid x y"
  then have "cycle x = c \<or> cycle x = c + 1" "cycle y = c \<or> cycle y = c + 1" using assms unfolding two_cycles_def by blast+
  then show "\<not> cycle_less cycle sid y x" using l unfolding cycle_less_def by (elim disjE) (auto split: if_splits)
next
  fix x y z assume k: "x \<in> K" "y \<in> K" "z \<in> K" and l: "cycle_less cycle sid x z"
  then have "cycle x = c \<or> cycle x = c + 1" "cycle y = c \<or> cycle y = c + 1" "cycle z = c \<or> cycle z = c + 1"
    using assms unfolding two_cycles_def by blast+
  then show "cycle_less cycle sid x y \<or> cycle_less cycle sid y z"
    using l unfolding cycle_less_def by (elim disjE) (auto split: if_splits)
qed


lemma heap_order_cong:
  assumes "\<And>x y. x \<in> set q \<Longrightarrow> y \<in> set q \<Longrightarrow> pless x y = pless' x y"
  shows "heap_order pless q = heap_order pless' q"
proof -
  have "par c < length q" if "c < length q" "0 < c" for c using par_less [OF that(2)] that(1) by simp
  then show ?thesis using assms unfolding heap_order_def by (metis nth_mem)
qed

lemma pq_ok_cong:
  assumes "\<And>x y. x \<in> set (pq_q pq) \<Longrightarrow> y \<in> set (pq_q pq) \<Longrightarrow> pless x y = pless' x y"
  shows "pq_ok pless pq = pq_ok pless' pq"
  using heap_order_cong [of "pq_q pq" pless pless'] assms by (simp add: pq_ok_def)

lemma pq_ok_cycle:
  "e \<notin> set (pq_q pq) \<Longrightarrow> pq_ok (cycle_less (cycle(e := c)) sid) pq = pq_ok (cycle_less cycle sid) pq"
  by (rule pq_ok_cong) (auto simp: cycle_less_def)

lemma pq_ok_index:
  "pq_ok pless pq \<Longrightarrow> e \<notin> set (pq_q pq) \<Longrightarrow> pq_ok pless (pq\<lparr>pq_index := (pq_index pq)(e := i)\<rparr>)"
  by (auto simp: pq_ok_def indexed_def)

lemma two_cycles_sub: "two_cycles cycle K c \<Longrightarrow> K' \<subseteq> K \<Longrightarrow> two_cycles cycle K' c"
  by (auto simp: two_cycles_def)

text \<open>Adding a stream that is not queued, with a cycle that keeps the invariant.\<close>

lemma strmq_push_ok:
  assumes pq: "pq_ok (cycle_less (sq_cycle s) (sq_stream_id s)) (sq_pq s)"
    and q: "\<forall>e. ngtcp2_strm_is_tx_queued s e \<longleftrightarrow> e \<in> set (pq_q (sq_pq s))" and e: "e \<notin> set (pq_q (sq_pq s))"
    and c: "two_cycles (sq_cycle s) (insert e (set (pq_q (sq_pq s)))) c"
    and mem: "mem \<or> length (pq_q (sq_pq s)) < pq_capacity (sq_pq s)" and n: "length (pq_q (sq_pq s)) < NGTCP2_PQ_BAD_INDEX"
  obtains s' where "ngtcp2_conn_tx_strmq_push mem s e = Ok (s', None)" "strmq_ok s'"
    "mset (pq_q (sq_pq s')) = add_mset e (mset (pq_q (sq_pq s)))" "sq_cycle s' = sq_cycle s"
    "sq_stream_id s' = sq_stream_id s" "sq_flags s' = sq_flags s"
proof -
  obtain pq' where p: "ngtcp2_pq_push (sq_less s) mem (sq_pq s) e = Ok (pq', None)" "pq_ok (sq_less s) pq'"
    "mset (pq_q pq') = add_mset e (mset (pq_q (sq_pq s)))"
    using push_ok [OF pq two_cycles_order [OF c] e mem] by blast
  have set: "set (pq_q pq') = insert e (set (pq_q (sq_pq s)))" using arg_cong [OF p(3), of set_mset] by simp
  have len: "length (pq_q pq') = Suc (length (pq_q (sq_pq s)))" using arg_cong [OF p(3), of size] by simp
  have "ngtcp2_strm_is_tx_queued (s\<lparr>sq_pq := pq'\<rparr>) x \<longleftrightarrow> x \<in> set (pq_q pq')" for x
  proof (cases "x \<in> set (pq_q pq')")
    case True
    then have "pq_index pq' x < length (pq_q pq')" using p(2) by (auto simp: pq_ok_def indexed_def in_set_conv_nth)
    then show ?thesis using True len n by (simp add: ngtcp2_strm_is_tx_queued_def)
  next
    case False
    then show ?thesis using push_index [OF p(1), of x] set q by (auto simp: ngtcp2_strm_is_tx_queued_def)
  qed
  then have "strmq_ok (s\<lparr>sq_pq := pq'\<rparr>)" using p(2) c set by (auto simp: strmq_ok_def)
  then show thesis using that [of "s\<lparr>sq_pq := pq'\<rparr>"] p by (simp add: ngtcp2_conn_tx_strmq_push_def)
qed

lemma strmq_pop_ok:
  assumes ok: "strmq_ok s" and ne: "pq_q (sq_pq s) \<noteq> []"
  obtains t s' where "ngtcp2_conn_tx_strmq_top s = Ok t" "ngtcp2_conn_tx_strmq_pop s = Ok s'" "strmq_ok s'"
    "t \<in> set (pq_q (sq_pq s))" "\<forall>e \<in> set (pq_q (sq_pq s)). \<not> sq_less s e t"
    "set (pq_q (sq_pq s')) = set (pq_q (sq_pq s)) - {t}" "length (pq_q (sq_pq s)) = Suc (length (pq_q (sq_pq s')))"
    "length (pq_q (sq_pq s')) < pq_capacity (sq_pq s')" "sq_cycle s' = sq_cycle s" "sq_stream_id s' = sq_stream_id s"
proof -
  obtain c where pq: "pq_ok (sq_less s) (sq_pq s)" and c: "two_cycles (sq_cycle s) (set (pq_q (sq_pq s))) c"
    and q: "\<forall>e. ngtcp2_strm_is_tx_queued s e \<longleftrightarrow> e \<in> set (pq_q (sq_pq s))" using ok by (auto simp: strmq_ok_def)
  note w = two_cycles_order [OF c]
  obtain t where t: "ngtcp2_pq_top (sq_pq s) = Ok t" "t \<in> set (pq_q (sq_pq s))" "\<forall>e \<in> set (pq_q (sq_pq s)). \<not> sq_less s e t"
    using top_ok [OF pq w ne] by blast
  then have t0: "t = pq_q (sq_pq s) ! 0" using ne by (simp add: ngtcp2_pq_top_def)
  obtain pq' where p: "ngtcp2_pq_pop (sq_less s) (sq_pq s) = Ok pq'" "pq_ok (sq_less s) pq'"
    "mset (pq_q pq') = mset (pq_q (sq_pq s)) - {#t#}" "pq_capacity pq' = pq_capacity (sq_pq s)"
    using pop_ok [OF pq w ne] t0 by blast
  have d: "distinct (pq_q (sq_pq s))" using pq indexed_distinct by (auto simp: pq_ok_def)
  have m: "mset (t # pq_q pq') = mset (pq_q (sq_pq s))" using p(3) t(2) by simp
  have set: "set (pq_q pq') = set (pq_q (sq_pq s)) - {t}"
    using mset_eq_imp_distinct_iff [OF m] mset_eq_setD [OF m] d by auto
  have len: "length (pq_q (sq_pq s)) = Suc (length (pq_q pq'))"
    using arg_cong [OF p(3), of size] t(2) ne by (simp add: size_Diff_singleton)
  let ?s = "s\<lparr>sq_pq := pq'\<lparr>pq_index := (pq_index pq')(t := NGTCP2_PQ_BAD_INDEX)\<rparr>\<rparr>"
  have lt: "length (pq_q pq') < pq_capacity pq'" using len p(4) pq by (simp add: pq_ok_def)
  have "ngtcp2_strm_is_tx_queued ?s x \<longleftrightarrow> x \<in> set (pq_q pq')" for x
  proof (cases "x \<in> set (pq_q pq')")
    case True
    then obtain i where i: "i < length (pq_q pq')" "pq_index pq' x = i" using p(2) by (auto simp: pq_ok_def indexed_def in_set_conv_nth)
    have "pq_index (sq_pq s) (pq_q (sq_pq s) ! i) = i" using i(1) len pq by (simp add: pq_ok_def indexed_def)
    moreover have "pq_index (sq_pq s) (pq_q (sq_pq s) ! i) \<noteq> NGTCP2_PQ_BAD_INDEX"
      using q [rule_format, of "pq_q (sq_pq s) ! i"] i(1) len by (simp add: ngtcp2_strm_is_tx_queued_def)
    ultimately have "i \<noteq> NGTCP2_PQ_BAD_INDEX" by simp
    then show ?thesis using True i(2) set by (auto simp: ngtcp2_strm_is_tx_queued_def)
  next
    case False
    then have "x = t \<or> pq_index pq' x = NGTCP2_PQ_BAD_INDEX"
      using pop_index [OF p(1), of x] set q unfolding ngtcp2_strm_is_tx_queued_def by (metis DiffI singletonD)
    then show ?thesis using False by (auto simp: ngtcp2_strm_is_tx_queued_def)
  qed
  moreover have "two_cycles (sq_cycle s) (set (pq_q pq')) c" using two_cycles_sub [OF c] set by blast
  moreover have "pq_ok (sq_less s) (pq'\<lparr>pq_index := (pq_index pq')(t := NGTCP2_PQ_BAD_INDEX)\<rparr>)"
    by (rule pq_ok_index [OF p(2)]) (use set in simp)
  ultimately have "strmq_ok ?s" by (auto simp: strmq_ok_def)
  moreover have "ngtcp2_conn_tx_strmq_top s = Ok t" using t(1) ne by (simp add: ngtcp2_conn_tx_strmq_top_def ngtcp2_pq_empty_def)
  ultimately show thesis
    by (intro that [of t ?s]) (use t set len lt p(1) in \<open>simp_all add: ngtcp2_conn_tx_strmq_pop_def\<close>)
qed

text \<open>A rotation keeps the queue; only the cycle of the first stream changes. It needs no memory.\<close>

lemma strmq_rotate_ok:
  assumes ok: "strmq_ok s" and ne: "pq_q (sq_pq s) \<noteq> []"
  obtains t s' where "strmq_rotate mem s = Ok (t, s', None)" "strmq_ok s'"
    "t \<in> set (pq_q (sq_pq s))" "\<forall>e \<in> set (pq_q (sq_pq s)). \<not> sq_less s e t"
    "set (pq_q (sq_pq s')) = set (pq_q (sq_pq s))" "sq_cycle s' = (sq_cycle s)(t := sq_cycle s t + 1)"
    "sq_stream_id s' = sq_stream_id s"
proof -
  obtain t s1 where p: "ngtcp2_conn_tx_strmq_top s = Ok t" "ngtcp2_conn_tx_strmq_pop s = Ok s1" "strmq_ok s1"
    "t \<in> set (pq_q (sq_pq s))" "\<forall>e \<in> set (pq_q (sq_pq s)). \<not> sq_less s e t"
    "set (pq_q (sq_pq s1)) = set (pq_q (sq_pq s)) - {t}" "length (pq_q (sq_pq s)) = Suc (length (pq_q (sq_pq s1)))"
    "length (pq_q (sq_pq s1)) < pq_capacity (sq_pq s1)" "sq_cycle s1 = sq_cycle s" "sq_stream_id s1 = sq_stream_id s"
    by (rule strmq_pop_ok [OF ok ne])
  let ?s = "s1\<lparr>sq_cycle := (sq_cycle s1)(t := sq_cycle s1 t + 1)\<rparr>"
  obtain c where c: "two_cycles (sq_cycle s) (set (pq_q (sq_pq s))) c" using ok by (auto simp: strmq_ok_def)
  have t: "t \<notin> set (pq_q (sq_pq s1))" using p(6) by simp
  have c': "two_cycles (sq_cycle ?s) (insert t (set (pq_q (sq_pq ?s)))) (sq_cycle s t)"
  proof -
    have "sq_cycle s e = sq_cycle s t \<or> sq_cycle s e = sq_cycle s t + 1" if e: "e \<in> set (pq_q (sq_pq s))" for e
    proof -
      have "sq_cycle s e = c \<or> sq_cycle s e = c + 1" "sq_cycle s t = c \<or> sq_cycle s t = c + 1"
        using c e p(4) by (auto simp: two_cycles_def)
      moreover have "\<not> sq_less s e t" using p(5) e by simp
      ultimately show ?thesis by (elim disjE) (auto simp: cycle_less_def split: if_splits)
    qed
    then show ?thesis using p(6,9) by (auto simp: two_cycles_def)
  qed
  have n: "length (pq_q (sq_pq s1)) < NGTCP2_PQ_BAD_INDEX"
  proof (rule ccontr)
    assume "\<not> ?thesis"
    then have l: "NGTCP2_PQ_BAD_INDEX < length (pq_q (sq_pq s))" using p(7) by simp
    then have "pq_index (sq_pq s) (pq_q (sq_pq s) ! NGTCP2_PQ_BAD_INDEX) = NGTCP2_PQ_BAD_INDEX"
      using ok by (simp add: strmq_ok_def pq_ok_def indexed_def)
    moreover have "ngtcp2_strm_is_tx_queued s (pq_q (sq_pq s) ! NGTCP2_PQ_BAD_INDEX)"
      using ok nth_mem [OF l] by (simp add: strmq_ok_def)
    ultimately show False by (simp add: ngtcp2_strm_is_tx_queued_def)
  qed
  have pq': "pq_ok (cycle_less (sq_cycle ?s) (sq_stream_id ?s)) (sq_pq ?s)"
    using p(3) pq_ok_cycle [OF t] by (simp add: strmq_ok_def)
  have q': "\<forall>e. ngtcp2_strm_is_tx_queued ?s e \<longleftrightarrow> e \<in> set (pq_q (sq_pq ?s))"
    using p(3) by (simp add: strmq_ok_def ngtcp2_strm_is_tx_queued_def)
  obtain s' where r: "ngtcp2_conn_tx_strmq_push mem ?s t = Ok (s', None)" "strmq_ok s'"
    "mset (pq_q (sq_pq s')) = add_mset t (mset (pq_q (sq_pq ?s)))" "sq_cycle s' = sq_cycle ?s"
    "sq_stream_id s' = sq_stream_id ?s" "sq_flags s' = sq_flags ?s"
    by (rule strmq_push_ok [OF pq' q' _ c', of mem]) (use t p(8) n in simp_all)
  have "set (pq_q (sq_pq s')) = set (pq_q (sq_pq s))" using arg_cong [OF r(3), of set_mset] p(4,6) by auto
  moreover have "strmq_rotate mem s = Ok (t, s', None)" using p(1,2) r(1) by (simp add: strmq_rotate_def)
  ultimately show thesis using r p(4,5,9,10) by (intro that [of t s']) simp_all
qed

lemma strmq_join_ok:
  assumes ok: "strmq_ok s" and n: "length (pq_q (sq_pq s)) < NGTCP2_PQ_BAD_INDEX"
  shows "\<exists>s'. strmq_join True s e = Ok (s', None) \<and> strmq_ok s' \<and> set (pq_q (sq_pq s')) = insert e (set (pq_q (sq_pq s))) \<and>
    sq_flags s' = sq_flags s \<and> (\<forall>x \<in> set (pq_q (sq_pq s)). sq_cycle s' x = sq_cycle s x)"
proof (cases "e \<in> set (pq_q (sq_pq s))")
  case True
  then show ?thesis using ok by (auto simp: strmq_join_def strmq_ok_def)
next
  case False
  obtain c where c: "two_cycles (sq_cycle s) (set (pq_q (sq_pq s))) c" using ok by (auto simp: strmq_ok_def)
  obtain f where f: "ngtcp2_conn_tx_strmq_first_cycle s = Ok f" "pq_q (sq_pq s) \<noteq> [] \<longrightarrow> f = sq_cycle s (pq_q (sq_pq s) ! 0)"
    by (cases "pq_q (sq_pq s) = []") (auto simp: ngtcp2_conn_tx_strmq_first_cycle_def ngtcp2_pq_empty_def ngtcp2_pq_top_def)
  let ?s = "s\<lparr>sq_cycle := (sq_cycle s)(e := f)\<rparr>"
  have "\<exists>c. two_cycles (sq_cycle ?s) (insert e (set (pq_q (sq_pq ?s)))) c"
  proof (cases "pq_q (sq_pq s) = []")
    case True
    then show ?thesis by (auto simp: two_cycles_def)
  next
    case ne: False
    then have "f = c \<or> f = c + 1" using f(2) c by (auto simp: two_cycles_def)
    then show ?thesis using c False by (intro exI [of _ c]) (auto simp: two_cycles_def)
  qed
  then obtain c' where c': "two_cycles (sq_cycle ?s) (insert e (set (pq_q (sq_pq ?s)))) c'" by blast
  have pq': "pq_ok (cycle_less (sq_cycle ?s) (sq_stream_id ?s)) (sq_pq ?s)"
    using ok pq_ok_cycle [OF False] by (simp add: strmq_ok_def)
  have q': "\<forall>e. ngtcp2_strm_is_tx_queued ?s e \<longleftrightarrow> e \<in> set (pq_q (sq_pq ?s))"
    using ok by (simp add: strmq_ok_def ngtcp2_strm_is_tx_queued_def)
  obtain s' where r: "ngtcp2_conn_tx_strmq_push True ?s e = Ok (s', None)" "strmq_ok s'"
    "mset (pq_q (sq_pq s')) = add_mset e (mset (pq_q (sq_pq ?s)))" "sq_cycle s' = sq_cycle ?s"
    "sq_stream_id s' = sq_stream_id ?s" "sq_flags s' = sq_flags ?s"
    by (rule strmq_push_ok [OF pq' q' _ c', of True]) (use False n in simp_all)
  have "set (pq_q (sq_pq s')) = insert e (set (pq_q (sq_pq s)))" using arg_cong [OF r(3), of set_mset] by simp
  moreover have "\<not> ngtcp2_strm_is_tx_queued s e" using ok False by (simp add: strmq_ok_def)
  ultimately show ?thesis using r f(1) False by (auto simp: strmq_join_def)
qed

section \<open>Fairness\<close>

text \<open>\<open>n\<close> rotations and the streams they serve.\<close>

fun strmq_serve :: "bool \<Rightarrow> nat \<Rightarrow> 'e strms \<Rightarrow> ('e list \<times> 'e strms) res" where
  "strmq_serve mem 0 s = Ok ([], s)"
| "strmq_serve mem (Suc n) s =
     bindR (strmq_rotate mem s) (\<lambda>(t, s, rv).
     case rv of Some e \<Rightarrow> Err e
     | None \<Rightarrow> bindR (strmq_serve mem n s) (\<lambda>(ts, s). Ok (t # ts, s)))"

lemma bindR_prod: "bindR (case x of (a, b) \<Rightarrow> f a b) g = (case x of (a, b) \<Rightarrow> bindR (f a b) g)"
  by (cases x) simp

lemma serve_add:
  "strmq_serve mem (m + n) s = bindR (strmq_serve mem m s) (\<lambda>(xs, s). bindR (strmq_serve mem n s) (\<lambda>(ys, s). Ok (xs @ ys, s)))"
proof (induction m arbitrary: s)
  case 0
  then show ?case by (cases "strmq_serve mem n s") auto
next
  case (Suc m)
  show ?case
  proof (cases "strmq_rotate mem s")
    case (Ok r)
    obtain t s1 rv where r: "r = (t, s1, rv)" by (cases r)
    show ?thesis
      by (cases rv; cases "strmq_serve mem m s1") (auto simp: Ok r Suc bindR_assoc bindR_prod split: prod.splits)
  qed simp_all
qed

text \<open>The streams in the older cycle are served first, each once, and move to the next cycle.\<close>

lemma serve_phase:
  assumes "strmq_ok s" "two_cycles (sq_cycle s) (set (pq_q (sq_pq s))) c"
    "card {e \<in> set (pq_q (sq_pq s)). sq_cycle s e = c} = k"
  shows "\<exists>xs s'. strmq_serve mem k s = Ok (xs, s') \<and> strmq_ok s' \<and> set (pq_q (sq_pq s')) = set (pq_q (sq_pq s)) \<and>
    distinct xs \<and> set xs = {e \<in> set (pq_q (sq_pq s)). sq_cycle s e = c} \<and> (\<forall>e \<in> set (pq_q (sq_pq s)). sq_cycle s' e = c + 1)"
  using assms
proof (induction k arbitrary: s)
  case 0
  then have "{e \<in> set (pq_q (sq_pq s)). sq_cycle s e = c} = {}" by simp
  then show ?case using 0 by (auto simp: two_cycles_def)
next
  case (Suc k)
  let ?Q = "set (pq_q (sq_pq s))" and ?O = "\<lambda>s. {e \<in> set (pq_q (sq_pq s)). sq_cycle s e = c}"
  have "?O s \<noteq> {}" using Suc.prems(3) by (metis card.empty nat.distinct(1))
  then obtain e where e: "e \<in> ?Q" "sq_cycle s e = c" by blast
  then have ne: "pq_q (sq_pq s) \<noteq> []" by auto
  obtain t s1 where r: "strmq_rotate mem s = Ok (t, s1, None)" "strmq_ok s1"
    "t \<in> ?Q" "\<forall>e \<in> ?Q. \<not> sq_less s e t"
    "set (pq_q (sq_pq s1)) = ?Q" "sq_cycle s1 = (sq_cycle s)(t := sq_cycle s t + 1)" "sq_stream_id s1 = sq_stream_id s"
    by (rule strmq_rotate_ok [OF Suc.prems(1) ne])
  have t: "sq_cycle s t = c"
  proof (rule ccontr)
    assume "sq_cycle s t \<noteq> c"
    then have "sq_cycle s t = c + 1" using r(3) Suc.prems(2) by (auto simp: two_cycles_def)
    then have "sq_less s e t" using e(2) by (simp add: cycle_less_def)
    then show False using r(4) e(1) by simp
  qed
  have O1: "?O s1 = ?O s - {t}" "t \<in> ?O s" using r(3,5,6) t by auto
  then have "card (?O s1) = k" using Suc.prems(3) by simp
  moreover have "two_cycles (sq_cycle s1) (set (pq_q (sq_pq s1))) c"
    using Suc.prems(2) r(5,6) t by (auto simp: two_cycles_def)
  ultimately obtain xs s' where h: "strmq_serve mem k s1 = Ok (xs, s')" "strmq_ok s'" "set (pq_q (sq_pq s')) = ?Q"
    "distinct xs" "set xs = ?O s1" "\<forall>e \<in> ?Q. sq_cycle s' e = c + 1"
    using Suc.IH [OF r(2)] r(5) by metis
  then show ?case using r(1) O1 by auto
qed

text \<open>
  C32: The stream scheduler is fair while no stream enters or leaves its queue. The services finish the cycle that has begun, with the streams of that
  cycle once each, so at most as many services as there are streams; the next round serves every queued stream exactly once. No allocation
  is needed, and the invariant that makes \<open>cycle_less\<close> an order is kept, also when the cycle numbers wrap around.
\<close>

theorem strmq_fair:
  assumes "strmq_ok s"
  shows "\<exists>k xs ys s'. k \<le> length (pq_q (sq_pq s)) \<and>
    strmq_serve mem (k + length (pq_q (sq_pq s))) s = Ok (xs @ ys, s') \<and> length xs = k \<and> distinct xs \<and> set xs \<subseteq> set (pq_q (sq_pq s)) \<and>
    distinct ys \<and> set ys = set (pq_q (sq_pq s)) \<and> strmq_ok s'"
proof -
  let ?Q = "set (pq_q (sq_pq s))" and ?n = "length (pq_q (sq_pq s))"
  obtain c where c: "two_cycles (sq_cycle s) ?Q c" using assms by (auto simp: strmq_ok_def)
  let ?O = "{e \<in> ?Q. sq_cycle s e = c}"
  obtain xs s1 where s1: "strmq_serve mem (card ?O) s = Ok (xs, s1)" "strmq_ok s1" "set (pq_q (sq_pq s1)) = ?Q"
    "distinct xs" "set xs = ?O" "\<forall>e \<in> ?Q. sq_cycle s1 e = c + 1"
    using serve_phase [OF assms c refl] by blast
  have d: "card ?Q = ?n" using assms indexed_distinct distinct_card by (auto simp: strmq_ok_def pq_ok_def)
  have O1: "{e \<in> set (pq_q (sq_pq s1)). sq_cycle s1 e = c + 1} = ?Q" using s1(3,6) by auto
  have c1: "two_cycles (sq_cycle s1) (set (pq_q (sq_pq s1))) (c + 1)" using s1(3,6) by (simp add: two_cycles_def)
  obtain ys s2 where s2: "strmq_serve mem ?n s1 = Ok (ys, s2)" "strmq_ok s2" "distinct ys" "set ys = ?Q"
    using serve_phase [OF s1(2) c1 refl] unfolding O1 d by blast
  have "card ?O \<le> ?n" using card_mono [of ?Q ?O] d by simp
  moreover have "length xs = card ?O" using s1(4,5) distinct_card by fastforce
  moreover have "strmq_serve mem (card ?O + ?n) s = Ok (xs @ ys, s2)" using s1(1) s2(1) by (simp add: serve_add)
  moreover have "set xs \<subseteq> ?Q" using s1(5) by blast
  ultimately show ?thesis using s1(4) s2 by blast
qed

definition ex_strmq :: "nat strms" where
  "ex_strmq = \<lparr>sq_pq = \<lparr>pq_q = [0, 1, 2], pq_capacity = 4, pq_index = (\<lambda>e. if e < 3 then e else NGTCP2_PQ_BAD_INDEX)\<rparr>,
     sq_cycle = (\<lambda>e. if e = 0 then - 1 else 0), sq_stream_id = word_of_nat, sq_flags = (\<lambda>_. 0), sq_reset_code = (\<lambda>_. 0), sq_stop_code = (\<lambda>_. 0)\<rparr>"

theorem strmq_fair_witness:
  "\<exists>k xs ys s'. k \<le> 3 \<and> strmq_serve False (k + 3) ex_strmq = Ok (xs @ ys, s') \<and> distinct ys \<and> set ys = {0, 1, 2}"
proof -
  have "heap_order (sq_less ex_strmq) [0, 1, 2]" "indexed (sq_pq ex_strmq)"
    by (auto simp: heap_order_def indexed_def ex_strmq_def cycle_less_def par_def less_Suc_eq numeral_3_eq_3)
  moreover have "two_cycles (sq_cycle ex_strmq) {0, 1, 2} (- 1)" by (simp add: two_cycles_def ex_strmq_def)
  moreover have "ngtcp2_strm_is_tx_queued ex_strmq e \<longleftrightarrow> e \<in> {0, 1, 2}" for e
    by (auto simp: ngtcp2_strm_is_tx_queued_def ex_strmq_def NGTCP2_PQ_BAD_INDEX_def)
  ultimately have "strmq_ok ex_strmq" by (auto simp: strmq_ok_def pq_ok_def ex_strmq_def)
  moreover have q: "pq_q (sq_pq ex_strmq) = [0, 1, 2]" by (simp add: ex_strmq_def)
  moreover have "length (pq_q (sq_pq ex_strmq)) = 3" "set (pq_q (sq_pq ex_strmq)) = {0, 1, 2}" by (simp_all add: q)
  ultimately show ?thesis using strmq_fair [of ex_strmq False] by metis
qed

text \<open>
  \<open>conn_reset_stream\<close> marks the stream, and queues it if it is not queued yet; the queue keeps its
  invariant, so that the comparison of cycles stays an order, and no other stream changes its place in the
  order of cycles.
\<close>

theorem conn_reset_stream_queues:
  assumes "strmq_ok s" "length (pq_q (sq_pq s)) < NGTCP2_PQ_BAD_INDEX"
  shows "\<exists>s'. conn_reset_stream True s strm code = Ok (s', None) \<and> strmq_ok s' \<and>
    set (pq_q (sq_pq s')) = insert strm (set (pq_q (sq_pq s))) \<and> ngtcp2_strm_is_tx_queued s' strm \<and>
    sq_flags s' strm = sq_flags s strm OR NGTCP2_STRM_FLAG_SEND_RESET_STREAM \<and>
    (\<forall>x \<in> set (pq_q (sq_pq s)). sq_cycle s' x = sq_cycle s x)"
proof -
  let ?s = "s\<lparr>sq_flags := (sq_flags s)(strm := sq_flags s strm OR NGTCP2_STRM_FLAG_SEND_RESET_STREAM),
    sq_reset_code := (sq_reset_code s)(strm := code)\<rparr>"
  have "strmq_ok ?s" using assms(1) by (simp add: strmq_ok_def ngtcp2_strm_is_tx_queued_def)
  then obtain s' where s': "strmq_join True ?s strm = Ok (s', None)" "strmq_ok s'"
    "set (pq_q (sq_pq s')) = insert strm (set (pq_q (sq_pq s)))" "sq_flags s' = sq_flags ?s"
    "\<forall>x \<in> set (pq_q (sq_pq s)). sq_cycle s' x = sq_cycle s x" using strmq_join_ok [of ?s strm] assms(2) by auto
  moreover have "ngtcp2_strm_is_tx_queued s' strm" using s'(2,3) by (simp add: strmq_ok_def)
  ultimately show ?thesis by (simp add: conn_reset_stream_def)
qed

theorem conn_reset_stream_queues_witness:
  "\<exists>s'. conn_reset_stream True
     \<lparr>sq_pq = ngtcp2_pq_init (\<lambda>_. NGTCP2_PQ_BAD_INDEX), sq_cycle = (\<lambda>_. 0), sq_stream_id = word_of_nat, sq_flags = (\<lambda>_. 0),
       sq_reset_code = (\<lambda>_. 0), sq_stop_code = (\<lambda>_. 0)\<rparr> (4 :: nat) 7 = Ok (s', None) \<and> ngtcp2_strm_is_tx_queued s' 4"
proof -
  let ?s = "\<lparr>sq_pq = ngtcp2_pq_init (\<lambda>_. NGTCP2_PQ_BAD_INDEX), sq_cycle = (\<lambda>_. 0 :: u64), sq_stream_id = word_of_nat :: nat \<Rightarrow> i64,
    sq_flags = (\<lambda>_. 0 :: u32), sq_reset_code = (\<lambda>_. 0 :: u64), sq_stop_code = (\<lambda>_. 0 :: u64)\<rparr>"
  have "strmq_ok ?s" "length (pq_q (sq_pq ?s)) < NGTCP2_PQ_BAD_INDEX"
    by (simp_all add: strmq_ok_def pq_ok_def heap_order_def indexed_def two_cycles_def ngtcp2_strm_is_tx_queued_def
      ngtcp2_pq_init_def NGTCP2_PQ_BAD_INDEX_def)
  from conn_reset_stream_queues [OF this, of 4 7] show ?thesis by blast
qed

end
