(* ===== verification/Hashmap.thy ===== *)
theory Hashmap
  imports Prelude
begin

text \<open>
  \<open>lib/ngtcp2_map.c\<close>, the hash map from 64-bit keys to pointers: open addressing with Robin Hood
  probing. The arrays \<open>keys\<close>, \<open>data\<close> and \<open>psl\<close> are one list of slots; \<open>psl\<close> is the probe sequence length
  plus one, zero for a free slot, and kept in 8 bits. A null pointer is \<open>None\<close>. The allocator is one
  answer per call.

  The loops run until they meet a free slot; they have the length of the table as fuel and running out
  of it, an endless loop of the code, is a fault.
\<close>

section \<open>Operations\<close>

record 'd slot =
  sl_key :: u64
  sl_data :: "'d option"
  sl_psl :: u8

record 'd ngtcp2_map =
  mp_tab :: "'d slot list"
  mp_seed :: u64
  mp_size :: nat
  mp_hashbits :: nat

definition ngtcp2_map_init :: "u64 \<Rightarrow> 'd ngtcp2_map" where
  "ngtcp2_map_init seed = \<lparr>mp_tab = [], mp_seed = seed, mp_size = 0, mp_hashbits = 0\<rparr>"

abbreviation (input) NGTCP2_MAP_HASHER :: u64 where "NGTCP2_MAP_HASHER \<equiv> 0xF1357AEA2E62A9C5"
abbreviation (input) NGTCP2_MAP_FIBO :: u64 where "NGTCP2_MAP_FIBO \<equiv> 0x9E3779B97F4A7C15"

definition map_index :: "'d ngtcp2_map \<Rightarrow> u64 \<Rightarrow> nat" where
  "map_index m key = unat (drop_bit (64 - mp_hashbits m) ((key + mp_seed m) * NGTCP2_MAP_HASHER * NGTCP2_MAP_FIBO))"

definition map_set_entry :: "'d slot list \<Rightarrow> nat \<Rightarrow> u64 \<Rightarrow> 'd option \<Rightarrow> nat \<Rightarrow> 'd slot list" where
  "map_set_entry tab idx key data psl = tab[idx := \<lparr>sl_key = key, sl_data = data, sl_psl = word_of_nat psl\<rparr>]"

fun map_insert_loop ::
    "nat \<Rightarrow> nat \<Rightarrow> 'd slot list \<Rightarrow> nat \<Rightarrow> u64 \<Rightarrow> 'd option \<Rightarrow> nat \<Rightarrow> ('d slot list \<times> nat option) res" where
  "map_insert_loop 0 hashmask tab idx key data psl = Fault"
| "map_insert_loop (Suc fuel) hashmask tab idx key data psl =
     (if idx \<ge> length tab then Fault else
      let kpsl = unat (sl_psl (tab ! idx)) in
      if kpsl = 0 then Ok (map_set_entry tab idx key data psl, Some idx)
      else if psl > kpsl then
        map_insert_loop fuel hashmask (map_set_entry tab idx key data psl) (and (idx + 1) hashmask)
          (sl_key (tab ! idx)) (sl_data (tab ! idx)) (kpsl + 1)
      else if sl_key (tab ! idx) = key then Ok (tab, None)
      else map_insert_loop fuel hashmask tab (and (idx + 1) hashmask) key data (psl + 1))"

definition map_insert :: "'d ngtcp2_map \<Rightarrow> u64 \<Rightarrow> 'd option \<Rightarrow> ('d ngtcp2_map \<times> nat option) res" where
  "map_insert m key data =
     bindR (map_insert_loop (length (mp_tab m)) (2 ^ mp_hashbits m - 1) (mp_tab m) (map_index m key) key data 1)
      (\<lambda>(tab, r). case r of
          None \<Rightarrow> Ok (m\<lparr>mp_tab := tab\<rparr>, None)
        | Some idx \<Rightarrow> Ok (m\<lparr>mp_tab := tab, mp_size := mp_size m + 1\<rparr>, Some idx))"

abbreviation (input) "NGTCP2_INITIAL_HASHBITS \<equiv> 4 :: nat"
abbreviation (input) "NGTCP2_MAP_MAX_HASHBITS \<equiv> 63 :: nat"
abbreviation (input) "NGTCP2_MAX_PSL_RESIZE_THRESH \<equiv> 128 :: nat"

definition free_slot :: "'d slot" where
  "free_slot = \<lparr>sl_key = 0, sl_data = None, sl_psl = 0\<rparr>"

fun map_reinsert :: "'d slot list \<Rightarrow> 'd ngtcp2_map \<Rightarrow> 'd ngtcp2_map res" where
  "map_reinsert [] m = Ok m"
| "map_reinsert (s # ss) m =
     (if sl_psl s = 0 then map_reinsert ss m else
      bindR (map_insert m (sl_key s) (sl_data s)) (\<lambda>(m, r).
      assertR (r \<noteq> None) (map_reinsert ss m)))"

definition map_resize :: "bool \<Rightarrow> 'd ngtcp2_map \<Rightarrow> nat \<Rightarrow> ('d ngtcp2_map \<times> lib_error option) res" where
  "map_resize mem m new_hashbits =
     (if new_hashbits > NGTCP2_MAP_MAX_HASHBITS then Ok (m, Some NGTCP2_ERR_NOMEM)
      else if \<not> mem then Ok (m, Some NGTCP2_ERR_NOMEM) else
      let new_map = \<lparr>mp_tab = replicate (2 ^ new_hashbits) free_slot, mp_seed = mp_seed m, mp_size = 0, mp_hashbits = new_hashbits\<rparr> in
      bindR (if mp_size m \<noteq> 0 then map_reinsert (mp_tab m) new_map else Ok new_map) (\<lambda>new_map.
      Ok (m\<lparr>mp_tab := mp_tab new_map, mp_hashbits := new_hashbits\<rparr>, None)))"

definition ngtcp2_map_insert :: "bool \<Rightarrow> 'd ngtcp2_map \<Rightarrow> u64 \<Rightarrow> 'd option \<Rightarrow> ('d ngtcp2_map \<times> lib_error option) res" where
  "ngtcp2_map_insert mem m key data =
     assertR (data \<noteq> None)
      (let tablelen = 2 ^ mp_hashbits m in
       if mp_size m + 1 \<ge> tablelen - tablelen div 8 then
         bindR (map_resize mem m (if mp_hashbits m \<noteq> 0 then mp_hashbits m + 1 else NGTCP2_INITIAL_HASHBITS)) (\<lambda>(m, rv).
         if rv \<noteq> None then Ok (m, rv) else
         bindR (map_insert m key data) (\<lambda>(m, r).
         Ok (m, if r = None then Some NGTCP2_ERR_INVALID_ARGUMENT else None)))
       else
         bindR (map_insert m key data) (\<lambda>(m, r).
         case r of None \<Rightarrow> Ok (m, Some NGTCP2_ERR_INVALID_ARGUMENT)
         | Some idx \<Rightarrow>
             if idx \<ge> length (mp_tab m) then Fault
             else if unat (sl_psl (mp_tab m ! idx)) - 1 < NGTCP2_MAX_PSL_RESIZE_THRESH then Ok (m, None)
             else map_resize mem m (mp_hashbits m + 1)))"

fun map_find_loop :: "nat \<Rightarrow> nat \<Rightarrow> 'd slot list \<Rightarrow> nat \<Rightarrow> u64 \<Rightarrow> nat \<Rightarrow> nat option res" where
  "map_find_loop 0 hashmask tab idx key psl = Fault"
| "map_find_loop (Suc fuel) hashmask tab idx key psl =
     (if idx \<ge> length tab then Fault
      else if psl > unat (sl_psl (tab ! idx)) then Ok None
      else if sl_key (tab ! idx) = key then Ok (Some idx)
      else map_find_loop fuel hashmask tab (and (idx + 1) hashmask) key (psl + 1))"

definition ngtcp2_map_find :: "'d ngtcp2_map \<Rightarrow> u64 \<Rightarrow> 'd option res" where
  "ngtcp2_map_find m key =
     (if mp_size m = 0 then Ok None else
      bindR (map_find_loop (length (mp_tab m)) (2 ^ mp_hashbits m - 1) (mp_tab m) (map_index m key) key 1) (\<lambda>r.
      Ok (case r of None \<Rightarrow> None | Some idx \<Rightarrow> sl_data (mp_tab m ! idx))))"

text \<open>The inner loop of \<open>ngtcp2_map_remove\<close>: the entries behind the removed one move back by one slot.\<close>

fun map_shift_back :: "nat \<Rightarrow> nat \<Rightarrow> 'd slot list \<Rightarrow> nat \<Rightarrow> 'd slot list res" where
  "map_shift_back 0 hashmask tab dest = Fault"
| "map_shift_back (Suc fuel) hashmask tab dest =
     (let idx = and (dest + 1) hashmask in
      if idx \<ge> length tab then Fault else
      let kpsl = unat (sl_psl (tab ! idx)) in
      if kpsl \<le> 1 then Ok (tab[dest := (tab ! dest)\<lparr>sl_psl := 0\<rparr>])
      else map_shift_back fuel hashmask
             (map_set_entry tab dest (sl_key (tab ! idx)) (sl_data (tab ! idx)) (kpsl - 1)) idx)"

definition ngtcp2_map_remove :: "'d ngtcp2_map \<Rightarrow> u64 \<Rightarrow> ('d ngtcp2_map \<times> lib_error option) res" where
  "ngtcp2_map_remove m key =
     (if mp_size m = 0 then Ok (m, Some NGTCP2_ERR_INVALID_ARGUMENT) else
      bindR (map_find_loop (length (mp_tab m)) (2 ^ mp_hashbits m - 1) (mp_tab m) (map_index m key) key 1) (\<lambda>r.
      case r of None \<Rightarrow> Ok (m, Some NGTCP2_ERR_INVALID_ARGUMENT)
      | Some dest \<Rightarrow>
          bindR (map_shift_back (length (mp_tab m)) (2 ^ mp_hashbits m - 1) (mp_tab m) dest) (\<lambda>tab.
          Ok (m\<lparr>mp_tab := tab, mp_size := mp_size m - 1\<rparr>, None))))"

definition ngtcp2_map_clear :: "'d ngtcp2_map \<Rightarrow> 'd ngtcp2_map" where
  "ngtcp2_map_clear m =
     (if mp_size m = 0 then m
      else m\<lparr>mp_tab := map (\<lambda>s. s\<lparr>sl_psl := 0\<rparr>) (mp_tab m), mp_size := 0\<rparr>)"

definition ngtcp2_map_size :: "'d ngtcp2_map \<Rightarrow> nat" where
  "ngtcp2_map_size m = mp_size m"

end
