(* ===== verification/Hashmap_Table.thy ===== *)
theory Hashmap_Table
  imports Hashmap "HOL-Library.Multiset"
begin

text \<open>
  The table of the hash map: its Robin Hood invariant, and that the loops of search, insertion and
  removal end at a free slot and keep it. The entries of a table are a multiset of pairs of key and data,
  so that an insertion adds one pair and a removal takes one away, however many entries have moved.
\<close>

section \<open>Tables\<close>

text \<open>
  Positions are numbers modulo the length of the table, a power of two. \<open>home\<close> is the hash of a key.
  \<open>chain\<close> is the Robin Hood property: along the table a probe length grows by at most one per slot.
\<close>

definition psl_at :: "'d slot list \<Rightarrow> nat \<Rightarrow> nat" where
  "psl_at tab i = unat (sl_psl (tab ! (i mod length tab)))"

definition key_at :: "'d slot list \<Rightarrow> nat \<Rightarrow> u64" where
  "key_at tab i = sl_key (tab ! (i mod length tab))"

definition chain :: "'d slot list \<Rightarrow> bool" where
  "chain tab = (\<forall>i. psl_at tab (i + 1) \<le> psl_at tab i + 1)"

definition homed :: "(u64 \<Rightarrow> nat) \<Rightarrow> 'd slot list \<Rightarrow> nat \<Rightarrow> bool" where
  "homed home tab i = (psl_at tab i = 0 \<or> (home (key_at tab i) + (psl_at tab i - 1)) mod length tab = i mod length tab)"

definition occupied :: "'d slot list \<Rightarrow> (u64 \<times> 'd option) list" where
  "occupied tab = map (\<lambda>s. (sl_key s, sl_data s)) (filter (\<lambda>s. sl_psl s \<noteq> 0) tab)"

definition map_abs :: "'d ngtcp2_map \<Rightarrow> u64 \<rightharpoonup> 'd" where
  "map_abs m k = (case map_of (occupied (mp_tab m)) k of None \<Rightarrow> None | Some d \<Rightarrow> d)"

definition ents :: "'d slot list \<Rightarrow> (u64 \<times> 'd option) multiset" where
  "ents tab = mset (occupied tab)"

definition once :: "(u64 \<times> 'd option) multiset \<Rightarrow> bool" where
  "once M = (\<forall>k. count (image_mset fst M) k \<le> 1)"

definition ent :: "'d slot \<Rightarrow> (u64 \<times> 'd option) multiset" where
  "ent s = (if sl_psl s = 0 then {#} else {#(sl_key s, sl_data s)#})"

lemma ents_Cons: "ents (s # tab) = ent s + ents tab"
  by (simp add: ents_def occupied_def ent_def)

lemma ents_Nil: "ents [] = {#}"
  by (simp add: ents_def occupied_def)

lemma ents_update: "i < length tab \<Longrightarrow> ents (tab[i := s]) + ent (tab ! i) = ents tab + ent s"
proof (induction tab arbitrary: i)
  case (Cons s0 tab)
  then show ?case by (cases i) (auto simp: ents_Cons)
qed simp

lemma in_ents: "(k, d) \<in># ents tab \<longleftrightarrow> (\<exists>i < length tab. sl_psl (tab ! i) \<noteq> 0 \<and> sl_key (tab ! i) = k \<and> sl_data (tab ! i) = d)"
  by (auto simp: ents_def occupied_def) (metis in_set_conv_nth)+

lemma once_fst: "once M \<Longrightarrow> (k, d) \<in># M \<Longrightarrow> (k, d') \<in># M \<Longrightarrow> d = d'"
proof (rule ccontr)
  assume o: "once M" and m: "(k, d) \<in># M" "(k, d') \<in># M" "d \<noteq> d'"
  then obtain N where "M = add_mset (k, d) N" "(k, d') \<in># N" by (metis insert_DiffM insert_noteq_member prod.inject)
  then obtain N' where "M = add_mset (k, d) (add_mset (k, d') N')" by (metis insert_DiffM)
  then have "count (image_mset fst M) k \<ge> 2" by simp
  moreover have "count (image_mset fst M) k \<le> 1" using o unfolding once_def by blast
  ultimately show False by linarith
qed

lemma once_distinct: "once (ents tab) \<Longrightarrow> distinct (map fst (occupied tab))"
proof -
  assume "once (ents tab)"
  then have c: "count (mset (map fst (occupied tab))) k \<le> 1" for k by (simp add: once_def ents_def)
  have "count (mset (map fst (occupied tab))) k = (if k \<in> set (map fst (occupied tab)) then 1 else 0)" for k
  proof (cases "k \<in> set (map fst (occupied tab))")
    case True
    then have "0 < count (mset (map fst (occupied tab))) k" by (simp only: count_greater_zero_iff set_mset_mset)
    then show ?thesis using c [of k] True by (simp only: if_True)
  next
    case False
    then show ?thesis by (simp only: count_eq_zero_iff set_mset_mset if_False not_False_eq_True)
  qed
  then show ?thesis unfolding distinct_count_atmost_1 by blast
qed

lemma abs_ents: "once (ents tab) \<Longrightarrow> map_of (occupied tab) k = Some d \<longleftrightarrow> (k, d) \<in># ents tab"
  using once_distinct [of tab] by (simp add: ents_def map_of_eq_Some_iff)

section \<open>Positions\<close>

lemma psl_at_mod [simp]: "psl_at tab (i mod length tab) = psl_at tab i"
  by (simp add: psl_at_def)

lemma key_at_mod [simp]: "key_at tab (i mod length tab) = key_at tab i"
  by (simp add: key_at_def)

lemma psl_at_cong: "i mod length tab = j mod length tab \<Longrightarrow> psl_at tab i = psl_at tab j"
  by (simp add: psl_at_def)

lemma chain_back: "chain tab \<Longrightarrow> psl_at tab (i + m) \<le> psl_at tab i + m"
proof (induction m)
  case (Suc m)
  have "psl_at tab (i + m + 1) \<le> psl_at tab (i + m) + 1" using Suc.prems unfolding chain_def by blast
  then show ?case using Suc by simp
qed simp

lemma and_hashmask: "and x (2 ^ b - 1) = x mod 2 ^ b" for x :: nat
  using take_bit_eq_mask [of b x] by (simp add: take_bit_eq_mod mask_eq_exp_minus_1)

lemma psl_at_update:
  "length tab > 0 \<Longrightarrow> psl_at (tab[i mod length tab := s]) j = (if j mod length tab = i mod length tab then unat (sl_psl s) else psl_at tab j)"
  by (simp add: psl_at_def nth_list_update)

lemma key_at_update:
  "length tab > 0 \<Longrightarrow> key_at (tab[i mod length tab := s]) j = (if j mod length tab = i mod length tab then sl_key s else key_at tab j)"
  by (simp add: key_at_def nth_list_update)

lemma chain_update:
  assumes c: "chain tab" and n: "length tab > 1" and s: "unat (sl_psl s) \<le> psl_at tab (i + length tab - 1) + 1"
    "psl_at tab (i + 1) \<le> unat (sl_psl s) + 1"
  shows "chain (tab[i mod length tab := s])"
proof -
  let ?n = "length tab"
  have n0: "?n > 0" using n by auto
  have ne: "(j + 1) mod ?n \<noteq> j mod ?n" for j using n by (metis add_diff_cancel_left' mod_eq_dvd_iff_nat le_add1 nat_dvd_1_iff_1 less_irrefl)
  have "psl_at (tab[i mod ?n := s]) (j + 1) \<le> psl_at (tab[i mod ?n := s]) j + 1" for j
  proof (cases "j mod ?n = i mod ?n")
    case True
    then have "(j + 1) mod ?n = (i + 1) mod ?n" by (metis mod_add_left_eq)
    then have "psl_at tab (j + 1) = psl_at tab (i + 1)" by (rule psl_at_cong)
    then show ?thesis unfolding psl_at_update [OF n0] using True ne [of j] s(2) by simp
  next
    case False
    show ?thesis
    proof (cases "(j + 1) mod ?n = i mod ?n")
      case True
      then have "(j + 1 + (?n - 1)) mod ?n = (i + (?n - 1)) mod ?n" by (metis mod_add_left_eq)
      moreover have "j + 1 + (?n - 1) = j + ?n" using n by simp
      then have "(j + 1 + (?n - 1)) mod ?n = j mod ?n" by (simp only: mod_add_self2)
      ultimately have "psl_at tab (i + ?n - 1) = psl_at tab j" using n by (intro psl_at_cong) simp
      then show ?thesis unfolding psl_at_update [OF n0] using True False s(1) by simp
    next
      case False2: False
      then show ?thesis unfolding psl_at_update [OF n0] using False c by (simp add: chain_def)
    qed
  qed
  then show ?thesis unfolding chain_def by blast
qed


section \<open>Search\<close>

text \<open>
  \<open>tab_ok\<close>: the table has \<open>2 ^ b\<close> slots and a free one, the Robin Hood property holds and every
  entry is where its probe length says.
\<close>

definition tab_ok :: "(u64 \<Rightarrow> nat) \<Rightarrow> nat \<Rightarrow> 'd slot list \<Rightarrow> bool" where
  "tab_ok home b tab = (0 < b \<and> length tab = 2 ^ b \<and> chain tab \<and> (\<forall>i. homed home tab i) \<and> once (ents tab) \<and>
     (\<exists>i < length tab. psl_at tab i = 0))"

lemma tab_ok_pos: "tab_ok home b tab \<Longrightarrow> 1 < length tab"
  unfolding tab_ok_def using one_less_power [of "2 :: nat" b] by simp

text \<open>From every position a free slot is less than a round away.\<close>

lemma free_ahead:
  assumes "i < length tab" "psl_at tab i = 0"
  shows "\<exists>d < length tab. psl_at tab (h + d) = 0"
proof -
  let ?n = "length tab"
  let ?d = "(i + (?n - h mod ?n)) mod ?n"
  have n: "0 < ?n" using assms by auto
  then have hm: "h mod ?n \<le> ?n" by (simp add: less_imp_le)
  have "(h + ?d) mod ?n = (h mod ?n + (i + (?n - h mod ?n))) mod ?n" by (simp add: mod_simps)
  also have "\<dots> = (i + ?n) mod ?n" using hm by simp
  finally have "psl_at tab (h + ?d) = psl_at tab i" by (intro psl_at_cong) simp
  then show ?thesis using assms n by (intro exI [of _ ?d]) simp
qed

lemma in_ents_at:
  "(k, d) \<in># ents tab \<longleftrightarrow> (\<exists>i < length tab. psl_at tab i \<noteq> 0 \<and> key_at tab i = k \<and> sl_data (tab ! i) = d)"
  by (auto simp: in_ents psl_at_def key_at_def unat_eq_0)

lemma key_in_ents: "k \<in># image_mset fst (ents tab) \<longleftrightarrow> (\<exists>i < length tab. psl_at tab i \<noteq> 0 \<and> key_at tab i = k)"
proof -
  have "k \<in># image_mset fst (ents tab) \<longleftrightarrow> (\<exists>d. (k, d) \<in># ents tab)" by force
  then show ?thesis unfolding in_ents_at by blast
qed

text \<open>An entry is on its own probe path, and every slot before it on the path is at least as far from home.\<close>

lemma on_path:
  assumes ok: "tab_ok home b tab" and i: "i < length tab" "psl_at tab i \<noteq> 0"
  obtains p where "p < length tab" "(home (key_at tab i) + p) mod length tab = i" "p + 1 = psl_at tab i"
    "\<forall>j \<le> p. j + 1 \<le> psl_at tab (home (key_at tab i) + j)"
proof -
  let ?h = "home (key_at tab i)" and ?p = "psl_at tab i - 1"
  have hm: "(?h + ?p) mod length tab = i" using ok i unfolding tab_ok_def homed_def by (metis mod_less)
  have P: "psl_at tab (?h + ?p) = psl_at tab i" using hm i(1) by (intro psl_at_cong) simp
  have j: "j + 1 \<le> psl_at tab (?h + j)" if "j \<le> ?p" for j
    using chain_back [of tab "?h + j" "?p - j"] ok P i(2) that by (simp add: tab_ok_def)
  obtain f where f: "f < length tab" "psl_at tab f = 0" using ok by (auto simp: tab_ok_def)
  obtain d where d: "d < length tab" "psl_at tab (?h + d) = 0" using free_ahead [OF f] by blast
  have "?p < length tab"
  proof (rule ccontr)
    assume "\<not> ?p < length tab"
    then have "d \<le> ?p" using d(1) by simp
    then show False using j [of d] d(2) by simp
  qed
  then show thesis using that [of ?p] hm j i(2) by simp
qed

lemma same_slot:
  assumes "once (ents tab)" "i < length tab" "j < length tab" "psl_at tab i \<noteq> 0" "psl_at tab j \<noteq> 0" "key_at tab i = key_at tab j"
  shows "i = j"
proof (rule ccontr)
  assume ne: "i \<noteq> j"
  let ?t = "tab[i := free_slot]"
  have "ents tab = ents ?t + {#(key_at tab i, sl_data (tab ! i))#}"
    using ents_update [OF assms(2), of free_slot] assms(2,4) by (simp add: ent_def free_slot_def psl_at_def key_at_def unat_eq_0)
  moreover have "(key_at tab i, sl_data (tab ! j)) \<in># ents ?t"
    unfolding in_ents using assms ne by (intro exI [of _ j]) (simp add: psl_at_def key_at_def unat_eq_0)
  ultimately have "count (image_mset fst (ents tab)) (key_at tab i) \<ge> 2"
    by (auto dest!: multi_member_split)
  moreover have "count (image_mset fst (ents tab)) (key_at tab i) \<le> 1" using assms(1) unfolding once_def by blast
  ultimately show False by linarith
qed

lemma step_idx: "length tab = 2 ^ b \<Longrightarrow> and (x mod length tab + 1) (2 ^ b - 1) = (x + 1) mod length tab"
  unfolding and_hashmask by (simp add: mod_simps)

lemma find_hit:
  assumes ok: "tab_ok home b tab" and i: "i < length tab" "psl_at tab i \<noteq> 0"
  shows "map_find_loop (length tab) (2 ^ b - 1) tab (home (key_at tab i) mod length tab) (key_at tab i) 1 = Ok (Some i)"
proof -
  let ?h = "home (key_at tab i)" and ?n = "length tab"
  obtain p where p: "p < ?n" "(?h + p) mod ?n = i" "\<forall>j \<le> p. j + 1 \<le> psl_at tab (?h + j)" by (rule on_path [OF ok i]) blast
  have n: "length tab = 2 ^ b" "0 < ?n" using ok by (auto simp: tab_ok_def)
  have "map_find_loop fuel (2 ^ b - 1) tab ((?h + j) mod ?n) (key_at tab i) (j + 1) = Ok (Some i)" if "j \<le> p" "p < j + fuel" for j fuel
    using that
  proof (induction fuel arbitrary: j)
    case (Suc fuel)
    have P: "j + 1 \<le> psl_at tab (?h + j)" using p(3) Suc.prems by simp
    have l: "(?h + j) mod ?n < ?n" using n by simp
    show ?case
    proof (cases "key_at tab (?h + j) = key_at tab i")
      case True
      moreover have "once (ents tab)" using ok by (simp add: tab_ok_def)
      ultimately have "(?h + j) mod ?n = i" using P i l by (intro same_slot [of tab]) simp_all
      then show ?thesis using P l i by (simp add: psl_at_def key_at_def)
    next
      case False
      then have "j \<noteq> p" using p(2) by (metis key_at_mod)
      then show ?thesis using Suc.IH [of "j + 1"] Suc.prems False P l step_idx [OF n(1), of "?h + j"] by (simp add: psl_at_def key_at_def)
    qed
  qed simp
  from this [of 0 ?n] show ?thesis using p(1) by simp
qed

lemma find_miss:
  assumes ok: "tab_ok home b tab" and k: "\<forall>i < length tab. psl_at tab i \<noteq> 0 \<longrightarrow> key_at tab i \<noteq> k"
  shows "map_find_loop (length tab) (2 ^ b - 1) tab (h mod length tab) k 1 = Ok None"
proof -
  let ?n = "length tab"
  have n: "length tab = 2 ^ b" "0 < ?n" using ok by (auto simp: tab_ok_def)
  obtain f where f: "f < length tab" "psl_at tab f = 0" using ok by (auto simp: tab_ok_def)
  obtain d where d: "d < ?n" "psl_at tab (h + d) = 0" using free_ahead [OF f] by blast
  have "map_find_loop fuel (2 ^ b - 1) tab ((h + j) mod ?n) k (j + 1) = Ok None" if "j \<le> d" "d < j + fuel" for j fuel
    using that
  proof (induction fuel arbitrary: j)
    case (Suc fuel)
    have l: "(h + j) mod ?n < ?n" using n by simp
    show ?case
    proof (cases "psl_at tab (h + j) < j + 1")
      case True
      then show ?thesis using l by (simp add: psl_at_def)
    next
      case False
      then have "key_at tab (h + j) \<noteq> k" using k l by (metis key_at_mod psl_at_mod add_is_0 leI le_zero_eq one_neq_zero)
      moreover have "j \<noteq> d" using False d(2) by auto
      ultimately show ?thesis using Suc.IH [of "j + 1"] Suc.prems False l step_idx [OF n(1), of "h + j"] by (simp add: psl_at_def key_at_def)
    qed
  qed simp
  from this [of 0 ?n] show ?thesis using d(1) by simp
qed

section \<open>Insertion\<close>

lemma free_iff: "(\<exists>i < length tab. psl_at tab i = 0) \<longleftrightarrow> size (ents tab) < length tab"
proof -
  have "(\<exists>i < length tab. psl_at tab i = 0) \<longleftrightarrow> (\<exists>s \<in> set tab. sl_psl s = 0)"
    unfolding psl_at_def by (simp add: unat_eq_0) (metis in_set_conv_nth mod_less)
  also have "\<dots> \<longleftrightarrow> length (filter (\<lambda>s. sl_psl s \<noteq> 0) tab) < length tab"
    by (metis (mono_tags, lifting) filter_True length_filter_less less_irrefl)
  finally show ?thesis by (simp only: ents_def occupied_def size_mset length_map)
qed

lemma unat_psl: "p \<le> 255 \<Longrightarrow> unat (word_of_nat p :: u8) = p"
  by (simp add: unsigned_of_nat take_bit_nat_eq_self)

lemma homed_update:
  assumes "\<forall>i. homed home tab i" "0 < length tab" "(home (sl_key s) + (unat (sl_psl s) - 1)) mod length tab = i mod length tab"
  shows "homed home (tab[i mod length tab := s]) j"
  using assms by (auto simp: homed_def psl_at_update key_at_update)

text \<open>
  The loop of \<open>map_insert\<close> carries an entry that is not in the table: one that is \<open>psl\<close> slots from its home,
  not further than the Robin Hood property allows at this slot. \<open>d\<close> is the distance to the first free slot.
\<close>

lemma probe_insert_ok:
  assumes "1 < length tab" "length tab = 2 ^ b" "chain tab" "\<forall>i. homed home tab i"
    and "once (ents tab + {#(key, data)#})" "1 \<le> psl" "psl \<le> 255"
    and "psl \<le> psl_at tab (idx + length tab - 1) + 1" "(home key + (psl - 1)) mod length tab = idx mod length tab"
    and "d < fuel" "d < length tab" "psl_at tab (idx + d) = 0" "\<forall>x < d. psl_at tab (idx + x) \<noteq> 0 \<and> psl_at tab (idx + x) \<le> 254"
  shows "\<exists>tab' i. map_insert_loop fuel (2 ^ b - 1) tab (idx mod length tab) key data psl = Ok (tab', Some i) \<and> i < length tab \<and>
    length tab' = length tab \<and> chain tab' \<and> (\<forall>i. homed home tab' i) \<and> ents tab' = ents tab + {#(key, data)#}"
  using assms
proof (induction d arbitrary: tab idx key data psl fuel)
  case (0 tab idx key data psl fuel)
  let ?n = "length tab" and ?s = "\<lparr>sl_key = key, sl_data = data, sl_psl = word_of_nat psl :: u8\<rparr>"
  obtain f where f: "fuel = Suc f" using "0.prems"(10) by (cases fuel) auto
  have n0: "0 < ?n" using "0.prems"(1) by auto
  have P: "unat (sl_psl ?s) = psl" using unat_psl "0.prems"(7) by simp
  have z: "psl_at tab idx = 0" using "0.prems"(12) by simp
  have "psl_at tab (idx + 1) \<le> psl_at tab idx + 1" using "0.prems"(3) unfolding chain_def by blast
  then have ch: "chain (tab[idx mod ?n := ?s])"
    using chain_update [OF "0.prems"(3,1), of ?s idx] P z "0.prems"(6,8) by simp
  have hm: "homed home (tab[idx mod ?n := ?s]) i" for i
    by (rule homed_update [OF "0.prems"(4) n0]) (use P "0.prems"(9) in simp)
  have e: "sl_psl (tab ! (idx mod ?n)) = 0" using z by (simp add: psl_at_def unat_eq_0)
  moreover have "sl_psl ?s \<noteq> 0" using P "0.prems"(6) by (auto simp: unat_eq_0 [symmetric])
  ultimately have "ents (tab[idx mod ?n := ?s]) = ents tab + {#(key, data)#}"
    using ents_update [of "idx mod ?n" tab ?s] n0 by (simp add: ent_def)
  moreover have "idx mod ?n < ?n" using n0 by simp
  ultimately show ?case using f e ch hm by (auto simp: map_set_entry_def)
next
  case (Suc d tab idx key data psl fuel)
  let ?n = "length tab" and ?s = "\<lparr>sl_key = key, sl_data = data, sl_psl = word_of_nat psl :: u8\<rparr>"
  define old where "old = tab ! (idx mod ?n)"
  obtain f where f: "fuel = Suc f" using Suc.prems(10) by (cases fuel) auto
  have n0: "0 < ?n" using Suc.prems(1) by auto
  have l: "idx mod ?n < ?n" using n0 by simp
  have K: "psl_at tab idx = unat (sl_psl old)" "psl_at tab idx \<noteq> 0" "psl_at tab idx \<le> 254"
    using Suc.prems(13) by (auto simp: psl_at_def old_def)
  have nx: "and (idx mod ?n + 1) (2 ^ b - 1) = (idx + 1) mod ?n" by (rule step_idx [OF Suc.prems(2)])
  have ahead: "psl_at tab (idx + 1 + d) = 0" "\<forall>x < d. psl_at tab (idx + 1 + x) \<noteq> 0 \<and> psl_at tab (idx + 1 + x) \<le> 254"
    using Suc.prems(12,13) by (auto simp: ac_simps)
  have prev: "idx + 1 + ?n - 1 = idx + ?n" by simp
  have pidx: "psl_at t (idx + length t) = psl_at t idx" for t :: "'a slot list" by (rule psl_at_cong) simp
  have old0: "sl_psl old \<noteq> 0" using K by (auto simp: unat_eq_0)
  show ?case
  proof (cases "psl > psl_at tab idx")
    case True
    define tab1 where "tab1 = tab[idx mod ?n := ?s]"
    have P: "unat (sl_psl ?s) = psl" using unat_psl Suc.prems(7) by simp
    have s0: "sl_psl ?s \<noteq> 0" using P Suc.prems(6) by (auto simp: unat_eq_0 [symmetric])
    have "psl_at tab (idx + 1) \<le> psl_at tab idx + 1" using Suc.prems(3) unfolding chain_def by blast
    then have ch: "chain tab1" unfolding tab1_def
      using chain_update [OF Suc.prems(3,1), of ?s idx] P True Suc.prems(8) by simp
    have hm: "\<forall>i. homed home tab1 i" unfolding tab1_def
      by (intro allI homed_update [OF Suc.prems(4) n0]) (use P Suc.prems(9) in simp)
    have e: "ents tab1 + {#(sl_key old, sl_data old)#} = ents tab + {#(key, data)#}"
      using ents_update [OF l, of ?s] old0 s0 by (simp add: ent_def tab1_def old_def)
    have at1: "psl_at tab1 j = (if j mod ?n = idx mod ?n then psl else psl_at tab j)" for j
      unfolding tab1_def psl_at_update [OF n0] P ..
    have diff: "(idx + 1 + x) mod ?n \<noteq> idx mod ?n" if "x < Suc d" for x
    proof
      assume "(idx + 1 + x) mod ?n = idx mod ?n"
      then have "?n dvd 1 + x" using mod_eq_dvd_iff_nat [of idx "idx + 1 + x" ?n] by simp
      then show False using that Suc.prems(11) by (auto dest!: dvd_imp_le)
    qed
    have "homed home tab idx" using Suc.prems(4) by blast
    then have "(home (sl_key old) + (psl_at tab idx - 1)) mod ?n = idx mod ?n"
      using K(2) unfolding homed_def key_at_def old_def by blast
    then have "(home (sl_key old) + (psl_at tab idx - 1) + 1) mod ?n = (idx + 1) mod ?n" by (metis mod_add_left_eq)
    moreover have "home (sl_key old) + (psl_at tab idx - 1) + 1 = home (sl_key old) + psl_at tab idx" using K(2) by simp
    ultimately have hk: "(home (sl_key old) + (psl_at tab idx + 1 - 1)) mod length tab1 = (idx + 1) mod length tab1"
      by (simp add: tab1_def)
    have "\<exists>tab' i. map_insert_loop f (2 ^ b - 1) tab1 ((idx + 1) mod length tab1) (sl_key old) (sl_data old) (psl_at tab idx + 1) = Ok (tab', Some i) \<and>
      i < length tab1 \<and> length tab' = length tab1 \<and> chain tab' \<and> (\<forall>i. homed home tab' i) \<and> ents tab' = ents tab1 + {#(sl_key old, sl_data old)#}"
    proof (rule Suc.IH)
      show "1 < length tab1" "length tab1 = 2 ^ b" "chain tab1" "\<forall>i. homed home tab1 i"
        using Suc.prems ch hm by (simp_all add: tab1_def)
      show "once (ents tab1 + {#(sl_key old, sl_data old)#})" using e Suc.prems(5) by simp
      show "psl_at tab idx + 1 \<le> psl_at tab1 (idx + 1 + length tab1 - 1) + 1"
        using pidx [of tab1] at1 [of idx] True by simp
      show "(home (sl_key old) + (psl_at tab idx + 1 - 1)) mod length tab1 = (idx + 1) mod length tab1" by (rule hk)
      show "psl_at tab1 (idx + 1 + d) = 0" using ahead(1) at1 diff by simp
      show "\<forall>x < d. psl_at tab1 (idx + 1 + x) \<noteq> 0 \<and> psl_at tab1 (idx + 1 + x) \<le> 254" using ahead(2) at1 diff by simp
    qed (use K Suc.prems f in \<open>simp_all add: tab1_def\<close>)
    then show ?thesis using f l K True nx e
      by (simp add: old_def [symmetric] map_set_entry_def tab1_def [symmetric]) (simp add: tab1_def)
  next
    case False
    have ne: "sl_key old \<noteq> key"
    proof
      assume k: "sl_key old = key"
      have "(key, sl_data old) \<in># ents tab" unfolding in_ents using l old0 k by (auto simp: old_def)
      then have "count (image_mset fst (ents tab + {#(key, data)#})) key \<ge> 2" by (auto dest!: multi_member_split)
      moreover have "count (image_mset fst (ents tab + {#(key, data)#})) key \<le> 1" using Suc.prems(5) unfolding once_def by blast
      ultimately show False by linarith
    qed
    have "(home key + (psl - 1) + 1) mod ?n = (idx + 1) mod ?n" using Suc.prems(9) by (metis mod_add_left_eq)
    then have hk: "(home key + (psl + 1 - 1)) mod ?n = (idx + 1) mod ?n" using Suc.prems(6) by simp
    have "\<exists>tab' i. map_insert_loop f (2 ^ b - 1) tab ((idx + 1) mod ?n) key data (psl + 1) = Ok (tab', Some i) \<and>
      i < ?n \<and> length tab' = ?n \<and> chain tab' \<and> (\<forall>i. homed home tab' i) \<and> ents tab' = ents tab + {#(key, data)#}"
      by (rule Suc.IH) (use Suc.prems ahead False pidx [of tab] K f hk in simp_all)
    then show ?thesis using f l K False nx ne by (simp add: old_def [symmetric])
  qed
qed

section \<open>Removal\<close>

lemma mod_Suc_cancel: "(a + 1) mod n = (b + 1) mod n \<Longrightarrow> a mod n = b mod n" for a b n :: nat
proof (induction a b rule: linorder_wlog)
  case (le a b)
  then have "n dvd b - a" using mod_eq_dvd_iff_nat [of "a + 1" "b + 1" n] by simp
  then show ?case using le(1) by (metis mod_eq_dvd_iff_nat)
qed simp

text \<open>
  The loop that moves entries back: the slot \<open>dest\<close> is to be freed, and the Robin Hood property holds with
  its old probe length. \<open>d\<close> is the distance to the first free slot behind it.
\<close>

lemma shift_back_ok:
  assumes "1 < length tab" "length tab = 2 ^ b" "chain tab" "dest < length tab" "psl_at tab dest \<noteq> 0"
    and "\<forall>i. i mod length tab \<noteq> dest \<longrightarrow> homed home tab i"
    and "d < fuel" "d + 1 < length tab" "psl_at tab (dest + 1 + d) = 0" "\<forall>x < d. psl_at tab (dest + 1 + x) \<noteq> 0"
  shows "\<exists>tab'. map_shift_back fuel (2 ^ b - 1) tab dest = Ok tab' \<and> length tab' = length tab \<and> chain tab' \<and>
    (\<forall>i. homed home tab' i) \<and> ents tab' + {#(sl_key (tab ! dest), sl_data (tab ! dest))#} = ents tab"
  using assms
proof (induction d arbitrary: tab dest fuel)
  case (0 tab dest fuel)
  note P = "0.prems"
  let ?n = "length tab" and ?s = "(tab ! dest)\<lparr>sl_psl := 0\<rparr>"
  obtain f where f: "fuel = Suc f" using P(7) by (cases fuel) auto
  have n0: "0 < ?n" using P(1) by auto
  have dm: "dest mod ?n = dest" using P(4) by simp
  have nx: "and (dest + 1) (2 ^ b - 1) = (dest + 1) mod ?n" using step_idx [OF P(2), of dest] dm by simp
  have ch: "chain (tab[dest := ?s])" using chain_update [OF P(3,1), of ?s dest] P(9) dm by simp
  have hm: "homed home (tab[dest := ?s]) i" for i
    using P(6) psl_at_update [OF n0, of dest ?s i] key_at_update [OF n0, of dest ?s i] dm by (auto simp: homed_def)
  have "sl_psl (tab ! dest) \<noteq> 0" using P(5) dm by (auto simp: psl_at_def unat_eq_0)
  then have "ents (tab[dest := ?s]) + {#(sl_key (tab ! dest), sl_data (tab ! dest))#} = ents tab"
    using ents_update [OF P(4), of ?s] by (simp add: ent_def)
  moreover have "(dest + 1) mod ?n < ?n" using n0 by simp
  ultimately show ?case using f nx ch hm P(9) by (auto simp: psl_at_def Let_def)
next
  case (Suc d tab dest fuel)
  note P = Suc.prems
  let ?n = "length tab" and ?i = "(dest + 1) mod length tab"
  obtain f where f: "fuel = Suc f" using P(7) by (cases fuel) auto
  have n0: "0 < ?n" using P(1) by auto
  have il: "?i < ?n" using n0 by simp
  have dm: "dest mod ?n = dest" using P(4) by simp
  have ine: "?i \<noteq> dest"
  proof
    assume "?i = dest"
    then have "?n dvd 1" using mod_eq_dvd_iff_nat [of dest "dest + 1" ?n] dm by simp
    then show False using P(1) by simp
  qed
  have nx: "and (dest + 1) (2 ^ b - 1) = ?i" using step_idx [OF P(2), of dest] dm by simp
  define q where "q = psl_at tab (dest + 1)"
  have q: "q = unat (sl_psl (tab ! ?i))" "q \<noteq> 0" "q \<le> psl_at tab dest + 1"
    using P(3,10) by (auto simp: q_def psl_at_def chain_def)
  have q255: "q \<le> 255" using unsigned_less [of "sl_psl (tab ! ?i)", where ?'a = nat] q(1) by simp
  have ahead: "psl_at tab (?i + 1 + d) = 0" "\<forall>x < d. psl_at tab (?i + 1 + x) \<noteq> 0"
  proof -
    have "psl_at tab (?i + 1 + x) = psl_at tab (dest + 1 + Suc x)" for x 
      using mod_add_left_eq [of "dest + 1" ?n "1 + x"] by (intro psl_at_cong) (simp add: ac_simps)
    moreover have "psl_at tab (dest + 1 + Suc x) \<noteq> 0" if "x < d" for x using P(10) that by blast
    ultimately show "psl_at tab (?i + 1 + d) = 0" "\<forall>x < d. psl_at tab (?i + 1 + x) \<noteq> 0" using P(9) by simp_all
  qed
  show ?case
  proof (cases "q \<le> 1")
    case True
    let ?s = "(tab ! dest)\<lparr>sl_psl := 0\<rparr>"
    have ch: "chain (tab[dest := ?s])" using chain_update [OF P(3,1), of ?s dest] True dm by (simp add: q_def)
    have hm: "homed home (tab[dest := ?s]) i" for i
      using P(6) psl_at_update [OF n0, of dest ?s i] key_at_update [OF n0, of dest ?s i] dm by (auto simp: homed_def)
    have "sl_psl (tab ! dest) \<noteq> 0" using P(5) dm by (auto simp: psl_at_def unat_eq_0)
    then have "ents (tab[dest := ?s]) + {#(sl_key (tab ! dest), sl_data (tab ! dest))#} = ents tab"
      using ents_update [OF P(4), of ?s] by (simp add: ent_def)
    then show ?thesis using f nx ch hm True q il by (auto simp: Let_def)
  next
    case False
    let ?s = "\<lparr>sl_key = sl_key (tab ! ?i), sl_data = sl_data (tab ! ?i), sl_psl = word_of_nat (q - 1) :: u8\<rparr>"
    define tab1 where "tab1 = tab[dest := ?s]"
    have len1: "length tab1 = ?n" by (simp add: tab1_def)
    have S: "unat (sl_psl ?s) = q - 1" using unat_psl q255 by simp
    have s0: "sl_psl ?s \<noteq> 0" using S False by (auto simp: unat_eq_0 [symmetric])
    have at1: "psl_at tab1 j = (if j mod ?n = dest then q - 1 else psl_at tab j)" for j
      using psl_at_update [OF n0, of dest ?s j] S dm by (simp add: tab1_def)
    have key1: "key_at tab1 j = (if j mod ?n = dest then sl_key (tab ! ?i) else key_at tab j)" for j
      using key_at_update [OF n0, of dest ?s j] dm by (simp add: tab1_def)
    have "psl_at tab (dest + ?n - 1 + 1) \<le> psl_at tab (dest + ?n - 1) + 1" using P(3) unfolding chain_def by blast
    moreover have "psl_at tab (dest + ?n - 1 + 1) = psl_at tab dest" using n0 by (intro psl_at_cong) simp
    ultimately have ch: "chain tab1" unfolding tab1_def
      using chain_update [OF P(3,1), of ?s dest] S dm q(3) False by (simp add: q_def)
    have hm: "homed home tab1 i" if "i mod length tab1 \<noteq> ?i" for i
    proof (cases "i mod ?n = dest")
      case True
      have "homed home tab ?i" using P(6) ine by simp
      then have "(home (sl_key (tab ! ?i)) + (q - 1)) mod ?n = ?i" using q il by (simp add: homed_def q_def key_at_def psl_at_def)
      then have "(home (sl_key (tab ! ?i)) + (q - 2) + 1) mod ?n = (dest + 1) mod ?n" using False by (simp add: Suc_diff_Suc numeral_2_eq_2)
      then have "(home (sl_key (tab ! ?i)) + (q - 2)) mod ?n = dest mod ?n" by (rule mod_Suc_cancel)
      then show ?thesis using True dm by (simp add: homed_def at1 key1 len1 numeral_2_eq_2)
    next
      case F: False
      then have "homed home tab i" using P(6) by simp
      then show ?thesis using F by (simp add: homed_def at1 key1 len1)
    qed
    have e: "ents tab1 + {#(sl_key (tab ! dest), sl_data (tab ! dest))#} = ents tab + {#(sl_key (tab1 ! ?i), sl_data (tab1 ! ?i))#}"
    proof -
      have "sl_psl (tab ! dest) \<noteq> 0" using P(5) dm by (auto simp: psl_at_def unat_eq_0)
      then show ?thesis using ents_update [OF P(4), of ?s] s0 ine by (simp add: ent_def tab1_def)
    qed
    have diff: "(?i + 1 + x) mod ?n \<noteq> dest" if "x \<le> d" for x
    proof
      assume a: "(?i + 1 + x) mod ?n = dest"
      have "(?i + 1 + x) mod ?n = (dest + (2 + x)) mod ?n" using mod_add_left_eq [of "dest + 1" ?n "1 + x"] by (simp add: ac_simps)
      then have "?n dvd 2 + x" using a dm mod_eq_dvd_iff_nat [of dest "dest + (2 + x)" ?n] by simp
      then show False using that P(8) by (auto dest!: dvd_imp_le)
    qed
    have "\<exists>tab'. map_shift_back f (2 ^ b - 1) tab1 ?i = Ok tab' \<and> length tab' = length tab1 \<and> chain tab' \<and>
      (\<forall>i. homed home tab' i) \<and> ents tab' + {#(sl_key (tab1 ! ?i), sl_data (tab1 ! ?i))#} = ents tab1"
    proof (rule Suc.IH)
      show "1 < length tab1" "length tab1 = 2 ^ b" "?i < length tab1" using P(1,2) il by (simp_all add: tab1_def)
      show "chain tab1" by (rule ch)
      show "psl_at tab1 ?i \<noteq> 0" using at1 [of ?i] ine q by (simp add: q_def)
      show "\<forall>i. i mod length tab1 \<noteq> ?i \<longrightarrow> homed home tab1 i" using hm by blast
      show "d < f" "d + 1 < length tab1" using P(7,8) f by (simp_all add: tab1_def)
      show "psl_at tab1 (?i + 1 + d) = 0" using ahead(1) at1 diff by simp
      show "\<forall>x < d. psl_at tab1 (?i + 1 + x) \<noteq> 0" using ahead(2) at1 diff by simp
    qed
    then obtain tab' where r: "map_shift_back f (2 ^ b - 1) tab1 ?i = Ok tab'" "length tab' = length tab1" "chain tab'"
      "\<forall>i. homed home tab' i" "ents tab' + {#(sl_key (tab1 ! ?i), sl_data (tab1 ! ?i))#} = ents tab1" by blast
    have "map_shift_back fuel (2 ^ b - 1) tab dest = map_shift_back f (2 ^ b - 1) tab1 ?i"
      using f nx il False q(1) by (simp add: Let_def map_set_entry_def tab1_def)
    moreover have "ents tab' + {#(sl_key (tab ! dest), sl_data (tab ! dest))#} = ents tab"
      using e unfolding r(5) [symmetric] by (simp add: add_mset_commute)
    ultimately show ?thesis using r by (auto simp: tab1_def)
  qed
qed

end
