(* ===== verification/Hashmap_Correct.thy ===== *)
theory Hashmap_Correct
  imports Hashmap_Table
begin

text \<open>
  The operations of the hash map implement a partial function from keys to data, \<open>map_abs\<close>, for maps of
  less than 255 entries; behind that, the 8 bits of a probe length can overflow and an entry be lost.
\<close>

section \<open>The map\<close>

definition map_ok :: "'d ngtcp2_map \<Rightarrow> bool" where
  "map_ok m =
     ((if mp_hashbits m = 0 then mp_tab m = [] else mp_hashbits m \<le> 63 \<and> tab_ok (map_index m) (mp_hashbits m) (mp_tab m)) \<and>
      mp_size m = size (ents (mp_tab m)) \<and> (\<forall>e \<in># ents (mp_tab m). snd e \<noteq> None))"

lemma map_init_ok: "map_ok (ngtcp2_map_init seed) \<and> map_abs (ngtcp2_map_init seed) = Map.empty"
  by (auto simp: map_ok_def ngtcp2_map_init_def ents_Nil map_abs_def occupied_def)

lemma index_less: "0 < mp_hashbits m \<Longrightarrow> mp_hashbits m \<le> 63 \<Longrightarrow> map_index m k < 2 ^ mp_hashbits m"
proof -
  assume h: "0 < mp_hashbits m" "mp_hashbits m \<le> 63"
  define x where "x = (k + mp_seed m) * NGTCP2_MAP_HASHER * NGTCP2_MAP_FIBO"
  have "unat x < 2 ^ mp_hashbits m * 2 ^ (64 - mp_hashbits m)"
    using unsigned_less [of x, where ?'a = nat] h by (simp add: power_add [symmetric])
  then have "unat x div 2 ^ (64 - mp_hashbits m) < 2 ^ mp_hashbits m" by (simp add: less_mult_imp_div_less)
  then have "drop_bit (64 - mp_hashbits m) (unat x) < 2 ^ mp_hashbits m" by (simp only: drop_bit_eq_div)
  moreover have "take_bit LENGTH(64) (unat x) = unat x" using unsigned_less [of x, where ?'a = nat] by (intro take_bit_nat_eq_self) simp
  ultimately show ?thesis unfolding map_index_def x_def [symmetric] unsigned_drop_bit_eq by (simp only:)
qed

lemma map_abs_eq:
  assumes "once (ents (mp_tab m))"
  shows "(k, Some d) \<in># ents (mp_tab m) \<Longrightarrow> map_abs m k = Some d" "k \<notin># image_mset fst (ents (mp_tab m)) \<Longrightarrow> map_abs m k = None"
proof -
  show "(k, Some d) \<in># ents (mp_tab m) \<Longrightarrow> map_abs m k = Some d"
    using abs_ents [OF assms, of k "Some d"] by (simp add: map_abs_def)
  assume "k \<notin># image_mset fst (ents (mp_tab m))"
  then have "map_of (occupied (mp_tab m)) k = None" by (simp add: map_of_eq_None_iff ents_def)
  then show "map_abs m k = None" by (simp add: map_abs_def)
qed

lemma map_ok_once: "map_ok m \<Longrightarrow> once (ents (mp_tab m))"
  by (auto simp: map_ok_def tab_ok_def ents_Nil once_def split: if_splits)

lemma dom_map_abs: "map_ok m \<Longrightarrow> k \<in> dom (map_abs m) \<longleftrightarrow> k \<in># image_mset fst (ents (mp_tab m))"
proof -
  assume ok: "map_ok m"
  note o = map_ok_once [OF ok]
  show ?thesis
  proof (cases "k \<in># image_mset fst (ents (mp_tab m))")
    case True
    then obtain d where d: "(k, d) \<in># ents (mp_tab m)" by auto
    then obtain x where "d = Some x" using ok by (auto simp: map_ok_def)
    then have "map_abs m k = Some x" using map_abs_eq(1) [OF o] d by simp
    then show ?thesis using True by auto
  next
    case False
    then have "map_abs m k = None" by (rule map_abs_eq(2) [OF o])
    then show ?thesis using False by auto
  qed
qed

lemma index_home:
  assumes "map_ok m" "mp_hashbits m \<noteq> 0"
  shows "map_index m k mod length (mp_tab m) = map_index m k"
  using index_less [of m k] assms by (auto simp: map_ok_def tab_ok_def)

lemma find_ok:
  assumes ok: "map_ok m"
  shows "ngtcp2_map_find m k = Ok (map_abs m k)"
proof (cases "mp_size m = 0")
  case True
  then have "ents (mp_tab m) = {#}" using ok by (simp add: map_ok_def)
  then have "map_abs m k = None" using map_abs_eq(2) [OF map_ok_once [OF ok]] by simp
  then show ?thesis using True by (simp add: ngtcp2_map_find_def)
next
  case False
  then have h: "mp_hashbits m \<noteq> 0" using ok by (auto simp: map_ok_def ents_Nil split: if_splits)
  then have t: "tab_ok (map_index m) (mp_hashbits m) (mp_tab m)" using ok by (simp add: map_ok_def)
  note hm = index_home [OF ok h]
  show ?thesis
  proof (cases "\<exists>i < length (mp_tab m). psl_at (mp_tab m) i \<noteq> 0 \<and> key_at (mp_tab m) i = k")
    case True
    then obtain i where i: "i < length (mp_tab m)" "psl_at (mp_tab m) i \<noteq> 0" "key_at (mp_tab m) i = k" by blast
    then have e: "(k, sl_data (mp_tab m ! i)) \<in># ents (mp_tab m)" by (auto simp: in_ents_at)
    then obtain d where d: "sl_data (mp_tab m ! i) = Some d" using ok by (auto simp: map_ok_def)
    show ?thesis using find_hit [OF t i(1,2)] i(3) hm False d map_abs_eq(1) [OF map_ok_once [OF ok]] e
      by (simp add: ngtcp2_map_find_def)
  next
    case F: False
    then have "k \<notin># image_mset fst (ents (mp_tab m))" by (force simp: in_ents_at)
    then have "map_abs m k = None" by (rule map_abs_eq(2) [OF map_ok_once [OF ok]])
    moreover have "map_find_loop (length (mp_tab m)) (2 ^ mp_hashbits m - 1) (mp_tab m) (map_index m k) k 1 = Ok None"
      using find_miss [OF t _, of k "map_index m k"] F unfolding hm by blast
    ultimately show ?thesis using False by (simp add: ngtcp2_map_find_def)
  qed
qed







lemma once_sub: "once (M + N) \<Longrightarrow> once M"
  unfolding once_def by (auto intro: order_trans [OF le_add1])





lemma map_abs_insert:
  assumes o: "once (ents (mp_tab m'))" and e: "ents (mp_tab m') = ents (mp_tab m) + {#(k, Some d)#}"
  shows "map_abs m' = (map_abs m)(k \<mapsto> d)"
proof
  fix x
  have om: "once (ents (mp_tab m))" using o e once_sub by metis
  show "map_abs m' x = ((map_abs m)(k \<mapsto> d)) x"
  proof (cases "x = k")
    case True
    then show ?thesis using map_abs_eq(1) [OF o, of k d] e by simp
  next
    case False
    then have "map_of (occupied (mp_tab m')) x = Some y \<longleftrightarrow> map_of (occupied (mp_tab m)) x = Some y" for y
      using abs_ents [OF om, of x y] abs_ents [OF o, of x y] e by simp
    then have "map_of (occupied (mp_tab m')) x = map_of (occupied (mp_tab m)) x" by (metis option.exhaust)
    then show ?thesis using False by (simp add: map_abs_def)
  qed
qed






lemma remove_map_ok:
  assumes ok: "map_ok m"
  shows "\<exists>m'. ngtcp2_map_remove m k = Ok (m', if k \<in> dom (map_abs m) then None else Some NGTCP2_ERR_INVALID_ARGUMENT) \<and>
    map_ok m' \<and> map_abs m' = (map_abs m)(k := None) \<and>
    mp_size m' = (if k \<in> dom (map_abs m) then mp_size m - 1 else mp_size m)"
proof (cases "mp_hashbits m = 0")
  case True
  then have "mp_size m = 0" "map_abs m = Map.empty"
    using ok by (auto simp: map_ok_def ents_Nil map_abs_def occupied_def)
  then show ?thesis using ok by (auto simp: ngtcp2_map_remove_def)
next
  case h: False
  let ?tab = "mp_tab m" and ?n = "length (mp_tab m)" and ?b = "mp_hashbits m"
  have t: "tab_ok (map_index m) ?b ?tab" using ok h by (simp add: map_ok_def)
  have b: "0 < ?b" "?n = 2 ^ ?b" "chain ?tab" "\<forall>i. homed (map_index m) ?tab i" using t by (simp_all add: tab_ok_def)
  note hm = index_home [OF ok h] and o = map_ok_once [OF ok]
  show ?thesis
  proof (cases "k \<in> dom (map_abs m)")
    case False
    then have nk: "k \<notin># image_mset fst (ents ?tab)" using dom_map_abs [OF ok] by blast
    then have "\<forall>i < ?n. psl_at ?tab i \<noteq> 0 \<longrightarrow> key_at ?tab i \<noteq> k" unfolding key_in_ents by blast
    from find_miss [OF t this, of "map_index m k"]
    have "ngtcp2_map_remove m k = Ok (m, Some NGTCP2_ERR_INVALID_ARGUMENT)" unfolding hm by (simp add: ngtcp2_map_remove_def)
    moreover have "(map_abs m)(k := None) = map_abs m" using False by (auto simp: fun_upd_idem)
    ultimately show ?thesis using False ok by auto
  next
    case True
    then have "k \<in># image_mset fst (ents ?tab)" using dom_map_abs [OF ok] by blast
    then obtain i where i: "i < ?n" "psl_at ?tab i \<noteq> 0" "key_at ?tab i = k" by (auto simp: in_ents_at)
    have f: "map_find_loop ?n (2 ^ ?b - 1) ?tab (map_index m k) k 1 = Ok (Some i)"
      using find_hit [OF t i(1,2)] unfolding i(3) hm .
    obtain z where z: "z < ?n" "psl_at ?tab z = 0" using t by (auto simp: tab_ok_def)
    obtain d0 where d0: "d0 < ?n" "psl_at ?tab (i + 1 + d0) = 0" using free_ahead [OF z, of "i + 1"] by blast
    have "d0 \<noteq> ?n - 1"
    proof
      assume "d0 = ?n - 1"
      then have "i + 1 + d0 = i + ?n" using d0(1) by simp
      then have "psl_at ?tab (i + 1 + d0) = psl_at ?tab i" by (intro psl_at_cong) (simp only: mod_add_self2)
      then show False using d0(2) i(2) by simp
    qed
    define e where "e = (LEAST x. psl_at ?tab (i + 1 + x) = 0)"
    have e: "psl_at ?tab (i + 1 + e) = 0" "e \<le> d0" "\<forall>x < e. psl_at ?tab (i + 1 + x) \<noteq> 0"
      unfolding e_def using d0(2) by (auto intro: LeastI Least_le dest: not_less_Least)
    have el: "e + 1 < ?n" using e(2) d0(1) \<open>d0 \<noteq> ?n - 1\<close> by linarith
    obtain tab where r: "map_shift_back ?n (2 ^ ?b - 1) ?tab i = Ok tab" "length tab = ?n" "chain tab"
      "\<forall>j. homed (map_index m) tab j" "ents tab + {#(sl_key (?tab ! i), sl_data (?tab ! i))#} = ents ?tab"
      using shift_back_ok [OF tab_ok_pos [OF t] b(2,3) i(1,2) _ _ el e(1,3), of "map_index m" ?n] b(4) el by auto
    have ki: "sl_key (?tab ! i) = k" using i(1,3) by (simp add: key_at_def)
    have ot: "once (ents tab)" using once_sub [of "ents tab" "{#(sl_key (?tab ! i), sl_data (?tab ! i))#}"] r(5) o by simp
    have sz: "Suc (size (ents tab)) = size (ents ?tab)" using arg_cong [OF r(5), of size] by simp
    then have "size (ents tab) < length tab" using t free_iff [of ?tab] r(2) by (auto simp: tab_ok_def)
    then have "\<exists>j < length tab. psl_at tab j = 0" by (simp only: free_iff)
    then have tt: "tab_ok (map_index m) ?b tab" using r b ot by (simp add: tab_ok_def)
    let ?m = "m\<lparr>mp_tab := tab, mp_size := mp_size m - 1\<rparr>"
    have ix: "map_index ?m = map_index m" by (rule ext) (simp add: map_index_def)
    have sub: "ents tab \<subseteq># ents ?tab" using r(5) by (metis mset_subset_eq_add_left)
    have okm: "map_ok ?m" using ok h tt ix sz mset_subset_eqD [OF sub] by (auto simp: map_ok_def)
    have "(k, sl_data (?tab ! i)) \<in># ents ?tab" using i by (auto simp: in_ents_at)
    then obtain x where x: "sl_data (?tab ! i) = Some x" using ok by (auto simp: map_ok_def)
    have "map_abs m = (map_abs ?m)(k \<mapsto> x)" by (rule map_abs_insert) (use o r(5) ki x in simp_all)
    moreover have "map_abs ?m k = None"
    proof (rule map_abs_eq(2))
      show "once (ents (mp_tab ?m))" using ot by simp
      have "count (image_mset fst (ents ?tab)) k \<le> 1" using o unfolding once_def by blast
      then have "count (image_mset fst (ents tab)) k = 0" unfolding r(5) [symmetric] using ki by simp
      then show "k \<notin># image_mset fst (ents (mp_tab ?m))" by (simp only: not_in_iff) simp
    qed
    ultimately have "map_abs ?m = (map_abs m)(k := None)" by (auto simp: fun_eq_iff)
    moreover have "mp_size m \<noteq> 0" using sz ok by (auto simp: map_ok_def)
    ultimately show ?thesis using True f r(1) okm by (auto simp: ngtcp2_map_remove_def)
  qed
qed

lemma clear_ok: "map_ok m \<Longrightarrow> map_ok (ngtcp2_map_clear m) \<and> map_abs (ngtcp2_map_clear m) = Map.empty"
proof -
  assume ok: "map_ok m"
  let ?tab = "map (\<lambda>s. s\<lparr>sl_psl := 0\<rparr>) (mp_tab m)"
  have oc: "occupied ?tab = []" by (simp add: occupied_def filter_map o_def)
  show ?thesis
  proof (cases "mp_size m = 0")
    case True
    then have "occupied (mp_tab m) = []" using ok by (simp add: map_ok_def ents_def)
    then show ?thesis using True ok by (auto simp: ngtcp2_map_clear_def map_abs_def)
  next
    case False
    let ?m = "m\<lparr>mp_tab := ?tab, mp_size := 0\<rparr>"
    have h: "mp_hashbits m \<noteq> 0" using False ok by (auto simp: map_ok_def ents_Nil split: if_splits)
    then have t: "tab_ok (map_index m) (mp_hashbits m) (mp_tab m)" using ok by (simp add: map_ok_def)
    then have n0: "0 < length (mp_tab m)" using tab_ok_pos by fastforce
    have P: "psl_at ?tab i = 0" for i using n0 by (simp add: psl_at_def)
    have ix: "map_index ?m = map_index m" by (rule ext) (simp add: map_index_def)
    have e: "ents ?tab = {#}" using oc by (simp add: ents_def)
    have "chain ?tab" "\<forall>i. homed (map_index m) ?tab i" by (simp_all add: chain_def homed_def P)
    moreover have "\<exists>i < length ?tab. psl_at ?tab i = 0" using n0 P by (intro exI [of _ 0]) simp
    ultimately have "tab_ok (map_index m) (mp_hashbits m) ?tab" using t e by (simp add: tab_ok_def once_def)
    then have "map_ok ?m" using ok h ix e by (simp add: map_ok_def)
    then show ?thesis using False oc by (auto simp: ngtcp2_map_clear_def map_abs_def)
  qed
qed




text \<open>
  C34: \<open>ngtcp2_map_find\<close> returns what the map holds for a key, a null pointer for a key that it does not
  hold, and ends; \<open>ngtcp2_map_remove\<close> removes the key, or reports \<open>NGTCP2_ERR_INVALID_ARGUMENT\<close>, and keeps
  the invariant while it moves the entries behind it back.
\<close>

theorem map_find_remove:
  assumes "map_ok m"
  shows "ngtcp2_map_find m k = Ok (map_abs m k) \<and>
    (\<exists>m'. ngtcp2_map_remove m k = Ok (m', if map_abs m k = None then Some NGTCP2_ERR_INVALID_ARGUMENT else None) \<and>
      map_ok m' \<and> map_abs m' = (map_abs m)(k := None))"
proof -
  have "k \<in> dom (map_abs m) \<longleftrightarrow> map_abs m k \<noteq> None" by auto
  then show ?thesis using find_ok [OF assms] remove_map_ok [OF assms, of k] by (cases "map_abs m k") auto
qed

theorem map_find_remove_witness:
  "ngtcp2_map_find (ngtcp2_map_init 7 :: char list ngtcp2_map) 42 = Ok None"
proof -
  have i: "map_ok (ngtcp2_map_init 7 :: char list ngtcp2_map)" "map_abs (ngtcp2_map_init 7 :: char list ngtcp2_map) = Map.empty"
    using map_init_ok by blast+
  show ?thesis using map_find_remove [OF i(1), of 42] i(2) by simp
qed

section \<open>Where probe lengths overflow\<close>

text \<open>
  With 256 entries the 8 bits of \<open>psl\<close> can overflow: only the probe length of the slot that is filled last is
  compared with the threshold for a resize, not those of the entries that were moved on the way. \<open>full_map\<close>
  has 255 keys with the same hash in a row, and behind them a key that has been moved 127 slots.
\<close>

definition unhash :: u64 where
  "unhash = 0x38FDFB4DCD025319"

definition full_slot :: "nat \<Rightarrow> unit slot" where
  "full_slot i =
     (if i < 255 then \<lparr>sl_key = unhash * word_of_nat i, sl_data = Some (), sl_psl = word_of_nat (i + 1)\<rparr>
      else if i = 255 then \<lparr>sl_key = unhash * 0x4000000000000000, sl_data = Some (), sl_psl = 128\<rparr>
      else free_slot)"

definition full_map :: "unit ngtcp2_map" where
  "full_map = \<lparr>mp_tab = map full_slot [0 ..< 512], mp_seed = 0, mp_size = 256, mp_hashbits = 9\<rparr>"

lemma unhash_hash: "unhash * x * NGTCP2_MAP_HASHER * NGTCP2_MAP_FIBO = x"
proof -
  have "unhash * NGTCP2_MAP_HASHER * NGTCP2_MAP_FIBO = 1" unfolding unhash_def by simp
  then have "x * (unhash * NGTCP2_MAP_HASHER * NGTCP2_MAP_FIBO) = x" by (simp only: mult_1_right)
  then show ?thesis by (simp only: ac_simps)
qed

lemma unhash_inj: "unhash * x = unhash * y \<longleftrightarrow> x = y"
  using unhash_hash by metis

lemma index_unhash: "map_index full_map (unhash * x) = unat (drop_bit 55 x)"
  by (simp only: map_index_def full_map_def ngtcp2_map.simps unhash_hash add_0_right) simp

lemma full_psl: "psl_at (mp_tab full_map) i = (if i mod 512 < 255 then i mod 512 + 1 else if i mod 512 = 255 then 128 else 0)"
  using unat_psl [of "i mod 512 + 1"] by (simp add: psl_at_def full_map_def full_slot_def free_slot_def)


lemma full_occupied:
  "occupied (mp_tab full_map) = map (\<lambda>i. (unhash * word_of_nat i, Some ())) [0 ..< 255] @ [(unhash * 0x4000000000000000, Some ())]"
proof -
  have s: "[0 ..< 512] = [0 ..< 255] @ 255 # [256 ..< 512]"
    using upt_add_eq_append [of 0 255 257] upt_conv_Cons [of 255 512] by simp
  have a: "occupied (map full_slot xs) = map (\<lambda>i. (unhash * word_of_nat i, Some ())) xs" if "\<forall>i \<in> set xs. i < 255" for xs
    using that
  proof (induction xs)
    case (Cons i xs)
    have "unat (word_of_nat (i + 1) :: u8) = i + 1" using Cons.prems by (intro unat_psl) simp
    then have "(word_of_nat (i + 1) :: u8) \<noteq> 0" by (metis Suc_eq_plus1 nat.distinct(1) unat_0)
    then show ?case using Cons by (simp add: occupied_def full_slot_def)
  qed (simp add: occupied_def)
  have b: "occupied (map full_slot xs) = []" if "\<forall>i \<in> set xs. 255 < i" for xs
    using that by (induction xs) (simp_all add: occupied_def full_slot_def free_slot_def)
  have "occupied (xs @ ys) = occupied xs @ occupied ys" for xs ys :: "unit slot list" by (simp add: occupied_def)
  moreover have "occupied [full_slot 255] = [(unhash * 0x4000000000000000, Some ())]" by (simp add: occupied_def full_slot_def)
  moreover have "mp_tab full_map = map full_slot [0 ..< 255] @ [full_slot 255] @ map full_slot [256 ..< 512]"
    unfolding full_map_def s by (simp only: ngtcp2_map.simps map_append list.map append.simps)
  moreover have "occupied (map full_slot [0 ..< 255]) = map (\<lambda>i. (unhash * word_of_nat i, Some ())) [0 ..< 255]"
    "occupied (map full_slot [256 ..< 512]) = []"
    by (intro a b; simp only: set_upt Ball_def atLeastLessThan_iff; simp)+
  ultimately show ?thesis by (simp only: append_Nil2)
qed

lemma full_index: "i < 255 \<Longrightarrow> map_index full_map (unhash * word_of_nat i) = 0"
proof -
  assume i: "i < 255"
  have "unat (drop_bit 55 (word_of_nat i :: u64)) = 0"
    using i by (simp add: drop_bit_eq_div unat_div_distrib unsigned_of_nat take_bit_nat_eq_self)
  then show ?thesis unfolding index_unhash .
qed

lemma full_key:
  "i mod 512 < 255 \<Longrightarrow> key_at (mp_tab full_map) i = unhash * word_of_nat (i mod 512)"
  "i mod 512 = 255 \<Longrightarrow> key_at (mp_tab full_map) i = unhash * 0x4000000000000000"
  by (simp_all add: key_at_def full_map_def full_slot_def)

lemma full_len: "length (mp_tab full_map) = 512"
  by (simp add: full_map_def)

lemma once_iff: "once (ents tab) \<longleftrightarrow> distinct (map fst (occupied tab))"
proof
  assume "distinct (map fst (occupied tab))"
  then show "once (ents tab)" unfolding once_def ents_def mset_map [symmetric] distinct_count_atmost_1 by simp
qed (rule once_distinct)

lemma word_of_nat_inj: "i < 255 \<Longrightarrow> j < 255 \<Longrightarrow> (word_of_nat i :: u64) = word_of_nat j \<longleftrightarrow> i = j"
  by (simp add: word_of_nat_eq_iff take_bit_nat_eq_self)

lemma full_distinct: "distinct (map fst (occupied (mp_tab full_map)))"
proof -
  have "map fst (occupied (mp_tab full_map)) = map (\<lambda>i. unhash * word_of_nat i) [0 ..< 255] @ [unhash * 0x4000000000000000]"
    unfolding full_occupied map_append list.map map_map o_def fst_conv ..
  moreover have "distinct (map (\<lambda>i. unhash * word_of_nat i) [0 ..< 255])"
    unfolding distinct_map by (intro conjI distinct_upt inj_onI) (simp only: set_upt atLeastLessThan_iff unhash_inj word_of_nat_inj)
  moreover have "unhash * 0x4000000000000000 \<notin> set (map (\<lambda>i. unhash * word_of_nat i) [0 ..< 255])"
  proof
    assume "unhash * 0x4000000000000000 \<in> set (map (\<lambda>i. unhash * word_of_nat i) [0 ..< 255])"
    then obtain i where i: "i < 255" "(0x4000000000000000 :: u64) = word_of_nat i"
      by (simp only: set_map set_upt image_iff Bex_def atLeastLessThan_iff unhash_inj) blast
    have "unat (0x4000000000000000 :: u64) = i" unfolding i(2) using i(1) by (simp add: unsigned_of_nat take_bit_nat_eq_self)
    then show False using i(1) by simp
  qed
  ultimately show ?thesis by (simp only: distinct_append) simp
qed

lemma full_map_ok: "map_ok full_map"
proof -
  have c: "chain (mp_tab full_map)" unfolding chain_def
  proof
    fix i :: nat
    have "(i + 1) mod 512 = (if i mod 512 = 511 then 0 else i mod 512 + 1)" by (simp add: mod_Suc)
    then show "psl_at (mp_tab full_map) (i + 1) \<le> psl_at (mp_tab full_map) i + 1" unfolding full_psl by auto
  qed
  have h: "homed (map_index full_map) (mp_tab full_map) i" for i
  proof (cases "i mod 512 < 255")
    case True
    then show ?thesis unfolding homed_def full_len by (simp add: full_psl full_key(1) full_index)
  next
    case False
    have "unat (drop_bit 55 (0x4000000000000000 :: u64)) = 128" by (simp add: drop_bit_eq_div)
    then show ?thesis using False unfolding homed_def full_len
      by (cases "i mod 512 = 255") (simp_all add: full_psl full_key(2) index_unhash)
  qed
  have "\<exists>i < length (mp_tab full_map). psl_at (mp_tab full_map) i = 0"
    by (rule exI [of _ 300]) (simp add: full_len full_psl)
  moreover have "length (mp_tab full_map) = 2 ^ 9" by (simp add: full_len)
  moreover have "once (ents (mp_tab full_map))" using full_distinct by (simp add: once_iff)
  ultimately have t: "tab_ok (map_index full_map) 9 (mp_tab full_map)" using c h by (simp add: tab_ok_def)
  have "size (ents (mp_tab full_map)) = 256" unfolding ents_def size_mset full_occupied by (simp only: length_append length_map length_upt) simp
  moreover have "\<forall>e \<in># ents (mp_tab full_map). snd e \<noteq> None"
    unfolding ents_def set_mset_mset full_occupied by (simp only: set_append set_map) auto
  ultimately show ?thesis using t by (simp add: map_ok_def full_map_def)
qed


lemma full_pass:
  "j \<le> 255 \<Longrightarrow> map_insert_loop 512 511 (mp_tab full_map) 0 (unhash * 255) d 1 =
     map_insert_loop (512 - j) 511 (mp_tab full_map) j (unhash * 255) d (j + 1)"
proof (induction j)
  case (Suc j)
  have s: "mp_tab full_map ! j = full_slot j" using Suc.prems by (simp add: full_map_def)
  have p: "unat (sl_psl (full_slot j)) = j + 1" using Suc.prems unat_psl [of "j + 1"] by (simp add: full_slot_def)
  have k: "sl_key (full_slot j) \<noteq> unhash * 255"
  proof
    assume "sl_key (full_slot j) = unhash * 255"
    then have "(word_of_nat j :: u64) = 255" using Suc.prems by (simp add: full_slot_def unhash_inj)
    then have "unat (word_of_nat j :: u64) = 255" by simp
    then show False using Suc.prems by (simp add: unsigned_of_nat take_bit_nat_eq_self)
  qed
  have n: "and (j + 1) 511 = j + 1" using and_hashmask [of "j + 1" 9] Suc.prems by simp
  have f: "512 - j = Suc (512 - Suc j)" using Suc.prems by simp
  have "map_insert_loop (512 - j) 511 (mp_tab full_map) j (unhash * 255) d (j + 1) =
    map_insert_loop (512 - Suc j) 511 (mp_tab full_map) (Suc j) (unhash * 255) d (Suc j + 1)"
    unfolding f map_insert_loop.simps(2) s Let_def p using k n Suc.prems by (simp add: full_len)
  then show ?case using Suc by simp
qed simp

text \<open>
  C40: The limit is real: \<open>map_insert\<close> of a 256th key with the same hash into a well-formed table reports
  success, but the key is not in the table afterwards, since its probe length 256 is stored as zero.
\<close>

theorem map_psl_overflow:
  "map_ok full_map \<and> unhash * 255 \<notin> dom (map_abs full_map) \<and>
   (\<exists>m. map_insert full_map (unhash * 255) (Some ()) = Ok (m, Some 256) \<and> map_abs m (unhash * 255) = None)"
proof -
  let ?k = "unhash * 255" and ?t = "mp_tab full_map"
  let ?y = "unhash * 0x4000000000000000" and ?t1 = "map_set_entry (mp_tab full_map) 255 (unhash * 255) (Some ()) 256"
  define t2 where "t2 = map_set_entry ?t1 256 ?y (Some ()) 129"
  have nk: "?k \<notin> fst ` set (occupied ?t)"
  proof
    assume "?k \<in> fst ` set (occupied ?t)"
    then have "?k \<in> set (map (\<lambda>i. unhash * word_of_nat i) [0 ..< 255]) \<or> ?k = ?y"
      unfolding full_occupied set_append image_Un set_map image_image fst_conv by auto
    then have "(\<exists>i < 255. (255 :: u64) = word_of_nat i) \<or> (255 :: u64) = 0x4000000000000000"
      by (simp only: set_map set_upt image_iff Bex_def atLeastLessThan_iff unhash_inj) blast
    then obtain i where i: "i < 255" "(255 :: u64) = word_of_nat i" by auto
    have "unat (255 :: u64) = i" unfolding i(2) using i(1) by (simp add: unsigned_of_nat take_bit_nat_eq_self)
    then show False using i(1) by simp
  qed
  then have a: "map_abs full_map ?k = None" by (simp add: map_abs_def map_of_eq_None_iff [THEN iffD2])
  have s: "?t ! 255 = full_slot 255" "?t ! 256 = free_slot" by (simp_all add: full_map_def full_slot_def)
  have n: "and (255 + 1) 511 = (256 :: nat)" using and_hashmask [of 256 9] by simp
  have "map_insert_loop (Suc (Suc 255)) 511 ?t 255 ?k (Some ()) (255 + 1) = Ok (t2, Some 256)"
    unfolding map_insert_loop.simps(2) s n Let_def
    by (simp add: full_len full_slot_def free_slot_def map_set_entry_def t2_def nth_list_update s)
  then have l: "map_insert_loop 512 511 ?t 0 ?k (Some ()) 1 = Ok (t2, Some 256)" using full_pass [of 255 "Some ()"] by simp
  have ix: "map_index full_map ?k = 0" unfolding index_unhash by (simp add: drop_bit_eq_div)
  let ?m = "full_map\<lparr>mp_tab := t2, mp_size := mp_size full_map + 1\<rparr>"
  have "mp_hashbits full_map = 9" by (simp add: full_map_def)
  then have r: "map_insert full_map ?k (Some ()) = Ok (?m, Some 256)" unfolding map_insert_def ix full_len using l by simp
  have "?k \<notin> fst ` set (occupied t2)"
  proof
    assume "?k \<in> fst ` set (occupied t2)"
    then obtain d where "(?k, d) \<in># ents t2" by (auto simp: ents_def)
    then obtain i where i: "i < 512" "sl_psl (t2 ! i) \<noteq> 0" "sl_key (t2 ! i) = ?k"
      unfolding in_ents by (auto simp: t2_def map_set_entry_def full_len)
    have "i \<noteq> 255" using i(2) by (auto simp: t2_def map_set_entry_def full_len nth_list_update)
    moreover have "i \<noteq> 256" using i(3) by (auto simp: t2_def map_set_entry_def full_len nth_list_update unhash_inj)
    ultimately have "sl_psl (?t ! i) \<noteq> 0" "sl_key (?t ! i) = ?k" using i by (auto simp: t2_def map_set_entry_def nth_list_update)
    then have "(?k, sl_data (?t ! i)) \<in># ents ?t" unfolding in_ents using i(1) full_len by auto
    then show False using nk by (force simp: ents_def)
  qed
  then have "map_abs ?m ?k = None" by (simp add: map_abs_def map_of_eq_None_iff [THEN iffD2])
  then show ?thesis using full_map_ok a r by blast
qed

end
