(* ===== verification/Ksl_Data.thy ===== *)
theory Ksl_Data
  imports Ksl_Correct
begin

text \<open>
  Stores through a pointer that \<open>ngtcp2_ksl_it_get\<close> has returned: the clients of the map keep pointers to
  structures in it and change them in place. The keys, the shape of the tree and every iterator stay.
\<close>

definition ksl_it_store :: "('k, 'v) ngtcp2_ksl \<Rightarrow> ksl_it \<Rightarrow> 'v \<Rightarrow> ('k, 'v) ngtcp2_ksl" where
  "ksl_it_store ksl it d =
     (case ksl_root ksl of None \<Rightarrow> ksl
      | Some b \<Rightarrow>
          let es = leaves b ! fst it in
          ksl\<lparr>ksl_root := Some (leaf_update b (fst it) (es[snd it := (fst (es ! snd it), d)]))\<rparr>)"

lemma map_fst_update: "map fst (es[i := (fst (es ! i), d)]) = map fst es"
  by (metis fst_conv list_update_beyond list_update_id map_update not_less nth_map)

lemma it_pos_same_lengths: "map length ls' = map length ls \<Longrightarrow> it_pos ls' it p \<longleftrightarrow> it_pos ls it p"
proof -
  assume h: "map length ls' = map length ls"
  have l: "length ls' = length ls" using h by (metis length_map)
  moreover have "length (ls' ! i) = length (ls ! i)" if "i < length ls" for i using h l that by (metis nth_map)
  moreover have "length (concat (take i ls')) = length (concat (take i ls))" for i
    using arg_cong [OF h, of "\<lambda>xs. sum_list (take i xs)"] by (simp add: length_concat take_map)
  ultimately show ?thesis by (auto simp: it_pos_def)
qed

lemma it_std_lengths: "map length ls' = map length ls \<Longrightarrow> it_std ls' it p \<longleftrightarrow> it_std ls it p"
proof -
  assume h: "map length ls' = map length ls"
  have l: "length ls' = length ls" using h by (metis length_map)
  have "length (ls' ! i) = length (ls ! i)" if "i < length ls" for i using h l that by (metis nth_map)
  then show ?thesis using it_pos_same_lengths [OF h] l by (auto simp: it_std_def it_pos_def)
qed

lemma concat_store:
  assumes "l < length ls" "i < length (ls ! l)"
  shows "concat (ls[l := (ls ! l)[i := x]]) = (concat ls)[length (concat (take l ls)) + i := x]"
proof -
  have "concat ls = concat (take l ls) @ ls ! l @ concat (drop (Suc l) ls)"
    using id_take_nth_drop [OF assms(1)] by (metis concat.simps(2) concat_append)
  moreover have "concat (ls[l := (ls ! l)[i := x]]) = concat (take l ls) @ (ls ! l)[i := x] @ concat (drop (Suc l) ls)"
    using assms(1) by (simp add: upd_conv_take_nth_drop)
  ultimately show ?thesis using assms(2) by (simp add: list_update_append)
qed

context ksl_order
begin

lemma it_store_ok:
  assumes ok: "ksl_ok lt ksl" and it: "ksl_it_at ksl it p" "p < length (ksl_elems ksl)"
  shows "ksl_ok lt (ksl_it_store ksl it d)" "ksl_elems (ksl_it_store ksl it d) = (ksl_elems ksl)[p := (fst (ksl_elems ksl ! p), d)]"
    "ksl_keys (ksl_it_store ksl it d) \<subseteq> ksl_keys ksl" "ksl_it_at (ksl_it_store ksl it d) it' q \<longleftrightarrow> ksl_it_at ksl it' q"
proof -
  obtain root where root: "ksl_root ksl = Some root" using it(2) by (cases "ksl_root ksl") (auto simp: ksl_elems_def)
  have rt: "blk_ok lt (blk_height root) root" "root_ok root" and n: "ksl_n ksl = length (elems root)" and ns: "\<not> ksl_stale ksl"
    and e: "ksl_elems ksl = elems root" and K: "ksl_keys ksl = kset root"
    using ok root by (auto simp: ksl_ok_def ksl_elems_def ksl_keys_def)
  have at: "it_at (leaves root) it p" using it root e by (simp add: ksl_it_at_def it_std_at)
  define es where "es = leaves root ! fst it"
  define es' where "es' = es[snd it := (fst (es ! snd it), d)]"
  define b where "b = leaf_update root (fst it) es'"
  have h: "fst it < length (leaves root)" "snd it < length es" "length (concat (take (fst it) (leaves root))) + snd it = p"
    using at by (auto simp: it_at_def es_def)
  have in_ls: "es \<in> set (leaves root)" using h(1) unfolding es_def by simp
  have ks: "map fst es' = map fst es" unfolding es'_def by (rule map_fst_update)
  have "sorted_wrt lt (map fst es)" by (rule leaf_sorted [OF _ in_ls]) (use elems_sorted [OF rt(1)] in simp)
  moreover have "fst ` set es' = fst ` set es" using arg_cong [OF ks, of set] by simp
  moreover have "length es' \<le> 32" "blk_height root = 0 \<or> 16 \<le> length es'"
    using leaf_bounds [OF rt(1) in_ls] by (simp_all add: es'_def)
  ultimately have b: "blk_ok lt (blk_height root) b" "leaves b = (leaves root)[fst it := es']" "kset b \<subseteq> kset root"
    using leaf_update_ok [OF rt(1) h(1), of es'] ks unfolding b_def es_def by simp_all
  have len: "map length (leaves b) = map length (leaves root)"
    unfolding b(2) map_update using h(1) by (simp add: es'_def es_def) (metis length_map list_update_id nth_map)
  have el: "elems b = (elems root)[p := (fst (elems root ! p), d)]"
    using concat_store [OF h(1), of "snd it" "(fst (es ! snd it), d)"] h it_at_entry [OF at]
    unfolding elems_def b(2) es'_def es_def by simp
  have rb: "root_ok b" using rt(2) leaf_update_n [of _ "fst it" es'] unfolding b_def by (cases root) auto
  have s: "ksl_it_store ksl it d = ksl\<lparr>ksl_root := Some b\<rparr>"
    using root by (simp add: ksl_it_store_def b_def es'_def es_def Let_def)
  show "ksl_ok lt (ksl_it_store ksl it d)" unfolding s
    by (intro ksl_okI) (use n ns b rb el in \<open>auto simp: ksl_elems_def\<close>)
  show "ksl_elems (ksl_it_store ksl it d) = (ksl_elems ksl)[p := (fst (ksl_elems ksl ! p), d)]"
    unfolding s using el e by (simp add: ksl_elems_def)
  show "ksl_keys (ksl_it_store ksl it d) \<subseteq> ksl_keys ksl" unfolding s using b(3) K by (simp add: ksl_keys_def)
  show "ksl_it_at (ksl_it_store ksl it d) it' q \<longleftrightarrow> ksl_it_at ksl it' q"
    unfolding s using it_std_lengths [OF len] root by (simp add: ksl_it_at_def)
qed

end

end
