(* ===== verification/Acktr.thy ===== *)
theory Acktr
  imports Ksl_Data Ringbuf Pkt_Num Gaptr
begin

text \<open>
  \<open>lib/ngtcp2_acktr.c\<close>: the packet numbers that have been received and are to be acknowledged, as ranges in a
  map ordered by the largest packet number of the range, descending; and a ring buffer of the ACK frames
  that have been sent. \<open>int64_t\<close> arithmetic is on integers with \<open>ck64\<close>; the length of a range is a
  natural number. The pool the entries are allocated from answers like the allocator of the map.
\<close>

section \<open>Structures\<close>

record ngtcp2_acktr_entry =
  ae_pkt_num :: i64
  ae_len :: nat
  ae_tstamp :: u64

record ngtcp2_acktr_ack_entry =
  aa_largest_ack :: i64
  aa_pkt_num :: i64

record ngtcp2_acktr =
  at_acks :: "ngtcp2_acktr_ack_entry ngtcp2_ringbuf"
  at_ents :: "(i64, ngtcp2_acktr_entry) ngtcp2_ksl"
  at_first_unacked_ts :: u64
  at_rx_npkt :: nat
  at_max_pkt_num :: i64
  at_max_pkt_ts :: u64
  at_ect0 :: u64
  at_ect1 :: u64
  at_ce :: u64
  at_flags :: u16

abbreviation (input) "NGTCP2_ACKTR_MAX_ENT \<equiv> 33 :: nat"
abbreviation (input) NGTCP2_ACKTR_FLAG_IMMEDIATE_ACK :: u16 where "NGTCP2_ACKTR_FLAG_IMMEDIATE_ACK \<equiv> 0x01"
abbreviation (input) NGTCP2_ACKTR_FLAG_ACTIVE_ACK :: u16 where "NGTCP2_ACKTR_FLAG_ACTIVE_ACK \<equiv> 0x02"
abbreviation (input) NGTCP2_ACKTR_FLAG_CANCEL_TIMER :: u16 where "NGTCP2_ACKTR_FLAG_CANCEL_TIMER \<equiv> 0x0100"
abbreviation (input) "i64_greater \<equiv> ngtcp2_ksl_int64_greater"

definition ngtcp2_tstamp_elapsed :: "u64 \<Rightarrow> u64 \<Rightarrow> u64 \<Rightarrow> bool" where
  "ngtcp2_tstamp_elapsed base d ts = (base \<noteq> UINT64_MAX \<and> base < UINT64_MAX - d \<and> base + d \<le> ts)"

definition acktr_entry_init :: "i64 \<Rightarrow> u64 \<Rightarrow> ngtcp2_acktr_entry" where
  "acktr_entry_init pkt_num tstamp = \<lparr>ae_pkt_num = pkt_num, ae_len = 1, ae_tstamp = tstamp\<rparr>"

definition ngtcp2_acktr_init :: "ngtcp2_acktr_ack_entry list \<Rightarrow> ngtcp2_acktr res" where
  "ngtcp2_acktr_init buf =
     bindR (ngtcp2_ringbuf_buf_init 32 buf) (\<lambda>acks.
     Ok \<lparr>at_acks = acks, at_ents = ngtcp2_ksl_init, at_first_unacked_ts = UINT64_MAX, at_rx_npkt = 0,
         at_max_pkt_num = -1, at_max_pkt_ts = UINT64_MAX, at_ect0 = 0, at_ect1 = 0, at_ce = 0, at_flags = 0\<rparr>)"

section \<open>Received packets\<close>

text \<open>The range at \<open>it\<close> is extended upwards by the packet.\<close>

definition acktr_extend_up ::
    "(i64, ngtcp2_acktr_entry) ngtcp2_ksl \<Rightarrow> ksl_it \<Rightarrow> ngtcp2_acktr_entry \<Rightarrow> i64 \<Rightarrow> u64 \<Rightarrow>
       ((i64, ngtcp2_acktr_entry) ngtcp2_ksl \<times> bool) res" where
  "acktr_extend_up ents it ent pkt_num ts =
     bindR (ngtcp2_ksl_update_key i64_greater ents (ae_pkt_num ent) pkt_num) (\<lambda>ents.
     Ok (ksl_it_store ents it (ent\<lparr>ae_pkt_num := pkt_num, ae_tstamp := ts, ae_len := ae_len ent + 1\<rparr>), True))"

text \<open>The first part of \<open>ngtcp2_acktr_add\<close>: whether the packet joins ranges that are there.\<close>

definition acktr_merge ::
    "(i64, ngtcp2_acktr_entry) ngtcp2_ksl \<Rightarrow> i64 \<Rightarrow> u64 \<Rightarrow> ((i64, ngtcp2_acktr_entry) ngtcp2_ksl \<times> bool) res" where
  "acktr_merge ents pkt_num ts =
     (if ngtcp2_ksl_len ents = 0 then Ok (ents, False) else
      bindR (ngtcp2_ksl_lower_bound i64_greater ents pkt_num) (\<lambda>it.
      if ngtcp2_ksl_it_end ents it then
        bindR (ngtcp2_ksl_it_prev ents it) (\<lambda>it.
        bindR (ngtcp2_ksl_it_get ents it) (\<lambda>ent.
        bindR (ck64 (sint pkt_num + int (ae_len ent))) (\<lambda>x.
        assertR (sint (ae_pkt_num ent) \<ge> x)
         (if sint (ae_pkt_num ent) = x
          then Ok (ksl_it_store ents it (ent\<lparr>ae_len := ae_len ent + 1\<rparr>), True)
          else Ok (ents, False)))))
      else
        bindR (ngtcp2_ksl_it_get ents it) (\<lambda>ent.
        assertR (ae_pkt_num ent \<noteq> pkt_num)
         (bindR (ck64 (sint (ae_pkt_num ent) + 1)) (\<lambda>above.
          if ngtcp2_ksl_it_begin it then
            if above = sint pkt_num then acktr_extend_up ents it ent pkt_num ts else Ok (ents, False)
          else
            bindR (ngtcp2_ksl_it_prev ents it) (\<lambda>prev_it.
            bindR (ngtcp2_ksl_it_get ents prev_it) (\<lambda>prev_ent.
            bindR (ck64 (sint pkt_num + int (ae_len prev_ent))) (\<lambda>x.
            assertR (sint (ae_pkt_num prev_ent) \<ge> x)
             (if above = sint pkt_num then
                if sint (ae_pkt_num prev_ent) = x then
                  bindR (ngtcp2_ksl_remove_hint i64_greater
                           (ksl_it_store ents prev_it (prev_ent\<lparr>ae_len := ae_len prev_ent + (ae_len ent + 1)\<rparr>))
                           it (ae_pkt_num ent)) (\<lambda>(ents, _, _).
                  Ok (ents, True))
                else acktr_extend_up ents it ent pkt_num ts
              else if sint (ae_pkt_num prev_ent) = x
              then Ok (ksl_it_store ents prev_it (prev_ent\<lparr>ae_len := ae_len prev_ent + 1\<rparr>), True)
              else Ok (ents, False))))))))))"

text \<open>Its second part, a new range, and its third, the limit on the number of ranges.\<close>

definition acktr_new_entry ::
    "alloc \<Rightarrow> (i64, ngtcp2_acktr_entry) ngtcp2_ksl \<Rightarrow> i64 \<Rightarrow> u64 \<Rightarrow>
       ((i64, ngtcp2_acktr_entry) ngtcp2_ksl \<times> lib_error option \<times> alloc) res" where
  "acktr_new_entry al ents pkt_num ts =
     (let (ok, al) = ksl_alloc al in
      if \<not> ok then Ok (ents, Some NGTCP2_ERR_NOMEM, al) else
      bindR (ngtcp2_ksl_insert i64_greater al ents pkt_num (acktr_entry_init pkt_num ts)) (\<lambda>(ents, rv, _, al).
      Ok (ents, rv, al)))"

definition acktr_limit :: "(i64, ngtcp2_acktr_entry) ngtcp2_ksl \<Rightarrow> (i64, ngtcp2_acktr_entry) ngtcp2_ksl res" where
  "acktr_limit ents =
     (if ngtcp2_ksl_len ents > NGTCP2_ACKTR_MAX_ENT then
        bindR (ngtcp2_ksl_end ents) (\<lambda>it.
        bindR (ngtcp2_ksl_it_prev ents it) (\<lambda>it.
        bindR (ngtcp2_ksl_it_get ents it) (\<lambda>delent.
        bindR (ngtcp2_ksl_remove_hint i64_greater ents it (ae_pkt_num delent)) (\<lambda>(ents, _, _).
        Ok ents))))
      else Ok ents)"

definition ngtcp2_acktr_add ::
    "alloc \<Rightarrow> ngtcp2_acktr \<Rightarrow> i64 \<Rightarrow> bool \<Rightarrow> u64 \<Rightarrow> (ngtcp2_acktr \<times> lib_error option \<times> alloc) res" where
  "ngtcp2_acktr_add al acktr pkt_num active_ack ts =
     bindR (acktr_merge (at_ents acktr) pkt_num ts) (\<lambda>(ents, added).
     bindR (if added then Ok (ents, None, al) else acktr_new_entry al ents pkt_num ts) (\<lambda>(ents, rv, al).
     let acktr = acktr\<lparr>at_ents := ents\<rparr> in
     if rv \<noteq> None then Ok (acktr, rv, al) else
     let acktr = (if active_ack then
           acktr\<lparr>at_flags := at_flags acktr OR NGTCP2_ACKTR_FLAG_ACTIVE_ACK,
             at_first_unacked_ts := (if at_first_unacked_ts acktr = UINT64_MAX then ts else at_first_unacked_ts acktr)\<rparr>
           else acktr) in
     bindR (acktr_limit (at_ents acktr)) (\<lambda>ents.
     let acktr = acktr\<lparr>at_ents := ents\<rparr> in
     Ok (if sint (at_max_pkt_num acktr) < sint pkt_num
         then acktr\<lparr>at_max_pkt_num := pkt_num, at_max_pkt_ts := ts\<rparr> else acktr, None, al))))"

text \<open>
  Removal of every entry from \<open>it\<close> on, the loop of \<open>ngtcp2_acktr_forget\<close> and \<open>acktr_on_ack\<close>; it needs one
  more step than there are entries.
\<close>

fun acktr_remove_from ::
    "nat \<Rightarrow> (i64, ngtcp2_acktr_entry) ngtcp2_ksl \<Rightarrow> ksl_it \<Rightarrow> ((i64, ngtcp2_acktr_entry) ngtcp2_ksl \<times> ksl_it) res" where
  "acktr_remove_from 0 ents it = Fault"
| "acktr_remove_from (Suc fuel) ents it =
     (if ngtcp2_ksl_it_end ents it then Ok (ents, it) else
      bindR (ngtcp2_ksl_it_get ents it) (\<lambda>ent.
      bindR (ngtcp2_ksl_remove_hint i64_greater ents it (ae_pkt_num ent)) (\<lambda>(ents, _, it').
      acktr_remove_from fuel ents (case it' of Some i \<Rightarrow> i | None \<Rightarrow> it))))"

definition ngtcp2_acktr_forget :: "ngtcp2_acktr \<Rightarrow> ngtcp2_acktr_entry \<Rightarrow> ngtcp2_acktr res" where
  "ngtcp2_acktr_forget acktr ent =
     bindR (ngtcp2_ksl_lower_bound i64_greater (at_ents acktr) (ae_pkt_num ent)) (\<lambda>it.
     bindR (ngtcp2_ksl_it_key (at_ents acktr) it) (\<lambda>k.
     assertR (k = ae_pkt_num ent)
      (bindR (acktr_remove_from (ngtcp2_ksl_len (at_ents acktr) + 1) (at_ents acktr) it) (\<lambda>(ents, _).
       Ok (acktr\<lparr>at_ents := ents\<rparr>)))))"

definition ngtcp2_acktr_get :: "ngtcp2_acktr \<Rightarrow> ksl_it" where
  "ngtcp2_acktr_get acktr = ngtcp2_ksl_begin (at_ents acktr)"

definition ngtcp2_acktr_empty :: "ngtcp2_acktr \<Rightarrow> bool" where
  "ngtcp2_acktr_empty acktr = ngtcp2_ksl_it_end (at_ents acktr) (ngtcp2_ksl_begin (at_ents acktr))"

section \<open>Acknowledgements sent\<close>

definition ngtcp2_acktr_add_ack :: "ngtcp2_acktr \<Rightarrow> i64 \<Rightarrow> i64 \<Rightarrow> ngtcp2_acktr res" where
  "ngtcp2_acktr_add_ack acktr pkt_num largest_ack =
     bindR (ngtcp2_ringbuf_push_front (at_acks acktr)) (\<lambda>(rb, i).
     Ok (acktr\<lparr>at_acks := rb_store rb i \<lparr>aa_largest_ack = largest_ack, aa_pkt_num = pkt_num\<rparr>\<rparr>))"

definition ack_ent_at :: "ngtcp2_acktr \<Rightarrow> nat \<Rightarrow> ngtcp2_acktr_ack_entry res" where
  "ack_ent_at acktr j = bindR (ngtcp2_ringbuf_get (at_acks acktr) (word_of_nat j)) (\<lambda>i. Ok (rb_buf (at_acks acktr) ! i))"

text \<open>The second part of \<open>acktr_on_ack\<close>: the lowest range that is left ends above the acknowledged packet.\<close>

definition acktr_trim ::
    "(i64, ngtcp2_acktr_entry) ngtcp2_ksl \<Rightarrow> ksl_it \<Rightarrow> int \<Rightarrow> (i64, ngtcp2_acktr_entry) ngtcp2_ksl res" where
  "acktr_trim ents it largest_ack =
     (if ngtcp2_ksl_len ents = 0 then Ok ents else
      assertR (ngtcp2_ksl_it_end ents it)
       (bindR (ngtcp2_ksl_it_prev ents it) (\<lambda>it.
        bindR (ngtcp2_ksl_it_get ents it) (\<lambda>ent.
        assertR (sint (ae_pkt_num ent) > largest_ack)
         (bindR (ck64 (largest_ack + int (ae_len ent))) (\<lambda>x.
          Ok (if x > sint (ae_pkt_num ent)
              then ksl_it_store ents it (ent\<lparr>ae_len := nat (sint (ae_pkt_num ent) - largest_ack)\<rparr>)
              else ents)))))))"

definition acktr_on_ack :: "ngtcp2_acktr \<Rightarrow> nat \<Rightarrow> ngtcp2_acktr res" where
  "acktr_on_ack acktr ack_ent_offset =
     assertR (ngtcp2_ringbuf_len (at_acks acktr) \<noteq> 0)
      (bindR (ack_ent_at acktr ack_ent_offset) (\<lambda>ack_ent.
       bindR (ngtcp2_ksl_lower_bound i64_greater (at_ents acktr) (aa_largest_ack ack_ent)) (\<lambda>it.
       bindR (acktr_remove_from (ngtcp2_ksl_len (at_ents acktr) + 1) (at_ents acktr) it) (\<lambda>(ents, it).
       bindR (acktr_trim ents it (sint (aa_largest_ack ack_ent))) (\<lambda>ents.
       bindR (ngtcp2_ringbuf_resize (at_acks acktr) (word_of_nat ack_ent_offset)) (\<lambda>rb.
       Ok (acktr\<lparr>at_ents := ents, at_acks := rb\<rparr>)))))))"

text \<open>
  \<open>ngtcp2_acktr_recv_ack\<close> walks the entries \<open>j\<close> of the ring buffer and the ranges of the frame together. The loop
  for one range ends past the last entry, at an entry in the range, or at an entry below it.
\<close>

datatype recv_step = Recv_done | Recv_hit nat | Recv_below nat ngtcp2_acktr_ack_entry

function acktr_recv_range ::
    "ngtcp2_acktr \<Rightarrow> nat \<Rightarrow> nat \<Rightarrow> ngtcp2_acktr_ack_entry \<Rightarrow> int \<Rightarrow> int \<Rightarrow> recv_step res" where
  "acktr_recv_range acktr nacks j ent largest_ack min_ack =
     (if sint (aa_pkt_num ent) > largest_ack then
        if nacks \<le> j + 1 then Ok Recv_done
        else bindR (ack_ent_at acktr (j + 1)) (\<lambda>ent. acktr_recv_range acktr nacks (j + 1) ent largest_ack min_ack)
      else if sint (aa_pkt_num ent) < min_ack then Ok (Recv_below j ent)
      else Ok (Recv_hit j))"
  by pat_completeness auto
termination by (relation "measure (\<lambda>(acktr, nacks, j, _). nacks - j)") auto

declare acktr_recv_range.simps [simp del]

fun acktr_recv_ranges ::
    "ngtcp2_acktr \<Rightarrow> nat \<Rightarrow> nat \<Rightarrow> ngtcp2_acktr_ack_entry \<Rightarrow> int \<Rightarrow> ngtcp2_ack_range list \<Rightarrow> ngtcp2_acktr res" where
  "acktr_recv_ranges acktr nacks j ent min_ack [] = Ok acktr"
| "acktr_recv_ranges acktr nacks j ent min_ack (r # rs) =
     bindR (ck64 (min_ack - sint (ar_gap r))) (\<lambda>x.
     bindR (ck64 (x - 2)) (\<lambda>largest_ack.
     bindR (ck64 (largest_ack - sint (ar_len r))) (\<lambda>min_ack.
     bindR (acktr_recv_range acktr nacks j ent largest_ack min_ack) (\<lambda>s.
     case s of Recv_done \<Rightarrow> Ok acktr
     | Recv_hit j \<Rightarrow> acktr_on_ack acktr j
     | Recv_below j ent \<Rightarrow> acktr_recv_ranges acktr nacks j ent min_ack rs))))"

text \<open>The first loop: the first entry that is not above the largest acknowledged packet.\<close>

function acktr_recv_first ::
    "ngtcp2_acktr \<Rightarrow> nat \<Rightarrow> int \<Rightarrow> nat \<Rightarrow> (nat \<times> ngtcp2_acktr_ack_entry) option res" where
  "acktr_recv_first acktr nacks largest_ack j =
     (if nacks \<le> j then Ok None else
      bindR (ack_ent_at acktr j) (\<lambda>ent.
      if largest_ack \<ge> sint (aa_pkt_num ent) then Ok (Some (j, ent))
      else acktr_recv_first acktr nacks largest_ack (j + 1)))"
  by pat_completeness auto
termination by (relation "measure (\<lambda>(acktr, nacks, _, j). nacks - j)") auto

declare acktr_recv_first.simps [simp del]

definition ngtcp2_acktr_recv_ack :: "ngtcp2_acktr \<Rightarrow> ngtcp2_ack \<Rightarrow> ngtcp2_acktr res" where
  "ngtcp2_acktr_recv_ack acktr fr =
     (let largest_ack = sint (ack_largest_ack fr); nacks = unat (ngtcp2_ringbuf_len (at_acks acktr)) in
      bindR (acktr_recv_first acktr nacks largest_ack 0) (\<lambda>r.
      case r of None \<Rightarrow> Ok acktr
      | Some (j, ent) \<Rightarrow>
          bindR (ck64 (largest_ack - sint (ack_first_ack_range fr))) (\<lambda>min_ack.
          if min_ack \<le> sint (aa_pkt_num ent) then acktr_on_ack acktr j
          else acktr_recv_ranges acktr nacks j ent min_ack (ack_ranges fr))))"

section \<open>The ACK frame\<close>

definition ngtcp2_acktr_commit_ack :: "ngtcp2_acktr \<Rightarrow> ngtcp2_acktr" where
  "ngtcp2_acktr_commit_ack acktr = acktr\<lparr>
     at_flags := at_flags acktr AND NOT (NGTCP2_ACKTR_FLAG_ACTIVE_ACK OR NGTCP2_ACKTR_FLAG_IMMEDIATE_ACK OR
       NGTCP2_ACKTR_FLAG_CANCEL_TIMER),
     at_first_unacked_ts := UINT64_MAX, at_rx_npkt := 0\<rparr>"

definition ngtcp2_acktr_require_active_ack :: "ngtcp2_acktr \<Rightarrow> u64 \<Rightarrow> u64 \<Rightarrow> bool" where
  "ngtcp2_acktr_require_active_ack acktr max_ack_delay ts =
     ngtcp2_tstamp_elapsed (at_first_unacked_ts acktr) max_ack_delay ts"

definition ngtcp2_acktr_immediate_ack :: "ngtcp2_acktr \<Rightarrow> ngtcp2_acktr" where
  "ngtcp2_acktr_immediate_ack acktr = acktr\<lparr>at_flags := at_flags acktr OR NGTCP2_ACKTR_FLAG_IMMEDIATE_ACK\<rparr>"

text \<open>The loop that writes the ranges after the first one.\<close>

fun acktr_ack_ranges ::
    "nat \<Rightarrow> (i64, ngtcp2_acktr_entry) ngtcp2_ksl \<Rightarrow> ksl_it \<Rightarrow> int \<Rightarrow> ngtcp2_ack_range list res" where
  "acktr_ack_ranges 0 ents it last_pkt_num = Ok []"
| "acktr_ack_ranges (Suc n) ents it last_pkt_num =
     bindR (ngtcp2_ksl_it_get ents it) (\<lambda>rpkt.
     bindR (ck64 (last_pkt_num - sint (ae_pkt_num rpkt))) (\<lambda>x.
     bindR (ck64 (x - 2)) (\<lambda>gap.
     bindR (ck64 (sint (ae_pkt_num rpkt) - int (ae_len rpkt - 1))) (\<lambda>last_pkt_num.
     bindR (acktr_ack_ranges n ents (ngtcp2_ksl_it_next ents it) last_pkt_num) (\<lambda>rs.
     Ok (\<lparr>ar_gap = word_of_int gap, ar_len = word_of_nat (ae_len rpkt - 1)\<rparr> # rs))))))"

text \<open>The first range: the lowest packet number in it, the timestamp and the fields of the frame, and whether it has used the first entry.\<close>

definition acktr_first_range ::
    "ngtcp2_acktr \<Rightarrow> ngtcp2_acktr_entry \<Rightarrow> (int \<times> u64 \<times> i64 \<times> u64 \<times> bool) res" where
  "acktr_first_range acktr rpkt =
     (if ae_pkt_num rpkt = at_max_pkt_num acktr then
        bindR (ck64 (sint (ae_pkt_num rpkt) - int (ae_len rpkt - 1))) (\<lambda>last_pkt_num.
        Ok (last_pkt_num, ae_tstamp rpkt, ae_pkt_num rpkt, word_of_nat (ae_len rpkt - 1), True))
      else
        bindR (ck64 (sint (ae_pkt_num rpkt) + 1)) (\<lambda>above.
        if above = sint (at_max_pkt_num acktr) then
          bindR (ck64 (sint (ae_pkt_num rpkt) - int (ae_len rpkt - 1))) (\<lambda>last_pkt_num.
          Ok (last_pkt_num, at_max_pkt_ts acktr, at_max_pkt_num acktr, word_of_nat (ae_len rpkt), True))
        else
          assertR (sint (ae_pkt_num rpkt) < sint (at_max_pkt_num acktr))
           (Ok (sint (at_max_pkt_num acktr), at_max_pkt_ts acktr, at_max_pkt_num acktr, 0, False))))"

text \<open>The frame is \<open>None\<close> where the function returns -1.\<close>

definition ngtcp2_acktr_create_ack_frame ::
    "ngtcp2_acktr \<Rightarrow> ngtcp2_ack \<Rightarrow> u8 \<Rightarrow> u64 \<Rightarrow> u64 \<Rightarrow> nat \<Rightarrow> (ngtcp2_acktr \<times> ngtcp2_ack option) res" where
  "ngtcp2_acktr_create_ack_frame acktr ack type ts delay ack_delay_exponent =
     (let delay = (if at_flags acktr AND NGTCP2_ACKTR_FLAG_IMMEDIATE_ACK \<noteq> 0 then 0 else delay) in
      if \<not> ngtcp2_acktr_require_active_ack acktr delay ts then Ok (acktr, None) else
      let it = ngtcp2_acktr_get acktr in
      if ngtcp2_ksl_it_end (at_ents acktr) it then Ok (ngtcp2_acktr_commit_ack acktr, None) else
      let num_acks = ngtcp2_ksl_len (at_ents acktr);
          ack = (if at_ect0 acktr \<noteq> 0 \<or> at_ect1 acktr \<noteq> 0 \<or> at_ce acktr \<noteq> 0
                 then ack\<lparr>ack_type := NGTCP2_FRAME_ACK_ECN, ack_ect0 := at_ect0 acktr, ack_ect1 := at_ect1 acktr,
                          ack_ce := at_ce acktr\<rparr>
                 else ack\<lparr>ack_type := NGTCP2_FRAME_ACK\<rparr>) in
      bindR (ngtcp2_ksl_it_get (at_ents acktr) it) (\<lambda>rpkt.
      bindR (acktr_first_range acktr rpkt) (\<lambda>(last_pkt_num, largest_ack_ts, largest_ack, first_ack_range, used).
      let it = (if used then ngtcp2_ksl_it_next (at_ents acktr) it else it);
          num_acks = (if used then num_acks - 1 else num_acks);
          ack = ack\<lparr>ack_largest_ack := largest_ack, ack_first_ack_range := first_ack_range\<rparr> in
      assertR (ack_delay_exponent < 64)
       (let unscaled = ts - largest_ack_ts;
            ack = (if type = NGTCP2_PKT_1RTT
                   then ack\<lparr>ack_delay_unscaled := unscaled, ack_delay := unscaled div 1000 div push_bit ack_delay_exponent 1\<rparr>
                   else ack\<lparr>ack_delay_unscaled := 0, ack_delay := 0\<rparr>) in
        bindR (acktr_ack_ranges (min num_acks NGTCP2_MAX_ACK_RANGES) (at_ents acktr) it last_pkt_num) (\<lambda>rs.
        Ok (acktr, Some (ack\<lparr>ack_ranges := rs\<rparr>)))))))"

definition ngtcp2_acktr_increase_ecn_counts :: "ngtcp2_acktr \<Rightarrow> u8 \<Rightarrow> ngtcp2_acktr" where
  "ngtcp2_acktr_increase_ecn_counts acktr ecn =
     (let e = ecn AND 0x3 in
      if e = 0x2 then acktr\<lparr>at_ect0 := at_ect0 acktr + 1\<rparr>
      else if e = 0x1 then acktr\<lparr>at_ect1 := at_ect1 acktr + 1\<rparr>
      else if e = 0x3 then acktr\<lparr>at_ce := at_ce acktr + 1\<rparr>
      else acktr)"

end
