(* ===== verification/Acktr_Ents.thy ===== *)
theory Acktr_Ents
  imports Acktr
begin

text \<open>
  The ranges of packet numbers that \<open>lib/ngtcp2_acktr.c\<close> tracks, as a set of numbers: the invariant of the map, and
  what receiving a packet and forgetting acknowledged packets do to it.
\<close>

section \<open>Tracked packet numbers\<close>

type_synonym acktr_ents = "(i64, ngtcp2_acktr_entry) ngtcp2_ksl"

definition pn_range :: "i64 \<times> ngtcp2_acktr_entry \<Rightarrow> int set" where
  "pn_range x = {sint (fst x) - int (ae_len (snd x)) <.. sint (fst x)}"

definition pn_set :: "(i64 \<times> ngtcp2_acktr_entry) list \<Rightarrow> int set" where
  "pn_set es = (\<Union>x \<in> set es. pn_range x)"

definition ent_ok :: "i64 \<times> ngtcp2_acktr_entry \<Rightarrow> bool" where
  "ent_ok x = (fst x = ae_pkt_num (snd x) \<and> 1 \<le> ae_len (snd x) \<and> int (ae_len (snd x)) \<le> sint (fst x) + 1 \<and>
     sint (fst x) < 2 ^ 62)"

text \<open>A packet number is missing between two ranges.\<close>

definition apart :: "i64 \<times> ngtcp2_acktr_entry \<Rightarrow> i64 \<times> ngtcp2_acktr_entry \<Rightarrow> bool" where
  "apart a b = (sint (fst b) < sint (fst a) - int (ae_len (snd a)))"

definition ranges_ok :: "(i64 \<times> ngtcp2_acktr_entry) list \<Rightarrow> bool" where
  "ranges_ok es = ((\<forall>x \<in> set es. ent_ok x) \<and> sorted_wrt apart es)"

text \<open>
  The invariant of the map. \<open>R\<close> is the set of the packet numbers that have been received: every key in the tree, those
  of inner blocks that are no longer in a leaf too, is one of them.
\<close>

definition ents_ok :: "i64 set \<Rightarrow> acktr_ents \<Rightarrow> bool" where
  "ents_ok R ents = (ksl_ok i64_greater ents \<and> ksl_keys ents \<subseteq> R \<and> ranges_ok (ksl_elems ents) \<and>
     pn_set (ksl_elems ents) \<subseteq> sint ` R)"

abbreviation (input) tracked :: "ngtcp2_acktr \<Rightarrow> int set" where
  "tracked acktr \<equiv> pn_set (ksl_elems (at_ents acktr))"

lemma pn_set_simps [simp]:
  "pn_set [] = {}" "pn_set (x # es) = pn_range x \<union> pn_set es" "pn_set (xs @ ys) = pn_set xs \<union> pn_set ys"
  by (auto simp: pn_set_def)

lemma ranges_ok_simps [simp]:
  "ranges_ok []" "ranges_ok (x # es) \<longleftrightarrow> ent_ok x \<and> ranges_ok es \<and> (\<forall>y \<in> set es. apart x y)"
  "ranges_ok (xs @ ys) \<longleftrightarrow> ranges_ok xs \<and> ranges_ok ys \<and> (\<forall>x \<in> set xs. \<forall>y \<in> set ys. apart x y)"
  by (auto simp: ranges_ok_def sorted_wrt_append)

lemma ents_okD:
  assumes "ents_ok R ents"
  shows "ksl_ok i64_greater ents" "ranges_ok (ksl_elems ents)" "ksl_keys ents \<subseteq> R" "pn_set (ksl_elems ents) \<subseteq> sint ` R"
  using assms by (auto simp: ents_ok_def)

lemma in_pn_set: "x \<in> set es \<Longrightarrow> pn_range x \<subseteq> pn_set es"
  by (auto simp: pn_set_def)

lemma pn_set_bounds: "ranges_ok es \<Longrightarrow> n \<in> pn_set es \<Longrightarrow> 0 \<le> n \<and> n < 2 ^ 62"
  by (fastforce simp: pn_set_def pn_range_def ranges_ok_def ent_ok_def)

lemma ranges_dropWhile:
  "ranges_ok es \<Longrightarrow> \<forall>y \<in> set (dropWhile (\<lambda>e. n < sint (fst e)) es). sint (fst y) \<le> n"
proof (induction es)
  case (Cons x es)
  have le: "sint (fst y) \<le> n" if "y \<in> set es" "\<not> n < sint (fst x)" for y
    using Cons.prems that by (auto simp: apart_def dest!: bspec [OF _ that(1)])
  show ?case
  proof (cases "n < sint (fst x)")
    case False
    then show ?thesis using le by auto
  qed (use Cons in simp)
qed simp

lemma ents_lower_bound:
  assumes "ents_ok R ents"
  obtains it xs ys where "ngtcp2_ksl_lower_bound i64_greater ents pkt_num = Ok it" "ksl_it_at ents it (length xs)"
    "ksl_elems ents = xs @ ys" "\<forall>x \<in> set xs. sint pkt_num < sint (fst x)" "\<forall>y \<in> set ys. sint (fst y) \<le> sint pkt_num"
proof -
  note ok = ents_okD [OF assms]
  let ?P = "\<lambda>e. i64_greater (fst e) pkt_num"
  have "passes i64_greater (ksl_keys ents) (\<lambda>k. i64_greater k pkt_num)"
    by (auto simp: passes_def ngtcp2_ksl_int64_greater_def)
  from lower_bound_search_ok [of i64_greater ents i64_greater pkt_num, OF ok(1) this] obtain it where it: "ngtcp2_ksl_lower_bound i64_greater ents pkt_num = Ok it"
    "ksl_it_at ents it (length (takeWhile ?P (ksl_elems ents)))" unfolding ngtcp2_ksl_lower_bound_def by blast
  have "\<forall>y \<in> set (dropWhile ?P (ksl_elems ents)). sint (fst y) \<le> sint pkt_num"
    unfolding ngtcp2_ksl_int64_greater_def by (rule ranges_dropWhile [OF ok(2)])
  moreover have "\<forall>x \<in> set (takeWhile ?P (ksl_elems ents)). sint pkt_num < sint (fst x)"
    by (auto dest: set_takeWhileD simp: ngtcp2_ksl_int64_greater_def)
  ultimately show thesis using it by (intro that [of it "takeWhile ?P (ksl_elems ents)" "dropWhile ?P (ksl_elems ents)"]) simp_all
qed

text \<open>A packet number above no range from below and under the range before leaves room.\<close>

lemma apart_above:
  assumes "ranges_ok (xs @ [x])" "sint (fst y) < sint (fst x) - int (ae_len (snd x))" "z \<in> set (xs @ [x])"
  shows "apart z y"
  using assms by (auto simp: apart_def)

lemma key_above_range:
  assumes "ranges_ok es" "x \<in> set es" "n \<notin> pn_set es" "n < sint (fst x)"
  shows "n \<le> sint (fst x) - int (ae_len (snd x))"
proof (rule ccontr)
  assume "\<not> ?thesis"
  then have "n \<in> pn_range x" using assms(4) by (simp add: pn_range_def)
  then show False using in_pn_set [OF assms(2)] assms(3) by blast
qed

lemma int64_replaces:
  assumes "sint new = sint old + 1" "new \<notin> K"
  shows "\<forall>x \<in> K. replaces i64_greater i64_greater x old new"
proof
  fix x assume "x \<in> K"
  then have "sint x \<noteq> sint new" using assms(2) by (metis signed_word_eqI)
  moreover have "x = old \<or> sint x \<noteq> sint old" by (metis signed_word_eqI)
  ultimately show "replaces i64_greater i64_greater x old new"
    using assms(1) by (auto simp: replaces_def ngtcp2_ksl_int64_greater_def)
qed

lemma ents_ok_mono: "ents_ok R ents \<Longrightarrow> R \<subseteq> R' \<Longrightarrow> ents_ok R' ents"
  unfolding ents_ok_def by blast

lemma ents_key: "ranges_ok es \<Longrightarrow> (k, e) \<in> set es \<Longrightarrow> k = ae_pkt_num e"
  by (auto simp: ranges_ok_def ent_ok_def)

lemma ents_store:
  assumes "ents_ok R ents" "ksl_elems ents = xs @ (k, e) # ys" "ksl_it_at ents it (length xs)"
    "ranges_ok (xs @ (k, e') # ys)" "R \<subseteq> R'" "pn_set (xs @ (k, e') # ys) \<subseteq> sint ` R'"
  shows "ents_ok R' (ksl_it_store ents it e')" "ksl_elems (ksl_it_store ents it e') = xs @ (k, e') # ys"
    "ksl_it_at (ksl_it_store ents it e') it' q \<longleftrightarrow> ksl_it_at ents it' q"
proof -
  have p: "length xs < length (ksl_elems ents)" using assms(2) by simp
  note s = i64.it_store_ok [OF ents_okD(1) [OF assms(1)] assms(3) p, of e']
  show e: "ksl_elems (ksl_it_store ents it e') = xs @ (k, e') # ys" using s(2) assms(2) by simp
  show "ents_ok R' (ksl_it_store ents it e')"
    using s(1,3) ents_okD(3) [OF assms(1)] assms(4,5,6) unfolding ents_ok_def e by blast
  show "ksl_it_at (ksl_it_store ents it e') it' q \<longleftrightarrow> ksl_it_at ents it' q" by (rule s(4))
qed

lemma ents_remove:
  assumes "ents_ok R ents" "ksl_elems ents = xs @ (k, e) # ys" "ksl_it_at ents it (length xs)"
  shows "\<exists>ents' it'. ngtcp2_ksl_remove_hint i64_greater ents it (ae_pkt_num e) = Ok (ents', None, Some it') \<and>
    ents_ok R ents' \<and> ksl_elems ents' = xs @ ys \<and> ksl_it_at ents' it' (length xs)"
proof -
  have k: "k = ae_pkt_num e" using ents_key [OF ents_okD(2) [OF assms(1)]] assms(2) by auto
  have "fst (ksl_elems ents ! length xs) = ae_pkt_num e" "length xs < length (ksl_elems ents)" using assms(2) k by simp_all
  from i64.ksl_remove_hint_ok [OF ents_okD(1) [OF assms(1)] int64_agrees assms(3) this(2,1)] obtain ents' it' where
    "ngtcp2_ksl_remove_hint i64_greater ents it (ae_pkt_num e) = Ok (ents', None, Some it')" "ksl_ok i64_greater ents'"
    "ksl_keys ents' \<subseteq> ksl_keys ents" "ksl_elems ents' = xs @ ys" "ksl_it_at ents' it' (length xs)"
    using assms(2) by auto
  with ents_okD [OF assms(1)] assms(2) show ?thesis by (auto simp: ents_ok_def)
qed

lemma ranges_takeWhile:
  assumes "ranges_ok (xs @ (k, e) # ys)"
  shows "takeWhile (\<lambda>x. fst x \<noteq> k) (xs @ (k, e) # ys) = xs"
proof -
  have "fst x \<noteq> k" if "x \<in> set xs" for x using assms that by (force simp: apart_def)
  then show ?thesis by (subst takeWhile_append2) auto
qed

lemma ranges_split:
  assumes "ranges_ok (xs @ (k, e) # ys)" "ranges_ok (xs' @ (k, e') # ys')" "xs @ (k, e) # ys = xs' @ (k, e') # ys'"
  shows "xs = xs'" "e = e'" "ys = ys'"
proof -
  show "xs = xs'" using ranges_takeWhile [OF assms(1)] ranges_takeWhile [OF assms(2)] assms(3) by simp
  then show "e = e'" "ys = ys'" using assms(3) by simp_all
qed

lemma extend_up_ok:
  assumes ok: "ents_ok R ents" "pkt_num \<notin> R" and es: "ksl_elems ents = xs @ (k, e) # ys" "ksl_it_at ents it (length xs)"
    and b: "sint k + 1 = sint pkt_num" "sint pkt_num < 2 ^ 62" "\<forall>x \<in> set xs. sint pkt_num < sint (fst x) - int (ae_len (snd x))"
  shows "\<exists>ents'. acktr_extend_up ents it e pkt_num ts = Ok (ents', True) \<and> ents_ok (insert pkt_num R) ents' \<and>
    pn_set (ksl_elems ents') = insert (sint pkt_num) (pn_set (ksl_elems ents)) \<and> length (ksl_elems ents') = length (ksl_elems ents)"
proof -
  note o = ents_okD [OF ok(1)]
  have k: "k = ae_pkt_num e" using ents_key [OF o(2)] es(1) by auto
  have "pkt_num \<notin> ksl_keys ents" using ok(2) o(3) by blast
  note rep = int64_replaces [OF b(1) [symmetric] this]
  have "k \<in> fst ` set (ksl_elems ents)" using es(1) by simp
  from i64.ksl_update_key_ok [OF o(1) int64_agrees rep this] obtain ents1 xs1 d ys1 where u:
    "ngtcp2_ksl_update_key i64_greater ents k pkt_num = Ok ents1" "ksl_ok i64_greater ents1"
    "ksl_keys ents1 \<subseteq> insert pkt_num (ksl_keys ents - {k})" "ksl_elems ents = xs1 @ (k, d) # ys1"
    "ksl_elems ents1 = xs1 @ (pkt_num, d) # ys1" "\<And>it p. ksl_it_at ents it p \<longrightarrow> ksl_it_at ents1 it p" by blast
  have "ranges_ok (xs1 @ (k, d) # ys1)" "ranges_ok (xs @ (k, e) # ys)" using o(2) es(1) u(4) by simp_all
  from ranges_split [OF this] have same: "xs1 = xs" "d = e" "ys1 = ys" using es(1) u(4) by simp_all
  let ?e = "e\<lparr>ae_pkt_num := pkt_num, ae_tstamp := ts, ae_len := ae_len e + 1\<rparr>"
  have p: "length xs < length (ksl_elems ents1)" using u(5) same by simp
  have at: "ksl_it_at ents1 it (length xs)" using u(6) es(2) by blast
  note s = i64.it_store_ok [OF u(2) at p, of ?e]
  have el: "ksl_elems (ksl_it_store ents1 it ?e) = xs @ (pkt_num, ?e) # ys" using s(2) u(5) same by simp
  have r: "ranges_ok (xs @ (pkt_num, ?e) # ys)" using o(2) b unfolding es(1)
    by (auto simp: apart_def ent_ok_def)
  have ps: "pn_set (xs @ (pkt_num, ?e) # ys) = insert (sint pkt_num) (pn_set (ksl_elems ents))"
    unfolding es(1) using b(1) by (auto simp: pn_range_def)
  have "ents_ok (insert pkt_num R) (ksl_it_store ents1 it ?e)"
    unfolding ents_ok_def el using s(1,3) r u(3) o(3,4) ps by auto
  then show ?thesis using u(1) el ps es(1) k by (simp add: acktr_extend_up_def)
qed

text \<open>What \<open>acktr_merge\<close> does: it adds the packet number, or no range is adjacent to it.\<close>

definition merge_spec :: "i64 set \<Rightarrow> i64 \<Rightarrow> acktr_ents \<Rightarrow> acktr_ents \<Rightarrow> bool \<Rightarrow> bool" where
  "merge_spec R pkt_num ents ents' added =
     (if added then ents_ok (insert pkt_num R) ents' \<and>
        pn_set (ksl_elems ents') = insert (sint pkt_num) (pn_set (ksl_elems ents)) \<and>
        length (ksl_elems ents') \<le> length (ksl_elems ents)
      else ents' = ents \<and> sint pkt_num - 1 \<notin> pn_set (ksl_elems ents) \<and> sint pkt_num + 1 \<notin> pn_set (ksl_elems ents))"

lemma extend_down_ok:
  assumes ok: "ents_ok R ents" and es: "ksl_elems ents = xs @ (k, e) # ys" "ksl_it_at ents it (length xs)"
    and b: "sint k = sint pkt_num + int (ae_len e)" "0 \<le> sint pkt_num" "\<forall>y \<in> set ys. sint (fst y) + 1 < sint pkt_num"
  shows "merge_spec R pkt_num ents (ksl_it_store ents it (e\<lparr>ae_len := ae_len e + 1\<rparr>)) True"
proof -
  let ?e = "e\<lparr>ae_len := ae_len e + 1\<rparr>"
  note o = ents_okD [OF ok]
  have r: "ranges_ok (xs @ (k, ?e) # ys)" using o(2) b unfolding es(1) by (auto simp: apart_def ent_ok_def)
  have ps: "pn_set (xs @ (k, ?e) # ys) = insert (sint pkt_num) (pn_set (ksl_elems ents))"
    unfolding es(1) using b(1) by (auto simp: pn_range_def)
  have "pn_set (xs @ (k, ?e) # ys) \<subseteq> sint ` insert pkt_num R" unfolding ps using o(4) by auto
  note s = ents_store [OF ok es r subset_insertI this]
  show ?thesis unfolding merge_spec_def s(2) ps using s(1) es(1) by simp
qed

lemma join_ok:
  assumes ok: "ents_ok R ents" and es: "ksl_elems ents = xs @ (k, e) # (l, f) # ys"
    "ksl_it_at ents prev_it (length xs)" "ksl_it_at ents it (Suc (length xs))"
    and b: "sint k = sint pkt_num + int (ae_len e)" "sint l + 1 = sint pkt_num"
  shows "\<exists>ents' it'. ngtcp2_ksl_remove_hint i64_greater
      (ksl_it_store ents prev_it (e\<lparr>ae_len := ae_len e + (ae_len f + 1)\<rparr>)) it (ae_pkt_num f) = Ok (ents', None, Some it') \<and>
    merge_spec R pkt_num ents ents' True"
proof -
  let ?e = "e\<lparr>ae_len := ae_len e + (ae_len f + 1)\<rparr>"
  note o = ents_okD [OF ok]
  have p: "length xs < length (ksl_elems ents)" using es(1) by simp
  note s = i64.it_store_ok [OF o(1) es(2) p, of ?e]
  have el: "ksl_elems (ksl_it_store ents prev_it ?e) = (xs @ [(k, ?e)]) @ (l, f) # ys" using s(2) es(1) by simp
  have l: "l = ae_pkt_num f" by (rule ents_key [OF o(2)]) (simp add: es(1))
  have p': "Suc (length xs) < length (ksl_elems (ksl_it_store ents prev_it ?e))"
    "fst (ksl_elems (ksl_it_store ents prev_it ?e) ! Suc (length xs)) = ae_pkt_num f" unfolding el using l by (simp_all add: nth_append)
  have at: "ksl_it_at (ksl_it_store ents prev_it ?e) it (Suc (length xs))" using s(4) es(3) by simp
  from i64.ksl_remove_hint_ok [OF s(1) int64_agrees at p'] obtain ents' it' where
    h: "ngtcp2_ksl_remove_hint i64_greater (ksl_it_store ents prev_it ?e) it (ae_pkt_num f) = Ok (ents', None, Some it')"
    "ksl_ok i64_greater ents'" "ksl_keys ents' \<subseteq> ksl_keys (ksl_it_store ents prev_it ?e)"
    "ksl_elems ents' = xs @ (k, ?e) # ys" unfolding el by auto
  have r: "ranges_ok (xs @ (k, ?e) # ys)" using o(2) b unfolding es(1) by (auto simp: apart_def ent_ok_def)
  have ps: "pn_set (xs @ (k, ?e) # ys) = insert (sint pkt_num) (pn_set (ksl_elems ents))"
  proof -
    have "pn_range (k, ?e) = insert (sint pkt_num) (pn_range (k, e) \<union> pn_range (l, f))"
      using b by (intro set_eqI) (simp add: pn_range_def, presburger)
    then show ?thesis unfolding es(1) by auto
  qed
  have "ksl_keys ents' \<subseteq> insert pkt_num R" using h(3) s(3) o(3) by blast
  moreover have "insert (sint pkt_num) (pn_set (ksl_elems ents)) \<subseteq> sint ` insert pkt_num R" using o(4) by auto
  ultimately have "ents_ok (insert pkt_num R) ents'" unfolding ents_ok_def h(4) ps using h(2) r by blast
  then show ?thesis using h(1,4) ps es(1) by (simp add: merge_spec_def)
qed

lemma not_adjacent:
  assumes "ranges_ok (xs @ ys)" "\<forall>x \<in> set xs. n < sint (fst x) - int (ae_len (snd x))" "\<forall>y \<in> set ys. sint (fst y) + 1 < n"
  shows "n - 1 \<notin> pn_set (xs @ ys)" "n + 1 \<notin> pn_set (xs @ ys)"
proof -
  have "n - 1 \<notin> pn_range x \<and> n + 1 \<notin> pn_range x" if "x \<in> set (xs @ ys)" for x
    using assms(2,3) that by (cases "x \<in> set xs") (auto simp: pn_range_def dest!: bspec)
  then show "n - 1 \<notin> pn_set (xs @ ys)" "n + 1 \<notin> pn_set (xs @ ys)" by (auto simp: pn_set_def)
qed

lemma merge_ents_ok:
  assumes ok: "ents_ok R ents" "pkt_num \<notin> R" and b: "0 \<le> sint pkt_num" "sint pkt_num < 2 ^ 62"
  shows "\<exists>ents' added. acktr_merge ents pkt_num ts = Ok (ents', added) \<and> merge_spec R pkt_num ents ents' added"
proof (cases "ksl_elems ents = []")
  case True
  then have "acktr_merge ents pkt_num ts = Ok (ents, False)" "merge_spec R pkt_num ents ents False"
    using ksl_len [OF ents_okD(1) [OF ok(1)]] by (simp_all add: acktr_merge_def merge_spec_def)
  then show ?thesis by blast
next
  case False
  note o = ents_okD [OF ok(1)]
  obtain it xs ys where lb: "ngtcp2_ksl_lower_bound i64_greater ents pkt_num = Ok it" "ksl_it_at ents it (length xs)"
    and es: "ksl_elems ents = xs @ ys" and xs: "\<forall>x \<in> set xs. sint pkt_num < sint (fst x)" and ys: "\<forall>y \<in> set ys. sint (fst y) \<le> sint pkt_num"
    by (rule ents_lower_bound [OF ok(1)])
  have new: "sint pkt_num \<notin> pn_set (ksl_elems ents)" using o(4) ok(2) by (metis (no_types) imageE signed_word_eqI subset_iff)
  have len: "ngtcp2_ksl_len ents \<noteq> 0" using ksl_len [OF o(1)] False by simp
  note fin = ksl_it_end [OF lb(2)]
  note beg = ksl_it_begin [OF o(1) lb(2)]
  have ek: "ent_ok x" if "x \<in> set (ksl_elems ents)" for x using o(2) that by (simp add: ranges_ok_def)
  have below: "sint (fst y) < sint pkt_num" if "y \<in> set ys" for y
  proof -
    have "sint (fst y) \<in> pn_range y" using ek [of y] that es by (simp add: pn_range_def ent_ok_def)
    then have "sint (fst y) \<in> pn_set (ksl_elems ents)" using in_pn_set [of y "ksl_elems ents"] that es by auto
    then show ?thesis using new ys that by (metis order_le_less)
  qed
  have above: "sint pkt_num \<le> sint (fst x) - int (ae_len (snd x))" if "x \<in> set xs" for x
    using key_above_range [OF o(2) _ new] that es xs by auto
  show ?thesis
  proof (cases xs rule: rev_cases)
    case Nil
    then obtain k e zs where y: "ys = (k, e) # zs" using es False by (cases ys) auto
    have g: "ngtcp2_ksl_it_get ents it = Ok e" using ksl_it_get [OF lb(2)] es Nil y by simp
    have k: "ae_pkt_num e = k" "sint k < sint pkt_num" "ent_ok (k, e)" using ek [of "(k, e)"] below [of "(k, e)"] es Nil y by (auto simp: ent_ok_def)
    have ck: "ck64 (sint k + 1) = Ok (sint k + 1)" using k(3) by (intro ck64_Ok) (auto simp: ent_ok_def)
    have ne: "k \<noteq> pkt_num" using k(2) by auto
    note m = acktr_merge_def [of ents pkt_num ts]
    show ?thesis
    proof (cases "sint k + 1 = sint pkt_num")
      case True
      obtain ents' where "acktr_extend_up ents it e pkt_num ts = Ok (ents', True)" "merge_spec R pkt_num ents ents' True"
        using extend_up_ok [OF ok, of "[]" k e zs it ts] True b(2) lb(2) es Nil y by (auto simp: merge_spec_def)
      then show ?thesis using len lb(1) fin beg Nil es y g k(1) ck ne True unfolding m by auto
    next
      case False
      have "\<forall>y \<in> set ys. sint (fst y) + 1 < sint pkt_num"
        using o(2) k False es Nil y by (auto simp: apart_def ent_ok_def)
      with not_adjacent [of "[]" ys "sint pkt_num"] o(2) es Nil have "merge_spec R pkt_num ents ents False" by (simp add: merge_spec_def)
      then show ?thesis using len lb(1) fin beg Nil es y g k(1) ck ne False unfolding m by auto
    qed
  next
    case (snoc us x)
    obtain k e where x: "x = (k, e)" by fastforce
    have l: "length xs = Suc (length us)" using snoc by simp
    obtain pit where pit: "ngtcp2_ksl_it_prev ents it = Ok pit" "ksl_it_at ents pit (length us)"
      using ksl_it_prev [OF o(1), of it "length us"] lb(2) l by auto
    have es': "ksl_elems ents = us @ (k, e) # ys" using es snoc x by simp
    have g: "ngtcp2_ksl_it_get ents pit = Ok e" using ksl_it_get [OF pit(2)] es' by simp
    have k: "ae_pkt_num e = k" "ent_ok (k, e)" using ek [of "(k, e)"] es' by (auto simp: ent_ok_def)
    have ge: "sint pkt_num + int (ae_len e) \<le> sint k" using above [of x] snoc x by simp
    have ck: "ck64 (sint pkt_num + int (ae_len e)) = Ok (sint pkt_num + int (ae_len e))"
      using k(2) b ge by (intro ck64_Ok) (auto simp: ent_ok_def)
    have far: "\<forall>x \<in> set xs. sint pkt_num < sint (fst x) - int (ae_len (snd x))" if "sint k \<noteq> sint pkt_num + int (ae_len e)"
      using that ge o(2) k(2) unfolding es snoc x by (auto simp: apart_def ent_ok_def)
    show ?thesis
    proof (cases ys)
      case Nil
      show ?thesis
      proof (cases "sint k = sint pkt_num + int (ae_len e)")
        case True
        have "merge_spec R pkt_num ents (ksl_it_store ents pit (e\<lparr>ae_len := ae_len e + 1\<rparr>)) True"
          by (rule extend_down_ok [OF ok(1) es' pit(2) True b(1)]) (simp add: Nil)
        then show ?thesis using len lb(1) fin es pit(1) g k(1) ck ge True Nil unfolding acktr_merge_def by auto
      next
        case False
        then have "merge_spec R pkt_num ents ents False" using not_adjacent [of xs ys "sint pkt_num"] o(2) es far Nil by (simp add: merge_spec_def)
        then show ?thesis using len lb(1) fin es pit(1) g k(1) ck ge False Nil unfolding acktr_merge_def by auto
      qed
    next
      case (Cons y zs)
      obtain l f where y: "y = (l, f)" by fastforce
      have g': "ngtcp2_ksl_it_get ents it = Ok f" using ksl_it_get [OF lb(2)] es Cons y by simp
      have l': "ae_pkt_num f = l" "sint l < sint pkt_num" "ent_ok (l, f)" using ek [of "(l, f)"] below [of y] es Cons y by (auto simp: ent_ok_def)
      have ck': "ck64 (sint l + 1) = Ok (sint l + 1)" using l'(3) by (intro ck64_Ok) (auto simp: ent_ok_def)
      have ne: "l \<noteq> pkt_num" using l'(2) by auto
      have low: "\<forall>y \<in> set ys. sint (fst y) + 1 < sint pkt_num" if "sint l + 1 \<noteq> sint pkt_num"
        using that o(2) l' unfolding es Cons y by (auto simp: apart_def ent_ok_def)
      have es2: "ksl_elems ents = us @ (k, e) # (l, f) # zs" using es' Cons y by simp
      have m: "acktr_merge ents pkt_num ts =
         (if sint l + 1 = sint pkt_num then
            if sint k = sint pkt_num + int (ae_len e) then
              bindR (ngtcp2_ksl_remove_hint i64_greater
                       (ksl_it_store ents pit (e\<lparr>ae_len := ae_len e + (ae_len f + 1)\<rparr>)) it (ae_pkt_num f)) (\<lambda>(ents, _, _).
              Ok (ents, True))
            else acktr_extend_up ents it f pkt_num ts
          else if sint k = sint pkt_num + int (ae_len e)
          then Ok (ksl_it_store ents pit (e\<lparr>ae_len := ae_len e + 1\<rparr>), True)
          else Ok (ents, False))"
        using len lb(1) fin beg l Cons es pit(1) g g' k(1) l'(1) ck ck' ge ne by (simp add: acktr_merge_def)
      consider "sint l + 1 = sint pkt_num" "sint k = sint pkt_num + int (ae_len e)"
        | "sint l + 1 = sint pkt_num" "sint k \<noteq> sint pkt_num + int (ae_len e)"
        | "sint l + 1 \<noteq> sint pkt_num" "sint k = sint pkt_num + int (ae_len e)"
        | "sint l + 1 \<noteq> sint pkt_num" "sint k \<noteq> sint pkt_num + int (ae_len e)" by blast
      then show ?thesis
      proof cases
        case 1
        from join_ok [OF ok(1) es2 pit(2) lb(2) [unfolded l] 1(2,1)] obtain ents' it' where
          "ngtcp2_ksl_remove_hint i64_greater (ksl_it_store ents pit (e\<lparr>ae_len := ae_len e + (ae_len f + 1)\<rparr>)) it (ae_pkt_num f) =
             Ok (ents', None, Some it')" "merge_spec R pkt_num ents ents' True" by blast
        then show ?thesis using 1 unfolding m by auto
      next
        case 2
        from extend_up_ok [OF ok, of xs l f zs it ts] 2 b(2) lb(2) es Cons y far obtain ents' where
          "acktr_extend_up ents it f pkt_num ts = Ok (ents', True)" "merge_spec R pkt_num ents ents' True"
          by (auto simp: merge_spec_def)
        then show ?thesis using 2 unfolding m by auto
      next
        case 3
        then show ?thesis using extend_down_ok [OF ok(1) es' pit(2) 3(2) b(1) low] unfolding m by auto
      next
        case 4
        then have "merge_spec R pkt_num ents ents False" using not_adjacent [of xs ys "sint pkt_num"] o(2) es far low by (simp add: merge_spec_def)
        then show ?thesis using 4 unfolding m by auto
      qed
    qed
  qed
qed

text \<open>\<open>ngtcp2_acktr_add\<close> drops the lowest range when there are too many.\<close>

definition acktr_ok :: "i64 set \<Rightarrow> ngtcp2_acktr \<Rightarrow> bool" where
  "acktr_ok R acktr =
     (ents_ok R (at_ents acktr) \<and> length (ksl_elems (at_ents acktr)) \<le> NGTCP2_ACKTR_MAX_ENT \<and>
      (\<forall>n \<in> tracked acktr. n \<le> sint (at_max_pkt_num acktr)) \<and> (at_max_pkt_num acktr = -1 \<or> at_max_pkt_num acktr \<in> R) \<and>
      (\<forall>r \<in> R. sint r \<le> sint (at_max_pkt_num acktr)) \<and>
      -1 \<le> sint (at_max_pkt_num acktr) \<and> sint (at_max_pkt_num acktr) < 2 ^ 62 \<and>
      rb_ok (at_acks acktr) \<and>
      (\<forall>a \<in> set (rb_elems (at_acks acktr)). 0 \<le> sint (aa_largest_ack a) \<and> sint (aa_largest_ack a) < 2 ^ 62) \<and>
      sorted_wrt (\<lambda>a b. sint (aa_pkt_num b) < sint (aa_pkt_num a)) (rb_elems (at_acks acktr)))"

lemma insert_entry_ok:
  assumes ok: "ents_ok R ents" "pkt_num \<notin> R" and b: "0 \<le> sint pkt_num" "sint pkt_num < 2 ^ 62"
    and adj: "sint pkt_num - 1 \<notin> pn_set (ksl_elems ents)" "sint pkt_num + 1 \<notin> pn_set (ksl_elems ents)"
    and al: "False \<notin> set al"
  shows "\<exists>ents' it al'. ngtcp2_ksl_insert i64_greater al ents pkt_num (acktr_entry_init pkt_num ts) = Ok (ents', None, it, al') \<and>
    ents_ok (insert pkt_num R) ents' \<and> pn_set (ksl_elems ents') = insert (sint pkt_num) (pn_set (ksl_elems ents)) \<and>
    length (ksl_elems ents') = Suc (length (ksl_elems ents))"
proof -
  let ?d = "acktr_entry_init pkt_num ts"
  note o = ents_okD [OF ok(1)]
  have new: "sint pkt_num \<notin> pn_set (ksl_elems ents)" using o(4) ok(2) by (metis (no_types) imageE signed_word_eqI subset_iff)
  have rng: "sint (fst x) \<in> pn_set (ksl_elems ents)" if "x \<in> set (ksl_elems ents)" for x
  proof -
    have "sint (fst x) \<in> pn_range x" using o(2) that by (auto simp: pn_range_def ent_ok_def ranges_ok_def dest!: bspec)
    then show ?thesis using in_pn_set that by blast
  qed
  from i64.ksl_insert_ok [OF o(1) int64_agrees, of al pkt_num ?d] obtain ents' rv it al' where
    i: "ngtcp2_ksl_insert i64_greater al ents pkt_num ?d = Ok (ents', rv, it, al')"
    "ksl_insert_spec i64_greater al ents pkt_num ?d ents' rv it" by blast
  have "pkt_num \<notin> fst ` set (ksl_elems ents)" using rng new by force
  then obtain xs ys where s: "rv = None" "ksl_ok i64_greater ents'" "ksl_elems ents = xs @ ys" "ksl_elems ents' = xs @ (pkt_num, ?d) # ys"
    "ksl_keys ents' \<subseteq> insert pkt_num (ksl_keys ents)" "\<forall>x \<in> fst ` set xs. i64_greater x pkt_num" "\<forall>y \<in> fst ` set ys. i64_greater pkt_num y"
    using i(2) al unfolding ksl_insert_spec_def by blast
  have "apart x (pkt_num, ?d)" if "x \<in> set xs" for x
  proof -
    have x: "x \<in> set (ksl_elems ents)" "sint pkt_num < sint (fst x)" using that s(3,6) by (auto simp: ngtcp2_ksl_int64_greater_def)
    have "sint pkt_num \<le> sint (fst x) - int (ae_len (snd x))" by (rule key_above_range [OF o(2) x(1) new x(2)])
    moreover have "sint pkt_num + 1 \<notin> pn_range x" using in_pn_set [OF x(1)] adj(2) by blast
    ultimately show ?thesis using x(2) by (auto simp: pn_range_def apart_def)
  qed
  moreover have "apart (pkt_num, ?d) y" if "y \<in> set ys" for y
  proof -
    have y: "y \<in> set (ksl_elems ents)" "sint (fst y) < sint pkt_num" using that s(3,7) by (auto simp: ngtcp2_ksl_int64_greater_def)
    then have "sint (fst y) \<noteq> sint pkt_num - 1" using rng adj(1) by metis
    then show ?thesis using y(2) by (simp add: apart_def acktr_entry_init_def)
  qed
  ultimately have r: "ranges_ok (xs @ (pkt_num, ?d) # ys)" using o(2) b unfolding s(3)
    by (auto simp: ent_ok_def acktr_entry_init_def)
  have "pn_range (pkt_num, ?d) = {sint pkt_num}" by (auto simp: pn_range_def acktr_entry_init_def)
  then have ps: "pn_set (xs @ (pkt_num, ?d) # ys) = insert (sint pkt_num) (pn_set (ksl_elems ents))" unfolding s(3) by auto
  have "ksl_keys ents' \<subseteq> insert pkt_num R" using s(5) o(3) by blast
  moreover have "insert (sint pkt_num) (pn_set (ksl_elems ents)) \<subseteq> sint ` insert pkt_num R" using o(4) by auto
  ultimately have "ents_ok (insert pkt_num R) ents'" unfolding ents_ok_def s(4) ps using s(2) r by blast
  then show ?thesis using i(1) s ps by simp
qed

lemma limit_ok:
  assumes ok: "ents_ok R ents"
  shows "\<exists>ents'. acktr_limit ents = Ok ents' \<and> ents_ok R ents' \<and>
    ksl_elems ents' = (if length (ksl_elems ents) \<le> 33 then ksl_elems ents else butlast (ksl_elems ents))"
proof (cases "length (ksl_elems ents) \<le> 33")
  case False
  note o = ents_okD [OF ok]
  obtain xs k e where es: "ksl_elems ents = xs @ [(k, e)]"
    using False by (cases "ksl_elems ents" rule: rev_cases) auto
  obtain it where it: "ngtcp2_ksl_end ents = Ok it" "ksl_it_at ents it (Suc (length xs))" using ksl_end_at [OF o(1)] es by auto
  obtain pit where pit: "ngtcp2_ksl_it_prev ents it = Ok pit" "ksl_it_at ents pit (length xs)" using ksl_it_prev [OF o(1) it(2)] by blast
  obtain ents' it' where r: "ngtcp2_ksl_remove_hint i64_greater ents pit (ae_pkt_num e) = Ok (ents', None, Some it')"
    "ents_ok R ents'" "ksl_elems ents' = xs" using ents_remove [OF ok es pit(2)] by auto
  have "ngtcp2_ksl_it_get ents pit = Ok e" using ksl_it_get [OF pit(2)] es by simp
  then have "acktr_limit ents = Ok ents'" using it(1) pit(1) r(1) ksl_len [OF o(1)] False by (simp add: acktr_limit_def)
  then show ?thesis using r es False by simp
qed (use ok ksl_len [OF ents_okD(1) [OF ok]] in \<open>simp add: acktr_limit_def\<close>)

text \<open>The packet numbers that are tracked after \<open>pkt_num\<close> has joined the ranges \<open>es\<close>: all, or all but the lowest range.\<close>

lemma acktr_add_ok:
  assumes ok: "acktr_ok R acktr" "pkt_num \<notin> R" and b: "0 \<le> sint pkt_num" "sint pkt_num < 2 ^ 62" and al: "False \<notin> set al"
  shows "\<exists>acktr' al'. ngtcp2_acktr_add al acktr pkt_num active_ack ts = Ok (acktr', None, al') \<and>
    acktr_ok (insert pkt_num R) acktr' \<and> at_max_pkt_num acktr' = (if sint (at_max_pkt_num acktr) < sint pkt_num then pkt_num else at_max_pkt_num acktr) \<and>
    at_acks acktr' = at_acks acktr \<and>
    (\<exists>es. ranges_ok es \<and> pn_set es = insert (sint pkt_num) (tracked acktr) \<and>
      ksl_elems (at_ents acktr') = (if length es \<le> NGTCP2_ACKTR_MAX_ENT then es else butlast es))"
proof -
  have o: "ents_ok R (at_ents acktr)" "length (ksl_elems (at_ents acktr)) \<le> 33" using ok(1) by (auto simp: acktr_ok_def)
  obtain ents1 added where m: "acktr_merge (at_ents acktr) pkt_num ts = Ok (ents1, added)" "merge_spec R pkt_num (at_ents acktr) ents1 added"
    using merge_ents_ok [OF o(1) ok(2) b] by blast
  obtain a al0 where a: "ksl_alloc al = (a, al0)" by force
  have a': a "False \<notin> set al0" using a al by (cases al; auto simp: ksl_alloc_def split: list.splits)+
  obtain ents2 al2 where i: "(if added then Ok (ents1, None, al) else acktr_new_entry al ents1 pkt_num ts) = Ok (ents2, None, al2)" "ents_ok (insert pkt_num R) ents2"
      "pn_set (ksl_elems ents2) = insert (sint pkt_num) (tracked acktr)" "length (ksl_elems ents2) \<le> 34"
  proof (cases added)
    case True
    then show thesis using m(2) o(2) by (intro that [of ents1 al]) (auto simp: merge_spec_def)
  next
    case False
    then have n: "ents1 = at_ents acktr" "sint pkt_num - 1 \<notin> tracked acktr" "sint pkt_num + 1 \<notin> tracked acktr"
      using m(2) by (auto simp: merge_spec_def)
    obtain ents' it al' where "ngtcp2_ksl_insert i64_greater al0 (at_ents acktr) pkt_num (acktr_entry_init pkt_num ts) = Ok (ents', None, it, al')"
      "ents_ok (insert pkt_num R) ents'" "pn_set (ksl_elems ents') = insert (sint pkt_num) (tracked acktr)"
      "length (ksl_elems ents') = Suc (length (ksl_elems (at_ents acktr)))"
      using insert_entry_ok [OF o(1) ok(2) b n(2,3) a'(2)] by blast
    then show thesis using False a a'(1) o(2) n(1) by (intro that [of ents' al']) (simp_all add: acktr_new_entry_def)
  qed
  note o2 = ents_okD [OF i(2)]
  obtain ents3 where d: "acktr_limit ents2 = Ok ents3" "ents_ok (insert pkt_num R) ents3"
      "ksl_elems ents3 = (if length (ksl_elems ents2) \<le> 33 then ksl_elems ents2 else butlast (ksl_elems ents2))"
    using limit_ok [OF i(2)] by blast
  have sub: "pn_set (ksl_elems ents3) \<subseteq> insert (sint pkt_num) (tracked acktr)"
    using d(3) i(3) by (auto simp: pn_set_def dest: in_set_butlastD split: if_splits)
  define a2 where "a2 = (if active_ack then acktr\<lparr>at_ents := ents2, at_flags := at_flags acktr OR NGTCP2_ACKTR_FLAG_ACTIVE_ACK,
      at_first_unacked_ts := (if at_first_unacked_ts acktr = UINT64_MAX then ts else at_first_unacked_ts acktr)\<rparr>
    else acktr\<lparr>at_ents := ents2\<rparr>)"
  define a3 where "a3 = (if sint (at_max_pkt_num acktr) < sint pkt_num
     then a2\<lparr>at_ents := ents3, at_max_pkt_num := pkt_num, at_max_pkt_ts := ts\<rparr> else a2\<lparr>at_ents := ents3\<rparr>)"
  have run: "ngtcp2_acktr_add al acktr pkt_num active_ack ts = Ok (a3, None, al2)"
    unfolding ngtcp2_acktr_add_def m(1) bindR.simps prod.case i(1)
    using d(1) by (simp add: a3_def a2_def)
  have f: "at_ents a3 = ents3" "at_acks a3 = at_acks acktr"
    "at_max_pkt_num a3 = (if sint (at_max_pkt_num acktr) < sint pkt_num then pkt_num else at_max_pkt_num acktr)"
    by (auto simp: a3_def a2_def)
  have top: "n \<le> sint (at_max_pkt_num acktr)" if "n \<in> tracked acktr" for n using ok(1) that by (auto simp: acktr_ok_def)
  have "n \<le> sint (at_max_pkt_num a3)" if "n \<in> pn_set (ksl_elems ents3)" for n
  proof -
    have "n = sint pkt_num \<or> n \<in> tracked acktr" using sub that by blast
    then show ?thesis unfolding f(3) using top by fastforce
  qed
  then have "acktr_ok (insert pkt_num R) a3" using ok(1) b d(2,3) i(4) f by (auto simp: acktr_ok_def)
  then show ?thesis using run f d(3) i(3) o2(2) by auto
qed

section \<open>Acknowledged acknowledgements\<close>

lemma remove_from_ok:
  assumes "ents_ok R ents" "ksl_elems ents = xs @ ys" "ksl_it_at ents it (length xs)" "length ys < fuel"
  shows "\<exists>ents' it'. acktr_remove_from fuel ents it = Ok (ents', it') \<and> ents_ok R ents' \<and> ksl_elems ents' = xs \<and>
    ksl_it_at ents' it' (length xs)"
  using assms
proof (induction fuel arbitrary: ents it ys)
  case (Suc fuel)
  note fin = ksl_it_end [OF Suc.prems(3)]
  show ?case
  proof (cases ys)
    case Nil
    then show ?thesis using Suc.prems fin by simp
  next
    case (Cons y zs)
    obtain k e where y: "y = (k, e)" by fastforce
    have g: "ngtcp2_ksl_it_get ents it = Ok e" using ksl_it_get [OF Suc.prems(3)] Suc.prems(2) Cons y by simp
    have es: "ksl_elems ents = xs @ (k, e) # zs" using Suc.prems(2) Cons y by simp
    obtain ents1 it1 where r: "ngtcp2_ksl_remove_hint i64_greater ents it (ae_pkt_num e) = Ok (ents1, None, Some it1)"
      "ents_ok R ents1" "ksl_elems ents1 = xs @ zs" "ksl_it_at ents1 it1 (length xs)"
      using ents_remove [OF Suc.prems(1) es Suc.prems(3)] by blast
    from Suc.IH [OF r(2,3,4)] Suc.prems(4) Cons obtain ents' it' where
      "acktr_remove_from fuel ents1 it1 = Ok (ents', it')" "ents_ok R ents'" "ksl_elems ents' = xs" "ksl_it_at ents' it' (length xs)" by auto
    then show ?thesis using fin es g r(1) by (intro exI [of _ ents'] exI [of _ it']) simp
  qed
qed simp

lemma ring_resize_ok:
  assumes "rb_ok rb" "len \<le> rb_len rb"
  shows "\<exists>rb'. ngtcp2_ringbuf_resize rb len = Ok rb' \<and> rb_ok rb' \<and> rb_elems rb' = take (unat len) (rb_elems rb)"
proof -
  obtain k where k: "k < 64" "rb_mask rb = mask k" "unat (rb_len rb) \<le> 2 ^ k" by (rule rb_okE [OF assms(1)])
  have "unat (rb_mask rb + 1) = 2 ^ k" using k(1,2) by (simp add: mask_add_1 unat_pow2)
  then have "len \<le> rb_mask rb + 1" using k(3) assms(2) by (simp add: word_le_nat_alt)
  moreover have "rb_ok (rb\<lparr>rb_len := len\<rparr>)" using assms by (auto simp: rb_ok_def rb_cap_def word_le_nat_alt)
  moreover have "rb_elems (rb\<lparr>rb_len := len\<rparr>) = take (unat len) (rb_elems rb)"
    using assms(2) by (simp add: rb_elems_def rb_cap_def take_map take_upt word_le_nat_alt)
  ultimately show ?thesis by (simp add: ngtcp2_ringbuf_resize_def)
qed

lemma length_rb_elems: "length (rb_elems rb) = unat (rb_len rb)"
  by (simp add: rb_elems_def)

lemma of_nat_less_len: "j < unat (n :: u64) \<Longrightarrow> word_of_nat j < n \<and> unat (word_of_nat j :: u64) = j"
proof -
  assume "j < unat n"
  then have "j < 2 ^ 64" using unat_bound64 [of n] by simp
  then have "unat (word_of_nat j :: u64) = j" by (simp add: unat_of_nat)
  then show ?thesis using \<open>j < unat n\<close> by (simp add: word_less_nat_alt)
qed

lemma ack_ent_at_ok:
  assumes "rb_ok (at_acks acktr)" "j < length (rb_elems (at_acks acktr))"
  shows "ack_ent_at acktr j = Ok (rb_elems (at_acks acktr) ! j)"
  using get_elems [OF assms(1), of "word_of_nat j"] of_nat_less_len [of j] assms(2) by (auto simp: ack_ent_at_def length_rb_elems)

lemma trim_ranges:
  assumes "ranges_ok (xs @ [(k, e)])" "\<forall>x \<in> set (xs @ [(k, e)]). la < sint (fst x)" "0 \<le> la" "e' = e\<lparr>ae_len := min (ae_len e) (nat (sint k - la))\<rparr>"
  shows "ranges_ok (xs @ [(k, e')])" "pn_set (xs @ [(k, e')]) = {n \<in> pn_set (xs @ [(k, e)]). la < n}"
proof -
  have k: "la < sint k" using assms(2) by simp
  show "ranges_ok (xs @ [(k, e')])" using assms(1,4) k by (auto simp: ent_ok_def apart_def)
  have "pn_range x = {n \<in> pn_range x. la < n}" if "x \<in> set xs" for x
    using assms(1) k that by (auto simp: pn_range_def apart_def)
  then have "pn_set xs = {n \<in> pn_set xs. la < n}" unfolding pn_set_def by blast
  moreover have "pn_range (k, e') = {n \<in> pn_range (k, e). la < n}"
    unfolding assms(4) using k by (intro set_eqI) (simp add: pn_range_def min_def, linarith)
  ultimately show "pn_set (xs @ [(k, e')]) = {n \<in> pn_set (xs @ [(k, e)]). la < n}" by auto
qed

lemma on_ack_ok:
  assumes ok: "acktr_ok R acktr" and j: "j < length (rb_elems (at_acks acktr))"
  shows "\<exists>acktr'. acktr_on_ack acktr j = Ok acktr' \<and> acktr_ok R acktr' \<and>
    tracked acktr' = {n \<in> tracked acktr. sint (aa_largest_ack (rb_elems (at_acks acktr) ! j)) < n} \<and>
    rb_elems (at_acks acktr') = take j (rb_elems (at_acks acktr)) \<and> at_max_pkt_num acktr' = at_max_pkt_num acktr"
proof -
  let ?a = "rb_elems (at_acks acktr) ! j" and ?ents = "at_ents acktr"
  let ?la = "sint (aa_largest_ack ?a)"
  have A: "rb_ok (at_acks acktr)" "0 \<le> ?la" "?la < 2 ^ 62" "ents_ok R ?ents"
    using ok nth_mem [OF j] by (auto simp: acktr_ok_def)
  note o = ents_okD [OF A(4)]
  note at = ack_ent_at_ok [OF A(1) j]
  obtain it xs ys where lb: "ngtcp2_ksl_lower_bound i64_greater ?ents (aa_largest_ack ?a) = Ok it" "ksl_it_at ?ents it (length xs)"
    and es: "ksl_elems ?ents = xs @ ys" and xs: "\<forall>x \<in> set xs. ?la < sint (fst x)" and ys: "\<forall>y \<in> set ys. sint (fst y) \<le> ?la"
    by (rule ents_lower_bound [OF A(4)])
  have "length ys < ngtcp2_ksl_len ?ents + 1" using ksl_len [OF o(1)] es by simp
  from remove_from_ok [OF A(4) es lb(2) this] obtain ents1 it1 where r:
    "acktr_remove_from (ngtcp2_ksl_len ?ents + 1) ?ents it = Ok (ents1, it1)" "ents_ok R ents1" "ksl_elems ents1 = xs"
    "ksl_it_at ents1 it1 (length xs)" by blast
  note o1 = ents_okD [OF r(2)]
  have low: "pn_set (xs @ ys) \<inter> {n. ?la < n} = pn_set xs \<inter> {n. ?la < n}"
    using ys by (fastforce simp: pn_set_def pn_range_def)
  have len: "rb_len (at_acks acktr) \<noteq> 0" "unat (word_of_nat j :: u64) = j" "word_of_nat j \<le> rb_len (at_acks acktr)"
    using of_nat_less_len [of j "rb_len (at_acks acktr)"] j by (auto simp: length_rb_elems)
  obtain rb' where rb: "ngtcp2_ringbuf_resize (at_acks acktr) (word_of_nat j) = Ok rb'" "rb_ok rb'"
    "rb_elems rb' = take j (rb_elems (at_acks acktr))" using ring_resize_ok [OF A(1) len(3)] len(2) by auto
  obtain ents2 where t: "acktr_trim ents1 it1 ?la = Ok ents2"
      "ents_ok R ents2" "pn_set (ksl_elems ents2) = {n \<in> tracked acktr. ?la < n}" "length (ksl_elems ents2) \<le> length (ksl_elems ?ents)"
  proof (cases xs rule: rev_cases)
    case Nil
    then show thesis using ksl_len [OF o1(1)] r(2,3) es low by (intro that [of ents1]) (auto simp: acktr_trim_def)
  next
    case (snoc us x)
    obtain k e where x: "x = (k, e)" by fastforce
    have l: "length xs = Suc (length us)" using snoc by simp
    obtain pit where pit: "ngtcp2_ksl_it_prev ents1 it1 = Ok pit" "ksl_it_at ents1 pit (length us)"
      using ksl_it_prev [OF o1(1), of it1 "length us"] r(4) l by auto
    have es1: "ksl_elems ents1 = us @ [(k, e)]" using r(3) snoc x by simp
    have g: "ngtcp2_ksl_it_get ents1 pit = Ok e" using ksl_it_get [OF pit(2)] es1 by simp
    have k: "ae_pkt_num e = k" "ent_ok (k, e)" using o1(2) es1 by (auto simp: ent_ok_def)
    have gt: "?la < sint k" using xs snoc x by simp
    have ck: "ck64 (?la + int (ae_len e)) = Ok (?la + int (ae_len e))"
      using k(2) A(2,3) by (intro ck64_Ok) (auto simp: ent_ok_def)
    define e' where "e' = e\<lparr>ae_len := min (ae_len e) (nat (sint k - ?la))\<rparr>"
    note tr = trim_ranges [OF _ _ A(2) e'_def, of us]
    have r': "ranges_ok (us @ [(k, e')])" "pn_set (us @ [(k, e')]) = {n \<in> pn_set (ksl_elems ents1). ?la < n}"
      using tr o1(2) xs snoc x unfolding es1 by simp_all
    have sub: "pn_set (us @ [(k, e')]) \<subseteq> sint ` R" unfolding r'(2) using o1(4) by blast
    note s = ents_store [OF r(2) es1 pit(2) r'(1) order.refl sub]
    have p: "{n \<in> pn_set (ksl_elems ents1). ?la < n} = {n \<in> tracked acktr. ?la < n}"
      using low unfolding r(3) es by blast
    have fin: "ngtcp2_ksl_it_end ents1 it1" using ksl_it_end [OF r(4)] r(3) by simp
    have n0: "ngtcp2_ksl_len ents1 \<noteq> 0" using ksl_len [OF o1(1)] es1 by simp
    show thesis
    proof (cases "sint k < ?la + int (ae_len e)")
      case True
      then have e': "e' = e\<lparr>ae_len := nat (sint k - ?la)\<rparr>" unfolding e'_def by (simp add: min_def)
      show thesis using n0 fin pit(1) g k(1) gt ck True s(1,2) r'(2) p es l es1 r(3)
        by (intro that [of "ksl_it_store ents1 pit e'"]) (simp_all add: e' acktr_trim_def)
    next
      case False
      then have e': "e' = e" unfolding e'_def by (simp add: min_def)
      show thesis using n0 fin pit(1) g k(1) gt ck False r(2,3) r'(2) p es l es1 e'
        by (intro that [of ents1]) (simp_all add: acktr_trim_def)
    qed
  qed
  let ?r = "acktr\<lparr>at_ents := ents2, at_acks := rb'\<rparr>"
  have "acktr_on_ack acktr j = Ok ?r"
    unfolding acktr_on_ack_def at bindR.simps lb(1) r(1) prod.case t(1) rb(1) using len(1) by (simp add: ngtcp2_ringbuf_len_def assertR_def)
  moreover have "acktr_ok R ?r" using ok t(2,3,4) rb(2,3)
    by (auto simp: acktr_ok_def dest: in_set_takeD intro: sorted_wrt_take)
  ultimately show ?thesis using t(3) rb(3) by simp
qed

lemma add_ack_ok:
  assumes ok: "acktr_ok R acktr" and b: "0 \<le> sint largest_ack" "sint largest_ack < 2 ^ 62"
    and new: "\<forall>a \<in> set (rb_elems (at_acks acktr)). sint (aa_pkt_num a) < sint pkt_num"
  shows "\<exists>acktr'. ngtcp2_acktr_add_ack acktr pkt_num largest_ack = Ok acktr' \<and> acktr_ok R acktr' \<and>
    at_ents acktr' = at_ents acktr \<and> at_max_pkt_num acktr' = at_max_pkt_num acktr \<and>
    (\<exists>n. rb_elems (at_acks acktr') = \<lparr>aa_largest_ack = largest_ack, aa_pkt_num = pkt_num\<rparr> # take n (rb_elems (at_acks acktr)))"
proof -
  let ?v = "\<lparr>aa_largest_ack = largest_ack, aa_pkt_num = pkt_num\<rparr>"
  obtain rb i where p: "ngtcp2_ringbuf_push_front (at_acks acktr) = Ok (rb, i)" "rb_ok (rb_store rb i ?v)"
    "rb_elems (rb_store rb i ?v) = ?v # (if ngtcp2_ringbuf_full (at_acks acktr) then butlast (rb_elems (at_acks acktr)) else rb_elems (at_acks acktr))"
    using push_front_ok [of "at_acks acktr" ?v] ok by (auto simp: acktr_ok_def)
  then obtain n where n: "rb_elems (rb_store rb i ?v) = ?v # take n (rb_elems (at_acks acktr))"
    by (metis butlast_conv_take take_all_iff order.refl)
  have "acktr_ok R (acktr\<lparr>at_acks := rb_store rb i ?v\<rparr>)" using ok p(2) n b new
    by (auto simp: acktr_ok_def dest: in_set_takeD intro: sorted_wrt_take)
  then show ?thesis using p(1) n by (auto simp: ngtcp2_acktr_add_ack_def)
qed

end
