(* ===== verification/Acktr_Correct.thy ===== *)
theory Acktr_Correct
  imports Acktr_Ents
begin

text \<open>
  The ACK frames of \<open>lib/ngtcp2_acktr.c\<close>: which received ACK frame acknowledges which sent one, and which packet numbers
  the frames it writes acknowledge. The runs of the tracker are the inductive relation \<open>acktr_reach\<close>.
\<close>

text \<open>The packet numbers a frame acknowledges.\<close>

definition acks_pkt :: "ngtcp2_ack \<Rightarrow> int \<Rightarrow> bool" where
  "acks_pkt fr n = (\<exists>(hi, lo) \<in> set (acked_intervals fr). lo \<le> n \<and> n \<le> hi)"

abbreviation (input) sent_acks :: "ngtcp2_acktr \<Rightarrow> ngtcp2_acktr_ack_entry list" where
  "sent_acks acktr \<equiv> rb_elems (at_acks acktr)"

abbreviation (input) ack_pn :: "ngtcp2_acktr_ack_entry list \<Rightarrow> nat \<Rightarrow> int" where
  "ack_pn es i \<equiv> sint (aa_pkt_num (es ! i))"

fun recv_step_ok :: "ngtcp2_acktr_ack_entry list \<Rightarrow> nat \<Rightarrow> int \<Rightarrow> int \<Rightarrow> recv_step \<Rightarrow> bool" where
  "recv_step_ok es j hi lo Recv_done = (\<forall>i \<in> {j ..< length es}. hi < ack_pn es i)"
| "recv_step_ok es j hi lo (Recv_hit k) =
     (j \<le> k \<and> k < length es \<and> lo \<le> ack_pn es k \<and> ack_pn es k \<le> hi \<and> (\<forall>i \<in> {j ..< k}. hi < ack_pn es i))"
| "recv_step_ok es j hi lo (Recv_below k ent) =
     (j \<le> k \<and> k < length es \<and> ent = es ! k \<and> ack_pn es k < lo \<and> (\<forall>i \<in> {j ..< k}. hi < ack_pn es i))"

lemma ball_from_Suc: "\<forall>i \<in> {Suc j ..< n}. Q i \<Longrightarrow> Q j \<Longrightarrow> \<forall>i \<in> {j ..< n}. Q i" for n :: nat
proof
  fix i assume "\<forall>i \<in> {Suc j ..< n}. Q i" "Q j" "i \<in> {j ..< n}"
  then show "Q i" by (cases "i = j") auto
qed

lemma recv_step_ok_Suc: "recv_step_ok es (Suc j) hi lo s \<Longrightarrow> hi < ack_pn es j \<Longrightarrow> recv_step_ok es j hi lo s"
proof -
  assume h: "recv_step_ok es (Suc j) hi lo s" "hi < ack_pn es j"
  have b: "\<forall>i \<in> {j ..< n}. hi < ack_pn es i" if "\<forall>i \<in> {Suc j ..< n}. hi < ack_pn es i" for n
    using ball_from_Suc [OF that h(2)] .
  show ?thesis
  proof (cases s)
    case Recv_done
    then show ?thesis using h(1) b [of "length es"] by (simp only: recv_step_ok.simps)
  next
    case (Recv_hit k)
    then show ?thesis using h(1) b [of k] by (metis recv_step_ok.simps(2) Suc_leD)
  next
    case (Recv_below k ent)
    then show ?thesis using h(1) b [of k] by (metis recv_step_ok.simps(3) Suc_leD)
  qed
qed

lemma recv_range_ok:
  assumes "rb_ok (at_acks acktr)" "j < length (sent_acks acktr)"
  shows "\<exists>s. acktr_recv_range acktr (length (sent_acks acktr)) j (sent_acks acktr ! j) hi lo = Ok s \<and>
    recv_step_ok (sent_acks acktr) j hi lo s"
  using assms(2)
proof (induction "length (sent_acks acktr) - j" arbitrary: j)
  case (Suc n)
  let ?es = "sent_acks acktr"
  let ?r = "acktr_recv_range acktr (length ?es)"
  note step = acktr_recv_range.simps [of acktr "length ?es" j "?es ! j" hi lo]
  consider "ack_pn ?es j \<le> hi" | "hi < ack_pn ?es j" "length ?es = Suc j" | "hi < ack_pn ?es j" "Suc j < length ?es"
    using Suc.prems by linarith
  then show ?case
  proof cases
    case 1
    then have "?r j (?es ! j) hi lo = Ok (if ack_pn ?es j < lo then Recv_below j (?es ! j) else Recv_hit j)" by (simp add: step)
    then show ?thesis using Suc.prems 1 by simp
  next
    case 2
    then have "?r j (?es ! j) hi lo = Ok Recv_done" by (subst step) simp
    then show ?thesis using 2 by (auto simp: less_Suc_eq)
  next
    case 3
    have "?r j (?es ! j) hi lo = ?r (Suc j) (?es ! Suc j) hi lo"
      using 3 ack_ent_at_ok [OF assms(1) 3(2)] by (subst step) simp
    moreover have "n = length ?es - Suc j" using Suc.hyps(2) by simp
    then obtain s where "?r (Suc j) (?es ! Suc j) hi lo = Ok s" "recv_step_ok ?es (Suc j) hi lo s"
      using Suc.hyps(1) [of "Suc j"] 3(2) by blast
    ultimately show ?thesis using recv_step_ok_Suc [OF _ 3(1)] by auto
  qed
qed simp

text \<open>Either no entry from \<open>j\<close> on has a packet number in \<open>P\<close> and nothing changes, or the first one with it takes effect.\<close>

definition recv_result :: "ngtcp2_acktr \<Rightarrow> nat \<Rightarrow> (int \<Rightarrow> bool) \<Rightarrow> ngtcp2_acktr res \<Rightarrow> bool" where
  "recv_result acktr j P r =
     ((\<forall>i \<in> {j ..< length (sent_acks acktr)}. \<not> P (ack_pn (sent_acks acktr) i)) \<and> r = Ok acktr \<or>
      (\<exists>k \<in> {j ..< length (sent_acks acktr)}. P (ack_pn (sent_acks acktr) k) \<and>
        (\<forall>i \<in> {j ..< k}. \<not> P (ack_pn (sent_acks acktr) i)) \<and> r = acktr_on_ack acktr k))"

lemma recv_result_skip:
  assumes "recv_result acktr k P r" "j \<le> k" "k \<le> length (sent_acks acktr)" "\<forall>i \<in> {j ..< k}. \<not> P (ack_pn (sent_acks acktr) i)"
  shows "recv_result acktr j P r"
proof -
  have u: "{j ..< n} = {j ..< k} \<union> {k ..< n}" if "k \<le> n" for n using assms(2) that by auto
  from assms(1) [unfolded recv_result_def] show ?thesis
  proof (elim disjE bexE conjE)
    assume "\<forall>i \<in> {k ..< length (sent_acks acktr)}. \<not> P (ack_pn (sent_acks acktr) i)" "r = Ok acktr"
    then show ?thesis using assms(4) unfolding recv_result_def u [OF assms(3)] by blast
  next
    fix l assume l: "l \<in> {k ..< length (sent_acks acktr)}" "P (ack_pn (sent_acks acktr) l)" "r = acktr_on_ack acktr l"
      "\<forall>i \<in> {k ..< l}. \<not> P (ack_pn (sent_acks acktr) i)"
    then have "\<forall>i \<in> {j ..< l}. \<not> P (ack_pn (sent_acks acktr) i)" using assms(4) u [of l] by (metis UnE atLeastLessThan_iff)
    then show ?thesis using l assms(2) unfolding recv_result_def by (intro disjI2 bexI [of _ l]) auto
  qed
qed

lemma recv_result_cong:
  assumes "recv_result acktr k Q r" "\<And>i. i \<in> {k ..< length (sent_acks acktr)} \<Longrightarrow> P (ack_pn (sent_acks acktr) i) \<longleftrightarrow> Q (ack_pn (sent_acks acktr) i)"
  shows "recv_result acktr k P r"
proof -
  from assms(1) [unfolded recv_result_def] show ?thesis
  proof (elim disjE bexE conjE)
    fix l assume l: "l \<in> {k ..< length (sent_acks acktr)}" "Q (ack_pn (sent_acks acktr) l)" "r = acktr_on_ack acktr l"
      "\<forall>i \<in> {k ..< l}. \<not> Q (ack_pn (sent_acks acktr) i)"
    have "\<not> P (ack_pn (sent_acks acktr) i)" if "i \<in> {k ..< l}" for i using l(1,4) that assms(2) [of i] by auto
    then show ?thesis using l assms(2) [OF l(1)] unfolding recv_result_def by (intro disjI2 bexI [of _ l]) auto
  qed (use assms(2) in \<open>auto simp: recv_result_def\<close>)
qed

lemma recv_ranges_ok:
  assumes "rb_ok (at_acks acktr)" "uvs_ok (ack_range_fields rs)" "0 \<le> lo" "lo < 2 ^ 62"
    "sorted_wrt (\<lambda>a b. sint (aa_pkt_num b) < sint (aa_pkt_num a)) (sent_acks acktr)"
    "\<forall>(hi, l) \<in> set (ack_intervals lo rs). 0 \<le> l"
    "j < length (sent_acks acktr)" "ack_pn (sent_acks acktr) j < lo"
  shows "recv_result acktr j (\<lambda>n. \<exists>(hi, l) \<in> set (ack_intervals lo rs). l \<le> n \<and> n \<le> hi)
    (acktr_recv_ranges acktr (length (sent_acks acktr)) j (sent_acks acktr ! j) lo rs)"
  using assms(2-4,6-)
proof (induction rs arbitrary: lo j)
  case Nil
  then show ?case by (simp add: recv_result_def)
next
  case (Cons r rs)
  let ?es = "sent_acks acktr" and ?g = "sint (ar_gap r)" and ?n = "sint (ar_len r)"
  define hi where "hi = lo - (?g + 2)"
  define lo' where "lo' = hi - ?n"
  let ?P = "\<lambda>n. \<exists>(hi, l) \<in> set (ack_intervals lo (r # rs)). l \<le> n \<and> n \<le> hi"
  let ?Q = "\<lambda>n. \<exists>(hi, l) \<in> set (ack_intervals lo' rs). l \<le> n \<and> n \<le> hi"
  have P: "?P n \<longleftrightarrow> lo' \<le> n \<and> n \<le> hi \<or> ?Q n" for n by (auto simp: Let_def hi_def lo'_def)
  have g: "0 \<le> ?g" "0 \<le> ?n" "?g < 2 ^ 62" "?n < 2 ^ 62" using Cons.prems(1) sint_varint by auto
  have v: "0 \<le> lo'" "\<forall>(hi, l) \<in> set (ack_intervals lo' rs). 0 \<le> l" "uvs_ok (ack_range_fields rs)"
    using Cons.prems(1,4) by (auto simp: Let_def hi_def lo'_def)
  have ck: "ck64 (lo - ?g) = Ok (lo - ?g)" "ck64 (lo - ?g - 2) = Ok hi" "ck64 (hi - ?n) = Ok lo'"
    using v(1) g Cons.prems(3) unfolding hi_def lo'_def by (subst ck64_Ok; simp)+
  have above: "\<not> ?P n" if "hi < n" for n using that intervals_descend [OF v(3), of _ _ lo'] g(2) unfolding P by (fastforce simp: lo'_def)
  obtain s where s: "acktr_recv_range acktr (length ?es) j (?es ! j) hi lo' = Ok s" "recv_step_ok ?es j hi lo' s"
    using recv_range_ok [OF assms(1) Cons.prems(5)] by blast
  show ?case
  proof (cases s)
    case Recv_done
    then show ?thesis using s above unfolding recv_result_def by (simp add: ck)
  next
    case (Recv_hit k)
    then have "?P (ack_pn ?es k)" using s(2) unfolding P by simp
    then show ?thesis using s above Recv_hit unfolding recv_result_def by (intro disjI2 bexI [of _ k]) (simp_all add: ck)
  next
    case (Recv_below k ent)
    then have k: "j \<le> k" "k < length ?es" "ent = ?es ! k" "ack_pn ?es k < lo'" "\<forall>i \<in> {j ..< k}. hi < ack_pn ?es i" using s(2) by simp_all
    have "lo' < 2 ^ 62" using Cons.prems(3) g unfolding lo'_def hi_def by simp
    from Cons.IH [OF v(3,1) this v(2) k(2,4)]
    have r: "recv_result acktr k ?Q (acktr_recv_ranges acktr (length ?es) k (?es ! k) lo' rs)" .
    have le: "ack_pn ?es i \<le> ack_pn ?es k" if "i \<in> {k ..< length ?es}" for i
      using sorted_wrt_nth_less [OF assms(5), of k i] that by (cases "i = k") auto
    then have eq: "?P (ack_pn ?es i) \<longleftrightarrow> ?Q (ack_pn ?es i)" if "i \<in> {k ..< length ?es}" for i
      using that k(4) unfolding P by fastforce
    have "recv_result acktr k ?P (acktr_recv_ranges acktr (length ?es) k (?es ! k) lo' rs)"
      by (rule recv_result_cong [OF r eq])
    then have "recv_result acktr j ?P (acktr_recv_ranges acktr (length ?es) k (?es ! k) lo' rs)"
      by (rule recv_result_skip) (use k above in auto)
    then show ?thesis using s Recv_below k(3) by (simp add: ck)
  qed
qed

lemma recv_first_ok:
  assumes "rb_ok (at_acks acktr)" "j \<le> length (sent_acks acktr)"
  shows "\<exists>r. acktr_recv_first acktr (length (sent_acks acktr)) hi j = Ok r \<and>
    (case r of None \<Rightarrow> \<forall>i \<in> {j ..< length (sent_acks acktr)}. hi < ack_pn (sent_acks acktr) i
     | Some (k, ent) \<Rightarrow> k \<in> {j ..< length (sent_acks acktr)} \<and> ent = sent_acks acktr ! k \<and> ack_pn (sent_acks acktr) k \<le> hi \<and>
         (\<forall>i \<in> {j ..< k}. hi < ack_pn (sent_acks acktr) i))"
  using assms(2)
proof (induction "length (sent_acks acktr) - j" arbitrary: j)
  case 0
  then show ?case by (simp add: acktr_recv_first.simps)
next
  case (Suc n)
  let ?es = "sent_acks acktr"
  let ?r = "acktr_recv_first acktr (length ?es) hi"
  have j: "j < length ?es" using Suc.hyps(2) by simp
  note at = ack_ent_at_ok [OF assms(1) j]
  show ?case
  proof (cases "ack_pn ?es j \<le> hi")
    case True
    then have "?r j = Ok (Some (j, ?es ! j))" using j at by (subst acktr_recv_first.simps) simp
    then show ?thesis using True j by simp
  next
    case False
    have r: "?r j = ?r (Suc j)" using False j at by (subst acktr_recv_first.simps) simp
    have "n = length ?es - Suc j" "Suc j \<le> length ?es" using Suc.hyps(2) j by simp_all
    from Suc.hyps(1) [OF this] obtain x where x: "?r (Suc j) = Ok x"
      "case x of None \<Rightarrow> \<forall>i \<in> {Suc j ..< length ?es}. hi < ack_pn ?es i
       | Some (k, ent) \<Rightarrow> k \<in> {Suc j ..< length ?es} \<and> ent = ?es ! k \<and> ack_pn ?es k \<le> hi \<and> (\<forall>i \<in> {Suc j ..< k}. hi < ack_pn ?es i)" by blast
    have "hi < ack_pn ?es j" using False by simp
    then show ?thesis using x r ball_from_Suc [of j _ "\<lambda>i. hi < ack_pn ?es i"] by (cases x) auto
  qed
qed

lemma recv_ack_result:
  assumes ok: "acktr_ok R acktr" and fr: "ack_decoded fr" "ngtcp2_pkt_validate_ack fr m = Ok ()"
  shows "recv_result acktr 0 (acks_pkt fr) (ngtcp2_acktr_recv_ack acktr fr)"
proof -
  let ?es = "sent_acks acktr" and ?hi = "sint (ack_largest_ack fr)" and ?n = "sint (ack_first_ack_range fr)"
  define lo where "lo = ?hi - ?n"
  have A: "rb_ok (at_acks acktr)" "sorted_wrt (\<lambda>a b. sint (aa_pkt_num b) < sint (aa_pkt_num a)) ?es" using ok by (auto simp: acktr_ok_def)
  have u: "uvs_ok (ack_range_fields (ack_ranges fr))" "0 \<le> ?n" "?hi < 2 ^ 62" using fr(1) sint_varint by (auto simp: ack_decoded_def)
  have v: "0 \<le> lo" "\<forall>(hi, l) \<in> set (ack_intervals lo (ack_ranges fr)). 0 \<le> l"
    using validate_ack_iff [OF fr(1), of m] fr(2) by (auto simp: acked_intervals_def Let_def lo_def)
  let ?Q = "\<lambda>n. \<exists>(hi, l) \<in> set (ack_intervals lo (ack_ranges fr)). l \<le> n \<and> n \<le> hi"
  have P: "acks_pkt fr n \<longleftrightarrow> lo \<le> n \<and> n \<le> ?hi \<or> ?Q n" for n by (auto simp: acks_pkt_def acked_intervals_def Let_def lo_def)
  have ck: "ck64 (?hi - ?n) = Ok lo" using v(1) u unfolding lo_def by (intro ck64_Ok) auto
  have above: "\<not> acks_pkt fr n" if "?hi < n" for n
    using that intervals_descend [OF u(1), of _ _ lo] u(2) unfolding P by (fastforce simp: lo_def)
  have len: "unat (ngtcp2_ringbuf_len (at_acks acktr)) = length ?es" by (simp add: ngtcp2_ringbuf_len_def length_rb_elems)
  obtain r where r: "acktr_recv_first acktr (length ?es) ?hi 0 = Ok r"
    "case r of None \<Rightarrow> \<forall>i \<in> {0 ..< length ?es}. ?hi < ack_pn ?es i
     | Some (k, ent) \<Rightarrow> k \<in> {0 ..< length ?es} \<and> ent = ?es ! k \<and> ack_pn ?es k \<le> ?hi \<and> (\<forall>i \<in> {0 ..< k}. ?hi < ack_pn ?es i)"
    using recv_first_ok [OF A(1), of 0] by blast
  show ?thesis
  proof (cases r)
    case None
    then show ?thesis using r above by (simp add: recv_result_def ngtcp2_acktr_recv_ack_def len)
  next
    case (Some x)
    then obtain k where k: "x = (k, ?es ! k)" "k < length ?es" "ack_pn ?es k \<le> ?hi" "\<forall>i \<in> {0 ..< k}. ?hi < ack_pn ?es i" using r(2) by (cases x) auto
    have skip: "\<forall>i \<in> {0 ..< k}. \<not> acks_pkt fr (ack_pn ?es i)" using k(4) above by blast
    have run: "ngtcp2_acktr_recv_ack acktr fr = (if lo \<le> ack_pn ?es k then acktr_on_ack acktr k
       else acktr_recv_ranges acktr (length ?es) k (?es ! k) lo (ack_ranges fr))"
      using r(1) Some k(1) ck by (simp add: ngtcp2_acktr_recv_ack_def len)
    show ?thesis
    proof (cases "lo \<le> ack_pn ?es k")
      case True
      then have "acks_pkt fr (ack_pn ?es k)" using k(3) P by blast
      then show ?thesis using True run k(2) skip unfolding recv_result_def by (intro disjI2 bexI [of _ k]) auto
    next
      case False
      then have lt: "ack_pn ?es k < lo" by simp
      have "lo < 2 ^ 62" using u unfolding lo_def by simp
      from recv_ranges_ok [OF A(1) u(1) v(1) this A(2) v(2) k(2) lt]
      have q: "recv_result acktr k ?Q (ngtcp2_acktr_recv_ack acktr fr)" using run False by simp
      have le: "ack_pn ?es i \<le> ack_pn ?es k" if "i \<in> {k ..< length ?es}" for i
        using sorted_wrt_nth_less [OF A(2), of k i] that by (cases "i = k") auto
      then have eq: "acks_pkt fr (ack_pn ?es i) \<longleftrightarrow> ?Q (ack_pn ?es i)" if "i \<in> {k ..< length ?es}" for i
        using that lt unfolding P by fastforce
      have "recv_result acktr k (acks_pkt fr) (ngtcp2_acktr_recv_ack acktr fr)" by (rule recv_result_cong [OF q eq])
      then show ?thesis by (rule recv_result_skip) (use k skip in auto)
    qed
  qed
qed

section \<open>The frame\<close>

lemma sint_of_small: "0 \<le> x \<Longrightarrow> x < 2 ^ 62 \<Longrightarrow> sint (word_of_int x :: u64) = x"
  by (simp add: signed_of_int signed_take_bit_int_eq_self)

lemma sint_of_small_nat: "n < 2 ^ 62 \<Longrightarrow> sint (word_of_nat n :: u64) = int n"
  using sint_of_small [of "int n"] by simp

lemma small_varint: "0 \<le> x \<Longrightarrow> x < 2 ^ 62 \<Longrightarrow> (word_of_int x :: u64) \<le> varint_max"
  by (simp add: varint_max_def word_le_def uint_word_of_int)

lemma small_varint_nat: "n < 2 ^ 62 \<Longrightarrow> (word_of_nat n :: u64) \<le> varint_max"
  using small_varint [of "int n"] by simp

abbreviation (input) ent_interval :: "i64 \<times> ngtcp2_acktr_entry \<Rightarrow> int \<times> int" where
  "ent_interval x \<equiv> (sint (fst x), sint (fst x) - int (ae_len (snd x) - 1))"

lemma ack_ranges_ok:
  assumes "ents_ok R ents" "ksl_elems ents = xs @ ys" "ksl_it_at ents it (length xs)" "n \<le> length ys"
    "\<forall>y \<in> set ys. sint (fst y) + 2 \<le> last_pn" "last_pn < 2 ^ 62"
  shows "\<exists>rs. acktr_ack_ranges n ents it last_pn = Ok rs \<and> length rs = n \<and> uvs_ok (ack_range_fields rs) \<and>
    ack_intervals last_pn rs = map ent_interval (take n ys)"
  using assms(2-)
proof (induction n arbitrary: it last_pn xs ys)
  case (Suc n)
  note o = ents_okD [OF assms(1)]
  obtain k e zs where ys: "ys = (k, e) # zs" using Suc.prems(3) by (cases ys) auto
  have g: "ngtcp2_ksl_it_get ents it = Ok e" using ksl_it_get [OF Suc.prems(2)] Suc.prems(1) ys by simp
  have k: "ae_pkt_num e = k" "ent_ok (k, e)" using o(2) Suc.prems(1) ys by (auto simp: ent_ok_def)
  define lo where "lo = sint k - int (ae_len e - 1)"
  have l: "0 \<le> lo" "lo \<le> sint k" "ae_len e - 1 < 2 ^ 62" "sint k + 2 \<le> last_pn"
    using k(2) Suc.prems(4) ys unfolding lo_def by (auto simp: ent_ok_def)
  have ck: "ck64 (last_pn - sint k) = Ok (last_pn - sint k)" "ck64 (last_pn - sint k - 2) = Ok (last_pn - sint k - 2)" "ck64 (sint k - int (ae_len e - 1)) = Ok lo"
    using l Suc.prems(5) unfolding lo_def by (subst ck64_Ok; simp)+
  have at: "ksl_it_at ents (ngtcp2_ksl_it_next ents it) (length (xs @ [(k, e)]))"
    using ksl_it_next [OF o(1) Suc.prems(2)] Suc.prems(1) ys by simp
  have es: "ksl_elems ents = (xs @ [(k, e)]) @ zs" using Suc.prems(1) ys by simp
  have below: "\<forall>y \<in> set zs. sint (fst y) + 2 \<le> lo"
    using o(2) k(2) unfolding es lo_def by (auto simp: apart_def ent_ok_def of_nat_diff)
  have "lo < 2 ^ 62" using l Suc.prems(5) by simp
  from Suc.IH [OF es at _ below this] Suc.prems(3) ys obtain rs where rs:
    "acktr_ack_ranges n ents (ngtcp2_ksl_it_next ents it) lo = Ok rs" "length rs = n" "uvs_ok (ack_range_fields rs)"
    "ack_intervals lo rs = map ent_interval (take n zs)" by auto
  let ?r = "\<lparr>ar_gap = word_of_int (last_pn - sint k - 2), ar_len = word_of_nat (ae_len e - 1)\<rparr> :: ngtcp2_ack_range"
  have f: "sint (ar_gap ?r) = last_pn - sint k - 2" "sint (ar_len ?r) = int (ae_len e - 1)"
    "ar_gap ?r \<le> varint_max" "ar_len ?r \<le> varint_max"
    using l k(2) Suc.prems(5) unfolding ngtcp2_ack_range.simps
    by (intro sint_of_small sint_of_small_nat small_varint small_varint_nat; auto simp: ent_ok_def)+
  have "acktr_ack_ranges (Suc n) ents it last_pn = Ok (?r # rs)" using g k(1) ck rs(1) by simp
  moreover have "ack_intervals last_pn (?r # rs) = map ent_interval (take (Suc n) ys)"
    using f(1,2) rs(4) ys unfolding ack_intervals.simps lo_def by (simp add: Let_def)
  ultimately show ?case using rs f(3,4) by (intro exI [of _ "?r # rs"]) simp
qed simp

lemma pn_range_interval: "ent_ok x \<Longrightarrow> n \<in> pn_range x \<longleftrightarrow> snd (ent_interval x) \<le> n \<and> n \<le> fst (ent_interval x)"
  by (auto simp: pn_range_def ent_ok_def of_nat_diff)

lemma first_range_ok:
  assumes ok: "acktr_ok R acktr" and es: "ksl_elems (at_ents acktr) = (k, e) # ys"
  shows "\<exists>lo ts far used. acktr_first_range acktr e = Ok (lo, ts, at_max_pkt_num acktr, far, used) \<and> far \<le> varint_max \<and>
    lo = sint (at_max_pkt_num acktr) - sint far \<and> 0 \<le> lo \<and> 0 \<le> sint far \<and>
    (\<forall>y \<in> set (if used then ys else (k, e) # ys). sint (fst y) + 2 \<le> lo) \<and>
    (if used then {lo .. sint (at_max_pkt_num acktr)} = insert (sint (at_max_pkt_num acktr)) (pn_range (k, e)) else far = 0)"
proof -
  let ?m = "sint (at_max_pkt_num acktr)"
  have r: "ranges_ok ((k, e) # ys)" using ok ents_okD(2) es by (fastforce simp: acktr_ok_def)
  have k: "ae_pkt_num e = k" "ent_ok (k, e)" using r by (auto simp: ent_ok_def)
  have "sint k \<in> pn_range (k, e)" using k(2) by (simp add: pn_range_def ent_ok_def)
  then have m: "sint k \<le> ?m" "?m < 2 ^ 62" using ok es by (auto simp: acktr_ok_def)
  have len: "ae_len e < 2 ^ 62 + 1" "1 \<le> ae_len e" "int (ae_len e) \<le> sint k + 1" using k(2) m by (auto simp: ent_ok_def)
  have low: "sint (fst y) + 2 \<le> sint k - int (ae_len e - 1)" if "y \<in> set ys" for y
    using r that len(2) by (auto simp: apart_def of_nat_diff)
  have ck: "ck64 (sint k - int (ae_len e - 1)) = Ok (sint k - int (ae_len e - 1))" "ck64 (sint k + 1) = Ok (sint k + 1)"
    using len m by (intro ck64_Ok; simp)+
  consider "k = at_max_pkt_num acktr" | "sint k + 1 = ?m" "k \<noteq> at_max_pkt_num acktr" | "sint k + 1 < ?m" "k \<noteq> at_max_pkt_num acktr"
    using m(1) by (metis order_le_less signed_word_eqI zless_imp_add1_zle)
  then show ?thesis
  proof cases
    case 1
    have s: "sint (word_of_nat (ae_len e - 1) :: u64) = int (ae_len e - 1)" "(word_of_nat (ae_len e - 1) :: u64) \<le> varint_max"
      using len by (intro sint_of_small_nat small_varint_nat; simp)+
    have "acktr_first_range acktr e = Ok (sint k - int (ae_len e - 1), ae_tstamp e, at_max_pkt_num acktr, word_of_nat (ae_len e - 1), True)"
      using 1 k(1) ck by (simp add: acktr_first_range_def)
    moreover have "{sint k - int (ae_len e - 1) .. ?m} = insert ?m (pn_range (k, e))" using 1 len by (auto simp: pn_range_def of_nat_diff)
    ultimately show ?thesis using s low 1 len by (intro exI conjI) auto
  next
    case 2
    have "ae_len e < 2 ^ 62" using 2(1) len m by simp
    then have s: "sint (word_of_nat (ae_len e) :: u64) = int (ae_len e)" "(word_of_nat (ae_len e) :: u64) \<le> varint_max"
      by (intro sint_of_small_nat small_varint_nat; simp)+
    have lo: "sint k - int (ae_len e - 1) = ?m - int (ae_len e)" using 2(1) len(2) by (simp add: of_nat_diff)
    have "acktr_first_range acktr e = Ok (?m - int (ae_len e), at_max_pkt_ts acktr, at_max_pkt_num acktr, word_of_nat (ae_len e), True)"
      using 2 k(1) ck lo by (simp add: acktr_first_range_def)
    moreover have "{?m - int (ae_len e) .. ?m} = insert ?m (pn_range (k, e))" using 2(1) len by (auto simp: pn_range_def)
    moreover have "0 \<le> ?m - int (ae_len e)" using 2(1) len by simp
    ultimately show ?thesis using s low [unfolded lo] by (intro exI conjI) auto
  next
    case 3
    have "acktr_first_range acktr e = Ok (?m, at_max_pkt_ts acktr, at_max_pkt_num acktr, 0, False)"
      using 3 k(1) ck by (simp add: acktr_first_range_def)
    moreover have "sint (fst y) + 2 \<le> ?m" if "y \<in> set ys" for y using low [OF that] 3(1) by linarith
    ultimately show ?thesis using 3 len by (intro exI conjI) (auto simp: varint_max_def)
  qed
qed

lemma intervals_acked:
  assumes "\<forall>x \<in> set es. ent_ok x"
  shows "(\<exists>(hi, l) \<in> set (map ent_interval es). l \<le> n \<and> n \<le> hi) \<longleftrightarrow> n \<in> pn_set es"
  using assms by (auto simp: pn_set_def pn_range_interval)

text \<open>Whether a frame is due.\<close>

definition ack_due :: "ngtcp2_acktr \<Rightarrow> u64 \<Rightarrow> u64 \<Rightarrow> bool" where
  "ack_due acktr delay ts =
     ngtcp2_acktr_require_active_ack acktr (if at_flags acktr AND NGTCP2_ACKTR_FLAG_IMMEDIATE_ACK \<noteq> 0 then 0 else delay) ts"

lemma create_ack_frame_ok:
  assumes ok: "acktr_ok R acktr" and due: "ack_due acktr delay ts" and ne: "ksl_elems (at_ents acktr) \<noteq> []" and ex: "expo < 64"
  shows "\<exists>fr. ngtcp2_acktr_create_ack_frame acktr ack type ts delay expo = Ok (acktr, Some fr) \<and> ack_decoded fr \<and>
    length (ack_ranges fr) \<le> NGTCP2_MAX_ACK_RANGES \<and> ack_largest_ack fr = at_max_pkt_num acktr \<and>
    (\<forall>n. acks_pkt fr n \<longrightarrow> 0 \<le> n) \<and> (\<forall>(hi, lo) \<in> set (acked_intervals fr). lo \<le> hi) \<and>
    (\<forall>n \<in> pn_set (take NGTCP2_MAX_ACK_RANGES (ksl_elems (at_ents acktr))). acks_pkt fr n) \<and>
    (\<forall>n. acks_pkt fr n \<longrightarrow> n = sint (at_max_pkt_num acktr) \<or> n \<in> tracked acktr)"
proof -
  let ?ents = "at_ents acktr" and ?m = "sint (at_max_pkt_num acktr)"
  have A: "ents_ok R ?ents" "length (ksl_elems ?ents) \<le> 33" "?m < 2 ^ 62" using ok by (auto simp: acktr_ok_def)
  note o = ents_okD [OF A(1)]
  obtain k e ys where es: "ksl_elems ?ents = (k, e) # ys" using ne by (cases "ksl_elems ?ents") auto
  obtain lo ts' far used where f: "acktr_first_range acktr e = Ok (lo, ts', at_max_pkt_num acktr, far, used)" "far \<le> varint_max"
    "lo = ?m - sint far" "0 \<le> lo" "0 \<le> sint far"
    "\<forall>y \<in> set (if used then ys else (k, e) # ys). sint (fst y) + 2 \<le> lo"
    "if used then {lo .. ?m} = insert ?m (pn_range (k, e)) else far = 0"
    using first_range_ok [OF ok es] by blast
  have m0: "0 \<le> ?m" "at_max_pkt_num acktr \<le> varint_max"
  proof -
    show "0 \<le> ?m" using f(3,4,5) by simp
    then show "at_max_pkt_num acktr \<le> varint_max" using small_varint [of ?m] A(3) by simp
  qed
  define it where "it = ngtcp2_ksl_begin ?ents"
  have at: "ksl_it_at ?ents it 0" unfolding it_def by (rule ksl_begin_at [OF o(1)])
  have g: "ngtcp2_ksl_it_get ?ents it = Ok e" "\<not> ngtcp2_ksl_it_end ?ents it" using ksl_it_get [OF at] ksl_it_end [OF at] es by simp_all
  define it' where "it' = (if used then ngtcp2_ksl_it_next ?ents it else it)"
  define zs where "zs = (if used then ys else (k, e) # ys)"
  define xs where "xs = (if used then [(k, e)] else [])"
  have at': "ksl_it_at ?ents it' (length xs)" "ksl_elems ?ents = xs @ zs"
    using ksl_it_next [OF o(1) at] at es by (auto simp: it'_def xs_def zs_def)
  define n where "n = min (length zs) 32"
  have num: "min (if used then ngtcp2_ksl_len ?ents - 1 else ngtcp2_ksl_len ?ents) NGTCP2_MAX_ACK_RANGES = n"
    using ksl_len [OF o(1)] es by (simp add: n_def zs_def NGTCP2_MAX_ACK_RANGES_def)
  have below: "\<forall>y \<in> set zs. sint (fst y) + 2 \<le> lo" using f(6) by (simp add: zs_def)
  have "lo < 2 ^ 62" using f(3,5) A(3) by simp
  then obtain rs where rs: "acktr_ack_ranges n ?ents it' lo = Ok rs" "length rs = n" "uvs_ok (ack_range_fields rs)"
    "ack_intervals lo rs = map ent_interval (take n zs)"
    using ack_ranges_ok [OF A(1) at'(2,1) _ below, of n] by (auto simp: n_def)
  obtain fr where fr: "ngtcp2_acktr_create_ack_frame acktr ack type ts delay expo = Ok (acktr, Some fr)"
    "ack_largest_ack fr = at_max_pkt_num acktr" "ack_first_ack_range fr = far" "ack_ranges fr = rs"
    using due g f(1) ex rs(1) num unfolding ngtcp2_acktr_create_ack_frame_def ack_due_def
    by (simp add: Let_def ngtcp2_acktr_get_def it_def [symmetric] it'_def [symmetric])
  have iv: "acked_intervals fr = (?m, lo) # map ent_interval (take n zs)"
    using fr(2,3,4) f(3) rs(4) by (simp add: acked_intervals_def Let_def)
  have eo: "\<forall>x \<in> set (take n zs). ent_ok x" using o(2) at'(2) by (auto simp: ranges_ok_def dest: in_set_takeD)
  have P: "acks_pkt fr i \<longleftrightarrow> lo \<le> i \<and> i \<le> ?m \<or> i \<in> pn_set (take n zs)" for i
    using intervals_acked [OF eo, of i] unfolding acks_pkt_def iv by simp
  have "set (take n zs) \<subseteq> set (xs @ zs)" using set_take_subset [of n zs] by auto
  then have sub: "pn_set (take n zs) \<subseteq> tracked acktr" unfolding at'(2) pn_set_def by blast
  have first: "lo \<le> i \<and> i \<le> ?m \<longleftrightarrow> i = ?m \<or> i \<in> pn_set xs" for i
    using f(3,7) unfolding xs_def by (cases used) (auto simp: set_eq_iff)
  have all: "pn_set (take 32 (ksl_elems ?ents)) \<subseteq> pn_set xs \<union> pn_set (take n zs)"
  proof -
    have "take 32 (ksl_elems ?ents) = take 32 xs @ take (32 - length xs) zs" unfolding at'(2) by simp
    moreover have "take n zs = take 32 zs" by (simp add: n_def min_def)
    then have "set (take (32 - length xs) zs) \<subseteq> set (take n zs)" using set_take_subset_set_take [of "32 - length xs" 32 zs] by simp
    moreover have "set (take 32 xs) \<subseteq> set xs" by (rule set_take_subset)
    ultimately show ?thesis by (auto simp: pn_set_def)
  qed
  have dec: "ack_decoded fr" using fr(2,3,4) f(2) rs(3) m0(2) by (simp add: ack_decoded_def)
  have pos: "0 \<le> i" if "acks_pkt fr i" for i using that f(4) sub pn_set_bounds [OF o(2)] unfolding P by auto
  have ord: "\<forall>(hi, l) \<in> set (acked_intervals fr). l \<le> hi" unfolding iv using f(3,5) by auto
  have "acks_pkt fr i" if "i \<in> pn_set (take 32 (ksl_elems ?ents))" for i
    using that all first P by blast
  moreover have "i = ?m \<or> i \<in> tracked acktr" if "acks_pkt fr i" for i
    using that P first sub at'(2) by auto
  ultimately show ?thesis using fr(1,2,4) dec pos ord rs(2) by (intro exI [of _ fr]) (auto simp: n_def NGTCP2_MAX_ACK_RANGES_def)
qed

lemma acktr_init_ok:
  assumes "length buf = 32"
  shows "\<exists>acktr. ngtcp2_acktr_init buf = Ok acktr \<and> acktr_ok {} acktr \<and> tracked acktr = {}"
proof -
  have "ispow2 32" by (simp add: ispow2_def)
  from buf_init_ok [OF this, of buf] assms obtain rb where "ngtcp2_ringbuf_buf_init 32 buf = Ok rb" "rb_ok rb" "rb_elems rb = []" by auto
  moreover have "ksl_elems (ngtcp2_ksl_init :: acktr_ents) = []" "ksl_keys (ngtcp2_ksl_init :: acktr_ents) = {}"
    "ksl_ok i64_greater (ngtcp2_ksl_init :: acktr_ents)"
    using ksl_init_ok by (auto simp: ksl_elems_def ksl_keys_def ngtcp2_ksl_init_def)
  ultimately show ?thesis by (simp add: ngtcp2_acktr_init_def acktr_ok_def ents_ok_def)
qed

lemma pn_set_butlast:
  assumes "ranges_ok es" "es \<noteq> []"
  shows "pn_set (butlast es) = {n \<in> pn_set es. sint (fst (last es)) < n}"
proof -
  obtain xs x where es: "es = xs @ [x]" using assms(2) by (cases es rule: rev_cases) auto
  have "sint (fst x) < n" if "n \<in> pn_set xs" for n using assms(1) that unfolding es by (auto simp: pn_set_def pn_range_def apart_def)
  then show ?thesis unfolding es by (auto simp: pn_range_def)
qed

section \<open>Properties\<close>

text \<open>
  The runs of the tracker: a packet that is not a duplicate is received, an ACK frame is sent in a packet with the
  next packet number, and a valid ACK frame is received. The first component of a state is the set of packet numbers received.
\<close>

inductive acktr_reach :: "i64 set \<Rightarrow> ngtcp2_acktr \<Rightarrow> bool" where
  Init: "length buf = 32 \<Longrightarrow> ngtcp2_acktr_init buf = Ok acktr \<Longrightarrow> acktr_reach {} acktr"
| Recv_pkt: "acktr_reach R acktr \<Longrightarrow> pkt_num \<notin> R \<Longrightarrow> 0 \<le> sint pkt_num \<Longrightarrow> sint pkt_num < 2 ^ 62 \<Longrightarrow> False \<notin> set al \<Longrightarrow>
    ngtcp2_acktr_add al acktr pkt_num active_ack ts = Ok (acktr', None, al') \<Longrightarrow> acktr_reach (insert pkt_num R) acktr'"
| Send_ack: "acktr_reach R acktr \<Longrightarrow> ngtcp2_acktr_create_ack_frame acktr ack type ts delay expo = Ok (acktr', Some fr) \<Longrightarrow> expo < 64 \<Longrightarrow>
    \<forall>a \<in> set (rb_elems (at_acks acktr)). sint (aa_pkt_num a) < sint pkt_num \<Longrightarrow>
    ngtcp2_acktr_add_ack (ngtcp2_acktr_commit_ack acktr') pkt_num (ack_largest_ack fr) = Ok acktr'' \<Longrightarrow> acktr_reach R acktr''"
| Recv_ack: "acktr_reach R acktr \<Longrightarrow> ack_decoded fr \<Longrightarrow> ngtcp2_pkt_validate_ack fr m = Ok () \<Longrightarrow>
    ngtcp2_acktr_recv_ack acktr fr = Ok acktr' \<Longrightarrow> acktr_reach R acktr'"

lemma create_ack_none:
  assumes "acktr_ok R acktr" "\<not> ack_due acktr delay ts \<or> ksl_elems (at_ents acktr) = []"
  shows "ngtcp2_acktr_create_ack_frame acktr ack type ts delay expo =
    Ok (if ack_due acktr delay ts then ngtcp2_acktr_commit_ack acktr else acktr, None)"
proof -
  have "ksl_ok i64_greater (at_ents acktr)" using assms(1) by (auto simp: acktr_ok_def ents_ok_def)
  note e = ksl_it_end [OF ksl_begin_at [OF this]]
  show ?thesis using assms(2) e
    by (auto simp: ngtcp2_acktr_create_ack_frame_def ack_due_def Let_def ngtcp2_acktr_get_def)
qed

lemma commit_ack_ok: "acktr_ok R (ngtcp2_acktr_commit_ack acktr) = acktr_ok R acktr"
  by (simp add: acktr_ok_def ngtcp2_acktr_commit_ack_def)

lemma acktr_reach_ok: "acktr_reach R acktr \<Longrightarrow> acktr_ok R acktr"
proof (induction rule: acktr_reach.induct)
  case (Init buf acktr)
  then show ?case using acktr_init_ok by fastforce
next
  case (Recv_pkt R acktr pkt_num al active_ack ts acktr' al')
  then show ?case using acktr_add_ok [of R acktr pkt_num al active_ack ts] by auto
next
  case (Send_ack R acktr ack type ts delay expo acktr' fr pkt_num acktr'')
  have due: "ack_due acktr delay ts" "ksl_elems (at_ents acktr) \<noteq> []"
    using Send_ack create_ack_none [of R acktr delay ts ack type expo] by auto
  from create_ack_frame_ok [OF Send_ack.IH due Send_ack.hyps(3), of ack type] Send_ack.hyps(2)
  have f: "acktr' = acktr" "ack_decoded fr" by auto
  have "0 \<le> sint (ack_largest_ack fr)" "sint (ack_largest_ack fr) < 2 ^ 62" using f(2) sint_varint by (auto simp: ack_decoded_def)
  from add_ack_ok [of R "ngtcp2_acktr_commit_ack acktr", OF _ this, of pkt_num] Send_ack.IH Send_ack.hyps(4,5) f(1)
  show ?case by (auto simp: commit_ack_ok) (simp add: ngtcp2_acktr_commit_ack_def)
next
  case (Recv_ack R acktr fr m acktr')
  from recv_ack_result [OF this(5,2,3)] show ?case unfolding recv_result_def
    using on_ack_ok [OF Recv_ack.IH] Recv_ack.hyps(4) Recv_ack.IH by fastforce
qed

text \<open>
  Receiving a packet that is not a duplicate fails no assertion of \<open>ngtcp2_acktr_add\<close> and adds the packet number to the
  numbers tracked for acknowledgement; when that makes more than 33 ranges, the lowest range is dropped and nothing else.
\<close>

theorem acktr_add_tracks:
  assumes "acktr_reach R acktr" "pkt_num \<notin> R" "0 \<le> sint pkt_num" "sint pkt_num < 2 ^ 62" "False \<notin> set al"
  shows "\<exists>acktr' al'. ngtcp2_acktr_add al acktr pkt_num active_ack ts = Ok (acktr', None, al') \<and>
    acktr_reach (insert pkt_num R) acktr' \<and>
    (tracked acktr' = insert (sint pkt_num) (tracked acktr) \<or>
     ngtcp2_ksl_len (at_ents acktr') = NGTCP2_ACKTR_MAX_ENT \<and>
       (\<exists>low. tracked acktr' = {n \<in> insert (sint pkt_num) (tracked acktr). low < n}))"
proof -
  obtain acktr' al' es where a: "ngtcp2_acktr_add al acktr pkt_num active_ack ts = Ok (acktr', None, al')"
    "acktr_ok (insert pkt_num R) acktr'" "ranges_ok es" "pn_set es = insert (sint pkt_num) (tracked acktr)"
    "ksl_elems (at_ents acktr') = (if length es \<le> 33 then es else butlast es)"
    using acktr_add_ok [OF acktr_reach_ok [OF assms(1)] assms(2-5)] by blast
  have l: "ngtcp2_ksl_len (at_ents acktr') = length (ksl_elems (at_ents acktr'))" "length (ksl_elems (at_ents acktr')) \<le> 33"
    using a(2) by (auto simp: acktr_ok_def ents_ok_def intro: ksl_len)
  have "length (ksl_elems (at_ents acktr')) = 33" "tracked acktr' = {n \<in> pn_set es. sint (fst (last es)) < n}" if "33 < length es"
  proof -
    have "es \<noteq> []" using that by auto
    then show "length (ksl_elems (at_ents acktr')) = 33" "tracked acktr' = {n \<in> pn_set es. sint (fst (last es)) < n}"
      using that a(5) l(2) pn_set_butlast [OF a(3)] by simp_all
  qed
  then show ?thesis using a l(1) acktr_reach.Recv_pkt [OF assms a(1)] by (cases "length es \<le> 33") auto
qed

theorem acktr_add_tracks_witness:
  "\<exists>acktr acktr' al'. ngtcp2_acktr_init (replicate 32 \<lparr>aa_largest_ack = 0, aa_pkt_num = 0\<rparr>) = Ok acktr \<and>
     ngtcp2_acktr_add [] acktr 5 True 7 = Ok (acktr', None, al') \<and> acktr_reach {5} acktr' \<and> tracked acktr' \<subseteq> {5}"
proof -
  obtain acktr where i: "ngtcp2_acktr_init (replicate 32 \<lparr>aa_largest_ack = 0, aa_pkt_num = 0\<rparr>) = Ok acktr" "tracked acktr = {}"
    using acktr_init_ok [of "replicate 32 \<lparr>aa_largest_ack = 0, aa_pkt_num = 0\<rparr>"] by auto
  have "acktr_reach {} acktr" by (rule acktr_reach.Init [OF _ i(1)]) simp
  from acktr_add_tracks [OF this, of 5 "[]" True 7] i show ?thesis by fastforce
qed

text \<open>
  C8: The ACK frame that \<open>ngtcp2_acktr_create_ack_frame\<close> writes, in every reachable state in which one is due: it
  acknowledges only packets that have been received, it acknowledges the largest one and all of the 32 highest ranges, it has
  at most 32 additional ranges, and \<open>ngtcp2_pkt_validate_ack\<close> accepts it. Otherwise there is no frame.
\<close>

theorem acktr_ack_frame_sound:
  assumes "acktr_reach R acktr" "expo < 64"
  shows "\<exists>acktr' r. ngtcp2_acktr_create_ack_frame acktr ack type ts delay expo = Ok (acktr', r) \<and>
    (case r of None \<Rightarrow> \<not> ack_due acktr delay ts \<or> tracked acktr = {}
     | Some fr \<Rightarrow> ack_due acktr delay ts \<and> ngtcp2_pkt_validate_ack fr 0 = Ok () \<and> length (ack_ranges fr) \<le> NGTCP2_MAX_ACK_RANGES \<and>
         {n. acks_pkt fr n} \<subseteq> sint ` R \<and> (\<forall>n. acks_pkt fr n \<longrightarrow> n \<le> sint (ack_largest_ack fr)) \<and>
         insert (sint (at_max_pkt_num acktr)) (pn_set (take NGTCP2_MAX_ACK_RANGES (ksl_elems (at_ents acktr)))) \<subseteq> {n. acks_pkt fr n})"
proof (cases "ack_due acktr delay ts \<and> ksl_elems (at_ents acktr) \<noteq> []")
  case False
  then show ?thesis using create_ack_none [OF acktr_reach_ok [OF assms(1)], of delay ts ack type expo] by auto
next
  case True
  note ok = acktr_reach_ok [OF assms(1)]
  obtain fr where fr: "ngtcp2_acktr_create_ack_frame acktr ack type ts delay expo = Ok (acktr, Some fr)" "ack_decoded fr"
    "length (ack_ranges fr) \<le> NGTCP2_MAX_ACK_RANGES" "ack_largest_ack fr = at_max_pkt_num acktr" "\<And>n. acks_pkt fr n \<Longrightarrow> 0 \<le> n"
    "\<forall>(hi, lo) \<in> set (acked_intervals fr). lo \<le> hi"
    "\<forall>n \<in> pn_set (take NGTCP2_MAX_ACK_RANGES (ksl_elems (at_ents acktr))). acks_pkt fr n"
    "\<And>n. acks_pkt fr n \<Longrightarrow> n = sint (at_max_pkt_num acktr) \<or> n \<in> tracked acktr"
    using create_ack_frame_ok [OF ok _ _ assms(2)] True by blast
  have top: "acks_pkt fr (sint (at_max_pkt_num acktr))"
    using fr(2,4) sint_varint by (auto simp: acks_pkt_def acked_intervals_def Let_def ack_decoded_def)
  have "acks_pkt fr lo" if "(hi, lo) \<in> set (acked_intervals fr)" for hi lo using that fr(6) unfolding acks_pkt_def by blast
  then have "ngtcp2_pkt_validate_ack fr 0 = Ok ()" using validate_ack_iff [OF fr(2), of 0] fr(5) by auto
  moreover have "at_max_pkt_num acktr \<in> R" using ok fr(5) [OF top] by (auto simp: acktr_ok_def)
  then have "{n. acks_pkt fr n} \<subseteq> sint ` R" using fr(8) ok by (fastforce simp: acktr_ok_def ents_ok_def)
  moreover have "n \<le> sint (ack_largest_ack fr)" if "acks_pkt fr n" for n using fr(8) [OF that] ok fr(4) by (auto simp: acktr_ok_def)
  ultimately show ?thesis using fr(1,3,7) top True by (intro exI [of _ acktr] exI [of _ "Some fr"]) auto
qed

definition empty_ack :: ngtcp2_ack where
  "empty_ack = \<lparr>ack_type = 0, ack_largest_ack = 0, ack_delay = 0, ack_delay_unscaled = 0, ack_ect0 = 0, ack_ect1 = 0, ack_ce = 0,
     ack_first_ack_range = 0, ack_ranges = []\<rparr>"

text \<open>The packet numbers 5 and 6, and 9 in between, received by a new tracker: the frame acknowledges the ranges 9 and 5 to 6.\<close>

definition acktr_example :: "(ngtcp2_acktr \<times> ngtcp2_ack option) res" where
  "acktr_example =
     bindR (ngtcp2_acktr_init (replicate 32 \<lparr>aa_largest_ack = 0, aa_pkt_num = 0\<rparr>)) (\<lambda>a.
     bindR (ngtcp2_acktr_add [] a 5 True 7) (\<lambda>(a, _, _).
     bindR (ngtcp2_acktr_add [] a 9 True 8) (\<lambda>(a, _, _).
     bindR (ngtcp2_acktr_add [] a 6 True 9) (\<lambda>(a, _, _).
     ngtcp2_acktr_create_ack_frame a empty_ack 0x40 1000 0 3))))"

lemma acktr_example_run:
  "(case acktr_example of Ok (a, Some fr) \<Rightarrow> acked_intervals fr = [(9, 9), (6, 5)] | _ \<Rightarrow> False)"
  unfolding acktr_example_def by code_simp

lemma acktr_add_reach:
  assumes "acktr_reach R acktr" "pkt_num \<notin> R" "0 \<le> sint pkt_num" "sint pkt_num < 2 ^ 62"
  obtains acktr' al' where "ngtcp2_acktr_add [] acktr pkt_num active_ack ts = Ok (acktr', None, al')"
    "acktr_reach (insert pkt_num R) acktr'" "sent_acks acktr' = sent_acks acktr"
proof -
  obtain acktr' al' where a: "ngtcp2_acktr_add [] acktr pkt_num active_ack ts = Ok (acktr', None, al')" "at_acks acktr' = at_acks acktr"
    using acktr_add_ok [OF acktr_reach_ok [OF assms(1)] assms(2-4), of "[]" active_ack ts] by auto
  moreover have "acktr_reach (insert pkt_num R) acktr'" by (rule acktr_reach.Recv_pkt [OF assms _ a(1)]) simp
  ultimately show thesis by (intro that [of acktr' al']) simp_all
qed

lemma acktr_example_reach:
  obtains a fr where "acktr_reach {6, 9, 5} a" "ngtcp2_acktr_create_ack_frame a empty_ack 0x40 1000 0 3 = Ok (a, Some fr)"
    "acked_intervals fr = [(9, 9), (6, 5)]" "sent_acks a = []"
proof -
  let ?buf = "replicate 32 \<lparr>aa_largest_ack = 0, aa_pkt_num = 0\<rparr>"
  obtain a0 where i: "ngtcp2_acktr_init ?buf = Ok a0" using acktr_init_ok [of ?buf] by auto
  have r0: "acktr_reach {} a0" by (rule acktr_reach.Init [OF _ i]) simp
  have s0: "sent_acks a0 = []" using i by (auto simp: ngtcp2_acktr_init_def bindR_eq_Ok ngtcp2_ringbuf_buf_init_def assertR_def rb_elems_def split: if_splits)
  obtain a1 l1 where a1: "ngtcp2_acktr_add [] a0 5 True 7 = Ok (a1, None, l1)" "acktr_reach {5} a1" "sent_acks a1 = sent_acks a0"
    by (rule acktr_add_reach [OF r0, of 5 True 7]) simp_all
  obtain a2 l2 where a2: "ngtcp2_acktr_add [] a1 9 True 8 = Ok (a2, None, l2)" "acktr_reach {9, 5} a2" "sent_acks a2 = sent_acks a1"
    by (rule acktr_add_reach [OF a1(2), of 9 True 8]) simp_all
  obtain a3 l3 where a3: "ngtcp2_acktr_add [] a2 6 True 9 = Ok (a3, None, l3)" "acktr_reach {6, 9, 5} a3" "sent_acks a3 = sent_acks a2"
    by (rule acktr_add_reach [OF a2(2), of 6 True 9]) simp_all
  have e: "acktr_example = ngtcp2_acktr_create_ack_frame a3 empty_ack 0x40 1000 0 3"
    unfolding acktr_example_def using i a1(1) a2(1) a3(1) by simp
  then obtain a fr where f: "ngtcp2_acktr_create_ack_frame a3 empty_ack 0x40 1000 0 3 = Ok (a, Some fr)" "acked_intervals fr = [(9, 9), (6, 5)]"
    using acktr_example_run by (auto split: res.splits option.splits)
  have "ack_due a3 0 1000 \<and> ksl_elems (at_ents a3) \<noteq> []" using create_ack_none [OF acktr_reach_ok [OF a3(2)], of 0 1000 empty_ack "0x40" 3] f(1) by auto
  then have "a = a3" using create_ack_frame_ok [OF acktr_reach_ok [OF a3(2)], of 0 1000 3 empty_ack "0x40"] f(1) by auto
  then show thesis using f a3(2,3) a2(3) a1(3) s0 by (intro that) simp_all
qed

theorem acktr_ack_frame_sound_witness:
  "\<exists>acktr fr. acktr_reach {6, 9, 5} acktr \<and> ngtcp2_acktr_create_ack_frame acktr empty_ack 0x40 1000 0 3 = Ok (acktr, Some fr) \<and>
     ngtcp2_pkt_validate_ack fr 0 = Ok () \<and> {n. acks_pkt fr n} \<subseteq> {5, 6, 9}"
proof -
  obtain a fr where a: "acktr_reach {6, 9, 5} a" "ngtcp2_acktr_create_ack_frame a empty_ack 0x40 1000 0 3 = Ok (a, Some fr)"
    by (rule acktr_example_reach)
  from acktr_ack_frame_sound [OF a(1), of 3 empty_ack "0x40" 1000 0] a show ?thesis by auto
qed

text \<open>
  C10: A valid ACK frame makes the tracker forget what the peer knows: if it acknowledges packets that carried ACK frames, the
  packet numbers up to the largest one acknowledged by the latest of these ACK frames are no longer tracked, and
  nothing else is forgotten.
\<close>

theorem acktr_recv_ack_forgets:
  assumes "acktr_reach R acktr" "ack_decoded fr" "ngtcp2_pkt_validate_ack fr m = Ok ()"
  shows "\<exists>acktr'. ngtcp2_acktr_recv_ack acktr fr = Ok acktr' \<and> acktr_reach R acktr' \<and>
    (case find (\<lambda>a. acks_pkt fr (sint (aa_pkt_num a))) (sent_acks acktr) of None \<Rightarrow> acktr' = acktr
     | Some a \<Rightarrow> tracked acktr' = {n \<in> tracked acktr. sint (aa_largest_ack a) < n} \<and>
         sent_acks acktr' = takeWhile (\<lambda>a. \<not> acks_pkt fr (sint (aa_pkt_num a))) (sent_acks acktr))"
proof -
  let ?P = "\<lambda>a. acks_pkt fr (sint (aa_pkt_num a))" and ?es = "sent_acks acktr"
  note ok = acktr_reach_ok [OF assms(1)]
  from recv_ack_result [OF ok assms(2,3)] consider
    "\<forall>i \<in> {0 ..< length ?es}. \<not> ?P (?es ! i)" "ngtcp2_acktr_recv_ack acktr fr = Ok acktr"
    | k where "k < length ?es" "?P (?es ! k)" "\<forall>i \<in> {0 ..< k}. \<not> ?P (?es ! i)" "ngtcp2_acktr_recv_ack acktr fr = acktr_on_ack acktr k"
    unfolding recv_result_def by auto
  then show ?thesis
  proof cases
    case 1
    then have "find ?P ?es = None" by (auto simp: find_None_iff in_set_conv_nth)
    then show ?thesis using 1(2) assms(1) by simp
  next
    case 2
    have f: "find ?P ?es = Some (?es ! k)" using 2(1-3) by (auto simp: find_Some_iff)
    have "takeWhile (\<lambda>a. \<not> ?P a) ?es = take k ?es" using 2(1-3) by (intro takeWhile_eq_take_P_nth) auto
    moreover obtain acktr' where "acktr_on_ack acktr k = Ok acktr'"
      "tracked acktr' = {n \<in> tracked acktr. sint (aa_largest_ack (?es ! k)) < n}" "sent_acks acktr' = take k ?es"
      using on_ack_ok [OF ok 2(1)] by blast
    ultimately show ?thesis using f 2(4) acktr_reach.Recv_ack [OF assms] by auto
  qed
qed

theorem acktr_recv_ack_forgets_witness:
  "\<exists>acktr acktr'. acktr_reach {6, 9, 5} acktr \<and> map aa_pkt_num (sent_acks acktr) = [100] \<and>
     ngtcp2_acktr_recv_ack acktr (empty_ack\<lparr>ack_largest_ack := 100\<rparr>) = Ok acktr' \<and> tracked acktr' = {}"
proof -
  obtain a fr where a: "acktr_reach {6, 9, 5} a" "ngtcp2_acktr_create_ack_frame a empty_ack 0x40 1000 0 3 = Ok (a, Some fr)"
    "acked_intervals fr = [(9, 9), (6, 5)]" "sent_acks a = []" by (rule acktr_example_reach)
  have l: "sint (ack_largest_ack fr) = 9" using a(3) by (simp add: acked_intervals_def Let_def)
  have c: "sent_acks (ngtcp2_acktr_commit_ack a) = []" "acktr_ok {6, 9, 5} (ngtcp2_acktr_commit_ack a)"
    using a(4) acktr_reach_ok [OF a(1)] by (simp_all add: commit_ack_ok, simp add: ngtcp2_acktr_commit_ack_def)
  obtain b where b: "ngtcp2_acktr_add_ack (ngtcp2_acktr_commit_ack a) 100 (ack_largest_ack fr) = Ok b"
    "sent_acks b = [\<lparr>aa_largest_ack = ack_largest_ack fr, aa_pkt_num = 100\<rparr>]"
    using add_ack_ok [OF c(2), of "ack_largest_ack fr" 100] l c(1) by auto
  have rb: "acktr_reach {6, 9, 5} b" by (rule acktr_reach.Send_ack [OF a(1,2) _ _ b(1)]) (simp_all add: a(4))
  let ?fr = "empty_ack\<lparr>ack_largest_ack := 100\<rparr>"
  have d: "ack_decoded ?fr" "ngtcp2_pkt_validate_ack ?fr 0 = Ok ()" by code_simp+
  have "acks_pkt ?fr 100" by code_simp
  with acktr_recv_ack_forgets [OF rb d] b(2) obtain b' where b': "ngtcp2_acktr_recv_ack b ?fr = Ok b'" "acktr_reach {6, 9, 5} b'"
    "tracked b' = {n \<in> tracked b. 9 < n}" using l by auto
  have "tracked b \<subseteq> {6, 9, 5}" using acktr_reach_ok [OF rb] by (auto simp: acktr_ok_def ents_ok_def)
  then have "tracked b' = {}" using b'(3) by auto
  then show ?thesis using rb b(2) b'(1) by auto
qed

text \<open>
  C9: In every state a run of the tracker reaches, the numbers it tracks are numbers of packets received, in at most 33
  ranges with a missing number between any two, \<open>max_pkt_num\<close> is the largest number received, and the ACK frames sent
  are kept with descending packet numbers.
\<close>

theorem acktr_run_invariant:
  assumes "acktr_reach R acktr"
  shows "tracked acktr \<subseteq> sint ` R \<and> ngtcp2_ksl_len (at_ents acktr) \<le> NGTCP2_ACKTR_MAX_ENT \<and>
    sorted_wrt (\<lambda>(k, a) (l, b). sint l < sint k - int (ae_len a)) (ksl_elems (at_ents acktr)) \<and>
    (\<forall>r \<in> R. sint r \<le> sint (at_max_pkt_num acktr)) \<and> (R = {} \<or> at_max_pkt_num acktr \<in> R) \<and>
    sorted_wrt (\<lambda>a b. sint (aa_pkt_num b) < sint (aa_pkt_num a)) (sent_acks acktr)"
proof -
  note ok = acktr_reach_ok [OF assms]
  have "apart = (\<lambda>(k, a) (l, b). sint l < sint k - int (ae_len a))" by (auto simp: apart_def fun_eq_iff)
  moreover have "ngtcp2_ksl_len (at_ents acktr) = length (ksl_elems (at_ents acktr))"
    using ok by (auto simp: acktr_ok_def ents_ok_def intro: ksl_len)
  moreover have "0 \<le> sint r" if "r \<in> R" for r using assms that by (induction rule: acktr_reach.induct) auto
  then have "R = {} \<or> at_max_pkt_num acktr \<in> R" using ok by (fastforce simp: acktr_ok_def)
  ultimately show ?thesis using ok by (auto simp: acktr_ok_def ents_ok_def ranges_ok_def)
qed

theorem acktr_run_invariant_witness:
  "\<exists>acktr. acktr_reach {6, 9, 5} acktr \<and> at_max_pkt_num acktr = 9 \<and> tracked acktr \<subseteq> {5, 6, 9}"
proof -
  obtain a where a: "acktr_reach {6, 9, 5} a" by (rule acktr_example_reach)
  from acktr_run_invariant [OF this] a show ?thesis by auto
qed

end
