(* ===== verification/Transport_Params.thy ===== *)
theory Transport_Params
  imports Pkt_Header
begin

text \<open>
  \<open>lib/ngtcp2_transport_params.c\<close>: the transport parameters, their encoder and their decoder. A parameter on the wire is an
  identifier, a length and a value, the first two as variable-length integers. The encoder adds up the lengths of the
  parameters that differ from their default, and then writes them; \<open>add_lens\<close> and \<open>write_params\<close> are the two runs of
  conditional statements. An error \<open>-1\<close> of the helpers of the decoder, which every caller turns into
  \<open>NGTCP2_ERR_MALFORMED_TRANSPORT_PARAM\<close>, is that error. Addresses and ports are the bytes they have in memory.
\<close>

section \<open>Structures\<close>

datatype sa_family = AF_UNSPEC | NGTCP2_AF_INET | NGTCP2_AF_INET6

record ngtcp2_sockaddr_in =
  sin_family :: sa_family
  sin_port :: "u8 list"
  sin_addr :: "u8 list"

record ngtcp2_preferred_addr =
  pa_cid :: ngtcp2_cid
  pa_ipv4 :: ngtcp2_sockaddr_in
  pa_ipv6 :: ngtcp2_sockaddr_in
  pa_ipv4_present :: bool
  pa_ipv6_present :: bool
  pa_stateless_reset_token :: "u8 list"

record ngtcp2_version_info =
  vi_chosen_version :: u32
  vi_available_versions :: "u8 list"

record ngtcp2_transport_params =
  tp_preferred_addr :: ngtcp2_preferred_addr
  tp_original_dcid :: ngtcp2_cid
  tp_initial_scid :: ngtcp2_cid
  tp_retry_scid :: ngtcp2_cid
  tp_initial_max_stream_data_bidi_local :: u64
  tp_initial_max_stream_data_bidi_remote :: u64
  tp_initial_max_stream_data_uni :: u64
  tp_initial_max_data :: u64
  tp_initial_max_streams_bidi :: u64
  tp_initial_max_streams_uni :: u64
  tp_max_idle_timeout :: u64
  tp_max_udp_payload_size :: u64
  tp_active_connection_id_limit :: u64
  tp_ack_delay_exponent :: u64
  tp_max_ack_delay :: u64
  tp_max_datagram_frame_size :: u64
  tp_stateless_reset_token_present :: bool
  tp_disable_active_migration :: bool
  tp_original_dcid_present :: bool
  tp_initial_scid_present :: bool
  tp_retry_scid_present :: bool
  tp_preferred_addr_present :: bool
  tp_stateless_reset_token :: "u8 list"
  tp_grease_quic_bit :: bool
  tp_version_info :: ngtcp2_version_info
  tp_version_info_present :: bool

abbreviation (input) "TP_ORIGINAL_DCID \<equiv> 0x00 :: u64"
abbreviation (input) "TP_MAX_IDLE_TIMEOUT \<equiv> 0x01 :: u64"
abbreviation (input) "TP_STATELESS_RESET_TOKEN \<equiv> 0x02 :: u64"
abbreviation (input) "TP_MAX_UDP_PAYLOAD_SIZE \<equiv> 0x03 :: u64"
abbreviation (input) "TP_INITIAL_MAX_DATA \<equiv> 0x04 :: u64"
abbreviation (input) "TP_INITIAL_MAX_STREAM_DATA_BIDI_LOCAL \<equiv> 0x05 :: u64"
abbreviation (input) "TP_INITIAL_MAX_STREAM_DATA_BIDI_REMOTE \<equiv> 0x06 :: u64"
abbreviation (input) "TP_INITIAL_MAX_STREAM_DATA_UNI \<equiv> 0x07 :: u64"
abbreviation (input) "TP_INITIAL_MAX_STREAMS_BIDI \<equiv> 0x08 :: u64"
abbreviation (input) "TP_INITIAL_MAX_STREAMS_UNI \<equiv> 0x09 :: u64"
abbreviation (input) "TP_ACK_DELAY_EXPONENT \<equiv> 0x0A :: u64"
abbreviation (input) "TP_MAX_ACK_DELAY \<equiv> 0x0B :: u64"
abbreviation (input) "TP_DISABLE_ACTIVE_MIGRATION \<equiv> 0x0C :: u64"
abbreviation (input) "TP_PREFERRED_ADDRESS \<equiv> 0x0D :: u64"
abbreviation (input) "TP_ACTIVE_CONNECTION_ID_LIMIT \<equiv> 0x0E :: u64"
abbreviation (input) "TP_INITIAL_SCID \<equiv> 0x0F :: u64"
abbreviation (input) "TP_RETRY_SCID \<equiv> 0x10 :: u64"
abbreviation (input) "TP_VERSION_INFORMATION \<equiv> 0x11 :: u64"
abbreviation (input) "TP_MAX_DATAGRAM_FRAME_SIZE \<equiv> 0x20 :: u64"
abbreviation (input) "TP_GREASE_QUIC_BIT \<equiv> 0x2AB2 :: u64"
abbreviation (input) "NGTCP2_MILLISECONDS \<equiv> 1000000 :: u64"
abbreviation (input) "NGTCP2_STREAMS_LIMIT \<equiv> 0x1000000000000000 :: u64"

text \<open>A structure of zero bytes.\<close>

definition sockaddr_zero :: "nat \<Rightarrow> ngtcp2_sockaddr_in" where
  "sockaddr_zero n = \<lparr>sin_family = AF_UNSPEC, sin_port = replicate 2 0, sin_addr = replicate n 0\<rparr>"

definition preferred_addr_zero :: ngtcp2_preferred_addr where
  "preferred_addr_zero = \<lparr>pa_cid = [], pa_ipv4 = sockaddr_zero 4, pa_ipv6 = sockaddr_zero 16, pa_ipv4_present = False,
     pa_ipv6_present = False, pa_stateless_reset_token = replicate 16 0\<rparr>"

definition ngtcp2_transport_params_default_versioned :: ngtcp2_transport_params where
  "ngtcp2_transport_params_default_versioned =
     \<lparr>tp_preferred_addr = preferred_addr_zero, tp_original_dcid = [], tp_initial_scid = [], tp_retry_scid = [],
      tp_initial_max_stream_data_bidi_local = 0, tp_initial_max_stream_data_bidi_remote = 0, tp_initial_max_stream_data_uni = 0,
      tp_initial_max_data = 0, tp_initial_max_streams_bidi = 0, tp_initial_max_streams_uni = 0, tp_max_idle_timeout = 0,
      tp_max_udp_payload_size = 65527, tp_active_connection_id_limit = 2, tp_ack_delay_exponent = 3,
      tp_max_ack_delay = 25 * NGTCP2_MILLISECONDS, tp_max_datagram_frame_size = 0, tp_stateless_reset_token_present = False,
      tp_disable_active_migration = False, tp_original_dcid_present = False, tp_initial_scid_present = False,
      tp_retry_scid_present = False, tp_preferred_addr_present = False, tp_stateless_reset_token = replicate 16 0,
      tp_grease_quic_bit = False, tp_version_info = \<lparr>vi_chosen_version = 0, vi_available_versions = []\<rparr>,
      tp_version_info_present = False\<rparr>"

section \<open>Encoder\<close>

definition varint_paramlen :: "u64 \<Rightarrow> u64 \<Rightarrow> nat res" where
  "varint_paramlen pid param =
     bindR (ngtcp2_put_uvarintlen param) (\<lambda>valuelen.
     bindR (ngtcp2_put_uvarintlen pid) (\<lambda>a.
     bindR (ngtcp2_put_uvarintlen (of_nat valuelen)) (\<lambda>b.
     Ok (a + b + valuelen))))"

definition write_varint_param :: "u64 \<Rightarrow> u64 \<Rightarrow> u8 list \<times> nat \<Rightarrow> (u8 list \<times> nat) res" where
  "write_varint_param pid v = (\<lambda>(out, p).
     bindR (ngtcp2_put_uvarint out p pid) (\<lambda>(out, p).
     bindR (ngtcp2_put_uvarintlen v) (\<lambda>l.
     bindR (ngtcp2_put_uvarint out p (of_nat l)) (\<lambda>(out, p).
     ngtcp2_put_uvarint out p v))))"

definition zero_paramlen :: "u64 \<Rightarrow> nat res" where
  "zero_paramlen pid = bindR (ngtcp2_put_uvarintlen pid) (\<lambda>a. Ok (a + 1))"

definition write_zero_param :: "u64 \<Rightarrow> u8 list \<times> nat \<Rightarrow> (u8 list \<times> nat) res" where
  "write_zero_param pid = (\<lambda>(out, p).
     bindR (ngtcp2_put_uvarint out p pid) (\<lambda>(out, p).
     wr_bytes out p [0]))"

text \<open>The length of a value of \<open>n\<close> bytes with its identifier and length.\<close>

definition bytes_paramlen :: "u64 \<Rightarrow> nat \<Rightarrow> nat res" where
  "bytes_paramlen pid n =
     bindR (ngtcp2_put_uvarintlen pid) (\<lambda>a.
     bindR (ngtcp2_put_uvarintlen (of_nat n)) (\<lambda>b.
     Ok (a + b + n)))"

definition cid_paramlen :: "u64 \<Rightarrow> ngtcp2_cid \<Rightarrow> nat res" where
  "cid_paramlen pid cid = bytes_paramlen pid (length cid)"

definition write_cid_param :: "u64 \<Rightarrow> ngtcp2_cid \<Rightarrow> u8 list \<times> nat \<Rightarrow> (u8 list \<times> nat) res" where
  "write_cid_param pid cid = (\<lambda>(out, p).
     assertR (length cid = 0 \<or> length cid \<ge> NGTCP2_MIN_CIDLEN)
    (assertR (length cid \<le> NGTCP2_MAX_CIDLEN)
    (bindR (ngtcp2_put_uvarint out p pid) (\<lambda>(out, p).
     bindR (ngtcp2_put_uvarint out p (of_nat (length cid))) (\<lambda>(out, p).
     if length cid \<noteq> 0 then wr_bytes out p cid else Ok (out, p))))))"

definition write_token_param :: "u8 list \<Rightarrow> u8 list \<times> nat \<Rightarrow> (u8 list \<times> nat) res" where
  "write_token_param token = (\<lambda>(out, p).
     bindR (ngtcp2_put_uvarint out p TP_STATELESS_RESET_TOKEN) (\<lambda>(out, p).
     bindR (ngtcp2_put_uvarint out p 16) (\<lambda>(out, p).
     wr_bytes out p token)))"

definition preferred_addrlen :: "ngtcp2_preferred_addr \<Rightarrow> nat" where
  "preferred_addrlen a = 4 + 2 + 16 + 2 + 1 + length (pa_cid a) + 16"

definition preferred_addr_paramlen :: "ngtcp2_preferred_addr \<Rightarrow> nat res" where
  "preferred_addr_paramlen a =
     assertR (length (pa_cid a) \<ge> NGTCP2_MIN_CIDLEN) (assertR (length (pa_cid a) \<le> NGTCP2_MAX_CIDLEN)
      (bytes_paramlen TP_PREFERRED_ADDRESS (preferred_addrlen a)))"

definition write_preferred_addr_param :: "ngtcp2_preferred_addr \<Rightarrow> u8 list \<times> nat \<Rightarrow> (u8 list \<times> nat) res" where
  "write_preferred_addr_param a = (\<lambda>(out, p).
     bindR (ngtcp2_put_uvarint out p TP_PREFERRED_ADDRESS) (\<lambda>(out, p).
     bindR (ngtcp2_put_uvarint out p (of_nat (preferred_addrlen a))) (\<lambda>(out, p).
     bindR (wr_bytes out p (if pa_ipv4_present a then sin_addr (pa_ipv4 a) else replicate 4 0)) (\<lambda>(out, p).
     bindR (wr_bytes out p (if pa_ipv4_present a then sin_port (pa_ipv4 a) else replicate 2 0)) (\<lambda>(out, p).
     bindR (wr_bytes out p (if pa_ipv6_present a then sin_addr (pa_ipv6 a) else replicate 16 0)) (\<lambda>(out, p).
     bindR (wr_bytes out p (if pa_ipv6_present a then sin_port (pa_ipv6 a) else replicate 2 0)) (\<lambda>(out, p).
     bindR (wr_bytes out p [of_nat (length (pa_cid a))]) (\<lambda>(out, p).
     bindR (if length (pa_cid a) \<noteq> 0 then wr_bytes out p (pa_cid a) else Ok (out, p)) (\<lambda>(out, p).
     wr_bytes out p (pa_stateless_reset_token a))))))))))"

definition version_infolen :: "ngtcp2_version_info \<Rightarrow> nat" where
  "version_infolen v = 4 + length (vi_available_versions v)"

definition write_version_info_param :: "ngtcp2_version_info \<Rightarrow> u8 list \<times> nat \<Rightarrow> (u8 list \<times> nat) res" where
  "write_version_info_param v = (\<lambda>(out, p).
     bindR (ngtcp2_put_uvarint out p TP_VERSION_INFORMATION) (\<lambda>(out, p).
     bindR (ngtcp2_put_uvarint out p (of_nat (version_infolen v))) (\<lambda>(out, p).
     bindR (ngtcp2_put_uint32be out p (vi_chosen_version v)) (\<lambda>(out, p).
     if vi_available_versions v \<noteq> [] then wr_bytes out p (vi_available_versions v) else Ok (out, p)))))"

fun add_lens :: "(bool \<times> nat res) list \<Rightarrow> nat res" where
  "add_lens [] = Ok 0"
| "add_lens ((c, l) # ps) =
     bindR (if c then l else Ok 0) (\<lambda>a. bindR (add_lens ps) (\<lambda>b. Ok (a + b)))"

fun write_params :: "(bool \<times> (u8 list \<times> nat \<Rightarrow> (u8 list \<times> nat) res)) list \<Rightarrow> u8 list \<times> nat \<Rightarrow> (u8 list \<times> nat) res" where
  "write_params [] s = Ok s"
| "write_params ((c, w) # ps) s = bindR (if c then w s else Ok s) (write_params ps)"

definition tp_lens :: "ngtcp2_transport_params \<Rightarrow> (bool \<times> nat res) list" where
  "tp_lens t =
    [(tp_original_dcid_present t, cid_paramlen TP_ORIGINAL_DCID (tp_original_dcid t)),
     (tp_stateless_reset_token_present t, bytes_paramlen TP_STATELESS_RESET_TOKEN 16),
     (tp_preferred_addr_present t, preferred_addr_paramlen (tp_preferred_addr t)),
     (tp_retry_scid_present t, cid_paramlen TP_RETRY_SCID (tp_retry_scid t)),
     (tp_initial_scid_present t, cid_paramlen TP_INITIAL_SCID (tp_initial_scid t)),
     (tp_initial_max_stream_data_bidi_local t \<noteq> 0,
        varint_paramlen TP_INITIAL_MAX_STREAM_DATA_BIDI_LOCAL (tp_initial_max_stream_data_bidi_local t)),
     (tp_initial_max_stream_data_bidi_remote t \<noteq> 0,
        varint_paramlen TP_INITIAL_MAX_STREAM_DATA_BIDI_REMOTE (tp_initial_max_stream_data_bidi_remote t)),
     (tp_initial_max_stream_data_uni t \<noteq> 0, varint_paramlen TP_INITIAL_MAX_STREAM_DATA_UNI (tp_initial_max_stream_data_uni t)),
     (tp_initial_max_data t \<noteq> 0, varint_paramlen TP_INITIAL_MAX_DATA (tp_initial_max_data t)),
     (tp_initial_max_streams_bidi t \<noteq> 0, varint_paramlen TP_INITIAL_MAX_STREAMS_BIDI (tp_initial_max_streams_bidi t)),
     (tp_initial_max_streams_uni t \<noteq> 0, varint_paramlen TP_INITIAL_MAX_STREAMS_UNI (tp_initial_max_streams_uni t)),
     (tp_max_udp_payload_size t \<noteq> 65527, varint_paramlen TP_MAX_UDP_PAYLOAD_SIZE (tp_max_udp_payload_size t)),
     (tp_ack_delay_exponent t \<noteq> 3, varint_paramlen TP_ACK_DELAY_EXPONENT (tp_ack_delay_exponent t)),
     (tp_disable_active_migration t, zero_paramlen TP_DISABLE_ACTIVE_MIGRATION),
     (tp_max_ack_delay t \<noteq> 25 * NGTCP2_MILLISECONDS, varint_paramlen TP_MAX_ACK_DELAY (tp_max_ack_delay t div NGTCP2_MILLISECONDS)),
     (tp_max_idle_timeout t \<noteq> 0, varint_paramlen TP_MAX_IDLE_TIMEOUT (tp_max_idle_timeout t div NGTCP2_MILLISECONDS)),
     (tp_active_connection_id_limit t \<noteq> 0 \<and> tp_active_connection_id_limit t \<noteq> 2,
        varint_paramlen TP_ACTIVE_CONNECTION_ID_LIMIT (tp_active_connection_id_limit t)),
     (tp_max_datagram_frame_size t \<noteq> 0, varint_paramlen TP_MAX_DATAGRAM_FRAME_SIZE (tp_max_datagram_frame_size t)),
     (tp_grease_quic_bit t, zero_paramlen TP_GREASE_QUIC_BIT),
     (tp_version_info_present t, bytes_paramlen TP_VERSION_INFORMATION (version_infolen (tp_version_info t)))]"

definition tp_writes :: "ngtcp2_transport_params \<Rightarrow> (bool \<times> (u8 list \<times> nat \<Rightarrow> (u8 list \<times> nat) res)) list" where
  "tp_writes t =
    [(tp_original_dcid_present t, write_cid_param TP_ORIGINAL_DCID (tp_original_dcid t)),
     (tp_stateless_reset_token_present t, write_token_param (tp_stateless_reset_token t)),
     (tp_preferred_addr_present t, write_preferred_addr_param (tp_preferred_addr t)),
     (tp_retry_scid_present t, write_cid_param TP_RETRY_SCID (tp_retry_scid t)),
     (tp_initial_scid_present t, write_cid_param TP_INITIAL_SCID (tp_initial_scid t)),
     (tp_initial_max_stream_data_bidi_local t \<noteq> 0,
        write_varint_param TP_INITIAL_MAX_STREAM_DATA_BIDI_LOCAL (tp_initial_max_stream_data_bidi_local t)),
     (tp_initial_max_stream_data_bidi_remote t \<noteq> 0,
        write_varint_param TP_INITIAL_MAX_STREAM_DATA_BIDI_REMOTE (tp_initial_max_stream_data_bidi_remote t)),
     (tp_initial_max_stream_data_uni t \<noteq> 0, write_varint_param TP_INITIAL_MAX_STREAM_DATA_UNI (tp_initial_max_stream_data_uni t)),
     (tp_initial_max_data t \<noteq> 0, write_varint_param TP_INITIAL_MAX_DATA (tp_initial_max_data t)),
     (tp_initial_max_streams_bidi t \<noteq> 0, write_varint_param TP_INITIAL_MAX_STREAMS_BIDI (tp_initial_max_streams_bidi t)),
     (tp_initial_max_streams_uni t \<noteq> 0, write_varint_param TP_INITIAL_MAX_STREAMS_UNI (tp_initial_max_streams_uni t)),
     (tp_max_udp_payload_size t \<noteq> 65527, write_varint_param TP_MAX_UDP_PAYLOAD_SIZE (tp_max_udp_payload_size t)),
     (tp_ack_delay_exponent t \<noteq> 3, write_varint_param TP_ACK_DELAY_EXPONENT (tp_ack_delay_exponent t)),
     (tp_disable_active_migration t, write_zero_param TP_DISABLE_ACTIVE_MIGRATION),
     (tp_max_ack_delay t \<noteq> 25 * NGTCP2_MILLISECONDS, write_varint_param TP_MAX_ACK_DELAY (tp_max_ack_delay t div NGTCP2_MILLISECONDS)),
     (tp_max_idle_timeout t \<noteq> 0, write_varint_param TP_MAX_IDLE_TIMEOUT (tp_max_idle_timeout t div NGTCP2_MILLISECONDS)),
     (tp_active_connection_id_limit t \<noteq> 0 \<and> tp_active_connection_id_limit t \<noteq> 2,
        write_varint_param TP_ACTIVE_CONNECTION_ID_LIMIT (tp_active_connection_id_limit t)),
     (tp_max_datagram_frame_size t \<noteq> 0, write_varint_param TP_MAX_DATAGRAM_FRAME_SIZE (tp_max_datagram_frame_size t)),
     (tp_grease_quic_bit t, write_zero_param TP_GREASE_QUIC_BIT),
     (tp_version_info_present t, write_version_info_param (tp_version_info t))]"

text \<open>\<open>None\<close> as destination stands for \<open>dest == NULL && destlen == 0\<close>: only the length is computed.\<close>

definition ngtcp2_transport_params_encode_versioned ::
    "u8 list option \<Rightarrow> ngtcp2_transport_params \<Rightarrow> (u8 list \<times> nat) res" where
  "ngtcp2_transport_params_encode_versioned dest params =
     bindR (add_lens (tp_lens params)) (\<lambda>len.
     case dest of None \<Rightarrow> Ok ([], len)
     | Some out \<Rightarrow>
         if length out < len then Err NGTCP2_ERR_NOBUF else
         bindR (write_params (tp_writes params) (out, 0)) (\<lambda>(out, p).
         assertR (p = len) (Ok (out, len))))"

section \<open>Decoder\<close>

abbreviation (input) "malformed \<equiv> Err NGTCP2_ERR_MALFORMED_TRANSPORT_PARAM"

definition decode_varint :: "u8 list \<Rightarrow> (u64 \<times> u8 list) res" where
  "decode_varint p =
     (if p = [] then malformed else
      bindR (ngtcp2_get_uvarintlen p) (\<lambda>len.
      if length p < len then malformed else ngtcp2_get_uvarint p))"

definition decode_varint_param :: "u8 list \<Rightarrow> (u64 \<times> u8 list) res" where
  "decode_varint_param p =
     bindR (decode_varint p) (\<lambda>(valuelen, p).
     if p = [] then malformed else
     if length p < unat valuelen then malformed else
     bindR (ngtcp2_get_uvarintlen p) (\<lambda>l.
     if l \<noteq> unat valuelen then malformed else ngtcp2_get_uvarint p))"

definition decode_zero_param :: "u8 list \<Rightarrow> u8 list res" where
  "decode_zero_param p =
     (if p = [] then malformed else
      bindR (peek p) (\<lambda>b. if b \<noteq> 0 then malformed else ptr_add p 1))"

definition decode_cid_param :: "u8 list \<Rightarrow> (ngtcp2_cid \<times> u8 list) res" where
  "decode_cid_param p =
     bindR (decode_varint p) (\<lambda>(valuelen, p).
     if (unat valuelen \<noteq> 0 \<and> unat valuelen < NGTCP2_MIN_CIDLEN) \<or> unat valuelen > NGTCP2_MAX_CIDLEN \<or>
        length p < unat valuelen then malformed else
     bindR (ngtcp2_cid_init p (unat valuelen)) (\<lambda>cid.
     bindR (ptr_add p (unat valuelen)) (\<lambda>p. Ok (cid, p))))"

definition decode_token_param :: "u8 list \<Rightarrow> (u8 list \<times> u8 list) res" where
  "decode_token_param p =
     bindR (decode_varint p) (\<lambda>(valuelen, p).
     if unat valuelen \<noteq> 16 then malformed else
     if length p < 16 then malformed else
     rd_bytes p 16)"

text \<open>An address and a port, and whether they are not all zero.\<close>

definition decode_sockaddr :: "sa_family \<Rightarrow> nat \<Rightarrow> ngtcp2_sockaddr_in \<Rightarrow> u8 list \<Rightarrow> (ngtcp2_sockaddr_in \<times> bool \<times> u8 list) res" where
  "decode_sockaddr family n sa p =
     bindR (rd_bytes p n) (\<lambda>(addr, p).
     bindR (rd_bytes p 2) (\<lambda>(port, p).
     let sa = sa\<lparr>sin_addr := addr, sin_port := port\<rparr> in
     if port \<noteq> replicate 2 0 \<or> addr \<noteq> replicate n 0 then Ok (sa\<lparr>sin_family := family\<rparr>, True, p)
     else Ok (sa, False, p)))"

definition decode_preferred_addr :: "ngtcp2_preferred_addr \<Rightarrow> u8 list \<Rightarrow> (ngtcp2_preferred_addr \<times> u8 list) res" where
  "decode_preferred_addr a p =
     bindR (decode_varint p) (\<lambda>(valuelen, p).
     if length p < unat valuelen then malformed else
     let len = 4 + 2 + 16 + 2 + 1 + 16 in
     if unat valuelen < len then malformed else
     bindR (decode_sockaddr NGTCP2_AF_INET 4 (pa_ipv4 a) p) (\<lambda>(ipv4, ipv4_present, p).
     bindR (decode_sockaddr NGTCP2_AF_INET6 16 (pa_ipv6 a) p) (\<lambda>(ipv6, ipv6_present, p).
     bindR (peek p) (\<lambda>b.
     bindR (ptr_add p 1) (\<lambda>p.
     let cidlen = unat b; len = len + cidlen in
     if unat valuelen \<noteq> len \<or> cidlen > NGTCP2_MAX_CIDLEN \<or> cidlen < NGTCP2_MIN_CIDLEN then malformed else
     bindR (rd_bytes p cidlen) (\<lambda>(cid, p).
     bindR (rd_bytes p 16) (\<lambda>(token, p).
     Ok (\<lparr>pa_cid = cid, pa_ipv4 = ipv4, pa_ipv6 = ipv6, pa_ipv4_present = ipv4_present \<or> pa_ipv4_present a,
          pa_ipv6_present = ipv6_present \<or> pa_ipv6_present a, pa_stateless_reset_token = token\<rparr>, p))))))))"

text \<open>The loop over the available versions: \<open>n\<close> bytes from \<open>p\<close>.\<close>

fun check_versions :: "nat \<Rightarrow> u8 list \<Rightarrow> u8 list res" where
  "check_versions n p =
     (if n = 0 then Ok p else
      if n < 4 then Fault else
      bindR (ngtcp2_get_uint32be p) (\<lambda>(version, p).
      if version = 0 then malformed else check_versions (n - 4) p))"

declare check_versions.simps [simp del]

definition decode_version_info :: "ngtcp2_version_info \<Rightarrow> u8 list \<Rightarrow> (ngtcp2_version_info \<times> u8 list) res" where
  "decode_version_info v p =
     bindR (decode_varint p) (\<lambda>(valuelen, p).
     if length p < unat valuelen then malformed else
     if unat valuelen < 4 \<or> valuelen AND 0x3 \<noteq> 0 then malformed else
     bindR (ngtcp2_get_uint32be p) (\<lambda>(chosen, p).
     let v = v\<lparr>vi_chosen_version := chosen\<rparr> in
     if chosen = 0 then malformed else
     if unat valuelen > 4 then
       bindR (rd_bytes p (unat valuelen - 4)) (\<lambda>(versions, _).
       bindR (check_versions (unat valuelen - 4) p) (\<lambda>p.
       Ok (v\<lparr>vi_available_versions := versions\<rparr>, p)))
     else Ok (v, p)))"

definition skip_param :: "u8 list \<Rightarrow> u8 list res" where
  "skip_param p =
     bindR (decode_varint p) (\<lambda>(valuelen, p).
     if length p < unat valuelen then malformed else ptr_add p (unat valuelen))"

text \<open>The \<open>switch\<close> on the identifier.\<close>

definition decode_param :: "u64 \<Rightarrow> ngtcp2_transport_params \<Rightarrow> u8 list \<Rightarrow> (ngtcp2_transport_params \<times> u8 list) res" where
  "decode_param param_type t p =
    (if param_type = TP_INITIAL_MAX_STREAM_DATA_BIDI_LOCAL then
       bindR (decode_varint_param p) (\<lambda>(v, p). Ok (t\<lparr>tp_initial_max_stream_data_bidi_local := v\<rparr>, p))
     else if param_type = TP_INITIAL_MAX_STREAM_DATA_BIDI_REMOTE then
       bindR (decode_varint_param p) (\<lambda>(v, p). Ok (t\<lparr>tp_initial_max_stream_data_bidi_remote := v\<rparr>, p))
     else if param_type = TP_INITIAL_MAX_STREAM_DATA_UNI then
       bindR (decode_varint_param p) (\<lambda>(v, p). Ok (t\<lparr>tp_initial_max_stream_data_uni := v\<rparr>, p))
     else if param_type = TP_INITIAL_MAX_DATA then
       bindR (decode_varint_param p) (\<lambda>(v, p). Ok (t\<lparr>tp_initial_max_data := v\<rparr>, p))
     else if param_type = TP_INITIAL_MAX_STREAMS_BIDI then
       bindR (decode_varint_param p) (\<lambda>(v, p).
       if v > NGTCP2_STREAMS_LIMIT then malformed else Ok (t\<lparr>tp_initial_max_streams_bidi := v\<rparr>, p))
     else if param_type = TP_INITIAL_MAX_STREAMS_UNI then
       bindR (decode_varint_param p) (\<lambda>(v, p).
       if v > NGTCP2_STREAMS_LIMIT then malformed else Ok (t\<lparr>tp_initial_max_streams_uni := v\<rparr>, p))
     else if param_type = TP_MAX_IDLE_TIMEOUT then
       bindR (decode_varint_param p) (\<lambda>(v, p).
       let v = (if v > 0xFFFFFFFFFFFFFFFF div NGTCP2_MILLISECONDS then 0xFFFFFFFFFFFFFFFF else v) in
       Ok (t\<lparr>tp_max_idle_timeout := v * NGTCP2_MILLISECONDS\<rparr>, p))
     else if param_type = TP_MAX_UDP_PAYLOAD_SIZE then
       bindR (decode_varint_param p) (\<lambda>(v, p). Ok (t\<lparr>tp_max_udp_payload_size := v\<rparr>, p))
     else if param_type = TP_STATELESS_RESET_TOKEN then
       bindR (decode_token_param p) (\<lambda>(token, p).
       Ok (t\<lparr>tp_stateless_reset_token := token, tp_stateless_reset_token_present := True\<rparr>, p))
     else if param_type = TP_ACK_DELAY_EXPONENT then
       bindR (decode_varint_param p) (\<lambda>(v, p).
       if v > 20 then malformed else Ok (t\<lparr>tp_ack_delay_exponent := v\<rparr>, p))
     else if param_type = TP_PREFERRED_ADDRESS then
       bindR (decode_preferred_addr (tp_preferred_addr t) p) (\<lambda>(a, p).
       Ok (t\<lparr>tp_preferred_addr := a, tp_preferred_addr_present := True\<rparr>, p))
     else if param_type = TP_DISABLE_ACTIVE_MIGRATION then
       bindR (decode_zero_param p) (\<lambda>p. Ok (t\<lparr>tp_disable_active_migration := True\<rparr>, p))
     else if param_type = TP_ORIGINAL_DCID then
       bindR (decode_cid_param p) (\<lambda>(cid, p). Ok (t\<lparr>tp_original_dcid := cid, tp_original_dcid_present := True\<rparr>, p))
     else if param_type = TP_RETRY_SCID then
       bindR (decode_cid_param p) (\<lambda>(cid, p). Ok (t\<lparr>tp_retry_scid := cid, tp_retry_scid_present := True\<rparr>, p))
     else if param_type = TP_INITIAL_SCID then
       bindR (decode_cid_param p) (\<lambda>(cid, p). Ok (t\<lparr>tp_initial_scid := cid, tp_initial_scid_present := True\<rparr>, p))
     else if param_type = TP_MAX_ACK_DELAY then
       bindR (decode_varint_param p) (\<lambda>(v, p).
       if v \<ge> 16384 then malformed else Ok (t\<lparr>tp_max_ack_delay := v * NGTCP2_MILLISECONDS\<rparr>, p))
     else if param_type = TP_ACTIVE_CONNECTION_ID_LIMIT then
       bindR (decode_varint_param p) (\<lambda>(v, p). Ok (t\<lparr>tp_active_connection_id_limit := v\<rparr>, p))
     else if param_type = TP_MAX_DATAGRAM_FRAME_SIZE then
       bindR (decode_varint_param p) (\<lambda>(v, p). Ok (t\<lparr>tp_max_datagram_frame_size := v\<rparr>, p))
     else if param_type = TP_GREASE_QUIC_BIT then
       bindR (decode_zero_param p) (\<lambda>p. Ok (t\<lparr>tp_grease_quic_bit := True\<rparr>, p))
     else if param_type = TP_VERSION_INFORMATION then
       bindR (decode_version_info (tp_version_info t) p) (\<lambda>(v, p).
       Ok (t\<lparr>tp_version_info := v, tp_version_info_present := True\<rparr>, p))
     else
       bindR (skip_param p) (\<lambda>p. Ok (t, p)))"


section \<open>Safety and termination\<close>

text \<open>A result with the property \<open>P\<close>, or the one error of the decoder.\<close>

definition okM :: "('a \<Rightarrow> bool) \<Rightarrow> 'a res \<Rightarrow> bool" where
  "okM P r = (case r of Ok x \<Rightarrow> P x | Err e \<Rightarrow> e = NGTCP2_ERR_MALFORMED_TRANSPORT_PARAM | Fault \<Rightarrow> False)"

lemma okM_simps [simp]:
  "okM P (Ok x) = P x" "okM P (Err e) = (e = NGTCP2_ERR_MALFORMED_TRANSPORT_PARAM)" "\<not> okM P Fault"
  by (simp_all add: okM_def)

lemma okM_bindI: "okM Q m \<Longrightarrow> (\<And>x. Q x \<Longrightarrow> okM P (f x)) \<Longrightarrow> okM P (bindR m f)"
  by (cases m) simp_all

lemma okM_bind2:
  "okM (\<lambda>(a, b). Q a b) m \<Longrightarrow> (\<And>a b. Q a b \<Longrightarrow> okM P (f a b)) \<Longrightarrow> okM P (bindR m (\<lambda>(a, b). f a b))"
  by (cases m) auto

lemma okM_mono: "okM P m \<Longrightarrow> (\<And>x. P x \<Longrightarrow> Q x) \<Longrightarrow> okM Q m"
  by (cases m) simp_all

text \<open>Every reader stays in the buffer and does not move backwards; the integer readers advance.\<close>

lemma decode_varint_safe: "okM (\<lambda>(v, q). length q < length p \<and> v \<le> varint_max) (decode_varint p)"
  by (auto simp: decode_varint_def rd_simps)

lemma decode_varint_param_safe: "okM (\<lambda>(v, q). length q < length p \<and> v \<le> varint_max) (decode_varint_param p)"
  unfolding decode_varint_param_def
  by (rule okM_bind2 [OF decode_varint_safe]) (auto simp: rd_simps)

lemma decode_zero_param_safe: "okM (\<lambda>q. length q \<le> length p) (decode_zero_param p)"
  by (cases p) (auto simp: decode_zero_param_def rd_simps)

lemma decode_cid_param_safe: "okM (\<lambda>(c, q). length q \<le> length p \<and> length c \<le> NGTCP2_MAX_CIDLEN) (decode_cid_param p)"
  unfolding decode_cid_param_def
  by (rule okM_bind2 [OF decode_varint_safe]) (auto simp: rd_simps)

lemma decode_token_param_safe: "okM (\<lambda>(t, q). length q \<le> length p \<and> length t = 16) (decode_token_param p)"
  unfolding decode_token_param_def
  by (rule okM_bind2 [OF decode_varint_safe]) (auto simp: rd_simps)

lemma decode_sockaddr_Ok:
  "n + 2 \<le> length p \<Longrightarrow> \<exists>sa b. decode_sockaddr family n sa0 p = Ok (sa, b, drop (n + 2) p) \<and> length (sin_addr sa) = n \<and> length (sin_port sa) = 2"
  by (auto simp: decode_sockaddr_def rd_simps Let_def add.commute)

lemma decode_preferred_addr_safe:
  "okM (\<lambda>(a, q). length q \<le> length p \<and> NGTCP2_MIN_CIDLEN \<le> length (pa_cid a) \<and> length (pa_cid a) \<le> NGTCP2_MAX_CIDLEN)
     (decode_preferred_addr a p)"
  unfolding decode_preferred_addr_def
proof (rule okM_bind2 [OF decode_varint_safe], goal_cases)
  case (1 valuelen q)
  obtain sa b where 4: "decode_sockaddr NGTCP2_AF_INET 4 (pa_ipv4 a) q = Ok (sa, b, drop 6 q)" if "41 \<le> length q"
    using decode_sockaddr_Ok [of 4 q NGTCP2_AF_INET "pa_ipv4 a"] by fastforce
  obtain sb c where 6: "decode_sockaddr NGTCP2_AF_INET6 16 (pa_ipv6 a) (drop 6 q) = Ok (sb, c, drop 24 q)" if "41 \<le> length q"
    using decode_sockaddr_Ok [of 16 "drop 6 q" NGTCP2_AF_INET6 "pa_ipv6 a"] by fastforce
  show ?case using 4 6 1 by (auto simp: Let_def rd_simps)
qed

lemma check_versions_safe: "n mod 4 = 0 \<Longrightarrow> n \<le> length p \<Longrightarrow> okM (\<lambda>q. q = drop n p) (check_versions n p)"
proof (induction n p rule: check_versions.induct)
  case (1 n p)
  show ?case
  proof (cases "n = 0")
    case False
    then have n: "4 \<le> n" using 1(2) by (cases "n < 4") auto
    have m: "(n - 4) mod 4 = 0" using 1(2) n by (simp add: mod_diff_right_eq [symmetric] le_mod_geq)
    show ?thesis using 1(1) [of "be_value (take 4 p)" "drop 4 p"] False n m 1(3)
      by (subst check_versions.simps) (auto simp: rd_simps)
  qed (simp add: check_versions.simps)
qed

lemma and_3_mod_4: "w AND 3 = 0 \<longleftrightarrow> unat w mod 4 = 0" for w :: u64
proof -
  have "w AND 3 = take_bit 2 w" by (simp add: take_bit_eq_mask mask_eq_exp_minus_1)
  then show ?thesis by (simp add: word_unat_eq_iff unsigned_take_bit_eq take_bit_eq_mod unat_mod_distrib)
qed

lemma decode_version_info_safe:
  "okM (\<lambda>(v, q). length q \<le> length p \<and> vi_chosen_version v \<noteq> 0) (decode_version_info v p)"
  unfolding decode_version_info_def
proof (rule okM_bind2 [OF decode_varint_safe], goal_cases)
  case (1 valuelen q)
  have c: "okM (\<lambda>r. r = drop (unat valuelen - 4) (drop 4 q)) (check_versions (unat valuelen - 4) (drop 4 q))"
    if "unat valuelen \<le> length q" "4 \<le> unat valuelen" "unat valuelen mod 4 = 0"
    using that by (intro check_versions_safe) (auto simp: le_mod_geq)
  have "okM (\<lambda>(v, q). length q \<le> length p \<and> vi_chosen_version v \<noteq> 0)
      (bindR (check_versions (unat valuelen - 4) (drop 4 q)) (\<lambda>p. Ok (v\<lparr>vi_chosen_version := chosen, vi_available_versions := versions\<rparr>, p)))"
    if "unat valuelen \<le> length q" "4 \<le> unat valuelen" "unat valuelen mod 4 = 0" "chosen \<noteq> 0" for chosen versions
    by (rule okM_bindI [OF c]) (use that 1 in auto)
  then show ?case using 1 by (auto simp: rd_simps and_3_mod_4 Let_def)
qed

lemma skip_param_safe: "okM (\<lambda>q. length q \<le> length p) (skip_param p)"
  unfolding skip_param_def by (rule okM_bind2 [OF decode_varint_safe]) (auto simp: rd_simps)

text \<open>The limits that the decoder enforces.\<close>

definition tp_limits :: "ngtcp2_transport_params \<Rightarrow> bool" where
  "tp_limits t =
    (tp_initial_max_streams_bidi t \<le> NGTCP2_STREAMS_LIMIT \<and> tp_initial_max_streams_uni t \<le> NGTCP2_STREAMS_LIMIT \<and>
     tp_ack_delay_exponent t \<le> 20 \<and> tp_max_ack_delay t < 16384 * NGTCP2_MILLISECONDS \<and>
     length (tp_original_dcid t) \<le> NGTCP2_MAX_CIDLEN \<and> length (tp_initial_scid t) \<le> NGTCP2_MAX_CIDLEN \<and>
     length (tp_retry_scid t) \<le> NGTCP2_MAX_CIDLEN \<and> length (tp_stateless_reset_token t) = 16 \<and>
     (tp_preferred_addr_present t \<longrightarrow> NGTCP2_MIN_CIDLEN \<le> length (pa_cid (tp_preferred_addr t)) \<and>
        length (pa_cid (tp_preferred_addr t)) \<le> NGTCP2_MAX_CIDLEN) \<and>
     (tp_version_info_present t \<longrightarrow> vi_chosen_version (tp_version_info t) \<noteq> 0))"

lemma ack_delay_limit: "v < 16384 \<Longrightarrow> v * 1000000 < (16384000000 :: u64)"
  by (simp add: word_less_nat_alt unat_word_ariths)

lemma decode_param_safe:
  assumes "tp_limits t"
  shows "okM (\<lambda>(t', q). length q \<le> length p \<and> tp_limits t') (decode_param param_type t p)"
proof -
  note step = okM_bind2 [OF decode_varint_param_safe] okM_bind2 [OF decode_cid_param_safe] okM_bind2 [OF decode_token_param_safe]
    okM_bind2 [OF decode_preferred_addr_safe] okM_bind2 [OF decode_version_info_safe] okM_bindI [OF decode_zero_param_safe]
    okM_bindI [OF skip_param_safe]
  show ?thesis using assms unfolding decode_param_def
    by (auto intro!: step simp: tp_limits_def Let_def ack_delay_limit not_le)
qed

section \<open>The loop\<close>

text \<open>The loop over the parameters: at least two bytes are left at the start of each.\<close>

declare bindR_cong [fundef_cong]

function decode_params :: "ngtcp2_transport_params \<Rightarrow> u8 list \<Rightarrow> ngtcp2_transport_params res" where
  "decode_params params p =
     (if 2 \<le> length p then
        bindR (decode_varint p) (\<lambda>(param_type, p).
        bindR (decode_param param_type params p) (\<lambda>(params, p). decode_params params p))
      else if p \<noteq> [] then malformed else Ok params)"
  by pat_completeness auto

lemma okM_Ok: "okM P r \<Longrightarrow> r = Ok x \<Longrightarrow> P x"
  by (simp add: okM_def)

text \<open>The two parts of a safe pair of steps: the first is safe, and so is the rest after each of its results.\<close>

lemma bind_run:
  "(\<And>a b. m = Ok (a, b) \<Longrightarrow> okM P (f a b)) \<Longrightarrow> okM (\<lambda>_. True) m \<Longrightarrow> okM P (bindR m (\<lambda>(a, b). f a b))"
  by (cases m) auto

lemma decode_param_len: "okM (\<lambda>(t', q). length q \<le> length p) (decode_param param_type t p)"
proof -
  note step = okM_bind2 [OF decode_varint_param_safe] okM_bind2 [OF decode_cid_param_safe] okM_bind2 [OF decode_token_param_safe]
    okM_bind2 [OF decode_preferred_addr_safe] okM_bind2 [OF decode_version_info_safe] okM_bindI [OF decode_zero_param_safe]
    okM_bindI [OF skip_param_safe]
  show ?thesis unfolding decode_param_def
    by (auto intro!: step simp: Let_def)
qed

termination decode_params
  by (relation "measure (\<lambda>(_, p). length p)")
    (auto dest!: okM_Ok [OF decode_varint_safe] okM_Ok [OF decode_param_len])

declare decode_params.simps [simp del]

definition ngtcp2_transport_params_decode_versioned :: "u8 list \<Rightarrow> ngtcp2_transport_params res" where
  "ngtcp2_transport_params_decode_versioned data = decode_params ngtcp2_transport_params_default_versioned data"

text \<open>A copy on the heap, \<open>ok\<close> when the allocation succeeds.\<close>

definition transport_params_copy_new :: "bool \<Rightarrow> ngtcp2_transport_params \<Rightarrow> ngtcp2_transport_params res" where
  "transport_params_copy_new ok src = (if ok then Ok src else Err NGTCP2_ERR_NOMEM)"

definition ngtcp2_transport_params_decode_new :: "bool \<Rightarrow> u8 list \<Rightarrow> ngtcp2_transport_params res" where
  "ngtcp2_transport_params_decode_new ok data =
     bindR (ngtcp2_transport_params_decode_versioned data) (transport_params_copy_new ok)"

definition ngtcp2_transport_params_copy_new :: "bool \<Rightarrow> ngtcp2_transport_params option \<Rightarrow> ngtcp2_transport_params option res" where
  "ngtcp2_transport_params_copy_new ok src =
     (case src of None \<Rightarrow> Ok None | Some src \<Rightarrow> bindR (transport_params_copy_new ok src) (\<lambda>dest. Ok (Some dest)))"

lemma decode_params_safe: "tp_limits t \<Longrightarrow> okM tp_limits (decode_params t p)"
proof (induction t p rule: decode_params.induct)
  case (1 t p)
  note IH = 1(1) and t = 1(2)
  show ?case
  proof (cases "2 \<le> length p")
    case True
    have "okM tp_limits (bindR (decode_varint p) (\<lambda>(param_type, p).
        bindR (decode_param param_type t p) (\<lambda>(params, p). decode_params params p)))"
    proof (rule bind_run, goal_cases)
      case (1 param_type q)
      note q = this okM_Ok [OF decode_varint_safe this]
      show ?case
      proof (rule bind_run, goal_cases)
        case (1 t' q')
        show ?case using okM_Ok [OF decode_param_safe [OF t] 1] IH [OF True q(1) _ 1] by simp
      qed (rule okM_mono [OF decode_param_len TrueI])
    qed (rule okM_mono [OF decode_varint_safe TrueI])
    then show ?thesis using True by (subst decode_params.simps) simp
  qed (simp add: decode_params.simps t)
qed

end
