(* ===== verification/Transport_Params_Correct.thy ===== *)
theory Transport_Params_Correct
  imports Transport_Params
begin

text \<open>
  The transport parameters: the wire format \<open>transport_params_bytes\<close>, that the encoder writes exactly this, and that the decoder
  reads it back. \<open>writes_item\<close> and \<open>decode_params_item\<close> are the steps of the two loops for one parameter.
\<close>

section \<open>The wire format\<close>

definition param_bytes :: "u64 \<Rightarrow> u8 list \<Rightarrow> u8 list" where
  "param_bytes pid v = varint_bytes pid @ varint_bytes (of_nat (length v)) @ v"

definition preferred_addr_bytes :: "ngtcp2_preferred_addr \<Rightarrow> u8 list" where
  "preferred_addr_bytes a =
     (if pa_ipv4_present a then sin_addr (pa_ipv4 a) @ sin_port (pa_ipv4 a) else replicate 6 0) @
     (if pa_ipv6_present a then sin_addr (pa_ipv6 a) @ sin_port (pa_ipv6 a) else replicate 18 0) @
     of_nat (length (pa_cid a)) # pa_cid a @ pa_stateless_reset_token a"

definition version_info_bytes :: "ngtcp2_version_info \<Rightarrow> u8 list" where
  "version_info_bytes v = be_bytes 4 (vi_chosen_version v) @ vi_available_versions v"

text \<open>The parameters in the order they are written, each with the condition that it is not left out, its identifier and value.\<close>

definition tp_items :: "ngtcp2_transport_params \<Rightarrow> (bool \<times> u64 \<times> u8 list) list" where
  "tp_items t =
    [(tp_original_dcid_present t, TP_ORIGINAL_DCID, tp_original_dcid t),
     (tp_stateless_reset_token_present t, TP_STATELESS_RESET_TOKEN, tp_stateless_reset_token t),
     (tp_preferred_addr_present t, TP_PREFERRED_ADDRESS, preferred_addr_bytes (tp_preferred_addr t)),
     (tp_retry_scid_present t, TP_RETRY_SCID, tp_retry_scid t),
     (tp_initial_scid_present t, TP_INITIAL_SCID, tp_initial_scid t),
     (tp_initial_max_stream_data_bidi_local t \<noteq> 0, TP_INITIAL_MAX_STREAM_DATA_BIDI_LOCAL,
        varint_bytes (tp_initial_max_stream_data_bidi_local t)),
     (tp_initial_max_stream_data_bidi_remote t \<noteq> 0, TP_INITIAL_MAX_STREAM_DATA_BIDI_REMOTE,
        varint_bytes (tp_initial_max_stream_data_bidi_remote t)),
     (tp_initial_max_stream_data_uni t \<noteq> 0, TP_INITIAL_MAX_STREAM_DATA_UNI, varint_bytes (tp_initial_max_stream_data_uni t)),
     (tp_initial_max_data t \<noteq> 0, TP_INITIAL_MAX_DATA, varint_bytes (tp_initial_max_data t)),
     (tp_initial_max_streams_bidi t \<noteq> 0, TP_INITIAL_MAX_STREAMS_BIDI, varint_bytes (tp_initial_max_streams_bidi t)),
     (tp_initial_max_streams_uni t \<noteq> 0, TP_INITIAL_MAX_STREAMS_UNI, varint_bytes (tp_initial_max_streams_uni t)),
     (tp_max_udp_payload_size t \<noteq> 65527, TP_MAX_UDP_PAYLOAD_SIZE, varint_bytes (tp_max_udp_payload_size t)),
     (tp_ack_delay_exponent t \<noteq> 3, TP_ACK_DELAY_EXPONENT, varint_bytes (tp_ack_delay_exponent t)),
     (tp_disable_active_migration t, TP_DISABLE_ACTIVE_MIGRATION, []),
     (tp_max_ack_delay t \<noteq> 25 * NGTCP2_MILLISECONDS, TP_MAX_ACK_DELAY, varint_bytes (tp_max_ack_delay t div NGTCP2_MILLISECONDS)),
     (tp_max_idle_timeout t \<noteq> 0, TP_MAX_IDLE_TIMEOUT, varint_bytes (tp_max_idle_timeout t div NGTCP2_MILLISECONDS)),
     (tp_active_connection_id_limit t \<noteq> 0 \<and> tp_active_connection_id_limit t \<noteq> 2, TP_ACTIVE_CONNECTION_ID_LIMIT,
        varint_bytes (tp_active_connection_id_limit t)),
     (tp_max_datagram_frame_size t \<noteq> 0, TP_MAX_DATAGRAM_FRAME_SIZE, varint_bytes (tp_max_datagram_frame_size t)),
     (tp_grease_quic_bit t, TP_GREASE_QUIC_BIT, []),
     (tp_version_info_present t, TP_VERSION_INFORMATION, version_info_bytes (tp_version_info t))]"

definition item_bytes :: "bool \<times> u64 \<times> u8 list \<Rightarrow> u8 list" where
  "item_bytes i = (case i of (c, pid, v) \<Rightarrow> if c then param_bytes pid v else [])"

definition transport_params_bytes :: "ngtcp2_transport_params \<Rightarrow> u8 list" where
  "transport_params_bytes t = concat (map item_bytes (tp_items t))"

text \<open>What the encoder requires: connection IDs and integers in range, and addresses and tokens of their sizes.\<close>

definition cid_ok :: "ngtcp2_cid \<Rightarrow> bool" where
  "cid_ok cid = (length cid \<le> NGTCP2_MAX_CIDLEN)"

definition sockaddr_ok :: "nat \<Rightarrow> ngtcp2_sockaddr_in \<Rightarrow> bool" where
  "sockaddr_ok n sa = (length (sin_addr sa) = n \<and> length (sin_port sa) = 2)"

definition preferred_addr_ok :: "ngtcp2_preferred_addr \<Rightarrow> bool" where
  "preferred_addr_ok a =
     (NGTCP2_MIN_CIDLEN \<le> length (pa_cid a) \<and> length (pa_cid a) \<le> NGTCP2_MAX_CIDLEN \<and> length (pa_stateless_reset_token a) = 16 \<and>
      (pa_ipv4_present a \<longrightarrow> sockaddr_ok 4 (pa_ipv4 a)) \<and> (pa_ipv6_present a \<longrightarrow> sockaddr_ok 16 (pa_ipv6 a)))"

definition tp_encodable :: "ngtcp2_transport_params \<Rightarrow> bool" where
  "tp_encodable t =
    ((tp_original_dcid_present t \<longrightarrow> cid_ok (tp_original_dcid t)) \<and> (tp_initial_scid_present t \<longrightarrow> cid_ok (tp_initial_scid t)) \<and>
     (tp_retry_scid_present t \<longrightarrow> cid_ok (tp_retry_scid t)) \<and>
     (tp_stateless_reset_token_present t \<longrightarrow> length (tp_stateless_reset_token t) = 16) \<and>
     (tp_preferred_addr_present t \<longrightarrow> preferred_addr_ok (tp_preferred_addr t)) \<and>
     tp_initial_max_stream_data_bidi_local t \<le> varint_max \<and> tp_initial_max_stream_data_bidi_remote t \<le> varint_max \<and>
     tp_initial_max_stream_data_uni t \<le> varint_max \<and> tp_initial_max_data t \<le> varint_max \<and>
     tp_initial_max_streams_bidi t \<le> varint_max \<and> tp_initial_max_streams_uni t \<le> varint_max \<and>
     tp_max_udp_payload_size t \<le> varint_max \<and> tp_ack_delay_exponent t \<le> varint_max \<and>
     tp_active_connection_id_limit t \<le> varint_max \<and> tp_max_datagram_frame_size t \<le> varint_max \<and>
     (tp_version_info_present t \<longrightarrow> length (vi_available_versions (tp_version_info t)) < 2 ^ 61))"

section \<open>Encoder\<close>

text \<open>A length and a writer for a value of the wire format.\<close>

definition writes :: "(u8 list \<times> nat \<Rightarrow> (u8 list \<times> nat) res) \<Rightarrow> u8 list \<Rightarrow> bool" where
  "writes w v = (\<forall>out bs. length bs + length v \<le> length out \<longrightarrow>
     w (filled out bs, length bs) = Ok (filled out (bs @ v), length bs + length v))"

definition writes_item :: "bool \<times> nat res \<Rightarrow> bool \<times> (u8 list \<times> nat \<Rightarrow> (u8 list \<times> nat) res) \<Rightarrow> bool \<times> u64 \<times> u8 list \<Rightarrow> bool" where
  "writes_item l w i = (fst l = fst i \<and> fst w = fst i \<and>
     (fst i \<longrightarrow> snd l = Ok (length (item_bytes i)) \<and> writes (snd w) (item_bytes i)))"

lemma add_lens_ok:
  "list_all2 (\<lambda>(l, w) i. writes_item l w i) ps items \<Longrightarrow> add_lens (map fst ps) = Ok (length (concat (map item_bytes items)))"
  by (induction rule: list_all2_induct) (auto simp: writes_item_def item_bytes_def)

lemma write_params_ok:
  "list_all2 (\<lambda>(l, w) i. writes_item l w i) ps items \<Longrightarrow> length bs + length (concat (map item_bytes items)) \<le> length out \<Longrightarrow>
     write_params (map snd ps) (filled out bs, length bs) =
       Ok (filled out (bs @ concat (map item_bytes items)), length bs + length (concat (map item_bytes items)))"
proof (induction arbitrary: bs rule: list_all2_induct)
  case (Cons lw ps i items)
  obtain l c w where lw: "lw = (l, c, w)" by (cases lw) auto
  have i: "writes w (item_bytes i)" if c using Cons(1) that by (auto simp: writes_item_def lw)
  have n: "item_bytes i = []" if "\<not> c" using Cons(1) that by (cases i) (auto simp: writes_item_def item_bytes_def lw)
  show ?case using Cons(3) [of bs] Cons(3) [of "bs @ item_bytes i"] Cons(4) i n
    by (cases c) (simp_all add: lw writes_def add.assoc)
qed simp

lemma small_id: "pid \<le> 0xFFFF \<Longrightarrow> pid \<le> varint_max"
  by (simp add: varint_max_def word_le_nat_alt)

lemma of_nat_varint: "n < 2 ^ 62 \<Longrightarrow> of_nat n \<le> varint_max"
  using len_ok_varint [of "replicate n 0"] by (simp add: len_ok_def)

lemma varint_len_small: "of_nat (varint_len v) \<le> varint_max"
  using varint_len_le8 [of v] by (intro of_nat_varint) simp

lemma varint_item:
  "pid \<le> 0xFFFF \<Longrightarrow> v \<le> varint_max \<Longrightarrow>
     writes_item (c, varint_paramlen pid v) (c, write_varint_param pid v) (c, pid, varint_bytes v)"
  using varint_len_small [of v]
  by (auto simp: writes_item_def item_bytes_def param_bytes_def varint_paramlen_def write_varint_param_def writes_def small_id wr_simps)

lemma zero_item: "pid \<le> 0xFFFF \<Longrightarrow> writes_item (c, zero_paramlen pid) (c, write_zero_param pid) (c, pid, [])"
  by (auto simp: writes_item_def item_bytes_def param_bytes_def zero_paramlen_def write_zero_param_def writes_def small_id wr_simps
      varint_bytes_def varint_len_def)

lemma cid_item:
  "pid \<le> 0xFFFF \<Longrightarrow> (c \<Longrightarrow> cid_ok cid) \<Longrightarrow> writes_item (c, cid_paramlen pid cid) (c, write_cid_param pid cid) (c, pid, cid)"
  by (cases "cid = []") (auto simp: of_nat_varint writes_item_def item_bytes_def param_bytes_def cid_paramlen_def bytes_paramlen_def write_cid_param_def
      writes_def small_id wr_simps cid_ok_def Suc_le_eq NGTCP2_MIN_CIDLEN_def NGTCP2_MAX_CIDLEN_def)

lemma token_item:
  "(c \<Longrightarrow> length token = 16) \<Longrightarrow>
     writes_item (c, bytes_paramlen TP_STATELESS_RESET_TOKEN 16) (c, write_token_param token) (c, TP_STATELESS_RESET_TOKEN, token)"
  by (auto simp: writes_item_def item_bytes_def param_bytes_def bytes_paramlen_def write_token_param_def
      writes_def small_id wr_simps)

lemma length_preferred_addr: "preferred_addr_ok a \<Longrightarrow> length (preferred_addr_bytes a) = preferred_addrlen a"
  by (auto simp: preferred_addr_bytes_def preferred_addrlen_def preferred_addr_ok_def sockaddr_ok_def)

lemma replicate_split: "replicate 6 x = replicate 4 x @ replicate 2 x" "replicate 18 x = replicate 16 x @ replicate 2 x"
  by (simp_all flip: replicate_add)

lemma preferred_addr_item:
  assumes "c \<Longrightarrow> preferred_addr_ok a"
  shows "writes_item (c, preferred_addr_paramlen a) (c, write_preferred_addr_param a) (c, TP_PREFERRED_ADDRESS, preferred_addr_bytes a)"
proof (cases c)
  case True
  have len: "of_nat (preferred_addrlen a) \<le> varint_max"
    using assms [OF True] by (intro of_nat_varint) (simp add: preferred_addrlen_def preferred_addr_ok_def NGTCP2_MAX_CIDLEN_def)
  have l: "length (preferred_addr_bytes a) = preferred_addrlen a" by (rule length_preferred_addr [OF assms [OF True]])
  have "writes (write_preferred_addr_param a)
      (varint_bytes TP_PREFERRED_ADDRESS @ varint_bytes (of_nat (preferred_addrlen a)) @ preferred_addr_bytes a)"
    using assms [OF True] len
    by (auto simp: writes_def write_preferred_addr_param_def preferred_addr_bytes_def preferred_addr_ok_def sockaddr_ok_def
      wr_simps small_id replicate_split preferred_addrlen_def NGTCP2_MIN_CIDLEN_def)
  then show ?thesis using True assms len l
    by (simp add: writes_item_def item_bytes_def param_bytes_def preferred_addr_paramlen_def bytes_paramlen_def small_id preferred_addr_ok_def)
qed (simp add: writes_item_def)

lemma version_info_item:
  assumes "c \<Longrightarrow> length (vi_available_versions v) < 2 ^ 61"
  shows "writes_item (c, bytes_paramlen TP_VERSION_INFORMATION (version_infolen v)) (c, write_version_info_param v)
    (c, TP_VERSION_INFORMATION, version_info_bytes v)"
proof (cases c)
  case True
  have "of_nat (version_infolen v) \<le> varint_max"
    using assms [OF True] by (intro of_nat_varint) (simp add: version_infolen_def)
  then show ?thesis
    by (auto simp: writes_item_def item_bytes_def param_bytes_def bytes_paramlen_def version_infolen_def write_version_info_param_def
      version_info_bytes_def writes_def small_id wr_simps)
qed (simp add: writes_item_def)

lemma div_varint: "d div 1000000 \<le> varint_max" for d :: u64
proof -
  show ?thesis using unat_bound64 [of d] by (simp add: varint_max_def word_le_nat_alt unat_div_distrib)
qed

lemma tp_items_written:
  assumes "tp_encodable t"
  shows "list_all2 (\<lambda>(l, w) i. writes_item l w i) (zip (tp_lens t) (tp_writes t)) (tp_items t)"
  using assms unfolding tp_lens_def tp_writes_def tp_items_def tp_encodable_def
  by (simp only: zip_Cons_Cons zip_Nil list_all2_Cons list_all2_Nil prod.case)
    (intro conjI TrueI varint_item zero_item cid_item token_item preferred_addr_item version_info_item div_varint; simp)

lemma encode_spec:
  assumes "tp_encodable t"
  shows "ngtcp2_transport_params_encode_versioned (Some out) t =
      (if length out < length (transport_params_bytes t) then Err NGTCP2_ERR_NOBUF
       else Ok (filled out (transport_params_bytes t), length (transport_params_bytes t)))"
    and "ngtcp2_transport_params_encode_versioned None t = Ok ([], length (transport_params_bytes t))"
proof -
  have "length (tp_lens t) = length (tp_writes t)" by (simp add: tp_lens_def tp_writes_def)
  then have m: "map fst (zip (tp_lens t) (tp_writes t)) = tp_lens t" "map snd (zip (tp_lens t) (tp_writes t)) = tp_writes t"
    by simp_all
  note len = add_lens_ok [OF tp_items_written [OF assms], unfolded m]
    and wr = write_params_ok [OF tp_items_written [OF assms], of "[]" out, unfolded m]
  show "ngtcp2_transport_params_encode_versioned (Some out) t =
      (if length out < length (transport_params_bytes t) then Err NGTCP2_ERR_NOBUF
       else Ok (filled out (transport_params_bytes t), length (transport_params_bytes t)))"
    and "ngtcp2_transport_params_encode_versioned None t = Ok ([], length (transport_params_bytes t))"
    using wr by (simp_all add: ngtcp2_transport_params_encode_versioned_def transport_params_bytes_def len)
qed

section \<open>Round trip\<close>

text \<open>
  The structure that arrives: the timeouts in whole milliseconds, the limit on connection IDs at its default when it is zero, and
  an address of a preferred address when it is present and not all zero.
\<close>

definition sockaddr_received :: "sa_family \<Rightarrow> nat \<Rightarrow> bool \<Rightarrow> ngtcp2_sockaddr_in \<Rightarrow> ngtcp2_sockaddr_in \<times> bool" where
  "sockaddr_received family n present sa =
     (if present \<and> (sin_port sa \<noteq> replicate 2 0 \<or> sin_addr sa \<noteq> replicate n 0) then (sa\<lparr>sin_family := family\<rparr>, True)
      else (sockaddr_zero n, False))"

definition preferred_addr_received :: "ngtcp2_preferred_addr \<Rightarrow> ngtcp2_preferred_addr" where
  "preferred_addr_received a =
     a\<lparr>pa_ipv4 := fst (sockaddr_received NGTCP2_AF_INET 4 (pa_ipv4_present a) (pa_ipv4 a)),
       pa_ipv4_present := snd (sockaddr_received NGTCP2_AF_INET 4 (pa_ipv4_present a) (pa_ipv4 a)),
       pa_ipv6 := fst (sockaddr_received NGTCP2_AF_INET6 16 (pa_ipv6_present a) (pa_ipv6 a)),
       pa_ipv6_present := snd (sockaddr_received NGTCP2_AF_INET6 16 (pa_ipv6_present a) (pa_ipv6 a))\<rparr>"

definition tp_received :: "ngtcp2_transport_params \<Rightarrow> ngtcp2_transport_params" where
  "tp_received t =
     t\<lparr>tp_original_dcid := if tp_original_dcid_present t then tp_original_dcid t else [],
       tp_initial_scid := if tp_initial_scid_present t then tp_initial_scid t else [],
       tp_retry_scid := if tp_retry_scid_present t then tp_retry_scid t else [],
       tp_stateless_reset_token := if tp_stateless_reset_token_present t then tp_stateless_reset_token t else replicate 16 0,
       tp_preferred_addr := if tp_preferred_addr_present t then preferred_addr_received (tp_preferred_addr t) else preferred_addr_zero,
       tp_max_ack_delay := tp_max_ack_delay t div NGTCP2_MILLISECONDS * NGTCP2_MILLISECONDS,
       tp_max_idle_timeout := tp_max_idle_timeout t div NGTCP2_MILLISECONDS * NGTCP2_MILLISECONDS,
       tp_active_connection_id_limit := if tp_active_connection_id_limit t = 0 then 2 else tp_active_connection_id_limit t,
       tp_version_info := if tp_version_info_present t then tp_version_info t else \<lparr>vi_chosen_version = 0, vi_available_versions = []\<rparr>\<rparr>"

text \<open>The limits of the protocol, beyond what the encoder requires.\<close>

fun versions_ok :: "u8 list \<Rightarrow> bool" where
  "versions_ok (a # b # c # d # vs) = (be_value [a, b, c, d] \<noteq> (0 :: u32) \<and> versions_ok vs)"
| "versions_ok vs = (vs = [])"

definition tp_valid :: "ngtcp2_transport_params \<Rightarrow> bool" where
  "tp_valid t =
    (tp_initial_max_streams_bidi t \<le> NGTCP2_STREAMS_LIMIT \<and> tp_initial_max_streams_uni t \<le> NGTCP2_STREAMS_LIMIT \<and>
     tp_ack_delay_exponent t \<le> 20 \<and> tp_max_ack_delay t < 16384 * NGTCP2_MILLISECONDS \<and>
     (tp_version_info_present t \<longrightarrow>
        vi_chosen_version (tp_version_info t) \<noteq> 0 \<and> versions_ok (vi_available_versions (tp_version_info t))))"

subsection \<open>Reading one value\<close>

lemma decode_varint_varint [simp]: "n \<le> varint_max \<Longrightarrow> decode_varint (varint_bytes n @ r) = Ok (n, r)"
  by (simp add: decode_varint_def)

lemma unat_varint_len: "unat (of_nat (varint_len v) :: u64) = varint_len v"
  by (simp add: varint_len_def)

lemma decode_varint_param_bytes:
  "v \<le> varint_max \<Longrightarrow> decode_varint_param (varint_bytes (of_nat (varint_len v)) @ varint_bytes v @ r) = Ok (v, r)"
  by (simp add: decode_varint_param_def varint_len_small unat_varint_len)

lemma decode_zero_param_bytes: "decode_zero_param (varint_bytes 0 @ r) = Ok r"
  by (simp add: decode_zero_param_def varint_bytes_def)

lemma decode_cid_param_bytes:
  "cid_ok cid \<Longrightarrow> decode_cid_param (varint_bytes (of_nat (length cid)) @ cid @ r) = Ok (cid, r)"
  by (auto simp: decode_cid_param_def of_nat_varint unat_of_nat_u64 cid_ok_def NGTCP2_MAX_CIDLEN_def NGTCP2_MIN_CIDLEN_def
      cid_init_Ok)

lemma decode_token_param_bytes: "length token = 16 \<Longrightarrow> decode_token_param (varint_bytes 16 @ token @ r) = Ok (token, r)"
  by (simp add: decode_token_param_def small_id)

lemma decode_sockaddr_bytes:
  "sockaddr_ok n sa \<Longrightarrow> decode_sockaddr family n (sockaddr_zero n) (sin_addr sa @ sin_port sa @ r) =
     Ok (fst (sockaddr_received family n True sa), snd (sockaddr_received family n True sa), r)"
  by (cases sa) (auto simp: decode_sockaddr_def sockaddr_ok_def sockaddr_received_def sockaddr_zero_def)

lemma decode_sockaddr_zeros:
  "decode_sockaddr family n (sockaddr_zero n) (replicate n 0 @ replicate 2 0 @ r) = Ok (sockaddr_zero n, False, r)"
  by (simp add: decode_sockaddr_def sockaddr_zero_def)

lemma decode_sockaddr_written:
  "m = n + 2 \<Longrightarrow> (present \<Longrightarrow> sockaddr_ok n sa) \<Longrightarrow>
     decode_sockaddr family n (sockaddr_zero n) ((if present then sin_addr sa @ sin_port sa else replicate m 0) @ r) =
       Ok (fst (sockaddr_received family n present sa), snd (sockaddr_received family n present sa), r)"
  using decode_sockaddr_bytes [of n sa family r] decode_sockaddr_zeros [of family n r]
    replicate_add [of n 2 "0 :: u8"]
  by (cases present) (simp_all only: if_True if_False append_assoc sockaddr_received_def simp_thms fst_conv snd_conv)

lemma decode_preferred_addr_bytes:
  assumes "preferred_addr_ok a"
  shows "decode_preferred_addr preferred_addr_zero (varint_bytes (of_nat (preferred_addrlen a)) @ preferred_addr_bytes a @ r) =
    Ok (preferred_addr_received a, r)"
proof -
  define n where "n = preferred_addrlen a"
  define v4 where "v4 = (if pa_ipv4_present a then sin_addr (pa_ipv4 a) @ sin_port (pa_ipv4 a) else replicate 6 0)"
  define v6 where "v6 = (if pa_ipv6_present a then sin_addr (pa_ipv6 a) @ sin_port (pa_ipv6 a) else replicate 18 0)"
  let ?r4 = "sockaddr_received NGTCP2_AF_INET 4 (pa_ipv4_present a) (pa_ipv4 a)"
  let ?r6 = "sockaddr_received NGTCP2_AF_INET6 16 (pa_ipv6_present a) (pa_ipv6 a)"
  have n: "n \<le> 61" "41 + length (pa_cid a) = n" "\<not> n < 41"
    using assms by (simp_all add: n_def preferred_addrlen_def preferred_addr_ok_def NGTCP2_MAX_CIDLEN_def)
  then have len: "of_nat n \<le> varint_max" "unat (of_nat n :: u64) = n"
    by (auto intro!: of_nat_varint unat_of_nat_u64)
  have c: "unat (of_nat (length (pa_cid a)) :: u8) = length (pa_cid a)"
    using assms by (simp add: preferred_addr_ok_def NGTCP2_MAX_CIDLEN_def unsigned_of_nat take_bit_nat_eq_self)
  have 4: "decode_sockaddr NGTCP2_AF_INET 4 (sockaddr_zero 4) (v4 @ s) = Ok (fst ?r4, snd ?r4, s)" for s
    unfolding v4_def using assms by (intro decode_sockaddr_written) (simp_all add: preferred_addr_ok_def)
  have 6: "decode_sockaddr NGTCP2_AF_INET6 16 (sockaddr_zero 16) (v6 @ s) = Ok (fst ?r6, snd ?r6, s)" for s
    unfolding v6_def using assms by (intro decode_sockaddr_written) (simp_all add: preferred_addr_ok_def)
  have b: "preferred_addr_bytes a @ r = v4 @ v6 @ of_nat (length (pa_cid a)) # pa_cid a @ pa_stateless_reset_token a @ r"
    by (simp add: preferred_addr_bytes_def v4_def v6_def)
  have "\<not> length (preferred_addr_bytes a @ r) < n" using length_preferred_addr [OF assms] by (simp add: n_def)
  then show ?thesis using assms unfolding n_def [symmetric] b
    by (simp add: decode_preferred_addr_def len c preferred_addr_zero_def 4 6 Let_def preferred_addr_ok_def n(2,3)
      preferred_addr_received_def ptr_add_def not_less del: replicate.simps length_append)
qed

lemma check_versions_bytes: "versions_ok vs \<Longrightarrow> check_versions (length vs) (vs @ r) = Ok r"
proof (induction vs rule: versions_ok.induct)
  case (1 a b c d vs)
  then have "be_value [a, b, c, d] \<noteq> (0 :: u32)" by simp
  with 1 show ?case by (subst check_versions.simps) (simp add: get_uint32be_Ok del: be_value.simps)
qed (simp_all add: check_versions.simps)

lemma versions_ok_len: "versions_ok vs \<Longrightarrow> length vs mod 4 = 0"
  by (induction vs rule: versions_ok.induct) simp_all

lemma decode_version_info_bytes:
  assumes "vi_chosen_version v \<noteq> 0" "versions_ok (vi_available_versions v)" "length (vi_available_versions v) < 2 ^ 61"
  shows "decode_version_info \<lparr>vi_chosen_version = 0, vi_available_versions = []\<rparr>
      (varint_bytes (of_nat (version_infolen v)) @ version_info_bytes v @ r) = Ok (v, r)"
proof -
  have "version_infolen v < 2 ^ 62" using assms(3) by (simp add: version_infolen_def)
  then have len: "of_nat (version_infolen v) \<le> varint_max" "unat (of_nat (version_infolen v) :: u64) = version_infolen v"
    by (auto intro!: of_nat_varint unat_of_nat_u64)
  have m: "version_infolen v mod 4 = 0" using versions_ok_len [OF assms(2)] by (simp add: version_infolen_def)
  then have a: "of_nat (version_infolen v) AND (3 :: u64) = 0" by (simp add: and_3_mod_4 len)
  have l: "length (vi_available_versions v) = version_infolen v - 4" "4 \<le> version_infolen v" by (simp_all add: version_infolen_def)
  have e: "vi_available_versions v = [] \<longleftrightarrow> version_infolen v = 4" by (auto simp: version_infolen_def)
  have v: "\<lparr>vi_chosen_version = vi_chosen_version v, vi_available_versions = vi_available_versions v\<rparr> = v" by simp
  show ?thesis
  proof (cases "vi_available_versions v = []")
    case True
    then show ?thesis using assms v e by (simp add: decode_version_info_def small_id version_info_bytes_def Let_def)
  next
    case False
    then have "4 < version_infolen v" using e l(2) by simp
    then show ?thesis using assms v check_versions_bytes [OF assms(2), of r] l
      by (simp add: decode_version_info_def len a version_info_bytes_def Let_def)
  qed
qed

subsection \<open>Reading the parameters\<close>

lemma decode_params_item:
  assumes "pid \<le> 0xFFFF"
    and "c \<Longrightarrow> decode_param pid t (varint_bytes (of_nat (length v)) @ v @ r) = Ok (t', r)"
    and "\<not> c \<Longrightarrow> t' = t"
  shows "decode_params t (item_bytes (c, pid, v) @ r) = decode_params t' r"
proof (cases c)
  case True
  have "2 \<le> length (varint_bytes pid @ varint_bytes (of_nat (length v)) @ v @ r)"
    unfolding length_append length_varint_bytes
    using varint_len_pos(2) [of pid] varint_len_pos(2) [of "of_nat (length v)"] by linarith
  then show ?thesis using assms(2) [OF True] True
    by (subst decode_params.simps) (simp add: item_bytes_def param_bytes_def small_id assms(1))
qed (simp add: item_bytes_def assms)

lemma streams_varint: "v \<le> 0x1000000000000000 \<Longrightarrow> v \<le> varint_max"
  by (simp add: varint_max_def word_le_nat_alt)

lemma small_varint64: "v \<le> 20 \<Longrightarrow> v \<le> varint_max"
  by (simp add: varint_max_def word_le_nat_alt)

lemma ms_ack_delay: "d < 16384000000 \<Longrightarrow> d div 1000000 < (16384 :: u64)"
  by (simp add: word_less_nat_alt unat_div_distrib)

lemma ms_not_saturated: "\<not> 18446744073709 < d div (1000000 :: u64)"
  using unat_bound64 [of d] by (simp add: word_less_nat_alt unat_div_distrib)

lemma length_version_info: "length (version_info_bytes v) = version_infolen v"
  by (simp add: version_info_bytes_def version_infolen_def)

lemmas param_reads = decode_varint_param_bytes decode_zero_param_bytes decode_cid_param_bytes decode_token_param_bytes
  decode_preferred_addr_bytes decode_version_info_bytes length_preferred_addr length_version_info

lemma decode_params_cid:
  "cid_ok cid \<or> \<not> c \<Longrightarrow> decode_params t (item_bytes (c, TP_ORIGINAL_DCID, cid) @ r) =
     decode_params (if c then t\<lparr>tp_original_dcid := cid, tp_original_dcid_present := True\<rparr> else t) r"
  "cid_ok cid \<or> \<not> c \<Longrightarrow> decode_params t (item_bytes (c, TP_RETRY_SCID, cid) @ r) =
     decode_params (if c then t\<lparr>tp_retry_scid := cid, tp_retry_scid_present := True\<rparr> else t) r"
  "cid_ok cid \<or> \<not> c \<Longrightarrow> decode_params t (item_bytes (c, TP_INITIAL_SCID, cid) @ r) =
     decode_params (if c then t\<lparr>tp_initial_scid := cid, tp_initial_scid_present := True\<rparr> else t) r"
  by (rule decode_params_item; simp add: decode_param_def param_reads)+

lemma decode_params_flags:
  "decode_params t (item_bytes (c, TP_DISABLE_ACTIVE_MIGRATION, []) @ r) =
     decode_params (if c then t\<lparr>tp_disable_active_migration := True\<rparr> else t) r"
  "decode_params t (item_bytes (c, TP_GREASE_QUIC_BIT, []) @ r) =
     decode_params (if c then t\<lparr>tp_grease_quic_bit := True\<rparr> else t) r"
  by (rule decode_params_item; simp add: decode_param_def param_reads)+

lemma decode_params_token:
  "length token = 16 \<or> \<not> c \<Longrightarrow> decode_params t (item_bytes (c, TP_STATELESS_RESET_TOKEN, token) @ r) =
     decode_params (if c then t\<lparr>tp_stateless_reset_token := token, tp_stateless_reset_token_present := True\<rparr> else t) r"
  by (rule decode_params_item) (auto simp: decode_param_def param_reads)

lemma decode_params_addr:
  "preferred_addr_ok a \<or> \<not> c \<Longrightarrow> tp_preferred_addr t = preferred_addr_zero \<Longrightarrow>
   decode_params t (item_bytes (c, TP_PREFERRED_ADDRESS, preferred_addr_bytes a) @ r) =
     decode_params (if c then t\<lparr>tp_preferred_addr := preferred_addr_received a, tp_preferred_addr_present := True\<rparr> else t) r"
  by (rule decode_params_item; simp add: decode_param_def param_reads)

lemma decode_params_versions:
  "vi_chosen_version v \<noteq> 0 \<and> versions_ok (vi_available_versions v) \<and> length (vi_available_versions v) < 2 ^ 61 \<or> \<not> c \<Longrightarrow>
   tp_version_info t = \<lparr>vi_chosen_version = 0, vi_available_versions = []\<rparr> \<Longrightarrow>
   decode_params t (item_bytes (c, TP_VERSION_INFORMATION, version_info_bytes v) @ r) =
     decode_params (if c then t\<lparr>tp_version_info := v, tp_version_info_present := True\<rparr> else t) r"
  by (rule decode_params_item; simp add: decode_param_def param_reads)

lemma decode_params_varint:
  "v \<le> varint_max \<Longrightarrow> decode_params t (item_bytes (c, TP_INITIAL_MAX_STREAM_DATA_BIDI_LOCAL, varint_bytes v) @ r) =
     decode_params (if c then t\<lparr>tp_initial_max_stream_data_bidi_local := v\<rparr> else t) r"
  "v \<le> varint_max \<Longrightarrow> decode_params t (item_bytes (c, TP_INITIAL_MAX_STREAM_DATA_BIDI_REMOTE, varint_bytes v) @ r) =
     decode_params (if c then t\<lparr>tp_initial_max_stream_data_bidi_remote := v\<rparr> else t) r"
  "v \<le> varint_max \<Longrightarrow> decode_params t (item_bytes (c, TP_INITIAL_MAX_STREAM_DATA_UNI, varint_bytes v) @ r) =
     decode_params (if c then t\<lparr>tp_initial_max_stream_data_uni := v\<rparr> else t) r"
  "v \<le> varint_max \<Longrightarrow> decode_params t (item_bytes (c, TP_INITIAL_MAX_DATA, varint_bytes v) @ r) =
     decode_params (if c then t\<lparr>tp_initial_max_data := v\<rparr> else t) r"
  "v \<le> varint_max \<Longrightarrow> decode_params t (item_bytes (c, TP_MAX_UDP_PAYLOAD_SIZE, varint_bytes v) @ r) =
     decode_params (if c then t\<lparr>tp_max_udp_payload_size := v\<rparr> else t) r"
  "v \<le> varint_max \<Longrightarrow> decode_params t (item_bytes (c, TP_ACTIVE_CONNECTION_ID_LIMIT, varint_bytes v) @ r) =
     decode_params (if c then t\<lparr>tp_active_connection_id_limit := v\<rparr> else t) r"
  "v \<le> varint_max \<Longrightarrow> decode_params t (item_bytes (c, TP_MAX_DATAGRAM_FRAME_SIZE, varint_bytes v) @ r) =
     decode_params (if c then t\<lparr>tp_max_datagram_frame_size := v\<rparr> else t) r"
  by (rule decode_params_item; simp add: decode_param_def param_reads)+

lemma decode_params_limited:
  "v \<le> NGTCP2_STREAMS_LIMIT \<Longrightarrow> decode_params t (item_bytes (c, TP_INITIAL_MAX_STREAMS_BIDI, varint_bytes v) @ r) =
     decode_params (if c then t\<lparr>tp_initial_max_streams_bidi := v\<rparr> else t) r"
  "v \<le> NGTCP2_STREAMS_LIMIT \<Longrightarrow> decode_params t (item_bytes (c, TP_INITIAL_MAX_STREAMS_UNI, varint_bytes v) @ r) =
     decode_params (if c then t\<lparr>tp_initial_max_streams_uni := v\<rparr> else t) r"
  "v \<le> 20 \<Longrightarrow> decode_params t (item_bytes (c, TP_ACK_DELAY_EXPONENT, varint_bytes v) @ r) =
     decode_params (if c then t\<lparr>tp_ack_delay_exponent := v\<rparr> else t) r"
  "d < 16384 * NGTCP2_MILLISECONDS \<Longrightarrow>
   decode_params t (item_bytes (c, TP_MAX_ACK_DELAY, varint_bytes (d div NGTCP2_MILLISECONDS)) @ r) =
     decode_params (if c then t\<lparr>tp_max_ack_delay := d div NGTCP2_MILLISECONDS * NGTCP2_MILLISECONDS\<rparr> else t) r"
  "decode_params t (item_bytes (c, TP_MAX_IDLE_TIMEOUT, varint_bytes (d div NGTCP2_MILLISECONDS)) @ r) =
     decode_params (if c then t\<lparr>tp_max_idle_timeout := d div NGTCP2_MILLISECONDS * NGTCP2_MILLISECONDS\<rparr> else t) r"
  by (rule decode_params_item; simp add: decode_param_def param_reads streams_varint small_varint64 div_varint Let_def
      ms_ack_delay ms_not_saturated not_less not_le)+

text \<open>A conditional update as an update with a conditional value.\<close>

lemma tp_if:
  "(if c then t\<lparr>tp_initial_max_stream_data_bidi_local := v1\<rparr> else t) = t\<lparr>tp_initial_max_stream_data_bidi_local := if c then v1 else tp_initial_max_stream_data_bidi_local t\<rparr>"
  "(if c then t\<lparr>tp_initial_max_stream_data_bidi_remote := v2\<rparr> else t) = t\<lparr>tp_initial_max_stream_data_bidi_remote := if c then v2 else tp_initial_max_stream_data_bidi_remote t\<rparr>"
  "(if c then t\<lparr>tp_initial_max_stream_data_uni := v3\<rparr> else t) = t\<lparr>tp_initial_max_stream_data_uni := if c then v3 else tp_initial_max_stream_data_uni t\<rparr>"
  "(if c then t\<lparr>tp_initial_max_data := v4\<rparr> else t) = t\<lparr>tp_initial_max_data := if c then v4 else tp_initial_max_data t\<rparr>"
  "(if c then t\<lparr>tp_initial_max_streams_bidi := v5\<rparr> else t) = t\<lparr>tp_initial_max_streams_bidi := if c then v5 else tp_initial_max_streams_bidi t\<rparr>"
  "(if c then t\<lparr>tp_initial_max_streams_uni := v6\<rparr> else t) = t\<lparr>tp_initial_max_streams_uni := if c then v6 else tp_initial_max_streams_uni t\<rparr>"
  "(if c then t\<lparr>tp_max_udp_payload_size := v7\<rparr> else t) = t\<lparr>tp_max_udp_payload_size := if c then v7 else tp_max_udp_payload_size t\<rparr>"
  "(if c then t\<lparr>tp_ack_delay_exponent := v8\<rparr> else t) = t\<lparr>tp_ack_delay_exponent := if c then v8 else tp_ack_delay_exponent t\<rparr>"
  "(if c then t\<lparr>tp_disable_active_migration := v9\<rparr> else t) = t\<lparr>tp_disable_active_migration := if c then v9 else tp_disable_active_migration t\<rparr>"
  "(if c then t\<lparr>tp_max_ack_delay := v10\<rparr> else t) = t\<lparr>tp_max_ack_delay := if c then v10 else tp_max_ack_delay t\<rparr>"
  "(if c then t\<lparr>tp_max_idle_timeout := v11\<rparr> else t) = t\<lparr>tp_max_idle_timeout := if c then v11 else tp_max_idle_timeout t\<rparr>"
  "(if c then t\<lparr>tp_active_connection_id_limit := v12\<rparr> else t) = t\<lparr>tp_active_connection_id_limit := if c then v12 else tp_active_connection_id_limit t\<rparr>"
  "(if c then t\<lparr>tp_max_datagram_frame_size := v13\<rparr> else t) = t\<lparr>tp_max_datagram_frame_size := if c then v13 else tp_max_datagram_frame_size t\<rparr>"
  "(if c then t\<lparr>tp_grease_quic_bit := v14\<rparr> else t) = t\<lparr>tp_grease_quic_bit := if c then v14 else tp_grease_quic_bit t\<rparr>"
  by simp_all

lemma tp_if_present:
  "(if c then t\<lparr>tp_original_dcid := v15, tp_original_dcid_present := True\<rparr> else t) =
     t\<lparr>tp_original_dcid := if c then v15 else tp_original_dcid t, tp_original_dcid_present := c \<or> tp_original_dcid_present t\<rparr>"
  "(if c then t\<lparr>tp_stateless_reset_token := v16, tp_stateless_reset_token_present := True\<rparr> else t) =
     t\<lparr>tp_stateless_reset_token := if c then v16 else tp_stateless_reset_token t, tp_stateless_reset_token_present := c \<or> tp_stateless_reset_token_present t\<rparr>"
  "(if c then t\<lparr>tp_preferred_addr := v17, tp_preferred_addr_present := True\<rparr> else t) =
     t\<lparr>tp_preferred_addr := if c then v17 else tp_preferred_addr t, tp_preferred_addr_present := c \<or> tp_preferred_addr_present t\<rparr>"
  "(if c then t\<lparr>tp_retry_scid := v18, tp_retry_scid_present := True\<rparr> else t) =
     t\<lparr>tp_retry_scid := if c then v18 else tp_retry_scid t, tp_retry_scid_present := c \<or> tp_retry_scid_present t\<rparr>"
  "(if c then t\<lparr>tp_initial_scid := v19, tp_initial_scid_present := True\<rparr> else t) =
     t\<lparr>tp_initial_scid := if c then v19 else tp_initial_scid t, tp_initial_scid_present := c \<or> tp_initial_scid_present t\<rparr>"
  "(if c then t\<lparr>tp_version_info := v20, tp_version_info_present := True\<rparr> else t) =
     t\<lparr>tp_version_info := if c then v20 else tp_version_info t, tp_version_info_present := c \<or> tp_version_info_present t\<rparr>"
  by simp_all

lemmas decode_params_steps = decode_params_cid decode_params_flags decode_params_token decode_params_addr decode_params_versions
  decode_params_varint decode_params_limited

lemmas decode_params_updates = decode_params_steps [unfolded tp_if tp_if_present]

lemma tp_conds:
  assumes "tp_encodable t" "tp_valid t"
  shows "cid_ok (tp_original_dcid t) \<or> \<not> tp_original_dcid_present t" "cid_ok (tp_initial_scid t) \<or> \<not> tp_initial_scid_present t"
    "cid_ok (tp_retry_scid t) \<or> \<not> tp_retry_scid_present t"
    "length (tp_stateless_reset_token t) = 16 \<or> \<not> tp_stateless_reset_token_present t"
    "preferred_addr_ok (tp_preferred_addr t) \<or> \<not> tp_preferred_addr_present t"
    "vi_chosen_version (tp_version_info t) \<noteq> 0 \<and> versions_ok (vi_available_versions (tp_version_info t)) \<and>
       length (vi_available_versions (tp_version_info t)) < 2 ^ 61 \<or> \<not> tp_version_info_present t"
    "tp_initial_max_stream_data_bidi_local t \<le> varint_max" "tp_initial_max_stream_data_bidi_remote t \<le> varint_max"
    "tp_initial_max_stream_data_uni t \<le> varint_max" "tp_initial_max_data t \<le> varint_max" "tp_max_udp_payload_size t \<le> varint_max"
    "tp_active_connection_id_limit t \<le> varint_max" "tp_max_datagram_frame_size t \<le> varint_max"
    "tp_initial_max_streams_bidi t \<le> NGTCP2_STREAMS_LIMIT" "tp_initial_max_streams_uni t \<le> NGTCP2_STREAMS_LIMIT"
    "tp_ack_delay_exponent t \<le> 20" "tp_max_ack_delay t < 16384 * NGTCP2_MILLISECONDS"
  using assms unfolding tp_encodable_def tp_valid_def by blast+

lemma decode_params_Nil: "decode_params t [] = Ok t"
  by (simp add: decode_params.simps)

lemma decode_received:
  assumes "tp_encodable t" "tp_valid t"
  shows "decode_params ngtcp2_transport_params_default_versioned (transport_params_bytes t) = Ok (tp_received t)"
proof -
  note c = tp_conds [OF assms]
  have "decode_params ngtcp2_transport_params_default_versioned (transport_params_bytes t @ []) = Ok (tp_received t)"
    unfolding transport_params_bytes_def tp_items_def list.map concat.simps append_assoc ngtcp2_transport_params_default_versioned_def
    by (simp only: decode_params_updates c ngtcp2_transport_params.simps append_Nil)
      (rule trans [OF decode_params_Nil], rule arg_cong [where f = Ok], rule ngtcp2_transport_params.equality,
       simp_all add: tp_received_def)
  then show ?thesis by simp
qed

section \<open>Properties\<close>

text \<open>
  C12: The decoder reads no byte outside of the data for any input: it ends, with \<open>NGTCP2_ERR_MALFORMED_TRANSPORT_PARAM\<close> or with
  parameters that are within the limits that it enforces: the numbers of streams, \<open>ack_delay_exponent\<close>, \<open>max_ack_delay\<close>, the lengths of the connection IDs and
  of the token, and a chosen version that is not 0. The smallest values of \<open>max_udp_payload_size\<close> and of \<open>active_connection_id_limit\<close> are not among
  them; \<open>lib/ngtcp2_conn.c\<close> checks these later.
\<close>

theorem tp_decoder_safe:
  "case ngtcp2_transport_params_decode_versioned data of
     Ok t \<Rightarrow> tp_limits t | Err e \<Rightarrow> e = NGTCP2_ERR_MALFORMED_TRANSPORT_PARAM | Fault \<Rightarrow> False"
  using decode_params_safe [of ngtcp2_transport_params_default_versioned data]
  by (simp add: okM_def ngtcp2_transport_params_decode_versioned_def tp_limits_def ngtcp2_transport_params_default_versioned_def)

text \<open>
  C11: The encoder writes the wire format and reports its length, also when it is only asked for the length, and
  \<open>NGTCP2_ERR_NOBUF\<close> when the buffer is too small; the decoder reads the parameters back, up to what the format does not carry: parts
  of a millisecond, the family of an address that is not sent, and the values of absent parameters.
\<close>

theorem tp_roundtrip:
  assumes "tp_encodable t" "tp_valid t"
  shows "ngtcp2_transport_params_encode_versioned (Some out) t =
      (if length out < length (transport_params_bytes t) then Err NGTCP2_ERR_NOBUF
       else Ok (filled out (transport_params_bytes t), length (transport_params_bytes t))) \<and>
    ngtcp2_transport_params_encode_versioned None t = Ok ([], length (transport_params_bytes t)) \<and>
    ngtcp2_transport_params_decode_versioned (transport_params_bytes t) = Ok (tp_received t)"
  using encode_spec [OF assms(1)] decode_received [OF assms] by (simp add: ngtcp2_transport_params_decode_versioned_def)

definition tp_example :: ngtcp2_transport_params where
  "tp_example = ngtcp2_transport_params_default_versioned\<lparr>tp_initial_scid := [7, 8], tp_initial_scid_present := True,
     tp_initial_max_data := 1048576, tp_max_idle_timeout := 30000000000, tp_disable_active_migration := True,
     tp_version_info := \<lparr>vi_chosen_version = 1, vi_available_versions = [0, 0, 0, 1]\<rparr>, tp_version_info_present := True\<rparr>"

lemma tp_example_ok: "tp_encodable tp_example" "tp_valid tp_example" "tp_received tp_example = tp_example"
  by (simp_all add: tp_encodable_def tp_valid_def tp_received_def tp_example_def ngtcp2_transport_params_default_versioned_def
      cid_ok_def NGTCP2_MAX_CIDLEN_def varint_max_def)

theorem tp_roundtrip_witness:
  "bindR (ngtcp2_transport_params_encode_versioned (Some (replicate 64 0)) tp_example)
      (\<lambda>(out, n). ngtcp2_transport_params_decode_versioned (take n out)) = Ok tp_example \<and>
   ngtcp2_transport_params_encode_versioned (Some [0, 0]) tp_example = Err NGTCP2_ERR_NOBUF"
proof -
  have "length (transport_params_bytes tp_example) \<le> 64" "2 < length (transport_params_bytes tp_example)" by code_simp+
  then show ?thesis
    using tp_roundtrip [OF tp_example_ok(1,2), of "replicate 64 0"] tp_roundtrip [OF tp_example_ok(1,2), of "[0, 0]"] tp_example_ok(3)
    by simp
qed

text \<open>
  C37: A \<open>max_idle_timeout\<close> too large for nanoseconds is replaced by \<open>UINT64_MAX\<close>, but then still multiplied by the number of nanoseconds in
  a millisecond: what the application gets is \<open>2 ^ 64 - 10 ^ 6\<close> for all of them, and not the maximum.
\<close>

theorem tp_idle_timeout_wraps:
  assumes "0xFFFFFFFFFFFFFFFF div NGTCP2_MILLISECONDS < v" "v \<le> varint_max"
  shows "ngtcp2_transport_params_decode_versioned (param_bytes TP_MAX_IDLE_TIMEOUT (varint_bytes v)) =
    Ok (ngtcp2_transport_params_default_versioned\<lparr>tp_max_idle_timeout := 18446744073708551616\<rparr>)"
proof -
  have "decode_params t (item_bytes (True, TP_MAX_IDLE_TIMEOUT, varint_bytes v) @ []) =
      decode_params (t\<lparr>tp_max_idle_timeout := 18446744073708551616\<rparr>) []" for t
    using assms decode_varint_param_bytes [of v "[]"] by (intro decode_params_item) (simp_all add: decode_param_def param_reads Let_def)
  then show ?thesis by (simp add: ngtcp2_transport_params_decode_versioned_def item_bytes_def decode_params.simps [of _ "[]"])
qed

theorem tp_idle_timeout_wraps_witness:
  "ngtcp2_transport_params_decode_versioned (param_bytes TP_MAX_IDLE_TIMEOUT (varint_bytes 0x1000000000000)) =
    Ok (ngtcp2_transport_params_default_versioned\<lparr>tp_max_idle_timeout := 18446744073708551616\<rparr>)"
  using tp_idle_timeout_wraps [of "0x1000000000000"] by (simp add: varint_max_def)

end
