(* ===== verification/Reorder.thy ===== *)
theory Reorder
  imports Range "HOL-Library.Multiset"
begin

text \<open>
  \<open>lib/ngtcp2_reorder.c\<close>: the buffers of data that a stream has received out of order. The linked list of entries is a list.
  A buffer \<open>ngtcp2_buf\<close> is its storage from \<open>begin\<close> to \<open>end\<close> with the offsets \<open>pos\<close> and \<open>last\<close> of the readable data in it, and the
  owner that its release callback is called for. The calls of the callback \<open>release\<close> are recorded in \<open>ro_released\<close>, the latest one first.
\<close>

section \<open>Buffers\<close>

record ngtcp2_buf =
  buf_mem :: "u8 list"
  buf_pos :: nat
  buf_last :: nat
  buf_owner :: nat

definition ngtcp2_buf_len :: "ngtcp2_buf \<Rightarrow> u64" where
  "ngtcp2_buf_len buf = of_nat (buf_last buf) - of_nat (buf_pos buf)"

section \<open>Operations\<close>

record ngtcp2_reorder_entry =
  re_range :: ngtcp2_range
  re_buf :: ngtcp2_buf
  re_allocator_owned :: bool

record ngtcp2_reorder =
  ro_head :: "ngtcp2_reorder_entry list"
  ro_released :: "(ngtcp2_buf \<times> bool) list"

definition ngtcp2_reorder_init :: ngtcp2_reorder where
  "ngtcp2_reorder_init = \<lparr>ro_head = [], ro_released = []\<rparr>"

definition reorder_release_buf :: "ngtcp2_reorder \<Rightarrow> ngtcp2_buf \<Rightarrow> bool \<Rightarrow> ngtcp2_reorder" where
  "reorder_release_buf reorder buf allocator_owned = reorder\<lparr>ro_released := (buf, allocator_owned) # ro_released reorder\<rparr>"

definition reorder_release_entry :: "ngtcp2_reorder \<Rightarrow> ngtcp2_reorder_entry \<Rightarrow> ngtcp2_reorder" where
  "reorder_release_entry reorder ent = reorder_release_buf reorder (re_buf ent) (re_allocator_owned ent)"

definition ngtcp2_reorder_free :: "ngtcp2_reorder \<Rightarrow> ngtcp2_reorder" where
  "ngtcp2_reorder_free reorder = (foldl reorder_release_entry reorder (ro_head reorder))\<lparr>ro_head := []\<rparr>"

definition reorder_entry_new :: "bool \<Rightarrow> ngtcp2_buf \<Rightarrow> u64 \<Rightarrow> u64 \<Rightarrow> bool \<Rightarrow> ngtcp2_reorder_entry res" where
  "reorder_entry_new ok buf bg en allocator_owned =
     (if ok then Ok \<lparr>re_range = \<lparr>rg_begin = bg, rg_end = en\<rparr>, re_buf = buf, re_allocator_owned = allocator_owned\<rparr>
      else Err NGTCP2_ERR_NOMEM)"

text \<open>
  The loop of \<open>ngtcp2_reorder_push\<close> over the entries: the buffer, and \<open>None\<close> when an entry has the rest of the data, or the
  number of entries passed and the range that is left.
\<close>

fun reorder_push_loop :: "ngtcp2_reorder_entry list \<Rightarrow> u64 \<Rightarrow> u64 \<Rightarrow> ngtcp2_buf \<Rightarrow> ngtcp2_buf \<times> (nat \<times> u64 \<times> u64) option" where
  "reorder_push_loop [] bg en buf = (buf, Some (0, bg, en))"
| "reorder_push_loop (ent # ents) bg en buf =
    (if rg_end (re_range ent) \<le> bg then apsnd (map_option (apfst Suc)) (reorder_push_loop ents bg en buf)
     else if en \<le> rg_begin (re_range ent) then (buf, Some (0, bg, en))
     else if rg_begin (re_range ent) \<le> bg then
       (if en \<le> rg_end (re_range ent) then (buf, None)
        else apsnd (map_option (apfst Suc)) (reorder_push_loop ents (rg_end (re_range ent)) en
               (buf\<lparr>buf_pos := buf_pos buf + unat (rg_end (re_range ent) - bg)\<rparr>)))
     else (buf, Some (0, bg, rg_begin (re_range ent))))"

text \<open>What follows the loop: the buffer is released, or the range that is left becomes an entry.\<close>

definition reorder_push_tail ::
    "bool \<Rightarrow> ngtcp2_reorder \<Rightarrow> bool \<Rightarrow> ngtcp2_buf \<times> (nat \<times> u64 \<times> u64) option \<Rightarrow> (ngtcp2_reorder \<times> u64) res" where
  "reorder_push_tail ok reorder allocator_owned q =
    (case q of
       (buf, None) \<Rightarrow> Ok (reorder_release_buf reorder buf allocator_owned, 0)
     | (buf, Some (i, bg, en)) \<Rightarrow>
         if bg = en then Ok (reorder_release_buf reorder buf allocator_owned, 0) else
         bindR (reorder_entry_new ok (buf\<lparr>buf_last := buf_pos buf + unat (en - bg)\<rparr>) bg en allocator_owned) (\<lambda>ent.
         Ok (reorder\<lparr>ro_head := take i (ro_head reorder) @ ent # drop i (ro_head reorder)\<rparr>, en - bg)))"

definition ngtcp2_reorder_push ::
    "bool \<Rightarrow> ngtcp2_reorder \<Rightarrow> ngtcp2_buf \<Rightarrow> u64 \<Rightarrow> u64 \<Rightarrow> bool \<Rightarrow> (ngtcp2_reorder \<times> u64) res" where
  "ngtcp2_reorder_push ok reorder buf offset cont_offset allocator_owned =
    (let en = offset + ngtcp2_buf_len buf in
     if en < offset then Err NGTCP2_ERR_FRAME_ENCODING else
     if en \<le> cont_offset then Ok (reorder_release_buf reorder buf allocator_owned, 0) else
     let (bg, buf) = (if offset < cont_offset
                      then (cont_offset, buf\<lparr>buf_pos := buf_pos buf + unat (cont_offset - offset)\<rparr>)
                      else (offset, buf)) in
     reorder_push_tail ok reorder allocator_owned (reorder_push_loop (ro_head reorder) bg en buf))"

fun reorder_gap_loop :: "ngtcp2_reorder_entry list \<Rightarrow> u64 \<Rightarrow> u64" where
  "reorder_gap_loop [] offset = offset"
| "reorder_gap_loop (ent # ents) offset =
    (if rg_end (re_range ent) \<le> offset then reorder_gap_loop ents offset
     else if offset < rg_begin (re_range ent) then offset
     else reorder_gap_loop ents (rg_end (re_range ent)))"

definition ngtcp2_reorder_first_gap_offset :: "ngtcp2_reorder \<Rightarrow> u64 \<Rightarrow> u64" where
  "ngtcp2_reorder_first_gap_offset reorder cont_offset = reorder_gap_loop (ro_head reorder) cont_offset"

fun reorder_data_loop :: "ngtcp2_reorder_entry list \<Rightarrow> u64 \<Rightarrow> (u64 \<times> ngtcp2_buf option) res" where
  "reorder_data_loop [] offset = Ok (0, None)"
| "reorder_data_loop (ent # ents) offset =
    (if rg_end (re_range ent) \<le> offset then reorder_data_loop ents offset
     else if offset < rg_begin (re_range ent) then Ok (0, None)
     else assertR (offset = rg_begin (re_range ent)) (Ok (rg_end (re_range ent) - offset, Some (re_buf ent))))"

definition ngtcp2_reorder_data_at :: "ngtcp2_reorder \<Rightarrow> u64 \<Rightarrow> (u64 \<times> ngtcp2_buf option) res" where
  "ngtcp2_reorder_data_at reorder offset = reorder_data_loop (ro_head reorder) offset"

text \<open>The loop of \<open>ngtcp2_reorder_pop\<close>: the list after it, and the entry removed.\<close>

fun reorder_pop_loop :: "ngtcp2_reorder_entry list \<Rightarrow> u64 \<Rightarrow> u64 \<Rightarrow> (ngtcp2_reorder_entry list \<times> ngtcp2_reorder_entry option) res" where
  "reorder_pop_loop [] offset len = Fault"
| "reorder_pop_loop (ent # ents) offset len =
    (if rg_end (re_range ent) \<le> offset
     then bindR (reorder_pop_loop ents offset len) (\<lambda>(ents, e). Ok (ent # ents, e))
     else
       assertR (offset = rg_begin (re_range ent))
      (assertR (offset + len \<le> rg_end (re_range ent))
      (if offset + len < rg_end (re_range ent)
       then Ok (ent\<lparr>re_range := (re_range ent)\<lparr>rg_begin := rg_begin (re_range ent) + len\<rparr>,
                    re_buf := (re_buf ent)\<lparr>buf_pos := buf_pos (re_buf ent) + unat len\<rparr>\<rparr> # ents, None)
       else Ok (ents, Some ent))))"

definition ngtcp2_reorder_pop :: "ngtcp2_reorder \<Rightarrow> u64 \<Rightarrow> u64 \<Rightarrow> ngtcp2_reorder res" where
  "ngtcp2_reorder_pop reorder offset len =
     bindR (reorder_pop_loop (ro_head reorder) offset len) (\<lambda>(ents, e).
     let reorder = reorder\<lparr>ro_head := ents\<rparr> in
     Ok (case e of None \<Rightarrow> reorder | Some ent \<Rightarrow> reorder_release_entry reorder ent))"

function ngtcp2_reorder_remove_prefix :: "ngtcp2_reorder \<Rightarrow> u64 \<Rightarrow> ngtcp2_reorder" where
  "ngtcp2_reorder_remove_prefix reorder offset =
    (case ro_head reorder of
       [] \<Rightarrow> reorder
     | ent # ents \<Rightarrow>
         if offset \<le> rg_begin (re_range ent) then reorder
         else if offset < rg_end (re_range ent) then
           reorder\<lparr>ro_head :=
             ent\<lparr>re_buf := (re_buf ent)\<lparr>buf_pos := buf_pos (re_buf ent) + unat (offset - rg_begin (re_range ent))\<rparr>,
                 re_range := (re_range ent)\<lparr>rg_begin := offset\<rparr>\<rparr> # ents\<rparr>
         else ngtcp2_reorder_remove_prefix (reorder_release_entry (reorder\<lparr>ro_head := ents\<rparr>) ent) offset)"
  by pat_completeness auto

termination ngtcp2_reorder_remove_prefix
  by (relation "measure (\<lambda>(r, _). length (ro_head r))") (auto simp: reorder_release_entry_def reorder_release_buf_def)

declare ngtcp2_reorder_remove_prefix.simps [simp del]

definition ngtcp2_reorder_data_buffered :: "ngtcp2_reorder \<Rightarrow> bool" where
  "ngtcp2_reorder_data_buffered reorder = (ro_head reorder \<noteq> [])"

section \<open>The data of the buffer\<close>

text \<open>The bytes of a buffer at the offsets of the stream from \<open>bg\<close> on.\<close>

definition buf_data :: "ngtcp2_buf \<Rightarrow> nat \<Rightarrow> nat \<rightharpoonup> u8" where
  "buf_data buf bg = (\<lambda>o'. if bg \<le> o' \<and> o' < bg + (buf_last buf - buf_pos buf) then Some (buf_mem buf ! (buf_pos buf + (o' - bg))) else None)"

definition ent_data :: "ngtcp2_reorder_entry \<Rightarrow> nat \<rightharpoonup> u8" where
  "ent_data ent = buf_data (re_buf ent) (unat (rg_begin (re_range ent)))"

primrec ents_data :: "ngtcp2_reorder_entry list \<Rightarrow> nat \<rightharpoonup> u8" where
  "ents_data [] = Map.empty"
| "ents_data (ent # ents) = ents_data ents ++ ent_data ent"

definition buf_ok :: "ngtcp2_buf \<Rightarrow> bool" where
  "buf_ok buf = (buf_pos buf \<le> buf_last buf \<and> buf_last buf \<le> length (buf_mem buf) \<and> length (buf_mem buf) < 2 ^ 63)"

definition ent_wf :: "ngtcp2_reorder_entry \<Rightarrow> bool" where
  "ent_wf ent = (buf_ok (re_buf ent) \<and> rg_begin (re_range ent) < rg_end (re_range ent) \<and>
     unat (rg_begin (re_range ent)) + (buf_last (re_buf ent) - buf_pos (re_buf ent)) = unat (rg_end (re_range ent)))"

text \<open>The entries are not empty, in order, disjoint, and not before the offset \<open>c\<close>.\<close>

fun ents_wf :: "u64 \<Rightarrow> ngtcp2_reorder_entry list \<Rightarrow> bool" where
  "ents_wf c [] = True"
| "ents_wf c (ent # ents) = (c \<le> rg_begin (re_range ent) \<and> ent_wf ent \<and> ents_wf (rg_end (re_range ent)) ents)"

definition reorder_ok :: "u64 \<Rightarrow> ngtcp2_reorder \<Rightarrow> bool" where
  "reorder_ok c reorder = ents_wf c (ro_head reorder)"

definition reorder_data :: "ngtcp2_reorder \<Rightarrow> nat \<rightharpoonup> u8" where
  "reorder_data reorder = ents_data (ro_head reorder)"

text \<open>The owners of the buffers in the list, and of those released.\<close>

definition reorder_owners :: "ngtcp2_reorder \<Rightarrow> nat multiset" where
  "reorder_owners reorder = mset (map (buf_owner \<circ> re_buf) (ro_head reorder)) + mset (map (buf_owner \<circ> fst) (ro_released reorder))"

section \<open>Entries\<close>

lemma ent_data_None:
  "ent_wf ent \<Longrightarrow> ent_data ent o' = None \<longleftrightarrow> o' < unat (rg_begin (re_range ent)) \<or> unat (rg_end (re_range ent)) \<le> o'"
  by (auto simp: ent_data_def buf_data_def ent_wf_def)

lemma ents_wf_mono: "ents_wf c ents \<Longrightarrow> d \<le> c \<Longrightarrow> ents_wf d ents"
  by (cases ents) auto

lemma ent_range: "ent_wf ent \<Longrightarrow> unat (rg_begin (re_range ent)) < unat (rg_end (re_range ent))"
  by (simp add: ent_wf_def word_less_nat_alt)

lemma ents_data_below: "ents_wf c ents \<Longrightarrow> o' < unat c \<Longrightarrow> ents_data ents o' = None"
proof (induction ents arbitrary: c)
  case (Cons ent ents)
  then have w: "ent_wf ent" "ents_wf (rg_end (re_range ent)) ents" "unat c \<le> unat (rg_begin (re_range ent))"
    by (simp_all add: word_le_nat_alt)
  then have "ent_data ent o' = None" "ents_data ents o' = None"
    using Cons.prems(2) ent_range [OF w(1)] Cons.IH [OF w(2)] by (simp_all add: ent_data_None)
  then show ?case by (simp add: map_add_def)
qed simp

lemma ents_data_Cons:
  assumes "ents_wf c (ent # ents)"
  shows "ents_data (ent # ents) o' =
    (if o' < unat (rg_begin (re_range ent)) then None
     else if o' < unat (rg_end (re_range ent)) then ent_data ent o' else ents_data ents o')"
proof -
  have w: "ent_wf ent" "ents_wf (rg_end (re_range ent)) ents" using assms by simp_all
  show ?thesis
    using ent_data_None [OF w(1), of o'] ent_range [OF w(1)] ents_data_below [OF w(2), of o']
    by (auto simp: map_add_def split: option.splits)
qed

lemma ents_data_Cons_None:
  "ents_wf c (ent # ents) \<Longrightarrow> ents_data (ent # ents) o' = None \<longleftrightarrow>
     o' < unat (rg_begin (re_range ent)) \<or> unat (rg_end (re_range ent)) \<le> o' \<and> ents_data ents o' = None"
  using ent_range [of ent] ent_data_None [of ent o'] by (subst ents_data_Cons) auto

text \<open>An entry between those that end before it and those that start after it.\<close>

definition ends_by :: "u64 \<Rightarrow> ngtcp2_reorder_entry list \<Rightarrow> bool" where
  "ends_by b ents = (\<forall>ent \<in> set ents. rg_end (re_range ent) \<le> b)"

lemma ents_insert:
  assumes "ents_wf c (xs @ ys)" "ends_by (rg_begin (re_range ent)) xs" "ents_wf (rg_end (re_range ent)) ys" "ent_wf ent"
    "c \<le> rg_begin (re_range ent)"
  shows "ents_wf c (xs @ ent # ys) \<and> ents_data (xs @ ent # ys) = ents_data (xs @ ys) ++ ent_data ent"
  using assms
proof (induction xs arbitrary: c)
  case (Cons x xs)
  have i: "ents_wf (rg_end (re_range x)) (xs @ ent # ys)" "ents_data (xs @ ent # ys) = ents_data (xs @ ys) ++ ent_data ent"
    using Cons.IH [of "rg_end (re_range x)"] Cons.prems by (simp_all add: ends_by_def)
  have "\<forall>o'. ent_data x o' = None \<or> ent_data ent o' = None"
    using Cons.prems ent_data_None [of x] ent_data_None [of ent] by (auto simp: ends_by_def word_le_nat_alt)
  then have "dom (ent_data ent) \<inter> dom (ent_data x) = {}" by (auto simp: disjoint_iff domIff)
  then have "ent_data ent ++ ent_data x = ent_data x ++ ent_data ent" by (rule map_add_comm)
  then show ?case using i Cons.prems(1) by (simp flip: map_add_assoc)
qed simp

section \<open>Operations\<close>

text \<open>
  The loop finds the first stretch of the data that no entry has: everything before it is there, and it ends where the data ends or
  where an entry starts.
\<close>

definition first_stretch :: "(nat \<rightharpoonup> u8) \<Rightarrow> u64 \<Rightarrow> u64 \<Rightarrow> u64 \<Rightarrow> u64 \<Rightarrow> bool" where
  "first_stretch d bg en b e =
     (bg \<le> b \<and> b \<le> e \<and> e \<le> en \<and> (\<forall>o'. unat bg \<le> o' \<and> o' < unat b \<longrightarrow> d o' \<noteq> None) \<and>
      (\<forall>o'. unat b \<le> o' \<and> o' < unat e \<longrightarrow> d o' = None) \<and> (e < en \<longrightarrow> b < e \<and> d (unat e) \<noteq> None))"

definition push_loop_spec :: "ngtcp2_reorder_entry list \<Rightarrow> u64 \<Rightarrow> u64 \<Rightarrow> ngtcp2_buf \<Rightarrow> ngtcp2_buf \<times> (nat \<times> u64 \<times> u64) option \<Rightarrow> bool" where
  "push_loop_spec ents bg en buf r = (case r of
    (buf', None) \<Rightarrow> (\<forall>o'. unat bg \<le> o' \<and> o' < unat en \<longrightarrow> ents_data ents o' \<noteq> None) \<and> buf_owner buf' = buf_owner buf
  | (buf', Some (i, b, e)) \<Rightarrow>
      buf' = buf\<lparr>buf_pos := buf_pos buf + (unat b - unat bg)\<rparr> \<and> ends_by b (take i ents) \<and> ents_wf e (drop i ents) \<and>
      first_stretch (ents_data ents) bg en b e)"

lemma first_stretch_pass:
  assumes "first_stretch (ents_data ents) bg' en b e" "ents_wf c (ent # ents)"
    "bg \<le> bg'" "rg_end (re_range ent) \<le> bg'" "bg = bg' \<or> rg_begin (re_range ent) \<le> bg \<and> bg' = rg_end (re_range ent)"
  shows "first_stretch (ents_data (ent # ents)) bg en b e"
  unfolding first_stretch_def
proof (intro conjI allI impI)
  note n = word_le_nat_alt word_less_nat_alt and d = ents_data_Cons_None [OF assms(2)] and f = assms(1) [unfolded first_stretch_def]
  have lt: "unat (rg_begin (re_range ent)) < unat (rg_end (re_range ent))" using ent_range [of ent] assms(2) by simp
  show "bg \<le> b" "b \<le> e" "e \<le> en" using f assms(3) by auto
  fix o'
  { assume "unat bg \<le> o' \<and> o' < unat b"
    then show "ents_data (ent # ents) o' \<noteq> None" using f assms(4,5) lt unfolding d n
      by (cases "unat bg' \<le> o'") auto }
  { assume "unat b \<le> o' \<and> o' < unat e"
    then show "ents_data (ent # ents) o' = None" using f assms(4) unfolding d n by auto }
  assume "e < en"
  then show "b < e" "ents_data (ent # ents) (unat e) \<noteq> None" using f assms(4) lt unfolding d n by auto
qed

lemma push_loop_pass:
  assumes "push_loop_spec ents bg' en buf' r" "ents_wf c (ent # ents)" "bg \<le> bg'" "rg_end (re_range ent) \<le> bg'"
    "bg = bg' \<or> rg_begin (re_range ent) \<le> bg \<and> bg' = rg_end (re_range ent)" "buf' = buf\<lparr>buf_pos := buf_pos buf + (unat bg' - unat bg)\<rparr>"
  shows "push_loop_spec (ent # ents) bg en buf (apsnd (map_option (apfst Suc)) r)"
proof -
  obtain buf'' q where r: "r = (buf'', q)" by (cases r)
  show ?thesis
  proof (cases q)
    case None
    have "ents_data (ent # ents) o' \<noteq> None" if "unat bg \<le> o'" "o' < unat en" for o'
      using assms(1,4,5) that ent_range [of ent] assms(2) unfolding ents_data_Cons_None [OF assms(2)]
      by (cases "unat bg' \<le> o'") (auto simp: push_loop_spec_def r None word_le_nat_alt)
    then show ?thesis using assms(1,6) by (simp add: push_loop_spec_def r None del: ents_data.simps)
  next
    case (Some x)
    obtain i b e where x: "x = (i, b, e)" by (cases x)
    have f: "first_stretch (ents_data ents) bg' en b e" using assms(1) by (simp add: push_loop_spec_def r Some x)
    then have "bg' \<le> b" by (simp add: first_stretch_def)
    then show ?thesis using assms(1) first_stretch_pass [OF f assms(2-5)] assms(3,4,6)
      by (auto simp: push_loop_spec_def r Some x ends_by_def word_le_nat_alt simp del: ents_data.simps)
  qed
qed

lemma reorder_push_loop_ok:
  assumes "ents_wf c ents" "bg < en"
  shows "push_loop_spec ents bg en buf (reorder_push_loop ents bg en buf)"
  using assms
proof (induction ents arbitrary: c bg buf)
  case Nil
  then show ?case by (simp add: ends_by_def push_loop_spec_def first_stretch_def)
next
  case (Cons ent ents)
  let ?b = "rg_begin (re_range ent)" and ?e = "rg_end (re_range ent)"
  note w = Cons.prems(1) and n = word_le_nat_alt word_less_nat_alt
  have lt: "?b < ?e" and w': "ents_wf ?e ents" using w by (simp_all add: ent_wf_def)
  note d = ents_data_Cons_None [OF w]
  consider (pass) "?e \<le> bg" | (before) "bg < ?e" "en \<le> ?b" | (covered) "bg < ?e" "?b < en" "?b \<le> bg" "en \<le> ?e"
    | (cut) "bg < ?e" "?b < en" "?b \<le> bg" "?e < en" | (stop) "bg < ?e" "?b < en" "bg < ?b" by force
  then show ?case
  proof cases
    case pass
    then show ?thesis using push_loop_pass [OF Cons.IH [OF w' Cons.prems(2)] w order_refl pass] by simp
  next
    case before
    have "ents_wf en (ent # ents)" using w before by simp
    then show ?thesis using before Cons.prems(2) d
      by (auto simp: push_loop_spec_def ends_by_def first_stretch_def n)
  next
    case covered
    then show ?thesis using d by (auto simp: push_loop_spec_def n)
  next
    case cut
    have "\<not> ?e \<le> bg" "\<not> en \<le> ?b" "\<not> en \<le> ?e" using cut by auto
    then show ?thesis using push_loop_pass [OF Cons.IH [OF w' cut(4)] w less_imp_le [OF cut(1)] order_refl] cut
      by (simp add: unat_sub)
  next
    case stop
    have "ents_wf ?b (ent # ents)" using w by simp
    then show ?thesis using stop lt d by (auto simp: push_loop_spec_def ends_by_def first_stretch_def n)
  qed
qed

lemma unat_buf_len: "buf_ok buf \<Longrightarrow> unat (ngtcp2_buf_len buf) = buf_last buf - buf_pos buf"
  by (simp add: buf_ok_def ngtcp2_buf_len_def unat_sub word_le_nat_alt unat_of_nat_u64)

lemma buf_data_cut:
  "k + m \<le> buf_last buf - buf_pos buf \<Longrightarrow>
     buf_data (buf\<lparr>buf_pos := buf_pos buf + k, buf_last := buf_pos buf + k + m\<rparr>) (bg + k) = buf_data buf bg |` {bg + k ..< bg + k + m}"
  by (rule ext) (auto simp: buf_data_def restrict_map_def)

lemma first_stretch_covered: "\<forall>o'. unat bg \<le> o' \<and> o' < unat en \<longrightarrow> d o' \<noteq> None \<Longrightarrow> bg \<le> en \<Longrightarrow> first_stretch d bg en en en"
  by (auto simp: first_stretch_def)

lemma release_simps [simp]:
  "ro_head (reorder_release_buf r buf a) = ro_head r"
  "reorder_ok c (reorder_release_buf r buf a) = reorder_ok c r" "reorder_data (reorder_release_buf r buf a) = reorder_data r"
  "reorder_owners (reorder_release_buf r buf a) = add_mset (buf_owner buf) (reorder_owners r)"
  by (simp_all add: reorder_release_buf_def reorder_ok_def reorder_data_def reorder_owners_def)

text \<open>The two ends of \<open>ngtcp2_reorder_push\<close>: the buffer is released, or the first stretch of new data becomes an entry.\<close>

definition push_result :: "u64 \<Rightarrow> ngtcp2_reorder \<Rightarrow> ngtcp2_buf \<Rightarrow> u64 \<Rightarrow> u64 \<Rightarrow> u64 \<Rightarrow> ngtcp2_reorder \<Rightarrow> bool" where
  "push_result cont r buf offset b e r' =
     (reorder_ok cont r' \<and> reorder_data r' = reorder_data r ++ (buf_data buf (unat offset) |` {unat b ..< unat e}) \<and>
      reorder_owners r' = add_mset (buf_owner buf) (reorder_owners r))"

lemma push_result_release: "reorder_ok cont r \<Longrightarrow> buf_owner buf' = buf_owner buf \<Longrightarrow> push_result cont r buf offset b b (reorder_release_buf r buf' a)"
  by (simp add: push_result_def)

lemma push_result_insert:
  assumes r: "reorder_ok cont r" and buf: "buf_ok buf" and be: "cont \<le> b" "b < e" "offset \<le> b"
    and e: "unat e \<le> unat offset + (buf_last buf - buf_pos buf)"
    and i: "ends_by b (take i (ro_head r))" "ents_wf e (drop i (ro_head r))"
  shows "push_result cont r buf offset b e (r\<lparr>ro_head := take i (ro_head r) @
    \<lparr>re_range = \<lparr>rg_begin = b, rg_end = e\<rparr>,
     re_buf = buf\<lparr>buf_pos := buf_pos buf + (unat b - unat offset), buf_last := buf_pos buf + (unat b - unat offset) + unat (e - b)\<rparr>,
     re_allocator_owned = a\<rparr> # drop i (ro_head r)\<rparr>)"
    (is "push_result _ _ _ _ _ _ (r\<lparr>ro_head := _ @ ?ent # _\<rparr>)")
proof -
  note n = be [unfolded word_le_nat_alt word_less_nat_alt]
  have eb: "unat (e - b) = unat e - unat b" using be(2) by (simp add: unat_sub)
  have w: "ent_wf ?ent" using buf be e n by (auto simp: ent_wf_def buf_ok_def eb)
  have "ent_data ?ent = buf_data buf (unat offset) |` {unat b ..< unat e}"
    using buf_data_cut [of "unat b - unat offset" "unat (e - b)" buf "unat offset"] n e by (simp add: ent_data_def eb)
  then have "ents_wf cont (take i (ro_head r) @ ?ent # drop i (ro_head r)) \<and>
      ents_data (take i (ro_head r) @ ?ent # drop i (ro_head r)) = reorder_data r ++ (buf_data buf (unat offset) |` {unat b ..< unat e})"
    using ents_insert [of cont "take i (ro_head r)" "drop i (ro_head r)" ?ent] r be i w by (simp add: reorder_ok_def reorder_data_def)
  moreover have "mset (map (buf_owner \<circ> re_buf) (take i (ro_head r))) + mset (map (buf_owner \<circ> re_buf) (drop i (ro_head r))) =
      mset (map (buf_owner \<circ> re_buf) (ro_head r))"
    by (metis append_take_drop_id map_append mset_append)
  ultimately show ?thesis by (simp add: push_result_def reorder_ok_def reorder_data_def reorder_owners_def)
qed

lemma push_loop_empty:
  "reorder_push_loop ents bg bg buf = (buf, None) \<or> (\<exists>i. reorder_push_loop ents bg bg buf = (buf, Some (i, bg, bg)))"
  by (induction ents) auto

lemma push_tail_none:
  assumes "push_loop_spec (ro_head r) bg en buf1 (buf2, None)" "bg \<le> en" "reorder_ok cont r" "buf_owner buf1 = buf_owner buf"
  shows "first_stretch (reorder_data r) bg en en en \<and> push_result cont r buf offset en en (reorder_release_buf r buf2 owned)"
  using assms by (auto intro!: first_stretch_covered push_result_release simp: push_loop_spec_def reorder_data_def)

lemma push_tail_some:
  assumes s: "push_loop_spec (ro_head r) bg en buf1 (buf2, Some (i, b, e))" and r: "reorder_ok cont r" and buf: "buf_ok buf"
    and bg: "cont \<le> bg" "offset \<le> bg" and en: "unat en = unat offset + (buf_last buf - buf_pos buf)"
    and buf1: "buf1 = buf\<lparr>buf_pos := buf_pos buf + (unat bg - unat offset)\<rparr>"
  shows "\<exists>r'. first_stretch (reorder_data r) bg en b e \<and> push_result cont r buf offset b e r' \<and>
    reorder_push_tail ok r owned (buf2, Some (i, b, e)) = (if b = e \<or> ok then Ok (r', e - b) else Err NGTCP2_ERR_NOMEM)"
proof -
  have f: "first_stretch (reorder_data r) bg en b e" and buf2: "buf2 = buf1\<lparr>buf_pos := buf_pos buf1 + (unat b - unat bg)\<rparr>"
    and i: "ends_by b (take i (ro_head r))" "ents_wf e (drop i (ro_head r))"
    using s by (simp_all add: push_loop_spec_def reorder_data_def)
  have "bg \<le> b \<and> b \<le> e \<and> e \<le> en" using f unfolding first_stretch_def by blast
  then have b: "cont \<le> b" "offset \<le> b" "b \<le> e" "unat e \<le> unat en" "bg \<le> b" using bg by (auto simp: word_le_nat_alt [of e])
  have "buf_pos buf2 = buf_pos buf + (unat b - unat offset)"
    using b(5) bg(2) by (simp add: buf2 buf1 word_le_nat_alt)
  then have buf2': "buf2 = buf\<lparr>buf_pos := buf_pos buf + (unat b - unat offset)\<rparr>" by (simp add: buf2 buf1)
  show ?thesis
  proof (cases "b = e")
    case True
    then show ?thesis using f push_result_release [OF r, of buf2 buf offset b owned]
      by (auto simp: reorder_push_tail_def buf2')
  next
    case False
    then have "b < e" using b by simp
    from push_result_insert [OF r buf b(1) this b(2) _ i, of owned] show ?thesis
      using f b en False by (auto simp: reorder_push_tail_def reorder_entry_new_def buf2')
  qed
qed

lemma push_tail_empty:
  assumes "reorder_ok cont r" "buf_owner buf1 = buf_owner buf"
  shows "first_stretch (reorder_data r) bg bg bg bg \<and> push_result cont r buf offset bg bg (reorder_release_buf r buf1 owned) \<and>
    reorder_push_tail ok r owned (reorder_push_loop (ro_head r) bg bg buf1) = Ok (reorder_release_buf r buf1 owned, 0)"
  using push_loop_empty [of "ro_head r" bg buf1] push_result_release [OF assms]
  by (auto simp: reorder_push_tail_def first_stretch_def)

lemma reorder_push_ok:
  fixes offset cont :: u64
  assumes r: "reorder_ok cont r" and buf: "buf_ok buf" and nowrap: "unat offset + (buf_last buf - buf_pos buf) < 2 ^ 64"
  defines "en \<equiv> offset + ngtcp2_buf_len buf"
  shows "\<exists>b e r'. (cont < en \<longrightarrow> first_stretch (reorder_data r) (max offset cont) en b e) \<and> (en \<le> cont \<longrightarrow> b = e) \<and>
    push_result cont r buf offset b e r' \<and>
    ngtcp2_reorder_push ok r buf offset cont owned = (if b = e \<or> ok then Ok (r', e - b) else Err NGTCP2_ERR_NOMEM)"
proof -
  have en: "unat en = unat offset + (buf_last buf - buf_pos buf)"
    using nowrap by (simp add: en_def unat_word_ariths unat_buf_len [OF buf])
  then have ge: "\<not> en < offset" by (simp add: word_less_nat_alt)
  show ?thesis
  proof (cases "en \<le> cont")
    case True
    then have "ngtcp2_reorder_push ok r buf offset cont owned = Ok (reorder_release_buf r buf owned, 0)"
      using ge by (simp add: ngtcp2_reorder_push_def flip: en_def)
    then show ?thesis using True push_result_release [OF r refl, of buf offset 0 owned]
      by (intro exI [of _ 0] exI [of _ "reorder_release_buf r buf owned"]) auto
  next
    case False
    define bg where "bg = max offset cont"
    define buf1 where "buf1 = buf\<lparr>buf_pos := buf_pos buf + (unat bg - unat offset)\<rparr>"
    have b1: "(if offset < cont then (cont, buf\<lparr>buf_pos := buf_pos buf + unat (cont - offset)\<rparr>) else (offset, buf)) = (bg, buf1)"
      by (auto simp: bg_def buf1_def unat_sub max_def)
    define q where "q = reorder_push_loop (ro_head r) bg en buf1"
    have p: "ngtcp2_reorder_push ok r buf offset cont owned = reorder_push_tail ok r owned q"
      using False ge b1 by (simp add: ngtcp2_reorder_push_def Let_def q_def flip: en_def)
    have le: "bg \<le> en" "cont \<le> bg" "offset \<le> bg" using False ge by (auto simp: bg_def)
    have s: "push_loop_spec (ro_head r) bg en buf1 q" if "bg \<noteq> en"
      using reorder_push_loop_ok [of cont "ro_head r" bg en buf1] r le that by (simp add: reorder_ok_def q_def)
    obtain buf2 q2 where q2: "q = (buf2, q2)" by (cases q)
    consider "bg = en" | "bg \<noteq> en" "q2 = None" | x where "bg \<noteq> en" "q2 = Some x" by blast
    then show ?thesis
    proof cases
      case 1
      with push_tail_empty [OF r, of buf1 buf en offset owned ok] False show ?thesis
        unfolding p q_def by (intro exI [of _ en] exI [of _ "reorder_release_buf r buf1 owned"]) (simp add: buf1_def bg_def)
    next
      case 2
      with push_tail_none [of r bg en buf1 buf2 cont buf offset owned] s le r p show ?thesis
        by (intro exI [of _ en] exI [of _ "reorder_release_buf r buf2 owned"])
          (simp add: q2 reorder_push_tail_def buf1_def bg_def)
    next
      case (3 x)
      obtain i b e where x: "q = (buf2, Some (i, b, e))" using q2 3(2) by (cases x) simp
      from push_tail_some [OF s [OF 3(1), unfolded x] r buf le(2,3) en buf1_def, of ok owned] False show ?thesis
        unfolding p x bg_def by blast
    qed
  qed
qed

lemma gap_loop_ok:
  "ents_wf c ents \<Longrightarrow> offset \<le> reorder_gap_loop ents offset \<and> ents_data ents (unat (reorder_gap_loop ents offset)) = None \<and>
     (\<forall>o'. unat offset \<le> o' \<and> o' < unat (reorder_gap_loop ents offset) \<longrightarrow> ents_data ents o' \<noteq> None)"
proof (induction ents arbitrary: c offset)
  case (Cons ent ents)
  let ?b = "rg_begin (re_range ent)" and ?e = "rg_end (re_range ent)"
  note d = ents_data_Cons_None [OF Cons.prems] and n = word_le_nat_alt word_less_nat_alt
  have w: "ents_wf ?e ents" and lt: "unat ?b < unat ?e" using Cons.prems ent_range [of ent] by simp_all
  note IH = Cons.IH [OF w]
  consider (pass) "?e \<le> offset" | (gap) "\<not> ?e \<le> offset" "offset < ?b" | (over) "\<not> ?e \<le> offset" "\<not> offset < ?b" by blast
  then show ?case
  proof cases
    case pass
    then have "reorder_gap_loop (ent # ents) offset = reorder_gap_loop ents offset" by simp
    then show ?thesis using IH [of offset] lt pass unfolding d n by auto
  next
    case gap
    then have "reorder_gap_loop (ent # ents) offset = offset" by simp
    then show ?thesis using gap unfolding d n by simp
  next
    case over
    then have g: "reorder_gap_loop (ent # ents) offset = reorder_gap_loop ents ?e" by simp
    have "unat ?b \<le> unat offset" "unat offset < unat ?e" using over by (auto simp: n)
    then show ?thesis using IH [of ?e] unfolding g d n
      by (metis (no_types, lifting) le_less_trans less_imp_le linorder_not_le order_trans)
  qed
qed simp

lemma data_loop_ok:
  "ents_wf offset ents \<Longrightarrow> reorder_data_loop ents offset =
     (case ents of [] \<Rightarrow> Ok (0, None)
      | ent # _ \<Rightarrow> if rg_begin (re_range ent) = offset then Ok (rg_end (re_range ent) - offset, Some (re_buf ent)) else Ok (0, None))"
  by (auto simp: ent_wf_def split: list.splits)

lemma restrict_above: "(\<And>o'. o' < k \<Longrightarrow> d o' = None) \<Longrightarrow> d |` {k..} = d" for k :: nat
proof (rule ext)
  fix x assume "\<And>o'. o' < k \<Longrightarrow> d o' = None"
  then show "(d |` {k..}) x = d x" by (cases "k \<le> x") (simp_all add: restrict_map_def not_le)
qed

lemma ents_restrict_Cons:
  assumes "ents_wf c (ent # ents)" "unat (rg_end (re_range ent)) \<le> k"
  shows "ents_data (ent # ents) |` {k..} = ents_data ents |` {k..}"
  using assms ent_range [of ent] by (auto simp: fun_eq_iff restrict_map_def ents_data_Cons simp del: ents_data.simps)

text \<open>An entry whose first \<open>k\<close> bytes are dropped.\<close>

lemma ent_trim:
  assumes w: "ents_wf c (ent # ents)" and k: "rg_begin (re_range ent) \<le> b" "b < rg_end (re_range ent)"
    and e: "ent' = ent\<lparr>re_range := (re_range ent)\<lparr>rg_begin := b\<rparr>,
      re_buf := (re_buf ent)\<lparr>buf_pos := buf_pos (re_buf ent) + unat (b - rg_begin (re_range ent))\<rparr>\<rparr>"
  shows "ents_wf b (ent' # ents) \<and> ents_data (ent' # ents) = ents_data (ent # ents) |` {unat b..}"
proof -
  have nb: "unat (b - rg_begin (re_range ent)) = unat b - unat (rg_begin (re_range ent))" using k by (simp add: unat_sub)
  have n: "unat (rg_begin (re_range ent)) \<le> unat b" "unat b < unat (rg_end (re_range ent))"
    using k by (simp_all add: word_le_nat_alt word_less_nat_alt)
  have w': "ents_wf b (ent' # ents)" using w k n by (auto simp: e ent_wf_def buf_ok_def nb)
  have "ents_data (ent' # ents) o' = (ents_data (ent # ents) |` {unat b..}) o'" for o'
    using n w unfolding ents_data_Cons [OF w'] restrict_map_def ents_data_Cons [OF w]
    by (auto simp: e ent_data_def buf_data_def nb ent_wf_def)
  then show ?thesis using w' by blast
qed

lemma reorder_pop_ok:
  assumes r: "reorder_ok offset r" and d: "ngtcp2_reorder_data_at r offset = Ok (n, Some buf)" and len: "0 < len" "len \<le> n"
  shows "\<exists>r'. ngtcp2_reorder_pop r offset len = Ok r' \<and> reorder_ok (offset + len) r' \<and>
    reorder_data r' = reorder_data r |` {unat offset + unat len ..} \<and> reorder_owners r' = reorder_owners r"
proof -
  obtain ent ents where h: "ro_head r = ent # ents" and b: "rg_begin (re_range ent) = offset"
    and n: "n = rg_end (re_range ent) - offset"
    using d r by (auto simp: ngtcp2_reorder_data_at_def data_loop_ok reorder_ok_def split: list.splits if_splits)
  have w: "ents_wf offset (ent # ents)" using r by (simp add: reorder_ok_def h)
  have lt: "offset < rg_end (re_range ent)" using w b by (simp add: ent_wf_def)
  then have nle: "\<not> rg_end (re_range ent) \<le> offset" by simp
  have "unat offset + unat len \<le> unat (rg_end (re_range ent))"
    using len lt unfolding n by (simp add: word_le_nat_alt word_less_nat_alt unat_sub)
  then have ol: "unat (offset + len) = unat offset + unat len" "offset + len \<le> rg_end (re_range ent)" "offset < offset + len"
    using len unat_bound64 [of "rg_end (re_range ent)"] by (simp_all add: word_le_nat_alt word_less_nat_alt unat_word_ariths)
  show ?thesis
  proof (cases "offset + len < rg_end (re_range ent)")
    case True
    let ?ent' = "ent\<lparr>re_range := (re_range ent)\<lparr>rg_begin := offset + len\<rparr>,
        re_buf := (re_buf ent)\<lparr>buf_pos := buf_pos (re_buf ent) + unat (offset + len - rg_begin (re_range ent))\<rparr>\<rparr>"
    have t: "ents_wf (offset + len) (?ent' # ents) \<and> ents_data (?ent' # ents) = ents_data (ent # ents) |` {unat (offset + len)..}"
      using ol b True by (intro ent_trim [OF w _ _ refl]) auto
    have "ngtcp2_reorder_pop r offset len = Ok (r\<lparr>ro_head := ?ent' # ents\<rparr>)"
      using ol True nle b by (simp add: ngtcp2_reorder_pop_def h)
    then show ?thesis using t ol(1)
      by (simp add: reorder_ok_def reorder_data_def h reorder_owners_def)
  next
    case False
    then have e: "offset + len = rg_end (re_range ent)" using ol by simp
    have "ngtcp2_reorder_pop r offset len = Ok (reorder_release_entry (r\<lparr>ro_head := ents\<rparr>) ent)"
      using nle b e by (simp add: ngtcp2_reorder_pop_def h)
    moreover have "ents_data ents = ents_data (ent # ents) |` {unat offset + unat len ..}"
      using ents_restrict_Cons [OF w, of "unat (offset + len)"] restrict_above [of "unat (offset + len)" "ents_data ents"]
        ents_data_below [of "rg_end (re_range ent)" ents] w e ol(1) by simp
    ultimately show ?thesis using w e
      by (simp add: reorder_release_entry_def reorder_ok_def reorder_data_def reorder_owners_def h reorder_release_buf_def)
  qed
qed

lemma remove_prefix_ok:
  "reorder_ok c r \<Longrightarrow> reorder_ok (max c offset) (ngtcp2_reorder_remove_prefix r offset) \<and>
     reorder_data (ngtcp2_reorder_remove_prefix r offset) = reorder_data r |` {unat offset ..} \<and>
     reorder_owners (ngtcp2_reorder_remove_prefix r offset) = reorder_owners r"
proof (induction r offset arbitrary: c rule: ngtcp2_reorder_remove_prefix.induct)
  case (1 r offset)
  show ?case
  proof (cases "ro_head r")
    case Nil
    then show ?thesis by (simp add: ngtcp2_reorder_remove_prefix.simps [of r] reorder_ok_def reorder_data_def)
  next
    case (Cons ent ents)
    let ?b = "rg_begin (re_range ent)" and ?e = "rg_end (re_range ent)"
    have w: "ents_wf c (ent # ents)" using 1(2) by (simp add: reorder_ok_def Cons)
    consider (keep) "offset \<le> ?b" | (trim) "?b < offset" "offset < ?e" | (drop) "?b < offset" "?e \<le> offset" by force
    then show ?thesis
    proof cases
      case keep
      have "ents_wf ?b (ent # ents)" using w by simp
      then have "reorder_data r |` {unat offset..} = reorder_data r"
        using keep ents_data_below [of ?b "ent # ents"] unfolding reorder_data_def Cons
        by (intro restrict_above) (simp add: word_le_nat_alt del: ents_data.simps)
      then show ?thesis using keep w by (simp add: ngtcp2_reorder_remove_prefix.simps [of r] Cons reorder_ok_def)
    next
      case trim
      let ?ent' = "ent\<lparr>re_buf := (re_buf ent)\<lparr>buf_pos := buf_pos (re_buf ent) + unat (offset - ?b)\<rparr>,
          re_range := (re_range ent)\<lparr>rg_begin := offset\<rparr>\<rparr>"
      have t: "ents_wf offset (?ent' # ents) \<and> ents_data (?ent' # ents) = ents_data (ent # ents) |` {unat offset..}"
        using trim by (intro ent_trim [OF w]) (cases ent, auto)
      have n: "\<not> offset \<le> ?b" "max c offset = offset" using trim w by (auto simp: max_def)
      have "ngtcp2_reorder_remove_prefix r offset = r\<lparr>ro_head := ?ent' # ents\<rparr>"
        using n trim by (simp add: ngtcp2_reorder_remove_prefix.simps [of r] Cons)
      then show ?thesis using t n(2)
        by (simp add: reorder_ok_def reorder_data_def reorder_owners_def Cons del: ents_data.simps ents_wf.simps)
    next
      case drop
      then have n: "\<not> offset \<le> ?b" "\<not> offset < ?e" by auto
      let ?r = "reorder_release_entry (r\<lparr>ro_head := ents\<rparr>) ent"
      have r: "reorder_ok ?e ?r" "reorder_data ?r = ents_data ents" "reorder_owners ?r = reorder_owners r"
        using w by (simp_all add: reorder_release_entry_def reorder_ok_def reorder_data_def reorder_owners_def Cons reorder_release_buf_def)
      have m: "max ?e offset = offset" "max c offset = offset" using drop w by (auto simp: max_def)
      have u: "ngtcp2_reorder_remove_prefix r offset = ngtcp2_reorder_remove_prefix ?r offset"
        using n by (simp add: ngtcp2_reorder_remove_prefix.simps [of r] Cons)
      show ?thesis using 1(1) [OF Cons n r(1)] ents_restrict_Cons [OF w, of "unat offset"] drop(2)
        unfolding u m r(2,3) by (simp add: reorder_data_def Cons word_le_nat_alt del: ents_data.simps)
    qed
  qed
qed

lemma reorder_free_releases:
  "ro_head (ngtcp2_reorder_free r) = [] \<and> mset (map (buf_owner \<circ> fst) (ro_released (ngtcp2_reorder_free r))) = reorder_owners r"
proof -
  have "mset (map (buf_owner \<circ> fst) (ro_released (foldl reorder_release_entry r ents))) =
      mset (map (buf_owner \<circ> re_buf) ents) + mset (map (buf_owner \<circ> fst) (ro_released r))" for ents
    by (induction ents arbitrary: r) (simp_all add: reorder_release_entry_def reorder_release_buf_def)
  then show ?thesis by (simp add: ngtcp2_reorder_free_def reorder_owners_def)
qed

end
