(* ===== verification/Ratelim.thy ===== *)
theory Ratelim
  imports Prelude
begin

text \<open>
  \<open>lib/ngtcp2_ratelim.c\<close>: the token bucket that limits suspicious activity of the peer. Time stamps are nanoseconds.
\<close>

section \<open>Operations\<close>

record ngtcp2_ratelim =
  rl_burst :: u64
  rl_rate :: u64
  rl_tokens :: u64
  rl_carry :: u64
  rl_ts :: u64

abbreviation (input) "NGTCP2_SECONDS \<equiv> 1000000000 :: u64"
abbreviation (input) "UINT64_MAX \<equiv> 0xFFFFFFFFFFFFFFFF :: u64"

definition ngtcp2_ratelim_init :: "u64 \<Rightarrow> u64 \<Rightarrow> u64 \<Rightarrow> ngtcp2_ratelim" where
  "ngtcp2_ratelim_init burst rate ts = \<lparr>rl_burst = burst, rl_rate = rate, rl_tokens = burst, rl_carry = 0, rl_ts = ts\<rparr>"

text \<open>What is gained in \<open>d\<close> nanoseconds: the maximum when the product would overflow.\<close>

definition ratelim_gain :: "ngtcp2_ratelim \<Rightarrow> u64 \<Rightarrow> u64" where
  "ratelim_gain rlim d =
     (if rl_rate rlim > (UINT64_MAX - rl_carry rlim) div d then UINT64_MAX else rl_rate rlim * d + rl_carry rlim)"

definition ratelim_update :: "ngtcp2_ratelim \<Rightarrow> u64 \<Rightarrow> ngtcp2_ratelim res" where
  "ratelim_update rlim ts =
     assertR (ts \<ge> rl_ts rlim)
    (if ts = rl_ts rlim then Ok rlim else
     let d = ts - rl_ts rlim;
         rlim = rlim\<lparr>rl_ts := ts\<rparr>;
         gain = ratelim_gain rlim d;
         gps = gain div NGTCP2_SECONDS in
     if gps < rl_burst rlim \<and> rl_tokens rlim < rl_burst rlim - gps
     then Ok (rlim\<lparr>rl_tokens := rl_tokens rlim + gps, rl_carry := gain mod NGTCP2_SECONDS\<rparr>)
     else Ok (rlim\<lparr>rl_tokens := rl_burst rlim, rl_carry := 0\<rparr>))"

text \<open>The result \<open>True\<close> stands for \<open>0\<close>, success, and \<open>False\<close> for \<open>-1\<close>.\<close>

definition ngtcp2_ratelim_drain :: "ngtcp2_ratelim \<Rightarrow> u64 \<Rightarrow> u64 \<Rightarrow> (ngtcp2_ratelim \<times> bool) res" where
  "ngtcp2_ratelim_drain rlim n ts =
     bindR (ratelim_update rlim ts) (\<lambda>rlim.
     if rl_tokens rlim < n then Ok (rlim, False)
     else Ok (rlim\<lparr>rl_tokens := rl_tokens rlim - n\<rparr>, True))"

section \<open>The token bucket\<close>

definition ratelim_ok :: "ngtcp2_ratelim \<Rightarrow> bool" where
  "ratelim_ok rlim = (rl_tokens rlim \<le> rl_burst rlim \<and> rl_carry rlim < NGTCP2_SECONDS)"

text \<open>The tokens and the fraction of a token, in units of a token per second and nanosecond.\<close>

definition credit :: "ngtcp2_ratelim \<Rightarrow> nat" where
  "credit rlim = unat (rl_tokens rlim) * 1000000000 + unat (rl_carry rlim)"

lemma gain_le:
  fixes rate carry d :: u64
  assumes "d \<noteq> 0"
  shows "unat (if rate > (UINT64_MAX - carry) div d then UINT64_MAX else rate * d + carry) \<le> unat rate * unat d + unat carry"
proof -
  have m: "unat (UINT64_MAX - carry) = 18446744073709551615 - unat carry"
    using unat_bound64 [of carry] by (simp add: unat_sub word_le_nat_alt)
  show ?thesis
  proof (cases "rate > (UINT64_MAX - carry) div d")
    case True
    then have "(18446744073709551615 - unat carry) div unat d < unat rate"
      by (simp add: word_less_nat_alt unat_div_distrib m)
    then have "18446744073709551615 - unat carry < unat rate * unat d"
      using assms by (simp add: div_less_iff_less_mult unat_gt_0)
    then show ?thesis using True by simp
  next
    case False
    then show ?thesis by (simp add: unat_word_ariths mod_less_eq_dividend order_trans [OF mod_less_eq_dividend] mod_add_left_eq)
  qed
qed

lemma ratelim_gain_cong: "ratelim_gain (rlim\<lparr>rl_ts := ts\<rparr>) d = ratelim_gain rlim d"
  by (simp add: ratelim_gain_def)

lemma credit_full:
  assumes "\<not> (gps < b \<and> t < b - gps)" "g \<ge> gps * s"
  shows "b * s \<le> t * s + (g :: nat)"
proof -
  have "b \<le> t + gps" using assms(1) by linarith
  then have "b * s \<le> (t + gps) * s" by simp
  then show ?thesis using assms(2) by (simp add: add_mult_distrib)
qed

lemma ratelim_update_ok:
  assumes "ratelim_ok rlim" "rl_ts rlim \<le> ts"
  shows "\<exists>rlim'. ratelim_update rlim ts = Ok rlim' \<and> ratelim_ok rlim' \<and> rl_ts rlim' = ts \<and> rl_burst rlim' = rl_burst rlim \<and>
    rl_rate rlim' = rl_rate rlim \<and> credit rlim' \<le> credit rlim + unat (rl_rate rlim) * (unat ts - unat (rl_ts rlim))"
proof (cases "ts = rl_ts rlim")
  case True
  then show ?thesis using assms by (simp add: ratelim_update_def)
next
  case False
  define d where "d = ts - rl_ts rlim"
  define gain where "gain = ratelim_gain rlim d"
  define gps where "gps = gain div NGTCP2_SECONDS"
  have d: "d \<noteq> 0" "unat d = unat ts - unat (rl_ts rlim)" using False assms(2) by (simp_all add: d_def unat_sub)
  have g: "unat gain \<le> unat (rl_rate rlim) * unat d + unat (rl_carry rlim)" unfolding gain_def ratelim_gain_def by (rule gain_le [OF d(1)])
  have p: "unat gps = unat gain div 1000000000" by (simp add: gps_def unat_div_distrib)
  have u: "ratelim_update rlim ts =
      (if gps < rl_burst rlim \<and> rl_tokens rlim < rl_burst rlim - gps
       then Ok (rlim\<lparr>rl_ts := ts, rl_tokens := rl_tokens rlim + gps, rl_carry := gain mod NGTCP2_SECONDS\<rparr>)
       else Ok (rlim\<lparr>rl_ts := ts, rl_tokens := rl_burst rlim, rl_carry := 0\<rparr>))"
    using False assms(2) by (simp add: ratelim_update_def Let_def ratelim_gain_cong gain_def gps_def flip: d_def)
  show ?thesis
  proof (cases "gps < rl_burst rlim \<and> rl_tokens rlim < rl_burst rlim - gps")
    case True
    then have "unat (rl_burst rlim - gps) = unat (rl_burst rlim) - unat gps" by (intro unat_sub) (simp add: less_imp_le)
    then have n: "unat gps < unat (rl_burst rlim)" "unat (rl_tokens rlim) < unat (rl_burst rlim) - unat gps"
      using True by (simp_all add: word_less_nat_alt)
    have t: "unat (rl_tokens rlim + gps) = unat (rl_tokens rlim) + unat gps"
      using n unat_bound64 [of "rl_burst rlim"] by (simp add: unat_word_ariths)
    have m: "unat (gain mod NGTCP2_SECONDS) = unat gain mod 1000000000" by (simp add: unat_mod_distrib)
    have "unat gps * 1000000000 + unat gain mod 1000000000 = unat gain" by (simp add: p)
    then show ?thesis using True u n t m g d(2) assms(1)
      by (simp add: ratelim_ok_def credit_def word_le_nat_alt word_less_nat_alt add_mult_distrib)
  next
    case False
    have "unat (rl_burst rlim - gps) = unat (rl_burst rlim) - unat gps" if "unat gps < unat (rl_burst rlim)"
      using that by (intro unat_sub) (simp add: word_le_nat_alt)
    then have "\<not> (unat gps < unat (rl_burst rlim) \<and> unat (rl_tokens rlim) < unat (rl_burst rlim) - unat gps)"
      using False by (auto simp: word_less_nat_alt)
    then have "unat (rl_burst rlim) * 1000000000 \<le> unat (rl_tokens rlim) * 1000000000 + unat gain"
      by (rule credit_full) (simp add: p)
    then have r: "unat (rl_burst rlim) * 1000000000 \<le> credit rlim + unat (rl_rate rlim) * (unat ts - unat (rl_ts rlim))"
      using g d(2) by (simp add: credit_def)
    show ?thesis unfolding u if_not_P [OF False] using r by (simp add: ratelim_ok_def credit_def)
  qed
qed

text \<open>A sequence of attempts to drain, at times that do not go back: the state at the end and the number of tokens drained.\<close>

fun ratelim_run :: "ngtcp2_ratelim \<Rightarrow> (u64 \<times> u64) list \<Rightarrow> (ngtcp2_ratelim \<times> nat) res" where
  "ratelim_run rlim [] = Ok (rlim, 0)"
| "ratelim_run rlim ((n, ts) # as) =
     bindR (ngtcp2_ratelim_drain rlim n ts) (\<lambda>(rlim, ok).
     bindR (ratelim_run rlim as) (\<lambda>(rlim, k). Ok (rlim, (if ok then unat n else 0) + k)))"

lemma drain_ok:
  assumes "ratelim_ok rlim" "rl_ts rlim \<le> ts"
  shows "\<exists>rlim' ok. ngtcp2_ratelim_drain rlim n ts = Ok (rlim', ok) \<and> ratelim_ok rlim' \<and> rl_ts rlim' = ts \<and>
    rl_rate rlim' = rl_rate rlim \<and>
    credit rlim' + (if ok then unat n else 0) * 1000000000 \<le> credit rlim + unat (rl_rate rlim) * (unat ts - unat (rl_ts rlim))"
proof -
  obtain r where r: "ratelim_update rlim ts = Ok r" "ratelim_ok r" "rl_ts r = ts" "rl_rate r = rl_rate rlim"
    "credit r \<le> credit rlim + unat (rl_rate rlim) * (unat ts - unat (rl_ts rlim))"
    using ratelim_update_ok [OF assms] by blast
  show ?thesis
  proof (cases "rl_tokens r < n")
    case True
    then show ?thesis using r by (intro exI [of _ r] exI [of _ False]) (simp add: ngtcp2_ratelim_drain_def)
  next
    case False
    then have n: "n \<le> rl_tokens r" by simp
    then have "unat (rl_tokens r - n) = unat (rl_tokens r) - unat n" "unat n \<le> unat (rl_tokens r)"
      by (simp_all add: unat_sub word_le_nat_alt)
    then show ?thesis using False n r
      by (intro exI [of _ "r\<lparr>rl_tokens := rl_tokens r - n\<rparr>"] exI [of _ True]) (auto simp: ngtcp2_ratelim_drain_def ratelim_ok_def credit_def word_le_nat_alt diff_mult_distrib)
  qed
qed

lemma run_ok:
  "ratelim_ok rlim \<Longrightarrow> sorted (rl_ts rlim # map snd as) \<Longrightarrow>
   \<exists>rlim' k. ratelim_run rlim as = Ok (rlim', k) \<and> ratelim_ok rlim' \<and>
     credit rlim' + k * 1000000000 \<le> credit rlim + unat (rl_rate rlim) * (unat (last (rl_ts rlim # map snd as)) - unat (rl_ts rlim))"
proof (induction as arbitrary: rlim)
  case (Cons a as)
  obtain n ts where a: "a = (n, ts)" by (cases a)
  have s: "rl_ts rlim \<le> ts" "sorted (ts # map snd as)" using Cons.prems(2) by (simp_all add: a)
  obtain r ok where r: "ngtcp2_ratelim_drain rlim n ts = Ok (r, ok)" "ratelim_ok r" "rl_ts r = ts" "rl_rate r = rl_rate rlim"
    "credit r + (if ok then unat n else 0) * 1000000000 \<le> credit rlim + unat (rl_rate rlim) * (unat ts - unat (rl_ts rlim))"
    using drain_ok [OF Cons.prems(1) s(1), of n] by blast
  obtain r' k where r': "ratelim_run r as = Ok (r', k)" "ratelim_ok r'"
    "credit r' + k * 1000000000 \<le> credit r + unat (rl_rate rlim) * (unat (last (ts # map snd as)) - unat ts)"
    using Cons.IH [OF r(2)] s(2) r(3,4) by auto
  have l: "ts \<le> last (ts # map snd as)" using s(2) last_in_set [of "ts # map snd as"] by auto
  have m: "unat (rl_rate rlim) * (unat ts - unat (rl_ts rlim)) + unat (rl_rate rlim) * (unat (last (ts # map snd as)) - unat ts) =
      unat (rl_rate rlim) * (unat (last (ts # map snd as)) - unat (rl_ts rlim))"
    using s(1) l by (simp add: word_le_nat_alt flip: add_mult_distrib2)
  show ?case using r r' m by (simp add: a add_mult_distrib) 
qed simp

section \<open>Properties\<close>

text \<open>
  C31: However often tokens are drained, the number drained until a time is at most the burst and what the rate gives until then: no
  overflow and no rounding makes the limit larger.
\<close>

theorem ratelim_bound:
  assumes "sorted (t0 # map snd as)"
  shows "\<exists>rlim k. ratelim_run (ngtcp2_ratelim_init burst rate t0) as = Ok (rlim, k) \<and> ratelim_ok rlim \<and>
    k * 1000000000 \<le> unat burst * 1000000000 + unat rate * (unat (last (t0 # map snd as)) - unat t0)"
  using run_ok [of "ngtcp2_ratelim_init burst rate t0" as] assms
  by (fastforce simp: ngtcp2_ratelim_init_def ratelim_ok_def credit_def)

theorem ratelim_bound_witness:
  "\<exists>rlim k. ratelim_run (ngtcp2_ratelim_init 2 1 0) [(1, 0), (1, 0), (1, 500000000), (1, 1000000000)] = Ok (rlim, k) \<and>
     ratelim_ok rlim \<and> k * 1000000000 \<le> 3000000000"
  using ratelim_bound [of 0 "[(1, 0), (1, 0), (1, 500000000), (1, 1000000000)]" 2 1] by simp

end
