(* ===== verification/Recv.thy ===== *)
theory Recv
  imports Reorder Ratelim Frame_Decode Conv
begin

text \<open>
  The receiving side of the TLS handshake data: the part \<open>rx\<close> of a stream in \<open>lib/ngtcp2_strm.c\<close>, and in \<open>lib/ngtcp2_conn.c\<close> the
  functions that copy data out of order into buffers, deliver it, and handle a CRYPTO frame. The state is the fields of the connection
  that \<open>conn_recv_crypto\<close> uses, without the statistics of buffers; the calls of the callback \<open>recv_crypto_data\<close> are recorded in
  \<open>cc_events\<close>. Parameters stand for the application: \<open>cb\<close> is what the callback answers, with everything it has been given so far,
  \<open>al\<close> what the allocator of buffers answers, and \<open>retain\<close> whether the owner of a buffer can be retained.
\<close>

section \<open>Streams\<close>

record ngtcp2_strm_rx =
  rx_reorder :: "ngtcp2_reorder option"
  rx_cont_offset :: u64
  rx_last_offset :: u64

definition strm_reorder_init :: "bool \<Rightarrow> ngtcp2_strm_rx \<Rightarrow> ngtcp2_strm_rx res" where
  "strm_reorder_init ok strm = (if ok then Ok (strm\<lparr>rx_reorder := Some ngtcp2_reorder_init\<rparr>) else Err NGTCP2_ERR_NOMEM)"

definition ngtcp2_strm_rx_offset :: "ngtcp2_strm_rx \<Rightarrow> u64" where
  "ngtcp2_strm_rx_offset strm =
     (case rx_reorder strm of
        Some reorder \<Rightarrow> ngtcp2_reorder_first_gap_offset reorder (rx_cont_offset strm)
      | None \<Rightarrow> rx_cont_offset strm)"

definition strm_reorder_heavily_fragmented :: "ngtcp2_reorder \<Rightarrow> bool" where
  "strm_reorder_heavily_fragmented reorder = (4000 \<le> length (ro_head reorder))"

text \<open>The state is returned with every result; \<open>ok1\<close> and \<open>ok2\<close> are the answers of the two allocations.\<close>

definition ngtcp2_strm_recv_reordering_buf ::
    "bool \<Rightarrow> bool \<Rightarrow> ngtcp2_strm_rx \<Rightarrow> ngtcp2_buf \<Rightarrow> u64 \<Rightarrow> bool \<Rightarrow> ngtcp2_strm_rx \<times> u64 res" where
  "ngtcp2_strm_recv_reordering_buf ok1 ok2 strm buf offset allocator_owned =
    (case (if rx_reorder strm = None then strm_reorder_init ok1 strm else Ok strm) of
       Ok strm \<Rightarrow>
        (case rx_reorder strm of None \<Rightarrow> (strm, Fault) | Some reorder \<Rightarrow>
         (case ngtcp2_reorder_push ok2 reorder buf offset (rx_cont_offset strm) allocator_owned of
            Ok (reorder, nwrite) \<Rightarrow>
              (strm\<lparr>rx_reorder := Some reorder\<rparr>,
               if strm_reorder_heavily_fragmented reorder then Err NGTCP2_ERR_INTERNAL else Ok nwrite)
          | Err e \<Rightarrow> (strm, Err e)
          | Fault \<Rightarrow> (strm, Fault)))
     | Err e \<Rightarrow> (strm, Err e)
     | Fault \<Rightarrow> (strm, Fault))"

definition ngtcp2_strm_update_rx_offset :: "ngtcp2_strm_rx \<Rightarrow> u64 \<Rightarrow> ngtcp2_strm_rx" where
  "ngtcp2_strm_update_rx_offset strm offset =
     (case rx_reorder strm of
        Some reorder \<Rightarrow> strm\<lparr>rx_cont_offset := offset, rx_reorder := Some (ngtcp2_reorder_remove_prefix reorder offset)\<rparr>
      | None \<Rightarrow> strm\<lparr>rx_cont_offset := offset\<rparr>)"

text \<open>The result has the calls of \<open>release\<close> of the buffer that is freed.\<close>

definition ngtcp2_strm_discard_reordered_data :: "ngtcp2_strm_rx \<Rightarrow> ngtcp2_strm_rx \<times> (ngtcp2_buf \<times> bool) list" where
  "ngtcp2_strm_discard_reordered_data strm =
     (case rx_reorder strm of
        Some reorder \<Rightarrow> (strm\<lparr>rx_cont_offset := ngtcp2_strm_rx_offset strm, rx_reorder := None\<rparr>, ro_released (ngtcp2_reorder_free reorder))
      | None \<Rightarrow> (strm, []))"

section \<open>Connection\<close>

datatype ngtcp2_encryption_level = NGTCP2_ENCRYPTION_LEVEL_INITIAL | NGTCP2_ENCRYPTION_LEVEL_HANDSHAKE
  | NGTCP2_ENCRYPTION_LEVEL_1RTT | NGTCP2_ENCRYPTION_LEVEL_0RTT

type_synonym crypto_event = "ngtcp2_encryption_level \<times> u64 \<times> u8 list"

record crypto_conn =
  cc_server :: bool
  cc_early_retransmit :: bool
  cc_in_probe_pkt_left :: nat
  cc_hs_probe_pkt_left :: nat
  cc_glitch_rlim :: ngtcp2_ratelim
  cc_released :: "(ngtcp2_buf \<times> bool) list"
  cc_events :: "crypto_event list"

type_synonym crypto_cb = "crypto_event list \<Rightarrow> lib_error option"

definition conn_recv_crypto_data_result :: "lib_error option \<Rightarrow> unit res" where
  "conn_recv_crypto_data_result rv =
     (case rv of None \<Rightarrow> Ok ()
      | Some e \<Rightarrow> Err (if e \<in> {NGTCP2_ERR_CRYPTO, NGTCP2_ERR_REQUIRED_TRANSPORT_PARAM, NGTCP2_ERR_MALFORMED_TRANSPORT_PARAM,
            NGTCP2_ERR_TRANSPORT_PARAM, NGTCP2_ERR_PROTO, NGTCP2_ERR_VERSION_NEGOTIATION_FAILURE, NGTCP2_ERR_NOMEM,
            NGTCP2_ERR_CALLBACK_FAILURE} then e else NGTCP2_ERR_CALLBACK_FAILURE))"

text \<open>
  The answers of the application and of the allocators during one call. \<open>an_packet\<close> is the buffer of the packet, when its owner can be
  retained, and the position of the data of the frame in it.
\<close>

record answers =
  an_packet :: "(ngtcp2_buf \<times> nat) option"
  an_retain :: bool
  an_alloc :: "ngtcp2_buf res"
  an_ok1 :: bool
  an_ok2 :: bool

definition ngtcp2_buf_slice :: "bool \<Rightarrow> ngtcp2_buf \<Rightarrow> nat \<Rightarrow> nat \<Rightarrow> ngtcp2_buf res" where
  "ngtcp2_buf_slice retain src off len =
     (if buf_pos src > buf_last src \<or> buf_last src > length (buf_mem src) \<or> off > buf_last src - buf_pos src \<or>
         len > buf_last src - buf_pos src - off then Err NGTCP2_ERR_BUF_CONTRACT
      else if \<not> retain then Err NGTCP2_ERR_BUF_CONTRACT
      else Ok (src\<lparr>buf_pos := buf_pos src + off, buf_last := buf_pos src + off + len\<rparr>))"

text \<open>The data of the frame from \<open>ncut\<close> on, as a slice of the packet when its owner can be retained.\<close>

definition conn_make_rx_callback_buf :: "answers \<Rightarrow> nat \<Rightarrow> u8 list \<Rightarrow> unit res" where
  "conn_make_rx_callback_buf an ncut data =
     (case an_packet an of
        Some (packet, off) \<Rightarrow> bindR (ngtcp2_buf_slice (an_retain an) packet (off + ncut) (length data)) (\<lambda>_. Ok ())
      | None \<Rightarrow> Ok ())"

definition conn_call_recv_crypto_data ::
    "crypto_cb \<Rightarrow> answers \<Rightarrow> ngtcp2_encryption_level \<Rightarrow> crypto_conn \<Rightarrow> u64 \<Rightarrow> nat \<Rightarrow> u8 list \<Rightarrow> crypto_conn res" where
  "conn_call_recv_crypto_data cb an encryption_level conn offset ncut data =
     bindR (conn_make_rx_callback_buf an ncut data) (\<lambda>_.
      let conn = conn\<lparr>cc_events := cc_events conn @ [(encryption_level, offset, data)]\<rparr> in
      bindR (conn_recv_crypto_data_result (cb (cc_events conn))) (\<lambda>_. Ok conn))"

definition conn_call_recv_crypto_data_buf ::
    "crypto_cb \<Rightarrow> ngtcp2_encryption_level \<Rightarrow> crypto_conn \<Rightarrow> u64 \<Rightarrow> ngtcp2_buf \<Rightarrow> crypto_conn res" where
  "conn_call_recv_crypto_data_buf cb encryption_level conn offset data =
     (let data = take (buf_last data - buf_pos data) (drop (buf_pos data) (buf_mem data));
          conn = conn\<lparr>cc_events := cc_events conn @ [(encryption_level, offset, data)]\<rparr> in
      bindR (conn_recv_crypto_data_result (cb (cc_events conn))) (\<lambda>_. Ok conn))"

lemma pop_loop_shorter:
  "reorder_data_loop ents offset = Ok (n, b) \<Longrightarrow> n \<noteq> 0 \<Longrightarrow> reorder_pop_loop ents offset n = Ok (ents', e) \<Longrightarrow> length ents' < length ents"
proof (induction ents arbitrary: ents')
  case (Cons ent ents)
  then show ?case by (auto simp: assertR_def bindR_eq_Ok split: if_splits)
qed simp

declare bindR_cong [fundef_cong]

function conn_emit_pending_crypto_data ::
    "crypto_cb \<Rightarrow> ngtcp2_encryption_level \<Rightarrow> crypto_conn \<Rightarrow> ngtcp2_strm_rx \<Rightarrow> u64 \<Rightarrow> (crypto_conn \<times> ngtcp2_strm_rx) res" where
  "conn_emit_pending_crypto_data cb encryption_level conn strm rx_offset =
    (case rx_reorder strm of None \<Rightarrow> Ok (conn, strm)
     | Some reorder \<Rightarrow>
         bindR (ngtcp2_reorder_data_at reorder rx_offset) (\<lambda>(datalen, buf).
         if datalen = 0 then assertR (rx_offset = ngtcp2_strm_rx_offset strm) (Ok (conn, strm)) else
         (case buf of None \<Rightarrow> Fault
          | Some buf \<Rightarrow>
              bindR (conn_call_recv_crypto_data_buf cb encryption_level conn rx_offset buf) (\<lambda>conn.
              bindR (ngtcp2_reorder_pop reorder rx_offset datalen) (\<lambda>reorder.
              conn_emit_pending_crypto_data cb encryption_level conn
                (strm\<lparr>rx_reorder := Some reorder, rx_cont_offset := rx_offset + datalen\<rparr>) (rx_offset + datalen))))))"
  by pat_completeness auto

termination conn_emit_pending_crypto_data
  by (relation "measure (\<lambda>(_, _, _, strm, _). case rx_reorder strm of None \<Rightarrow> 0 | Some r \<Rightarrow> length (ro_head r))")
    (auto simp: ngtcp2_reorder_pop_def ngtcp2_reorder_data_at_def bindR_eq_Ok reorder_release_entry_def reorder_release_buf_def
      Let_def dest: pop_loop_shorter split: option.splits)

declare conn_emit_pending_crypto_data.simps [simp del]

definition ngtcp2_buf_alloc :: "ngtcp2_buf res \<Rightarrow> nat \<Rightarrow> ngtcp2_buf res" where
  "ngtcp2_buf_alloc al sz =
     bindR al (\<lambda>out.
     if buf_pos out > buf_last out \<or> buf_last out > length (buf_mem out) \<or> length (buf_mem out) - buf_pos out < sz
     then Err NGTCP2_ERR_BUF_CONTRACT else Ok out)"

definition conn_alloc_rx_reorder_copy :: "ngtcp2_buf res \<Rightarrow> u8 list \<Rightarrow> ngtcp2_buf res" where
  "conn_alloc_rx_reorder_copy al data =
     bindR (ngtcp2_buf_alloc al (length data)) (\<lambda>dest.
     if length (buf_mem dest) < length data then Err NGTCP2_ERR_BUF_CONTRACT else
     bindR (wr_bytes (buf_mem dest) (buf_pos dest) data) (\<lambda>(mem, p).
     Ok (dest\<lparr>buf_mem := mem, buf_last := p\<rparr>)))"

definition conn_reorder_release :: "crypto_conn \<Rightarrow> ngtcp2_buf \<Rightarrow> bool \<Rightarrow> crypto_conn" where
  "conn_reorder_release conn buf allocator_owned = conn\<lparr>cc_released := (buf, allocator_owned) # cc_released conn\<rparr>"

text \<open>
  The buffer given back after an error is recorded as it was before the push, which may have moved its \<open>pos\<close> and \<open>last\<close> already; what is
  released is its owner, which is the same.
\<close>

definition conn_recv_reordering ::
    "answers \<Rightarrow> crypto_conn \<Rightarrow> ngtcp2_strm_rx \<Rightarrow> u8 list \<Rightarrow> u64 \<Rightarrow> crypto_conn \<times> ngtcp2_strm_rx \<times> u64 res" where
  "conn_recv_reordering an conn strm data offset =
    (case (case an_packet an of
             Some (packet, off) \<Rightarrow> bindR (ngtcp2_buf_slice (an_retain an) packet off (length data)) (\<lambda>buf. Ok (buf, False))
           | None \<Rightarrow> bindR (conn_alloc_rx_reorder_copy (an_alloc an) data) (\<lambda>buf. Ok (buf, True))) of
       Ok (buf, allocator_owned) \<Rightarrow>
         (case ngtcp2_strm_recv_reordering_buf (an_ok1 an) (an_ok2 an) strm buf offset allocator_owned of
            (strm, Ok nwrite) \<Rightarrow> (conn, strm, Ok nwrite)
          | (strm, Err e) \<Rightarrow> (conn_reorder_release conn buf allocator_owned, strm, Err e)
          | (strm, Fault) \<Rightarrow> (conn, strm, Fault))
     | Err e \<Rightarrow> (conn, strm, Err e)
     | Fault \<Rightarrow> (conn, strm, Fault))"

abbreviation (input) "NGTCP2_MAX_REORDERED_CRYPTO_DATA \<equiv> 65536 :: u64"

definition crypto_max_offset :: "ngtcp2_encryption_level \<Rightarrow> u64 res" where
  "crypto_max_offset encryption_level =
     (case encryption_level of
        NGTCP2_ENCRYPTION_LEVEL_INITIAL \<Rightarrow> Ok (16 * 1024)
      | NGTCP2_ENCRYPTION_LEVEL_HANDSHAKE \<Rightarrow> Ok (64 * 1024)
      | NGTCP2_ENCRYPTION_LEVEL_1RTT \<Rightarrow> Ok (256 * 1024)
      | NGTCP2_ENCRYPTION_LEVEL_0RTT \<Rightarrow> Fault)"

text \<open>\<open>encryption_level != NGTCP2_ENCRYPTION_LEVEL_INITIAL && ngtcp2_ratelim_drain(...) != 0\<close>\<close>

definition conn_crypto_glitch :: "ngtcp2_encryption_level \<Rightarrow> u64 \<Rightarrow> crypto_conn \<Rightarrow> crypto_conn res" where
  "conn_crypto_glitch encryption_level ts conn =
     (if encryption_level \<noteq> NGTCP2_ENCRYPTION_LEVEL_INITIAL then
        bindR (ngtcp2_ratelim_drain (cc_glitch_rlim conn) 1 ts) (\<lambda>(rlim, ok).
        if ok then Ok (conn\<lparr>cc_glitch_rlim := rlim\<rparr>) else Err NGTCP2_ERR_INTERNAL)
      else Ok conn)"

definition conn_recv_crypto ::
    "crypto_cb \<Rightarrow> answers \<Rightarrow> crypto_conn \<Rightarrow> ngtcp2_encryption_level \<Rightarrow> ngtcp2_strm_rx \<Rightarrow> ngtcp2_stream \<Rightarrow> u64 \<Rightarrow>
      (crypto_conn \<times> ngtcp2_strm_rx) res" where
  "conn_recv_crypto cb an conn encryption_level crypto fr ts =
    (case st_data fr of
       [] \<Rightarrow> bindR (conn_crypto_glitch encryption_level ts conn) (\<lambda>conn. Ok (conn, crypto))
     | data # _ \<Rightarrow>
        let fr_end_offset = st_offset fr + of_nat (length data) in
        if varint_max < fr_end_offset then Err NGTCP2_ERR_FRAME_ENCODING else
        bindR (crypto_max_offset encryption_level) (\<lambda>max_offset.
        if fr_end_offset > max_offset then Err NGTCP2_ERR_CRYPTO_BUFFER_EXCEEDED else
        let rx_offset = ngtcp2_strm_rx_offset crypto in
        if fr_end_offset \<le> rx_offset then
          bindR (conn_crypto_glitch encryption_level ts conn) (\<lambda>conn.
          Ok (if cc_server conn \<and> \<not> cc_early_retransmit conn \<and> encryption_level = NGTCP2_ENCRYPTION_LEVEL_INITIAL
              then conn\<lparr>cc_early_retransmit := True, cc_in_probe_pkt_left := 1, cc_hs_probe_pkt_left := 1\<rparr> else conn,
              crypto))
        else
        let crypto = crypto\<lparr>rx_last_offset := max (rx_last_offset crypto) fr_end_offset\<rparr> in
        if st_offset fr \<le> rx_offset then
          let ncut = unat (rx_offset - st_offset fr);
              data = drop ncut data;
              offset = rx_offset;
              rx_offset = rx_offset + of_nat (length data);
              crypto = ngtcp2_strm_update_rx_offset crypto rx_offset in
          bindR (conn_call_recv_crypto_data cb an encryption_level conn offset ncut data) (\<lambda>conn.
          conn_emit_pending_crypto_data cb encryption_level conn crypto rx_offset)
        else
        if fr_end_offset - rx_offset > NGTCP2_MAX_REORDERED_CRYPTO_DATA then Err NGTCP2_ERR_CRYPTO_BUFFER_EXCEEDED else
        (case conn_recv_reordering an conn crypto data (st_offset fr) of
           (conn, crypto, Ok nwrite) \<Rightarrow>
             bindR (if nwrite = 0 then conn_crypto_glitch encryption_level ts conn else Ok conn) (\<lambda>conn. Ok (conn, crypto))
         | (conn, crypto, Err e) \<Rightarrow> Err e
         | (conn, crypto, Fault) \<Rightarrow> Fault)))"

end
