(* ===== verification/Recv_Correct.thy ===== *)
theory Recv_Correct
  imports Recv
begin

text \<open>
  The correctness of the receiving side of the handshake data: what is delivered is the beginning of the stream of the peer, in order; and
  the two cases in which data is lost or a buffer is released twice.
\<close>

section \<open>Delivery in order\<close>

text \<open>Pieces of a stream that follow each other from the offset \<open>n\<close> on, none of them empty.\<close>

fun chunks :: "nat \<Rightarrow> crypto_event list \<Rightarrow> bool" where
  "chunks n [] = True"
| "chunks n ((_, offset, data) # evs) = (unat offset = n \<and> data \<noteq> [] \<and> chunks (n + length data) evs)"

definition delivered :: "crypto_event list \<Rightarrow> u8 list" where
  "delivered evs = concat (map (snd \<circ> snd) evs)"

definition stream_map :: "u8 list \<Rightarrow> nat \<rightharpoonup> u8" where
  "stream_map s = (\<lambda>o'. if o' < length s then Some (s ! o') else None)"

text \<open>
  What has been delivered is the beginning of the stream \<open>s\<close>, up to \<open>rx_cont_offset\<close>, in pieces that follow each other, and the data kept
  is data of \<open>s\<close> behind it.
\<close>

definition recv_part :: "u8 list \<Rightarrow> crypto_conn \<Rightarrow> ngtcp2_strm_rx \<Rightarrow> bool" where
  "recv_part s conn strm =
     (unat (rx_cont_offset strm) \<le> length s \<and> chunks 0 (cc_events conn) \<and>
      delivered (cc_events conn) = take (unat (rx_cont_offset strm)) s \<and>
      (\<forall>r. rx_reorder strm = Some r \<longrightarrow> reorder_ok (rx_cont_offset strm) r \<and> reorder_data r \<subseteq>\<^sub>m stream_map s))"

definition recv_inv :: "u8 list \<Rightarrow> crypto_conn \<Rightarrow> ngtcp2_strm_rx \<Rightarrow> bool" where
  "recv_inv s conn strm =
     (recv_part s conn strm \<and> (\<forall>r. rx_reorder strm = Some r \<longrightarrow> reorder_data r (unat (rx_cont_offset strm)) = None))"

lemma chunks_append: "chunks n (evs @ [(l, offset, data)]) \<longleftrightarrow> chunks n evs \<and> unat offset = n + length (delivered evs) \<and> data \<noteq> []"
  by (induction n evs rule: chunks.induct) (auto simp: delivered_def)

lemma delivered_append: "delivered (evs @ [(l, offset, data)]) = delivered evs @ data"
  by (simp add: delivered_def)

lemma rx_offset_cont:
  assumes "recv_inv s conn strm"
  shows "ngtcp2_strm_rx_offset strm = rx_cont_offset strm"
proof (cases "rx_reorder strm")
  case (Some r)
  let ?g = "reorder_gap_loop (ro_head r) (rx_cont_offset strm)"
  have r: "reorder_ok (rx_cont_offset strm) r" "reorder_data r (unat (rx_cont_offset strm)) = None"
    using assms Some by (simp_all add: recv_inv_def recv_part_def)
  then have g: "rx_cont_offset strm \<le> ?g" "\<forall>o'. unat (rx_cont_offset strm) \<le> o' \<and> o' < unat ?g \<longrightarrow> ents_data (ro_head r) o' \<noteq> None"
    using gap_loop_ok [of "rx_cont_offset strm" "ro_head r" "rx_cont_offset strm"] by (simp_all add: reorder_ok_def)
  then have "\<not> unat (rx_cont_offset strm) < unat ?g" using r(2) unfolding reorder_data_def by blast
  then have "?g = rx_cont_offset strm" using g(1) by (simp add: word_le_nat_alt word_unat_eq_iff)
  then show ?thesis by (simp add: ngtcp2_strm_rx_offset_def Some ngtcp2_reorder_first_gap_offset_def)
qed (simp add: ngtcp2_strm_rx_offset_def)

text \<open>The delivery of one piece.\<close>

lemma recv_part_step:
  assumes p: "recv_part s conn strm" and d: "data \<noteq> []" "take (length data) (drop (unat (rx_cont_offset strm)) s) = data"
    and c: "unat cont' = unat (rx_cont_offset strm) + length data" "cc_events conn' = cc_events conn @ [(l, rx_cont_offset strm, data)]"
    and r: "\<And>r. rx_reorder strm' = Some r \<Longrightarrow> reorder_ok cont' r \<and> reorder_data r \<subseteq>\<^sub>m stream_map s" "rx_cont_offset strm' = cont'"
  shows "recv_part s conn' strm'"
proof -
  have len: "unat (rx_cont_offset strm) + length data \<le> length s" using d by (metis add.commute length_drop length_take le_diff_conv2 min.cobounded2 length_greater_0_conv min_def nat_le_linear p recv_part_def)
  have "take (unat cont') s = take (unat (rx_cont_offset strm)) s @ data" using d(2) c(1) by (simp add: take_add)
  then show ?thesis using p d c r len by (simp add: recv_part_def chunks_append delivered_append)
qed

lemma conn_call_buf_ok:
  "okR (\<lambda>conn'. conn' = conn\<lparr>cc_events := cc_events conn @ [(l, offset, take (buf_last buf - buf_pos buf) (drop (buf_pos buf) (buf_mem buf)))]\<rparr>)
     (conn_call_recv_crypto_data_buf cb l conn offset buf)"
  by (simp add: conn_call_recv_crypto_data_buf_def conn_recv_crypto_data_result_def Let_def split: option.splits)

lemma conn_call_ok:
  "okR (\<lambda>conn'. conn' = conn\<lparr>cc_events := cc_events conn @ [(l, offset, data)]\<rparr>)
     (conn_call_recv_crypto_data cb an l conn offset ncut data)"
  by (simp add: conn_call_recv_crypto_data_def conn_make_rx_callback_buf_def ngtcp2_buf_slice_def conn_recv_crypto_data_result_def Let_def
      split: option.splits)

text \<open>The data at the start of the buffered data is the stream's.\<close>

lemma buf_data_stream:
  assumes "buf_ok buf" "buf_data buf n \<subseteq>\<^sub>m stream_map s"
  shows "take (buf_last buf - buf_pos buf) (drop (buf_pos buf) (buf_mem buf)) = take (buf_last buf - buf_pos buf) (drop n s)"
proof (rule nth_equalityI)
  let ?k = "buf_last buf - buf_pos buf"
  have h: "n + i < length s \<and> s ! (n + i) = buf_mem buf ! (buf_pos buf + i)" if "i < ?k" for i
  proof -
    have "buf_data buf n (n + i) = Some (buf_mem buf ! (buf_pos buf + i))" using that by (simp add: buf_data_def)
    then have "stream_map s (n + i) = Some (buf_mem buf ! (buf_pos buf + i))" using assms(2) by (metis map_le_def domI)
    then show ?thesis by (simp add: stream_map_def split: if_splits)
  qed
  have "?k \<le> length s - n"
  proof (cases "?k = 0")
    case False
    then have "n + (?k - 1) < length s" using h [of "?k - 1"] by simp
    then show ?thesis using False by linarith
  qed simp
  then show "length (take ?k (drop (buf_pos buf) (buf_mem buf))) = length (take ?k (drop n s))"
    using assms(1) by (auto simp: buf_ok_def min_def)
  fix i assume "i < length (take ?k (drop (buf_pos buf) (buf_mem buf)))"
  then show "take ?k (drop (buf_pos buf) (buf_mem buf)) ! i = take ?k (drop n s) ! i"
    using h [of i] assms(1) by (simp add: buf_ok_def)
qed

lemma data_at_ok:
  assumes "reorder_ok offset r" "reorder_data r \<subseteq>\<^sub>m stream_map s"
  shows "(reorder_data r (unat offset) = None \<and> ngtcp2_reorder_data_at r offset = Ok (0, None)) \<or>
    (\<exists>n buf. ngtcp2_reorder_data_at r offset = Ok (n, Some buf) \<and> 0 < n \<and> buf_ok buf \<and> unat n = buf_last buf - buf_pos buf \<and>
       unat offset + unat n < 2 ^ 64 \<and> buf_data buf (unat offset) \<subseteq>\<^sub>m stream_map s \<and> reorder_data r (unat offset) \<noteq> None)"
proof (cases "ro_head r")
  case Nil
  then show ?thesis by (simp add: reorder_data_def ngtcp2_reorder_data_at_def)
next
  case (Cons ent ents)
  have w: "ents_wf offset (ent # ents)" using assms(1) by (simp add: reorder_ok_def Cons)
  show ?thesis
  proof (cases "rg_begin (re_range ent) = offset")
    case True
    have e: "ent_wf ent" using w by simp
    have "ent_data ent \<subseteq>\<^sub>m stream_map s" using assms(2) by (simp add: reorder_data_def Cons) (metis map_le_map_add map_le_trans)
    moreover have "reorder_data r (unat offset) \<noteq> None"
      unfolding reorder_data_def Cons ents_data_Cons_None [OF w] using ent_range [OF e] True by simp
    ultimately show ?thesis using True e data_loop_ok [OF w] unat_bound64 [of "rg_end (re_range ent)"]
      by (auto simp: ngtcp2_reorder_data_at_def Cons ent_wf_def ent_data_def unat_sub word_less_nat_alt word_le_nat_alt)
  next
    case False
    then have "offset < rg_begin (re_range ent)" using w by (simp add: order_less_le)
    then show ?thesis using False data_loop_ok [OF w] ents_data_Cons_None [OF w]
      by (simp add: ngtcp2_reorder_data_at_def reorder_data_def Cons word_less_nat_alt del: ents_data.simps)
  qed
qed

lemma emit_ok:
  assumes "recv_part s conn strm" "rx_offset = rx_cont_offset strm" "length s < 2 ^ 62"
  shows "okR (\<lambda>(conn', strm'). recv_inv s conn' strm' \<and> cc_glitch_rlim conn' = cc_glitch_rlim conn)
    (conn_emit_pending_crypto_data cb l conn strm rx_offset)"
  using assms
proof (induction cb l conn strm rx_offset rule: conn_emit_pending_crypto_data.induct)
  case (1 cb l conn strm rx_offset)
  note prems = "1.prems" and IH = "1.IH"
  note u = conn_emit_pending_crypto_data.simps [of cb l conn strm rx_offset]
  show ?case
  proof (cases "rx_reorder strm")
    case None
    then show ?thesis using prems by (subst u) (simp add: recv_inv_def)
  next
    case (Some r)
    have r: "reorder_ok rx_offset r" "reorder_data r \<subseteq>\<^sub>m stream_map s" using prems(1,2) Some by (simp_all add: recv_part_def)
    show ?thesis
    proof (cases "reorder_data r (unat rx_offset) = None")
      case True
      then have "ngtcp2_reorder_data_at r rx_offset = Ok (0, None)" using data_at_ok [OF r] by blast
      moreover have inv: "recv_inv s conn strm" using prems Some True by (simp add: recv_inv_def)
      ultimately show ?thesis using rx_offset_cont [OF inv] prems(2) by (subst u) (simp add: Some)
    next
      case False
      then obtain n buf where d: "ngtcp2_reorder_data_at r rx_offset = Ok (n, Some buf)" "0 < n" "buf_ok buf"
        "unat n = buf_last buf - buf_pos buf" "unat rx_offset + unat n < 2 ^ 64" "buf_data buf (unat rx_offset) \<subseteq>\<^sub>m stream_map s"
        using data_at_ok [OF r] by auto
      define data where "data = take (buf_last buf - buf_pos buf) (drop (buf_pos buf) (buf_mem buf))"
      have len: "length data = unat n" using d(3,4) by (auto simp: data_def buf_ok_def min_def)
      obtain r' where r': "ngtcp2_reorder_pop r rx_offset n = Ok r'" "reorder_ok (rx_offset + n) r'"
        "reorder_data r' = reorder_data r |` {unat rx_offset + unat n ..}"
        using reorder_pop_ok [OF r(1) d(1,2) order_refl] by blast
      have n: "n \<noteq> 0" "unat (rx_offset + n) = unat rx_offset + unat n" using d(2,5) by (auto simp: unat_word_ariths)
      let ?conn = "conn\<lparr>cc_events := cc_events conn @ [(l, rx_offset, data)]\<rparr>"
      let ?strm = "strm\<lparr>rx_reorder := Some r', rx_cont_offset := rx_offset + n\<rparr>"
      have "reorder_data r' \<subseteq>\<^sub>m stream_map s" unfolding r'(3) using r(2) by (auto simp: map_le_def restrict_map_def split: if_splits)
      moreover have "data \<noteq> []" using len d(2) by (auto simp: word_less_nat_alt)
      moreover have "take (length data) (drop (unat rx_offset) s) = data"
        unfolding len d(4) using buf_data_stream [OF d(3,6)] by (simp add: data_def)
      ultimately have p: "recv_part s ?conn ?strm"
        using prems(2) n len r'(2) by (intro recv_part_step [OF prems(1), where data = data and l = l and cont' = "rx_offset + n"]) simp_all
      show ?thesis
      proof (cases "conn_call_recv_crypto_data_buf cb l conn rx_offset buf")
        case (Ok conn')
        then have c: "conn' = ?conn" using conn_call_buf_ok [of conn l rx_offset buf cb] by (simp add: data_def)
        have "okR (\<lambda>(conn'', strm'). recv_inv s conn'' strm' \<and> cc_glitch_rlim conn'' = cc_glitch_rlim ?conn)
            (conn_emit_pending_crypto_data cb l ?conn ?strm (rx_offset + n))"
          using p prems(3) by (intro IH [OF Some d(1) refl n(1) refl Ok [unfolded c] r'(1)]) simp_all
        then show ?thesis using Some d(1) n(1) Ok c r'(1) by (subst u) simp
      next
        case Fault
        then show ?thesis using conn_call_buf_ok [of conn l rx_offset buf cb] by simp
      qed (use Some d(1) n(1) in \<open>subst u, simp\<close>)
    qed
  qed
qed

section \<open>Storing data out of order\<close>

text \<open>What the application and the allocator promise: a packet holds the data of its frame, and an allocated buffer is no larger than memory.\<close>

definition answers_ok :: "answers \<Rightarrow> u8 list \<Rightarrow> bool" where
  "answers_ok an data =
     ((\<forall>packet off. an_packet an = Some (packet, off) \<longrightarrow>
         length (buf_mem packet) < 2 ^ 63 \<and> take (length data) (drop (buf_pos packet + off) (buf_mem packet)) = data) \<and>
      an_alloc an \<noteq> Fault \<and> (\<forall>out. an_alloc an = Ok out \<longrightarrow> length (buf_mem out) < 2 ^ 63))"

lemma take_drop_nth:
  assumes "take (length d) (drop n s) = d" "i < length d"
  shows "s ! (n + i) = d ! i"
proof -
  have "n \<le> length s" using assms by (cases "n \<le> length s") auto
  then have "take (length d) (drop n s) ! i = s ! (n + i)" using assms(2) by (simp add: nth_drop)
  then show ?thesis using assms(1) by simp
qed

definition recv_buf :: "answers \<Rightarrow> u8 list \<Rightarrow> (ngtcp2_buf \<times> bool) res" where
  "recv_buf an data =
     (case an_packet an of
        Some (packet, off) \<Rightarrow> bindR (ngtcp2_buf_slice (an_retain an) packet off (length data)) (\<lambda>buf. Ok (buf, False))
      | None \<Rightarrow> bindR (conn_alloc_rx_reorder_copy (an_alloc an) data) (\<lambda>buf. Ok (buf, True)))"

lemma recv_buf_ok:
  assumes "answers_ok an data"
  shows "okR (\<lambda>(buf, owned). buf_ok buf \<and> buf_last buf - buf_pos buf = length data \<and>
    (\<forall>i < length data. buf_mem buf ! (buf_pos buf + i) = data ! i)) (recv_buf an data)"
proof (cases "an_packet an")
  case None
  show ?thesis
  proof (cases "an_alloc an")
    case (Ok out)
    have l: "length (buf_mem out) < 2 ^ 63" using assms Ok by (simp add: answers_ok_def)
    show ?thesis using None Ok l
      by (auto simp: recv_buf_def conn_alloc_rx_reorder_copy_def ngtcp2_buf_alloc_def wr_bytes_def buf_ok_def nth_append)
  next
    case Fault
    then show ?thesis using assms by (simp add: answers_ok_def)
  qed (simp add: recv_buf_def None conn_alloc_rx_reorder_copy_def ngtcp2_buf_alloc_def)
next
  case (Some x)
  obtain packet off where x: "x = (packet, off)" by (cases x)
  have p: "length (buf_mem packet) < 2 ^ 63" "take (length data) (drop (buf_pos packet + off) (buf_mem packet)) = data"
    using assms by (simp_all add: answers_ok_def Some x)
  have "buf_mem packet ! (buf_pos packet + off + i) = data ! i" if "i < length data" for i
    using take_drop_nth [OF p(2) that] by simp
  then show ?thesis using p by (auto simp: recv_buf_def Some x ngtcp2_buf_slice_def buf_ok_def add.assoc)
qed

text \<open>A frame with a piece of the stream \<open>s\<close>.\<close>

definition piece_of :: "u8 list \<Rightarrow> nat \<Rightarrow> u8 list \<Rightarrow> bool" where
  "piece_of s n data = (n + length data \<le> length s \<and> take (length data) (drop n s) = data)"

lemma piece_buf_data:
  assumes "piece_of s n data" "buf_last buf - buf_pos buf = length data" "\<forall>i < length data. buf_mem buf ! (buf_pos buf + i) = data ! i"
  shows "buf_data buf n \<subseteq>\<^sub>m stream_map s"
  unfolding map_le_def
proof
  fix o' assume "o' \<in> dom (buf_data buf n)"
  then have o: "n \<le> o'" "o' - n < length data" using assms(2) by (auto simp: buf_data_def split: if_splits)
  then have "s ! o' = data ! (o' - n)" using take_drop_nth [of data n s "o' - n"] assms(1) by (simp add: piece_of_def)
  moreover have "buf_mem buf ! (buf_pos buf + (o' - n)) = data ! (o' - n)" using assms(3) o by blast
  ultimately show "buf_data buf n o' = stream_map s o'"
    using o assms(1,2) by (auto simp: buf_data_def stream_map_def piece_of_def)
qed

lemma map_le_add_restrict: "d \<subseteq>\<^sub>m m \<Longrightarrow> f \<subseteq>\<^sub>m m \<Longrightarrow> d ++ (f |` A) \<subseteq>\<^sub>m m"
  by (rule map_add_le_mapI) (auto intro: map_le_trans simp: map_le_def restrict_map_def)

lemma recv_reordering_ok:
  assumes inv: "recv_inv s conn strm" and d: "piece_of s (unat offset) data" "answers_ok an data" "rx_cont_offset strm < offset"
    and s: "length s < 2 ^ 62"
  shows "case conn_recv_reordering an conn strm data offset of
    (conn', strm', Ok n) \<Rightarrow> conn' = conn \<and> recv_inv s conn strm' | (_, _, Err e) \<Rightarrow> True | (_, _, Fault) \<Rightarrow> False"
proof (cases "recv_buf an data")
  case (Ok bo)
  obtain buf owned where bo: "bo = (buf, owned)" by (cases bo)
  have b: "buf_ok buf" "buf_last buf - buf_pos buf = length data" "\<forall>i < length data. buf_mem buf ! (buf_pos buf + i) = data ! i"
    using recv_buf_ok [OF d(2)] by (simp_all add: Ok bo)
  note le = piece_buf_data [OF d(1) b(2,3)]
  define r where "r = (case rx_reorder strm of None \<Rightarrow> ngtcp2_reorder_init | Some r \<Rightarrow> r)"
  have r: "reorder_ok (rx_cont_offset strm) r" "reorder_data r \<subseteq>\<^sub>m stream_map s" "reorder_data r (unat (rx_cont_offset strm)) = None"
    using inv by (auto simp: r_def recv_inv_def recv_part_def ngtcp2_reorder_init_def reorder_ok_def reorder_data_def split: option.splits)
  have nowrap: "unat offset + (buf_last buf - buf_pos buf) < 2 ^ 64" using d(1) s by (simp add: piece_of_def b(2))
  obtain b' e r' where p: "push_result (rx_cont_offset strm) r buf offset b' e r'"
    "ngtcp2_reorder_push (an_ok2 an) r buf offset (rx_cont_offset strm) owned = (if b' = e \<or> an_ok2 an then Ok (r', e - b') else Err NGTCP2_ERR_NOMEM)"
    using reorder_push_ok [OF r(1) b(1) nowrap] by blast
  have "buf_data buf (unat offset) (unat (rx_cont_offset strm)) = None" using d(3) by (simp add: buf_data_def word_less_nat_alt)
  then have "reorder_data r' (unat (rx_cont_offset strm)) = None"
    using p(1) r(3) by (simp add: push_result_def map_add_def restrict_map_def)
  moreover have "reorder_data r' \<subseteq>\<^sub>m stream_map s" using p(1) map_le_add_restrict [OF r(2) le] by (simp add: push_result_def)
  ultimately have inv': "recv_inv s conn (strm\<lparr>rx_reorder := Some r'\<rparr>)"
    using inv p(1) by (simp add: recv_inv_def recv_part_def push_result_def)
  have cr: "conn_recv_reordering an conn strm data offset =
      (case ngtcp2_strm_recv_reordering_buf (an_ok1 an) (an_ok2 an) strm buf offset owned of
         (strm, Ok nwrite) \<Rightarrow> (conn, strm, Ok nwrite)
       | (strm, Err e) \<Rightarrow> (conn_reorder_release conn buf owned, strm, Err e)
       | (strm, Fault) \<Rightarrow> (conn, strm, Fault))"
    unfolding conn_recv_reordering_def recv_buf_def [symmetric] Ok bo by simp
  show ?thesis
  proof (cases "rx_reorder strm = None \<and> \<not> an_ok1 an")
    case True
    then show ?thesis by (simp add: cr ngtcp2_strm_recv_reordering_buf_def strm_reorder_init_def)
  next
    case False
    then obtain strm1 where s1: "(if rx_reorder strm = None then strm_reorder_init (an_ok1 an) strm else Ok strm) = Ok strm1"
      "rx_reorder strm1 = Some r" "rx_cont_offset strm1 = rx_cont_offset strm" "strm1\<lparr>rx_reorder := Some r'\<rparr> = strm\<lparr>rx_reorder := Some r'\<rparr>"
      by (cases "rx_reorder strm") (auto simp: strm_reorder_init_def r_def)
    show ?thesis
    proof (cases "b' = e \<or> an_ok2 an")
      case True
      then show ?thesis using inv' p(2) by (simp add: cr ngtcp2_strm_recv_reordering_buf_def s1)
    next
      case False
      then show ?thesis using p(2) by (simp add: cr ngtcp2_strm_recv_reordering_buf_def s1)
    qed
  qed
qed (use recv_buf_ok [OF d(2)] in \<open>simp_all add: conn_recv_reordering_def flip: recv_buf_def\<close>)

section \<open>CRYPTO frames\<close>

definition clock_ok :: "crypto_conn \<Rightarrow> u64 \<Rightarrow> bool" where
  "clock_ok conn ts = (ratelim_ok (cc_glitch_rlim conn) \<and> rl_ts (cc_glitch_rlim conn) \<le> ts)"

lemma glitch_ok:
  assumes "clock_ok conn ts"
  shows "okR (\<lambda>conn'. clock_ok conn' ts \<and> (\<exists>rlim. conn' = conn\<lparr>cc_glitch_rlim := rlim\<rparr>)) (conn_crypto_glitch l ts conn)"
proof -
  have "\<exists>rlim. conn = conn\<lparr>cc_glitch_rlim := rlim\<rparr>" by (rule exI [of _ "cc_glitch_rlim conn"]) simp
  then show ?thesis
    using drain_ok [of "cc_glitch_rlim conn" ts 1] assms by (auto simp: conn_crypto_glitch_def clock_ok_def)
qed

lemma recv_inv_simps [simp]:
  "recv_inv s (conn\<lparr>cc_glitch_rlim := x\<rparr>) strm = recv_inv s conn strm"
  "recv_inv s (conn\<lparr>cc_early_retransmit := b, cc_in_probe_pkt_left := i, cc_hs_probe_pkt_left := j\<rparr>) strm = recv_inv s conn strm"
  "recv_inv s conn (strm\<lparr>rx_last_offset := n\<rparr>) = recv_inv s conn strm"
  by (simp_all add: recv_inv_def recv_part_def)

text \<open>The branch for a frame that continues what has been delivered.\<close>

lemma recv_in_order_ok:
  assumes inv: "recv_inv s conn strm" and d: "piece_of s (unat offset) data" "offset \<le> rx_cont_offset strm"
    "unat (rx_cont_offset strm) < unat offset + length data" and s: "length s < 2 ^ 62"
  defines "ncut \<equiv> unat (rx_cont_offset strm - offset)"
  shows "okR (\<lambda>(conn', strm'). recv_inv s conn' strm' \<and> cc_glitch_rlim conn' = cc_glitch_rlim conn)
    (bindR (conn_call_recv_crypto_data cb an l conn (rx_cont_offset strm) ncut (drop ncut data)) (\<lambda>conn.
       conn_emit_pending_crypto_data cb l conn
         (ngtcp2_strm_update_rx_offset strm (rx_cont_offset strm + of_nat (length (drop ncut data))))
         (rx_cont_offset strm + of_nat (length (drop ncut data)))))"
proof -
  let ?c = "rx_cont_offset strm" and ?d = "drop ncut data"
  let ?c' = "?c + of_nat (length ?d)"
  have n: "ncut = unat ?c - unat offset" "unat offset \<le> unat ?c" using d(2) by (simp_all add: ncut_def unat_sub word_le_nat_alt)
  have c': "unat ?c' = unat ?c + length ?d"
    using d(1,3) s n by (simp add: piece_of_def unat_word_ariths unat_of_nat_u64)
  have ne: "?d \<noteq> []" using d(3) n by simp
  have "drop ncut (take (length data) (drop (unat offset) s)) = ?d" using d(1) by (simp add: piece_of_def)
  then have tk: "take (length ?d) (drop (unat ?c) s) = ?d" using n by (simp add: drop_take drop_drop)
  have r: "reorder_ok ?c' r' \<and> reorder_data r' \<subseteq>\<^sub>m stream_map s"
    if a: "rx_reorder (ngtcp2_strm_update_rx_offset strm ?c') = Some r'" for r'
  proof -
    obtain r where r: "rx_reorder strm = Some r" "r' = ngtcp2_reorder_remove_prefix r ?c'"
      using a by (auto simp: ngtcp2_strm_update_rx_offset_def split: option.splits)
    have "reorder_ok ?c r" "reorder_data r \<subseteq>\<^sub>m stream_map s" using inv r(1) by (simp_all add: recv_inv_def recv_part_def)
    moreover have "max ?c ?c' = ?c'" using c' by (simp add: max_def word_le_nat_alt)
    ultimately show ?thesis using remove_prefix_ok [of ?c r ?c'] r(2) by (auto simp: map_le_def restrict_map_def split: if_splits)
  qed
  have part: "recv_part s conn strm" using inv by (simp add: recv_inv_def)
  have ro: "rx_cont_offset (ngtcp2_strm_update_rx_offset strm ?c') = ?c'"
    by (simp add: ngtcp2_strm_update_rx_offset_def split: option.splits)
  have step: "recv_part s (conn\<lparr>cc_events := cc_events conn @ [(l, ?c, ?d)]\<rparr>) (ngtcp2_strm_update_rx_offset strm ?c')"
    by (rule recv_part_step [OF part ne tk c' _ r ro]) simp_all
  show ?thesis
  proof (rule okR_bindI [OF conn_call_ok], clarify, goal_cases)
    case 1
    show ?case using emit_ok [OF step _ s, of ?c' cb l] by (simp add: ngtcp2_strm_update_rx_offset_def split: option.splits)
  qed
qed

lemma conn_recv_crypto_ok:
  assumes inv: "recv_inv s conn strm" and fr: "\<And>data rest. st_data fr = data # rest \<Longrightarrow> piece_of s (unat (st_offset fr)) data \<and> answers_ok an data"
    and l: "l \<noteq> NGTCP2_ENCRYPTION_LEVEL_0RTT" and ts: "clock_ok conn ts" and s: "length s < 2 ^ 62"
  shows "okR (\<lambda>(conn', strm'). recv_inv s conn' strm' \<and> clock_ok conn' ts) (conn_recv_crypto cb an conn l strm fr ts)"
proof (cases "st_data fr")
  case Nil
  show ?thesis unfolding conn_recv_crypto_def Nil list.case by (rule okR_bindI [OF glitch_ok [OF ts]]) (auto simp: inv)
next
  case (Cons data rest)
  define en where "en = st_offset fr + of_nat (length data)"
  have p: "piece_of s (unat (st_offset fr)) data" "answers_ok an data" using fr [OF Cons] by simp_all
  have en: "unat en = unat (st_offset fr) + length data"
    using p(1) s by (simp add: en_def piece_of_def unat_word_ariths unat_of_nat_u64)
  obtain m where m: "crypto_max_offset l = Ok m" using l by (cases l) (simp_all add: crypto_max_offset_def)
  note rx = rx_offset_cont [OF inv]
  let ?strm = "strm\<lparr>rx_last_offset := max (rx_last_offset strm) en\<rparr>"
  have inv': "recv_inv s conn ?strm" using inv by simp
  consider (big) "varint_max < en \<or> m < en" | (old) "\<not> (varint_max < en \<or> m < en)" "en \<le> rx_cont_offset strm"
    | (inorder) "\<not> (varint_max < en \<or> m < en)" "\<not> en \<le> rx_cont_offset strm" "st_offset fr \<le> rx_cont_offset strm"
    | (ahead) "\<not> (varint_max < en \<or> m < en)" "\<not> en \<le> rx_cont_offset strm" "\<not> st_offset fr \<le> rx_cont_offset strm" by blast
  then show ?thesis
  proof cases
    case big
    then show ?thesis using m unfolding conn_recv_crypto_def Cons list.case Let_def en_def [symmetric] by auto
  next
    case old
    have "okR (\<lambda>(conn', strm'). recv_inv s conn' strm' \<and> clock_ok conn' ts) (bindR (conn_crypto_glitch l ts conn) (\<lambda>conn.
          Ok (if cc_server conn \<and> \<not> cc_early_retransmit conn \<and> l = NGTCP2_ENCRYPTION_LEVEL_INITIAL
              then conn\<lparr>cc_early_retransmit := True, cc_in_probe_pkt_left := 1, cc_hs_probe_pkt_left := 1\<rparr> else conn, strm)))"
      by (rule okR_bindI [OF glitch_ok [OF ts]]) (auto simp: inv clock_ok_def)
    then show ?thesis using old m unfolding conn_recv_crypto_def Cons list.case Let_def en_def [symmetric] rx by simp
  next
    case inorder
    then have "unat (rx_cont_offset strm) < unat (st_offset fr) + length data" using en by (simp add: word_le_nat_alt)
    then have "okR (\<lambda>(conn', strm'). recv_inv s conn' strm' \<and> clock_ok conn' ts)
       (bindR (conn_call_recv_crypto_data cb an l conn (rx_cont_offset strm) (unat (rx_cont_offset strm - st_offset fr)) (drop (unat (rx_cont_offset strm - st_offset fr)) data)) (\<lambda>conn.
        conn_emit_pending_crypto_data cb l conn
         (ngtcp2_strm_update_rx_offset ?strm (rx_cont_offset strm + of_nat (length (drop (unat (rx_cont_offset strm - st_offset fr)) data))))
         (rx_cont_offset strm + of_nat (length (drop (unat (rx_cont_offset strm - st_offset fr)) data)))))"
      using recv_in_order_ok [OF inv' p(1) _ _ s, of cb an l] inorder(3) ts by (auto elim!: okR_mono simp: clock_ok_def)
    then show ?thesis using inorder m unfolding conn_recv_crypto_def Cons list.case Let_def en_def [symmetric] rx by simp
  next
    case ahead
    then have "rx_cont_offset ?strm < st_offset fr" by simp
    note st = recv_reordering_ok [OF inv' p this s]
    obtain conn' strm' r where c: "conn_recv_reordering an conn ?strm data (st_offset fr) = (conn', strm', r)"
      by (cases "conn_recv_reordering an conn ?strm data (st_offset fr)") auto
    show ?thesis
    proof (cases r)
      case (Ok n)
      then have c': "conn' = conn" "recv_inv s conn strm'" using st by (simp_all add: c)
      have "okR (\<lambda>(conn', strm'). recv_inv s conn' strm' \<and> clock_ok conn' ts)
        (bindR (if n = 0 then conn_crypto_glitch l ts conn else Ok conn) (\<lambda>conn. Ok (conn, strm')))"
      proof (cases "n = 0")
        case True
        have "okR (\<lambda>(conn', strm'). recv_inv s conn' strm' \<and> clock_ok conn' ts) (bindR (conn_crypto_glitch l ts conn) (\<lambda>conn. Ok (conn, strm')))"
          by (rule okR_bindI [OF glitch_ok [OF ts]]) (use c' in auto)
        then show ?thesis using True by simp
      qed (use ts c' in simp)
      then show ?thesis using ahead m unfolding conn_recv_crypto_def Cons list.case Let_def en_def [symmetric] rx by (simp add: c Ok c')
    next
      case (Err e)
      then show ?thesis using ahead m unfolding conn_recv_crypto_def Cons list.case Let_def en_def [symmetric] rx by (simp add: c)
    next
      case Fault
      then show ?thesis using st by (simp add: c)
    qed
  qed
qed

section \<open>Runs\<close>

text \<open>The states that frames of one encryption level lead to, all of them with pieces of the stream \<open>s\<close> of the peer.\<close>

inductive crypto_reach :: "crypto_cb \<Rightarrow> ngtcp2_encryption_level \<Rightarrow> u8 list \<Rightarrow> crypto_conn \<Rightarrow> ngtcp2_strm_rx \<Rightarrow> bool" for cb l s where
  start: "cc_events conn = [] \<Longrightarrow> crypto_reach cb l s conn \<lparr>rx_reorder = None, rx_cont_offset = 0, rx_last_offset = 0\<rparr>"
| frame: "crypto_reach cb l s conn strm \<Longrightarrow> clock_ok conn ts \<Longrightarrow>
    (\<And>data rest. st_data fr = data # rest \<Longrightarrow> piece_of s (unat (st_offset fr)) data \<and> answers_ok an data) \<Longrightarrow>
    conn_recv_crypto cb an conn l strm fr ts = Ok (conn', strm') \<Longrightarrow> crypto_reach cb l s conn' strm'"

lemma crypto_reach_inv:
  assumes "crypto_reach cb l s conn strm" "l \<noteq> NGTCP2_ENCRYPTION_LEVEL_0RTT" "length s < 2 ^ 62"
  shows "recv_inv s conn strm"
  using assms
proof (induction rule: crypto_reach.induct)
  case (start conn)
  then show ?case by (simp add: recv_inv_def recv_part_def delivered_def)
next
  case (frame conn strm ts fr an conn' strm')
  have "okR (\<lambda>(conn', strm'). recv_inv s conn' strm' \<and> clock_ok conn' ts) (conn_recv_crypto cb an conn l strm fr ts)"
    by (rule conn_recv_crypto_ok [OF frame.IH [OF frame.prems] frame.hyps(3) frame.prems(1) frame.hyps(2) frame.prems(2)])
  then show ?case using frame.hyps(4) by simp
qed

text \<open>A run on a list of frames, and an example: a stream of 30 bytes, and no limits by the application.\<close>

fun recv_run :: "crypto_cb \<Rightarrow> ngtcp2_encryption_level \<Rightarrow> crypto_conn \<Rightarrow> ngtcp2_strm_rx \<Rightarrow> (answers \<times> ngtcp2_stream \<times> u64) list \<Rightarrow>
    (crypto_conn \<times> ngtcp2_strm_rx) res" where
  "recv_run cb l conn strm [] = Ok (conn, strm)"
| "recv_run cb l conn strm ((an, fr, ts) # frs) =
     bindR (conn_recv_crypto cb an conn l strm fr ts) (\<lambda>(conn, strm). recv_run cb l conn strm frs)"

definition ex_stream :: "u8 list" where
  "ex_stream = map of_nat [0..<30]"

definition ex_conn :: crypto_conn where
  "ex_conn = \<lparr>cc_server = True, cc_early_retransmit = False, cc_in_probe_pkt_left = 0, cc_hs_probe_pkt_left = 0,
     cc_glitch_rlim = ngtcp2_ratelim_init 10 1 0, cc_released = [], cc_events = []\<rparr>"

definition ex_strm :: ngtcp2_strm_rx where
  "ex_strm = \<lparr>rx_reorder = None, rx_cont_offset = 0, rx_last_offset = 0\<rparr>"

definition ex_answers :: answers where
  "ex_answers = \<lparr>an_packet = None, an_retain = True, an_alloc = Ok \<lparr>buf_mem = replicate 30 0, buf_pos = 0, buf_last = 0, buf_owner = 1\<rparr>,
     an_ok1 = True, an_ok2 = True\<rparr>"

definition ex_frame :: "nat \<Rightarrow> nat \<Rightarrow> answers \<times> ngtcp2_stream \<times> u64" where
  "ex_frame b e = (ex_answers, \<lparr>st_type = 6, st_flags = 0, st_fin = False, st_stream_id = 0, st_offset = of_nat b,
     st_data = [take (e - b) (drop b ex_stream)], st_txbuf_present = False, st_txbuf = []\<rparr>, 0)"


lemma ex_answers_ok: "length data < 2 ^ 62 \<Longrightarrow> answers_ok ex_answers data"
  by (simp add: answers_ok_def ex_answers_def)

lemma ex_piece: "b \<le> e \<Longrightarrow> e \<le> 30 \<Longrightarrow> piece_of ex_stream b (take (e - b) (drop b ex_stream))"
  by (simp add: piece_of_def ex_stream_def)

lemma ex_step:
  assumes "crypto_reach cb l ex_stream conn strm" "clock_ok conn 0" "b \<le> e" "e \<le> 30"
    "conn_recv_crypto cb (fst (ex_frame b e)) conn l strm (fst (snd (ex_frame b e))) 0 = Ok (conn', strm')"
  shows "crypto_reach cb l ex_stream conn' strm'"
  using assms(5)
proof (rule crypto_reach.frame [OF assms(1,2), rotated])
  fix data rest assume "st_data (fst (snd (ex_frame b e))) = data # rest"
  then show "piece_of ex_stream (unat (st_offset (fst (snd (ex_frame b e))))) data \<and> answers_ok (fst (ex_frame b e)) data"
    using assms(3,4) ex_piece [OF assms(3,4)] ex_answers_ok
    by (auto simp: ex_frame_def unat_of_nat_u64 ex_stream_def)
qed

lemma discard_reordered_data_ok:
  assumes "ngtcp2_strm_discard_reordered_data strm = (strm', released)"
  shows "ngtcp2_strm_rx_offset strm' = ngtcp2_strm_rx_offset strm \<and> rx_reorder strm' = None \<and>
    (\<forall>r. rx_reorder strm = Some r \<longrightarrow> mset (map (buf_owner \<circ> fst) released) = reorder_owners r)"
  using assms
  by (auto simp: ngtcp2_strm_discard_reordered_data_def reorder_free_releases [simplified] ngtcp2_strm_rx_offset_def [of strm']
      split: option.splits)

section \<open>Properties\<close>

text \<open>
  C13: Whatever order the frames of a TLS handshake come in, and however they overlap, what TLS has been given is the beginning of the
  stream of the peer, in pieces that follow each other without a gap or a repetition, up to \<open>rx_cont_offset\<close>; no data that could be
  delivered is kept back. Another frame is handled without a failed assertion or an access out of bounds.
\<close>

theorem crypto_in_order:
  assumes "crypto_reach cb l s conn strm" "l \<noteq> NGTCP2_ENCRYPTION_LEVEL_0RTT" "length s < 2 ^ 62"
  shows "delivered (cc_events conn) = take (unat (rx_cont_offset strm)) s \<and> chunks 0 (cc_events conn) \<and>
    ngtcp2_strm_rx_offset strm = rx_cont_offset strm \<and>
    (clock_ok conn ts \<and> (\<forall>data. st_data fr = [data] \<longrightarrow> piece_of s (unat (st_offset fr)) data \<and> answers_ok an data) \<and>
       length (st_data fr) \<le> 1 \<longrightarrow> conn_recv_crypto cb an conn l strm fr ts \<noteq> Fault)"
proof -
  note inv = crypto_reach_inv [OF assms]
  have "conn_recv_crypto cb an conn l strm fr ts \<noteq> Fault"
    if "clock_ok conn ts \<and> (\<forall>data. st_data fr = [data] \<longrightarrow> piece_of s (unat (st_offset fr)) data \<and> answers_ok an data) \<and>
       length (st_data fr) \<le> 1"
  proof
    assume F: "conn_recv_crypto cb an conn l strm fr ts = Fault"
    have "okR (\<lambda>(conn', strm'). recv_inv s conn' strm' \<and> clock_ok conn' ts) (conn_recv_crypto cb an conn l strm fr ts)"
      using that by (intro conn_recv_crypto_ok [OF inv _ assms(2) _ assms(3)]) auto
    then show False by (simp add: F)
  qed
  then show ?thesis using inv rx_offset_cont [OF inv] by (auto simp: recv_inv_def recv_part_def)
qed

definition ex_run :: "(nat \<times> nat) list \<Rightarrow> (crypto_conn \<times> ngtcp2_strm_rx) res" where
  "ex_run fs = recv_run (\<lambda>_. None) NGTCP2_ENCRYPTION_LEVEL_HANDSHAKE ex_conn ex_strm (map (\<lambda>(b, e). ex_frame b e) fs)"

lemma recv_run_reach:
  "recv_run cb l conn strm (map (\<lambda>(b, e). ex_frame b e) fs) = Ok (conn', strm') \<Longrightarrow> crypto_reach cb l ex_stream conn strm \<Longrightarrow>
   clock_ok conn 0 \<Longrightarrow> \<forall>(b, e) \<in> set fs. b \<le> e \<and> e \<le> 30 \<Longrightarrow> l \<noteq> NGTCP2_ENCRYPTION_LEVEL_0RTT \<Longrightarrow> crypto_reach cb l ex_stream conn' strm'"
proof (induction fs arbitrary: conn strm)
  case (Cons f fs)
  obtain b e where f: "f = (b, e)" by (cases f)
  have be: "b \<le> e" "e \<le> 30" using Cons.prems(4) by (simp_all add: f)
  let ?fr = "fst (snd (ex_frame b e))"
  obtain conn1 strm1 where 1: "conn_recv_crypto cb (fst (ex_frame b e)) conn l strm ?fr 0 = Ok (conn1, strm1)"
    "recv_run cb l conn1 strm1 (map (\<lambda>(b, e). ex_frame b e) fs) = Ok (conn', strm')"
    using Cons.prems(1) by (auto simp: f ex_frame_def bindR_eq_Ok)
  have "okR (\<lambda>(conn', strm'). recv_inv ex_stream conn' strm' \<and> clock_ok conn' 0) (conn_recv_crypto cb (fst (ex_frame b e)) conn l strm ?fr 0)"
    using be ex_piece [OF be] ex_answers_ok
    by (intro conn_recv_crypto_ok [OF crypto_reach_inv [OF Cons.prems(2,5)] _ Cons.prems(5,3)])
      (auto simp: ex_frame_def unat_of_nat_u64 ex_stream_def)
  then have "clock_ok conn1 0" by (simp add: 1)
  then show ?case using ex_step [OF Cons.prems(2,3) be 1(1)] Cons.prems(4,5) 1(2) by (intro Cons.IH) simp_all
qed simp

lemma ex_run_reach:
  assumes "ex_run fs = Ok (conn, strm)" "\<forall>(b, e) \<in> set fs. b \<le> e \<and> e \<le> 30"
  shows "crypto_reach (\<lambda>_. None) NGTCP2_ENCRYPTION_LEVEL_HANDSHAKE ex_stream conn strm"
  using assms(1) unfolding ex_run_def
  by (rule recv_run_reach)
    (auto simp: ex_conn_def ex_strm_def clock_ok_def ratelim_ok_def ngtcp2_ratelim_init_def assms(2) intro: crypto_reach.start)

theorem crypto_in_order_witness:
  "\<exists>conn strm. ex_run [(5, 10), (0, 5)] = Ok (conn, strm) \<and> rx_cont_offset strm = 10 \<and>
     delivered (cc_events conn) = take (unat (rx_cont_offset strm)) ex_stream \<and> chunks 0 (cc_events conn)"
proof -
  have "(case ex_run [(5, 10), (0, 5)] of Ok (conn, strm) \<Rightarrow> rx_cont_offset strm = 10 | _ \<Rightarrow> False)" by code_simp
  then obtain conn strm where r: "ex_run [(5, 10), (0, 5)] = Ok (conn, strm)" "rx_cont_offset strm = 10"
    by (auto split: res.splits)
  have "crypto_reach (\<lambda>_. None) NGTCP2_ENCRYPTION_LEVEL_HANDSHAKE ex_stream conn strm" by (rule ex_run_reach [OF r(1)]) simp
  then show ?thesis using crypto_in_order [of "\<lambda>_. None" NGTCP2_ENCRYPTION_LEVEL_HANDSHAKE ex_stream conn strm] r
    by (simp add: ex_stream_def)
qed

lemma reorder_push_length:
  assumes "ngtcp2_reorder_push ok r buf offset cont owned = Ok (r', n)"
  shows "length (ro_head r') \<le> length (ro_head r) + 1"
  using assms
  by (auto simp: ngtcp2_reorder_push_def reorder_push_tail_def reorder_entry_new_def reorder_release_buf_def Let_def bindR_eq_Ok
      split: if_splits option.splits prod.splits)

text \<open>New data before \<open>y\<close>, which is there already: the stretch that is stored ends at \<open>y\<close>, or before it.\<close>

lemma first_stretch_before:
  assumes "first_stretch d bg en b e" "unat bg \<le> z" "z < y" "y < unat en" "d z = None" "d y \<noteq> None"
  shows "b < e \<and> unat e \<le> y"
proof -
  have f: "e \<le> en" "\<And>i. unat bg \<le> i \<Longrightarrow> i < unat b \<Longrightarrow> d i \<noteq> None" "\<And>i. unat b \<le> i \<Longrightarrow> i < unat e \<Longrightarrow> d i = None" "b \<le> e" "e < en \<Longrightarrow> b < e"
    using assms(1) by (auto simp: first_stretch_def)
  have "unat b \<le> z" using f(2) [of z] assms(2,5) by (meson not_le)
  moreover have e: "unat e \<le> y" using f(3) [of y] \<open>unat b \<le> z\<close> assms(3,6) by (meson le_trans less_imp_le not_le)
  then have "e < en" using assms(4) by (simp add: word_less_nat_alt)
  ultimately show ?thesis using f(5) e by blast
qed

lemma reorder_push_cuts:
  assumes r: "reorder_ok cont r" and buf: "buf_ok buf" "unat offset + (buf_last buf - buf_pos buf) < 2 ^ 64" and c: "cont < offset"
    and zy: "unat offset \<le> z" "z < y" "y < unat offset + (buf_last buf - buf_pos buf)" "reorder_data r z = None" "reorder_data r y \<noteq> None"
  shows "\<exists>r' n. ngtcp2_reorder_push True r buf offset cont owned = Ok (r', n) \<and> n \<noteq> 0 \<and> length (ro_head r') \<le> length (ro_head r) + 1 \<and>
    (\<forall>x. y < x \<longrightarrow> reorder_data r' x = reorder_data r x)"
proof -
  let ?en = "offset + ngtcp2_buf_len buf"
  have en: "unat ?en = unat offset + (buf_last buf - buf_pos buf)" using buf by (simp add: unat_word_ariths unat_buf_len)
  then have "cont < ?en" "max offset cont = offset" using c by (auto simp: word_less_nat_alt max_def word_le_nat_alt)
  then obtain b e r' where p: "first_stretch (reorder_data r) offset ?en b e" "push_result cont r buf offset b e r'"
    "ngtcp2_reorder_push True r buf offset cont owned = Ok (r', e - b)"
    using reorder_push_ok [OF r buf, of True owned] by auto
  have be: "b < e" "unat e \<le> y" using first_stretch_before [OF p(1) zy(1,2) _ zy(4,5)] zy(3) en by simp_all
  then have "reorder_data r' x = reorder_data r x" if "y < x" for x
    using p(2) that by (simp add: push_result_def map_add_def restrict_map_def)
  then show ?thesis using p(3) be(1) reorder_push_length [OF p(3)] by auto
qed

text \<open>
  C29: A frame that brings new data, then covers data that is kept already, and goes beyond it, is accepted, but none of its data behind the
  covered part is kept: only the first new stretch of it is stored. Let \<open>s\<close> be the stream of the peer and the frame be ahead of what has been
  delivered and within the limits of the connection, with all allocations successful; let \<open>z\<close> be a position of the frame that is not there yet
  and \<open>y\<close> a later one that is kept. Then the result is success, the state of the connection is unchanged, and every position behind \<open>y\<close> that
  was not there before the frame is not there after it, although the frame has it. The packet is acknowledged, so that the peer does not send that data again.
\<close>

theorem crypto_data_lost:
  assumes reach: "crypto_reach cb l s conn strm" "l \<noteq> NGTCP2_ENCRYPTION_LEVEL_0RTT" "length s < 2 ^ 62"
    and fr: "st_data fr = [data]" "piece_of s (unat (st_offset fr)) data" "answers_ok an data" "rx_cont_offset strm < st_offset fr"
    and ok: "recv_buf an data = Ok (buf, owned)" "an_ok2 an" "rx_reorder strm = Some r" "length (ro_head r) < 3999"
    and lim: "crypto_max_offset l = Ok m" "unat (st_offset fr) + length data \<le> unat m"
      "unat (st_offset fr) + length data \<le> unat (rx_cont_offset strm) + 65536"
    and zy: "unat (st_offset fr) \<le> z" "z < y" "y < unat (st_offset fr) + length data" "reorder_data r z = None" "reorder_data r y \<noteq> None"
  shows "\<exists>strm' r'. conn_recv_crypto cb an conn l strm fr ts = Ok (conn, strm') \<and> rx_reorder strm' = Some r' \<and>
    rx_cont_offset strm' = rx_cont_offset strm \<and>
    (\<forall>x. y < x \<and> x < unat (st_offset fr) + length data \<and> reorder_data r x = None \<longrightarrow> reorder_data r' x = None)"
proof -
  note inv = crypto_reach_inv [OF reach]
  note rx = rx_offset_cont [OF inv]
  define en where "en = st_offset fr + of_nat (length data)"
  have en: "unat en = unat (st_offset fr) + length data"
    using fr(2) reach(3) by (simp add: en_def piece_of_def unat_word_ariths unat_of_nat_u64)
  have c: "unat (rx_cont_offset strm) < unat (st_offset fr)" using fr(4) by (simp add: word_less_nat_alt)
  have m: "unat m \<le> 262144" using lim(1) by (cases l) (auto simp: crypto_max_offset_def)
  have l: "\<not> varint_max < en" "\<not> m < en" "\<not> en \<le> rx_cont_offset strm" "\<not> st_offset fr \<le> rx_cont_offset strm"
    using en lim(2) m c by (simp_all add: word_less_nat_alt word_le_nat_alt varint_max_def)
  have d: "\<not> 65536 < en - rx_cont_offset strm" using en lim(3) c by (simp add: word_less_nat_alt word_le_nat_alt unat_sub)
  have b: "buf_ok buf" "buf_last buf - buf_pos buf = length data" using recv_buf_ok [OF fr(3)] by (simp_all add: ok(1))
  have nowrap: "unat (st_offset fr) + (buf_last buf - buf_pos buf) < 2 ^ 64" using fr(2) reach(3) by (simp add: piece_of_def b(2))
  have r: "reorder_ok (rx_cont_offset strm) r" using inv ok(3) by (simp add: recv_inv_def recv_part_def)
  obtain r' n where p: "ngtcp2_reorder_push True r buf (st_offset fr) (rx_cont_offset strm) owned = Ok (r', n)" "n \<noteq> 0"
    "length (ro_head r') \<le> length (ro_head r) + 1" "\<forall>x. y < x \<longrightarrow> reorder_data r' x = reorder_data r x"
    using reorder_push_cuts [OF r b(1) nowrap fr(4) zy(1,2) _ zy(4,5), of owned] zy(3) b(2) by auto
  let ?strm = "strm\<lparr>rx_last_offset := max (rx_last_offset strm) en\<rparr>"
  have "conn_recv_reordering an conn ?strm data (st_offset fr) = (conn, ?strm\<lparr>rx_reorder := Some r'\<rparr>, Ok n)"
    using ok(2-4) p(1,3)
    by (simp add: conn_recv_reordering_def recv_buf_def [symmetric] ok(1) ngtcp2_strm_recv_reordering_buf_def strm_reorder_heavily_fragmented_def)
  then have "conn_recv_crypto cb an conn l strm fr ts = Ok (conn, ?strm\<lparr>rx_reorder := Some r'\<rparr>)"
    using l d p(2) unfolding conn_recv_crypto_def fr(1) list.case Let_def en_def [symmetric] rx by (simp add: lim(1))
  then show ?thesis using p(4) by simp
qed

theorem crypto_data_lost_witness:
  "\<exists>conn strm strm' r'. ex_run [(10, 20)] = Ok (conn, strm) \<and>
     conn_recv_crypto (\<lambda>_. None) (fst (ex_frame 5 30)) conn NGTCP2_ENCRYPTION_LEVEL_HANDSHAKE strm (fst (snd (ex_frame 5 30))) 0 = Ok (conn, strm') \<and>
     rx_reorder strm' = Some r' \<and> reorder_data r' 25 = None"
proof -
  have "(case ex_run [(10, 20)] of Ok (conn, strm) \<Rightarrow> rx_cont_offset strm = 0 \<and> (case rx_reorder strm of None \<Rightarrow> False | Some r \<Rightarrow>
      length (ro_head r) = 1 \<and> reorder_data r 5 = None \<and> reorder_data r 10 \<noteq> None \<and> reorder_data r 25 = None) | _ \<Rightarrow> False)" by code_simp
  then obtain conn strm r where r: "ex_run [(10, 20)] = Ok (conn, strm)" "rx_cont_offset strm = 0" "rx_reorder strm = Some r"
    "length (ro_head r) = 1" "reorder_data r 5 = None" "reorder_data r 10 \<noteq> None" "reorder_data r 25 = None"
    by (auto split: res.splits option.splits)
  have reach: "crypto_reach (\<lambda>_. None) NGTCP2_ENCRYPTION_LEVEL_HANDSHAKE ex_stream conn strm" by (rule ex_run_reach [OF r(1)]) simp
  let ?fr = "fst (snd (ex_frame 5 30))" and ?data = "take (30 - 5) (drop 5 ex_stream)"
  have fr: "st_data ?fr = [?data]" "st_offset ?fr = 5" "fst (ex_frame 5 30) = ex_answers" "length ?data = 25" "an_ok2 ex_answers"
    by (simp_all add: ex_frame_def ex_stream_def ex_answers_def)
  have ans: "answers_ok ex_answers ?data" by (rule ex_answers_ok) (simp add: ex_stream_def)
  have piece: "piece_of ex_stream (unat (st_offset ?fr)) ?data" using ex_piece [of 5 30] fr(2) by simp
  have "(case recv_buf ex_answers ?data of Ok _ \<Rightarrow> True | _ \<Rightarrow> False)" by code_simp
  then obtain buf owned where b: "recv_buf ex_answers ?data = Ok (buf, owned)" by (auto split: res.splits)
  have m: "crypto_max_offset NGTCP2_ENCRYPTION_LEVEL_HANDSHAKE = Ok 65536" by (simp add: crypto_max_offset_def)
  have st: "rx_cont_offset strm < st_offset ?fr" "length ex_stream < 2 ^ 62" by (simp_all add: r(2) fr(2) ex_stream_def)
  show ?thesis
    using crypto_data_lost [OF reach _ st(2) fr(1) piece ans st(1) b fr(5) r(3) _ m, of 5 10 0] r fr by fastforce
qed

text \<open>
  The loss is seen at the end: after the three frames \<open>[10, 20)\<close>, \<open>[5, 30)\<close> and \<open>[0, 5)\<close> of a stream of 30 bytes, every byte has been received, 20 have
  been delivered, and nothing is kept.
\<close>

theorem crypto_data_lost_run:
  "\<exists>conn strm r. ex_run [(10, 20), (5, 30), (0, 5)] = Ok (conn, strm) \<and> delivered (cc_events conn) = take 20 ex_stream \<and>
     length ex_stream = 30 \<and> rx_reorder strm = Some r \<and> ro_head r = []"
proof -
  have "(case ex_run [(10, 20), (5, 30), (0, 5)] of Ok (conn, strm) \<Rightarrow>
      delivered (cc_events conn) = take 20 ex_stream \<and> (case rx_reorder strm of None \<Rightarrow> False | Some r \<Rightarrow> ro_head r = []) | _ \<Rightarrow> False)"
    by code_simp
  then show ?thesis by (auto simp: ex_stream_def split: res.splits option.splits)
qed

text \<open>
  \<open>ngtcp2_reorder_push\<close> adds the first stretch of its data that is not there yet, and nothing else: everything before the stretch is
  there, and it ends at the end of the data or at an entry. It reports the length of the stretch. Each buffer given to it is afterwards in
  the list or released, once.
\<close>

theorem reorder_push_stores:
  assumes "reorder_ok cont r" "buf_ok buf" "unat offset + (buf_last buf - buf_pos buf) < 2 ^ 64"
    "cont < offset + ngtcp2_buf_len buf"
  shows "\<exists>b e r'. ngtcp2_reorder_push True r buf offset cont owned = Ok (r', e - b) \<and> reorder_ok cont r' \<and>
    first_stretch (reorder_data r) (max offset cont) (offset + ngtcp2_buf_len buf) b e \<and>
    reorder_data r' = reorder_data r ++ (buf_data buf (unat offset) |` {unat b ..< unat e}) \<and>
    reorder_owners r' = add_mset (buf_owner buf) (reorder_owners r)"
  using reorder_push_ok [OF assms(1-3), of True owned] assms(4) unfolding push_result_def by auto

definition ex_buf :: ngtcp2_buf where
  "ex_buf = \<lparr>buf_mem = [1, 2, 3], buf_pos = 0, buf_last = 3, buf_owner = 7\<rparr>"

theorem reorder_push_stores_witness:
  "\<exists>b e r'. ngtcp2_reorder_push True ngtcp2_reorder_init ex_buf 5 0 True = Ok (r', e - b) \<and>
     reorder_owners r' = add_mset 7 (reorder_owners ngtcp2_reorder_init)"
  using reorder_push_stores [of 0 ngtcp2_reorder_init ex_buf 5 True]
  by (auto simp: ex_buf_def buf_ok_def reorder_ok_def ngtcp2_reorder_init_def ngtcp2_buf_len_def)

lemma push_loop_owner: "buf_owner (fst (reorder_push_loop ents bg en buf)) = buf_owner buf"
  by (induction ents bg en buf rule: reorder_push_loop.induct) simp_all

lemma push_owner:
  assumes "ngtcp2_reorder_push ok r buf offset cont owned = Ok (r', n)" "n \<noteq> 0"
  shows "buf_owner buf \<in> set (map (buf_owner \<circ> re_buf) (ro_head r'))"
proof -
  define bg where "bg = (if offset < cont then cont else offset)"
  define buf1 where "buf1 = (if offset < cont then buf\<lparr>buf_pos := buf_pos buf + unat (cont - offset)\<rparr> else buf)"
  obtain buf2 q where q: "reorder_push_loop (ro_head r) bg (offset + ngtcp2_buf_len buf) buf1 = (buf2, q)"
    by (cases "reorder_push_loop (ro_head r) bg (offset + ngtcp2_buf_len buf) buf1")
  have "buf_owner buf2 = buf_owner buf1" using push_loop_owner [of "ro_head r" bg "offset + ngtcp2_buf_len buf" buf1] unfolding q by simp
  then have ow: "buf_owner buf2 = buf_owner buf" by (simp add: buf1_def)
  have e: "(if offset < cont then (cont, buf\<lparr>buf_pos := buf_pos buf + unat (cont - offset)\<rparr>) else (offset, buf)) = (bg, buf1)"
    by (simp add: bg_def buf1_def)
  show ?thesis using assms ow unfolding ngtcp2_reorder_push_def Let_def e prod.case q reorder_push_tail_def
    by (auto simp: reorder_entry_new_def split: if_splits option.splits)
qed

text \<open>
  C30: When the buffer becomes too fragmented, the data has already been stored, but the caller takes the error for a failure and releases
  the buffer: the entry that is kept still refers to the owner released, which is released again with the entry.
\<close>

theorem reorder_double_release:
  assumes "rx_reorder strm = Some r" "recv_buf an data = Ok (buf, owned)"
    "ngtcp2_reorder_push (an_ok2 an) r buf offset (rx_cont_offset strm) owned = Ok (r', n)" "n \<noteq> 0" "4000 \<le> length (ro_head r')"
  shows "conn_recv_reordering an conn strm data offset =
      (conn\<lparr>cc_released := (buf, owned) # cc_released conn\<rparr>, strm\<lparr>rx_reorder := Some r'\<rparr>, Err NGTCP2_ERR_INTERNAL) \<and>
    buf_owner buf \<in> set (map (buf_owner \<circ> re_buf) (ro_head r'))"
  using push_owner [OF assms(3,4)] assms
  by (simp add: conn_recv_reordering_def recv_buf_def [symmetric] ngtcp2_strm_recv_reordering_buf_def strm_reorder_heavily_fragmented_def
      conn_reorder_release_def)

definition frag_entry :: "nat \<Rightarrow> ngtcp2_reorder_entry" where
  "frag_entry i = \<lparr>re_range = \<lparr>rg_begin = of_nat (2 * i + 2), rg_end = of_nat (2 * i + 3)\<rparr>,
     re_buf = \<lparr>buf_mem = [0], buf_pos = 0, buf_last = 1, buf_owner = i + 2\<rparr>, re_allocator_owned = True\<rparr>"

lemma frag_entries: "0 < n \<Longrightarrow> map frag_entry [0..<n] = frag_entry 0 # map frag_entry [1..<n]"
  by (simp add: upt_conv_Cons)

lemma frag_push:
  assumes "0 < n" "buf_last buf = buf_pos buf + 1"
  shows "\<exists>r'. ngtcp2_reorder_push True \<lparr>ro_head = map frag_entry [0..<n], ro_released = []\<rparr> buf 0 0 owned = Ok (r', 1) \<and>
    length (ro_head r') = Suc n"
proof -
  have l: "reorder_push_loop (map frag_entry [0..<n]) 0 1 buf = (buf, Some (0, 0, 1))"
    unfolding frag_entries [OF assms(1)] by (simp add: frag_entry_def)
  show ?thesis using assms(2) l
    by (auto simp: ngtcp2_reorder_push_def reorder_push_tail_def Let_def ngtcp2_buf_len_def reorder_entry_new_def simp del: upt_Suc)
qed

theorem reorder_double_release_witness:
  "\<exists>conn strm. conn_recv_reordering ex_answers ex_conn
      \<lparr>rx_reorder = Some \<lparr>ro_head = map frag_entry [0..<3999], ro_released = []\<rparr>, rx_cont_offset = 0, rx_last_offset = 0\<rparr> [42] 0 =
    (conn, strm, Err NGTCP2_ERR_INTERNAL) \<and> cc_released conn \<noteq> []"
proof -
  let ?r = "\<lparr>ro_head = map frag_entry [0..<3999], ro_released = []\<rparr>"
  let ?strm = "\<lparr>rx_reorder = Some ?r, rx_cont_offset = 0, rx_last_offset = 0\<rparr>"
  let ?buf = "\<lparr>buf_mem = 42 # replicate 29 0, buf_pos = 0, buf_last = 1, buf_owner = 1\<rparr>"
  have b: "recv_buf ex_answers [42] = Ok (?buf, True)" by code_simp
  obtain r' where p: "ngtcp2_reorder_push True ?r ?buf 0 0 True = Ok (r', 1)" "length (ro_head r') = Suc 3999"
    using frag_push [of 3999 ?buf True] by auto
  have ok: "an_ok2 ex_answers = True" by (simp add: ex_answers_def)
  have s: "rx_reorder ?strm = Some ?r" "rx_cont_offset ?strm = 0" by simp_all
  show ?thesis using reorder_double_release [OF s(1) b, of 0 r' 1 ex_conn] p unfolding s(2) ok by auto
qed

end
