(* ===== verification/Vec.thy ===== *)
theory Vec
  imports Prelude
begin

text \<open>
  \<open>lib/ngtcp2_vec.c\<close>: vectors of pieces of memory. A \<open>ngtcp2_vec\<close> has the address of its first byte and its length, both natural numbers;
  an array of vectors with its number of elements is a list.
\<close>

section \<open>Operations\<close>

record ngtcp2_vec =
  v_base :: nat
  v_len :: nat

definition ngtcp2_vec_init :: "nat \<Rightarrow> nat \<Rightarrow> ngtcp2_vec" where
  "ngtcp2_vec_init base len = \<lparr>v_base = base, v_len = len\<rparr>"

definition ngtcp2_vec_end :: "ngtcp2_vec \<Rightarrow> nat" where
  "ngtcp2_vec_end v = v_base v + v_len v"

definition ngtcp2_vec_drop :: "ngtcp2_vec \<Rightarrow> nat \<Rightarrow> ngtcp2_vec" where
  "ngtcp2_vec_drop v n = v\<lparr>v_base := v_base v + n, v_len := v_len v - n\<rparr>"

text \<open>\<open>ngtcp2_vec_len\<close>\<close>

primrec vecs_len :: "ngtcp2_vec list \<Rightarrow> nat" where
  "vecs_len [] = 0"
| "vecs_len (v # vs) = v_len v + vecs_len vs"

text \<open>\<open>None\<close> stands for the result \<open>-1\<close>.\<close>

fun vec_len_varint_loop :: "ngtcp2_vec list \<Rightarrow> nat \<Rightarrow> nat option" where
  "vec_len_varint_loop [] res = Some res"
| "vec_len_varint_loop (v # vs) res = (if v_len v > 4611686018427387903 - res then None else vec_len_varint_loop vs (res + v_len v))"

definition ngtcp2_vec_len_varint :: "ngtcp2_vec list \<Rightarrow> nat option" where
  "ngtcp2_vec_len_varint vec = vec_len_varint_loop vec 0"

text \<open>The body of the loop of \<open>ngtcp2_vec_split\<close> at the piece \<open>i\<close>, where the data is split.\<close>

definition vec_split_here ::
    "ngtcp2_vec list \<Rightarrow> ngtcp2_vec list \<Rightarrow> nat \<Rightarrow> nat \<Rightarrow> nat \<Rightarrow> (ngtcp2_vec list \<times> ngtcp2_vec list \<times> nat) option" where
  "vec_split_here dst src i left maxcnt =
    (let srccnt = length src;
         joined = (dst \<noteq> [] \<and> ngtcp2_vec_end (src ! (srccnt - 1)) = v_base (dst ! 0)) in
     if length dst + srccnt - i - (if joined then 1 else 0) > maxcnt then None else
     let l = src ! (srccnt - 1);
         dst = (if joined then dst[0 := \<lparr>v_base = v_base l, v_len = v_len (dst ! 0) + v_len l\<rparr>] else dst);
         extra = (if joined then v_len l else 0);
         srccnt = (if joined then srccnt - 1 else srccnt);
         nmove = srccnt - i;
         dst = take nmove (drop i src) @ dst;
         dst = dst[0 := ngtcp2_vec_drop (dst ! 0) left];
         src = (take (if left = 0 then i else i + 1) src)[i := (src ! i)\<lparr>v_len := left\<rparr>];
         extra = (if nmove = 0 then extra - left else extra) in
     Some (dst, src, vecs_len (take nmove dst) + extra))"

function vec_split_loop ::
    "ngtcp2_vec list \<Rightarrow> ngtcp2_vec list \<Rightarrow> nat \<Rightarrow> nat \<Rightarrow> nat \<Rightarrow> (ngtcp2_vec list \<times> ngtcp2_vec list \<times> nat) option" where
  "vec_split_loop dst src i left maxcnt =
    (if \<not> i < length src then Some (dst, src, 0)
     else if left \<ge> v_len (src ! i) then vec_split_loop dst src (i + 1) (left - v_len (src ! i)) maxcnt
     else vec_split_here dst src i left maxcnt)"
  by pat_completeness auto

termination vec_split_loop
  by (relation "measure (\<lambda>(_, src, i, _, _). length src - i)") auto

declare vec_split_loop.simps [simp del]

definition ngtcp2_vec_split ::
    "ngtcp2_vec list \<Rightarrow> ngtcp2_vec list \<Rightarrow> nat \<Rightarrow> nat \<Rightarrow> (ngtcp2_vec list \<times> ngtcp2_vec list \<times> nat) option" where
  "ngtcp2_vec_split dst src left maxcnt = vec_split_loop dst src 0 left maxcnt"

text \<open>The loop of \<open>ngtcp2_vec_merge\<close>: the destination, what is left of the source, and \<open>left\<close>.\<close>

fun vec_merge_loop :: "ngtcp2_vec list \<Rightarrow> ngtcp2_vec list \<Rightarrow> nat \<Rightarrow> nat \<Rightarrow> (ngtcp2_vec list \<times> ngtcp2_vec list \<times> nat) res" where
  "vec_merge_loop dst [] left maxcnt = Ok (dst, [], left)"
| "vec_merge_loop dst (b # src) left maxcnt =
    (if left = 0 then Ok (dst, b # src, left) else
     if dst = [] then Fault else
     let k = length dst - 1; a = dst ! k in
     if left < v_len b then
       (if ngtcp2_vec_end a = v_base b
        then Ok (dst[k := a\<lparr>v_len := v_len a + left\<rparr>], ngtcp2_vec_drop b left # src, 0)
        else if length dst = maxcnt then Ok (dst, b # src, left)
        else Ok (dst @ [\<lparr>v_base = v_base b, v_len = left\<rparr>], ngtcp2_vec_drop b left # src, 0))
     else if ngtcp2_vec_end a = v_base b
        then vec_merge_loop (dst[k := a\<lparr>v_len := v_len a + v_len b\<rparr>]) src (left - v_len b) maxcnt
     else if length dst = maxcnt then Ok (dst, b # src, left)
     else vec_merge_loop (dst @ [b]) src (left - v_len b) maxcnt)"

text \<open>The results are the destination, the source, and the number of bytes moved.\<close>

definition ngtcp2_vec_merge ::
    "ngtcp2_vec list \<Rightarrow> ngtcp2_vec list \<Rightarrow> nat \<Rightarrow> nat \<Rightarrow> (ngtcp2_vec list \<times> ngtcp2_vec list \<times> nat) res" where
  "ngtcp2_vec_merge dst src left maxcnt =
     assertR (maxcnt \<noteq> 0)
    (if dst = [] then
       (case src of
          [] \<Rightarrow> Ok (dst, src, 0)
        | b # bs \<Rightarrow>
            if left < v_len b then Ok (dst, ngtcp2_vec_drop b left # bs, left)
            else bindR (vec_merge_loop [b] bs (left - v_len b) maxcnt) (\<lambda>(dst, src, left'). Ok (dst, src, left - left')))
     else bindR (vec_merge_loop dst src left maxcnt) (\<lambda>(dst, src, left'). Ok (dst, src, left - left')))"

text \<open>The elements written to \<open>dst\<close>.\<close>

fun ngtcp2_vec_copy_at_most :: "nat \<Rightarrow> ngtcp2_vec list \<Rightarrow> nat \<Rightarrow> ngtcp2_vec list" where
  "ngtcp2_vec_copy_at_most dstcnt [] left = []"
| "ngtcp2_vec_copy_at_most dstcnt (v # src) left =
    (if left = 0 \<or> dstcnt = 0 then []
     else if v_len v = 0 then ngtcp2_vec_copy_at_most dstcnt src left
     else if v_len v > left then [\<lparr>v_base = v_base v, v_len = left\<rparr>]
     else v # ngtcp2_vec_copy_at_most (dstcnt - 1) src (left - v_len v))"

definition ngtcp2_vec_split_at :: "ngtcp2_vec \<Rightarrow> nat \<Rightarrow> (ngtcp2_vec \<times> ngtcp2_vec) res" where
  "ngtcp2_vec_split_at src offset =
     assertR (offset < v_len src)
       (Ok (\<lparr>v_base = v_base src + offset, v_len = v_len src - offset\<rparr>, src\<lparr>v_len := offset\<rparr>))"

section \<open>The bytes of vectors\<close>

text \<open>The addresses of the bytes, in order.\<close>

definition vec_addrs :: "ngtcp2_vec \<Rightarrow> nat list" where
  "vec_addrs v = [v_base v ..< v_base v + v_len v]"

definition addrs :: "ngtcp2_vec list \<Rightarrow> nat list" where
  "addrs vs = concat (map vec_addrs vs)"

lemma addrs_simps [simp]:
  "addrs [] = []" "addrs (v # vs) = vec_addrs v @ addrs vs" "addrs (vs @ ws) = addrs vs @ addrs ws"
  by (simp_all add: addrs_def)

lemma length_vec_addrs [simp]: "length (vec_addrs v) = v_len v"
  by (simp add: vec_addrs_def)

lemma length_addrs [simp]: "length (addrs vs) = vecs_len vs"
  by (induction vs) simp_all

lemma vecs_len_append [simp]: "vecs_len (vs @ ws) = vecs_len vs + vecs_len ws"
  by (induction vs) simp_all

lemma vec_addrs_join: "vec_addrs \<lparr>v_base = b, v_len = m\<rparr> @ vec_addrs \<lparr>v_base = b + m, v_len = n\<rparr> = vec_addrs \<lparr>v_base = b, v_len = m + n\<rparr>"
  using upt_add_eq_append [of b "b + m" n] by (simp add: vec_addrs_def add.assoc)

lemma vec_addrs_split: "n \<le> v_len v \<Longrightarrow> vec_addrs \<lparr>v_base = v_base v, v_len = n\<rparr> @ vec_addrs (ngtcp2_vec_drop v n) = vec_addrs v"
  using vec_addrs_join [of "v_base v" n "v_len v - n"] by (cases v) (simp add: ngtcp2_vec_drop_def)

lemma vec_addrs_split_len: "n \<le> v_len v \<Longrightarrow> vec_addrs (v\<lparr>v_len := n\<rparr>) @ vec_addrs (ngtcp2_vec_drop v n) = vec_addrs v"
  using vec_addrs_split [of n v] by (cases v) simp

lemma vec_addrs_extend:
  "ngtcp2_vec_end a = v_base b \<Longrightarrow> vec_addrs (a\<lparr>v_len := v_len a + n\<rparr>) = vec_addrs a @ vec_addrs \<lparr>v_base = v_base b, v_len = n\<rparr>"
  using vec_addrs_join [of "v_base a" "v_len a" n] by (cases a) (simp add: ngtcp2_vec_end_def)

lemma len_varint_loop:
  "res \<le> 4611686018427387903 \<Longrightarrow>
   vec_len_varint_loop vs res = (if res + vecs_len vs \<le> 4611686018427387903 then Some (res + vecs_len vs) else None)"
  by (induction vs arbitrary: res) (auto simp: add.assoc)

lemma vec_len_varint_exact:
  "ngtcp2_vec_len_varint vs = (if vecs_len vs \<le> 4611686018427387903 then Some (vecs_len vs) else None)"
  by (simp add: ngtcp2_vec_len_varint_def len_varint_loop)

section \<open>Merging\<close>

lemma list_last_update: "dst \<noteq> [] \<Longrightarrow> dst[length dst - 1 := x] = butlast dst @ [x]"
  by (cases dst rule: rev_cases) (simp_all add: list_update_append)

lemma addrs_last: "dst \<noteq> [] \<Longrightarrow> addrs dst = addrs (butlast dst) @ vec_addrs (dst ! (length dst - 1))"
  by (cases dst rule: rev_cases) simp_all

definition vec_merge_spec :: "ngtcp2_vec list \<Rightarrow> ngtcp2_vec list \<Rightarrow> nat \<Rightarrow> nat \<Rightarrow> ngtcp2_vec list \<Rightarrow> ngtcp2_vec list \<Rightarrow> nat \<Rightarrow> bool" where
  "vec_merge_spec dst src left maxcnt dst' src' n =
     (addrs dst' @ addrs src' = addrs dst @ addrs src \<and> vecs_len dst' = vecs_len dst + n \<and> n \<le> left \<and>
      length dst \<le> length dst' \<and> length dst' \<le> maxcnt \<and> (n < left \<longrightarrow> src' = [] \<or> length dst' = maxcnt))"

lemma merge_loop_ok:
  "dst \<noteq> [] \<Longrightarrow> length dst \<le> maxcnt \<Longrightarrow>
   \<exists>dst' src' left'. vec_merge_loop dst src left maxcnt = Ok (dst', src', left') \<and> left' \<le> left \<and>
     vec_merge_spec dst src left maxcnt dst' src' (left - left')"
proof (induction dst src left maxcnt rule: vec_merge_loop.induct)
  case (2 dst b src left maxcnt)
  let ?k = "length dst - 1"
  let ?a = "dst ! ?k"
  let ?ext = "\<lambda>n. dst[?k := ?a\<lparr>v_len := v_len ?a + n\<rparr>]"
  have ext: "addrs (?ext n) = addrs dst @ vec_addrs \<lparr>v_base = v_base b, v_len = n\<rparr>" "vecs_len (?ext n) = vecs_len dst + n"
    if "ngtcp2_vec_end ?a = v_base b" for n
  proof -
    show *: "addrs (?ext n) = addrs dst @ vec_addrs \<lparr>v_base = v_base b, v_len = n\<rparr>"
      unfolding list_last_update [OF 2(3)] addrs_last [OF 2(3)] by (simp add: vec_addrs_extend [OF that] del: One_nat_def)
    from arg_cong [OF *, of length] show "vecs_len (?ext n) = vecs_len dst + n" by simp
  qed
  have whole: "vec_addrs \<lparr>v_base = v_base b, v_len = v_len b\<rparr> = vec_addrs b" by (cases b) simp
  consider (zero) "left = 0" | (part) "left \<noteq> 0" "left < v_len b" | (join) "left \<noteq> 0" "v_len b \<le> left" "ngtcp2_vec_end ?a = v_base b"
    | (full) "left \<noteq> 0" "v_len b \<le> left" "ngtcp2_vec_end ?a \<noteq> v_base b" "length dst = maxcnt"
    | (push) "left \<noteq> 0" "v_len b \<le> left" "ngtcp2_vec_end ?a \<noteq> v_base b" "length dst \<noteq> maxcnt" using linorder_not_less by blast
  then show ?case
  proof cases
    case zero
    then show ?thesis using 2(4) by (simp add: vec_merge_spec_def)
  next
    case part
    then show ?thesis using 2(3,4) ext [of left] vec_addrs_split [of left b]
      by (auto simp: vec_merge_spec_def Let_def)
  next
    case join
    from 2(1) [OF join(1) 2(3) refl refl _ join(3)] join 2(3,4)
    obtain dst' src' left' where "vec_merge_loop (?ext (v_len b)) src (left - v_len b) maxcnt = Ok (dst', src', left')"
      "left' \<le> left - v_len b" "vec_merge_spec (?ext (v_len b)) src (left - v_len b) maxcnt dst' src' (left - v_len b - left')" by auto
    then show ?thesis using join 2(3) ext [OF join(3), of "v_len b"] whole by (auto simp: vec_merge_spec_def Let_def)
  next
    case full
    then show ?thesis using 2(3) by (simp add: vec_merge_spec_def Let_def)
  next
    case push
    from 2(2) [OF push(1) 2(3) refl refl _ push(3,4)] push 2(3,4)
    obtain dst' src' left' where "vec_merge_loop (dst @ [b]) src (left - v_len b) maxcnt = Ok (dst', src', left')"
      "left' \<le> left - v_len b" "vec_merge_spec (dst @ [b]) src (left - v_len b) maxcnt dst' src' (left - v_len b - left')" by auto
    then show ?thesis using push 2(3) by (auto simp: vec_merge_spec_def Let_def)
  qed
qed (simp add: vec_merge_spec_def)

section \<open>Splitting\<close>

definition split_spec :: "ngtcp2_vec list \<Rightarrow> ngtcp2_vec list \<Rightarrow> nat \<Rightarrow> nat \<Rightarrow> ngtcp2_vec list \<Rightarrow> ngtcp2_vec list \<Rightarrow> nat \<Rightarrow> bool" where
  "split_spec dst src left maxcnt dst' src' n =
     (addrs src' @ addrs dst' = addrs src @ addrs dst \<and> vecs_len src' = min left (vecs_len src) \<and> n = vecs_len src - left \<and>
      length dst' \<le> max maxcnt (length dst) \<and> length src' \<le> length src)"

lemma take_update_last: "i < length xs \<Longrightarrow> (take (i + 1) xs)[i := x] = take i xs @ [x]"
  by (simp add: take_Suc_conv_app_nth list_update_append)

lemma src_rest:
  assumes "i < length src" "left < v_len (src ! i)"
  shows "addrs ((take (if left = 0 then i else i + 1) src)[i := (src ! i)\<lparr>v_len := left\<rparr>]) =
      addrs (take i src) @ vec_addrs ((src ! i)\<lparr>v_len := left\<rparr>)"
    and "length ((take (if left = 0 then i else i + 1) src)[i := (src ! i)\<lparr>v_len := left\<rparr>]) \<le> length src"
    and "vecs_len ((take (if left = 0 then i else i + 1) src)[i := (src ! i)\<lparr>v_len := left\<rparr>]) = vecs_len (take i src) + left"
  using assms take_update_last [OF assms(1)] by (auto simp: vec_addrs_def list_update_beyond)

lemma addrs_drop_first:
  assumes "dst \<noteq> []" "v_base (dst ! 0) = v_base v" "left \<le> v_len (dst ! 0)"
  shows "vec_addrs (v\<lparr>v_len := left\<rparr>) @ addrs (dst[0 := ngtcp2_vec_drop (dst ! 0) left]) = addrs dst"
proof -
  obtain d ds where d: "dst = d # ds" using assms(1) by (cases dst) auto
  have "v\<lparr>v_len := left\<rparr> = \<lparr>v_base = v_base d, v_len = left\<rparr>" using assms(2) by (cases v) (simp add: d)
  then show ?thesis using vec_addrs_split [of left d] assms(3) by (simp add: d)
qed

lemma split_here_ok:
  assumes i: "i < length src" and left: "left < v_len (src ! i)" and h: "vec_split_here dst src i left maxcnt = Some (dst', src', n)"
  shows "split_spec dst src (vecs_len (take i src) + left) maxcnt dst' src' n"
proof -
  let ?l = "src ! (length src - 1)"
  define joined where "joined = (dst \<noteq> [] \<and> ngtcp2_vec_end ?l = v_base (dst ! 0))"
  define dst1 where "dst1 = (if joined then dst[0 := \<lparr>v_base = v_base ?l, v_len = v_len (dst ! 0) + v_len ?l\<rparr>] else dst)"
  define k where "k = (if joined then length src - 1 else length src)"
  define dst2 where "dst2 = take (k - i) (drop i src) @ dst1"
  have src: "src = take i src @ drop i src" "drop i src = src ! i # drop (Suc i) src" using i by (simp_all add: Cons_nth_drop_Suc)
  have len: "length dst2 = length dst + length src - i - (if joined then 1 else 0)"
    using i by (auto simp: dst2_def dst1_def k_def)
  have a2: "addrs dst2 = addrs (drop i src) @ addrs dst"
  proof (cases joined)
    case True
    then obtain d ds where d: "dst = d # ds" by (cases dst) (auto simp: joined_def)
    have j: "vec_addrs \<lparr>v_base = v_base ?l, v_len = v_len d + v_len ?l\<rparr> = vec_addrs ?l @ vec_addrs d"
      using True vec_addrs_join [of "v_base ?l" "v_len ?l" "v_len d"] by (cases ?l; cases d) (simp add: joined_def d ngtcp2_vec_end_def add.commute)
    have "drop i src = take (length src - 1 - i) (drop i src) @ [?l]"
      using i append_butlast_last_id [of "drop i src"] by (simp add: butlast_drop butlast_conv_take last_drop last_conv_nth drop_take)
    from arg_cong [OF this, of addrs] show ?thesis using True by (simp add: dst2_def dst1_def k_def d j del: One_nat_def)
  qed (simp add: dst2_def dst1_def k_def)
  define dst3 where "dst3 = dst2[0 := ngtcp2_vec_drop (dst2 ! 0) left]"
  let ?extra = "if k - i = 0 then (if joined then v_len ?l else 0) - left else if joined then v_len ?l else 0"
  have hd: "dst2 \<noteq> [] \<and> v_base (dst2 ! 0) = v_base (src ! i) \<and> left \<le> v_len (dst2 ! 0) \<and>
      vecs_len (take (k - i) dst3) + ?extra = vecs_len (drop i src) - left"
  proof (cases "k - i = 0")
    case True
    then have "joined" "i = length src - 1" using i by (auto simp: k_def split: if_splits)
    then show ?thesis using True left src(2) i by (auto simp: dst2_def dst1_def joined_def)
  next
    case False
    then have t: "dst3 = ngtcp2_vec_drop (src ! i) left # take (k - i - 1) (drop (Suc i) src) @ dst1" "dst2 = src ! i # take (k - i - 1) (drop (Suc i) src) @ dst1"
      by (cases "k - i"; simp add: dst3_def dst2_def src(2))+
    have "vecs_len (drop i src) = vecs_len (take (k - i) (drop i src)) + (if joined then v_len ?l else 0)"
    proof (cases joined)
      case True
      have "drop i src = take (length src - 1 - i) (drop i src) @ [?l]"
        using i append_butlast_last_id [of "drop i src"] by (simp add: butlast_drop butlast_conv_take last_drop last_conv_nth drop_take)
      from arg_cong [OF this, of vecs_len] show ?thesis using True by (simp add: k_def)
    qed (simp add: k_def)
    moreover have "k \<le> length src" by (simp add: k_def)
    then have "length (take (k - i - 1) (drop (Suc i) src)) = k - i - 1" using False by simp
    then have "take (k - i) dst3 = ngtcp2_vec_drop (src ! i) left # take (k - i - 1) (drop (Suc i) src)"
      "take (k - i) (drop i src) = src ! i # take (k - i - 1) (drop (Suc i) src)"
      using False by (cases "k - i"; simp add: t src(2))+
    ultimately show ?thesis using False left t by (simp add: ngtcp2_vec_drop_def)
  qed
  then have d3: "vec_addrs ((src ! i)\<lparr>v_len := left\<rparr>) @ addrs dst3 = addrs dst2" unfolding dst3_def by (intro addrs_drop_first) auto
  have "\<not> length dst2 > maxcnt" "dst' = dst3" "src' = (take (if left = 0 then i else i + 1) src)[i := (src ! i)\<lparr>v_len := left\<rparr>]"
    "n = vecs_len (take (k - i) dst3) + ?extra"
    using h unfolding vec_split_here_def Let_def len joined_def [symmetric] dst1_def [symmetric] k_def [symmetric] dst2_def [symmetric]
      dst3_def [symmetric] by (simp_all split: if_split_asm)
  note r = this
  have "addrs src = addrs (take i src) @ addrs (drop i src)" using addrs_simps(3) [of "take i src" "drop i src"] by simp
  moreover from arg_cong [OF this, of length] have "vecs_len src = vecs_len (take i src) + vecs_len (drop i src)" by simp
  moreover from arg_cong [OF src(2), of vecs_len] have "left < vecs_len (drop i src)" using left by simp
  ultimately show ?thesis using d3 hd r src_rest [OF i left]
    by (auto simp: split_spec_def a2 dst3_def)
qed

lemma split_loop_ok:
  assumes "vec_split_loop dst src i left maxcnt = Some (dst', src', n)" "i \<le> length src"
  shows "split_spec dst src (vecs_len (take i src) + left) maxcnt dst' src' n"
  using assms
proof (induction dst src i left maxcnt rule: vec_split_loop.induct)
  case (1 dst src i left maxcnt)
  note s = 1(2) [unfolded vec_split_loop.simps [of dst src i]]
  show ?case
  proof (cases "i < length src")
    case True
    show ?thesis
    proof (cases "left \<ge> v_len (src ! i)")
      case le: True
      have "vecs_len (take (i + 1) src) + (left - v_len (src ! i)) = vecs_len (take i src) + left"
        using True le by (simp add: take_Suc_conv_app_nth)
      then show ?thesis using 1(1) True le s by simp
    next
      case False
      then show ?thesis using split_here_ok [OF True, of left dst maxcnt dst' src' n] True s by simp
    qed
  next
    case False
    then show ?thesis using 1(3) s by (simp add: split_spec_def)
  qed
qed

section \<open>Properties\<close>

text \<open>
  C23: Splitting moves bytes and loses none: \<open>ngtcp2_vec_split\<close> leaves the first \<open>left\<close> bytes of the source and puts the others in front of the
  destination. Merging loses none, either, when the destination is not empty or the first piece of the source fits into \<open>left\<close>:
  \<open>ngtcp2_vec_merge\<close> moves at most \<open>left\<close> bytes from the beginning of the source to the end of the destination, and fewer only when the source is
  used up or the destination is full. Both report the number of bytes moved. The destination never grows beyond \<open>maxcnt\<close> elements. In the case that is left
  out, an empty destination and a first piece longer than \<open>left\<close>, bytes are lost (shown below).
\<close>

theorem vec_split_merge_exact:
  "(ngtcp2_vec_split dst src left maxcnt = Some (dst1, src1, n1) \<longrightarrow>
      addrs src1 @ addrs dst1 = addrs src @ addrs dst \<and> vecs_len src1 = min left (vecs_len src) \<and> n1 = vecs_len src - left \<and>
      length dst1 \<le> max maxcnt (length dst)) \<and>
   (0 < maxcnt \<and> length dst \<le> maxcnt \<and> (dst = [] \<longrightarrow> src = [] \<or> v_len (hd src) \<le> left) \<longrightarrow>
      (\<exists>dst2 src2 n2. ngtcp2_vec_merge dst src left maxcnt = Ok (dst2, src2, n2) \<and>
         addrs dst2 @ addrs src2 = addrs dst @ addrs src \<and> vecs_len dst2 = vecs_len dst + n2 \<and> n2 \<le> left \<and>
         length dst2 \<le> maxcnt \<and> (n2 < left \<longrightarrow> src2 = [] \<or> length dst2 = maxcnt)))"
proof (intro conjI impI)
  assume "ngtcp2_vec_split dst src left maxcnt = Some (dst1, src1, n1)"
  then have "split_spec dst src left maxcnt dst1 src1 n1"
    using split_loop_ok [of dst src 0 left maxcnt dst1 src1 n1] by (simp add: ngtcp2_vec_split_def)
  then show "addrs src1 @ addrs dst1 = addrs src @ addrs dst" "vecs_len src1 = min left (vecs_len src)" "n1 = vecs_len src - left"
      "length dst1 \<le> max maxcnt (length dst)"
    by (simp_all add: split_spec_def)
next
  assume a: "0 < maxcnt \<and> length dst \<le> maxcnt \<and> (dst = [] \<longrightarrow> src = [] \<or> v_len (hd src) \<le> left)"
  consider "dst = []" "src = []" | b bs where "dst = []" "src = b # bs" | "dst \<noteq> []" by (cases src) auto
  then show "\<exists>dst2 src2 n2. ngtcp2_vec_merge dst src left maxcnt = Ok (dst2, src2, n2) \<and>
      addrs dst2 @ addrs src2 = addrs dst @ addrs src \<and> vecs_len dst2 = vecs_len dst + n2 \<and> n2 \<le> left \<and>
      length dst2 \<le> maxcnt \<and> (n2 < left \<longrightarrow> src2 = [] \<or> length dst2 = maxcnt)"
  proof cases
    case 2
    with merge_loop_ok [of "[b]" maxcnt bs "left - v_len b"] a show ?thesis
      by (auto simp: ngtcp2_vec_merge_def vec_merge_spec_def)
  next
    case 3
    with merge_loop_ok [of dst maxcnt src left] a show ?thesis by (auto simp: ngtcp2_vec_merge_def vec_merge_spec_def)
  qed (use a in \<open>auto simp: ngtcp2_vec_merge_def\<close>)
qed

theorem vec_split_merge_exact_witness:
  "\<exists>dst2 src2 n2. ngtcp2_vec_merge [\<lparr>v_base = 10, v_len = 5\<rparr>] [\<lparr>v_base = 15, v_len = 7\<rparr>, \<lparr>v_base = 30, v_len = 2\<rparr>] 8 4 = Ok (dst2, src2, n2) \<and>
     n2 \<le> 8 \<and> addrs dst2 @ addrs src2 = [10..<22] @ [30..<32] \<and>
     (\<exists>dst1 src1 n1. ngtcp2_vec_split [] dst2 5 4 = Some (dst1, src1, n1) \<and> addrs src1 @ addrs dst1 = addrs dst2)"
proof -
  let ?d = "[\<lparr>v_base = 10, v_len = 5\<rparr>]" and ?s = "[\<lparr>v_base = 15, v_len = 7\<rparr>, \<lparr>v_base = 30, v_len = 2\<rparr>]"
  have m: "ngtcp2_vec_merge ?d ?s 8 4 = Ok ([\<lparr>v_base = 10, v_len = 12\<rparr>, \<lparr>v_base = 30, v_len = 1\<rparr>], [\<lparr>v_base = 31, v_len = 1\<rparr>], 8)"
    by code_simp
  obtain dst1 src1 n1 where s: "ngtcp2_vec_split [] [\<lparr>v_base = 10, v_len = 12\<rparr>, \<lparr>v_base = 30, v_len = 1\<rparr>] 5 4 = Some (dst1, src1, n1)"
    by (auto simp: ngtcp2_vec_split_def vec_split_loop.simps vec_split_here_def Let_def)
  show ?thesis using vec_split_merge_exact [of ?d ?s 8 4] vec_split_merge_exact [of "[]" "[\<lparr>v_base = 10, v_len = 12\<rparr>, \<lparr>v_base = 30, v_len = 1\<rparr>]" 5 4 dst1 src1 n1] m s
    by (auto simp: addrs_def vec_addrs_def)
qed

text \<open>
  C39: When the destination is empty and the first piece of the source is longer than \<open>left\<close>, \<open>ngtcp2_vec_merge\<close> reports that it has moved
  \<open>left\<close> bytes and takes them off the source, but the number of elements of the destination stays zero: the bytes are in neither.
\<close>

theorem vec_merge_empty_loses:
  assumes "maxcnt \<noteq> 0" "left < v_len b"
  shows "\<exists>src'. ngtcp2_vec_merge [] (b # bs) left maxcnt = Ok ([], src', left) \<and> vecs_len src' = vecs_len (b # bs) - left"
  using assms by (simp add: ngtcp2_vec_merge_def ngtcp2_vec_drop_def)

theorem vec_merge_empty_loses_witness:
  "\<exists>src'. ngtcp2_vec_merge [] [\<lparr>v_base = 10, v_len = 5\<rparr>] 3 1 = Ok ([], src', 3) \<and> vecs_len src' = 2"
  using vec_merge_empty_loses [of 1 3 "\<lparr>v_base = 10, v_len = 5\<rparr>" "[]"] by simp

text \<open>
  \<open>ngtcp2_vec_copy_at_most\<close> copies a prefix of the source of at most \<open>left\<close> bytes, without empty elements, which is shorter only when the
  destination is full.
\<close>

lemma vec_copy_at_most_exact:
  "length (ngtcp2_vec_copy_at_most dstcnt src left) \<le> dstcnt \<and>
   (\<exists>rest. addrs src = addrs (ngtcp2_vec_copy_at_most dstcnt src left) @ rest) \<and>
   vecs_len (ngtcp2_vec_copy_at_most dstcnt src left) \<le> left \<and>
   (length (ngtcp2_vec_copy_at_most dstcnt src left) < dstcnt \<longrightarrow>
      vecs_len (ngtcp2_vec_copy_at_most dstcnt src left) = min left (vecs_len src))"
proof (induction dstcnt src left rule: ngtcp2_vec_copy_at_most.induct)
  case (2 dstcnt v src left)
  have "\<exists>rest. vec_addrs v @ addrs src = vec_addrs \<lparr>v_base = v_base v, v_len = left\<rparr> @ rest" if "left < v_len v"
    using vec_addrs_split [of left v] that by (metis append.assoc less_imp_le)
  then show ?case using 2 by (cases "v_len v \<le> left") (auto simp: vec_addrs_def)
qed simp

lemma vec_split_at_exact:
  "offset < v_len src \<Longrightarrow> \<exists>dst src'. ngtcp2_vec_split_at src offset = Ok (dst, src') \<and> vec_addrs src' @ vec_addrs dst = vec_addrs src"
  using vec_addrs_split_len [of offset src] by (cases src) (simp add: ngtcp2_vec_split_at_def ngtcp2_vec_drop_def)

end
