(* ===== verification/Pmtud.thy ===== *)
theory Pmtud
  imports Prelude
begin

text \<open>
  \<open>lib/ngtcp2_pmtud.c\<close>: the discovery of the path MTU. The state is the structure \<open>ngtcp2_pmtud\<close>; the array \<open>probes\<close> of sizes is a list.
\<close>

section \<open>Operations\<close>

record ngtcp2_pmtud =
  pm_mtu_idx :: nat
  pm_num_pkts_sent :: nat
  pm_expiry :: u64
  pm_tx_pkt_num :: int
  pm_max_udp_payload_size :: nat
  pm_hard_max_udp_payload_size :: nat
  pm_min_fail_udp_payload_size :: nat
  pm_probes :: "u16 list"

abbreviation (input) "NGTCP2_PMTUD_PROBE_NUM_MAX \<equiv> 3 :: nat"
abbreviation (input) "SIZE_MAX \<equiv> 0xFFFFFFFFFFFFFFFF :: nat"

definition pmtud_default_probes :: "u16 list" where
  "pmtud_default_probes = [1454 - 48, 1390 - 48, 1280 - 48, 1492 - 48]"

text \<open>The loop of \<open>ngtcp2_pmtud_new\<close>: the index of the first size of the list that can be probed.\<close>

fun pmtud_first_probe :: "u16 list \<Rightarrow> nat \<Rightarrow> nat \<Rightarrow> nat" where
  "pmtud_first_probe [] mx hard_max = 0"
| "pmtud_first_probe (p # probes) mx hard_max =
    (if unat p > hard_max then Suc (pmtud_first_probe probes mx hard_max)
     else if unat p > mx then 0 else Suc (pmtud_first_probe probes mx hard_max))"

definition ngtcp2_pmtud_new :: "bool \<Rightarrow> nat \<Rightarrow> nat \<Rightarrow> int \<Rightarrow> u16 list \<Rightarrow> ngtcp2_pmtud res" where
  "ngtcp2_pmtud_new ok max_udp_payload_size hard_max_udp_payload_size tx_pkt_num probes =
    (if \<not> ok then Err NGTCP2_ERR_NOMEM else
     let probes = (if probes \<noteq> [] then probes else pmtud_default_probes) in
     Ok \<lparr>pm_mtu_idx = pmtud_first_probe probes max_udp_payload_size hard_max_udp_payload_size, pm_num_pkts_sent = 0,
         pm_expiry = - 1, pm_tx_pkt_num = tx_pkt_num, pm_max_udp_payload_size = max_udp_payload_size,
         pm_hard_max_udp_payload_size = hard_max_udp_payload_size, pm_min_fail_udp_payload_size = SIZE_MAX, pm_probes = probes\<rparr>)"

definition ngtcp2_pmtud_probelen :: "ngtcp2_pmtud \<Rightarrow> nat res" where
  "ngtcp2_pmtud_probelen pmtud =
     assertR (pm_mtu_idx pmtud < length (pm_probes pmtud)) (Ok (unat (pm_probes pmtud ! pm_mtu_idx pmtud)))"

definition ngtcp2_pmtud_probe_sent :: "ngtcp2_pmtud \<Rightarrow> u64 \<Rightarrow> u64 \<Rightarrow> ngtcp2_pmtud" where
  "ngtcp2_pmtud_probe_sent pmtud pto ts =
     (let n = pm_num_pkts_sent pmtud + 1;
          timeout = (if n < NGTCP2_PMTUD_PROBE_NUM_MAX then pto else 3 * pto) in
      pmtud\<lparr>pm_num_pkts_sent := n, pm_expiry := ts + timeout\<rparr>)"

definition ngtcp2_pmtud_require_probe :: "ngtcp2_pmtud \<Rightarrow> bool" where
  "ngtcp2_pmtud_require_probe pmtud = (pm_expiry pmtud = - 1)"

text \<open>The loop of \<open>pmtud_next_probe\<close>.\<close>

fun pmtud_next_index :: "u16 list \<Rightarrow> nat \<Rightarrow> nat \<Rightarrow> nat \<Rightarrow> nat" where
  "pmtud_next_index [] mx hard_max min_fail = 0"
| "pmtud_next_index (p # probes) mx hard_max min_fail =
    (if unat p \<le> mx \<or> unat p > hard_max then Suc (pmtud_next_index probes mx hard_max min_fail)
     else if unat p < min_fail then 0 else Suc (pmtud_next_index probes mx hard_max min_fail))"

definition pmtud_next_probe :: "ngtcp2_pmtud \<Rightarrow> ngtcp2_pmtud res" where
  "pmtud_next_probe pmtud =
     assertR (pm_mtu_idx pmtud < length (pm_probes pmtud))
      (let i = pm_mtu_idx pmtud + 1 in
       Ok (pmtud\<lparr>pm_mtu_idx := i + pmtud_next_index (drop i (pm_probes pmtud)) (pm_max_udp_payload_size pmtud)
                    (pm_hard_max_udp_payload_size pmtud) (pm_min_fail_udp_payload_size pmtud),
                 pm_num_pkts_sent := 0, pm_expiry := - 1\<rparr>))"

definition ngtcp2_pmtud_probe_success :: "ngtcp2_pmtud \<Rightarrow> nat \<Rightarrow> ngtcp2_pmtud res" where
  "ngtcp2_pmtud_probe_success pmtud payloadlen =
    (let pmtud = pmtud\<lparr>pm_max_udp_payload_size := max (pm_max_udp_payload_size pmtud) payloadlen\<rparr> in
     assertR (pm_mtu_idx pmtud < length (pm_probes pmtud))
      (if unat (pm_probes pmtud ! pm_mtu_idx pmtud) > pm_max_udp_payload_size pmtud then Ok pmtud
       else pmtud_next_probe pmtud))"

text \<open>Reading \<open>probes[mtu_idx]\<close> beyond the array is a fault.\<close>

definition ngtcp2_pmtud_handle_expiry :: "ngtcp2_pmtud \<Rightarrow> u64 \<Rightarrow> ngtcp2_pmtud res" where
  "ngtcp2_pmtud_handle_expiry pmtud ts =
    (if ts < pm_expiry pmtud then Ok pmtud else
     let pmtud = pmtud\<lparr>pm_expiry := - 1\<rparr> in
     if pm_num_pkts_sent pmtud < NGTCP2_PMTUD_PROBE_NUM_MAX then Ok pmtud else
     if \<not> pm_mtu_idx pmtud < length (pm_probes pmtud) then Fault else
     pmtud_next_probe (pmtud\<lparr>pm_min_fail_udp_payload_size :=
       min (pm_min_fail_udp_payload_size pmtud) (unat (pm_probes pmtud ! pm_mtu_idx pmtud))\<rparr>))"

definition ngtcp2_pmtud_finished :: "ngtcp2_pmtud \<Rightarrow> bool" where
  "ngtcp2_pmtud_finished pmtud = (pm_mtu_idx pmtud \<ge> length (pm_probes pmtud))"

section \<open>Runs of the discovery\<close>

text \<open>
  The connection deletes the object when the discovery is finished, sends a probe when one is required, and handles expiries at any time.
  Time stamps and timeouts stay below \<open>2 ^ 64 - 1\<close>. The numbers count the probe packets sent.
\<close>

inductive pmtud_run :: "ngtcp2_pmtud \<Rightarrow> nat \<Rightarrow> ngtcp2_pmtud \<Rightarrow> bool" for pmtud0 where
  start: "pmtud_run pmtud0 0 pmtud0"
| sent: "pmtud_run pmtud0 n pmtud \<Longrightarrow> \<not> ngtcp2_pmtud_finished pmtud \<Longrightarrow> ngtcp2_pmtud_require_probe pmtud \<Longrightarrow>
    unat ts + 3 * unat pto < 2 ^ 64 - 1 \<Longrightarrow> pmtud_run pmtud0 (Suc n) (ngtcp2_pmtud_probe_sent pmtud pto ts)"
| success: "pmtud_run pmtud0 n pmtud \<Longrightarrow> \<not> ngtcp2_pmtud_finished pmtud \<Longrightarrow>
    ngtcp2_pmtud_probe_success pmtud payloadlen = Ok pmtud' \<Longrightarrow> pmtud_run pmtud0 n pmtud'"
| expiry: "pmtud_run pmtud0 n pmtud \<Longrightarrow> ngtcp2_pmtud_handle_expiry pmtud ts = Ok pmtud' \<Longrightarrow> pmtud_run pmtud0 n pmtud'"

definition pmtud_probe_ok :: "ngtcp2_pmtud \<Rightarrow> bool" where
  "pmtud_probe_ok pmtud =
     (let p = unat (pm_probes pmtud ! pm_mtu_idx pmtud) in
      pm_max_udp_payload_size pmtud < p \<and> p \<le> pm_hard_max_udp_payload_size pmtud \<and> p < pm_min_fail_udp_payload_size pmtud)"

definition pmtud_inv :: "ngtcp2_pmtud \<Rightarrow> nat \<Rightarrow> bool" where
  "pmtud_inv pmtud n =
     (pm_mtu_idx pmtud \<le> length (pm_probes pmtud) \<and> n \<le> 3 * pm_mtu_idx pmtud + pm_num_pkts_sent pmtud \<and>
      pm_num_pkts_sent pmtud \<le> 3 \<and> (pm_num_pkts_sent pmtud = 3 \<longrightarrow> pm_expiry pmtud \<noteq> - 1) \<and>
      (if pm_mtu_idx pmtud < length (pm_probes pmtud) then pmtud_probe_ok pmtud else pm_num_pkts_sent pmtud = 0 \<and> pm_expiry pmtud = - 1))"

lemma next_index_ok:
  "pmtud_next_index ps mx hard_max min_fail \<le> length ps \<and>
   (pmtud_next_index ps mx hard_max min_fail < length ps \<longrightarrow>
     (let p = unat (ps ! pmtud_next_index ps mx hard_max min_fail) in mx < p \<and> p \<le> hard_max \<and> p < min_fail))"
  by (induction ps) (auto simp: Let_def)

lemma first_probe_ok:
  "pmtud_first_probe ps mx hard_max \<le> length ps \<and>
   (pmtud_first_probe ps mx hard_max < length ps \<longrightarrow>
     (let p = unat (ps ! pmtud_first_probe ps mx hard_max) in mx < p \<and> p \<le> hard_max))"
  by (induction ps) (auto simp: Let_def)

lemma pmtud_new_inv:
  assumes "ngtcp2_pmtud_new ok mx hard_max tx_pkt_num probes = Ok pmtud"
  shows "pmtud_inv pmtud 0 \<and> pm_hard_max_udp_payload_size pmtud = hard_max"
proof -
  define ps where "ps = (if probes \<noteq> [] then probes else pmtud_default_probes)"
  have "unat (p :: u16) < SIZE_MAX" for p using unsigned_less [of p, where ?'a = nat] by simp
  then show ?thesis using assms first_probe_ok [of ps mx hard_max] unfolding ngtcp2_pmtud_new_def ps_def [symmetric]
    by (auto simp: Let_def pmtud_inv_def pmtud_probe_ok_def split: if_splits)
qed

lemma next_probe_inv:
  assumes "pm_mtu_idx pmtud < length (pm_probes pmtud)" "n \<le> 3 * pm_mtu_idx pmtud + 3"
  shows "\<exists>pmtud'. pmtud_next_probe pmtud = Ok pmtud' \<and> pmtud_inv pmtud' n \<and> pm_probes pmtud' = pm_probes pmtud \<and>
    pm_hard_max_udp_payload_size pmtud' = pm_hard_max_udp_payload_size pmtud"
proof -
  let ?i = "pm_mtu_idx pmtud + 1"
  let ?k = "pmtud_next_index (drop ?i (pm_probes pmtud)) (pm_max_udp_payload_size pmtud) (pm_hard_max_udp_payload_size pmtud)
    (pm_min_fail_udp_payload_size pmtud)"
  have "?i + ?k \<le> length (pm_probes pmtud)"
    using next_index_ok [of "drop ?i (pm_probes pmtud)"] assms(1) by (metis Nat.le_diff_conv2 Suc_eq_plus1 Suc_leI add.commute length_drop)
  then show ?thesis using assms next_index_ok [of "drop ?i (pm_probes pmtud)"]
    by (auto simp: pmtud_next_probe_def Let_def pmtud_inv_def pmtud_probe_ok_def)
qed

lemma probe_sent_inv:
  assumes inv: "pmtud_inv pmtud n" and g: "\<not> ngtcp2_pmtud_finished pmtud" "ngtcp2_pmtud_require_probe pmtud"
    and ts: "unat ts + 3 * unat pto < 2 ^ 64 - 1"
  shows "pmtud_inv (ngtcp2_pmtud_probe_sent pmtud pto ts) (Suc n)"
proof -
  have "unat (3 * pto) = 3 * unat pto" using ts by (simp add: unat_word_ariths)
  then have "unat (ts + 3 * pto) < 2 ^ 64 - 1" using ts by (simp add: unat_word_ariths)
  then have "ts + 3 * pto \<noteq> - 1" by (auto simp: unsigned_minus_1_eq_mask mask_eq_exp_minus_1)
  moreover have "pm_num_pkts_sent pmtud \<noteq> 3" using inv g(2) by (auto simp: pmtud_inv_def ngtcp2_pmtud_require_probe_def)
  ultimately show ?thesis using inv g
    by (auto simp: pmtud_inv_def ngtcp2_pmtud_probe_sent_def Let_def pmtud_probe_ok_def ngtcp2_pmtud_finished_def)
qed

lemma probe_success_inv:
  assumes "pmtud_inv pmtud n" "\<not> ngtcp2_pmtud_finished pmtud"
  shows "\<exists>pmtud'. ngtcp2_pmtud_probe_success pmtud payloadlen = Ok pmtud' \<and> pmtud_inv pmtud' n \<and> pm_probes pmtud' = pm_probes pmtud \<and>
    pm_hard_max_udp_payload_size pmtud' = pm_hard_max_udp_payload_size pmtud"
  using assms next_probe_inv [of "pmtud\<lparr>pm_max_udp_payload_size := max (pm_max_udp_payload_size pmtud) payloadlen\<rparr>" n]
  by (auto simp: ngtcp2_pmtud_probe_success_def Let_def pmtud_inv_def pmtud_probe_ok_def ngtcp2_pmtud_finished_def)

lemma handle_expiry_inv:
  assumes "pmtud_inv pmtud n"
  shows "\<exists>pmtud'. ngtcp2_pmtud_handle_expiry pmtud ts = Ok pmtud' \<and> pmtud_inv pmtud' n \<and> pm_probes pmtud' = pm_probes pmtud \<and>
    pm_hard_max_udp_payload_size pmtud' = pm_hard_max_udp_payload_size pmtud"
proof (cases "ts < pm_expiry pmtud \<or> pm_num_pkts_sent pmtud < 3")
  case True
  then show ?thesis using assms by (auto simp: ngtcp2_pmtud_handle_expiry_def Let_def pmtud_inv_def pmtud_probe_ok_def split: if_splits)
next
  case False
  let ?pmtud = "pmtud\<lparr>pm_expiry := - 1, pm_min_fail_udp_payload_size :=
    min (pm_min_fail_udp_payload_size pmtud) (unat (pm_probes pmtud ! pm_mtu_idx pmtud))\<rparr>"
  have i: "pm_mtu_idx pmtud < length (pm_probes pmtud)" "n \<le> 3 * pm_mtu_idx pmtud + 3"
    using assms False by (auto simp: pmtud_inv_def split: if_splits)
  have "ngtcp2_pmtud_handle_expiry pmtud ts = pmtud_next_probe ?pmtud"
    using False i by (simp add: ngtcp2_pmtud_handle_expiry_def Let_def)
  then show ?thesis using next_probe_inv [of ?pmtud n] i by simp
qed

lemma pmtud_run_inv:
  assumes "pmtud_run pmtud0 n pmtud" "pmtud_inv pmtud0 0"
  shows "pmtud_inv pmtud n \<and> pm_probes pmtud = pm_probes pmtud0 \<and>
    pm_hard_max_udp_payload_size pmtud = pm_hard_max_udp_payload_size pmtud0"
  using assms
proof induction
  case (sent n pmtud ts pto)
  then show ?case using probe_sent_inv [of pmtud n ts pto] by (simp add: ngtcp2_pmtud_probe_sent_def Let_def)
next
  case (success n pmtud payloadlen pmtud')
  then show ?case using probe_success_inv [of pmtud n payloadlen] by auto
next
  case (expiry n pmtud ts pmtud')
  then show ?case using handle_expiry_inv [of pmtud n ts] by auto
qed simp

section \<open>Properties\<close>

text \<open>
  C21: The discovery of the path MTU ends: at most three packets are sent for each size, and no size is tried again. While it is not finished,
  the size to probe is larger than every size known to work, smaller than every size known to fail, and not above the hard limit. No
  operation fails an assertion or reads behind the array of sizes.
\<close>

theorem pmtud_bounded:
  assumes "ngtcp2_pmtud_new ok mx hard_max tx_pkt_num probes = Ok pmtud0" "pmtud_run pmtud0 n pmtud"
  shows "n \<le> 3 * length (pm_probes pmtud0) \<and> ngtcp2_pmtud_handle_expiry pmtud ts \<noteq> Fault \<and>
    (ngtcp2_pmtud_finished pmtud \<or>
      (\<exists>p. ngtcp2_pmtud_probelen pmtud = Ok p \<and> pm_max_udp_payload_size pmtud < p \<and> p \<le> hard_max \<and>
         p < pm_min_fail_udp_payload_size pmtud) \<and>
      ngtcp2_pmtud_probe_success pmtud payloadlen \<noteq> Fault)"
proof -
  have inv: "pmtud_inv pmtud n" "pm_probes pmtud = pm_probes pmtud0" "pm_hard_max_udp_payload_size pmtud = hard_max"
    using pmtud_run_inv [OF assms(2)] pmtud_new_inv [OF assms(1)] by simp_all
  have "n \<le> 3 * length (pm_probes pmtud)"
    using inv(1) unfolding pmtud_inv_def by (cases "pm_mtu_idx pmtud < length (pm_probes pmtud)") auto
  moreover have "ngtcp2_pmtud_handle_expiry pmtud ts \<noteq> Fault" using handle_expiry_inv [OF inv(1), of ts] by auto
  moreover have "ngtcp2_pmtud_probe_success pmtud payloadlen \<noteq> Fault" if "\<not> ngtcp2_pmtud_finished pmtud"
    using probe_success_inv [OF inv(1) that, of payloadlen] by auto
  ultimately show ?thesis
    using inv by (auto simp: ngtcp2_pmtud_finished_def ngtcp2_pmtud_probelen_def pmtud_inv_def pmtud_probe_ok_def Let_def)
qed

definition ex_pmtud :: ngtcp2_pmtud where
  "ex_pmtud = \<lparr>pm_mtu_idx = 0, pm_num_pkts_sent = 0, pm_expiry = - 1, pm_tx_pkt_num = 0, pm_max_udp_payload_size = 1200,
     pm_hard_max_udp_payload_size = 1500, pm_min_fail_udp_payload_size = SIZE_MAX, pm_probes = pmtud_default_probes\<rparr>"

theorem pmtud_bounded_witness:
  "ngtcp2_pmtud_new True 1200 1500 0 [] = Ok ex_pmtud \<and> pmtud_run ex_pmtud 1 (ngtcp2_pmtud_probe_sent ex_pmtud 10 5) \<and>
   (1 :: nat) \<le> 3 * length (pm_probes ex_pmtud) \<and> ngtcp2_pmtud_handle_expiry (ngtcp2_pmtud_probe_sent ex_pmtud 10 5) 20 \<noteq> Fault"
proof -
  have n: "ngtcp2_pmtud_new True 1200 1500 0 [] = Ok ex_pmtud" by (simp add: ex_pmtud_def ngtcp2_pmtud_new_def pmtud_default_probes_def)
  have g: "\<not> ngtcp2_pmtud_finished ex_pmtud" "ngtcp2_pmtud_require_probe ex_pmtud" by (simp_all add: ex_pmtud_def pmtud_default_probes_def ngtcp2_pmtud_finished_def ngtcp2_pmtud_require_probe_def)
  have "pmtud_run ex_pmtud (Suc 0) (ngtcp2_pmtud_probe_sent ex_pmtud 10 5)" by (rule pmtud_run.sent [OF pmtud_run.start g]) simp
  then show ?thesis using pmtud_bounded [OF n, of 1 "ngtcp2_pmtud_probe_sent ex_pmtud 10 5" 20] n by simp
qed

end
