(* ===== verification/Window_Filter.thy ===== *)
theory Window_Filter
  imports Prelude
begin

text \<open>
  \<open>lib/ngtcp2_window_filter.c\<close>: the windowed maximum filter of the BBR congestion controller. The array of three estimates is three fields.
\<close>

section \<open>Operations\<close>

record ngtcp2_window_filter_sample =
  wf_sample :: u64
  wf_time :: u64

record ngtcp2_window_filter =
  wf_window_length :: u64
  wf_est0 :: ngtcp2_window_filter_sample
  wf_est1 :: ngtcp2_window_filter_sample
  wf_est2 :: ngtcp2_window_filter_sample

definition ngtcp2_window_filter_init :: "u64 \<Rightarrow> ngtcp2_window_filter" where
  "ngtcp2_window_filter_init window_length =
     (let e = \<lparr>wf_sample = - 1, wf_time = - 1\<rparr> in
      \<lparr>wf_window_length = window_length, wf_est0 = e, wf_est1 = e, wf_est2 = e\<rparr>)"

definition ngtcp2_window_filter_reset :: "ngtcp2_window_filter \<Rightarrow> u64 \<Rightarrow> u64 \<Rightarrow> ngtcp2_window_filter" where
  "ngtcp2_window_filter_reset flt new_sample new_time =
     (let e = \<lparr>wf_sample = new_sample, wf_time = new_time\<rparr> in flt\<lparr>wf_est0 := e, wf_est1 := e, wf_est2 := e\<rparr>)"

definition ngtcp2_window_filter_update :: "ngtcp2_window_filter \<Rightarrow> u64 \<Rightarrow> u64 \<Rightarrow> ngtcp2_window_filter" where
  "ngtcp2_window_filter_update flt new_sample new_time =
    (let new = \<lparr>wf_sample = new_sample, wf_time = new_time\<rparr> in
     if wf_sample (wf_est0 flt) = - 1 \<or> new_sample > wf_sample (wf_est0 flt) \<or>
        new_time - wf_time (wf_est2 flt) > wf_window_length flt
     then ngtcp2_window_filter_reset flt new_sample new_time
     else
     let flt = (if new_sample > wf_sample (wf_est1 flt) then flt\<lparr>wf_est1 := new, wf_est2 := new\<rparr>
               else if new_sample > wf_sample (wf_est2 flt) then flt\<lparr>wf_est2 := new\<rparr>
               else flt) in
     if new_time - wf_time (wf_est0 flt) > wf_window_length flt then
       let flt = flt\<lparr>wf_est0 := wf_est1 flt, wf_est1 := wf_est2 flt, wf_est2 := new\<rparr> in
       if new_time - wf_time (wf_est0 flt) > wf_window_length flt
       then flt\<lparr>wf_est0 := wf_est1 flt, wf_est1 := wf_est2 flt\<rparr>
       else flt
     else if wf_sample (wf_est1 flt) = wf_sample (wf_est0 flt) \<and>
        new_time - wf_time (wf_est1 flt) > drop_bit 2 (wf_window_length flt)
     then flt\<lparr>wf_est2 := new, wf_est1 := new\<rparr>
     else if wf_sample (wf_est2 flt) = wf_sample (wf_est1 flt) \<and>
        new_time - wf_time (wf_est2 flt) > drop_bit 1 (wf_window_length flt)
     then flt\<lparr>wf_est2 := new\<rparr>
     else flt)"

definition ngtcp2_window_filter_get_best :: "ngtcp2_window_filter \<Rightarrow> u64" where
  "ngtcp2_window_filter_get_best flt = wf_sample (wf_est0 flt)"

section \<open>The maximum of a window\<close>

text \<open>The filter after a sequence of samples with their times, and the sequences whose times do not decrease.\<close>

definition wf_run :: "u64 \<Rightarrow> (u64 \<times> u64) list \<Rightarrow> ngtcp2_window_filter" where
  "wf_run window_length hist =
     foldl (\<lambda>flt (s, t). ngtcp2_window_filter_update flt s t) (ngtcp2_window_filter_init window_length) hist"

text \<open>An estimate is a sample of the history, at most one window old, and no later sample is larger.\<close>

definition est_ok :: "(u64 \<times> u64) list \<Rightarrow> ngtcp2_window_filter_sample \<Rightarrow> bool" where
  "est_ok hist e = ((wf_sample e, wf_time e) \<in> set hist \<and> (\<forall>(s, t) \<in> set hist. t > wf_time e \<longrightarrow> s \<le> wf_sample e))"

definition wf_ok :: "(u64 \<times> u64) list \<Rightarrow> u64 \<Rightarrow> u64 \<Rightarrow> ngtcp2_window_filter \<Rightarrow> bool" where
  "wf_ok hist now wl flt =
     (wf_window_length flt = wl \<and> est_ok hist (wf_est0 flt) \<and> est_ok hist (wf_est1 flt) \<and> est_ok hist (wf_est2 flt) \<and>
      wf_time (wf_est0 flt) \<le> wf_time (wf_est1 flt) \<and> wf_time (wf_est1 flt) \<le> wf_time (wf_est2 flt) \<and> wf_time (wf_est2 flt) \<le> now \<and>
      wf_sample (wf_est1 flt) \<le> wf_sample (wf_est0 flt) \<and> wf_sample (wf_est2 flt) \<le> wf_sample (wf_est1 flt) \<and>
      now - wf_time (wf_est0 flt) \<le> wl \<and> fst (last hist) \<le> wf_sample (wf_est2 flt))"

lemma est_ok_new:
  assumes "\<forall>(s, t) \<in> set hist. t \<le> now"
  shows "est_ok (hist @ [(s, now)]) \<lparr>wf_sample = s, wf_time = now\<rparr>"
  using assms by (auto simp: est_ok_def)

lemma est_ok_old: "est_ok hist e \<Longrightarrow> s \<le> wf_sample e \<Longrightarrow> est_ok (hist @ [(s, now)]) e"
  by (auto simp: est_ok_def)

lemma elapsed_mono: "a \<le> b \<Longrightarrow> b \<le> (now :: u64) \<Longrightarrow> now - b \<le> now - a"
  by (simp add: word_le_nat_alt unat_sub)

lemma wf_ok_reset:
  "\<forall>(s, t) \<in> set hist. t \<le> now \<Longrightarrow> wf_window_length flt = wl \<Longrightarrow> wf_ok (hist @ [(s, now)]) now wl (ngtcp2_window_filter_reset flt s now)"
  by (simp add: wf_ok_def ngtcp2_window_filter_reset_def Let_def est_ok_new)

lemma wf_ok_update:
  assumes ok: "wf_ok hist t wl flt" and t: "t \<le> now" "\<forall>(s, t) \<in> set hist. t \<le> now"
  shows "wf_ok (hist @ [(s, now)]) now wl (ngtcp2_window_filter_update flt s now)"
proof -
  note defs = ngtcp2_window_filter_update_def Let_def
  have wl: "wf_window_length flt = wl" using ok by (simp add: wf_ok_def)
  show ?thesis
  proof (cases "wf_sample (wf_est0 flt) = - 1 \<or> s > wf_sample (wf_est0 flt) \<or> now - wf_time (wf_est2 flt) > wl")
    case True
    then show ?thesis using wf_ok_reset [OF t(2) wl, of s] by (simp add: defs wl)
  next
    case False
    let ?new = "\<lparr>wf_sample = s, wf_time = now\<rparr>"
    define flt' where "flt' = (if s > wf_sample (wf_est1 flt) then flt\<lparr>wf_est1 := ?new, wf_est2 := ?new\<rparr>
               else if s > wf_sample (wf_est2 flt) then flt\<lparr>wf_est2 := ?new\<rparr> else flt)"
    have new: "est_ok (hist @ [(s, now)]) ?new" by (rule est_ok_new [OF t(2)])
    have e: "wf_window_length flt' = wl" "est_ok (hist @ [(s, now)]) (wf_est0 flt')" "est_ok (hist @ [(s, now)]) (wf_est1 flt')"
      "est_ok (hist @ [(s, now)]) (wf_est2 flt')" "wf_time (wf_est0 flt') \<le> wf_time (wf_est1 flt')" "wf_time (wf_est1 flt') \<le> wf_time (wf_est2 flt')"
      "wf_time (wf_est2 flt') \<le> now" "wf_sample (wf_est1 flt') \<le> wf_sample (wf_est0 flt')" "wf_sample (wf_est2 flt') \<le> wf_sample (wf_est1 flt')"
      "s \<le> wf_sample (wf_est2 flt')" "now - wf_time (wf_est2 flt') \<le> wl"
      using ok t(1) False new est_ok_old [of hist _ s now] by (auto simp: flt'_def wf_ok_def)
    have u: "ngtcp2_window_filter_update flt s now =
      (if now - wf_time (wf_est0 flt') > wl then
         if now - wf_time (wf_est1 flt') > wl then flt'\<lparr>wf_est0 := wf_est2 flt', wf_est1 := ?new, wf_est2 := ?new\<rparr>
         else flt'\<lparr>wf_est0 := wf_est1 flt', wf_est1 := wf_est2 flt', wf_est2 := ?new\<rparr>
       else if wf_sample (wf_est1 flt') = wf_sample (wf_est0 flt') \<and> now - wf_time (wf_est1 flt') > drop_bit 2 wl
       then flt'\<lparr>wf_est1 := ?new, wf_est2 := ?new\<rparr>
       else if wf_sample (wf_est2 flt') = wf_sample (wf_est1 flt') \<and> now - wf_time (wf_est2 flt') > drop_bit 1 wl
       then flt'\<lparr>wf_est2 := ?new\<rparr> else flt')"
      using False e(1) unfolding ngtcp2_window_filter_update_def Let_def flt'_def [symmetric] wl by simp
    show ?thesis unfolding u using e new by (auto simp: wf_ok_def)
  qed
qed

lemma sorted_last: "sorted (map snd (hist @ [(s, now)])) \<Longrightarrow> \<forall>(s, t) \<in> set hist. t \<le> now"
  by (auto simp: sorted_append)

lemma wf_run_ok:
  "sorted (map snd hist) \<Longrightarrow> hist \<noteq> [] \<Longrightarrow> wf_ok hist (snd (last hist)) wl (wf_run wl hist)"
proof (induction hist rule: rev_induct)
  case (snoc x hist)
  obtain s now where x: "x = (s, now)" by (cases x)
  have t: "\<forall>(s, t) \<in> set hist. t \<le> now" using snoc.prems(1) sorted_last [of hist s now] by (simp add: x)
  have r: "wf_run wl (hist @ [x]) = ngtcp2_window_filter_update (wf_run wl hist) s now" by (simp add: wf_run_def x)
  show ?case
  proof (cases "hist = []")
    case True
    have "wf_run wl (hist @ [x]) = ngtcp2_window_filter_reset (ngtcp2_window_filter_init wl) s now"
      by (simp add: r True x wf_run_def ngtcp2_window_filter_update_def ngtcp2_window_filter_init_def Let_def)
    then show ?thesis using wf_ok_reset [of hist now "ngtcp2_window_filter_init wl" wl s] t
      by (simp add: x ngtcp2_window_filter_init_def Let_def)
  next
    case False
    then have "snd (last hist) \<le> now" using t last_in_set [OF False] by (cases "last hist") auto
    then show ?thesis using wf_ok_update [OF snoc.IH _ t] snoc.prems(1) False unfolding r by (simp add: x sorted_append)
  qed
qed simp

text \<open>
  After any sequence of samples whose times do not decrease, the best estimate is a sample that is at most one window old, and no
  sample taken after it is larger; in particular it is not below the latest one.
\<close>

theorem window_filter_max:
  assumes "sorted (map snd (hist @ [(s, now)]))"
  shows "\<exists>t. (ngtcp2_window_filter_get_best (wf_run wl (hist @ [(s, now)])), t) \<in> set (hist @ [(s, now)]) \<and> t \<le> now \<and> now - t \<le> wl \<and>
    s \<le> ngtcp2_window_filter_get_best (wf_run wl (hist @ [(s, now)])) \<and>
    (\<forall>(s', t') \<in> set hist. t' > t \<longrightarrow> s' \<le> ngtcp2_window_filter_get_best (wf_run wl (hist @ [(s, now)])))"
proof -
  let ?w = "wf_run wl (hist @ [(s, now)])"
  have ok: "wf_ok (hist @ [(s, now)]) now wl ?w" using wf_run_ok [OF assms, of wl] by simp
  then have "s \<le> wf_sample (wf_est0 ?w)" unfolding wf_ok_def by (auto intro: order.trans)
  then show ?thesis using ok unfolding wf_ok_def est_ok_def ngtcp2_window_filter_get_best_def
    by (intro exI [of _ "wf_time (wf_est0 ?w)"]) auto
qed

theorem window_filter_max_witness:
  "ngtcp2_window_filter_get_best (wf_run 10 [(5, 1), (9, 2), (3, 8), (4, 13)]) \<ge> 4"
  using window_filter_max [of "[(5, 1), (9, 2), (3, 8)]" 4 13 10] by auto

end
