(* ===== verification/Cid.thy ===== *)
theory Cid
  imports Transport_Params
begin

text \<open>
  Addresses, paths and connection IDs: \<open>lib/ngtcp2_addr.c\<close>, \<open>lib/ngtcp2_path.c\<close> and \<open>lib/ngtcp2_cid.c\<close>. The storage of an address holds an
  IPv4 or an IPv6 address. A copy into a structure has the destination as an argument, since some of its fields can keep their value:
  the storage of an address of length zero, and a token that is not present.
\<close>

section \<open>Addresses\<close>

record ngtcp2_addr =
  ad_addr :: ngtcp2_sockaddr_in
  ad_addrlen :: nat

definition ngtcp2_addr_init :: "ngtcp2_sockaddr_in \<Rightarrow> nat \<Rightarrow> ngtcp2_addr" where
  "ngtcp2_addr_init addr addrlen = \<lparr>ad_addr = addr, ad_addrlen = addrlen\<rparr>"

definition ngtcp2_addr_copy :: "ngtcp2_addr \<Rightarrow> ngtcp2_addr \<Rightarrow> ngtcp2_addr" where
  "ngtcp2_addr_copy dest src =
     (let dest = dest\<lparr>ad_addrlen := ad_addrlen src\<rparr> in if ad_addrlen src \<noteq> 0 then dest\<lparr>ad_addr := ad_addr src\<rparr> else dest)"

definition ngtcp2_addr_copy_byte :: "ngtcp2_addr \<Rightarrow> ngtcp2_sockaddr_in \<Rightarrow> nat \<Rightarrow> ngtcp2_addr" where
  "ngtcp2_addr_copy_byte dest addr addrlen =
     (let dest = dest\<lparr>ad_addrlen := addrlen\<rparr> in if addrlen \<noteq> 0 then dest\<lparr>ad_addr := addr\<rparr> else dest)"

text \<open>The default of the switch is unreachable code.\<close>

definition ngtcp2_sockaddr_eq :: "ngtcp2_sockaddr_in \<Rightarrow> ngtcp2_sockaddr_in \<Rightarrow> bool res" where
  "ngtcp2_sockaddr_eq a b =
    (if sin_family a \<noteq> sin_family b then Ok False else
     case sin_family a of
       NGTCP2_AF_INET \<Rightarrow> Ok (sin_port a = sin_port b \<and> sin_addr a = sin_addr b)
     | NGTCP2_AF_INET6 \<Rightarrow> Ok (sin_port a = sin_port b \<and> sin_addr a = sin_addr b)
     | AF_UNSPEC \<Rightarrow> Fault)"

definition ngtcp2_addr_eq :: "ngtcp2_addr \<Rightarrow> ngtcp2_addr \<Rightarrow> bool res" where
  "ngtcp2_addr_eq a b = ngtcp2_sockaddr_eq (ad_addr a) (ad_addr b)"

abbreviation (input) "NGTCP2_ADDR_CMP_FLAG_NONE \<equiv> 0x0 :: u32"
abbreviation (input) "NGTCP2_ADDR_CMP_FLAG_ADDR \<equiv> 0x1 :: u32"
abbreviation (input) "NGTCP2_ADDR_CMP_FLAG_PORT \<equiv> 0x2 :: u32"
abbreviation (input) "NGTCP2_ADDR_CMP_FLAG_FAMILY \<equiv> 0x4 :: u32"

definition sockaddr_cmp_flags :: "ngtcp2_sockaddr_in \<Rightarrow> ngtcp2_sockaddr_in \<Rightarrow> u32" where
  "sockaddr_cmp_flags a b =
     (if sin_addr a \<noteq> sin_addr b then NGTCP2_ADDR_CMP_FLAG_ADDR else NGTCP2_ADDR_CMP_FLAG_NONE) OR
     (if sin_port a \<noteq> sin_port b then NGTCP2_ADDR_CMP_FLAG_PORT else NGTCP2_ADDR_CMP_FLAG_NONE)"

definition ngtcp2_addr_cmp :: "ngtcp2_addr \<Rightarrow> ngtcp2_addr \<Rightarrow> u32 res" where
  "ngtcp2_addr_cmp aa bb =
    (let a = ad_addr aa; b = ad_addr bb in
     if sin_family a \<noteq> sin_family b then Ok NGTCP2_ADDR_CMP_FLAG_FAMILY else
     case sin_family a of
       NGTCP2_AF_INET \<Rightarrow> Ok (sockaddr_cmp_flags a b)
     | NGTCP2_AF_INET6 \<Rightarrow> Ok (sockaddr_cmp_flags a b)
     | AF_UNSPEC \<Rightarrow> Fault)"

definition ngtcp2_addr_empty :: "ngtcp2_addr \<Rightarrow> bool" where
  "ngtcp2_addr_empty addr = (ad_addrlen addr = 0)"

section \<open>Paths\<close>

record ngtcp2_path =
  path_local :: ngtcp2_addr
  path_remote :: ngtcp2_addr
  path_user_data :: nat

definition ngtcp2_path_copy :: "ngtcp2_path \<Rightarrow> ngtcp2_path \<Rightarrow> ngtcp2_path" where
  "ngtcp2_path_copy dest src =
     \<lparr>path_local = ngtcp2_addr_copy (path_local dest) (path_local src),
      path_remote = ngtcp2_addr_copy (path_remote dest) (path_remote src), path_user_data = path_user_data src\<rparr>"

definition ngtcp2_path_eq :: "ngtcp2_path \<Rightarrow> ngtcp2_path \<Rightarrow> bool res" where
  "ngtcp2_path_eq a b =
     bindR (ngtcp2_addr_eq (path_local a) (path_local b)) (\<lambda>l.
     if l then ngtcp2_addr_eq (path_remote a) (path_remote b) else Ok False)"

definition ngtcp2_path_storage_zero :: "ngtcp2_path \<Rightarrow> ngtcp2_path" where
  "ngtcp2_path_storage_zero ps =
     \<lparr>path_local = (path_local ps)\<lparr>ad_addrlen := 0\<rparr>, path_remote = (path_remote ps)\<lparr>ad_addrlen := 0\<rparr>, path_user_data = 0\<rparr>"

definition ngtcp2_path_storage_init ::
    "ngtcp2_path \<Rightarrow> ngtcp2_sockaddr_in \<Rightarrow> nat \<Rightarrow> ngtcp2_sockaddr_in \<Rightarrow> nat \<Rightarrow> nat \<Rightarrow> ngtcp2_path" where
  "ngtcp2_path_storage_init ps local_addr local_addrlen remote_addr remote_addrlen user_data =
     (let ps = ps\<lparr>path_local := (path_local ps)\<lparr>ad_addrlen := 0\<rparr>, path_remote := (path_remote ps)\<lparr>ad_addrlen := 0\<rparr>\<rparr> in
      \<lparr>path_local = ngtcp2_addr_copy_byte (path_local ps) local_addr local_addrlen,
       path_remote = ngtcp2_addr_copy_byte (path_remote ps) remote_addr remote_addrlen, path_user_data = user_data\<rparr>)"

definition ngtcp2_path_storage_init2 :: "ngtcp2_path \<Rightarrow> ngtcp2_path \<Rightarrow> ngtcp2_path" where
  "ngtcp2_path_storage_init2 ps path =
     ngtcp2_path_storage_init ps (ad_addr (path_local path)) (ad_addrlen (path_local path)) (ad_addr (path_remote path))
       (ad_addrlen (path_remote path)) (path_user_data path)"

section \<open>Connection IDs\<close>

definition ngtcp2_cid_zero :: ngtcp2_cid where
  "ngtcp2_cid_zero = []"

definition ngtcp2_cid_eq :: "ngtcp2_cid \<Rightarrow> ngtcp2_cid \<Rightarrow> bool" where
  "ngtcp2_cid_eq cid other = (length cid = length other \<and> take (length cid) cid = take (length cid) other)"

text \<open>\<open>memcmp\<close> on the first \<open>n\<close> bytes, as an integer.\<close>

fun mem_cmp :: "u8 list \<Rightarrow> u8 list \<Rightarrow> nat \<Rightarrow> int" where
  "mem_cmp (x # xs) (y # ys) (Suc n) = (if x = y then mem_cmp xs ys n else if x < y then - 1 else 1)"
| "mem_cmp _ _ _ = 0"

definition ngtcp2_cid_less :: "ngtcp2_cid \<Rightarrow> ngtcp2_cid \<Rightarrow> bool" where
  "ngtcp2_cid_less lhs rhs =
     (let s = (length lhs < length rhs); n = (if s then length lhs else length rhs); c = mem_cmp lhs rhs n in
      c < 0 \<or> (c = 0 \<and> s))"

definition ngtcp2_cid_empty :: "ngtcp2_cid \<Rightarrow> bool" where
  "ngtcp2_cid_empty cid = (length cid = 0)"

record ngtcp2_dcid =
  dc_seq :: u64
  dc_cid :: ngtcp2_cid
  dc_ps :: ngtcp2_path
  dc_retired_ts :: u64
  dc_bound_ts :: u64
  dc_bytes_sent :: u64
  dc_bytes_recv :: u64
  dc_max_udp_payload_size :: nat
  dc_flags :: u8
  dc_token :: "u8 list"

abbreviation (input) "NGTCP2_DCID_FLAG_NONE \<equiv> 0x00 :: u8"
abbreviation (input) "NGTCP2_DCID_FLAG_PATH_VALIDATED \<equiv> 0x01 :: u8"
abbreviation (input) "NGTCP2_DCID_FLAG_TOKEN_PRESENT \<equiv> 0x02 :: u8"

definition token_present :: "ngtcp2_dcid \<Rightarrow> bool" where
  "token_present dcid = (dc_flags dcid AND NGTCP2_DCID_FLAG_TOKEN_PRESENT \<noteq> 0)"

definition ngtcp2_dcid_init :: "ngtcp2_dcid \<Rightarrow> u64 \<Rightarrow> ngtcp2_cid \<Rightarrow> u8 list option \<Rightarrow> ngtcp2_dcid" where
  "ngtcp2_dcid_init dcid seq cid token =
    (let dcid = dcid\<lparr>dc_seq := seq, dc_cid := cid\<rparr>;
         dcid = (case token of
             Some token \<Rightarrow> dcid\<lparr>dc_token := token, dc_flags := NGTCP2_DCID_FLAG_TOKEN_PRESENT\<rparr>
           | None \<Rightarrow> dcid\<lparr>dc_flags := NGTCP2_DCID_FLAG_NONE\<rparr>) in
     dcid\<lparr>dc_ps := ngtcp2_path_storage_zero (dc_ps dcid), dc_retired_ts := - 1, dc_bound_ts := - 1, dc_bytes_sent := 0,
          dc_bytes_recv := 0, dc_max_udp_payload_size := 1200\<rparr>)"

definition ngtcp2_dcid_set_token :: "ngtcp2_dcid \<Rightarrow> u8 list \<Rightarrow> ngtcp2_dcid" where
  "ngtcp2_dcid_set_token dcid token =
     dcid\<lparr>dc_flags := dc_flags dcid OR NGTCP2_DCID_FLAG_TOKEN_PRESENT, dc_token := token\<rparr>"

definition ngtcp2_dcid_set_path :: "ngtcp2_dcid \<Rightarrow> ngtcp2_path \<Rightarrow> ngtcp2_dcid" where
  "ngtcp2_dcid_set_path dcid path = dcid\<lparr>dc_ps := ngtcp2_path_copy (dc_ps dcid) path\<rparr>"

definition ngtcp2_dcid_copy :: "ngtcp2_dcid \<Rightarrow> ngtcp2_dcid \<Rightarrow> ngtcp2_dcid" where
  "ngtcp2_dcid_copy dest src =
    (let dest = ngtcp2_dcid_init dest (dc_seq src) (dc_cid src) (if token_present src then Some (dc_token src) else None) in
     dest\<lparr>dc_ps := ngtcp2_path_copy (dc_ps dest) (dc_ps src), dc_retired_ts := dc_retired_ts src, dc_bound_ts := dc_bound_ts src,
          dc_flags := dc_flags src, dc_bytes_sent := dc_bytes_sent src, dc_bytes_recv := dc_bytes_recv src,
          dc_max_udp_payload_size := dc_max_udp_payload_size src\<rparr>)"

definition ngtcp2_dcid_copy_cid_token :: "ngtcp2_dcid \<Rightarrow> ngtcp2_dcid \<Rightarrow> ngtcp2_dcid" where
  "ngtcp2_dcid_copy_cid_token dest src =
    (let dest = dest\<lparr>dc_seq := dc_seq src, dc_cid := dc_cid src\<rparr> in
     if token_present src
     then dest\<lparr>dc_flags := dc_flags dest OR NGTCP2_DCID_FLAG_TOKEN_PRESENT, dc_token := dc_token src\<rparr>
     else if token_present dest then dest\<lparr>dc_flags := dc_flags dest AND NOT NGTCP2_DCID_FLAG_TOKEN_PRESENT\<rparr>
     else dest)"

definition ngtcp2_dcid_verify_uniqueness :: "ngtcp2_dcid \<Rightarrow> u64 \<Rightarrow> ngtcp2_cid \<Rightarrow> u8 list \<Rightarrow> unit res" where
  "ngtcp2_dcid_verify_uniqueness dcid seq cid token =
    (if dc_seq dcid = seq then
       (if ngtcp2_cid_eq (dc_cid dcid) cid \<and> token_present dcid \<and> dc_token dcid = token then Ok () else Err NGTCP2_ERR_PROTO)
     else if \<not> ngtcp2_cid_eq (dc_cid dcid) cid then Ok () else Err NGTCP2_ERR_PROTO)"

definition ngtcp2_dcid_verify_stateless_reset_token :: "ngtcp2_dcid \<Rightarrow> ngtcp2_path \<Rightarrow> u8 list \<Rightarrow> unit res" where
  "ngtcp2_dcid_verify_stateless_reset_token dcid path token =
     bindR (ngtcp2_path_eq (dc_ps dcid) path) (\<lambda>eq.
     if eq \<and> token_present dcid \<and> dc_token dcid = token then Ok () else Err NGTCP2_ERR_INVALID_ARGUMENT)"

section \<open>Facts\<close>

lemma cid_eq_iff [simp]: "ngtcp2_cid_eq a b \<longleftrightarrow> a = b"
  by (auto simp: ngtcp2_cid_eq_def)

text \<open>An address with a family and a path of such addresses can be compared with anything.\<close>

definition path_specified :: "ngtcp2_path \<Rightarrow> bool" where
  "path_specified p =
     (sin_family (ad_addr (path_local p)) \<noteq> AF_UNSPEC \<and> sin_family (ad_addr (path_remote p)) \<noteq> AF_UNSPEC)"

definition same_path :: "ngtcp2_path \<Rightarrow> ngtcp2_path \<Rightarrow> bool" where
  "same_path a b = (ad_addr (path_local a) = ad_addr (path_local b) \<and> ad_addr (path_remote a) = ad_addr (path_remote b))"

lemma sockaddr_eq_iff: "sin_family b \<noteq> AF_UNSPEC \<Longrightarrow> ngtcp2_sockaddr_eq a b = Ok (a = b)"
  by (cases a; cases b) (auto simp: ngtcp2_sockaddr_eq_def split: sa_family.splits)

lemma path_eq_iff: "path_specified b \<Longrightarrow> ngtcp2_path_eq a b = Ok (same_path a b)"
  by (auto simp: ngtcp2_path_eq_def ngtcp2_addr_eq_def path_specified_def same_path_def sockaddr_eq_iff)

lemma addr_cmp_zero:
  "sin_family (ad_addr b) \<noteq> AF_UNSPEC \<Longrightarrow> \<exists>flags. ngtcp2_addr_cmp a b = Ok flags \<and> (flags = 0 \<longleftrightarrow> ad_addr a = ad_addr b)"
  by (cases "ad_addr a"; cases "ad_addr b")
    (auto simp: ngtcp2_addr_cmp_def sockaddr_cmp_flags_def Let_def split: sa_family.splits)

text \<open>The order of connection IDs is the lexicographic one.\<close>

lemma mem_cmp_lex:
  "ngtcp2_cid_less xs ys \<longleftrightarrow> (xs, ys) \<in> lexord {(a, b). a < b}"
  unfolding ngtcp2_cid_less_def Let_def
proof (induction xs arbitrary: ys)
  case (Cons x xs)
  show ?case
  proof (cases ys)
    case (Cons y zs)
    then show ?thesis using Cons.IH [of zs] by (cases "x = y"; cases "length xs < length zs") simp_all
  qed simp
qed (simp add: lexord_Nil_left neq_Nil_conv)

text \<open>What a connection ID means: the token when it is present, and the addresses of the path when they are.\<close>

definition addr_view :: "ngtcp2_addr \<Rightarrow> (ngtcp2_sockaddr_in \<times> nat) option" where
  "addr_view a = (if ad_addrlen a = 0 then None else Some (ad_addr a, ad_addrlen a))"

definition dcid_view :: "ngtcp2_dcid \<Rightarrow>
    u64 \<times> ngtcp2_cid \<times> u8 list option \<times> (ngtcp2_sockaddr_in \<times> nat) option \<times> (ngtcp2_sockaddr_in \<times> nat) option \<times> nat \<times> u64 \<times> u64 \<times> u64 \<times> u64 \<times> nat \<times> u8" where
  "dcid_view d = (dc_seq d, dc_cid d, if token_present d then Some (dc_token d) else None, addr_view (path_local (dc_ps d)),
     addr_view (path_remote (dc_ps d)), path_user_data (dc_ps d), dc_retired_ts d, dc_bound_ts d, dc_bytes_sent d, dc_bytes_recv d,
     dc_max_udp_payload_size d, dc_flags d)"

lemma addr_view_copy [simp]: "addr_view (ngtcp2_addr_copy dest src) = addr_view src"
  by (simp add: addr_view_def ngtcp2_addr_copy_def Let_def)

lemma dcid_copy_view [simp]: "dcid_view (ngtcp2_dcid_copy dest src) = dcid_view src"
  by (simp add: dcid_view_def ngtcp2_dcid_copy_def Let_def ngtcp2_dcid_init_def ngtcp2_path_copy_def token_present_def)

lemma dcid_copy_seq [simp]:
  "dc_seq (ngtcp2_dcid_copy dest src) = dc_seq src" "dc_cid (ngtcp2_dcid_copy dest src) = dc_cid src"
  "dc_bound_ts (ngtcp2_dcid_copy dest src) = dc_bound_ts src" "dc_retired_ts (ngtcp2_dcid_copy dest src) = dc_retired_ts src"
  "dc_flags (ngtcp2_dcid_copy dest src) = dc_flags src"
  "token_present src \<Longrightarrow> dc_token (ngtcp2_dcid_copy dest src) = dc_token src"
  by (simp_all add: ngtcp2_dcid_copy_def Let_def ngtcp2_dcid_init_def token_present_def split: option.splits)

lemma copy_cid_token_view:
  "token_present (ngtcp2_dcid_copy_cid_token dest src) = token_present src \<and>
   (token_present src \<longrightarrow> dc_token (ngtcp2_dcid_copy_cid_token dest src) = dc_token src) \<and>
   dc_seq (ngtcp2_dcid_copy_cid_token dest src) = dc_seq src \<and> dc_cid (ngtcp2_dcid_copy_cid_token dest src) = dc_cid src"
proof -
  have "(x OR 2) AND 2 \<noteq> 0" "x AND NOT 2 AND 2 = 0" for x :: u8 by (simp_all add: bit.conj_disj_distrib2 and.assoc)
  then show ?thesis by (auto simp: ngtcp2_dcid_copy_cid_token_def Let_def token_present_def and.assoc)
qed

end
