(* ===== verification/Dcidtr.thy ===== *)
theory Dcidtr
  imports Cid Ringbuf
begin

text \<open>
  \<open>lib/ngtcp2_dcidtr.c\<close>: the destination connection IDs that are not in use, bound to a path, or retired, in three ring buffers, and the
  sequence numbers whose retirement is not acknowledged. A callback gets the state of the application and the connection ID, and answers
  with a new state or an error. The static ring buffers start with storage that is zero.
\<close>

section \<open>Operations\<close>

record ngtcp2_dcidtr =
  dtr_unused :: "ngtcp2_dcid ngtcp2_ringbuf"
  dtr_bound :: "ngtcp2_dcid ngtcp2_ringbuf"
  dtr_retired :: "ngtcp2_dcid ngtcp2_ringbuf"
  dtr_retire_unacked :: "u64 list"

type_synonym 's dcidtr_cb = "'s \<Rightarrow> ngtcp2_dcid \<Rightarrow> 's res"

definition addr_none :: ngtcp2_addr where
  "addr_none = \<lparr>ad_addr = \<lparr>sin_family = AF_UNSPEC, sin_port = [0, 0], sin_addr = replicate 16 0\<rparr>, ad_addrlen = 0\<rparr>"

definition dcid_none :: ngtcp2_dcid where
  "dcid_none = \<lparr>dc_seq = 0, dc_cid = [], dc_ps = \<lparr>path_local = addr_none, path_remote = addr_none, path_user_data = 0\<rparr>,
     dc_retired_ts = 0, dc_bound_ts = 0, dc_bytes_sent = 0, dc_bytes_recv = 0, dc_max_udp_payload_size = 0, dc_flags = 0,
     dc_token = replicate 16 0\<rparr>"

definition ngtcp2_dcidtr_init :: "ngtcp2_dcidtr res" where
  "ngtcp2_dcidtr_init =
     bindR (ngtcp2_ringbuf_buf_init 8 (replicate 8 dcid_none)) (\<lambda>unused.
     bindR (ngtcp2_ringbuf_buf_init 4 (replicate 4 dcid_none)) (\<lambda>bound.
     bindR (ngtcp2_ringbuf_buf_init 2 (replicate 2 dcid_none)) (\<lambda>retired.
     Ok \<lparr>dtr_unused = unused, dtr_bound = bound, dtr_retired = retired, dtr_retire_unacked = []\<rparr>)))"

text \<open>The element at an index, \<open>push_back\<close> with an initialisation of the slot, and the number of elements.\<close>

definition rb_at :: "'a ngtcp2_ringbuf \<Rightarrow> nat \<Rightarrow> 'a res" where
  "rb_at rb i = bindR (ngtcp2_ringbuf_get rb (of_nat i)) (\<lambda>j. Ok (rb_buf rb ! j))"

definition rb_append :: "'a ngtcp2_ringbuf \<Rightarrow> ('a \<Rightarrow> 'a) \<Rightarrow> ('a ngtcp2_ringbuf \<times> 'a) res" where
  "rb_append rb f = bindR (ngtcp2_ringbuf_push_back rb) (\<lambda>(rb, j). Ok (rb_store rb j (f (rb_buf rb ! j)), f (rb_buf rb ! j)))"

definition rb_count :: "'a ngtcp2_ringbuf \<Rightarrow> nat" where
  "rb_count rb = unat (ngtcp2_ringbuf_len rb)"

definition ngtcp2_dcidtr_track_retired_seq :: "ngtcp2_dcidtr \<Rightarrow> u64 \<Rightarrow> ngtcp2_dcidtr res" where
  "ngtcp2_dcidtr_track_retired_seq dtr seq =
     (if length (dtr_retire_unacked dtr) \<ge> 16 then Err NGTCP2_ERR_CONNECTION_ID_LIMIT
      else Ok (dtr\<lparr>dtr_retire_unacked := dtr_retire_unacked dtr @ [seq]\<rparr>))"

text \<open>The sequence number is replaced by the last one.\<close>

fun untrack_seq :: "u64 list \<Rightarrow> u64 \<Rightarrow> u64 list" where
  "untrack_seq [] seq = []"
| "untrack_seq (s # seqs) seq =
    (if s \<noteq> seq then s # untrack_seq seqs seq
     else if seqs \<noteq> [] then last seqs # butlast seqs else [])"

definition ngtcp2_dcidtr_untrack_retired_seq :: "ngtcp2_dcidtr \<Rightarrow> u64 \<Rightarrow> ngtcp2_dcidtr" where
  "ngtcp2_dcidtr_untrack_retired_seq dtr seq = dtr\<lparr>dtr_retire_unacked := untrack_seq (dtr_retire_unacked dtr) seq\<rparr>"

definition ngtcp2_dcidtr_check_retired_seq_tracked :: "ngtcp2_dcidtr \<Rightarrow> u64 \<Rightarrow> bool" where
  "ngtcp2_dcidtr_check_retired_seq_tracked dtr seq = list_ex (\<lambda>s. s = seq) (dtr_retire_unacked dtr)"

definition dcidtr_on_retire :: "'s dcidtr_cb option \<Rightarrow> 's \<Rightarrow> ngtcp2_dcidtr \<Rightarrow> ngtcp2_dcid \<Rightarrow> ('s \<times> ngtcp2_dcidtr) res" where
  "dcidtr_on_retire on_retire st dtr dcid =
    (if ngtcp2_dcidtr_check_retired_seq_tracked dtr (dc_seq dcid) then Ok (st, dtr) else
     bindR (ngtcp2_dcidtr_track_retired_seq dtr (dc_seq dcid)) (\<lambda>dtr.
     case on_retire of None \<Rightarrow> Ok (st, dtr) | Some cb \<Rightarrow> bindR (cb st dcid) (\<lambda>st. Ok (st, dtr))))"

text \<open>The first element from index \<open>i\<close> on whose path is the one given, and its index.\<close>

function find_path :: "ngtcp2_dcid ngtcp2_ringbuf \<Rightarrow> ngtcp2_path \<Rightarrow> nat \<Rightarrow> (nat \<times> ngtcp2_dcid) option res" where
  "find_path rb path i =
    (if \<not> i < rb_count rb then Ok None else
     bindR (rb_at rb i) (\<lambda>dcid.
     bindR (ngtcp2_path_eq (dc_ps dcid) path) (\<lambda>eq.
     if eq then Ok (Some (i, dcid)) else find_path rb path (i + 1))))"
  by pat_completeness auto

termination find_path
  by (relation "measure (\<lambda>(rb, _, i). rb_count rb - i)") auto

declare find_path.simps [simp del]

definition ngtcp2_dcidtr_find_bound_dcid :: "ngtcp2_dcidtr \<Rightarrow> ngtcp2_path \<Rightarrow> ngtcp2_dcid option res" where
  "ngtcp2_dcidtr_find_bound_dcid dtr path = bindR (find_path (dtr_bound dtr) path 0) (\<lambda>r. Ok (map_option snd r))"

definition ngtcp2_dcidtr_bind_zerolen_dcid :: "ngtcp2_dcidtr \<Rightarrow> ngtcp2_path \<Rightarrow> (ngtcp2_dcidtr \<times> ngtcp2_dcid) res" where
  "ngtcp2_dcidtr_bind_zerolen_dcid dtr path =
     bindR (rb_append (dtr_bound dtr) (\<lambda>dcid. ngtcp2_dcid_set_path (ngtcp2_dcid_init dcid 0 ngtcp2_cid_zero None) path)) (\<lambda>(rb, dcid).
     Ok (dtr\<lparr>dtr_bound := rb\<rparr>, dcid))"

definition ngtcp2_dcidtr_bind_dcid ::
    "'s dcidtr_cb option \<Rightarrow> 's \<Rightarrow> ngtcp2_dcidtr \<Rightarrow> ngtcp2_path \<Rightarrow> u64 \<Rightarrow> ('s \<times> ngtcp2_dcidtr \<times> ngtcp2_dcid) res" where
  "ngtcp2_dcidtr_bind_dcid on_retire st dtr path ts =
     bindR (if ngtcp2_ringbuf_full (dtr_bound dtr)
            then bindR (rb_at (dtr_bound dtr) 0) (dcidtr_on_retire on_retire st dtr) else Ok (st, dtr)) (\<lambda>(st, dtr).
     bindR (rb_at (dtr_unused dtr) 0) (\<lambda>src.
     bindR (rb_append (dtr_bound dtr) (\<lambda>dest. ngtcp2_dcid_set_path ((ngtcp2_dcid_copy dest src)\<lparr>dc_bound_ts := ts\<rparr>) path)) (\<lambda>(rb, dest).
     Ok (st, dtr\<lparr>dtr_bound := rb, dtr_unused := ngtcp2_ringbuf_pop_front (dtr_unused dtr)\<rparr>, dest))))"

function verify_reset_loop :: "ngtcp2_dcid ngtcp2_ringbuf \<Rightarrow> ngtcp2_path \<Rightarrow> u8 list \<Rightarrow> nat \<Rightarrow> unit res" where
  "verify_reset_loop rb path token i =
    (if \<not> i < rb_count rb then Err NGTCP2_ERR_INVALID_ARGUMENT else
     bindR (rb_at rb i) (\<lambda>dcid.
     case ngtcp2_dcid_verify_stateless_reset_token dcid path token of
       Ok _ \<Rightarrow> Ok () | Err _ \<Rightarrow> verify_reset_loop rb path token (i + 1) | Fault \<Rightarrow> Fault))"
  by pat_completeness auto

termination verify_reset_loop
  by (relation "measure (\<lambda>(rb, _, _, i). rb_count rb - i)") auto

declare verify_reset_loop.simps [simp del]

definition ngtcp2_dcidtr_verify_stateless_reset :: "ngtcp2_dcidtr \<Rightarrow> ngtcp2_path \<Rightarrow> u8 list \<Rightarrow> unit res" where
  "ngtcp2_dcidtr_verify_stateless_reset dtr path token = verify_reset_loop (dtr_bound dtr) path token 0"

text \<open>The result is \<open>*pfound\<close>.\<close>

function verify_token_uniqueness ::
    "ngtcp2_dcid ngtcp2_ringbuf \<Rightarrow> bool \<Rightarrow> u64 \<Rightarrow> ngtcp2_cid \<Rightarrow> u8 list \<Rightarrow> nat \<Rightarrow> bool res" where
  "verify_token_uniqueness rb found seq cid token i =
    (if \<not> i < rb_count rb then Ok found else
     bindR (rb_at rb i) (\<lambda>dcid.
     case ngtcp2_dcid_verify_uniqueness dcid seq cid token of
       Ok _ \<Rightarrow> verify_token_uniqueness rb (found \<or> ngtcp2_cid_eq (dc_cid dcid) cid) seq cid token (i + 1)
     | Err _ \<Rightarrow> Err NGTCP2_ERR_PROTO | Fault \<Rightarrow> Fault))"
  by pat_completeness auto

termination verify_token_uniqueness
  by (relation "measure (\<lambda>(rb, _, _, _, _, i). rb_count rb - i)") auto

declare verify_token_uniqueness.simps [simp del]

definition ngtcp2_dcidtr_verify_token_uniqueness :: "ngtcp2_dcidtr \<Rightarrow> bool \<Rightarrow> u64 \<Rightarrow> ngtcp2_cid \<Rightarrow> u8 list \<Rightarrow> bool res" where
  "ngtcp2_dcidtr_verify_token_uniqueness dtr found seq cid token =
     bindR (verify_token_uniqueness (dtr_bound dtr) found seq cid token 0) (\<lambda>found.
     verify_token_uniqueness (dtr_unused dtr) found seq cid token 0)"

definition remove_dcid_at :: "ngtcp2_dcid ngtcp2_ringbuf \<Rightarrow> nat \<Rightarrow> ngtcp2_dcid ngtcp2_ringbuf res" where
  "remove_dcid_at rb at =
    (if at = 0 then Ok (ngtcp2_ringbuf_pop_front rb)
     else if at = rb_count rb - 1 then ngtcp2_ringbuf_pop_back rb
     else
       bindR (rb_at rb (rb_count rb - 1)) (\<lambda>src.
       bindR (ngtcp2_ringbuf_get rb (of_nat at)) (\<lambda>j.
       ngtcp2_ringbuf_pop_back (rb_store rb j (ngtcp2_dcid_copy (rb_buf rb ! j) src)))))"

lemma remove_dcid_at_shorter:
  assumes "remove_dcid_at rb i = Ok rb'" "i < rb_count rb"
  shows "rb_count rb' < rb_count rb"
proof -
  have "rb_len rb \<noteq> 0" using assms(2) by (auto simp: rb_count_def ngtcp2_ringbuf_len_def)
  then have "unat (rb_len rb - 1) < unat (rb_len rb)" by (simp add: unat_minus_one unat_gt_0)
  then show ?thesis using assms(1)
    by (auto simp: remove_dcid_at_def rb_count_def ngtcp2_ringbuf_len_def ngtcp2_ringbuf_pop_front_def ngtcp2_ringbuf_pop_back_def
        rb_store_def bindR_eq_Ok assertR_def split: if_splits)
qed

text \<open>
  The loop that \<open>dcidtr_retire_dcid_prior_to\<close> and \<open>ngtcp2_dcidtr_retire_stale_bound_dcid\<close> have in common; \<open>keep\<close> is the condition of the
  \<open>continue\<close>. The ring buffer is a part of the structure that \<open>dcidtr_on_retire\<close> does not touch, and is threaded beside it.
\<close>

declare bindR_cong [fundef_cong]

function dcidtr_retire_loop ::
    "(ngtcp2_dcid \<Rightarrow> bool res) \<Rightarrow> 's dcidtr_cb option \<Rightarrow> 's \<Rightarrow> ngtcp2_dcidtr \<Rightarrow> ngtcp2_dcid ngtcp2_ringbuf \<Rightarrow> nat \<Rightarrow>
      ('s \<times> ngtcp2_dcidtr \<times> ngtcp2_dcid ngtcp2_ringbuf) res" where
  "dcidtr_retire_loop keep on_retire st dtr rb i =
    (if \<not> i < rb_count rb then Ok (st, dtr, rb) else
     bindR (rb_at rb i) (\<lambda>dcid.
     bindR (keep dcid) (\<lambda>k.
     if k then dcidtr_retire_loop keep on_retire st dtr rb (i + 1) else
     bindR (dcidtr_on_retire on_retire st dtr dcid) (\<lambda>(st, dtr).
     bindR (remove_dcid_at rb i) (\<lambda>rb.
     dcidtr_retire_loop keep on_retire st dtr rb i)))))"
  by pat_completeness auto

termination dcidtr_retire_loop
  by (relation "measure (\<lambda>(_, _, _, _, rb, i). rb_count rb - i)")
    (auto dest!: remove_dcid_at_shorter)

declare dcidtr_retire_loop.simps [simp del]

definition dcidtr_retire_dcid_prior_to ::
    "u64 \<Rightarrow> 's dcidtr_cb option \<Rightarrow> 's \<Rightarrow> ngtcp2_dcidtr \<Rightarrow> ngtcp2_dcid ngtcp2_ringbuf \<Rightarrow>
      ('s \<times> ngtcp2_dcidtr \<times> ngtcp2_dcid ngtcp2_ringbuf) res" where
  "dcidtr_retire_dcid_prior_to seq on_retire st dtr rb = dcidtr_retire_loop (\<lambda>dcid. Ok (dc_seq dcid \<ge> seq)) on_retire st dtr rb 0"

definition ngtcp2_dcidtr_retire_inactive_dcid_prior_to ::
    "'s dcidtr_cb option \<Rightarrow> 's \<Rightarrow> ngtcp2_dcidtr \<Rightarrow> u64 \<Rightarrow> ('s \<times> ngtcp2_dcidtr) res" where
  "ngtcp2_dcidtr_retire_inactive_dcid_prior_to on_retire st dtr seq =
     bindR (dcidtr_retire_dcid_prior_to seq on_retire st dtr (dtr_bound dtr)) (\<lambda>(st, dtr, rb).
     let dtr = dtr\<lparr>dtr_bound := rb\<rparr> in
     bindR (dcidtr_retire_dcid_prior_to seq on_retire st dtr (dtr_unused dtr)) (\<lambda>(st, dtr, rb).
     Ok (st, dtr\<lparr>dtr_unused := rb\<rparr>)))"

definition ngtcp2_dcidtr_retire_active_dcid ::
    "'s dcidtr_cb \<Rightarrow> 's \<Rightarrow> ngtcp2_dcidtr \<Rightarrow> ngtcp2_dcid \<Rightarrow> u64 \<Rightarrow> ('s \<times> ngtcp2_dcidtr) res" where
  "ngtcp2_dcidtr_retire_active_dcid on_deactivate st dtr dcid ts =
     assertR (dc_cid dcid \<noteq> [])
    (bindR (if ngtcp2_ringbuf_full (dtr_retired dtr)
            then bindR (rb_at (dtr_retired dtr) 0) (on_deactivate st) else Ok st) (\<lambda>st.
     bindR (rb_append (dtr_retired dtr) (\<lambda>dest. (ngtcp2_dcid_copy dest dcid)\<lparr>dc_retired_ts := ts\<rparr>)) (\<lambda>(rb, dest).
     dcidtr_on_retire None st (dtr\<lparr>dtr_retired := rb\<rparr>) dest)))"

definition ngtcp2_tstamp_not_elapsed :: "u64 \<Rightarrow> u64 \<Rightarrow> u64 \<Rightarrow> bool" where
  "ngtcp2_tstamp_not_elapsed base d ts = (base \<noteq> - 1 \<and> (base \<ge> - 1 - d \<or> base + d > ts))"

function remove_stale_loop ::
    "'s dcidtr_cb \<Rightarrow> 's \<Rightarrow> ngtcp2_dcid ngtcp2_ringbuf \<Rightarrow> u64 \<Rightarrow> u64 \<Rightarrow> ('s \<times> ngtcp2_dcid ngtcp2_ringbuf) res" where
  "remove_stale_loop on_deactivate st rb timeout ts =
    (if rb_count rb = 0 then Ok (st, rb) else
     bindR (rb_at rb 0) (\<lambda>dcid.
     if ngtcp2_tstamp_not_elapsed (dc_retired_ts dcid) timeout ts then Ok (st, rb) else
     bindR (on_deactivate st dcid) (\<lambda>st. remove_stale_loop on_deactivate st (ngtcp2_ringbuf_pop_front rb) timeout ts)))"
  by pat_completeness auto

lemma pop_front_shorter: "0 < rb_count (rb :: ngtcp2_dcid ngtcp2_ringbuf) \<Longrightarrow> rb_count (ngtcp2_ringbuf_pop_front rb) < rb_count rb"
  using remove_dcid_at_shorter [of rb 0 "ngtcp2_ringbuf_pop_front rb"] by (simp add: remove_dcid_at_def)

termination remove_stale_loop
  by (relation "measure (\<lambda>(_, _, rb, _, _). rb_count rb)") (auto dest: pop_front_shorter)

declare remove_stale_loop.simps [simp del]

definition ngtcp2_dcidtr_remove_stale_retired_dcid ::
    "'s dcidtr_cb \<Rightarrow> 's \<Rightarrow> ngtcp2_dcidtr \<Rightarrow> u64 \<Rightarrow> u64 \<Rightarrow> ('s \<times> ngtcp2_dcidtr) res" where
  "ngtcp2_dcidtr_remove_stale_retired_dcid on_deactivate st dtr timeout ts =
     bindR (remove_stale_loop on_deactivate st (dtr_retired dtr) timeout ts) (\<lambda>(st, rb). Ok (st, dtr\<lparr>dtr_retired := rb\<rparr>))"

definition ngtcp2_dcidtr_pop_bound_dcid :: "ngtcp2_dcidtr \<Rightarrow> ngtcp2_dcid \<Rightarrow> ngtcp2_path \<Rightarrow> (ngtcp2_dcidtr \<times> ngtcp2_dcid) res" where
  "ngtcp2_dcidtr_pop_bound_dcid dtr dest path =
     bindR (find_path (dtr_bound dtr) path 0) (\<lambda>r.
     case r of None \<Rightarrow> Err NGTCP2_ERR_INVALID_ARGUMENT
     | Some (i, src) \<Rightarrow> bindR (remove_dcid_at (dtr_bound dtr) i) (\<lambda>rb. Ok (dtr\<lparr>dtr_bound := rb\<rparr>, ngtcp2_dcid_copy dest src)))"

definition ngtcp2_dcidtr_retire_stale_bound_dcid ::
    "'s dcidtr_cb option \<Rightarrow> 's \<Rightarrow> ngtcp2_dcidtr \<Rightarrow> u64 \<Rightarrow> u64 \<Rightarrow> ('s \<times> ngtcp2_dcidtr) res" where
  "ngtcp2_dcidtr_retire_stale_bound_dcid on_retire st dtr timeout ts =
     bindR (dcidtr_retire_loop (\<lambda>dcid. assertR (dc_cid dcid \<noteq> []) (Ok (ngtcp2_tstamp_not_elapsed (dc_bound_ts dcid) timeout ts)))
       on_retire st dtr (dtr_bound dtr) 0) (\<lambda>(st, dtr, rb). Ok (st, dtr\<lparr>dtr_bound := rb\<rparr>))"

function earliest_bound_loop :: "ngtcp2_dcid ngtcp2_ringbuf \<Rightarrow> u64 \<Rightarrow> nat \<Rightarrow> u64 res" where
  "earliest_bound_loop rb res i =
    (if \<not> i < rb_count rb then Ok res else
     bindR (rb_at rb i) (\<lambda>dcid.
     assertR (dc_cid dcid \<noteq> [])
    (assertR (dc_bound_ts dcid \<noteq> - 1)
    (earliest_bound_loop rb (min res (dc_bound_ts dcid)) (i + 1)))))"
  by pat_completeness auto

termination earliest_bound_loop
  by (relation "measure (\<lambda>(rb, _, i). rb_count rb - i)") auto

declare earliest_bound_loop.simps [simp del]

definition ngtcp2_dcidtr_earliest_bound_ts :: "ngtcp2_dcidtr \<Rightarrow> u64 res" where
  "ngtcp2_dcidtr_earliest_bound_ts dtr = earliest_bound_loop (dtr_bound dtr) (- 1) 0"

definition ngtcp2_dcidtr_earliest_retired_ts :: "ngtcp2_dcidtr \<Rightarrow> u64 res" where
  "ngtcp2_dcidtr_earliest_retired_ts dtr =
     (if rb_count (dtr_retired dtr) = 0 then Ok (- 1) else bindR (rb_at (dtr_retired dtr) 0) (\<lambda>dcid. Ok (dc_retired_ts dcid)))"

definition ngtcp2_dcidtr_push_unused :: "ngtcp2_dcidtr \<Rightarrow> u64 \<Rightarrow> ngtcp2_cid \<Rightarrow> u8 list option \<Rightarrow> ngtcp2_dcidtr res" where
  "ngtcp2_dcidtr_push_unused dtr seq cid token =
     bindR (rb_append (dtr_unused dtr) (\<lambda>dcid. ngtcp2_dcid_init dcid seq cid token)) (\<lambda>(rb, _). Ok (dtr\<lparr>dtr_unused := rb\<rparr>))"

definition ngtcp2_dcidtr_pop_unused_cid_token :: "ngtcp2_dcidtr \<Rightarrow> ngtcp2_dcid \<Rightarrow> (ngtcp2_dcidtr \<times> ngtcp2_dcid) res" where
  "ngtcp2_dcidtr_pop_unused_cid_token dtr dest =
     assertR (rb_count (dtr_unused dtr) \<noteq> 0)
    (bindR (rb_at (dtr_unused dtr) 0) (\<lambda>src.
     Ok (dtr\<lparr>dtr_unused := ngtcp2_ringbuf_pop_front (dtr_unused dtr)\<rparr>,
         ngtcp2_dcid_copy_cid_token (dest\<lparr>dc_flags := NGTCP2_DCID_FLAG_NONE\<rparr>) src)))"

definition ngtcp2_dcidtr_pop_unused :: "ngtcp2_dcidtr \<Rightarrow> ngtcp2_dcid \<Rightarrow> (ngtcp2_dcidtr \<times> ngtcp2_dcid) res" where
  "ngtcp2_dcidtr_pop_unused dtr dest =
     assertR (rb_count (dtr_unused dtr) \<noteq> 0)
    (bindR (rb_at (dtr_unused dtr) 0) (\<lambda>src.
     Ok (dtr\<lparr>dtr_unused := ngtcp2_ringbuf_pop_front (dtr_unused dtr)\<rparr>, ngtcp2_dcid_copy dest src)))"

definition ngtcp2_dcidtr_check_path_retired :: "ngtcp2_dcidtr \<Rightarrow> ngtcp2_path \<Rightarrow> bool res" where
  "ngtcp2_dcidtr_check_path_retired dtr path = bindR (find_path (dtr_retired dtr) path 0) (\<lambda>r. Ok (r \<noteq> None))"

definition ngtcp2_dcidtr_inactive_len :: "ngtcp2_dcidtr \<Rightarrow> nat" where
  "ngtcp2_dcidtr_inactive_len dtr = rb_count (dtr_unused dtr) + rb_count (dtr_bound dtr)"

definition ngtcp2_dcidtr_unused_full :: "ngtcp2_dcidtr \<Rightarrow> bool" where
  "ngtcp2_dcidtr_unused_full dtr = ngtcp2_ringbuf_full (dtr_unused dtr)"

definition ngtcp2_dcidtr_unused_empty :: "ngtcp2_dcidtr \<Rightarrow> bool" where
  "ngtcp2_dcidtr_unused_empty dtr = (rb_count (dtr_unused dtr) = 0)"

definition ngtcp2_dcidtr_bound_full :: "ngtcp2_dcidtr \<Rightarrow> bool" where
  "ngtcp2_dcidtr_bound_full dtr = ngtcp2_ringbuf_full (dtr_bound dtr)"

end
