(* ===== verification/Dcidtr_Correct.thy ===== *)
theory Dcidtr_Correct
  imports Dcidtr Range Frame_Decode "HOL-Library.Multiset"
begin

text \<open>
  The correctness of the tracker of destination connection IDs: its ring buffers as lists, the effect of each operation, and the retirement
  loops, which remove elements by replacing them with the last one, as operations on multisets.
\<close>

section \<open>The ring buffers as lists\<close>

definition dring :: "nat \<Rightarrow> 'a ngtcp2_ringbuf \<Rightarrow> bool" where
  "dring cap rb = (rb_ok rb \<and> rb_cap rb = cap)"

lemma rb_count_elems [simp]: "rb_count rb = length (rb_elems rb)"
  by (simp add: rb_count_def ngtcp2_ringbuf_len_def rb_elems_def)

lemma index_word:
  assumes "rb_ok rb" "i < length (rb_elems rb)"
  shows "unat (of_nat i :: u64) = i \<and> (of_nat i :: u64) < rb_len rb"
proof -
  have "i < unat (rb_len rb)" using assms(2) by (simp add: rb_elems_def)
  moreover from this have "i < 2 ^ 64" using unsigned_less [of "rb_len rb", where ?'a = nat] by simp
  ultimately show ?thesis by (simp add: word_less_nat_alt unat_of_nat_u64)
qed

lemma rb_at_ok: "dring cap rb \<Longrightarrow> i < length (rb_elems rb) \<Longrightarrow> rb_at rb i = Ok (rb_elems rb ! i)"
  using get_elems [of rb "of_nat i"] index_word [of rb i] by (auto simp: rb_at_def dring_def)

lemma store_elems:
  assumes ok: "rb_ok rb" and i: "i < length (rb_elems rb)" and j: "ngtcp2_ringbuf_get rb (of_nat i) = Ok j"
  shows "rb_ok (rb_store rb j v) \<and> rb_elems (rb_store rb j v) = (rb_elems rb)[i := v]"
proof -
  let ?c = "rb_cap rb"
  have len: "i < unat (rb_len rb)" "unat (rb_len rb) \<le> ?c" "length (rb_buf rb) = ?c" using i ok by (simp_all add: rb_elems_def rb_ok_def)
  have jv: "j = (unat (rb_first rb) + i) mod ?c" "j < ?c"
    using j index_word [OF ok i] elem_pos [OF ok, of "of_nat i"] len
    by (auto simp: ngtcp2_ringbuf_get_def rb_slot_def assertR_def split: if_splits)
  have "rb_ok (rb_store rb j v)" using ok by (auto simp: rb_ok_def rb_store_def rb_cap_def)
  moreover have "rb_elems (rb_store rb j v) = (rb_elems rb)[i := v]"
  proof (rule nth_equalityI)
    fix k assume "k < length (rb_elems (rb_store rb j v))"
    then have k: "k < unat (rb_len rb)" by (simp add: rb_elems_def rb_store_def)
    have "(unat (rb_first rb) + k) mod ?c = j \<longleftrightarrow> k = i"
      using ring_inj [of k ?c i "unat (rb_first rb)"] k len jv by auto
    then show "rb_elems (rb_store rb j v) ! k = (rb_elems rb)[i := v] ! k"
      using k len jv by (auto simp: rb_elems_def rb_store_def rb_cap_def nth_list_update simp del: upt_Suc)
  qed (simp add: rb_elems_def rb_store_def)
  ultimately show ?thesis ..
qed

lemma rb_append_ok:
  assumes "dring cap rb"
  shows "\<exists>v rb'. rb_append rb f = Ok (rb', f v) \<and> dring cap rb' \<and>
    rb_elems rb' = (if ngtcp2_ringbuf_full rb then tl (rb_elems rb) else rb_elems rb) @ [f v]"
proof -
  obtain rb' j where p: "ngtcp2_ringbuf_push_back rb = Ok (rb', j)"
    using push_back_ok [of rb undefined] assms by (auto simp: dring_def)
  show ?thesis using push_back_ok [of rb "f (rb_buf rb' ! j)"] p assms by (auto simp: rb_append_def dring_def)
qed

lemma dring_pop_front: "dring cap rb \<Longrightarrow> rb_elems rb \<noteq> [] \<Longrightarrow>
    dring cap (ngtcp2_ringbuf_pop_front rb) \<and> rb_elems (ngtcp2_ringbuf_pop_front rb) = tl (rb_elems rb)"
  using pop_front_ok [of rb] by (auto simp: dring_def rb_cap_def ngtcp2_ringbuf_pop_front_def)

lemma dring_pop_back:
  assumes "dring cap rb" "rb_elems rb \<noteq> []"
  shows "\<exists>rb'. ngtcp2_ringbuf_pop_back rb = Ok rb' \<and> dring cap rb' \<and> rb_elems rb' = butlast (rb_elems rb)"
  using pop_back_ok [of rb] assms
  by (auto simp: dring_def rb_cap_def ngtcp2_ringbuf_pop_back_def assertR_def split: if_splits)

text \<open>An element is removed; the last one may take its place.\<close>

definition removed_at :: "nat \<Rightarrow> ngtcp2_dcid list \<Rightarrow> ngtcp2_dcid list \<Rightarrow> bool" where
  "removed_at i ds ds' =
     (length ds' = length ds - 1 \<and> (if i = 0 then ds' = tl ds else take i ds' = take i ds) \<and>
      mset (map dcid_view ds) = add_mset (dcid_view (ds ! i)) (mset (map dcid_view ds')))"

lemma removed_at_swap:
  assumes "0 < i" "i < length ds - 1" "dcid_view d = dcid_view (last ds)"
  shows "removed_at i ds (butlast (ds[i := d]))"
proof -
  have ne: "ds \<noteq> []" using assms by auto
  obtain xs y where ds: "ds = xs @ [y]" using ne by (cases ds rule: rev_cases) auto
  have i: "i < length xs" using assms(2) by (simp add: ds)
  then have "xs = take i xs @ xs ! i # drop (Suc i) xs" by (simp add: id_take_nth_drop)
  from arg_cong [OF this, of "\<lambda>l. mset (map dcid_view l)"] have m: "mset (map dcid_view xs) = add_mset (dcid_view (xs ! i)) (mset (map dcid_view (take i xs)) + mset (map dcid_view (drop (Suc i) xs)))"
    by simp
  have "ds[i := d] = take i xs @ d # drop (Suc i) xs @ [y]" using i by (simp add: ds list_update_append upd_conv_take_nth_drop)
  then have b: "butlast (ds[i := d]) = take i xs @ d # drop (Suc i) xs" by (simp add: butlast_append)
  show ?thesis unfolding removed_at_def b using m assms i by (simp add: ds nth_append)
qed

lemma remove_dcid_at_ok:
  assumes rb: "dring cap rb" and i: "i < length (rb_elems rb)"
  shows "\<exists>rb'. remove_dcid_at rb i = Ok rb' \<and> dring cap rb' \<and> removed_at i (rb_elems rb) (rb_elems rb')"
proof -
  let ?E = "rb_elems rb"
  have ne: "?E \<noteq> []" using i by auto
  consider "i = 0" | "0 < i" "i = length ?E - 1" | "0 < i" "i < length ?E - 1" using i by linarith
  then show ?thesis
  proof cases
    case 1
    have "mset (map dcid_view ?E) = add_mset (dcid_view (?E ! 0)) (mset (map dcid_view (tl ?E)))"
      using ne by (cases ?E) simp_all
    then show ?thesis using 1 dring_pop_front [OF rb ne] by (simp add: remove_dcid_at_def removed_at_def)
  next
    case 2
    obtain xs y where e: "?E = xs @ [y]" using ne by (cases ?E rule: rev_cases) auto
    show ?thesis using 2 dring_pop_back [OF rb ne] by (auto simp: remove_dcid_at_def removed_at_def e)
  next
    case 3
    obtain j where j: "ngtcp2_ringbuf_get rb (of_nat i) = Ok j"
      using get_elems [of rb "of_nat i"] index_word [of rb i] i rb by (auto simp: dring_def)
    let ?d = "ngtcp2_dcid_copy (rb_buf rb ! j) (last ?E)"
    have s: "dring cap (rb_store rb j ?d)" "rb_elems (rb_store rb j ?d) = ?E[i := ?d]"
      using store_elems [OF _ i j, of ?d] rb by (auto simp: dring_def rb_store_def rb_cap_def)
    have "rb_at rb (length ?E - 1) = Ok (last ?E)" using rb_at_ok [OF rb, of "length ?E - 1"] ne by (simp add: last_conv_nth)
    moreover have "rb_elems (rb_store rb j ?d) \<noteq> []" using ne s(2) by simp
    ultimately show ?thesis
      using 3 j dring_pop_back [OF s(1)] removed_at_swap [of i ?E ?d] s(2) i by (auto simp: remove_dcid_at_def)
  qed
qed

section \<open>Retirement\<close>

text \<open>The calls of a callback for a list of connection IDs, in order.\<close>

primrec cb_run :: "'s dcidtr_cb option \<Rightarrow> 's \<Rightarrow> ngtcp2_dcid list \<Rightarrow> 's res" where
  "cb_run cb st [] = Ok st"
| "cb_run cb st (d # ds) = bindR (case cb of None \<Rightarrow> Ok st | Some f \<Rightarrow> f st d) (\<lambda>st. cb_run cb st ds)"

lemma cb_run_append: "cb_run cb st (ds @ es) = bindR (cb_run cb st ds) (\<lambda>st. cb_run cb st es)"
proof (induction ds arbitrary: st)
  case (Cons d ds)
  show ?case by (simp add: Cons.IH bindR_assoc)
qed simp

definition cb_safe :: "'s dcidtr_cb option \<Rightarrow> bool" where
  "cb_safe cb = (\<forall>f st d. cb = Some f \<longrightarrow> f st d \<noteq> Fault)"

text \<open>The connection IDs \<open>ds\<close> have been retired: their sequence numbers are tracked, and the callback has been called for each.\<close>

definition retired :: "'s dcidtr_cb option \<Rightarrow> 's \<Rightarrow> ngtcp2_dcidtr \<Rightarrow> ngtcp2_dcid list \<Rightarrow> 's \<Rightarrow> ngtcp2_dcidtr \<Rightarrow> bool" where
  "retired cb st dtr ds st' dtr' =
     (dtr' = dtr\<lparr>dtr_retire_unacked := dtr_retire_unacked dtr @ map dc_seq ds\<rparr> \<and> cb_run cb st ds = Ok st' \<and>
      distinct (map dc_seq ds) \<and> set (map dc_seq ds) \<inter> set (dtr_retire_unacked dtr) = {})"

lemma retired_trans:
  assumes "retired cb st dtr ds st1 dtr1" "retired cb st1 dtr1 es st2 dtr2"
  shows "retired cb st dtr (ds @ es) st2 dtr2"
  using assms by (auto simp: retired_def cb_run_append)

lemma on_retire_ok:
  assumes "cb_safe cb" "length (dtr_retire_unacked dtr) \<le> 16"
  shows "okR (\<lambda>(st', dtr'). dc_seq d \<in> set (dtr_retire_unacked dtr') \<and> length (dtr_retire_unacked dtr') \<le> 16 \<and>
      (\<exists>ds. set ds \<subseteq> {d} \<and> retired cb st dtr ds st' dtr')) (dcidtr_on_retire cb st dtr d)"
proof (cases "dc_seq d \<in> set (dtr_retire_unacked dtr)")
  case True
  then show ?thesis using assms
    by (auto simp: dcidtr_on_retire_def ngtcp2_dcidtr_check_retired_seq_tracked_def list_ex_iff retired_def intro!: exI [of _ "[]"])
next
  case False
  then have c: "\<not> ngtcp2_dcidtr_check_retired_seq_tracked dtr (dc_seq d)"
    by (auto simp: ngtcp2_dcidtr_check_retired_seq_tracked_def list_ex_iff)
  let ?dtr = "dtr\<lparr>dtr_retire_unacked := dtr_retire_unacked dtr @ [dc_seq d]\<rparr>"
  have r: "\<exists>ds. set ds \<subseteq> {d} \<and> retired cb st dtr ds st' ?dtr" if "cb_run cb st [d] = Ok st'" for st'
    using that False by (intro exI [of _ "[d]"]) (simp add: retired_def)
  show ?thesis
  proof (cases cb)
    case None
    then show ?thesis using c r [of st] by (auto simp: dcidtr_on_retire_def ngtcp2_dcidtr_track_retired_seq_def)
  next
    case (Some f)
    then show ?thesis using c r assms(1)
      by (cases "f st d") (auto simp: dcidtr_on_retire_def ngtcp2_dcidtr_track_retired_seq_def cb_safe_def)
  qed
qed

definition retire_loop_spec where
  "retire_loop_spec K cap cb st dtr E i = (\<lambda>(st', dtr', rb').
     dring cap rb' \<and> length (dtr_retire_unacked dtr') \<le> 16 \<and>
     mset (map dcid_view (rb_elems rb')) = mset (map dcid_view (take i E)) + filter_mset K (mset (map dcid_view (drop i E))) \<and>
     (\<exists>ds. retired cb st dtr ds st' dtr' \<and> (\<forall>d \<in> set ds. \<not> K (dcid_view d) \<and> dcid_view d \<in> set (map dcid_view (drop i E)))) \<and>
     (\<forall>d \<in> set (drop i E). \<not> K (dcid_view d) \<longrightarrow> dc_seq d \<in> set (dtr_retire_unacked dtr')))"

lemma removed_at_parts:
  assumes "removed_at i ds ds'" "i < length ds"
  shows "mset (map dcid_view (drop i ds)) = add_mset (dcid_view (ds ! i)) (mset (map dcid_view (drop i ds')))"
    and "map dcid_view (take i ds') = map dcid_view (take i ds)"
proof -
  show t: "map dcid_view (take i ds') = map dcid_view (take i ds)"
    using assms by (cases "i = 0") (auto simp: removed_at_def)
  have "mset (map dcid_view ds) = mset (map dcid_view (take i ds)) + mset (map dcid_view (drop i ds))" for ds
    by (metis append_take_drop_id map_append mset_append)
  then show "mset (map dcid_view (drop i ds)) = add_mset (dcid_view (ds ! i)) (mset (map dcid_view (drop i ds')))"
    using assms(1) t unfolding removed_at_def by (metis union_mset_add_mset_right add_left_cancel)
qed

lemma view_seq: "dcid_view d = dcid_view e \<Longrightarrow> dc_seq d = dc_seq e"
  by (simp add: dcid_view_def)

lemma retire_spec_step:
  assumes s: "retire_loop_spec K cap cb st1 dtr1 E' i (st2, dtr2, rb2)"
    and r: "retired cb st dtr ds st1 dtr1" "set ds \<subseteq> {E ! i}" "dc_seq (E ! i) \<in> set (dtr_retire_unacked dtr1)" "\<not> K (dcid_view (E ! i))"
    and p: "mset (map dcid_view (drop i E)) = add_mset (dcid_view (E ! i)) (mset (map dcid_view (drop i E')))"
      "map dcid_view (take i E') = map dcid_view (take i E)"
  shows "retire_loop_spec K cap cb st dtr E i (st2, dtr2, rb2)"
proof -
  have pset: "dcid_view ` set (drop i E) = insert (dcid_view (E ! i)) (dcid_view ` set (drop i E'))"
    using arg_cong [OF p(1), of set_mset] by simp
  obtain es where es: "retired cb st1 dtr1 es st2 dtr2" "\<forall>d \<in> set es. \<not> K (dcid_view d) \<and> dcid_view d \<in> set (map dcid_view (drop i E'))"
    using s by (auto simp: retire_loop_spec_def)
  have "\<exists>ds. retired cb st dtr ds st2 dtr2 \<and> (\<forall>d \<in> set ds. \<not> K (dcid_view d) \<and> dcid_view d \<in> set (map dcid_view (drop i E)))"
    using retired_trans [OF r(1) es(1)] es(2) r(2,4) pset by (intro exI [of _ "ds @ es"]) auto
  moreover have "dc_seq d \<in> set (dtr_retire_unacked dtr2)" if d: "d \<in> set (drop i E)" "\<not> K (dcid_view d)" for d
  proof -
    have "dcid_view d \<in> insert (dcid_view (E ! i)) (dcid_view ` set (drop i E'))" using d(1) pset by blast
    then consider "dcid_view d = dcid_view (E ! i)" | e where "e \<in> set (drop i E')" "dcid_view d = dcid_view e" by blast
    then show ?thesis
    proof cases
      case 1
      then show ?thesis using view_seq [OF 1] r(3) es(1) by (simp add: retired_def)
    next
      case (2 e)
      then show ?thesis using view_seq [OF 2(2)] s d(2) by (auto simp: retire_loop_spec_def)
    qed
  qed
  moreover have "mset (map dcid_view (rb_elems rb2)) = mset (map dcid_view (take i E)) + filter_mset K (mset (map dcid_view (drop i E)))"
    using s r(4) unfolding retire_loop_spec_def p by simp
  ultimately show ?thesis using s by (simp add: retire_loop_spec_def)
qed

lemma retire_loop_ok:
  assumes "dring cap rb" "i \<le> length (rb_elems rb)" "cb_safe cb" "length (dtr_retire_unacked dtr) \<le> 16"
    "\<And>d. P (dcid_view d) \<Longrightarrow> keep d = Ok (K (dcid_view d))" "\<forall>d \<in> set (rb_elems rb). P (dcid_view d)"
  shows "okR (retire_loop_spec K cap cb st dtr (rb_elems rb) i) (dcidtr_retire_loop keep cb st dtr rb i)"
  using assms
proof (induction "length (rb_elems rb) - i" arbitrary: rb i st dtr rule: less_induct)
  case less
  let ?E = "rb_elems rb"
  show ?case
  proof (cases "i < length ?E")
    case False
    then show ?thesis using less.prems
      by (auto simp: dcidtr_retire_loop.simps [of keep cb st dtr rb] retire_loop_spec_def retired_def intro!: exI [of _ "[]"])
  next
    case True
    let ?d = "?E ! i"
    have drop: "drop i ?E = ?d # drop (Suc i) ?E" using True by (simp add: Cons_nth_drop_Suc)
    have take: "mset (map dcid_view (take (Suc i) ?E)) = add_mset (dcid_view ?d) (mset (map dcid_view (take i ?E)))"
      using True by (simp add: take_Suc_conv_app_nth)
    have k: "keep ?d = Ok (K (dcid_view ?d))" using less.prems(5,6) True by simp
    note s = dcidtr_retire_loop.simps [of keep cb st dtr rb i]
    show ?thesis
    proof (cases "K (dcid_view ?d)")
      case K: True
      have "okR (retire_loop_spec K cap cb st dtr ?E (i + 1)) (dcidtr_retire_loop keep cb st dtr rb (i + 1))"
        using True by (intro less.hyps less.prems) auto
      then show ?thesis unfolding s using True K k rb_at_ok [OF less.prems(1) True] take
        by (auto simp: retire_loop_spec_def drop elim!: okR_mono)
    next
      case K: False
      obtain rb' where rb': "remove_dcid_at rb i = Ok rb'" "dring cap rb'" "removed_at i ?E (rb_elems rb')"
        using remove_dcid_at_ok [OF less.prems(1) True] by blast
      have step: "dcidtr_retire_loop keep cb st dtr rb i =
          bindR (dcidtr_on_retire cb st dtr ?d) (\<lambda>(st, dtr). dcidtr_retire_loop keep cb st dtr rb' i)"
        unfolding s using True K k rb_at_ok [OF less.prems(1) True] rb'(1) by simp
      have m: "set (map dcid_view ?E) = insert (dcid_view ?d) (set (map dcid_view (rb_elems rb')))"
        using arg_cong [OF conjunct2 [OF conjunct2 [OF rb'(3) [unfolded removed_at_def]]], of set_mset] by simp
      have "\<forall>v \<in> set (map dcid_view ?E). P v" using less.prems(6) by auto
      then have P: "\<forall>d \<in> set (rb_elems rb'). P (dcid_view d)" unfolding m by auto
      have len: "length (rb_elems rb') = length ?E - 1" using rb'(3) by (simp add: removed_at_def)
      note p = removed_at_parts [OF rb'(3) True]
      show ?thesis unfolding step
      proof (rule okR_bind2 [OF on_retire_ok [OF less.prems(3,4)]], clarify)
        fix st1 dtr1 ds
        assume 1: "dc_seq ?d \<in> set (dtr_retire_unacked dtr1)" "length (dtr_retire_unacked dtr1) \<le> 16" "set ds \<subseteq> {?d}"
          "retired cb st dtr ds st1 dtr1"
        have "okR (retire_loop_spec K cap cb st1 dtr1 (rb_elems rb') i) (dcidtr_retire_loop keep cb st1 dtr1 rb' i)"
          using True len by (intro less.hyps rb'(2) less.prems(3,5) 1(2) P) auto
        then show "okR (retire_loop_spec K cap cb st dtr ?E i) (dcidtr_retire_loop keep cb st1 dtr1 rb' i)"
        proof (rule okR_mono, clarify)
          fix st2 dtr2 rb2
          assume s2: "retire_loop_spec K cap cb st1 dtr1 (rb_elems rb') i (st2, dtr2, rb2)"
          show "retire_loop_spec K cap cb st dtr ?E i (st2, dtr2, rb2)" by (rule retire_spec_step [OF s2 1(4,3,1) K p])
        qed
      qed
    qed
  qed
qed

section \<open>The tracker\<close>

definition dtr_ok :: "ngtcp2_dcidtr \<Rightarrow> bool" where
  "dtr_ok dtr = (dring 8 (dtr_unused dtr) \<and> dring 4 (dtr_bound dtr) \<and> dring 2 (dtr_retired dtr) \<and>
     length (dtr_retire_unacked dtr) \<le> 16 \<and> distinct (dtr_retire_unacked dtr))"

definition unused_ids :: "ngtcp2_dcidtr \<Rightarrow> ngtcp2_dcid list" where
  "unused_ids dtr = rb_elems (dtr_unused dtr)"

definition bound_ids :: "ngtcp2_dcidtr \<Rightarrow> ngtcp2_dcid list" where
  "bound_ids dtr = rb_elems (dtr_bound dtr)"

definition retired_ids :: "ngtcp2_dcidtr \<Rightarrow> ngtcp2_dcid list" where
  "retired_ids dtr = rb_elems (dtr_retired dtr)"

lemmas ids_defs = unused_ids_def bound_ids_def retired_ids_def

lemma ispow2_small: "ispow2 2" "ispow2 4" "ispow2 8"
  by (simp_all add: ispow2_def)

lemma dcidtr_init_ok:
  "\<exists>dtr. ngtcp2_dcidtr_init = Ok dtr \<and> dtr_ok dtr \<and> unused_ids dtr = [] \<and> bound_ids dtr = [] \<and> retired_ids dtr = [] \<and>
     dtr_retire_unacked dtr = []"
  using buf_init_ok [of 8 "replicate 8 dcid_none"] buf_init_ok [of 4 "replicate 4 dcid_none"] buf_init_ok [of 2 "replicate 2 dcid_none"]
    ispow2_small
  by (auto simp: ngtcp2_dcidtr_init_def dtr_ok_def dring_def ids_defs)

lemma dring_full: "dring cap rb \<Longrightarrow> ngtcp2_ringbuf_full rb \<longleftrightarrow> length (rb_elems rb) = cap"
  using full_iff [of rb] by (simp add: dring_def)

lemma dring_length: "dring cap rb \<Longrightarrow> length (rb_elems rb) \<le> cap"
  using rb_elems_cap [of rb] by (simp add: dring_def)

lemma push_unused_ok:
  assumes "dtr_ok dtr" "length (unused_ids dtr) < 8"
  shows "\<exists>dtr' d. ngtcp2_dcidtr_push_unused dtr seq cid token = Ok dtr' \<and> dtr_ok dtr' \<and>
    unused_ids dtr' = unused_ids dtr @ [d] \<and> dc_seq d = seq \<and> dc_cid d = cid \<and> token_present d = (token \<noteq> None) \<and>
    (\<forall>t. token = Some t \<longrightarrow> dc_token d = t) \<and>
    dtr' = dtr\<lparr>dtr_unused := dtr_unused dtr'\<rparr>"
proof -
  have rb: "dring 8 (dtr_unused dtr)" using assms(1) by (simp add: dtr_ok_def)
  obtain v rb' where a: "rb_append (dtr_unused dtr) (\<lambda>dcid. ngtcp2_dcid_init dcid seq cid token) = Ok (rb', ngtcp2_dcid_init v seq cid token)"
    "dring 8 rb'" "rb_elems rb' = rb_elems (dtr_unused dtr) @ [ngtcp2_dcid_init v seq cid token]"
    using rb_append_ok [OF rb, of "\<lambda>dcid. ngtcp2_dcid_init dcid seq cid token"] assms(2) dring_full [OF rb]
    by (auto simp: unused_ids_def)
  then show ?thesis using assms(1)
    by (auto simp: ngtcp2_dcidtr_push_unused_def dtr_ok_def ids_defs ngtcp2_dcid_init_def token_present_def Let_def split: option.splits)
qed

lemma verify_loop_ok:
  assumes "dring cap rb"
  shows "verify_token_uniqueness rb found seq cid token i =
    (if \<forall>d \<in> set (drop i (rb_elems rb)). ngtcp2_dcid_verify_uniqueness d seq cid token = Ok ()
     then Ok (found \<or> (\<exists>d \<in> set (drop i (rb_elems rb)). dc_cid d = cid)) else Err NGTCP2_ERR_PROTO)"
proof (induction "length (rb_elems rb) - i" arbitrary: found i)
  case 0
  then show ?case by (subst verify_token_uniqueness.simps) simp
next
  case (Suc n)
  then have i: "i < length (rb_elems rb)" by simp
  let ?d = "rb_elems rb ! i"
  have d: "drop i (rb_elems rb) = ?d # drop (i + 1) (rb_elems rb)" using i by (simp add: Cons_nth_drop_Suc)
  have IH: "verify_token_uniqueness rb f seq cid token (i + 1) =
    (if \<forall>d \<in> set (drop (i + 1) (rb_elems rb)). ngtcp2_dcid_verify_uniqueness d seq cid token = Ok ()
     then Ok (f \<or> (\<exists>d \<in> set (drop (i + 1) (rb_elems rb)). dc_cid d = cid)) else Err NGTCP2_ERR_PROTO)" for f
    using Suc.hyps(2) by (intro Suc.hyps(1)) simp
  have v: "ngtcp2_dcid_verify_uniqueness ?d seq cid token = Ok () \<or> ngtcp2_dcid_verify_uniqueness ?d seq cid token = Err NGTCP2_ERR_PROTO"
    by (simp add: ngtcp2_dcid_verify_uniqueness_def)
  show ?case
    using v IH rb_at_ok [OF assms i] i unfolding d by (subst verify_token_uniqueness.simps) (auto simp: disj_assoc)
qed

text \<open>The answer of the check: no connection ID with the same number and another value, and no equal value with another number.\<close>

definition id_conflict :: "u64 \<Rightarrow> ngtcp2_cid \<Rightarrow> u8 list \<Rightarrow> ngtcp2_dcid \<Rightarrow> bool" where
  "id_conflict seq cid token d =
     (if dc_seq d = seq then dc_cid d \<noteq> cid \<or> \<not> token_present d \<or> dc_token d \<noteq> token else dc_cid d = cid)"

lemma verify_uniqueness_iff:
  "ngtcp2_dcid_verify_uniqueness d seq cid token = (if id_conflict seq cid token d then Err NGTCP2_ERR_PROTO else Ok ())"
  by (simp add: ngtcp2_dcid_verify_uniqueness_def id_conflict_def)

lemma verify_token_uniqueness_exact:
  assumes "dtr_ok dtr"
  shows "ngtcp2_dcidtr_verify_token_uniqueness dtr found seq cid token =
    (if \<exists>d \<in> set (bound_ids dtr @ unused_ids dtr). id_conflict seq cid token d then Err NGTCP2_ERR_PROTO
     else Ok (found \<or> (\<exists>d \<in> set (bound_ids dtr @ unused_ids dtr). dc_cid d = cid)))"
  using assms verify_loop_ok [of 4 "dtr_bound dtr" found seq cid token 0] verify_loop_ok [of 8 "dtr_unused dtr" _ seq cid token 0]
  by (auto simp: ngtcp2_dcidtr_verify_token_uniqueness_def dtr_ok_def ids_defs verify_uniqueness_iff)

text \<open>The retirement of everything before a number.\<close>

definition retire_prior_spec where
  "retire_prior_spec cb st dtr seq = (\<lambda>(st', dtr'). dtr_ok dtr' \<and>
     mset (map dcid_view (bound_ids dtr')) = filter_mset (\<lambda>v. seq \<le> fst v) (mset (map dcid_view (bound_ids dtr))) \<and>
     mset (map dcid_view (unused_ids dtr')) = filter_mset (\<lambda>v. seq \<le> fst v) (mset (map dcid_view (unused_ids dtr))) \<and>
     dtr_retired dtr' = dtr_retired dtr \<and>
     (\<forall>d \<in> set (bound_ids dtr @ unused_ids dtr). dc_seq d < seq \<longrightarrow> dc_seq d \<in> set (dtr_retire_unacked dtr')) \<and>
     (\<exists>ds. dtr_retire_unacked dtr' = dtr_retire_unacked dtr @ map dc_seq ds \<and> cb_run cb st ds = Ok st' \<and>
        (\<forall>d \<in> set ds. dc_seq d < seq \<and> dcid_view d \<in> set (map dcid_view (bound_ids dtr @ unused_ids dtr)))))"

lemma retire_prior_loop:
  assumes "dring cap rb" "cb_safe cb" "length (dtr_retire_unacked dtr) \<le> 16"
  shows "okR (retire_loop_spec (\<lambda>v. seq \<le> fst v) cap cb st dtr (rb_elems rb) 0) (dcidtr_retire_dcid_prior_to seq cb st dtr rb)"
  unfolding dcidtr_retire_dcid_prior_to_def
  by (rule retire_loop_ok [OF assms(1) _ assms(2,3), where P = "\<lambda>_. True"]) (simp_all add: dcid_view_def)

lemma retire_inactive_ok:
  assumes ok: "dtr_ok dtr" and cb: "cb_safe cb"
  shows "okR (retire_prior_spec cb st dtr seq) (ngtcp2_dcidtr_retire_inactive_dcid_prior_to cb st dtr seq)"
  unfolding ngtcp2_dcidtr_retire_inactive_dcid_prior_to_def
proof (rule okR_bindI, rule retire_prior_loop [of 4], goal_cases)
  case (4 x)
  obtain st1 dtr1 rb1 where x: "x = (st1, dtr1, rb1)" by (cases x)
  obtain ds where b: "dring 4 rb1" "length (dtr_retire_unacked dtr1) \<le> 16"
    "mset (map dcid_view (rb_elems rb1)) = filter_mset (\<lambda>v. seq \<le> fst v) (mset (map dcid_view (bound_ids dtr)))"
    "retired cb st dtr ds st1 dtr1" "\<forall>d \<in> set ds. \<not> seq \<le> fst (dcid_view d) \<and> dcid_view d \<in> set (map dcid_view (bound_ids dtr))"
    "\<forall>d \<in> set (bound_ids dtr). \<not> seq \<le> fst (dcid_view d) \<longrightarrow> dc_seq d \<in> set (dtr_retire_unacked dtr1)"
    using 4 by (auto simp: x retire_loop_spec_def bound_ids_def)
  let ?dtr = "dtr1\<lparr>dtr_bound := rb1\<rparr>"
  have u: "dtr_unused ?dtr = dtr_unused dtr" "dring 8 (dtr_unused ?dtr)" using b(4) ok by (simp_all add: retired_def dtr_ok_def)
  show ?case unfolding x prod.case Let_def
  proof (rule okR_bindI, rule retire_prior_loop [of 8], goal_cases)
    case (4 y)
    obtain st2 dtr2 rb2 where y: "y = (st2, dtr2, rb2)" by (cases y)
    obtain es where c: "dring 8 rb2" "length (dtr_retire_unacked dtr2) \<le> 16"
      "mset (map dcid_view (rb_elems rb2)) = filter_mset (\<lambda>v. seq \<le> fst v) (mset (map dcid_view (unused_ids dtr)))"
      "retired cb st1 ?dtr es st2 dtr2" "\<forall>d \<in> set es. \<not> seq \<le> fst (dcid_view d) \<and> dcid_view d \<in> set (map dcid_view (unused_ids dtr))"
      "\<forall>d \<in> set (unused_ids dtr). \<not> seq \<le> fst (dcid_view d) \<longrightarrow> dc_seq d \<in> set (dtr_retire_unacked dtr2)"
      using 4 by (auto simp: y retire_loop_spec_def unused_ids_def u(1))
    have seq: "fst (dcid_view d) = dc_seq d" for d by (simp add: dcid_view_def)
    have "\<exists>ds. dtr_retire_unacked (dtr2\<lparr>dtr_unused := rb2\<rparr>) = dtr_retire_unacked dtr @ map dc_seq ds \<and> cb_run cb st ds = Ok st2 \<and>
        (\<forall>d \<in> set ds. dc_seq d < seq \<and> dcid_view d \<in> set (map dcid_view (bound_ids dtr @ unused_ids dtr)))"
      using b(4,5) c(4,5) by (intro exI [of _ "ds @ es"]) (auto simp: retired_def cb_run_append seq not_le)
    moreover have "dtr_ok (dtr2\<lparr>dtr_unused := rb2\<rparr>)" using b(1,4) c(1,2,4) ok by (auto simp: retired_def dtr_ok_def)
    ultimately show ?case using b c unfolding y prod.case okR_simps retire_prior_spec_def
      by (auto simp: retired_def ids_defs seq not_le)
  qed (use u b(2) cb in simp_all)
qed (use ok cb in \<open>simp_all add: dtr_ok_def\<close>)

lemma find_path_ok:
  assumes "dring cap rb" "path_specified path"
  shows "\<exists>r. find_path rb path i = Ok r \<and>
    (case r of None \<Rightarrow> (\<forall>d \<in> set (drop i (rb_elems rb)). \<not> same_path (dc_ps d) path)
     | Some (j, d) \<Rightarrow> i \<le> j \<and> j < length (rb_elems rb) \<and> d = rb_elems rb ! j \<and> same_path (dc_ps d) path)"
proof (induction "length (rb_elems rb) - i" arbitrary: i)
  case 0
  then show ?case by (subst find_path.simps) simp
next
  case (Suc n)
  then have i: "i < length (rb_elems rb)" by simp
  have d: "drop i (rb_elems rb) = rb_elems rb ! i # drop (i + 1) (rb_elems rb)" using i by (simp add: Cons_nth_drop_Suc)
  obtain r where r: "find_path rb path (i + 1) = Ok r"
    "case r of None \<Rightarrow> (\<forall>d \<in> set (drop (i + 1) (rb_elems rb)). \<not> same_path (dc_ps d) path)
     | Some (j, d) \<Rightarrow> i + 1 \<le> j \<and> j < length (rb_elems rb) \<and> d = rb_elems rb ! j \<and> same_path (dc_ps d) path"
  proof -
    have "n = length (rb_elems rb) - (i + 1)" using Suc.hyps(2) by simp
    from Suc.hyps(1) [OF this] show thesis using that by blast
  qed
  show ?case
    using r i d rb_at_ok [OF assms(1) i] path_eq_iff [OF assms(2)]
    by (subst find_path.simps) (cases "same_path (dc_ps (rb_elems rb ! i)) path", auto split: option.splits)
qed

lemma addr_copy_same: "ad_addrlen a \<noteq> 0 \<Longrightarrow> ad_addr (ngtcp2_addr_copy dest a) = ad_addr a"
  by (simp add: ngtcp2_addr_copy_def Let_def)

definition path_present :: "ngtcp2_path \<Rightarrow> bool" where
  "path_present p = (path_specified p \<and> ad_addrlen (path_local p) \<noteq> 0 \<and> ad_addrlen (path_remote p) \<noteq> 0)"

lemma set_path_same: "path_present path \<Longrightarrow> same_path (dc_ps (ngtcp2_dcid_set_path d path)) path"
  by (simp add: ngtcp2_dcid_set_path_def ngtcp2_path_copy_def same_path_def path_present_def addr_copy_same)

lemma track_ok: "dtr_ok dtr \<Longrightarrow> okR (\<lambda>dtr'. (seq \<notin> set (dtr_retire_unacked dtr) \<longrightarrow> dtr_ok dtr') \<and>
    dtr' = dtr\<lparr>dtr_retire_unacked := dtr_retire_unacked dtr @ [seq]\<rparr>) (ngtcp2_dcidtr_track_retired_seq dtr seq)"
  by (auto simp: ngtcp2_dcidtr_track_retired_seq_def dtr_ok_def)

lemma untrack_seq_mset: "seq \<in> set seqs \<Longrightarrow> mset seqs = add_mset seq (mset (untrack_seq seqs seq))"
proof (induction seqs)
  case (Cons s seqs)
  then show ?case by (cases seqs rule: rev_cases) auto
qed simp

lemma untrack_seq_other: "seq \<notin> set seqs \<Longrightarrow> untrack_seq seqs seq = seqs"
  by (induction seqs) auto

lemma untrack_ok:
  assumes "dtr_ok dtr"
  shows "dtr_ok (ngtcp2_dcidtr_untrack_retired_seq dtr seq) \<and>
    set (dtr_retire_unacked (ngtcp2_dcidtr_untrack_retired_seq dtr seq)) = set (dtr_retire_unacked dtr) - {seq}"
proof (cases "seq \<in> set (dtr_retire_unacked dtr)")
  case True
  note m = untrack_seq_mset [OF True]
  have "distinct (seq # untrack_seq (dtr_retire_unacked dtr) seq)"
    using assms mset_eq_imp_distinct_iff [of "dtr_retire_unacked dtr" "seq # untrack_seq (dtr_retire_unacked dtr) seq"] m
    by (simp add: dtr_ok_def)
  moreover have "length (dtr_retire_unacked dtr) = Suc (length (untrack_seq (dtr_retire_unacked dtr) seq))"
    using arg_cong [OF m, of size] by simp
  moreover have "set (dtr_retire_unacked dtr) = insert seq (set (untrack_seq (dtr_retire_unacked dtr) seq))"
    using arg_cong [OF m, of set_mset] by simp
  ultimately show ?thesis using assms by (auto simp: ngtcp2_dcidtr_untrack_retired_seq_def dtr_ok_def)
next
  case False
  then have "untrack_seq (dtr_retire_unacked dtr) seq = dtr_retire_unacked dtr"
    by (rule untrack_seq_other)
  then show ?thesis using assms False by (simp add: ngtcp2_dcidtr_untrack_retired_seq_def)
qed

lemma retired_dtr_ok: "retired cb st dtr ds st' dtr' \<Longrightarrow> dtr_ok dtr \<Longrightarrow> length (dtr_retire_unacked dtr') \<le> 16 \<Longrightarrow> dtr_ok dtr'"
  by (auto simp: retired_def dtr_ok_def Int_commute)

lemma retired_fields:
  "retired cb st dtr ds st' dtr' \<Longrightarrow> dtr_unused dtr' = dtr_unused dtr \<and> dtr_bound dtr' = dtr_bound dtr \<and> dtr_retired dtr' = dtr_retired dtr \<and>
     dtr_retire_unacked dtr' = dtr_retire_unacked dtr @ map dc_seq ds \<and> cb_run cb st ds = Ok st'"
  by (simp add: retired_def)

lemma on_retire_dtr_ok:
  assumes "dtr_ok dtr" "cb_safe cb"
  shows "okR (\<lambda>(st', dtr'). dtr_ok dtr' \<and> dtr_unused dtr' = dtr_unused dtr \<and> dtr_bound dtr' = dtr_bound dtr \<and> dtr_retired dtr' = dtr_retired dtr \<and>
      set (dtr_retire_unacked dtr') = insert (dc_seq d) (set (dtr_retire_unacked dtr)) \<and>
      (\<exists>ds. set ds \<subseteq> {d} \<and> dtr_retire_unacked dtr' = dtr_retire_unacked dtr @ map dc_seq ds \<and> cb_run cb st ds = Ok st'))
    (dcidtr_on_retire cb st dtr d)"
proof (rule okR_mono [OF on_retire_ok [OF assms(2)]], goal_cases)
  case 1
  then show ?case using assms(1) by (simp add: dtr_ok_def)
next
  case (2 x)
  obtain st' dtr' where x: "x = (st', dtr')" by (cases x)
  from 2 obtain ds where d: "dc_seq d \<in> set (dtr_retire_unacked dtr')" "length (dtr_retire_unacked dtr') \<le> 16" "set ds \<subseteq> {d}"
    "retired cb st dtr ds st' dtr'" by (auto simp: x)
  have "set (map dc_seq ds) \<subseteq> {dc_seq d}" using d(3) by auto
  then show ?case using d retired_fields [OF d(4)] retired_dtr_ok [OF d(4) assms(1) d(2)] by (auto simp: x)
qed

definition bind_spec where
  "bind_spec cb st dtr path ts = (\<lambda>(st', dtr', d). dtr_ok dtr' \<and> unused_ids dtr' = tl (unused_ids dtr) \<and>
     dtr_retired dtr' = dtr_retired dtr \<and>
     dc_seq d = dc_seq (hd (unused_ids dtr)) \<and> dc_cid d = dc_cid (hd (unused_ids dtr)) \<and> dc_bound_ts d = ts \<and>
     (path_present path \<longrightarrow> same_path (dc_ps d) path) \<and>
     bound_ids dtr' = (if length (bound_ids dtr) = 4 then tl (bound_ids dtr) else bound_ids dtr) @ [d] \<and>
     (\<exists>ds. set ds \<subseteq> (if length (bound_ids dtr) = 4 then {hd (bound_ids dtr)} else {}) \<and>
        dtr_retire_unacked dtr' = dtr_retire_unacked dtr @ map dc_seq ds \<and> cb_run cb st ds = Ok st') \<and>
     (length (bound_ids dtr) = 4 \<longrightarrow> dc_seq (hd (bound_ids dtr)) \<in> set (dtr_retire_unacked dtr')))"

lemma bind_dcid_ok:
  assumes ok: "dtr_ok dtr" and cb: "cb_safe cb" and ne: "unused_ids dtr \<noteq> []"
  shows "okR (bind_spec cb st dtr path ts) (ngtcp2_dcidtr_bind_dcid cb st dtr path ts)"
proof -
  let ?full = "length (bound_ids dtr) = 4"
  have rings: "dring 8 (dtr_unused dtr)" "dring 4 (dtr_bound dtr)" using ok by (simp_all add: dtr_ok_def)
  have f: "ngtcp2_ringbuf_full (dtr_bound dtr) = ?full" using dring_full [OF rings(2)] by (simp add: bound_ids_def)
  let ?Q = "\<lambda>(st', dtr'). dtr_ok dtr' \<and> dtr_unused dtr' = dtr_unused dtr \<and> dtr_bound dtr' = dtr_bound dtr \<and> dtr_retired dtr' = dtr_retired dtr \<and>
      (\<exists>ds. set ds \<subseteq> (if ?full then {hd (bound_ids dtr)} else {}) \<and>
        dtr_retire_unacked dtr' = dtr_retire_unacked dtr @ map dc_seq ds \<and> cb_run cb st ds = Ok st') \<and>
      (?full \<longrightarrow> dc_seq (hd (bound_ids dtr)) \<in> set (dtr_retire_unacked dtr'))"
  have 1: "okR ?Q (if ngtcp2_ringbuf_full (dtr_bound dtr)
      then bindR (rb_at (dtr_bound dtr) 0) (dcidtr_on_retire cb st dtr) else Ok (st, dtr))"
  proof (cases ?full)
    case True
    then have "rb_at (dtr_bound dtr) 0 = Ok (hd (bound_ids dtr))"
      using rb_at_ok [OF rings(2), of 0] by (cases "bound_ids dtr") (auto simp: bound_ids_def)
    moreover have "okR ?Q (dcidtr_on_retire cb st dtr (hd (bound_ids dtr)))"
      by (rule okR_mono [OF on_retire_dtr_ok [OF ok cb, of "hd (bound_ids dtr)" st]]) (use True in auto)
    ultimately show ?thesis using True f by simp
  qed (use ok f in \<open>auto intro!: exI [of _ "[]"]\<close>)
  have src: "rb_at (dtr_unused dtr) 0 = Ok (hd (unused_ids dtr))"
    using rb_at_ok [OF rings(1), of 0] ne by (auto simp: unused_ids_def hd_conv_nth)
  let ?f = "\<lambda>dest. ngtcp2_dcid_set_path ((ngtcp2_dcid_copy dest (hd (unused_ids dtr)))\<lparr>dc_bound_ts := ts\<rparr>) path"
  obtain v rb' where a: "rb_append (dtr_bound dtr) ?f = Ok (rb', ?f v)" "dring 4 rb'"
      "rb_elems rb' = (if ?full then tl (bound_ids dtr) else bound_ids dtr) @ [?f v]"
    using rb_append_ok [OF rings(2), of ?f] f by (auto simp: bound_ids_def)
  have fv: "dc_seq (?f v) = dc_seq (hd (unused_ids dtr))" "dc_cid (?f v) = dc_cid (hd (unused_ids dtr))" "dc_bound_ts (?f v) = ts"
    by (simp_all add: ngtcp2_dcid_set_path_def)
  show ?thesis unfolding ngtcp2_dcidtr_bind_dcid_def
  proof (rule okR_bind2 [OF 1], clarify)
    fix st1 dtr1 ds
    assume q: "dtr_ok dtr1" "dtr_unused dtr1 = dtr_unused dtr" "dtr_bound dtr1 = dtr_bound dtr" "dtr_retired dtr1 = dtr_retired dtr"
      "set ds \<subseteq> (if ?full then {hd (bound_ids dtr)} else {})"
      "dtr_retire_unacked dtr1 = dtr_retire_unacked dtr @ map dc_seq ds" "cb_run cb st ds = Ok st1"
      "?full \<longrightarrow> dc_seq (hd (bound_ids dtr)) \<in> set (dtr_retire_unacked dtr1)"
    let ?dtr = "dtr1\<lparr>dtr_bound := rb', dtr_unused := ngtcp2_ringbuf_pop_front (dtr_unused dtr1)\<rparr>"
    have p: "dring 8 (dtr_unused ?dtr)" "unused_ids ?dtr = tl (unused_ids dtr)"
      using dring_pop_front [OF rings(1)] ne q(2) by (simp_all add: unused_ids_def)
    have "bind_spec cb st dtr path ts (st1, ?dtr, ?f v)"
      unfolding bind_spec_def prod.case using q p a(2,3) fv set_path_same [of path] by (auto simp: dtr_ok_def bound_ids_def)
    then show "okR (bind_spec cb st dtr path ts) (bindR (rb_at (dtr_unused dtr1) 0) (\<lambda>src.
        bindR (rb_append (dtr_bound dtr1) (\<lambda>dest. ngtcp2_dcid_set_path ((ngtcp2_dcid_copy dest src)\<lparr>dc_bound_ts := ts\<rparr>) path)) (\<lambda>(rb, dest).
        Ok (st1, dtr1\<lparr>dtr_bound := rb, dtr_unused := ngtcp2_ringbuf_pop_front (dtr_unused dtr1)\<rparr>, dest))))"
      using src a(1) q(2,3) by simp
  qed
qed

lemma retire_active_ok:
  assumes ok: "dtr_ok dtr" and cb: "\<And>st d. cb st d \<noteq> Fault" and ne: "dc_cid dcid \<noteq> []"
  shows "okR (\<lambda>(st', dtr'). dtr_ok dtr' \<and> dtr_unused dtr' = dtr_unused dtr \<and> dtr_bound dtr' = dtr_bound dtr \<and>
      dc_seq dcid \<in> set (dtr_retire_unacked dtr') \<and>
      set (dtr_retire_unacked dtr') = insert (dc_seq dcid) (set (dtr_retire_unacked dtr)) \<and>
      (\<exists>d. dc_seq d = dc_seq dcid \<and> dc_cid d = dc_cid dcid \<and> dc_retired_ts d = ts \<and>
        retired_ids dtr' = (if length (retired_ids dtr) = 2 then tl (retired_ids dtr) else retired_ids dtr) @ [d]) \<and>
      (if length (retired_ids dtr) = 2 then cb st (hd (retired_ids dtr)) = Ok st' else st' = st))
    (ngtcp2_dcidtr_retire_active_dcid cb st dtr dcid ts)"
proof -
  let ?full = "length (retired_ids dtr) = 2"
  have ring: "dring 2 (dtr_retired dtr)" using ok by (simp add: dtr_ok_def)
  have f: "ngtcp2_ringbuf_full (dtr_retired dtr) = ?full" using dring_full [OF ring] by (simp add: retired_ids_def)
  have 1: "okR (\<lambda>st'. if ?full then cb st (hd (retired_ids dtr)) = Ok st' else st' = st)
      (if ngtcp2_ringbuf_full (dtr_retired dtr) then bindR (rb_at (dtr_retired dtr) 0) (cb st) else Ok st)"
  proof (cases ?full)
    case True
    then have "rb_at (dtr_retired dtr) 0 = Ok (hd (retired_ids dtr))"
      using rb_at_ok [OF ring, of 0] by (cases "retired_ids dtr") (auto simp: retired_ids_def)
    then show ?thesis using True f cb [of st "hd (retired_ids dtr)"] by (cases "cb st (hd (retired_ids dtr))") auto
  qed (simp add: f)
  let ?f = "\<lambda>dest. (ngtcp2_dcid_copy dest dcid)\<lparr>dc_retired_ts := ts\<rparr>"
  obtain v rb' where a: "rb_append (dtr_retired dtr) ?f = Ok (rb', ?f v)" "dring 2 rb'"
      "rb_elems rb' = (if ?full then tl (retired_ids dtr) else retired_ids dtr) @ [?f v]"
    using rb_append_ok [OF ring, of ?f] f by (auto simp: retired_ids_def)
  let ?dtr = "dtr\<lparr>dtr_retired := rb'\<rparr>"
  have ok': "dtr_ok ?dtr" using ok a(2) by (simp add: dtr_ok_def)
  have s: "cb_safe (None :: 'a dcidtr_cb option)" by (simp add: cb_safe_def)
  have n: "cb_run None st ds = Ok st' \<Longrightarrow> st' = st" for st st' :: 'a and ds by (induction ds) auto
  have e: "assertR (dc_cid dcid \<noteq> []) x = x" for x :: "'b res" using ne by simp
  show ?thesis unfolding ngtcp2_dcidtr_retire_active_dcid_def e
  proof (rule okR_bindI [OF 1], goal_cases)
    case (1 st1)
    show ?case unfolding a(1) bindR.simps prod.case
      by (rule okR_mono [OF on_retire_dtr_ok [OF ok' s, of "?f v" st1]])
        (use 1 a(3) in \<open>auto dest!: n simp: retired_ids_def\<close>)
  qed
qed

lemma pop_unused_cid_token_ok:
  assumes "dtr_ok dtr" "unused_ids dtr \<noteq> []"
  shows "\<exists>dtr' d. ngtcp2_dcidtr_pop_unused_cid_token dtr dest = Ok (dtr', d) \<and> dtr_ok dtr' \<and> unused_ids dtr' = tl (unused_ids dtr) \<and>
    dtr' = dtr\<lparr>dtr_unused := dtr_unused dtr'\<rparr> \<and> dc_seq d = dc_seq (hd (unused_ids dtr)) \<and> dc_cid d = dc_cid (hd (unused_ids dtr)) \<and>
    token_present d = token_present (hd (unused_ids dtr)) \<and>
    (token_present d \<longrightarrow> dc_token d = dc_token (hd (unused_ids dtr)))"
proof -
  have ring: "dring 8 (dtr_unused dtr)" using assms(1) by (simp add: dtr_ok_def)
  have "rb_at (dtr_unused dtr) 0 = Ok (hd (unused_ids dtr))"
    using rb_at_ok [OF ring, of 0] assms(2) by (cases "unused_ids dtr") (auto simp: unused_ids_def)
  then show ?thesis
    using dring_pop_front [OF ring] assms copy_cid_token_view [of "dest\<lparr>dc_flags := NGTCP2_DCID_FLAG_NONE\<rparr>" "hd (unused_ids dtr)"]
    by (simp add: ngtcp2_dcidtr_pop_unused_cid_token_def unused_ids_def dtr_ok_def)
qed

lemma pop_unused_ok:
  assumes "dtr_ok dtr" "unused_ids dtr \<noteq> []"
  shows "\<exists>dtr' d. ngtcp2_dcidtr_pop_unused dtr dest = Ok (dtr', d) \<and> dtr_ok dtr' \<and> unused_ids dtr' = tl (unused_ids dtr) \<and>
    dcid_view d = dcid_view (hd (unused_ids dtr))"
proof -
  have ring: "dring 8 (dtr_unused dtr)" using assms(1) by (simp add: dtr_ok_def)
  have "rb_at (dtr_unused dtr) 0 = Ok (hd (unused_ids dtr))"
    using rb_at_ok [OF ring, of 0] assms(2) by (cases "unused_ids dtr") (auto simp: unused_ids_def)
  then show ?thesis
    using dring_pop_front [OF ring] assms by (simp add: ngtcp2_dcidtr_pop_unused_def unused_ids_def dtr_ok_def)
qed

lemma pop_bound_ok:
  assumes "dtr_ok dtr" "path_specified path"
  shows "if \<exists>d \<in> set (bound_ids dtr). same_path (dc_ps d) path
    then \<exists>dtr' d e. ngtcp2_dcidtr_pop_bound_dcid dtr dest path = Ok (dtr', d) \<and> dtr_ok dtr' \<and> e \<in> set (bound_ids dtr) \<and>
      same_path (dc_ps e) path \<and> dcid_view d = dcid_view e \<and>
      mset (map dcid_view (bound_ids dtr)) = add_mset (dcid_view e) (mset (map dcid_view (bound_ids dtr')))
    else ngtcp2_dcidtr_pop_bound_dcid dtr dest path = Err NGTCP2_ERR_INVALID_ARGUMENT"
proof -
  have ring: "dring 4 (dtr_bound dtr)" using assms(1) by (simp add: dtr_ok_def)
  obtain r where r: "find_path (dtr_bound dtr) path 0 = Ok r"
    "case r of None \<Rightarrow> (\<forall>d \<in> set (bound_ids dtr). \<not> same_path (dc_ps d) path)
     | Some (j, d) \<Rightarrow> j < length (bound_ids dtr) \<and> d = bound_ids dtr ! j \<and> same_path (dc_ps d) path"
    using find_path_ok [OF ring assms(2), of 0, folded bound_ids_def, simplified drop_0 le0 simp_thms] by blast
  show ?thesis
  proof (cases r)
    case None
    then show ?thesis using r by (auto simp: ngtcp2_dcidtr_pop_bound_dcid_def)
  next
    case (Some p)
    obtain j d where p: "p = (j, d)" by (cases p)
    have j: "j < length (bound_ids dtr)" "d = bound_ids dtr ! j" "same_path (dc_ps d) path" using r(2) by (auto simp: Some p)
    obtain rb' where rb': "remove_dcid_at (dtr_bound dtr) j = Ok rb'" "dring 4 rb'" "removed_at j (bound_ids dtr) (rb_elems rb')"
      using remove_dcid_at_ok [OF ring, of j] j(1) by (auto simp: bound_ids_def)
    have "d \<in> set (bound_ids dtr)" using j by simp
    moreover have "ngtcp2_dcidtr_pop_bound_dcid dtr dest path = Ok (dtr\<lparr>dtr_bound := rb'\<rparr>, ngtcp2_dcid_copy dest d)"
      using r(1) rb'(1) by (simp add: ngtcp2_dcidtr_pop_bound_dcid_def Some p)
    moreover have "dtr_ok (dtr\<lparr>dtr_bound := rb'\<rparr>)" using assms(1) rb'(2) by (simp add: dtr_ok_def)
    moreover have "mset (map dcid_view (bound_ids dtr)) = add_mset (dcid_view d) (mset (map dcid_view (bound_ids (dtr\<lparr>dtr_bound := rb'\<rparr>))))"
      using rb'(3) j(2) by (simp add: removed_at_def bound_ids_def)
    ultimately show ?thesis using j(3) by (auto intro!: exI [of _ d])
  qed
qed

text \<open>
  A retirement fails at the connection ID \<open>d\<close>, after those in \<open>ds\<close>: when 16 numbers are tracked already, or with the error of the callback.
\<close>

definition retire_fails :: "(ngtcp2_dcid \<Rightarrow> bool) \<Rightarrow> 's dcidtr_cb option \<Rightarrow> 's \<Rightarrow> ngtcp2_dcidtr \<Rightarrow> lib_error \<Rightarrow> bool" where
  "retire_fails Q cb st dtr e = (\<exists>ds d st1. cb_run cb st ds = Ok st1 \<and> (\<forall>x \<in> set (ds @ [d]). Q x) \<and>
     (e = NGTCP2_ERR_CONNECTION_ID_LIMIT \<and> length (dtr_retire_unacked dtr) + length ds = 16 \<or> (\<exists>f. cb = Some f \<and> f st1 d = Err e)))"

lemma retire_fails_on:
  assumes "dcidtr_on_retire cb st dtr d = Err e" "length (dtr_retire_unacked dtr) \<le> 16" "Q d"
  shows "retire_fails Q cb st dtr e"
  using assms
  by (auto simp: dcidtr_on_retire_def ngtcp2_dcidtr_track_retired_seq_def retire_fails_def bindR_eq_Err
      intro!: exI [of _ "[]"] exI [of _ d] split: if_splits option.splits)

lemma retire_fails_trans:
  assumes "retire_fails Q cb st1 dtr1 e" "retired cb st dtr ds st1 dtr1" "\<forall>x \<in> set ds. Q' x" "\<And>x. Q x \<Longrightarrow> Q' x"
  shows "retire_fails Q' cb st dtr e"
proof -
  obtain es d st2 where e: "cb_run cb st1 es = Ok st2" "\<forall>x \<in> set (es @ [d]). Q x"
    "e = NGTCP2_ERR_CONNECTION_ID_LIMIT \<and> length (dtr_retire_unacked dtr1) + length es = 16 \<or> (\<exists>f. cb = Some f \<and> f st2 d = Err e)"
    using assms(1) unfolding retire_fails_def by blast
  have "cb_run cb st (ds @ es) = Ok st2" using assms(2) e(1) by (simp add: retired_def cb_run_append)
  moreover have "\<forall>x \<in> set ((ds @ es) @ [d]). Q' x" using assms(3,4) e(2) by auto
  moreover have "length (dtr_retire_unacked dtr) + length (ds @ es) = length (dtr_retire_unacked dtr1) + length es" using assms(2) by (simp add: retired_def)
  ultimately show ?thesis using e(3) unfolding retire_fails_def by metis
qed

lemma retire_loop_fails:
  assumes "dring cap rb" "i \<le> length (rb_elems rb)" "cb_safe cb" "length (dtr_retire_unacked dtr) \<le> 16"
    "\<And>d. keep d = Ok (K (dcid_view d))" "dcidtr_retire_loop keep cb st dtr rb i = Err e"
  shows "retire_fails (\<lambda>d. \<not> K (dcid_view d) \<and> dcid_view d \<in> set (map dcid_view (rb_elems rb))) cb st dtr e"
  using assms
proof (induction "length (rb_elems rb) - i" arbitrary: rb i st dtr rule: less_induct)
  case less
  let ?E = "rb_elems rb" and ?Q = "\<lambda>rb d. \<not> K (dcid_view d) \<and> dcid_view d \<in> set (map dcid_view (rb_elems rb))"
  note s = dcidtr_retire_loop.simps [of keep cb st dtr rb i]
  have i: "i < length ?E" using less.prems(1,2,6) unfolding s by (auto simp: dring_def rb_count_def split: if_splits)
  let ?d = "?E ! i"
  show ?case
  proof (cases "K (dcid_view ?d)")
    case True
    have "dcidtr_retire_loop keep cb st dtr rb (i + 1) = Err e" using less.prems(5,6) i True rb_at_ok [OF less.prems(1) i] unfolding s by (auto split: if_splits)
    then show ?thesis using i by (intro less.hyps [OF _ less.prems(1) _ less.prems(3-5)]) auto
  next
    case False
    obtain rb' where rb': "remove_dcid_at rb i = Ok rb'" "dring cap rb'" "removed_at i ?E (rb_elems rb')"
      using remove_dcid_at_ok [OF less.prems(1) i] by blast
    have step: "bindR (dcidtr_on_retire cb st dtr ?d) (\<lambda>(st, dtr). dcidtr_retire_loop keep cb st dtr rb' i) = Err e"
      using less.prems(5,6) i False rb_at_ok [OF less.prems(1) i] rb'(1) unfolding s by (auto split: if_splits)
    have m: "set (map dcid_view ?E) = insert (dcid_view ?d) (set (map dcid_view (rb_elems rb')))"
      using arg_cong [OF conjunct2 [OF conjunct2 [OF rb'(3) [unfolded removed_at_def]]], of set_mset] by simp
    have len: "length (rb_elems rb') = length ?E - 1" using rb'(3) by (simp add: removed_at_def)
    have Q: "?Q rb ?d" using False i by simp
    show ?thesis
    proof (cases "dcidtr_on_retire cb st dtr ?d")
      case (Ok x)
      obtain st1 dtr1 where x: "x = (st1, dtr1)" by (cases x)
      obtain ds where 1: "length (dtr_retire_unacked dtr1) \<le> 16" "set ds \<subseteq> {?d}" "retired cb st dtr ds st1 dtr1"
        using on_retire_ok [OF less.prems(3,4), of ?d st] by (auto simp: Ok x)
      have "dcidtr_retire_loop keep cb st1 dtr1 rb' i = Err e" using step by (simp add: Ok x)
      then have "retire_fails (?Q rb') cb st1 dtr1 e"
        using i len by (intro less.hyps [OF _ rb'(2) _ less.prems(3) 1(1) less.prems(5)]) auto
      then show ?thesis by (rule retire_fails_trans [OF _ 1(3)]) (use 1(2) Q m in auto)
    next
      case (Err e')
      then show ?thesis using step retire_fails_on [OF _ less.prems(4), of cb st ?d e "?Q rb"] Q by simp
    next
      case Fault
      then show ?thesis using step by simp
    qed
  qed
qed

lemma retire_inactive_fails:
  assumes ok: "dtr_ok dtr" and cb: "cb_safe cb" and e: "ngtcp2_dcidtr_retire_inactive_dcid_prior_to cb st dtr seq = Err e"
  shows "retire_fails (\<lambda>d. dc_seq d < seq \<and> dcid_view d \<in> set (map dcid_view (bound_ids dtr @ unused_ids dtr))) cb st dtr e"
proof -
  have d: "dring 4 (dtr_bound dtr)" "dring 8 (dtr_unused dtr)" "length (dtr_retire_unacked dtr) \<le> 16" using ok by (simp_all add: dtr_ok_def)
  have seq: "fst (dcid_view d) = dc_seq d" for d by (simp add: dcid_view_def)
  note fails = retire_loop_fails [of _ _ 0 cb _ "\<lambda>d. Ok (seq \<le> dc_seq d)" "\<lambda>v. seq \<le> fst v", unfolded seq, OF _ _ cb]
  show ?thesis
  proof (cases "dcidtr_retire_dcid_prior_to seq cb st dtr (dtr_bound dtr)")
    case (Ok x)
    obtain st1 dtr1 rb1 where x: "x = (st1, dtr1, rb1)" by (cases x)
    obtain ds where b: "length (dtr_retire_unacked dtr1) \<le> 16" "retired cb st dtr ds st1 dtr1"
      "\<forall>d \<in> set ds. \<not> seq \<le> dc_seq d \<and> dcid_view d \<in> set (map dcid_view (bound_ids dtr))"
      using retire_prior_loop [OF d(1) cb d(3), of seq st] by (auto simp: Ok x retire_loop_spec_def bound_ids_def seq)
    have u: "dtr_unused dtr1 = dtr_unused dtr" using b(2) by (simp add: retired_def)
    have r: "retired cb st dtr ds st1 (dtr1\<lparr>dtr_bound := rb1\<rparr>\<lparr>dtr_bound := dtr_bound dtr\<rparr>)" using b(2) by (simp add: retired_def)
    have "retire_fails (\<lambda>d. \<not> seq \<le> dc_seq d \<and> dcid_view d \<in> set (map dcid_view (unused_ids dtr))) cb st1 (dtr1\<lparr>dtr_bound := rb1\<rparr>) e"
      using e fails [OF d(2), of "dtr1\<lparr>dtr_bound := rb1\<rparr>" st1 e] b(1) u
      by (simp add: ngtcp2_dcidtr_retire_inactive_dcid_prior_to_def dcidtr_retire_dcid_prior_to_def [of seq cb st1] Ok x Let_def bindR_eq_Err unused_ids_def split: prod.splits)
    then have "retire_fails (\<lambda>d. \<not> seq \<le> dc_seq d \<and> dcid_view d \<in> set (map dcid_view (unused_ids dtr))) cb st1
        (dtr1\<lparr>dtr_bound := rb1\<rparr>\<lparr>dtr_bound := dtr_bound dtr\<rparr>) e" by (simp add: retire_fails_def)
    then show ?thesis by (rule retire_fails_trans [OF _ r]) (use b(3) in \<open>auto simp: not_le\<close>)
  next
    case (Err e')
    then have "e' = e" using e by (simp add: ngtcp2_dcidtr_retire_inactive_dcid_prior_to_def)
    then have "retire_fails (\<lambda>d. \<not> seq \<le> dc_seq d \<and> dcid_view d \<in> set (map dcid_view (bound_ids dtr))) cb st dtr e"
      using fails [OF d(1) _ d(3), of st e] Err by (simp add: dcidtr_retire_dcid_prior_to_def bound_ids_def)
    then show ?thesis by (auto simp: retire_fails_def not_le) blast+
  next
    case Fault
    then show ?thesis using e by (simp add: ngtcp2_dcidtr_retire_inactive_dcid_prior_to_def)
  qed
qed

section \<open>Properties\<close>

text \<open>
  C20: When the peer asks to retire every connection ID before \<open>seq\<close>, the tracker keeps exactly the bound and unused ones from \<open>seq\<close> on; the
  number of each one that is removed is tracked until the retirement is acknowledged; and the callback, which sends RETIRE_CONNECTION_ID, is
  called, in order, for IDs before \<open>seq\<close> that were held, once for each number that was not tracked yet. It fails only when it meets an ID to
  retire while 16 numbers are tracked, with \<open>NGTCP2_ERR_CONNECTION_ID_LIMIT\<close>, or with the error of the callback for such an ID; the callback has been
  called for the IDs before that one. No assertion fails and no access leaves the buffers.
\<close>

theorem dcidtr_retire_prior_exact:
  assumes "dtr_ok dtr" "cb_safe cb"
  shows "case ngtcp2_dcidtr_retire_inactive_dcid_prior_to cb st dtr seq of
      Ok (st', dtr') \<Rightarrow>
        dtr_ok dtr' \<and>
        mset (map dcid_view (bound_ids dtr' @ unused_ids dtr')) =
          filter_mset (\<lambda>v. seq \<le> fst v) (mset (map dcid_view (bound_ids dtr @ unused_ids dtr))) \<and>
        (\<forall>d \<in> set (bound_ids dtr @ unused_ids dtr). dc_seq d < seq \<longrightarrow> dc_seq d \<in> set (dtr_retire_unacked dtr')) \<and>
        (\<exists>ds. dtr_retire_unacked dtr' = dtr_retire_unacked dtr @ map dc_seq ds \<and> cb_run cb st ds = Ok st' \<and>
           (\<forall>d \<in> set ds. dc_seq d < seq \<and> dcid_view d \<in> set (map dcid_view (bound_ids dtr @ unused_ids dtr))))
    | Err e \<Rightarrow>
        (\<exists>ds d st1. cb_run cb st ds = Ok st1 \<and>
           (\<forall>x \<in> set (ds @ [d]). dc_seq x < seq \<and> dcid_view x \<in> set (map dcid_view (bound_ids dtr @ unused_ids dtr))) \<and>
           (e = NGTCP2_ERR_CONNECTION_ID_LIMIT \<and> length (dtr_retire_unacked dtr) + length ds = 16 \<or> (\<exists>f. cb = Some f \<and> f st1 d = Err e)))
    | Fault \<Rightarrow> False"
  using retire_inactive_ok [OF assms, of st seq] retire_inactive_fails [OF assms, of st seq]
  by (cases "ngtcp2_dcidtr_retire_inactive_dcid_prior_to cb st dtr seq") (auto simp: retire_prior_spec_def retire_fails_def)

definition ex_dtr :: ngtcp2_dcidtr where
  "ex_dtr = (case bindR ngtcp2_dcidtr_init (\<lambda>dtr. bindR (ngtcp2_dcidtr_push_unused dtr 1 [1, 2, 3, 4] (Some [0])) (\<lambda>dtr.
     ngtcp2_dcidtr_push_unused dtr 2 [5, 6, 7, 8] (Some [9]))) of Ok dtr \<Rightarrow> dtr)"

lemma ex_dtr_ok: "dtr_ok ex_dtr \<and> map dc_seq (unused_ids ex_dtr) = [1, 2] \<and> bound_ids ex_dtr = [] \<and> dtr_retire_unacked ex_dtr = []"
proof -
  obtain dtr0 where 0: "ngtcp2_dcidtr_init = Ok dtr0" "dtr_ok dtr0" "unused_ids dtr0 = []" "bound_ids dtr0 = []" "dtr_retire_unacked dtr0 = []"
    using dcidtr_init_ok by blast
  obtain dtr1 d1 where 1: "ngtcp2_dcidtr_push_unused dtr0 1 [1, 2, 3, 4] (Some [0]) = Ok dtr1" "dtr_ok dtr1" "unused_ids dtr1 = [d1]" "dc_seq d1 = 1"
    "dtr1 = dtr0\<lparr>dtr_unused := dtr_unused dtr1\<rparr>" using push_unused_ok [OF 0(2), of 1 "[1, 2, 3, 4]" "Some [0]"] 0(3) by auto
  obtain dtr2 d2 where 2: "ngtcp2_dcidtr_push_unused dtr1 2 [5, 6, 7, 8] (Some [9]) = Ok dtr2" "dtr_ok dtr2" "unused_ids dtr2 = [d1, d2]"
    "dc_seq d2 = 2" "dtr2 = dtr1\<lparr>dtr_unused := dtr_unused dtr2\<rparr>" using push_unused_ok [OF 1(2), of 2 "[5, 6, 7, 8]" "Some [9]"] 1(3) by auto
  have "bound_ids dtr2 = bound_ids dtr0" "dtr_retire_unacked dtr2 = dtr_retire_unacked dtr0"
    by (subst 2(5), subst 1(5), simp add: bound_ids_def)+
  moreover have "ex_dtr = dtr2" unfolding ex_dtr_def 0(1) bindR.simps 1(1) 2(1) by simp
  ultimately show ?thesis using 0(4,5) 1(4) 2(2-4) by simp
qed

theorem dcidtr_retire_prior_exact_witness:
  "case ngtcp2_dcidtr_retire_inactive_dcid_prior_to (Some (\<lambda>n d. Ok (Suc n))) 0 ex_dtr 2 of
     Ok (n, dtr') \<Rightarrow> dtr_ok dtr' \<and> 1 \<in> set (dtr_retire_unacked dtr') | Err e \<Rightarrow> True | Fault \<Rightarrow> False"
proof -
  obtain d ds where u: "unused_ids ex_dtr = d # ds" "dc_seq d = 1" using ex_dtr_ok by (cases "unused_ids ex_dtr") auto
  show ?thesis using dcidtr_retire_prior_exact [where dtr = ex_dtr and cb = "Some (\<lambda>n d. Ok (Suc n))" and st = 0 and seq = 2] ex_dtr_ok u
    by (auto simp: cb_safe_def split: res.splits)
qed

text \<open>
  Binding a connection ID to a path takes the oldest unused one; afterwards the bound ID is found for that path, so that packets on the path
  carry it. When four are bound already, the oldest bound one is retired, and its number is tracked.
\<close>

theorem dcidtr_bind_find:
  assumes "dtr_ok dtr" "cb_safe cb" "unused_ids dtr \<noteq> []" "path_present path"
    "\<forall>d \<in> set (bound_ids dtr). \<not> same_path (dc_ps d) path"
  shows "case ngtcp2_dcidtr_bind_dcid cb st dtr path ts of
      Ok (st', dtr', d) \<Rightarrow>
        dtr_ok dtr' \<and> dc_seq d = dc_seq (hd (unused_ids dtr)) \<and> dc_cid d = dc_cid (hd (unused_ids dtr)) \<and>
        unused_ids dtr' = tl (unused_ids dtr) \<and> length (bound_ids dtr') \<le> 4 \<and>
        ngtcp2_dcidtr_find_bound_dcid dtr' path = Ok (Some d) \<and>
        (length (bound_ids dtr) = 4 \<longrightarrow> dc_seq (hd (bound_ids dtr)) \<in> set (dtr_retire_unacked dtr'))
    | Err e \<Rightarrow> True
    | Fault \<Rightarrow> False"
proof (cases "ngtcp2_dcidtr_bind_dcid cb st dtr path ts")
  case (Ok x)
  obtain st' dtr' d where x: "x = (st', dtr', d)" by (cases x)
  have s: "bind_spec cb st dtr path ts (st', dtr', d)" using bind_dcid_ok [OF assms(1-3), of st path ts] Ok by (simp add: x)
  have ok: "dtr_ok dtr'" and d: "same_path (dc_ps d) path"
    and b: "bound_ids dtr' = (if length (bound_ids dtr) = 4 then tl (bound_ids dtr) else bound_ids dtr) @ [d]"
    using s assms(4) by (simp_all add: bind_spec_def)
  have ring: "dring 4 (dtr_bound dtr')" using ok by (simp add: dtr_ok_def)
  have sp: "path_specified path" using assms(4) by (simp add: path_present_def)
  have other: "e = d" if "e \<in> set (bound_ids dtr')" "same_path (dc_ps e) path" for e
    using that assms(5) by (cases "bound_ids dtr") (auto simp: b split: if_splits)
  obtain r where r: "find_path (dtr_bound dtr') path 0 = Ok r"
    "case r of None \<Rightarrow> (\<forall>d \<in> set (bound_ids dtr'). \<not> same_path (dc_ps d) path)
     | Some (j, d) \<Rightarrow> j < length (bound_ids dtr') \<and> d = bound_ids dtr' ! j \<and> same_path (dc_ps d) path"
    using find_path_ok [OF ring sp, of 0, folded bound_ids_def, simplified drop_0 le0 simp_thms] by blast
  have "d \<in> set (bound_ids dtr')" by (simp add: b)
  then have "map_option snd r = Some d"
  proof (cases r)
    case (Some p)
    then show ?thesis using r(2) other by (cases p) (auto dest: nth_mem)
  qed (use r d in auto)
  then show ?thesis using s Ok r(1) dring_length [OF ring] by (simp add: x bind_spec_def ngtcp2_dcidtr_find_bound_dcid_def bound_ids_def)
qed (use bind_dcid_ok [OF assms(1-3), of st path ts] in auto)

definition ex_path :: ngtcp2_path where
  "ex_path = (let a = \<lparr>ad_addr = \<lparr>sin_family = NGTCP2_AF_INET, sin_port = [0, 80], sin_addr = [127, 0, 0, 1]\<rparr>, ad_addrlen = 16\<rparr> in
     \<lparr>path_local = a, path_remote = a, path_user_data = 0\<rparr>)"

theorem dcidtr_bind_find_witness:
  "path_present ex_path \<and> (case ngtcp2_dcidtr_bind_dcid None () ex_dtr ex_path 7 of
     Ok (st', dtr', d) \<Rightarrow> dc_seq d = 1 \<and> ngtcp2_dcidtr_find_bound_dcid dtr' ex_path = Ok (Some d) | Err e \<Rightarrow> True | Fault \<Rightarrow> False)"
proof -
  have p: "path_present ex_path" by (simp add: ex_path_def Let_def path_present_def path_specified_def)
  obtain d ds where u: "unused_ids ex_dtr = d # ds" "dc_seq d = 1" using ex_dtr_ok by (cases "unused_ids ex_dtr") auto
  show ?thesis using dcidtr_bind_find [where dtr = ex_dtr and cb = None and path = ex_path and st = "()" and ts = 7] ex_dtr_ok u p
    by (auto simp: cb_safe_def split: res.splits)
qed

end
