(* ===== verification/Pv.thy ===== *)
theory Pv
  imports Dcidtr_Correct
begin

text \<open>
  \<open>lib/ngtcp2_pv.c\<close>: the validation of a path. The data of the PATH_CHALLENGE frames sent are entries of a ring buffer of eight elements. The
  structure has a connection ID and a fallback for it.
\<close>

section \<open>Operations\<close>

record ngtcp2_pv_entry =
  pe_expiry :: u64
  pe_flags :: u8
  pe_data :: "u8 list"

record ngtcp2_pv =
  pv_dcid :: ngtcp2_dcid
  pv_fallback_dcid :: ngtcp2_dcid
  pv_ents :: "ngtcp2_pv_entry ngtcp2_ringbuf"
  pv_timeout :: u64
  pv_fallback_pto :: u64
  pv_started_ts :: u64
  pv_round :: nat
  pv_probe_pkt_left :: nat
  pv_flags :: u8

abbreviation (input) "NGTCP2_PV_FLAG_DONT_CARE \<equiv> 0x01 :: u8"
abbreviation (input) "NGTCP2_PV_FLAG_CANCEL_TIMER \<equiv> 0x02 :: u8"
abbreviation (input) "NGTCP2_PV_FLAG_FALLBACK_PRESENT \<equiv> 0x04 :: u8"
abbreviation (input) "NGTCP2_PV_NUM_PROBE_PKT \<equiv> 2 :: nat"

definition ngtcp2_pv_entry_init :: "u8 list \<Rightarrow> u64 \<Rightarrow> u8 \<Rightarrow> ngtcp2_pv_entry" where
  "ngtcp2_pv_entry_init data expiry flags = \<lparr>pe_expiry = expiry, pe_flags = flags, pe_data = data\<rparr>"

text \<open>The object is allocated: \<open>pv0\<close> is what its memory holds, of which \<open>fallback_dcid\<close> is not initialised.\<close>

definition ngtcp2_pv_new :: "bool \<Rightarrow> ngtcp2_pv \<Rightarrow> ngtcp2_dcid \<Rightarrow> u64 \<Rightarrow> u8 \<Rightarrow> ngtcp2_pv res" where
  "ngtcp2_pv_new ok pv0 dcid timeout flags =
    (if \<not> ok then Err NGTCP2_ERR_NOMEM else
     bindR (ngtcp2_ringbuf_buf_init 8 (rb_buf (pv_ents pv0))) (\<lambda>ents.
     Ok \<lparr>pv_dcid = ngtcp2_dcid_copy (pv_dcid pv0) dcid, pv_fallback_dcid = pv_fallback_dcid pv0, pv_ents = ents, pv_timeout = timeout,
         pv_fallback_pto = 0, pv_started_ts = - 1, pv_round = 0, pv_probe_pkt_left = NGTCP2_PV_NUM_PROBE_PKT, pv_flags = flags\<rparr>))"

definition ngtcp2_pv_add_entry :: "ngtcp2_pv \<Rightarrow> u8 list \<Rightarrow> u64 \<Rightarrow> u8 \<Rightarrow> u64 \<Rightarrow> ngtcp2_pv res" where
  "ngtcp2_pv_add_entry pv data expiry flags ts =
     assertR (pv_probe_pkt_left pv \<noteq> 0)
    (let pv = (if rb_count (pv_ents pv) = 0 then pv\<lparr>pv_started_ts := ts\<rparr> else pv) in
     bindR (rb_append (pv_ents pv) (\<lambda>_. ngtcp2_pv_entry_init data expiry flags)) (\<lambda>(rb, _).
     Ok (pv\<lparr>pv_ents := rb, pv_flags := pv_flags pv AND NOT NGTCP2_PV_FLAG_CANCEL_TIMER,
            pv_probe_pkt_left := pv_probe_pkt_left pv - 1\<rparr>)))"

function pv_validate_loop :: "ngtcp2_pv_entry ngtcp2_ringbuf \<Rightarrow> u8 list \<Rightarrow> nat \<Rightarrow> u8 res" where
  "pv_validate_loop rb data i =
    (if \<not> i < rb_count rb then Err NGTCP2_ERR_INVALID_ARGUMENT else
     bindR (rb_at rb i) (\<lambda>ent. if pe_data ent = data then Ok (pe_flags ent) else pv_validate_loop rb data (i + 1)))"
  by pat_completeness auto

termination pv_validate_loop
  by (relation "measure (\<lambda>(rb, _, i). rb_count rb - i)") auto

declare pv_validate_loop.simps [simp del]

text \<open>The result is \<open>*pflags\<close>.\<close>

definition ngtcp2_pv_validate :: "ngtcp2_pv \<Rightarrow> u8 list \<Rightarrow> u8 res" where
  "ngtcp2_pv_validate pv data =
     (if rb_count (pv_ents pv) = 0 then Err NGTCP2_ERR_INVALID_STATE else pv_validate_loop (pv_ents pv) data 0)"

definition ngtcp2_pv_handle_entry_expiry :: "ngtcp2_pv \<Rightarrow> u64 \<Rightarrow> ngtcp2_pv res" where
  "ngtcp2_pv_handle_entry_expiry pv ts =
    (if rb_count (pv_ents pv) = 0 then Ok pv else
     bindR (rb_at (pv_ents pv) (rb_count (pv_ents pv) - 1)) (\<lambda>ent.
     if pe_expiry ent > ts then Ok pv
     else Ok (pv\<lparr>pv_round := pv_round pv + 1, pv_probe_pkt_left := NGTCP2_PV_NUM_PROBE_PKT\<rparr>)))"

definition ngtcp2_pv_should_send_probe :: "ngtcp2_pv \<Rightarrow> bool" where
  "ngtcp2_pv_should_send_probe pv = (pv_probe_pkt_left pv > 0)"

definition ngtcp2_pv_validation_timed_out :: "ngtcp2_pv \<Rightarrow> u64 \<Rightarrow> bool res" where
  "ngtcp2_pv_validation_timed_out pv ts =
    (if pv_started_ts pv = - 1 then Ok False else
     assertR (rb_count (pv_ents pv) \<noteq> 0)
    (bindR (rb_at (pv_ents pv) (rb_count (pv_ents pv) - 1)) (\<lambda>ent.
     Ok (max (pv_started_ts pv + pv_timeout pv) (pe_expiry ent) \<le> ts))))"

definition ngtcp2_pv_next_expiry :: "ngtcp2_pv \<Rightarrow> u64 res" where
  "ngtcp2_pv_next_expiry pv =
    (if pv_flags pv AND NGTCP2_PV_FLAG_CANCEL_TIMER \<noteq> 0 \<or> rb_count (pv_ents pv) = 0 then Ok (- 1)
     else bindR (rb_at (pv_ents pv) (rb_count (pv_ents pv) - 1)) (\<lambda>ent. Ok (pe_expiry ent)))"

definition ngtcp2_pv_cancel_expired_timer :: "ngtcp2_pv \<Rightarrow> u64 \<Rightarrow> ngtcp2_pv res" where
  "ngtcp2_pv_cancel_expired_timer pv ts =
     bindR (ngtcp2_pv_next_expiry pv) (\<lambda>expiry.
     if expiry > ts then Ok pv else Ok (pv\<lparr>pv_flags := pv_flags pv OR NGTCP2_PV_FLAG_CANCEL_TIMER\<rparr>))"

definition ngtcp2_pv_set_fallback :: "ngtcp2_pv \<Rightarrow> ngtcp2_dcid \<Rightarrow> u64 \<Rightarrow> ngtcp2_pv" where
  "ngtcp2_pv_set_fallback pv dcid pto =
     pv\<lparr>pv_flags := pv_flags pv OR NGTCP2_PV_FLAG_FALLBACK_PRESENT, pv_fallback_dcid := ngtcp2_dcid_copy (pv_fallback_dcid pv) dcid,
        pv_fallback_pto := pto\<rparr>"

section \<open>Runs of a validation\<close>

text \<open>The challenges that have been sent, and the state; a challenge is sent when \<open>ngtcp2_pv_should_send_probe\<close> allows it.\<close>

inductive pv_run :: "ngtcp2_pv \<Rightarrow> ngtcp2_pv_entry list \<Rightarrow> ngtcp2_pv \<Rightarrow> bool" for pv0 where
  start: "pv_run pv0 [] pv0"
| sent: "pv_run pv0 es pv \<Longrightarrow> ngtcp2_pv_should_send_probe pv \<Longrightarrow> ts \<noteq> - 1 \<Longrightarrow> ngtcp2_pv_add_entry pv data expiry flags ts = Ok pv' \<Longrightarrow>
    pv_run pv0 (es @ [ngtcp2_pv_entry_init data expiry flags]) pv'"
| expiry: "pv_run pv0 es pv \<Longrightarrow> ngtcp2_pv_handle_entry_expiry pv ts = Ok pv' \<Longrightarrow> pv_run pv0 es pv'"
| cancel: "pv_run pv0 es pv \<Longrightarrow> ngtcp2_pv_cancel_expired_timer pv ts = Ok pv' \<Longrightarrow> pv_run pv0 es pv'"

definition last_n :: "nat \<Rightarrow> 'a list \<Rightarrow> 'a list" where
  "last_n n xs = drop (length xs - n) xs"

definition pv_inv :: "ngtcp2_pv_entry list \<Rightarrow> ngtcp2_pv \<Rightarrow> bool" where
  "pv_inv es pv = (dring 8 (pv_ents pv) \<and> rb_elems (pv_ents pv) = last_n 8 es \<and> (pv_started_ts pv = - 1 \<longleftrightarrow> es = []) \<and>
     pv_probe_pkt_left pv \<le> 2 \<and> length es + pv_probe_pkt_left pv \<le> 2 * (pv_round pv + 1))"

lemma last_n_append:
  "(if length (last_n 8 es) = 8 then tl (last_n 8 es) else last_n 8 es) @ [e] = last_n 8 (es @ [e])"
proof (cases "8 \<le> length es")
  case True
  then have "Suc (length es - 8) = length es - 7" by simp
  then have "tl (drop (length es - 8) es) = drop (length es - 7) es" by (metis drop_Suc tl_drop)
  then show ?thesis using True by (simp add: last_n_def)
qed (simp add: last_n_def)

lemma last_n_Nil [simp]: "last_n 8 es = [] \<longleftrightarrow> es = []" "last_n 8 [] = []"
  by (cases es) (auto simp: last_n_def)

lemma pv_new_inv:
  assumes "ngtcp2_pv_new ok pv0 dcid timeout flags = Ok pv" "length (rb_buf (pv_ents pv0)) = 8"
  shows "pv_inv [] pv"
  using assms buf_init_ok [of 8 "rb_buf (pv_ents pv0)"] ispow2_small
  by (auto simp: ngtcp2_pv_new_def pv_inv_def dring_def last_n_def split: if_splits)

lemma pv_add_inv:
  assumes inv: "pv_inv es pv" and g: "ngtcp2_pv_should_send_probe pv" "ts \<noteq> - 1"
  shows "\<exists>pv'. ngtcp2_pv_add_entry pv data expiry flags ts = Ok pv' \<and> pv_inv (es @ [ngtcp2_pv_entry_init data expiry flags]) pv'"
proof -
  let ?e = "ngtcp2_pv_entry_init data expiry flags"
  have ring: "dring 8 (pv_ents pv)" "rb_elems (pv_ents pv) = last_n 8 es" using inv by (simp_all add: pv_inv_def)
  obtain rb' where a: "rb_append (pv_ents pv) (\<lambda>_. ?e) = Ok (rb', ?e)" "dring 8 rb'" "rb_elems rb' = last_n 8 (es @ [?e])"
    using rb_append_ok [OF ring(1), of "\<lambda>_. ?e"] dring_full [OF ring(1)] last_n_append [of es ?e] by (auto simp: ring(2))
  show ?thesis using inv g a by (auto simp: ngtcp2_pv_add_entry_def ngtcp2_pv_should_send_probe_def Let_def pv_inv_def ring(2))
qed

lemma pv_last:
  assumes "pv_inv es pv" "es \<noteq> []"
  shows "rb_at (pv_ents pv) (rb_count (pv_ents pv) - 1) = Ok (last es)"
proof -
  have ring: "dring 8 (pv_ents pv)" "rb_elems (pv_ents pv) = last_n 8 es" using assms by (simp_all add: pv_inv_def)
  have "last_n 8 es \<noteq> []" using assms(2) by simp
  moreover have "last (last_n 8 es) = last es" using assms(2) by (simp add: last_n_def last_drop)
  ultimately show ?thesis using rb_at_ok [OF ring(1), of "length (last_n 8 es) - 1"]
    by (simp add: ring(2) last_conv_nth)
qed

lemma pv_expiry_inv:
  assumes "pv_inv es pv"
  shows "\<exists>pv'. ngtcp2_pv_handle_entry_expiry pv ts = Ok pv' \<and> pv_inv es pv'"
proof (cases "es = []")
  case False
  then show ?thesis using pv_last [OF assms False] assms by (auto simp: ngtcp2_pv_handle_entry_expiry_def pv_inv_def)
qed (use assms in \<open>simp add: ngtcp2_pv_handle_entry_expiry_def pv_inv_def last_n_def\<close>)

lemma pv_next_expiry_ok:
  assumes "pv_inv es pv"
  shows "ngtcp2_pv_next_expiry pv = Ok (if pv_flags pv AND NGTCP2_PV_FLAG_CANCEL_TIMER \<noteq> 0 \<or> es = [] then - 1 else pe_expiry (last es))"
proof -
  have "rb_count (pv_ents pv) = 0 \<longleftrightarrow> es = []" using assms by (simp add: pv_inv_def)
  then show ?thesis using pv_last [OF assms] by (auto simp: ngtcp2_pv_next_expiry_def)
qed

lemma pv_run_inv: "pv_run pv0 es pv \<Longrightarrow> pv_inv [] pv0 \<Longrightarrow> pv_inv es pv"
proof (induction rule: pv_run.induct)
  case (sent es pv ts data expiry flags pv')
  then show ?case using pv_add_inv [of es pv ts data expiry flags] by auto
next
  case (expiry es pv ts pv')
  then show ?case using pv_expiry_inv [of es pv ts] by auto
next
  case (cancel es pv ts pv')
  then show ?case using pv_next_expiry_ok [of es pv]
    by (auto simp: ngtcp2_pv_cancel_expired_timer_def pv_inv_def split: if_splits)
qed simp

lemma validate_loop_ok:
  assumes "dring 8 rb"
  shows "(\<exists>e \<in> set (drop i (rb_elems rb)). pe_data e = data \<and> pv_validate_loop rb data i = Ok (pe_flags e)) \<or>
    (\<forall>e \<in> set (drop i (rb_elems rb)). pe_data e \<noteq> data) \<and> pv_validate_loop rb data i = Err NGTCP2_ERR_INVALID_ARGUMENT"
proof (induction "length (rb_elems rb) - i" arbitrary: i)
  case 0
  then show ?case by (subst pv_validate_loop.simps) simp
next
  case (Suc n)
  then have i: "i < length (rb_elems rb)" and n: "n = length (rb_elems rb) - (i + 1)" by simp_all
  have d: "drop i (rb_elems rb) = rb_elems rb ! i # drop (i + 1) (rb_elems rb)" using i by (simp add: Cons_nth_drop_Suc)
  have s: "pv_validate_loop rb data i = (if pe_data (rb_elems rb ! i) = data then Ok (pe_flags (rb_elems rb ! i)) else pv_validate_loop rb data (i + 1))"
    using rb_at_ok [OF assms i] i by (subst pv_validate_loop.simps) simp
  show ?case using Suc.hyps(1) [OF n] unfolding d s by auto
qed

text \<open>
  C22: During the validation of a path, a PATH_RESPONSE validates it exactly when its data is that of one of the eight latest PATH_CHALLENGE
  frames sent. At most two of them are sent for each time the timer has expired. No operation fails an assertion or leaves the buffer.
\<close>

theorem pv_validate_exact:
  assumes "ngtcp2_pv_new ok pv0 dcid timeout flags = Ok pv1" "length (rb_buf (pv_ents pv0)) = 8" "pv_run pv1 es pv"
  shows "((\<exists>f. ngtcp2_pv_validate pv data = Ok f) \<longleftrightarrow> data \<in> pe_data ` set (last_n 8 es)) \<and>
    length es \<le> 2 * (pv_round pv + 1) \<and> ngtcp2_pv_validate pv data \<noteq> Fault \<and> ngtcp2_pv_validation_timed_out pv ts \<noteq> Fault \<and>
    ngtcp2_pv_handle_entry_expiry pv ts \<noteq> Fault \<and> ngtcp2_pv_cancel_expired_timer pv ts \<noteq> Fault"
proof -
  have inv: "pv_inv es pv" using pv_run_inv [OF assms(3)] pv_new_inv [OF assms(1,2)] by simp
  have ring: "dring 8 (pv_ents pv)" "rb_elems (pv_ents pv) = last_n 8 es" using inv by (simp_all add: pv_inv_def)
  have "ngtcp2_pv_validation_timed_out pv ts \<noteq> Fault"
    using inv pv_last [OF inv] ring(2) by (cases "es = []") (auto simp: ngtcp2_pv_validation_timed_out_def pv_inv_def)
  moreover have "ngtcp2_pv_handle_entry_expiry pv ts \<noteq> Fault" using pv_expiry_inv [OF inv, of ts] by auto
  moreover have "ngtcp2_pv_cancel_expired_timer pv ts \<noteq> Fault"
    using pv_next_expiry_ok [OF inv] by (auto simp: ngtcp2_pv_cancel_expired_timer_def)
  ultimately show ?thesis using validate_loop_ok [OF ring(1), of 0 data] inv
    by (auto simp: ngtcp2_pv_validate_def ring(2) pv_inv_def)
qed

definition ex_pv0 :: ngtcp2_pv where
  "ex_pv0 = \<lparr>pv_dcid = dcid_none, pv_fallback_dcid = dcid_none,
     pv_ents = \<lparr>rb_buf = replicate 8 (ngtcp2_pv_entry_init [] 0 0), rb_mask = 0, rb_first = 0, rb_len = 0\<rparr>, pv_timeout = 0,
     pv_fallback_pto = 0, pv_started_ts = 0, pv_round = 0, pv_probe_pkt_left = 0, pv_flags = 0\<rparr>"

theorem pv_validate_exact_witness:
  "\<exists>pv1 pv es. ngtcp2_pv_new True ex_pv0 dcid_none 100 0 = Ok pv1 \<and> pv_run pv1 es pv \<and> length es = 1 \<and>
     (\<exists>f. ngtcp2_pv_validate pv [1, 2, 3, 4, 5, 6, 7, 8] = Ok f) \<and> \<not> (\<exists>f. ngtcp2_pv_validate pv [0] = Ok f)"
proof -
  obtain pv1 where 1: "ngtcp2_pv_new True ex_pv0 dcid_none 100 0 = Ok pv1"
    using buf_init_ok [of 8 "rb_buf (pv_ents ex_pv0)"] ispow2_small by (auto simp: ngtcp2_pv_new_def ex_pv0_def)
  have l: "length (rb_buf (pv_ents ex_pv0)) = 8" by (simp add: ex_pv0_def)
  have g: "ngtcp2_pv_should_send_probe pv1" using 1 by (auto simp: ngtcp2_pv_new_def ngtcp2_pv_should_send_probe_def bindR_eq_Ok)
  obtain pv where 2: "ngtcp2_pv_add_entry pv1 [1, 2, 3, 4, 5, 6, 7, 8] 50 0 10 = Ok pv"
    using pv_add_inv [OF pv_new_inv [OF 1 l] g, of 10 "[1, 2, 3, 4, 5, 6, 7, 8]" 50 0] by auto
  have r: "pv_run pv1 ([] @ [ngtcp2_pv_entry_init [1, 2, 3, 4, 5, 6, 7, 8] 50 0]) pv" by (rule pv_run.sent [OF pv_run.start g _ 2]) simp
  show ?thesis
    using pv_validate_exact [OF 1 l r, of "[1, 2, 3, 4, 5, 6, 7, 8]" 0] pv_validate_exact [OF 1 l r, of "[0]" 0] 1 r
    by (intro exI [of _ pv1] exI [of _ pv] exI [of _ "[ngtcp2_pv_entry_init [1, 2, 3, 4, 5, 6, 7, 8] 50 0]"])
      (simp add: last_n_def ngtcp2_pv_entry_init_def)
qed

end
