(* ===== verification/Dcid_Conn.thy ===== *)
theory Dcid_Conn
  imports Pv Gaptr Frame
begin

text \<open>
  The destination connection IDs of a connection, in \<open>lib/ngtcp2_conn.c\<close>: the ID in use, the tracker of unused, bound and retired ones, a
  path validation with its ID and fallback, and the numbers received. The operations handle NEW_CONNECTION_ID frames, retire IDs in use,
  bind an ID to a path, end a path validation, and list the IDs in use.

  The state is the fields of \<open>ngtcp2_conn\<close> that they use. The calls of the application's callbacks are recorded in \<open>dn_events\<close>; a callback
  is a parameter that answers whether it succeeds, with everything it has been called with. \<open>dn_frc_al\<close> answers the allocations of frames.
  The state after an error is not modelled: the connection is closed.
\<close>

section \<open>State and callbacks\<close>

datatype ngtcp2_connection_id_status_type = NGTCP2_CONNECTION_ID_STATUS_TYPE_ACTIVATE | NGTCP2_CONNECTION_ID_STATUS_TYPE_DEACTIVATE

datatype ngtcp2_path_validation_result = NGTCP2_PATH_VALIDATION_RESULT_SUCCESS | NGTCP2_PATH_VALIDATION_RESULT_FAILURE
  | NGTCP2_PATH_VALIDATION_RESULT_ABORTED

datatype dcid_event =
    Dcid_status ngtcp2_connection_id_status_type u64 ngtcp2_cid "u8 list option"
  | Path_validation u32 ngtcp2_path "ngtcp2_path option" ngtcp2_path_validation_result
  | Begin_path_validation u32 ngtcp2_path "ngtcp2_path option"

record dcid_cbs =
  cb_dcid_status2 :: "(dcid_event list \<Rightarrow> bool) option"
  cb_path_validation :: "(dcid_event list \<Rightarrow> bool) option"
  cb_begin_path_validation :: "(dcid_event list \<Rightarrow> bool) option"

record dcid_conn =
  dn_server :: bool
  dn_handshake_completed :: bool
  dn_current :: ngtcp2_dcid
  dn_dtr :: ngtcp2_dcidtr
  dn_seqgap :: ngtcp2_gaptr
  dn_retire_prior_to :: u64
  dn_pv :: "ngtcp2_pv option"
  dn_frq :: "ngtcp2_frame list"
  dn_active_connection_id_limit :: u64
  dn_events :: "dcid_event list"
  dn_frc_al :: alloc

abbreviation (input) "NGTCP2_PV_FLAG_PREFERRED_ADDR \<equiv> 0x10 :: u8"
abbreviation (input) "NGTCP2_PATH_VALIDATION_FLAG_NONE \<equiv> 0x00 :: u32"
abbreviation (input) "NGTCP2_PATH_VALIDATION_FLAG_PREFERRED_ADDR \<equiv> 0x01 :: u32"
abbreviation (input) "NGTCP2_PATH_VALIDATION_FLAG_NEW_TOKEN \<equiv> 0x02 :: u32"

definition has_fallback :: "ngtcp2_pv \<Rightarrow> bool" where
  "has_fallback pv = (pv_flags pv AND NGTCP2_PV_FLAG_FALLBACK_PRESENT \<noteq> 0)"

definition call_user :: "(dcid_event list \<Rightarrow> bool) option \<Rightarrow> dcid_conn \<Rightarrow> dcid_event \<Rightarrow> dcid_conn res" where
  "call_user cb conn ev =
    (case cb of None \<Rightarrow> Ok conn
     | Some f \<Rightarrow> let evs = dn_events conn @ [ev] in
         if f evs then Ok (conn\<lparr>dn_events := evs\<rparr>) else Err NGTCP2_ERR_CALLBACK_FAILURE)"

definition validation_flags :: "ngtcp2_pv \<Rightarrow> u32" where
  "validation_flags pv =
    (if pv_flags pv AND NGTCP2_PV_FLAG_PREFERRED_ADDR \<noteq> 0
     then NGTCP2_PATH_VALIDATION_FLAG_NONE OR NGTCP2_PATH_VALIDATION_FLAG_PREFERRED_ADDR else NGTCP2_PATH_VALIDATION_FLAG_NONE)"

definition fallback_path :: "ngtcp2_pv \<Rightarrow> ngtcp2_path option" where
  "fallback_path pv = (if has_fallback pv then Some (dc_ps (pv_fallback_dcid pv)) else None)"

definition conn_call_begin_path_validation :: "dcid_cbs \<Rightarrow> dcid_conn \<Rightarrow> ngtcp2_pv option \<Rightarrow> dcid_conn res" where
  "conn_call_begin_path_validation cbs conn pv =
    (case pv of None \<Rightarrow> Ok conn
     | Some pv \<Rightarrow> call_user (cb_begin_path_validation cbs) conn
         (Begin_path_validation (validation_flags pv) (dc_ps (pv_dcid pv)) (fallback_path pv)))"

definition conn_call_path_validation :: "dcid_cbs \<Rightarrow> dcid_conn \<Rightarrow> ngtcp2_pv \<Rightarrow> ngtcp2_path_validation_result \<Rightarrow> dcid_conn res" where
  "conn_call_path_validation cbs conn pv r =
    (if cb_path_validation cbs = None then Ok conn else
     let flags = validation_flags pv in
     bindR (case fallback_path pv of
         Some fallback \<Rightarrow>
           if dn_server conn then
             bindR (ngtcp2_addr_cmp (path_remote (dc_ps (pv_dcid pv))) (path_remote fallback)) (\<lambda>c.
             Ok (if c AND (NGTCP2_ADDR_CMP_FLAG_ADDR OR NGTCP2_ADDR_CMP_FLAG_FAMILY) \<noteq> 0
                 then flags OR NGTCP2_PATH_VALIDATION_FLAG_NEW_TOKEN else flags))
           else Ok flags
       | None \<Rightarrow> Ok flags) (\<lambda>flags.
     call_user (cb_path_validation cbs) conn (Path_validation flags (dc_ps (pv_dcid pv)) (fallback_path pv) r)))"

definition conn_call_dcid_status :: "dcid_cbs \<Rightarrow> dcid_conn \<Rightarrow> ngtcp2_connection_id_status_type \<Rightarrow> ngtcp2_dcid \<Rightarrow> dcid_conn res" where
  "conn_call_dcid_status cbs conn type dcid =
     call_user (cb_dcid_status2 cbs) conn
       (Dcid_status type (dc_seq dcid) (dc_cid dcid) (if token_present dcid then Some (dc_token dcid) else None))"

definition conn_call_activate_dcid :: "dcid_cbs \<Rightarrow> dcid_conn \<Rightarrow> ngtcp2_dcid \<Rightarrow> dcid_conn res" where
  "conn_call_activate_dcid cbs conn dcid = conn_call_dcid_status cbs conn NGTCP2_CONNECTION_ID_STATUS_TYPE_ACTIVATE dcid"

definition conn_call_deactivate_dcid :: "dcid_cbs \<Rightarrow> dcid_conn \<Rightarrow> ngtcp2_dcid \<Rightarrow> dcid_conn res" where
  "conn_call_deactivate_dcid cbs conn dcid = conn_call_dcid_status cbs conn NGTCP2_CONNECTION_ID_STATUS_TYPE_DEACTIVATE dcid"

section \<open>Retirement\<close>

definition conn_enqueue_retire_connection_id :: "dcid_conn \<Rightarrow> u64 \<Rightarrow> dcid_conn res" where
  "conn_enqueue_retire_connection_id conn seq =
    (let (ok, al) = ksl_alloc (dn_frc_al conn) in
     if \<not> ok then Err NGTCP2_ERR_NOMEM
     else Ok (conn\<lparr>dn_frq := Fr_retire_connection_id \<lparr>rci_type = NGTCP2_FRAME_RETIRE_CONNECTION_ID, rci_seq = seq\<rparr> # dn_frq conn,
                   dn_frc_al := al\<rparr>))"

definition conn_on_retire :: "dcid_conn \<Rightarrow> ngtcp2_dcid \<Rightarrow> dcid_conn res" where
  "conn_on_retire conn dcid = conn_enqueue_retire_connection_id conn (dc_seq dcid)"

definition conn_retire_active_dcid :: "dcid_cbs \<Rightarrow> dcid_conn \<Rightarrow> ngtcp2_dcid \<Rightarrow> u64 \<Rightarrow> dcid_conn res" where
  "conn_retire_active_dcid cbs conn dcid ts =
     assertR (dc_cid dcid \<noteq> [])
    (bindR (ngtcp2_dcidtr_retire_active_dcid (conn_call_deactivate_dcid cbs) conn (dn_dtr conn) dcid ts) (\<lambda>(conn, dtr).
     conn_enqueue_retire_connection_id (conn\<lparr>dn_dtr := dtr\<rparr>) (dc_seq dcid)))"

definition conn_bind_dcid :: "dcid_conn \<Rightarrow> ngtcp2_path \<Rightarrow> u64 \<Rightarrow> (dcid_conn \<times> ngtcp2_dcid) res" where
  "conn_bind_dcid conn path ts =
     bindR (ngtcp2_path_eq (dc_ps (dn_current conn)) path) (\<lambda>eq.
     assertR (\<not> eq)
    (bindR (case dn_pv conn of None \<Rightarrow> Ok False | Some pv \<Rightarrow> ngtcp2_path_eq (dc_ps (pv_dcid pv)) path) (\<lambda>eq.
     assertR (\<not> eq)
    (bindR (case dn_pv conn of None \<Rightarrow> Ok False
            | Some pv \<Rightarrow> if has_fallback pv then ngtcp2_path_eq (dc_ps (pv_fallback_dcid pv)) path else Ok False) (\<lambda>eq.
     assertR (\<not> eq)
    (bindR (ngtcp2_dcidtr_find_bound_dcid (dn_dtr conn) path) (\<lambda>found.
     case found of Some dcid \<Rightarrow> Ok (conn, dcid) | None \<Rightarrow>
     if dc_cid (dn_current conn) = [] then
       bindR (ngtcp2_dcidtr_bind_zerolen_dcid (dn_dtr conn) path) (\<lambda>(dtr, dcid). Ok (conn\<lparr>dn_dtr := dtr\<rparr>, dcid))
     else if ngtcp2_dcidtr_unused_empty (dn_dtr conn) then Err NGTCP2_ERR_CONN_ID_BLOCKED
     else
       bindR (ngtcp2_dcidtr_bind_dcid (Some conn_on_retire) conn (dn_dtr conn) path ts) (\<lambda>(conn, dtr, dcid).
       Ok (conn\<lparr>dn_dtr := dtr\<rparr>, dcid)))))))))"

definition conn_stop_pv :: "dcid_cbs \<Rightarrow> dcid_conn \<Rightarrow> u64 \<Rightarrow> dcid_conn res" where
  "conn_stop_pv cbs conn ts =
    (case dn_pv conn of None \<Rightarrow> Ok conn
     | Some pv \<Rightarrow>
         bindR (if dc_cid (pv_dcid pv) \<noteq> [] \<and> dc_seq (pv_dcid pv) \<noteq> dc_seq (dn_current conn)
                then conn_retire_active_dcid cbs conn (pv_dcid pv) ts else Ok conn) (\<lambda>conn.
         bindR (if has_fallback pv \<and> dc_cid (pv_fallback_dcid pv) \<noteq> [] \<and>
                   dc_seq (pv_fallback_dcid pv) \<noteq> dc_seq (dn_current conn) \<and> dc_seq (pv_fallback_dcid pv) \<noteq> dc_seq (pv_dcid pv)
                then conn_retire_active_dcid cbs conn (pv_fallback_dcid pv) ts else Ok conn) (\<lambda>conn.
         Ok (conn\<lparr>dn_pv := None\<rparr>))))"

definition conn_abort_pv :: "dcid_cbs \<Rightarrow> dcid_conn \<Rightarrow> u64 \<Rightarrow> dcid_conn res" where
  "conn_abort_pv cbs conn ts =
    (case dn_pv conn of None \<Rightarrow> Fault
     | Some pv \<Rightarrow>
         bindR (if pv_flags pv AND NGTCP2_PV_FLAG_DONT_CARE = 0
                then conn_call_path_validation cbs conn pv NGTCP2_PATH_VALIDATION_RESULT_ABORTED else Ok conn) (\<lambda>conn.
         conn_stop_pv cbs conn ts))"

section \<open>NEW_CONNECTION_ID\<close>

text \<open>The end of \<open>conn_recv_new_connection_id\<close>, for a number that has not been seen; \<open>al\<close> answers the allocations of the gap tracker.\<close>

definition extra_dcid :: "dcid_conn \<Rightarrow> nat" where
  "extra_dcid conn =
    (let extra = (if dc_seq (dn_current conn) \<ge> dn_retire_prior_to conn then 1 else 0) in
     case dn_pv conn of None \<Rightarrow> extra
     | Some pv \<Rightarrow>
         let extra = (if dc_seq (pv_dcid pv) \<noteq> dc_seq (dn_current conn) \<and> dc_seq (pv_dcid pv) \<ge> dn_retire_prior_to conn
                      then extra + 1 else extra) in
         if has_fallback pv \<and> dc_seq (pv_fallback_dcid pv) \<noteq> dc_seq (dn_current conn) \<and>
            dc_seq (pv_fallback_dcid pv) \<ge> dn_retire_prior_to conn
         then extra + 1 else extra)"

definition conn_add_dcid :: "alloc \<Rightarrow> dcid_conn \<Rightarrow> ngtcp2_new_connection_id \<Rightarrow> dcid_conn res" where
  "conn_add_dcid al conn fr =
     bindR (ngtcp2_gaptr_push al (dn_seqgap conn) (nci_seq fr) 1) (\<lambda>(gaptr, rv, _).
     case rv of Some e \<Rightarrow> Err e | None \<Rightarrow>
     bindR (if ngtcp2_ksl_len (gt_gap gaptr) > 32 then ngtcp2_gaptr_drop_first_gap gaptr else Ok gaptr) (\<lambda>gaptr.
     let conn = conn\<lparr>dn_seqgap := gaptr\<rparr>; len = ngtcp2_dcidtr_inactive_len (dn_dtr conn) in
     if unat (dn_active_connection_id_limit conn) \<le> len + extra_dcid conn then Err NGTCP2_ERR_CONNECTION_ID_LIMIT
     else if len \<ge> 8 then Ok conn
     else bindR (ngtcp2_dcidtr_push_unused (dn_dtr conn) (nci_seq fr) (nci_cid fr) (Some (nci_token fr))) (\<lambda>dtr.
     Ok (conn\<lparr>dn_dtr := dtr\<rparr>))))"

text \<open>A new ID is compared with the current one, that of a path validation, the bound and the unused ones, not with the fallback of the path validation.\<close>

definition conn_recv_new_connection_id :: "alloc \<Rightarrow> dcid_conn \<Rightarrow> ngtcp2_new_connection_id \<Rightarrow> dcid_conn res" where
  "conn_recv_new_connection_id al conn fr =
    (if dc_cid (dn_current conn) = [] then Err NGTCP2_ERR_PROTO
     else if nci_retire_prior_to fr > nci_seq fr then Err NGTCP2_ERR_FRAME_ENCODING
     else
     bindR (ngtcp2_dcid_verify_uniqueness (dn_current conn) (nci_seq fr) (nci_cid fr) (nci_token fr)) (\<lambda>_.
     let found = ngtcp2_cid_eq (dc_cid (dn_current conn)) (nci_cid fr) in
     bindR (case dn_pv conn of None \<Rightarrow> Ok found
            | Some pv \<Rightarrow> bindR (ngtcp2_dcid_verify_uniqueness (pv_dcid pv) (nci_seq fr) (nci_cid fr) (nci_token fr)) (\<lambda>_.
                Ok (if ngtcp2_cid_eq (dc_cid (pv_dcid pv)) (nci_cid fr) then True else found))) (\<lambda>found.
     bindR (ngtcp2_dcidtr_verify_token_uniqueness (dn_dtr conn) found (nci_seq fr) (nci_cid fr) (nci_token fr)) (\<lambda>found.
     let add = (\<lambda>conn.
       if found then Ok conn else
       bindR (ngtcp2_gaptr_is_pushed (dn_seqgap conn) (nci_seq fr) 1) (\<lambda>pushed.
       if pushed then Ok conn else conn_add_dcid al conn fr)) in
     if dn_retire_prior_to conn < nci_retire_prior_to fr then
       let conn = conn\<lparr>dn_retire_prior_to := nci_retire_prior_to fr\<rparr> in
       bindR (ngtcp2_dcidtr_retire_inactive_dcid_prior_to (Some conn_on_retire) conn (dn_dtr conn) (nci_retire_prior_to fr)) (\<lambda>(conn, dtr).
       add (conn\<lparr>dn_dtr := dtr\<rparr>))
     else if nci_seq fr < dn_retire_prior_to conn then
       if ngtcp2_dcidtr_check_retired_seq_tracked (dn_dtr conn) (nci_seq fr) then Ok conn
       else bindR (ngtcp2_dcidtr_track_retired_seq (dn_dtr conn) (nci_seq fr)) (\<lambda>dtr.
         conn_enqueue_retire_connection_id (conn\<lparr>dn_dtr := dtr\<rparr>) (nci_seq fr))
     else add conn))))"

text \<open>The three steps of \<open>conn_post_process_recv_new_connection_id\<close>: the current connection ID, that of the validation, and its fallback.\<close>

definition renew_current :: "dcid_cbs \<Rightarrow> dcid_conn \<Rightarrow> u64 \<Rightarrow> dcid_conn res" where
  "renew_current cbs conn ts =
     bindR (conn_retire_active_dcid cbs conn (dn_current conn) ts) (\<lambda>conn.
     bindR (ngtcp2_dcidtr_pop_unused_cid_token (dn_dtr conn) dcid_none) (\<lambda>(dtr, dcid).
     let conn = conn\<lparr>dn_dtr := dtr\<rparr>;
         cur = dc_seq (dn_current conn);
         pv' = map_option (\<lambda>pv.
           let pv = (if cur = dc_seq (pv_dcid pv) then pv\<lparr>pv_dcid := ngtcp2_dcid_copy_cid_token (pv_dcid pv) dcid\<rparr> else pv) in
           if has_fallback pv \<and> cur = dc_seq (pv_fallback_dcid pv)
           then pv\<lparr>pv_fallback_dcid := ngtcp2_dcid_copy_cid_token (pv_fallback_dcid pv) dcid\<rparr> else pv) (dn_pv conn);
         conn = conn\<lparr>dn_pv := pv', dn_current := ngtcp2_dcid_copy_cid_token (dn_current conn) dcid\<rparr> in
     conn_call_activate_dcid cbs conn (dn_current conn)))"

definition renew_pv_dcid :: "dcid_cbs \<Rightarrow> dcid_conn \<Rightarrow> ngtcp2_pv \<Rightarrow> u64 \<Rightarrow> dcid_conn res" where
  "renew_pv_dcid cbs conn pv ts =
     bindR (conn_retire_active_dcid cbs conn (pv_dcid pv) ts) (\<lambda>conn.
     bindR (ngtcp2_dcidtr_pop_unused_cid_token (dn_dtr conn) dcid_none) (\<lambda>(dtr, dcid).
     let pv = (if has_fallback pv \<and> dc_seq (pv_dcid pv) = dc_seq (pv_fallback_dcid pv)
               then pv\<lparr>pv_fallback_dcid := ngtcp2_dcid_copy_cid_token (pv_fallback_dcid pv) dcid\<rparr> else pv);
         pv = pv\<lparr>pv_dcid := ngtcp2_dcid_copy_cid_token (pv_dcid pv) dcid\<rparr> in
     conn_call_activate_dcid cbs (conn\<lparr>dn_dtr := dtr, dn_pv := Some pv\<rparr>) (pv_dcid pv)))"

definition renew_fallback_dcid :: "dcid_cbs \<Rightarrow> dcid_conn \<Rightarrow> ngtcp2_pv \<Rightarrow> u64 \<Rightarrow> dcid_conn res" where
  "renew_fallback_dcid cbs conn pv ts =
     bindR (conn_retire_active_dcid cbs conn (pv_fallback_dcid pv) ts) (\<lambda>conn.
     bindR (ngtcp2_dcidtr_pop_unused_cid_token (dn_dtr conn) dcid_none) (\<lambda>(dtr, dcid).
     let pv = pv\<lparr>pv_fallback_dcid := ngtcp2_dcid_copy_cid_token (pv_fallback_dcid pv) dcid\<rparr> in
     conn_call_activate_dcid cbs (conn\<lparr>dn_dtr := dtr, dn_pv := Some pv\<rparr>) (pv_fallback_dcid pv)))"

definition post_process_fallback :: "dcid_cbs \<Rightarrow> dcid_conn \<Rightarrow> u64 \<Rightarrow> dcid_conn res" where
  "post_process_fallback cbs conn ts =
    (case dn_pv conn of None \<Rightarrow> Ok conn
     | Some pv \<Rightarrow>
         if has_fallback pv \<and> dc_seq (pv_fallback_dcid pv) < dn_retire_prior_to conn then
           if ngtcp2_dcidtr_unused_empty (dn_dtr conn) then conn_abort_pv cbs conn ts else renew_fallback_dcid cbs conn pv ts
         else Ok conn)"

definition post_process_pv :: "dcid_cbs \<Rightarrow> dcid_conn \<Rightarrow> u64 \<Rightarrow> dcid_conn res" where
  "post_process_pv cbs conn ts =
    (case dn_pv conn of None \<Rightarrow> Ok conn
     | Some pv \<Rightarrow>
         if dc_seq (pv_dcid pv) < dn_retire_prior_to conn then
           if ngtcp2_dcidtr_unused_empty (dn_dtr conn) then conn_abort_pv cbs conn ts
           else bindR (renew_pv_dcid cbs conn pv ts) (\<lambda>conn. post_process_fallback cbs conn ts)
         else post_process_fallback cbs conn ts)"

definition conn_post_process_recv_new_connection_id :: "dcid_cbs \<Rightarrow> dcid_conn \<Rightarrow> u64 \<Rightarrow> dcid_conn res" where
  "conn_post_process_recv_new_connection_id cbs conn ts =
    (if dc_seq (dn_current conn) < dn_retire_prior_to conn then
       if ngtcp2_dcidtr_unused_empty (dn_dtr conn) then Ok conn
       else bindR (renew_current cbs conn ts) (\<lambda>conn. post_process_pv cbs conn ts)
     else post_process_pv cbs conn ts)"

section \<open>Connection IDs in use\<close>

record ngtcp2_cid_token2 =
  ct_seq :: u64
  ct_cid :: ngtcp2_cid
  ct_ps :: ngtcp2_path
  ct_token :: "u8 list option"

definition copy_dcid_to_cid_token :: "ngtcp2_dcid \<Rightarrow> ngtcp2_cid_token2" where
  "copy_dcid_to_cid_token src =
     \<lparr>ct_seq = dc_seq src, ct_cid = dc_cid src, ct_ps = ngtcp2_path_storage_init2 (dc_ps dcid_none) (dc_ps src),
      ct_token = (if token_present src then Some (dc_token src) else None)\<rparr>"

definition conn_get_num_active_dcid :: "dcid_conn \<Rightarrow> nat" where
  "conn_get_num_active_dcid conn =
    (if dc_cid (dn_current conn) = [] then 1 else
     let n = (1 :: nat);
         n = (case dn_pv conn of None \<Rightarrow> n
              | Some pv \<Rightarrow>
                  let n = (if dc_seq (pv_dcid pv) \<noteq> dc_seq (dn_current conn) then n + 1 else n) in
                  if has_fallback pv \<and> dc_seq (pv_fallback_dcid pv) \<noteq> dc_seq (dn_current conn) \<and>
                     dc_seq (pv_fallback_dcid pv) \<noteq> dc_seq (pv_dcid pv) then n + 1 else n) in
     n + rb_count (dtr_retired (dn_dtr conn)))"

function copy_retired :: "ngtcp2_dcid ngtcp2_ringbuf \<Rightarrow> nat \<Rightarrow> ngtcp2_cid_token2 list res" where
  "copy_retired rb i =
    (if \<not> i < rb_count rb then Ok [] else
     bindR (rb_at rb i) (\<lambda>dcid. bindR (copy_retired rb (i + 1)) (\<lambda>rest. Ok (copy_dcid_to_cid_token dcid # rest))))"
  by pat_completeness auto

termination copy_retired
  by (relation "measure (\<lambda>(rb, i). rb_count rb - i)") auto

declare copy_retired.simps [simp del]

text \<open>What is written to \<open>dest\<close>.\<close>

definition ngtcp2_conn_get_active_dcid3 :: "dcid_conn \<Rightarrow> ngtcp2_cid_token2 list res" where
  "ngtcp2_conn_get_active_dcid3 conn =
    (if \<not> dn_handshake_completed conn then Ok [] else
     let dest = [copy_dcid_to_cid_token (dn_current conn)] in
     if dc_cid (dn_current conn) = [] then Ok dest else
     let dest = (case dn_pv conn of None \<Rightarrow> dest
           | Some pv \<Rightarrow>
               let dest = (if dc_seq (pv_dcid pv) \<noteq> dc_seq (dn_current conn) then dest @ [copy_dcid_to_cid_token (pv_dcid pv)] else dest) in
               if has_fallback pv \<and> dc_seq (pv_fallback_dcid pv) \<noteq> dc_seq (dn_current conn) \<and>
                  dc_seq (pv_fallback_dcid pv) \<noteq> dc_seq (pv_dcid pv)
               then dest @ [copy_dcid_to_cid_token (pv_fallback_dcid pv)] else dest) in
     bindR (copy_retired (dtr_retired (dn_dtr conn)) 0) (\<lambda>rest. Ok (dest @ rest)))"

text \<open>The same call with \<open>dest\<close> a null pointer.\<close>

definition ngtcp2_conn_get_active_dcid_count :: "dcid_conn \<Rightarrow> nat" where
  "ngtcp2_conn_get_active_dcid_count conn = (if \<not> dn_handshake_completed conn then 0 else conn_get_num_active_dcid conn)"

end
