(* ===== verification/Dcid_Conn_Correct.thy ===== *)
theory Dcid_Conn_Correct
  imports Dcid_Conn
begin

text \<open>
  The connection IDs that a connection holds. \<open>dcids_ok\<close> is the invariant; \<open>accounted\<close> relates two states when every ID given up is tracked
  as retired and announced to the peer. Each operation of \<open>Dcid_Conn\<close> keeps the one and satisfies the other.
\<close>

section \<open>The connection IDs held\<close>

definition active_ids :: "dcid_conn \<Rightarrow> ngtcp2_dcid list" where
  "active_ids conn = dn_current conn # (case dn_pv conn of None \<Rightarrow> []
     | Some pv \<Rightarrow> pv_dcid pv # (if has_fallback pv then [pv_fallback_dcid pv] else []))"

definition inactive_ids :: "dcid_conn \<Rightarrow> ngtcp2_dcid list" where
  "inactive_ids conn = bound_ids (dn_dtr conn) @ unused_ids (dn_dtr conn)"

definition idv :: "ngtcp2_dcid \<Rightarrow> u64 \<times> ngtcp2_cid" where
  "idv d = (dc_seq d, dc_cid d)"

definition held :: "dcid_conn \<Rightarrow> u64 set" where
  "held conn = dc_seq ` set (active_ids conn @ inactive_ids conn)"

text \<open>The numbers of the IDs that the peer has not asked to retire.\<close>

definition live :: "dcid_conn \<Rightarrow> u64 set" where
  "live conn = {s \<in> held conn. dn_retire_prior_to conn \<le> s}"

text \<open>The IDs a new one is compared with: all but the fallback.\<close>

definition compared :: "dcid_conn \<Rightarrow> (u64 \<times> ngtcp2_cid) set" where
  "compared conn = idv ` (insert (dn_current conn) (pv_dcid ` set_option (dn_pv conn)) \<union> set (inactive_ids conn))"

definition pv_paths_ok :: "dcid_conn \<Rightarrow> bool" where
  "pv_paths_ok conn = (\<forall>pv. dn_pv conn = Some pv \<longrightarrow> sin_family (ad_addr (path_remote (dc_ps (pv_dcid pv)))) \<noteq> AF_UNSPEC)"

definition dcids_ok :: "dcid_conn \<Rightarrow> bool" where
  "dcids_ok conn = (dtr_ok (dn_dtr conn) \<and> gaptr_ok (dn_seqgap conn) \<and> pv_paths_ok conn \<and>
     held conn \<inter> gap_set (dn_seqgap conn) = {} \<and> (\<forall>d \<in> set (active_ids conn @ inactive_ids conn). dc_cid d \<noteq> []) \<and>
     distinct (map dc_seq (inactive_ids conn)) \<and> dc_seq ` set (active_ids conn) \<inter> dc_seq ` set (inactive_ids conn) = {} \<and>
     (\<forall>d \<in> set (inactive_ids conn). dn_retire_prior_to conn \<le> dc_seq d) \<and>
     (\<forall>p \<in> compared conn. \<forall>q \<in> compared conn. fst p = fst q \<longleftrightarrow> snd p = snd q) \<and>
     card (live conn) \<le> unat (dn_active_connection_id_limit conn))"

definition retire_seqs :: "dcid_conn \<Rightarrow> u64 set" where
  "retire_seqs conn = {s. Fr_retire_connection_id \<lparr>rci_type = NGTCP2_FRAME_RETIRE_CONNECTION_ID, rci_seq = s\<rparr> \<in> set (dn_frq conn)}"

text \<open>
  What the peer is told: the number of every ID that is given up is tracked, a RETIRE_CONNECTION_ID frame is queued for every number that is
  tracked newly, and for no others.
\<close>

definition accounted :: "dcid_conn \<Rightarrow> dcid_conn \<Rightarrow> bool" where
  "accounted conn conn' = (let t = set (dtr_retire_unacked (dn_dtr conn)); t' = set (dtr_retire_unacked (dn_dtr conn')) in
     t \<subseteq> t' \<and> retire_seqs conn \<subseteq> retire_seqs conn' \<and> t' - t \<subseteq> retire_seqs conn' \<and> retire_seqs conn' - retire_seqs conn \<subseteq> t' \<and>
     held conn - held conn' \<subseteq> t')"

lemma accounted_trans: "accounted a b \<Longrightarrow> accounted b c \<Longrightarrow> accounted a c"
  unfolding accounted_def Let_def by blast

lemma accounted_refl [simp]: "accounted a a"
  by (simp add: accounted_def)

text \<open>The fields that the retirement of connection IDs leaves as they are.\<close>

definition same_conn :: "dcid_conn \<Rightarrow> dcid_conn \<Rightarrow> bool" where
  "same_conn a b = (dn_current b = dn_current a \<and> dn_pv b = dn_pv a \<and> dn_seqgap b = dn_seqgap a \<and>
     dn_retire_prior_to b = dn_retire_prior_to a \<and> dn_active_connection_id_limit b = dn_active_connection_id_limit a \<and>
     dn_server b = dn_server a)"

lemma same_conn_refl [simp]: "same_conn a a"
  by (simp add: same_conn_def)

lemma same_conn_trans: "same_conn a b \<Longrightarrow> same_conn b c \<Longrightarrow> same_conn a c"
  by (simp add: same_conn_def)

lemma same_conn_dtr: "same_conn a b \<Longrightarrow> dn_dtr b = dn_dtr a \<Longrightarrow>
    active_ids b = active_ids a \<and> inactive_ids b = inactive_ids a \<and> held b = held a \<and> live b = live a \<and> dcids_ok b = dcids_ok a"
  by (simp add: same_conn_def active_ids_def inactive_ids_def held_def live_def dcids_ok_def compared_def pv_paths_ok_def)

lemma finite_live [simp]: "finite (live conn)"
  by (simp add: live_def held_def)

lemma dcids_shrink:
  assumes ok: "dcids_ok conn" and d: "dtr_ok (dn_dtr conn')"
    and f: "dn_seqgap conn' = dn_seqgap conn" "dn_active_connection_id_limit conn' = dn_active_connection_id_limit conn"
      "dn_retire_prior_to conn \<le> dn_retire_prior_to conn'" "pv_paths_ok conn'"
    and r: "\<forall>d \<in> set (inactive_ids conn'). dn_retire_prior_to conn' \<le> dc_seq d"
    and i: "mset (map idv (inactive_ids conn')) \<subseteq># mset (map idv (inactive_ids conn))"
    and a: "idv ` set (active_ids conn') \<subseteq> idv ` set (active_ids conn) \<union> (idv ` set (inactive_ids conn) - idv ` set (inactive_ids conn'))"
    and v: "compared conn' \<subseteq> compared conn"
  shows "dcids_ok conn'"
proof -
  have im: "dc_seq ` A = fst ` idv ` A" for A by (simp add: image_image idv_def)
  have sub: "idv ` set (inactive_ids conn') \<subseteq> idv ` set (inactive_ids conn)"
    using set_mset_mono [OF i] by simp
  have all: "idv ` set (active_ids conn' @ inactive_ids conn') \<subseteq> idv ` set (active_ids conn @ inactive_ids conn)"
    using a sub by auto
  have h: "held conn' \<subseteq> held conn" unfolding held_def im using all by blast
  have l: "live conn' \<subseteq> live conn" using h f(3) by (auto simp: live_def)
  have ne: "dc_cid d \<noteq> []" if "d \<in> set (active_ids conn' @ inactive_ids conn')" for d
  proof -
    have "idv d \<in> idv ` set (active_ids conn @ inactive_ids conn)" using all that by blast
    then obtain e where "e \<in> set (active_ids conn @ inactive_ids conn)" "dc_cid d = dc_cid e" by (auto simp: idv_def)
    then show ?thesis using ok unfolding dcids_ok_def by metis
  qed
  have ms: "map dc_seq xs = map fst (map idv xs)" for xs by (simp add: idv_def)
  have di: "distinct (map fst (map idv (inactive_ids conn)))" using ok by (simp add: dcids_ok_def idv_def comp_def)
  obtain X where X: "mset (map idv (inactive_ids conn)) = mset (map idv (inactive_ids conn')) + X"
    using i by (metis subset_mset.add_diff_inverse)
  obtain zs where "X = mset zs" by (metis ex_mset)
  then have "mset (map fst (map idv (inactive_ids conn))) = mset (map fst (map idv (inactive_ids conn') @ zs))"
    using arg_cong [OF X, of "image_mset fst"] by (simp add: multiset.map_comp [symmetric] del: map_map)
  then have d1: "distinct (map fst (map idv (inactive_ids conn')))" using di mset_eq_imp_distinct_iff by fastforce
  have inj: "inj_on fst (idv ` set (inactive_ids conn))" using di by (auto simp: distinct_map intro: inj_on_imageI)
  have dj: "dc_seq ` set (active_ids conn') \<inter> dc_seq ` set (inactive_ids conn') = {}"
  proof (rule ccontr)
    assume "\<not> ?thesis"
    then obtain p q where pq: "p \<in> idv ` set (active_ids conn')" "q \<in> idv ` set (inactive_ids conn')" "fst p = fst q" unfolding im by blast
    have q: "q \<in> idv ` set (inactive_ids conn)" using pq(2) sub by blast
    have "p \<notin> idv ` set (active_ids conn)"
    proof
      assume "p \<in> idv ` set (active_ids conn)"
      then have "fst p \<in> dc_seq ` set (active_ids conn) \<inter> dc_seq ` set (inactive_ids conn)" unfolding im using q pq(3) by (metis IntI image_eqI)
      moreover have "dc_seq ` set (active_ids conn) \<inter> dc_seq ` set (inactive_ids conn) = {}" using ok by (simp add: dcids_ok_def)
      ultimately show False by blast
    qed
    then have "p \<in> idv ` set (inactive_ids conn)" "p \<notin> idv ` set (inactive_ids conn')" using a pq(1) by blast+
    then show False using inj q pq(2,3) by (auto dest: inj_onD)
  qed
  have g: "held conn' \<inter> gap_set (dn_seqgap conn') = {}"
    using h ok unfolding dcids_ok_def f(1) by blast
  have u: "\<forall>p \<in> compared conn'. \<forall>q \<in> compared conn'. fst p = fst q \<longleftrightarrow> snd p = snd q"
  proof (intro ballI)
    fix p q
    assume "p \<in> compared conn'" "q \<in> compared conn'"
    then have "p \<in> compared conn" "q \<in> compared conn" using v by blast+
    then show "fst p = fst q \<longleftrightarrow> snd p = snd q" using ok unfolding dcids_ok_def by blast
  qed
  have c: "card (live conn') \<le> unat (dn_active_connection_id_limit conn')"
    using ok card_mono [OF finite_live l] unfolding dcids_ok_def f(2) by linarith
  have "gaptr_ok (dn_seqgap conn')" using ok f(1) by (simp add: dcids_ok_def)
  then show ?thesis using d f(4) g ne d1 dj r u c unfolding dcids_ok_def ms by blast
qed

section \<open>The steps\<close>

lemma call_user_ok: "okR (\<lambda>conn'. \<exists>evs. conn' = conn\<lparr>dn_events := evs\<rparr>) (call_user cb conn ev)"
  by (cases conn) (auto simp: call_user_def Let_def split: option.splits)

lemma same_events: "\<exists>evs. conn' = conn\<lparr>dn_events := evs\<rparr> \<Longrightarrow>
    same_conn conn conn' \<and> dn_dtr conn' = dn_dtr conn \<and> dn_frq conn' = dn_frq conn"
  by (auto simp: same_conn_def)

lemma call_dcid_status_ok:
  "okR (\<lambda>conn'. \<exists>evs. conn' = conn\<lparr>dn_events := evs\<rparr>) (conn_call_activate_dcid cbs conn d)"
  "okR (\<lambda>conn'. \<exists>evs. conn' = conn\<lparr>dn_events := evs\<rparr>) (conn_call_deactivate_dcid cbs conn d)"
  by (simp_all only: conn_call_activate_dcid_def conn_call_deactivate_dcid_def conn_call_dcid_status_def call_user_ok)

abbreviation (input) "retire_frame s \<equiv> Fr_retire_connection_id \<lparr>rci_type = NGTCP2_FRAME_RETIRE_CONNECTION_ID, rci_seq = s\<rparr>"

lemma enqueue_ok:
  "okR (\<lambda>conn'. \<exists>al. conn' = conn\<lparr>dn_frq := retire_frame seq # dn_frq conn, dn_frc_al := al\<rparr>) (conn_enqueue_retire_connection_id conn seq)"
  by (auto simp: conn_enqueue_retire_connection_id_def split: prod.splits)

lemma retire_seqs_Cons: "dn_frq conn' = retire_frame s # dn_frq conn \<Longrightarrow> retire_seqs conn' = insert s (retire_seqs conn)"
  by (auto simp: retire_seqs_def)

lemma on_retire_safe: "cb_safe (Some conn_on_retire)"
  by (auto simp: cb_safe_def conn_on_retire_def conn_enqueue_retire_connection_id_def split: prod.splits)

lemma on_retire_run:
  "cb_run (Some conn_on_retire) conn ds = Ok conn' \<Longrightarrow>
     same_conn conn conn' \<and> dn_dtr conn' = dn_dtr conn \<and> retire_seqs conn' = retire_seqs conn \<union> dc_seq ` set ds"
proof (induction ds arbitrary: conn)
  case (Cons d ds)
  then obtain conn1 where 1: "conn_on_retire conn d = Ok conn1" "cb_run (Some conn_on_retire) conn1 ds = Ok conn'"
    by (auto simp: bindR_eq_Ok)
  have "same_conn conn conn1 \<and> dn_dtr conn1 = dn_dtr conn \<and> retire_seqs conn1 = insert (dc_seq d) (retire_seqs conn)"
    using enqueue_ok [where conn = conn and seq = "dc_seq d"] 1(1) by (auto simp: conn_on_retire_def same_conn_def retire_seqs_def)
  then show ?case using Cons.IH [OF 1(2)] same_conn_trans by auto
qed simp

lemma accounted_dtr:
  assumes "same_conn conn conn'" "dn_dtr conn'' = dtr'" "conn'' = conn'\<lparr>dn_dtr := dtr'\<rparr>"
    "retire_seqs conn' = retire_seqs conn \<union> S" "set (dtr_retire_unacked dtr') = set (dtr_retire_unacked (dn_dtr conn)) \<union> S"
    "held conn - held conn'' \<subseteq> set (dtr_retire_unacked dtr')"
  shows "accounted conn conn''"
  using assms by (auto simp: accounted_def Let_def retire_seqs_def)

text \<open>An active ID is retired: it is tracked and announced; the caller replaces it.\<close>

definition retire_active_spec :: "dcid_conn \<Rightarrow> ngtcp2_dcid \<Rightarrow> dcid_conn \<Rightarrow> bool" where
  "retire_active_spec conn dcid conn' = (same_conn conn conn' \<and> dtr_ok (dn_dtr conn') \<and>
     dtr_unused (dn_dtr conn') = dtr_unused (dn_dtr conn) \<and> dtr_bound (dn_dtr conn') = dtr_bound (dn_dtr conn) \<and>
     set (dtr_retire_unacked (dn_dtr conn')) = insert (dc_seq dcid) (set (dtr_retire_unacked (dn_dtr conn))) \<and>
     retire_seqs conn' = insert (dc_seq dcid) (retire_seqs conn))"

lemma conn_retire_active_ok:
  assumes "dtr_ok (dn_dtr conn)" "dc_cid dcid \<noteq> []"
  shows "okR (retire_active_spec conn dcid) (conn_retire_active_dcid cbs conn dcid ts)"
proof -
  have nf: "conn_call_deactivate_dcid cbs st d \<noteq> Fault" for st d using call_dcid_status_ok(2) [of st cbs d] by auto
  have ev: "conn_call_deactivate_dcid cbs st d = Ok st' \<Longrightarrow> same_conn st st' \<and> dn_frq st' = dn_frq st" for st d st'
    using call_dcid_status_ok(2) [of st cbs d] by (auto simp: same_conn_def)
  have e: "assertR (dc_cid dcid \<noteq> []) x = x" for x :: "dcid_conn res" using assms(2) by simp
  show ?thesis unfolding conn_retire_active_dcid_def e
  proof (rule okR_bindI [OF retire_active_ok [OF assms(1) nf assms(2)]], goal_cases)
    case (1 x)
    obtain conn1 dtr1 where x: "x = (conn1, dtr1)" by (cases x)
    have c: "same_conn conn conn1 \<and> dn_frq conn1 = dn_frq conn" using 1 ev by (auto simp: x split: if_splits)
    have d: "dtr_ok dtr1" "dtr_unused dtr1 = dtr_unused (dn_dtr conn)" "dtr_bound dtr1 = dtr_bound (dn_dtr conn)"
      "set (dtr_retire_unacked dtr1) = insert (dc_seq dcid) (set (dtr_retire_unacked (dn_dtr conn)))" using 1 by (auto simp: x)
    show ?case unfolding x prod.case
    proof (rule okR_mono [OF enqueue_ok], elim exE)
      fix conn2 al
      assume 2: "conn2 = conn1\<lparr>dn_dtr := dtr1, dn_frq := retire_frame (dc_seq dcid) # dn_frq (conn1\<lparr>dn_dtr := dtr1\<rparr>), dn_frc_al := al\<rparr>"
      have "retire_seqs conn2 = insert (dc_seq dcid) (retire_seqs conn)" by (rule retire_seqs_Cons) (simp add: 2 c)
      moreover have "same_conn conn conn2" using c by (simp add: 2 same_conn_def)
      ultimately show "retire_active_spec conn dcid conn2" using d by (simp add: retire_active_spec_def 2)
    qed
  qed
qed

text \<open>Some active IDs with the same number are replaced by the oldest unused one: the effect of the three steps of the post-processing.\<close>

definition renewed :: "dcid_conn \<Rightarrow> u64 \<Rightarrow> dcid_conn \<Rightarrow> bool" where
  "renewed conn s conn' = (dtr_ok (dn_dtr conn') \<and> dn_seqgap conn' = dn_seqgap conn \<and> dn_server conn' = dn_server conn \<and>
     dn_active_connection_id_limit conn' = dn_active_connection_id_limit conn \<and> dn_retire_prior_to conn' = dn_retire_prior_to conn \<and>
     pv_paths_ok conn' \<and> bound_ids (dn_dtr conn') = bound_ids (dn_dtr conn) \<and> unused_ids (dn_dtr conn') = tl (unused_ids (dn_dtr conn)) \<and>
     map idv (active_ids conn') = map (\<lambda>d. idv (if dc_seq d = s then hd (unused_ids (dn_dtr conn)) else d)) (active_ids conn) \<and>
     (dn_pv conn' = None \<longleftrightarrow> dn_pv conn = None) \<and>
     set (dtr_retire_unacked (dn_dtr conn')) = insert s (set (dtr_retire_unacked (dn_dtr conn))) \<and>
     retire_seqs conn' = insert s (retire_seqs conn))"

lemma idv_copy [simp]: "idv (ngtcp2_dcid_copy_cid_token dest src) = idv src"
  using copy_cid_token_view [of dest src] by (simp add: idv_def)

lemma copy_cid_token_ps [simp]: "dc_ps (ngtcp2_dcid_copy_cid_token dest src) = dc_ps dest"
  by (simp add: ngtcp2_dcid_copy_cid_token_def Let_def)

lemma copy_cid_token_id [simp]: "dc_seq (ngtcp2_dcid_copy_cid_token dest src) = dc_seq src" "dc_cid (ngtcp2_dcid_copy_cid_token dest src) = dc_cid src"
  using copy_cid_token_view [of dest src] by simp_all

lemma has_fallback_simps [simp]:
  "has_fallback (pv\<lparr>pv_dcid := d\<rparr>) = has_fallback pv" "has_fallback (pv\<lparr>pv_fallback_dcid := d\<rparr>) = has_fallback pv"
  by (simp_all add: has_fallback_def)

text \<open>The common part: an active ID is retired and an unused one taken.\<close>

definition taken :: "dcid_conn \<Rightarrow> u64 \<Rightarrow> dcid_conn \<Rightarrow> ngtcp2_dcidtr \<Rightarrow> ngtcp2_dcid \<Rightarrow> bool" where
  "taken conn s conn' dtr' dcid = (same_conn conn conn' \<and> dtr_ok dtr' \<and> bound_ids dtr' = bound_ids (dn_dtr conn) \<and>
     unused_ids dtr' = tl (unused_ids (dn_dtr conn)) \<and> idv dcid = idv (hd (unused_ids (dn_dtr conn))) \<and>
     set (dtr_retire_unacked dtr') = insert s (set (dtr_retire_unacked (dn_dtr conn))) \<and> retire_seqs conn' = insert s (retire_seqs conn))"

lemma take_unused:
  assumes "dcids_ok conn" "unused_ids (dn_dtr conn) \<noteq> []" "dc_cid d \<noteq> []"
    and P: "\<And>conn' dtr' dcid. taken conn (dc_seq d) conn' dtr' dcid \<Longrightarrow> okR P (f conn' dtr' dcid)"
  shows "okR P (bindR (conn_retire_active_dcid cbs conn d ts) (\<lambda>conn.
     bindR (ngtcp2_dcidtr_pop_unused_cid_token (dn_dtr conn) dcid_none) (\<lambda>(dtr, dcid). f conn dtr dcid)))"
proof (rule okR_bindI [OF conn_retire_active_ok], goal_cases)
  case (3 conn1)
  then have u: "unused_ids (dn_dtr conn1) = unused_ids (dn_dtr conn)" "bound_ids (dn_dtr conn1) = bound_ids (dn_dtr conn)"
    by (simp_all add: retire_active_spec_def ids_defs)
  obtain dtr2 d2 where p: "ngtcp2_dcidtr_pop_unused_cid_token (dn_dtr conn1) dcid_none = Ok (dtr2, d2)" "dtr_ok dtr2"
    "unused_ids dtr2 = tl (unused_ids (dn_dtr conn))" "dtr2 = (dn_dtr conn1)\<lparr>dtr_unused := dtr_unused dtr2\<rparr>"
    "idv d2 = idv (hd (unused_ids (dn_dtr conn)))"
    using pop_unused_cid_token_ok [of "dn_dtr conn1" dcid_none] 3 assms(2) by (auto simp: retire_active_spec_def u idv_def)
  have f: "dtr_bound dtr2 = dtr_bound (dn_dtr conn1)" "dtr_retire_unacked dtr2 = dtr_retire_unacked (dn_dtr conn1)"
    by (subst p(4), simp)+
  have "taken conn (dc_seq d) conn1 dtr2 d2" using 3 p(2,3,5) u f by (simp add: retire_active_spec_def bound_ids_def taken_def)
  then show ?case using P p(1) by simp
qed (use assms in \<open>simp_all add: dcids_ok_def\<close>)

lemma update_simps [simp]:
  "active_ids (conn\<lparr>dn_events := evs\<rparr>) = active_ids conn" "retire_seqs (conn\<lparr>dn_events := evs\<rparr>) = retire_seqs conn"
  "pv_paths_ok (conn\<lparr>dn_events := evs\<rparr>) = pv_paths_ok conn" "retire_seqs (conn\<lparr>dn_dtr := dtr\<rparr>) = retire_seqs conn"
  "retire_seqs (conn\<lparr>dn_pv := pv\<rparr>) = retire_seqs conn" "retire_seqs (conn\<lparr>dn_current := d\<rparr>) = retire_seqs conn"
  by (simp_all add: active_ids_def retire_seqs_def pv_paths_ok_def)

lemma renewed_events: "renewed conn s conn1 \<Longrightarrow> \<exists>evs. conn2 = conn1\<lparr>dn_events := evs\<rparr> \<Longrightarrow> renewed conn s conn2"
  by (elim exE) (simp add: renewed_def)

lemma activate_renewed: "renewed conn s conn1 \<Longrightarrow> okR (renewed conn s) (conn_call_activate_dcid cbs conn1 d)"
  by (rule okR_mono [OF call_dcid_status_ok(1)]) (rule renewed_events)

lemma renew_current_ok:
  assumes "dcids_ok conn" "unused_ids (dn_dtr conn) \<noteq> []"
  shows "okR (renewed conn (dc_seq (dn_current conn))) (renew_current cbs conn ts)"
  unfolding renew_current_def
proof (rule take_unused [OF assms], goal_cases)
  case (2 conn1 dtr1 d1)
  then show ?case unfolding Let_def
    by (intro activate_renewed, use assms(1) in \<open>cases "dn_pv conn"\<close>)
      (auto simp: taken_def same_conn_def renewed_def active_ids_def pv_paths_ok_def dcids_ok_def)
qed (use assms in \<open>simp add: dcids_ok_def active_ids_def\<close>)

lemma renew_pv_ok:
  assumes "dcids_ok conn" "unused_ids (dn_dtr conn) \<noteq> []" "dn_pv conn = Some pv" "dc_seq (pv_dcid pv) \<noteq> dc_seq (dn_current conn)"
  shows "okR (renewed conn (dc_seq (pv_dcid pv))) (renew_pv_dcid cbs conn pv ts)"
  unfolding renew_pv_dcid_def
proof (rule take_unused [OF assms(1,2)], goal_cases)
  case (2 conn1 dtr1 d1)
  then show ?case unfolding Let_def
    by (intro activate_renewed, use assms in \<open>cases "has_fallback pv"\<close>)
      (auto simp: taken_def same_conn_def renewed_def active_ids_def pv_paths_ok_def dcids_ok_def)
qed (use assms in \<open>simp add: dcids_ok_def active_ids_def\<close>)

lemma renew_fallback_ok:
  assumes "dcids_ok conn" "unused_ids (dn_dtr conn) \<noteq> []" "dn_pv conn = Some pv" "has_fallback pv"
    "dc_seq (pv_fallback_dcid pv) \<noteq> dc_seq (dn_current conn)" "dc_seq (pv_fallback_dcid pv) \<noteq> dc_seq (pv_dcid pv)"
  shows "okR (renewed conn (dc_seq (pv_fallback_dcid pv))) (renew_fallback_dcid cbs conn pv ts)"
  unfolding renew_fallback_dcid_def
proof (rule take_unused [OF assms(1,2)], goal_cases)
  case (2 conn1 dtr1 d1)
  then show ?case unfolding Let_def using assms
    by (intro activate_renewed) (auto simp: taken_def same_conn_def renewed_def active_ids_def pv_paths_ok_def dcids_ok_def)
qed (use assms in \<open>simp add: dcids_ok_def active_ids_def\<close>)

lemma tl_inactive:
  assumes "inactive_ids conn = bs @ u # us" "inactive_ids conn' = bs @ us"
  shows "mset (map idv (inactive_ids conn')) \<subseteq># mset (map idv (inactive_ids conn))"
    "idv ` set (inactive_ids conn) = insert (idv u) (idv ` set (inactive_ids conn'))"
  using assms by auto

lemma compared_take: "compared conn = idv ` (set (take 2 (active_ids conn)) \<union> set (inactive_ids conn))"
  by (auto simp: compared_def active_ids_def numeral_2_eq_2 split: option.splits)

lemma renewed_dcids:
  assumes ok: "dcids_ok conn" and r: "renewed conn s conn'" and u: "unused_ids (dn_dtr conn) \<noteq> []"
    and s: "s \<in> dc_seq ` set (active_ids conn)"
  shows "dcids_ok conn' \<and> accounted conn conn' \<and> dc_seq ` set (active_ids conn') \<subseteq> dc_seq ` set (active_ids conn) - {s} \<union> dc_seq ` set (inactive_ids conn)"
proof -
  let ?u = "hd (unused_ids (dn_dtr conn))"
  have i: "inactive_ids conn = bound_ids (dn_dtr conn) @ ?u # tl (unused_ids (dn_dtr conn))"
    "inactive_ids conn' = bound_ids (dn_dtr conn) @ tl (unused_ids (dn_dtr conn))"
    using r u by (simp_all add: inactive_ids_def renewed_def)
  have dis: "distinct (map dc_seq (inactive_ids conn))" using ok by (simp add: dcids_ok_def)
  then have un: "dc_seq ?u \<notin> dc_seq ` set (inactive_ids conn')" unfolding i by auto
  then have uni: "idv ?u \<notin> idv ` set (inactive_ids conn')" by (auto simp: idv_def)
  have a: "map idv (active_ids conn') = map (\<lambda>d. idv (if dc_seq d = s then ?u else d)) (active_ids conn)" using r by (simp add: renewed_def)
  have ai: "idv ` set (active_ids conn') = (\<lambda>d. idv (if dc_seq d = s then ?u else d)) ` set (active_ids conn)"
    using arg_cong [OF a, of set] by simp
  have t: "map idv (take 2 (active_ids conn')) = map (\<lambda>d. idv (if dc_seq d = s then ?u else d)) (take 2 (active_ids conn))"
    using arg_cong [OF a, of "take 2"] by (simp only: take_map)
  have us: "?u \<in> set (inactive_ids conn)" unfolding i by simp
  have v: "compared conn' \<subseteq> compared conn"
    using arg_cong [OF t, of set] us tl_inactive(2) [OF i] unfolding compared_take image_Un by (auto split: if_splits)
  have "dcids_ok conn'"
  proof (rule dcids_shrink [OF ok])
    show "idv ` set (active_ids conn') \<subseteq> idv ` set (active_ids conn) \<union> (idv ` set (inactive_ids conn) - idv ` set (inactive_ids conn'))"
      unfolding ai by (rule image_subsetI) (use us uni in \<open>simp split: if_split\<close>)
    show "\<forall>d \<in> set (inactive_ids conn'). dn_retire_prior_to conn' \<le> dc_seq d"
      using ok r unfolding dcids_ok_def renewed_def i by auto
  qed (use r v tl_inactive(1) [OF i] in \<open>simp_all add: renewed_def\<close>)
  moreover have im: "dc_seq ` A = fst ` idv ` A" for A by (simp add: image_image idv_def)
  have as: "dc_seq ` set (active_ids conn') = (\<lambda>d. dc_seq (if dc_seq d = s then ?u else d)) ` set (active_ids conn)"
    unfolding im [of "set (active_ids conn')"] ai image_image by (simp add: idv_def)
  have h: "held conn - held conn' \<subseteq> {s}"
    using s unfolding held_def set_append image_Un as i by auto
  have "accounted conn conn'" using h r unfolding accounted_def Let_def renewed_def by auto
  moreover have "s \<noteq> dc_seq ?u" using s us ok unfolding dcids_ok_def by auto
  then have "dc_seq ` set (active_ids conn') \<subseteq> dc_seq ` set (active_ids conn) - {s} \<union> dc_seq ` set (inactive_ids conn)"
    unfolding as using us by (auto split: if_splits)
  ultimately show ?thesis by blast
qed

lemma retire_active_dcids:
  assumes "dcids_ok conn" "retire_active_spec conn d conn'"
  shows "dcids_ok conn' \<and> accounted conn conn' \<and> same_conn conn conn' \<and> inactive_ids conn' = inactive_ids conn \<and>
    active_ids conn' = active_ids conn \<and> dc_seq d \<in> set (dtr_retire_unacked (dn_dtr conn'))"
proof -
  have i: "inactive_ids conn' = inactive_ids conn" using assms(2) by (simp add: retire_active_spec_def inactive_ids_def ids_defs)
  have a: "active_ids conn' = active_ids conn" and s: "same_conn conn conn'"
    using assms(2) by (simp_all add: retire_active_spec_def same_conn_def active_ids_def)
  have h: "held conn' = held conn" by (simp add: held_def a i)
  have "dcids_ok conn'" using assms s h
    by (simp add: dcids_ok_def a i same_conn_def compared_def pv_paths_ok_def live_def retire_active_spec_def)
  moreover have "accounted conn conn'" using assms(2) by (auto simp: accounted_def Let_def h retire_active_spec_def)
  ultimately show ?thesis using i a s assms(2) by (simp add: retire_active_spec_def)
qed

lemma path_validation_ok:
  assumes "pv_paths_ok conn" "dn_pv conn = Some pv"
  shows "okR (\<lambda>conn'. \<exists>evs. conn' = conn\<lparr>dn_events := evs\<rparr>) (conn_call_path_validation cbs conn pv r)"
proof -
  have f: "sin_family (ad_addr (path_remote (dc_ps (pv_dcid pv)))) \<noteq> AF_UNSPEC" using assms by (simp add: pv_paths_ok_def)
  have c: "ngtcp2_addr_cmp (path_remote (dc_ps (pv_dcid pv))) p \<noteq> Fault" "ngtcp2_addr_cmp (path_remote (dc_ps (pv_dcid pv))) p \<noteq> Err e" for p e
    using f by (auto simp: ngtcp2_addr_cmp_def Let_def split: sa_family.splits)
  obtain k where k: "fallback_path pv = Some p \<longrightarrow> ngtcp2_addr_cmp (path_remote (dc_ps (pv_dcid pv))) (path_remote p) = Ok k" for p
    using c by (cases "fallback_path pv") (auto, metis res.exhaust)
  have keep: "\<exists>evs. conn = conn\<lparr>dn_events := evs\<rparr>" by (cases conn) auto
  show ?thesis
    using call_user_ok keep k by (auto simp: conn_call_path_validation_def Let_def split: option.splits)
qed

lemma stop_pv_ok:
  assumes ok: "dcids_ok conn" and pv: "dn_pv conn = Some pv"
  shows "okR (\<lambda>conn'. dcids_ok conn' \<and> accounted conn conn' \<and> dn_pv conn' = None \<and> dn_current conn' = dn_current conn \<and>
      inactive_ids conn' = inactive_ids conn \<and> dn_retire_prior_to conn' = dn_retire_prior_to conn) (conn_stop_pv cbs conn ts)"
proof -
  let ?Q = "\<lambda>conn d conn'. dcids_ok conn' \<and> accounted conn conn' \<and> same_conn conn conn' \<and> inactive_ids conn' = inactive_ids conn \<and>
    active_ids conn' = active_ids conn \<and> (dc_seq d \<noteq> dc_seq (dn_current conn) \<longrightarrow> dc_seq d \<in> set (dtr_retire_unacked (dn_dtr conn')))"
  have ne: "dc_cid (pv_dcid pv) \<noteq> []" "has_fallback pv \<Longrightarrow> dc_cid (pv_fallback_dcid pv) \<noteq> []"
    using ok pv by (auto simp: dcids_ok_def active_ids_def)
  have step: "okR (?Q c d) (if dc_cid d \<noteq> [] \<and> P then conn_retire_active_dcid cbs c d ts else Ok c)"
    if "dcids_ok c" "dc_cid d \<noteq> []" "\<not> P \<longrightarrow> dc_seq d = dc_seq (dn_current c) \<or> dc_seq d \<in> set (dtr_retire_unacked (dn_dtr c))" for c d P
  proof (cases P)
    case True
    have "okR (?Q c d) (conn_retire_active_dcid cbs c d ts)"
      by (rule okR_mono [OF conn_retire_active_ok]) (use that retire_active_dcids [OF that(1)] in \<open>auto simp: dcids_ok_def\<close>)
    then show ?thesis using True that by simp
  qed (use that in auto)
  show ?thesis unfolding conn_stop_pv_def pv option.case
  proof (rule okR_bindI [OF step [OF ok ne(1)]], goal_cases)
    case (2 c1)
    let ?r = "if has_fallback pv then ?Q c1 (pv_fallback_dcid pv) else (=) c1"
    have s1: "dn_current c1 = dn_current conn" "dn_pv c1 = Some pv" using 2 pv by (simp_all add: same_conn_def)
    have 3: "okR ?r (if has_fallback pv \<and> dc_cid (pv_fallback_dcid pv) \<noteq> [] \<and> dc_seq (pv_fallback_dcid pv) \<noteq> dc_seq (dn_current c1) \<and>
        dc_seq (pv_fallback_dcid pv) \<noteq> dc_seq (pv_dcid pv) then conn_retire_active_dcid cbs c1 (pv_fallback_dcid pv) ts else Ok c1)"
    proof (cases "has_fallback pv")
      case True
      have "okR (?Q c1 (pv_fallback_dcid pv)) (if dc_cid (pv_fallback_dcid pv) \<noteq> [] \<and>
          (dc_seq (pv_fallback_dcid pv) \<noteq> dc_seq (dn_current c1) \<and> dc_seq (pv_fallback_dcid pv) \<noteq> dc_seq (pv_dcid pv))
        then conn_retire_active_dcid cbs c1 (pv_fallback_dcid pv) ts else Ok c1)"
        by (rule step) (use 2 ne(2) [OF True] s1 in auto)
      then show ?thesis using True by simp
    qed simp
    show ?case
    proof (rule okR_bindI [OF 3], unfold okR_simps)
      fix c2
      assume r: "?r c2"
      let ?c = "c2\<lparr>dn_pv := None\<rparr>"
      have q: "dcids_ok c2" "accounted c1 c2" "same_conn c1 c2" "inactive_ids c2 = inactive_ids c1" using r 2 by (auto split: if_splits)
      have s2: "dn_current c2 = dn_current conn" "dn_pv c2 = Some pv" using q(3) s1 by (simp_all add: same_conn_def)
      have a: "active_ids ?c = [dn_current conn]" "inactive_ids ?c = inactive_ids c2" using s2 by (simp_all add: active_ids_def inactive_ids_def)
      have "dcids_ok ?c"
      proof (rule dcids_shrink [OF q(1)])
        show "\<forall>d \<in> set (inactive_ids ?c). dn_retire_prior_to ?c \<le> dc_seq d" using q(1) by (simp add: a dcids_ok_def)
        show "compared ?c \<subseteq> compared c2" by (auto simp: compared_def inactive_ids_def)
      qed (use q(1) s2 in \<open>simp_all add: a dcids_ok_def pv_paths_ok_def active_ids_def\<close>)
      moreover have h: "dc_seq ` set (active_ids c2) - {dc_seq (dn_current conn)} \<subseteq> set (dtr_retire_unacked (dn_dtr c2))"
      proof -
        have "dc_seq (pv_dcid pv) \<noteq> dc_seq (dn_current conn) \<longrightarrow> dc_seq (pv_dcid pv) \<in> set (dtr_retire_unacked (dn_dtr c2))"
          using 2 q(2) by (auto simp: accounted_def Let_def)
        moreover have "has_fallback pv \<and> dc_seq (pv_fallback_dcid pv) \<noteq> dc_seq (dn_current conn) \<longrightarrow>
            dc_seq (pv_fallback_dcid pv) \<in> set (dtr_retire_unacked (dn_dtr c2))" using r s1 by auto
        ultimately show ?thesis unfolding active_ids_def s2 by auto
      qed
      have "accounted c2 ?c" using h a unfolding accounted_def Let_def held_def retire_seqs_def by auto
      then have "accounted conn ?c" using 2 q(2) accounted_trans by blast
      moreover have "dn_retire_prior_to c2 = dn_retire_prior_to conn" using 2 q(3) by (simp add: same_conn_def)
      ultimately show "dcids_ok ?c \<and> accounted conn ?c \<and> dn_pv ?c = None \<and> dn_current ?c = dn_current conn \<and>
        inactive_ids ?c = inactive_ids conn \<and> dn_retire_prior_to ?c = dn_retire_prior_to conn"
        using a s2 q(4) 2 by simp
    qed
  qed (use ok pv in simp)
qed

definition dcid_step :: "dcid_conn \<Rightarrow> dcid_conn \<Rightarrow> bool" where
  "dcid_step conn conn' = (dcids_ok conn' \<and> accounted conn conn' \<and> dn_retire_prior_to conn' = dn_retire_prior_to conn)"

lemma dcid_step_trans: "dcid_step a b \<Longrightarrow> dcid_step b c \<Longrightarrow> dcid_step a c"
  unfolding dcid_step_def using accounted_trans by metis

lemma events_dcids:
  assumes "\<exists>evs. conn' = conn\<lparr>dn_events := evs\<rparr>" "dcids_ok conn"
  shows "dcid_step conn conn' \<and> dn_pv conn' = dn_pv conn \<and> dn_current conn' = dn_current conn \<and> inactive_ids conn' = inactive_ids conn"
proof -
  have s: "same_conn conn conn'" "dn_dtr conn' = dn_dtr conn" "retire_seqs conn' = retire_seqs conn" using assms(1) by (auto simp: same_conn_def)
  then show ?thesis using same_conn_dtr [OF s(1,2)] assms(2)
    by (simp add: dcid_step_def same_conn_def accounted_def)
qed

lemma abort_pv_ok:
  assumes ok: "dcids_ok conn" and pv: "dn_pv conn = Some pv"
  shows "okR (\<lambda>conn'. dcid_step conn conn' \<and> dn_pv conn' = None \<and> dn_current conn' = dn_current conn \<and>
      inactive_ids conn' = inactive_ids conn) (conn_abort_pv cbs conn ts)"
proof -
  have p: "pv_paths_ok conn" using ok by (simp add: dcids_ok_def)
  let ?Q = "\<lambda>conn'. dcid_step conn conn' \<and> dn_pv conn' = dn_pv conn \<and> dn_current conn' = dn_current conn \<and> inactive_ids conn' = inactive_ids conn"
  have 0: "okR ?Q (conn_call_path_validation cbs conn pv r)" for r
    by (rule okR_mono [OF path_validation_ok [OF p pv]]) (use events_dcids [OF _ ok] in blast)
  have 1: "okR ?Q (if pv_flags pv AND NGTCP2_PV_FLAG_DONT_CARE = 0
      then conn_call_path_validation cbs conn pv NGTCP2_PATH_VALIDATION_RESULT_ABORTED else Ok conn)"
    using 0 ok by (simp add: dcid_step_def)
  show ?thesis unfolding conn_abort_pv_def pv option.case
  proof (rule okR_bindI [OF 1])
    fix c
    assume c: "?Q c"
    then have "dcids_ok c" "dn_pv c = Some pv" using pv by (simp_all add: dcid_step_def)
    then show "okR (\<lambda>conn'. dcid_step conn conn' \<and> dn_pv conn' = None \<and> dn_current conn' = dn_current conn \<and>
      inactive_ids conn' = inactive_ids conn) (conn_stop_pv cbs c ts)"
      by (rule okR_mono [OF stop_pv_ok]) (use c dcid_step_trans [of conn c] in \<open>auto simp: dcid_step_def\<close>)
  qed
qed

lemma unused_empty_iff: "ngtcp2_dcidtr_unused_empty dtr \<longleftrightarrow> unused_ids dtr = []"
  by (simp add: ngtcp2_dcidtr_unused_empty_def unused_ids_def)

text \<open>The active IDs have been replaced: none of them is to be retired.\<close>

definition all_current :: "dcid_conn \<Rightarrow> bool" where
  "all_current conn = (\<forall>d \<in> set (active_ids conn). dn_retire_prior_to conn \<le> dc_seq d)"

lemma renewed_step:
  assumes "dcids_ok conn" "renewed conn s conn'" "unused_ids (dn_dtr conn) \<noteq> []" "s \<in> dc_seq ` set (active_ids conn)"
  shows "dcid_step conn conn' \<and> (\<forall>d \<in> set (active_ids conn'). dn_retire_prior_to conn \<le> dc_seq d \<or> dc_seq d \<in> dc_seq ` set (active_ids conn) - {s})"
proof -
  have r: "dcids_ok conn'" "accounted conn conn'" "dc_seq ` set (active_ids conn') \<subseteq> dc_seq ` set (active_ids conn) - {s} \<union> dc_seq ` set (inactive_ids conn)"
    using renewed_dcids [OF assms(1-3) assms(4)] by blast+
  have "dn_retire_prior_to conn \<le> s" if "s \<in> dc_seq ` set (inactive_ids conn)" for s using that assms(1) by (auto simp: dcids_ok_def)
  then show ?thesis using r assms(2) by (auto simp: dcid_step_def renewed_def)
qed

lemma post_fallback_ok:
  assumes ok: "dcids_ok conn" and c: "dn_retire_prior_to conn \<le> dc_seq (dn_current conn)"
    "\<And>pv. dn_pv conn = Some pv \<Longrightarrow> dn_retire_prior_to conn \<le> dc_seq (pv_dcid pv)"
  shows "okR (\<lambda>conn'. dcid_step conn conn' \<and> all_current conn') (post_process_fallback cbs conn ts)"
proof (cases "dn_pv conn")
  case None
  then show ?thesis using ok c by (simp add: post_process_fallback_def dcid_step_def all_current_def active_ids_def)
next
  case (Some pv)
  have m: "has_fallback pv \<Longrightarrow> pv_fallback_dcid pv \<in> set (active_ids conn)" by (simp add: active_ids_def Some)
  have cur: "all_current conn'" if "dcid_step conn conn'" "dn_pv conn' = None" "dn_current conn' = dn_current conn" for conn'
    using that c by (simp add: all_current_def active_ids_def dcid_step_def)
  show ?thesis
  proof (cases "has_fallback pv \<and> dc_seq (pv_fallback_dcid pv) < dn_retire_prior_to conn")
    case True
    show ?thesis
    proof (cases "unused_ids (dn_dtr conn) = []")
      case e: True
      have "okR (\<lambda>conn'. dcid_step conn conn' \<and> all_current conn') (conn_abort_pv cbs conn ts)"
        by (rule okR_mono [OF abort_pv_ok [OF ok Some]]) (use cur in blast)
      then show ?thesis using True e by (simp add: post_process_fallback_def Some unused_empty_iff)
    next
      case False
      have "okR (\<lambda>conn'. dcid_step conn conn' \<and> all_current conn') (renew_fallback_dcid cbs conn pv ts)"
      proof (rule okR_mono [OF renew_fallback_ok [OF ok False Some]])
        fix conn'
        assume r: "renewed conn (dc_seq (pv_fallback_dcid pv)) conn'"
        have s: "dcid_step conn conn'" "\<forall>d \<in> set (active_ids conn'). dn_retire_prior_to conn \<le> dc_seq d \<or>
            dc_seq d \<in> dc_seq ` set (active_ids conn) - {dc_seq (pv_fallback_dcid pv)}"
          using renewed_step [OF ok r False] m True by blast+
        have "all_current conn'" using s True c(1) c(2) [OF Some] by (auto simp: all_current_def dcid_step_def active_ids_def Some)
        with s(1) show "dcid_step conn conn' \<and> all_current conn'" by blast
      qed (use True c(1) c(2) [OF Some] in auto)
      then show ?thesis using True False by (simp add: post_process_fallback_def Some unused_empty_iff)
    qed
  next
    case False
    then show ?thesis using ok c(1) c(2) [OF Some]
      by (auto simp: post_process_fallback_def Some dcid_step_def all_current_def active_ids_def)
  qed
qed

lemma post_pv_ok:
  assumes ok: "dcids_ok conn" and c: "dn_retire_prior_to conn \<le> dc_seq (dn_current conn)"
  shows "okR (\<lambda>conn'. dcid_step conn conn' \<and> all_current conn') (post_process_pv cbs conn ts)"
proof (cases "dn_pv conn")
  case None
  then show ?thesis using ok c by (simp add: post_process_pv_def dcid_step_def all_current_def active_ids_def)
next
  case (Some pv)
  show ?thesis
  proof (cases "dc_seq (pv_dcid pv) < dn_retire_prior_to conn")
    case True
    have cur: "all_current conn'" if "dcid_step conn conn'" "dn_pv conn' = None" "dn_current conn' = dn_current conn" for conn'
      using that c by (simp add: all_current_def active_ids_def dcid_step_def)
    show ?thesis
    proof (cases "unused_ids (dn_dtr conn) = []")
      case e: True
      have "okR (\<lambda>conn'. dcid_step conn conn' \<and> all_current conn') (conn_abort_pv cbs conn ts)"
        by (rule okR_mono [OF abort_pv_ok [OF ok Some]]) (use cur in blast)
      then show ?thesis using True e by (simp add: post_process_pv_def Some unused_empty_iff)
    next
      case False
      have ne: "dc_seq (pv_dcid pv) \<noteq> dc_seq (dn_current conn)" using True c by auto
      have "okR (\<lambda>conn'. dcid_step conn conn' \<and> all_current conn') (bindR (renew_pv_dcid cbs conn pv ts) (\<lambda>conn. post_process_fallback cbs conn ts))"
      proof (rule okR_bindI [OF renew_pv_ok [OF ok False Some ne]])
        fix conn1
        assume r: "renewed conn (dc_seq (pv_dcid pv)) conn1"
        have s: "dcid_step conn conn1" using renewed_step [OF ok r False] by (auto simp: active_ids_def Some)
        obtain pv1 where pv1: "dn_pv conn1 = Some pv1" using r Some by (auto simp: renewed_def)
        have i: "idv (dn_current conn1) = idv (dn_current conn)" "idv (pv_dcid pv1) = idv (hd (unused_ids (dn_dtr conn)))"
          using r ne unfolding renewed_def active_ids_def Some pv1 option.case by auto
        have "hd (unused_ids (dn_dtr conn)) \<in> set (inactive_ids conn)" using False by (simp add: inactive_ids_def)
        then have "dn_retire_prior_to conn \<le> dc_seq (hd (unused_ids (dn_dtr conn)))" using ok by (simp add: dcids_ok_def)
        then have "okR (\<lambda>conn'. dcid_step conn1 conn' \<and> all_current conn') (post_process_fallback cbs conn1 ts)"
          using i s pv1 c by (intro post_fallback_ok) (auto simp: dcid_step_def idv_def)
        then show "okR (\<lambda>conn'. dcid_step conn conn' \<and> all_current conn') (post_process_fallback cbs conn1 ts)"
          by (rule okR_mono) (use s dcid_step_trans in blast)
      qed
      then show ?thesis using True False by (simp add: post_process_pv_def Some unused_empty_iff)
    qed
  next
    case False
    then show ?thesis using post_fallback_ok [OF ok c] by (simp add: post_process_pv_def Some)
  qed
qed

lemma post_process_ok:
  assumes ok: "dcids_ok conn"
  shows "okR (\<lambda>conn'. dcid_step conn conn' \<and> (all_current conn' \<or> unused_ids (dn_dtr conn') = [] \<and> conn' = conn))
    (conn_post_process_recv_new_connection_id cbs conn ts)"
proof (cases "dc_seq (dn_current conn) < dn_retire_prior_to conn")
  case True
  show ?thesis
  proof (cases "unused_ids (dn_dtr conn) = []")
    case False
    have 1: "okR (\<lambda>conn'. dcid_step conn conn' \<and> all_current conn') (bindR (renew_current cbs conn ts) (\<lambda>conn. post_process_pv cbs conn ts))"
    proof (rule okR_bindI [OF renew_current_ok [OF ok False]])
      fix conn1
      assume r: "renewed conn (dc_seq (dn_current conn)) conn1"
      have s: "dcid_step conn conn1" using renewed_step [OF ok r False] by (auto simp: active_ids_def)
      have i: "idv (dn_current conn1) = idv (hd (unused_ids (dn_dtr conn)))"
        using r unfolding renewed_def active_ids_def by auto
      have "hd (unused_ids (dn_dtr conn)) \<in> set (inactive_ids conn)" using False by (simp add: inactive_ids_def)
      then have "dn_retire_prior_to conn \<le> dc_seq (hd (unused_ids (dn_dtr conn)))" using ok by (simp add: dcids_ok_def)
      then have "okR (\<lambda>conn'. dcid_step conn1 conn' \<and> all_current conn') (post_process_pv cbs conn1 ts)"
        using i s by (intro post_pv_ok) (auto simp: dcid_step_def idv_def)
      then show "okR (\<lambda>conn'. dcid_step conn conn' \<and> all_current conn') (post_process_pv cbs conn1 ts)"
        by (rule okR_mono) (use s dcid_step_trans in blast)
    qed
    show ?thesis using okR_mono [OF 1] True False by (auto simp: conn_post_process_recv_new_connection_id_def unused_empty_iff)
  qed (use ok True in \<open>auto simp: conn_post_process_recv_new_connection_id_def unused_empty_iff dcid_step_def\<close>)
next
  case False
  then show ?thesis using okR_mono [OF post_pv_ok [OF ok]] by (auto simp: conn_post_process_recv_new_connection_id_def)
qed

section \<open>A new connection ID\<close>

lemma idv_view: "idv d = (\<lambda>v. (fst v, fst (snd v))) (dcid_view d)"
  by (simp add: idv_def dcid_view_def)

lemma mset_idv: "mset (map idv xs) = image_mset (\<lambda>v. (fst v, fst (snd v))) (mset (map dcid_view xs))"
  by (simp add: idv_view [abs_def] multiset.map_comp comp_def)

lemma filter_idv: "filter_mset (\<lambda>p. s \<le> fst p) (image_mset (\<lambda>v. (fst v, fst (snd v))) M) =
    image_mset (\<lambda>v. (fst v, fst (snd v))) (filter_mset (\<lambda>v. s \<le> fst v) M)"
  by (induction M) auto

definition retire_phase_spec :: "dcid_conn \<Rightarrow> u64 \<Rightarrow> dcid_conn \<Rightarrow> bool" where
  "retire_phase_spec conn r conn' = (dcids_ok conn' \<and> accounted conn conn' \<and> dn_retire_prior_to conn' = r \<and> dn_current conn' = dn_current conn \<and>
     dn_pv conn' = dn_pv conn \<and> dn_seqgap conn' = dn_seqgap conn \<and>
     mset (map idv (inactive_ids conn')) = filter_mset (\<lambda>p. r \<le> fst p) (mset (map idv (inactive_ids conn))))"

lemma retire_phase_ok:
  assumes ok: "dcids_ok conn" and r: "dn_retire_prior_to conn \<le> r"
  shows "okR (\<lambda>(conn', dtr'). retire_phase_spec conn r (conn'\<lparr>dn_dtr := dtr'\<rparr>))
    (ngtcp2_dcidtr_retire_inactive_dcid_prior_to (Some conn_on_retire) (conn\<lparr>dn_retire_prior_to := r\<rparr>) (dn_dtr conn) r)"
proof (rule okR_mono [OF retire_inactive_ok], goal_cases)
  case (3 x)
  obtain c1 dtr1 where x: "x = (c1, dtr1)" by (cases x)
  let ?c = "c1\<lparr>dn_dtr := dtr1\<rparr>"
  obtain ds where s: "dtr_ok dtr1"
    "mset (map dcid_view (bound_ids dtr1)) = filter_mset (\<lambda>v. r \<le> fst v) (mset (map dcid_view (bound_ids (dn_dtr conn))))"
    "mset (map dcid_view (unused_ids dtr1)) = filter_mset (\<lambda>v. r \<le> fst v) (mset (map dcid_view (unused_ids (dn_dtr conn))))"
    "\<forall>d \<in> set (inactive_ids conn). dc_seq d < r \<longrightarrow> dc_seq d \<in> set (dtr_retire_unacked dtr1)"
    "dtr_retire_unacked dtr1 = dtr_retire_unacked (dn_dtr conn) @ map dc_seq ds"
    "cb_run (Some conn_on_retire) (conn\<lparr>dn_retire_prior_to := r\<rparr>) ds = Ok c1"
    using 3 unfolding x retire_prior_spec_def prod.case inactive_ids_def by blast
  have m: "mset (map idv (inactive_ids ?c)) = filter_mset (\<lambda>p. r \<le> fst p) (mset (map idv (inactive_ids conn)))"
    unfolding mset_idv filter_idv inactive_ids_def by (simp add: s(2,3) del: mset_map)
  have c: "dn_current ?c = dn_current conn" "dn_pv ?c = dn_pv conn" "dn_seqgap ?c = dn_seqgap conn" "dn_retire_prior_to ?c = r"
    "dn_active_connection_id_limit ?c = dn_active_connection_id_limit conn" "retire_seqs ?c = retire_seqs conn \<union> dc_seq ` set ds"
    using on_retire_run [OF s(6)] by (simp_all add: same_conn_def retire_seqs_def)
  have a: "active_ids ?c = active_ids conn" unfolding active_ids_def c(1,2) ..
  have i: "idv ` set (inactive_ids ?c) = {p \<in> idv ` set (inactive_ids conn). r \<le> fst p}"
    using arg_cong [OF m, of set_mset] by simp
  have "dcids_ok ?c"
  proof (rule dcids_shrink [OF ok])
    show "\<forall>d \<in> set (inactive_ids ?c). dn_retire_prior_to ?c \<le> dc_seq d" using i c(4) by (force simp: idv_def)
    show "compared ?c \<subseteq> compared conn" unfolding compared_take image_Un a i by auto
    show "pv_paths_ok ?c" using ok unfolding dcids_ok_def pv_paths_ok_def c(2) by blast
  qed (use s(1) r c m a in \<open>simp_all add: multiset_filter_subset\<close>)
  moreover have "held conn - held ?c \<subseteq> set (dtr_retire_unacked dtr1)"
  proof
    fix q
    assume q: "q \<in> held conn - held ?c"
    then obtain d where d: "d \<in> set (inactive_ids conn)" "q = dc_seq d" unfolding held_def a by auto
    have "\<not> r \<le> q"
    proof
      assume "r \<le> q"
      then have "idv d \<in> idv ` set (inactive_ids ?c)" unfolding i using d by (simp add: idv_def)
      then have "q \<in> held ?c" unfolding held_def using d(2) by (auto simp: idv_def)
      then show False using q by blast
    qed
    then show "q \<in> set (dtr_retire_unacked dtr1)" using s(4) d by auto
  qed
  then have "accounted conn ?c" using s(5) c(6) unfolding accounted_def Let_def by auto
  ultimately show ?case unfolding x prod.case retire_phase_spec_def using c m by blast
qed (use ok on_retire_safe in \<open>simp_all add: dcids_ok_def\<close>)

lemma card_live: "card (live conn) \<le> length (inactive_ids conn) + extra_dcid conn"
proof -
  let ?r = "dn_retire_prior_to conn" and ?cur = "dc_seq (dn_current conn)"
  let ?L = "(if ?r \<le> ?cur then [?cur] else []) @ (case dn_pv conn of None \<Rightarrow> [] | Some pv \<Rightarrow>
     (if dc_seq (pv_dcid pv) \<noteq> ?cur \<and> ?r \<le> dc_seq (pv_dcid pv) then [dc_seq (pv_dcid pv)] else []) @
     (if has_fallback pv \<and> dc_seq (pv_fallback_dcid pv) \<noteq> ?cur \<and> ?r \<le> dc_seq (pv_fallback_dcid pv) then [dc_seq (pv_fallback_dcid pv)] else []))"
  have l: "length ?L = extra_dcid conn" by (auto simp: extra_dcid_def Let_def split: option.splits)
  have s: "live conn \<subseteq> set (map dc_seq (inactive_ids conn) @ ?L)"
    by (auto simp: live_def held_def active_ids_def split: option.splits if_splits)
  have "card (live conn) \<le> length (map dc_seq (inactive_ids conn) @ ?L)"
    using card_mono [OF _ s] card_length [of "map dc_seq (inactive_ids conn) @ ?L"] by simp
  then show ?thesis using l by simp
qed

lemma seq_range:
  assumes "unat (s :: u64) < 2 ^ 62"
  shows "{s ..< s + 1} = {s}" "s < s + 1" "s + 1 < UINT64_MAX"
proof -
  have n: "unat (s + 1) = unat s + 1" using assms by (simp add: unat_word_ariths)
  show "{s ..< s + 1} = {s}" using n by (auto simp: word_le_nat_alt word_less_nat_alt word_unat_eq_iff)
  show "s < s + 1" "s + 1 < UINT64_MAX" using n assms by (simp_all add: word_less_nat_alt)
qed

lemma is_pushed_seq:
  assumes "gaptr_ok g" "unat s < 2 ^ 62"
  shows "ngtcp2_gaptr_is_pushed g s 1 = Ok (s \<notin> gap_set g)"
  using gaptr_is_pushed_ok [OF assms(1) seq_range(2) [OF assms(2)]] seq_range [OF assms(2)] by simp

lemma record_seq:
  assumes ok: "gaptr_ok g" and q: "unat s < 2 ^ 62" "False \<notin> set al"
  obtains g1 al1 g2 where "ngtcp2_gaptr_push al g s 1 = Ok (g1, None, al1)"
    "(if ngtcp2_ksl_len (gt_gap g1) > 32 then ngtcp2_gaptr_drop_first_gap g1 else Ok g1) = Ok g2"
    "gaptr_ok g2" "gap_set g2 \<subseteq> gap_set g - {s}"
proof -
  note b = seq_range [OF q(1)]
  obtain g1 al1 where 1: "ngtcp2_gaptr_push al g s 1 = Ok (g1, None, al1)" "gaptr_ok g1" "gap_set g1 = gap_set g - {s}"
    using gaptr_push_ok [OF ok less_imp_le [OF b(2)] b(3) q(2)] b(1) by auto
  show thesis
  proof (cases "ngtcp2_ksl_len (gt_gap g1) > 32")
    case True
    then show thesis using gaptr_drop_first_gap_ok [OF 1(2)] 1 that [of g1 al1] by auto
  next
    case False
    then show thesis using 1 that [of g1 al1 g1] by simp
  qed
qed

definition add_spec :: "dcid_conn \<Rightarrow> ngtcp2_new_connection_id \<Rightarrow> dcid_conn \<Rightarrow> bool" where
  "add_spec conn fr conn' = (dcid_step conn conn' \<and> dn_current conn' = dn_current conn \<and> dn_pv conn' = dn_pv conn \<and>
     (if length (inactive_ids conn) < 8
      then \<exists>d. inactive_ids conn' = inactive_ids conn @ [d] \<and> idv d = (nci_seq fr, nci_cid fr)
      else inactive_ids conn' = inactive_ids conn))"

lemma add_dcid_ok:
  assumes ok: "dcids_ok conn" and fr: "unat (nci_seq fr) < 2 ^ 62" "nci_cid fr \<noteq> []" "False \<notin> set al"
    and s: "nci_seq fr \<in> gap_set (dn_seqgap conn)" "dn_retire_prior_to conn \<le> nci_seq fr" "\<forall>p \<in> compared conn. snd p \<noteq> nci_cid fr"
  shows "okR (add_spec conn fr) (conn_add_dcid al conn fr)"
proof -
  have "gaptr_ok (dn_seqgap conn)" using ok by (simp add: dcids_ok_def)
  then obtain g1 al1 g2 where g: "ngtcp2_gaptr_push al (dn_seqgap conn) (nci_seq fr) 1 = Ok (g1, None, al1)"
    "(if ngtcp2_ksl_len (gt_gap g1) > 32 then ngtcp2_gaptr_drop_first_gap g1 else Ok g1) = Ok g2"
    "gaptr_ok g2" "gap_set g2 \<subseteq> gap_set (dn_seqgap conn) - {nci_seq fr}" using record_seq fr(1,3) by metis
  let ?c = "conn\<lparr>dn_seqgap := g2\<rparr>"
  have e: "inactive_ids ?c = inactive_ids conn" "active_ids ?c = active_ids conn" "held ?c = held conn" "live ?c = live conn"
    "compared ?c = compared conn" "extra_dcid ?c = extra_dcid conn" "pv_paths_ok ?c = pv_paths_ok conn" "retire_seqs ?c = retire_seqs conn"
    by (simp_all add: inactive_ids_def active_ids_def held_def live_def compared_def extra_dcid_def Let_def pv_paths_ok_def retire_seqs_def cong: option.case_cong if_cong)
  have len: "ngtcp2_dcidtr_inactive_len (dn_dtr conn) = length (inactive_ids conn)"
    by (simp add: ngtcp2_dcidtr_inactive_len_def inactive_ids_def ids_defs)
  have okc: "dcids_ok ?c" using ok g(3,4) unfolding dcids_ok_def e by auto
  have acc: "accounted conn ?c" by (simp add: accounted_def e)
  show ?thesis
  proof (cases "unat (dn_active_connection_id_limit conn) \<le> length (inactive_ids conn) + extra_dcid conn")
    case True
    then show ?thesis using g(1,2) len e(6) by (simp add: conn_add_dcid_def Let_def)
  next
    case limit: False
    show ?thesis
    proof (cases "8 \<le> length (inactive_ids conn)")
      case True
      then show ?thesis using g(1,2) len limit okc acc e by (simp add: conn_add_dcid_def Let_def add_spec_def dcid_step_def)
    next
      case False
      have dok: "dtr_ok (dn_dtr conn)" using ok by (simp add: dcids_ok_def)
      have "length (unused_ids (dn_dtr conn)) < 8" using False by (simp add: inactive_ids_def)
      then obtain dtr' d where p: "ngtcp2_dcidtr_push_unused (dn_dtr conn) (nci_seq fr) (nci_cid fr) (Some (nci_token fr)) = Ok dtr'" "dtr_ok dtr'"
        "unused_ids dtr' = unused_ids (dn_dtr conn) @ [d]" "dc_seq d = nci_seq fr" "dc_cid d = nci_cid fr"
        "dtr' = (dn_dtr conn)\<lparr>dtr_unused := dtr_unused dtr'\<rparr>"
        using push_unused_ok [OF dok, of "nci_seq fr" "nci_cid fr" "Some (nci_token fr)"] by auto
      have f: "dtr_bound dtr' = dtr_bound (dn_dtr conn)" "dtr_retire_unacked dtr' = dtr_retire_unacked (dn_dtr conn)" by (subst p(6), simp)+
      let ?d = "?c\<lparr>dn_dtr := dtr'\<rparr>"
      have i: "inactive_ids ?d = inactive_ids conn @ [d]" using p(3) f by (simp add: inactive_ids_def bound_ids_def)
      have a: "active_ids ?d = active_ids conn" by (simp add: active_ids_def)
      have h: "held ?d = insert (nci_seq fr) (held conn)" using p(4) unfolding held_def i a by auto
      have lv: "live ?d = insert (nci_seq fr) (live conn)" using s(2) unfolding live_def h by auto
      have cm: "compared ?d = insert (nci_seq fr, nci_cid fr) (compared conn)" using p(4,5) unfolding compared_take i a by (auto simp: idv_def)
      have nh: "nci_seq fr \<notin> held conn" using s(1) ok by (auto simp: dcids_ok_def)
      have cs: "fst ` compared conn \<subseteq> held conn" unfolding compared_take held_def by (auto simp: idv_def dest: in_set_takeD)
      have "dcids_ok ?d" unfolding dcids_ok_def
      proof (intro conjI)
        show "held ?d \<inter> gap_set (dn_seqgap ?d) = {}" using ok g(4) unfolding h dcids_ok_def by auto
        show "\<forall>d \<in> set (active_ids ?d @ inactive_ids ?d). dc_cid d \<noteq> []" using ok fr(2) p(5) unfolding i a dcids_ok_def by auto
        show "distinct (map dc_seq (inactive_ids ?d))" using ok nh p(4) unfolding i dcids_ok_def held_def by auto
        show "dc_seq ` set (active_ids ?d) \<inter> dc_seq ` set (inactive_ids ?d) = {}"
          using ok nh p(4) unfolding i a dcids_ok_def held_def by auto
        show "\<forall>d \<in> set (inactive_ids ?d). dn_retire_prior_to ?d \<le> dc_seq d" using ok s(2) p(4) unfolding i dcids_ok_def by auto
        show "\<forall>p \<in> compared ?d. \<forall>q \<in> compared ?d. fst p = fst q \<longleftrightarrow> snd p = snd q"
        proof -
          have "fst p \<noteq> nci_seq fr \<and> snd p \<noteq> nci_cid fr" if "p \<in> compared conn" for p using that cs nh s(3) by (metis image_eqI subsetD)
          moreover have "\<forall>p \<in> compared conn. \<forall>q \<in> compared conn. fst p = fst q \<longleftrightarrow> snd p = snd q" using ok by (simp add: dcids_ok_def)
          ultimately show ?thesis unfolding cm by (metis fst_conv insertE snd_conv)
        qed
        have "card (live ?d) \<le> card (live conn) + 1" unfolding lv by (simp add: card_insert_if)
        then show "card (live ?d) \<le> unat (dn_active_connection_id_limit ?d)" using limit card_live [of conn] by simp
      qed (use ok g(3) p(2) in \<open>simp_all add: dcids_ok_def pv_paths_ok_def\<close>)
      moreover have "accounted conn ?d" unfolding accounted_def h by (auto simp: f e(8))
      ultimately have "add_spec conn fr ?d" using False i p(4,5) by (simp add: add_spec_def dcid_step_def idv_def)
      then show ?thesis using g(1,2) len limit False p(1) e(6) by (simp add: conn_add_dcid_def Let_def)
    qed
  qed
qed

text \<open>The IDs compared with the new one, as the function visits them.\<close>

definition compared_ids :: "dcid_conn \<Rightarrow> ngtcp2_dcid set" where
  "compared_ids conn = insert (dn_current conn) (pv_dcid ` set_option (dn_pv conn)) \<union> set (inactive_ids conn)"

lemma verify_all:
  assumes "dtr_ok (dn_dtr conn)"
  shows "bindR (ngtcp2_dcid_verify_uniqueness (dn_current conn) s cid token) (\<lambda>_.
     bindR (case dn_pv conn of None \<Rightarrow> Ok (ngtcp2_cid_eq (dc_cid (dn_current conn)) cid)
            | Some pv \<Rightarrow> bindR (ngtcp2_dcid_verify_uniqueness (pv_dcid pv) s cid token) (\<lambda>_.
                Ok (if ngtcp2_cid_eq (dc_cid (pv_dcid pv)) cid then True else ngtcp2_cid_eq (dc_cid (dn_current conn)) cid))) (\<lambda>found.
     bindR (ngtcp2_dcidtr_verify_token_uniqueness (dn_dtr conn) found s cid token) f)) =
    (if \<exists>d \<in> compared_ids conn. id_conflict s cid token d then Err NGTCP2_ERR_PROTO else f (\<exists>d \<in> compared_ids conn. dc_cid d = cid))"
proof -
  have eq: "(\<exists>d \<in> compared_ids conn. P d) \<longleftrightarrow> P (dn_current conn) \<or> (\<exists>pv. dn_pv conn = Some pv \<and> P (pv_dcid pv)) \<or> (\<exists>d \<in> set (inactive_ids conn). P d)" for P
    by (auto simp: compared_ids_def)
  show ?thesis unfolding verify_uniqueness_iff verify_token_uniqueness_exact [OF assms] eq inactive_ids_def [symmetric]
    by (cases "dn_pv conn") (auto intro!: arg_cong [of _ _ f])
qed

definition recv_new_cid_spec :: "dcid_conn \<Rightarrow> ngtcp2_new_connection_id \<Rightarrow> dcid_conn \<Rightarrow> bool" where
  "recv_new_cid_spec conn fr conn' = (dcids_ok conn' \<and> accounted conn conn' \<and>
     dn_retire_prior_to conn' = max (dn_retire_prior_to conn) (nci_retire_prior_to fr) \<and>
     dn_current conn' = dn_current conn \<and> dn_pv conn' = dn_pv conn \<and>
     (nci_seq fr < dn_retire_prior_to conn \<longrightarrow> nci_seq fr \<in> set (dtr_retire_unacked (dn_dtr conn'))) \<and>
     (dn_retire_prior_to conn \<le> nci_seq fr \<and> nci_seq fr \<in> gap_set (dn_seqgap conn) \<longrightarrow>
        (nci_seq fr, nci_cid fr) \<in> idv ` set (inactive_ids conn') \<or> 8 \<le> length (inactive_ids conn')))"

lemma compared_idv: "compared conn = idv ` compared_ids conn"
  by (simp add: compared_def compared_ids_def)

lemma new_cid_kept:
  assumes ok: "dcids_ok conn" and fr: "unat (nci_seq fr) < 2 ^ 62" "nci_cid fr \<noteq> []" "False \<notin> set al"
    and r: "dn_retire_prior_to conn \<le> nci_seq fr" and found: "\<not> found \<longrightarrow> (\<forall>p \<in> compared conn. snd p \<noteq> nci_cid fr)"
  shows "okR (\<lambda>conn'. dcid_step conn conn' \<and> dn_current conn' = dn_current conn \<and> dn_pv conn' = dn_pv conn \<and>
      (\<not> found \<and> nci_seq fr \<in> gap_set (dn_seqgap conn) \<longrightarrow>
        (nci_seq fr, nci_cid fr) \<in> idv ` set (inactive_ids conn') \<or> 8 \<le> length (inactive_ids conn')))
    (if found then Ok conn else
       bindR (ngtcp2_gaptr_is_pushed (dn_seqgap conn) (nci_seq fr) 1) (\<lambda>pushed. if pushed then Ok conn else conn_add_dcid al conn fr))"
proof (cases found)
  case False
  have g: "ngtcp2_gaptr_is_pushed (dn_seqgap conn) (nci_seq fr) 1 = Ok (nci_seq fr \<notin> gap_set (dn_seqgap conn))"
    using is_pushed_seq [OF _ fr(1)] ok by (simp add: dcids_ok_def)
  show ?thesis
  proof (cases "nci_seq fr \<in> gap_set (dn_seqgap conn)")
    case True
    have 1: "okR (\<lambda>conn'. dcid_step conn conn' \<and> dn_current conn' = dn_current conn \<and> dn_pv conn' = dn_pv conn \<and>
        ((nci_seq fr, nci_cid fr) \<in> idv ` set (inactive_ids conn') \<or> 8 \<le> length (inactive_ids conn'))) (conn_add_dcid al conn fr)"
      by (rule okR_mono [OF add_dcid_ok [OF ok fr True r]]) (use False found in \<open>auto simp: add_spec_def split: if_splits\<close>)
    show ?thesis using False g True by (simp add: 1)
  qed (use False g ok in \<open>simp add: dcid_step_def\<close>)
qed (use ok in \<open>simp add: dcid_step_def\<close>)

lemma no_conflict_found:
  assumes ok: "dcids_ok conn" and c: "\<not> (\<exists>d \<in> compared_ids conn. id_conflict s cid token d)" and g: "s \<in> gap_set (dn_seqgap conn)"
  shows "\<not> (\<exists>d \<in> compared_ids conn. dc_cid d = cid)"
proof
  assume "\<exists>d \<in> compared_ids conn. dc_cid d = cid"
  then obtain d where d: "d \<in> compared_ids conn" "dc_cid d = cid" "dc_seq d = s" using c by (auto simp: id_conflict_def split: if_splits)
  then have "s \<in> held conn" by (auto simp: compared_ids_def held_def active_ids_def split: option.splits)
  then show False using g ok by (auto simp: dcids_ok_def)
qed

text \<open>The three branches after the checks: \<open>retire_prior_to\<close> is raised, the ID comes too late, or neither.\<close>

lemma late_ok:
  assumes ok: "dcids_ok conn" and late: "\<not> dn_retire_prior_to conn < nci_retire_prior_to fr" "nci_seq fr < dn_retire_prior_to conn"
  shows "okR (recv_new_cid_spec conn fr)
    (if ngtcp2_dcidtr_check_retired_seq_tracked (dn_dtr conn) (nci_seq fr) then Ok conn
     else bindR (ngtcp2_dcidtr_track_retired_seq (dn_dtr conn) (nci_seq fr)) (\<lambda>dtr.
       conn_enqueue_retire_connection_id (conn\<lparr>dn_dtr := dtr\<rparr>) (nci_seq fr)))"
proof (cases "ngtcp2_dcidtr_check_retired_seq_tracked (dn_dtr conn) (nci_seq fr)")
  case t: True
  then show ?thesis using ok late
    by (auto simp: recv_new_cid_spec_def ngtcp2_dcidtr_check_retired_seq_tracked_def list_ex_iff max_def)
next
  case t: False
  let ?dtr = "(dn_dtr conn)\<lparr>dtr_retire_unacked := dtr_retire_unacked (dn_dtr conn) @ [nci_seq fr]\<rparr>"
  have "okR (recv_new_cid_spec conn fr) (conn_enqueue_retire_connection_id (conn\<lparr>dn_dtr := ?dtr\<rparr>) (nci_seq fr))"
    if "length (dtr_retire_unacked (dn_dtr conn)) < 16"
  proof (rule okR_mono [OF enqueue_ok], elim exE)
    fix c2 al2
    assume c2: "c2 = conn\<lparr>dn_dtr := ?dtr, dn_frq := retire_frame (nci_seq fr) # dn_frq (conn\<lparr>dn_dtr := ?dtr\<rparr>), dn_frc_al := al2\<rparr>"
    have i: "inactive_ids c2 = inactive_ids conn" "active_ids c2 = active_ids conn"
      by (simp_all add: c2 inactive_ids_def ids_defs active_ids_def)
    have h: "held c2 = held conn" "live c2 = live conn" unfolding live_def held_def i by (simp_all add: c2)
    have "dtr_ok ?dtr" using ok t that
      by (auto simp: dcids_ok_def dtr_ok_def ngtcp2_dcidtr_check_retired_seq_tracked_def list_ex_iff)
    then have "dcids_ok c2" using ok unfolding dcids_ok_def compared_take h i by (simp add: c2 pv_paths_ok_def)
    moreover have "retire_seqs c2 = insert (nci_seq fr) (retire_seqs conn)" by (rule retire_seqs_Cons) (simp add: c2)
    then have "accounted conn c2" unfolding accounted_def h Let_def by (auto simp: c2)
    moreover have "dn_retire_prior_to c2 = max (dn_retire_prior_to conn) (nci_retire_prior_to fr)" using late(1) by (simp add: c2 max_def)
    moreover have "nci_seq fr \<in> set (dtr_retire_unacked (dn_dtr c2))" "dn_current c2 = dn_current conn" "dn_pv c2 = dn_pv conn" by (simp_all add: c2)
    ultimately show "recv_new_cid_spec conn fr c2" using late(2) unfolding recv_new_cid_spec_def by auto
  qed
  then show ?thesis using t by (simp add: ngtcp2_dcidtr_track_retired_seq_def)
qed

lemma raise_ok:
  assumes ok: "dcids_ok conn" and fr: "unat (nci_seq fr) < 2 ^ 62" "nci_cid fr \<noteq> []" "False \<notin> set al"
    and r: "dn_retire_prior_to conn < nci_retire_prior_to fr" "nci_retire_prior_to fr \<le> nci_seq fr"
    and nf: "\<not> found \<longrightarrow> (\<forall>p \<in> compared conn. snd p \<noteq> nci_cid fr)" and fnd: "nci_seq fr \<in> gap_set (dn_seqgap conn) \<longrightarrow> \<not> found"
  shows "okR (recv_new_cid_spec conn fr)
    (bindR (ngtcp2_dcidtr_retire_inactive_dcid_prior_to (Some conn_on_retire) (conn\<lparr>dn_retire_prior_to := nci_retire_prior_to fr\<rparr>)
       (dn_dtr conn) (nci_retire_prior_to fr)) (\<lambda>(conn, dtr).
     if found then Ok (conn\<lparr>dn_dtr := dtr\<rparr>) else
     bindR (ngtcp2_gaptr_is_pushed (dn_seqgap (conn\<lparr>dn_dtr := dtr\<rparr>)) (nci_seq fr) 1)
       (\<lambda>pushed. if pushed then Ok (conn\<lparr>dn_dtr := dtr\<rparr>) else conn_add_dcid al (conn\<lparr>dn_dtr := dtr\<rparr>) fr)))"
proof (rule okR_bindI [OF retire_phase_ok [OF ok]], goal_cases)
  case (2 x)
  obtain c1 dtr1 where x: "x = (c1, dtr1)" by (cases x)
  let ?c = "c1\<lparr>dn_dtr := dtr1\<rparr>"
  have p: "retire_phase_spec conn (nci_retire_prior_to fr) ?c" using 2 by (simp add: x)
  then have "mset (map idv (inactive_ids ?c)) = filter_mset (\<lambda>p. nci_retire_prior_to fr \<le> fst p) (mset (map idv (inactive_ids conn)))"
    unfolding retire_phase_spec_def by blast
  from arg_cong [OF this, of set_mset] have i: "idv ` set (inactive_ids ?c) \<subseteq> idv ` set (inactive_ids conn)" by auto
  have cm: "compared ?c \<subseteq> compared conn" using p i unfolding compared_def retire_phase_spec_def image_Un by auto
  have 3: "dcids_ok ?c" "dn_retire_prior_to ?c \<le> nci_seq fr" "\<not> found \<longrightarrow> (\<forall>p \<in> compared ?c. snd p \<noteq> nci_cid fr)"
    using p r(2) nf cm unfolding retire_phase_spec_def by auto
  have m: "max (dn_retire_prior_to conn) (nci_retire_prior_to fr) = nci_retire_prior_to fr" using r(1) by (simp add: max_absorb2)
  have l: "\<not> nci_seq fr < dn_retire_prior_to conn" using r by simp
  show ?case unfolding x prod.case
  proof (rule okR_mono [OF new_cid_kept [OF 3(1) fr 3(2,3)]])
    fix c2
    assume c2: "dcid_step ?c c2 \<and> dn_current c2 = dn_current ?c \<and> dn_pv c2 = dn_pv ?c \<and>
      (\<not> found \<and> nci_seq fr \<in> gap_set (dn_seqgap ?c) \<longrightarrow>
       (nci_seq fr, nci_cid fr) \<in> idv ` set (inactive_ids c2) \<or> 8 \<le> length (inactive_ids c2))"
    then have "accounted conn c2" using p accounted_trans [of conn ?c c2] unfolding dcid_step_def retire_phase_spec_def by blast
    then show "recv_new_cid_spec conn fr c2" using c2 p fnd l unfolding recv_new_cid_spec_def dcid_step_def retire_phase_spec_def m by auto
  qed
qed (use r in simp)

lemma recv_new_cid_ok:
  assumes ok: "dcids_ok conn" and fr: "unat (nci_seq fr) < 2 ^ 62" "nci_cid fr \<noteq> []" "False \<notin> set al"
  shows "okR (recv_new_cid_spec conn fr) (conn_recv_new_connection_id al conn fr)"
proof -
  let ?found = "\<exists>d \<in> compared_ids conn. dc_cid d = nci_cid fr" and ?r = "nci_retire_prior_to fr"
  have dok: "dtr_ok (dn_dtr conn)" using ok by (simp add: dcids_ok_def)
  have ne: "dc_cid (dn_current conn) \<noteq> []" using ok by (simp add: dcids_ok_def active_ids_def)
  note recv = conn_recv_new_connection_id_def Let_def verify_all [OF dok]
  show ?thesis
  proof (cases "?r \<le> nci_seq fr \<and> \<not> (\<exists>d \<in> compared_ids conn. id_conflict (nci_seq fr) (nci_cid fr) (nci_token fr) d)")
    case False
    then show ?thesis unfolding recv using ne by auto
  next
    case True
    have fnd: "nci_seq fr \<in> gap_set (dn_seqgap conn) \<longrightarrow> \<not> ?found" using no_conflict_found [OF ok] True by blast
    have nf: "\<not> ?found \<longrightarrow> (\<forall>p \<in> compared conn. snd p \<noteq> nci_cid fr)" unfolding compared_idv by (auto simp: idv_def)
    consider (raise) "dn_retire_prior_to conn < ?r" | (late) "\<not> dn_retire_prior_to conn < ?r" "nci_seq fr < dn_retire_prior_to conn"
      | (normal) "\<not> dn_retire_prior_to conn < ?r" "\<not> nci_seq fr < dn_retire_prior_to conn" by blast
    then show ?thesis
    proof cases
      case raise
      show ?thesis unfolding recv using ne True raise raise_ok [OF ok fr raise _ nf fnd] by auto
    next
      case late
      show ?thesis unfolding recv using ne True late late_ok [OF ok late] by auto
    next
      case normal
      have m: "max (dn_retire_prior_to conn) ?r = dn_retire_prior_to conn" using normal(1) by (simp add: max_def)
      have "okR (recv_new_cid_spec conn fr) (if ?found then Ok conn else
         bindR (ngtcp2_gaptr_is_pushed (dn_seqgap conn) (nci_seq fr) 1) (\<lambda>pushed. if pushed then Ok conn else conn_add_dcid al conn fr))"
        by (rule okR_mono [OF new_cid_kept [OF ok fr]])
          (use normal nf fnd in \<open>auto simp: recv_new_cid_spec_def dcid_step_def m\<close>)
      then show ?thesis unfolding recv using ne True normal by auto
    qed
  qed
qed

section \<open>Binding and listing\<close>

lemma bind_dcids:
  assumes ok: "dcids_ok conn" and u: "unused_ids (dn_dtr conn) \<noteq> []"
    and b: "bind_spec (Some conn_on_retire) conn (dn_dtr conn) path ts (conn1, dtr', d)"
  shows "dcid_step conn (conn1\<lparr>dn_dtr := dtr'\<rparr>)"
proof -
  let ?c = "conn1\<lparr>dn_dtr := dtr'\<rparr>" and ?B = "bound_ids (dn_dtr conn)" and ?U = "unused_ids (dn_dtr conn)"
  let ?full = "length ?B = 4"
  obtain ds where s: "dtr_ok dtr'" "unused_ids dtr' = tl ?U" "idv d = idv (hd ?U)" "bound_ids dtr' = (if ?full then tl ?B else ?B) @ [d]"
    "set ds \<subseteq> (if ?full then {hd ?B} else {})" "dtr_retire_unacked dtr' = dtr_retire_unacked (dn_dtr conn) @ map dc_seq ds"
    "cb_run (Some conn_on_retire) conn ds = Ok conn1" "?full \<longrightarrow> dc_seq (hd ?B) \<in> set (dtr_retire_unacked dtr')"
    using b unfolding bind_spec_def prod.case idv_def by auto
  have c: "same_conn conn conn1" "retire_seqs ?c = retire_seqs conn \<union> dc_seq ` set ds"
    using on_retire_run [OF s(7)] by (simp_all add: retire_seqs_def)
  have a: "active_ids ?c = active_ids conn" using c(1) by (simp add: same_conn_def active_ids_def)
  have i: "inactive_ids ?c = (if ?full then tl ?B else ?B) @ d # tl ?U" using s(2,4) by (simp add: inactive_ids_def)
  have ic: "inactive_ids conn = (if ?full then [hd ?B] else []) @ (if ?full then tl ?B else ?B) @ hd ?U # tl ?U"
    using u by (cases ?B) (auto simp: inactive_ids_def)
  have m: "mset (map idv (inactive_ids conn)) = (if ?full then {#idv (hd ?B)#} else {#}) + mset (map idv (inactive_ids ?c))"
    unfolding i ic using s(3) by simp
  have sub: "idv ` set (inactive_ids ?c) \<subseteq> idv ` set (inactive_ids conn)" using arg_cong [OF m, of set_mset] by auto
  have sq: "dc_seq ` A = fst ` idv ` A" for A by (simp add: image_image idv_def)
  have "dcids_ok ?c"
  proof (rule dcids_shrink [OF ok])
    have "dn_retire_prior_to conn \<le> q" if "q \<in> dc_seq ` set (inactive_ids conn)" for q using ok that by (auto simp: dcids_ok_def)
    then show "\<forall>d \<in> set (inactive_ids ?c). dn_retire_prior_to ?c \<le> dc_seq d"
      using c(1) sub unfolding sq by (force simp: same_conn_def idv_def)
    show "compared ?c \<subseteq> compared conn" unfolding compared_take image_Un a using sub by auto
    show "pv_paths_ok ?c" using ok c(1) by (simp add: dcids_ok_def pv_paths_ok_def same_conn_def)
  qed (use s(1) c(1) m a in \<open>simp_all add: same_conn_def\<close>)
  moreover have "held conn - held ?c \<subseteq> set (dtr_retire_unacked dtr')"
    using s(3,8) unfolding held_def a i ic by (auto simp: idv_def split: if_splits)
  then have "accounted conn ?c" using s(6) c unfolding accounted_def Let_def by auto
  ultimately show ?thesis using c(1) by (simp add: dcid_step_def same_conn_def)
qed

lemma copy_retired_ok:
  assumes "dring cap rb"
  shows "copy_retired rb i = Ok (map copy_dcid_to_cid_token (drop i (rb_elems rb)))"
proof (induction "length (rb_elems rb) - i" arbitrary: i)
  case 0
  then show ?case by (subst copy_retired.simps) simp
next
  case (Suc n)
  then have i: "i < length (rb_elems rb)" and n: "n = length (rb_elems rb) - (i + 1)" by simp_all
  show ?case using Suc.hyps(1) [OF n] rb_at_ok [OF assms i] i by (subst copy_retired.simps) (simp add: Cons_nth_drop_Suc [symmetric])
qed

section \<open>Properties\<close>

text \<open>
  C18: A NEW_CONNECTION_ID frame and the post-processing of its packet, when no allocation fails, keep the invariant of the connection IDs or end with an
  error, which closes the connection. No two unused or bound IDs have one number, none of them has the number of an ID in use, none is to be
  retired, and there are no more IDs that the peer has not asked to retire than \<open>active_connection_id_limit\<close>. Of the current ID, the one that a path
  validation uses, the bound and the unused ones, two with different numbers have different values; the ID that a path validation would fall back
  to is left out of that, since the function does not compare a new ID with it. The number of every ID given up is tracked, and
  RETIRE_CONNECTION_ID frames are queued for the numbers tracked newly and no others. Every ID in use that was to be retired has been replaced, unless no unused
  one is left.
\<close>

theorem new_connection_id_invariant:
  assumes "dcids_ok conn" "unat (nci_seq fr) < 2 ^ 62" "nci_cid fr \<noteq> []" "False \<notin> set al"
  shows "case bindR (conn_recv_new_connection_id al conn fr) (\<lambda>conn. conn_post_process_recv_new_connection_id cbs conn ts) of
      Ok conn' \<Rightarrow> dcids_ok conn' \<and> accounted conn conn' \<and>
        dn_retire_prior_to conn' = max (dn_retire_prior_to conn) (nci_retire_prior_to fr) \<and>
        ((\<forall>d \<in> set (active_ids conn'). dn_retire_prior_to conn' \<le> dc_seq d) \<or> unused_ids (dn_dtr conn') = [])
    | Err e \<Rightarrow> True
    | Fault \<Rightarrow> False"
proof -
  have "okR (\<lambda>conn'. dcids_ok conn' \<and> accounted conn conn' \<and> dn_retire_prior_to conn' = max (dn_retire_prior_to conn) (nci_retire_prior_to fr) \<and>
        ((\<forall>d \<in> set (active_ids conn'). dn_retire_prior_to conn' \<le> dc_seq d) \<or> unused_ids (dn_dtr conn') = []))
      (bindR (conn_recv_new_connection_id al conn fr) (\<lambda>conn. conn_post_process_recv_new_connection_id cbs conn ts))"
  proof (rule okR_bindI [OF recv_new_cid_ok [OF assms]], goal_cases)
    case (1 c1)
    then have ok: "dcids_ok c1" by (simp add: recv_new_cid_spec_def)
    show ?case
      by (rule okR_mono [OF post_process_ok [OF ok]])
        (use 1 accounted_trans [of conn c1] in \<open>auto simp: recv_new_cid_spec_def dcid_step_def all_current_def\<close>)
  qed
  then show ?thesis by (simp add: okR_def)
qed

definition ex_dcid_conn :: "u64 \<Rightarrow> dcid_conn" where
  "ex_dcid_conn r = \<lparr>dn_server = False, dn_handshake_completed = True,
     dn_current = dcid_none\<lparr>dc_cid := [9, 9, 9, 9], dc_flags := NGTCP2_DCID_FLAG_TOKEN_PRESENT\<rparr>,
     dn_dtr = (case ngtcp2_dcidtr_init of Ok dtr \<Rightarrow> dtr),
     dn_seqgap = (case ngtcp2_gaptr_push [] ngtcp2_gaptr_init 0 1 of Ok (g, _) \<Rightarrow> g),
     dn_retire_prior_to = r, dn_pv = None, dn_frq = [], dn_active_connection_id_limit = 2, dn_events = [], dn_frc_al = []\<rparr>"

definition ex_new_cid :: "u64 \<Rightarrow> ngtcp2_new_connection_id" where
  "ex_new_cid r = \<lparr>nci_type = 0x18, nci_seq = 1, nci_retire_prior_to = r, nci_cid = [1, 2, 3, 4], nci_token = replicate 16 7\<rparr>"

lemma ex_dcid_conn_fields [simp]:
  "dn_retire_prior_to (ex_dcid_conn r) = r" "dn_pv (ex_dcid_conn r) = None" "dn_active_connection_id_limit (ex_dcid_conn r) = 2"
  "dc_seq (dn_current (ex_dcid_conn r)) = 0" "dc_cid (dn_current (ex_dcid_conn r)) = [9, 9, 9, 9]" "token_present (dn_current (ex_dcid_conn r))"
  "dn_frq (ex_dcid_conn r) = []" "dn_frc_al (ex_dcid_conn r) = []" "dc_ps (dn_current (ex_dcid_conn r)) = dc_ps dcid_none"
  by (simp_all add: ex_dcid_conn_def dcid_none_def token_present_def)

lemma ex_dcid_conn_ok:
  "dcids_ok (ex_dcid_conn r) \<and> unused_ids (dn_dtr (ex_dcid_conn r)) = [] \<and> bound_ids (dn_dtr (ex_dcid_conn r)) = [] \<and>
   dtr_retire_unacked (dn_dtr (ex_dcid_conn r)) = [] \<and> gap_set (dn_seqgap (ex_dcid_conn r)) = {..< UINT64_MAX} - {0}"
proof -
  obtain dtr where d: "ngtcp2_dcidtr_init = Ok dtr" "dtr_ok dtr" "unused_ids dtr = []" "bound_ids dtr = []" "dtr_retire_unacked dtr = []"
    using dcidtr_init_ok by blast
  have z: "{0 ..< 1 :: u64} = {0}" by (auto simp: word_le_nat_alt word_less_nat_alt word_unat_eq_iff)
  obtain g al where g: "ngtcp2_gaptr_push [] ngtcp2_gaptr_init 0 1 = Ok (g, None, al)" "gaptr_ok g" "gap_set g = {..< UINT64_MAX} - {0}"
    using gaptr_push_ok [of ngtcp2_gaptr_init 0 1 "[]"] gaptr_init_ok z by auto
  have D: "dn_dtr (ex_dcid_conn r) = dtr" "dn_seqgap (ex_dcid_conn r) = g" unfolding ex_dcid_conn_def d(1) g(1) by simp_all
  have i: "inactive_ids (ex_dcid_conn r) = []" "active_ids (ex_dcid_conn r) = [dn_current (ex_dcid_conn r)]"
    using d D by (simp_all add: inactive_ids_def active_ids_def)
  have l: "live (ex_dcid_conn r) \<subseteq> {0}" unfolding live_def held_def i by auto
  have "card (live (ex_dcid_conn r)) \<le> 1" using card_mono [OF _ l] by simp
  then show ?thesis using d g unfolding dcids_ok_def compared_take held_def i D by (simp add: pv_paths_ok_def)
qed

theorem new_connection_id_invariant_witness:
  "case bindR (conn_recv_new_connection_id [] (ex_dcid_conn 0) (ex_new_cid 1))
     (\<lambda>conn. conn_post_process_recv_new_connection_id \<lparr>cb_dcid_status2 = None, cb_path_validation = None, cb_begin_path_validation = None\<rparr> conn 5) of
     Ok conn' \<Rightarrow> dcids_ok conn' \<and> dn_retire_prior_to conn' = 1 | Err e \<Rightarrow> True | Fault \<Rightarrow> False"
  using new_connection_id_invariant [where conn = "ex_dcid_conn 0" and fr = "ex_new_cid 1" and al = "[]" and ts = 5 and
      cbs = "\<lparr>cb_dcid_status2 = None, cb_path_validation = None, cb_begin_path_validation = None\<rparr>"] ex_dcid_conn_ok [of 0]
  by (auto simp: ex_new_cid_def split: res.splits)

text \<open>
  A NEW_CONNECTION_ID frame whose number or value is that of a different ID in use, bound or unused is a protocol error. Otherwise a number not
  received before is kept as an unused ID unless eight are held; a number below the retirement bound is tracked and announced as retired.
\<close>

theorem new_connection_id_exact:
  assumes "dcids_ok conn" "unat (nci_seq fr) < 2 ^ 62" "nci_cid fr \<noteq> []" "False \<notin> set al" "nci_retire_prior_to fr \<le> nci_seq fr"
  shows "if \<exists>d \<in> insert (dn_current conn) (pv_dcid ` set_option (dn_pv conn)) \<union> set (inactive_ids conn).
              id_conflict (nci_seq fr) (nci_cid fr) (nci_token fr) d
    then conn_recv_new_connection_id al conn fr = Err NGTCP2_ERR_PROTO
    else (case conn_recv_new_connection_id al conn fr of
        Ok conn' \<Rightarrow>
          (nci_seq fr < dn_retire_prior_to conn \<longrightarrow> nci_seq fr \<in> set (dtr_retire_unacked (dn_dtr conn'))) \<and>
          (dn_retire_prior_to conn \<le> nci_seq fr \<and> nci_seq fr \<in> gap_set (dn_seqgap conn) \<longrightarrow>
             (nci_seq fr, nci_cid fr) \<in> idv ` set (inactive_ids conn') \<or> 8 \<le> length (inactive_ids conn'))
      | Err e \<Rightarrow> True
      | Fault \<Rightarrow> False)"
proof -
  have dok: "dtr_ok (dn_dtr conn)" using assms(1) by (simp add: dcids_ok_def)
  have ne: "dc_cid (dn_current conn) \<noteq> []" using assms(1) by (simp add: dcids_ok_def active_ids_def)
  have "conn_recv_new_connection_id al conn fr = Err NGTCP2_ERR_PROTO"
    if "\<exists>d \<in> compared_ids conn. id_conflict (nci_seq fr) (nci_cid fr) (nci_token fr) d"
    unfolding conn_recv_new_connection_id_def Let_def verify_all [OF dok] using ne assms(5) that by simp
  then show ?thesis using recv_new_cid_ok [OF assms(1-4)] unfolding compared_ids_def
    by (auto simp: recv_new_cid_spec_def okR_def split: res.splits)
qed

theorem new_connection_id_exact_witness:
  "case conn_recv_new_connection_id [] (ex_dcid_conn 0) (ex_new_cid 0) of
     Ok conn' \<Rightarrow> (1, [1, 2, 3, 4]) \<in> idv ` set (inactive_ids conn') \<or> 8 \<le> length (inactive_ids conn') | Err e \<Rightarrow> True | Fault \<Rightarrow> False"
  using new_connection_id_exact [where conn = "ex_dcid_conn 0" and fr = "ex_new_cid 0" and al = "[]"] ex_dcid_conn_ok [of 0]
  by (auto simp: ex_new_cid_def inactive_ids_def id_conflict_def split: res.splits)

text \<open>
  C38: While the ID in use is one that the peer has asked to retire and no unused one is left, a repeated NEW_CONNECTION_ID frame for it makes the
  connection queue a RETIRE_CONNECTION_ID frame for it, although it goes on using it.
\<close>

theorem retire_while_in_use:
  assumes "dcids_ok conn" "dn_pv conn = None" "dn_frc_al conn = []" "length (dtr_retire_unacked (dn_dtr conn)) < 16"
    "dc_seq (dn_current conn) < dn_retire_prior_to conn" "dc_seq (dn_current conn) \<notin> set (dtr_retire_unacked (dn_dtr conn))"
    "token_present (dn_current conn)" "unused_ids (dn_dtr conn) = []"
    "fr = \<lparr>nci_type = 0x18, nci_seq = dc_seq (dn_current conn), nci_retire_prior_to = 0, nci_cid = dc_cid (dn_current conn),
       nci_token = dc_token (dn_current conn)\<rparr>"
  shows "\<exists>conn'. bindR (conn_recv_new_connection_id al conn fr) (\<lambda>conn. conn_post_process_recv_new_connection_id cbs conn ts) = Ok conn' \<and>
    dn_frq conn' = Fr_retire_connection_id \<lparr>rci_type = NGTCP2_FRAME_RETIRE_CONNECTION_ID, rci_seq = dc_seq (dn_current conn)\<rparr> # dn_frq conn \<and>
    dn_current conn' = dn_current conn"
proof -
  have dok: "dtr_ok (dn_dtr conn)" using assms(1) by (simp add: dcids_ok_def)
  have ne: "dc_cid (dn_current conn) \<noteq> []" using assms(1) by (simp add: dcids_ok_def active_ids_def)
  let ?cur = "dn_current conn"
  have cmp: "compared conn = idv ` compared_ids conn" by (rule compared_idv)
  have "\<not> id_conflict (dc_seq ?cur) (dc_cid ?cur) (dc_token ?cur) d" if d: "d \<in> compared_ids conn" for d
  proof (cases "d = ?cur")
    case False
    then have "d \<in> set (inactive_ids conn)" using d assms(2) by (simp add: compared_ids_def)
    moreover have "dc_seq ?cur \<notin> dc_seq ` set (inactive_ids conn)" using assms(1) by (auto simp: dcids_ok_def active_ids_def)
    ultimately have "dc_seq d \<noteq> dc_seq ?cur" by (metis image_eqI)
    moreover have "idv d \<in> compared conn" "idv ?cur \<in> compared conn" using d unfolding cmp by (auto simp: compared_ids_def)
    ultimately have "dc_cid d \<noteq> dc_cid ?cur" using assms(1) unfolding dcids_ok_def by (metis idv_def fst_conv snd_conv)
    then show ?thesis using \<open>dc_seq d \<noteq> dc_seq ?cur\<close> by (simp add: id_conflict_def)
  qed (use assms(7) in \<open>simp add: id_conflict_def\<close>)
  then have nc: "\<not> (\<exists>d \<in> compared_ids conn. id_conflict (nci_seq fr) (nci_cid fr) (nci_token fr) d)" by (simp add: assms(9))
  let ?dtr = "(dn_dtr conn)\<lparr>dtr_retire_unacked := dtr_retire_unacked (dn_dtr conn) @ [dc_seq ?cur]\<rparr>"
  have "conn_recv_new_connection_id al conn fr =
      Ok (conn\<lparr>dn_dtr := ?dtr, dn_frq := retire_frame (dc_seq ?cur) # dn_frq conn, dn_frc_al := []\<rparr>)"
    unfolding conn_recv_new_connection_id_def Let_def verify_all [OF dok] using nc ne assms(3-6)
    by (auto simp: assms(9) ngtcp2_dcidtr_check_retired_seq_tracked_def list_ex_iff ngtcp2_dcidtr_track_retired_seq_def
        conn_enqueue_retire_connection_id_def ksl_alloc_def)
  then show ?thesis using assms(5,8)
    by (simp add: conn_post_process_recv_new_connection_id_def unused_empty_iff unused_ids_def)
qed

theorem retire_while_in_use_witness:
  "\<exists>fr conn'. bindR (conn_recv_new_connection_id [] (ex_dcid_conn 1) fr) (\<lambda>conn. conn_post_process_recv_new_connection_id
       \<lparr>cb_dcid_status2 = None, cb_path_validation = None, cb_begin_path_validation = None\<rparr> conn 5) = Ok conn' \<and>
     dn_frq conn' = [Fr_retire_connection_id \<lparr>rci_type = NGTCP2_FRAME_RETIRE_CONNECTION_ID, rci_seq = 0\<rparr>] \<and> dc_seq (dn_current conn') = 0"
proof -
  let ?c = "ex_dcid_conn 1"
  let ?fr = "\<lparr>nci_type = 0x18, nci_seq = 0, nci_retire_prior_to = 0, nci_cid = [9, 9, 9, 9], nci_token = dc_token (dn_current ?c)\<rparr>"
  show ?thesis
    using retire_while_in_use [where conn = ?c and al = "[]" and ts = 5 and fr = ?fr and
        cbs = "\<lparr>cb_dcid_status2 = None, cb_path_validation = None, cb_begin_path_validation = None\<rparr>"] ex_dcid_conn_ok [of 1]
    by (intro exI [of _ ?fr]) auto
qed

text \<open>
  Binding a connection ID to a path that none of the IDs in use has keeps the invariant and accounts for an ID it gives up. It reports that
  the peer must issue more exactly when no ID is bound to the path and none is unused, unless its IDs are empty.
\<close>

theorem conn_bind_dcid_safe:
  assumes "dcids_ok conn" "path_specified path" "\<forall>d \<in> set (active_ids conn). \<not> same_path (dc_ps d) path"
  shows "case conn_bind_dcid conn path ts of
      Ok (conn', dcid) \<Rightarrow> dcids_ok conn' \<and> accounted conn conn' \<and> dn_current conn' = dn_current conn \<and>
        ((\<exists>d \<in> set (bound_ids (dn_dtr conn)). same_path (dc_ps d) path) \<longrightarrow> conn' = conn)
    | Err e \<Rightarrow> (\<forall>d \<in> set (bound_ids (dn_dtr conn)). \<not> same_path (dc_ps d) path) \<and>
        (unused_ids (dn_dtr conn) = [] \<longrightarrow> e = NGTCP2_ERR_CONN_ID_BLOCKED)
    | Fault \<Rightarrow> False"
proof -
  have dok: "dtr_ok (dn_dtr conn)" using assms(1) by (simp add: dcids_ok_def)
  have ring: "dring 4 (dtr_bound (dn_dtr conn))" using dok by (simp add: dtr_ok_def)
  have ne: "dc_cid (dn_current conn) \<noteq> []" using assms(1) by (simp add: dcids_ok_def active_ids_def)
  have p: "ngtcp2_path_eq (dc_ps (dn_current conn)) path = Ok False"
    "(case dn_pv conn of None \<Rightarrow> Ok False | Some pv \<Rightarrow> ngtcp2_path_eq (dc_ps (pv_dcid pv)) path) = Ok False"
    "(case dn_pv conn of None \<Rightarrow> Ok False
      | Some pv \<Rightarrow> if has_fallback pv then ngtcp2_path_eq (dc_ps (pv_fallback_dcid pv)) path else Ok False) = Ok False"
    using assms(3) by (auto simp: path_eq_iff [OF assms(2)] active_ids_def split: option.splits)
  obtain r where r: "find_path (dtr_bound (dn_dtr conn)) path 0 = Ok r"
    "case r of None \<Rightarrow> (\<forall>d \<in> set (bound_ids (dn_dtr conn)). \<not> same_path (dc_ps d) path)
     | Some (j, d) \<Rightarrow> j < length (bound_ids (dn_dtr conn)) \<and> d = bound_ids (dn_dtr conn) ! j \<and> same_path (dc_ps d) path"
    using find_path_ok [OF ring assms(2), of 0, folded bound_ids_def, simplified drop_0 le0 simp_thms] by blast
  show ?thesis
  proof (cases r)
    case (Some q)
    then show ?thesis using r p assms(1) by (cases q) (simp add: conn_bind_dcid_def ngtcp2_dcidtr_find_bound_dcid_def)
  next
    case None
    then have nb: "\<forall>d \<in> set (bound_ids (dn_dtr conn)). \<not> same_path (dc_ps d) path" using r(2) by simp
    show ?thesis
    proof (cases "unused_ids (dn_dtr conn) = []")
      case True
      then show ?thesis using None r(1) p nb ne by (simp add: conn_bind_dcid_def ngtcp2_dcidtr_find_bound_dcid_def unused_empty_iff)
    next
      case False
      have b: "okR (bind_spec (Some conn_on_retire) conn (dn_dtr conn) path ts) (ngtcp2_dcidtr_bind_dcid (Some conn_on_retire) conn (dn_dtr conn) path ts)"
        by (rule bind_dcid_ok [OF dok on_retire_safe False])
      have same: "dn_current c1 = dn_current conn" if "bind_spec (Some conn_on_retire) conn (dn_dtr conn) path ts (c1, dtr', d)" for c1 dtr' d
        using that on_retire_run by (auto simp: bind_spec_def same_conn_def)
      show ?thesis
        using b None r(1) p nb ne False same bind_dcids [OF assms(1) False]
        by (auto simp: conn_bind_dcid_def ngtcp2_dcidtr_find_bound_dcid_def unused_empty_iff okR_def dcid_step_def split: res.splits)
    qed
  qed
qed

theorem conn_bind_dcid_safe_witness:
  "conn_bind_dcid (ex_dcid_conn 0) ex_path 3 = Err NGTCP2_ERR_CONN_ID_BLOCKED \<or> (\<exists>r. conn_bind_dcid (ex_dcid_conn 0) ex_path 3 = Ok r)"
proof -
  have p: "path_specified ex_path" by (simp add: ex_path_def Let_def path_specified_def)
  have "\<forall>d \<in> set (active_ids (ex_dcid_conn 0)). \<not> same_path (dc_ps d) ex_path"
    by (simp add: active_ids_def dcid_none_def same_path_def ex_path_def Let_def addr_none_def)
  then show ?thesis using conn_bind_dcid_safe [of "ex_dcid_conn 0" ex_path 3] p ex_dcid_conn_ok [of 0] by (auto split: res.splits)
qed

text \<open>
  \<open>ngtcp2_conn_get_active_dcid3\<close> writes as many elements as it announces when it is called without a buffer, and never more than five, the
  size of the array in \<open>ngtcp2_conn_get_active_dcid\<close>.
\<close>

theorem active_dcid_count:
  assumes "dtr_ok (dn_dtr conn)"
  shows "\<exists>dest. ngtcp2_conn_get_active_dcid3 conn = Ok dest \<and> length dest = ngtcp2_conn_get_active_dcid_count conn \<and> length dest \<le> 5"
proof -
  have ring: "dring 2 (dtr_retired (dn_dtr conn))" using assms by (simp add: dtr_ok_def)
  show ?thesis using dring_length [OF ring]
    by (auto simp: ngtcp2_conn_get_active_dcid3_def ngtcp2_conn_get_active_dcid_count_def conn_get_num_active_dcid_def
        copy_retired_ok [OF ring] Let_def split: option.splits)
qed

theorem active_dcid_count_witness:
  "\<exists>dest. ngtcp2_conn_get_active_dcid3 (ex_dcid_conn 0) = Ok dest \<and> length dest \<le> 5"
  using active_dcid_count [of "ex_dcid_conn 0"] ex_dcid_conn_ok [of 0] by (auto simp: dcids_ok_def)

lemma add_dcid_returns:
  assumes ok: "dcids_ok conn" and fr: "unat (nci_seq fr) < 2 ^ 62" "False \<notin> set al"
    and room: "length (inactive_ids conn) + extra_dcid conn < unat (dn_active_connection_id_limit conn)" "length (inactive_ids conn) < 8"
  shows "\<exists>conn'. conn_add_dcid al conn fr = Ok conn'"
proof -
  have dok: "dtr_ok (dn_dtr conn)" and "gaptr_ok (dn_seqgap conn)" using ok by (simp_all add: dcids_ok_def)
  then obtain g1 al1 g2 where g: "ngtcp2_gaptr_push al (dn_seqgap conn) (nci_seq fr) 1 = Ok (g1, None, al1)"
    "(if ngtcp2_ksl_len (gt_gap g1) > 32 then ngtcp2_gaptr_drop_first_gap g1 else Ok g1) = Ok g2" using record_seq fr by metis
  have x: "extra_dcid (conn\<lparr>dn_seqgap := g2\<rparr>) = extra_dcid conn" by (simp add: extra_dcid_def Let_def cong: option.case_cong if_cong)
  have len: "ngtcp2_dcidtr_inactive_len (dn_dtr conn) = length (inactive_ids conn)"
    by (simp add: ngtcp2_dcidtr_inactive_len_def inactive_ids_def ids_defs)
  obtain dtr' where "ngtcp2_dcidtr_push_unused (dn_dtr conn) (nci_seq fr) (nci_cid fr) (Some (nci_token fr)) = Ok dtr'"
    using push_unused_ok [OF dok, of "nci_seq fr" "nci_cid fr" "Some (nci_token fr)"] room(2) by (auto simp: inactive_ids_def)
  then show ?thesis using g room len by (simp add: conn_add_dcid_def Let_def x)
qed

text \<open>
  C19: A NEW_CONNECTION_ID frame with a new number and a new value, which raises no retirement, is accepted and its ID is kept as an unused one
  when fewer than eight IDs and fewer than \<open>active_connection_id_limit\<close> are held.
\<close>

theorem new_connection_id_accepted:
  assumes "dcids_ok conn" "unat (nci_seq fr) < 2 ^ 62" "nci_cid fr \<noteq> []" "False \<notin> set al"
    "nci_retire_prior_to fr \<le> dn_retire_prior_to conn" "dn_retire_prior_to conn \<le> nci_seq fr" "nci_seq fr \<in> gap_set (dn_seqgap conn)"
    "\<forall>d \<in> insert (dn_current conn) (pv_dcid ` set_option (dn_pv conn)) \<union> set (inactive_ids conn). dc_cid d \<noteq> nci_cid fr"
    "length (inactive_ids conn) + extra_dcid conn < unat (dn_active_connection_id_limit conn)" "length (inactive_ids conn) < 8"
  shows "\<exists>conn' d. conn_recv_new_connection_id al conn fr = Ok conn' \<and> dcids_ok conn' \<and>
    inactive_ids conn' = inactive_ids conn @ [d] \<and> dc_seq d = nci_seq fr \<and> dc_cid d = nci_cid fr"
proof -
  have dok: "dtr_ok (dn_dtr conn)" using assms(1) by (simp add: dcids_ok_def)
  have ne: "dc_cid (dn_current conn) \<noteq> []" using assms(1) by (simp add: dcids_ok_def active_ids_def)
  have cc: "\<forall>d \<in> compared_ids conn. dc_cid d \<noteq> nci_cid fr" using assms(8) by (simp add: compared_ids_def)
  have nc: "\<not> id_conflict (nci_seq fr) (nci_cid fr) (nci_token fr) d" if "d \<in> compared_ids conn" for d
  proof -
    have "dc_seq d \<in> held conn" using that by (auto simp: compared_ids_def held_def active_ids_def split: option.splits)
    then have "dc_seq d \<noteq> nci_seq fr" using assms(1,7) by (auto simp: dcids_ok_def)
    then show ?thesis using that cc by (simp add: id_conflict_def)
  qed
  have c: "\<forall>p \<in> compared conn. snd p \<noteq> nci_cid fr" using cc unfolding compared_idv by (auto simp: idv_def)
  obtain conn' where r: "conn_add_dcid al conn fr = Ok conn'" using add_dcid_returns [OF assms(1,2,4,9,10)] by blast
  have s: "add_spec conn fr conn'" using add_dcid_ok [OF assms(1-4,7,6) c] r by simp
  have g: "ngtcp2_gaptr_is_pushed (dn_seqgap conn) (nci_seq fr) 1 = Ok False"
    using is_pushed_seq [OF _ assms(2), of "dn_seqgap conn"] assms(1,7) by (simp add: dcids_ok_def)
  have "conn_recv_new_connection_id al conn fr = Ok conn'"
    unfolding conn_recv_new_connection_id_def Let_def verify_all [OF dok] using nc ne cc assms(5,6) r g by auto
  then show ?thesis using s assms(10) by (auto simp: add_spec_def dcid_step_def idv_def)
qed

theorem new_connection_id_accepted_witness:
  "\<exists>conn' d. conn_recv_new_connection_id [] (ex_dcid_conn 0) (ex_new_cid 0) = Ok conn' \<and> inactive_ids conn' = [d] \<and> dc_seq d = 1"
proof -
  have i: "inactive_ids (ex_dcid_conn 0) = []" using ex_dcid_conn_ok [of 0] by (simp add: inactive_ids_def)
  have x: "extra_dcid (ex_dcid_conn 0) = 1" by (simp add: extra_dcid_def)
  show ?thesis
    using new_connection_id_accepted [where conn = "ex_dcid_conn 0" and fr = "ex_new_cid 0" and al = "[]"] ex_dcid_conn_ok [of 0] i x
    by (auto simp: ex_new_cid_def)
qed

end
