(* ===== verification/Rst.thy ===== *)
theory Rst
  imports Frame Gaptr
begin

text \<open>
  \<open>lib/ngtcp2_rst.c\<close>: the delivery rate estimation of the congestion controllers. A packet carries the state of the connection when it was
  sent, and an acknowledgement compares it with the state when it arrives. Numbers of bytes and packet identifiers are natural numbers and
  integers: they count what one connection sends, which stays below \<open>2 ^ 63\<close>. Times are 64-bit words.
\<close>

section \<open>Structures\<close>

record rtb_entry_rst =
  er_delivered :: nat
  er_delivered_ts :: u64
  er_first_sent_ts :: u64
  er_tx_in_flight :: nat
  er_lost :: nat
  er_pkt_id :: int
  er_is_app_limited :: bool

record ngtcp2_rtb_entry =
  en_pkt_num :: i64
  en_type :: u8
  en_hd_flags :: u8
  en_frc :: "ngtcp2_frame list"
  en_ts :: u64
  en_lost_ts :: u64
  en_pktlen :: nat
  en_rst :: rtb_entry_rst
  en_flags :: "16 word"

record ngtcp2_rs =
  rs_interval :: u64
  rs_delivered :: nat
  rs_prior_delivered :: nat
  rs_prior_ts :: u64
  rs_send_elapsed :: u64
  rs_ack_elapsed :: u64
  rs_last_acked_pkt_id :: int
  rs_is_app_limited :: bool

record ngtcp2_rst =
  rst_rs :: ngtcp2_rs
  rst_delivered :: nat
  rst_delivered_ts :: u64
  rst_first_sent_ts :: u64
  rst_app_limited :: nat
  rst_lost :: nat
  rst_pkt_id :: int
  rst_is_cwnd_limited :: bool

text \<open>The fields of \<open>ngtcp2_conn_stat\<close> that these parts use, with \<open>loss_time\<close> of the packet number space.\<close>

record ngtcp2_conn_stat =
  cs_latest_rtt :: u64
  cs_min_rtt :: u64
  cs_smoothed_rtt :: u64
  cs_rttvar :: u64
  cs_first_rtt_sample_ts :: u64
  cs_pto_count :: nat
  cs_loss_time :: u64
  cs_max_tx_udp_payload_size :: nat
  cs_bytes_in_flight :: nat
  cs_pkt_lost :: nat
  cs_bytes_lost :: nat
  cs_delivery_rate_sec :: nat

section \<open>Operations\<close>

definition ngtcp2_rs_init :: ngtcp2_rs where
  "ngtcp2_rs_init = \<lparr>rs_interval = UINT64_MAX, rs_delivered = 0, rs_prior_delivered = 0, rs_prior_ts = UINT64_MAX, rs_send_elapsed = 0,
     rs_ack_elapsed = 0, rs_last_acked_pkt_id = - 1, rs_is_app_limited = False\<rparr>"

definition ngtcp2_rst_reset :: "ngtcp2_rst \<Rightarrow> ngtcp2_rst" where
  "ngtcp2_rst_reset rst = rst\<lparr>rst_rs := ngtcp2_rs_init, rst_delivered := 0, rst_delivered_ts := 0, rst_first_sent_ts := 0,
     rst_app_limited := 0, rst_is_cwnd_limited := False, rst_lost := 0\<rparr>"

definition ngtcp2_rst_init :: ngtcp2_rst where
  "ngtcp2_rst_init = ngtcp2_rst_reset \<lparr>rst_rs = ngtcp2_rs_init, rst_delivered = 0, rst_delivered_ts = 0, rst_first_sent_ts = 0,
     rst_app_limited = 0, rst_lost = 0, rst_pkt_id = - 1, rst_is_cwnd_limited = False\<rparr>"

definition ngtcp2_rst_reset_rate_sample :: "ngtcp2_rst \<Rightarrow> ngtcp2_conn_stat \<Rightarrow> ngtcp2_rst \<times> ngtcp2_conn_stat" where
  "ngtcp2_rst_reset_rate_sample rst cstat =
     (rst\<lparr>rst_rs := (rst_rs rst)\<lparr>rs_interval := UINT64_MAX, rs_prior_ts := UINT64_MAX\<rparr>\<rparr>, cstat\<lparr>cs_delivery_rate_sec := 0\<rparr>)"

definition ngtcp2_rst_on_pkt_sent :: "ngtcp2_rst \<Rightarrow> ngtcp2_rtb_entry \<Rightarrow> ngtcp2_conn_stat \<Rightarrow> ngtcp2_rst \<times> ngtcp2_rtb_entry" where
  "ngtcp2_rst_on_pkt_sent rst ent cstat =
    (let rst = (if cs_bytes_in_flight cstat = en_pktlen ent then rst\<lparr>rst_first_sent_ts := en_ts ent, rst_delivered_ts := en_ts ent\<rparr> else rst);
         rst = rst\<lparr>rst_pkt_id := rst_pkt_id rst + 1\<rparr> in
     (rst, ent\<lparr>en_rst := \<lparr>er_delivered = rst_delivered rst, er_delivered_ts = rst_delivered_ts rst, er_first_sent_ts = rst_first_sent_ts rst,
        er_tx_in_flight = cs_bytes_in_flight cstat, er_lost = rst_lost rst, er_pkt_id = rst_pkt_id rst,
        er_is_app_limited = (rst_app_limited rst \<noteq> 0)\<rparr>\<rparr>))"

text \<open>\<open>rs->delivered * NGTCP2_SECONDS / rs->interval\<close>, a rate in bytes per second.\<close>

definition ngtcp2_rst_on_ack_recv :: "ngtcp2_rst \<Rightarrow> ngtcp2_conn_stat \<Rightarrow> ngtcp2_rst \<times> ngtcp2_conn_stat" where
  "ngtcp2_rst_on_ack_recv rst cstat =
    (let rst = (if rst_app_limited rst \<noteq> 0 \<and> rst_delivered rst > rst_app_limited rst then rst\<lparr>rst_app_limited := 0\<rparr> else rst);
         rs = rst_rs rst in
     if rs_prior_ts rs = UINT64_MAX then (rst, cstat) else
     let rs = rs\<lparr>rs_interval := max (rs_send_elapsed rs) (rs_ack_elapsed rs), rs_delivered := rst_delivered rst - rs_prior_delivered rs\<rparr>;
         rst = rst\<lparr>rst_rs := rs\<rparr> in
     if rs_interval rs < cs_min_rtt cstat \<or> rs_interval rs = 0 then (rst, cstat)
     else (rst, cstat\<lparr>cs_delivery_rate_sec := (rs_delivered rs * 1000000000 mod 2 ^ 64) div unat (rs_interval rs)\<rparr>))"

definition is_newest_pkt :: "ngtcp2_rtb_entry \<Rightarrow> ngtcp2_rs \<Rightarrow> bool" where
  "is_newest_pkt ent rs = (er_pkt_id (en_rst ent) > rs_last_acked_pkt_id rs)"

definition ngtcp2_rst_update_rate_sample :: "ngtcp2_rst \<Rightarrow> ngtcp2_rtb_entry \<Rightarrow> u64 \<Rightarrow> ngtcp2_rst" where
  "ngtcp2_rst_update_rate_sample rst ent ts =
    (let rst = rst\<lparr>rst_delivered := rst_delivered rst + en_pktlen ent, rst_delivered_ts := ts\<rparr>; rs = rst_rs rst in
     if rs_prior_ts rs = UINT64_MAX \<or> is_newest_pkt ent rs then
       rst\<lparr>rst_rs := rs\<lparr>rs_prior_delivered := er_delivered (en_rst ent), rs_prior_ts := er_delivered_ts (en_rst ent),
              rs_is_app_limited := er_is_app_limited (en_rst ent), rs_send_elapsed := en_ts ent - er_first_sent_ts (en_rst ent),
              rs_ack_elapsed := rst_delivered_ts rst - er_delivered_ts (en_rst ent), rs_last_acked_pkt_id := er_pkt_id (en_rst ent)\<rparr>,
           rst_first_sent_ts := en_ts ent\<rparr>
     else rst)"

end
