(* ===== verification/Rtb.thy ===== *)
theory Rtb
  imports Rst Acktr Pkt_Num Pkt_Header
begin

text \<open>
  \<open>lib/ngtcp2_rtb.c\<close>: the packets in flight of a packet number space, in a map ordered by the packet number, descending. An entry leaves the
  map when its packet is acknowledged; when it is declared lost, its frames are sent again and the entry stays, with a flag, until there are
  too many of them or they are too old. A loop over the map takes one step more than the number of entries as its fuel. What is done with the
  frames of a packet that is lost or acknowledged, and the congestion controller, are parameters of the model. The branches for unit tests, which call
  the functions without a connection, are left out.
\<close>

section \<open>State\<close>

abbreviation (input) "NGTCP2_RTB_ENTRY_FLAG_PROBE \<equiv> 0x01 :: 16 word"
abbreviation (input) "NGTCP2_RTB_ENTRY_FLAG_RETRANSMITTABLE \<equiv> 0x02 :: 16 word"
abbreviation (input) "NGTCP2_RTB_ENTRY_FLAG_ACK_ELICITING \<equiv> 0x04 :: 16 word"
abbreviation (input) "NGTCP2_RTB_ENTRY_FLAG_PTO_RECLAIMED \<equiv> 0x08 :: 16 word"
abbreviation (input) "NGTCP2_RTB_ENTRY_FLAG_LOST_RETRANSMITTED \<equiv> 0x10 :: 16 word"
abbreviation (input) "NGTCP2_RTB_ENTRY_FLAG_ECN \<equiv> 0x20 :: 16 word"
abbreviation (input) "NGTCP2_RTB_ENTRY_FLAG_DATAGRAM \<equiv> 0x40 :: 16 word"
abbreviation (input) "NGTCP2_RTB_ENTRY_FLAG_PMTUD_PROBE \<equiv> 0x80 :: 16 word"
abbreviation (input) "NGTCP2_RTB_ENTRY_FLAG_PTO_ELICITING \<equiv> 0x100 :: 16 word"
abbreviation (input) "NGTCP2_RTB_ENTRY_FLAG_SKIP \<equiv> 0x200 :: 16 word"
abbreviation (input) "NGTCP2_RECLAIM_FLAG_NONE \<equiv> 0x00 :: u8"
abbreviation (input) "NGTCP2_RECLAIM_FLAG_ON_LOSS \<equiv> 0x01 :: u8"
abbreviation (input) "NGTCP2_ECN_NOT_ECT \<equiv> 0x0 :: u32"
abbreviation (input) "NGTCP2_ECN_ECT_0 \<equiv> 0x2 :: u32"
abbreviation (input) "NGTCP2_ECN_MAX_NUM_VALIDATION_PKTS \<equiv> 10 :: nat"
abbreviation (input) "INT64_MAX \<equiv> 0x7FFFFFFFFFFFFFFF :: i64"
abbreviation (input) "NGTCP2_GRANULARITY \<equiv> 1000000 :: u64"
abbreviation (input) "NGTCP2_PKT_THRESHOLD \<equiv> 3 :: nat"
abbreviation (input) "NGTCP2_PERSISTENT_CONGESTION_THRESHOLD \<equiv> 3 :: u64"

definition has_flag :: "ngtcp2_rtb_entry \<Rightarrow> 16 word \<Rightarrow> bool" where
  "has_flag ent f = (en_flags ent AND f \<noteq> 0)"

type_synonym rtb_ents = "(i64, ngtcp2_rtb_entry) ngtcp2_ksl"

record ngtcp2_rtb =
  rtb_ents :: rtb_ents
  rtb_largest_acked_tx_pkt_num :: i64
  rtb_num_ack_eliciting :: nat
  rtb_num_retransmittable :: nat
  rtb_num_pto_eliciting :: nat
  rtb_probe_pkt_left :: nat
  rtb_cc_pkt_num :: i64
  rtb_cc_bytes_in_flight :: nat
  rtb_num_lost_pkts :: nat
  rtb_num_lost_ignore_pkts :: nat

datatype ngtcp2_ecn_state = NGTCP2_ECN_STATE_TESTING | NGTCP2_ECN_STATE_UNKNOWN | NGTCP2_ECN_STATE_FAILED | NGTCP2_ECN_STATE_CAPABLE

record 'c loss_conn =
  lc_rtb :: ngtcp2_rtb
  lc_rst :: ngtcp2_rst
  lc_cstat :: ngtcp2_conn_stat
  lc_ecn_state :: ngtcp2_ecn_state
  lc_ecn_validation_start_ts :: u64
  lc_ecn_dgram_sent :: nat
  lc_ecn_start_pkt_num :: i64
  lc_ecn_validation_pkt_sent :: nat
  lc_ecn_validation_pkt_lost :: nat
  lc_ecn_ect0_sent :: u64
  lc_ecn_ack_ect0 :: u64
  lc_ecn_ack_ect1 :: u64
  lc_ecn_ack_ce :: u64
  lc_rest :: 'c

record ngtcp2_cc_pkt =
  cp_pkt_num :: i64
  cp_pktlen :: nat
  cp_sent_ts :: u64
  cp_lost :: nat
  cp_tx_in_flight :: nat
  cp_is_app_limited :: bool

record ngtcp2_cc_ack =
  ca_bytes_delivered :: nat
  ca_bytes_lost :: nat
  ca_pkt_delivered :: nat
  ca_largest_pkt_sent_ts :: u64
  ca_rtt :: u64

text \<open>
  The rest of the connection, as parameters: the callbacks of the congestion controller, which are function pointers in \<open>ngtcp2_cc\<close>, the frames
  of packets that are retransmitted or acknowledged, and the values that the functions read, \<open>max_ack_delay\<close> of
  the remote transport parameters when there are any among them. \<open>process_acked_pkt\<close> may raise
  \<open>max_tx_udp_payload_size\<close>, which it takes and returns. The callbacks of the congestion controllers write \<open>cwnd\<close>, \<open>ssthresh\<close>,
  \<open>congestion_recovery_start_ts\<close>, \<open>pacing_interval_m\<close> and \<open>send_quantum\<close> of \<open>ngtcp2_conn_stat\<close>, which no function here reads: these fields are in \<open>'c\<close>, the other ones
  are what the callbacks read.
\<close>

record 'c loss_env =
  le_application :: bool
  le_handshake_confirmed :: bool
  le_transport_max_ack_delay :: "u64 option"
  le_handshake_confirmed_ts :: u64
  le_initial_rtt :: u64
  le_other_ecn_pkt_lost :: bool
  le_on_pkt_lost :: "(ngtcp2_conn_stat \<Rightarrow> ngtcp2_cc_pkt \<Rightarrow> u64 \<Rightarrow> 'c \<Rightarrow> 'c) option"
  le_on_pkt_acked :: "(ngtcp2_conn_stat \<Rightarrow> ngtcp2_cc_pkt \<Rightarrow> u64 \<Rightarrow> 'c \<Rightarrow> 'c) option"
  le_congestion_event :: "(ngtcp2_conn_stat \<Rightarrow> u64 \<Rightarrow> ngtcp2_cc_ack \<Rightarrow> u64 \<Rightarrow> 'c \<Rightarrow> 'c) option"
  le_on_persistent_congestion :: "(ngtcp2_conn_stat \<Rightarrow> u64 \<Rightarrow> 'c \<Rightarrow> 'c) option"
  le_on_spurious_congestion :: "(ngtcp2_conn_stat \<Rightarrow> u64 \<Rightarrow> 'c \<Rightarrow> 'c) option"
  le_on_ack_recv :: "(ngtcp2_conn_stat \<Rightarrow> ngtcp2_cc_ack \<Rightarrow> u64 \<Rightarrow> 'c \<Rightarrow> 'c) option"
  le_lost_datagram :: "(ngtcp2_rtb_entry \<Rightarrow> 'c \<Rightarrow> 'c res) option"
  le_reclaim_frame :: "u8 \<Rightarrow> ngtcp2_rtb_entry \<Rightarrow> 'c \<Rightarrow> ('c \<times> nat) res"
  le_reclaim_frame_on_retry :: "ngtcp2_rtb_entry \<Rightarrow> 'c \<Rightarrow> 'c res"
  le_process_acked_pkt :: "ngtcp2_rtb_entry \<Rightarrow> nat \<Rightarrow> 'c \<Rightarrow> ('c \<times> nat) res"
  le_cc_reset :: "(ngtcp2_conn_stat \<Rightarrow> u64 \<Rightarrow> 'c \<Rightarrow> 'c) option"
  le_path_max_tx_udp_payload_size :: nat
  le_confirm_key_update :: "i64 \<Rightarrow> u64 \<Rightarrow> 'c \<Rightarrow> 'c"

definition le_max_ack_delay :: "'c loss_env \<Rightarrow> u64" where
  "le_max_ack_delay env = (case le_transport_max_ack_delay env of None \<Rightarrow> 0 | Some d \<Rightarrow> d)"

definition call_cc :: "('f \<Rightarrow> 'c \<Rightarrow> 'c) \<Rightarrow> 'f option \<Rightarrow> 'c loss_conn \<Rightarrow> 'c loss_conn" where
  "call_cc app f conn = (case f of None \<Rightarrow> conn | Some g \<Rightarrow> conn\<lparr>lc_rest := app g (lc_rest conn)\<rparr>)"

section \<open>Entries\<close>

definition rtb_entry_init :: "ngtcp2_pkt_hd \<Rightarrow> ngtcp2_frame list \<Rightarrow> u64 \<Rightarrow> nat \<Rightarrow> 16 word \<Rightarrow> ngtcp2_rtb_entry" where
  "rtb_entry_init phd frc ts pktlen flags =
     \<lparr>en_pkt_num = hd_pkt_num phd, en_type = hd_type phd, en_hd_flags = hd_flags phd, en_frc = frc, en_ts = ts, en_lost_ts = UINT64_MAX, en_pktlen = pktlen,
      en_rst = \<lparr>er_delivered = 0, er_delivered_ts = 0, er_first_sent_ts = 0, er_tx_in_flight = 0, er_lost = 0, er_pkt_id = 0,
        er_is_app_limited = False\<rparr>, en_flags = flags\<rparr>"

definition ngtcp2_rtb_entry_objalloc_new ::
    "bool \<Rightarrow> ngtcp2_pkt_hd \<Rightarrow> ngtcp2_frame list \<Rightarrow> u64 \<Rightarrow> nat \<Rightarrow> 16 word \<Rightarrow> ngtcp2_rtb_entry res" where
  "ngtcp2_rtb_entry_objalloc_new ok phd frc ts pktlen flags =
     (if \<not> ok then Err NGTCP2_ERR_NOMEM else Ok (rtb_entry_init phd frc ts pktlen flags))"

definition ngtcp2_cc_pkt_init :: "ngtcp2_rtb_entry \<Rightarrow> ngtcp2_cc_pkt" where
  "ngtcp2_cc_pkt_init ent = \<lparr>cp_pkt_num = en_pkt_num ent, cp_pktlen = en_pktlen ent, cp_sent_ts = en_ts ent, cp_lost = er_lost (en_rst ent),
     cp_tx_in_flight = er_tx_in_flight (en_rst ent), cp_is_app_limited = er_is_app_limited (en_rst ent)\<rparr>"

definition ngtcp2_rtb_init :: "i64 \<Rightarrow> ngtcp2_rtb" where
  "ngtcp2_rtb_init cc_pkt_num = \<lparr>rtb_ents = ngtcp2_ksl_init, rtb_largest_acked_tx_pkt_num = - 1, rtb_num_ack_eliciting = 0,
     rtb_num_retransmittable = 0, rtb_num_pto_eliciting = 0, rtb_probe_pkt_left = 0, rtb_cc_pkt_num = cc_pkt_num, rtb_cc_bytes_in_flight = 0,
     rtb_num_lost_pkts = 0, rtb_num_lost_ignore_pkts = 0\<rparr>"

text \<open>The entry in the map is the one whose fields \<open>ngtcp2_rst_on_pkt_sent\<close> sets: \<open>it\<close> points to it.\<close>

definition rtb_on_add :: "'c loss_conn \<Rightarrow> ksl_it \<Rightarrow> ngtcp2_rtb_entry \<Rightarrow> 'c loss_conn res" where
  "rtb_on_add conn it ent =
    (let rtb = lc_rtb conn; cstat = lc_cstat conn in
     assertR (sint (rtb_cc_pkt_num rtb) \<le> sint (en_pkt_num ent))
    (let cstat = cstat\<lparr>cs_bytes_in_flight := cs_bytes_in_flight cstat + en_pktlen ent\<rparr>;
         rtb = rtb\<lparr>rtb_cc_bytes_in_flight := rtb_cc_bytes_in_flight rtb + en_pktlen ent\<rparr>;
         (rst, ent') = ngtcp2_rst_on_pkt_sent (lc_rst conn) ent cstat;
         rtb = rtb\<lparr>rtb_ents := ksl_it_store (rtb_ents rtb) it ent'\<rparr>;
         rtb = (if has_flag ent NGTCP2_RTB_ENTRY_FLAG_ACK_ELICITING then rtb\<lparr>rtb_num_ack_eliciting := rtb_num_ack_eliciting rtb + 1\<rparr> else rtb);
         rtb = (if has_flag ent NGTCP2_RTB_ENTRY_FLAG_RETRANSMITTABLE
                then rtb\<lparr>rtb_num_retransmittable := rtb_num_retransmittable rtb + 1\<rparr> else rtb);
         rtb = (if has_flag ent NGTCP2_RTB_ENTRY_FLAG_PTO_ELICITING then rtb\<lparr>rtb_num_pto_eliciting := rtb_num_pto_eliciting rtb + 1\<rparr> else rtb) in
     Ok (conn\<lparr>lc_rtb := rtb, lc_rst := rst, lc_cstat := cstat\<rparr>)))"

definition ngtcp2_rtb_add :: "alloc \<Rightarrow> 'c loss_conn \<Rightarrow> ngtcp2_rtb_entry \<Rightarrow> 'c loss_conn res" where
  "ngtcp2_rtb_add al conn ent =
     bindR (ngtcp2_ksl_insert i64_greater al (rtb_ents (lc_rtb conn)) (en_pkt_num ent) ent) (\<lambda>(ents, rv, it, _).
     case rv of Some e \<Rightarrow> Err e | None \<Rightarrow>
     (case it of None \<Rightarrow> Fault | Some it \<Rightarrow> rtb_on_add (conn\<lparr>lc_rtb := (lc_rtb conn)\<lparr>rtb_ents := ents\<rparr>\<rparr>) it ent))"

definition ngtcp2_rtb_head :: "ngtcp2_rtb \<Rightarrow> ksl_it" where
  "ngtcp2_rtb_head rtb = ngtcp2_ksl_begin (rtb_ents rtb)"

text \<open>The counters that a removal decreases; the result is the number of bytes that left the network.\<close>

definition dec :: "nat \<Rightarrow> nat res" where
  "dec n = assertR (n \<noteq> 0) (Ok (n - 1))"

definition rtb_on_remove :: "ngtcp2_rtb \<Rightarrow> ngtcp2_conn_stat \<Rightarrow> ngtcp2_rtb_entry \<Rightarrow> (ngtcp2_rtb \<times> ngtcp2_conn_stat \<times> nat) res" where
  "rtb_on_remove rtb cstat ent =
    (if has_flag ent NGTCP2_RTB_ENTRY_FLAG_LOST_RETRANSMITTED then
       bindR (dec (rtb_num_lost_pkts rtb)) (\<lambda>n.
       let rtb = rtb\<lparr>rtb_num_lost_pkts := n\<rparr> in
       if has_flag ent (NGTCP2_RTB_ENTRY_FLAG_PMTUD_PROBE OR NGTCP2_RTB_ENTRY_FLAG_SKIP) then
         bindR (dec (rtb_num_lost_ignore_pkts rtb)) (\<lambda>n. Ok (rtb\<lparr>rtb_num_lost_ignore_pkts := n\<rparr>, cstat, 0))
       else Ok (rtb, cstat, 0))
     else
       bindR (if has_flag ent NGTCP2_RTB_ENTRY_FLAG_ACK_ELICITING
              then bindR (dec (rtb_num_ack_eliciting rtb)) (\<lambda>n. Ok (rtb\<lparr>rtb_num_ack_eliciting := n\<rparr>)) else Ok rtb) (\<lambda>rtb.
       bindR (if has_flag ent NGTCP2_RTB_ENTRY_FLAG_RETRANSMITTABLE \<and> \<not> has_flag ent NGTCP2_RTB_ENTRY_FLAG_PTO_RECLAIMED
              then bindR (dec (rtb_num_retransmittable rtb)) (\<lambda>n. Ok (rtb\<lparr>rtb_num_retransmittable := n\<rparr>)) else Ok rtb) (\<lambda>rtb.
       bindR (if has_flag ent NGTCP2_RTB_ENTRY_FLAG_PTO_ELICITING
              then bindR (dec (rtb_num_pto_eliciting rtb)) (\<lambda>n. Ok (rtb\<lparr>rtb_num_pto_eliciting := n\<rparr>)) else Ok rtb) (\<lambda>rtb.
       if sint (rtb_cc_pkt_num rtb) \<le> sint (en_pkt_num ent) then
         assertR (cs_bytes_in_flight cstat \<ge> en_pktlen ent)
        (assertR (rtb_cc_bytes_in_flight rtb \<ge> en_pktlen ent)
        (Ok (rtb\<lparr>rtb_cc_bytes_in_flight := rtb_cc_bytes_in_flight rtb - en_pktlen ent\<rparr>,
             cstat\<lparr>cs_bytes_in_flight := cs_bytes_in_flight cstat - en_pktlen ent\<rparr>,
             if has_flag ent NGTCP2_RTB_ENTRY_FLAG_PMTUD_PROBE then 0 else en_pktlen ent)))
       else Ok (rtb, cstat, 0)))))"

section \<open>Loss\<close>

text \<open>
  The packet that \<open>it\<close> points to is lost: it is counted, its frames are sent again unless a probe timeout has done that, and its entry stays in
  the map with the flag and the time set.
\<close>

definition count_lost_pkt :: "'c loss_env \<Rightarrow> 'c loss_conn \<Rightarrow> ngtcp2_rtb_entry \<Rightarrow> u64 \<Rightarrow> 'c loss_conn" where
  "count_lost_pkt env conn ent ts =
    (let rtb = lc_rtb conn in
     if has_flag ent (NGTCP2_RTB_ENTRY_FLAG_PMTUD_PROBE OR NGTCP2_RTB_ENTRY_FLAG_SKIP)
     then conn\<lparr>lc_rtb := rtb\<lparr>rtb_num_lost_ignore_pkts := rtb_num_lost_ignore_pkts rtb + 1\<rparr>\<rparr>
     else let cstat = (lc_cstat conn)\<lparr>cs_pkt_lost := cs_pkt_lost (lc_cstat conn) + 1, cs_bytes_lost := cs_bytes_lost (lc_cstat conn) + en_pktlen ent\<rparr>;
              conn = conn\<lparr>lc_cstat := cstat\<rparr> in
          if sint (en_pkt_num ent) \<ge> sint (rtb_cc_pkt_num rtb) then
            call_cc (\<lambda>f. f cstat (ngtcp2_cc_pkt_init ent) ts) (le_on_pkt_lost env)
              (conn\<lparr>lc_rst := (lc_rst conn)\<lparr>rst_lost := rst_lost (lc_rst conn) + en_pktlen ent\<rparr>\<rparr>)
          else conn)"

definition reclaim_lost_pkt :: "'c loss_env \<Rightarrow> 'c loss_conn \<Rightarrow> ngtcp2_rtb_entry \<Rightarrow> 'c loss_conn res" where
  "reclaim_lost_pkt env conn ent =
    (if has_flag ent NGTCP2_RTB_ENTRY_FLAG_PTO_RECLAIMED then
       assertR (\<not> has_flag ent NGTCP2_RTB_ENTRY_FLAG_LOST_RETRANSMITTED) (assertR (en_lost_ts ent = UINT64_MAX) (Ok conn))
     else
       bindR (case le_lost_datagram env of
           Some f \<Rightarrow> if has_flag ent NGTCP2_RTB_ENTRY_FLAG_DATAGRAM
             then bindR (f ent (lc_rest conn)) (\<lambda>r. Ok (conn\<lparr>lc_rest := r\<rparr>)) else Ok conn
         | None \<Rightarrow> Ok conn) (\<lambda>conn.
       if has_flag ent NGTCP2_RTB_ENTRY_FLAG_RETRANSMITTABLE then
         assertR (en_frc ent \<noteq> [])
        (assertR (\<not> has_flag ent NGTCP2_RTB_ENTRY_FLAG_LOST_RETRANSMITTED)
        (assertR (en_lost_ts ent = UINT64_MAX)
        (bindR (le_reclaim_frame env NGTCP2_RECLAIM_FLAG_ON_LOSS ent (lc_rest conn)) (\<lambda>(r, _). Ok (conn\<lparr>lc_rest := r\<rparr>)))))
       else Ok conn))"

definition rtb_on_pkt_lost :: "'c loss_env \<Rightarrow> 'c loss_conn \<Rightarrow> ksl_it \<Rightarrow> ngtcp2_rtb_entry \<Rightarrow> u64 \<Rightarrow> 'c loss_conn res" where
  "rtb_on_pkt_lost env conn it ent ts =
     bindR (reclaim_lost_pkt env (count_lost_pkt env conn ent ts) ent) (\<lambda>conn.
     let rtb = lc_rtb conn in
     Ok (conn\<lparr>lc_rtb := rtb\<lparr>rtb_ents := ksl_it_store (rtb_ents rtb) it
           (ent\<lparr>en_flags := en_flags ent OR NGTCP2_RTB_ENTRY_FLAG_LOST_RETRANSMITTED, en_lost_ts := ts\<rparr>),
         rtb_num_lost_pkts := rtb_num_lost_pkts rtb + 1\<rparr>\<rparr>))"

definition rtb_pkt_lost :: "ngtcp2_rtb \<Rightarrow> ngtcp2_conn_stat \<Rightarrow> ngtcp2_rtb_entry \<Rightarrow> u64 \<Rightarrow> nat \<Rightarrow> u64 \<Rightarrow> ngtcp2_conn_stat \<times> bool" where
  "rtb_pkt_lost rtb cstat ent loss_delay pkt_thres ts =
    (if ngtcp2_tstamp_elapsed (en_ts ent) loss_delay ts \<or>
        sint (rtb_largest_acked_tx_pkt_num rtb) \<ge> sint (en_pkt_num ent) + int pkt_thres then (cstat, True)
     else let loss_time = (if cs_loss_time cstat = UINT64_MAX then en_ts ent + loss_delay
            else min (cs_loss_time cstat) (en_ts ent + loss_delay)) in
       (cstat\<lparr>cs_loss_time := loss_time\<rparr>, False))"

definition compute_pkt_loss_delay :: "ngtcp2_conn_stat \<Rightarrow> u64" where
  "compute_pkt_loss_delay cstat =
     max (max (cs_latest_rtt cstat) (cs_smoothed_rtt cstat) * 9 div 8) NGTCP2_GRANULARITY"

definition compute_pto :: "u64 \<Rightarrow> u64 \<Rightarrow> u64 \<Rightarrow> u64" where
  "compute_pto smoothed_rtt rttvar max_ack_delay = smoothed_rtt + max (4 * rttvar) NGTCP2_GRANULARITY + max_ack_delay"

definition ngtcp2_conn_compute_pto :: "'c loss_env \<Rightarrow> 'c loss_conn \<Rightarrow> u64" where
  "ngtcp2_conn_compute_pto env conn =
     compute_pto (cs_smoothed_rtt (lc_cstat conn)) (cs_rttvar (lc_cstat conn)) (if le_application env then le_max_ack_delay env else 0)"

text \<open>
  The ECN mark of a datagram that carries a packet: the new value of \<open>pi->ecn\<close>, and the flags of the entry where there is one.
\<close>

definition conn_handle_tx_ecn ::
    "'c loss_env \<Rightarrow> 'c loss_conn \<Rightarrow> u32 \<Rightarrow> 16 word option \<Rightarrow> ngtcp2_pkt_hd \<Rightarrow> u64 \<Rightarrow> ('c loss_conn \<times> u32 \<times> 16 word option) res" where
  "conn_handle_tx_ecn env conn ecn flags phd ts =
    (let count = (\<lambda>conn. conn\<lparr>
           lc_ecn_start_pkt_num := (if lc_ecn_start_pkt_num conn = INT64_MAX then hd_pkt_num phd else lc_ecn_start_pkt_num conn),
           lc_ecn_validation_pkt_sent := lc_ecn_validation_pkt_sent conn + 1\<rparr>);
         mark = (\<lambda>conn. (conn\<lparr>lc_ecn_ect0_sent := lc_ecn_ect0_sent conn + 1\<rparr>, map_option (\<lambda>f. f OR NGTCP2_RTB_ENTRY_FLAG_ECN) flags)) in
     if ecn \<noteq> NGTCP2_ECN_NOT_ECT then (case mark (count conn) of (conn, flags) \<Rightarrow> Ok (conn, ecn, flags)) else
     let send = (\<lambda>conn. case mark conn of (conn, flags) \<Rightarrow> Ok (conn, NGTCP2_ECN_ECT_0, flags));
         test = (\<lambda>conn.
           let conn = count conn; conn = conn\<lparr>lc_ecn_dgram_sent := lc_ecn_dgram_sent conn + 1\<rparr> in
           send (if lc_ecn_dgram_sent conn = NGTCP2_ECN_MAX_NUM_VALIDATION_PKTS
                 then conn\<lparr>lc_ecn_state := NGTCP2_ECN_STATE_UNKNOWN\<rparr> else conn)) in
     case lc_ecn_state conn of
       NGTCP2_ECN_STATE_TESTING \<Rightarrow>
         if lc_ecn_validation_start_ts conn = UINT64_MAX then
           assertR (lc_ecn_validation_pkt_sent conn = 0)
          (assertR (lc_ecn_validation_pkt_lost conn = 0) (test (conn\<lparr>lc_ecn_validation_start_ts := ts\<rparr>)))
         else if ts - lc_ecn_validation_start_ts conn \<ge> 3 * ngtcp2_conn_compute_pto env conn
         then Ok (conn\<lparr>lc_ecn_state := NGTCP2_ECN_STATE_UNKNOWN\<rparr>, ecn, flags)
         else test conn
     | NGTCP2_ECN_STATE_CAPABLE \<Rightarrow> send conn
     | NGTCP2_ECN_STATE_UNKNOWN \<Rightarrow> Ok (conn, ecn, flags)
     | NGTCP2_ECN_STATE_FAILED \<Rightarrow> Ok (conn, ecn, flags))"

text \<open>The part of the reset for the connection and this packet number space.\<close>

definition conn_reset_ecn_validation_state :: "'c loss_conn \<Rightarrow> 'c loss_conn" where
  "conn_reset_ecn_validation_state conn = conn\<lparr>lc_ecn_state := NGTCP2_ECN_STATE_TESTING, lc_ecn_validation_start_ts := UINT64_MAX,
     lc_ecn_dgram_sent := 0, lc_ecn_start_pkt_num := INT64_MAX, lc_ecn_validation_pkt_sent := 0, lc_ecn_validation_pkt_lost := 0\<rparr>"

definition conn_all_ecn_pkt_lost :: "'c loss_env \<Rightarrow> 'c loss_conn \<Rightarrow> bool" where
  "conn_all_ecn_pkt_lost env conn = (le_other_ecn_pkt_lost env \<and> lc_ecn_validation_pkt_sent conn = lc_ecn_validation_pkt_lost conn)"

text \<open>
  The inner loop of \<open>rtb_detect_lost_pkt\<close>, which declares every packet from the iterator on lost. The result has the numbers of bytes and of
  ECN packets lost, and the time of the oldest packet of a consecutive run.
\<close>

fun lost_loop ::
    "nat \<Rightarrow> 'c loss_env \<Rightarrow> 'c loss_conn \<Rightarrow> ksl_it \<Rightarrow> u64 \<Rightarrow> u64 \<Rightarrow> u64 \<Rightarrow> int \<Rightarrow> u64 \<Rightarrow> nat \<Rightarrow> nat \<Rightarrow> u64 \<Rightarrow>
      ('c loss_conn \<times> u64 \<times> nat \<times> nat) res" where
  "lost_loop 0 env conn it latest_ts start_ts congestion_period last_lost_pkt_num oldest_ts ecn_pkt_lost bytes_lost ts = Fault"
| "lost_loop (Suc fuel) env conn it latest_ts start_ts congestion_period last_lost_pkt_num oldest_ts ecn_pkt_lost bytes_lost ts =
    (let ents = rtb_ents (lc_rtb conn) in
     if ngtcp2_ksl_it_end ents it then Ok (conn, oldest_ts, ecn_pkt_lost, bytes_lost) else
     bindR (ngtcp2_ksl_it_get ents it) (\<lambda>ent.
     let run = (last_lost_pkt_num = sint (en_pkt_num ent) + 1 \<and> en_ts ent \<ge> start_ts);
         last_lost_pkt_num = (if run then sint (en_pkt_num ent) else - 1);
         oldest_ts = (if run then en_ts ent else oldest_ts) in
     if has_flag ent NGTCP2_RTB_ENTRY_FLAG_LOST_RETRANSMITTED then
       if \<not> le_application env \<or> last_lost_pkt_num = - 1 \<or> latest_ts - oldest_ts \<ge> congestion_period
       then Ok (conn, oldest_ts, ecn_pkt_lost, bytes_lost)
       else lost_loop fuel env conn (ngtcp2_ksl_it_next ents it) latest_ts start_ts congestion_period last_lost_pkt_num oldest_ts
         ecn_pkt_lost bytes_lost ts
     else
       let ecn_pkt_lost = (if sint (en_pkt_num ent) \<ge> sint (lc_ecn_start_pkt_num conn) \<and> has_flag ent NGTCP2_RTB_ENTRY_FLAG_ECN
             then ecn_pkt_lost + 1 else ecn_pkt_lost) in
       bindR (rtb_on_remove (lc_rtb conn) (lc_cstat conn) ent) (\<lambda>(rtb, cstat, n).
       bindR (rtb_on_pkt_lost env (conn\<lparr>lc_rtb := rtb, lc_cstat := cstat\<rparr>) it ent ts) (\<lambda>conn.
       lost_loop fuel env conn (ngtcp2_ksl_it_next (rtb_ents (lc_rtb conn)) it) latest_ts start_ts congestion_period last_lost_pkt_num oldest_ts
         ecn_pkt_lost (bytes_lost + n) ts))))"

text \<open>The validation of ECN when packets are lost.\<close>

definition ecn_on_loss :: "'c loss_env \<Rightarrow> 'c loss_conn \<Rightarrow> nat \<Rightarrow> u64 \<Rightarrow> u64 \<Rightarrow> 'c loss_conn res" where
  "ecn_on_loss env conn ecn_pkt_lost pto ts =
    (let unknown = (\<lambda>conn.
       let conn = conn\<lparr>lc_ecn_validation_pkt_lost := lc_ecn_validation_pkt_lost conn + ecn_pkt_lost\<rparr> in
       assertR (lc_ecn_validation_pkt_sent conn \<ge> lc_ecn_validation_pkt_lost conn)
      (Ok (if conn_all_ecn_pkt_lost env conn then conn\<lparr>lc_ecn_state := NGTCP2_ECN_STATE_FAILED\<rparr> else conn))) in
     case lc_ecn_state conn of
       NGTCP2_ECN_STATE_TESTING \<Rightarrow>
         if lc_ecn_validation_start_ts conn = UINT64_MAX then Ok conn
         else if ts - lc_ecn_validation_start_ts conn < 3 * pto then
           let conn = conn\<lparr>lc_ecn_validation_pkt_lost := lc_ecn_validation_pkt_lost conn + ecn_pkt_lost\<rparr> in
           assertR (lc_ecn_validation_pkt_sent conn \<ge> lc_ecn_validation_pkt_lost conn) (Ok conn)
         else unknown (conn\<lparr>lc_ecn_state := NGTCP2_ECN_STATE_UNKNOWN\<rparr>)
     | NGTCP2_ECN_STATE_UNKNOWN \<Rightarrow> unknown conn
     | _ \<Rightarrow> Ok conn)"

text \<open>What \<open>rtb_detect_lost_pkt\<close> does from the first lost packet on.\<close>

definition on_lost_pkts ::
    "'c loss_env \<Rightarrow> 'c loss_conn \<Rightarrow> ngtcp2_cc_ack \<Rightarrow> ksl_it \<Rightarrow> ngtcp2_rtb_entry \<Rightarrow> u64 \<Rightarrow> u64 \<Rightarrow> ('c loss_conn \<times> ngtcp2_cc_ack) res" where
  "on_lost_pkts env conn cc_ack it ent pto ts =
    (let cstat = lc_cstat conn;
         latest_ts = en_ts ent;
         congestion_period = (cs_smoothed_rtt cstat + max (4 * cs_rttvar cstat) NGTCP2_GRANULARITY + le_max_ack_delay env) *
           NGTCP2_PERSISTENT_CONGESTION_THRESHOLD;
         start_ts = max (le_handshake_confirmed_ts env) (cs_first_rtt_sample_ts cstat) in
     bindR (lost_loop (ngtcp2_ksl_len (rtb_ents (lc_rtb conn)) + 1) env conn it latest_ts start_ts congestion_period
       (sint (en_pkt_num ent) + 1) latest_ts 0 0 ts) (\<lambda>(conn, oldest_ts, ecn_pkt_lost, bytes_lost).
     if bytes_lost = 0 then Ok (conn, cc_ack) else
     bindR (ecn_on_loss env conn ecn_pkt_lost pto ts) (\<lambda>conn.
     let cc_ack = cc_ack\<lparr>ca_bytes_lost := bytes_lost\<rparr>;
         conn = call_cc (\<lambda>f. f (lc_cstat conn) latest_ts cc_ack ts) (le_congestion_event env) conn;
         loss_window = latest_ts - oldest_ts in
     if le_application env \<and> loss_window \<noteq> 0 \<and> loss_window \<ge> congestion_period then
       let cstat = (lc_cstat conn)\<lparr>cs_min_rtt := UINT64_MAX, cs_smoothed_rtt := le_initial_rtt env, cs_rttvar := le_initial_rtt env div 2,
             cs_first_rtt_sample_ts := UINT64_MAX\<rparr> in
       Ok (call_cc (\<lambda>f. f cstat ts) (le_on_persistent_congestion env) (conn\<lparr>lc_cstat := cstat\<rparr>), cc_ack)
     else Ok (conn, cc_ack))))"

fun detect_loop ::
    "nat \<Rightarrow> 'c loss_env \<Rightarrow> 'c loss_conn \<Rightarrow> ngtcp2_cc_ack \<Rightarrow> ksl_it \<Rightarrow> u64 \<Rightarrow> nat \<Rightarrow> u64 \<Rightarrow> u64 \<Rightarrow> ('c loss_conn \<times> ngtcp2_cc_ack) res" where
  "detect_loop 0 env conn cc_ack it loss_delay pkt_thres pto ts = Fault"
| "detect_loop (Suc fuel) env conn cc_ack it loss_delay pkt_thres pto ts =
    (let ents = rtb_ents (lc_rtb conn) in
     if ngtcp2_ksl_it_end ents it then Ok (conn, cc_ack) else
     bindR (ngtcp2_ksl_it_get ents it) (\<lambda>ent.
     if has_flag ent NGTCP2_RTB_ENTRY_FLAG_LOST_RETRANSMITTED then Ok (conn, cc_ack) else
     case rtb_pkt_lost (lc_rtb conn) (lc_cstat conn) ent loss_delay pkt_thres ts of (cstat, lost) \<Rightarrow>
     if lost then on_lost_pkts env (conn\<lparr>lc_cstat := cstat\<rparr>) cc_ack it ent pto ts
     else detect_loop fuel env (conn\<lparr>lc_cstat := cstat\<rparr>) cc_ack (ngtcp2_ksl_it_next ents it) loss_delay pkt_thres pto ts))"

text \<open>The last entry is removed while there are more lost packets than \<open>n\<close>; \<open>it\<close> is at the end.\<close>

definition remove_last_lost :: "ngtcp2_rtb \<Rightarrow> ksl_it \<Rightarrow> ngtcp2_rtb_entry \<Rightarrow> (ngtcp2_rtb \<times> ksl_it) res" where
  "remove_last_lost rtb it ent =
    (let rtb = rtb\<lparr>rtb_num_lost_pkts := rtb_num_lost_pkts rtb - 1\<rparr>;
         rtb = (if has_flag ent (NGTCP2_RTB_ENTRY_FLAG_PMTUD_PROBE OR NGTCP2_RTB_ENTRY_FLAG_SKIP)
                then rtb\<lparr>rtb_num_lost_ignore_pkts := rtb_num_lost_ignore_pkts rtb - 1\<rparr> else rtb) in
     bindR (ngtcp2_ksl_remove_hint i64_greater (rtb_ents rtb) it (en_pkt_num ent)) (\<lambda>(ents, rv, it').
     assertR (rv = None) (Ok (rtb\<lparr>rtb_ents := ents\<rparr>, case it' of Some i \<Rightarrow> i | None \<Rightarrow> it))))"

fun excessive_loop :: "nat \<Rightarrow> ngtcp2_rtb \<Rightarrow> ksl_it \<Rightarrow> nat \<Rightarrow> ngtcp2_rtb res" where
  "excessive_loop 0 rtb it n = Fault"
| "excessive_loop (Suc fuel) rtb it n =
    (if \<not> rtb_num_lost_pkts rtb > n then Ok rtb else
     assertR (ngtcp2_ksl_it_end (rtb_ents rtb) it)
    (bindR (ngtcp2_ksl_it_prev (rtb_ents rtb) it) (\<lambda>it.
     bindR (ngtcp2_ksl_it_get (rtb_ents rtb) it) (\<lambda>ent.
     assertR (has_flag ent NGTCP2_RTB_ENTRY_FLAG_LOST_RETRANSMITTED)
    (bindR (remove_last_lost rtb it ent) (\<lambda>(rtb, it). excessive_loop fuel rtb it n))))))"

definition ngtcp2_rtb_remove_excessive_lost_pkt :: "ngtcp2_rtb \<Rightarrow> nat \<Rightarrow> ngtcp2_rtb res" where
  "ngtcp2_rtb_remove_excessive_lost_pkt rtb n =
     bindR (ngtcp2_ksl_end (rtb_ents rtb)) (\<lambda>it. excessive_loop (ngtcp2_ksl_len (rtb_ents rtb) + 1) rtb it n)"

definition rtb_detect_lost_pkt ::
    "'c loss_env \<Rightarrow> 'c loss_conn \<Rightarrow> ngtcp2_cc_ack \<Rightarrow> u64 \<Rightarrow> ('c loss_conn \<times> ngtcp2_cc_ack) res" where
  "rtb_detect_lost_pkt env conn cc_ack ts =
    (let rtb = lc_rtb conn; cstat = lc_cstat conn;
         pkt_thres = rtb_cc_bytes_in_flight rtb div cs_max_tx_udp_payload_size cstat div 2;
         pto = ngtcp2_conn_compute_pto env conn;
         pkt_thres = min (max pkt_thres NGTCP2_PKT_THRESHOLD) 256;
         cstat = cstat\<lparr>cs_loss_time := UINT64_MAX\<rparr>;
         loss_delay = compute_pkt_loss_delay cstat in
     assertR (cs_max_tx_udp_payload_size cstat \<noteq> 0)
    (bindR (ngtcp2_ksl_lower_bound i64_greater (rtb_ents rtb) (rtb_largest_acked_tx_pkt_num rtb)) (\<lambda>it.
     bindR (detect_loop (ngtcp2_ksl_len (rtb_ents rtb) + 1) env (conn\<lparr>lc_cstat := cstat\<rparr>) cc_ack it loss_delay pkt_thres pto ts) (\<lambda>(conn, cc_ack).
     bindR (ngtcp2_rtb_remove_excessive_lost_pkt (lc_rtb conn) pkt_thres) (\<lambda>rtb.
     Ok (conn\<lparr>lc_rtb := rtb\<rparr>, cc_ack))))))"

definition cc_ack0 :: ngtcp2_cc_ack where
  "cc_ack0 = \<lparr>ca_bytes_delivered = 0, ca_bytes_lost = 0, ca_pkt_delivered = 0, ca_largest_pkt_sent_ts = UINT64_MAX, ca_rtt = UINT64_MAX\<rparr>"

definition ngtcp2_rtb_detect_lost_pkt :: "'c loss_env \<Rightarrow> 'c loss_conn \<Rightarrow> u64 \<Rightarrow> 'c loss_conn res" where
  "ngtcp2_rtb_detect_lost_pkt env conn ts = bindR (rtb_detect_lost_pkt env conn cc_ack0 ts) (\<lambda>(conn, _). Ok conn)"

section \<open>Acknowledgements\<close>

text \<open>The list of the entries removed, linked by \<open>next\<close> in the code, is a list here, so that the assertion that \<open>next\<close> is null has no counterpart.\<close>

definition rtb_remove :: "'c loss_conn \<Rightarrow> ksl_it \<Rightarrow> ngtcp2_rtb_entry \<Rightarrow> ngtcp2_rtb_entry list \<Rightarrow>
    ('c loss_conn \<times> ksl_it \<times> ngtcp2_rtb_entry list) res" where
  "rtb_remove conn it ent acked =
     bindR (rtb_on_remove (lc_rtb conn) (lc_cstat conn) ent) (\<lambda>(rtb, cstat, _).
     bindR (ngtcp2_ksl_remove_hint i64_greater (rtb_ents rtb) it (en_pkt_num ent)) (\<lambda>(ents, rv, it').
     assertR (rv = None)
    (Ok (conn\<lparr>lc_rtb := rtb\<lparr>rtb_ents := ents\<rparr>, lc_cstat := cstat\<rparr>, case it' of Some i \<Rightarrow> i | None \<Rightarrow> it, ent # acked))))"

text \<open>
  The two loops of \<open>ngtcp2_rtb_recv_ack\<close> over the packets that a range acknowledges. The first one, for the first range, checks an assertion and
  takes the time of the largest packet number acknowledged.
\<close>

fun acked_loop ::
    "nat \<Rightarrow> bool \<Rightarrow> 'c loss_conn \<Rightarrow> ksl_it \<Rightarrow> i64 \<Rightarrow> i64 \<Rightarrow> ngtcp2_rtb_entry list \<Rightarrow> u64 \<Rightarrow> bool \<Rightarrow>
      ('c loss_conn \<times> ngtcp2_rtb_entry list \<times> u64 \<times> bool) res" where
  "acked_loop 0 first conn it largest_ack min_ack acked sent_ts eliciting = Fault"
| "acked_loop (Suc fuel) first conn it largest_ack min_ack acked sent_ts eliciting =
    (let ents = rtb_ents (lc_rtb conn) in
     if ngtcp2_ksl_it_end ents it then Ok (conn, acked, sent_ts, eliciting) else
     bindR (ngtcp2_ksl_it_key ents it) (\<lambda>pkt_num.
     assertR (first \<longrightarrow> sint pkt_num \<le> sint largest_ack)
    (if sint pkt_num < sint min_ack then Ok (conn, acked, sent_ts, eliciting) else
     bindR (ngtcp2_ksl_it_get ents it) (\<lambda>ent.
     if has_flag ent NGTCP2_RTB_ENTRY_FLAG_SKIP then Err NGTCP2_ERR_PROTO else
     let sent_ts = (if first \<and> rtb_largest_acked_tx_pkt_num (lc_rtb conn) = pkt_num then en_ts ent else sent_ts);
         eliciting = (eliciting \<or> has_flag ent NGTCP2_RTB_ENTRY_FLAG_ACK_ELICITING) in
     bindR (rtb_remove conn it ent acked) (\<lambda>(conn, it, acked).
     acked_loop fuel first conn it largest_ack min_ack acked sent_ts eliciting)))))"

fun acked_ranges ::
    "'c loss_conn \<Rightarrow> ngtcp2_ack_range list \<Rightarrow> i64 \<Rightarrow> ngtcp2_rtb_entry list \<Rightarrow> u64 \<Rightarrow> bool \<Rightarrow>
      ('c loss_conn \<times> ngtcp2_rtb_entry list \<times> u64 \<times> bool) res" where
  "acked_ranges conn [] min_ack acked sent_ts eliciting = Ok (conn, acked, sent_ts, eliciting)"
| "acked_ranges conn (r # rs) min_ack acked sent_ts eliciting =
    (let largest_ack = min_ack - ar_gap r - 2; min_ack = largest_ack - ar_len r; ents = rtb_ents (lc_rtb conn) in
     bindR (ngtcp2_ksl_lower_bound i64_greater ents largest_ack) (\<lambda>it.
     if ngtcp2_ksl_it_end ents it then Ok (conn, acked, sent_ts, eliciting) else
     bindR (acked_loop (ngtcp2_ksl_len ents + 1) False conn it largest_ack min_ack acked sent_ts eliciting) (\<lambda>(conn, acked, sent_ts, eliciting).
     acked_ranges conn rs min_ack acked sent_ts eliciting)))"

definition ngtcp2_conn_update_rtt :: "'c loss_env \<Rightarrow> ngtcp2_conn_stat \<Rightarrow> u64 \<Rightarrow> u64 \<Rightarrow> u64 \<Rightarrow> ngtcp2_conn_stat res" where
  "ngtcp2_conn_update_rtt env cstat rtt delay ts =
     assertR (rtt > 0)
    (if cs_min_rtt cstat = UINT64_MAX then
       Ok (cstat\<lparr>cs_latest_rtt := rtt, cs_min_rtt := rtt, cs_smoothed_rtt := rtt, cs_rttvar := rtt div 2, cs_first_rtt_sample_ts := ts\<rparr>)
     else if \<not> le_handshake_confirmed env \<and> delay > 0 \<and> rtt \<ge> cs_min_rtt cstat \<and> rtt < cs_min_rtt cstat + delay then Ok cstat
     else
       assertR (le_handshake_confirmed env \<longrightarrow> le_transport_max_ack_delay env \<noteq> None)
      (let delay = (if le_handshake_confirmed env then min delay (le_max_ack_delay env) else delay);
           cstat = cstat\<lparr>cs_latest_rtt := rtt, cs_min_rtt := min (cs_min_rtt cstat) rtt\<rparr>;
           rtt = (if rtt \<ge> cs_min_rtt cstat + delay then rtt - delay else rtt) in
       Ok (cstat\<lparr>cs_rttvar := (cs_rttvar cstat * 3 +
               (if cs_smoothed_rtt cstat < rtt then rtt - cs_smoothed_rtt cstat else cs_smoothed_rtt cstat - rtt)) div 4,
             cs_smoothed_rtt := (cs_smoothed_rtt cstat * 7 + rtt) div 8\<rparr>)))"

definition rtb_on_pkt_acked :: "'c loss_env \<Rightarrow> 'c loss_conn \<Rightarrow> ngtcp2_rtb_entry \<Rightarrow> u64 \<Rightarrow> 'c loss_conn res" where
  "rtb_on_pkt_acked env conn ent ts =
     assertR (sint (en_pkt_num ent) \<ge> sint (rtb_cc_pkt_num (lc_rtb conn)))
    (let conn = conn\<lparr>lc_rst := ngtcp2_rst_update_rate_sample (lc_rst conn) ent ts\<rparr>;
         conn = call_cc (\<lambda>f. f (lc_cstat conn) (ngtcp2_cc_pkt_init ent) ts) (le_on_pkt_acked env) conn in
     Ok (if \<not> has_flag ent NGTCP2_RTB_ENTRY_FLAG_PROBE \<and> has_flag ent NGTCP2_RTB_ENTRY_FLAG_ACK_ELICITING
         then conn\<lparr>lc_cstat := (lc_cstat conn)\<lparr>cs_pto_count := 0\<rparr>\<rparr> else conn))"

text \<open>The loop over the acknowledged packets, in ascending order.\<close>

fun process_acked_loop ::
    "'c loss_env \<Rightarrow> 'c loss_conn \<Rightarrow> ngtcp2_rtb_entry list \<Rightarrow> ngtcp2_cc_ack \<Rightarrow> nat \<Rightarrow> nat \<Rightarrow> u64 \<Rightarrow>
      ('c loss_conn \<times> ngtcp2_cc_ack \<times> nat \<times> nat) res" where
  "process_acked_loop env conn [] cc_ack ecn_acked num_acked ts = Ok (conn, cc_ack, ecn_acked, num_acked)"
| "process_acked_loop env conn (ent # acked) cc_ack ecn_acked num_acked ts =
    (let ecn_acked = (if sint (en_pkt_num ent) \<ge> sint (lc_ecn_start_pkt_num conn) \<and> has_flag ent NGTCP2_RTB_ENTRY_FLAG_ECN
           then ecn_acked + 1 else ecn_acked) in
     bindR (le_process_acked_pkt env ent (cs_max_tx_udp_payload_size (lc_cstat conn)) (lc_rest conn)) (\<lambda>(r, size).
     let conn = conn\<lparr>lc_rest := r, lc_cstat := (lc_cstat conn)\<lparr>cs_max_tx_udp_payload_size := size\<rparr>\<rparr> in
     if sint (en_pkt_num ent) \<ge> sint (rtb_cc_pkt_num (lc_rtb conn)) then
       assertR (ca_pkt_delivered cc_ack \<le> er_delivered (en_rst ent))
      (bindR (rtb_on_pkt_acked env conn ent ts) (\<lambda>conn.
       process_acked_loop env conn acked (cc_ack\<lparr>ca_bytes_delivered := ca_bytes_delivered cc_ack + en_pktlen ent,
         ca_pkt_delivered := er_delivered (en_rst ent)\<rparr>) ecn_acked (num_acked + 1) ts))
     else process_acked_loop env conn acked cc_ack ecn_acked num_acked ts))"

definition conn_verify_ecn :: "'c loss_env \<Rightarrow> 'c loss_conn \<Rightarrow> ngtcp2_ack \<Rightarrow> nat \<Rightarrow> ngtcp2_cc_ack \<Rightarrow> u64 \<Rightarrow> 'c loss_conn" where
  "conn_verify_ecn env conn fr ecn_acked cc_ack ts =
    (if lc_ecn_state conn = NGTCP2_ECN_STATE_FAILED then conn
     else if ecn_acked \<noteq> 0 \<and> ack_type fr = NGTCP2_FRAME_ACK \<or>
        ack_type fr = NGTCP2_FRAME_ACK_ECN \<and>
        (lc_ecn_ack_ect0 conn > ack_ect0 fr \<or> lc_ecn_ack_ect1 conn > ack_ect1 fr \<or> lc_ecn_ack_ce conn > ack_ce fr \<or>
         (ack_ect0 fr - lc_ecn_ack_ect0 conn) + (ack_ce fr - lc_ecn_ack_ce conn) < of_nat ecn_acked \<or>
         ack_ect0 fr > lc_ecn_ect0_sent conn \<or> ack_ect1 fr \<noteq> 0)
     then conn\<lparr>lc_ecn_state := NGTCP2_ECN_STATE_FAILED\<rparr>
     else
       let conn = (if lc_ecn_state conn \<noteq> NGTCP2_ECN_STATE_CAPABLE \<and> ecn_acked \<noteq> 0
             then conn\<lparr>lc_ecn_state := NGTCP2_ECN_STATE_CAPABLE\<rparr> else conn) in
       if ack_type fr = NGTCP2_FRAME_ACK_ECN then
         let conn = (if ca_largest_pkt_sent_ts cc_ack \<noteq> UINT64_MAX \<and> ack_ce fr > lc_ecn_ack_ce conn
               then call_cc (\<lambda>f. f (lc_cstat conn) (ca_largest_pkt_sent_ts cc_ack) cc_ack ts) (le_congestion_event env) conn else conn) in
         conn\<lparr>lc_ecn_ack_ect0 := ack_ect0 fr, lc_ecn_ack_ect1 := ack_ect1 fr, lc_ecn_ack_ce := ack_ce fr\<rparr>
       else conn)"

text \<open>The end of \<open>ngtcp2_rtb_recv_ack\<close>, after the acknowledged packets have been removed.\<close>

definition finish_ack :: "'c loss_env \<Rightarrow> 'c loss_conn \<Rightarrow> ngtcp2_ack \<Rightarrow> bool \<Rightarrow> nat \<Rightarrow> ngtcp2_cc_ack \<Rightarrow> u64 \<Rightarrow> 'c loss_conn" where
  "finish_ack env conn fr verify_ecn ecn_acked cc_ack ts =
    (let conn = (if verify_ecn then conn_verify_ecn env conn fr ecn_acked cc_ack ts else conn) in
     call_cc (\<lambda>f. f (lc_cstat conn) cc_ack ts) (le_on_ack_recv env) conn)"

text \<open>The packets acknowledged, with the time of the largest one, and whether one of them asks for an acknowledgement.\<close>

definition rtb_collect_acked :: "'c loss_conn \<Rightarrow> ngtcp2_ack \<Rightarrow> ksl_it \<Rightarrow> ('c loss_conn \<times> ngtcp2_rtb_entry list \<times> u64 \<times> bool) res" where
  "rtb_collect_acked conn fr it =
    (let min_ack = ack_largest_ack fr - ack_first_ack_range fr in
     bindR (acked_loop (ngtcp2_ksl_len (rtb_ents (lc_rtb conn)) + 1) True conn it (ack_largest_ack fr) min_ack [] UINT64_MAX False)
       (\<lambda>(conn, acked, sent_ts, eliciting). acked_ranges conn (ack_ranges fr) min_ack acked sent_ts eliciting))"

text \<open>The state before the entries are looked up, and whether ECN is to be verified.\<close>

definition start_ack :: "'c loss_env \<Rightarrow> 'c loss_conn \<Rightarrow> ngtcp2_ack \<Rightarrow> u64 \<Rightarrow> 'c loss_conn \<times> bool" where
  "start_ack env conn fr ts =
    (let rtb = lc_rtb conn;
         conn = conn\<lparr>lc_rest := le_confirm_key_update env (ack_largest_ack fr) ts (lc_rest conn)\<rparr>;
         verify_ecn = (sint (rtb_largest_acked_tx_pkt_num rtb) < sint (ack_largest_ack fr));
         rtb = (if verify_ecn then rtb\<lparr>rtb_largest_acked_tx_pkt_num := ack_largest_ack fr\<rparr> else rtb);
         (rst, cstat) = ngtcp2_rst_reset_rate_sample (lc_rst conn) (lc_cstat conn) in
     (conn\<lparr>lc_rtb := rtb, lc_rst := rst, lc_cstat := cstat\<rparr>, verify_ecn))"

text \<open>What follows the removal: the round trip time, the acknowledged packets, spurious congestion and loss detection.\<close>

definition sample_rtt ::
    "'c loss_env \<Rightarrow> 'c loss_conn \<Rightarrow> ngtcp2_ack \<Rightarrow> u64 \<Rightarrow> bool \<Rightarrow> u64 \<Rightarrow> u64 \<Rightarrow> ('c loss_conn \<times> ngtcp2_cc_ack) res" where
  "sample_rtt env conn fr sent_ts eliciting pkt_ts ts =
    (let cc_ack = cc_ack0\<lparr>ca_largest_pkt_sent_ts := sent_ts\<rparr> in
     if sent_ts \<noteq> UINT64_MAX \<and> eliciting then
       let rtt = max (pkt_ts - sent_ts) 1 in
       bindR (ngtcp2_conn_update_rtt env (lc_cstat conn) rtt (ack_delay_unscaled fr) ts) (\<lambda>cstat.
       Ok (conn\<lparr>lc_cstat := cstat\<rparr>, cc_ack\<lparr>ca_rtt := rtt\<rparr>))
     else Ok (conn, cc_ack))"

definition process_acked ::
    "'c loss_env \<Rightarrow> 'c loss_conn \<Rightarrow> ngtcp2_ack \<Rightarrow> bool \<Rightarrow> nat \<Rightarrow> ngtcp2_rtb_entry list \<Rightarrow> u64 \<Rightarrow> bool \<Rightarrow> u64 \<Rightarrow> u64 \<Rightarrow>
      ('c loss_conn \<times> nat) res" where
  "process_acked env conn fr verify_ecn num_lost_pkts acked sent_ts eliciting pkt_ts ts =
     bindR (sample_rtt env conn fr sent_ts eliciting pkt_ts ts) (\<lambda>(conn, cc_ack).
     bindR (process_acked_loop env conn acked cc_ack 0 0 ts) (\<lambda>(conn, cc_ack, ecn_acked, num_acked).
     let conn = (if num_lost_pkts \<noteq> 0 \<and> rtb_num_lost_pkts (lc_rtb conn) = rtb_num_lost_ignore_pkts (lc_rtb conn)
           then call_cc (\<lambda>f. f (lc_cstat conn) ts) (le_on_spurious_congestion env) conn else conn) in
     bindR (if num_acked \<noteq> 0 then
              let (rst, cstat) = ngtcp2_rst_on_ack_recv (lc_rst conn) (lc_cstat conn) in
              rtb_detect_lost_pkt env (conn\<lparr>lc_rst := rst, lc_cstat := cstat\<rparr>) cc_ack ts
            else Ok (conn, cc_ack)) (\<lambda>(conn, cc_ack).
     Ok (finish_ack env conn fr verify_ecn ecn_acked cc_ack ts, num_acked))))"

text \<open>The branch without a connection, for unit tests, removes and counts the entries only; it is left out.\<close>

definition ngtcp2_rtb_recv_ack :: "'c loss_env \<Rightarrow> 'c loss_conn \<Rightarrow> ngtcp2_ack \<Rightarrow> u64 \<Rightarrow> u64 \<Rightarrow> ('c loss_conn \<times> nat) res" where
  "ngtcp2_rtb_recv_ack env conn fr pkt_ts ts =
    (let num_lost_pkts = rtb_num_lost_pkts (lc_rtb conn) - rtb_num_lost_ignore_pkts (lc_rtb conn);
         (conn, verify_ecn) = start_ack env conn fr ts in
     bindR (ngtcp2_ksl_lower_bound i64_greater (rtb_ents (lc_rtb conn)) (ack_largest_ack fr)) (\<lambda>it.
     if ngtcp2_ksl_it_end (rtb_ents (lc_rtb conn)) it then Ok (finish_ack env conn fr verify_ecn 0 cc_ack0 ts, 0) else
     bindR (rtb_collect_acked conn fr it) (\<lambda>(conn, acked, sent_ts, eliciting).
     process_acked env conn fr verify_ecn num_lost_pkts acked sent_ts eliciting pkt_ts ts)))"

section \<open>Other operations\<close>

fun expired_loop :: "nat \<Rightarrow> ngtcp2_rtb \<Rightarrow> ksl_it \<Rightarrow> u64 \<Rightarrow> u64 \<Rightarrow> ngtcp2_rtb res" where
  "expired_loop 0 rtb it timeout ts = Fault"
| "expired_loop (Suc fuel) rtb it timeout ts =
    (if rtb_num_lost_pkts rtb = 0 then Ok rtb else
     assertR (ngtcp2_ksl_it_end (rtb_ents rtb) it)
    (bindR (ngtcp2_ksl_it_prev (rtb_ents rtb) it) (\<lambda>it.
     bindR (ngtcp2_ksl_it_get (rtb_ents rtb) it) (\<lambda>ent.
     assertR (has_flag ent NGTCP2_RTB_ENTRY_FLAG_LOST_RETRANSMITTED)
    (if ts - en_lost_ts ent < timeout then Ok rtb else
     bindR (remove_last_lost rtb it ent) (\<lambda>(rtb, it). expired_loop fuel rtb it timeout ts))))))"

definition ngtcp2_rtb_remove_expired_lost_pkt :: "ngtcp2_rtb \<Rightarrow> u64 \<Rightarrow> u64 \<Rightarrow> ngtcp2_rtb res" where
  "ngtcp2_rtb_remove_expired_lost_pkt rtb timeout ts =
    (if rtb_num_lost_pkts rtb = 0 then Ok rtb else
     bindR (ngtcp2_ksl_end (rtb_ents rtb)) (\<lambda>it. expired_loop (ngtcp2_ksl_len (rtb_ents rtb) + 1) rtb it timeout ts))"

definition ngtcp2_rtb_lost_pkt_ts :: "ngtcp2_rtb \<Rightarrow> u64 res" where
  "ngtcp2_rtb_lost_pkt_ts rtb =
    (if ngtcp2_ksl_len (rtb_ents rtb) = 0 then Ok UINT64_MAX else
     bindR (ngtcp2_ksl_end (rtb_ents rtb)) (\<lambda>it.
     bindR (ngtcp2_ksl_it_prev (rtb_ents rtb) it) (\<lambda>it.
     bindR (ngtcp2_ksl_it_get (rtb_ents rtb) it) (\<lambda>ent.
     Ok (if has_flag ent NGTCP2_RTB_ENTRY_FLAG_LOST_RETRANSMITTED then en_lost_ts ent else UINT64_MAX)))))"

fun early_loop :: "nat \<Rightarrow> 'c loss_conn \<Rightarrow> ksl_it \<Rightarrow> 'c loss_conn res" where
  "early_loop 0 conn it = Fault"
| "early_loop (Suc fuel) conn it =
    (let ents = rtb_ents (lc_rtb conn) in
     if ngtcp2_ksl_it_end ents it then Ok conn else
     bindR (ngtcp2_ksl_it_get ents it) (\<lambda>ent.
     if en_type ent \<noteq> NGTCP2_PKT_0RTT then early_loop fuel conn (ngtcp2_ksl_it_next ents it)
     else bindR (rtb_remove conn it ent []) (\<lambda>(conn, it, _). early_loop fuel conn it)))"

definition ngtcp2_rtb_remove_early_data :: "'c loss_conn \<Rightarrow> 'c loss_conn res" where
  "ngtcp2_rtb_remove_early_data conn =
     early_loop (ngtcp2_ksl_len (rtb_ents (lc_rtb conn)) + 1) conn (ngtcp2_ksl_begin (rtb_ents (lc_rtb conn)))"

text \<open>Every packet before a Retry packet is taken back; none of them has been lost or is a probe.\<close>

fun retry_loop :: "nat \<Rightarrow> 'c loss_env \<Rightarrow> 'c loss_conn \<Rightarrow> ksl_it \<Rightarrow> 'c loss_conn res" where
  "retry_loop 0 env conn it = Fault"
| "retry_loop (Suc fuel) env conn it =
    (let ents = rtb_ents (lc_rtb conn) in
     if ngtcp2_ksl_it_end ents it then Ok conn else
     bindR (ngtcp2_ksl_it_get ents it) (\<lambda>ent.
     bindR (rtb_remove conn it ent []) (\<lambda>(conn, it, _).
     assertR (\<not> has_flag ent NGTCP2_RTB_ENTRY_FLAG_PROBE)
    (assertR (\<not> has_flag ent NGTCP2_RTB_ENTRY_FLAG_LOST_RETRANSMITTED)
    (assertR (rtb_num_lost_pkts (lc_rtb conn) = 0)
    (assertR (rtb_num_lost_ignore_pkts (lc_rtb conn) = 0)
    (assertR (\<not> has_flag ent NGTCP2_RTB_ENTRY_FLAG_PMTUD_PROBE)
    (if has_flag ent NGTCP2_RTB_ENTRY_FLAG_PTO_RECLAIMED then retry_loop fuel env conn it
     else if \<not> has_flag ent NGTCP2_RTB_ENTRY_FLAG_RETRANSMITTABLE \<and>
       (\<not> has_flag ent NGTCP2_RTB_ENTRY_FLAG_DATAGRAM \<or> le_lost_datagram env = None) then retry_loop fuel env conn it
     else bindR (le_reclaim_frame_on_retry env ent (lc_rest conn)) (\<lambda>r. retry_loop fuel env (conn\<lparr>lc_rest := r\<rparr>) it)))))))))"

definition ngtcp2_rtb_reclaim_on_retry :: "'c loss_env \<Rightarrow> 'c loss_conn \<Rightarrow> 'c loss_conn res" where
  "ngtcp2_rtb_reclaim_on_retry env conn =
     retry_loop (ngtcp2_ksl_len (rtb_ents (lc_rtb conn)) + 1) env conn (ngtcp2_ksl_begin (rtb_ents (lc_rtb conn)))"

definition ngtcp2_rtb_empty :: "ngtcp2_rtb \<Rightarrow> bool" where
  "ngtcp2_rtb_empty rtb = (ngtcp2_ksl_len (rtb_ents rtb) = 0)"

definition ngtcp2_rtb_reset_cc_state :: "ngtcp2_rtb \<Rightarrow> i64 \<Rightarrow> ngtcp2_rtb" where
  "ngtcp2_rtb_reset_cc_state rtb cc_pkt_num = rtb\<lparr>rtb_cc_pkt_num := cc_pkt_num, rtb_cc_bytes_in_flight := 0\<rparr>"

text \<open>
  The congestion state of a new path, for this packet number space: \<open>last_pkt_num\<close> is the last packet number that it has sent.
\<close>

definition conn_reset_conn_stat_cc :: "'c loss_env \<Rightarrow> ngtcp2_conn_stat \<Rightarrow> ngtcp2_conn_stat" where
  "conn_reset_conn_stat_cc env cstat = cstat\<lparr>cs_latest_rtt := 0, cs_min_rtt := UINT64_MAX, cs_smoothed_rtt := le_initial_rtt env,
     cs_rttvar := le_initial_rtt env div 2, cs_first_rtt_sample_ts := UINT64_MAX, cs_pto_count := 0,
     cs_max_tx_udp_payload_size := le_path_max_tx_udp_payload_size env, cs_bytes_in_flight := 0, cs_delivery_rate_sec := 0\<rparr>"

definition conn_reset_congestion_state :: "'c loss_env \<Rightarrow> 'c loss_conn \<Rightarrow> i64 \<Rightarrow> u64 \<Rightarrow> 'c loss_conn" where
  "conn_reset_congestion_state env conn last_pkt_num ts =
    (let conn = conn\<lparr>lc_cstat := conn_reset_conn_stat_cc env (lc_cstat conn)\<rparr>;
         conn = call_cc (\<lambda>f. f (lc_cstat conn) ts) (le_cc_reset env) conn in
     conn\<lparr>lc_rtb := ngtcp2_rtb_reset_cc_state (lc_rtb conn) (last_pkt_num + 1), lc_rst := ngtcp2_rst_reset (lc_rst conn)\<rparr>)"

fun pto_loop :: "nat \<Rightarrow> 'c loss_env \<Rightarrow> 'c loss_conn \<Rightarrow> ksl_it \<Rightarrow> nat \<Rightarrow> ('c loss_conn \<times> nat) res" where
  "pto_loop 0 env conn it num_pkts = Fault"
| "pto_loop (Suc fuel) env conn it num_pkts =
    (if ngtcp2_ksl_it_begin it \<or> num_pkts = 0 then Ok (conn, num_pkts) else
     let rtb = lc_rtb conn; ents = rtb_ents rtb in
     bindR (ngtcp2_ksl_it_prev ents it) (\<lambda>it.
     bindR (ngtcp2_ksl_it_get ents it) (\<lambda>ent.
     if has_flag ent (NGTCP2_RTB_ENTRY_FLAG_LOST_RETRANSMITTED OR NGTCP2_RTB_ENTRY_FLAG_PTO_RECLAIMED) \<or>
        \<not> has_flag ent NGTCP2_RTB_ENTRY_FLAG_RETRANSMITTABLE
     then pto_loop fuel env conn it num_pkts
     else
       assertR (en_frc ent \<noteq> [])
      (bindR (le_reclaim_frame env NGTCP2_RECLAIM_FLAG_NONE ent (lc_rest conn)) (\<lambda>(r, reclaimed).
       let flags = en_flags ent OR NGTCP2_RTB_ENTRY_FLAG_PTO_RECLAIMED in
       bindR (dec (rtb_num_retransmittable rtb)) (\<lambda>n.
       bindR (if flags AND NGTCP2_RTB_ENTRY_FLAG_PTO_ELICITING \<noteq> 0
              then bindR (dec (rtb_num_pto_eliciting rtb)) (\<lambda>p. Ok (flags AND NOT NGTCP2_RTB_ENTRY_FLAG_PTO_ELICITING, p))
              else Ok (flags, rtb_num_pto_eliciting rtb)) (\<lambda>(flags, p).
       pto_loop fuel env (conn\<lparr>lc_rest := r, lc_rtb := rtb\<lparr>rtb_ents := ksl_it_store ents it (ent\<lparr>en_flags := flags\<rparr>),
           rtb_num_retransmittable := n, rtb_num_pto_eliciting := p\<rparr>\<rparr>) it
         (if reclaimed \<noteq> 0 then num_pkts - 1 else num_pkts))))))))"

definition ngtcp2_rtb_reclaim_on_pto :: "'c loss_env \<Rightarrow> 'c loss_conn \<Rightarrow> nat \<Rightarrow> ('c loss_conn \<times> nat) res" where
  "ngtcp2_rtb_reclaim_on_pto env conn num_pkts =
     bindR (ngtcp2_ksl_end (rtb_ents (lc_rtb conn))) (\<lambda>it.
     bindR (pto_loop (ngtcp2_ksl_len (rtb_ents (lc_rtb conn)) + 1) env conn it num_pkts) (\<lambda>(conn, left). Ok (conn, num_pkts - left)))"

end
