(* ===== verification/Rtb_Loss.thy ===== *)
theory Rtb_Loss
  imports Rtb Acktr_Correct
begin

text \<open>
  The packets in flight of \<open>lib/ngtcp2_rtb.c\<close> as a list, in descending order of the packet numbers: the invariant that ties the counters to it,
  the detection of lost packets, and the removal of lost entries that are stale.
\<close>

section \<open>Entries in the map\<close>

definition entries :: "rtb_ents \<Rightarrow> ngtcp2_rtb_entry list \<Rightarrow> bool" where
  "entries ents es = (ksl_ok i64_greater ents \<and> ksl_elems ents = map (\<lambda>e. (en_pkt_num e, e)) es)"

abbreviation (input) pn :: "ngtcp2_rtb_entry \<Rightarrow> int" where "pn e \<equiv> sint (en_pkt_num e)"

lemma entries_len: "entries ents es \<Longrightarrow> ngtcp2_ksl_len ents = length es"
  using ksl_len [of i64_greater ents] by (simp add: entries_def)

lemma entries_sorted: "entries ents es \<Longrightarrow> sorted_wrt (\<lambda>a b. pn b < pn a) es"
proof -
  assume e: "entries ents es"
  then have "ksl_ok i64_greater ents" by (simp add: entries_def)
  then have "sorted_wrt i64_greater (map fst (ksl_elems ents))"
    by (auto simp: ksl_elems_def ksl_ok_def split: option.splits intro: i64.elems_sorted)
  then show ?thesis using e by (simp add: entries_def sorted_wrt_map ngtcp2_ksl_int64_greater_def)
qed

lemma entries_end:
  assumes "entries ents (xs @ ys)" "ksl_it_at ents it (length xs)"
  shows "ngtcp2_ksl_it_end ents it \<longleftrightarrow> ys = []"
  using ksl_it_end [OF assms(2)] assms(1) by (simp add: entries_def)

lemma entries_get:
  assumes "entries ents (xs @ e # ys)" "ksl_it_at ents it (length xs)"
  shows "ngtcp2_ksl_it_get ents it = Ok e" "ngtcp2_ksl_it_key ents it = Ok (en_pkt_num e)"
    "ksl_it_at ents (ngtcp2_ksl_it_next ents it) (length (xs @ [e]))"
proof -
  have l: "ksl_elems ents = map (\<lambda>e. (en_pkt_num e, e)) (xs @ e # ys)" "length xs < length (ksl_elems ents)"
    and ok: "ksl_ok i64_greater ents" using assms(1) by (auto simp: entries_def)
  show "ngtcp2_ksl_it_get ents it = Ok e" using ksl_it_get [OF assms(2) l(2)] by (simp add: l(1) nth_append)
  show "ngtcp2_ksl_it_key ents it = Ok (en_pkt_num e)" using ksl_it_key [OF assms(2) l(2)] by (simp add: l(1) nth_append)
  show "ksl_it_at ents (ngtcp2_ksl_it_next ents it) (length (xs @ [e]))" using ksl_it_next [OF ok assms(2) l(2)] by simp
qed

lemma entries_prev:
  assumes "entries ents (xs @ e # ys)" "ksl_it_at ents it (length (xs @ [e]))"
  obtains it' where "ngtcp2_ksl_it_prev ents it = Ok it'" "ksl_it_at ents it' (length xs)"
  using ksl_it_prev [of i64_greater ents it "length xs"] assms by (auto simp: entries_def)

lemma entries_ends:
  assumes "entries ents es"
  obtains it where "ngtcp2_ksl_end ents = Ok it" "ksl_it_at ents it (length es)"
  using ksl_end_at [of i64_greater ents] assms by (auto simp: entries_def)

lemma entries_begin: "entries ents es \<Longrightarrow> ksl_it_at ents (ngtcp2_ksl_begin ents) 0"
  using ksl_begin_at [of i64_greater ents] by (simp add: entries_def)

lemma entries_remove:
  assumes "entries ents (xs @ e # ys)" "ksl_it_at ents it (length xs)"
  obtains ents' it' where "ngtcp2_ksl_remove_hint i64_greater ents it (en_pkt_num e) = Ok (ents', None, Some it')"
    "entries ents' (xs @ ys)" "ksl_it_at ents' it' (length xs)"
proof -
  have l: "ksl_elems ents = map (\<lambda>e. (en_pkt_num e, e)) (xs @ e # ys)" "length xs < length (ksl_elems ents)"
    and ok: "ksl_ok i64_greater ents" using assms(1) by (auto simp: entries_def)
  have k: "fst (ksl_elems ents ! length xs) = en_pkt_num e" by (simp add: l(1) nth_append)
  show thesis using i64.ksl_remove_hint_ok [OF ok int64_agrees assms(2) l(2) k] that by (auto simp: entries_def l(1))
qed

lemma entries_store:
  assumes "entries ents (xs @ e # ys)" "ksl_it_at ents it (length xs)" "en_pkt_num e' = en_pkt_num e"
  shows "entries (ksl_it_store ents it e') (xs @ e' # ys)" "ksl_it_at (ksl_it_store ents it e') it' q \<longleftrightarrow> ksl_it_at ents it' q"
proof -
  have l: "ksl_elems ents = map (\<lambda>e. (en_pkt_num e, e)) (xs @ e # ys)" "length xs < length (ksl_elems ents)"
    and ok: "ksl_ok i64_greater ents" using assms(1) by (auto simp: entries_def)
  have k: "(ksl_elems ents)[length xs := (fst (ksl_elems ents ! length xs), e')] = map (\<lambda>e. (en_pkt_num e, e)) (xs @ e' # ys)"
    using assms(3) by (simp add: l(1) nth_append list_update_append)
  show "entries (ksl_it_store ents it e') (xs @ e' # ys)"
    using i64.it_store_ok(1,2) [OF ok assms(2) l(2), of e'] k by (simp add: entries_def)
  show "ksl_it_at (ksl_it_store ents it e') it' q \<longleftrightarrow> ksl_it_at ents it' q" by (rule i64.it_store_ok(4) [OF ok assms(2) l(2)])
qed

lemma entries_lower_bound:
  assumes "entries ents es"
  obtains it xs ys where "ngtcp2_ksl_lower_bound i64_greater ents k = Ok it" "es = xs @ ys" "ksl_it_at ents it (length xs)"
    "\<forall>x \<in> set xs. sint k < pn x" "\<forall>y \<in> set ys. pn y \<le> sint k"
proof -
  have ok: "ksl_ok i64_greater ents" and l: "ksl_elems ents = map (\<lambda>e. (en_pkt_num e, e)) es" using assms by (auto simp: entries_def)
  have "passes i64_greater (ksl_keys ents) (\<lambda>x. i64_greater x k)" by (auto simp: passes_def ngtcp2_ksl_int64_greater_def)
  from lower_bound_search_ok [of i64_greater ents i64_greater k, OF ok this] obtain it where
    it: "ngtcp2_ksl_lower_bound i64_greater ents k = Ok it"
      "ksl_it_at ents it (length (takeWhile (\<lambda>e. i64_greater (fst e) k) (ksl_elems ents)))" unfolding ngtcp2_ksl_lower_bound_def by blast
  let ?P = "\<lambda>e. sint k < pn e"
  have t: "length (takeWhile (\<lambda>e. i64_greater (fst e) k) (ksl_elems ents)) = length (takeWhile ?P es)"
    by (simp add: l takeWhile_map ngtcp2_ksl_int64_greater_def comp_def)
  have "pn y \<le> sint k" if y: "y \<in> set (dropWhile ?P es)" for y
  proof (cases "dropWhile ?P es")
    case (Cons z zs)
    then have z: "\<not> ?P z" by (metis hd_dropWhile list.discI list.sel(1))
    have "sorted_wrt (\<lambda>a b. pn b < pn a) (z # zs)" using entries_sorted [OF assms] Cons by (metis sorted_wrt_append takeWhile_dropWhile_id)
    then show ?thesis using y z Cons by auto
  next
    case Nil
    then show ?thesis using y by (metis empty_iff list.set(1))
  qed
  moreover have "es = takeWhile ?P es @ dropWhile ?P es" by simp
  moreover have "\<forall>x \<in> set (takeWhile ?P es). sint k < pn x" using set_takeWhileD by fastforce
  ultimately show thesis using it t that [of it "takeWhile ?P es" "dropWhile ?P es"] by simp
qed

section \<open>Counters\<close>

abbreviation (input) lost :: "ngtcp2_rtb_entry \<Rightarrow> bool" where "lost e \<equiv> has_flag e NGTCP2_RTB_ENTRY_FLAG_LOST_RETRANSMITTED"
abbreviation (input) ignored :: "ngtcp2_rtb_entry \<Rightarrow> bool" where
  "ignored e \<equiv> has_flag e (NGTCP2_RTB_ENTRY_FLAG_PMTUD_PROBE OR NGTCP2_RTB_ENTRY_FLAG_SKIP)"
abbreviation (input) retransmittable :: "ngtcp2_rtb_entry \<Rightarrow> bool" where
  "retransmittable e \<equiv> has_flag e NGTCP2_RTB_ENTRY_FLAG_RETRANSMITTABLE \<and> \<not> has_flag e NGTCP2_RTB_ENTRY_FLAG_PTO_RECLAIMED"

text \<open>The bytes of the packets in flight that count for congestion control.\<close>

definition in_flight :: "i64 \<Rightarrow> ngtcp2_rtb_entry list \<Rightarrow> nat" where
  "in_flight cc es = sum_list (map en_pktlen (filter (\<lambda>e. \<not> lost e \<and> sint cc \<le> pn e) es))"

text \<open>The counters agree with the entries.\<close>

definition counts :: "ngtcp2_rtb \<Rightarrow> ngtcp2_rtb_entry list \<Rightarrow> bool" where
  "counts rtb es \<longleftrightarrow>
     rtb_num_lost_pkts rtb = length (filter lost es) \<and>
     rtb_num_lost_ignore_pkts rtb = length (filter (\<lambda>e. lost e \<and> ignored e) es) \<and>
     rtb_num_ack_eliciting rtb = length (filter (\<lambda>e. \<not> lost e \<and> has_flag e NGTCP2_RTB_ENTRY_FLAG_ACK_ELICITING) es) \<and>
     rtb_num_retransmittable rtb = length (filter (\<lambda>e. \<not> lost e \<and> retransmittable e) es) \<and>
     rtb_num_pto_eliciting rtb = length (filter (\<lambda>e. \<not> lost e \<and> has_flag e NGTCP2_RTB_ENTRY_FLAG_PTO_ELICITING) es) \<and>
     rtb_cc_bytes_in_flight rtb = in_flight (rtb_cc_pkt_num rtb) es"

lemma has_flag_or [simp]: "has_flag (e\<lparr>en_flags := en_flags e OR f\<rparr>) g \<longleftrightarrow> has_flag e g \<or> f AND g \<noteq> 0"
  by (auto simp: has_flag_def bit.conj_disj_distrib2 or_eq_0_iff)

lemma has_flag_or_ts [simp]: "has_flag (e\<lparr>en_flags := en_flags e OR f, en_lost_ts := t\<rparr>) g \<longleftrightarrow> has_flag e g \<or> f AND g \<noteq> 0"
  by (auto simp: has_flag_def bit.conj_disj_distrib2 or_eq_0_iff)

lemma in_flight_simps [simp]:
  "in_flight cc [] = 0" "in_flight cc (xs @ ys) = in_flight cc xs + in_flight cc ys"
  "in_flight cc (e # xs) = (if \<not> lost e \<and> sint cc \<le> pn e then en_pktlen e else 0) + in_flight cc xs"
  by (simp_all add: in_flight_def)

definition lost_bytes :: "i64 \<Rightarrow> ngtcp2_rtb_entry \<Rightarrow> nat" where
  "lost_bytes cc e = (if \<not> lost e \<and> sint cc \<le> pn e \<and> \<not> has_flag e NGTCP2_RTB_ENTRY_FLAG_PMTUD_PROBE then en_pktlen e else 0)"

text \<open>What a removal leaves as it is.\<close>

definition same_head :: "ngtcp2_rtb \<Rightarrow> ngtcp2_rtb \<Rightarrow> bool" where
  "same_head rtb rtb' \<longleftrightarrow> rtb_ents rtb' = rtb_ents rtb \<and> rtb_largest_acked_tx_pkt_num rtb' = rtb_largest_acked_tx_pkt_num rtb \<and>
     rtb_cc_pkt_num rtb' = rtb_cc_pkt_num rtb \<and> rtb_probe_pkt_left rtb' = rtb_probe_pkt_left rtb"

lemma rtb_on_remove_ok:
  assumes c: "counts rtb (xs @ e # ys)" and b: "rtb_cc_bytes_in_flight rtb \<le> cs_bytes_in_flight cstat"
  obtains rtb' n d where "rtb_on_remove rtb cstat e = Ok (rtb', cstat\<lparr>cs_bytes_in_flight := cs_bytes_in_flight cstat - d\<rparr>, n)"
    "counts rtb' (xs @ ys)" "same_head rtb rtb'" "rtb_cc_bytes_in_flight rtb = rtb_cc_bytes_in_flight rtb' + d" "n = lost_bytes (rtb_cc_pkt_num rtb) e"
proof (cases "lost e")
  case True
  have id: "cstat\<lparr>cs_bytes_in_flight := cs_bytes_in_flight cstat - 0\<rparr> = cstat" by (cases cstat) simp
  show thesis
  proof (rule that [where d = 0 and n = 0])
    show "rtb_on_remove rtb cstat e = Ok (rtb\<lparr>rtb_num_lost_pkts := rtb_num_lost_pkts rtb - 1, rtb_num_lost_ignore_pkts :=
      (if ignored e then rtb_num_lost_ignore_pkts rtb - 1 else rtb_num_lost_ignore_pkts rtb)\<rparr>,
        cstat\<lparr>cs_bytes_in_flight := cs_bytes_in_flight cstat - 0\<rparr>, 0)"
      using True c by (auto simp: rtb_on_remove_def dec_def counts_def id)
  qed (use True c in \<open>auto simp: counts_def same_head_def lost_bytes_def\<close>)
next
  case False
  let ?ae = "has_flag e NGTCP2_RTB_ENTRY_FLAG_ACK_ELICITING" and ?pe = "has_flag e NGTCP2_RTB_ENTRY_FLAG_PTO_ELICITING"
  let ?d = "if sint (rtb_cc_pkt_num rtb) \<le> pn e then en_pktlen e else 0"
  have id: "cstat\<lparr>cs_bytes_in_flight := cs_bytes_in_flight cstat\<rparr> = cstat" by (cases cstat) simp
  let ?rtb = "rtb\<lparr>rtb_num_ack_eliciting := rtb_num_ack_eliciting rtb - (if ?ae then 1 else 0),
    rtb_num_retransmittable := rtb_num_retransmittable rtb - (if retransmittable e then 1 else 0),
    rtb_num_pto_eliciting := rtb_num_pto_eliciting rtb - (if ?pe then 1 else 0), rtb_cc_bytes_in_flight := rtb_cc_bytes_in_flight rtb - ?d\<rparr>"
  have d: "?d \<le> rtb_cc_bytes_in_flight rtb" "?d \<le> cs_bytes_in_flight cstat" using c b False by (auto simp: counts_def)
  have pos: "?ae \<longrightarrow> rtb_num_ack_eliciting rtb \<noteq> 0" "retransmittable e \<longrightarrow> rtb_num_retransmittable rtb \<noteq> 0" "?pe \<longrightarrow> rtb_num_pto_eliciting rtb \<noteq> 0"
    using c False by (auto simp: counts_def)
  show thesis
  proof (rule that [where d = ?d and rtb' = ?rtb])
    show "rtb_on_remove rtb cstat e = Ok (?rtb, cstat\<lparr>cs_bytes_in_flight := cs_bytes_in_flight cstat - ?d\<rparr>,
      if sint (rtb_cc_pkt_num rtb) \<le> pn e \<and> \<not> has_flag e NGTCP2_RTB_ENTRY_FLAG_PMTUD_PROBE then en_pktlen e else 0)"
      using False pos d by (cases "?ae"; cases "has_flag e NGTCP2_RTB_ENTRY_FLAG_RETRANSMITTABLE";
        cases "has_flag e NGTCP2_RTB_ENTRY_FLAG_PTO_RECLAIMED"; cases "?pe"; cases "sint (rtb_cc_pkt_num rtb) \<le> pn e")
        (simp_all add: rtb_on_remove_def dec_def id)
    show "counts ?rtb (xs @ ys)" using c False unfolding counts_def by auto
  qed (use False d in \<open>auto simp: same_head_def lost_bytes_def\<close>)
qed

lemma counts_lost:
  assumes "counts rtb (xs @ ys)" "lost e"
  shows "counts (rtb\<lparr>rtb_ents := t, rtb_num_lost_pkts := rtb_num_lost_pkts rtb + 1,
     rtb_num_lost_ignore_pkts := rtb_num_lost_ignore_pkts rtb + (if ignored e then 1 else 0)\<rparr>) (xs @ e # ys)"
  using assms unfolding counts_def by auto

lemma counts_ents [simp]: "counts (rtb\<lparr>rtb_ents := t\<rparr>) es = counts rtb es"
  by (simp add: counts_def)

section \<open>Lost packets\<close>

text \<open>
  What is assumed of the parameters: they fail no assertion where the entry is of the kind that they are called with, and the maximum payload
  size stays positive.
\<close>

definition env_ok :: "'c loss_env \<Rightarrow> bool" where
  "env_ok env \<longleftrightarrow>
     (\<forall>f e r. le_lost_datagram env = Some f \<longrightarrow> f e r \<noteq> Fault) \<and>
     (\<forall>fl e r. has_flag e NGTCP2_RTB_ENTRY_FLAG_RETRANSMITTABLE \<longrightarrow> le_reclaim_frame env fl e r \<noteq> Fault) \<and>
     (\<forall>e r. le_reclaim_frame_on_retry env e r \<noteq> Fault) \<and>
     (\<forall>e n r. okR (\<lambda>(_, n'). 0 < n \<longrightarrow> 0 < n') (le_process_acked_pkt env e n r)) \<and>
     (le_handshake_confirmed env \<longrightarrow> le_transport_max_ack_delay env \<noteq> None)"

definition entry_ok :: "ngtcp2_rtb_entry \<Rightarrow> bool" where
  "entry_ok e \<longleftrightarrow> (\<not> lost e \<longrightarrow> en_lost_ts e = UINT64_MAX) \<and> (has_flag e NGTCP2_RTB_ENTRY_FLAG_RETRANSMITTABLE \<longrightarrow> en_frc e \<noteq> [])"

definition mark :: "u64 \<Rightarrow> ngtcp2_rtb_entry \<Rightarrow> ngtcp2_rtb_entry" where
  "mark ts e = e\<lparr>en_flags := en_flags e OR NGTCP2_RTB_ENTRY_FLAG_LOST_RETRANSMITTED, en_lost_ts := ts\<rparr>"

lemma mark_simps [simp]:
  "en_pkt_num (mark ts e) = en_pkt_num e" "en_ts (mark ts e) = en_ts e" "en_pktlen (mark ts e) = en_pktlen e" "en_rst (mark ts e) = en_rst e"
  "en_frc (mark ts e) = en_frc e" "en_lost_ts (mark ts e) = ts" "has_flag (mark ts e) f \<longleftrightarrow> has_flag e f \<or> 16 AND f \<noteq> 0"
  by (simp_all add: mark_def)

lemma entry_ok_mark [simp]: "entry_ok e \<Longrightarrow> entry_ok (mark ts e)"
  by (simp add: entry_ok_def)

text \<open>The state of ECN validation.\<close>

definition ecn_state :: "'c loss_conn \<Rightarrow> _" where
  "ecn_state conn = (lc_ecn_state conn, lc_ecn_validation_start_ts conn, lc_ecn_dgram_sent conn, lc_ecn_start_pkt_num conn,
     lc_ecn_validation_pkt_sent conn, lc_ecn_validation_pkt_lost conn)"

text \<open>
  The entries are the list, the counters agree with it, and the bytes in flight of the connection contain those of the packet number space.
\<close>

definition tracks :: "'c loss_conn \<Rightarrow> ngtcp2_rtb_entry list \<Rightarrow> bool" where
  "tracks conn es \<longleftrightarrow> entries (rtb_ents (lc_rtb conn)) es \<and> counts (lc_rtb conn) es \<and> (\<forall>e \<in> set es. entry_ok e) \<and>
     rtb_cc_bytes_in_flight (lc_rtb conn) \<le> cs_bytes_in_flight (lc_cstat conn)"

text \<open>What the loss of packets leaves as it is: the bytes in flight of the other packet number spaces among them.\<close>

definition same_cc :: "'c loss_conn \<Rightarrow> 'c loss_conn \<Rightarrow> bool" where
  "same_cc conn conn' \<longleftrightarrow>
     rtb_largest_acked_tx_pkt_num (lc_rtb conn') = rtb_largest_acked_tx_pkt_num (lc_rtb conn) \<and>
     rtb_cc_pkt_num (lc_rtb conn') = rtb_cc_pkt_num (lc_rtb conn) \<and>
     cs_bytes_in_flight (lc_cstat conn) + rtb_cc_bytes_in_flight (lc_rtb conn') =
       cs_bytes_in_flight (lc_cstat conn') + rtb_cc_bytes_in_flight (lc_rtb conn) \<and>
     cs_max_tx_udp_payload_size (lc_cstat conn') = cs_max_tx_udp_payload_size (lc_cstat conn) \<and>
     cs_latest_rtt (lc_cstat conn') = cs_latest_rtt (lc_cstat conn) \<and>
     (cs_smoothed_rtt (lc_cstat conn') = cs_smoothed_rtt (lc_cstat conn) \<and>
        cs_first_rtt_sample_ts (lc_cstat conn') = cs_first_rtt_sample_ts (lc_cstat conn) \<or>
      cs_first_rtt_sample_ts (lc_cstat conn') = UINT64_MAX) \<and>
     rst_delivered (lc_rst conn') = rst_delivered (lc_rst conn) \<and> lc_ecn_start_pkt_num conn' = lc_ecn_start_pkt_num conn"

definition same_rest :: "'c loss_conn \<Rightarrow> 'c loss_conn \<Rightarrow> bool" where
  "same_rest conn conn' \<longleftrightarrow> same_cc conn conn' \<and> cs_loss_time (lc_cstat conn') = cs_loss_time (lc_cstat conn) \<and> ecn_state conn' = ecn_state conn"

lemma same_rest_refl: "same_rest conn conn"
  by (simp add: same_rest_def same_cc_def)

lemma same_cc_trans: "same_cc a b \<Longrightarrow> same_cc b c \<Longrightarrow> same_cc a c"
  by (auto simp: same_cc_def)

lemma same_rest_trans: "same_rest a b \<Longrightarrow> same_rest b c \<Longrightarrow> same_rest a c"
  using same_cc_trans by (auto simp: same_rest_def)

lemma count_lost_pkt_ok:
  "lc_rtb (count_lost_pkt env conn e ts) =
     (lc_rtb conn)\<lparr>rtb_num_lost_ignore_pkts := rtb_num_lost_ignore_pkts (lc_rtb conn) + (if ignored e then 1 else 0)\<rparr>"
  "same_rest conn (count_lost_pkt env conn e ts)"
  "cs_bytes_in_flight (lc_cstat (count_lost_pkt env conn e ts)) = cs_bytes_in_flight (lc_cstat conn)"
  by (auto simp: count_lost_pkt_def Let_def call_cc_def same_rest_def same_cc_def ecn_state_def split: option.splits)

lemma same_conn [simp]: "\<exists>r. conn = conn\<lparr>lc_rest := r\<rparr>"
  by (rule exI [of _ "lc_rest conn"]) simp

lemma reclaim_lost_pkt_ok:
  assumes "entry_ok e" "\<not> lost e" "env_ok env"
  shows "okR (\<lambda>conn'. \<exists>r. conn' = conn\<lparr>lc_rest := r\<rparr>) (reclaim_lost_pkt env conn e)"
proof (cases "has_flag e NGTCP2_RTB_ENTRY_FLAG_PTO_RECLAIMED")
  case False
  let ?m = "case le_lost_datagram env of
      Some f \<Rightarrow> if has_flag e NGTCP2_RTB_ENTRY_FLAG_DATAGRAM then bindR (f e (lc_rest conn)) (\<lambda>r. Ok (conn\<lparr>lc_rest := r\<rparr>)) else Ok conn
    | None \<Rightarrow> Ok conn"
  have d: "okR (\<lambda>conn'. \<exists>r. conn' = conn\<lparr>lc_rest := r\<rparr>) ?m"
  proof (cases "le_lost_datagram env")
    case (Some f)
    then have "f e (lc_rest conn) \<noteq> Fault" using assms(3) by (simp add: env_ok_def)
    then show ?thesis using Some by (cases "f e (lc_rest conn)") auto
  qed auto
  have r: "okR (\<lambda>conn'. \<exists>r. conn' = conn\<lparr>lc_rest := r\<rparr>)
      (bindR (le_reclaim_frame env fl e q) (\<lambda>(r, _). Ok (conn\<lparr>lc_rest := r\<rparr>)))" if "has_flag e NGTCP2_RTB_ENTRY_FLAG_RETRANSMITTABLE" for fl q
  proof -
    have "le_reclaim_frame env fl e q \<noteq> Fault" using that assms(3) by (simp add: env_ok_def)
    then show ?thesis by (cases "le_reclaim_frame env fl e q") auto
  qed
  show ?thesis unfolding reclaim_lost_pkt_def if_not_P [OF False]
  proof (rule okR_bindI [OF d], elim exE)
    fix c q assume c: "c = conn\<lparr>lc_rest := q\<rparr>"
    have f: "has_flag e NGTCP2_RTB_ENTRY_FLAG_RETRANSMITTABLE \<Longrightarrow> en_frc e \<noteq> []" "en_lost_ts e = UINT64_MAX"
      using assms(1,2) by (auto simp: entry_ok_def)
    show "okR (\<lambda>conn'. \<exists>r. conn' = conn\<lparr>lc_rest := r\<rparr>) (if has_flag e NGTCP2_RTB_ENTRY_FLAG_RETRANSMITTABLE then
         assertR (en_frc e \<noteq> []) (assertR (\<not> lost e) (assertR (en_lost_ts e = UINT64_MAX)
        (bindR (le_reclaim_frame env NGTCP2_RECLAIM_FLAG_ON_LOSS e (lc_rest c)) (\<lambda>(r, _). Ok (c\<lparr>lc_rest := r\<rparr>)))))
       else Ok c)"
    proof (cases "has_flag e NGTCP2_RTB_ENTRY_FLAG_RETRANSMITTABLE")
      case True
      show ?thesis unfolding c using r [OF True, of 1 q] f assms(2) True by simp
    next
      case F: False
      then show ?thesis unfolding c if_not_P [OF F] okR_simps by blast
    qed
  qed
qed (use assms in \<open>auto simp: reclaim_lost_pkt_def entry_ok_def\<close>)

lemma rtb_on_pkt_lost_ok:
  assumes e: "entries (rtb_ents (lc_rtb conn)) (xs @ e # ys)" "ksl_it_at (rtb_ents (lc_rtb conn)) it (length xs)" "entry_ok e" "\<not> lost e"
    and env: "env_ok env" and c: "counts (lc_rtb conn) (xs @ ys)"
  shows "okR (\<lambda>conn'. entries (rtb_ents (lc_rtb conn')) (xs @ mark ts e # ys) \<and>
      ksl_it_at (rtb_ents (lc_rtb conn')) it (length xs) \<and> counts (lc_rtb conn') (xs @ mark ts e # ys) \<and>
      rtb_cc_bytes_in_flight (lc_rtb conn') = rtb_cc_bytes_in_flight (lc_rtb conn) \<and>
      cs_bytes_in_flight (lc_cstat conn') = cs_bytes_in_flight (lc_cstat conn) \<and> same_rest conn conn')
    (rtb_on_pkt_lost env conn it e ts)"
  unfolding rtb_on_pkt_lost_def
proof (rule okR_bindI [OF reclaim_lost_pkt_ok [OF e(3,4) env]], unfold Let_def okR_simps mark_def [symmetric], elim exE)
  let ?c = "count_lost_pkt env conn e ts"
  fix conn1 r assume 1: "conn1 = ?c\<lparr>lc_rest := r\<rparr>"
  note l = count_lost_pkt_ok [where env = env and conn = conn and e = e and ts = ts]
  have t: "rtb_ents (lc_rtb conn1) = rtb_ents (lc_rtb conn)" unfolding 1 using l(1) by simp
  have s: "entries (ksl_it_store (rtb_ents (lc_rtb conn1)) it (mark ts e)) (xs @ mark ts e # ys)"
    "ksl_it_at (ksl_it_store (rtb_ents (lc_rtb conn1)) it (mark ts e)) it (length xs)"
    using entries_store [OF e(1,2), of "mark ts e"] e(2) unfolding t by auto
  let ?conn = "conn1\<lparr>lc_rtb := (lc_rtb conn1)\<lparr>rtb_ents := ksl_it_store (rtb_ents (lc_rtb conn1)) it (mark ts e),
    rtb_num_lost_pkts := rtb_num_lost_pkts (lc_rtb conn1) + 1\<rparr>\<rparr>"
  have "counts (lc_rtb ?conn) (xs @ mark ts e # ys)" using counts_lost [OF c, of "mark ts e"] unfolding 1 by (simp add: l(1) counts_def)
  moreover have "same_rest conn ?conn" using l(2) unfolding 1 same_rest_def same_cc_def ecn_state_def by simp
  moreover have "rtb_cc_bytes_in_flight (lc_rtb ?conn) = rtb_cc_bytes_in_flight (lc_rtb conn)"
    "cs_bytes_in_flight (lc_cstat ?conn) = cs_bytes_in_flight (lc_cstat conn)" using l(1,3) unfolding 1 by simp_all
  ultimately show "entries (rtb_ents (lc_rtb ?conn)) (xs @ mark ts e # ys) \<and>
      ksl_it_at (rtb_ents (lc_rtb ?conn)) it (length xs) \<and> counts (lc_rtb ?conn) (xs @ mark ts e # ys) \<and>
      rtb_cc_bytes_in_flight (lc_rtb ?conn) = rtb_cc_bytes_in_flight (lc_rtb conn) \<and>
      cs_bytes_in_flight (lc_cstat ?conn) = cs_bytes_in_flight (lc_cstat conn) \<and> same_rest conn ?conn"
    using s by simp
qed

abbreviation (input) ecn_pkt :: "'c loss_conn \<Rightarrow> ngtcp2_rtb_entry \<Rightarrow> bool" where
  "ecn_pkt conn e \<equiv> sint (lc_ecn_start_pkt_num conn) \<le> pn e \<and> has_flag e NGTCP2_RTB_ENTRY_FLAG_ECN"

lemma lose_entry:
  assumes t: "tracks conn (xs @ e # ys)" and it: "ksl_it_at (rtb_ents (lc_rtb conn)) it (length xs)" and n: "\<not> lost e" and env: "env_ok env"
  shows "\<exists>rtb cstat. rtb_on_remove (lc_rtb conn) (lc_cstat conn) e = Ok (rtb, cstat, lost_bytes (rtb_cc_pkt_num (lc_rtb conn)) e) \<and>
    okR (\<lambda>conn'. tracks conn' (xs @ mark ts e # ys) \<and> ksl_it_at (rtb_ents (lc_rtb conn')) it (length xs) \<and> same_rest conn conn')
      (rtb_on_pkt_lost env (conn\<lparr>lc_rtb := rtb, lc_cstat := cstat\<rparr>) it e ts)"
proof -
  note tr = t [unfolded tracks_def]
  have c: "counts (lc_rtb conn) (xs @ e # ys)" "rtb_cc_bytes_in_flight (lc_rtb conn) \<le> cs_bytes_in_flight (lc_cstat conn)" "entry_ok e"
    and e: "entries (rtb_ents (lc_rtb conn)) (xs @ e # ys)" using tr by auto
  from rtb_on_remove_ok [OF c(1,2)] obtain rtb n d where
    r: "rtb_on_remove (lc_rtb conn) (lc_cstat conn) e =
      Ok (rtb, (lc_cstat conn)\<lparr>cs_bytes_in_flight := cs_bytes_in_flight (lc_cstat conn) - d\<rparr>, n)" "counts rtb (xs @ ys)"
      "same_head (lc_rtb conn) rtb" "rtb_cc_bytes_in_flight (lc_rtb conn) = rtb_cc_bytes_in_flight rtb + d"
      "n = lost_bytes (rtb_cc_pkt_num (lc_rtb conn)) e" .
  define conn1 where "conn1 = conn\<lparr>lc_rtb := rtb, lc_cstat := (lc_cstat conn)\<lparr>cs_bytes_in_flight := cs_bytes_in_flight (lc_cstat conn) - d\<rparr>\<rparr>"
  have sh: "rtb_ents rtb = rtb_ents (lc_rtb conn)" using r(3) by (simp add: same_head_def)
  have s1: "same_rest conn conn1" using r(3,4) c(2) by (simp add: same_rest_def same_cc_def conn1_def same_head_def ecn_state_def)
  have b1: "rtb_cc_bytes_in_flight (lc_rtb conn1) \<le> cs_bytes_in_flight (lc_cstat conn1)" using r(4) c(2) by (simp add: conn1_def)
  have p: "entries (rtb_ents (lc_rtb conn1)) (xs @ e # ys)" "ksl_it_at (rtb_ents (lc_rtb conn1)) it (length xs)" "counts (lc_rtb conn1) (xs @ ys)"
    using e it r(2) sh by (simp_all add: conn1_def)
  have "okR (\<lambda>conn'. tracks conn' (xs @ mark ts e # ys) \<and> ksl_it_at (rtb_ents (lc_rtb conn')) it (length xs) \<and> same_rest conn conn')
      (rtb_on_pkt_lost env conn1 it e ts)"
    by (rule okR_mono [OF rtb_on_pkt_lost_ok [OF p(1,2) c(3) n env p(3)]])
      (use tr b1 same_rest_trans [OF s1] in \<open>auto simp: tracks_def\<close>)
  then show ?thesis using r(1,5) unfolding conn1_def by blast
qed

lemma lost_loop_ok:
  assumes "tracks conn (xs @ ys @ zs)" "ksl_it_at (rtb_ents (lc_rtb conn)) it (length xs)" "\<forall>y \<in> set ys. \<not> lost y" "\<forall>z \<in> set zs. lost z"
    "env_ok env" "length (ys @ zs) < fuel"
  shows "okR (\<lambda>(conn', _, ecn', bytes'). tracks conn' (xs @ map (mark ts) ys @ zs) \<and> same_rest conn conn' \<and>
      ecn' = ecn + length (filter (ecn_pkt conn) ys) \<and> bytes' = bytes + sum_list (map (lost_bytes (rtb_cc_pkt_num (lc_rtb conn))) ys))
    (lost_loop fuel env conn it latest_ts start_ts period last_pn oldest ecn bytes ts)"
  using assms
proof (induction fuel arbitrary: conn it xs ys zs last_pn oldest ecn bytes)
  case (Suc fuel)
  let ?t = "rtb_ents (lc_rtb conn)"
  note p = Suc.prems
  have e: "entries ?t (xs @ ys @ zs)" using p(1) by (simp add: tracks_def)
  consider "ys = []" "zs = []" | z zs' where "ys = []" "zs = z # zs'" | y ys' where "ys = y # ys'" by (cases ys; cases zs) auto
  then show ?case
  proof cases
    case 1
    then show ?thesis using entries_end [of ?t xs "ys @ zs", OF e p(2)] p(1) by (simp add: same_rest_refl)
  next
    case 2
    have e': "entries ?t (xs @ z # zs')" using e 2 by simp
    have l: "lost z" using p(4) 2 by simp
    note g = entries_get [OF e' p(2)] entries_end [OF e' p(2)]
    have IH: "okR (\<lambda>(conn', _, ecn', bytes'). tracks conn' (xs @ zs) \<and> same_rest conn conn' \<and> ecn' = ecn \<and> bytes' = bytes)
        (lost_loop fuel env conn (ngtcp2_ksl_it_next ?t it) latest_ts start_ts period last_pn' oldest' ecn bytes ts)" for last_pn' oldest'
      using Suc.IH [of conn "xs @ [z]" "[]" zs' "ngtcp2_ksl_it_next ?t it" ecn bytes last_pn' oldest'] p 2 g(3) by simp
    show ?thesis using g(1,4) l p(1) 2 IH by (simp add: Let_def same_rest_refl)
  next
    case 3
    have e': "entries ?t (xs @ y # ys' @ zs)" using e 3 by simp
    have l: "\<not> lost y" using p(3) 3 by simp
    note g = entries_get [OF e' p(2)] entries_end [OF e' p(2)]
    have t: "tracks conn (xs @ y # (ys' @ zs))" using p(1) 3 by simp
    from lose_entry [OF t p(2) l p(5), of ts] obtain rtb cstat where
      r: "rtb_on_remove (lc_rtb conn) (lc_cstat conn) y = Ok (rtb, cstat, lost_bytes (rtb_cc_pkt_num (lc_rtb conn)) y)"
      and o: "okR (\<lambda>conn'. tracks conn' (xs @ mark ts y # (ys' @ zs)) \<and> ksl_it_at (rtb_ents (lc_rtb conn')) it (length xs) \<and> same_rest conn conn')
      (rtb_on_pkt_lost env (conn\<lparr>lc_rtb := rtb, lc_cstat := cstat\<rparr>) it y ts)" by blast
    let ?ecn = "if sint (en_pkt_num y) \<ge> sint (lc_ecn_start_pkt_num conn) \<and> has_flag y NGTCP2_RTB_ENTRY_FLAG_ECN then ecn + 1 else ecn"
    have "okR (\<lambda>(conn', _, ecn', bytes'). tracks conn' (xs @ map (mark ts) ys @ zs) \<and> same_rest conn conn' \<and>
      ecn' = ecn + length (filter (ecn_pkt conn) ys) \<and> bytes' = bytes + sum_list (map (lost_bytes (rtb_cc_pkt_num (lc_rtb conn))) ys))
      (bindR (rtb_on_pkt_lost env (conn\<lparr>lc_rtb := rtb, lc_cstat := cstat\<rparr>) it y ts) (\<lambda>conn.
       lost_loop fuel env conn (ngtcp2_ksl_it_next (rtb_ents (lc_rtb conn)) it) latest_ts start_ts period last_pn' oldest'
         ?ecn (bytes + lost_bytes (rtb_cc_pkt_num (lc_rtb conn0)) y) ts))" if "conn0 = conn" for last_pn' oldest' conn0
    proof (rule okR_bindI [OF o], elim conjE)
      fix c assume c: "tracks c (xs @ mark ts y # ys' @ zs)" "ksl_it_at (rtb_ents (lc_rtb c)) it (length xs)" "same_rest conn c"
      have ec: "entries (rtb_ents (lc_rtb c)) (xs @ mark ts y # ys' @ zs)" using c(1) by (simp add: tracks_def)
      have cc: "rtb_cc_pkt_num (lc_rtb c) = rtb_cc_pkt_num (lc_rtb conn)" "lc_ecn_start_pkt_num c = lc_ecn_start_pkt_num conn"
        using c(3) by (simp_all add: same_rest_def same_cc_def ecn_state_def)
      have c1: "tracks c ((xs @ [mark ts y]) @ ys' @ zs)" using c(1) by simp
      have "okR (\<lambda>(conn', _, ecn', bytes'). tracks conn' ((xs @ [mark ts y]) @ map (mark ts) ys' @ zs) \<and> same_rest c conn' \<and>
          ecn' = ?ecn + length (filter (ecn_pkt c) ys') \<and>
          bytes' = (bytes + lost_bytes (rtb_cc_pkt_num (lc_rtb conn0)) y) + sum_list (map (lost_bytes (rtb_cc_pkt_num (lc_rtb c))) ys'))
        (lost_loop fuel env c (ngtcp2_ksl_it_next (rtb_ents (lc_rtb c)) it) latest_ts start_ts period last_pn' oldest'
         ?ecn (bytes + lost_bytes (rtb_cc_pkt_num (lc_rtb conn0)) y) ts)"
        by (rule Suc.IH [OF c1 entries_get(3) [OF ec c(2)] _ p(4,5)]) (use p(3,6) 3 in auto)
      then show "okR (\<lambda>(conn', _, ecn', bytes'). tracks conn' (xs @ map (mark ts) ys @ zs) \<and> same_rest conn conn' \<and>
          ecn' = ecn + length (filter (ecn_pkt conn) ys) \<and> bytes' = bytes + sum_list (map (lost_bytes (rtb_cc_pkt_num (lc_rtb conn))) ys))
        (lost_loop fuel env c (ngtcp2_ksl_it_next (rtb_ents (lc_rtb c)) it) latest_ts start_ts period last_pn' oldest'
         ?ecn (bytes + lost_bytes (rtb_cc_pkt_num (lc_rtb conn0)) y) ts)"
        by (rule okR_mono) (use same_rest_trans [OF c(3)] cc that 3 in \<open>auto split: prod.splits if_splits\<close>)
    qed
    from this [OF refl] show ?thesis using g(1,4) l r by (simp add: Let_def)
  qed
qed simp

section \<open>Loss detection\<close>

text \<open>While ECN is validated, the packets that are still in flight and those that are counted as lost are packets that were sent.\<close>

definition ecn_left :: "'c loss_conn \<Rightarrow> nat \<Rightarrow> bool" where
  "ecn_left conn k \<longleftrightarrow> lc_ecn_state conn \<in> {NGTCP2_ECN_STATE_TESTING, NGTCP2_ECN_STATE_UNKNOWN} \<longrightarrow>
     k + lc_ecn_validation_pkt_lost conn \<le> lc_ecn_validation_pkt_sent conn"

definition ecn_count :: "'c loss_conn \<Rightarrow> ngtcp2_rtb_entry list \<Rightarrow> nat" where
  "ecn_count conn es = length (filter (\<lambda>e. \<not> lost e \<and> ecn_pkt conn e) es)"

lemma ecn_count_simps [simp]:
  "ecn_count conn [] = 0" "ecn_count conn (xs @ ys) = ecn_count conn xs + ecn_count conn ys"
  "ecn_count conn (map (mark ts) xs) = 0" "\<forall>x \<in> set xs. lost x \<Longrightarrow> ecn_count conn xs = 0"
  by (auto simp: ecn_count_def filter_map)

lemma ecn_count_live: "\<forall>x \<in> set xs. \<not> lost x \<Longrightarrow> length (filter (ecn_pkt conn) xs) = ecn_count conn xs"
  unfolding ecn_count_def by (rule arg_cong [where f = length], rule filter_cong) auto

lemma ecn_left_mono: "ecn_left conn k \<Longrightarrow> j \<le> k \<Longrightarrow> ecn_left conn j"
  by (auto simp: ecn_left_def)

lemma ecn_on_loss_ok:
  assumes "ecn_left conn (k + n)"
  shows "okR (\<lambda>conn'. ecn_left conn' k \<and> lc_rtb conn' = lc_rtb conn \<and> lc_rst conn' = lc_rst conn \<and> lc_cstat conn' = lc_cstat conn \<and>
      lc_ecn_start_pkt_num conn' = lc_ecn_start_pkt_num conn) (ecn_on_loss env conn n pto ts)"
  using assms unfolding ecn_on_loss_def Let_def ecn_left_def by (cases "lc_ecn_state conn") auto

lemma call_cc_simps [simp]:
  "lc_rtb (call_cc app f conn) = lc_rtb conn" "lc_rst (call_cc app f conn) = lc_rst conn" "lc_cstat (call_cc app f conn) = lc_cstat conn"
  "ecn_state (call_cc app f conn) = ecn_state conn" "lc_ecn_start_pkt_num (call_cc app f conn) = lc_ecn_start_pkt_num conn"
  "ecn_left (call_cc app f conn) k = ecn_left conn k"
  by (auto simp: call_cc_def ecn_state_def ecn_left_def split: option.splits)

text \<open>The state after a step of loss detection, with \<open>k\<close> packets under ECN validation that are left.\<close>

definition detects :: "'c loss_conn \<Rightarrow> ngtcp2_rtb_entry list \<Rightarrow> nat \<Rightarrow> u64 \<Rightarrow> 'c loss_conn \<Rightarrow> bool" where
  "detects conn es k loss_time conn' \<longleftrightarrow>
     tracks conn' es \<and> same_cc conn conn' \<and> ecn_left conn' k \<and> cs_loss_time (lc_cstat conn') = loss_time"

lemma detects_call [simp]:
  "detects conn es k t c \<Longrightarrow> detects conn es k t (call_cc app f c)"
  "detects conn es k t c \<Longrightarrow>
    detects conn es k t ((call_cc app f c)\<lparr>lc_cstat := (lc_cstat c)\<lparr>cs_min_rtt := m, cs_smoothed_rtt := s, cs_rttvar := v,
      cs_first_rtt_sample_ts := UINT64_MAX\<rparr>\<rparr>)"
  by (simp_all add: detects_def tracks_def same_cc_def ecn_left_def call_cc_def split: option.splits)

lemma on_lost_pkts_ok:
  assumes "tracks conn (xs @ ys @ zs)" "ksl_it_at (rtb_ents (lc_rtb conn)) it (length xs)" "\<forall>y \<in> set ys. \<not> lost y" "\<forall>z \<in> set zs. lost z"
    "env_ok env" "ecn_left conn (k + ecn_count conn ys)"
  shows "okR (\<lambda>(conn', _). detects conn (xs @ map (mark ts) ys @ zs) k (cs_loss_time (lc_cstat conn)) conn')
    (on_lost_pkts env conn cc_ack it ent pto ts)"
proof -
  have f: "length (ys @ zs) < ngtcp2_ksl_len (rtb_ents (lc_rtb conn)) + 1"
    using entries_len [of "rtb_ents (lc_rtb conn)" "xs @ ys @ zs"] assms(1) by (simp add: tracks_def)
  have n: "length (filter (ecn_pkt conn) ys) = ecn_count conn ys" by (rule ecn_count_live [OF assms(3)])
  have left: "ecn_left c (k + ecn_count conn ys)" if "same_rest conn c" for c
    using that assms(6) by (simp add: same_rest_def ecn_state_def ecn_left_def)
  show ?thesis unfolding on_lost_pkts_def Let_def
  proof (rule okR_bindI [OF lost_loop_ok [OF assms(1-5) f]], clarify, goal_cases)
    case (1 c oldest ecn bytes)
    note c = 1
    let ?n = "0 + length (filter (ecn_pkt conn) ys)"
    have l: "ecn_left c (k + ?n)" using left [OF c(2)] n by simp
    have z: "detects conn (xs @ map (mark ts) ys @ zs) k (cs_loss_time (lc_cstat conn)) c"
      using 1 ecn_left_mono [OF l, of k] by (simp add: detects_def same_rest_def)
    have e: "okR (detects conn (xs @ map (mark ts) ys @ zs) k (cs_loss_time (lc_cstat conn))) (ecn_on_loss env c ?n pto ts)"
      by (rule okR_mono [OF ecn_on_loss_ok [OF l]]) (use c in \<open>auto simp: detects_def tracks_def same_rest_def same_cc_def\<close>)
    show ?case
    proof (split if_split, intro conjI impI)
    qed (use z in simp, rule okR_bindI [OF e], simp)
  qed
qed

text \<open>A packet is overdue when its time has elapsed, or when a packet was acknowledged that was sent \<open>pkt_thres\<close> packets later.\<close>

definition overdue :: "i64 \<Rightarrow> u64 \<Rightarrow> nat \<Rightarrow> u64 \<Rightarrow> ngtcp2_rtb_entry \<Rightarrow> bool" where
  "overdue largest delay thres ts e \<longleftrightarrow> ngtcp2_tstamp_elapsed (en_ts e) delay ts \<or> pn e + int thres \<le> sint largest"

definition earliest :: "u64 \<Rightarrow> u64 \<Rightarrow> ngtcp2_rtb_entry list \<Rightarrow> u64" where
  "earliest delay t es = fold (\<lambda>e t. min t (en_ts e + delay)) es t"

lemma rtb_pkt_lost_eq:
  "rtb_pkt_lost rtb cstat e delay thres ts =
     (if overdue (rtb_largest_acked_tx_pkt_num rtb) delay thres ts e then (cstat, True)
      else (cstat\<lparr>cs_loss_time := min (cs_loss_time cstat) (en_ts e + delay)\<rparr>, False))"
proof -
  have m: "UINT64_MAX = - 1" by simp
  have "x \<le> UINT64_MAX" for x :: u64 unfolding m by (rule word_n1_ge)
  then have "min UINT64_MAX x = x" for x :: u64 by (rule min_absorb2)
  then show ?thesis by (simp add: rtb_pkt_lost_def overdue_def Let_def)
qed

lemma detects_trans: "same_cc a b \<Longrightarrow> detects b es k t c \<Longrightarrow> detects a es k t c"
  using same_cc_trans by (auto simp: detects_def)

lemma detect_loop_ok:
  fixes conn :: "'c loss_conn" and delay ts :: u64 and thres :: nat
  assumes "tracks conn (xs @ ys @ zs)" "ksl_it_at (rtb_ents (lc_rtb conn)) it (length xs)" "\<forall>y \<in> set ys. \<not> lost y" "\<forall>z \<in> set zs. lost z"
    "env_ok env" "ecn_left conn (k + ecn_count conn ys)" "length (ys @ zs) < fuel"
  defines "P \<equiv> \<lambda>e. \<not> overdue (rtb_largest_acked_tx_pkt_num (lc_rtb conn)) delay thres ts e"
  shows "okR (\<lambda>(conn', _). detects conn (xs @ takeWhile P ys @ map (mark ts) (dropWhile P ys) @ zs) (k + ecn_count conn (takeWhile P ys))
      (earliest delay (cs_loss_time (lc_cstat conn)) (takeWhile P ys)) conn') (detect_loop fuel env conn cc_ack it delay thres pto ts)"
  using assms(1-7) unfolding P_def
proof (induction fuel arbitrary: conn it xs ys k)
  case (Suc fuel)
  let ?t = "rtb_ents (lc_rtb conn)"
  let ?P = "\<lambda>e. \<not> overdue (rtb_largest_acked_tx_pkt_num (lc_rtb conn)) delay thres ts e"
  note p = Suc.prems
  have e: "entries ?t (xs @ ys @ zs)" using p(1) by (simp add: tracks_def)
  consider "ys = []" "zs = []" | z zs' where "ys = []" "zs = z # zs'" | y ys' where "ys = y # ys'" by (cases ys; cases zs) auto
  then show ?case
  proof cases
    case 1
    then show ?thesis using entries_end [of ?t xs "ys @ zs", OF e p(2)] p(1,6) by (simp add: detects_def earliest_def same_cc_def)
  next
    case 2
    have e': "entries ?t (xs @ z # zs')" using e 2 by simp
    show ?thesis using entries_get [OF e' p(2)] entries_end [OF e' p(2)] p(1,4,6) 2 by (simp add: detects_def earliest_def same_cc_def)
  next
    case 3
    have e': "entries ?t (xs @ y # ys' @ zs)" using e 3 by simp
    have l: "\<not> lost y" using p(3) 3 by simp
    note g = entries_get [OF e' p(2)] entries_end [OF e' p(2)]
    show ?thesis
    proof (cases "?P y")
      case False
      have id: "conn\<lparr>lc_cstat := lc_cstat conn\<rparr> = conn" by simp
      show ?thesis using g(1,4) l False 3 on_lost_pkts_ok [OF p(1-6), where ts = ts]
        by (simp add: Let_def rtb_pkt_lost_eq earliest_def)
    next
      case True
      define c where "c = conn\<lparr>lc_cstat := (lc_cstat conn)\<lparr>cs_loss_time := min (cs_loss_time (lc_cstat conn)) (en_ts y + delay)\<rparr>\<rparr>"
      have c: "tracks c ((xs @ [y]) @ ys' @ zs)" "same_cc conn c" "rtb_ents (lc_rtb c) = ?t" "ecn_count c = ecn_count conn"
        "rtb_largest_acked_tx_pkt_num (lc_rtb c) = rtb_largest_acked_tx_pkt_num (lc_rtb conn)"
        using p(1) 3 by (auto simp: c_def tracks_def same_cc_def ecn_count_def)
      have k: "ecn_left c ((k + ecn_count conn [y]) + ecn_count c ys')"
        using p(6) 3 unfolding c(4) by (auto simp: ecn_left_def c_def ecn_count_def)
      have eq: "(xs @ [y]) @ takeWhile ?P ys' @ map (mark ts) (dropWhile ?P ys') @ zs = xs @ takeWhile ?P ys @ map (mark ts) (dropWhile ?P ys) @ zs"
        "(k + ecn_count conn [y]) + ecn_count c (takeWhile ?P ys') = k + ecn_count conn (takeWhile ?P ys)"
        "earliest delay (cs_loss_time (lc_cstat c)) (takeWhile ?P ys') = earliest delay (cs_loss_time (lc_cstat conn)) (takeWhile ?P ys)"
        using True 3 ecn_count_simps(2) [of conn "[y]" "takeWhile ?P ys'"] unfolding c(4) by (simp_all add: earliest_def c_def)
      have it: "ksl_it_at (rtb_ents (lc_rtb c)) (ngtcp2_ksl_it_next ?t it) (length (xs @ [y]))" using g(3) c(3) by simp
      have "okR (\<lambda>(conn', _). detects c ((xs @ [y]) @ takeWhile ?P ys' @ map (mark ts) (dropWhile ?P ys') @ zs)
          ((k + ecn_count conn [y]) + ecn_count c (takeWhile ?P ys')) (earliest delay (cs_loss_time (lc_cstat c)) (takeWhile ?P ys')) conn')
        (detect_loop fuel env c cc_ack (ngtcp2_ksl_it_next ?t it) delay thres pto ts)"
        using Suc.IH [OF c(1) it _ p(4,5) k] p(3,7) 3 unfolding c(5) by simp
      then have "okR (\<lambda>(conn', _). detects conn (xs @ takeWhile ?P ys @ map (mark ts) (dropWhile ?P ys) @ zs) (k + ecn_count conn (takeWhile ?P ys))
          (earliest delay (cs_loss_time (lc_cstat conn)) (takeWhile ?P ys)) conn') (detect_loop fuel env c cc_ack (ngtcp2_ksl_it_next ?t it) delay thres pto ts)"
        unfolding eq by (rule okR_mono) (use detects_trans [OF c(2)] in blast)
      then show ?thesis using g(1,4) l True unfolding c_def by (simp add: Let_def rtb_pkt_lost_eq)
    qed
  qed
qed simp

section \<open>Stale entries\<close>

definition lost_last :: "ngtcp2_rtb_entry list \<Rightarrow> bool" where
  "lost_last es = sorted_wrt (\<lambda>a b. lost a \<longrightarrow> lost b) es"

lemma lost_last_split:
  assumes "lost_last es"
  shows "es = filter (\<lambda>e. \<not> lost e) es @ filter lost es"
  using assms
proof (induction es)
  case (Cons e es)
  then have IH: "es = filter (\<lambda>e. \<not> lost e) es @ filter lost es" by (simp add: lost_last_def)
  show ?case
  proof (cases "lost e")
    case True
    then have "filter (\<lambda>e. \<not> lost e) es = []" "filter lost es = es" using Cons.prems by (auto simp: lost_last_def filter_empty_conv filter_id_conv)
    then show ?thesis using True by simp
  qed (use IH in simp)
qed simp

lemma lost_last_append: "lost_last (xs @ ys) \<longleftrightarrow> lost_last xs \<and> lost_last ys \<and> ((\<exists>x \<in> set xs. lost x) \<longrightarrow> (\<forall>y \<in> set ys. lost y))"
  by (auto simp: lost_last_def sorted_wrt_append)

lemma lost_last_live: "\<forall>x \<in> set xs. \<not> lost x \<Longrightarrow> lost_last xs" "\<forall>x \<in> set xs. lost x \<Longrightarrow> lost_last xs"
  unfolding lost_last_def by (induction xs) auto

text \<open>What the removal of lost entries leaves as it is.\<close>

definition drops :: "ngtcp2_rtb \<Rightarrow> ngtcp2_rtb_entry list \<Rightarrow> ngtcp2_rtb \<Rightarrow> bool" where
  "drops rtb es rtb' \<longleftrightarrow> entries (rtb_ents rtb') es \<and> counts rtb' es \<and>
     rtb_largest_acked_tx_pkt_num rtb' = rtb_largest_acked_tx_pkt_num rtb \<and> rtb_cc_pkt_num rtb' = rtb_cc_pkt_num rtb \<and>
     rtb_cc_bytes_in_flight rtb' = rtb_cc_bytes_in_flight rtb"

lemma drops_trans: "drops a es b \<Longrightarrow> drops b fs c \<Longrightarrow> drops a fs c"
  by (simp add: drops_def)

lemma remove_last_lost_ok:
  assumes "entries (rtb_ents rtb) (es @ [e])" "counts rtb (es @ [e])" "ksl_it_at (rtb_ents rtb) it (length es)" "lost e"
  obtains rtb' it' where "remove_last_lost rtb it e = Ok (rtb', it')" "drops rtb es rtb'" "ksl_it_at (rtb_ents rtb') it' (length es)"
proof -
  from entries_remove [OF assms(1,3)] obtain t it' where
    r: "ngtcp2_ksl_remove_hint i64_greater (rtb_ents rtb) it (en_pkt_num e) = Ok (t, None, Some it')" "entries t (es @ [])" "ksl_it_at t it' (length es)" .
  let ?rtb = "rtb\<lparr>rtb_num_lost_pkts := rtb_num_lost_pkts rtb - 1,
    rtb_num_lost_ignore_pkts := rtb_num_lost_ignore_pkts rtb - (if ignored e then 1 else 0), rtb_ents := t\<rparr>"
  have "drops rtb es ?rtb" using r(2) assms(2,4) by (auto simp: drops_def counts_def)
  moreover have "remove_last_lost rtb it e = Ok (?rtb, it')" using r(1) by (simp add: remove_last_lost_def Let_def)
  ultimately show thesis using r(3) that by simp
qed

text \<open>The step of both loops, from the end of the map.\<close>

lemma last_lost_step:
  assumes "entries (rtb_ents rtb) (xs @ zs)" "counts rtb (xs @ zs)" "\<forall>x \<in> set xs. \<not> lost x" "\<forall>z \<in> set zs. lost z"
    "ksl_it_at (rtb_ents rtb) it (length (xs @ zs))" "0 < rtb_num_lost_pkts rtb"
  obtains zs' e it1 rtb' it' where "zs = zs' @ [e]" "lost e" "ngtcp2_ksl_it_end (rtb_ents rtb) it" "ngtcp2_ksl_it_prev (rtb_ents rtb) it = Ok it1"
    "ngtcp2_ksl_it_get (rtb_ents rtb) it1 = Ok e" "remove_last_lost rtb it1 e = Ok (rtb', it')" "drops rtb (xs @ zs') rtb'"
    "ksl_it_at (rtb_ents rtb') it' (length (xs @ zs'))"
proof -
  have "length (filter lost (xs @ zs)) \<noteq> 0" using assms(2,6) by (simp add: counts_def)
  then have "zs \<noteq> []" using assms(3) by auto
  then obtain zs' e where e: "zs = zs' @ [e]" by (metis rev_exhaust)
  then have l: "lost e" using assms(4) by simp
  have en: "ngtcp2_ksl_it_end (rtb_ents rtb) it" using entries_end [of "rtb_ents rtb" "xs @ zs" "[]"] assms(1,5) by simp
  have p: "entries (rtb_ents rtb) ((xs @ zs') @ e # [])" "ksl_it_at (rtb_ents rtb) it (length ((xs @ zs') @ [e]))" "counts rtb ((xs @ zs') @ [e])"
    using assms(1,2,5) e by simp_all
  from entries_prev [OF p(1,2)] obtain it1 where i: "ngtcp2_ksl_it_prev (rtb_ents rtb) it = Ok it1" "ksl_it_at (rtb_ents rtb) it1 (length (xs @ zs'))" .
  from remove_last_lost_ok [OF p(1,3) i(2) l] obtain rtb' it' where
    "remove_last_lost rtb it1 e = Ok (rtb', it')" "drops rtb (xs @ zs') rtb'" "ksl_it_at (rtb_ents rtb') it' (length (xs @ zs'))" .
  then show thesis using that e l en i(1) entries_get(1) [OF p(1) i(2)] by blast
qed

lemma counts_lost_num: "counts rtb (xs @ zs) \<Longrightarrow> \<forall>x \<in> set xs. \<not> lost x \<Longrightarrow> \<forall>z \<in> set zs. lost z \<Longrightarrow> rtb_num_lost_pkts rtb = length zs"
  by (simp add: counts_def)

lemma excessive_loop_ok:
  assumes "entries (rtb_ents rtb) (xs @ zs)" "counts rtb (xs @ zs)" "\<forall>x \<in> set xs. \<not> lost x" "\<forall>z \<in> set zs. lost z"
    "ksl_it_at (rtb_ents rtb) it (length (xs @ zs))" "length zs < fuel"
  shows "\<exists>rtb'. excessive_loop fuel rtb it n = Ok rtb' \<and> drops rtb (xs @ take n zs) rtb'"
  using assms
proof (induction fuel arbitrary: rtb it zs)
  case (Suc fuel)
  note p = Suc.prems
  have n: "rtb_num_lost_pkts rtb = length zs" by (rule counts_lost_num [OF p(2,3,4)])
  show ?case
  proof (cases "rtb_num_lost_pkts rtb > n")
    case False
    then show ?thesis using p(1,2) n by (simp add: drops_def)
  next
    case True
    then have "0 < rtb_num_lost_pkts rtb" by simp
    from last_lost_step [OF p(1-5) this] obtain zs' e it1 rtb' it' where
      e: "zs = zs' @ [e]" "lost e" "ngtcp2_ksl_it_end (rtb_ents rtb) it" "ngtcp2_ksl_it_prev (rtb_ents rtb) it = Ok it1"
        "ngtcp2_ksl_it_get (rtb_ents rtb) it1 = Ok e" "remove_last_lost rtb it1 e = Ok (rtb', it')"
      and d: "drops rtb (xs @ zs') rtb'" "ksl_it_at (rtb_ents rtb') it' (length (xs @ zs'))" .
    have "\<exists>rtb2. excessive_loop fuel rtb' it' n = Ok rtb2 \<and> drops rtb' (xs @ take n zs') rtb2"
      by (rule Suc.IH) (use d e(1) p(3,4,6) in \<open>auto simp: drops_def\<close>)
    moreover have "take n zs' = take n zs" using True n e(1) by simp
    ultimately show ?thesis using True e(2-6) drops_trans [OF d(1)] by auto
  qed
qed simp

lemma remove_excessive_ok:
  assumes "entries (rtb_ents rtb) (xs @ zs)" "counts rtb (xs @ zs)" "\<forall>x \<in> set xs. \<not> lost x" "\<forall>z \<in> set zs. lost z"
  shows "\<exists>rtb'. ngtcp2_rtb_remove_excessive_lost_pkt rtb n = Ok rtb' \<and> drops rtb (xs @ take n zs) rtb'"
proof -
  from entries_ends [OF assms(1)] obtain it where it: "ngtcp2_ksl_end (rtb_ents rtb) = Ok it" "ksl_it_at (rtb_ents rtb) it (length (xs @ zs))" .
  show ?thesis using excessive_loop_ok [OF assms it(2), of "ngtcp2_ksl_len (rtb_ents rtb) + 1" n] it(1) entries_len [OF assms(1)]
    by (simp add: ngtcp2_rtb_remove_excessive_lost_pkt_def)
qed

text \<open>Entries that were lost longer than \<open>timeout\<close> ago are removed from the end, up to the first one that was not.\<close>

abbreviation (input) unexpired :: "u64 \<Rightarrow> u64 \<Rightarrow> ngtcp2_rtb_entry list \<Rightarrow> ngtcp2_rtb_entry list" where
  "unexpired timeout ts zs \<equiv> rev (dropWhile (\<lambda>e. timeout \<le> ts - en_lost_ts e) (rev zs))"

lemma expired_loop_ok:
  assumes "entries (rtb_ents rtb) (xs @ zs)" "counts rtb (xs @ zs)" "\<forall>x \<in> set xs. \<not> lost x" "\<forall>z \<in> set zs. lost z"
    "ksl_it_at (rtb_ents rtb) it (length (xs @ zs))" "length zs < fuel"
  shows "\<exists>rtb'. expired_loop fuel rtb it timeout ts = Ok rtb' \<and> drops rtb (xs @ unexpired timeout ts zs) rtb'"
  using assms
proof (induction fuel arbitrary: rtb it zs)
  case (Suc fuel)
  note p = Suc.prems
  have n: "rtb_num_lost_pkts rtb = length zs" by (rule counts_lost_num [OF p(2,3,4)])
  show ?case
  proof (cases "rtb_num_lost_pkts rtb = 0")
    case True
    then show ?thesis using p(1,2) n by (simp add: drops_def)
  next
    case False
    then have "0 < rtb_num_lost_pkts rtb" by simp
    from last_lost_step [OF p(1-5) this] obtain zs' e it1 rtb' it' where
      e: "zs = zs' @ [e]" "lost e" "ngtcp2_ksl_it_end (rtb_ents rtb) it" "ngtcp2_ksl_it_prev (rtb_ents rtb) it = Ok it1"
        "ngtcp2_ksl_it_get (rtb_ents rtb) it1 = Ok e" "remove_last_lost rtb it1 e = Ok (rtb', it')"
      and d: "drops rtb (xs @ zs') rtb'" "ksl_it_at (rtb_ents rtb') it' (length (xs @ zs'))" .
    show ?thesis
    proof (cases "ts - en_lost_ts e < timeout")
      case True
      then have "unexpired timeout ts zs = zs" using e(1) by (simp add: leD)
      then show ?thesis using True False e(2-5) p(1,2) by (simp add: drops_def)
    next
      case F: False
      have "\<exists>rtb2. expired_loop fuel rtb' it' timeout ts = Ok rtb2 \<and> drops rtb' (xs @ unexpired timeout ts zs') rtb2"
        by (rule Suc.IH) (use d e(1) p(3,4,6) in \<open>auto simp: drops_def\<close>)
      moreover have "unexpired timeout ts zs' = unexpired timeout ts zs" using F e(1) by simp
      ultimately show ?thesis using False F e(2-6) drops_trans [OF d(1)] by auto
    qed
  qed
qed simp

lemma remove_expired_ok:
  assumes "entries (rtb_ents rtb) (xs @ zs)" "counts rtb (xs @ zs)" "\<forall>x \<in> set xs. \<not> lost x" "\<forall>z \<in> set zs. lost z"
  shows "\<exists>rtb'. ngtcp2_rtb_remove_expired_lost_pkt rtb timeout ts = Ok rtb' \<and> drops rtb (xs @ unexpired timeout ts zs) rtb'"
proof (cases "rtb_num_lost_pkts rtb = 0")
  case True
  then show ?thesis using counts_lost_num [OF assms(2-4)] assms(1,2) by (simp add: ngtcp2_rtb_remove_expired_lost_pkt_def drops_def)
next
  case False
  from entries_ends [OF assms(1)] obtain it where it: "ngtcp2_ksl_end (rtb_ents rtb) = Ok it" "ksl_it_at (rtb_ents rtb) it (length (xs @ zs))" .
  show ?thesis using expired_loop_ok [OF assms it(2), of "ngtcp2_ksl_len (rtb_ents rtb) + 1" timeout ts] it(1) entries_len [OF assms(1)] False
    by (simp add: ngtcp2_rtb_remove_expired_lost_pkt_def)
qed

section \<open>The invariant\<close>

text \<open>
  Packets that were sent later have more bytes delivered before them, which an acknowledgement relies on. The entries that are lost come last and
  are older than a packet that was acknowledged.
\<close>

definition delivered_ok :: "'c loss_conn \<Rightarrow> ngtcp2_rtb_entry list \<Rightarrow> bool" where
  "delivered_ok conn es \<longleftrightarrow>
     sorted_wrt (\<lambda>a b. sint (rtb_cc_pkt_num (lc_rtb conn)) \<le> pn b \<longrightarrow> er_delivered (en_rst b) \<le> er_delivered (en_rst a)) es \<and>
     (\<forall>e \<in> set es. sint (rtb_cc_pkt_num (lc_rtb conn)) \<le> pn e \<longrightarrow> er_delivered (en_rst e) \<le> rst_delivered (lc_rst conn))"

definition loss_inv :: "'c loss_conn \<Rightarrow> ngtcp2_rtb_entry list \<Rightarrow> bool" where
  "loss_inv conn es \<longleftrightarrow> tracks conn es \<and> lost_last es \<and> (\<forall>e \<in> set es. lost e \<longrightarrow> pn e \<le> sint (rtb_largest_acked_tx_pkt_num (lc_rtb conn))) \<and>
     ecn_left conn (ecn_count conn es) \<and> delivered_ok conn es"

lemma delivered_ok_same: "same_cc conn conn' \<Longrightarrow> delivered_ok conn' es = delivered_ok conn es"
  by (simp add: delivered_ok_def same_cc_def)

lemma delivered_ok_prefix: "delivered_ok conn (xs @ ys) \<Longrightarrow> delivered_ok conn xs"
  by (auto simp: delivered_ok_def sorted_wrt_append)

lemma delivered_ok_mark: "delivered_ok conn (xs @ ys @ zs) \<Longrightarrow> delivered_ok conn (xs @ map (mark ts) ys @ zs)"
  by (auto simp: delivered_ok_def sorted_wrt_append sorted_wrt_map)

lemma ecn_count_same: "same_cc conn conn' \<Longrightarrow> ecn_count conn' es = ecn_count conn es"
  by (simp add: ecn_count_def same_cc_def)

text \<open>The thresholds, and the packets that are kept in flight and those that are declared lost.\<close>

definition loss_thres :: "'c loss_conn \<Rightarrow> nat" where
  "loss_thres conn = min (max (rtb_cc_bytes_in_flight (lc_rtb conn) div cs_max_tx_udp_payload_size (lc_cstat conn) div 2) 3) 256"

definition on_time :: "'c loss_conn \<Rightarrow> u64 \<Rightarrow> ngtcp2_rtb_entry \<Rightarrow> bool" where
  "on_time conn ts e \<longleftrightarrow>
     \<not> overdue (rtb_largest_acked_tx_pkt_num (lc_rtb conn)) (compute_pkt_loss_delay (lc_cstat conn)) (loss_thres conn) ts e"

definition candidates :: "'c loss_conn \<Rightarrow> ngtcp2_rtb_entry list \<Rightarrow> ngtcp2_rtb_entry list" where
  "candidates conn es = filter (\<lambda>e. \<not> lost e \<and> pn e \<le> sint (rtb_largest_acked_tx_pkt_num (lc_rtb conn))) es"

definition newer :: "'c loss_conn \<Rightarrow> ngtcp2_rtb_entry list \<Rightarrow> ngtcp2_rtb_entry list" where
  "newer conn es = filter (\<lambda>e. sint (rtb_largest_acked_tx_pkt_num (lc_rtb conn)) < pn e) es"

definition after_detection :: "'c loss_conn \<Rightarrow> u64 \<Rightarrow> ngtcp2_rtb_entry list \<Rightarrow> ngtcp2_rtb_entry list" where
  "after_detection conn ts es = newer conn es @ takeWhile (on_time conn ts) (candidates conn es) @
     take (loss_thres conn) (map (mark ts) (dropWhile (on_time conn ts) (candidates conn es)) @ filter lost es)"

lemma drops_conn:
  assumes "detects conn es k t conn'" "drops (lc_rtb conn') fs rtb" "set fs \<subseteq> set es"
  shows "detects conn fs k t (conn'\<lparr>lc_rtb := rtb\<rparr>)"
  using assms by (auto simp: detects_def drops_def tracks_def same_cc_def ecn_left_def)

lemma rtb_detect_lost_pkt_ok:
  assumes inv: "loss_inv conn es" and env: "env_ok env" and size: "cs_max_tx_udp_payload_size (lc_cstat conn) \<noteq> 0"
  shows "okR (\<lambda>(conn', _). loss_inv conn' (after_detection conn ts es) \<and> same_cc conn conn' \<and>
      cs_loss_time (lc_cstat conn') = earliest (compute_pkt_loss_delay (lc_cstat conn)) UINT64_MAX (takeWhile (on_time conn ts) (candidates conn es)))
    (rtb_detect_lost_pkt env conn cc_ack ts)"
proof -
  let ?largest = "rtb_largest_acked_tx_pkt_num (lc_rtb conn)" and ?delay = "compute_pkt_loss_delay (lc_cstat conn)" and ?n = "loss_thres conn"
  define conn0 where "conn0 = conn\<lparr>lc_cstat := (lc_cstat conn)\<lparr>cs_loss_time := UINT64_MAX\<rparr>\<rparr>"
  note i = inv [unfolded loss_inv_def]
  have t: "tracks conn es" "lost_last es" "ecn_left conn (ecn_count conn es)" "delivered_ok conn es"
    and old: "\<forall>e \<in> set es. lost e \<longrightarrow> pn e \<le> sint ?largest" using i by auto
  have e: "entries (rtb_ents (lc_rtb conn)) es" using t(1) by (simp add: tracks_def)
  from entries_lower_bound [OF e, of ?largest] obtain it xs ys0 where
    lb: "ngtcp2_ksl_lower_bound i64_greater (rtb_ents (lc_rtb conn)) ?largest = Ok it" "es = xs @ ys0"
      "ksl_it_at (rtb_ents (lc_rtb conn)) it (length xs)" "\<forall>x \<in> set xs. sint ?largest < pn x" "\<forall>y \<in> set ys0. pn y \<le> sint ?largest" .
  define ys zs where "ys = filter (\<lambda>e. \<not> lost e) ys0" and "zs = filter lost ys0"
  have "lost_last ys0" using t(2) lb(2) lost_last_append by blast
  then have y0: "ys0 = ys @ zs" using lost_last_split ys_def zs_def by simp
  have xl: "\<forall>x \<in> set xs. \<not> lost x" using old lb(2,4) by force
  have parts: "newer conn es = xs" "candidates conn es = ys" "filter lost es = zs"
  proof -
    have f: "filter (\<lambda>e. \<not> lost e \<and> pn e \<le> sint ?largest) xs = []" using lb(4) by (auto simp: filter_empty_conv)
    have g: "filter (\<lambda>e. \<not> lost e \<and> pn e \<le> sint ?largest) ys0 = ys" unfolding ys_def by (rule filter_cong) (use lb(5) in auto)
    show "newer conn es = xs" using lb(2,4,5) unfolding newer_def by (auto simp: filter_empty_conv filter_id_conv)
    show "candidates conn es = ys" unfolding candidates_def lb(2) filter_append f g by simp
    show "filter lost es = zs" using xl unfolding lb(2) zs_def by (auto simp: filter_empty_conv)
  qed
  let ?P = "on_time conn ts"
  let ?A = "takeWhile ?P ys" and ?B = "dropWhile ?P ys"
  have live: "\<forall>x \<in> set (xs @ ?A). \<not> lost x" "\<forall>y \<in> set ys. \<not> lost y" "\<forall>z \<in> set (map (mark ts) ?B @ zs). lost z" "\<forall>z \<in> set zs. lost z"
    using xl by (auto simp: ys_def zs_def dest: set_takeWhileD)
  have c0: "tracks conn0 (xs @ ys @ zs)" "same_cc conn conn0" "rtb_ents (lc_rtb conn0) = rtb_ents (lc_rtb conn)" "ecn_count conn0 = ecn_count conn"
    "rtb_largest_acked_tx_pkt_num (lc_rtb conn0) = ?largest" "cs_loss_time (lc_cstat conn0) = UINT64_MAX"
    using t(1) lb(2) y0 by (auto simp: conn0_def tracks_def same_cc_def ecn_count_def)
  have k: "ecn_left conn0 (ecn_count conn xs + ecn_count conn0 ys)"
  proof -
    have "ecn_left conn (ecn_count conn xs + ecn_count conn ys)" by (rule ecn_left_mono [OF t(3)]) (simp add: lb(2) y0)
    then show ?thesis unfolding c0(4) by (simp add: ecn_left_def conn0_def)
  qed
  have f: "length (ys @ zs) < ngtcp2_ksl_len (rtb_ents (lc_rtb conn)) + 1" using entries_len [OF e] lb(2) y0 by simp
  have it: "ksl_it_at (rtb_ents (lc_rtb conn0)) it (length xs)" using lb(3) c0(3) by simp
  have P: "(\<lambda>e. \<not> overdue (rtb_largest_acked_tx_pkt_num (lc_rtb conn0)) ?delay ?n ts e) = ?P" by (simp add: fun_eq_iff on_time_def c0(5))
  note dl = detect_loop_ok [OF c0(1) it live(2,4) env k f, where delay = ?delay and thres = ?n and ts = ts, unfolded P c0(6)]
  have d0: "compute_pkt_loss_delay ((lc_cstat conn)\<lparr>cs_loss_time := UINT64_MAX\<rparr>) = ?delay" by (simp add: compute_pkt_loss_delay_def)
  have eq: "rtb_detect_lost_pkt env conn cc_ack ts =
      bindR (detect_loop (ngtcp2_ksl_len (rtb_ents (lc_rtb conn)) + 1) env conn0 cc_ack it ?delay ?n (ngtcp2_conn_compute_pto env conn) ts)
       (\<lambda>(conn, cc_ack). bindR (ngtcp2_rtb_remove_excessive_lost_pkt (lc_rtb conn) ?n) (\<lambda>rtb. Ok (conn\<lparr>lc_rtb := rtb\<rparr>, cc_ack)))"
    unfolding rtb_detect_lost_pkt_def Let_def d0 loss_thres_def conn0_def using lb(1) size by simp
  show ?thesis unfolding eq
  proof (rule okR_bindI [OF dl], clarify)
    fix c cc_ack'
    let ?k = "ecn_count conn xs + ecn_count conn0 ?A" and ?t = "earliest ?delay UINT64_MAX ?A" and ?fs = "xs @ ?A @ take ?n (map (mark ts) ?B @ zs)"
    assume c: "detects conn0 (xs @ ?A @ map (mark ts) ?B @ zs) ?k ?t c"
    have ct: "entries (rtb_ents (lc_rtb c)) ((xs @ ?A) @ map (mark ts) ?B @ zs)" "counts (lc_rtb c) ((xs @ ?A) @ map (mark ts) ?B @ zs)"
      using c by (simp_all add: detects_def tracks_def)
    from remove_excessive_ok [OF ct live(1,3), of ?n] obtain rtb where
      r: "ngtcp2_rtb_remove_excessive_lost_pkt (lc_rtb c) ?n = Ok rtb" "drops (lc_rtb c) ?fs rtb" by auto
    define c1 where "c1 = c\<lparr>lc_rtb := rtb\<rparr>"
    have d: "detects conn ?fs ?k ?t c1" unfolding c1_def
      by (rule detects_trans [OF c0(2) drops_conn [OF c r(2)]]) (auto dest: in_set_takeD)
    then have s: "same_cc conn c1" "tracks c1 ?fs" by (simp_all add: detects_def)
    have AB: "es = (xs @ ?A) @ ?B @ zs" unfolding lb(2) y0 by (metis append.assoc takeWhile_dropWhile_id)
    have "delivered_ok conn ((xs @ ?A) @ map (mark ts) ?B @ zs)" by (rule delivered_ok_mark) (use t(4) AB in simp)
    then have "delivered_ok conn (?fs @ drop ?n (map (mark ts) ?B @ zs))" by (metis append.assoc append_take_drop_id)
    then have "delivered_ok c1 ?fs" using delivered_ok_prefix delivered_ok_same [OF s(1)] by blast
    moreover have "lost_last ?fs"
    proof -
      have z: "\<forall>z \<in> set (take ?n (map (mark ts) ?B @ zs)). lost z" using live(3) by (meson in_set_takeD)
      show ?thesis using lost_last_append [of "xs @ ?A" "take ?n (map (mark ts) ?B @ zs)"] lost_last_live(1) [OF live(1)] lost_last_live(2) [OF z] z by simp
    qed
    moreover have "ecn_left c1 (ecn_count c1 ?fs)"
    proof -
      have "ecn_count c1 (take ?n (map (mark ts) ?B @ zs)) = 0" by (rule ecn_count_simps(4)) (use live(3) in \<open>meson in_set_takeD\<close>)
      then show ?thesis using d unfolding detects_def c0(4) ecn_count_simps(2) ecn_count_same [OF s(1)] by simp
    qed
    moreover have "\<forall>e \<in> set ?fs. lost e \<longrightarrow> pn e \<le> sint (rtb_largest_acked_tx_pkt_num (lc_rtb c1))"
    proof (intro ballI impI)
      fix e assume "e \<in> set ?fs" "lost e"
      then have "e \<in> set (map (mark ts) ?B @ zs)" using live(1) by (auto dest: in_set_takeD)
      then have "pn e \<le> sint ?largest" using lb(5) y0 by (auto dest: set_dropWhileD)
      then show "pn e \<le> sint (rtb_largest_acked_tx_pkt_num (lc_rtb c1))" using s(1) by (simp add: same_cc_def)
    qed
    ultimately have "loss_inv c1 ?fs" using s(2) unfolding loss_inv_def by blast
    then show "okR (\<lambda>(conn', _). loss_inv conn' (after_detection conn ts es) \<and> same_cc conn conn' \<and>
        cs_loss_time (lc_cstat conn') = earliest ?delay UINT64_MAX (takeWhile ?P (candidates conn es)))
      (bindR (ngtcp2_rtb_remove_excessive_lost_pkt (lc_rtb c) ?n) (\<lambda>rtb. Ok (c\<lparr>lc_rtb := rtb\<rparr>, cc_ack')))"
      using r(1) d s(1) unfolding after_detection_def parts c1_def detects_def by simp
  qed
qed

end
