(* ===== verification/Rtb_Ack.thy ===== *)
theory Rtb_Ack
  imports Rtb_Loss
begin

text \<open>
  What a received acknowledgement does to the packets in flight of \<open>lib/ngtcp2_rtb.c\<close>: the packets that it covers are removed, in the order of
  the ranges of the frame, and are processed in ascending order.
\<close>

section \<open>Removal of acknowledged packets\<close>

text \<open>Only the entries, their counters and the bytes in flight change.\<close>

definition removed :: "'c loss_conn \<Rightarrow> 'c loss_conn \<Rightarrow> bool" where
  "removed conn conn' \<longleftrightarrow> same_cc conn conn' \<and> ecn_state conn' = ecn_state conn \<and>
     (\<exists>rtb b. conn' = conn\<lparr>lc_rtb := rtb, lc_cstat := (lc_cstat conn)\<lparr>cs_bytes_in_flight := b\<rparr>\<rparr>)"

lemma removed_refl: "removed conn conn"
  unfolding removed_def
  by (intro conjI exI [of _ "lc_rtb conn"] exI [of _ "cs_bytes_in_flight (lc_cstat conn)"]) (simp_all add: same_cc_def)

lemma removed_trans:
  assumes "removed a b" "removed b c"
  shows "removed a c"
proof -
  have "same_cc a c" using assms same_cc_trans by (auto simp: removed_def)
  moreover obtain r1 n1 r2 n2 where b: "b = a\<lparr>lc_rtb := r1, lc_cstat := (lc_cstat a)\<lparr>cs_bytes_in_flight := n1\<rparr>\<rparr>"
    and c: "c = b\<lparr>lc_rtb := r2, lc_cstat := (lc_cstat b)\<lparr>cs_bytes_in_flight := n2\<rparr>\<rparr>" using assms unfolding removed_def by blast
  have "c = a\<lparr>lc_rtb := r2, lc_cstat := (lc_cstat a)\<lparr>cs_bytes_in_flight := n2\<rparr>\<rparr>" unfolding c b by simp
  then have "\<exists>rtb n. c = a\<lparr>lc_rtb := rtb, lc_cstat := (lc_cstat a)\<lparr>cs_bytes_in_flight := n\<rparr>\<rparr>" by blast
  moreover have "ecn_state c = ecn_state a" using assms unfolding removed_def by simp
  ultimately show ?thesis unfolding removed_def by blast
qed

lemma rtb_remove_ok:
  assumes t: "tracks conn (xs @ e # ys)" and it: "ksl_it_at (rtb_ents (lc_rtb conn)) it (length xs)"
  obtains conn' it' where "rtb_remove conn it e acked = Ok (conn', it', e # acked)" "tracks conn' (xs @ ys)"
    "ksl_it_at (rtb_ents (lc_rtb conn')) it' (length xs)" "removed conn conn'"
proof -
  have c: "counts (lc_rtb conn) (xs @ e # ys)" "rtb_cc_bytes_in_flight (lc_rtb conn) \<le> cs_bytes_in_flight (lc_cstat conn)"
    and e: "entries (rtb_ents (lc_rtb conn)) (xs @ e # ys)" using t by (auto simp: tracks_def)
  from rtb_on_remove_ok [OF c] obtain rtb n d where
    r: "rtb_on_remove (lc_rtb conn) (lc_cstat conn) e =
      Ok (rtb, (lc_cstat conn)\<lparr>cs_bytes_in_flight := cs_bytes_in_flight (lc_cstat conn) - d\<rparr>, n)" "counts rtb (xs @ ys)"
      "same_head (lc_rtb conn) rtb" "rtb_cc_bytes_in_flight (lc_rtb conn) = rtb_cc_bytes_in_flight rtb + d" .
  from entries_remove [OF e it] obtain ents' it' where
    k: "ngtcp2_ksl_remove_hint i64_greater (rtb_ents (lc_rtb conn)) it (en_pkt_num e) = Ok (ents', None, Some it')"
      "entries ents' (xs @ ys)" "ksl_it_at ents' it' (length xs)" .
  let ?conn = "conn\<lparr>lc_rtb := rtb\<lparr>rtb_ents := ents'\<rparr>, lc_cstat := (lc_cstat conn)\<lparr>cs_bytes_in_flight := cs_bytes_in_flight (lc_cstat conn) - d\<rparr>\<rparr>"
  have "rtb_remove conn it e acked = Ok (?conn, it', e # acked)" using r(1,3) k(1) by (simp add: rtb_remove_def same_head_def)
  moreover have "tracks ?conn (xs @ ys)" using t r(2,4) c(2) k(2) by (auto simp: tracks_def)
  moreover have "removed conn ?conn" unfolding removed_def using r(3,4) c(2) by (auto simp: same_cc_def same_head_def ecn_state_def)
  ultimately show thesis using that k(3) by simp
qed

abbreviation (input) skip :: "ngtcp2_rtb_entry \<Rightarrow> bool" where "skip e \<equiv> has_flag e NGTCP2_RTB_ENTRY_FLAG_SKIP"
abbreviation (input) eliciting :: "ngtcp2_rtb_entry \<Rightarrow> bool" where "eliciting e \<equiv> has_flag e NGTCP2_RTB_ENTRY_FLAG_ACK_ELICITING"

definition sent_time :: "bool \<Rightarrow> i64 \<Rightarrow> u64 \<Rightarrow> ngtcp2_rtb_entry list \<Rightarrow> u64" where
  "sent_time first largest t es = fold (\<lambda>e t. if first \<and> largest = en_pkt_num e then en_ts e else t) es t"

lemma acked_loop_ok:
  fixes min_ack :: i64
  assumes "tracks conn (xs @ ys)" "ksl_it_at (rtb_ents (lc_rtb conn)) it (length xs)" "\<forall>y \<in> set ys. first \<longrightarrow> pn y \<le> sint largest_ack"
    "length ys < fuel"
  defines "P \<equiv> \<lambda>e. sint min_ack \<le> pn e"
  shows "if \<exists>e \<in> set (takeWhile P ys). skip e then acked_loop fuel first conn it largest_ack min_ack acked t b = Err NGTCP2_ERR_PROTO
    else \<exists>conn'. acked_loop fuel first conn it largest_ack min_ack acked t b =
        Ok (conn', rev (takeWhile P ys) @ acked, sent_time first (rtb_largest_acked_tx_pkt_num (lc_rtb conn)) t (takeWhile P ys),
            b \<or> (\<exists>e \<in> set (takeWhile P ys). eliciting e)) \<and>
      tracks conn' (xs @ dropWhile P ys) \<and> removed conn conn'"
  using assms(1-4) unfolding P_def
proof (induction fuel arbitrary: conn it ys acked t b)
  case (Suc fuel)
  let ?t = "rtb_ents (lc_rtb conn)" and ?P = "\<lambda>e. sint min_ack \<le> pn e"
  note p = Suc.prems
  have e: "entries ?t (xs @ ys)" using p(1) by (simp add: tracks_def)
  note en = entries_end [OF e p(2)]
  show ?case
  proof (cases ys)
    case Nil
    then show ?thesis using en p(1) removed_refl by (simp add: sent_time_def)
  next
    case (Cons y ys')
    have e': "entries ?t (xs @ y # ys')" "tracks conn (xs @ y # ys')" using e p(1) Cons by simp_all
    note g = entries_get [OF e'(1) p(2)]
    have f: "first \<longrightarrow> pn y \<le> sint largest_ack" using p(3) Cons by simp
    show ?thesis
    proof (cases "?P y \<and> \<not> skip y")
      case False
      then show ?thesis using en g f p(1) Cons removed_refl by (auto simp: sent_time_def Let_def)
    next
      case True
      let ?s = "if first \<and> rtb_largest_acked_tx_pkt_num (lc_rtb conn) = en_pkt_num y then en_ts y else t" and ?b = "b \<or> eliciting y"
      from rtb_remove_ok [OF e'(2) p(2), of acked] obtain conn' it' where
        r: "rtb_remove conn it y acked = Ok (conn', it', y # acked)" "tracks conn' (xs @ ys')"
          "ksl_it_at (rtb_ents (lc_rtb conn')) it' (length xs)" "removed conn conn'" .
      have step: "acked_loop (Suc fuel) first conn it largest_ack min_ack acked t b =
          acked_loop fuel first conn' it' largest_ack min_ack (y # acked) ?s ?b"
        using en g f True Cons r(1) by (simp add: Let_def not_less)
      have largest: "rtb_largest_acked_tx_pkt_num (lc_rtb conn') = rtb_largest_acked_tx_pkt_num (lc_rtb conn)"
        using r(4) by (simp add: removed_def same_cc_def)
      note IH = Suc.IH [OF r(2,3), of "y # acked" ?s ?b]
      have pre: "\<forall>y \<in> set ys'. first \<longrightarrow> pn y \<le> sint largest_ack" "length ys' < fuel" using p(3,4) Cons by auto
      show ?thesis
      proof (cases "\<exists>e \<in> set (takeWhile ?P ys'). skip e")
        case T: True
        then show ?thesis using IH [OF pre] True Cons unfolding step by simp
      next
        case F: False
        then obtain c where c: "acked_loop fuel first conn' it' largest_ack min_ack (y # acked) ?s ?b =
            Ok (c, rev (takeWhile ?P ys') @ y # acked, sent_time first (rtb_largest_acked_tx_pkt_num (lc_rtb conn)) ?s (takeWhile ?P ys'),
              ?b \<or> (\<exists>e \<in> set (takeWhile ?P ys'). eliciting e))" "tracks c (xs @ dropWhile ?P ys')" "removed conn' c"
          using IH [OF pre] largest by (auto simp del: acked_loop.simps)
        then show ?thesis using True F Cons removed_trans [OF r(4) c(3)] unfolding step
          by (auto simp: sent_time_def simp del: acked_loop.simps)
      qed
    qed
  qed
qed simp

text \<open>The entries that an interval of packet numbers covers are next to each other.\<close>

lemma interval_split:
  assumes "sorted_wrt (\<lambda>a b. pn b < pn a) (xs @ ys)" "\<forall>x \<in> set xs. hi < pn x" "\<forall>y \<in> set ys. pn y \<le> hi"
  shows "takeWhile (\<lambda>e. lo \<le> pn e) ys = filter (\<lambda>e. lo \<le> pn e \<and> pn e \<le> hi) (xs @ ys)"
    "xs @ dropWhile (\<lambda>e. lo \<le> pn e) ys = filter (\<lambda>e. \<not> (lo \<le> pn e \<and> pn e \<le> hi)) (xs @ ys)"
proof -
  have s: "sorted_wrt (\<lambda>a b. pn b < pn a) ys" using assms(1) by (simp add: sorted_wrt_append)
  have "takeWhile (\<lambda>e. lo \<le> pn e) ys = filter (\<lambda>e. lo \<le> pn e) ys \<and> dropWhile (\<lambda>e. lo \<le> pn e) ys = filter (\<lambda>e. \<not> lo \<le> pn e) ys"
    using s
  proof (induction ys)
    case (Cons y ys)
    then have "lo \<le> pn y \<or> filter (\<lambda>e. lo \<le> pn e) ys = [] \<and> filter (\<lambda>e. \<not> lo \<le> pn e) ys = ys"
      by (auto simp: filter_empty_conv filter_id_conv)
    with Cons show ?case by auto
  qed simp
  moreover have "filter (\<lambda>e. lo \<le> pn e \<and> pn e \<le> hi) ys = filter (\<lambda>e. lo \<le> pn e) ys"
    "filter (\<lambda>e. \<not> (lo \<le> pn e \<and> pn e \<le> hi)) ys = filter (\<lambda>e. \<not> lo \<le> pn e) ys" by (rule filter_cong; use assms(3) in auto)+
  moreover have "filter (\<lambda>e. lo \<le> pn e \<and> pn e \<le> hi) xs = []" "filter (\<lambda>e. \<not> (lo \<le> pn e \<and> pn e \<le> hi)) xs = xs"
    using assms(2) by (auto simp: filter_empty_conv filter_id_conv)
  ultimately show "takeWhile (\<lambda>e. lo \<le> pn e) ys = filter (\<lambda>e. lo \<le> pn e \<and> pn e \<le> hi) (xs @ ys)"
    "xs @ dropWhile (\<lambda>e. lo \<le> pn e) ys = filter (\<lambda>e. \<not> (lo \<le> pn e \<and> pn e \<le> hi)) (xs @ ys)" by simp_all
qed

lemma filter_disjoint:
  assumes "sorted_wrt (\<lambda>a b. pn b < pn a) es" "\<And>e. A e \<Longrightarrow> lo \<le> pn e" "\<And>e. B e \<Longrightarrow> pn e < lo"
  shows "filter (\<lambda>e. A e \<or> B e) es = filter A es @ filter B es"
  using assms(1)
proof (induction es)
  case (Cons e es)
  have "filter A es = []" if "B e"
    using Cons.prems assms(2) assms(3) [OF that] by (fastforce simp: filter_empty_conv)
  moreover have "\<not> (A e \<and> B e)" using assms(2,3) [of e] by auto
  ultimately show ?case using Cons by auto
qed simp

lemma sint_sub:
  fixes a b :: i64
  assumes "0 \<le> sint a - sint b" "sint a - sint b < 2 ^ 62"
  shows "sint (a - b) = sint a - sint b"
proof -
  have "a - b = word_of_int (sint a - sint b)" by simp
  then show ?thesis using sint_of_small [OF assms] by simp
qed

text \<open>One range of the frame, for which \<open>it\<close> is the lower bound of its largest packet number.\<close>

lemma acked_range_ok:
  fixes hi lo :: i64
  assumes t: "tracks conn es"
  defines "In \<equiv> \<lambda>e. sint lo \<le> pn e \<and> pn e \<le> sint hi"
  obtains it where "ngtcp2_ksl_lower_bound i64_greater (rtb_ents (lc_rtb conn)) hi = Ok it"
    "ngtcp2_ksl_it_end (rtb_ents (lc_rtb conn)) it \<longleftrightarrow> (\<forall>e \<in> set es. sint hi < pn e)"
    "\<And>first acked t b. if \<exists>e \<in> set (filter In es). skip e
     then acked_loop (ngtcp2_ksl_len (rtb_ents (lc_rtb conn)) + 1) first conn it hi lo acked t b = Err NGTCP2_ERR_PROTO
     else \<exists>conn'. acked_loop (ngtcp2_ksl_len (rtb_ents (lc_rtb conn)) + 1) first conn it hi lo acked t b =
        Ok (conn', rev (filter In es) @ acked, sent_time first (rtb_largest_acked_tx_pkt_num (lc_rtb conn)) t (filter In es),
            b \<or> (\<exists>e \<in> set (filter In es). eliciting e)) \<and>
      tracks conn' (filter (\<lambda>e. \<not> In e) es) \<and> removed conn conn'"
proof -
  have e: "entries (rtb_ents (lc_rtb conn)) es" using t by (simp add: tracks_def)
  from entries_lower_bound [OF e, of hi] obtain it xs ys where
    lb: "ngtcp2_ksl_lower_bound i64_greater (rtb_ents (lc_rtb conn)) hi = Ok it" "es = xs @ ys"
      "ksl_it_at (rtb_ents (lc_rtb conn)) it (length xs)" "\<forall>x \<in> set xs. sint hi < pn x" "\<forall>y \<in> set ys. pn y \<le> sint hi" .
  have srt: "sorted_wrt (\<lambda>a b. pn b < pn a) (xs @ ys)" using entries_sorted [OF e] lb(2) by simp
  note sp = interval_split [OF srt lb(4,5), of "sint lo", folded lb(2)]
  have en: "ngtcp2_ksl_it_end (rtb_ents (lc_rtb conn)) it \<longleftrightarrow> (\<forall>e \<in> set es. sint hi < pn e)"
    using entries_end [of "rtb_ents (lc_rtb conn)" xs ys] e lb(2-5) by (cases ys) (auto simp: not_le [symmetric])
  have t': "tracks conn (xs @ ys)" "length ys < ngtcp2_ksl_len (rtb_ents (lc_rtb conn)) + 1" using t lb(2) entries_len [OF e] by simp_all
  have f: "\<forall>y \<in> set ys. first \<longrightarrow> pn y \<le> sint hi" for first using lb(5) by blast
  show thesis by (rule that [OF lb(1) en], unfold In_def) (rule acked_loop_ok [OF t'(1) lb(3) f t'(2), of lo, unfolded sp])
qed

lemma acked_ranges_ok:
  assumes "tracks conn es" "uvs_ok (ack_range_fields rs)" "0 \<le> sint min_ack" "sint min_ack < 2 ^ 62"
    "\<forall>(hi, l) \<in> set (ack_intervals (sint min_ack) rs). 0 \<le> l"
  defines "In \<equiv> \<lambda>e. \<exists>(hi, l) \<in> set (ack_intervals (sint min_ack) rs). l \<le> pn e \<and> pn e \<le> hi"
  shows "if \<exists>e \<in> set (filter In es). skip e then acked_ranges conn rs min_ack acked t b = Err NGTCP2_ERR_PROTO
    else \<exists>conn'. acked_ranges conn rs min_ack acked t b = Ok (conn', rev (filter In es) @ acked, t, b \<or> (\<exists>e \<in> set (filter In es). eliciting e)) \<and>
      tracks conn' (filter (\<lambda>e. \<not> In e) es) \<and> removed conn conn'"
  using assms(1-5) unfolding In_def
proof (induction rs arbitrary: conn es min_ack acked b)
  case Nil
  then show ?case using removed_refl by auto
next
  case (Cons r rs)
  let ?g = "sint (ar_gap r)" and ?n = "sint (ar_len r)"
  define hi lo where "hi = min_ack - ar_gap r - 2" and "lo = hi - ar_len r"
  note p = Cons.prems
  have b: "0 \<le> ?g" "?g < 2 ^ 62" "0 \<le> ?n" "?n < 2 ^ 62" "uvs_ok (ack_range_fields rs)" using p(2) sint_varint by auto
  have z: "0 \<le> sint min_ack - (?g + 2) - ?n" using p(5) by (simp add: Let_def)
  have s1: "sint (min_ack - ar_gap r) = sint min_ack - ?g" by (rule sint_sub) (use z b p(4) in simp_all)
  have "sint (min_ack - ar_gap r - 2) = sint (min_ack - ar_gap r) - sint (2 :: i64)" by (rule sint_sub) (use z b p(4) s1 in simp_all)
  then have hi: "sint hi = sint min_ack - (?g + 2)" unfolding hi_def s1 by simp
  have lo: "sint lo = sint min_ack - (?g + 2) - ?n" unfolding lo_def by (subst sint_sub) (use z b p(4) hi in simp_all)
  have iv: "ack_intervals (sint min_ack) (r # rs) = (sint hi, sint lo) # ack_intervals (sint lo) rs" using hi lo by (simp add: Let_def)
  have v: "\<forall>(hi, l) \<in> set (ack_intervals (sint lo) rs). 0 \<le> l" using p(5) iv by simp
  let ?In = "\<lambda>e. \<exists>(hi, l) \<in> set (ack_intervals (sint min_ack) (r # rs)). l \<le> pn e \<and> pn e \<le> hi"
  let ?I1 = "\<lambda>e. sint lo \<le> pn e \<and> pn e \<le> sint hi" and ?I2 = "\<lambda>e. \<exists>(h, l) \<in> set (ack_intervals (sint lo) rs). l \<le> pn e \<and> pn e \<le> h"
  have In: "?In e \<longleftrightarrow> ?I1 e \<or> ?I2 e" for e unfolding iv by simp
  have I2: "pn e < sint lo" if "?I2 e" for e using that intervals_descend [OF b(5), of _ _ "sint lo"] by fastforce
  have e: "entries (rtb_ents (lc_rtb conn)) es" using p(1) by (simp add: tracks_def)
  from acked_range_ok [OF p(1), of hi lo] obtain it where
    it: "ngtcp2_ksl_lower_bound i64_greater (rtb_ents (lc_rtb conn)) hi = Ok it"
      "ngtcp2_ksl_it_end (rtb_ents (lc_rtb conn)) it \<longleftrightarrow> (\<forall>e \<in> set es. sint hi < pn e)"
    and loop: "\<And>first acked t b. if \<exists>e \<in> set (filter ?I1 es). skip e
     then acked_loop (ngtcp2_ksl_len (rtb_ents (lc_rtb conn)) + 1) first conn it hi lo acked t b = Err NGTCP2_ERR_PROTO
     else \<exists>conn'. acked_loop (ngtcp2_ksl_len (rtb_ents (lc_rtb conn)) + 1) first conn it hi lo acked t b =
        Ok (conn', rev (filter ?I1 es) @ acked, sent_time first (rtb_largest_acked_tx_pkt_num (lc_rtb conn)) t (filter ?I1 es),
            b \<or> (\<exists>e \<in> set (filter ?I1 es). eliciting e)) \<and>
      tracks conn' (filter (\<lambda>e. \<not> ?I1 e) es) \<and> removed conn conn'" by blast
  have unf: "acked_ranges conn (r # rs) min_ack acked t b = (if ngtcp2_ksl_it_end (rtb_ents (lc_rtb conn)) it then Ok (conn, acked, t, b) else
     bindR (acked_loop (ngtcp2_ksl_len (rtb_ents (lc_rtb conn)) + 1) False conn it hi lo acked t b) (\<lambda>(conn, acked, t, b).
     acked_ranges conn rs lo acked t b))" using it(1) unfolding acked_ranges.simps Let_def lo_def hi_def by simp
  have fIn: "filter ?In es = filter ?I1 es @ filter ?I2 es" unfolding In by (rule filter_disjoint [OF entries_sorted [OF e]]) (use I2 in blast)+
  have st: "sent_time False l t fs = t" for l fs by (induction fs) (simp_all add: sent_time_def)
  show ?case
  proof (cases "ngtcp2_ksl_it_end (rtb_ents (lc_rtb conn)) it")
    case True
    then have no: "\<not> ?In e" if "e \<in> set es" for e using it(2) that I2 [of e] b(3) lo hi unfolding In by fastforce
    then have "filter ?In es = []" "filter (\<lambda>e. \<not> ?In e) es = es" by (simp_all add: filter_empty_conv filter_id_conv)
    then show ?thesis using True p(1) removed_refl unfolding unf by simp
  next
    case False
    show ?thesis
    proof (cases "\<exists>e \<in> set (filter ?I1 es). skip e")
      case T: True
      then show ?thesis using loop [of False acked t b] False unfolding unf fIn by auto
    next
      case F: False
      then obtain c where c: "acked_loop (ngtcp2_ksl_len (rtb_ents (lc_rtb conn)) + 1) False conn it hi lo acked t b =
          Ok (c, rev (filter ?I1 es) @ acked, t, b \<or> (\<exists>e \<in> set (filter ?I1 es). eliciting e))" "tracks c (filter (\<lambda>e. \<not> ?I1 e) es)" "removed conn c"
        using loop [of False acked t b] unfolding st by auto
      have lo0: "0 \<le> sint lo" "sint lo < 2 ^ 62" using z lo b p(4) by simp_all
      have f2: "filter ?I2 (filter (\<lambda>e. \<not> ?I1 e) es) = filter ?I2 es"
        unfolding filter_filter by (rule filter_cong [OF refl]) (use I2 in fastforce)
      have f3: "filter (\<lambda>e. \<not> ?I2 e) (filter (\<lambda>e. \<not> ?I1 e) es) = filter (\<lambda>e. \<not> ?In e) es"
        unfolding filter_filter In by (rule filter_cong) auto
      note IH = Cons.IH [OF c(2) b(5) lo0 v, of "rev (filter ?I1 es) @ acked" "b \<or> (\<exists>e \<in> set (filter ?I1 es). eliciting e)", unfolded f2 f3]
      have s: "acked_ranges conn (r # rs) min_ack acked t b =
          acked_ranges c rs lo (rev (filter ?I1 es) @ acked) t (b \<or> (\<exists>e \<in> set (filter ?I1 es). eliciting e))"
        unfolding unf using False c(1) by simp
      show ?thesis
      proof (cases "\<exists>e \<in> set (filter ?I2 es). skip e")
        case T: True
        then have "\<exists>e \<in> set (filter ?In es). skip e" unfolding fIn by auto
        then show ?thesis using IH unfolding s if_P [OF T] by simp
      next
        case F2: False
        obtain d where d: "acked_ranges c rs lo (rev (filter ?I1 es) @ acked) t (b \<or> (\<exists>e \<in> set (filter ?I1 es). eliciting e)) =
            Ok (d, rev (filter ?I2 es) @ rev (filter ?I1 es) @ acked, t,
              (b \<or> (\<exists>e \<in> set (filter ?I1 es). eliciting e)) \<or> (\<exists>e \<in> set (filter ?I2 es). eliciting e))"
          "tracks d (filter (\<lambda>e. \<not> ?In e) es)" "removed c d" using IH unfolding if_not_P [OF F2] by blast
        have n: "\<not> (\<exists>e \<in> set (filter ?In es). skip e)" using F F2 unfolding fIn by auto
        have "acked_ranges conn (r # rs) min_ack acked t b = Ok (d, rev (filter ?In es) @ acked, t, b \<or> (\<exists>e \<in> set (filter ?In es). eliciting e))"
          unfolding s d(1) fIn set_append bex_Un rev_append append.assoc disj_assoc ..
        then show ?thesis unfolding if_not_P [OF n] using d(2) removed_trans [OF c(3) d(3)] by blast
      qed
    qed
  qed
qed

abbreviation (input) acked_by :: "ngtcp2_ack \<Rightarrow> ngtcp2_rtb_entry \<Rightarrow> bool" where "acked_by fr e \<equiv> acks_pkt fr (pn e)"

lemma collect_ok:
  assumes t: "tracks conn es" and fr: "ack_decoded fr" "ngtcp2_pkt_validate_ack fr m = Ok ()"
  obtains it st where "ngtcp2_ksl_lower_bound i64_greater (rtb_ents (lc_rtb conn)) (ack_largest_ack fr) = Ok it"
    "ngtcp2_ksl_it_end (rtb_ents (lc_rtb conn)) it \<longleftrightarrow> (\<forall>e \<in> set es. sint (ack_largest_ack fr) < pn e)"
    "if \<exists>e \<in> set (filter (acked_by fr) es). skip e then rtb_collect_acked conn fr it = Err NGTCP2_ERR_PROTO
     else \<exists>conn'. rtb_collect_acked conn fr it =
         Ok (conn', rev (filter (acked_by fr) es), st, \<exists>e \<in> set (filter (acked_by fr) es). eliciting e) \<and>
       tracks conn' (filter (\<lambda>e. \<not> acked_by fr e) es) \<and> removed conn conn'"
proof -
  let ?hi = "ack_largest_ack fr"
  define lo where "lo = ?hi - ack_first_ack_range fr"
  have u: "0 \<le> sint ?hi" "sint ?hi < 2 ^ 62" "0 \<le> sint (ack_first_ack_range fr)" "uvs_ok (ack_range_fields (ack_ranges fr))"
    using fr(1) sint_varint by (auto simp: ack_decoded_def)
  have v: "0 \<le> sint ?hi - sint (ack_first_ack_range fr)"
    "\<forall>(hi, l) \<in> set (ack_intervals (sint ?hi - sint (ack_first_ack_range fr)) (ack_ranges fr)). 0 \<le> l"
    using validate_ack_iff [OF fr(1), of m] fr(2) by (auto simp: acked_intervals_def Let_def)
  have lo: "sint lo = sint ?hi - sint (ack_first_ack_range fr)" unfolding lo_def by (rule sint_sub) (use u v in simp_all)
  let ?I1 = "\<lambda>e. sint lo \<le> pn e \<and> pn e \<le> sint ?hi" and ?I2 = "\<lambda>e. \<exists>(h, l) \<in> set (ack_intervals (sint lo) (ack_ranges fr)). l \<le> pn e \<and> pn e \<le> h"
  have A: "acked_by fr e \<longleftrightarrow> ?I1 e \<or> ?I2 e" for e by (simp add: acks_pkt_def acked_intervals_def Let_def lo)
  have I2: "pn e < sint lo" if "?I2 e" for e using that intervals_descend [OF u(4), of _ _ "sint lo"] by fastforce
  have e: "entries (rtb_ents (lc_rtb conn)) es" using t by (simp add: tracks_def)
  have fA: "filter (acked_by fr) es = filter ?I1 es @ filter ?I2 es" unfolding A by (rule filter_disjoint [OF entries_sorted [OF e]]) (use I2 in blast)+
  from acked_range_ok [OF t, of ?hi lo] obtain it where
    it: "ngtcp2_ksl_lower_bound i64_greater (rtb_ents (lc_rtb conn)) ?hi = Ok it"
      "ngtcp2_ksl_it_end (rtb_ents (lc_rtb conn)) it \<longleftrightarrow> (\<forall>e \<in> set es. sint ?hi < pn e)"
    and loop: "\<And>first acked t b. if \<exists>e \<in> set (filter ?I1 es). skip e
     then acked_loop (ngtcp2_ksl_len (rtb_ents (lc_rtb conn)) + 1) first conn it ?hi lo acked t b = Err NGTCP2_ERR_PROTO
     else \<exists>conn'. acked_loop (ngtcp2_ksl_len (rtb_ents (lc_rtb conn)) + 1) first conn it ?hi lo acked t b =
        Ok (conn', rev (filter ?I1 es) @ acked, sent_time first (rtb_largest_acked_tx_pkt_num (lc_rtb conn)) t (filter ?I1 es),
            b \<or> (\<exists>e \<in> set (filter ?I1 es). eliciting e)) \<and>
      tracks conn' (filter (\<lambda>e. \<not> ?I1 e) es) \<and> removed conn conn'" by blast
  let ?st = "sent_time True (rtb_largest_acked_tx_pkt_num (lc_rtb conn)) UINT64_MAX (filter ?I1 es)"
  have "if \<exists>e \<in> set (filter (acked_by fr) es). skip e then rtb_collect_acked conn fr it = Err NGTCP2_ERR_PROTO
     else \<exists>conn'. rtb_collect_acked conn fr it =
         Ok (conn', rev (filter (acked_by fr) es), ?st, \<exists>e \<in> set (filter (acked_by fr) es). eliciting e) \<and>
       tracks conn' (filter (\<lambda>e. \<not> acked_by fr e) es) \<and> removed conn conn'"
  proof (cases "\<exists>e \<in> set (filter ?I1 es). skip e")
    case True
    then have "\<exists>e \<in> set (filter (acked_by fr) es). skip e" unfolding fA by auto
    then show ?thesis using loop [of True "[]" UINT64_MAX False] True unfolding rtb_collect_acked_def Let_def lo_def by simp
  next
    case F: False
    obtain c where c: "acked_loop (ngtcp2_ksl_len (rtb_ents (lc_rtb conn)) + 1) True conn it ?hi lo [] UINT64_MAX False =
        Ok (c, rev (filter ?I1 es) @ [], ?st, False \<or> (\<exists>e \<in> set (filter ?I1 es). eliciting e))" "tracks c (filter (\<lambda>e. \<not> ?I1 e) es)" "removed conn c"
      using loop [of True "[]" UINT64_MAX False] unfolding if_not_P [OF F] by blast
    have f2: "filter ?I2 (filter (\<lambda>e. \<not> ?I1 e) es) = filter ?I2 es"
      unfolding filter_filter by (rule filter_cong [OF refl]) (use I2 in fastforce)
    have f3: "filter (\<lambda>e. \<not> ?I2 e) (filter (\<lambda>e. \<not> ?I1 e) es) = filter (\<lambda>e. \<not> acked_by fr e) es"
      unfolding filter_filter A by (rule filter_cong) auto
    have b: "0 \<le> sint lo" "sint lo < 2 ^ 62" "\<forall>(hi, l) \<in> set (ack_intervals (sint lo) (ack_ranges fr)). 0 \<le> l" using v u lo by simp_all
    have s: "rtb_collect_acked conn fr it = acked_ranges c (ack_ranges fr) lo (rev (filter ?I1 es) @ []) ?st (False \<or> (\<exists>e \<in> set (filter ?I1 es). eliciting e))"
      unfolding rtb_collect_acked_def Let_def lo_def [symmetric] c(1) by simp
    note R = acked_ranges_ok [OF c(2) u(4) b, of "rev (filter ?I1 es) @ []" ?st "False \<or> (\<exists>e \<in> set (filter ?I1 es). eliciting e)",
      unfolded f2 f3, folded s]
    show ?thesis
    proof (cases "\<exists>e \<in> set (filter ?I2 es). skip e")
      case T: True
      then have "\<exists>e \<in> set (filter (acked_by fr) es). skip e" unfolding fA by auto
      then show ?thesis using R unfolding if_P [OF T] by simp
    next
      case F2: False
      obtain d where d: "rtb_collect_acked conn fr it = Ok (d, rev (filter ?I2 es) @ rev (filter ?I1 es) @ [], ?st,
          (False \<or> (\<exists>e \<in> set (filter ?I1 es). eliciting e)) \<or> (\<exists>e \<in> set (filter ?I2 es). eliciting e))"
        "tracks d (filter (\<lambda>e. \<not> acked_by fr e) es)" "removed c d" using R unfolding if_not_P [OF F2] by blast
      have n: "\<not> (\<exists>e \<in> set (filter (acked_by fr) es). skip e)" using F F2 unfolding fA by auto
      have "rtb_collect_acked conn fr it = Ok (d, rev (filter (acked_by fr) es), ?st, \<exists>e \<in> set (filter (acked_by fr) es). eliciting e)"
        unfolding d(1) fA by auto
      then show ?thesis unfolding if_not_P [OF n] using d(2) removed_trans [OF c(3) d(3)] by blast
    qed
  qed
  then show thesis by (rule that [OF it])
qed

section \<open>Received acknowledgements\<close>

text \<open>The frames and the statistics of acknowledged packets change neither the entries nor the state of ECN.\<close>

definition acked_step :: "'c loss_conn \<Rightarrow> 'c loss_conn \<Rightarrow> bool" where
  "acked_step conn conn' \<longleftrightarrow> lc_rtb conn' = lc_rtb conn \<and> ecn_state conn' = ecn_state conn \<and>
     rst_delivered (lc_rst conn) \<le> rst_delivered (lc_rst conn') \<and> cs_bytes_in_flight (lc_cstat conn') = cs_bytes_in_flight (lc_cstat conn) \<and>
     (0 < cs_max_tx_udp_payload_size (lc_cstat conn) \<longrightarrow> 0 < cs_max_tx_udp_payload_size (lc_cstat conn'))"

lemma acked_step_trans: "acked_step a b \<Longrightarrow> acked_step b c \<Longrightarrow> acked_step a c"
  by (auto simp: acked_step_def)

lemma acked_step_call: "acked_step conn conn' \<Longrightarrow> acked_step conn (call_cc app f conn')"
  by (simp add: acked_step_def)

lemma rst_update_delivered: "rst_delivered (ngtcp2_rst_update_rate_sample rst e ts) = rst_delivered rst + en_pktlen e"
  by (simp add: ngtcp2_rst_update_rate_sample_def Let_def)

lemma rtb_on_pkt_acked_ok:
  assumes "sint (rtb_cc_pkt_num (lc_rtb conn)) \<le> pn e"
  shows "\<exists>conn'. rtb_on_pkt_acked env conn e ts = Ok conn' \<and> acked_step conn conn'"
  using assms by (simp add: rtb_on_pkt_acked_def Let_def acked_step_def rst_update_delivered ecn_state_def call_cc_def split: option.splits)

lemma process_acked_loop_ok:
  assumes "env_ok env" "sorted_wrt (\<lambda>a b. sint (rtb_cc_pkt_num (lc_rtb conn)) \<le> pn a \<longrightarrow> er_delivered (en_rst a) \<le> er_delivered (en_rst b)) ms"
    "\<forall>e \<in> set ms. sint (rtb_cc_pkt_num (lc_rtb conn)) \<le> pn e \<longrightarrow> ca_pkt_delivered cc_ack \<le> er_delivered (en_rst e)"
  shows "okR (\<lambda>(conn', _, _, num'). acked_step conn conn' \<and> num' = num + length (filter (\<lambda>e. sint (rtb_cc_pkt_num (lc_rtb conn)) \<le> pn e) ms))
    (process_acked_loop env conn ms cc_ack ecn num ts)"
  using assms(2,3)
proof (induction ms arbitrary: conn cc_ack ecn num)
  case Nil
  then show ?case by (simp add: acked_step_def)
next
  case (Cons e ms)
  let ?cc = "sint (rtb_cc_pkt_num (lc_rtb conn))"
  have ok: "okR (\<lambda>(_, n'). 0 < cs_max_tx_udp_payload_size (lc_cstat conn) \<longrightarrow> 0 < n')
    (le_process_acked_pkt env e (cs_max_tx_udp_payload_size (lc_cstat conn)) (lc_rest conn))" using assms(1) by (simp add: env_ok_def)
  show ?case unfolding process_acked_loop.simps Let_def
  proof (rule okR_bindI [OF ok], clarify, goal_cases)
    case (1 r n)
    define c where "c = conn\<lparr>lc_rest := r, lc_cstat := (lc_cstat conn)\<lparr>cs_max_tx_udp_payload_size := n\<rparr>\<rparr>"
    have c: "acked_step conn c" "lc_rtb c = lc_rtb conn" using 1 by (simp_all add: c_def acked_step_def ecn_state_def)
    have IH: "okR (\<lambda>(conn', _, _, num'). acked_step conn conn' \<and> num' = k + length (filter (\<lambda>e. ?cc \<le> pn e) ms))
        (process_acked_loop env d ms a j k ts)"
      if "acked_step c d" "\<forall>e \<in> set ms. ?cc \<le> pn e \<longrightarrow> ca_pkt_delivered a \<le> er_delivered (en_rst e)" for d a j k
    proof -
      have cc: "rtb_cc_pkt_num (lc_rtb d) = rtb_cc_pkt_num (lc_rtb conn)" using that(1) c(2) by (simp add: acked_step_def)
      show ?thesis
        by (rule okR_mono [OF Cons.IH]) (use Cons.prems(1) that acked_step_trans [OF acked_step_trans [OF c(1) that(1)]] in \<open>auto simp: cc\<close>)
    qed
    show ?case
    proof (cases "?cc \<le> pn e")
      case False
      then show ?thesis using IH [of c cc_ack] Cons.prems(2) by (simp add: c_def acked_step_def)
    next
      case True
      then have "sint (rtb_cc_pkt_num (lc_rtb c)) \<le> pn e" using c(2) by simp
      from rtb_on_pkt_acked_ok [OF this, of env ts] obtain d where d: "rtb_on_pkt_acked env c e ts = Ok d" "acked_step c d" by blast
      have "ca_pkt_delivered cc_ack \<le> er_delivered (en_rst e)" "\<forall>f \<in> set ms. ?cc \<le> pn f \<longrightarrow> er_delivered (en_rst e) \<le> er_delivered (en_rst f)"
        using True Cons.prems by auto
      then show ?thesis using True IH [where k = "num + 1" and a = "cc_ack\<lparr>ca_bytes_delivered := ca_bytes_delivered cc_ack + en_pktlen e,
        ca_pkt_delivered := er_delivered (en_rst e)\<rparr>", OF d(2)] d(1) by (simp add: c_def)
    qed
  qed
qed

lemma update_rtt_ok:
  assumes "env_ok env" "0 < rtt"
  shows "\<exists>cstat'. ngtcp2_conn_update_rtt env cstat rtt delay ts = Ok cstat' \<and> cs_bytes_in_flight cstat' = cs_bytes_in_flight cstat \<and>
    cs_max_tx_udp_payload_size cstat' = cs_max_tx_udp_payload_size cstat"
  using assms by (simp add: ngtcp2_conn_update_rtt_def env_ok_def Let_def)

lemma on_ack_recv_ok:
  "ngtcp2_rst_on_ack_recv rst cstat = (rst', cstat') \<Longrightarrow> rst_delivered rst' = rst_delivered rst \<and>
     cs_bytes_in_flight cstat' = cs_bytes_in_flight cstat \<and> cs_max_tx_udp_payload_size cstat' = cs_max_tx_udp_payload_size cstat"
  by (auto simp: ngtcp2_rst_on_ack_recv_def Let_def split: if_splits)

text \<open>The invariant under the steps of an acknowledgement.\<close>

lemma ecn_left_state: "ecn_state conn' = ecn_state conn \<Longrightarrow> ecn_left conn' k = ecn_left conn k"
  "ecn_state conn' = ecn_state conn \<Longrightarrow> ecn_count conn' es = ecn_count conn es"
  by (simp_all add: ecn_state_def ecn_left_def ecn_count_def)

lemma loss_inv_filter:
  assumes "loss_inv conn es" "tracks conn' (filter Q es)" "removed conn conn'"
  shows "loss_inv conn' (filter Q es)"
proof -
  note i = assms(1) [unfolded loss_inv_def]
  have s: "same_cc conn conn'" "ecn_state conn' = ecn_state conn" using assms(3) by (simp_all add: removed_def)
  have "length (filter P (filter Q es)) \<le> length (filter P es)" for P by (induction es) auto
  then have "ecn_count conn (filter Q es) \<le> ecn_count conn es" by (simp add: ecn_count_def)
  then have "ecn_left conn' (ecn_count conn' (filter Q es))" using i ecn_left_state [OF s(2)] ecn_left_mono by metis
  moreover have "delivered_ok conn' (filter Q es)" unfolding delivered_ok_same [OF s(1)] using i by (auto simp: delivered_ok_def sorted_wrt_filter)
  moreover have "lost_last (filter Q es)" using i by (simp add: lost_last_def sorted_wrt_filter)
  moreover have "\<forall>e \<in> set (filter Q es). lost e \<longrightarrow> pn e \<le> sint (rtb_largest_acked_tx_pkt_num (lc_rtb conn'))" using i s(1) by (auto simp: same_cc_def)
  ultimately show ?thesis using assms(2) unfolding loss_inv_def by blast
qed

lemma loss_inv_step:
  assumes "loss_inv conn es" "acked_step conn conn'"
  shows "loss_inv conn' es"
proof -
  note i = assms(1) [unfolded loss_inv_def]
  have s: "lc_rtb conn' = lc_rtb conn" "ecn_state conn' = ecn_state conn" "rst_delivered (lc_rst conn) \<le> rst_delivered (lc_rst conn')"
    "cs_bytes_in_flight (lc_cstat conn') = cs_bytes_in_flight (lc_cstat conn)" using assms(2) by (simp_all add: acked_step_def)
  have "tracks conn' es" using i s by (simp add: tracks_def)
  moreover have "delivered_ok conn' es" using i s(1,3) by (fastforce simp: delivered_ok_def)
  ultimately show ?thesis using i s(1) ecn_left_state [OF s(2)] by (simp add: loss_inv_def)
qed

lemma loss_inv_call: "loss_inv c es \<Longrightarrow> loss_inv (call_cc app f c) es"
  by (erule loss_inv_step) (simp add: acked_step_def)

lemma loss_inv_largest:
  assumes "loss_inv conn es" "sint (rtb_largest_acked_tx_pkt_num (lc_rtb conn)) \<le> sint l"
  shows "loss_inv (conn\<lparr>lc_rtb := (lc_rtb conn)\<lparr>rtb_largest_acked_tx_pkt_num := l\<rparr>\<rparr>) es"
proof -
  note i = assms(1) [unfolded loss_inv_def]
  let ?c = "conn\<lparr>lc_rtb := (lc_rtb conn)\<lparr>rtb_largest_acked_tx_pkt_num := l\<rparr>\<rparr>"
  have "\<forall>e \<in> set es. lost e \<longrightarrow> pn e \<le> sint l" using i assms(2) by fastforce
  moreover have "tracks ?c es" using i by (simp add: tracks_def counts_def)
  moreover have "ecn_left ?c (ecn_count ?c es)" using i by (simp add: ecn_left_def ecn_count_def)
  moreover have "delivered_ok ?c es" using i by (simp add: delivered_ok_def)
  ultimately show ?thesis using i by (simp add: loss_inv_def)
qed

lemma verify_ecn_ok:
  "lc_rtb (conn_verify_ecn env conn fr n cc ts) = lc_rtb conn" "lc_rst (conn_verify_ecn env conn fr n cc ts) = lc_rst conn"
  "lc_cstat (conn_verify_ecn env conn fr n cc ts) = lc_cstat conn"
  "lc_ecn_start_pkt_num (conn_verify_ecn env conn fr n cc ts) = lc_ecn_start_pkt_num conn"
  "ecn_left conn k \<Longrightarrow> ecn_left (conn_verify_ecn env conn fr n cc ts) k"
  by (auto simp: conn_verify_ecn_def Let_def call_cc_def ecn_left_def split: option.splits)

lemma finish_ack_ok:
  assumes "loss_inv conn es"
  shows "loss_inv (finish_ack env conn fr v n cc ts) es" "lc_rtb (finish_ack env conn fr v n cc ts) = lc_rtb conn"
    "lc_cstat (finish_ack env conn fr v n cc ts) = lc_cstat conn"
proof -
  have v: "loss_inv (conn_verify_ecn env conn fr n cc ts) es"
    using assms verify_ecn_ok(1-4) [of env conn fr n cc ts] verify_ecn_ok(5) [of conn _ env fr n cc ts]
    by (simp add: loss_inv_def tracks_def delivered_ok_def ecn_count_def)
  show "loss_inv (finish_ack env conn fr v n cc ts) es" unfolding finish_ack_def Let_def using assms v by (simp add: loss_inv_call)
  show "lc_rtb (finish_ack env conn fr v n cc ts) = lc_rtb conn" "lc_cstat (finish_ack env conn fr v n cc ts) = lc_cstat conn"
    by (simp_all add: finish_ack_def Let_def verify_ecn_ok(1,3))
qed

text \<open>
  An acknowledgement: the acknowledged packets, in ascending order, are taken out of the map and counted; the packets that are left are those
  that loss detection leaves, when a packet that counts was acknowledged.
\<close>

definition same_detection :: "'c loss_conn \<Rightarrow> 'c loss_conn \<Rightarrow> bool" where
  "same_detection c conn \<longleftrightarrow> cs_max_tx_udp_payload_size (lc_cstat c) = cs_max_tx_udp_payload_size (lc_cstat conn) \<and>
     cs_latest_rtt (lc_cstat c) = cs_latest_rtt (lc_cstat conn) \<and>
     (cs_smoothed_rtt (lc_cstat c) = cs_smoothed_rtt (lc_cstat conn) \<or> cs_first_rtt_sample_ts (lc_cstat conn) = UINT64_MAX)"

lemma same_detection_cc: "same_cc c conn \<Longrightarrow> same_detection c conn"
  by (auto simp: same_cc_def same_detection_def)

definition ack_result :: "ngtcp2_ack \<Rightarrow> u64 \<Rightarrow> 'c loss_conn \<Rightarrow> ngtcp2_rtb_entry list \<Rightarrow> 'c loss_conn \<Rightarrow> nat \<Rightarrow> bool" where
  "ack_result fr ts conn es conn' num \<longleftrightarrow>
     num = length (filter (\<lambda>e. acked_by fr e \<and> sint (rtb_cc_pkt_num (lc_rtb conn)) \<le> pn e) es) \<and>
     sint (rtb_largest_acked_tx_pkt_num (lc_rtb conn')) = max (sint (rtb_largest_acked_tx_pkt_num (lc_rtb conn))) (sint (ack_largest_ack fr)) \<and>
     rtb_cc_pkt_num (lc_rtb conn') = rtb_cc_pkt_num (lc_rtb conn) \<and>
     (let left = filter (\<lambda>e. \<not> acked_by fr e) es in
      if num = 0 then loss_inv conn' left
      else \<exists>c :: 'c loss_conn. rtb_largest_acked_tx_pkt_num (lc_rtb c) = rtb_largest_acked_tx_pkt_num (lc_rtb conn') \<and>
        same_detection c conn' \<and> loss_inv c left \<and> loss_inv conn' (after_detection c ts left))"

lemma start_ack_ok:
  assumes "loss_inv conn es" "start_ack env conn fr ts = (c0, v)"
  shows "loss_inv c0 es" "rtb_cc_pkt_num (lc_rtb c0) = rtb_cc_pkt_num (lc_rtb conn)"
    "sint (rtb_largest_acked_tx_pkt_num (lc_rtb c0)) = max (sint (rtb_largest_acked_tx_pkt_num (lc_rtb conn))) (sint (ack_largest_ack fr))"
    "cs_max_tx_udp_payload_size (lc_cstat c0) = cs_max_tx_udp_payload_size (lc_cstat conn)"
proof -
  have v: "v \<longleftrightarrow> sint (rtb_largest_acked_tx_pkt_num (lc_rtb conn)) < sint (ack_largest_ack fr)"
    using assms(2) by (auto simp: start_ack_def Let_def split: prod.splits)
  let ?l = "if v then ack_largest_ack fr else rtb_largest_acked_tx_pkt_num (lc_rtb conn)"
  let ?c = "conn\<lparr>lc_rtb := (lc_rtb conn)\<lparr>rtb_largest_acked_tx_pkt_num := ?l\<rparr>\<rparr>"
  have i: "loss_inv ?c es" by (rule loss_inv_largest [OF assms(1)]) (simp add: v)
  have s: "acked_step ?c c0" "lc_rtb c0 = lc_rtb ?c"
    "cs_max_tx_udp_payload_size (lc_cstat c0) = cs_max_tx_udp_payload_size (lc_cstat conn)"
    using assms(2) v by (auto simp: start_ack_def acked_step_def ecn_state_def ngtcp2_rst_reset_rate_sample_def Let_def)
  show "loss_inv c0 es" by (rule loss_inv_step [OF i s(1)])
  show "cs_max_tx_udp_payload_size (lc_cstat c0) = cs_max_tx_udp_payload_size (lc_cstat conn)" by (rule s(3))
  show "rtb_cc_pkt_num (lc_rtb c0) = rtb_cc_pkt_num (lc_rtb conn)"
    "sint (rtb_largest_acked_tx_pkt_num (lc_rtb c0)) = max (sint (rtb_largest_acked_tx_pkt_num (lc_rtb conn))) (sint (ack_largest_ack fr))"
    unfolding s(2) using v by auto
qed

lemma acked_ascending:
  assumes "delivered_ok conn es"
  shows "sorted_wrt (\<lambda>a b. sint (rtb_cc_pkt_num (lc_rtb conn)) \<le> pn a \<longrightarrow> er_delivered (en_rst a) \<le> er_delivered (en_rst b)) (rev (filter Q es))"
  using assms by (auto simp: delivered_ok_def sorted_wrt_rev sorted_wrt_filter)

lemma sample_rtt_ok:
  assumes "env_ok env"
  shows "\<exists>conn' cc. sample_rtt env conn fr sent_ts el pkt_ts ts = Ok (conn', cc) \<and> acked_step conn conn' \<and> ca_pkt_delivered cc = 0"
proof (cases "sent_ts \<noteq> UINT64_MAX \<and> el")
  case True
  have "(1 :: u64) \<le> max (pkt_ts - sent_ts) 1" by simp
  then have "0 < max (pkt_ts - sent_ts) 1" by (rule less_le_trans [rotated]) simp
  from update_rtt_ok [OF assms this, of "lc_cstat conn" "ack_delay_unscaled fr" ts] True show ?thesis
    by (auto simp: sample_rtt_def Let_def acked_step_def ecn_state_def cc_ack0_def)
qed (auto simp: sample_rtt_def Let_def acked_step_def cc_ack0_def)

lemma process_acked_ok:
  fixes conn :: "'c loss_conn"
  assumes i: "loss_inv conn es" and env: "env_ok env" and size: "0 < cs_max_tx_udp_payload_size (lc_cstat conn)"
    and asc: "sorted_wrt (\<lambda>a b. sint (rtb_cc_pkt_num (lc_rtb conn)) \<le> pn a \<longrightarrow> er_delivered (en_rst a) \<le> er_delivered (en_rst b)) ms"
  shows "okR (\<lambda>(conn', num). num = length (filter (\<lambda>e. sint (rtb_cc_pkt_num (lc_rtb conn)) \<le> pn e) ms) \<and>
      rtb_largest_acked_tx_pkt_num (lc_rtb conn') = rtb_largest_acked_tx_pkt_num (lc_rtb conn) \<and>
      rtb_cc_pkt_num (lc_rtb conn') = rtb_cc_pkt_num (lc_rtb conn) \<and>
      (if num = 0 then loss_inv conn' es
       else \<exists>c :: 'c loss_conn. rtb_largest_acked_tx_pkt_num (lc_rtb c) = rtb_largest_acked_tx_pkt_num (lc_rtb conn) \<and>
         same_detection c conn' \<and> loss_inv c es \<and> loss_inv conn' (after_detection c ts es)))
    (process_acked env conn fr v k ms sent_ts el pkt_ts ts)" (is "okR ?Q _")
proof -
  from sample_rtt_ok [OF env, of conn fr sent_ts el pkt_ts ts] obtain c1 cc1 where
    1: "sample_rtt env conn fr sent_ts el pkt_ts ts = Ok (c1, cc1)" "acked_step conn c1" "ca_pkt_delivered cc1 = 0" by blast
  have cc: "rtb_cc_pkt_num (lc_rtb c1) = rtb_cc_pkt_num (lc_rtb conn)" using 1(2) by (simp add: acked_step_def)
  have loop: "okR (\<lambda>(conn', _, _, num'). acked_step c1 conn' \<and> num' = 0 + length (filter (\<lambda>e. sint (rtb_cc_pkt_num (lc_rtb c1)) \<le> pn e) ms))
    (process_acked_loop env c1 ms cc1 0 0 ts)" by (rule process_acked_loop_ok [OF env]) (use asc cc 1(3) in auto)
  show ?thesis unfolding process_acked_def 1(1) bindR.simps prod.case
  proof (rule okR_bindI [OF loop], clarify, goal_cases)
    case (1 c2 cc2 ecn num)
    let ?n = "0 + length (filter (\<lambda>e. sint (rtb_cc_pkt_num (lc_rtb c1)) \<le> pn e) ms)"
    define c3 where "c3 = (if k \<noteq> 0 \<and> rtb_num_lost_pkts (lc_rtb c2) = rtb_num_lost_ignore_pkts (lc_rtb c2)
      then call_cc (\<lambda>f. f (lc_cstat c2) ts) (le_on_spurious_congestion env) c2 else c2)"
    have c3: "acked_step conn c3" using acked_step_trans [OF \<open>acked_step conn c1\<close> 1] by (simp add: c3_def acked_step_call)
    have i3: "loss_inv c3 es" by (rule loss_inv_step [OF i c3])
    have r3: "lc_rtb c3 = lc_rtb conn" using c3 by (simp add: acked_step_def)
    show ?case unfolding Let_def c3_def [symmetric]
    proof (cases "?n = 0")
      case True
      then show "okR ?Q (bindR (if ?n \<noteq> 0 then case ngtcp2_rst_on_ack_recv (lc_rst c3) (lc_cstat c3) of (rst, cstat) \<Rightarrow>
            rtb_detect_lost_pkt env (c3\<lparr>lc_rst := rst, lc_cstat := cstat\<rparr>) cc2 ts else Ok (c3, cc2)) (\<lambda>(conn, cc_ack).
        Ok (finish_ack env conn fr v ecn cc_ack ts, ?n)))"
        using finish_ack_ok [OF i3] r3 cc by auto
    next
      case False
      obtain rst cstat where o: "ngtcp2_rst_on_ack_recv (lc_rst c3) (lc_cstat c3) = (rst, cstat)" by force
      define c4 where "c4 = c3\<lparr>lc_rst := rst, lc_cstat := cstat\<rparr>"
      have s4: "acked_step c3 c4" using on_ack_recv_ok [OF o] by (simp add: c4_def acked_step_def ecn_state_def)
      have i4: "loss_inv c4 es" by (rule loss_inv_step [OF i3 s4])
      have z4: "cs_max_tx_udp_payload_size (lc_cstat c4) \<noteq> 0" using acked_step_trans [OF c3 s4] size by (simp add: acked_step_def)
      have r4: "lc_rtb c4 = lc_rtb conn" using s4 r3 by (simp add: acked_step_def)
      have "okR ?Q (bindR (rtb_detect_lost_pkt env c4 cc2 ts) (\<lambda>(conn, cc_ack). Ok (finish_ack env conn fr v ecn cc_ack ts, ?n)))"
      proof (rule okR_bindI [OF rtb_detect_lost_pkt_ok [OF i4 env z4]], clarify)
        fix c cc' assume c: "loss_inv c (after_detection c4 ts es)" "same_cc c4 c"
        note f = finish_ack_ok [OF c(1), of env fr v ecn cc' ts]
        have "rtb_largest_acked_tx_pkt_num (lc_rtb c) = rtb_largest_acked_tx_pkt_num (lc_rtb conn)" "rtb_cc_pkt_num (lc_rtb c) = rtb_cc_pkt_num (lc_rtb conn)"
          using c(2) r4 by (simp_all add: same_cc_def)
        moreover have "same_detection c4 (finish_ack env c fr v ecn cc' ts)"
          using same_detection_cc [OF c(2)] f(3) by (simp add: same_detection_def)
        ultimately show "okR ?Q (Ok (finish_ack env c fr v ecn cc' ts, ?n))"
          using f i4 r4 False cc by (auto intro: exI [of _ c4])
      qed
      then show "okR ?Q (bindR (if ?n \<noteq> 0 then case ngtcp2_rst_on_ack_recv (lc_rst c3) (lc_cstat c3) of (rst, cstat) \<Rightarrow>
            rtb_detect_lost_pkt env (c3\<lparr>lc_rst := rst, lc_cstat := cstat\<rparr>) cc2 ts else Ok (c3, cc2)) (\<lambda>(conn, cc_ack).
        Ok (finish_ack env conn fr v ecn cc_ack ts, ?n)))" using False o by (simp add: c4_def)
    qed
  qed
qed

lemma recv_ack_ok:
  fixes conn :: "'c loss_conn"
  assumes i: "loss_inv conn es" and env: "env_ok env" and size: "0 < cs_max_tx_udp_payload_size (lc_cstat conn)"
    and fr: "ack_decoded fr" "ngtcp2_pkt_validate_ack fr m = Ok ()"
  shows "if \<exists>e \<in> set es. acked_by fr e \<and> skip e then ngtcp2_rtb_recv_ack env conn fr pkt_ts ts = Err NGTCP2_ERR_PROTO
    else okR (\<lambda>(conn', num). ack_result fr ts conn es conn' num) (ngtcp2_rtb_recv_ack env conn fr pkt_ts ts)"
proof -
  obtain c0 v where s: "start_ack env conn fr ts = (c0, v)" by force
  note c0 = start_ack_ok [OF i s]
  have t0: "tracks c0 es" using c0(1) by (simp add: loss_inv_def)
  from collect_ok [OF t0 fr] obtain it st where
    it: "ngtcp2_ksl_lower_bound i64_greater (rtb_ents (lc_rtb c0)) (ack_largest_ack fr) = Ok it"
      "ngtcp2_ksl_it_end (rtb_ents (lc_rtb c0)) it \<longleftrightarrow> (\<forall>e \<in> set es. sint (ack_largest_ack fr) < pn e)"
    and col: "if \<exists>e \<in> set (filter (acked_by fr) es). skip e then rtb_collect_acked c0 fr it = Err NGTCP2_ERR_PROTO
     else \<exists>conn'. rtb_collect_acked c0 fr it =
         Ok (conn', rev (filter (acked_by fr) es), st, \<exists>e \<in> set (filter (acked_by fr) es). eliciting e) \<and>
       tracks conn' (filter (\<lambda>e. \<not> acked_by fr e) es) \<and> removed c0 conn'" .
  let ?k = "rtb_num_lost_pkts (lc_rtb conn) - rtb_num_lost_ignore_pkts (lc_rtb conn)"
  have eq: "ngtcp2_rtb_recv_ack env conn fr pkt_ts ts =
      (if \<forall>e \<in> set es. sint (ack_largest_ack fr) < pn e then Ok (finish_ack env c0 fr v 0 cc_ack0 ts, 0) else
       bindR (rtb_collect_acked c0 fr it) (\<lambda>(conn, acked, sent_ts, el). process_acked env conn fr v ?k acked sent_ts el pkt_ts ts))"
    unfolding ngtcp2_rtb_recv_ack_def Let_def s prod.case using it by simp
  have le: "pn e \<le> sint (ack_largest_ack fr)" if a: "acked_by fr e" for e
  proof -
    have u: "uvs_ok (ack_range_fields (ack_ranges fr))" "0 \<le> sint (ack_first_ack_range fr)" using fr(1) sint_varint by (auto simp: ack_decoded_def)
    show ?thesis using a u(2) intervals_descend [OF u(1)] by (fastforce simp: acks_pkt_def acked_intervals_def Let_def)
  qed
  show ?thesis
  proof (cases "\<forall>e \<in> set es. sint (ack_largest_ack fr) < pn e")
    case True
    then have no: "\<not> acked_by fr e" if "e \<in> set es" for e using le [of e] that by fastforce
    then have f: "filter (\<lambda>e. acked_by fr e \<and> sint (rtb_cc_pkt_num (lc_rtb conn)) \<le> pn e) es = []" "filter (\<lambda>e. \<not> acked_by fr e) es = es"
      by (simp_all add: filter_empty_conv filter_id_conv)
    have "ack_result fr ts conn es (finish_ack env c0 fr v 0 cc_ack0 ts) 0"
      unfolding ack_result_def f using finish_ack_ok [OF c0(1), of env fr v 0 cc_ack0 ts] c0(2,3) by simp
    then show ?thesis unfolding eq using True no by auto
  next
    case ex: False
    show ?thesis
    proof (cases "\<exists>e \<in> set es. acked_by fr e \<and> skip e")
      case True
      then have sk: "\<exists>e \<in> set (filter (acked_by fr) es). skip e" by auto
      have "rtb_collect_acked c0 fr it = Err NGTCP2_ERR_PROTO" using col unfolding if_P [OF sk] .
      then show ?thesis unfolding eq if_P [OF True] if_not_P [OF ex] by simp
    next
      case False
      let ?ms = "rev (filter (acked_by fr) es)" and ?left = "filter (\<lambda>e. \<not> acked_by fr e) es"
      have sk: "\<not> (\<exists>e \<in> set (filter (acked_by fr) es). skip e)" using False by auto
      obtain c el where c: "rtb_collect_acked c0 fr it = Ok (c, ?ms, st, el)" "tracks c ?left" "removed c0 c"
        using col unfolding if_not_P [OF sk] by blast
      have sc: "same_cc c0 c" using c(3) by (simp add: removed_def)
      have ic: "loss_inv c ?left" by (rule loss_inv_filter [OF c0(1) c(2,3)])
      have zc: "0 < cs_max_tx_udp_payload_size (lc_cstat c)" using sc size c0(4) by (simp add: same_cc_def)
      have cc: "rtb_cc_pkt_num (lc_rtb c) = rtb_cc_pkt_num (lc_rtb conn)" using sc c0(2) by (simp add: same_cc_def)
      have "delivered_ok c0 es" using c0(1) by (simp add: loss_inv_def)
      from acked_ascending [OF this, of "acked_by fr"] have asc: "sorted_wrt (\<lambda>a b. sint (rtb_cc_pkt_num (lc_rtb c)) \<le> pn a \<longrightarrow>
          er_delivered (en_rst a) \<le> er_delivered (en_rst b)) ?ms" unfolding c0(2) cc .
      have n: "length (filter (\<lambda>e. sint (rtb_cc_pkt_num (lc_rtb conn)) \<le> pn e) ?ms) =
          length (filter (\<lambda>e. acked_by fr e \<and> sint (rtb_cc_pkt_num (lc_rtb conn)) \<le> pn e) es)"
        by (simp add: rev_filter [symmetric] conj_commute)
      have "okR (\<lambda>(conn', num). ack_result fr ts conn es conn' num) (process_acked env c fr v ?k ?ms st el pkt_ts ts)"
      proof (rule okR_mono [OF process_acked_ok [OF ic env zc asc]], clarify)
        fix c' :: "'c loss_conn" assume q: "rtb_largest_acked_tx_pkt_num (lc_rtb c') = rtb_largest_acked_tx_pkt_num (lc_rtb c)" "rtb_cc_pkt_num (lc_rtb c') = rtb_cc_pkt_num (lc_rtb c)"
          "if length (filter (\<lambda>e. sint (rtb_cc_pkt_num (lc_rtb c)) \<le> pn e) ?ms) = 0 then loss_inv c' ?left
           else \<exists>d :: 'c loss_conn. rtb_largest_acked_tx_pkt_num (lc_rtb d) = rtb_largest_acked_tx_pkt_num (lc_rtb c) \<and>
             same_detection d c' \<and> loss_inv d ?left \<and> loss_inv c' (after_detection d ts ?left)"
        have "sint (rtb_largest_acked_tx_pkt_num (lc_rtb c')) = max (sint (rtb_largest_acked_tx_pkt_num (lc_rtb conn))) (sint (ack_largest_ack fr))"
          using q(1) sc c0(3) by (simp add: same_cc_def)
        then show "ack_result fr ts conn es c' (length (filter (\<lambda>e. sint (rtb_cc_pkt_num (lc_rtb c)) \<le> pn e) ?ms))"
          using q unfolding cc n ack_result_def Let_def by simp
      qed
      then show ?thesis unfolding eq if_not_P [OF False] if_not_P [OF ex] c(1) by simp
    qed
  qed
qed

end
