(* ===== verification/Rtb_Correct.thy ===== *)
theory Rtb_Correct
  imports Rtb_Ack
begin

text \<open>
  The correctness of \<open>lib/ngtcp2_rtb.c\<close>: the packets that are added, reclaimed by the probe timer, dropped with early data, expired or taken back
  on Retry keep the invariant of \<open>Rtb_Loss\<close>; so does every state that a run of the operations reaches, from which the properties follow.
\<close>

section \<open>Sent packets\<close>

lemma has_flag_rst [simp]: "has_flag (e\<lparr>en_rst := r\<rparr>) g = has_flag e g"
  by (simp add: has_flag_def)

lemma entries_insert:
  assumes "entries ents es" "\<forall>x \<in> set es. pn x < pn e"
  obtains ents' rv it al' where "ngtcp2_ksl_insert i64_greater al ents (en_pkt_num e) e = Ok (ents', rv, it, al')"
    "rv = None \<and> entries ents' (e # es) \<and> (\<exists>i. it = Some i \<and> ksl_it_at ents' i 0) \<or> rv = Some NGTCP2_ERR_NOMEM \<and> False \<in> set al"
proof -
  have ok: "ksl_ok i64_greater ents" and l: "ksl_elems ents = map (\<lambda>e. (en_pkt_num e, e)) es" using assms(1) by (auto simp: entries_def)
  from i64.ksl_insert_ok [OF ok int64_agrees, of al "en_pkt_num e" e] obtain ents' rv it al' where
    i: "ngtcp2_ksl_insert i64_greater al ents (en_pkt_num e) e = Ok (ents', rv, it, al')"
      "ksl_insert_spec i64_greater al ents (en_pkt_num e) e ents' rv it" by blast
  have new: "en_pkt_num e \<notin> fst ` set (ksl_elems ents)" using assms(2) l by auto
  have "rv = None \<and> entries ents' (e # es) \<and> (\<exists>i. it = Some i \<and> ksl_it_at ents' i 0)" if r: "rv \<noteq> Some NGTCP2_ERR_NOMEM"
  proof -
    from i(2) r new obtain xs ys j where s: "rv = None" "ksl_ok i64_greater ents'" "ksl_elems ents = xs @ ys"
      "ksl_elems ents' = xs @ (en_pkt_num e, e) # ys" "\<forall>x \<in> fst ` set xs. i64_greater x (en_pkt_num e)"
      "it = Some j" "it_at (ksl_front_back ents') j (length xs)" unfolding ksl_insert_spec_def by blast
    have "set xs \<subseteq> set (ksl_elems ents)" unfolding s(3) by simp
    then have sub: "set xs \<subseteq> (\<lambda>e. (en_pkt_num e, e)) ` set es" unfolding l by simp
    have x: "xs = []"
    proof (cases xs)
      case (Cons x xs')
      then obtain y where y: "y \<in> set es" "x = (en_pkt_num y, y)" using sub by auto
      then have "pn e < pn y" using s(5) Cons by (simp add: ngtcp2_ksl_int64_greater_def)
      then show ?thesis using assms(2) y(1) by fastforce
    qed simp
    have "ksl_it_at ents' j 0" using it_at_std [OF s(7)] s(4) x
      by (auto simp: ksl_it_at_def ksl_elems_def split: option.splits)
    then show ?thesis using s x l by (auto simp: entries_def)
  qed
  moreover have "False \<in> set al" if "rv = Some NGTCP2_ERR_NOMEM" using i(2) that by (simp add: ksl_insert_spec_def)
  ultimately show thesis using that [OF i(1)] by blast
qed

text \<open>A new entry: its packet number is larger than the others, and nothing has happened to it yet.\<close>

definition fresh_entry :: "'c loss_conn \<Rightarrow> ngtcp2_rtb_entry list \<Rightarrow> ngtcp2_rtb_entry \<Rightarrow> bool" where
  "fresh_entry conn es e \<longleftrightarrow> (\<forall>x \<in> set es. pn x < pn e) \<and> sint (rtb_cc_pkt_num (lc_rtb conn)) \<le> pn e \<and> entry_ok e \<and> \<not> lost e \<and>
     \<not> has_flag e NGTCP2_RTB_ENTRY_FLAG_PTO_RECLAIMED"

lemma rtb_add_ok:
  assumes i: "loss_inv conn es" and f: "fresh_entry conn es e" and ecn: "ecn_left conn (ecn_count conn (e # es))"
  shows "(\<exists>conn' r. ngtcp2_rtb_add al conn e = Ok conn' \<and> loss_inv conn' (e\<lparr>en_rst := r\<rparr> # es) \<and>
      lc_rest conn' = lc_rest conn \<and> cs_bytes_in_flight (lc_cstat conn') = cs_bytes_in_flight (lc_cstat conn) + en_pktlen e) \<or>
    ngtcp2_rtb_add al conn e = Err NGTCP2_ERR_NOMEM \<and> False \<in> set al"
proof -
  note inv = i [unfolded loss_inv_def]
  have t: "entries (rtb_ents (lc_rtb conn)) es" "counts (lc_rtb conn) es" "\<forall>e \<in> set es. entry_ok e"
    "rtb_cc_bytes_in_flight (lc_rtb conn) \<le> cs_bytes_in_flight (lc_cstat conn)" using inv by (auto simp: tracks_def)
  have fr: "\<forall>x \<in> set es. pn x < pn e" "sint (rtb_cc_pkt_num (lc_rtb conn)) \<le> pn e" "entry_ok e" "\<not> lost e"
    "\<not> has_flag e NGTCP2_RTB_ENTRY_FLAG_PTO_RECLAIMED" using f by (auto simp: fresh_entry_def)
  from entries_insert [OF t(1) fr(1), of al] obtain ents' rv it al' where
    ins: "ngtcp2_ksl_insert i64_greater al (rtb_ents (lc_rtb conn)) (en_pkt_num e) e = Ok (ents', rv, it, al')"
      "rv = None \<and> entries ents' (e # es) \<and> (\<exists>i. it = Some i \<and> ksl_it_at ents' i 0) \<or> rv = Some NGTCP2_ERR_NOMEM \<and> False \<in> set al" .
  show ?thesis
  proof (cases "rv = None")
    case False
    then show ?thesis using ins by (auto simp: ngtcp2_rtb_add_def)
  next
    case True
    then obtain j where j: "it = Some j" "ksl_it_at ents' j 0" "entries ents' (e # es)" using ins(2) by auto
    define cstat where "cstat = (lc_cstat conn)\<lparr>cs_bytes_in_flight := cs_bytes_in_flight (lc_cstat conn) + en_pktlen e\<rparr>"
    obtain rst e' where s: "ngtcp2_rst_on_pkt_sent (lc_rst conn) e cstat = (rst, e')" by force
    then obtain r where r: "e' = e\<lparr>en_rst := r\<rparr>" "er_delivered r = rst_delivered (lc_rst conn)" "rst_delivered rst = rst_delivered (lc_rst conn)"
      by (auto simp: ngtcp2_rst_on_pkt_sent_def Let_def)
    have st: "entries (ksl_it_store ents' j e') (e' # es)" using entries_store(1) [of ents' "[]" e es j e'] j r(1) by simp
    define rtb where "rtb = (lc_rtb conn)\<lparr>rtb_ents := ksl_it_store ents' j e',
      rtb_cc_bytes_in_flight := rtb_cc_bytes_in_flight (lc_rtb conn) + en_pktlen e,
      rtb_num_ack_eliciting := rtb_num_ack_eliciting (lc_rtb conn) + (if has_flag e NGTCP2_RTB_ENTRY_FLAG_ACK_ELICITING then 1 else 0),
      rtb_num_retransmittable := rtb_num_retransmittable (lc_rtb conn) + (if has_flag e NGTCP2_RTB_ENTRY_FLAG_RETRANSMITTABLE then 1 else 0),
      rtb_num_pto_eliciting := rtb_num_pto_eliciting (lc_rtb conn) + (if has_flag e NGTCP2_RTB_ENTRY_FLAG_PTO_ELICITING then 1 else 0)\<rparr>"
    define c where "c = conn\<lparr>lc_rtb := rtb, lc_rst := rst, lc_cstat := cstat\<rparr>"
    have add: "ngtcp2_rtb_add al conn e = Ok c"
      using ins(1) True j(1) s fr(2) unfolding ngtcp2_rtb_add_def rtb_on_add_def c_def rtb_def cstat_def Let_def by simp
    have "counts rtb (e' # es)" using t(2) fr(2,4,5) unfolding counts_def rtb_def by (auto simp: r(1))
    moreover have "entry_ok e'" using fr(3) by (simp add: entry_ok_def r(1))
    ultimately have "tracks c (e' # es)" using st t(3,4) by (auto simp: tracks_def c_def rtb_def cstat_def)
    moreover have "lost_last (e' # es)" using inv fr(4) by (simp add: lost_last_def r(1))
    moreover have "ecn_left c (ecn_count c (e' # es))"
    proof -
      have "ecn_count c (e' # es) = ecn_count conn (e # es)" by (simp add: ecn_count_def c_def r(1))
      then show ?thesis using ecn by (simp add: ecn_left_def c_def)
    qed
    moreover have "delivered_ok c (e' # es)" using inv r by (auto simp: delivered_ok_def c_def rtb_def)
    moreover have "\<forall>x \<in> set (e' # es). lost x \<longrightarrow> pn x \<le> sint (rtb_largest_acked_tx_pkt_num (lc_rtb c))" using inv fr(4) by (auto simp: c_def rtb_def r(1))
    ultimately have "loss_inv c (e' # es)" unfolding loss_inv_def by blast
    then show ?thesis using add unfolding r(1) by (auto simp: c_def cstat_def)
  qed
qed

text \<open>Marking a packet for ECN validation counts it before its entry is there.\<close>

lemma ecn_start_ok:
  assumes i: "loss_inv conn es" and new: "\<forall>x \<in> set es. pn x < sint (hd_pkt_num phd)"
    and same: "lc_rtb conn' = lc_rtb conn" "lc_rst conn' = lc_rst conn" "lc_cstat conn' = lc_cstat conn"
    and start: "lc_ecn_start_pkt_num conn' = lc_ecn_start_pkt_num conn \<or> lc_ecn_start_pkt_num conn' = hd_pkt_num phd"
    and left: "ecn_left conn (ecn_count conn es) \<Longrightarrow> ecn_left conn' (ecn_count conn es + k)"
  shows "loss_inv conn' es" "ecn_left conn' (ecn_count conn' es + k)"
proof -
  have "ecn_count conn' es = 0" if "lc_ecn_start_pkt_num conn' = hd_pkt_num phd" using new that by (auto simp: ecn_count_def filter_empty_conv)
  then have "ecn_count conn' es \<le> ecn_count conn es" using start by (auto simp: ecn_count_def)
  then show l: "ecn_left conn' (ecn_count conn' es + k)" using i left ecn_left_mono [of conn' "ecn_count conn es + k"] by (simp add: loss_inv_def)
  then have "ecn_left conn' (ecn_count conn' es)" by (rule ecn_left_mono) simp
  then show "loss_inv conn' es" using i same by (simp add: loss_inv_def tracks_def delivered_ok_def)
qed

lemma handle_tx_ecn_ok:
  assumes i: "loss_inv conn es" and new: "\<forall>x \<in> set es. pn x < sint (hd_pkt_num phd)"
    and start: "lc_ecn_state conn = NGTCP2_ECN_STATE_TESTING \<and> lc_ecn_validation_start_ts conn = UINT64_MAX \<longrightarrow>
      lc_ecn_validation_pkt_sent conn = 0 \<and> lc_ecn_validation_pkt_lost conn = 0"
  obtains conn' ecn' f' where "conn_handle_tx_ecn env conn ecn (Some f) phd ts = Ok (conn', ecn', Some f')" "loss_inv conn' es"
    "lc_rtb conn' = lc_rtb conn" "f' = f \<or> f' = f OR NGTCP2_RTB_ENTRY_FLAG_ECN \<and> ecn_left conn' (ecn_count conn' es + 1)"
    "lc_rest conn' = lc_rest conn" "lc_cstat conn' = lc_cstat conn"
proof -
  have "\<exists>conn' ecn' f'. conn_handle_tx_ecn env conn ecn (Some f) phd ts = Ok (conn', ecn', Some f') \<and>
      lc_rtb conn' = lc_rtb conn \<and> lc_rst conn' = lc_rst conn \<and> lc_cstat conn' = lc_cstat conn \<and> lc_rest conn' = lc_rest conn \<and>
      (lc_ecn_start_pkt_num conn' = lc_ecn_start_pkt_num conn \<or> lc_ecn_start_pkt_num conn' = hd_pkt_num phd) \<and>
      (f' = f \<and> (ecn_left conn (ecn_count conn es) \<longrightarrow> ecn_left conn' (ecn_count conn es + 0)) \<or>
       f' = f OR NGTCP2_RTB_ENTRY_FLAG_ECN \<and> (ecn_left conn (ecn_count conn es) \<longrightarrow> ecn_left conn' (ecn_count conn es + 1)))"
    using start unfolding conn_handle_tx_ecn_def Let_def ecn_left_def by (cases "lc_ecn_state conn") auto
  then obtain c e' f' where c: "conn_handle_tx_ecn env conn ecn (Some f) phd ts = Ok (c, e', Some f')"
      "lc_rtb c = lc_rtb conn" "lc_rst c = lc_rst conn" "lc_cstat c = lc_cstat conn" "lc_rest c = lc_rest conn"
      "lc_ecn_start_pkt_num c = lc_ecn_start_pkt_num conn \<or> lc_ecn_start_pkt_num c = hd_pkt_num phd"
    and f: "f' = f \<and> (ecn_left conn (ecn_count conn es) \<longrightarrow> ecn_left c (ecn_count conn es + 0)) \<or>
       f' = f OR NGTCP2_RTB_ENTRY_FLAG_ECN \<and> (ecn_left conn (ecn_count conn es) \<longrightarrow> ecn_left c (ecn_count conn es + 1))" by blast
  note st = ecn_start_ok [OF i new c(2,3,4,6)]
  have "loss_inv c es" using f st(1) by blast
  moreover have "f' = f \<or> f' = f OR NGTCP2_RTB_ENTRY_FLAG_ECN \<and> ecn_left c (ecn_count c es + 1)" using f st(2) by blast
  ultimately show thesis using that c by blast
qed

text \<open>The steps of sending a packet: the ECN mark, the entry, and its addition.\<close>

definition send_pkt ::
    "'c loss_env \<Rightarrow> bool \<Rightarrow> alloc \<Rightarrow> 'c loss_conn \<Rightarrow> u32 \<Rightarrow> ngtcp2_pkt_hd \<Rightarrow> ngtcp2_frame list \<Rightarrow> nat \<Rightarrow> 16 word \<Rightarrow> u64 \<Rightarrow> 'c loss_conn res" where
  "send_pkt env ok al conn ecn phd frc pktlen flags ts =
     bindR (conn_handle_tx_ecn env conn ecn (Some flags) phd ts) (\<lambda>(conn, _, flags).
     bindR (ngtcp2_rtb_entry_objalloc_new ok phd frc ts pktlen (the flags)) (\<lambda>ent. ngtcp2_rtb_add al conn ent))"

definition sendable :: "'c loss_conn \<Rightarrow> ngtcp2_rtb_entry list \<Rightarrow> ngtcp2_pkt_hd \<Rightarrow> ngtcp2_frame list \<Rightarrow> 16 word \<Rightarrow> bool" where
  "sendable conn es phd frc flags \<longleftrightarrow> (\<forall>x \<in> set es. pn x < sint (hd_pkt_num phd)) \<and> sint (rtb_cc_pkt_num (lc_rtb conn)) \<le> sint (hd_pkt_num phd) \<and>
     flags AND (NGTCP2_RTB_ENTRY_FLAG_LOST_RETRANSMITTED OR NGTCP2_RTB_ENTRY_FLAG_PTO_RECLAIMED OR NGTCP2_RTB_ENTRY_FLAG_ECN) = 0 \<and>
     (flags AND NGTCP2_RTB_ENTRY_FLAG_RETRANSMITTABLE \<noteq> 0 \<longrightarrow> frc \<noteq> []) \<and>
     (lc_ecn_state conn = NGTCP2_ECN_STATE_TESTING \<and> lc_ecn_validation_start_ts conn = UINT64_MAX \<longrightarrow>
      lc_ecn_validation_pkt_sent conn = 0 \<and> lc_ecn_validation_pkt_lost conn = 0)"

lemma send_pkt_ok:
  assumes i: "loss_inv conn es" and s: "sendable conn es phd frc flags"
  shows "(\<exists>conn' e. send_pkt env ok al conn ecn phd frc pktlen flags ts = Ok conn' \<and> loss_inv conn' (e # es) \<and> en_pkt_num e = hd_pkt_num phd \<and>
      en_frc e = frc \<and> en_ts e = ts \<and> en_pktlen e = pktlen \<and>
      cs_bytes_in_flight (lc_cstat conn') = cs_bytes_in_flight (lc_cstat conn) + pktlen) \<or>
    send_pkt env ok al conn ecn phd frc pktlen flags ts = Err NGTCP2_ERR_NOMEM \<and> (\<not> ok \<or> False \<in> set al)"
proof -
  have sd: "\<forall>x \<in> set es. pn x < sint (hd_pkt_num phd)" "sint (rtb_cc_pkt_num (lc_rtb conn)) \<le> sint (hd_pkt_num phd)"
    "flags AND (NGTCP2_RTB_ENTRY_FLAG_LOST_RETRANSMITTED OR NGTCP2_RTB_ENTRY_FLAG_PTO_RECLAIMED OR NGTCP2_RTB_ENTRY_FLAG_ECN) = 0"
    "flags AND NGTCP2_RTB_ENTRY_FLAG_RETRANSMITTABLE \<noteq> 0 \<longrightarrow> frc \<noteq> []"
    "lc_ecn_state conn = NGTCP2_ECN_STATE_TESTING \<and> lc_ecn_validation_start_ts conn = UINT64_MAX \<longrightarrow>
      lc_ecn_validation_pkt_sent conn = 0 \<and> lc_ecn_validation_pkt_lost conn = 0" using s by (auto simp: sendable_def)
  have z: "flags AND NGTCP2_RTB_ENTRY_FLAG_LOST_RETRANSMITTED = 0" "flags AND NGTCP2_RTB_ENTRY_FLAG_PTO_RECLAIMED = 0"
    "flags AND NGTCP2_RTB_ENTRY_FLAG_ECN = 0" using sd(3) unfolding bit.conj_disj_distrib or_eq_0_iff by simp_all
  from handle_tx_ecn_ok [OF i sd(1,5), of env ecn flags ts] obtain c ecn' f where
    c: "conn_handle_tx_ecn env conn ecn (Some flags) phd ts = Ok (c, ecn', Some f)" "loss_inv c es" "lc_rtb c = lc_rtb conn"
      "f = flags \<or> f = flags OR NGTCP2_RTB_ENTRY_FLAG_ECN \<and> ecn_left c (ecn_count c es + 1)" "lc_cstat c = lc_cstat conn" by metis
  let ?e = "rtb_entry_init phd frc ts pktlen f"
  have fl: "f AND NGTCP2_RTB_ENTRY_FLAG_LOST_RETRANSMITTED = 0" "f AND NGTCP2_RTB_ENTRY_FLAG_PTO_RECLAIMED = 0"
    "f AND NGTCP2_RTB_ENTRY_FLAG_RETRANSMITTABLE = flags AND NGTCP2_RTB_ENTRY_FLAG_RETRANSMITTABLE"
    using c(4) z by (auto simp: bit.conj_disj_distrib2)
  have fresh: "fresh_entry c es ?e"
    using sd(1,2,4) fl c(3) by (auto simp: fresh_entry_def rtb_entry_init_def entry_ok_def has_flag_def)
  have left: "ecn_left c (ecn_count c (?e # es))"
  proof (cases "f = flags")
    case True
    then have "ecn_count c (?e # es) = ecn_count c es" using z(3) by (simp add: ecn_count_def has_flag_def rtb_entry_init_def)
    then show ?thesis using c(2) by (simp add: loss_inv_def)
  next
    case False
    then have "ecn_left c (ecn_count c es + 1)" using c(4) by blast
    then show ?thesis by (rule ecn_left_mono) (simp add: ecn_count_def)
  qed
  have eq: "send_pkt env ok al conn ecn phd frc pktlen flags ts = (if ok then ngtcp2_rtb_add al c ?e else Err NGTCP2_ERR_NOMEM)"
    by (simp add: send_pkt_def c(1) ngtcp2_rtb_entry_objalloc_new_def)
  show ?thesis
  proof (cases ok)
    case True
    then show ?thesis using rtb_add_ok [OF c(2) fresh left, of al] c(5) unfolding eq
      by (fastforce simp: rtb_entry_init_def)
  next
    case False
    then show ?thesis unfolding eq by simp
  qed
qed

section \<open>Probe timeouts\<close>

definition pto_mark :: "ngtcp2_rtb_entry \<Rightarrow> ngtcp2_rtb_entry" where
  "pto_mark e = e\<lparr>en_flags := (en_flags e OR NGTCP2_RTB_ENTRY_FLAG_PTO_RECLAIMED) AND NOT NGTCP2_RTB_ENTRY_FLAG_PTO_ELICITING\<rparr>"

definition reclaims :: "ngtcp2_rtb_entry \<Rightarrow> ngtcp2_rtb_entry \<Rightarrow> bool" where
  "reclaims e e' \<longleftrightarrow> e' = e \<or> \<not> lost e \<and> retransmittable e \<and> e' = pto_mark e"

lemma pto_mark_simps [simp]:
  "en_pkt_num (pto_mark e) = en_pkt_num e" "en_pktlen (pto_mark e) = en_pktlen e" "en_rst (pto_mark e) = en_rst e" "en_frc (pto_mark e) = en_frc e"
  "en_lost_ts (pto_mark e) = en_lost_ts e" "en_ts (pto_mark e) = en_ts e"
  "has_flag (pto_mark e) 0x10 = has_flag e 0x10" "has_flag (pto_mark e) 0x04 = has_flag e 0x04" "has_flag (pto_mark e) 0x02 = has_flag e 0x02"
  "has_flag (pto_mark e) 0x20 = has_flag e 0x20" "has_flag (pto_mark e) 0x08" "\<not> has_flag (pto_mark e) 0x100"
  "has_flag (pto_mark e) 0x280 = has_flag e 0x280"
  by (simp_all add: pto_mark_def has_flag_def bit.conj_disj_distrib2 and.assoc)

lemma counts_pto:
  assumes "counts rtb (xs @ e # ys)" "\<not> lost e" "retransmittable e"
  shows "rtb_num_retransmittable rtb \<noteq> 0" "has_flag e NGTCP2_RTB_ENTRY_FLAG_PTO_ELICITING \<longrightarrow> rtb_num_pto_eliciting rtb \<noteq> 0"
    "counts (rtb\<lparr>rtb_ents := t, rtb_num_retransmittable := rtb_num_retransmittable rtb - 1,
       rtb_num_pto_eliciting := rtb_num_pto_eliciting rtb - (if has_flag e NGTCP2_RTB_ENTRY_FLAG_PTO_ELICITING then 1 else 0)\<rparr>) (xs @ pto_mark e # ys)"
  using assms unfolding counts_def by auto

definition pto_step :: "'c loss_conn \<Rightarrow> 'c loss_conn \<Rightarrow> bool" where
  "pto_step conn conn' \<longleftrightarrow> same_cc conn conn' \<and> ecn_state conn' = ecn_state conn \<and> lc_rst conn' = lc_rst conn \<and> lc_cstat conn' = lc_cstat conn"

lemma pto_step_trans: "pto_step a b \<Longrightarrow> pto_step b c \<Longrightarrow> pto_step a c"
  by (simp add: pto_step_def same_cc_def)

text \<open>One entry is reclaimed.\<close>

lemma reclaim_entry:
  fixes conn :: "'c loss_conn" and r :: 'c
  assumes t: "tracks conn (xs @ e # ys)" and it: "ksl_it_at (rtb_ents (lc_rtb conn)) it (length xs)" and e: "\<not> lost e" "retransmittable e"
  defines "rtb \<equiv> lc_rtb conn"
  defines "p \<equiv> rtb_num_pto_eliciting rtb - (if has_flag e NGTCP2_RTB_ENTRY_FLAG_PTO_ELICITING then 1 else 0)"
  defines "conn' \<equiv> conn\<lparr>lc_rest := r, lc_rtb := rtb\<lparr>rtb_ents := ksl_it_store (rtb_ents rtb) it (pto_mark e),
    rtb_num_retransmittable := rtb_num_retransmittable rtb - 1, rtb_num_pto_eliciting := p\<rparr>\<rparr>"
  shows "tracks conn' (xs @ pto_mark e # ys)" "ksl_it_at (rtb_ents (lc_rtb conn')) it (length xs)" "pto_step conn conn'"
proof -
  have i: "entries (rtb_ents rtb) (xs @ e # ys)" "counts rtb (xs @ e # ys)" "\<forall>x \<in> set (xs @ e # ys). entry_ok x"
    "rtb_cc_bytes_in_flight rtb \<le> cs_bytes_in_flight (lc_cstat conn)" using t by (auto simp: tracks_def rtb_def)
  have it': "ksl_it_at (rtb_ents rtb) it (length xs)" using it by (simp add: rtb_def)
  note st = entries_store [OF i(1) it' pto_mark_simps(1)]
  have "entry_ok (pto_mark e)" using i(3) by (simp add: entry_ok_def)
  then show "tracks conn' (xs @ pto_mark e # ys)"
    using st(1) i(3,4) counts_pto(3) [OF i(2) e] by (auto simp: tracks_def conn'_def p_def counts_def)
  show "ksl_it_at (rtb_ents (lc_rtb conn')) it (length xs)" using st(2) it' by (simp add: conn'_def)
  show "pto_step conn conn'" by (simp add: pto_step_def same_cc_def ecn_state_def conn'_def rtb_def)
qed

lemma pto_flags:
  "(if flags AND NGTCP2_RTB_ENTRY_FLAG_PTO_ELICITING \<noteq> 0 then flags AND NOT NGTCP2_RTB_ENTRY_FLAG_PTO_ELICITING else flags) =
     flags AND NOT NGTCP2_RTB_ENTRY_FLAG_PTO_ELICITING" for flags :: "16 word"
proof (cases "flags AND 0x100 = 0")
  case True
  have "flags = flags AND (0x100 OR NOT 0x100)" by simp
  also have "\<dots> = flags AND NOT 0x100" using True unfolding bit.conj_disj_distrib by simp
  finally show ?thesis using True by simp
qed simp

lemma has_flag_mask: "has_flag e (f OR g) \<longleftrightarrow> has_flag e f \<or> has_flag e g"
  unfolding has_flag_def bit.conj_disj_distrib or_eq_0_iff by simp

lemma reclaims_snoc:
  fixes m n :: nat
  assumes "okR (\<lambda>(conn', left). \<exists>xs'. list_all2 reclaims xs xs' \<and> tracks conn' (xs' @ e' # ys) \<and> pto_step c conn' \<and> left \<le> m) r"
    "reclaims e e'" "pto_step conn c" "m \<le> n"
  shows "okR (\<lambda>(conn', left). \<exists>xs'. list_all2 reclaims (xs @ [e]) xs' \<and> tracks conn' (xs' @ ys) \<and> pto_step conn conn' \<and> left \<le> n) r"
  using assms(1)
proof (rule okR_mono, clarify)
  fix conn' left xs' assume h: "list_all2 reclaims xs xs'" "tracks conn' (xs' @ e' # ys)" "pto_step c conn'" "left \<le> m"
  have "list_all2 reclaims (xs @ [e]) (xs' @ [e'])" using list_all2_appendI [OF h(1), of "[e]" "[e']"] assms(2) by simp
  then show "\<exists>xs'. list_all2 reclaims (xs @ [e]) xs' \<and> tracks conn' (xs' @ ys) \<and> pto_step conn conn' \<and> left \<le> n"
    using h(2,4) pto_step_trans [OF assms(3) h(3)] assms(4) by (intro exI [of _ "xs' @ [e']"]) simp
qed

lemma pto_loop_ok:
  assumes "tracks conn (xs @ ys)" "ksl_it_at (rtb_ents (lc_rtb conn)) it (length xs)" "length xs < fuel" "env_ok env"
  shows "okR (\<lambda>(conn', left). \<exists>xs'. list_all2 reclaims xs xs' \<and> tracks conn' (xs' @ ys) \<and> pto_step conn conn' \<and> left \<le> n)
    (pto_loop fuel env conn it n)"
  using assms(1-3)
proof (induction fuel arbitrary: conn it xs ys n)
  case (Suc fuel)
  note p = Suc.prems
  let ?t = "rtb_ents (lc_rtb conn)"
  have e0: "entries ?t (xs @ ys)" using p(1) by (simp add: tracks_def)
  then have ok: "ksl_ok i64_greater ?t" by (simp add: entries_def)
  have r: "list_all2 reclaims xs xs" for xs by (rule list_all2_refl) (simp add: reclaims_def)
  have s0: "pto_step conn conn" by (simp add: pto_step_def same_cc_def)
  show ?case
  proof (cases "ngtcp2_ksl_it_begin it \<or> n = 0")
    case True
    then show ?thesis using p(1) r s0 by auto
  next
    case False
    then have "xs \<noteq> []" using ksl_it_begin [OF ok p(2)] by auto
    then obtain xs1 e where xs: "xs = xs1 @ [e]" by (metis rev_exhaust)
    have e1: "entries ?t (xs1 @ e # ys)" "ksl_it_at ?t it (length (xs1 @ [e]))" using e0 p(2) xs by simp_all
    from entries_prev [OF e1] obtain it1 where i1: "ngtcp2_ksl_it_prev ?t it = Ok it1" "ksl_it_at ?t it1 (length xs1)" .
    note g = entries_get(1) [OF e1(1) i1(2)]
    have t1: "tracks conn (xs1 @ e # ys)" "length xs1 < fuel" using p(1,3) xs by simp_all
    show ?thesis
    proof (cases "has_flag e (NGTCP2_RTB_ENTRY_FLAG_LOST_RETRANSMITTED OR NGTCP2_RTB_ENTRY_FLAG_PTO_RECLAIMED) \<or>
        \<not> has_flag e NGTCP2_RTB_ENTRY_FLAG_RETRANSMITTABLE")
      case True
      have "okR (\<lambda>(conn', left). \<exists>xs'. list_all2 reclaims xs1 xs' \<and> tracks conn' (xs' @ e # ys) \<and> pto_step conn conn' \<and> left \<le> n) (pto_loop fuel env conn it1 n)"
        by (rule Suc.IH [OF t1(1) i1(2) t1(2)])
      from reclaims_snoc [OF this _ s0 order_refl, of e] have "okR (\<lambda>(conn', left). \<exists>xs'. list_all2 reclaims xs xs' \<and>
        tracks conn' (xs' @ ys) \<and> pto_step conn conn' \<and> left \<le> n) (pto_loop fuel env conn it1 n)" unfolding xs by (simp add: reclaims_def)
      then show ?thesis using False i1(1) g True by simp
    next
      case F: False
      have e: "\<not> lost e" "retransmittable e" using F unfolding has_flag_mask by auto
      have frc: "en_frc e \<noteq> []" using t1(1) e(2) by (simp add: tracks_def entry_ok_def)
      have nf: "le_reclaim_frame env NGTCP2_RECLAIM_FLAG_NONE e (lc_rest conn) \<noteq> Fault" using assms(4) e(2) by (simp add: env_ok_def)
      show ?thesis
      proof (cases "le_reclaim_frame env NGTCP2_RECLAIM_FLAG_NONE e (lc_rest conn)")
        case (Ok x)
        obtain q k where x: "x = (q, k)" by force
        let ?rtb = "lc_rtb conn" and ?m = "if k \<noteq> 0 then n - 1 else n"
        define c where "c = conn\<lparr>lc_rest := q, lc_rtb := ?rtb\<lparr>rtb_ents := ksl_it_store ?t it1 (pto_mark e),
          rtb_num_retransmittable := rtb_num_retransmittable ?rtb - 1,
          rtb_num_pto_eliciting := rtb_num_pto_eliciting ?rtb - (if has_flag e NGTCP2_RTB_ENTRY_FLAG_PTO_ELICITING then 1 else 0)\<rparr>\<rparr>"
        note re = reclaim_entry [OF t1(1) i1(2) e, of q, folded c_def]
        have cn: "rtb_num_retransmittable ?rtb \<noteq> 0" "has_flag e NGTCP2_RTB_ENTRY_FLAG_PTO_ELICITING \<longrightarrow> rtb_num_pto_eliciting ?rtb \<noteq> 0"
          using counts_pto(1,2) [of ?rtb xs1 e ys] t1(1) e by (auto simp: tracks_def)
        have fl: "(en_flags e OR 0x08) AND 0x100 \<noteq> 0 \<longleftrightarrow> has_flag e 0x100" by (simp add: has_flag_def bit.conj_disj_distrib2)
        have pm: "e\<lparr>en_flags := (en_flags e OR 0x08) AND NOT 0x100\<rparr> = pto_mark e" "\<not> has_flag e 0x100 \<Longrightarrow> e\<lparr>en_flags := en_flags e OR 0x08\<rparr> = pto_mark e"
          using pto_flags [of "en_flags e OR 0x08"] fl by (auto simp: pto_mark_def)
        have step: "pto_loop (Suc fuel) env conn it n = pto_loop fuel env c it1 ?m"
          using False i1(1) g F frc Ok x cn pm fl unfolding c_def
          by (cases "has_flag e NGTCP2_RTB_ENTRY_FLAG_PTO_ELICITING") (simp_all add: dec_def Let_def)
        have "okR (\<lambda>(conn', left). \<exists>xs'. list_all2 reclaims xs1 xs' \<and> tracks conn' (xs' @ pto_mark e # ys) \<and> pto_step c conn' \<and> left \<le> ?m)
          (pto_loop fuel env c it1 ?m)" by (rule Suc.IH [OF re(1,2) t1(2)])
        then show ?thesis unfolding step xs by (rule reclaims_snoc [OF _ _ re(3)]) (use e in \<open>auto simp: reclaims_def\<close>)
      qed (use False i1(1) g F frc nf in simp_all)
    qed
  qed
qed simp

lemma sorted_wrt_list_all2:
  assumes "sorted_wrt R xs" "list_all2 P xs ys" "\<And>a b a' b'. R a b \<Longrightarrow> P a a' \<Longrightarrow> P b b' \<Longrightarrow> R a' b'"
  shows "sorted_wrt R ys"
  using assms(1,2) unfolding sorted_wrt_iff_nth_less by (metis assms(3) less_trans list_all2_conv_all_nth)

lemma reclaims_same:
  "reclaims e e' \<Longrightarrow> en_pkt_num e' = en_pkt_num e \<and> en_rst e' = en_rst e \<and> lost e' = lost e \<and>
     has_flag e' NGTCP2_RTB_ENTRY_FLAG_ECN = has_flag e NGTCP2_RTB_ENTRY_FLAG_ECN"
  by (auto simp: reclaims_def)

lemma loss_inv_reclaims:
  assumes i: "loss_inv conn es" and r: "list_all2 reclaims es es'" and t: "tracks conn' es'" and s: "pto_step conn conn'"
  shows "loss_inv conn' es'"
proof -
  note inv = i [unfolded loss_inv_def]
  have sc: "same_cc conn conn'" "ecn_state conn' = ecn_state conn" using s by (simp_all add: pto_step_def)
  have "ecn_count conn es' = ecn_count conn es" using r
    by (induction rule: list_all2_induct) (auto simp: ecn_count_def dest: reclaims_same)
  then have "ecn_left conn' (ecn_count conn' es')" using inv by (simp add: ecn_left_state [OF sc(2)])
  moreover have "lost_last es'" using inv unfolding lost_last_def
    by (auto intro: sorted_wrt_list_all2 [OF _ r] dest: reclaims_same)
  moreover have "delivered_ok conn es'"
  proof -
    have "sorted_wrt (\<lambda>a b. sint (rtb_cc_pkt_num (lc_rtb conn)) \<le> pn b \<longrightarrow> er_delivered (en_rst b) \<le> er_delivered (en_rst a)) es'"
      by (rule sorted_wrt_list_all2 [OF _ r]) (use inv in \<open>auto simp: delivered_ok_def dest!: reclaims_same\<close>)
    moreover have "\<forall>e \<in> set es'. sint (rtb_cc_pkt_num (lc_rtb conn)) \<le> pn e \<longrightarrow> er_delivered (en_rst e) \<le> rst_delivered (lc_rst conn)"
      using r inv by (fastforce simp: delivered_ok_def list_all2_conv_all_nth in_set_conv_nth dest: reclaims_same)
    ultimately show ?thesis by (simp add: delivered_ok_def)
  qed
  moreover have "\<forall>e \<in> set es'. lost e \<longrightarrow> pn e \<le> sint (rtb_largest_acked_tx_pkt_num (lc_rtb conn'))"
    using r inv sc(1) by (fastforce simp: same_cc_def list_all2_conv_all_nth in_set_conv_nth dest: reclaims_same)
  ultimately show ?thesis using t delivered_ok_same [OF sc(1)] by (simp add: loss_inv_def)
qed

lemma reclaim_on_pto_ok:
  assumes i: "loss_inv conn es" and env: "env_ok env"
  shows "okR (\<lambda>(conn', k). \<exists>es'. list_all2 reclaims es es' \<and> loss_inv conn' es' \<and> pto_step conn conn' \<and> k \<le> n) (ngtcp2_rtb_reclaim_on_pto env conn n)"
proof -
  have t: "tracks conn es" using i by (simp add: loss_inv_def)
  then have e: "entries (rtb_ents (lc_rtb conn)) es" by (simp add: tracks_def)
  from entries_ends [OF e] obtain it where it: "ngtcp2_ksl_end (rtb_ents (lc_rtb conn)) = Ok it" "ksl_it_at (rtb_ents (lc_rtb conn)) it (length es)" .
  have l: "tracks conn (es @ [])" "length es < ngtcp2_ksl_len (rtb_ents (lc_rtb conn)) + 1" using t entries_len [OF e] by simp_all
  show ?thesis unfolding ngtcp2_rtb_reclaim_on_pto_def it(1) bindR.simps
    by (rule okR_bindI [OF pto_loop_ok [OF l(1) it(2) l(2) env]], clarsimp) (use loss_inv_reclaims [OF i] in blast)
qed

section \<open>Other operations\<close>

lemma early_loop_ok:
  assumes "tracks conn (xs @ ys)" "ksl_it_at (rtb_ents (lc_rtb conn)) it (length xs)" "length ys < fuel"
  shows "\<exists>conn'. early_loop fuel conn it = Ok conn' \<and> tracks conn' (xs @ filter (\<lambda>e. en_type e \<noteq> NGTCP2_PKT_0RTT) ys) \<and> removed conn conn'"
  using assms
proof (induction fuel arbitrary: conn it xs ys)
  case (Suc fuel)
  note p = Suc.prems
  let ?t = "rtb_ents (lc_rtb conn)"
  have e: "entries ?t (xs @ ys)" using p(1) by (simp add: tracks_def)
  note en = entries_end [OF e p(2)]
  show ?case
  proof (cases ys)
    case Nil
    then show ?thesis using en p(1) removed_refl by simp
  next
    case (Cons y ys')
    have e': "entries ?t (xs @ y # ys')" "tracks conn (xs @ y # ys')" "length ys' < fuel" using e p(1,3) Cons by simp_all
    note g = entries_get [OF e'(1) p(2)]
    show ?thesis
    proof (cases "en_type y \<noteq> NGTCP2_PKT_0RTT")
      case True
      have "tracks conn ((xs @ [y]) @ ys')" using e'(2) by simp
      from Suc.IH [OF this g(3) e'(3)] show ?thesis using en g(1) True Cons by auto
    next
      case False
      from rtb_remove_ok [OF e'(2) p(2), of "[]"] obtain c it' where
        r: "rtb_remove conn it y [] = Ok (c, it', [y])" "tracks c (xs @ ys')" "ksl_it_at (rtb_ents (lc_rtb c)) it' (length xs)" "removed conn c" .
      from Suc.IH [OF r(2,3) e'(3)] show ?thesis using en g(1) False Cons r(1) removed_trans [OF r(4)] by auto
    qed
  qed
qed simp

lemma remove_early_data_ok:
  assumes i: "loss_inv conn es"
  shows "\<exists>conn'. ngtcp2_rtb_remove_early_data conn = Ok conn' \<and> loss_inv conn' (filter (\<lambda>e. en_type e \<noteq> NGTCP2_PKT_0RTT) es) \<and> removed conn conn'"
proof -
  have t: "tracks conn ([] @ es)" using i by (simp add: loss_inv_def)
  then have e: "entries (rtb_ents (lc_rtb conn)) es" by (simp add: tracks_def)
  have l: "ksl_it_at (rtb_ents (lc_rtb conn)) (ngtcp2_ksl_begin (rtb_ents (lc_rtb conn))) (length ([] :: ngtcp2_rtb_entry list))"
    "length es < ngtcp2_ksl_len (rtb_ents (lc_rtb conn)) + 1" using entries_begin [OF e] entries_len [OF e] by simp_all
  from early_loop_ok [OF t l] loss_inv_filter [OF i] show ?thesis unfolding ngtcp2_rtb_remove_early_data_def by auto
qed

text \<open>The removal of lost entries at the end of the list.\<close>

lemma loss_inv_drops:
  assumes i: "loss_inv conn (es @ zs)" and d: "drops (lc_rtb conn) es rtb" and z: "\<forall>z \<in> set zs. lost z"
  shows "loss_inv (conn\<lparr>lc_rtb := rtb\<rparr>) es"
proof -
  note inv = i [unfolded loss_inv_def]
  let ?c = "conn\<lparr>lc_rtb := rtb\<rparr>"
  have s: "same_cc conn ?c" using d by (simp add: same_cc_def drops_def)
  have "tracks ?c es" using inv d by (auto simp: tracks_def drops_def)
  moreover have "ecn_left ?c (ecn_count ?c es)" unfolding ecn_count_same [OF s] using inv z by (simp add: ecn_left_def)
  moreover have "delivered_ok ?c es" using inv delivered_ok_prefix delivered_ok_same [OF s] by blast
  moreover have "lost_last es" using inv by (simp add: lost_last_append)
  moreover have "\<forall>e \<in> set es. lost e \<longrightarrow> pn e \<le> sint (rtb_largest_acked_tx_pkt_num (lc_rtb ?c))" using inv d by (auto simp: drops_def)
  ultimately show ?thesis unfolding loss_inv_def by blast
qed

lemma expired_ok:
  assumes i: "loss_inv conn es"
  shows "\<exists>rtb. ngtcp2_rtb_remove_expired_lost_pkt (lc_rtb conn) timeout ts = Ok rtb \<and>
    loss_inv (conn\<lparr>lc_rtb := rtb\<rparr>) (filter (\<lambda>e. \<not> lost e) es @ unexpired timeout ts (filter lost es))"
proof -
  define xs zs where "xs = filter (\<lambda>e. \<not> lost e) es" and "zs = filter lost es"
  have es: "es = xs @ zs" unfolding xs_def zs_def by (rule lost_last_split) (use i in \<open>simp add: loss_inv_def\<close>)
  have i': "loss_inv conn (xs @ zs)" using i unfolding es .
  then have t: "entries (rtb_ents (lc_rtb conn)) (xs @ zs)" "counts (lc_rtb conn) (xs @ zs)" by (simp_all add: loss_inv_def tracks_def)
  have l: "\<forall>x \<in> set xs. \<not> lost x" "\<forall>z \<in> set zs. lost z" by (simp_all add: xs_def zs_def)
  define ws where "ws = rev (takeWhile (\<lambda>e. timeout \<le> ts - en_lost_ts e) (rev zs))"
  have w: "zs = unexpired timeout ts zs @ ws" unfolding ws_def by (metis rev_append rev_rev_ident takeWhile_dropWhile_id)
  have wl: "\<forall>z \<in> set ws. lost z" using l(2) by (auto simp: ws_def dest: set_takeWhileD)
  from remove_expired_ok [OF t l, of timeout ts] obtain rtb where
    r: "ngtcp2_rtb_remove_expired_lost_pkt (lc_rtb conn) timeout ts = Ok rtb" "drops (lc_rtb conn) (xs @ unexpired timeout ts zs) rtb" by blast
  have "loss_inv conn ((xs @ unexpired timeout ts zs) @ ws)" using i' w by (metis append.assoc)
  from loss_inv_drops [OF this r(2) wl] r(1) show ?thesis unfolding xs_def [symmetric] zs_def [symmetric] by blast
qed

text \<open>The state of congestion control starts again at a packet number that has not been used.\<close>

lemma reset_congestion_ok:
  assumes i: "loss_inv conn es" and n: "\<forall>e \<in> set es. pn e \<le> sint m" "sint m < 2 ^ 62" "- 1 \<le> sint m"
  shows "loss_inv (conn_reset_congestion_state env conn m ts) es"
proof -
  note inv = i [unfolded loss_inv_def]
  let ?c = "conn_reset_congestion_state env conn m ts"
  have m: "sint (m + 1) = sint m + 1"
  proof -
    have "m + 1 = word_of_int (sint m + 1)" by simp
    then show ?thesis using sint_of_small [of "sint m + 1"] n(2,3) by (cases "sint m + 1 = 2 ^ 62") (auto simp: signed_of_int)
  qed
  have f: "rtb_ents (lc_rtb ?c) = rtb_ents (lc_rtb conn)" "rtb_cc_pkt_num (lc_rtb ?c) = m + 1" "rtb_cc_bytes_in_flight (lc_rtb ?c) = 0"
    "rtb_largest_acked_tx_pkt_num (lc_rtb ?c) = rtb_largest_acked_tx_pkt_num (lc_rtb conn)" "ecn_state ?c = ecn_state conn"
    "counts (lc_rtb ?c) es \<longleftrightarrow> counts ((lc_rtb conn)\<lparr>rtb_cc_pkt_num := m + 1, rtb_cc_bytes_in_flight := 0\<rparr>) es"
    by (simp_all add: conn_reset_congestion_state_def ngtcp2_rtb_reset_cc_state_def Let_def ecn_state_def call_cc_def split: option.splits)
  have above: "\<forall>e \<in> set es. \<not> sint (m + 1) \<le> pn e" using n(1) m by fastforce
  then have "in_flight (m + 1) es = 0" by (induction es) auto
  then have "tracks ?c es" using inv f by (auto simp: tracks_def counts_def)
  moreover have "delivered_ok ?c es"
  proof -
    have "sorted_wrt (\<lambda>a b. sint (m + 1) \<le> pn b \<longrightarrow> er_delivered (en_rst b) \<le> er_delivered (en_rst a)) es"
      using above by (induction es) auto
    then show ?thesis unfolding delivered_ok_def f(2) using above by blast
  qed
  ultimately show ?thesis using inv f(4) ecn_left_state [OF f(5)] by (simp add: loss_inv_def)
qed

definition retry_frame :: "'c loss_conn \<Rightarrow> 'c loss_conn \<Rightarrow> bool" where
  "retry_frame conn conn' \<longleftrightarrow> same_cc conn conn' \<and> ecn_state conn' = ecn_state conn"

lemma retry_loop_ok:
  assumes "tracks conn es" "ksl_it_at (rtb_ents (lc_rtb conn)) it 0" "length es < fuel" "env_ok env"
    "\<forall>e \<in> set es. \<not> lost e \<and> \<not> has_flag e NGTCP2_RTB_ENTRY_FLAG_PROBE \<and> \<not> has_flag e NGTCP2_RTB_ENTRY_FLAG_PMTUD_PROBE"
  shows "okR (\<lambda>conn'. tracks conn' [] \<and> retry_frame conn conn') (retry_loop fuel env conn it)"
  using assms(1-3,5)
proof (induction fuel arbitrary: conn it es)
  case (Suc fuel)
  note p = Suc.prems
  let ?t = "rtb_ents (lc_rtb conn)"
  have e: "entries ?t ([] @ es)" "ksl_it_at ?t it (length ([] :: ngtcp2_rtb_entry list))" using p(1,2) by (simp_all add: tracks_def)
  note en = entries_end [OF e]
  show ?case
  proof (cases es)
    case Nil
    then show ?thesis using en p(1) by (simp add: retry_frame_def same_cc_def)
  next
    case (Cons y ys)
    have e': "entries ?t ([] @ y # ys)" "tracks conn ([] @ y # ys)" using e p(1) Cons by simp_all
    note g = entries_get [OF e'(1) e(2)]
    from rtb_remove_ok [OF e'(2) e(2), of "[]"] obtain c it' where
      r: "rtb_remove conn it y [] = Ok (c, it', [y])" "tracks c ([] @ ys)" "ksl_it_at (rtb_ents (lc_rtb c)) it' 0" "removed conn c" by auto
    have y: "\<not> lost y" "\<not> has_flag y NGTCP2_RTB_ENTRY_FLAG_PROBE" "\<not> has_flag y NGTCP2_RTB_ENTRY_FLAG_PMTUD_PROBE" using p(4) Cons by auto
    have "filter lost ys = []" "filter (\<lambda>e. lost e \<and> ignored e) ys = []" using p(4) Cons by (auto simp: filter_empty_conv)
    then have z: "rtb_num_lost_pkts (lc_rtb c) = 0" "rtb_num_lost_ignore_pkts (lc_rtb c) = 0" using r(2) by (simp_all add: tracks_def counts_def)
    have fr: "retry_frame conn (c\<lparr>lc_rest := q\<rparr>)" for q using r(4) by (auto simp: retry_frame_def removed_def same_cc_def ecn_state_def)
    have IH: "okR (\<lambda>conn'. tracks conn' [] \<and> retry_frame conn conn') (retry_loop fuel env (c\<lparr>lc_rest := q\<rparr>) it')" for q
      by (rule okR_mono [OF Suc.IH [of "c\<lparr>lc_rest := q\<rparr>" ys it']])
        (use r(2,3) p(3,4) Cons fr [of q] in \<open>auto simp: tracks_def retry_frame_def same_cc_def\<close>)
    have IH0: "okR (\<lambda>conn'. tracks conn' [] \<and> retry_frame conn conn') (retry_loop fuel env c it')" using IH [of "lc_rest c"] by simp
    have "le_reclaim_frame_on_retry env y (lc_rest c) \<noteq> Fault" using assms(4) by (simp add: env_ok_def)
    then have rc: "okR (\<lambda>_. True) (le_reclaim_frame_on_retry env y (lc_rest c))" by (simp add: okR_def split: res.splits)
    show ?thesis using en g(1) Cons r(1) y z IH0 by (auto intro!: okR_bindI [OF rc] IH)
  qed
qed simp

lemma reclaim_on_retry_ok:
  fixes conn :: "'c loss_conn"
  assumes i: "loss_inv conn es" and env: "env_ok env"
    and n: "\<forall>e \<in> set es. \<not> lost e \<and> \<not> has_flag e NGTCP2_RTB_ENTRY_FLAG_PROBE \<and> \<not> has_flag e NGTCP2_RTB_ENTRY_FLAG_PMTUD_PROBE"
  shows "okR (\<lambda>conn'. loss_inv conn' []) (ngtcp2_rtb_reclaim_on_retry env conn)"
proof -
  have t: "tracks conn es" using i by (simp add: loss_inv_def)
  then have e: "entries (rtb_ents (lc_rtb conn)) es" by (simp add: tracks_def)
  have l: "length es < ngtcp2_ksl_len (rtb_ents (lc_rtb conn)) + 1" using entries_len [OF e] by simp
  have "ecn_left c 0" if "ecn_state c = ecn_state conn" for c :: "'c loss_conn"
    using i ecn_left_mono [of conn "ecn_count conn es" 0] ecn_left_state(1) [OF that] by (simp add: loss_inv_def)
  then have "loss_inv c []" if "tracks c []" "retry_frame conn c" for c :: "'c loss_conn"
    using that by (simp add: loss_inv_def retry_frame_def lost_last_def delivered_ok_def)
  then show ?thesis unfolding ngtcp2_rtb_reclaim_on_retry_def
    by (intro okR_mono [OF retry_loop_ok [OF t entries_begin [OF e] l env n]]) blast
qed


section \<open>Runs\<close>

definition flight :: "'c loss_conn \<Rightarrow> ngtcp2_rtb_entry list" where
  "flight conn = map snd (ksl_elems (rtb_ents (lc_rtb conn)))"

lemma flight_eq: "loss_inv conn es \<Longrightarrow> flight conn = es"
  by (simp add: loss_inv_def tracks_def entries_def flight_def comp_def)

text \<open>
  What the comments of \<open>ngtcp2_rtb_reclaim_on_retry\<close> say of a Retry packet: none of the packets in flight was sent before one that has been
  acknowledged, and neither probes of the probe timer nor probes of path MTU discovery are in flight.
\<close>

definition retry_ready :: "'c loss_conn \<Rightarrow> bool" where
  "retry_ready conn \<longleftrightarrow> (\<forall>e \<in> set (flight conn). sint (rtb_largest_acked_tx_pkt_num (lc_rtb conn)) < pn e \<and>
     \<not> has_flag e NGTCP2_RTB_ENTRY_FLAG_PROBE \<and> \<not> has_flag e NGTCP2_RTB_ENTRY_FLAG_PMTUD_PROBE)"

lemma retry_ready_ok:
  fixes conn :: "'c loss_conn"
  assumes i: "loss_inv conn (flight conn)" and "env_ok env" "retry_ready conn"
  shows "okR (\<lambda>conn'. loss_inv conn' []) (ngtcp2_rtb_reclaim_on_retry env conn)"
proof -
  have "\<forall>e \<in> set (flight conn). lost e \<longrightarrow> pn e \<le> sint (rtb_largest_acked_tx_pkt_num (lc_rtb conn))" using i by (simp add: loss_inv_def)
  then have "\<forall>e \<in> set (flight conn). \<not> lost e \<and> \<not> has_flag e NGTCP2_RTB_ENTRY_FLAG_PROBE \<and> \<not> has_flag e NGTCP2_RTB_ENTRY_FLAG_PMTUD_PROBE"
    using assms(3) by (fastforce simp: retry_ready_def)
  then show ?thesis by (rule reclaim_on_retry_ok [OF assms(1,2)])
qed

text \<open>
  The states of a packet number space that the operations reach. A packet is sent with a number that is larger than those before; a frame has been
  decoded and validated; a path is new at a number that is larger than those in flight; a Retry packet comes before any acknowledgement.
\<close>

inductive loss_reach :: "'c loss_env \<Rightarrow> 'c loss_conn \<Rightarrow> bool" for env where
  Init: "lc_rtb conn = ngtcp2_rtb_init cc \<Longrightarrow> lc_rst conn = ngtcp2_rst_init \<Longrightarrow> loss_reach env (conn_reset_ecn_validation_state conn)"
| Send: "loss_reach env conn \<Longrightarrow> sendable conn (flight conn) phd frc flags \<Longrightarrow> send_pkt env ok al conn ecn phd frc pktlen flags ts = Ok conn' \<Longrightarrow>
    loss_reach env conn'"
| Recv_ack: "loss_reach env conn \<Longrightarrow> 0 < cs_max_tx_udp_payload_size (lc_cstat conn) \<Longrightarrow> ack_decoded fr \<Longrightarrow> ngtcp2_pkt_validate_ack fr m = Ok () \<Longrightarrow>
    ngtcp2_rtb_recv_ack env conn fr pkt_ts ts = Ok (conn', num) \<Longrightarrow> loss_reach env conn'"
| Detect: "loss_reach env conn \<Longrightarrow> 0 < cs_max_tx_udp_payload_size (lc_cstat conn) \<Longrightarrow> ngtcp2_rtb_detect_lost_pkt env conn ts = Ok conn' \<Longrightarrow>
    loss_reach env conn'"
| Pto: "loss_reach env conn \<Longrightarrow> ngtcp2_rtb_reclaim_on_pto env conn n = Ok (conn', k) \<Longrightarrow> loss_reach env conn'"
| Expire: "loss_reach env conn \<Longrightarrow> ngtcp2_rtb_remove_expired_lost_pkt (lc_rtb conn) timeout ts = Ok rtb \<Longrightarrow> loss_reach env (conn\<lparr>lc_rtb := rtb\<rparr>)"
| Early: "loss_reach env conn \<Longrightarrow> ngtcp2_rtb_remove_early_data conn = Ok conn' \<Longrightarrow> loss_reach env conn'"
| New_path: "loss_reach env conn \<Longrightarrow> \<forall>e \<in> set (flight conn). pn e \<le> sint m \<Longrightarrow> sint m < 2 ^ 62 \<Longrightarrow> - 1 \<le> sint m \<Longrightarrow>
    loss_reach env (conn_reset_congestion_state env conn m ts)"
| Reset_ecn: "loss_reach env conn \<Longrightarrow> \<forall>e \<in> set (flight conn). pn e < 2 ^ 62 \<Longrightarrow> loss_reach env (conn_reset_ecn_validation_state conn)"
| Retry: "loss_reach env conn \<Longrightarrow> retry_ready conn \<Longrightarrow> ngtcp2_rtb_reclaim_on_retry env conn = Ok conn' \<Longrightarrow> loss_reach env conn'"

lemma reset_ecn_ok:
  assumes "loss_inv conn es" "\<forall>e \<in> set es. pn e < 2 ^ 62"
  shows "loss_inv (conn_reset_ecn_validation_state conn) es"
proof -
  let ?c = "conn_reset_ecn_validation_state conn"
  have "ecn_count ?c es = 0" using assms(2) by (auto simp: ecn_count_def filter_empty_conv conn_reset_ecn_validation_state_def)
  then have "ecn_left ?c (ecn_count ?c es)" by (simp add: ecn_left_def conn_reset_ecn_validation_state_def)
  moreover have "tracks ?c es" "delivered_ok ?c es" "lc_rtb ?c = lc_rtb conn" using assms(1)
    by (simp_all add: loss_inv_def tracks_def delivered_ok_def conn_reset_ecn_validation_state_def)
  ultimately show ?thesis using assms(1) by (simp add: loss_inv_def)
qed

lemma loss_reach_inv:
  assumes "loss_reach env conn" "env_ok env"
  shows "loss_inv conn (flight conn)"
  using assms(1)
proof induction
  case (Init conn cc)
  let ?c = "conn_reset_ecn_validation_state conn"
  have f: "lc_rtb ?c = ngtcp2_rtb_init cc" "ecn_left ?c 0" using Init by (simp_all add: conn_reset_ecn_validation_state_def ecn_left_def)
  have "ksl_ok i64_greater (ngtcp2_ksl_init :: rtb_ents)" "ksl_elems (ngtcp2_ksl_init :: rtb_ents) = []" using ksl_init_ok by auto
  then have "loss_inv ?c []" using f
    by (simp add: loss_inv_def tracks_def entries_def counts_def ngtcp2_rtb_init_def lost_last_def delivered_ok_def)
  then show ?case using flight_eq [of ?c "[]"] by simp
next
  case (Send conn phd frc flags ok al ecn pktlen ts conn')
  then obtain e where "loss_inv conn' (e # flight conn)" using send_pkt_ok [OF Send.IH Send.hyps(2), of env ok al ecn pktlen ts] by auto
  then show ?case using flight_eq by metis
next
  case (Recv_ack conn fr m pkt_ts ts conn' num)
  have "ack_result fr ts conn (flight conn) conn' num"
    using recv_ack_ok [OF Recv_ack.IH assms(2) Recv_ack.hyps(2,3,4), of pkt_ts ts] Recv_ack.hyps(5) by (auto split: if_splits)
  then obtain es where "loss_inv conn' es" by (auto simp: ack_result_def Let_def split: if_splits)
  then show ?case using flight_eq by metis
next
  case (Detect conn ts conn')
  obtain x where x: "rtb_detect_lost_pkt env conn cc_ack0 ts = Ok (conn', x)" using Detect.hyps(3) by (auto simp: ngtcp2_rtb_detect_lost_pkt_def bindR_eq_Ok)
  have "loss_inv conn' (after_detection conn ts (flight conn))"
    using rtb_detect_lost_pkt_ok [OF Detect.IH assms(2), of ts cc_ack0] Detect.hyps(2) x by simp
  then show ?case using flight_eq by metis
next
  case (Pto conn n conn' k)
  then obtain es where "loss_inv conn' es" using reclaim_on_pto_ok [OF Pto.IH assms(2), of n] by auto
  then show ?case using flight_eq by metis
next
  case (Expire conn timeout ts rtb)
  then obtain es where "loss_inv (conn\<lparr>lc_rtb := rtb\<rparr>) es" using expired_ok [OF Expire.IH, of timeout ts] by auto
  then show ?case using flight_eq by metis
next
  case (Early conn conn')
  then obtain es where "loss_inv conn' es" using remove_early_data_ok [OF Early.IH] by auto
  then show ?case using flight_eq by metis
next
  case (New_path conn m ts)
  from reset_congestion_ok [OF New_path.IH New_path.hyps(2-4), of env ts] show ?case using flight_eq by metis
next
  case (Reset_ecn conn)
  from reset_ecn_ok [OF Reset_ecn.IH Reset_ecn.hyps(2)] show ?case using flight_eq by metis
next
  case (Retry conn conn')
  then have "loss_inv conn' []" using retry_ready_ok [OF Retry.IH assms(2) Retry.hyps(2)] by simp
  then show ?case using flight_eq by metis
qed

section \<open>Properties\<close>

text \<open>
  C16: In every state that the operations reach, the counters of \<open>ngtcp2_rtb\<close> are those of its entries: lost packets, lost packets that are
  ignored, and among the others those that elicit acknowledgements, can be retransmitted or keep the probe timer; \<open>cc_bytes_in_flight\<close> is the number
  of bytes of the packets in flight, and \<open>bytes_in_flight\<close> of the connection is not less. The entries are in descending order of the packet numbers,
  those that are lost come last, and each of them is older than a packet that was acknowledged.
\<close>

theorem loss_counters:
  assumes "loss_reach env conn" "env_ok env"
  shows "counts (lc_rtb conn) (flight conn) \<and> rtb_cc_bytes_in_flight (lc_rtb conn) \<le> cs_bytes_in_flight (lc_cstat conn) \<and>
    sorted_wrt (\<lambda>a b. pn b < pn a) (flight conn) \<and>
    (\<exists>xs zs. flight conn = xs @ zs \<and> (\<forall>x \<in> set xs. \<not> lost x) \<and>
      (\<forall>z \<in> set zs. lost z \<and> pn z \<le> sint (rtb_largest_acked_tx_pkt_num (lc_rtb conn))))"
proof -
  note i = loss_reach_inv [OF assms]
  then have e: "entries (rtb_ents (lc_rtb conn)) (flight conn)" by (simp add: loss_inv_def tracks_def)
  have "flight conn = filter (\<lambda>e. \<not> lost e) (flight conn) @ filter lost (flight conn)" by (rule lost_last_split) (use i in \<open>simp add: loss_inv_def\<close>)
  moreover have "\<forall>z \<in> set (filter lost (flight conn)). lost z \<and> pn z \<le> sint (rtb_largest_acked_tx_pkt_num (lc_rtb conn))" using i by (auto simp: loss_inv_def)
  moreover have "\<forall>x \<in> set (filter (\<lambda>e. \<not> lost e) (flight conn)). \<not> lost x" by simp
  ultimately show ?thesis using i entries_sorted [OF e] unfolding loss_inv_def tracks_def by blast
qed


lemma loss_inv_counts: "loss_inv conn es \<Longrightarrow> counts (lc_rtb conn) es"
  by (simp add: loss_inv_def tracks_def)

text \<open>
  C14: \<open>ngtcp2_rtb_recv_ack\<close> on a validated frame. When the frame covers a packet number that was skipped, it fails with \<open>NGTCP2_ERR_PROTO\<close>.
  Otherwise it fails only with an error of a parameter, or no packet that the frame covers is in flight any more; the result is the number of those that count for congestion control; the largest acknowledged
  packet number is the larger one of both; and the other packets stay as they are, unless packets counted: then they are those that loss detection leaves
  of them, with the largest acknowledged packet number and the payload size of the new state, its round trip times too unless persistent congestion
  has reset them, and the bytes in flight of the packets that the frame leaves.
\<close>

theorem recv_ack_exact:
  fixes conn :: "'c loss_conn"
  assumes "loss_reach env conn" "env_ok env" "0 < cs_max_tx_udp_payload_size (lc_cstat conn)" "ack_decoded fr" "ngtcp2_pkt_validate_ack fr m = Ok ()"
  shows "if \<exists>e \<in> set (flight conn). acks_pkt fr (pn e) \<and> skip e then ngtcp2_rtb_recv_ack env conn fr pkt_ts ts = Err NGTCP2_ERR_PROTO
    else okR (\<lambda>(conn', num).
        num = length (filter (\<lambda>e. acks_pkt fr (pn e) \<and> sint (rtb_cc_pkt_num (lc_rtb conn)) \<le> pn e) (flight conn)) \<and>
        sint (rtb_largest_acked_tx_pkt_num (lc_rtb conn')) = max (sint (rtb_largest_acked_tx_pkt_num (lc_rtb conn))) (sint (ack_largest_ack fr)) \<and>
        (let left = filter (\<lambda>e. \<not> acks_pkt fr (pn e)) (flight conn) in
         if num = 0 then flight conn' = left
         else \<exists>c :: 'c loss_conn. rtb_largest_acked_tx_pkt_num (lc_rtb c) = rtb_largest_acked_tx_pkt_num (lc_rtb conn') \<and>
           same_detection c conn' \<and>
           flight c = left \<and> counts (lc_rtb c) left \<and> flight conn' = after_detection c ts left))
      (ngtcp2_rtb_recv_ack env conn fr pkt_ts ts)"
proof -
  note i = loss_reach_inv [OF assms(1,2)]
  show ?thesis
  proof (cases "\<exists>e \<in> set (flight conn). acks_pkt fr (pn e) \<and> skip e")
    case True
    then show ?thesis using recv_ack_ok [OF i assms(2-5), of pkt_ts ts] by simp
  next
    case False
    then have "okR (\<lambda>(conn', num). ack_result fr ts conn (flight conn) conn' num) (ngtcp2_rtb_recv_ack env conn fr pkt_ts ts)"
      using recv_ack_ok [OF i assms(2-5), of pkt_ts ts] by (simp split: if_splits)
    then show ?thesis unfolding if_not_P [OF False]
      by (rule okR_mono)
        (fastforce simp: ack_result_def Let_def dest: flight_eq loss_inv_counts split: if_splits)
  qed
qed

lemma elapsed_older:
  assumes "ngtcp2_tstamp_elapsed t d ts" "t' \<le> t"
  shows "ngtcp2_tstamp_elapsed t' d ts"
proof -
  have e: "UINT64_MAX = - 1" by simp
  have "d \<le> UINT64_MAX" unfolding e by (rule word_n1_ge)
  then have m: "unat (UINT64_MAX - d) = 18446744073709551615 - unat d" by (subst unat_sub) simp_all
  have t: "unat t < 18446744073709551615 - unat d" "unat t' \<le> unat t" "t + d \<le> ts" using assms m
    by (simp_all add: ngtcp2_tstamp_elapsed_def word_less_nat_alt word_le_nat_alt)
  have s: "unat (x + d) = unat x + unat d" if "unat x < 18446744073709551615 - unat d" for x using that by (simp add: unat_word_ariths)
  have "t' + d \<le> t + d" using s [of t] s [of t'] t(1,2) by (simp add: word_le_nat_alt)
  moreover have "t' < UINT64_MAX - d" using t(1,2) m by (simp add: word_less_nat_alt)
  moreover have "t' \<noteq> UINT64_MAX" using t(1,2) by auto
  ultimately show ?thesis using t(3) by (simp add: ngtcp2_tstamp_elapsed_def)
qed

lemma dropWhile_filter:
  assumes "sorted_wrt (\<lambda>a b. \<not> P a \<longrightarrow> \<not> P b) xs"
  shows "takeWhile P xs = filter P xs" "dropWhile P xs = filter (\<lambda>x. \<not> P x) xs"
proof -
  have "takeWhile P xs = filter P xs \<and> dropWhile P xs = filter (\<lambda>x. \<not> P x) xs" using assms
  proof (induction xs)
    case (Cons x xs)
    then have "P x \<or> filter P xs = [] \<and> filter (\<lambda>x. \<not> P x) xs = xs" by (auto simp: filter_empty_conv filter_id_conv)
    with Cons show ?case by auto
  qed simp
  then show "takeWhile P xs = filter P xs" "dropWhile P xs = filter (\<lambda>x. \<not> P x) xs" by auto
qed

lemma overdue_older:
  assumes "en_ts b \<le> en_ts a" "pn b \<le> pn a" "overdue l d n ts a"
  shows "overdue l d n ts b"
  using assms elapsed_older unfolding overdue_def by fastforce

lemma sorted_wrt_both:
  assumes "sorted_wrt P xs" "sorted_wrt Q xs"
  shows "sorted_wrt (\<lambda>a b. P a b \<and> Q a b) xs"
  using assms by (induction xs) auto

text \<open>
  C15: Unless a parameter returns an error, \<open>ngtcp2_rtb_detect_lost_pkt\<close> declares lost exactly the packets in flight that are not newer than an acknowledged one and are overdue: sent
  9/8 of the larger one of the last and the smoothed round trip time ago (at least a millisecond), or \<open>pkt_thres\<close> packets before the largest
  acknowledged one, where \<open>pkt_thres\<close> is half the number of packets in flight, between 3 and 256. They are marked, and of all lost packets the
  newest \<open>pkt_thres\<close> are kept. The timer is set to the earliest time at which one of the other packets that are older than an acknowledged one is
  overdue. This holds for packets that were sent in the order of their numbers.
\<close>

theorem detect_lost_exact:
  fixes conn :: "'c loss_conn" and ts :: u64
  assumes "loss_reach env conn" "env_ok env" "0 < cs_max_tx_udp_payload_size (lc_cstat conn)"
    and order: "sorted_wrt (\<lambda>a b. en_ts b \<le> en_ts a) (flight conn)"
  defines "largest \<equiv> rtb_largest_acked_tx_pkt_num (lc_rtb conn)"
  defines "delay \<equiv> compute_pkt_loss_delay (lc_cstat conn)"
  defines "thres \<equiv> min (max (rtb_cc_bytes_in_flight (lc_rtb conn) div cs_max_tx_udp_payload_size (lc_cstat conn) div 2) 3) 256"
  defines "declared \<equiv> \<lambda>e. \<not> lost e \<and> pn e \<le> sint largest \<and> overdue largest delay thres ts e"
  shows "okR (\<lambda>conn'. flight conn' = filter (\<lambda>e. \<not> lost e \<and> \<not> declared e) (flight conn) @
        take thres (map (mark ts) (filter declared (flight conn)) @ filter lost (flight conn)) \<and>
      cs_loss_time (lc_cstat conn') =
        earliest delay UINT64_MAX (filter (\<lambda>e. \<not> lost e \<and> pn e \<le> sint largest \<and> \<not> declared e) (flight conn)))
    (ngtcp2_rtb_detect_lost_pkt env conn ts)"
proof -
  note i = loss_reach_inv [OF assms(1,2)]
  then have e: "entries (rtb_ents (lc_rtb conn)) (flight conn)"
    and old: "\<forall>e \<in> set (flight conn). lost e \<longrightarrow> pn e \<le> sint largest" by (simp_all add: loss_inv_def tracks_def largest_def)
  let ?fs = "flight conn" and ?P = "on_time conn ts"
  have P: "?P e \<longleftrightarrow> \<not> overdue largest delay thres ts e" for e by (simp add: on_time_def loss_thres_def largest_def delay_def thres_def)
  have srt: "sorted_wrt (\<lambda>a b. pn b < pn a) ?fs" by (rule entries_sorted [OF e])
  have "sorted_wrt (\<lambda>a b. \<not> ?P a \<longrightarrow> \<not> ?P b) (candidates conn ?fs)"
    unfolding candidates_def P
    by (rule sorted_wrt_filter, rule sorted_wrt_mono_rel [OF _ sorted_wrt_both [OF order srt]]) (use overdue_older in fastforce)
  note dw = dropWhile_filter [OF this]
  have c: "filter ?P (candidates conn ?fs) = filter (\<lambda>e. \<not> lost e \<and> pn e \<le> sint largest \<and> \<not> declared e) ?fs"
    "filter (\<lambda>e. \<not> ?P e) (candidates conn ?fs) = filter declared ?fs"
    unfolding candidates_def filter_filter P by (rule filter_cong; auto simp: declared_def largest_def)+
  have nw: "newer conn ?fs = filter (\<lambda>e. \<not> lost e \<and> \<not> pn e \<le> sint largest) ?fs"
    unfolding newer_def by (rule filter_cong) (use old in \<open>auto simp: largest_def\<close>)
  have "filter (\<lambda>e. \<not> lost e \<and> \<not> declared e) ?fs =
      filter (\<lambda>e. (\<not> lost e \<and> \<not> pn e \<le> sint largest) \<or> (\<not> lost e \<and> pn e \<le> sint largest \<and> \<not> declared e)) ?fs"
    by (rule filter_cong) (auto simp: declared_def)
  also have "\<dots> = newer conn ?fs @ filter ?P (candidates conn ?fs)"
    unfolding nw c(1) by (rule filter_disjoint [OF srt, of _ "sint largest + 1"]) auto
  finally have n: "newer conn ?fs @ filter ?P (candidates conn ?fs) = filter (\<lambda>e. \<not> lost e \<and> \<not> declared e) ?fs" by simp
  have th: "loss_thres conn = thres" by (simp add: loss_thres_def thres_def)
  have a: "after_detection conn ts ?fs = filter (\<lambda>e. \<not> lost e \<and> \<not> declared e) ?fs @
      take thres (map (mark ts) (filter declared ?fs) @ filter lost ?fs)"
    unfolding after_detection_def dw th n [symmetric] c(2) by simp
  have "cs_max_tx_udp_payload_size (lc_cstat conn) \<noteq> 0" using assms(3) by simp
  note d = rtb_detect_lost_pkt_ok [OF i assms(2) this, of ts cc_ack0, unfolded a dw c(1), folded delay_def]
  show ?thesis unfolding ngtcp2_rtb_detect_lost_pkt_def
    by (rule okR_bindI [OF d]) (auto dest: flight_eq)
qed

section \<open>An example\<close>

text \<open>
  The packets 0, 3 and 4 of 3 bytes. The acknowledgement of the last one declares the first one lost, which was sent 3 packets or more before it.
  Packet 3 is lost 2 milliseconds later.
\<close>

definition loss_env0 :: "unit loss_env" where
  "loss_env0 = \<lparr>le_application = True, le_handshake_confirmed = True, le_transport_max_ack_delay = Some 25000000, le_handshake_confirmed_ts = 0,
     le_initial_rtt = 333000000, le_other_ecn_pkt_lost = True, le_on_pkt_lost = None, le_on_pkt_acked = None, le_congestion_event = None,
     le_on_persistent_congestion = None, le_on_spurious_congestion = None, le_on_ack_recv = None, le_lost_datagram = None,
     le_reclaim_frame = (\<lambda>_ _ _. Ok ((), 1)), le_reclaim_frame_on_retry = (\<lambda>_. Ok), le_process_acked_pkt = (\<lambda>_ n _. Ok ((), n)),
     le_cc_reset = None, le_path_max_tx_udp_payload_size = 10, le_confirm_key_update = (\<lambda>_ _ r. r)\<rparr>"

definition loss_conn0 :: "unit loss_conn" where
  "loss_conn0 = \<lparr>lc_rtb = ngtcp2_rtb_init 0, lc_rst = ngtcp2_rst_init,
     lc_cstat = \<lparr>cs_latest_rtt = 0, cs_min_rtt = UINT64_MAX, cs_smoothed_rtt = 333000000, cs_rttvar = 166500000, cs_first_rtt_sample_ts = UINT64_MAX,
       cs_pto_count = 0, cs_loss_time = UINT64_MAX, cs_max_tx_udp_payload_size = 10, cs_bytes_in_flight = 0, cs_pkt_lost = 0, cs_bytes_lost = 0,
       cs_delivery_rate_sec = 0\<rparr>,
     lc_ecn_state = NGTCP2_ECN_STATE_TESTING, lc_ecn_validation_start_ts = UINT64_MAX, lc_ecn_dgram_sent = 0, lc_ecn_start_pkt_num = INT64_MAX,
     lc_ecn_validation_pkt_sent = 0, lc_ecn_validation_pkt_lost = 0, lc_ecn_ect0_sent = 0, lc_ecn_ack_ect0 = 0, lc_ecn_ack_ect1 = 0, lc_ecn_ack_ce = 0,
     lc_rest = ()\<rparr>"

definition loss_hd :: "i64 \<Rightarrow> ngtcp2_pkt_hd" where
  "loss_hd n = \<lparr>hd_dcid = [], hd_scid = [], hd_pkt_num = n, hd_token = [], hd_pkt_numlen = 4, hd_len = 0, hd_version = 1, hd_type = 0x40, hd_flags = 0\<rparr>"

fun send_all :: "(i64 \<times> u64) list \<Rightarrow> unit loss_conn \<Rightarrow> unit loss_conn res" where
  "send_all [] conn = Ok conn"
| "send_all ((n, ts) # ps) conn =
     assertR (sendable conn (flight conn) (loss_hd n) [Fr_ping \<lparr>ping_type = 1\<rparr>] 0x106)
    (bindR (send_pkt loss_env0 True [] conn NGTCP2_ECN_NOT_ECT (loss_hd n) [Fr_ping \<lparr>ping_type = 1\<rparr>] 3 0x106 ts) (send_all ps))"

lemma send_all_reach: "loss_reach loss_env0 conn \<Longrightarrow> send_all ps conn = Ok conn' \<Longrightarrow> loss_reach loss_env0 conn'"
  by (induction ps conn rule: send_all.induct) (auto simp: assertR_def bindR_eq_Ok split: if_splits intro: loss_reach.Send)

definition loss_sent :: "unit loss_conn res" where
  "loss_sent = send_all [(0, 1), (3, 1), (4, 1)] (conn_reset_ecn_validation_state loss_conn0)"

definition loss_ack :: ngtcp2_ack where
  "loss_ack = empty_ack\<lparr>ack_type := NGTCP2_FRAME_ACK, ack_largest_ack := 4\<rparr>"

lemma loss_sent_run:
  "(case loss_sent of Ok conn \<Rightarrow> map pn (flight conn) = [4, 3, 0] \<and> list_all (\<lambda>e. \<not> skip e) (flight conn) \<and>
     cs_max_tx_udp_payload_size (lc_cstat conn) = 10 \<and> rtb_cc_pkt_num (lc_rtb conn) = 0 \<and> retry_ready conn | _ \<Rightarrow> False)"
  unfolding loss_sent_def by code_simp

lemma loss_ack_run:
  "(case bindR loss_sent (\<lambda>conn. ngtcp2_rtb_recv_ack loss_env0 conn loss_ack 1 1) of Ok (conn, num) \<Rightarrow>
     num = 1 \<and> map pn (flight conn) = [3, 0] \<and> map lost (flight conn) = [False, True] \<and> map en_ts (flight conn) = [1, 1] \<and>
     cs_max_tx_udp_payload_size (lc_cstat conn) = 10 | _ \<Rightarrow> False)"
  unfolding loss_sent_def loss_ack_def by code_simp

lemma loss_detect_run:
  "(case bindR loss_sent (\<lambda>conn. bindR (ngtcp2_rtb_recv_ack loss_env0 conn loss_ack 1 1) (\<lambda>(conn, _).
      ngtcp2_rtb_detect_lost_pkt loss_env0 conn 2000001)) of Ok conn \<Rightarrow> map pn (flight conn) = [3, 0] \<and> map lost (flight conn) = [True, True]
    | _ \<Rightarrow> False)"
  unfolding loss_sent_def loss_ack_def by code_simp

lemma loss_env0_ok: "env_ok loss_env0"
  by (simp add: env_ok_def loss_env0_def)

lemma loss_ack_valid: "ack_decoded loss_ack" "ngtcp2_pkt_validate_ack loss_ack 0 = Ok ()"
  by code_simp+

lemma loss_sent_reach:
  obtains conn where "loss_sent = Ok conn" "loss_reach loss_env0 conn" "map pn (flight conn) = [4, 3, 0]" "\<forall>e \<in> set (flight conn). \<not> skip e"
    "cs_max_tx_udp_payload_size (lc_cstat conn) = 10" "rtb_cc_pkt_num (lc_rtb conn) = 0" "retry_ready conn"
proof -
  from loss_sent_run obtain conn where c: "loss_sent = Ok conn" "map pn (flight conn) = [4, 3, 0]" "\<forall>e \<in> set (flight conn). \<not> skip e"
    "cs_max_tx_udp_payload_size (lc_cstat conn) = 10" "rtb_cc_pkt_num (lc_rtb conn) = 0" "retry_ready conn" by (auto simp: list_all_iff split: res.splits)
  have "loss_reach loss_env0 (conn_reset_ecn_validation_state loss_conn0)"
    by (rule loss_reach.Init [of _ 0]) (simp_all add: loss_conn0_def)
  then have "loss_reach loss_env0 conn" by (rule send_all_reach) (use c(1) in \<open>unfold loss_sent_def\<close>)
  then show thesis by (rule that [OF c(1) _ c(2-6)])
qed

lemma loss_ack_reach:
  obtains conn conn' where "loss_sent = Ok conn" "ngtcp2_rtb_recv_ack loss_env0 conn loss_ack 1 1 = Ok (conn', 1)" "loss_reach loss_env0 conn'"
    "map pn (flight conn') = [3, 0]" "map lost (flight conn') = [False, True]" "map en_ts (flight conn') = [1, 1]"
    "cs_max_tx_udp_payload_size (lc_cstat conn') = 10" "loss_reach loss_env0 conn" "map pn (flight conn) = [4, 3, 0]"
    "\<forall>e \<in> set (flight conn). \<not> skip e" "cs_max_tx_udp_payload_size (lc_cstat conn) = 10"
proof -
  obtain conn where c: "loss_sent = Ok conn" "loss_reach loss_env0 conn" "map pn (flight conn) = [4, 3, 0]" "\<forall>e \<in> set (flight conn). \<not> skip e"
    "cs_max_tx_udp_payload_size (lc_cstat conn) = 10" by (rule loss_sent_reach)
  from loss_ack_run obtain conn' where d: "ngtcp2_rtb_recv_ack loss_env0 conn loss_ack 1 1 = Ok (conn', 1)" "map pn (flight conn') = [3, 0]"
    "map lost (flight conn') = [False, True]" "map en_ts (flight conn') = [1, 1]" "cs_max_tx_udp_payload_size (lc_cstat conn') = 10"
    unfolding c(1) bindR.simps by (auto split: res.splits)
  have "loss_reach loss_env0 conn'" by (rule loss_reach.Recv_ack [OF c(2) _ loss_ack_valid d(1)]) (simp add: c(5))
  then show thesis by (rule that [OF c(1) d(1) _ d(2-5) c(2-5)])
qed

theorem loss_counters_witness:
  "\<exists>conn. loss_reach loss_env0 conn \<and> env_ok loss_env0 \<and> map pn (flight conn) = [3, 0] \<and> map lost (flight conn) = [False, True] \<and>
     rtb_num_lost_pkts (lc_rtb conn) = 1 \<and> rtb_cc_bytes_in_flight (lc_rtb conn) \<le> cs_bytes_in_flight (lc_cstat conn)"
proof -
  obtain conn0 conn where c: "loss_reach loss_env0 conn" "map pn (flight conn) = [3, 0]" "map lost (flight conn) = [False, True]" by (rule loss_ack_reach)
  note p = loss_counters [OF c(1) loss_env0_ok]
  from c(3) obtain a b where f: "flight conn = [a, b]" "\<not> lost a" "lost b" by (auto simp: map_eq_Cons_conv)
  have "rtb_num_lost_pkts (lc_rtb conn) = length (filter lost (flight conn))" using p unfolding counts_def by blast
  then have "rtb_num_lost_pkts (lc_rtb conn) = 1" by (simp add: f)
  moreover have "rtb_cc_bytes_in_flight (lc_rtb conn) \<le> cs_bytes_in_flight (lc_cstat conn)" using p by (elim conjE)
  ultimately show ?thesis using c loss_env0_ok by (intro exI [of _ conn] conjI)
qed


theorem recv_ack_exact_witness:
  "\<exists>conn conn'. loss_reach loss_env0 conn \<and> map pn (flight conn) = [4, 3, 0] \<and> ack_decoded loss_ack \<and> ngtcp2_pkt_validate_ack loss_ack 0 = Ok () \<and>
     ngtcp2_rtb_recv_ack loss_env0 conn loss_ack 1 1 = Ok (conn', 1) \<and>
     length (filter (\<lambda>e. acks_pkt loss_ack (pn e) \<and> sint (rtb_cc_pkt_num (lc_rtb conn)) \<le> pn e) (flight conn)) = 1 \<and>
     map pn (flight conn') = [3, 0] \<and> map lost (flight conn') = [False, True]"
proof -
  obtain conn conn' where c: "ngtcp2_rtb_recv_ack loss_env0 conn loss_ack 1 1 = Ok (conn', 1)" "map pn (flight conn') = [3, 0]"
    "map lost (flight conn') = [False, True]"
    and d: "loss_reach loss_env0 conn" "map pn (flight conn) = [4, 3, 0]" "\<forall>e \<in> set (flight conn). \<not> skip e"
      "cs_max_tx_udp_payload_size (lc_cstat conn) = 10" by (rule loss_ack_reach)
  have r: "\<not> (\<exists>e \<in> set (flight conn). acks_pkt loss_ack (pn e) \<and> skip e)" "0 < cs_max_tx_udp_payload_size (lc_cstat conn)" using d(3,4) by auto
  note p = recv_ack_exact [OF d(1) loss_env0_ok r(2) loss_ack_valid, of 1 1]
  have "length (filter (\<lambda>e. acks_pkt loss_ack (pn e) \<and> sint (rtb_cc_pkt_num (lc_rtb conn)) \<le> pn e) (flight conn)) = 1"
    using p unfolding if_not_P [OF r(1)] c(1) by simp
  then show ?thesis using c d(1,2) loss_ack_valid by (intro exI [of _ conn] exI [of _ conn'] conjI)
qed

theorem detect_lost_exact_witness:
  "\<exists>conn conn'. loss_reach loss_env0 conn \<and> sorted_wrt (\<lambda>a b. en_ts b \<le> en_ts a) (flight conn) \<and> map pn (flight conn) = [3, 0] \<and>
     map lost (flight conn) = [False, True] \<and> ngtcp2_rtb_detect_lost_pkt loss_env0 conn 2000001 = Ok conn' \<and>
     map lost (flight conn') = [True, True] \<and> cs_loss_time (lc_cstat conn') = UINT64_MAX"
proof -
  obtain conn0 conn where c: "loss_sent = Ok conn0" "ngtcp2_rtb_recv_ack loss_env0 conn0 loss_ack 1 1 = Ok (conn, 1)" "loss_reach loss_env0 conn"
    "map pn (flight conn) = [3, 0]" "map lost (flight conn) = [False, True]" "map en_ts (flight conn) = [1, 1]"
    "cs_max_tx_udp_payload_size (lc_cstat conn) = 10" by (rule loss_ack_reach)
  obtain conn' where d: "ngtcp2_rtb_detect_lost_pkt loss_env0 conn 2000001 = Ok conn'" "map lost (flight conn') = [True, True]"
    using loss_detect_run unfolding c(1) bindR.simps c(2) prod.case by (auto split: res.splits)
  from c(6) have o: "sorted_wrt (\<lambda>a b. en_ts b \<le> en_ts a) (flight conn)" by (auto simp: map_eq_Cons_conv)
  have z: "0 < cs_max_tx_udp_payload_size (lc_cstat conn)" by (simp add: c(7))
  note p = detect_lost_exact [OF c(3) loss_env0_ok z o, of 2000001]
  let ?D = "\<lambda>e. \<not> lost e \<and> pn e \<le> sint (rtb_largest_acked_tx_pkt_num (lc_rtb conn)) \<and>
    overdue (rtb_largest_acked_tx_pkt_num (lc_rtb conn)) (compute_pkt_loss_delay (lc_cstat conn))
      (min (max (rtb_cc_bytes_in_flight (lc_rtb conn) div cs_max_tx_udp_payload_size (lc_cstat conn) div 2) 3) 256) 2000001 e"
  note q = p [unfolded d(1) okR_simps, THEN conjunct1] p [unfolded d(1) okR_simps, THEN conjunct2]
  have "filter (\<lambda>e. \<not> lost e \<and> \<not> ?D e) (flight conn) = []"
  proof (rule ccontr)
    assume n: "filter (\<lambda>e. \<not> lost e \<and> \<not> ?D e) (flight conn) \<noteq> []"
    define x where "x = List.hd (filter (\<lambda>e. \<not> lost e \<and> \<not> ?D e) (flight conn))"
    have x: "x \<in> set (filter (\<lambda>e. \<not> lost e \<and> \<not> ?D e) (flight conn))" unfolding x_def by (rule list.set_sel(1) [OF n])
    then have "x \<in> set (flight conn')" "\<not> lost x" unfolding q(1) by auto
    moreover have "\<forall>b \<in> set (map lost (flight conn')). b" unfolding d(2) by simp
    ultimately show False by auto
  qed
  then have "filter (\<lambda>e. \<not> lost e \<and> pn e \<le> sint (rtb_largest_acked_tx_pkt_num (lc_rtb conn)) \<and> \<not> ?D e) (flight conn) = []"
    by (auto simp: filter_empty_conv)
  then have "cs_loss_time (lc_cstat conn') = UINT64_MAX" unfolding q(2) by (simp add: earliest_def)
  then show ?thesis using c(3,4,5) o d by (intro exI [of _ conn] exI [of _ conn'] conjI)
qed

end
