(* ===== verification/Spec2Isabelle.thy ===== *)
theory Spec2Isabelle
  imports Frame_Roundtrip Pkt_Header Pkt_Num Gaptr Ringbuf Strmq Hashmap_Correct Acktr_Correct
    Transport_Params_Correct Recv_Correct Vec Pmtud Window_Filter Dcid_Conn_Correct
    Rtb_Correct
begin

text \<open>
  A verification library for zngtcp2, an implementation of the QUIC transport protocol in C.

  \<^bold>\<open>The program.\<close> The connection (\<open>lib/ngtcp2_conn.c\<close>) composes the parts below with a TLS stack: it
  decodes packet headers and frames (\<open>lib/ngtcp2_pkt.c\<close> over \<open>lib/ngtcp2_conv.c\<close>), tracks what it has
  received and what has been acknowledged in ordered maps (\<open>lib/ngtcp2_ksl.c\<close>, and over it
  \<open>lib/ngtcp2_gaptr.c\<close> and \<open>lib/ngtcp2_idtr.c\<close>), and encodes frames and headers of the packets it sends.

  \<^bold>\<open>Conventions.\<close> \<open>Prelude\<close> has the result type: \<open>Ok\<close>, \<open>Err\<close> with the library's error code, and
  \<open>Fault\<close> for what must not happen, an access out of bounds or a failed assertion. A theorem that an
  operation returns \<open>Ok\<close> or \<open>Err\<close> therefore is a memory safety statement. Integers are words of
  the width they have in C. A read pointer is the list of the bytes behind it; an output buffer is a
  list of bytes and an offset. Structures are passed and returned.

  \<^bold>\<open>Theories.\<close>
  \<^item> \<open>Conv\<close>: integers on the wire. Round trips and lengths.
  \<^item> \<open>Frame\<close>, \<open>Frame_Decode\<close>, \<open>Frame_Encode\<close>, \<open>Frame_Roundtrip\<close>: the frames of \<open>lib/ngtcp2_pkt.h\<close>,
    the decoder and the encoder of \<open>lib/ngtcp2_pkt.c\<close>; the decoder stays in the payload, the encoder writes
    exactly the wire format \<open>frame_bytes\<close>, and the decoder inverts it for the frames that are \<open>frame_sendable\<close>.
  \<^item> \<open>Pkt_Header\<close>, \<open>Pkt_Num\<close>: packet headers, packet number recovery, validation of ACK frames and the
    size limits for stream and crypto data.
  \<^item> \<open>Range\<close>, \<open>Ksl\<close>: offset ranges and the operations of the ordered map, a B+ tree with
    chained leaves; \<open>Ksl_Insert\<close>, \<open>Ksl_Search\<close>, \<open>Ksl_Remove\<close>, \<open>Ksl_Correct\<close>: its invariant, and that
    insertion, search, iteration, removal and key update implement an abstract map. The interface is
    the locale \<open>ksl_order\<close>, interpreted for the three orders the library uses.
  \<^item> \<open>Gaptr\<close>: the gap tracker and the stream ID tracker over the map, as sets of offsets.
  \<^item> \<open>Ringbuf\<close>: the ring buffer of \<open>lib/ngtcp2_ringbuf.c\<close> as a bounded double-ended queue.
  \<^item> \<open>Pq\<close>: the binary heap of \<open>lib/ngtcp2_pq.c\<close> as a multiset with minimum. \<open>Strmq\<close>: the queue of streams
    with data to send, which \<open>lib/ngtcp2_conn.c\<close> keeps in a heap ordered by wrapping cycle numbers, and that it is fair while no stream enters or leaves it.
  \<^item> \<open>Hashmap\<close>, \<open>Hashmap_Table\<close>, \<open>Hashmap_Correct\<close>: the Robin Hood hash table of \<open>lib/ngtcp2_map.c\<close>, its probe
    length invariant, that it implements an abstract map while it has fewer than 254 entries, and a table whose probe lengths overflow.
  \<^item> \<open>Acktr\<close>, \<open>Acktr_Ents\<close>, \<open>Acktr_Correct\<close>: the ACK tracker of \<open>lib/ngtcp2_acktr.c\<close>, the ranges of packet numbers to
    acknowledge and the ring of ACK frames sent, as a set of packet numbers; every state that a run of its operations
    reaches (\<open>acktr_reach\<close>) satisfies its invariant, and the frames it creates acknowledge only packets received.
  \<^item> \<open>Transport_Params\<close>, \<open>Transport_Params_Correct\<close>: the encoder and the decoder of \<open>lib/ngtcp2_transport_params.c\<close>; the decoder stays
    in its data and enforces its limits (\<open>tp_limits\<close>; the connection checks others later), and reads back what the encoder writes.
  \<^item> \<open>Reorder\<close>: the buffers of data received out of order of \<open>lib/ngtcp2_reorder.c\<close>, as a partial map from offsets to bytes, and the
    owners of its buffers as a multiset. \<open>Ratelim\<close>: the token bucket of \<open>lib/ngtcp2_ratelim.c\<close>. \<open>Recv\<close>, \<open>Recv_Correct\<close>: the receiving
    side of a stream of \<open>lib/ngtcp2_strm.c\<close> and the handling of CRYPTO frames in \<open>lib/ngtcp2_conn.c\<close>; the answers of the
    application and of the allocators are parameters, and the calls of callbacks are recorded. In every state that frames of a
    stream reach (\<open>crypto_reach\<close>), what has been delivered is the beginning of the stream.
  \<^item> \<open>Vec\<close>: vectors of pieces of memory (\<open>lib/ngtcp2_vec.c\<close>), as the list of the addresses of their bytes. \<open>Pmtud\<close>: path MTU discovery
    (\<open>lib/ngtcp2_pmtud.c\<close>), a state machine with the runs \<open>pmtud_run\<close>. \<open>Window_Filter\<close>: the maximum filter of \<open>lib/ngtcp2_window_filter.c\<close>.
  \<^item> \<open>Cid\<close>: addresses, paths and connection IDs (\<open>lib/ngtcp2_addr.c\<close>, \<open>lib/ngtcp2_path.c\<close>, \<open>lib/ngtcp2_cid.c\<close>). \<open>Dcidtr\<close>, \<open>Dcidtr_Correct\<close>: the
    tracker of destination connection IDs of \<open>lib/ngtcp2_dcidtr.c\<close> over three ring buffers; the callbacks of the application are parameters.
    \<open>Pv\<close>: path validation (\<open>lib/ngtcp2_pv.c\<close>) with the runs \<open>pv_run\<close>. \<open>Dcid_Conn\<close>, \<open>Dcid_Conn_Correct\<close>: how \<open>lib/ngtcp2_conn.c\<close> uses them
    with the gap tracker for NEW_CONNECTION_ID frames, the retirement and the binding of IDs; the invariant \<open>dcids_ok\<close> bounds the IDs held,
    and \<open>accounted\<close> says that the peer is told of every ID given up.
  \<^item> \<open>Rst\<close>: the estimation of the delivery rate (\<open>lib/ngtcp2_rst.c\<close>). \<open>Rtb\<close>: the packets in flight of a packet number space
    (\<open>lib/ngtcp2_rtb.c\<close>) with the ECN validation and the round trip time of \<open>lib/ngtcp2_conn.c\<close>; the frames of a packet that is lost or
    acknowledged, the congestion controller and the other packet number spaces are the parameters \<open>loss_env\<close>. \<open>Rtb_Loss\<close>,
    \<open>Rtb_Ack\<close>, \<open>Rtb_Correct\<close>: the invariant \<open>loss_inv\<close> that ties the counters to the packets, loss detection, acknowledgements, and that
    the invariant holds in every state that a run of the operations reaches (\<open>loss_reach\<close>), Retry among them when nothing has been acknowledged before it (\<open>retry_ready\<close>).
  \<^item> \<open>Ksl_Data\<close>: stores through the data pointers of the ordered map.

  \<^bold>\<open>Bounds and fuel.\<close> Loops are recursive functions with a termination proof; the loop of
  \<open>ngtcp2_gaptr_push\<close> has fuel, the number of gaps plus two, and the probing loops of the hash table have the length
  of the table as fuel, and the loop of \<open>ngtcp2_acktr_forget\<close> and those over the packets in flight the number of entries plus one. Running out of fuel would be a fault, which the theorems exclude.

  \<^bold>\<open>Defects.\<close> Theorems state where the code does not do what it means to, for every state with the conditions named there: an allocation that
  fails in \<open>ksl_split_root\<close>, data dropped by \<open>ngtcp2_reorder_push\<close>, a buffer released twice when a stream is too fragmented, the conversion of
  \<open>max_idle_timeout\<close>, a RETIRE_CONNECTION_ID frame for an ID that stays in use, \<open>ngtcp2_vec_merge\<close> into an empty vector, and, for one
  table, the overflow of \<open>psl\<close> in \<open>lib/ngtcp2_map.c\<close>.

  \<^bold>\<open>Not modelled.\<close> The TLS stack and packet protection, which call external code for every
  operation; the congestion controllers, and what \<open>lib/ngtcp2_rtb.c\<close> does with the frames of a packet; memory management, logging and
  printing; statistics of buffers.
\<close>

end
